(* ===== verification/Prelude.thy ===== *)
theory Prelude
  imports Main "HOL-Library.Word"
begin

text \<open>
  Shared ground of the development: the fixed-width and truncating integer arithmetic of
  C++ on \<^typ>\<open>int\<close> (conversions to \<open>std::uintN_t\<close> and \<open>std::intN_t\<close>, the division and
  remainder that round towards zero), loops over index ranges and over the set bits of a
  bit vector as folds, and the lemma collections the component theories feed.
\<close>

named_theorems cpp_arith \<open>unfolding the fixed-width integer conversions\<close>
named_theorems frame \<open>fields and cells an operation leaves unchanged\<close>

section \<open>Fixed-width integers\<close>

text \<open>\<open>static_cast\<close> to an unsigned type of width \<open>w\<close> reduces modulo \<open>2 ^ w\<close>; to a signed
  type it is the representative in \<open>[- 2 ^ (w - 1), 2 ^ (w - 1))\<close> (two's complement).\<close>

definition wrap_u :: "nat \<Rightarrow> int \<Rightarrow> int" where
  "wrap_u w x = x mod 2 ^ w"

definition wrap_s :: "nat \<Rightarrow> int \<Rightarrow> int" where
  "wrap_s w x = (x + 2 ^ (w - 1)) mod 2 ^ w - 2 ^ (w - 1)"

abbreviation u8 :: "int \<Rightarrow> int" where "u8 \<equiv> wrap_u 8"
abbreviation u16 :: "int \<Rightarrow> int" where "u16 \<equiv> wrap_u 16"
abbreviation u32 :: "int \<Rightarrow> int" where "u32 \<equiv> wrap_u 32"
abbreviation i8 :: "int \<Rightarrow> int" where "i8 \<equiv> wrap_s 8"
abbreviation i16 :: "int \<Rightarrow> int" where "i16 \<equiv> wrap_s 16"
abbreviation i32 :: "int \<Rightarrow> int" where "i32 \<equiv> wrap_s 32"

lemma wrap_u_id [simp]: "0 \<le> x \<Longrightarrow> x < 2 ^ w \<Longrightarrow> wrap_u w x = x"
  by (simp add: wrap_u_def)

lemma wrap_u_nonneg [simp]: "0 \<le> wrap_u w x"
  by (simp add: wrap_u_def)

lemma wrap_u_bound [simp]: "wrap_u w x < 2 ^ w"
  by (simp add: wrap_u_def)

lemma wrap_s_id: "- (2 ^ (w - 1)) \<le> x \<Longrightarrow> x < 2 ^ (w - 1) \<Longrightarrow> 0 < w \<Longrightarrow> wrap_s w x = x"
  by (cases w) (simp_all add: wrap_s_def)

lemma wrap_s16_id: "- 32768 \<le> x \<Longrightarrow> x < 32768 \<Longrightarrow> i16 x = x"
  by (rule wrap_s_id) simp_all

lemma wrap_s16_bounds: "- 32768 \<le> i16 x" "i16 x \<le> 32767"
  using pos_mod_sign [of 65536 "x + 32768"] pos_mod_bound [of 65536 "x + 32768"]
  by (simp_all add: wrap_s_def)

lemma wrap_s8_id: "- 128 \<le> x \<Longrightarrow> x < 128 \<Longrightarrow> i8 x = x"
  by (rule wrap_s_id) simp_all

lemmas wrap_code [cpp_arith] = wrap_u_def wrap_s_def

section \<open>Truncating division\<close>

text \<open>\<open>a / b\<close> and \<open>a % b\<close> of C++ on signed operands round towards zero.\<close>

definition cdiv :: "int \<Rightarrow> int \<Rightarrow> int" where
  "cdiv a b = sgn a * sgn b * (\<bar>a\<bar> div \<bar>b\<bar>)"

definition cmod :: "int \<Rightarrow> int \<Rightarrow> int" where
  "cmod a b = a - b * cdiv a b"

lemma cdiv_nonneg [simp]: "0 \<le> a \<Longrightarrow> 0 < b \<Longrightarrow> cdiv a b = a div b"
  by (cases "a = 0") (simp_all add: cdiv_def)

lemma cmod_nonneg [simp]: "0 \<le> a \<Longrightarrow> 0 < b \<Longrightarrow> cmod a b = a mod b"
  by (simp add: cmod_def minus_mult_div_eq_mod)

lemma cdiv_neg: "a < 0 \<Longrightarrow> 0 < b \<Longrightarrow> cdiv a b = - ((- a) div b)"
  by (simp add: cdiv_def)

lemma cmod_neg: "a < 0 \<Longrightarrow> 0 < b \<Longrightarrow> cmod a b = - ((- a) mod b)"
  by (simp add: cmod_def cdiv_neg minus_div_mult_eq_mod [symmetric] algebra_simps)

lemma cdiv_cmod: "b * cdiv a b + cmod a b = a"
  by (simp add: cmod_def)

section \<open>Loops over set bits and index ranges\<close>

text \<open>\<open>bitvec::for_each_set_bit\<close> visits the set positions in ascending order.\<close>

definition set_bits :: "bool list \<Rightarrow> nat list" where
  "set_bits bs = filter (\<lambda>i. bs ! i) [0..<length bs]"

lemma set_set_bits [simp]: "set (set_bits bs) = {i. i < length bs \<and> bs ! i}"
  by (auto simp: set_bits_def)

lemma sorted_set_bits: "sorted_wrt (<) (set_bits bs)"
  unfolding set_bits_def by (rule sorted_wrt_filter) simp

text \<open>An invariant every loop body keeps holds after the loop.\<close>

lemma fold_invariant:
  assumes "P s" and "\<And>x s. x \<in> set xs \<Longrightarrow> P s \<Longrightarrow> P (f x s)"
  shows "P (fold f xs s)"
  using assms by (induction xs arbitrary: s) auto

lemma fold_keeps:
  assumes "\<And>x s. x \<in> set xs \<Longrightarrow> g (f x s) = g s"
  shows "g (fold f xs s) = g s"
  using assms by (induction xs arbitrary: s) auto

lemma fold_relation:
  assumes "\<And>s. R s s" and "\<And>a b c. R a b \<Longrightarrow> R b c \<Longrightarrow> R a c"
    and "\<And>x s. x \<in> set xs \<Longrightarrow> R s (f x s)"
  shows "R s (fold f xs s)"
  using assms(3) by (induction xs arbitrary: s) (auto intro: assms(1,2))

lemma fold_min_le: "fold min xs (a :: 'a :: linorder) \<le> a"
proof (induction xs arbitrary: a)
  case (Cons x xs)
  from Cons.IH [of "min x a"] show ?case by simp
qed simp

lemma fold_min_le_mem: "x \<in> set xs \<Longrightarrow> fold min xs (a :: 'a :: linorder) \<le> x"
proof (induction xs arbitrary: a)
  case (Cons y xs)
  then show ?case using fold_min_le [of xs "min y a"] by auto
qed simp

lemma fold_min_mem: "fold min xs (a :: 'a :: linorder) \<in> insert a (set xs)"
  by (induction xs arbitrary: a) (fastforce simp: min_def)+


section \<open>Loops with \<open>break\<close>\<close>

text \<open>A range loop whose body says whether it goes on.\<close>

fun for_break :: "('i \<Rightarrow> 's \<Rightarrow> bool \<times> 's) \<Rightarrow> 'i list \<Rightarrow> 's \<Rightarrow> 's" where
  "for_break f [] s = s"
| "for_break f (x # xs) s = (case f x s of (go, s') \<Rightarrow> if go then for_break f xs s' else s')"

lemma for_break_invariant:
  assumes "P s" and "\<And>x s. x \<in> set xs \<Longrightarrow> P s \<Longrightarrow> P (snd (f x s))"
  shows "P (for_break f xs s)"
  using assms
proof (induction xs arbitrary: s)
  case (Cons x xs)
  then have "P (snd (f x s))" by simp
  with Cons show ?case by (simp split: prod.split) (metis Cons.IH list.set_intros(2) snd_conv)
qed simp

text \<open>With an invariant that follows the position.\<close>

lemma for_break_upt_invariant:
  assumes "P 0 s" and "\<And>i s. i < n \<Longrightarrow> P i s \<Longrightarrow> P (Suc i) (snd (f i s))"
    and "\<And>i s. P i s \<Longrightarrow> Q s"
  shows "Q (for_break f [0..<n] s)"
proof -
  have "Q (for_break f [i..<n] s)" if "P i s" "i \<le> n" for i s
    using that
  proof (induction "n - i" arbitrary: i s)
    case 0
    then show ?case using assms(3) by simp
  next
    case (Suc m)
    then have i: "[i..<n] = i # [Suc i..<n]" "i < n" by (simp_all add: upt_conv_Cons)
    from assms(2) [OF i(2) Suc.prems(1)] have step: "P (Suc i) (snd (f i s))" .
    with Suc(1) [of "Suc i"] Suc(2) i(2) assms(3) show ?case
      by (simp add: i(1) split: prod.split) (metis Suc_diff_Suc Suc_leI diff_Suc_Suc nat.inject snd_conv)
  qed
  from this [of 0 s] assms(1) show ?thesis by simp
qed

section \<open>Resizing\<close>

text \<open>\<open>bitvec::resize\<close> fills with false; \<open>vecvec::resize\<close> adds empty buckets.\<close>

definition resize :: "'a \<Rightarrow> nat \<Rightarrow> 'a list \<Rightarrow> 'a list" where
  "resize x n xs = take n xs @ replicate (n - length xs) x"

lemma resize_longer: "length xs \<le> n \<Longrightarrow> resize x n xs = xs @ replicate (n - length xs) x"
  by (simp add: resize_def)

lemma length_resize [simp]: "length (resize x n xs) = n"
  by (simp add: resize_def)

lemma nth_resize: "i < length xs \<Longrightarrow> i < n \<Longrightarrow> resize x n xs ! i = xs ! i"
  by (simp add: resize_def nth_append)

section \<open>Loops whose body may throw\<close>

primrec fold_opt :: "('a \<Rightarrow> 's \<Rightarrow> 's option) \<Rightarrow> 'a list \<Rightarrow> 's \<Rightarrow> 's option" where
  "fold_opt f [] s = Some s"
| "fold_opt f (x # xs) s = (case f x s of None \<Rightarrow> None | Some s' \<Rightarrow> fold_opt f xs s')"

lemma fold_opt_append: "fold_opt f (xs @ ys) s = Option.bind (fold_opt f xs s) (fold_opt f ys)"
  by (induction xs arbitrary: s) (auto split: option.split)

lemma those_nth: "those xs = Some ys \<Longrightarrow> length ys = length xs \<and> (\<forall>i < length xs. xs ! i = Some (ys ! i))"
proof (induction xs arbitrary: ys)
  case (Cons x xs)
  then obtain y zs where "x = Some y" "those xs = Some zs" "ys = y # zs" by (auto split: option.splits)
  with Cons.IH show ?case by (auto simp: less_Suc_eq_0_disj)
qed simp

lemma those_defined: "those xs = Some ys \<Longrightarrow> x \<in> set xs \<Longrightarrow> x \<noteq> None"
  by (induction xs arbitrary: ys) (auto split: option.splits)

lemma those_set: "those xs = Some ys \<Longrightarrow> Some y \<in> set xs \<longleftrightarrow> y \<in> set ys"
  by (induction xs arbitrary: ys) (auto split: option.splits)

text \<open>\<open>std::unique\<close>: of each run of elements with the same key the first one stays.\<close>

function uniq_by :: "('a \<Rightarrow> 'b) \<Rightarrow> 'a list \<Rightarrow> 'a list" where
  "uniq_by k [] = []"
| "uniq_by k (x # xs) = x # uniq_by k (dropWhile (\<lambda>y. k y = k x) xs)"
  by pat_completeness auto
termination by (relation "measure (\<lambda>(k, xs). length xs)") (auto simp: length_dropWhile_le less_Suc_eq_le)

text \<open>\<open>utl::equal_ranges_linear\<close>: the maximal runs of neighbours with equal keys.\<close>

function equal_ranges :: "('a \<Rightarrow> 'k) \<Rightarrow> 'a list \<Rightarrow> 'a list list" where
  "equal_ranges key [] = []"
| "equal_ranges key (x # xs) =
     (x # takeWhile (\<lambda>y. key y = key x) xs) # equal_ranges key (dropWhile (\<lambda>y. key y = key x) xs)"
  by pat_completeness auto
termination
  by (relation "measure (length \<circ> snd)") (auto simp: le_imp_less_Suc length_dropWhile_le)

lemma equal_ranges_concat: "concat (equal_ranges key xs) = xs"
  by (induction key xs rule: equal_ranges.induct) simp_all

lemma set_uniq_by_subset: "set (uniq_by k xs) \<subseteq> set xs"
proof (induction k xs rule: uniq_by.induct)
  case (2 k x xs)
  then show ?case using set_dropWhileD by fastforce
qed simp

lemma keys_uniq_by: "k ` set (uniq_by k xs) = k ` set xs"
proof (induction k xs rule: uniq_by.induct)
  case (2 k x xs)
  have "k ` set xs \<subseteq> insert (k x) (k ` set (dropWhile (\<lambda>y. k y = k x) xs))"
  proof
    fix b assume "b \<in> k ` set xs"
    then obtain y where y: "y \<in> set xs" "b = k y" by auto
    then have "y \<in> set (takeWhile (\<lambda>y. k y = k x) xs) \<or> y \<in> set (dropWhile (\<lambda>y. k y = k x) xs)"
      by (metis Un_iff set_append takeWhile_dropWhile_id)
    with y(2) show "b \<in> insert (k x) (k ` set (dropWhile (\<lambda>y. k y = k x) xs))" by (auto dest: set_takeWhileD)
  qed
  moreover have "k ` set (dropWhile (\<lambda>y. k y = k x) xs) \<subseteq> k ` set xs" by (auto dest: set_dropWhileD)
  ultimately show ?case using 2 by auto
qed simp

lemma sorted_map_dropWhile: "sorted (map k xs) \<Longrightarrow> sorted (map k (dropWhile P xs))"
  by (metis drop_map dropWhile_eq_drop sorted_wrt_drop)

lemma dropWhile_sorted_gt:
  fixes k :: "'a \<Rightarrow> 'b :: linorder"
  assumes "sorted (map k (x # xs))" "y \<in> set (dropWhile (\<lambda>y. k y = k x) xs)"
  shows "k x < k y"
proof -
  let ?d = "dropWhile (\<lambda>y. k y = k x) xs"
  obtain z zs where d: "?d = z # zs" using assms(2) by (cases ?d) auto
  then have "k z \<noteq> k x" using hd_dropWhile [of "\<lambda>y. k y = k x" xs] by simp
  moreover have "z \<in> set xs" using d set_dropWhileD [of z "\<lambda>y. k y = k x" xs] by simp
  ultimately have "k x < k z" using assms(1) by force
  moreover have "sorted (map k ?d)" using assms(1) by (simp add: sorted_map_dropWhile)
  ultimately show ?thesis using assms(2) unfolding d by auto
qed

lemma uniq_by_sorted:
  fixes k :: "'a \<Rightarrow> 'b :: linorder"
  shows "sorted (map k xs) \<Longrightarrow> sorted_wrt (\<lambda>a b. k a < k b) (uniq_by k xs)"
proof (induction k xs rule: uniq_by.induct)
  case (2 k x xs)
  have "sorted (map k (dropWhile (\<lambda>y. k y = k x) xs))" using "2.prems" by (simp add: sorted_map_dropWhile)
  with 2 have "sorted_wrt (\<lambda>a b. k a < k b) (uniq_by k (dropWhile (\<lambda>y. k y = k x) xs))" by simp
  moreover have "k x < k y" if "y \<in> set (uniq_by k (dropWhile (\<lambda>y. k y = k x) xs))" for y
    using dropWhile_sorted_gt [OF "2.prems"] that set_uniq_by_subset by fastforce
  ultimately show ?case by simp
qed simp

end
