(* ===== verification/Nigiri_Types.thy ===== *)
theory Nigiri_Types
  imports Prelude "HOL-Library.Char_ord"
begin

text \<open>
  The vocabulary of \<open>include/nigiri/types.h\<close>: search directions, event types, transport
  classes, the packed \<open>delta\<close> (5 bits of days, 11 bits of minutes), route colours, scoped
  shape indices and the time zone offsets with their seasons. Strong index types
  (\<open>location_idx_t\<close>, \<open>route_idx_t\<close>, ...) are \<^typ>\<open>nat\<close>, durations and points in time are
  minutes as \<^typ>\<open>int\<close>, with the conversions to the source's widths written out.
\<close>

unbundle bit_operations_syntax

section \<open>Enumerations\<close>

datatype direction = Forward | Backward

datatype event_type = Arr | Dep

datatype clasz = kAir | kHighSpeed | kLongDistance | kCoach | kNight | kRideSharing | kRegional
  | kSuburban | kSubway | kTram | kBus | kShip | kODM | kFunicular | kAerialLift | kOther

datatype route_flag = kBikesAllowed | kCarsAllowed | kWheelchairAccessible
  | kReservationNotRequired

datatype location_type = kGeneratedTrack | kTrack | kStation

datatype location_match_mode = kExact | kOnlyChildren | kEquivalent | kIntermodal

primrec clasz_idx :: "clasz \<Rightarrow> nat" where
  "clasz_idx kAir = 0" | "clasz_idx kHighSpeed = 1" | "clasz_idx kLongDistance = 2"
| "clasz_idx kCoach = 3" | "clasz_idx kNight = 4" | "clasz_idx kRideSharing = 5"
| "clasz_idx kRegional = 6" | "clasz_idx kSuburban = 7" | "clasz_idx kSubway = 8"
| "clasz_idx kTram = 9" | "clasz_idx kBus = 10" | "clasz_idx kShip = 11"
| "clasz_idx kODM = 12" | "clasz_idx kFunicular = 13" | "clasz_idx kAerialLift = 14"
| "clasz_idx kOther = 15"

primrec route_flag_idx :: "route_flag \<Rightarrow> nat" where
  "route_flag_idx kBikesAllowed = 0" | "route_flag_idx kCarsAllowed = 1"
| "route_flag_idx kWheelchairAccessible = 2" | "route_flag_idx kReservationNotRequired = 3"

lemma clasz_idx_less: "clasz_idx c < 16"
  by (cases c) simp_all

lemma clasz_idx_inj: "clasz_idx a = clasz_idx b \<longleftrightarrow> a = b"
  by (cases a; cases b) simp_all

primrec flip :: "direction \<Rightarrow> direction" where
  "flip Forward = Backward"
| "flip Backward = Forward"

definition flip_by :: "direction \<Rightarrow> direction \<Rightarrow> direction" where
  "flip_by Dir d = (if Dir = Forward then d else flip d)"

lemma flip_flip [simp]: "flip (flip d) = d"
  by (cases d) simp_all

text \<open>Event positions within a run: departure 0, arrival 1, departure 1, ... are numbered
  0, 1, 2, ...; \<open>stop_idx\<close> is 16 bits wide, so the cast to \<open>unsigned\<close> wraps only for the
  arrival at the first stop, which has no event.\<close>

primrec event_idx :: "nat \<Rightarrow> event_type \<Rightarrow> nat" where
  "event_idx s Dep = s * 2"
| "event_idx s Arr = (if s = 0 then 4294967295 else s * 2 - 1)"

definition has_profile_td_footpaths :: "nat \<Rightarrow> bool" where
  "has_profile_td_footpaths prf_idx \<longleftrightarrow> prf_idx \<noteq> 0"

text \<open>A transport on a traffic day. \<open>transport::invalid()\<close> is \<^const>\<open>None\<close> of
  \<open>transport option\<close>.\<close>

record transport =
  t_idx :: nat
  t_day :: nat

text \<open>\<open>bitfield\<close> is \<open>bitset<512>\<close>: a 512 bit word, bit \<open>d\<close> for day \<open>d\<close>.\<close>

type_synonym bitfield = "512 word"

section \<open>delta: days and minutes after midnight in 16 bits\<close>

record delta =
  days :: int
  mam :: int

definition mk_delta :: "int \<Rightarrow> int \<Rightarrow> delta" where
  "mk_delta d m = \<lparr>days = d mod 32, mam = m mod 2048\<rparr>"

definition delta_of_duration :: "int \<Rightarrow> delta" where
  "delta_of_duration d = mk_delta (u16 (cdiv d 1440)) (u16 (cmod d 1440))"

definition delta_of_minutes :: "int \<Rightarrow> delta" where
  "delta_of_minutes m = mk_delta (m div 1440) (m mod 1440)"

definition delta_of_offset :: "int \<Rightarrow> int \<Rightarrow> delta" where
  "delta_of_offset day_offset minutes_offset =
     mk_delta (u16 (day_offset + 1)) (u16 (minutes_offset + 720))"

definition delta_minus :: "delta \<Rightarrow> delta \<Rightarrow> delta" where
  "delta_minus a b = delta_of_minutes (u16 ((days a - days b) * 1440 + (mam a - mam b)))"

definition delta_plus :: "delta \<Rightarrow> delta \<Rightarrow> delta" where
  "delta_plus a b =
     (let m = u16 (mam a + mam b); d = u16 (days a + days b)
      in if 1440 \<le> m then mk_delta (u16 (d + 1)) (u16 (m - 1440)) else mk_delta d m)"

definition as_duration :: "delta \<Rightarrow> int" where
  "as_duration d = i16 (i16 (days d * 1440) + i16 (mam d * 1))"

definition to_offset :: "delta \<Rightarrow> int \<times> int" where
  "to_offset d = (days d - 1, mam d - 720)"

definition delta_count :: "delta \<Rightarrow> int" where
  "delta_count d = i16 (u32 (days d * 1440 + mam d))"

text \<open>The exact number of minutes a delta stands for, and the deltas the loaders produce:
  a time of day below 24:00 and at most 31 whole days.\<close>

definition delta_minutes :: "delta \<Rightarrow> int" where
  "delta_minutes d = days d * 1440 + mam d"

definition delta_norm :: "delta \<Rightarrow> bool" where
  "delta_norm d \<longleftrightarrow> 0 \<le> days d \<and> days d < 32 \<and> 0 \<le> mam d \<and> mam d < 1440"

lemma mk_delta_norm:
  "0 \<le> m \<Longrightarrow> m < 1440 \<Longrightarrow> delta_norm (mk_delta d m)"
  by (simp add: mk_delta_def delta_norm_def)

lemma mk_delta_eq [simp]:
  "0 \<le> d \<Longrightarrow> d < 32 \<Longrightarrow> 0 \<le> m \<Longrightarrow> m < 2048 \<Longrightarrow> mk_delta d m = \<lparr>days = d, mam = m\<rparr>"
  by (simp add: mk_delta_def)

lemma delta_norm_minutes:
  "delta_norm d \<Longrightarrow> 0 \<le> delta_minutes d \<and> delta_minutes d < 46080"
  by (simp add: delta_norm_def delta_minutes_def)

lemma delta_norm_split:
  assumes "delta_norm d"
  shows "delta_minutes d div 1440 = days d" "delta_minutes d mod 1440 = mam d"
proof -
  have m: "0 \<le> mam d" "mam d < 1440" using assms by (simp_all add: delta_norm_def)
  have "(mam d + days d * 1440) div 1440 = days d + mam d div 1440" by simp
  with m show "delta_minutes d div 1440 = days d"
    by (simp add: delta_minutes_def add.commute)
  from m show "delta_minutes d mod 1440 = mam d"
    by (simp add: delta_minutes_def)
qed

lemma delta_eqI: "days a = days b \<Longrightarrow> mam a = mam b \<Longrightarrow> a = (b :: delta)"
  by (cases a; cases b) simp

lemma delta_norm_inj: "delta_norm a \<Longrightarrow> delta_norm b \<Longrightarrow> delta_minutes a = delta_minutes b \<Longrightarrow> a = b"
  by (metis delta_eqI delta_norm_split)

lemma delta_of_minutes_norm:
  assumes "0 \<le> m" "m < 46080"
  shows "delta_norm (delta_of_minutes m)" "delta_minutes (delta_of_minutes m) = m"
proof -
  have "m div 1440 < 32" using assms by linarith
  moreover have "0 \<le> m div 1440" "0 \<le> m mod 1440" "m mod 1440 < 1440"
    using assms by (simp_all add: pos_imp_zdiv_nonneg_iff)
  ultimately have "delta_of_minutes m = \<lparr>days = m div 1440, mam = m mod 1440\<rparr>"
    by (simp add: delta_of_minutes_def)
  then show "delta_norm (delta_of_minutes m)" "delta_minutes (delta_of_minutes m) = m"
    using \<open>m div 1440 < 32\<close> \<open>0 \<le> m div 1440\<close> \<open>0 \<le> m mod 1440\<close> \<open>m mod 1440 < 1440\<close>
    by (simp_all add: delta_norm_def delta_minutes_def)
qed

lemma delta_plus_norm:
  assumes "delta_norm a" "delta_norm b" "delta_minutes a + delta_minutes b < 46080"
  shows "delta_norm (delta_plus a b)"
    "delta_minutes (delta_plus a b) = delta_minutes a + delta_minutes b"
proof -
  have bounds: "0 \<le> mam a" "mam a < 1440" "0 \<le> mam b" "mam b < 1440"
    "0 \<le> days a" "days a < 32" "0 \<le> days b" "days b < 32"
    using assms(1,2) by (simp_all add: delta_norm_def)
  have "delta_norm (delta_plus a b) \<and>
    delta_minutes (delta_plus a b) = delta_minutes a + delta_minutes b"
  proof (cases "1440 \<le> mam a + mam b")
    case True
    then have "days a + days b + 1 < 32" using assms(3) bounds by (simp add: delta_minutes_def)
    with True bounds show ?thesis
      by (simp add: delta_plus_def Let_def delta_norm_def delta_minutes_def)
  next
    case False
    have "days a + days b < 32" using assms(3) bounds by (simp add: delta_minutes_def)
    with False bounds show ?thesis
      by (simp add: delta_plus_def Let_def delta_norm_def delta_minutes_def)
  qed
  then show "delta_norm (delta_plus a b)"
    "delta_minutes (delta_plus a b) = delta_minutes a + delta_minutes b" by simp_all
qed

lemma delta_minus_norm:
  assumes "delta_norm a" "delta_norm b" "delta_minutes b \<le> delta_minutes a"
  shows "delta_norm (delta_minus a b)"
    "delta_minutes (delta_minus a b) = delta_minutes a - delta_minutes b"
proof -
  have eq: "(days a - days b) * 1440 + (mam a - mam b) = delta_minutes a - delta_minutes b"
    by (simp add: delta_minutes_def)
  have r: "0 \<le> delta_minutes a - delta_minutes b" "delta_minutes a - delta_minutes b < 46080"
    using assms delta_norm_minutes [of a] delta_norm_minutes [of b] by auto
  then show "delta_norm (delta_minus a b)"
    "delta_minutes (delta_minus a b) = delta_minutes a - delta_minutes b"
    unfolding delta_minus_def eq by (simp_all add: delta_of_minutes_norm)
qed

lemma delta_minus_inverse:
  assumes "delta_norm a" "delta_norm b" "delta_minutes b \<le> delta_minutes a"
  shows "delta_plus b (delta_minus a b) = a"
proof (rule delta_norm_inj)
  note m = delta_minus_norm [OF assms]
  have lt: "delta_minutes b + delta_minutes (delta_minus a b) < 46080"
    using m(2) delta_norm_minutes [OF assms(1)] by simp
  show "delta_norm (delta_plus b (delta_minus a b))" by (rule delta_plus_norm(1)) (use assms m lt in auto)
  show "delta_minutes (delta_plus b (delta_minus a b)) = delta_minutes a"
    using delta_plus_norm(2) [OF assms(2) m(1) lt] m(2) by simp
qed (rule assms(1))

text \<open>The subtraction that compresses stop times and the addition that reads
  them back are inverse: for two normalised deltas with \<open>b\<close> not after \<open>a\<close>,
  \<open>b + (a - b)\<close> is \<open>a\<close> again, through the 16 bit wrap-around, the carry at 24:00 and the
  truncation to 5 and 11 bits.\<close>

theorem delta_plus_minus:
  assumes "delta_norm a" "delta_norm b" "delta_minutes b \<le> delta_minutes a"
  shows "delta_plus b (delta_minus a b) = a"
  using assms by (rule delta_minus_inverse)

theorem delta_plus_minus_witness:
  "delta_plus \<lparr>days = 0, mam = 1430\<rparr> (delta_minus \<lparr>days = 1, mam = 10\<rparr> \<lparr>days = 0, mam = 1430\<rparr>)
     = \<lparr>days = 1, mam = 10\<rparr>"
  by (rule delta_plus_minus) (simp_all add: delta_norm_def delta_minutes_def)

lemma as_duration_minutes:
  assumes "delta_norm d" "delta_minutes d < 32768"
  shows "as_duration d = delta_minutes d" "delta_count d = delta_minutes d"
proof -
  have b: "0 \<le> days d * 1440" "days d * 1440 < 32768" "0 \<le> mam d" "mam d < 1440"
    using assms by (simp_all add: delta_norm_def delta_minutes_def)
  with assms(2) show "as_duration d = delta_minutes d" "delta_count d = delta_minutes d"
    by (simp_all add: as_duration_def delta_count_def delta_minutes_def wrap_s16_id)
qed

lemma as_duration_count: "as_duration d = delta_count d"
proof -
  have w: "wrap_s 16 (wrap_s 16 x + wrap_s 16 y) = wrap_s 16 (x + y)" for x y
  proof -
    have "wrap_s 16 x mod 65536 = x mod 65536" for x
      by (simp add: wrap_s_def mod_diff_left_eq)
    then have "(wrap_s 16 x + wrap_s 16 y + 32768) mod 65536 = (x + y + 32768) mod 65536"
      by (metis mod_add_cong mod_add_left_eq)
    then show ?thesis unfolding wrap_s_def [of 16 "wrap_s 16 x + wrap_s 16 y"]
        wrap_s_def [of 16 "x + y"] by simp
  qed
  have "(z mod 4294967296 + 32768) mod 65536 = (z + 32768) mod 65536" for z :: int
    proof -
    have "z mod 4294967296 mod 65536 = z mod 65536" by (rule mod_mod_cancel) simp
    then show ?thesis by (rule mod_add_cong) simp
  qed
  then have "wrap_s 16 (wrap_u 32 z) = wrap_s 16 z" for z
    by (simp add: wrap_s_def wrap_u_def)
  with w show ?thesis by (simp add: as_duration_def delta_count_def)
qed

lemma offset_roundtrip_wide:
  assumes "- 1 \<le> d" "d < 31" "- 720 \<le> m" "m < 1328"
  shows "to_offset (delta_of_offset d m) = (d, m)"
proof -
  from assms have "u16 (d + 1) = d + 1" "u16 (m + 720) = m + 720" by simp_all
  with assms show ?thesis by (simp add: to_offset_def delta_of_offset_def)
qed

text \<open>The stop time offsets of the loaders survive the packing: every pair the
  constructor's assertions admit (days from \<open>-1\<close> to \<open>29\<close>, minutes from \<open>-720\<close> to \<open>1319\<close>)
  is returned by \<open>to_offset\<close> unchanged.\<close>

theorem delta_offset_roundtrip:
  assumes "- 1 \<le> d" "d < 30" "- 720 \<le> m" "m < 1320"
  shows "to_offset (delta_of_offset d m) = (d, m)"
  using assms by (intro offset_roundtrip_wide) simp_all

theorem delta_offset_roundtrip_witness: "to_offset (delta_of_offset (- 1) 1319) = (- 1, 1319)"
  by (rule delta_offset_roundtrip) simp_all

end
