(* ===== verification/Intervals.thy ===== *)
theory Intervals
  imports Prelude
begin

text \<open>
  \<open>include/nigiri/common/interval.h\<close>: half-open intervals \<open>[from, to)\<close>, over any linear
  order, with their membership, overlap, intersection, hull and clamping operations.
  \<open>interval<T>{}\<close> is the interval of two zeros. The iterator's distance and the indexed
  access are the list \<open>[from ..< to]\<close> for index types.
\<close>

record 'a interval =
  ifrom :: 'a
  ito :: 'a

definition mk_iv :: "'a \<Rightarrow> 'a \<Rightarrow> 'a interval" where
  "mk_iv a b = \<lparr>ifrom = a, ito = b\<rparr>"

lemma mk_iv_sel [simp]: "ifrom (mk_iv a b) = a" "ito (mk_iv a b) = b"
  by (simp_all add: mk_iv_def)

lemma interval_eqI: "ifrom x = ifrom y \<Longrightarrow> ito x = ito y \<Longrightarrow> x = (y :: 'a interval)"
  by (cases x; cases y) simp

definition iv_shift_up :: "'a interval \<Rightarrow> 'a :: ab_group_add \<Rightarrow> 'a interval" where
  "iv_shift_up iv x = mk_iv (ifrom iv + x) (ito iv + x)"

definition iv_shift_down :: "'a interval \<Rightarrow> 'a :: ab_group_add \<Rightarrow> 'a interval" where
  "iv_shift_down iv x = mk_iv (ifrom iv - x) (ito iv - x)"

text \<open>\<open>std::clamp\<close>.\<close>

definition std_clamp :: "'a :: linorder \<Rightarrow> 'a \<Rightarrow> 'a \<Rightarrow> 'a" where
  "std_clamp v lo hi = (if v < lo then lo else if hi < v then hi else v)"

definition iv_clamp :: "'a :: linorder interval \<Rightarrow> 'a \<Rightarrow> 'a" where
  "iv_clamp iv x = std_clamp x (ifrom iv) (ito iv)"

definition iv_contains :: "'a :: linorder interval \<Rightarrow> 'a \<Rightarrow> bool" where
  "iv_contains iv t \<longleftrightarrow> ifrom iv \<le> t \<and> t < ito iv"

definition iv_contains_iv :: "'a :: linorder interval \<Rightarrow> 'a interval \<Rightarrow> bool" where
  "iv_contains_iv iv o' \<longleftrightarrow> ifrom iv \<le> ifrom o' \<and> ito o' \<le> ito iv"

definition iv_overlaps :: "'a :: linorder interval \<Rightarrow> 'a interval \<Rightarrow> bool" where
  "iv_overlaps iv o' \<longleftrightarrow> ifrom iv < ito o' \<and> ifrom o' < ito iv"

definition iv_empty :: "'a interval \<Rightarrow> bool" where
  "iv_empty iv \<longleftrightarrow> ito iv = ifrom iv"

definition iv_valid :: "'a :: linorder interval \<Rightarrow> bool" where
  "iv_valid iv \<longleftrightarrow> ifrom iv \<le> ito iv"

definition iv_intersect :: "'a :: {linorder, zero} interval \<Rightarrow> 'a interval \<Rightarrow> 'a interval" where
  "iv_intersect iv o' =
     (if iv_overlaps iv o' then mk_iv (max (ifrom iv) (ifrom o')) (min (ito iv) (ito o'))
      else mk_iv 0 0)"

definition iv_hull :: "'a :: linorder interval \<Rightarrow> 'a interval \<Rightarrow> 'a interval" where
  "iv_hull iv o' =
     (if iv_empty iv then o' else if iv_empty o' then iv
      else mk_iv (min (ifrom iv) (ifrom o')) (max (ito iv) (ito o')))"

definition iv_extend :: "int interval \<Rightarrow> int \<Rightarrow> int interval" where
  "iv_extend iv t = iv_hull iv (mk_iv t (t + 1))"

definition iv_size :: "'a :: minus interval \<Rightarrow> 'a" where
  "iv_size iv = ito iv - ifrom iv"

definition iv_nth :: "'a :: plus interval \<Rightarrow> 'a \<Rightarrow> 'a" where
  "iv_nth iv i = ifrom iv + i"

text \<open>The positions an index interval iterates over, forwards (\<open>begin\<close> to \<open>end\<close>) and
  backwards (\<open>rbegin\<close> to \<open>rend\<close>).\<close>

definition iv_list :: "nat interval \<Rightarrow> nat list" where
  "iv_list iv = [ifrom iv..<ito iv]"

definition iv_rlist :: "nat interval \<Rightarrow> nat list" where
  "iv_rlist iv = rev [ifrom iv..<ito iv]"

section \<open>Facts\<close>

lemmas iv_defs = iv_contains_def iv_contains_iv_def iv_overlaps_def iv_empty_def iv_valid_def
  iv_intersect_def iv_hull_def iv_extend_def iv_size_def mk_iv_def

lemma std_clamp_range: "lo \<le> hi \<Longrightarrow> lo \<le> std_clamp v lo hi \<and> std_clamp v lo hi \<le> hi"
  by (auto simp: std_clamp_def)

lemma std_clamp_id: "lo \<le> v \<Longrightarrow> v \<le> hi \<Longrightarrow> std_clamp v lo hi = v"
  by (auto simp: std_clamp_def)

lemma std_clamp_mono: "lo \<le> hi \<Longrightarrow> v \<le> w \<Longrightarrow> std_clamp v lo hi \<le> std_clamp w lo hi"
  by (auto simp: std_clamp_def)

lemma iv_contains_empty: "iv_empty iv \<Longrightarrow> \<not> iv_contains iv t"
  by (auto simp: iv_defs)

lemma iv_intersect_contains:
  "iv_contains (iv_intersect a b) t \<longleftrightarrow> iv_contains a t \<and> iv_contains b t"
  by (auto simp: iv_defs)

lemma iv_hull_contains_left: "iv_contains a t \<Longrightarrow> iv_contains (iv_hull a b) t"
  by (auto simp: iv_defs min_def max_def)

lemma iv_hull_contains_right:
  "iv_contains b t \<Longrightarrow> iv_contains (iv_hull a b) t"
  by (auto simp: iv_defs min_def max_def)

lemma iv_hull_valid: "iv_valid a \<Longrightarrow> iv_valid b \<Longrightarrow> iv_valid (iv_hull a b)"
  by (auto simp: iv_defs min_def max_def)

lemma iv_hull_smallest:
  assumes "iv_valid a" "iv_valid b" "iv_contains_iv c a" "iv_contains_iv c b"
  shows "iv_contains_iv c (iv_hull a b)"
  using assms by (auto simp: iv_defs min_def max_def)

lemma iv_overlaps_iff:
  fixes a b :: "'a :: linorder interval"
  assumes "\<not> iv_empty a" "iv_valid a" "\<not> iv_empty b" "iv_valid b"
  shows "iv_overlaps a b \<longleftrightarrow> (\<exists>t. iv_contains a t \<and> iv_contains b t)"
proof
  assume "iv_overlaps a b"
  with assms have "iv_contains a (max (ifrom a) (ifrom b)) \<and> iv_contains b (max (ifrom a) (ifrom b))"
    by (auto simp: iv_defs max_def)
  then show "\<exists>t. iv_contains a t \<and> iv_contains b t" by blast
qed (auto simp: iv_defs)

lemma iv_hull_least:
  fixes a b c :: "int interval"
  assumes "iv_valid a" "iv_valid b" "\<And>x. iv_contains a x \<or> iv_contains b x \<Longrightarrow> iv_contains c x"
    and "iv_contains (iv_hull a b) t" "\<not> iv_empty (iv_hull a b)"
  shows "ifrom c \<le> t \<and> t < ito c"
proof -
  have first: "ifrom c \<le> ifrom x \<and> ito x \<le> ito c"
    if "\<not> iv_empty x" "iv_valid x" "\<forall>t. iv_contains x t \<longrightarrow> iv_contains c t" for x :: "int interval"
  proof -
    from that(1,2) have "iv_contains x (ifrom x)" "iv_contains x (ito x - 1)"
      by (auto simp: iv_defs)
    with that(3) have "iv_contains c (ifrom x)" "iv_contains c (ito x - 1)" by blast+
    then show ?thesis by (auto simp: iv_defs)
  qed
  have "\<not> iv_empty a \<Longrightarrow> ifrom c \<le> ifrom a \<and> ito a \<le> ito c"
    and "\<not> iv_empty b \<Longrightarrow> ifrom c \<le> ifrom b \<and> ito b \<le> ito c"
    using assms(3) by (intro first assms; simp)+
  then show ?thesis
    using assms(4,5)
    by (cases "iv_empty a"; cases "iv_empty b") (auto simp: iv_defs min_def max_def split: if_splits)
qed

text \<open>The three set operations on non-inverted intervals mean what their names say:
  a point is in \<open>intersect\<close> exactly if it is in both, \<open>overlaps\<close> holds exactly if two
  non-empty intervals share a point, and \<open>hull\<close> contains both and lies inside every
  interval that does, an empty operand not contributing.\<close>

theorem interval_operations:
  fixes a b :: "int interval"
  assumes "iv_valid a" "iv_valid b"
  shows "(iv_contains (iv_intersect a b) t \<longleftrightarrow> iv_contains a t \<and> iv_contains b t) \<and>
    (\<not> iv_empty a \<longrightarrow> \<not> iv_empty b \<longrightarrow>
      (iv_overlaps a b \<longleftrightarrow> (\<exists>t. iv_contains a t \<and> iv_contains b t))) \<and>
    (iv_contains a t \<or> iv_contains b t \<longrightarrow> iv_contains (iv_hull a b) t) \<and>
    ((\<forall>x. iv_contains a x \<or> iv_contains b x \<longrightarrow> iv_contains c x) \<longrightarrow>
      iv_contains (iv_hull a b) t \<longrightarrow> \<not> iv_empty (iv_hull a b) \<longrightarrow> iv_contains c t)"
proof (intro conjI impI)
  show "iv_contains (iv_intersect a b) t \<longleftrightarrow> iv_contains a t \<and> iv_contains b t"
    by (rule iv_intersect_contains)
  show "\<not> iv_empty a \<Longrightarrow> \<not> iv_empty b \<Longrightarrow>
      iv_overlaps a b \<longleftrightarrow> (\<exists>t. iv_contains a t \<and> iv_contains b t)"
    using assms by (simp add: iv_overlaps_iff)
  show "iv_contains a t \<or> iv_contains b t \<Longrightarrow> iv_contains (iv_hull a b) t"
    by (auto intro: iv_hull_contains_left iv_hull_contains_right)
  show "\<forall>x. iv_contains a x \<or> iv_contains b x \<longrightarrow> iv_contains c x \<Longrightarrow>
      iv_contains (iv_hull a b) t \<Longrightarrow> \<not> iv_empty (iv_hull a b) \<Longrightarrow> iv_contains c t"
    using iv_hull_least [OF assms, of c t] by (auto simp: iv_contains_def)
qed

theorem interval_operations_witness:
  "iv_contains (iv_hull (mk_iv 1 3) (mk_iv 5 (8::int))) 4 \<and>
   \<not> iv_contains (iv_intersect (mk_iv 1 3) (mk_iv 5 (8::int))) 2"
  using interval_operations [of "mk_iv 1 3" "mk_iv 5 8" 2] by (simp add: iv_defs)

end
