(* ===== verification/Delta_Time.thy ===== *)
theory Delta_Time
  imports Nigiri_Types Intervals
begin

text \<open>
  Times relative to a base day: \<open>include/nigiri/common/delta_t.h\<close> (16 bit minutes with the
  two extreme values as sentinels), \<open>common/split_duration.h\<close> and \<open>src/common/mam_dist.cc\<close>.
  A \<open>delta_t\<close> is an \<^typ>\<open>int\<close> in \<open>[-32768, 32767]\<close>; every store goes through \<open>clamp\<close>.
\<close>

section \<open>delta_t\<close>

abbreviation delta_max :: int where "delta_max \<equiv> 32767"
abbreviation delta_min :: int where "delta_min \<equiv> - 32768"

definition kInvalidDelta :: "direction \<Rightarrow> int" where
  "kInvalidDelta dir = (if dir = Forward then delta_max else delta_min)"

definition clamp :: "int \<Rightarrow> int" where
  "clamp t = i16 (std_clamp t delta_min delta_max)"

text \<open>Days are \<^typ>\<open>int\<close> days since the epoch, \<open>unixtime_t\<close> is minutes since the epoch.\<close>

definition unix_to_delta :: "int \<Rightarrow> int \<Rightarrow> int" where
  "unix_to_delta base t = clamp (t - base * 1440)"

definition tt_to_delta :: "nat \<Rightarrow> nat \<Rightarrow> int \<Rightarrow> int" where
  "tt_to_delta base day m = (let rel_day = int day - int base in clamp (rel_day * 1440 + m))"

definition delta_to_unix :: "int \<Rightarrow> int \<Rightarrow> int" where
  "delta_to_unix base d = base * 1440 + d * 1"

text \<open>\<open>day_idx_t{minutes / 1440}\<close> converts to 16 bits, the remainder is a 16 bit duration.\<close>

definition split_day_mam :: "nat \<Rightarrow> int \<Rightarrow> nat \<times> int" where
  "split_day_mam base x =
     (let minutes = int base * 1440 + x
      in (nat (u16 (cdiv minutes 1440)), i16 (cmod minutes 1440)))"

lemma clamp_eq: "clamp t = std_clamp t delta_min delta_max"
proof -
  have "delta_min \<le> std_clamp t delta_min delta_max \<and> std_clamp t delta_min delta_max \<le> delta_max"
    by (rule std_clamp_range) simp
  then show ?thesis by (simp add: clamp_def wrap_s16_id)
qed

lemma clamp_range: "delta_min \<le> clamp t" "clamp t \<le> delta_max"
  by (auto simp: clamp_eq std_clamp_def)

lemma clamp_id: "delta_min \<le> t \<Longrightarrow> t \<le> delta_max \<Longrightarrow> clamp t = t"
  by (simp add: clamp_eq std_clamp_def)

lemma clamp_mono: "s \<le> t \<Longrightarrow> clamp s \<le> clamp t"
  by (auto simp: clamp_eq std_clamp_def)

lemma clamp_code [simp]:
  "clamp t = (if t < delta_min then delta_min else if delta_max < t then delta_max else t)"
  by (simp add: clamp_eq std_clamp_def)

declare clamp_code [simp del]

lemma split_day_mam_eq:
  assumes "0 \<le> int base * 1440 + x" "int base * 1440 + x < 65536 * 1440"
  shows "split_day_mam base x =
    (nat ((int base * 1440 + x) div 1440), (int base * 1440 + x) mod 1440)"
proof -
  let ?m = "int base * 1440 + x"
  have "?m div 1440 < 65536" using assms(2) by linarith
  moreover have "0 \<le> ?m div 1440" using assms(1) by (simp add: pos_imp_zdiv_nonneg_iff)
  moreover have "0 \<le> ?m mod 1440" "?m mod 1440 < 1440" by simp_all
  ultimately show ?thesis
    using assms(1) by (simp add: split_day_mam_def Let_def wrap_s16_id)
qed

text \<open>\<open>split_day_mam\<close> and \<open>tt_to_delta\<close> are inverse on every relative time whose
  absolute minute is not before the first day of the timetable: the minutes after midnight
  are a time of day, and putting day and time together again gives the same \<open>delta_t\<close>.\<close>

theorem split_day_mam_roundtrip:
  assumes "delta_min \<le> x" "x \<le> delta_max" "0 \<le> int base * 1440 + x" "base < 65000"
  shows "(case split_day_mam base x of (day, m) \<Rightarrow>
    tt_to_delta base day m = x \<and> 0 \<le> m \<and> m < 1440 \<and> day < 65536)"
proof -
  let ?m = "int base * 1440 + x"
  have lt: "?m < 65536 * 1440" using assms(2,4) by simp
  have q: "0 \<le> ?m div 1440" "?m div 1440 < 65536"
    using assms(3) lt by (simp_all add: pos_imp_zdiv_nonneg_iff)
  have "(?m div 1440 - int base) * 1440 + ?m mod 1440 = x"
    using mult_div_mod_eq [of 1440 ?m] by (simp add: algebra_simps)
  then have "tt_to_delta base (nat (?m div 1440)) (?m mod 1440) = x"
    using q assms(1,2) by (simp add: tt_to_delta_def Let_def clamp_id)
  then show ?thesis using q by (simp add: split_day_mam_eq [OF assms(3) lt])
qed

theorem split_day_mam_roundtrip_witness:
  "(case split_day_mam 5 (- 30) of (day, m) \<Rightarrow> tt_to_delta 5 day m = - 30 \<and> 0 \<le> m \<and> m < 1440 \<and> day < 65536)"
  by (rule split_day_mam_roundtrip) simp_all

lemma delta_unix_roundtrip:
  "delta_min \<le> d \<Longrightarrow> d \<le> delta_max \<Longrightarrow> unix_to_delta base (delta_to_unix base d) = d"
  by (simp add: unix_to_delta_def delta_to_unix_def clamp_id)

lemma unix_to_delta_mono: "s \<le> t \<Longrightarrow> unix_to_delta base s \<le> unix_to_delta base t"
  by (simp add: unix_to_delta_def clamp_mono)

section \<open>split_duration.h\<close>

definition time_mod :: "int \<Rightarrow> int \<Rightarrow> int" where
  "time_mod a b = (if a < 0 then cmod (cmod a b + b) b else cmod a b)"

definition split_time_mod :: "int \<Rightarrow> int \<times> int" where
  "split_time_mod i = (let b = time_mod i 1440; a = cdiv (i - b) 1440 in (a, i16 b))"

lemma time_mod_eq: "0 < b \<Longrightarrow> time_mod a b = a mod b"
proof (cases "a < 0")
  case True
  assume b: "0 < b"
  have c: "cmod a b = - ((- a) mod b)" using True b by (simp add: cmod_neg)
  have r: "0 \<le> (- a) mod b" "(- a) mod b < b" using b by simp_all
  then have "cmod (b - (- a) mod b) b = (b - (- a) mod b) mod b"
    using r b by (intro cmod_nonneg) linarith+
  moreover have "time_mod a b = cmod (b - (- a) mod b) b"
    using True by (simp add: time_mod_def c)
  ultimately have "time_mod a b = (b - (- a) mod b) mod b" by simp
  also have "\<dots> = a mod b"
    using mod_diff_right_eq [of b "- a" b] by simp
  finally show ?thesis .
next
  case False
  then show "0 < b \<Longrightarrow> ?thesis" by (simp add: time_mod_def)
qed

lemma cdiv_exact: "0 < b \<Longrightarrow> cdiv (b * q) b = q"
proof (cases "q < 0")
  case True
  assume b: "0 < b"
  with True have "b * q < 0" by (simp add: mult_pos_neg)
  with b show ?thesis by (simp add: cdiv_neg flip: mult_minus_right)
next
  case False
  then show "0 < b \<Longrightarrow> ?thesis" by simp
qed

text \<open>\<open>split_time_mod\<close> splits every duration, negative ones included, into whole
  days rounded towards minus infinity and a time of day in \<open>[0, 1440)\<close> that add up to it
  again, although the division and the remainder it uses round towards zero.\<close>

theorem split_time_mod_floor:
  "split_time_mod i = (i div 1440, i mod 1440)"
proof -
  have "i - i mod 1440 = 1440 * (i div 1440)" by (simp add: minus_mod_eq_mult_div)
  moreover have "i16 (i mod 1440) = i mod 1440"
    by (rule wrap_s16_id) (use pos_mod_bound [of 1440 i] pos_mod_sign [of 1440 i] in simp_all)
  ultimately show ?thesis
    by (simp add: split_time_mod_def Let_def time_mod_eq cdiv_exact)
qed

section \<open>mam_dist\<close>

definition mam_dist :: "int \<Rightarrow> int \<Rightarrow> int \<times> int" where
  "mam_dist a b =
     (let diff = a - b; dist = \<bar>diff\<bar>
      in if cdiv 1440 2 < dist then (1440 - dist, if diff < 0 then - 1 else 1) else (dist, 0))"

lemma mam_dist_sym: "fst (mam_dist a b) = fst (mam_dist b a)"
  by (simp add: mam_dist_def Let_def abs_minus_commute)

text \<open>For two times of day \<open>mam_dist\<close> returns the length of the shorter way around
  the clock and the day offset that realises it: the distance is at most 12 hours, it is
  the absolute difference of \<open>a\<close> and \<open>b\<close> moved by the returned number of days, and moving
  \<open>b\<close> by any other number of days does not bring it closer.\<close>

theorem mam_dist_shortest:
  assumes "0 \<le> a" "a < 1440" "0 \<le> b" "b < 1440"
  shows "(case mam_dist a b of (dist, day) \<Rightarrow>
    dist \<le> 720 \<and> dist = \<bar>a - (b + day * 1440)\<bar> \<and> (\<forall>d. dist \<le> \<bar>a - (b + d * 1440)\<bar>))"
proof -
  have step: "fst (mam_dist a b) \<le> \<bar>a - (b + d * 1440)\<bar>" for d :: int
  proof -
    consider "d \<le> - 2" | "d = - 1" | "d = 0" | "d = 1" | "2 \<le> d" by linarith
    then show ?thesis
      using assms by cases (auto simp: mam_dist_def Let_def abs_if)
  qed
  have "fst (mam_dist a b) \<le> 720 \<and> fst (mam_dist a b) = \<bar>a - (b + snd (mam_dist a b) * 1440)\<bar>"
    using assms by (auto simp: mam_dist_def Let_def abs_if)
  with step show ?thesis by (simp add: case_prod_beta)
qed

theorem mam_dist_shortest_witness:
  "(case mam_dist 1430 10 of (dist, day) \<Rightarrow>
    dist \<le> 720 \<and> dist = \<bar>1430 - (10 + day * 1440)\<bar> \<and> (\<forall>d. dist \<le> \<bar>1430 - (10 + d * 1440)\<bar>))"
  by (rule mam_dist_shortest) simp_all

end
