(* ===== verification/Stops.thy ===== *)
theory Stops
  imports Delta_Time
begin

text \<open>
  \<open>include/nigiri/stop.h\<close>, \<open>footpath.h\<close>, \<open>td_footpath.h\<close> and the limits of
  \<open>routing/limits.h\<close>: a stop is a location with four permission bits packed into 32 bits,
  a footpath packs a 23 bit target and a 9 bit duration, and time-dependent footpaths are
  searched for the first usable one (forward) or the latest departure (backward).
\<close>

section \<open>Limits\<close>

definition kMaxTransfers :: nat where "kMaxTransfers = 14"
definition kMaxTravelTime :: int where "kMaxTravelTime = 5 * 1440"
definition kMaxSearchIntervalSize :: int where
  "kMaxSearchIntervalSize = cdiv 32767 1440 * 1440 - (kMaxTravelTime + 2 * 1440)"
definition kMaxVias :: nat where "kMaxVias = 2"
definition kWheelchairProfile :: nat where "kWheelchairProfile = 2"

section \<open>Stops\<close>

record stop =
  stop_loc :: nat
  stop_in :: bool
  stop_out :: bool
  stop_in_wheelchair :: bool
  stop_out_wheelchair :: bool

definition mk_stop :: "nat \<Rightarrow> bool \<Rightarrow> bool \<Rightarrow> bool \<Rightarrow> bool \<Rightarrow> stop" where
  "mk_stop location in_allowed out_allowed in_wheelchair out_wheelchair =
     \<lparr>stop_loc = location mod 2 ^ 28, stop_in = in_allowed, stop_out = out_allowed,
      stop_in_wheelchair = in_wheelchair, stop_out_wheelchair = out_wheelchair\<rparr>"

text \<open>\<open>stop(value)\<close> and \<open>value()\<close> reinterpret the 32 bits; the bit fields are laid out from
  the least significant bit, as the supported compilers do.\<close>

definition stop_of_value :: "nat \<Rightarrow> stop" where
  "stop_of_value val =
     \<lparr>stop_loc = val mod 2 ^ 28, stop_in = odd (val div 2 ^ 28), stop_out = odd (val div 2 ^ 29),
      stop_in_wheelchair = odd (val div 2 ^ 30), stop_out_wheelchair = odd (val div 2 ^ 31)\<rparr>"

definition stop_value :: "stop \<Rightarrow> nat" where
  "stop_value s = stop_loc s + 2 ^ 28 * (of_bool (stop_in s) + 2 * of_bool (stop_out s)
     + 4 * of_bool (stop_in_wheelchair s) + 8 * of_bool (stop_out_wheelchair s))"

definition is_cancelled :: "stop \<Rightarrow> bool" where
  "is_cancelled s \<longleftrightarrow> \<not> stop_in s \<and> \<not> stop_out s"

definition in_allowed_prf :: "stop \<Rightarrow> nat \<Rightarrow> bool" where
  "in_allowed_prf s p = (if p = kWheelchairProfile then stop_in_wheelchair s else stop_in s)"

definition out_allowed_prf :: "stop \<Rightarrow> nat \<Rightarrow> bool" where
  "out_allowed_prf s p = (if p = kWheelchairProfile then stop_out_wheelchair s else stop_out s)"

definition can_start :: "direction \<Rightarrow> stop \<Rightarrow> bool \<Rightarrow> bool" where
  "can_start SearchDir s is_wheelchair =
     (if SearchDir = Forward then (if is_wheelchair then stop_in_wheelchair s else stop_in s)
      else (if is_wheelchair then stop_out_wheelchair s else stop_out s))"

definition can_finish :: "direction \<Rightarrow> stop \<Rightarrow> bool \<Rightarrow> bool" where
  "can_finish SearchDir s is_wheelchair =
     (if SearchDir = Forward then (if is_wheelchair then stop_out_wheelchair s else stop_out s)
      else (if is_wheelchair then stop_in_wheelchair s else stop_in s))"

lemma can_start_flip: "can_start (flip d) s w = can_finish d s w"
  by (cases d) (simp_all add: can_start_def can_finish_def)

lemma stop_value_decode:
  assumes "stop_loc s < 2 ^ 28" "val < 2 ^ 32"
  shows "stop_of_value (stop_value s) = s" "stop_value (stop_of_value val) = val"
proof -
  obtain l a b c d where s: "s = \<lparr>stop_loc = l, stop_in = a, stop_out = b,
    stop_in_wheelchair = c, stop_out_wheelchair = d\<rparr>" by (cases s)
  have q: "val div 2 ^ 29 = val div 2 ^ 28 div 2" "val div 2 ^ 30 = val div 2 ^ 28 div 4"
    "val div 2 ^ 31 = val div 2 ^ 28 div 8" for val :: nat
    by (simp_all flip: div_mult2_eq)
  define f where "f = (of_bool a + 2 * of_bool b + 4 * of_bool c + 8 * of_bool d :: nat)"
  have v: "stop_value s = l + 2 ^ 28 * f" by (simp add: stop_value_def s f_def)
  have "l < 2 ^ 28" using assms(1) by (simp add: s)
  then have vd: "stop_value s mod 2 ^ 28 = l" "stop_value s div 2 ^ 28 = f"
    unfolding v by simp_all
  show "stop_of_value (stop_value s) = s"
    unfolding stop_of_value_def q vd by (simp add: s f_def)
  have lt: "val div 2 ^ 28 < 16" using assms(2) by simp
  have b: "n = of_bool (odd n) + 2 * of_bool (odd (n div 2)) + 4 * of_bool (odd (n div 4))
      + 8 * of_bool (odd (n div 8))" if "n < 16" for n :: nat
  proof -
    have "n \<in> {..<16}" using that by simp
    also have "{..<16::nat} = {0,1,2,3,4,5,6,7,8,9,10,11,12,13,14,15}"
      by (auto simp: lessThan_nat_numeral lessThan_Suc)
    finally show ?thesis by auto
  qed
  have "stop_value (stop_of_value val) = val mod 2 ^ 28 + 2 ^ 28 * (val div 2 ^ 28)"
    unfolding stop_value_def stop_of_value_def q
    by (subst (2) b [OF lt]) simp
  then show "stop_value (stop_of_value val) = val" by simp
qed

lemma stop_of_stop_value_mk [simp]:
  "stop_of_value (stop_value (mk_stop l a b c d)) = mk_stop l a b c d"
  by (rule stop_value_decode(1) [of _ 0]) (simp_all add: mk_stop_def)

text \<open>A stop survives the trip through its 32 bit value: decoding the value of a stop
  whose location fits 28 bits gives the stop back, and encoding a decoded 32 bit value gives
  the value back.\<close>

theorem stop_value_roundtrip:
  assumes "stop_loc s < 2 ^ 28" "val < 2 ^ 32"
  shows "stop_of_value (stop_value s) = s \<and> stop_value (stop_of_value val) = val"
  using stop_value_decode [OF assms] by simp

theorem stop_value_roundtrip_witness:
  "stop_of_value (stop_value (mk_stop 17 True False True False)) = mk_stop 17 True False True False \<and>
   stop_value (stop_of_value 1342177297) = 1342177297"
  using stop_value_roundtrip [of "mk_stop 17 True False True False" 1342177297]
  by (simp add: mk_stop_def)

section \<open>Footpaths\<close>

record footpath =
  fp_target :: nat
  fp_duration :: int

definition kMaxDuration :: int where "kMaxDuration = 4294967295 div 2 ^ 23"
definition kMaxTarget :: nat where "kMaxTarget = 4294967295 div 2 ^ 9"

text \<open>The constructor; \<^const>\<open>None\<close> is the exception of \<open>utl::verify\<close> (station index overflow).\<close>

definition mk_footpath :: "nat \<Rightarrow> int \<Rightarrow> footpath option" where
  "mk_footpath target duration =
     (if target < kMaxTarget
      then Some \<lparr>fp_target = target mod 2 ^ 23,
        fp_duration = (if kMaxDuration < duration then kMaxDuration else duration) mod 2 ^ 9\<rparr>
      else None)"

definition footpath_value :: "footpath \<Rightarrow> int" where
  "footpath_value fp = int (fp_target fp) + 2 ^ 23 * fp_duration fp"

definition footpath_of_value :: "int \<Rightarrow> footpath" where
  "footpath_of_value val = \<lparr>fp_target = nat (val mod 2 ^ 23), fp_duration = val div 2 ^ 23 mod 2 ^ 9\<rparr>"

definition footpath_less :: "footpath \<Rightarrow> footpath \<Rightarrow> bool" where
  "footpath_less a b \<longleftrightarrow> fp_target a < fp_target b \<or>
     fp_target a = fp_target b \<and> fp_duration a < fp_duration b"

lemma kMax_code [simp]: "kMaxDuration = 511" "kMaxTarget = 8388607"
  by (simp_all add: kMaxDuration_def kMaxTarget_def)

lemma mk_footpath_eq:
  "target < kMaxTarget \<Longrightarrow> 0 \<le> d \<Longrightarrow>
    mk_footpath target d = Some \<lparr>fp_target = target, fp_duration = min d 511\<rparr>"
  by (simp add: mk_footpath_def min_def)

text \<open>Building a footpath keeps target and duration up to the saturation at 511 minutes,
  rejects exactly the targets from \<open>kMaxTarget\<close> on, and a footpath decoded from its 32 bit
  value is the footpath that was encoded.\<close>

theorem footpath_packing:
  assumes "0 \<le> d"
  shows "mk_footpath target d = (if target < kMaxTarget
      then Some \<lparr>fp_target = target, fp_duration = min d kMaxDuration\<rparr> else None) \<and>
    (\<forall>fp. mk_footpath target d = Some fp \<longrightarrow>
      footpath_of_value (footpath_value fp) = fp \<and> 0 \<le> footpath_value fp \<and> footpath_value fp < 2 ^ 32)"
proof (intro conjI allI impI)
  show *: "mk_footpath target d = (if target < kMaxTarget
      then Some \<lparr>fp_target = target, fp_duration = min d kMaxDuration\<rparr> else None)"
    using assms by (auto simp: mk_footpath_def min_def)
  fix fp assume "mk_footpath target d = Some fp"
  then have fp: "fp = \<lparr>fp_target = target, fp_duration = min d 511\<rparr>" and t: "target < 8388607"
    using * by (auto split: if_splits)
  have "0 \<le> min d 511" "min d 511 < 512" using assms by auto
  then show "footpath_of_value (footpath_value fp) = fp" "0 \<le> footpath_value fp" "footpath_value fp < 2 ^ 32"
    using t by (simp_all add: fp footpath_of_value_def footpath_value_def)
qed

theorem footpath_packing_witness:
  "mk_footpath 3 600 = Some \<lparr>fp_target = 3, fp_duration = 511\<rparr> \<and>
   footpath_of_value (footpath_value \<lparr>fp_target = 3, fp_duration = 511\<rparr>) = \<lparr>fp_target = 3, fp_duration = 511\<rparr>"
  using footpath_packing [of 600 3]
  by simp

section \<open>Time-dependent footpaths\<close>

text \<open>\<open>td_footpath\<close> and \<open>td_offset\<close> share what \<open>get_td_duration\<close> reads.\<close>

record td_time =
  valid_from :: int
  td_duration :: int

record td_footpath = td_time +
  td_target :: nat

record td_offset = td_time +
  transport_mode :: nat
  transport_mode_payload :: nat

fun get_td_duration_fwd :: "'a td_time_scheme list \<Rightarrow> int \<Rightarrow> (int \<times> 'a td_time_scheme) option" where
  "get_td_duration_fwd [] t = None"
| "get_td_duration_fwd (i # c) t =
     (if td_duration i = kMaxDuration \<or>
         (valid_from i < t \<and> c \<noteq> [] \<and> valid_from (hd c) \<le> t) then get_td_duration_fwd c t
      else if kMaxTravelTime < valid_from i - t then None
      else Some (i16 (max (valid_from i) t + td_duration i - t), i))"

text \<open>The backward loop runs over the reversed list; \<open>later\<close> is \<open>*(i - 1)\<close>, the entry that
  becomes valid after \<open>*i\<close>.\<close>

fun get_td_duration_bwd ::
    "'a td_time_scheme option \<Rightarrow> 'a td_time_scheme list \<Rightarrow> int \<Rightarrow> (int \<times> 'a td_time_scheme) option" where
  "get_td_duration_bwd later [] t = None"
| "get_td_duration_bwd later (i # c) t =
     (if td_duration i = kMaxDuration \<or> t < valid_from i + td_duration i
      then get_td_duration_bwd (Some i) c t
      else
        let latest_arr = (case later of None \<Rightarrow> t
              | Some n \<Rightarrow> min t (valid_from n - 1 + td_duration i))
        in if kMaxTravelTime < t - latest_arr then None
           else Some (i16 (t - (latest_arr - td_duration i)), i))"

definition get_td_duration ::
    "direction \<Rightarrow> 'a td_time_scheme list \<Rightarrow> int \<Rightarrow> (int \<times> 'a td_time_scheme) option" where
  "get_td_duration search_dir c t =
     (if search_dir = Forward then get_td_duration_fwd c t
      else get_td_duration_bwd None (rev c) t)"

text \<open>The calls of the callback: target, duration, walking time.\<close>

definition for_each_footpath :: "direction \<Rightarrow> td_footpath list \<Rightarrow> int \<Rightarrow> (nat \<times> int \<times> int) list" where
  "for_each_footpath search_dir c t =
     concat (map (\<lambda>r. case get_td_duration search_dir r t of
         None \<Rightarrow> []
       | Some (d, fp) \<Rightarrow> [(td_target (hd r), d, td_duration fp)])
       (equal_ranges td_target c))"

text \<open>The entry in force at time \<open>s\<close>: the last one whose validity has begun.\<close>

fun active_at :: "'a td_time_scheme list \<Rightarrow> int \<Rightarrow> 'a td_time_scheme option" where
  "active_at [] s = None"
| "active_at (i # c) s =
     (if s < valid_from i then None
      else case active_at c s of None \<Rightarrow> Some i | Some j \<Rightarrow> Some j)"

definition usable_at :: "'a td_time_scheme list \<Rightarrow> int \<Rightarrow> bool" where
  "usable_at c s \<longleftrightarrow> (case active_at c s of None \<Rightarrow> False | Some i \<Rightarrow> td_duration i \<noteq> kMaxDuration)"

abbreviation td_sorted :: "'a td_time_scheme list \<Rightarrow> bool" where
  "td_sorted c \<equiv> sorted_wrt (<) (map valid_from c)"

definition td_durations :: "'a td_time_scheme list \<Rightarrow> bool" where
  "td_durations c \<longleftrightarrow> (\<forall>i \<in> set c. 0 \<le> td_duration i \<and> td_duration i \<le> kMaxDuration)"

lemma active_at_none: "td_sorted c \<Longrightarrow> c \<noteq> [] \<Longrightarrow> s < valid_from (hd c) \<Longrightarrow> active_at c s = None"
  by (cases c) auto

lemma active_at_skip:
  "td_sorted (i # c) \<Longrightarrow> c \<noteq> [] \<Longrightarrow> valid_from (hd c) \<le> s \<Longrightarrow> active_at (i # c) s = active_at c s"
  by (cases c) (auto split: option.splits)

lemma active_at_head:
  "valid_from i \<le> s \<Longrightarrow> td_sorted (i # c) \<Longrightarrow> c = [] \<or> s < valid_from (hd c) \<Longrightarrow>
    active_at (i # c) s = Some i"
  by (cases c) (auto split: option.splits)

lemma get_td_duration_fwd_first:
  assumes "td_sorted c" "td_durations c" "get_td_duration_fwd c t = Some (d, e)"
  shows "\<exists>s. t \<le> s \<and> active_at c s = Some e \<and> td_duration e \<noteq> kMaxDuration \<and>
    t + d = s + td_duration e \<and> s - t \<le> kMaxTravelTime \<and> (\<forall>u. t \<le> u \<and> u < s \<longrightarrow> \<not> usable_at c u)"
  using assms
proof (induction c t rule: get_td_duration_fwd.induct)
  case (2 i c t)
  show ?case
  proof (cases "td_duration i = kMaxDuration \<or> (valid_from i < t \<and> c \<noteq> [] \<and> valid_from (hd c) \<le> t)")
    case True
    with 2 obtain s where s: "t \<le> s" "active_at c s = Some e" "td_duration e \<noteq> kMaxDuration"
      "t + d = s + td_duration e" "s - t \<le> kMaxTravelTime" "\<forall>u. t \<le> u \<and> u < s \<longrightarrow> \<not> usable_at c u"
      by (auto simp: td_durations_def)
    from s(2) have ne: "c \<noteq> []" by (cases c) auto
    have hd: "valid_from (hd c) \<le> s"
      using s(2) "2.prems"(1) ne by (rule_tac ccontr) (simp add: active_at_none not_le)
    have "active_at (i # c) s = Some e"
      using active_at_skip [OF "2.prems"(1) ne hd] s(2) by simp
    moreover have "\<not> usable_at (i # c) u" if u: "t \<le> u" "u < s" for u
    proof (cases "valid_from (hd c) \<le> u")
      case True
      with u s(6) show ?thesis
        unfolding usable_at_def active_at_skip [OF "2.prems"(1) ne True] by blast
    next
      case False
      with True u have "td_duration i = kMaxDuration" by auto
      with False show ?thesis
        using "2.prems"(1) ne by (simp add: usable_at_def active_at_none)
    qed
    ultimately show ?thesis using s by blast
  next
    case False
    with "2.prems"(3) have "\<not> kMaxTravelTime < valid_from i - t" and e: "e = i"
      and d: "d = i16 (max (valid_from i) t + td_duration i - t)"
      by (auto split: if_splits)
    let ?s = "max (valid_from i) t"
    have dur: "0 \<le> td_duration i" "td_duration i \<le> 511"
      using "2.prems"(2) by (auto simp: td_durations_def)
    have wait: "0 \<le> ?s - t" "?s - t \<le> 7200"
      using \<open>\<not> kMaxTravelTime < valid_from i - t\<close> by (auto simp: kMaxTravelTime_def)
    have "d = ?s + td_duration i - t" using dur wait unfolding d by (intro wrap_s16_id) linarith+
    moreover have "active_at (i # c) ?s = Some i"
    proof (rule active_at_head)
      show "c = [] \<or> ?s < valid_from (hd c)"
        using False "2.prems"(1) by (cases c) (auto simp: max_def)
    qed (use "2.prems"(1) in auto)
    moreover have "\<not> usable_at (i # c) u" if "t \<le> u" "u < ?s" for u
      using that by (auto simp: usable_at_def max_def split: if_splits)
    ultimately show ?thesis using False e wait by (intro exI [of _ ?s]) (auto simp: kMaxTravelTime_def)
  qed
qed simp

text \<open>Forward, the duration found for time-dependent footpaths sorted by the start of
  their validity is right and starts as early as possible: there is a departure time \<open>s\<close> not
  before \<open>t\<close> at which the returned entry is the one in force and usable, \<open>t + d\<close> is the arrival
  of leaving at \<open>s\<close>, and at no earlier time from \<open>t\<close> on a usable entry is in force.\<close>

theorem get_td_duration_forward:
  assumes "td_sorted c" "td_durations c" "get_td_duration Forward c t = Some (d, e)"
  shows "\<exists>s. t \<le> s \<and> active_at c s = Some e \<and> td_duration e \<noteq> kMaxDuration \<and>
    t + d = s + td_duration e \<and> s - t \<le> kMaxTravelTime \<and> (\<forall>u. t \<le> u \<and> u < s \<longrightarrow> \<not> usable_at c u)"
  using assms by (intro get_td_duration_fwd_first) (simp_all add: get_td_duration_def)

theorem get_td_duration_forward_witness:
  "\<exists>s. 50 \<le> s \<and>
    active_at [\<lparr>valid_from = 0, td_duration = 511\<rparr>, \<lparr>valid_from = 100, td_duration = 10\<rparr>] s
      = Some \<lparr>valid_from = 100, td_duration = 10\<rparr> \<and> 50 + 60 = s + 10"
  using get_td_duration_forward
    [of "[\<lparr>valid_from = 0, td_duration = 511\<rparr>, \<lparr>valid_from = 100, td_duration = 10\<rparr>]" 50 60
        "\<lparr>valid_from = 100, td_duration = 10\<rparr>"]
  by (auto simp: td_durations_def get_td_duration_def kMaxTravelTime_def wrap_s_def)

lemma active_at_append:
  "td_sorted (xs @ x # ys) \<Longrightarrow> valid_from x \<le> s \<Longrightarrow> active_at (xs @ x # ys) s = active_at (x # ys) s"
proof (induction xs)
  case (Cons a xs)
  have le: "valid_from (hd (xs @ x # ys)) \<le> s"
    using Cons.prems by (cases xs) (auto simp: sorted_wrt_append)
  then show ?case
    using Cons active_at_skip [of a "xs @ x # ys" s] by simp
qed simp

lemma active_at_set: "active_at c s = Some a \<Longrightarrow> a \<in> set c \<and> valid_from a \<le> s"
  by (induction c) (auto split: if_splits option.splits)

lemma get_td_duration_bwd_last:
  assumes "td_sorted (xs @ ys)" "td_durations (xs @ ys)"
    and "\<forall>a \<in> set ys. td_duration a = kMaxDuration \<or> t < valid_from a + td_duration a"
    and "get_td_duration_bwd (case ys of [] \<Rightarrow> None | y # _ \<Rightarrow> Some y) (rev xs) t = Some (d, e)"
  shows "active_at (xs @ ys) (t - d) = Some e \<and> td_duration e \<noteq> kMaxDuration \<and>
    t - d + td_duration e \<le> t \<and>
    (\<forall>u a. t - d < u \<and> active_at (xs @ ys) u = Some a \<and> td_duration a \<noteq> kMaxDuration \<longrightarrow> t < u + td_duration a)"
  using assms
proof (induction xs arbitrary: ys rule: rev_induct)
  case (snoc x xs)
  let ?later = "case ys of [] \<Rightarrow> None | y # _ \<Rightarrow> Some y"
  show ?case
  proof (cases "td_duration x = kMaxDuration \<or> t < valid_from x + td_duration x")
    case True
    with snoc.prems have "get_td_duration_bwd (Some x) (rev xs) t = Some (d, e)" by simp
    then have bwd: "get_td_duration_bwd (case x # ys of [] \<Rightarrow> None | y # _ \<Rightarrow> Some y) (rev xs) t = Some (d, e)"
      by simp
    have eq: "(xs @ [x]) @ ys = xs @ x # ys" by simp
    show ?thesis unfolding eq
      by (rule snoc.IH [OF _ _ _ bwd]) (use snoc.prems(1-3) True in auto)
  next
    case False
    define la where "la = (case ?later of None \<Rightarrow> t | Some n \<Rightarrow> min t (valid_from n - 1 + td_duration x))"
    from False snoc.prems(4) have lim: "t - la \<le> kMaxTravelTime" and e: "e = x"
      and d: "d = i16 (t - (la - td_duration x))"
      by (auto simp: Let_def la_def split: if_splits)
    have dur: "0 \<le> td_duration x" "td_duration x \<le> 511"
      using snoc.prems(2) by (auto simp: td_durations_def)
    have la: "la \<le> t" by (auto simp: la_def split: option.splits list.splits)
    have d': "t - d = la - td_duration x"
      using lim dur la unfolding d by (subst wrap_s16_id) (auto simp: kMaxTravelTime_def)
    have srt: "td_sorted (xs @ x # ys)" using snoc.prems(1) by simp
    have ge: "valid_from x \<le> la - td_duration x"
      using False srt by (auto simp: la_def sorted_wrt_append split: list.splits)
    have nx: "ys = [] \<or> la - td_duration x < valid_from (hd ys)"
      by (auto simp: la_def split: list.splits)
    have act: "active_at (xs @ x # ys) (t - d) = Some x"
      unfolding d' active_at_append [OF srt ge] using nx srt ge
      by (intro active_at_head) (auto simp: sorted_wrt_append)
    have "t < u + td_duration a"
      if u: "t - d < u" "active_at (xs @ x # ys) u = Some a" "td_duration a \<noteq> kMaxDuration" for u a
    proof -
      have xu: "valid_from x \<le> u" using u(1) ge d' by simp
      have "active_at (x # ys) u = Some a" using u(2) active_at_append [OF srt xu] by simp
      with xu consider "active_at ys u = Some a" | "active_at ys u = None" "a = x"
        by (auto split: option.splits)
      then show ?thesis
      proof cases
        case 1
        with snoc.prems(3) u(3) active_at_set [OF 1] show ?thesis by force
      next
        case 2
        then have "ys = [] \<or> u < valid_from (hd ys)" by (cases ys) (auto split: option.splits if_splits)
        with 2 u(1) d' show ?thesis by (auto simp: la_def split: list.splits)
      qed
    qed
    with act e False d' la show ?thesis by auto
  qed
qed simp

text \<open>Backward, the duration found is that of the latest departure that still arrives
  by \<open>t\<close>: leaving at \<open>t - d\<close> the returned entry is in force and usable and arrives not after
  \<open>t\<close>, and every later departure with a usable entry arrives after \<open>t\<close>.\<close>

theorem get_td_duration_backward:
  assumes "td_sorted c" "td_durations c" "get_td_duration Backward c t = Some (d, e)"
  shows "active_at c (t - d) = Some e \<and> td_duration e \<noteq> kMaxDuration \<and>
    t - d + td_duration e \<le> t \<and>
    (\<forall>u a. t - d < u \<and> active_at c u = Some a \<and> td_duration a \<noteq> kMaxDuration \<longrightarrow> t < u + td_duration a)"
  using get_td_duration_bwd_last [of c "[]" t d e] assms by (simp add: get_td_duration_def)

theorem get_td_duration_backward_witness:
  "active_at [\<lparr>valid_from = 0, td_duration = 10\<rparr>, \<lparr>valid_from = 100, td_duration = 511\<rparr>] (200 - 101)
     = Some \<lparr>valid_from = 0, td_duration = 10\<rparr>"
  using get_td_duration_backward
    [of "[\<lparr>valid_from = 0, td_duration = 10\<rparr>, \<lparr>valid_from = 100, td_duration = 511\<rparr>]" 200 101
        "\<lparr>valid_from = 0, td_duration = 10\<rparr>"]
  by (simp add: td_durations_def get_td_duration_def kMaxTravelTime_def wrap_s_def Let_def)

end
