(* ===== verification/Timetable.thy ===== *)
theory Timetable
  imports Stops
begin

text \<open>
  The static timetable: \<open>include/nigiri/timetable.h\<close>, \<open>src/timetable.cc\<close>, \<open>event_times.h\<close> and
  \<open>for_each_meta.h\<close>. Every \<open>vector_map\<close> and \<open>vecvec\<close> is a list indexed by the number of the
  location, route or transport; only the fields routing and loading read are kept. Event times
  are stored compressed: the first departure of each transport plus the offset of the event in
  the transport's pattern.
\<close>

section \<open>The tables\<close>

record route_times =
  rt_transports :: "nat interval"
  rt_pattern_start :: nat
  rt_n_patterns :: nat

record timetable =
  date_range :: "int interval"
  loc_names :: "nat list"
  transfer_time :: "int list"
  loc_types :: "location_type list"
  parents :: "nat option list"
  equivalences :: "nat list list"
  children :: "nat list list"
  footpaths_out :: "footpath list list list"
  footpaths_in :: "footpath list list list"
  location_routes :: "nat list list"
  route_transport_ranges :: "nat interval list"
  route_location_seq :: "nat list list"
  route_clasz :: "clasz list"
  route_section_clasz :: "clasz list list"
  route_flags :: "bool list list"
  route_flags_per_section :: "bool list list list"
  transport_first_dep :: "delta list"
  transport_pattern :: "nat list"
  tt_route_times :: "route_times list"
  pattern_offsets :: "delta list"
  transport_traffic_days :: "nat list"
  route_traffic_days :: "nat list"
  bitfields :: "bitfield list"
  transport_route :: "nat list"
  fwd_search_lb_graph :: "footpath list list list"
  bwd_search_lb_graph :: "footpath list list list"
  location_importance :: "nat list"
  max_importance :: nat

definition kTimetableOffset :: int where "kTimetableOffset = 1 + 4"

definition n_locations :: "timetable \<Rightarrow> nat" where
  "n_locations tt = length (loc_names tt)"

definition n_routes :: "timetable \<Rightarrow> nat" where
  "n_routes tt = length (route_location_seq tt)"

definition external_interval :: "timetable \<Rightarrow> int interval" where
  "external_interval tt = mk_iv (ifrom (date_range tt) * 1440) (ito (date_range tt) * 1440)"

definition internal_interval_days :: "timetable \<Rightarrow> int interval" where
  "internal_interval_days tt =
     mk_iv (ifrom (date_range tt) - kTimetableOffset) (ito (date_range tt) + 1)"

definition internal_interval :: "timetable \<Rightarrow> int interval" where
  "internal_interval tt =
     mk_iv ((ifrom (date_range tt) - kTimetableOffset) * 1440) ((ito (date_range tt) + 1) * 1440)"

section \<open>Traffic days and flags\<close>

text \<open>\<open>bitset::test\<close> is false beyond the last day, as \<^const>\<open>bit\<close> on a word is.\<close>

definition is_transport_active :: "timetable \<Rightarrow> nat \<Rightarrow> nat \<Rightarrow> bool" where
  "is_transport_active tt t d \<longleftrightarrow> bit (bitfields tt ! (transport_traffic_days tt ! t)) d"

definition is_route_active :: "timetable \<Rightarrow> nat \<Rightarrow> nat \<Rightarrow> bool" where
  "is_route_active tt r d \<longleftrightarrow> bit (bitfields tt ! (route_traffic_days tt ! r)) d"

definition is_flag_set :: "timetable \<Rightarrow> route_flag \<Rightarrow> nat \<Rightarrow> bool" where
  "is_flag_set tt f r \<longleftrightarrow>
     route_flags tt ! route_flag_idx f ! (r * 2) \<or> route_flags tt ! route_flag_idx f ! (r * 2 + 1)"

section \<open>Event times\<close>

record event_times =
  et_first_dep :: "delta list"
  et_pattern :: "nat list"
  et_offsets :: "delta list"
  et_first_transport :: nat
  et_n_transports :: nat
  et_n_patterns :: nat

text \<open>The three pointers are the lists from the position they point to.\<close>

definition event_times_at_stop :: "timetable \<Rightarrow> nat \<Rightarrow> nat \<Rightarrow> event_type \<Rightarrow> event_times" where
  "event_times_at_stop tt r stop_idx ev_type =
     (let rt = tt_route_times tt ! r in
      \<lparr>et_first_dep = drop (ifrom (rt_transports rt)) (transport_first_dep tt),
       et_pattern = drop (ifrom (rt_transports rt)) (transport_pattern tt),
       et_offsets = drop (rt_pattern_start rt + event_idx stop_idx ev_type * rt_n_patterns rt)
         (pattern_offsets tt),
       et_first_transport = ifrom (rt_transports rt),
       et_n_transports = iv_size (rt_transports rt),
       et_n_patterns = rt_n_patterns rt\<rparr>)"

definition et_nth :: "event_times \<Rightarrow> nat \<Rightarrow> delta" where
  "et_nth e i = delta_plus (et_first_dep e ! i)
     (et_offsets e ! (if et_n_patterns e = 1 then 0 else et_pattern e ! i))"

definition et_transport :: "event_times \<Rightarrow> nat \<Rightarrow> nat" where
  "et_transport e i = et_first_transport e + i"

text \<open>The values between \<open>begin()\<close> and \<open>end()\<close>.\<close>

definition et_list :: "event_times \<Rightarrow> delta list" where
  "et_list e = map (et_nth e) [0..<et_n_transports e]"

definition event_mam_r :: "timetable \<Rightarrow> nat \<Rightarrow> nat \<Rightarrow> nat \<Rightarrow> event_type \<Rightarrow> delta" where
  "event_mam_r tt r t stop_idx ev_type =
     (let rt = tt_route_times tt ! r in
      delta_plus (transport_first_dep tt ! t)
        (pattern_offsets tt ! (rt_pattern_start rt + event_idx stop_idx ev_type * rt_n_patterns rt
           + (if rt_n_patterns rt = 1 then 0 else transport_pattern tt ! t))))"

definition event_mam :: "timetable \<Rightarrow> nat \<Rightarrow> nat \<Rightarrow> event_type \<Rightarrow> delta" where
  "event_mam tt t stop_idx ev_type = event_mam_r tt (transport_route tt ! t) t stop_idx ev_type"

definition event_time :: "timetable \<Rightarrow> transport \<Rightarrow> nat \<Rightarrow> event_type \<Rightarrow> int" where
  "event_time tt t stop_idx ev_type =
     (ifrom (internal_interval_days tt) + int (t_day t)) * 1440
       + as_duration (event_mam tt (t_idx t) stop_idx ev_type)"

section \<open>Days\<close>

definition day_idx :: "timetable \<Rightarrow> int \<Rightarrow> nat" where
  "day_idx tt d = nat (u16 (d - (ifrom (date_range tt) - kTimetableOffset)))"

definition day_idx_mam :: "timetable \<Rightarrow> int \<Rightarrow> nat \<times> int" where
  "day_idx_mam tt t =
     (let m = t - ifrom (internal_interval tt)
      in (nat (u16 (cdiv m 1440)), i16 (cmod m 1440)))"

definition to_unixtime :: "timetable \<Rightarrow> nat \<Rightarrow> int \<Rightarrow> int" where
  "to_unixtime tt d m = (ifrom (internal_interval_days tt) + int d) * 1440 + m"

section \<open>Registration\<close>

definition register_bitfield :: "bitfield \<Rightarrow> timetable \<Rightarrow> nat \<times> timetable" where
  "register_bitfield b tt = (length (bitfields tt), tt\<lparr>bitfields := bitfields tt @ [b]\<rparr>)"

definition kInvalidTransport :: nat where "kInvalidTransport = 4294967295"

definition apply_filter :: "nat \<Rightarrow> bool list list \<Rightarrow> route_flag \<Rightarrow> timetable \<Rightarrow> timetable" where
  "apply_filter idx flags_per_section f tt =
     (let secs = flags_per_section ! route_flag_idx f;
          n_set = length (filter id secs);
          on_all = (n_set = length secs \<and> length secs \<noteq> 0);
          on_some = (n_set \<noteq> 0);
          fl = route_flags tt ! route_flag_idx f;
          fl = resize False (length fl + 2) fl;
          per = resize [] (idx + 1) (route_flags_per_section tt ! route_flag_idx f)
      in tt\<lparr>route_flags := (route_flags tt)[route_flag_idx f := fl[idx * 2 := on_all, idx * 2 + 1 := on_some]],
            route_flags_per_section := (route_flags_per_section tt)[route_flag_idx f :=
              (if on_some \<and> \<not> on_all then per[idx := per ! idx @ secs] else per)]\<rparr>)"

definition all_route_flags :: "route_flag list" where
  "all_route_flags = [kBikesAllowed, kCarsAllowed, kWheelchairAccessible, kReservationNotRequired]"

definition register_route ::
    "nat list \<Rightarrow> clasz list \<Rightarrow> bool list list \<Rightarrow> timetable \<Rightarrow> nat \<times> timetable" where
  "register_route stop_seq clasz_sections flags_per_section tt =
     (let idx = length (route_location_seq tt);
          tt = tt\<lparr>route_transport_ranges := route_transport_ranges tt @
                   [mk_iv (length (transport_traffic_days tt)) kInvalidTransport],
                 route_location_seq := route_location_seq tt @ [stop_seq],
                 route_section_clasz := route_section_clasz tt @ [clasz_sections],
                 route_clasz := route_clasz tt @ [clasz_sections ! 0]\<rparr>
      in (idx, fold (apply_filter idx flags_per_section) all_route_flags tt))"

definition finish_route :: "timetable \<Rightarrow> timetable" where
  "finish_route tt =
     tt\<lparr>route_transport_ranges := butlast (route_transport_ranges tt) @
          [(last (route_transport_ranges tt))\<lparr>ito := length (transport_traffic_days tt)\<rparr>]\<rparr>"

definition next_transport_idx :: "timetable \<Rightarrow> nat" where
  "next_transport_idx tt = length (transport_traffic_days tt)"


section \<open>Event times: two ways to read the same cell\<close>

text \<open>What the index arithmetic relies on: the tables of a route are where its \<open>route_times\<close>
  say.\<close>

definition route_times_ok :: "timetable \<Rightarrow> nat \<Rightarrow> bool" where
  "route_times_ok tt r \<longleftrightarrow>
     (let rt = tt_route_times tt ! r in
      ifrom (rt_transports rt) \<le> ito (rt_transports rt) \<and>
      ito (rt_transports rt) \<le> length (transport_first_dep tt) \<and>
      ito (rt_transports rt) \<le> length (transport_pattern tt) \<and>
      rt_pattern_start rt + (2 * length (route_location_seq tt ! r) - 2) * rt_n_patterns rt
        \<le> length (pattern_offsets tt))"

lemma et_nth_event_mam:
  assumes "route_times_ok tt r" "event_idx stop_idx ev_type < 2 * length (route_location_seq tt ! r) - 2"
  shows "et_nth (event_times_at_stop tt r stop_idx ev_type) i =
    event_mam_r tt r (et_transport (event_times_at_stop tt r stop_idx ev_type) i) stop_idx ev_type"
proof -
  let ?rt = "tt_route_times tt ! r" and ?n = "2 * length (route_location_seq tt ! r) - 2"
  have "event_idx stop_idx ev_type * rt_n_patterns ?rt \<le> ?n * rt_n_patterns ?rt"
    using assms(2) by (intro mult_le_mono1) simp
  then have off: "rt_pattern_start ?rt + event_idx stop_idx ev_type * rt_n_patterns ?rt
      \<le> length (pattern_offsets tt)"
    using assms(1) unfolding route_times_ok_def Let_def by linarith
  have "ifrom (rt_transports ?rt) \<le> length (transport_first_dep tt)"
    "ifrom (rt_transports ?rt) \<le> length (transport_pattern tt)"
    using assms(1) by (simp_all add: route_times_ok_def Let_def)
  note nth = nth_drop [OF this(1)] nth_drop [OF this(2)] nth_drop [OF off]
  show ?thesis
    by (simp add: event_times_at_stop_def Let_def et_nth_def et_transport_def event_mam_r_def nth)
qed

text \<open>The strided view routing iterates over and the direct accessor read the same
  time: entry \<open>i\<close> of \<open>event_times_at_stop\<close> is \<open>event_mam\<close> of the \<open>i\<close>-th transport of the
  route, for every event of the route.\<close>

theorem event_times_view:
  assumes "route_times_ok tt r" "event_idx stop_idx ev_type < 2 * length (route_location_seq tt ! r) - 2"
  shows "et_nth (event_times_at_stop tt r stop_idx ev_type) i =
    event_mam_r tt r (et_transport (event_times_at_stop tt r stop_idx ev_type) i) stop_idx ev_type"
  using assms by (rule et_nth_event_mam)

section \<open>Days round trip\<close>

text \<open>Splitting a time into day and minutes after midnight loses nothing: for every
  time from the first internal day on (up to the 16 bit range of day numbers) the minutes are
  in \<open>[0, 1440)\<close>, \<open>to_unixtime\<close> gives the time back, and the day is \<open>day_idx\<close> of its date.\<close>

theorem day_idx_mam_roundtrip:
  assumes "ifrom (internal_interval tt) \<le> t" "t < ifrom (internal_interval tt) + 65536 * 1440"
  shows "0 \<le> snd (day_idx_mam tt t) \<and> snd (day_idx_mam tt t) < 1440 \<and>
    to_unixtime tt (fst (day_idx_mam tt t)) (snd (day_idx_mam tt t)) = t \<and>
    fst (day_idx_mam tt t) = day_idx tt (t div 1440)"
proof -
  define b where "b = ifrom (date_range tt) - kTimetableOffset"
  define m where "m = t - b * 1440"
  have m: "0 \<le> m" "m < 65536 * 1440"
    using assms by (simp_all add: m_def b_def internal_interval_def mk_iv_def)
  then have q: "0 \<le> m div 1440" "m div 1440 < 65536" by auto
  have r: "0 \<le> m mod 1440" "m mod 1440 < 1440" by simp_all
  have t: "t = b * 1440 + m" by (simp add: m_def)
  have "t div 1440 - b = m div 1440" unfolding t by simp
  moreover have "day_idx_mam tt t = (nat (m div 1440), m mod 1440)"
    using m q r by (simp add: day_idx_mam_def Let_def internal_interval_def mk_iv_def m_def [symmetric]
        b_def [symmetric] wrap_s16_id)
  ultimately show ?thesis
    using q r by (simp add: to_unixtime_def internal_interval_days_def mk_iv_def b_def [symmetric]
        day_idx_def t)
qed

section \<open>Flags of a route\<close>

text \<open>Two bits and one bucket per registered route and flag.\<close>

definition flags_ok :: "timetable \<Rightarrow> bool" where
  "flags_ok tt \<longleftrightarrow> length (route_flags tt) = 4 \<and> length (route_flags_per_section tt) = 4 \<and>
     (\<forall>f. length (route_flags tt ! route_flag_idx f) = 2 * n_routes tt \<and>
          length (route_flags_per_section tt ! route_flag_idx f) = n_routes tt)"

lemma route_flag_idx_inj: "route_flag_idx f = route_flag_idx g \<longleftrightarrow> f = g"
  by (cases f; cases g) simp_all

lemma route_flag_idx_less: "route_flag_idx f < 4"
  by (cases f) simp_all

definition flag_bits :: "bool list \<Rightarrow> bool \<times> bool" where
  "flag_bits secs = (secs \<noteq> [] \<and> False \<notin> set secs, True \<in> set secs)"

lemma filter_id_all: "length (filter id bs) = length bs \<longleftrightarrow> False \<notin> set bs"
  using filter_id_conv [of id bs] by (auto dest: length_filter_less [of _ _ id])

lemma filter_id_some: "filter id bs \<noteq> [] \<longleftrightarrow> True \<in> set bs"
  by (induction bs) auto

lemma apply_filter_same:
  assumes "length (route_flags tt) = 4" "length (route_flags_per_section tt) = 4"
    and "length (route_flags tt ! route_flag_idx f) = 2 * idx"
    and "length (route_flags_per_section tt ! route_flag_idx f) = idx"
  shows "route_flags (apply_filter idx fps f tt) ! route_flag_idx f =
      route_flags tt ! route_flag_idx f @ [fst (flag_bits (fps ! route_flag_idx f)), snd (flag_bits (fps ! route_flag_idx f))]"
    and "route_flags_per_section (apply_filter idx fps f tt) ! route_flag_idx f =
      route_flags_per_section tt ! route_flag_idx f @
        [if snd (flag_bits (fps ! route_flag_idx f)) \<and> \<not> fst (flag_bits (fps ! route_flag_idx f))
         then fps ! route_flag_idx f else []]"
proof -
  let ?s = "fps ! route_flag_idx f"
  have all: "(length (filter id ?s) = length ?s \<and> length ?s \<noteq> 0) = fst (flag_bits ?s)"
    by (auto simp: flag_bits_def filter_id_all)
  have some: "(length (filter id ?s) \<noteq> 0) = snd (flag_bits ?s)"
    by (simp add: flag_bits_def filter_id_some)
  have two: "xs @ replicate (Suc (Suc 0)) a = xs @ [a, a]" for xs and a :: bool by simp
  note idx = route_flag_idx_less [of f]
  show "route_flags (apply_filter idx fps f tt) ! route_flag_idx f =
      route_flags tt ! route_flag_idx f @ [fst (flag_bits ?s), snd (flag_bits ?s)]"
    unfolding apply_filter_def Let_def all some using assms idx
    by (simp add: resize_longer list_update_append numeral_2_eq_2)
  show "route_flags_per_section (apply_filter idx fps f tt) ! route_flag_idx f =
      route_flags_per_section tt ! route_flag_idx f @
        [if snd (flag_bits ?s) \<and> \<not> fst (flag_bits ?s) then ?s else []]"
    unfolding apply_filter_def Let_def all some using assms idx
    by (simp add: resize_longer list_update_append nth_append)
qed

lemma apply_filter_other:
  "f \<noteq> g \<Longrightarrow> route_flags (apply_filter idx fps g tt) ! route_flag_idx f = route_flags tt ! route_flag_idx f"
  "f \<noteq> g \<Longrightarrow> route_flags_per_section (apply_filter idx fps g tt) ! route_flag_idx f =
     route_flags_per_section tt ! route_flag_idx f"
  "length (route_flags (apply_filter idx fps g tt)) = length (route_flags tt)"
  "length (route_flags_per_section (apply_filter idx fps g tt)) = length (route_flags_per_section tt)"
  "route_location_seq (apply_filter idx fps g tt) = route_location_seq tt"
  using route_flag_idx_inj [of f g] by (simp_all add: apply_filter_def Let_def)

lemma fold_apply_filter:
  assumes "length (route_flags tt) = 4" "length (route_flags_per_section tt) = 4"
    and "\<And>f. length (route_flags tt ! route_flag_idx f) = 2 * idx"
    and "\<And>f. length (route_flags_per_section tt ! route_flag_idx f) = idx"
    and "tt' = fold (apply_filter idx fps) all_route_flags tt"
  shows "route_flags tt' ! route_flag_idx f = route_flags tt ! route_flag_idx f @
      [fst (flag_bits (fps ! route_flag_idx f)), snd (flag_bits (fps ! route_flag_idx f))] \<and>
    route_flags_per_section tt' ! route_flag_idx f = route_flags_per_section tt ! route_flag_idx f @
        [if snd (flag_bits (fps ! route_flag_idx f)) \<and> \<not> fst (flag_bits (fps ! route_flag_idx f))
         then fps ! route_flag_idx f else []] \<and>
    length (route_flags tt') = 4 \<and> length (route_flags_per_section tt') = 4 \<and>
    route_location_seq tt' = route_location_seq tt"
  unfolding assms(5) all_route_flags_def using assms(1-4)
  by (cases f) (simp_all only: fold_simps apply_filter_same apply_filter_other route_flag.distinct
      not_False_eq_True simp_thms)


lemma register_route_flags:
  assumes "flags_ok tt" "register_route seq cs fps tt = (r, tt')"
  shows "r = n_routes tt" "route_location_seq tt' = route_location_seq tt @ [seq]"
    "route_flags tt' ! route_flag_idx f = route_flags tt ! route_flag_idx f @
      [fst (flag_bits (fps ! route_flag_idx f)), snd (flag_bits (fps ! route_flag_idx f))]"
    "route_flags_per_section tt' ! route_flag_idx f = route_flags_per_section tt ! route_flag_idx f @
        [if snd (flag_bits (fps ! route_flag_idx f)) \<and> \<not> fst (flag_bits (fps ! route_flag_idx f))
         then fps ! route_flag_idx f else []]"
    "length (route_flags tt') = 4" "length (route_flags_per_section tt') = 4"
proof -
  let ?t = "tt\<lparr>route_transport_ranges := route_transport_ranges tt @
                   [mk_iv (length (transport_traffic_days tt)) kInvalidTransport],
                 route_location_seq := route_location_seq tt @ [seq],
                 route_section_clasz := route_section_clasz tt @ [cs],
                 route_clasz := route_clasz tt @ [cs ! 0]\<rparr>"
  have *: "r = n_routes tt" "tt' = fold (apply_filter (n_routes tt) fps) all_route_flags ?t"
    using assms(2) by (auto simp: register_route_def Let_def n_routes_def)
  from * show "r = n_routes tt" by simp
  note F = fold_apply_filter [OF _ _ _ _ *(2), of f]
  have "length (route_flags ?t) = 4" "length (route_flags_per_section ?t) = 4"
    "length (route_flags ?t ! route_flag_idx g) = 2 * n_routes tt"
    "length (route_flags_per_section ?t ! route_flag_idx g) = n_routes tt" for g
    using assms(1) by (simp_all add: flags_ok_def)
  note F = F [OF this]
  from F show "route_location_seq tt' = route_location_seq tt @ [seq]" by simp
  from F show "route_flags tt' ! route_flag_idx f = route_flags tt ! route_flag_idx f @
      [fst (flag_bits (fps ! route_flag_idx f)), snd (flag_bits (fps ! route_flag_idx f))]" by simp
  from F show "route_flags_per_section tt' ! route_flag_idx f = route_flags_per_section tt ! route_flag_idx f @
        [if snd (flag_bits (fps ! route_flag_idx f)) \<and> \<not> fst (flag_bits (fps ! route_flag_idx f))
         then fps ! route_flag_idx f else []]" by simp
  from F show "length (route_flags tt') = 4" "length (route_flags_per_section tt') = 4" by simp_all
qed

text \<open>Registering a route keeps two flag bits and one section bucket per route and
  flag, leaves the flags of the earlier routes alone, and answers for the new route:
  \<open>is_flag_set\<close> holds exactly if some section has the flag, the first bit exactly if all
  (at least one) sections have it, and the sections are stored exactly when they differ.\<close>

theorem register_route_correct:
  assumes "flags_ok tt" "register_route seq cs fps tt = (r, tt')" "secs = fps ! route_flag_idx f"
  shows "flags_ok tt' \<and> (is_flag_set tt' f r \<longleftrightarrow> True \<in> set secs) \<and>
    (route_flags tt' ! route_flag_idx f ! (r * 2) \<longleftrightarrow> secs \<noteq> [] \<and> False \<notin> set secs) \<and>
    route_flags_per_section tt' ! route_flag_idx f ! r =
      (if True \<in> set secs \<and> False \<in> set secs then secs else []) \<and>
    (\<forall>q < n_routes tt. is_flag_set tt' f q = is_flag_set tt f q)"
proof -
  note R = register_route_flags [OF assms(1,2)]
  have len: "length (route_flags tt ! route_flag_idx f) = 2 * r"
    "length (route_flags_per_section tt ! route_flag_idx f) = r" for f
    using assms(1) R(1) by (simp_all add: flags_ok_def)
  have ok: "flags_ok tt'"
    using assms(1) R(2,5,6) R(3,4) [of _] by (simp add: flags_ok_def n_routes_def)
  have new: "route_flags tt' ! route_flag_idx f ! (r * 2) = (secs \<noteq> [] \<and> False \<notin> set secs)"
    "route_flags tt' ! route_flag_idx f ! (r * 2 + 1) = (True \<in> set secs)"
    using R(3) [of f] len(1) [of f] assms(3) by (simp_all add: nth_append flag_bits_def)
  have "False \<notin> set secs \<Longrightarrow> secs \<noteq> [] \<Longrightarrow> True \<in> set secs"
    by (cases secs) auto
  with new have "is_flag_set tt' f r \<longleftrightarrow> True \<in> set secs" by (auto simp: is_flag_set_def)
  moreover have "route_flags_per_section tt' ! route_flag_idx f ! r =
      (if True \<in> set secs \<and> False \<in> set secs then secs else [])"
    using R(4) [of f] len(2) [of f] assms(3) by (auto simp: nth_append flag_bits_def)
  moreover have "is_flag_set tt' f q = is_flag_set tt f q" if "q < n_routes tt" for q
    using that R(1) R(3) [of f] len(1) [of f] by (simp add: is_flag_set_def nth_append)
  ultimately show ?thesis using ok new(1) by blast
qed

section \<open>An example timetable\<close>

text \<open>One route over three stops (locations 0, 1, 2), two transports with one pattern, serving
  days 5 and 6.\<close>

definition empty_timetable :: timetable where
  "empty_timetable = \<lparr>date_range = mk_iv 0 30, loc_names = [], transfer_time = [], loc_types = [],
     parents = [], equivalences = [], children = [], footpaths_out = [], footpaths_in = [],
     location_routes = [], route_transport_ranges = [], route_location_seq = [], route_clasz = [],
     route_section_clasz = [], route_flags = [[], [], [], []], route_flags_per_section = [[], [], [], []],
     transport_first_dep = [], transport_pattern = [], tt_route_times = [], pattern_offsets = [],
     transport_traffic_days = [], route_traffic_days = [], bitfields = [], transport_route = [],
     fwd_search_lb_graph = [], bwd_search_lb_graph = [], location_importance = [], max_importance = 0\<rparr>"

definition example_timetable :: timetable where
  "example_timetable = empty_timetable\<lparr>loc_names := [0, 1, 2], transfer_time := [2, 2, 2],
     loc_types := [kStation, kStation, kStation], parents := [None, None, None],
     equivalences := [[0], [1], [2]], children := [[], [], []],
     footpaths_out := [[[], [], []]], footpaths_in := [[[], [], []]],
     location_routes := [[0], [0], [0]], route_transport_ranges := [mk_iv 0 2],
     route_location_seq := [map (\<lambda>l. stop_value (mk_stop l True True True True)) [0, 1, 2]],
     route_clasz := [kBus], route_section_clasz := [[kBus, kBus]],
     route_flags := replicate 4 [False, False], route_flags_per_section := replicate 4 [[]],
     transport_first_dep := [\<lparr>days = 0, mam = 600\<rparr>, \<lparr>days = 0, mam = 660\<rparr>],
     transport_pattern := [0, 0],
     tt_route_times := [\<lparr>rt_transports = mk_iv 0 2, rt_pattern_start = 0, rt_n_patterns = 1\<rparr>],
     pattern_offsets := map delta_of_minutes [0, 10, 12, 25],
     transport_traffic_days := [0, 0], route_traffic_days := [0], bitfields := [96],
     transport_route := [0, 0], fwd_search_lb_graph := replicate 5 [], bwd_search_lb_graph := replicate 5 []\<rparr>"

theorem event_times_view_witness:
  "et_nth (event_times_at_stop example_timetable 0 2 Arr) 1 = event_mam_r example_timetable 0 1 2 Arr"
  using event_times_view [of example_timetable 0 2 Arr 1]
  by (simp add: route_times_ok_def example_timetable_def event_times_at_stop_def et_transport_def Let_def
      mk_iv_def)

theorem day_idx_mam_roundtrip_witness:
  "to_unixtime example_timetable (fst (day_idx_mam example_timetable 2000)) (snd (day_idx_mam example_timetable 2000)) = 2000"
  by (rule day_idx_mam_roundtrip [THEN conjunct2, THEN conjunct2, THEN conjunct1])
     (simp_all add: internal_interval_def example_timetable_def empty_timetable_def kTimetableOffset_def mk_iv_def)

theorem register_route_correct_witness:
  "is_flag_set (snd (register_route [0, 1, 2] [kBus, kBus] [[], [], [True, False], []] empty_timetable))
     kWheelchairAccessible 0"
proof -
  let ?r = "register_route [0, 1, 2] [kBus, kBus] [[], [], [True, False], []] empty_timetable"
  have ok: "flags_ok empty_timetable"
  proof -
    have "route_flags empty_timetable ! route_flag_idx f = [] \<and>
        route_flags_per_section empty_timetable ! route_flag_idx f = []" for f
      by (cases f) (simp_all add: empty_timetable_def)
    then show ?thesis by (simp add: flags_ok_def n_routes_def empty_timetable_def)
  qed
  have "fst ?r = 0" by (simp add: register_route_def Let_def empty_timetable_def)
  then have "?r = (0, snd ?r)" by (metis prod.collapse)
  from register_route_correct [OF ok this refl, of kWheelchairAccessible] show ?thesis by simp
qed

end
