(* ===== verification/Rt_Timetable.thy ===== *)
theory Rt_Timetable
  imports Timetable
begin

text \<open>
  The real-time overlay: \<open>include/nigiri/rt/rt_timetable.h\<close> and \<open>src/rt/rt_timetable.cc\<close>. Real-time
  transports carry their own stop sequence and their event times as 16 bit minutes relative to a base
  day; a static transport that has one is switched off for that day by pointing its traffic
  days at a modified copy of the bit field. Trip ids, names, alerts, tracks and the change callback
  are not kept.
\<close>

datatype rt_data_state = kNoRtData | kInconsistent | kObserved | kPropagated | kPredicted

record rt_timetable =
  has_td_footpaths_out :: "bool list list"
  has_td_footpaths_in :: "bool list list"
  td_footpaths_out :: "td_footpath list list list"
  td_footpaths_in :: "td_footpath list list list"
  rtt_traffic_days :: "nat list"
  rtt_bitfields :: "bitfield list"
  location_rt_transports :: "nat list list"
  base_day :: int
  base_day_idx :: nat
  static_trip_lookup :: "transport \<rightharpoonup> nat"
  rt_static_transport :: "transport option list"
  rt_stop_times :: "int list list"
  rt_location_seq :: "nat list list"
  rt_data_states :: "rt_data_state list list"
  rt_section_clasz :: "clasz list list"
  rt_is_cancelled :: "bool list"
  rt_transport_flags :: "bool list list"
  rt_flags_per_section :: "bool list list list"
  coverage :: "int interval"
  fwd_lb_has_edges :: "bool list"
  bwd_lb_has_edges :: "bool list"
  fwd_rt_lb_graph :: "footpath list list"
  bwd_rt_lb_graph :: "footpath list list"

section \<open>Times\<close>

definition rtt_unix_to_delta :: "rt_timetable \<Rightarrow> int \<Rightarrow> int" where
  "rtt_unix_to_delta rtt t = clamp (t - base_day rtt * 1440)"

definition rt_interval :: "rt_timetable \<Rightarrow> int interval" where
  "rt_interval rtt = mk_iv (base_day rtt * 1440 + (delta_min + 1)) (base_day rtt * 1440 + delta_max)"

definition kRtIntervalBuffer :: int where "kRtIntervalBuffer = 1440"

definition is_in_rt_interval :: "timetable \<Rightarrow> rt_timetable \<Rightarrow> transport \<Rightarrow> bool" where
  "is_in_rt_interval tt rtt t =
     (let n_stops = length (route_location_seq tt ! (transport_route tt ! t_idx t));
          rt_iv = rt_interval rtt;
          iv = mk_iv (ifrom rt_iv + kRtIntervalBuffer) (ito rt_iv - kRtIntervalBuffer)
      in iv_contains iv (event_time tt t 0 Dep) \<and> iv_contains iv (event_time tt t (n_stops - 1) Arr))"

definition rt_event_time :: "rt_timetable \<Rightarrow> nat \<Rightarrow> nat \<Rightarrow> event_type \<Rightarrow> int" where
  "rt_event_time rtt rt_t stop_idx ev_type = rt_stop_times rtt ! rt_t ! event_idx stop_idx ev_type"

definition unix_event_time :: "rt_timetable \<Rightarrow> nat \<Rightarrow> nat \<Rightarrow> event_type \<Rightarrow> int" where
  "unix_event_time rtt rt_t stop_idx ev_type =
     base_day rtt * 1440 + rt_event_time rtt rt_t stop_idx ev_type"

text \<open>\<open>update_time\<close>: the new state and whether the time was accepted.\<close>

definition update_time ::
    "nat \<Rightarrow> nat \<Rightarrow> event_type \<Rightarrow> int \<Rightarrow> rt_data_state \<Rightarrow> rt_timetable \<Rightarrow> bool \<times> rt_timetable" where
  "update_time rt_t stop_idx ev_type new_time st rtt =
     (if \<not> iv_contains (rt_interval rtt) new_time then (False, rtt)
      else
        let ev_idx = event_idx stop_idx ev_type; d = rtt_unix_to_delta rtt new_time
        in (True, rtt\<lparr>
          rt_stop_times := (rt_stop_times rtt)[rt_t := (rt_stop_times rtt ! rt_t)[ev_idx := d]],
          rt_data_states := (rt_data_states rtt)[rt_t := (rt_data_states rtt ! rt_t)[ev_idx := st]],
          coverage := iv_extend (coverage rtt) (delta_to_unix (base_day rtt) d)\<rparr>))"

definition set_data_state :: "nat \<Rightarrow> nat \<Rightarrow> event_type \<Rightarrow> rt_data_state \<Rightarrow> rt_timetable \<Rightarrow> rt_timetable" where
  "set_data_state rt_t stop_idx ev_type st rtt =
     rtt\<lparr>rt_data_states := (rt_data_states rtt)[rt_t :=
       (rt_data_states rtt ! rt_t)[event_idx stop_idx ev_type := st]]\<rparr>"

definition affects :: "rt_timetable \<Rightarrow> int interval \<Rightarrow> nat \<Rightarrow> bool" where
  "affects rtt iv prf_idx \<longleftrightarrow>
     (has_profile_td_footpaths prf_idx \<and>
        (True \<in> set (has_td_footpaths_out rtt ! prf_idx) \<or> True \<in> set (has_td_footpaths_in rtt ! prf_idx))) \<or>
     iv_overlaps iv (coverage rtt)"

definition rt_transport_interval :: "rt_timetable \<Rightarrow> nat \<Rightarrow> int interval" where
  "rt_transport_interval rtt rt_t =
     (let times = rt_stop_times rtt ! rt_t
      in if times = [] then mk_iv 0 0
         else mk_iv (delta_to_unix (base_day rtt) (hd times)) (delta_to_unix (base_day rtt) (last times) + 1))"

definition static_transport_interval :: "timetable \<Rightarrow> transport option \<Rightarrow> int interval" where
  "static_transport_interval tt t =
     (case t of None \<Rightarrow> mk_iv 0 0
      | Some t \<Rightarrow>
          let n_stops = length (route_location_seq tt ! (transport_route tt ! t_idx t))
          in mk_iv (event_time tt t 0 Dep) (event_time tt t (n_stops - 1) Arr + 1))"

section \<open>Traffic days\<close>

text \<open>\<open>kRtBitfieldFlag\<close> is the top bit of the 32 bit index: with it the bit field is looked up in the
  overlay.\<close>

definition kRtBitfieldFlag :: nat where "kRtBitfieldFlag = 2147483648"

definition traffic_days :: "timetable \<Rightarrow> rt_timetable \<Rightarrow> nat \<Rightarrow> bitfield" where
  "traffic_days tt rtt i =
     (if odd (i div kRtBitfieldFlag) then rtt_bitfields rtt ! (i mod kRtBitfieldFlag) else bitfields tt ! i)"

definition rt_bitfield_idx :: "rt_timetable \<Rightarrow> nat" where
  "rt_bitfield_idx rtt = (let i = length (rtt_bitfields rtt) - 1
     in if odd (i div kRtBitfieldFlag) then i else i + kRtBitfieldFlag)"

definition rtt_is_transport_active :: "timetable \<Rightarrow> rt_timetable \<Rightarrow> nat \<Rightarrow> nat \<Rightarrow> bool" where
  "rtt_is_transport_active tt rtt t d \<longleftrightarrow> bit (traffic_days tt rtt (rtt_traffic_days rtt ! t)) d"

definition rtt_is_flag_set :: "rt_timetable \<Rightarrow> route_flag \<Rightarrow> nat \<Rightarrow> bool" where
  "rtt_is_flag_set rtt f r \<longleftrightarrow> rt_transport_flags rtt ! route_flag_idx f ! (r * 2) \<or>
     rt_transport_flags rtt ! route_flag_idx f ! (r * 2 + 1)"

text \<open>The copy with one day cleared, appended and installed: done by both \<open>add_rt_transport\<close> and
  \<open>cancel_run\<close>.\<close>

definition switch_off :: "timetable \<Rightarrow> transport \<Rightarrow> rt_timetable \<Rightarrow> rt_timetable" where
  "switch_off tt t rtt =
     (let bf = traffic_days tt rtt (rtt_traffic_days rtt ! t_idx t);
          rtt = rtt\<lparr>rtt_bitfields := rtt_bitfields rtt @ [unset_bit (t_day t) bf]\<rparr>
      in rtt\<lparr>rtt_traffic_days := (rtt_traffic_days rtt)[t_idx t := rt_bitfield_idx rtt]\<rparr>)"

section \<open>Adding and cancelling runs\<close>

fun static_rt_times :: "timetable \<Rightarrow> rt_timetable \<Rightarrow> transport \<Rightarrow> int \<Rightarrow> nat \<Rightarrow> nat \<Rightarrow> nat \<Rightarrow> int list" where
  "static_rt_times tt rtt t off static_len s 0 = []"
| "static_rt_times tt rtt t off static_len s (Suc n) =
     [i16 (rtt_unix_to_delta rtt (event_time tt t s Dep) + off),
      i16 (rtt_unix_to_delta rtt (event_time tt t (s + 1) Arr) + off)] @
     (if static_len \<le> s + 1 + 1 then replicate (2 * n) 0
      else static_rt_times tt rtt t off static_len (s + 1) n)"

definition flags_defaults :: "route_flag \<Rightarrow> bool" where
  "flags_defaults f = (f = kReservationNotRequired)"

definition push_rt_transport :: "nat \<Rightarrow> nat \<Rightarrow> nat list list \<Rightarrow> nat list list" where
  "push_rt_transport rt_t l m =
     (if m ! l = [] \<or> last (m ! l) \<noteq> rt_t then m[l := m ! l @ [rt_t]] else m)"

definition add_rt_flags ::
    "timetable \<Rightarrow> nat option \<Rightarrow> bool \<Rightarrow> route_flag \<Rightarrow> rt_timetable \<Rightarrow> rt_timetable" where
  "add_rt_flags tt r own_seq f rtt =
     (let i = route_flag_idx f; fl = rt_transport_flags rtt ! i;
          two = (case r of Some r \<Rightarrow> (route_flags tt ! i ! (r * 2), route_flags tt ! i ! (r * 2 + 1))
                         | None \<Rightarrow> (flags_defaults f, False));
          per = rt_flags_per_section rtt ! i
      in (case (r, own_seq) of
           (Some r, False) \<Rightarrow> rtt\<lparr>
             rt_transport_flags := (rt_transport_flags rtt)[i := fl @ [fst two, snd two]],
             rt_flags_per_section := (rt_flags_per_section rtt)[i := per @ [route_flags_per_section tt ! i ! r]]\<rparr>
         | _ \<Rightarrow> rtt\<lparr>
             rt_transport_flags := (rt_transport_flags rtt)[i := fl @ [fst two, False]],
             rt_flags_per_section := (rt_flags_per_section rtt)[i := per @ [[flags_defaults f]]]\<rparr>))"

text \<open>\<open>new_trip\<close> stands for a non-empty \<open>new_trip_id\<close> and \<open>given_clasz\<close> for the class of the route
  found under the given route id. Empty stop or time sequences are taken from the static transport.\<close>

definition add_rt_transport ::
    "timetable \<Rightarrow> transport option \<Rightarrow> nat list \<Rightarrow> int list \<Rightarrow> bool \<Rightarrow> clasz option \<Rightarrow> int \<Rightarrow> rt_timetable
     \<Rightarrow> nat \<times> rt_timetable" where
  "add_rt_transport tt t stop_seq time_seq new_trip given_clasz off rtt =
     (let rt_t = length (rt_static_transport rtt);
          rtt = (case (new_trip, t) of
              (False, Some tr) \<Rightarrow> switch_off tt tr (rtt\<lparr>
                 static_trip_lookup := (case static_trip_lookup rtt tr of
                     None \<Rightarrow> (static_trip_lookup rtt)(tr \<mapsto> rt_t) | Some _ \<Rightarrow> static_trip_lookup rtt),
                 rt_static_transport := rt_static_transport rtt @ [Some tr]\<rparr>)
            | _ \<Rightarrow> rtt\<lparr>rt_static_transport := rt_static_transport rtt @ [None]\<rparr>);
          r = map_option (\<lambda>tr. transport_route tt ! t_idx tr) t;
          location_seq = (case r of Some r \<Rightarrow> if stop_seq = [] then route_location_seq tt ! r else stop_seq
                                  | None \<Rightarrow> stop_seq);
          rtt = rtt\<lparr>rt_location_seq := rt_location_seq rtt @ [location_seq],
                    location_rt_transports := fold (\<lambda>s. push_rt_transport rt_t (stop_loc (stop_of_value s)))
                      location_seq (location_rt_transports rtt)\<rparr>;
          rtt = (case (t, r) of
              (Some tr, Some r) \<Rightarrow>
                if time_seq = [] then
                  let rtt = rtt\<lparr>rt_stop_times := rt_stop_times rtt @
                    [static_rt_times tt rtt tr off (length (route_location_seq tt ! r)) 0 (length location_seq - 1)]\<rparr>
                  in rtt\<lparr>coverage := iv_hull (coverage rtt) (rt_transport_interval rtt rt_t)\<rparr>
                else rtt\<lparr>rt_stop_times := rt_stop_times rtt @ [time_seq]\<rparr>
            | _ \<Rightarrow> rtt\<lparr>rt_stop_times := rt_stop_times rtt @ [time_seq]\<rparr>);
          rtt = rtt\<lparr>rt_data_states := rt_data_states rtt @ [replicate (length (rt_stop_times rtt ! rt_t)) kNoRtData],
                    coverage := iv_hull (coverage rtt) (static_transport_interval tt t),
                    rt_is_cancelled := rt_is_cancelled rtt @ [False],
                    rt_section_clasz := rt_section_clasz rtt @
                      [case r of Some r \<Rightarrow> route_section_clasz tt ! r
                               | None \<Rightarrow> [case given_clasz of Some c \<Rightarrow> c | None \<Rightarrow> kOther]]\<rparr>
      in (rt_t, fold (add_rt_flags tt r (stop_seq \<noteq> [])) all_route_flags rtt))"

text \<open>\<open>cancel_run\<close> on the real-time number and the static transport of a run.\<close>

definition cancel_run :: "timetable \<Rightarrow> nat option \<Rightarrow> transport option \<Rightarrow> rt_timetable \<Rightarrow> rt_timetable" where
  "cancel_run tt rt t rtt =
     (let rtt = (case rt of None \<Rightarrow> rtt
           | Some r \<Rightarrow> rtt\<lparr>rt_is_cancelled := (rt_is_cancelled rtt)[r := True],
                           coverage := iv_hull (coverage rtt) (rt_transport_interval rtt r)\<rparr>)
      in case t of None \<Rightarrow> rtt
         | Some tr \<Rightarrow> switch_off tt tr (rtt\<lparr>coverage := iv_hull (coverage rtt) (static_transport_interval tt t)\<rparr>))"

section \<open>What updates do\<close>

text \<open>The indices of the traffic days point into the two tables.\<close>

definition traffic_ok :: "timetable \<Rightarrow> rt_timetable \<Rightarrow> bool" where
  "traffic_ok tt rtt \<longleftrightarrow> length (rtt_bitfields rtt) < kRtBitfieldFlag \<and>
     (\<forall>i \<in> set (rtt_traffic_days rtt). i < kRtBitfieldFlag \<or>
        kRtBitfieldFlag \<le> i \<and> i < kRtBitfieldFlag + length (rtt_bitfields rtt))"

lemma traffic_days_append:
  assumes "i < kRtBitfieldFlag \<or> kRtBitfieldFlag \<le> i \<and> i < kRtBitfieldFlag + length (rtt_bitfields rtt)"
    "length (rtt_bitfields rtt) < kRtBitfieldFlag"
  shows "traffic_days tt (rtt\<lparr>rtt_bitfields := rtt_bitfields rtt @ xs, rtt_traffic_days := ds\<rparr>) i =
    traffic_days tt rtt i"
proof (cases "i < kRtBitfieldFlag")
  case True
  then show ?thesis by (simp add: traffic_days_def)
next
  case False
  with assms obtain j where j: "i = kRtBitfieldFlag + j" "j < length (rtt_bitfields rtt)" "j < kRtBitfieldFlag"
    by (metis add_diff_inverse_nat add_less_cancel_left less_trans)
  then have "i mod kRtBitfieldFlag = j" by simp
  with j(2) show ?thesis by (simp add: traffic_days_def nth_append)
qed

lemma switch_off_active:
  assumes "traffic_ok tt rtt" "Suc (length (rtt_bitfields rtt)) < kRtBitfieldFlag"
    and "t_idx tr < length (rtt_traffic_days rtt)" "u < length (rtt_traffic_days rtt)" "t_day tr < 512"
  shows "rtt_is_transport_active tt (switch_off tt tr rtt) u d \<longleftrightarrow>
      rtt_is_transport_active tt rtt u d \<and> \<not> (u = t_idx tr \<and> d = t_day tr)"
    and "traffic_ok tt (switch_off tt tr rtt)"
proof -
  define n where "n = length (rtt_bitfields rtt)"
  define bf where "bf = traffic_days tt rtt (rtt_traffic_days rtt ! t_idx tr)"
  define ds where "ds = (rtt_traffic_days rtt)[t_idx tr := n + kRtBitfieldFlag]"
  have n: "n < kRtBitfieldFlag" using assms(2) by (simp add: n_def)
  then have "even (n div kRtBitfieldFlag)" by simp
  then have off: "switch_off tt tr rtt =
      rtt\<lparr>rtt_bitfields := rtt_bitfields rtt @ [unset_bit (t_day tr) bf], rtt_traffic_days := ds\<rparr>"
    by (simp add: switch_off_def Let_def rt_bitfield_idx_def bf_def n_def ds_def)
  have valid: "rtt_traffic_days rtt ! u < kRtBitfieldFlag \<or> kRtBitfieldFlag \<le> rtt_traffic_days rtt ! u \<and>
      rtt_traffic_days rtt ! u < kRtBitfieldFlag + length (rtt_bitfields rtt)"
    using assms(1,4) by (simp add: traffic_ok_def)
  have new: "traffic_days tt (switch_off tt tr rtt) (n + kRtBitfieldFlag) = unset_bit (t_day tr) bf"
  proof -
    have "(n + kRtBitfieldFlag) div kRtBitfieldFlag = 1" "(n + kRtBitfieldFlag) mod kRtBitfieldFlag = n"
      using n by (simp_all add: kRtBitfieldFlag_def)
    then show ?thesis by (simp add: off traffic_days_def n_def nth_append)
  qed
  show "rtt_is_transport_active tt (switch_off tt tr rtt) u d \<longleftrightarrow>
      rtt_is_transport_active tt rtt u d \<and> \<not> (u = t_idx tr \<and> d = t_day tr)"
  proof (cases "u = t_idx tr")
    case True
    then have "rtt_traffic_days (switch_off tt tr rtt) ! u = n + kRtBitfieldFlag"
      using assms(3) by (simp add: off ds_def)
    then show ?thesis
      using True new assms(5) by (auto simp: rtt_is_transport_active_def bit_unset_bit_iff bf_def)
  next
    case False
    then have "rtt_traffic_days (switch_off tt tr rtt) ! u = rtt_traffic_days rtt ! u"
      by (simp add: off ds_def)
    then show ?thesis
      using False traffic_days_append [OF valid] n
      by (simp add: rtt_is_transport_active_def off n_def)
  qed
  have "set ds \<subseteq> insert (n + kRtBitfieldFlag) (set (rtt_traffic_days rtt))"
    unfolding ds_def by (rule set_update_subset_insert)
  then have "i < kRtBitfieldFlag \<or> kRtBitfieldFlag \<le> i \<and> i < kRtBitfieldFlag + Suc n" if "i \<in> set ds" for i
    using that assms(1) unfolding traffic_ok_def n_def by fastforce
  then show "traffic_ok tt (switch_off tt tr rtt)"
    using assms(2) unfolding traffic_ok_def off by (simp add: n_def)
qed


lemma add_rt_flags_frame:
  "rtt_traffic_days (add_rt_flags tt r b f rtt) = rtt_traffic_days rtt"
  "rtt_bitfields (add_rt_flags tt r b f rtt) = rtt_bitfields rtt"
  "rt_static_transport (add_rt_flags tt r b f rtt) = rt_static_transport rtt"
  "rt_location_seq (add_rt_flags tt r b f rtt) = rt_location_seq rtt"
  "rt_stop_times (add_rt_flags tt r b f rtt) = rt_stop_times rtt"
  "rt_data_states (add_rt_flags tt r b f rtt) = rt_data_states rtt"
  "coverage (add_rt_flags tt r b f rtt) = coverage rtt"
  "static_trip_lookup (add_rt_flags tt r b f rtt) = static_trip_lookup rtt"
  by (cases r; cases b; simp add: add_rt_flags_def Let_def)+

lemma fold_frame: "(\<And>x s. g (f x s) = g s) \<Longrightarrow> g (fold f xs s) = g s"
  by (induction xs arbitrary: s) simp_all

lemma active_cong:
  "rtt_traffic_days a = rtt_traffic_days b \<Longrightarrow> rtt_bitfields a = rtt_bitfields b \<Longrightarrow>
   rtt_is_transport_active tt a u d = rtt_is_transport_active tt b u d"
  by (simp add: rtt_is_transport_active_def traffic_days_def)

lemma traffic_ok_cong:
  "rtt_traffic_days a = rtt_traffic_days b \<Longrightarrow> rtt_bitfields a = rtt_bitfields b \<Longrightarrow>
   traffic_ok tt a = traffic_ok tt b"
  by (simp add: traffic_ok_def)

lemma add_rt_transport_traffic:
  assumes "add_rt_transport tt (Some tr) stop_seq time_seq False given_clasz off rtt = (rt_t, rtt')"
  shows "rtt_traffic_days rtt' = rtt_traffic_days (switch_off tt tr rtt)"
    "rtt_bitfields rtt' = rtt_bitfields (switch_off tt tr rtt)"
  using assms
  by (auto simp: add_rt_transport_def Let_def switch_off_def rt_bitfield_idx_def traffic_days_def
      fold_frame [where g = rtt_traffic_days, OF add_rt_flags_frame(1)]
      fold_frame [where g = rtt_bitfields, OF add_rt_flags_frame(2)])

text \<open>Property C40. A real-time update of a static run switches exactly that run off: after
  \<open>add_rt_transport\<close> for transport \<open>t\<close> on day \<open>d\<close>, every other transport and every other day of
  \<open>t\<close> is active in the overlay exactly as before, \<open>t\<close> is inactive on \<open>d\<close>, and the indices into the
  two bit field tables stay valid.\<close>

theorem add_rt_transport_switches_off:
  assumes "traffic_ok tt rtt" "Suc (length (rtt_bitfields rtt)) < kRtBitfieldFlag"
    and "t_idx tr < length (rtt_traffic_days rtt)" "u < length (rtt_traffic_days rtt)" "t_day tr < 512"
    and "add_rt_transport tt (Some tr) stop_seq time_seq False given_clasz off rtt = (rt_t, rtt')"
  shows "(rtt_is_transport_active tt rtt' u d \<longleftrightarrow>
      rtt_is_transport_active tt rtt u d \<and> \<not> (u = t_idx tr \<and> d = t_day tr)) \<and> traffic_ok tt rtt'"
  using switch_off_active [OF assms(1-5)]
    active_cong [OF add_rt_transport_traffic [OF assms(6)]]
    traffic_ok_cong [OF add_rt_transport_traffic [OF assms(6)]]
  by simp

lemma rt_interval_delta:
  assumes "iv_contains (rt_interval rtt) t"
  shows "rtt_unix_to_delta rtt t = t - base_day rtt * 1440"
    "delta_to_unix (base_day rtt) (rtt_unix_to_delta rtt t) = t"
proof -
  from assms have "- 32768 \<le> t - base_day rtt * 1440" "t - base_day rtt * 1440 \<le> 32767"
    by (simp_all add: iv_contains_def rt_interval_def mk_iv_def)
  then show eq: "rtt_unix_to_delta rtt t = t - base_day rtt * 1440"
    by (simp add: rtt_unix_to_delta_def clamp_id)
  show "delta_to_unix (base_day rtt) (rtt_unix_to_delta rtt t) = t"
    unfolding eq by (simp add: delta_to_unix_def)
qed

text \<open>\<open>update_time\<close> either rejects a time the 16 bit representation cannot hold and
  changes nothing, or stores it exactly: the event reads back as the given time, no other event of
  any transport changes, and the coverage interval contains the new time and everything it
  contained before.\<close>

theorem update_time_correct:
  assumes "rt_t < length (rt_stop_times rtt)" "event_idx stop_idx ev_type < length (rt_stop_times rtt ! rt_t)"
    and "iv_valid (coverage rtt)" "update_time rt_t stop_idx ev_type new_time st rtt = (accepted, rtt')"
  shows "(accepted \<longleftrightarrow> iv_contains (rt_interval rtt) new_time) \<and>
    (\<not> accepted \<longrightarrow> rtt' = rtt) \<and>
    (accepted \<longrightarrow> unix_event_time rtt' rt_t stop_idx ev_type = new_time \<and>
       iv_contains (coverage rtt') new_time \<and>
       (\<forall>t. iv_contains (coverage rtt) t \<longrightarrow> iv_contains (coverage rtt') t)) \<and>
    (\<forall>r s e. (r, event_idx s e) \<noteq> (rt_t, event_idx stop_idx ev_type) \<longrightarrow>
       unix_event_time rtt' r s e = unix_event_time rtt r s e)"
proof (cases "iv_contains (rt_interval rtt) new_time")
  case False
  with assms(4) show ?thesis by (simp add: update_time_def)
next
  case True
  note d = rt_interval_delta [OF True]
  have acc: "accepted" and rtt': "rtt' = rtt\<lparr>
          rt_stop_times := (rt_stop_times rtt)[rt_t := (rt_stop_times rtt ! rt_t)[event_idx stop_idx ev_type := rtt_unix_to_delta rtt new_time]],
          rt_data_states := (rt_data_states rtt)[rt_t := (rt_data_states rtt ! rt_t)[event_idx stop_idx ev_type := st]],
          coverage := iv_extend (coverage rtt) new_time\<rparr>"
    using assms(4) True d(2) by (simp_all add: update_time_def Let_def)
  have one: "iv_valid (mk_iv new_time (new_time + 1))" by (simp add: iv_valid_def mk_iv_def)
  have cov: "iv_contains (coverage rtt') t" if "iv_contains (coverage rtt) t \<or> t = new_time" for t
    using that iv_hull_contains_left [of "coverage rtt" t "mk_iv new_time (new_time + 1)"]
      iv_hull_contains_right [of "mk_iv new_time (new_time + 1)" t "coverage rtt"] assms(3) one
    by (auto simp: rtt' iv_extend_def iv_contains_def mk_iv_def)
  have "unix_event_time rtt' rt_t stop_idx ev_type = new_time"
    using assms(1,2) d(1) by (simp add: unix_event_time_def rt_event_time_def rtt')
  moreover have "unix_event_time rtt' r s e = unix_event_time rtt r s e"
    if "(r, event_idx s e) \<noteq> (rt_t, event_idx stop_idx ev_type)" for r s e
    using that assms(1) by (cases "r = rt_t") (auto simp: unix_event_time_def rt_event_time_def rtt')
  ultimately show ?thesis using acc True cov by blast
qed

text \<open>One static transport, active on days 5 and 6, with no real-time data yet.\<close>

definition example_rtt :: rt_timetable where
  "example_rtt = \<lparr>has_td_footpaths_out = replicate 5 [False, False, False],
     has_td_footpaths_in = replicate 5 [False, False, False],
     td_footpaths_out = replicate 5 [[], [], []], td_footpaths_in = replicate 5 [[], [], []],
     rtt_traffic_days = [0, 0], rtt_bitfields = [], location_rt_transports = [[], [], []],
     base_day = 0, base_day_idx = 5, static_trip_lookup = Map.empty, rt_static_transport = [],
     rt_stop_times = [[600, 610, 612, 625]], rt_location_seq = [], rt_data_states = [[kNoRtData, kNoRtData, kNoRtData, kNoRtData]],
     rt_section_clasz = [], rt_is_cancelled = [], rt_transport_flags = replicate 4 [],
     rt_flags_per_section = replicate 4 [], coverage = mk_iv 0 0,
     fwd_lb_has_edges = [False, False, False], bwd_lb_has_edges = [False, False, False],
     fwd_rt_lb_graph = [], bwd_rt_lb_graph = []\<rparr>"

theorem add_rt_transport_switches_off_witness:
  "\<not> rtt_is_transport_active example_timetable
     (snd (add_rt_transport example_timetable (Some \<lparr>t_idx = 1, t_day = 6\<rparr>) [] [] False None 5 example_rtt)) 1 6"
proof -
  let ?t = "\<lparr>t_idx = 1, t_day = 6\<rparr>"
  have ok: "traffic_ok example_timetable example_rtt" "Suc (length (rtt_bitfields example_rtt)) < kRtBitfieldFlag"
    "1 < length (rtt_traffic_days example_rtt)"
    by (simp_all add: traffic_ok_def example_rtt_def kRtBitfieldFlag_def)
  obtain rt_t rtt' where r: "add_rt_transport example_timetable (Some ?t) [] [] False None 5 example_rtt = (rt_t, rtt')"
    by (metis surj_pair)
  from add_rt_transport_switches_off [OF ok(1,2) _ ok(3) _ r, of 6] ok(3) have "\<not> rtt_is_transport_active example_timetable rtt' 1 6"
    by simp
  then show ?thesis unfolding r by simp
qed

theorem update_time_correct_witness:
  "unix_event_time (snd (update_time 0 1 Arr 617 kPredicted example_rtt)) 0 1 Arr = 617"
proof -
  obtain a rtt' where r: "update_time 0 1 Arr 617 kPredicted example_rtt = (a, rtt')"
    by (metis surj_pair)
  have "iv_contains (rt_interval example_rtt) 617"
    by (simp add: iv_contains_def rt_interval_def mk_iv_def example_rtt_def)
  moreover have "0 < length (rt_stop_times example_rtt)" "event_idx 1 Arr < length (rt_stop_times example_rtt ! 0)"
    "iv_valid (coverage example_rtt)"
    by (simp_all add: example_rtt_def iv_valid_def mk_iv_def)
  ultimately have "unix_event_time rtt' 0 1 Arr = 617" using update_time_correct [OF _ _ _ r] by blast
  then show ?thesis unfolding r by simp
qed

end
