(* ===== verification/Pareto.thy ===== *)
theory Pareto
  imports Prelude
begin

text \<open>
  \<open>include/nigiri/routing/pareto_set.h\<close>: the set of mutually non-dominated elements as the
  vector the code keeps. \<open>add\<close> is modelled as the loop it is, which compacts the vector in
  place while it runs and may return in the middle of it; \<open>dm a b\<close> stands for
  \<open>a.dominates(b)\<close>. The contract an element type has to meet for the set to stay an
  antichain is the locale \<open>dominance\<close>.
\<close>

section \<open>The operations\<close>

definition is_dominated :: "('a \<Rightarrow> 'a \<Rightarrow> bool) \<Rightarrow> 'a list \<Rightarrow> 'a \<Rightarrow> bool" where
  "is_dominated dm els el = list_ex (\<lambda>x. dm x el) els"

text \<open>The loop of \<open>add\<close>: the vector, whether an element dominating \<open>el\<close> was met (and where),
  and the number of elements dropped.\<close>

function add_loop :: "('a \<Rightarrow> 'a \<Rightarrow> bool) \<Rightarrow> 'a \<Rightarrow> 'a list \<Rightarrow> nat \<Rightarrow> nat \<Rightarrow> 'a list \<times> nat option \<times> nat" where
  "add_loop dm el els i n_removed =
     (if i < length els then
        if dm (els ! i) el then (els, Some i, n_removed)
        else if dm el (els ! i) then add_loop dm el els (Suc i) (Suc n_removed)
        else add_loop dm el (els[i - n_removed := els ! i]) (Suc i) n_removed
      else (els, None, n_removed))"
  by pat_completeness auto
termination
  by (relation "measure (\<lambda>(dm, el, els, i, n). length els - i)") auto

declare add_loop.simps [simp del]

text \<open>\<open>add\<close>: the vector afterwards, whether \<open>el\<close> was inserted, and the position of the
  dominating element otherwise.\<close>

definition pareto_add :: "('a \<Rightarrow> 'a \<Rightarrow> bool) \<Rightarrow> 'a list \<Rightarrow> 'a \<Rightarrow> 'a list \<times> bool \<times> nat option" where
  "pareto_add dm els el =
     (case add_loop dm el els 0 0 of
        (els', Some i, _) \<Rightarrow> (els', False, Some i)
      | (els', None, n_removed) \<Rightarrow> (take (length els' - n_removed) els' @ [el], True, None))"

definition add_not_optimal :: "'a list \<Rightarrow> 'a \<Rightarrow> 'a list" where
  "add_not_optimal els j = els @ [j]"

text \<open>Offering a sequence of elements.\<close>

definition pareto_adds :: "('a \<Rightarrow> 'a \<Rightarrow> bool) \<Rightarrow> 'a list \<Rightarrow> 'a list \<Rightarrow> 'a list" where
  "pareto_adds dm els xs = fold (\<lambda>x els. fst (pareto_add dm els x)) xs els"

section \<open>What the loop computes\<close>

definition keeps :: "('a \<Rightarrow> 'a \<Rightarrow> bool) \<Rightarrow> 'a \<Rightarrow> 'a list \<Rightarrow> 'a list" where
  "keeps dm el xs = filter (\<lambda>x. \<not> dm el x) xs"

lemma length_keeps: "length (keeps dm el xs) \<le> length xs"
  by (simp add: keeps_def)

lemma add_loop_none:
  assumes "i \<le> length xs" "n + length (keeps dm el (take i xs)) = i"
    and "els = keeps dm el (take i xs) @ drop (length (keeps dm el (take i xs))) els"
    and "length els = length xs" "drop i els = drop i xs"
    and "\<forall>x \<in> set (drop i xs). \<not> dm x el"
  shows "case add_loop dm el els i n of (els', r, n') \<Rightarrow>
    r = None \<and> take (length els' - n') els' = keeps dm el xs"
  using assms
proof (induction dm el els i n rule: add_loop.induct)
  case (1 dm el els i n)
  let ?k = "keeps dm el (take i xs)"
  show ?case
  proof (cases "i < length els")
    case False
    with "1.prems" have "i = length xs" by simp
    with "1.prems" False show ?thesis
      by (subst add_loop.simps) (auto simp: diff_diff_left[symmetric], metis append_eq_conv_conj diff_add_inverse)
  next
    case True
    from True "1.prems"(5) have ith: "els ! i = xs ! i" "i < length xs"
      using "1.prems"(4) by (auto simp: hd_drop_conv_nth [symmetric])
    have nd: "\<not> dm (xs ! i) el"
      using "1.prems"(6) ith(2) by (metis in_set_conv_nth length_drop nth_via_drop drop_eq_Nil
          Cons_nth_drop_Suc list.set_intros(1))
    have tk: "take (Suc i) xs = take i xs @ [xs ! i]" using ith(2) by (rule take_Suc_conv_app_nth)
    have rest: "\<forall>x \<in> set (drop (Suc i) xs). \<not> dm x el"
      using "1.prems"(6) by (metis Cons_nth_drop_Suc ith(2) list.set_intros(2))
    have dr: "drop (Suc i) els = drop (Suc i) xs"
      using "1.prems"(5) by (metis drop_Suc tl_drop)
    show ?thesis
    proof (cases "dm el (xs ! i)")
      case d: True
      have "case add_loop dm el els (Suc i) (Suc n) of (els', r, n') \<Rightarrow>
          r = None \<and> take (length els' - n') els' = keeps dm el xs"
        using "1.prems" rest dr ith
        by (intro "1.IH"(1)) (auto simp: tk keeps_def d nd True)
      with nd d ith True show ?thesis by (subst add_loop.simps) simp
    next
      case d: False
      let ?els = "els[i - n := els ! i]"
      have len: "length ?k = i - n" "n \<le> i" using "1.prems"(2) by auto
      have k': "keeps dm el (take (Suc i) xs) = ?k @ [xs ! i]"
        by (simp add: tk keeps_def d)
      have "case add_loop dm el ?els (Suc i) n of (els', r, n') \<Rightarrow>
          r = None \<and> take (length els' - n') els' = keeps dm el xs"
      proof (rule "1.IH"(2))
        show "n + length (keeps dm el (take (Suc i) xs)) = Suc i" using "1.prems"(2) k' by simp
        have "take (i - n) els = ?k"
          using "1.prems"(3) len(1) by (metis append_eq_conv_conj)
        then have "take (Suc (i - n)) ?els = ?k @ [xs ! i]"
          using len True ith by (simp add: take_Suc_conv_app_nth)
        then show "?els = keeps dm el (take (Suc i) xs) @
            drop (length (keeps dm el (take (Suc i) xs))) ?els"
          using len by (metis append_take_drop_id k' length_append_singleton)
        show "drop (Suc i) ?els = drop (Suc i) xs" using dr len by (simp add: drop_update_cancel)
      qed (use "1.prems" ith True d nd rest in auto)
      with nd d ith True show ?thesis by (subst add_loop.simps) simp
    qed
  qed
qed

lemma add_loop_some:
  assumes "i \<le> j" "j < length els" "dm (els ! j) el"
    and "\<forall>k. i \<le> k \<and> k < j \<longrightarrow> \<not> dm (els ! k) el \<and> \<not> dm el (els ! k)"
  shows "add_loop dm el els i 0 = (els, Some j, 0)"
  using assms
proof (induction "j - i" arbitrary: i)
  case 0
  then show ?case by (subst add_loop.simps) simp
next
  case (Suc m)
  then have "i < j" by simp
  with Suc.prems have "\<not> dm (els ! i) el" "\<not> dm el (els ! i)" by auto
  moreover have "add_loop dm el els (Suc i) 0 = (els, Some j, 0)"
    using Suc \<open>i < j\<close> by auto
  ultimately show ?case using \<open>i < j\<close> Suc.prems(2) by (subst add_loop.simps) simp
qed

lemma pareto_add_insert:
  assumes "\<forall>x \<in> set els. \<not> dm x el"
  shows "pareto_add dm els el = (keeps dm el els @ [el], True, None)"
proof -
  have "case add_loop dm el els 0 0 of (els', r, n') \<Rightarrow>
      r = None \<and> take (length els' - n') els' = keeps dm el els"
    using assms by (intro add_loop_none) (simp_all add: keeps_def)
  then show ?thesis by (auto simp: pareto_add_def)
qed

text \<open>Nothing but the offered element ever gets in, whatever the relation is like.\<close>

lemma add_loop_set: "set (fst (add_loop dm el els i n)) \<subseteq> set els"
proof (induction dm el els i n rule: add_loop.induct)
  case (1 dm el els i n)
  have "set (els[i - n := els ! i]) \<subseteq> set els" if "i < length els"
    using that set_update_subset_insert [of els "i - n" "els ! i"] by auto
  with 1 show ?case by (subst add_loop.simps) (auto 0 3)
qed

lemma pareto_add_set: "set (fst (pareto_add dm els el)) \<subseteq> insert el (set els)"
  using add_loop_set [of dm el els 0 0]
  by (auto simp: pareto_add_def split: prod.split option.split dest!: in_set_takeD)

definition antichain :: "('a \<Rightarrow> 'a \<Rightarrow> bool) \<Rightarrow> 'a list \<Rightarrow> bool" where
  "antichain dm els \<longleftrightarrow> sorted_wrt (\<lambda>x y. \<not> dm x y \<and> \<not> dm y x) els"

definition covers :: "('a \<Rightarrow> 'a \<Rightarrow> bool) \<Rightarrow> 'a list \<Rightarrow> 'a \<Rightarrow> bool" where
  "covers dm els y \<longleftrightarrow> (\<exists>x \<in> set els. dm x y)"

lemma covers_is_dominated: "is_dominated dm els y = covers dm els y"
  by (simp add: is_dominated_def covers_def list_ex_iff)

lemma antichain_Nil [simp]: "antichain dm []"
  by (simp add: antichain_def)

lemma antichain_nth:
  "antichain dm els \<Longrightarrow> i < j \<Longrightarrow> j < length els \<Longrightarrow> \<not> dm (els ! i) (els ! j) \<and> \<not> dm (els ! j) (els ! i)"
  by (simp add: antichain_def sorted_wrt_iff_nth_less)

section \<open>The contract of an element type\<close>

text \<open>\<open>dm\<close> is \<open>dominates\<close>, \<open>ok\<close> restricts the elements to those that may share a set.\<close>

locale dominance =
  fixes dm :: "'a \<Rightarrow> 'a \<Rightarrow> bool"
    and ok :: "'a \<Rightarrow> bool"
  assumes dm_refl: "ok x \<Longrightarrow> dm x x"
    and dm_trans: "ok x \<Longrightarrow> ok y \<Longrightarrow> ok z \<Longrightarrow> dm x y \<Longrightarrow> dm y z \<Longrightarrow> dm x z"
begin

lemma add_dominated:
  assumes "antichain dm els" "\<forall>x \<in> set els. ok x" "ok el" "covers dm els el"
  shows "\<exists>j < length els. dm (els ! j) el \<and> pareto_add dm els el = (els, False, Some j)"
proof -
  let ?P = "\<lambda>j. j < length els \<and> dm (els ! j) el"
  from assms(4) have "\<exists>j. ?P j" by (auto simp: covers_def in_set_conv_nth)
  then obtain j where P: "?P j" and least: "\<forall>k < j. \<not> ?P k"
    using exists_least_iff [of ?P] by blast
  then have j: "j < length els" "dm (els ! j) el" "\<forall>k < j. \<not> dm (els ! k) el"
    by auto
  have okj: "ok (els ! j)" using assms(2) j(1) by simp
  have nd: "\<not> dm el (els ! k)" if k: "k < j" for k
  proof
    assume d: "dm el (els ! k)"
    have "ok (els ! k)" using assms(2) j(1) k by simp
    from dm_trans [OF okj assms(3) this j(2) d] antichain_nth [OF assms(1) k j(1)]
    show False by simp
  qed
  have "add_loop dm el els 0 0 = (els, Some j, 0)"
    by (rule add_loop_some) (simp_all add: j nd)
  then have "pareto_add dm els el = (els, False, Some j)"
    by (simp add: pareto_add_def)
  with j(1,2) show ?thesis by blast
qed

lemma add_cases:
  assumes "antichain dm els" "\<forall>x \<in> set els. ok x" "ok el"
  shows "fst (pareto_add dm els el) = (if covers dm els el then els else keeps dm el els @ [el])"
    and "fst (snd (pareto_add dm els el)) = (\<not> covers dm els el)"
proof -
  show "fst (pareto_add dm els el) = (if covers dm els el then els else keeps dm el els @ [el])"
    using add_dominated [OF assms] pareto_add_insert [of els dm el]
    by (cases "covers dm els el") (fastforce simp: covers_def)+
  show "fst (snd (pareto_add dm els el)) = (\<not> covers dm els el)"
    using add_dominated [OF assms] pareto_add_insert [of els dm el]
    by (cases "covers dm els el") (fastforce simp: covers_def)+
qed

lemma add_antichain:
  assumes "antichain dm els" "\<forall>x \<in> set els. ok x" "ok el"
  shows "antichain dm (fst (pareto_add dm els el))"
  using assms(1) unfolding add_cases(1) [OF assms]
  by (auto simp: antichain_def keeps_def covers_def sorted_wrt_append sorted_wrt_filter)

lemma add_members:
  assumes "antichain dm els" "\<forall>x \<in> set els. ok x" "ok el"
  shows "set (fst (pareto_add dm els el)) \<subseteq> insert el (set els)"
  unfolding add_cases(1) [OF assms] by (auto simp: keeps_def)

lemma add_covers_new:
  assumes "antichain dm els" "\<forall>x \<in> set els. ok x" "ok el"
  shows "covers dm (fst (pareto_add dm els el)) el"
  unfolding add_cases(1) [OF assms] using dm_refl [OF assms(3)] by (simp add: covers_def)

lemma add_covers_old:
  assumes "antichain dm els" "\<forall>x \<in> set els. ok x" "ok el" "ok y" "covers dm els y"
  shows "covers dm (fst (pareto_add dm els el)) y"
proof -
  from assms(5) obtain x where x: "x \<in> set els" "dm x y" by (auto simp: covers_def)
  show ?thesis
  proof (cases "dm el x")
    case True
    with x assms(2-4) have "dm el y" by (intro dm_trans [of el x y]) auto
    then show ?thesis
      using assms(5) unfolding add_cases(1) [OF assms(1-3)] by (auto simp: covers_def)
  next
    case False
    with x show ?thesis
      unfolding add_cases(1) [OF assms(1-3)] by (auto simp: covers_def keeps_def)
  qed
qed

lemma adds_invariant:
  assumes "antichain dm els" "\<forall>x \<in> set els. ok x" "\<forall>x \<in> set xs. ok x"
  shows "antichain dm (pareto_adds dm els xs) \<and>
    set (pareto_adds dm els xs) \<subseteq> set els \<union> set xs \<and>
    (\<forall>y \<in> set els \<union> set xs. covers dm (pareto_adds dm els xs) y)"
  using assms
proof (induction xs arbitrary: els)
  case Nil
  then show ?case by (auto simp: pareto_adds_def covers_def intro: dm_refl)
next
  case (Cons x xs)
  let ?els = "fst (pareto_add dm els x)"
  have ok: "\<forall>x \<in> set els. ok x" "ok x" using Cons.prems by auto
  have a: "antichain dm ?els" by (rule add_antichain) (use Cons.prems ok in auto)
  have m: "set ?els \<subseteq> insert x (set els)" by (rule add_members) (use Cons.prems ok in auto)
  have oks: "\<forall>x \<in> set ?els. ok x" "\<forall>x \<in> set xs. ok x" using m ok Cons.prems by auto
  note IH = Cons.IH [OF a oks]
  have step: "pareto_adds dm els (x # xs) = pareto_adds dm ?els xs" by (simp add: pareto_adds_def)
  have sub: "set (pareto_adds dm ?els xs) \<subseteq> set ?els \<union> set xs" using IH by simp
  have okr: "\<forall>z \<in> set (pareto_adds dm ?els xs). ok z" using sub oks by auto
  have lift: "covers dm (pareto_adds dm ?els xs) y" if "covers dm ?els y" "ok y" for y
  proof -
    from that(1) obtain e where e: "e \<in> set ?els" "dm e y" by (auto simp: covers_def)
    with IH obtain z where z: "z \<in> set (pareto_adds dm ?els xs)" "dm z e" by (auto simp: covers_def)
    with e okr oks that(2) have "dm z y" by (intro dm_trans [of z e y]) auto
    with z show ?thesis by (auto simp: covers_def)
  qed
  have "covers dm (pareto_adds dm ?els xs) y" if "y \<in> set els \<union> set (x # xs)" for y
  proof (cases "y \<in> set xs")
    case False
    with that consider "y = x" | "y \<in> set els" by auto
    then have "covers dm ?els y"
    proof cases
      case 2
      then have "covers dm els y" using ok dm_refl by (auto simp: covers_def)
      then show ?thesis using add_covers_old [OF Cons.prems(1) ok] 2 ok by auto
    qed (use add_covers_new [OF Cons.prems(1) ok] in simp)
    then show ?thesis using lift that ok Cons.prems(3) by auto
  qed (use IH in auto)
  with IH m step show ?case by auto
qed

end

end
