(* ===== verification/Query.thy ===== *)
theory Query
  imports Stops
begin

text \<open>
  What a routing query is made of: \<open>routing/clasz_mask.h\<close>, \<open>transfer_time_settings.h\<close>,
  \<open>query.h\<close>, \<open>search_interval.cc\<close> and the interval estimation of \<open>interval_estimate.h\<close>.
\<close>

unbundle bit_operations_syntax

section \<open>Transport class masks\<close>

type_synonym clasz_mask = "16 word"

definition all_clasz_allowed :: clasz_mask where
  "all_clasz_allowed = 65535"

definition to_mask :: "clasz \<Rightarrow> clasz_mask" where
  "to_mask c = push_bit (clasz_idx c) 1"

definition is_allowed :: "clasz_mask \<Rightarrow> clasz \<Rightarrow> bool" where
  "is_allowed msk c \<longleftrightarrow> msk AND to_mask c = to_mask c"

lemma is_allowed_bit: "is_allowed msk c \<longleftrightarrow> bit msk (clasz_idx c)"
proof -
  have eq: "to_mask c = msk AND to_mask c \<longleftrightarrow> bit msk (clasz_idx c)"
    using clasz_idx_less [of c]
    by (auto intro!: bit_word_eqI simp: bit_simps to_mask_def dest: arg_cong [of _ _ "\<lambda>w. bit w (clasz_idx c)"])
  show ?thesis unfolding is_allowed_def using eq by metis
qed

lemma is_allowed_all: "is_allowed all_clasz_allowed c"
  by (cases c) (simp_all add: is_allowed_def all_clasz_allowed_def to_mask_def)

lemma is_allowed_or: "is_allowed (a OR b) c \<longleftrightarrow> is_allowed a c \<or> is_allowed b c"
  by (simp add: is_allowed_bit bit_or_iff)

lemma is_allowed_to_mask: "is_allowed (to_mask a) c \<longleftrightarrow> a = c"
  using clasz_idx_less [of a] clasz_idx_less [of c] clasz_idx_inj [of a c]
  by (auto simp: is_allowed_bit to_mask_def bit_simps)

text \<open>A mask built from a list of classes admits exactly those classes, and the
  mask without restriction admits all of them, so the RAPTOR filter \<open>allowed_claszes_ !=
  all_clasz_allowed()\<close> only skips checks that would succeed.\<close>

theorem clasz_mask_exact:
  "(is_allowed (fold (\<lambda>c m. m OR to_mask c) cs 0) c \<longleftrightarrow> c \<in> set cs) \<and> is_allowed all_clasz_allowed c"
proof
  have "is_allowed (fold (\<lambda>c m. m OR to_mask c) cs m) c \<longleftrightarrow> is_allowed m c \<or> c \<in> set cs" for m
    by (induction cs arbitrary: m) (auto simp: is_allowed_or is_allowed_to_mask)
  then show "is_allowed (fold (\<lambda>c m. m OR to_mask c) cs 0) c \<longleftrightarrow> c \<in> set cs"
    by (simp add: is_allowed_bit)
qed (rule is_allowed_all)

section \<open>Single precision factors\<close>

text \<open>A \<open>float\<close> is \<open>mant * 2 ^ expo\<close> with \<open>|mant| < 2 ^ 24\<close>; a product is rounded to 24
  significant bits (a \<open>double\<close>: 53), ties to even, and converted to an integer by truncation.\<close>

record float32 =
  mant :: int
  expo :: int

text \<open>A \<open>double\<close> has the same form, with \<open>|mant| < 2 ^ 53\<close>.\<close>

type_synonym float64 = float32

fun bit_width :: "nat \<Rightarrow> nat" where
  "bit_width n = (if n = 0 then 0 else Suc (bit_width (n div 2)))"

declare bit_width.simps [simp del]

definition fp_round :: "nat \<Rightarrow> int \<Rightarrow> int \<Rightarrow> float32" where
  "fp_round p m e =
     (let n = nat \<bar>m\<bar>; w = bit_width n
      in if w \<le> p then \<lparr>mant = m, expo = e\<rparr>
         else let s = w - p; q = n div 2 ^ s; r = n mod 2 ^ s;
                  q' = (if 2 ^ (s - 1) < r \<or> (r = 2 ^ (s - 1) \<and> odd q) then q + 1 else q)
              in \<lparr>mant = sgn m * int q', expo = e + int s\<rparr>)"

definition f32_round :: "int \<Rightarrow> int \<Rightarrow> float32" where
  "f32_round = fp_round 24"

definition f32_mul :: "float32 \<Rightarrow> float32 \<Rightarrow> float32" where
  "f32_mul a b = f32_round (mant a * mant b) (expo a + expo b)"

definition f32_trunc :: "float32 \<Rightarrow> int" where
  "f32_trunc f = (if 0 \<le> expo f then mant f * 2 ^ nat (expo f)
     else sgn (mant f) * (\<bar>mant f\<bar> div 2 ^ nat (- expo f)))"

definition f32_of_int :: "int \<Rightarrow> float32" where
  "f32_of_int d = f32_round d 0"

definition f64_mul :: "float64 \<Rightarrow> float64 \<Rightarrow> float64" where
  "f64_mul a b = fp_round 53 (mant a * mant b) (expo a + expo b)"

text \<open>\<open>x < n\<close> for a float and an integer.\<close>

definition fp_less_int :: "float64 \<Rightarrow> int \<Rightarrow> bool" where
  "fp_less_int x n \<longleftrightarrow> (if 0 \<le> expo x then mant x * 2 ^ nat (expo x) < n else mant x < n * 2 ^ nat (- expo x))"

abbreviation f32_one :: float32 where "f32_one \<equiv> \<lparr>mant = 1, expo = 0\<rparr>"

lemma bit_width_le: "n < 2 ^ k \<Longrightarrow> bit_width n \<le> k"
proof (induction k arbitrary: n)
  case (Suc k)
  then have "n div 2 < 2 ^ k" by (simp add: less_mult_imp_div_less mult.commute)
  with Suc.IH show ?case by (subst bit_width.simps) auto
qed (subst bit_width.simps, simp)

lemma f32_round_exact: "\<bar>m\<bar> < 2 ^ 24 \<Longrightarrow> f32_round m e = \<lparr>mant = m, expo = e\<rparr>"
proof -
  assume "\<bar>m\<bar> < 2 ^ 24"
  then have "nat \<bar>m\<bar> < 2 ^ 24" by (simp add: nat_less_iff)
  then have "bit_width (nat \<bar>m\<bar>) \<le> 24" by (rule bit_width_le)
  then show ?thesis by (simp add: f32_round_def fp_round_def Let_def)
qed

lemma f32_mul_one: "\<bar>d\<bar> < 2 ^ 24 \<Longrightarrow> f32_trunc (f32_mul (f32_of_int d) f32_one) = d"
  by (simp add: f32_of_int_def f32_round_exact f32_mul_def f32_trunc_def)

section \<open>Transfer time settings\<close>

record transfer_time_settings =
  tts_default :: bool
  min_transfer_time :: int
  additional_time :: int
  tts_factor :: float32

definition tts_eq :: "transfer_time_settings \<Rightarrow> transfer_time_settings \<Rightarrow> bool" where
  "tts_eq s o' \<longleftrightarrow> tts_default s = tts_default o' \<or>
     (min_transfer_time s, additional_time s, tts_factor s) =
     (min_transfer_time o', additional_time s, tts_factor o')"

text \<open>\<open>adjusted_transfer_time<T>\<close>; \<open>cast\<close> is \<open>static_cast<T>\<close>. Where the scaled duration does
  not fit \<open>T\<close> the conversion from \<open>float\<close> is undefined in C++; the model wraps there.\<close>

definition adjusted_transfer_time ::
    "(int \<Rightarrow> int) \<Rightarrow> transfer_time_settings \<Rightarrow> int \<Rightarrow> int" where
  "adjusted_transfer_time cast settings duration =
     (if tts_default settings then duration
      else cast (cast (additional_time settings) +
        max (cast (min_transfer_time settings))
            (cast (f32_trunc (f32_mul (f32_of_int duration) (tts_factor settings))))))"

text \<open>Two settings with the same \<open>default_\<close> flag compare equal whatever their minimum,
  additional time and factor, so two queries that adjust transfer times differently compare
  equal.\<close>

theorem tts_eq_ignores_values:
  "(tts_default a = tts_default b \<longrightarrow> tts_eq a b) \<and>
   (\<exists>a b. tts_eq a b \<and> \<not> tts_default a \<and> \<not> tts_default b \<and>
     adjusted_transfer_time i32 a 2 \<noteq> adjusted_transfer_time i32 b 2)"
proof
  show "tts_default a = tts_default b \<longrightarrow> tts_eq a b" by (simp add: tts_eq_def)
  let ?a = "\<lparr>tts_default = False, min_transfer_time = 0, additional_time = 0, tts_factor = f32_one\<rparr>"
  let ?b = "\<lparr>tts_default = False, min_transfer_time = 0, additional_time = 30, tts_factor = f32_one\<rparr>"
  have "adjusted_transfer_time i32 ?a 2 = 2" "adjusted_transfer_time i32 ?b 2 = 32"
    by (simp_all add: adjusted_transfer_time_def f32_mul_one wrap_s_def)
  then show "\<exists>a b. tts_eq a b \<and> \<not> tts_default a \<and> \<not> tts_default b \<and>
     adjusted_transfer_time i32 a 2 \<noteq> adjusted_transfer_time i32 b 2"
    by (intro exI [of _ ?a] exI [of _ ?b]) (simp add: tts_eq_def)
qed

theorem tts_eq_ignores_values_witness:
  "tts_eq \<lparr>tts_default = False, min_transfer_time = 0, additional_time = 0, tts_factor = f32_one\<rparr>
     \<lparr>tts_default = False, min_transfer_time = 60, additional_time = 30, tts_factor = f32_one\<rparr>"
  by (rule tts_eq_ignores_values [THEN conjunct1, rule_format]) simp

lemma adjusted_default: "tts_default s \<Longrightarrow> adjusted_transfer_time cast s d = d"
  by (simp add: adjusted_transfer_time_def)

text \<open>Adjusting a station's 8 bit transfer time computes in 8 bits: with factor one the
  result is the adjusted time modulo 256, so it equals the 32 bit computation the bounds
  check uses exactly when that stays below 256 minutes.\<close>

theorem adjusted_transfer_time_8bit:
  assumes "\<not> tts_default s" "tts_factor s = f32_one" "0 \<le> additional_time s" "additional_time s < 32768"
    and "0 \<le> min_transfer_time s" "min_transfer_time s < 256" "0 \<le> d" "d < 256"
  shows "adjusted_transfer_time u8 s d = adjusted_transfer_time i32 s d mod 256 \<and>
    (adjusted_transfer_time u8 s d = adjusted_transfer_time i32 s d \<longleftrightarrow> adjusted_transfer_time i32 s d < 256)"
proof
  let ?m = "max (min_transfer_time s) d"
  have "i32 x = x" if "0 \<le> x" "x < 65536" for x :: int
    by (rule wrap_s_id) (use that in simp_all)
  moreover have "f32_trunc (f32_mul (f32_of_int d) f32_one) = d"
    using assms by (intro f32_mul_one) simp
  ultimately have i: "adjusted_transfer_time i32 s d = additional_time s + ?m"
    using assms by (simp add: adjusted_transfer_time_def max_def)
  have u: "adjusted_transfer_time u8 s d = (additional_time s + ?m) mod 256"
    using assms \<open>f32_trunc _ = d\<close>
    by (simp add: adjusted_transfer_time_def) (simp add: wrap_u_def mod_simps)
  from i u show "adjusted_transfer_time u8 s d = adjusted_transfer_time i32 s d mod 256" by simp
  have "0 \<le> additional_time s + ?m" using assms by simp
  then show "adjusted_transfer_time u8 s d = adjusted_transfer_time i32 s d \<longleftrightarrow>
      adjusted_transfer_time i32 s d < 256"
    unfolding i u by (metis mod_pos_pos_trivial pos_mod_bound zero_less_numeral)
qed

theorem adjusted_transfer_time_8bit_witness:
  "adjusted_transfer_time u8
     \<lparr>tts_default = False, min_transfer_time = 0, additional_time = 300, tts_factor = f32_one\<rparr> 2 = 46 \<and>
   adjusted_transfer_time i32
     \<lparr>tts_default = False, min_transfer_time = 0, additional_time = 300, tts_factor = f32_one\<rparr> 2 = 302"
proof -
  let ?s = "\<lparr>tts_default = False, min_transfer_time = 0, additional_time = 300, tts_factor = f32_one\<rparr>"
  have "adjusted_transfer_time i32 ?s 2 = 302"
    by (simp add: adjusted_transfer_time_def f32_mul_one wrap_s_def)
  with adjusted_transfer_time_8bit [of ?s 2] show ?thesis by simp
qed

section \<open>Queries\<close>

record offset =
  off_target :: nat
  off_duration :: int
  off_mode :: nat
  off_payload :: nat

record via_stop =
  via_location :: nat
  via_stay :: int

datatype start_time = AtTime int | InInterval "int interval"

record query =
  q_start_time :: start_time
  q_start_match_mode :: location_match_mode
  q_dest_match_mode :: location_match_mode
  q_use_start_footpaths :: bool
  q_start :: "offset list"
  q_destination :: "offset list"
  q_td_start :: "(nat \<times> td_offset list) list"
  q_td_dest :: "(nat \<times> td_offset list) list"
  q_max_start_offset :: int
  q_max_transfers :: nat
  q_max_travel_time :: int
  q_min_connection_count :: nat
  q_extend_interval_earlier :: bool
  q_extend_interval_later :: bool
  q_max_interval :: "int interval option"
  q_prf_idx :: nat
  q_allowed_claszes :: clasz_mask
  q_require_bike_transport :: bool
  q_require_car_transport :: bool
  q_no_compulsory_reservation :: bool
  q_transfer_time_settings :: transfer_time_settings
  q_via_stops :: "via_stop list"
  q_fastest_direct :: "int option"
  q_fastest_direct_factor :: float64
  q_slow_direct :: bool
  q_fastest_slow_direct_factor :: float64

definition flip_dir :: "query \<Rightarrow> query" where
  "flip_dir q = q\<lparr>q_start := q_destination q, q_destination := q_start q,
     q_td_start := q_td_dest q, q_td_dest := q_td_start q,
     q_start_match_mode := q_dest_match_mode q, q_dest_match_mode := q_start_match_mode q,
     q_via_stops := rev (q_via_stops q)\<rparr>"

definition sanitize_query :: "query \<Rightarrow> query" where
  "sanitize_query q =
     (if q_max_travel_time q < 0 \<or> kMaxTravelTime < q_max_travel_time q
      then q\<lparr>q_max_travel_time := kMaxTravelTime\<rparr> else q)"

text \<open>One pass of the loop in \<open>sanitize_via_stops\<close>: merge the first pair of neighbours at the
  same place; \<open>eqv a b\<close> is \<open>matches(tt, kEquivalent, a, b)\<close>.\<close>

fun merge_first_via :: "(nat \<Rightarrow> nat \<Rightarrow> bool) \<Rightarrow> via_stop list \<Rightarrow> via_stop list option" where
  "merge_first_via eqv (a # b # vs) =
     (if eqv (via_location a) (via_location b)
      then Some (a\<lparr>via_stay := i16 (via_stay a + via_stay b)\<rparr> # vs)
      else map_option (Cons a) (merge_first_via eqv (b # vs)))"
| "merge_first_via eqv vs = None"

lemma merge_first_via_length: "merge_first_via eqv vs = Some vs' \<Longrightarrow> length vs = Suc (length vs')"
  by (induction eqv vs arbitrary: vs' rule: merge_first_via.induct) (auto split: if_splits)

function merge_via_stops :: "(nat \<Rightarrow> nat \<Rightarrow> bool) \<Rightarrow> via_stop list \<Rightarrow> via_stop list" where
  "merge_via_stops eqv vs =
     (case merge_first_via eqv vs of None \<Rightarrow> vs | Some vs' \<Rightarrow> merge_via_stops eqv vs')"
  by pat_completeness auto
termination
  by (relation "measure (length \<circ> snd)") (auto dest: merge_first_via_length)

declare merge_via_stops.simps [simp del]

definition sanitize_via_stops :: "(nat \<Rightarrow> nat \<Rightarrow> bool) \<Rightarrow> query \<Rightarrow> query" where
  "sanitize_via_stops eqv q = q\<lparr>q_via_stops := merge_via_stops eqv (q_via_stops q)\<rparr>"

text \<open>\<open>sanitize\<close>; \<^const>\<open>None\<close> is the exception of \<open>utl::verify\<close>. \<open>utl::sort\<close> does not fix the
  order of offsets with equal durations; the model takes the stable one.\<close>

definition sanitize :: "(nat \<Rightarrow> nat \<Rightarrow> bool) \<Rightarrow> query \<Rightarrow> query option" where
  "sanitize eqv q =
     (if q_start_match_mode q \<noteq> kIntermodal \<or> \<not> q_use_start_footpaths q
      then let q' = sanitize_via_stops eqv (sanitize_query q)
           in Some (q'\<lparr>q_start := sort_key off_duration (q_start q'),
                q_destination := sort_key off_duration (q_destination q')\<rparr>)
      else None)"

lemma all_nat_split: "(\<forall>i::nat. P i) \<longleftrightarrow> P 0 \<and> (\<forall>i. P (Suc i))"
  by (metis not0_implies_Suc)

lemma merge_first_via_None:
  "merge_first_via eqv vs = None \<longleftrightarrow>
    (\<forall>i. Suc i < length vs \<longrightarrow> \<not> eqv (via_location (vs ! i)) (via_location (vs ! Suc i)))"
proof (induction eqv vs rule: merge_first_via.induct)
  case (1 eqv a b vs)
  then show ?case
    by (cases "eqv (via_location a) (via_location b)";
        subst all_nat_split; simp)
qed simp_all

lemma merge_first_via_stays:
  assumes "merge_first_via eqv vs = Some vs'" "\<forall>v \<in> set vs. 0 \<le> via_stay v"
    "sum_list (map via_stay vs) < 32768"
  shows "sum_list (map via_stay vs') = sum_list (map via_stay vs) \<and> (\<forall>v \<in> set vs'. 0 \<le> via_stay v)"
  using assms
proof (induction eqv vs arbitrary: vs' rule: merge_first_via.induct)
  case (1 eqv a b vs)
  have s: "0 \<le> sum_list (map via_stay vs)" using "1.prems"(2) by (intro sum_list_nonneg) auto
  show ?case
  proof (cases "eqv (via_location a) (via_location b)")
    case True
    have "i16 (via_stay a + via_stay b) = via_stay a + via_stay b"
      using "1.prems"(2,3) s by (intro wrap_s16_id) simp_all
    with True "1.prems" show ?thesis by (simp; force)
  next
    case False
    with "1.prems"(1) obtain ws where ws: "merge_first_via eqv (b # vs) = Some ws" "vs' = a # ws"
      by (simp; blast)
    moreover have "sum_list (map via_stay (b # vs)) < 32768"
      using "1.prems"(2,3) by simp
    ultimately show ?thesis using "1.IH" [OF False ws(1)] "1.prems"(2) by simp
  qed
qed simp_all

lemma merge_via_stops_step:
  "merge_via_stops eqv vs =
     (if merge_first_via eqv vs = None then vs else merge_via_stops eqv (the (merge_first_via eqv vs)))"
  by (subst merge_via_stops.simps) (simp split: option.split)

lemma merge_via_stops_inv:
  assumes "\<forall>v \<in> set vs. 0 \<le> via_stay v" "sum_list (map via_stay vs) < 32768"
  shows "sum_list (map via_stay (merge_via_stops eqv vs)) = sum_list (map via_stay vs)"
  using assms
proof (induction eqv vs rule: merge_via_stops.induct)
  case (1 eqv vs)
  show ?case
  proof (cases "merge_first_via eqv vs")
    case None
    then show ?thesis by (subst merge_via_stops_step) simp
  next
    case (Some ws)
    note m = merge_first_via_stays [OF Some "1.prems"]
    have "sum_list (map via_stay (merge_via_stops eqv ws)) = sum_list (map via_stay ws)"
      by (rule "1.IH" [OF Some]) (use m "1.prems"(2) in simp_all)
    with m Some show ?thesis by (subst merge_via_stops_step) simp
  qed
qed

lemma merge_via_stops_none: "merge_first_via eqv (merge_via_stops eqv vs) = None"
proof (induction eqv vs rule: merge_via_stops.induct)
  case (1 eqv vs)
  show ?case
  proof (cases "merge_first_via eqv vs")
    case None
    then show ?thesis by (subst merge_via_stops_step) simp
  next
    case (Some ws)
    then show ?thesis using "1.IH" [OF Some] by (subst merge_via_stops_step) simp
  qed
qed

text \<open>Sanitising a query terminates with via stops no two neighbours of which are
  equivalent, and merging them loses no stay: the stays still add up to the same total, as
  long as that fits the 16 bit duration.\<close>

theorem sanitize_via_stops_correct:
  assumes "\<forall>v \<in> set (q_via_stops q). 0 \<le> via_stay v"
    and "sum_list (map via_stay (q_via_stops q)) < 32768"
    and "vs = q_via_stops (sanitize_via_stops eqv q)"
  shows "(\<forall>i. Suc i < length vs \<longrightarrow> \<not> eqv (via_location (vs ! i)) (via_location (vs ! Suc i)))
    \<and> sum_list (map via_stay vs) = sum_list (map via_stay (q_via_stops q))"
  using merge_via_stops_none [of eqv "q_via_stops q"] merge_via_stops_inv [OF assms(1,2)]
  unfolding assms(3) sanitize_via_stops_def merge_first_via_None by simp

lemma flip_dir_flip_dir: "flip_dir (flip_dir q) = q"
  by (simp add: flip_dir_def)

section \<open>Search intervals\<close>

definition start_time_interval :: "start_time \<Rightarrow> int interval" where
  "start_time_interval st = (case st of AtTime t \<Rightarrow> mk_iv t (t + 1) | InInterval i \<Rightarrow> i)"

definition reachable_events :: "direction \<Rightarrow> int interval \<Rightarrow> int \<Rightarrow> int interval" where
  "reachable_events search_dir max_search_iv max_reach =
     (if search_dir = Forward then mk_iv (ifrom max_search_iv) (ito max_search_iv + max_reach)
      else mk_iv (ifrom max_search_iv - max_reach) (ito max_search_iv))"

text \<open>\<open>std::chrono::round<days>\<close>: to the nearest day, halves to the even one.\<close>

definition round_days :: "int \<Rightarrow> int" where
  "round_days t =
     (let q = t div 1440; r = t mod 1440
      in (if 720 < r \<or> (r = 720 \<and> odd q) then q + 1 else q) * 1440)"

definition est_data_type_max_interval :: "query \<Rightarrow> int interval" where
  "est_data_type_max_interval q =
     (let start_itv = (case q_start_time q of AtTime ut \<Rightarrow> mk_iv ut ut | InInterval i \<Rightarrow> i);
          iv = (if q_fastest_direct q \<noteq> None then 1440 else 2 * 1440);
          len = ito start_itv - ifrom start_itv
      in mk_iv
        (max (round_days (ifrom start_itv - iv))
             (round_days (ifrom start_itv + cdiv (len - kMaxSearchIntervalSize) 2)))
        (min (round_days (ito start_itv + iv))
             (round_days (ifrom start_itv + cdiv (len + kMaxSearchIntervalSize) 2))))"

definition est_clamp :: "int interval \<Rightarrow> query \<Rightarrow> int interval \<Rightarrow> int interval" where
  "est_clamp external q itv =
     (let c = (\<lambda>x. let x = iv_clamp external x; x = iv_clamp (est_data_type_max_interval q) x
                  in (case q_max_interval q of None \<Rightarrow> x | Some m \<Rightarrow> iv_clamp m x))
      in mk_iv (c (ifrom itv)) (c (ito itv)))"

definition can_extend_earlier :: "int interval \<Rightarrow> query \<Rightarrow> int interval \<Rightarrow> bool" where
  "can_extend_earlier external q itv \<longleftrightarrow> q_extend_interval_earlier q \<and> ifrom itv \<noteq> ifrom external"

definition can_extend_later :: "int interval \<Rightarrow> query \<Rightarrow> int interval \<Rightarrow> bool" where
  "can_extend_later external q itv \<longleftrightarrow> q_extend_interval_later q \<and> ito itv \<noteq> ito external"

definition can_extend_bad_dir :: "direction \<Rightarrow> int interval \<Rightarrow> query \<Rightarrow> int interval \<Rightarrow> bool" where
  "can_extend_bad_dir SearchDir external q itv =
     (if SearchDir = Forward then can_extend_later external q itv else can_extend_earlier external q itv)"

definition can_extend_both_dir :: "int interval \<Rightarrow> query \<Rightarrow> int interval \<Rightarrow> bool" where
  "can_extend_both_dir external q itv \<longleftrightarrow>
     can_extend_earlier external q itv \<and> can_extend_later external q itv"

definition est_initial :: "direction \<Rightarrow> int interval \<Rightarrow> query \<Rightarrow> int interval \<Rightarrow> int interval" where
  "est_initial SearchDir external q itv =
     (if q_min_connection_count q = 0 \<or>
         (\<not> q_extend_interval_earlier q \<and> \<not> q_extend_interval_later q) then itv
      else
        let ext = u32 (60 * int (q_min_connection_count q));
            a = ifrom itv; b = ito itv;
            new = (if can_extend_bad_dir SearchDir external q itv then
                (if SearchDir = Forward
                 then (if can_extend_earlier external q itv then mk_iv (a - 60) (b + ext)
                       else mk_iv a (b + 60 + ext))
                 else (if can_extend_later external q itv then mk_iv (a - ext) (b + 60)
                       else mk_iv (a - 60 - ext) b))
              else
                (if SearchDir = Forward
                 then (if q_extend_interval_earlier q then mk_iv (a - u32 (60 + ext)) b else itv)
                 else (if q_extend_interval_later q then mk_iv a (b + u32 (60 + ext)) else itv)))
        in est_clamp external q new)"

definition est_max_interval :: "int interval \<Rightarrow> query \<Rightarrow> int interval" where
  "est_max_interval external q = est_clamp external q (mk_iv (- 2147483648) 2147483647)"

definition est_extension :: "int interval \<Rightarrow> query \<Rightarrow> int interval \<Rightarrow> nat \<Rightarrow> int interval" where
  "est_extension external q itv num_con_req =
     (if num_con_req = 0 \<or> (\<not> q_extend_interval_earlier q \<and> \<not> q_extend_interval_later q) then itv
      else
        let ext = u32 (iv_size itv * int num_con_req);
            new = (if can_extend_both_dir external q itv
                   then mk_iv (ifrom itv - ext div 2) (ito itv + ext div 2)
                   else mk_iv (if q_extend_interval_earlier q then ifrom itv - ext else ifrom itv)
                              (if q_extend_interval_later q then ito itv + ext else ito itv))
        in est_clamp external q new)"

text \<open>An interval within all three limits: the timetable, what the 16 bit times can span, and the
  limit of the query.\<close>

definition within_limits :: "int interval \<Rightarrow> query \<Rightarrow> int interval \<Rightarrow> bool" where
  "within_limits external q itv \<longleftrightarrow> iv_contains_iv external itv \<and>
     iv_contains_iv (est_data_type_max_interval q) itv \<and>
     (case q_max_interval q of None \<Rightarrow> True | Some m \<Rightarrow> iv_contains_iv m itv)"

lemma est_clamp_grows:
  assumes "within_limits external q itv" "iv_valid itv"
    and "ifrom new \<le> ifrom itv" "ito itv \<le> ito new"
  shows "iv_contains_iv (est_clamp external q new) itv \<and> within_limits external q (est_clamp external q new)
    \<and> iv_valid (est_clamp external q new)"
  using assms
  by (cases "q_max_interval q")
     (auto simp: within_limits_def est_clamp_def Let_def iv_clamp_def std_clamp_def iv_contains_iv_def iv_valid_def)

definition grows_to :: "int interval \<Rightarrow> query \<Rightarrow> int interval \<Rightarrow> int interval \<Rightarrow> bool" where
  "grows_to external q itv e \<longleftrightarrow> e = itv \<or>
     (\<exists>new. ifrom new \<le> ifrom itv \<and> ito itv \<le> ito new \<and> e = est_clamp external q new)"

lemma grows_to_refl: "grows_to external q itv itv"
  by (simp add: grows_to_def)

lemma grows_to_if:
  "(c \<Longrightarrow> grows_to external q itv a) \<Longrightarrow> (\<not> c \<Longrightarrow> grows_to external q itv b) \<Longrightarrow>
   grows_to external q itv (if c then a else b)"
  by (cases c) simp_all

definition wider :: "int interval \<Rightarrow> int interval \<Rightarrow> bool" where
  "wider itv new \<longleftrightarrow> ifrom new \<le> ifrom itv \<and> ito itv \<le> ito new"

lemma wider_if: "wider itv a \<Longrightarrow> wider itv b \<Longrightarrow> wider itv (if c then a else b)"
  by simp

lemma wider_mk: "f \<le> ifrom itv \<Longrightarrow> ito itv \<le> t \<Longrightarrow> wider itv (mk_iv f t)"
  by (simp add: wider_def)

lemma wider_refl: "wider itv itv"
  by (simp add: wider_def)

lemma grows_to_clamp: "wider itv new \<Longrightarrow> grows_to external q itv (est_clamp external q new)"
  unfolding grows_to_def wider_def by blast

lemmas grows_intros = grows_to_if grows_to_refl grows_to_clamp wider_if wider_refl wider_mk

lemma est_initial_grows: "grows_to external q itv (est_initial SearchDir external q itv)"
proof -
  define ext where "ext = u32 (60 * int (q_min_connection_count q))"
  define ext2 where "ext2 = u32 (60 + ext)"
  have "0 \<le> ext" "0 \<le> ext2" unfolding ext_def ext2_def by simp_all
  then show ?thesis
    unfolding est_initial_def Let_def ext_def [symmetric] ext2_def [symmetric]
    by (intro grows_intros) simp_all
qed

lemma est_extension_grows: "grows_to external q itv (est_extension external q itv n)"
proof -
  define ext where "ext = u32 (iv_size itv * int n)"
  have "0 \<le> ext" "0 \<le> ext div 2" unfolding ext_def by (simp_all add: pos_imp_zdiv_nonneg_iff)
  then show ?thesis
    unfolding est_extension_def Let_def ext_def [symmetric]
    by (intro grows_intros) simp_all
qed

lemma grows_to_sound:
  assumes "within_limits external q itv" "iv_valid itv" "grows_to external q itv e"
  shows "iv_contains_iv e itv \<and> within_limits external q e"
proof -
  have refl: "iv_contains_iv itv itv" by (simp add: iv_contains_iv_def)
  from assms(3) show ?thesis
    unfolding grows_to_def using refl assms(1) est_clamp_grows [OF assms(1,2)] by blast
qed

text \<open>Extending the search interval never loses a start time and never leaves the
  limits: from an interval inside the timetable, the range of the 16 bit times and the
  query's maximum, both \<open>initial\<close> and \<open>extension\<close> return an interval that contains it and is
  inside all three again, whatever directions may be extended.\<close>

theorem interval_extension_sound:
  assumes "within_limits external q itv" "iv_valid itv"
  shows "\<forall>e. e = est_initial SearchDir external q itv \<or> e = est_extension external q itv n \<longrightarrow>
      iv_contains_iv e itv \<and> within_limits external q e"
  using grows_to_sound [OF assms est_initial_grows] grows_to_sound [OF assms est_extension_grows]
  by blast

text \<open>An example query: from stop 20 to stop 21, departing between minutes 28800 and 28860.\<close>

definition example_query :: query where
  "example_query = \<lparr>q_start_time = InInterval (mk_iv 28800 28860), q_start_match_mode = kExact,
     q_dest_match_mode = kExact, q_use_start_footpaths = False,
     q_start = [\<lparr>off_target = 20, off_duration = 0, off_mode = 0, off_payload = 0\<rparr>],
     q_destination = [\<lparr>off_target = 21, off_duration = 0, off_mode = 0, off_payload = 0\<rparr>],
     q_td_start = [], q_td_dest = [], q_max_start_offset = kMaxTravelTime, q_max_transfers = 14, q_max_travel_time = 7200,
     q_min_connection_count = 3, q_extend_interval_earlier = True, q_extend_interval_later = True,
     q_max_interval = None, q_prf_idx = 0, q_allowed_claszes = all_clasz_allowed,
     q_require_bike_transport = False, q_require_car_transport = False, q_no_compulsory_reservation = False,
     q_transfer_time_settings = \<lparr>tts_default = True, min_transfer_time = 0, additional_time = 0,
       tts_factor = f32_one\<rparr>,
     q_via_stops = [\<lparr>via_location = 30, via_stay = 5\<rparr>, \<lparr>via_location = 30, via_stay = 7\<rparr>],
     q_fastest_direct = None, q_fastest_direct_factor = f32_one, q_slow_direct = False,
     q_fastest_slow_direct_factor = \<lparr>mant = 1, expo = 1\<rparr>\<rparr>"

theorem sanitize_via_stops_correct_witness:
  "sum_list (map via_stay (q_via_stops (sanitize_via_stops (=) example_query))) = 12"
  using sanitize_via_stops_correct [of example_query _ "(=)", OF _ _ refl]
  by (simp add: example_query_def)

lemma example_max_interval: "est_data_type_max_interval example_query = mk_iv 25920 31680"
  by code_simp

theorem interval_extension_sound_witness:
  "iv_contains_iv (est_extension (mk_iv 0 57600) example_query (mk_iv 28800 28860) 2) (mk_iv 28800 28860)"
proof -
  have max: "q_max_interval example_query = None" by (simp add: example_query_def)
  have "within_limits (mk_iv 0 57600) example_query (mk_iv 28800 28860)"
    unfolding within_limits_def example_max_interval max by (simp add: iv_contains_iv_def)
  moreover have "iv_valid (mk_iv 28800 (28860 :: int))" by (simp add: iv_valid_def)
  ultimately show ?thesis
    using interval_extension_sound [of "mk_iv 0 57600" example_query "mk_iv 28800 28860" Forward 2]
    by blast
qed

end
