(* ===== verification/Journey.thy ===== *)
theory Journey
  imports Stops Pareto Query
begin

text \<open>
  \<open>include/nigiri/routing/journey.h\<close> and the run of \<open>rt/run.h\<close> its legs refer to.
\<close>

record run =
  run_t :: "transport option"
  run_stop_range :: "nat interval"
  run_rt :: "nat option"

definition run_is_rt :: "run \<Rightarrow> bool" where "run_is_rt r \<longleftrightarrow> run_rt r \<noteq> None"
definition run_is_scheduled :: "run \<Rightarrow> bool" where "run_is_scheduled r \<longleftrightarrow> run_t r \<noteq> None"
definition run_valid :: "run \<Rightarrow> bool" where "run_valid r \<longleftrightarrow> run_t r \<noteq> None \<or> run_rt r \<noteq> None"

definition run_eq :: "run \<Rightarrow> run \<Rightarrow> bool" where
  "run_eq a b \<longleftrightarrow> run_t a = run_t b \<and> run_stop_range a = run_stop_range b"

record run_enter_exit =
  ree_run :: run
  ree_stop_range :: "nat interval"

definition mk_run_enter_exit :: "run \<Rightarrow> nat \<Rightarrow> nat \<Rightarrow> run_enter_exit" where
  "mk_run_enter_exit r a b = \<lparr>ree_run = r, ree_stop_range = mk_iv (min a b) ((max a b + 1) mod 2 ^ 16)\<rparr>"

datatype leg_uses = UsesRun run_enter_exit | UsesFootpath footpath | UsesOffset offset

record leg =
  leg_from :: nat
  leg_to :: nat
  leg_dep_time :: int
  leg_arr_time :: int
  leg_uses :: leg_uses

definition mk_leg :: "direction \<Rightarrow> nat \<Rightarrow> nat \<Rightarrow> int \<Rightarrow> int \<Rightarrow> leg_uses \<Rightarrow> leg" where
  "mk_leg d a b time_at_a time_at_b us =
     \<lparr>leg_from = (if d = Forward then a else b), leg_to = (if d = Forward then b else a),
      leg_dep_time = (if d = Forward then time_at_a else time_at_b),
      leg_arr_time = (if d = Forward then time_at_b else time_at_a), leg_uses = us\<rparr>"

record journey =
  j_legs :: "leg list"
  j_start_time :: int
  j_dest_time :: int
  j_dest :: nat
  j_transfers :: nat
  j_error :: bool
  j_is_reconstructed :: bool

definition j_dominates :: "journey \<Rightarrow> journey \<Rightarrow> bool" where
  "j_dominates j o' =
     (if j_start_time j \<le> j_dest_time j
      then j_transfers j \<le> j_transfers o' \<and> j_start_time o' \<le> j_start_time j \<and> j_dest_time j \<le> j_dest_time o'
      else j_transfers j \<le> j_transfers o' \<and> j_start_time j \<le> j_start_time o' \<and> j_dest_time o' \<le> j_dest_time j)"

definition travel_time :: "journey \<Rightarrow> int" where
  "travel_time j = i16 \<bar>j_dest_time j - j_start_time j\<bar>"

definition departure_time :: "journey \<Rightarrow> int" where
  "departure_time j = (if j_start_time j \<le> j_dest_time j then j_start_time j else j_dest_time j)"

definition arrival_time :: "journey \<Rightarrow> int" where
  "arrival_time j = (if j_start_time j \<le> j_dest_time j then j_dest_time j else j_start_time j)"

section \<open>Dominance\<close>

text \<open>A search in one direction produces journeys of one orientation; among them dominance is a
  preorder.\<close>

definition in_direction :: "direction \<Rightarrow> journey \<Rightarrow> bool" where
  "in_direction d j \<longleftrightarrow> (if d = Forward then j_start_time j \<le> j_dest_time j else j_dest_time j < j_start_time j)"

interpretation journeys: dominance j_dominates "in_direction d"
proof
  fix j k l :: journey
  show "in_direction d j \<Longrightarrow> j_dominates j j" by (simp add: j_dominates_def)
  show "in_direction d j \<Longrightarrow> in_direction d k \<Longrightarrow> in_direction d l \<Longrightarrow> j_dominates j k \<Longrightarrow> j_dominates k l \<Longrightarrow>
      j_dominates j l"
    by (cases d) (auto simp: j_dominates_def in_direction_def split: if_splits)
qed

end
