(* ===== verification/Frun.thy ===== *)
theory Frun
  imports Rt_Timetable Journey
begin

text \<open>
  Full runs (\<open>src/rt/frun.cc\<close>, \<open>include/nigiri/rt/frun.h\<close>): a run over the timetable and, where there is one,
  its real-time overlay, and what can be read at its stops. Left out are names, trips, tracks, shapes
  and printing, which need tables that the searches do not read.
\<close>

text \<open>\<open>rtt\<close> is the pointer to the real-time timetable. The constructor completes the run.\<close>

definition resolve_static :: "rt_timetable \<Rightarrow> nat \<Rightarrow> transport option" where
  "resolve_static rtt rt_t = rt_static_transport rtt ! rt_t"

definition resolve_rt :: "rt_timetable \<Rightarrow> transport option \<Rightarrow> nat option" where
  "resolve_rt rtt t = (case t of None \<Rightarrow> None | Some t \<Rightarrow> static_trip_lookup rtt t)"

definition frun :: "rt_timetable option \<Rightarrow> run \<Rightarrow> run" where
  "frun rtt r =
     (case rtt of
        None \<Rightarrow> r
      | Some rtt \<Rightarrow>
          let fr = (if \<not> run_is_rt r then r\<lparr>run_rt := resolve_rt rtt (run_t r)\<rparr> else r)
          in if \<not> run_is_scheduled fr \<and> run_rt r \<noteq> None then fr\<lparr>run_t := resolve_static rtt (the (run_rt r))\<rparr> else fr)"

definition from_rt :: "rt_timetable \<Rightarrow> nat \<Rightarrow> run" where
  "from_rt rtt rt_t =
     frun (Some rtt) \<lparr>run_t = None, run_stop_range = mk_iv 0 (length (rt_location_seq rtt ! rt_t) mod 2 ^ 16), run_rt = Some rt_t\<rparr>"

definition from_t :: "timetable \<Rightarrow> rt_timetable option \<Rightarrow> transport \<Rightarrow> run" where
  "from_t tt rtt t =
     frun rtt \<lparr>run_t = Some t, run_stop_range = mk_iv 0 (length (route_location_seq tt ! (transport_route tt ! t_idx t)) mod 2 ^ 16),
       run_rt = None\<rparr>"

text \<open>The real-time transport to read from.\<close>

definition fr_rt :: "rt_timetable option \<Rightarrow> run \<Rightarrow> (rt_timetable \<times> nat) option" where
  "fr_rt rtt fr = (case (rtt, run_rt fr) of (Some rtt, Some rt_t) \<Rightarrow> Some (rtt, rt_t) | _ \<Rightarrow> None)"

definition fr_route :: "timetable \<Rightarrow> run \<Rightarrow> nat" where
  "fr_route tt fr = transport_route tt ! t_idx (the (run_t fr))"

definition fr_location_seq :: "timetable \<Rightarrow> rt_timetable option \<Rightarrow> run \<Rightarrow> nat list" where
  "fr_location_seq tt rtt fr =
     (case fr_rt rtt fr of
        Some (rtt, rt_t) \<Rightarrow> rt_location_seq rtt ! rt_t
      | None \<Rightarrow> route_location_seq tt ! fr_route tt fr)"

definition fr_size :: "timetable \<Rightarrow> rt_timetable option \<Rightarrow> run \<Rightarrow> nat" where
  "fr_size tt rtt fr =
     (if fr_rt rtt fr = None \<and> \<not> run_is_scheduled fr then 0 else length (fr_location_seq tt rtt fr) mod 2 ^ 16)"

text \<open>\<open>operator[]\<close>: the stop index of a position in the stop range. The stop indices below are absolute.\<close>

definition fr_at :: "run \<Rightarrow> nat \<Rightarrow> nat" where
  "fr_at fr i = (ifrom (run_stop_range fr) + i) mod 2 ^ 16"

section \<open>Stops of a run\<close>

definition get_stop :: "timetable \<Rightarrow> rt_timetable option \<Rightarrow> run \<Rightarrow> nat \<Rightarrow> stop" where
  "get_stop tt rtt fr s = stop_of_value (fr_location_seq tt rtt fr ! s)"

definition get_scheduled_stop :: "timetable \<Rightarrow> rt_timetable \<Rightarrow> run \<Rightarrow> nat \<Rightarrow> stop" where
  "get_scheduled_stop tt rtt fr s =
     stop_of_value (if run_is_scheduled fr then route_location_seq tt ! fr_route tt fr ! s
       else rt_location_seq rtt ! the (run_rt fr) ! s)"

definition get_location_idx :: "timetable \<Rightarrow> rt_timetable option \<Rightarrow> run \<Rightarrow> nat \<Rightarrow> nat" where
  "get_location_idx tt rtt fr s = stop_loc (get_stop tt rtt fr s)"

definition get_scheduled_location_idx :: "timetable \<Rightarrow> rt_timetable \<Rightarrow> run \<Rightarrow> nat \<Rightarrow> nat" where
  "get_scheduled_location_idx tt rtt fr s = stop_loc (get_scheduled_stop tt rtt fr s)"

definition scheduled_time :: "timetable \<Rightarrow> rt_timetable \<Rightarrow> run \<Rightarrow> nat \<Rightarrow> event_type \<Rightarrow> int" where
  "scheduled_time tt rtt fr s ev_type =
     (case run_t fr of Some t \<Rightarrow> event_time tt t s ev_type | None \<Rightarrow> unix_event_time rtt (the (run_rt fr)) s ev_type)"

definition fr_time :: "timetable \<Rightarrow> rt_timetable option \<Rightarrow> run \<Rightarrow> nat \<Rightarrow> event_type \<Rightarrow> int" where
  "fr_time tt rtt fr s ev_type =
     (case fr_rt rtt fr of
        Some (rtt, rt_t) \<Rightarrow> unix_event_time rtt rt_t s ev_type
      | None \<Rightarrow> event_time tt (the (run_t fr)) s ev_type)"

definition data_state :: "timetable \<Rightarrow> rt_timetable option \<Rightarrow> run \<Rightarrow> nat \<Rightarrow> event_type \<Rightarrow> rt_data_state" where
  "data_state tt rtt fr s ev_type =
     (let exists = (if ev_type = Arr then s \<noteq> 0 else int s \<noteq> int (fr_size tt rtt fr) - 1)
      in case fr_rt rtt fr of
           Some (rtt, rt_t) \<Rightarrow> if exists then rt_data_states rtt ! rt_t ! event_idx s ev_type else kNoRtData
         | None \<Rightarrow> kNoRtData)"

definition has_rt_data :: "timetable \<Rightarrow> rt_timetable option \<Rightarrow> run \<Rightarrow> nat \<Rightarrow> event_type \<Rightarrow> bool" where
  "has_rt_data tt rtt fr s ev_type =
     (let state = data_state tt rtt fr s ev_type in state \<noteq> kNoRtData \<and> state \<noteq> kInconsistent)"

definition fr_delay :: "timetable \<Rightarrow> rt_timetable \<Rightarrow> run \<Rightarrow> nat \<Rightarrow> event_type \<Rightarrow> int" where
  "fr_delay tt rtt fr s ev_type =
     i16 (fr_time tt (Some rtt) fr s ev_type - scheduled_time tt rtt fr s ev_type)"

definition section_idx :: "nat \<Rightarrow> event_type \<Rightarrow> nat" where
  "section_idx s ev_type = (if ev_type = Dep then s else nat (u16 (int s - 1)))"

definition of_section :: "'a list \<Rightarrow> nat \<Rightarrow> event_type \<Rightarrow> 'a" where
  "of_section xs s ev_type = xs ! (if length xs = 1 then 0 else section_idx s ev_type)"

definition get_clasz :: "timetable \<Rightarrow> rt_timetable option \<Rightarrow> run \<Rightarrow> nat \<Rightarrow> event_type \<Rightarrow> clasz" where
  "get_clasz tt rtt fr s ev_type =
     (case fr_rt rtt fr of
        Some (rtt, rt_t) \<Rightarrow> of_section (rt_section_clasz rtt ! rt_t) s ev_type
      | None \<Rightarrow> of_section (route_section_clasz tt ! fr_route tt fr) s ev_type)"

definition get_scheduled_clasz :: "timetable \<Rightarrow> run \<Rightarrow> nat \<Rightarrow> event_type \<Rightarrow> clasz" where
  "get_scheduled_clasz tt fr s ev_type =
     (if \<not> run_is_scheduled fr then kOther else of_section (route_section_clasz tt ! fr_route tt fr) s ev_type)"

definition section_flag :: "bool list \<Rightarrow> nat \<Rightarrow> bool list \<Rightarrow> nat \<Rightarrow> event_type \<Rightarrow> bool" where
  "section_flag all_some i flag_seq s ev_type =
     (if all_some ! (i * 2) then True
      else if \<not> all_some ! (i * 2 + 1) then False
      else of_section flag_seq s ev_type)"

definition fr_is_flag_set :: "timetable \<Rightarrow> rt_timetable option \<Rightarrow> run \<Rightarrow> route_flag \<Rightarrow> nat \<Rightarrow> event_type \<Rightarrow> bool" where
  "fr_is_flag_set tt rtt fr f s ev_type =
     (case fr_rt rtt fr of
        Some (rtt, rt_t) \<Rightarrow>
          section_flag (rt_transport_flags rtt ! route_flag_idx f) rt_t (rt_flags_per_section rtt ! route_flag_idx f ! rt_t) s ev_type
      | None \<Rightarrow>
          section_flag (route_flags tt ! route_flag_idx f) (fr_route tt fr)
            (route_flags_per_section tt ! route_flag_idx f ! fr_route tt fr) s ev_type)"

definition fr_in_allowed :: "timetable \<Rightarrow> rt_timetable option \<Rightarrow> run \<Rightarrow> nat \<Rightarrow> bool \<Rightarrow> bool" where
  "fr_in_allowed tt rtt fr s wheelchair =
     (if wheelchair then stop_in_wheelchair (get_stop tt rtt fr s) else stop_in (get_stop tt rtt fr s))"

definition fr_out_allowed :: "timetable \<Rightarrow> rt_timetable option \<Rightarrow> run \<Rightarrow> nat \<Rightarrow> bool \<Rightarrow> bool" where
  "fr_out_allowed tt rtt fr s wheelchair =
     (if wheelchair then stop_out_wheelchair (get_stop tt rtt fr s) else stop_out (get_stop tt rtt fr s))"

section \<open>The run as a whole\<close>

definition first_valid :: "timetable \<Rightarrow> rt_timetable option \<Rightarrow> run \<Rightarrow> nat \<Rightarrow> nat" where
  "first_valid tt rtt fr i =
     (case find (\<lambda>s. fr_in_allowed tt rtt fr s False \<or> fr_out_allowed tt rtt fr s False) [i..<ito (run_stop_range fr)] of
        Some s \<Rightarrow> s
      | None \<Rightarrow> ito (run_stop_range fr))"

definition last_valid :: "timetable \<Rightarrow> rt_timetable option \<Rightarrow> run \<Rightarrow> nat" where
  "last_valid tt rtt fr =
     (case find (\<lambda>s. fr_in_allowed tt rtt fr s False \<or> fr_out_allowed tt rtt fr s False)
             (rev [ifrom (run_stop_range fr)..<ito (run_stop_range fr)]) of
        Some s \<Rightarrow> s
      | None \<Rightarrow> ito (run_stop_range fr))"

definition fr_get_clasz :: "timetable \<Rightarrow> rt_timetable option \<Rightarrow> run \<Rightarrow> clasz" where
  "fr_get_clasz tt rtt fr =
     (if run_is_scheduled fr then hd (route_section_clasz tt ! fr_route tt fr)
      else case rtt of Some rtt \<Rightarrow> hd (rt_section_clasz rtt ! the (run_rt fr)) | None \<Rightarrow> kOther)"

definition fr_is_cancelled :: "timetable \<Rightarrow> rt_timetable option \<Rightarrow> run \<Rightarrow> bool" where
  "fr_is_cancelled tt rtt fr =
     (case rtt of
        None \<Rightarrow> False
      | Some rtt \<Rightarrow>
          (case run_rt fr of
             Some rt_t \<Rightarrow> rt_is_cancelled rtt ! rt_t
           | None \<Rightarrow> (case run_t fr of Some t \<Rightarrow> \<not> rtt_is_transport_active tt rtt (t_idx t) (t_day t) | None \<Rightarrow> False)))"

end
