(* ===== verification/Locations.thy ===== *)
theory Locations
  imports Timetable
begin

text \<open>
  The station tree: \<open>locations::get_root_idx\<close> of \<open>timetable.h\<close> and the location matching of
  \<open>for_each_meta.h\<close>. The callback of \<open>for_each_meta\<close> is represented by the list of locations
  it is called with, in order.
\<close>

section \<open>Root of a location\<close>

text \<open>The loop of \<open>get_root_idx\<close>: it gives up and returns the direct parent when the chain
  leads back to the start or after more than 20 steps.\<close>

function root_loop :: "timetable \<Rightarrow> nat \<Rightarrow> nat \<Rightarrow> nat \<Rightarrow> nat" where
  "root_loop tt idx l i =
     (case parents tt ! l of
        None \<Rightarrow> l
      | Some p \<Rightarrow> if p = idx \<or> 20 < i then the (parents tt ! idx)
                  else root_loop tt idx p (i + 1))"
  by pat_completeness auto
termination
  by (relation "measure (\<lambda>(tt, idx, l, i). 21 - i)") auto

declare root_loop.simps [simp del]

definition get_root_idx :: "timetable \<Rightarrow> nat \<Rightarrow> nat" where
  "get_root_idx tt idx = root_loop tt idx idx 0"

text \<open>The \<open>n\<close>-th ancestor.\<close>

fun ancestor :: "timetable \<Rightarrow> nat \<Rightarrow> nat \<Rightarrow> nat option" where
  "ancestor tt 0 l = Some l"
| "ancestor tt (Suc n) l = (case parents tt ! l of None \<Rightarrow> None | Some p \<Rightarrow> ancestor tt n p)"

lemma ancestor_add: "ancestor tt m l = Some k \<Longrightarrow> ancestor tt (m + n) l = ancestor tt n k"
  by (induction m arbitrary: l) (auto split: option.splits)

lemma ancestor_cycle:
  assumes "ancestor tt (Suc m) l = Some l"
  shows "ancestor tt n l \<noteq> None"
proof (induction n rule: less_induct)
  case (less n)
  show ?case
  proof (cases "n \<le> m")
    case True
    then obtain k where k: "Suc m = n + k" by (metis le_SucI le_Suc_ex)
    show ?thesis
    proof
      assume "ancestor tt n l = None"
      then have "ancestor tt (n + k) l = None"
        by (induction n arbitrary: l) (auto split: option.splits)
      with assms k show False by simp
    qed
  next
    case False
    then have "Suc m + (n - Suc m) = n" by simp
    with ancestor_add [OF assms, of "n - Suc m"] less [of "n - Suc m"] False show ?thesis by simp
  qed
qed

lemma root_loop_root:
  assumes "ancestor tt i idx = Some l" "ancestor tt n l = Some r" "parents tt ! r = None" "i + n \<le> 21"
  shows "root_loop tt idx l i = r"
  using assms
proof (induction n arbitrary: l i)
  case 0
  then show ?case by (subst root_loop.simps) simp
next
  case (Suc n)
  then obtain p where p: "parents tt ! l = Some p" "ancestor tt n p = Some r"
    by (auto split: option.splits)
  have i: "ancestor tt (i + 1) idx = Some p"
    using ancestor_add [OF Suc.prems(1), of 1] p(1) by simp
  have "p \<noteq> idx"
  proof
    assume "p = idx"
    with i have "ancestor tt (Suc i) idx = Some idx" by simp
    note c = ancestor_cycle [OF this]
    have "ancestor tt (n + 1) idx = None"
      using ancestor_add [OF p(2), of 1] \<open>p = idx\<close> Suc.prems(3) by simp
    with c show False by blast
  qed
  with p Suc.prems i Suc.IH [of "i + 1" p] show ?case
    by (subst root_loop.simps) simp
qed

lemma root_loop_ancestor:
  assumes "ancestor tt i idx = Some l"
  shows "\<exists>n. ancestor tt n idx = Some (root_loop tt idx l i)"
  using assms
proof (induction tt idx l i rule: root_loop.induct)
  case (1 tt idx l i)
  show ?case
  proof (cases "parents tt ! l")
    case None
    with 1(2) show ?thesis by (subst root_loop.simps) auto
  next
    case (Some p)
    have i: "ancestor tt (i + 1) idx = Some p"
      using ancestor_add [OF 1(2), of 1] Some by simp
    then obtain q where q: "parents tt ! idx = Some q" by (auto split: option.splits)
    have one: "ancestor tt 1 idx = Some q" using q by simp
    show ?thesis
    proof (cases "p = idx \<or> 20 < i")
      case True
      with Some q have "root_loop tt idx l i = q" by (subst root_loop.simps) simp
      with one show ?thesis by blast
    next
      case False
      with Some have "root_loop tt idx l i = root_loop tt idx p (i + 1)"
        by (subst root_loop.simps) simp
      with "1.IH" [OF Some False i] show ?thesis by simp
    qed
  qed
qed

text \<open>\<open>get_root_idx\<close> always returns, and what it returns is the location itself
  or one of its ancestors, also for cyclic parent links; if the chain of parents ends within
  21 steps it is the end of the chain.\<close>

theorem get_root_idx_correct:
  "(\<exists>n. ancestor tt n idx = Some (get_root_idx tt idx)) \<and>
   (\<forall>n r. n \<le> 21 \<and> ancestor tt n idx = Some r \<and> parents tt ! r = None \<longrightarrow> get_root_idx tt idx = r)"
  using root_loop_ancestor [of tt 0 idx idx] root_loop_root [of tt 0 idx idx]
  by (auto simp: get_root_idx_def)

section \<open>Matching\<close>

definition with_children :: "timetable \<Rightarrow> nat \<Rightarrow> nat list" where
  "with_children tt loc = concat (map (\<lambda>c. c # children tt ! c) (children tt ! loc))"

definition for_each_meta :: "timetable \<Rightarrow> location_match_mode \<Rightarrow> nat \<Rightarrow> nat list" where
  "for_each_meta tt mode l =
     (case mode of
        kExact \<Rightarrow> [l]
      | kIntermodal \<Rightarrow> l # filter (\<lambda>c. loc_types tt ! c = kGeneratedTrack) (children tt ! l)
      | kOnlyChildren \<Rightarrow> l # with_children tt l
      | kEquivalent \<Rightarrow>
          (let root = get_root_idx tt l
           in root # with_children tt root @
              concat (map (\<lambda>eq. eq # with_children tt eq) (equivalences tt ! l))))"

definition matches :: "timetable \<Rightarrow> location_match_mode \<Rightarrow> nat \<Rightarrow> nat \<Rightarrow> bool" where
  "matches tt mode a b =
     (case mode of
        kExact \<Rightarrow> a = b
      | _ \<Rightarrow> if a = b then True
             else fold (\<lambda>candidate m. m \<or> candidate = b) (for_each_meta tt mode a) False)"

text \<open>A consistent station tree: children and parents are inverse, and a station has at most
  platforms and tracks below it.\<close>

definition tree_ok :: "timetable \<Rightarrow> bool" where
  "tree_ok tt \<longleftrightarrow> length (parents tt) = n_locations tt \<and> length (children tt) = n_locations tt \<and>
     (\<forall>l < n_locations tt. \<forall>c \<in> set (children tt ! l). c < n_locations tt) \<and>
     (\<forall>l < n_locations tt. \<forall>c < n_locations tt. c \<in> set (children tt ! l) \<longleftrightarrow> parents tt ! c = Some l) \<and>
     (\<forall>l < n_locations tt. \<forall>p. parents tt ! l = Some p \<longrightarrow> p < n_locations tt) \<and>
     (\<forall>l < n_locations tt. \<exists>n \<le> 2. \<exists>r. ancestor tt n l = Some r \<and> parents tt ! r = None)"

lemma fold_or: "fold (\<lambda>c m. m \<or> c = b) xs init \<longleftrightarrow> init \<or> b \<in> set xs"
  by (induction xs arbitrary: init) auto

lemma tree_root:
  assumes "tree_ok tt" "l < n_locations tt"
  shows "parents tt ! get_root_idx tt l = None \<and> get_root_idx tt l < n_locations tt \<and>
    (\<exists>n \<le> 2. ancestor tt n l = Some (get_root_idx tt l))"
proof -
  from assms obtain n r where nr: "n \<le> 2" "ancestor tt n l = Some r" "parents tt ! r = None"
    unfolding tree_ok_def by blast
  moreover from nr have "get_root_idx tt l = r"
    using root_loop_root [of tt 0 l l n r] by (simp add: get_root_idx_def)
  moreover have par: "p < n_locations tt" if "parents tt ! x = Some p" "x < n_locations tt" for x p
    using assms(1) that unfolding tree_ok_def by blast
  then have "ancestor tt m k = Some r \<Longrightarrow> k < n_locations tt \<Longrightarrow> r < n_locations tt" for m k
    by (induction m arbitrary: k) (auto split: option.splits)
  ultimately show ?thesis using assms(2) by blast
qed

lemma ancestor_small:
  "ancestor tt 0 c = Some l \<longleftrightarrow> c = l"
  "ancestor tt 1 c = Some l \<longleftrightarrow> parents tt ! c = Some l"
  "ancestor tt 2 c = Some l \<longleftrightarrow> (\<exists>d. parents tt ! c = Some d \<and> parents tt ! d = Some l)"
  unfolding numeral_2_eq_2 One_nat_def by (auto split: option.split)

lemma with_children_tree:
  assumes "tree_ok tt" "l < n_locations tt" "c < n_locations tt"
  shows "c \<in> set (l # with_children tt l) \<longleftrightarrow> (\<exists>n \<le> 2. ancestor tt n c = Some l)"
proof -
  have two: "(\<exists>n \<le> 2. P n) \<longleftrightarrow> P 0 \<or> P 1 \<or> P (2::nat)" for P
    by (auto simp: le_Suc_eq numeral_2_eq_2)
  have ch: "x \<in> set (children tt ! y) \<longleftrightarrow> parents tt ! x = Some y" if "x < n_locations tt" "y < n_locations tt" for x y
    using assms(1) that unfolding tree_ok_def by blast
  have less: "x < n_locations tt" if "x \<in> set (children tt ! y)" "y < n_locations tt" for x y
    using assms(1) that unfolding tree_ok_def by blast
  have par: "p < n_locations tt" if "parents tt ! x = Some p" "x < n_locations tt" for x p
    using assms(1) that unfolding tree_ok_def by blast
  have mem: "c \<in> set (l # with_children tt l) \<longleftrightarrow>
      c = l \<or> c \<in> set (children tt ! l) \<or> (\<exists>d \<in> set (children tt ! l). c \<in> set (children tt ! d))"
    by (auto simp: with_children_def)
  have grand: "(\<exists>d \<in> set (children tt ! l). c \<in> set (children tt ! d)) \<longleftrightarrow>
      (\<exists>d. parents tt ! c = Some d \<and> parents tt ! d = Some l)"
    (is "?L \<longleftrightarrow> ?R")
  proof
    assume ?L
    then obtain d where d: "d \<in> set (children tt ! l)" "c \<in> set (children tt ! d)" by blast
    from less [OF d(1) assms(2)] have "d < n_locations tt" .
    with d ch assms(2,3) have "parents tt ! c = Some d" "parents tt ! d = Some l" by simp_all
    then show ?R by blast
  next
    assume ?R
    then obtain d where d: "parents tt ! c = Some d" "parents tt ! d = Some l" by blast
    from par [OF d(1) assms(3)] have "d < n_locations tt" .
    with d ch assms(2,3) have "d \<in> set (children tt ! l)" "c \<in> set (children tt ! d)" by simp_all
    then show ?L by blast
  qed
  show ?thesis
    unfolding mem grand two ancestor_small ch [OF assms(3,2)] ..
qed

lemma same_root_tree:
  assumes "tree_ok tt" "a < n_locations tt" "b < n_locations tt"
  shows "b \<in> set (get_root_idx tt a # with_children tt (get_root_idx tt a)) \<longleftrightarrow>
    get_root_idx tt b = get_root_idx tt a"
proof -
  note ra = tree_root [OF assms(1,2)] and rb = tree_root [OF assms(1,3)]
  have "get_root_idx tt b = get_root_idx tt a" if "n \<le> 2" "ancestor tt n b = Some (get_root_idx tt a)" for n
    using root_loop_root [of tt 0 b b n "get_root_idx tt a"] that ra by (simp add: get_root_idx_def)
  with rb have "(\<exists>n \<le> 2. ancestor tt n b = Some (get_root_idx tt a)) \<longleftrightarrow> get_root_idx tt b = get_root_idx tt a"
    by metis
  with with_children_tree [OF assms(1) _ assms(3), of "get_root_idx tt a"] ra show ?thesis by blast
qed

text \<open>On a consistent station tree two locations match in mode \<open>kEquivalent\<close>
  exactly if they are equal, belong to the same root station, or the second lies at or below
  a location listed as equivalent to the first.\<close>

theorem matches_equivalent_iff:
  assumes "tree_ok tt" "a < n_locations tt" "b < n_locations tt"
    and "\<forall>e \<in> set (equivalences tt ! a). e < n_locations tt"
  shows "matches tt kEquivalent a b \<longleftrightarrow>
    a = b \<or> get_root_idx tt a = get_root_idx tt b \<or>
    (\<exists>e \<in> set (equivalences tt ! a). \<exists>n \<le> 2. ancestor tt n b = Some e)"
proof -
  have "b \<in> set (concat (map (\<lambda>eq. eq # with_children tt eq) (equivalences tt ! a))) \<longleftrightarrow>
      (\<exists>e \<in> set (equivalences tt ! a). b \<in> set (e # with_children tt e))"
    by simp
  also have "\<dots> \<longleftrightarrow> (\<exists>e \<in> set (equivalences tt ! a). \<exists>n \<le> 2. ancestor tt n b = Some e)"
    using with_children_tree [OF assms(1) _ assms(3)] assms(4) by blast
  finally have eq: "b \<in> set (concat (map (\<lambda>eq. eq # with_children tt eq) (equivalences tt ! a))) \<longleftrightarrow>
      (\<exists>e \<in> set (equivalences tt ! a). \<exists>n \<le> 2. ancestor tt n b = Some e)" .
  have "matches tt kEquivalent a b \<longleftrightarrow> a = b \<or>
      b \<in> set (get_root_idx tt a # with_children tt (get_root_idx tt a)) \<or>
      b \<in> set (concat (map (\<lambda>eq. eq # with_children tt eq) (equivalences tt ! a)))"
    by (simp add: matches_def for_each_meta_def Let_def fold_or disj_assoc eq_commute [of b] del: set_concat set_map)
  then show ?thesis
    unfolding eq same_root_tree [OF assms(1-3)] eq_commute [of "get_root_idx tt b"] .
qed

text \<open>A station 0 with platform 1 and its track 2.\<close>

definition example_station :: timetable where
  "example_station = example_timetable\<lparr>parents := [None, Some 0, Some 1], children := [[1], [2], []]\<rparr>"

theorem matches_equivalent_iff_witness: "matches example_station kEquivalent 2 0"
proof -
  have n: "n_locations example_station = 3" "parents example_station = [None, Some 0, Some 1]"
    "children example_station = [[1], [2], []]" "equivalences example_station = [[0], [1], [2]]"
    by (simp_all add: example_station_def example_timetable_def n_locations_def)
  have less3: "(\<forall>l < 3. P l) \<longleftrightarrow> P 0 \<and> P 1 \<and> P (2::nat)" for P
    by (auto simp: numeral_3_eq_3 numeral_2_eq_2 less_Suc_eq)
  have two: "(\<exists>n \<le> 2. P n) \<longleftrightarrow> P 0 \<or> P 1 \<or> P (2::nat)" for P
    by (auto simp: le_Suc_eq numeral_2_eq_2)
  have "tree_ok example_station"
    unfolding tree_ok_def n less3 two by (simp add: n numeral_2_eq_2)
  moreover have "get_root_idx example_station 2 = get_root_idx example_station 0"
    by (simp add: get_root_idx_def root_loop.simps n numeral_2_eq_2)
  ultimately show ?thesis
    using matches_equivalent_iff [of example_station 2 0] by (simp add: n)
qed

theorem get_root_idx_correct_witness: "get_root_idx example_station 2 = 0"
proof -
  have n: "parents example_station = [None, Some 0, Some 1]"
    by (simp add: example_station_def example_timetable_def)
  have "ancestor example_station 2 2 = Some 0" by (simp add: numeral_2_eq_2 n)
  moreover have "parents example_station ! 0 = None" by (simp add: n)
  ultimately show ?thesis
    using get_root_idx_correct [of example_station 2, THEN conjunct2, rule_format, of 2 0] by simp
qed

end
