(* ===== verification/Raptor.thy ===== *)
theory Raptor
  imports Query Pareto Rt_Timetable Locations
begin

text \<open>
  The round-based search of \<open>include/nigiri/routing/raptor/raptor.h\<close> on the state of
  \<open>raptor_state.h\<close>. The template parameters (search direction, real-time, number of vias, search
  mode) and the constant members of the \<open>raptor\<close> object are the fields of one record, the arrays it
  works on the fields of another; matrices are nested lists indexed round, location, via slot.
  Times are \<open>delta_t\<close>: minutes relative to the base day in 16 bits, saturating.
\<close>

section \<open>Directions\<close>

definition is_better :: "direction \<Rightarrow> int \<Rightarrow> int \<Rightarrow> bool" where
  "is_better d a b = (if d = Forward then a < b else b < a)"

definition is_better_or_eq :: "direction \<Rightarrow> int \<Rightarrow> int \<Rightarrow> bool" where
  "is_better_or_eq d a b = (if d = Forward then a \<le> b else b \<le> a)"

definition get_best :: "direction \<Rightarrow> int \<Rightarrow> int \<Rightarrow> int" where
  "get_best d a b = (if is_better d a b then a else b)"

definition get_best3 :: "direction \<Rightarrow> int \<Rightarrow> int \<Rightarrow> int \<Rightarrow> int" where
  "get_best3 d x y z = get_best d (get_best d x y) z"

definition dir :: "direction \<Rightarrow> int \<Rightarrow> int" where
  "dir d a = (if d = Forward then 1 else - 1) * a"

section \<open>The search object\<close>

record raptor =
  search_dir :: direction
  with_rt :: bool
  vias :: nat
  one_to_all :: bool
  r_tt :: timetable
  r_rtt :: rt_timetable
  has_rtt :: bool
  is_dest :: "bool list"
  is_via :: "bool list list"
  dist_to_end :: "nat list"
  td_dist_to_end :: "nat \<rightharpoonup> td_offset list"
  lb :: "nat list"
  via_stops :: "via_stop list"
  base :: nat
  allowed_claszes :: clasz_mask
  require_bike :: bool
  require_car :: bool
  is_wheelchair :: bool
  no_compulsory_reservation :: bool
  tts :: transfer_time_settings
  prf_idx :: nat

record raptor_stats =
  n_footpaths_visited :: nat
  n_routes_visited :: nat
  n_earliest_trip_calls :: nat
  n_updated_by_route :: nat
  n_updated_by_footpath :: nat
  n_prevented_by_lower_bound :: nat

record raptor_state =
  tmp :: "int list list"
  best :: "int list list"
  round_times :: "int list list list"
  bounds :: "int list list list"
  station_mark :: "bool list"
  prev_station_mark :: "bool list"
  route_mark :: "bool list"
  rt_transport_mark :: "bool list"
  time_at_dest :: "int list"
  bounds_last_k :: nat
  stats :: raptor_stats

definition kUnreachable :: nat where "kUnreachable = 65535"
definition kIntermodalTarget :: nat where "kIntermodalTarget = 1"

abbreviation kInvalid :: "raptor \<Rightarrow> int" where
  "kInvalid c \<equiv> kInvalidDelta (search_dir c)"

abbreviation kInvalidArray :: "raptor \<Rightarrow> int list" where
  "kInvalidArray c \<equiv> replicate (vias c + 1) (kInvalid c)"

definition n_rt_transports :: "raptor \<Rightarrow> nat" where
  "n_rt_transports c = (if with_rt c then length (rt_static_transport (r_rtt c)) else 0)"

text \<open>Reading and writing one cell of a matrix.\<close>

definition at2 :: "int list list \<Rightarrow> nat \<Rightarrow> nat \<Rightarrow> int" where
  "at2 m i v = m ! i ! v"

definition set2 :: "nat \<Rightarrow> nat \<Rightarrow> int \<Rightarrow> int list list \<Rightarrow> int list list" where
  "set2 i v x m = m[i := (m ! i)[v := x]]"

definition at3 :: "int list list list \<Rightarrow> nat \<Rightarrow> nat \<Rightarrow> nat \<Rightarrow> int" where
  "at3 m k i v = m ! k ! i ! v"

definition set3 :: "nat \<Rightarrow> nat \<Rightarrow> nat \<Rightarrow> int \<Rightarrow> int list list list \<Rightarrow> int list list list" where
  "set3 k i v x m = m[k := set2 i v x (m ! k)]"

abbreviation upd_best :: "nat \<Rightarrow> nat \<Rightarrow> int \<Rightarrow> raptor_state \<Rightarrow> raptor_state" where
  "upd_best i v x s \<equiv> s\<lparr>best := set2 i v x (best s)\<rparr>"

abbreviation upd_tmp :: "nat \<Rightarrow> nat \<Rightarrow> int \<Rightarrow> raptor_state \<Rightarrow> raptor_state" where
  "upd_tmp i v x s \<equiv> s\<lparr>tmp := set2 i v x (tmp s)\<rparr>"

abbreviation upd_round :: "nat \<Rightarrow> nat \<Rightarrow> nat \<Rightarrow> int \<Rightarrow> raptor_state \<Rightarrow> raptor_state" where
  "upd_round k i v x s \<equiv> s\<lparr>round_times := set3 k i v x (round_times s)\<rparr>"

abbreviation mark_station :: "nat \<Rightarrow> raptor_state \<Rightarrow> raptor_state" where
  "mark_station i s \<equiv> s\<lparr>station_mark := (station_mark s)[i := True]\<rparr>"

section \<open>Construction and resetting\<close>

text \<open>\<open>raptor_state::resize\<close> keeps what is there and fills with zero. The storage is laid out for two
  vias; the views take the first rows of it, so the model keeps the view of the search's number
  of vias.\<close>

definition raptor_resize :: "raptor \<Rightarrow> raptor_state \<Rightarrow> raptor_state" where
  "raptor_resize c s =
     (let n = n_locations (r_tt c); row = replicate (vias c + 1) 0
      in s\<lparr>tmp := resize row n (tmp s), best := resize row n (best s),
           round_times := map (resize row n) (resize [] (kMaxTransfers + 2) (round_times s)),
           bounds := map (resize row n) (resize [] (kMaxTransfers + 2) (bounds s)),
           station_mark := resize False n (station_mark s),
           prev_station_mark := resize False n (prev_station_mark s),
           route_mark := resize False (n_routes (r_tt c)) (route_mark s),
           rt_transport_mark := resize False (n_rt_transports c) (rt_transport_mark s)\<rparr>)"

definition reset_arrivals :: "raptor \<Rightarrow> raptor_state \<Rightarrow> raptor_state" where
  "reset_arrivals c s =
     s\<lparr>time_at_dest := replicate (kMaxTransfers + 2) (kInvalid c),
       round_times := replicate (kMaxTransfers + 2) (replicate (n_locations (r_tt c)) (kInvalidArray c))\<rparr>"

text \<open>\<open>end_reachable_\<close>, filled by the constructor for intermodal destinations.\<close>

definition end_reachable :: "raptor \<Rightarrow> nat \<Rightarrow> bool" where
  "end_reachable c i \<longleftrightarrow> dist_to_end c \<noteq> [] \<and>
     (i < length (dist_to_end c) \<and> dist_to_end c ! i \<noteq> kUnreachable \<or> td_dist_to_end c i \<noteq> None)"

definition next_start_time :: "raptor \<Rightarrow> raptor_state \<Rightarrow> raptor_state" where
  "next_start_time c s =
     (let s = s\<lparr>best := map (\<lambda>_. kInvalidArray c) (best s), tmp := map (\<lambda>_. kInvalidArray c) (tmp s),
                prev_station_mark := map (\<lambda>_. False) (prev_station_mark s),
                station_mark := map (\<lambda>_. False) (station_mark s),
                route_mark := map (\<lambda>_. False) (route_mark s)\<rparr>
      in if with_rt c then s\<lparr>rt_transport_mark := map (\<lambda>_. False) (rt_transport_mark s)\<rparr> else s)"

definition base_days :: "raptor \<Rightarrow> int" where
  "base_days c = ifrom (internal_interval_days (r_tt c)) + int (base c)"

definition r_unix_to_delta :: "raptor \<Rightarrow> int \<Rightarrow> int" where
  "r_unix_to_delta c t = unix_to_delta (base_days c) t"

definition add_start :: "raptor \<Rightarrow> nat \<Rightarrow> int \<Rightarrow> nat \<Rightarrow> raptor_state \<Rightarrow> raptor_state" where
  "add_start c l t v s =
     (let d = search_dir c; x = r_unix_to_delta c t;
          s = upd_best l v (get_best d x (at2 (best s) l v)) s;
          s = upd_round 0 l v (get_best d x (at3 (round_times s) 0 l v)) s
      in mark_station l s)"

definition set_bounds :: "nat \<Rightarrow> raptor_state \<Rightarrow> raptor_state" where
  "set_bounds last_round s = s\<lparr>bounds_last_k := last_round\<rparr>"

definition update_time_at_dest :: "raptor \<Rightarrow> nat \<Rightarrow> int \<Rightarrow> raptor_state \<Rightarrow> raptor_state" where
  "update_time_at_dest c k t s =
     (if one_to_all c then s
      else s\<lparr>time_at_dest := map (\<lambda>i. if k \<le> i then get_best (search_dir c) (time_at_dest s ! i) t
                                      else time_at_dest s ! i) [0..<length (time_at_dest s)]\<rparr>)"

definition limit_time_at_dest :: "raptor \<Rightarrow> nat \<Rightarrow> int \<Rightarrow> raptor_state \<Rightarrow> raptor_state" where
  "limit_time_at_dest c k t s = update_time_at_dest c k (r_unix_to_delta c t) s"

section \<open>Bounds from a search in the other direction\<close>

text \<open>\<open>fill_bounds\<close>: the first \<open>n_rows\<close> rounds become running bests over the rounds and, with vias,
  over the higher via slots; stops with time-dependent footpaths let everything pass.\<close>

definition td_stops :: "raptor \<Rightarrow> bool list option" where
  "td_stops c =
     (if has_rtt c \<and> has_profile_td_footpaths (prf_idx c)
      then Some ((if search_dir c = Forward then has_td_footpaths_out (r_rtt c)
                  else has_td_footpaths_in (r_rtt c)) ! prf_idx c)
      else None)"

definition best_of :: "direction \<Rightarrow> int \<Rightarrow> int \<Rightarrow> int" where
  "best_of d a b = (if d = Forward then min a b else max a b)"

fun fill_rounds :: "raptor \<Rightarrow> int list list \<Rightarrow> int list list list \<Rightarrow> int list list list" where
  "fill_rounds c prev [] = []"
| "fill_rounds c prev (row # rows) =
     (let row' = map (\<lambda>x. map (\<lambda>v. best_of (search_dir c) (at2 row x v) (at2 prev x v)) [0..<vias c + 1])
                   [0..<n_locations (r_tt c)]
      in row' # fill_rounds c row' rows)"

fun fill_vias :: "raptor \<Rightarrow> int list \<Rightarrow> int list" where
  "fill_vias c (a # b # slots) =
     (case fill_vias c (b # slots) of [] \<Rightarrow> [a] | b' # slots' \<Rightarrow> best_of (search_dir c) a b' # b' # slots')"
| "fill_vias c slots = slots"

definition fill_bounds :: "raptor \<Rightarrow> nat \<Rightarrow> raptor_state \<Rightarrow> raptor_state" where
  "fill_bounds c n_rows s =
     (let n = n_locations (r_tt c); src = round_times s;
          row0 = map (\<lambda>x. src ! 0 ! x) [0..<n];
          dst = row0 # fill_rounds c row0 (map (\<lambda>k. src ! k) [1..<n_rows]);
          dst = (if n_rows \<noteq> 0 \<and> vias c \<noteq> 0 then map (map (fill_vias c)) dst else dst);
          kPassAll = (if search_dir c = Forward then delta_min else delta_max);
          dst = (case td_stops c of
                   Some stops \<Rightarrow> if n_rows = 0 then dst
                     else map (\<lambda>row. map (\<lambda>x. if x < length stops \<and> stops ! x
                       then replicate (vias c + 1) kPassAll else row ! x) [0..<n]) dst
                 | None \<Rightarrow> dst)
      in s\<lparr>bounds := dst @ drop (length dst) (bounds s)\<rparr>)"

section \<open>Pruning\<close>

definition get_lb :: "raptor \<Rightarrow> nat \<Rightarrow> int" where
  "get_lb c i = int (lb c ! i)"

definition lb_reachable :: "raptor \<Rightarrow> nat \<Rightarrow> bool" where
  "lb_reachable c i \<longleftrightarrow> lb c ! i \<noteq> kUnreachable"

definition via_stays :: "raptor \<Rightarrow> nat \<Rightarrow> int" where
  "via_stays c l = fold (\<lambda>w stays. if is_via c ! w ! l then i32 (stays + via_stay (via_stops c ! w)) else stays)
     [0..<vias c] 0"

definition within_bounds :: "raptor \<Rightarrow> nat \<Rightarrow> nat \<Rightarrow> int \<Rightarrow> nat \<Rightarrow> raptor_state \<Rightarrow> bool" where
  "within_bounds c k l t v s \<longleftrightarrow>
     bounds_last_k s = 0 \<or>
     (let row = bounds s ! (bounds_last_k s - k); slot = vias c - v;
          transfer = dir (search_dir c)
            (adjusted_transfer_time i32 (tts c) (transfer_time (r_tt c) ! l))
      in is_better_or_eq (search_dir c) t (at2 row l slot + transfer + dir (search_dir c) (via_stays c l)))"

text \<open>Via states \<open>[first, last]\<close> at a stop reached with \<open>v\<close> vias.\<close>

definition next_via_states :: "raptor \<Rightarrow> nat \<Rightarrow> nat \<Rightarrow> nat \<times> nat" where
  "next_via_states c l v =
     (let via = (v < vias c \<and> is_via c ! v ! l);
          last = (if via then v + 1 else v);
          first = (if via \<and> via_stay (via_stops c ! v) = 0 then last else v)
      in (first, last))"

definition via_states :: "raptor \<Rightarrow> nat \<Rightarrow> nat \<Rightarrow> nat list" where
  "via_states c l v = [fst (next_via_states c l v)..<Suc (snd (next_via_states c l v))]"

definition via_stay_time :: "raptor \<Rightarrow> nat \<Rightarrow> nat \<Rightarrow> int" where
  "via_stay_time c v target_v = (if target_v = v then 0 else via_stay (via_stops c ! v))"

definition is_intermodal_dest :: "raptor \<Rightarrow> bool" where
  "is_intermodal_dest c \<longleftrightarrow> dist_to_end c \<noteq> []"

section \<open>Times of a ride\<close>

record transport_times =
  tim_first_dep :: int
  tim_offsets :: nat

definition to_delta :: "raptor \<Rightarrow> nat \<Rightarrow> int \<Rightarrow> int" where
  "to_delta c d m = clamp ((int d - int (base c)) * 1440 + m)"

definition get_transport_times :: "raptor \<Rightarrow> nat \<Rightarrow> transport \<Rightarrow> transport_times" where
  "get_transport_times c r t =
     (let rt = tt_route_times (r_tt c) ! r;
          pattern = (if rt_n_patterns rt = 1 then 0 else transport_pattern (r_tt c) ! t_idx t)
      in \<lparr>tim_first_dep = to_delta c (t_day t) (delta_count (transport_first_dep (r_tt c) ! t_idx t)),
          tim_offsets = rt_pattern_start rt + pattern\<rparr>)"

definition get_time :: "raptor \<Rightarrow> nat \<Rightarrow> transport_times \<Rightarrow> nat \<Rightarrow> event_type \<Rightarrow> int" where
  "get_time c r tims stop_idx ev_type =
     clamp (tim_first_dep tims + delta_count (pattern_offsets (r_tt c) !
       (tim_offsets tims + event_idx stop_idx ev_type * rt_n_patterns (tt_route_times (r_tt c) ! r))))"

definition rt_time_at_stop :: "raptor \<Rightarrow> nat \<Rightarrow> nat \<Rightarrow> event_type \<Rightarrow> int" where
  "rt_time_at_stop c rt_t stop_idx ev_type =
     to_delta c (base_day_idx (r_rtt c)) (rt_event_time (r_rtt c) rt_t stop_idx ev_type)"

definition to_unix :: "raptor \<Rightarrow> int \<Rightarrow> int" where
  "to_unix c t = delta_to_unix (base_days c) t"

definition split :: "raptor \<Rightarrow> int \<Rightarrow> nat \<times> int" where
  "split c x = split_day_mam (base c) x"

definition r_is_transport_active :: "raptor \<Rightarrow> nat \<Rightarrow> nat \<Rightarrow> bool" where
  "r_is_transport_active c t d =
     (if with_rt c then rtt_is_transport_active (r_tt c) (r_rtt c) t d else is_transport_active (r_tt c) t d)"

definition dep_event :: "raptor \<Rightarrow> event_type" where
  "dep_event c = (if search_dir c = Forward then Dep else Arr)"

definition arr_event :: "raptor \<Rightarrow> event_type" where
  "arr_event c = (if search_dir c = Forward then Arr else Dep)"

section \<open>The earliest transport\<close>

text \<open>\<open>seek_first_day\<close>: binary search for the first position whose time of day is not before the
  label's.\<close>

function seek_loop :: "(nat \<Rightarrow> bool) \<Rightarrow> nat \<Rightarrow> nat \<Rightarrow> nat" where
  "seek_loop earlier lo hi =
     (if lo < hi then
        let mid = lo + (hi - lo) div 2
        in if earlier mid then seek_loop earlier (mid + 1) hi else seek_loop earlier lo mid
      else lo)"
  by pat_completeness auto
termination
  by (relation "measure (\<lambda>(earlier, lo, hi). hi - lo)") auto

declare seek_loop.simps [simp del]

definition t_offset_at :: "raptor \<Rightarrow> nat \<Rightarrow> nat \<Rightarrow> nat" where
  "t_offset_at c n pos = (if search_dir c = Forward then pos else n - 1 - pos)"

definition seek_first_day :: "raptor \<Rightarrow> event_times \<Rightarrow> int \<Rightarrow> nat" where
  "seek_first_day c ev mam_at_stop =
     (let n = et_n_transports ev
      in seek_loop (\<lambda>pos. is_better (search_dir c) (mam (et_nth ev (t_offset_at c n pos))) mam_at_stop) 0 n)"

text \<open>One day: \<open>None\<close> if the loop over the positions ends without a \<open>return\<close>.\<close>

fun scan_day :: "raptor \<Rightarrow> nat \<Rightarrow> event_times \<Rightarrow> nat \<Rightarrow> nat \<Rightarrow> int \<Rightarrow> nat \<Rightarrow> int
    \<Rightarrow> nat list \<Rightarrow> transport option option" where
  "scan_day c l ev i d mam_at_stop n dest_time [] = None"
| "scan_day c l ev i d mam_at_stop n dest_time (pos # ps) =
     (let t_offset = t_offset_at c n pos; e = et_nth ev t_offset; ev_mam = mam e;
          t = et_transport ev t_offset;
          start_day = nat (u16 (int d - days e))
      in if \<not> is_better_or_eq (search_dir c) (to_delta c d ev_mam + dir (search_dir c) (get_lb c l)) dest_time
         then Some None
         else if i = 0 \<and> \<not> is_better_or_eq (search_dir c) mam_at_stop ev_mam
         then scan_day c l ev i d mam_at_stop n dest_time ps
         else if \<not> r_is_transport_active c t start_day
         then scan_day c l ev i d mam_at_stop n dest_time ps
         else Some (Some \<lparr>t_idx = t, t_day = start_day\<rparr>))"

fun scan_days :: "raptor \<Rightarrow> nat \<Rightarrow> nat \<Rightarrow> event_times \<Rightarrow> nat \<Rightarrow> int \<Rightarrow> int \<Rightarrow> nat list \<Rightarrow> transport option" where
  "scan_days c r l ev day_at_stop mam_at_stop dest_time [] = None"
| "scan_days c r l ev day_at_stop mam_at_stop dest_time (i # is) =
     (let n = et_n_transports ev;
          d = nat (u16 (if search_dir c = Forward then int day_at_stop + int i else int day_at_stop - int i))
      in if \<not> is_route_active (r_tt c) r d then scan_days c r l ev day_at_stop mam_at_stop dest_time is
         else
           let first = (if i = 0 then seek_first_day c ev mam_at_stop else 0)
           in case scan_day c l ev i d mam_at_stop n dest_time [first..<n] of
                Some res \<Rightarrow> res
              | None \<Rightarrow> scan_days c r l ev day_at_stop mam_at_stop dest_time is)"

definition n_days_to_iterate :: nat where
  "n_days_to_iterate = nat (kMaxTravelTime div 1440) + 1"

definition get_earliest_transport ::
    "raptor \<Rightarrow> nat \<Rightarrow> nat \<Rightarrow> nat \<Rightarrow> nat \<Rightarrow> int \<Rightarrow> nat \<Rightarrow> raptor_state \<Rightarrow> transport option" where
  "get_earliest_transport c k r stop_idx day_at_stop mam_at_stop l s =
     scan_days c r l (event_times_at_stop (r_tt c) r stop_idx (dep_event c)) day_at_stop mam_at_stop
       (time_at_dest s ! k) [0..<n_days_to_iterate]"

section \<open>An example\<close>

text \<open>A forward search for stop 2 of the example timetable, and arrays before anything is resized.\<close>

definition example_raptor :: raptor where
  "example_raptor = \<lparr>search_dir = Forward, with_rt = False, vias = 0, one_to_all = False,
     r_tt = example_timetable, r_rtt = example_rtt, has_rtt = False, is_dest = [False, False, True],
     is_via = [], dist_to_end = [], td_dist_to_end = (\<lambda>_. None), lb = [0, 0, 0], via_stops = [],
     base = 5, allowed_claszes = all_clasz_allowed, require_bike = False, require_car = False,
     is_wheelchair = False, no_compulsory_reservation = False,
     tts = \<lparr>tts_default = True, min_transfer_time = 0, additional_time = 0, tts_factor = \<lparr>mant = 1, expo = 0\<rparr>\<rparr>, prf_idx = 0\<rparr>"

definition empty_state :: raptor_state where
  "empty_state = \<lparr>tmp = [], best = [], round_times = [], bounds = [], station_mark = [], prev_station_mark = [],
     route_mark = [], rt_transport_mark = [], time_at_dest = [], bounds_last_k = 0,
     stats = \<lparr>n_footpaths_visited = 0, n_routes_visited = 0, n_earliest_trip_calls = 0, n_updated_by_route = 0,
        n_updated_by_footpath = 0, n_prevented_by_lower_bound = 0\<rparr>\<rparr>"

end
