(* ===== verification/Reconstruct.thy ===== *)
theory Reconstruct
  imports Frun Raptor
begin

text \<open>
  Journey reconstruction (\<open>src/routing/raptor/reconstruct.cc\<close>): from the destination of a journey back
  to its start, each round's label is explained by a walk and the ride before it. The number of vias
  still to be visited is the variable \<open>v\<close> all helpers share; it is threaded through here, and only a
  found ride changes it. \<^const>\<open>None\<close> in a result described as "throws" stands for an exception.
\<close>

section \<open>The parameters\<close>

record recon =
  rc_dir :: direction
  rc_tt :: timetable
  rc_rtt :: "rt_timetable option"
  rc_q :: query
  rc_times :: "int list list list"
  rc_base :: int
  rc_base_day_idx :: nat

abbreviation rc_fwd :: "recon \<Rightarrow> bool" where "rc_fwd rc \<equiv> rc_dir rc = Forward"
abbreviation rc_n_vias :: "recon \<Rightarrow> nat" where "rc_n_vias rc \<equiv> length (q_via_stops (rc_q rc))"

definition rc_wheelchair :: "recon \<Rightarrow> bool" where
  "rc_wheelchair rc \<longleftrightarrow> q_prf_idx (rc_q rc) = 2"

definition rc_arr :: "recon \<Rightarrow> event_type" where "rc_arr rc = (if rc_fwd rc then Arr else Dep)"
definition rc_dep :: "recon \<Rightarrow> event_type" where "rc_dep rc = (if rc_fwd rc then Dep else Arr)"

definition rc_unix :: "recon \<Rightarrow> int \<Rightarrow> int" where "rc_unix rc t = delta_to_unix (rc_base rc) t"
definition rc_delta :: "recon \<Rightarrow> int \<Rightarrow> int" where "rc_delta rc t = unix_to_delta (rc_base rc) t"

definition is_journey_start :: "timetable \<Rightarrow> query \<Rightarrow> nat \<Rightarrow> bool" where
  "is_journey_start tt q candidate_l \<longleftrightarrow>
     list_ex (\<lambda>o'. matches tt (q_start_match_mode q) (off_target o') candidate_l) (q_start q)"

text \<open>\<open>start_matches\<close>: a departure at a given time may be later than the label, one in an interval may
  not.\<close>

definition start_matches :: "recon \<Rightarrow> int \<Rightarrow> int \<Rightarrow> bool" where
  "start_matches rc a b =
     (case q_start_time (rc_q rc) of AtTime t \<Rightarrow> is_better_or_eq (rc_dir rc) a b | InInterval iv \<Rightarrow> a = b)"

definition is_via_at :: "timetable \<Rightarrow> query \<Rightarrow> nat \<Rightarrow> nat \<Rightarrow> bool" where
  "is_via_at tt q s l = matches tt kEquivalent (via_location (q_via_stops q ! s)) l"

fun first_some :: "('a \<Rightarrow> 'b option) \<Rightarrow> 'a list \<Rightarrow> 'b option" where
  "first_some f [] = None"
| "first_some f (x # xs) = (case f x of Some y \<Rightarrow> Some y | None \<Rightarrow> first_some f xs)"

section \<open>Where a ride was boarded\<close>

text \<open>\<open>finish_state\<close>: the vias visited by the finish stop, for each number visited when boarding at
  the current stop. A via without a stay is visited by riding through it.\<close>

definition ride_through :: "recon \<Rightarrow> nat \<Rightarrow> nat list \<Rightarrow> nat list" where
  "ride_through rc l finish_state =
     fold (\<lambda>s fs.
         if s < rc_n_vias rc \<and> via_stay (q_via_stops (rc_q rc) ! s) = 0 \<and> is_via_at (rc_tt rc) (rc_q rc) s l
         then fs[s := fs ! (s + 1)] else fs)
       [0..<kMaxVias + 1] finish_state"

definition entry_fits :: "recon \<Rightarrow> nat \<Rightarrow> nat \<Rightarrow> int \<Rightarrow> nat \<Rightarrow> bool" where
  "entry_fits rc k l ev_time s \<longleftrightarrow>
     (let round_time = at3 (rc_times rc) (k - 1) l s
      in is_better_or_eq (rc_dir rc) round_time ev_time \<or>
         (k = 1 \<and> q_start_match_mode (rc_q rc) = kEquivalent \<and> is_journey_start (rc_tt rc) (rc_q rc) l \<and>
          start_matches rc round_time ev_time))"

definition violates_flags :: "recon \<Rightarrow> run \<Rightarrow> nat \<Rightarrow> bool list \<Rightarrow> bool" where
  "violates_flags rc fr stop_idx section_flags =
     list_ex (\<lambda>f. section_flags ! route_flag_idx f \<and>
         \<not> fr_is_flag_set (rc_tt rc) (rc_rtt rc) fr f stop_idx (rc_dep rc)) all_route_flags"

definition entry_allowed :: "recon \<Rightarrow> run \<Rightarrow> nat \<Rightarrow> bool" where
  "entry_allowed rc fr s =
     (if rc_fwd rc then fr_in_allowed (rc_tt rc) (rc_rtt rc) fr s (rc_wheelchair rc)
      else fr_out_allowed (rc_tt rc) (rc_rtt rc) fr s (rc_wheelchair rc))"

text \<open>\<open>fr\<close> is the completed run, \<open>r\<close> the one that the leg names; \<open>is\<close> are the distances to the finish
  stop still to be tried. The result holds the new \<open>v\<close>.\<close>

definition ride_leg :: "recon \<Rightarrow> run \<Rightarrow> run \<Rightarrow> nat \<Rightarrow> nat \<Rightarrow> int \<Rightarrow> leg" where
  "ride_leg rc r fr stop_idx finish ev_time =
     mk_leg (rc_dir rc) (get_location_idx (rc_tt rc) (rc_rtt rc) fr (fr_at fr stop_idx))
       (get_location_idx (rc_tt rc) (rc_rtt rc) fr (fr_at fr finish)) (rc_unix rc ev_time)
       (fr_time (rc_tt rc) (rc_rtt rc) fr (fr_at fr finish) (rc_arr rc)) (UsesRun (mk_run_enter_exit r stop_idx finish))"

fun scan_entries ::
    "recon \<Rightarrow> nat \<Rightarrow> run \<Rightarrow> run \<Rightarrow> nat \<Rightarrow> bool list \<Rightarrow> nat \<Rightarrow> nat list \<Rightarrow> nat list \<Rightarrow> (nat \<times> leg) option" where
  "scan_entries rc k r fr finish section_flags v finish_state [] = None"
| "scan_entries rc k r fr finish section_flags v finish_state (i # is) =
     (let stop_idx = nat (u16 (if rc_fwd rc then int finish - int i else int finish + int i));
          s = fr_at fr stop_idx; l = get_location_idx (rc_tt rc) (rc_rtt rc) fr s
      in if violates_flags rc fr s section_flags then None
         else if \<not> entry_allowed rc fr s
         then scan_entries rc k r fr finish section_flags v (ride_through rc l finish_state) is
         else
           let ev_time = rc_delta rc (fr_time (rc_tt rc) (rc_rtt rc) fr s (rc_dep rc))
           in case List.find (\<lambda>w. finish_state ! w = v \<and> entry_fits rc k l ev_time w) [0..<rc_n_vias rc + 1] of
                Some w \<Rightarrow> Some (w, ride_leg rc r fr stop_idx finish ev_time)
              | None \<Rightarrow> scan_entries rc k r fr finish section_flags v (ride_through rc l finish_state) is)"

definition find_start_in_prev_round ::
    "recon \<Rightarrow> nat \<Rightarrow> run \<Rightarrow> nat \<Rightarrow> bool list \<Rightarrow> nat \<Rightarrow> (nat \<times> leg) option" where
  "find_start_in_prev_round rc k r finish section_flags v =
     (let tt = rc_tt rc; rtt = rc_rtt rc; fr = frun rtt r;
          n_stops = (if rc_fwd rc then finish + 1 else fr_size tt rtt fr - finish);
          start = [0..<kMaxVias + 1];
          through = ride_through rc (get_location_idx tt rtt fr (fr_at fr finish)) start
      in case scan_entries rc k r fr finish section_flags v start [1..<n_stops] of
           Some x \<Rightarrow> Some x
         | None \<Rightarrow> if through = start then None
                   else scan_entries rc k r fr finish section_flags v through [1..<n_stops])"

section \<open>The ride that arrives at a stop\<close>

definition rc_transport_active :: "recon \<Rightarrow> nat \<Rightarrow> nat \<Rightarrow> bool" where
  "rc_transport_active rc t d =
     (case rc_rtt rc of Some rtt \<Rightarrow> rtt_is_transport_active (rc_tt rc) rtt t d | None \<Rightarrow> is_transport_active (rc_tt rc) t d)"

definition kTdMaxDayShift :: nat where
  "kTdMaxDayShift = nat (kMaxTravelTime div 1440 + 1)"

text \<open>The run of transport \<open>t\<close> that is at the stop at \<open>time\<close>; after a time-dependent footpath the wait may
  span midnight, so runs of up to five other days are tried.\<close>

definition route_candidate :: "recon \<Rightarrow> int \<Rightarrow> nat \<Rightarrow> bool \<Rightarrow> nat \<Rightarrow> (transport \<times> int) option" where
  "route_candidate rc time stop_idx is_td t =
     (case split_day_mam (rc_base_day_idx rc) time of (d, m) \<Rightarrow>
        let event_mam = event_mam (rc_tt rc) t stop_idx (rc_arr rc);
            traffic_day = int d - cdiv (delta_count event_mam) 1440;
            tr = (\<lambda>i. \<lparr>t_idx = t, t_day = nat (u16 (traffic_day - i))\<rparr>);
            ev_time = (\<lambda>i. event_time (rc_tt rc) (tr i) stop_idx (rc_arr rc))
        in if \<not> is_td \<and> cmod (delta_count event_mam) 1440 \<noteq> m then None
           else if is_td
           then map_option (\<lambda>i. (tr (dir (rc_dir rc) (int i)), ev_time (dir (rc_dir rc) (int i))))
                  (List.find (\<lambda>i. rc_transport_active rc t (t_day (tr (dir (rc_dir rc) (int i)))) \<and>
                      is_better_or_eq (rc_dir rc) (ev_time (dir (rc_dir rc) (int i))) (rc_unix rc time)) [0..<kTdMaxDayShift])
           else if rc_transport_active rc t (t_day (tr 0)) then Some (tr 0, ev_time 0) else None)"

definition get_route_transport ::
    "recon \<Rightarrow> nat \<Rightarrow> int \<Rightarrow> nat \<Rightarrow> nat \<Rightarrow> bool list \<Rightarrow> bool \<Rightarrow> nat \<Rightarrow> (nat \<times> leg) option" where
  "get_route_transport rc k time r stop_idx section_flags is_td v =
     first_some (\<lambda>t. case route_candidate rc time stop_idx is_td t of
         None \<Rightarrow> None
       | Some (tr, ev_time) \<Rightarrow>
           find_start_in_prev_round rc k
             \<lparr>run_t = Some tr, run_stop_range = mk_iv 0 (length (route_location_seq (rc_tt rc) ! r) mod 2 ^ 16), run_rt = None\<rparr>
             stop_idx section_flags v)
       (iv_list (route_transport_ranges (rc_tt rc) ! r))"

text \<open>The flags the query requires: \<^const>\<open>None\<close> when the route has one on no section; a flag on some
  sections only has to be checked section by section.\<close>

definition rc_required_flags :: "recon \<Rightarrow> route_flag list" where
  "rc_required_flags rc =
     (if q_require_bike_transport (rc_q rc) then [kBikesAllowed] else []) @
     (if q_require_car_transport (rc_q rc) then [kCarsAllowed] else []) @
     (if rc_wheelchair rc then [kWheelchairAccessible] else []) @
     (if q_no_compulsory_reservation (rc_q rc) then [kReservationNotRequired] else [])"

fun flag_sections :: "bool list list \<Rightarrow> nat \<Rightarrow> route_flag list \<Rightarrow> bool list \<Rightarrow> bool list option" where
  "flag_sections flags r [] section_flags = Some section_flags"
| "flag_sections flags r (f # fs) section_flags =
     (if flags ! route_flag_idx f ! (r * 2) then flag_sections flags r fs section_flags
      else if \<not> flags ! route_flag_idx f ! (r * 2 + 1) then None
      else flag_sections flags r fs (section_flags[route_flag_idx f := True]))"

text \<open>Whether the ride can be left at stop \<open>i\<close> of the sequence.\<close>

definition exit_at :: "recon \<Rightarrow> nat \<Rightarrow> nat list \<Rightarrow> nat \<Rightarrow> bool" where
  "exit_at rc l location_seq i \<longleftrightarrow>
     (let stp = stop_of_value (location_seq ! i)
      in stop_loc stp = l \<and>
         (if rc_fwd rc
          then i \<noteq> 0 \<and> (if rc_wheelchair rc then stop_out_wheelchair stp else stop_out stp)
          else int i \<noteq> int (length location_seq) - 1 \<and> (if rc_wheelchair rc then stop_in_wheelchair stp else stop_in stp)))"

definition get_rt_transport :: "recon \<Rightarrow> rt_timetable \<Rightarrow> nat \<Rightarrow> nat \<Rightarrow> int \<Rightarrow> nat \<Rightarrow> nat \<Rightarrow> (nat \<times> leg) option" where
  "get_rt_transport rc rtt k l time v rt_t =
     (if \<not> is_allowed (q_allowed_claszes (rc_q rc)) (rt_section_clasz rtt ! rt_t ! 0) then None
      else case flag_sections (rt_transport_flags rtt) rt_t (rc_required_flags rc) (replicate 4 False) of
        None \<Rightarrow> None
      | Some section_flags \<Rightarrow>
          let seq = rt_location_seq rtt ! rt_t; fr = from_rt rtt rt_t
          in first_some (\<lambda>i.
               if \<not> exit_at rc l seq i \<or>
                  \<not> is_better_or_eq (rc_dir rc)
                      (fr_time (rc_tt rc) (rc_rtt rc) fr (fr_at fr (i mod 2 ^ 16)) (rc_arr rc)) (rc_unix rc time)
               then None
               else find_start_in_prev_round rc k fr (i mod 2 ^ 16) section_flags v) [0..<length seq])"

definition get_static_transport :: "recon \<Rightarrow> nat \<Rightarrow> nat \<Rightarrow> int \<Rightarrow> bool \<Rightarrow> nat \<Rightarrow> nat \<Rightarrow> (nat \<times> leg) option" where
  "get_static_transport rc k l time is_td v r =
     (if \<not> is_allowed (q_allowed_claszes (rc_q rc)) (route_clasz (rc_tt rc) ! r) then None
      else case flag_sections (route_flags (rc_tt rc)) r (rc_required_flags rc) (replicate 4 False) of
        None \<Rightarrow> None
      | Some section_flags \<Rightarrow>
          let seq = route_location_seq (rc_tt rc) ! r
          in first_some (\<lambda>i.
               if \<not> exit_at rc l seq i then None
               else get_route_transport rc k time r (i mod 2 ^ 16) section_flags is_td v) [0..<length seq])"

definition get_transport :: "recon \<Rightarrow> nat \<Rightarrow> nat \<Rightarrow> int \<Rightarrow> bool \<Rightarrow> nat \<Rightarrow> (nat \<times> leg) option" where
  "get_transport rc k l time is_td v =
     (case (case rc_rtt rc of
              None \<Rightarrow> None
            | Some rtt \<Rightarrow> first_some (get_rt_transport rc rtt k l time v) (location_rt_transports rtt ! l)) of
        Some x \<Rightarrow> Some x
      | None \<Rightarrow> first_some (get_static_transport rc k l time is_td v) (location_routes (rc_tt rc) ! l))"

section \<open>The walk after it\<close>

text \<open>The vias counted at the two ends of the walk: the new \<open>v\<close>, the stay at the end and the stay at
  the start of the walk; \<^const>\<open>None\<close> when there is nothing to count.\<close>

definition count_fp_vias :: "recon \<Rightarrow> nat \<Rightarrow> nat \<Rightarrow> nat \<Rightarrow> (nat \<times> int \<times> int) option" where
  "count_fp_vias rc l target v =
     (let tt = rc_tt rc; q = rc_q rc;
          at_l = (v \<noteq> 0 \<and> is_via_at tt q (v - 1) l);
          w = (if at_l then v - 1 else v);
          stay = (if at_l then via_stay (q_via_stops q ! w) else 0);
          same = matches tt kEquivalent l target;
          stay_l = (if same then 0 else stay);
          stay_target = (if same then stay else 0);
          at_target = (w \<noteq> 0 \<and> is_via_at tt q (w - 1) target)
      in if at_target then Some (w - 1, stay_l, via_stay (q_via_stops q ! (w - 1)))
         else if at_l then Some (w, stay_l, stay_target)
         else None)"

text \<open>The leg keeps the footpath as it is stored; its times use the adjusted duration.\<close>

definition fp_attempt ::
    "recon \<Rightarrow> nat \<Rightarrow> nat \<Rightarrow> int \<Rightarrow> footpath \<Rightarrow> int \<Rightarrow> bool \<Rightarrow> nat \<times> int \<times> int \<Rightarrow> (nat \<times> leg \<times> leg) option" where
  "fp_attempt rc k l curr_time fp dur is_td = (\<lambda>(v, stay_l, stay_target).
     let fp_start = i16 (curr_time - dir (rc_dir rc) (dur + stay_l));
         stay_start = i16 (curr_time - dir (rc_dir rc) (dur + stay_l + stay_target))
     in case get_transport rc k (fp_target fp) stay_start is_td v of
          None \<Rightarrow> None
        | Some (v', transport_leg) \<Rightarrow>
            Some (v', mk_leg (rc_dir rc) (fp_target fp) l (rc_unix rc fp_start)
                    (rc_unix rc (i16 (fp_start + dir (rc_dir rc) dur))) (UsesFootpath fp), transport_leg))"

definition check_fp ::
    "recon \<Rightarrow> nat \<Rightarrow> nat \<Rightarrow> int \<Rightarrow> footpath \<Rightarrow> bool \<Rightarrow> bool \<Rightarrow> nat \<Rightarrow> (nat \<times> leg \<times> leg) option" where
  "check_fp rc k l curr_time fp adjust_transfer_time is_td v =
     (let dur = (if adjust_transfer_time
            then adjusted_transfer_time i16 (q_transfer_time_settings (rc_q rc)) (fp_duration fp) else fp_duration fp);
          attempt = fp_attempt rc k l curr_time fp dur is_td
      in case (case count_fp_vias rc l (fp_target fp) v of None \<Rightarrow> None | Some c \<Rightarrow> attempt c) of
           Some x \<Rightarrow> Some x
         | None \<Rightarrow> attempt (v, 0, 0))"

section \<open>The last legs of a round\<close>

text \<open>The searches below throw where a footpath cannot be built: the outer \<^const>\<open>None\<close>. The loop over
  the locations that stand for the destination goes on after a match, with the \<open>v\<close> it left.\<close>

definition find_dest_leg ::
    "recon \<Rightarrow> nat \<Rightarrow> nat \<Rightarrow> offset \<Rightarrow> bool \<Rightarrow> nat \<Rightarrow> (nat \<times> (leg \<times> leg) option) option" where
  "find_dest_leg rc k l dest_offset is_td v =
     (if kMaxDuration \<le> off_duration dest_offset then Some (v, None)
      else
        let curr_time = at3 (rc_times rc) k l v
        in fold (\<lambda>eq acc. case acc of None \<Rightarrow> None
             | Some (v, ret) \<Rightarrow>
                 (case mk_footpath eq (off_duration dest_offset) of None \<Rightarrow> None
                  | Some fp \<Rightarrow>
                      (case check_fp rc k l curr_time fp False is_td v of
                         None \<Rightarrow> Some (v, ret)
                       | Some (v', fp_leg, transport_leg) \<Rightarrow>
                           Some (v', Some (fp_leg\<lparr>leg_uses := UsesOffset (dest_offset\<lparr>off_target := eq\<rparr>)\<rparr>, transport_leg)))))
             (for_each_meta (rc_tt rc) kIntermodal (off_target dest_offset)) (Some (v, None)))"

fun try_all :: "('a \<Rightarrow> nat \<Rightarrow> (nat \<times> 'b option) option) \<Rightarrow> 'a list \<Rightarrow> nat \<Rightarrow> (nat \<times> 'b option) option" where
  "try_all f [] v = Some (v, None)"
| "try_all f (x # xs) v =
     (case f x v of
        None \<Rightarrow> None
      | Some (v', Some y) \<Rightarrow> Some (v', Some y)
      | Some (v', None) \<Rightarrow> try_all f xs v')"

text \<open>The legs to an intermodal destination; \<open>q_td_dest\<close> is a hash map, whose order of iteration is the
  order of the list. \<^const>\<open>None\<close>: throws, also when nothing is found.\<close>

definition intermodal_dest_legs :: "recon \<Rightarrow> nat \<Rightarrow> nat \<Rightarrow> nat \<Rightarrow> (nat \<times> leg \<times> leg) option" where
  "intermodal_dest_legs rc k l v =
     (let q = rc_q rc; curr_time = at3 (rc_times rc) k l v;
          td_leg = (\<lambda>(place, td) v.
            case get_td_duration (flip (rc_dir rc)) td (rc_unix rc curr_time) of
              None \<Rightarrow> Some (v, None)
            | Some (d, td_fp) \<Rightarrow>
                find_dest_leg rc k l \<lparr>off_target = place, off_duration = d, off_mode = transport_mode td_fp,
                  off_payload = transport_mode_payload td_fp\<rparr> True v)
      in case try_all (\<lambda>o' v. find_dest_leg rc k l o' False v) (q_destination q) v of
           None \<Rightarrow> None
         | Some (v', Some legs) \<Rightarrow> Some (v', legs)
         | Some (v', None) \<Rightarrow>
             (case try_all td_leg (q_td_dest q) v' of
                None \<Rightarrow> None
              | Some (v'', Some legs) \<Rightarrow> Some (v'', legs)
              | Some (v'', None) \<Rightarrow> None))"

definition rc_has_td :: "recon \<Rightarrow> bool \<Rightarrow> nat \<Rightarrow> bool" where
  "rc_has_td rc out x =
     (case rc_rtt rc of
        None \<Rightarrow> False
      | Some rtt \<Rightarrow> has_profile_td_footpaths (q_prf_idx (rc_q rc)) \<and>
          (if out then has_td_footpaths_out rtt else has_td_footpaths_in rtt) ! q_prf_idx (rc_q rc) ! x)"

definition static_fp_legs :: "recon \<Rightarrow> nat \<Rightarrow> nat \<Rightarrow> int \<Rightarrow> nat \<Rightarrow> (nat \<times> leg \<times> leg) option" where
  "static_fp_legs rc k l curr_time v =
     (if rc_fwd rc \<or> \<not> rc_has_td rc True l
      then first_some (\<lambda>fp. if rc_fwd rc \<and> rc_has_td rc True (fp_target fp) then None
                            else check_fp rc k l curr_time fp True False v)
             ((if rc_fwd rc then footpaths_in (rc_tt rc) else footpaths_out (rc_tt rc)) ! q_prf_idx (rc_q rc) ! l)
      else None)"

text \<open>\<open>for_each_footpath\<close> does not look at what its callback returns, so the loop goes on after a match
  here as well.\<close>

definition td_fp_legs :: "recon \<Rightarrow> nat \<Rightarrow> nat \<Rightarrow> int \<Rightarrow> nat \<Rightarrow> (nat \<times> (leg \<times> leg) option) option" where
  "td_fp_legs rc k l curr_time v =
     (case rc_rtt rc of
        None \<Rightarrow> Some (v, None)
      | Some rtt \<Rightarrow>
          if \<not> rc_has_td rc (\<not> rc_fwd rc) l then Some (v, None)
          else fold (\<lambda>(target, duration, walk_time) acc. case acc of None \<Rightarrow> None
               | Some (v, legs) \<Rightarrow>
                   if kMaxDuration \<le> duration then Some (v, legs)
                   else (case mk_footpath target duration of None \<Rightarrow> None
                     | Some fp \<Rightarrow>
                         (case check_fp rc k l curr_time fp False True v of
                            None \<Rightarrow> Some (v, legs)
                          | Some (v', found) \<Rightarrow> Some (v', Some found))))
               (for_each_footpath (flip (rc_dir rc))
                  ((if rc_fwd rc then td_footpaths_in rtt else td_footpaths_out rtt) ! q_prf_idx (rc_q rc) ! l)
                  (rc_unix rc curr_time)) (Some (v, None)))"

text \<open>\<open>last_k\<close> is the round of the journey's last ride.\<close>

definition get_legs :: "recon \<Rightarrow> nat \<Rightarrow> nat \<Rightarrow> nat \<Rightarrow> nat \<Rightarrow> (nat \<times> leg \<times> leg) option" where
  "get_legs rc last_k k l v =
     (let q = rc_q rc; curr_time = at3 (rc_times rc) k l v
      in if q_dest_match_mode q = kIntermodal \<and> k = last_k then intermodal_dest_legs rc k l v
         else case mk_footpath l (if k = last_k then 0
                else adjusted_transfer_time u8 (q_transfer_time_settings q) (transfer_time (rc_tt rc) ! l)) of
           None \<Rightarrow> None
         | Some same_stop \<Rightarrow>
             (case check_fp rc k l curr_time same_stop False False v of
                Some x \<Rightarrow> Some x
              | None \<Rightarrow>
                  (case static_fp_legs rc k l curr_time v of
                     Some x \<Rightarrow> Some x
                   | None \<Rightarrow>
                       (case td_fp_legs rc k l curr_time v of
                          Some (v', Some legs) \<Rightarrow> Some (v', legs)
                        | _ \<Rightarrow> None))))"

section \<open>The start of the journey\<close>

definition kStartStation :: nat where "kStartStation = 0"

text \<open>\<open>last_leg\<close> is the leg added last, the ride of the first round. \<^const>\<open>None\<close>: throws;
  \<^term>\<open>Some None\<close>: the ride begins at a start.\<close>

definition start_offset_leg :: "recon \<Rightarrow> int \<Rightarrow> nat \<Rightarrow> int \<Rightarrow> leg option" where
  "start_offset_leg rc j_start l leg_start_time =
     (let q = rc_q rc; d = rc_dir rc;
          leg_of = (\<lambda>o'. mk_leg d kStartStation l (leg_start_time - dir d (off_duration o')) leg_start_time (UsesOffset o'))
      in case List.find (\<lambda>o'. matches (rc_tt rc) (q_start_match_mode q) (off_target o') l \<and>
              is_better_or_eq d j_start (leg_start_time - dir d (off_duration o'))) (q_start q) of
           Some o' \<Rightarrow> Some (leg_of o')
         | None \<Rightarrow>
             (case map_of (q_td_start q) l of
                None \<Rightarrow> None
              | Some td \<Rightarrow>
                  (case get_td_duration (flip d) td leg_start_time of
                     None \<Rightarrow> None
                   | Some (t, td_fp) \<Rightarrow>
                       if is_better_or_eq d j_start (leg_start_time - dir d t)
                       then Some (leg_of \<lparr>off_target = l, off_duration = t, off_mode = transport_mode td_fp,
                         off_payload = transport_mode_payload td_fp\<rparr>)
                       else None)))"

definition start_footpath_leg :: "recon \<Rightarrow> int \<Rightarrow> nat \<Rightarrow> nat \<Rightarrow> bool \<Rightarrow> int \<Rightarrow> leg option" where
  "start_footpath_leg rc j_start l v is_start_via start_via_stay =
     (let q = rc_q rc; d = rc_dir rc; tt = rc_tt rc;
          j_start_time = rc_delta rc j_start;
          fp_target_time = at3 (rc_times rc) 0 l v;
          fp_arrival_time = i16 (fp_target_time - dir d start_via_stay);
          dur = (\<lambda>fp. adjusted_transfer_time i16 (q_transfer_time_settings q) (fp_duration fp));
          stay = (\<lambda>fp. if v \<noteq> 0 \<and> \<not> is_start_via \<and> is_via_at tt q 0 (fp_target fp)
                       then via_stay (q_via_stops q ! 0) else 0)
      in case List.find (\<lambda>fp. is_journey_start tt q (fp_target fp) \<and> fp_target_time \<noteq> kInvalidDelta d \<and>
                start_matches rc (i16 (j_start_time + dir d (stay fp + dur fp))) fp_arrival_time)
             ((if rc_fwd rc then footpaths_in tt else footpaths_out tt) ! q_prf_idx q ! l) of
           None \<Rightarrow> None
         | Some fp \<Rightarrow>
             map_option (\<lambda>fp'. mk_leg d (fp_target fp) l (j_start + dir d (stay fp)) (rc_unix rc fp_arrival_time) (UsesFootpath fp'))
               (mk_footpath (fp_target fp) (dur fp)))"

definition find_start_footpath :: "recon \<Rightarrow> int \<Rightarrow> leg \<Rightarrow> nat \<Rightarrow> leg option option" where
  "find_start_footpath rc j_start last_leg v =
     (let q = rc_q rc; d = rc_dir rc;
          l = (if rc_fwd rc then leg_from last_leg else leg_to last_leg);
          is_start_via = (v \<noteq> 0 \<and> is_via_at (rc_tt rc) q 0 l);
          start_via_stay = (if is_start_via then via_stay (q_via_stops q ! 0) else 0);
          leg_start_time = (if rc_fwd rc then leg_dep_time last_leg else leg_arr_time last_leg) - dir d start_via_stay
      in if q_start_match_mode q \<noteq> kIntermodal \<and> is_journey_start (rc_tt rc) q l \<and> is_better_or_eq d j_start leg_start_time
         then Some None
         else if q_start_match_mode q = kIntermodal
         then map_option Some (start_offset_leg rc j_start l leg_start_time)
         else map_option Some (start_footpath_leg rc j_start l v is_start_via start_via_stay))"

section \<open>The legs of a journey\<close>

text \<open>The result: whether it threw, the number of vias left and the legs so far.\<close>

fun rc_rounds :: "recon \<Rightarrow> nat \<Rightarrow> nat list \<Rightarrow> nat \<Rightarrow> nat \<Rightarrow> leg list \<Rightarrow> bool \<times> nat \<times> leg list" where
  "rc_rounds rc last_k [] l v legs = (False, v, legs)"
| "rc_rounds rc last_k (k # ks) l v legs =
     (case get_legs rc last_k k l v of
        None \<Rightarrow> (True, v, legs)
      | Some (v', fp_leg, transport_leg) \<Rightarrow>
          rc_rounds rc last_k ks (if rc_fwd rc then leg_from transport_leg else leg_to transport_leg) v'
            (legs @ (if k \<noteq> last_k \<or> leg_from fp_leg \<noteq> leg_to fp_leg \<or> leg_dep_time fp_leg \<noteq> leg_arr_time fp_leg
                     then [fp_leg] else []) @ [transport_leg]))"

definition raw_legs :: "recon \<Rightarrow> journey \<Rightarrow> bool \<times> leg list" where
  "raw_legs rc j =
     (let last_k = j_transfers j + 1
      in case rc_rounds rc last_k (rev [1..<last_k + 1]) (j_dest j) (rc_n_vias rc) (j_legs j) of
           (True, v, legs) \<Rightarrow> (True, legs)
         | (False, v, legs) \<Rightarrow>
             (case find_start_footpath rc (j_start_time j) (last legs) v of
                None \<Rightarrow> (True, legs)
              | Some None \<Rightarrow> (False, legs)
              | Some (Some leg) \<Rightarrow> (False, legs @ [leg])))"

end
