(* ===== verification/Optimize.thy ===== *)
theory Optimize
  imports Reconstruct
begin

text \<open>
  The last passes over a reconstructed journey: \<open>optimize_footpaths.cc\<close>, \<open>specify_td_offsets.cc\<close> and
  the end of \<open>reconstruct.cc\<close>. Each pass maps the legs, in the order of travel, to the legs it leaves;
  \<^const>\<open>None\<close> is an exception (a footpath that cannot be built), after which the legs of the failed
  pass are not kept: the journey is marked as erroneous.
\<close>

section \<open>Where the vias are visited\<close>

record via_counts =
  vc_before :: "nat list"
  vc_stay :: "int list"
  vc_v :: nat

text \<open>\<open>is_via\<close> for the next via to visit.\<close>

definition next_via_at :: "timetable \<Rightarrow> query \<Rightarrow> nat \<Rightarrow> nat \<Rightarrow> bool" where
  "next_via_at tt q v l \<longleftrightarrow> v \<noteq> length (q_via_stops q) \<and> is_via_at tt q v l"

text \<open>\<open>count_walk\<close> between the times \<open>a\<close> and \<open>b\<close>: the vias at the two ends, each only if its stay fits.\<close>

fun count_walk :: "timetable \<Rightarrow> query \<Rightarrow> leg \<Rightarrow> nat \<Rightarrow> int \<Rightarrow> int \<Rightarrow> nat list \<Rightarrow> int \<Rightarrow> via_counts \<Rightarrow> via_counts" where
  "count_walk tt q leg i a b [] walk_time c = c"
| "count_walk tt q leg i a b (l # ls) walk_time c =
     (let here = next_via_at tt q (vc_v c) l;
          stay = (if here then via_stay (q_via_stops q ! vc_v c) else 0);
          fits = (here \<and> a + walk_time + stay \<le> b);
          c' = (if \<not> fits then c
                else c\<lparr>vc_stay := (if l = leg_from leg then (vc_stay c)[i := i16 (vc_stay c ! i + stay)] else vc_stay c),
                       vc_v := vc_v c + 1\<rparr>)
      in if leg_from leg = leg_to leg then c'
         else count_walk tt q leg i a b ls (if fits then i16 (walk_time + stay) else walk_time) c')"

definition count_leg :: "timetable \<Rightarrow> rt_timetable option \<Rightarrow> query \<Rightarrow> leg list \<Rightarrow> nat \<Rightarrow> via_counts \<Rightarrow> via_counts" where
  "count_leg tt rtt q legs i c =
     (let leg = legs ! i; c = c\<lparr>vc_before := (vc_before c)[i := vc_v c]\<rparr>;
          a = (if i = 0 then leg_dep_time leg else leg_arr_time (legs ! (i - 1)));
          b = (if i + 1 = length legs then leg_arr_time leg else leg_dep_time (legs ! (i + 1)));
          walk_by = (\<lambda>d. count_walk tt q leg i a b [leg_from leg, leg_to leg] d c)
      in case leg_uses leg of
           UsesRun t \<Rightarrow>
             let fr = frun rtt (ree_run t)
             in fold (\<lambda>s c.
                  if vc_v c \<noteq> length (q_via_stops q) \<and> via_stay (q_via_stops q ! vc_v c) = 0 \<and>
                     next_via_at tt q (vc_v c) (get_location_idx tt rtt fr (fr_at fr s))
                  then c\<lparr>vc_v := vc_v c + 1\<rparr> else c) (iv_list (ree_stop_range t)) c
         | UsesFootpath fp \<Rightarrow> walk_by (adjusted_transfer_time i16 (q_transfer_time_settings q) (fp_duration fp))
         | UsesOffset o' \<Rightarrow> walk_by (off_duration o'))"

definition count_vias :: "timetable \<Rightarrow> rt_timetable option \<Rightarrow> query \<Rightarrow> leg list \<Rightarrow> via_counts" where
  "count_vias tt rtt q legs =
     (let c = \<lparr>vc_before = replicate (length legs) 0, vc_stay = replicate (length legs) 0, vc_v = 0\<rparr>
      in if q_via_stops q = [] then c else fold (count_leg tt rtt q legs) [0..<length legs] c)"

section \<open>Walks of a backward search\<close>

text \<open>\<open>opt_has_td\<close> is the test of a bit of \<open>has_td_footpaths_out_\<close> or \<open>has_td_footpaths_in_\<close>.\<close>

definition opt_has_td :: "rt_timetable option \<Rightarrow> query \<Rightarrow> bool \<Rightarrow> nat \<Rightarrow> bool" where
  "opt_has_td rtt q out x =
     (case rtt of
        None \<Rightarrow> False
      | Some rtt \<Rightarrow> has_profile_td_footpaths (q_prf_idx q) \<and>
          (if out then has_td_footpaths_out rtt else has_td_footpaths_in rtt) ! q_prf_idx q ! x)"

text \<open>The earliest walk after \<open>t\<close> that is there in time: departure and walking time, of the last entry
  that fits.\<close>

definition earliest_walk :: "rt_timetable \<Rightarrow> query \<Rightarrow> leg \<Rightarrow> int \<Rightarrow> (int \<times> int) option" where
  "earliest_walk rtt q leg t =
     fold (\<lambda>(target, duration, walk_time) earliest.
         if target = leg_to leg \<and> t + duration \<le> leg_arr_time leg then Some (t + duration - walk_time, walk_time) else earliest)
       (for_each_footpath Forward (td_footpaths_out rtt ! q_prf_idx q ! leg_from leg) t) None"

definition move_walk :: "rt_timetable option \<Rightarrow> query \<Rightarrow> via_counts \<Rightarrow> nat \<Rightarrow> leg list \<Rightarrow> leg list option" where
  "move_walk rtt q c i legs =
     (let leg = legs ! i; t = leg_arr_time (legs ! (i - 1)) + vc_stay c ! i; diff = leg_dep_time leg - t
      in case leg_uses leg of
           UsesFootpath fp \<Rightarrow>
             if 0 < diff \<and> leg_from leg \<noteq> leg_to leg \<and> opt_has_td rtt q True (leg_from leg)
             then (case earliest_walk (the rtt) q leg t of
                     None \<Rightarrow> Some legs
                   | Some (dep, walk_time) \<Rightarrow>
                       map_option (\<lambda>fp'. legs[i := leg\<lparr>leg_dep_time := dep, leg_arr_time := dep + walk_time, leg_uses := UsesFootpath fp'\<rparr>])
                         (mk_footpath (leg_to leg) walk_time))
             else Some (legs[i := leg\<lparr>leg_dep_time := leg_dep_time leg - diff, leg_arr_time := leg_arr_time leg - diff\<rparr>])
         | _ \<Rightarrow> Some legs)"

definition move_walks :: "timetable \<Rightarrow> rt_timetable option \<Rightarrow> query \<Rightarrow> leg list \<Rightarrow> leg list option" where
  "move_walks tt rtt q legs =
     (let c = count_vias tt rtt q legs
      in fold (\<lambda>i acc. case acc of None \<Rightarrow> None | Some legs \<Rightarrow> move_walk rtt q c i legs) [1..<length legs] (Some legs))"

section \<open>The first ride\<close>

text \<open>\<open>board_at\<close> and \<open>alight_at\<close> move the ends of a ride.\<close>

definition ride_of :: "leg \<Rightarrow> run_enter_exit" where
  "ride_of leg = (case leg_uses leg of UsesRun ree \<Rightarrow> ree | _ \<Rightarrow> undefined)"

definition is_ride :: "leg \<Rightarrow> bool" where
  "is_ride leg = (case leg_uses leg of UsesRun ree \<Rightarrow> True | _ \<Rightarrow> False)"

definition board_at :: "nat \<Rightarrow> int \<Rightarrow> nat \<Rightarrow> leg \<Rightarrow> leg" where
  "board_at l dep s leg =
     (let ree = ride_of leg
      in leg\<lparr>leg_from := l, leg_dep_time := dep, leg_uses := UsesRun (ree\<lparr>ree_stop_range := (ree_stop_range ree)\<lparr>ifrom := s\<rparr>\<rparr>)\<rparr>)"

definition alight_at :: "nat \<Rightarrow> int \<Rightarrow> nat \<Rightarrow> leg \<Rightarrow> leg" where
  "alight_at l arr s leg =
     (let ree = ride_of leg
      in leg\<lparr>leg_to := l, leg_arr_time := arr,
             leg_uses := UsesRun (ree\<lparr>ree_stop_range := (ree_stop_range ree)\<lparr>ito := (s + 1) mod 2 ^ 16\<rparr>\<rparr>)\<rparr>)"

text \<open>The stops before the one where the ride ends, up to the first stop of the first via.\<close>

definition stops_before_exit :: "timetable \<Rightarrow> rt_timetable option \<Rightarrow> query \<Rightarrow> run_enter_exit \<Rightarrow> nat list" where
  "stops_before_exit tt rtt q ree =
     (let fr = frun rtt (ree_run ree)
      in takeWhile (\<lambda>s. \<not> (q_via_stops q \<noteq> [] \<and>
             matches tt kEquivalent (get_location_idx tt rtt fr s) (via_location (q_via_stops q ! 0))))
           [0..<nat (u16 (int (ito (ree_stop_range ree)) - 1))])"

text \<open>One offset, one stop: the walk leg, the ride and the best duration so far.\<close>

definition offset_before ::
    "timetable \<Rightarrow> rt_timetable option \<Rightarrow> run \<Rightarrow> nat \<Rightarrow> offset \<Rightarrow> leg \<times> leg \<times> int \<Rightarrow> leg \<times> leg \<times> int" where
  "offset_before tt rtt fr s x = (\<lambda>(wl, rl, shortest).
     let l = get_location_idx tt rtt fr s; dep = fr_time tt rtt fr s Dep; start = dep - off_duration x
     in if shortest \<le> off_duration x \<or> \<not> matches tt kExact (off_target x) l \<or> \<not> leg_dep_time wl \<le> start
        then (wl, rl, shortest)
        else (wl\<lparr>leg_to := l, leg_dep_time := start, leg_arr_time := dep, leg_uses := UsesOffset x\<rparr>,
              board_at l dep s rl, off_duration x))"

definition optimize_initial_departure :: "timetable \<Rightarrow> rt_timetable option \<Rightarrow> query \<Rightarrow> leg list \<Rightarrow> leg list option" where
  "optimize_initial_departure tt rtt q legs =
     (case legs of
        wl # rl # ls \<Rightarrow>
          (case (leg_uses wl, leg_uses rl) of
             (UsesOffset o', UsesRun ree) \<Rightarrow>
               let fr = frun rtt (ree_run ree)
               in (case fold (\<lambda>s st. if \<not> fr_in_allowed tt rtt fr s False then st
                                     else fold (offset_before tt rtt fr s) (q_start q) st)
                     (stops_before_exit tt rtt q ree) (wl, rl, off_duration o') of
                   (wl', rl', shortest) \<Rightarrow> Some (wl' # rl' # ls))
           | _ \<Rightarrow> Some legs)
      | _ \<Rightarrow> Some legs)"

text \<open>The loop over the footpaths ends at the first one that leads to the stop.\<close>

definition footpath_before ::
    "timetable \<Rightarrow> rt_timetable option \<Rightarrow> query \<Rightarrow> run \<Rightarrow> footpath list \<Rightarrow> nat \<Rightarrow> leg \<times> leg \<times> int \<Rightarrow> (leg \<times> leg \<times> int) option" where
  "footpath_before tt rtt q fr fps s = (\<lambda>(wl, rl, shortest).
     let l = get_location_idx tt rtt fr s
     in if \<not> fr_in_allowed tt rtt fr s False then Some (wl, rl, shortest)
        else case List.find (\<lambda>fp. fp_target fp = l) fps of
          None \<Rightarrow> Some (wl, rl, shortest)
        | Some fp \<Rightarrow>
            let dur = adjusted_transfer_time i16 (q_transfer_time_settings q) (fp_duration fp);
                dep = fr_time tt rtt fr s Dep; start = dep - dur
            in if \<not> dur < shortest \<or> \<not> leg_dep_time wl \<le> start then Some (wl, rl, shortest)
               else map_option (\<lambda>fp'.
                 (wl\<lparr>leg_to := l, leg_dep_time := start, leg_arr_time := dep, leg_uses := UsesFootpath fp'\<rparr>,
                  board_at l dep s rl, dur)) (mk_footpath l dur))"

definition fold_stops :: "(nat \<Rightarrow> 'a \<Rightarrow> 'a option) \<Rightarrow> nat list \<Rightarrow> 'a \<Rightarrow> 'a option" where
  "fold_stops f ss x = fold (\<lambda>s acc. case acc of None \<Rightarrow> None | Some y \<Rightarrow> f s y) ss (Some x)"

definition optimize_initial_start_footpath :: "timetable \<Rightarrow> rt_timetable option \<Rightarrow> query \<Rightarrow> leg list \<Rightarrow> leg list option" where
  "optimize_initial_start_footpath tt rtt q legs =
     (case legs of
        wl # rl # ls \<Rightarrow>
          (case (leg_uses wl, leg_uses rl) of
             (UsesFootpath fp, UsesRun ree) \<Rightarrow>
               if opt_has_td rtt q True (leg_from wl) then Some legs
               else
                 map_option (\<lambda>(wl', rl', shortest). wl' # rl' # ls)
                   (fold_stops (footpath_before tt rtt q (frun rtt (ree_run ree)) (footpaths_out tt ! q_prf_idx q ! leg_from wl))
                     (stops_before_exit tt rtt q ree)
                     (wl, rl, adjusted_transfer_time i16 (q_transfer_time_settings q) (fp_duration fp)))
           | _ \<Rightarrow> Some legs)
      | _ \<Rightarrow> Some legs)"

section \<open>The last ride\<close>

text \<open>The stops after the one where the ride begins, from the last stop of the last via on.\<close>

definition stops_after_entry :: "timetable \<Rightarrow> rt_timetable option \<Rightarrow> query \<Rightarrow> run_enter_exit \<Rightarrow> nat list" where
  "stops_after_entry tt rtt q ree =
     (let fr = frun rtt (ree_run ree); n = fr_size tt rtt fr;
          first = (ifrom (ree_stop_range ree) + 1) mod 2 ^ 16;
          last_via = (if q_via_stops q = [] then None
            else List.find (\<lambda>i. matches tt kEquivalent (get_location_idx tt rtt fr (fr_at fr i)) (via_location (last (q_via_stops q))))
                   (rev [0..<n]))
      in [(case last_via of None \<Rightarrow> first | Some i \<Rightarrow> max first i)..<n])"

definition offset_after ::
    "timetable \<Rightarrow> rt_timetable option \<Rightarrow> run \<Rightarrow> nat \<Rightarrow> offset \<Rightarrow> leg \<times> leg \<times> int \<Rightarrow> leg \<times> leg \<times> int" where
  "offset_after tt rtt fr s x = (\<lambda>(wl, rl, shortest).
     let l = get_location_idx tt rtt fr s; arr = fr_time tt rtt fr s Arr; finish = arr + off_duration x
     in if shortest \<le> off_duration x \<or> \<not> matches tt kExact (off_target x) l \<or> \<not> finish \<le> leg_arr_time wl
        then (wl, rl, shortest)
        else (wl\<lparr>leg_from := l, leg_dep_time := arr, leg_arr_time := finish, leg_uses := UsesOffset x\<rparr>,
              alight_at l arr s rl, off_duration x))"

definition optimize_last_arrival :: "timetable \<Rightarrow> rt_timetable option \<Rightarrow> query \<Rightarrow> leg list \<Rightarrow> leg list option" where
  "optimize_last_arrival tt rtt q legs =
     (case rev legs of
        wl # rl # ls \<Rightarrow>
          (case (leg_uses wl, leg_uses rl) of
             (UsesOffset o', UsesRun ree) \<Rightarrow>
               let fr = frun rtt (ree_run ree)
               in (case fold (\<lambda>s st. if \<not> fr_out_allowed tt rtt fr s False then st
                                     else fold (offset_after tt rtt fr s) (q_destination q) st)
                     (stops_after_entry tt rtt q ree) (wl, rl, off_duration o') of
                   (wl', rl', shortest) \<Rightarrow> Some (rev (wl' # rl' # ls)))
           | _ \<Rightarrow> Some legs)
      | _ \<Rightarrow> Some legs)"

definition footpath_after ::
    "timetable \<Rightarrow> rt_timetable option \<Rightarrow> query \<Rightarrow> run \<Rightarrow> footpath list \<Rightarrow> nat \<Rightarrow> nat \<Rightarrow> leg \<times> leg \<times> int \<Rightarrow> (leg \<times> leg \<times> int) option" where
  "footpath_after tt rtt q fr fps dest_loc s = (\<lambda>(wl, rl, shortest).
     let l = get_location_idx tt rtt fr s
     in if \<not> fr_out_allowed tt rtt fr s False then Some (wl, rl, shortest)
        else case List.find (\<lambda>fp. fp_target fp = l) fps of
          None \<Rightarrow> Some (wl, rl, shortest)
        | Some fp \<Rightarrow>
            let dur = adjusted_transfer_time i16 (q_transfer_time_settings q) (fp_duration fp);
                arr = fr_time tt rtt fr s Arr; finish = arr + dur
            in if \<not> dur < shortest \<or> \<not> finish \<le> leg_arr_time wl then Some (wl, rl, shortest)
               else map_option (\<lambda>fp'.
                 (wl\<lparr>leg_from := l, leg_dep_time := arr, leg_arr_time := finish, leg_uses := UsesFootpath fp'\<rparr>,
                  alight_at l arr s rl, dur)) (mk_footpath dest_loc dur))"

definition optimize_final_egress_footpath :: "timetable \<Rightarrow> rt_timetable option \<Rightarrow> query \<Rightarrow> leg list \<Rightarrow> leg list option" where
  "optimize_final_egress_footpath tt rtt q legs =
     (case rev legs of
        wl # rl # ls \<Rightarrow>
          (case (leg_uses wl, leg_uses rl) of
             (UsesFootpath fp, UsesRun ree) \<Rightarrow>
               if opt_has_td rtt q False (leg_to wl) then Some legs
               else
                 map_option (\<lambda>(wl', rl', shortest). rev (wl' # rl' # ls))
                   (fold_stops (footpath_after tt rtt q (frun rtt (ree_run ree)) (footpaths_in tt ! q_prf_idx q ! leg_to wl) (leg_to wl))
                     (stops_after_entry tt rtt q ree)
                     (wl, rl, adjusted_transfer_time i16 (q_transfer_time_settings q) (fp_duration fp)))
           | _ \<Rightarrow> Some legs)
      | _ \<Rightarrow> Some legs)"

section \<open>Changes\<close>

text \<open>\<open>get_penalty\<close> computes in \<open>double\<close>: exact values rounded to 53 bits. \<^const>\<open>None\<close> is the result of
  \<open>0 / 0\<close>, which compares as false.\<close>

definition f64_sub :: "float64 \<Rightarrow> float64 \<Rightarrow> float64" where
  "f64_sub a b =
     (let e = min (expo a) (expo b)
      in fp_round 53 (mant a * 2 ^ nat (expo a - e) - mant b * 2 ^ nat (expo b - e)) e)"

text \<open>The quotient of two 32 bit numbers, with the remainder folded into the last of 97 bits.\<close>

definition f64_div_nat :: "nat \<Rightarrow> nat \<Rightarrow> float64" where
  "f64_div_nat a b =
     fp_round 53 (int (2 * (a * 2 ^ 96 div b) + of_bool (a * 2 ^ 96 mod b \<noteq> 0))) (- 97)"

definition f64_less :: "float64 \<Rightarrow> float64 \<Rightarrow> bool" where
  "f64_less a b \<longleftrightarrow>
     (let e = min (expo a) (expo b) in mant a * 2 ^ nat (expo a - e) < mant b * 2 ^ nat (expo b - e))"

definition kBufferWeight :: float64 where "kBufferWeight = \<lparr>mant = 3602879701896397, expo = - 54\<rparr>"

definition get_penalty :: "timetable \<Rightarrow> int \<Rightarrow> int \<Rightarrow> nat \<Rightarrow> nat \<Rightarrow> float64 option" where
  "get_penalty tt duration buffer a b =
     (let weight = \<lparr>mant = duration, expo = 0\<rparr>; x = get_root_idx tt a; m = max_importance tt;
          reward = f64_mul kBufferWeight \<lparr>mant = std_clamp buffer 0 15, expo = 0\<rparr>
      in if \<not> matches tt kEquivalent a b then Some (f64_sub weight reward)
         else if m = 0 then None
         else Some (f64_sub (f64_sub weight (f64_mul (f64_div_nat (location_importance tt ! x) m) \<lparr>mant = 3, expo = 0\<rparr>)) reward))"

definition penalty_less :: "float64 option \<Rightarrow> float64 option \<Rightarrow> bool" where
  "penalty_less a b = (case (a, b) of (Some x, Some y) \<Rightarrow> f64_less x y | _ \<Rightarrow> False)"

text \<open>The two loops over the stops of a ride that must not skip vias; the last component is
  \<open>keep_transfer\<close>.\<close>

fun limit_by_vias ::
    "timetable \<Rightarrow> rt_timetable option \<Rightarrow> query \<Rightarrow> run \<Rightarrow> (nat \<Rightarrow> nat \<Rightarrow> nat) \<Rightarrow> nat list \<Rightarrow> nat \<Rightarrow> nat \<Rightarrow> nat \<times> nat \<times> bool" where
  "limit_by_vias tt rtt q fr f [] v lim = (v, lim, False)"
| "limit_by_vias tt rtt q fr f (s # ss) v lim =
     (if v < length (q_via_stops q) \<and>
         matches tt kEquivalent (get_location_idx tt rtt fr (fr_at fr s)) (via_location (q_via_stops q ! v))
      then if via_stay (q_via_stops q ! v) = 0 then limit_by_vias tt rtt q fr f ss (v + 1) (f lim s) else (v, lim, True)
      else limit_by_vias tt rtt q fr f ss v lim)"

text \<open>One pair of stops.\<close>

definition change_at ::
    "timetable \<Rightarrow> rt_timetable option \<Rightarrow> query \<Rightarrow> run \<Rightarrow> run \<Rightarrow> nat \<Rightarrow> nat \<Rightarrow> leg \<times> leg \<times> leg \<times> float64 option
     \<Rightarrow> leg \<times> leg \<times> leg \<times> float64 option" where
  "change_at tt rtt q fr1 fr2 s1 s2 = (\<lambda>(l1, wl, l2, lowest).
     let a = get_location_idx tt rtt fr1 s1; b = get_location_idx tt rtt fr2 s2
     in case List.find (\<lambda>fp. fp_target fp = b) (footpaths_out tt ! q_prf_idx q ! a) of
          None \<Rightarrow> (l1, wl, l2, lowest)
        | Some fp \<Rightarrow>
            let dur = adjusted_transfer_time i16 (q_transfer_time_settings q) (fp_duration fp);
                arr = fr_time tt rtt fr1 s1 Arr; dep = fr_time tt rtt fr2 s2 Dep; arr_fp = arr + dur;
                penalty = get_penalty tt dur (i16 (dep - arr_fp)) a b
            in if arr_fp \<le> dep \<and> penalty_less penalty lowest
               then (alight_at a arr s1 l1,
                     wl\<lparr>leg_from := a, leg_to := b, leg_dep_time := arr, leg_arr_time := arr_fp, leg_uses := UsesFootpath fp\<rparr>,
                     board_at b dep s2 l2, penalty)
               else (l1, wl, l2, lowest))"

definition optimize_transfer :: "timetable \<Rightarrow> rt_timetable option \<Rightarrow> query \<Rightarrow> via_counts \<Rightarrow> nat \<Rightarrow> leg list \<Rightarrow> leg list" where
  "optimize_transfer tt rtt q c i legs =
     (let l1 = legs ! i; wl = legs ! (i + 1); l2 = legs ! (i + 2)
      in case (leg_uses l1, leg_uses wl, leg_uses l2) of
           (UsesRun r1, UsesFootpath fp, UsesRun r2) \<Rightarrow>
             let fr1 = frun rtt (ree_run r1); fr2 = frun rtt (ree_run r2);
                 n1 = fr_size tt rtt fr1; n2 = fr_size tt rtt fr2;
                 (v, first, keep1) = limit_by_vias tt rtt q fr1 max [ifrom (ree_stop_range r1)..<n1]
                   (vc_before c ! i) ((ifrom (ree_stop_range r1) + 1) mod 2 ^ 16);
                 (v', last, keep2) = limit_by_vias tt rtt q fr2 (\<lambda>lim s. min lim ((s + 1) mod 2 ^ 16))
                   [ifrom (ree_stop_range r2)..<n2] v (nat (u16 (int (ito (ree_stop_range r2)) - 1)))
             in if keep1 \<or> keep2 \<or> opt_has_td rtt q True (leg_from wl) then legs
                else case fold (\<lambda>s1 st. if \<not> fr_out_allowed tt rtt fr1 s1 False then st
                            else fold (\<lambda>s2 st. if \<not> fr_in_allowed tt rtt fr2 s2 False then st
                                   else change_at tt rtt q fr1 fr2 s1 s2 st) [0..<last] st)
                       [first..<n1]
                       (l1, wl, l2, get_penalty tt (fp_duration fp) (i16 (leg_dep_time l2 - leg_arr_time wl)) (leg_from l1) (leg_to l2)) of
                  (l1', wl', l2', lowest) \<Rightarrow> legs[i := l1', i + 1 := wl', i + 2 := l2']
         | _ \<Rightarrow> legs)"

definition optimize_transfers :: "timetable \<Rightarrow> rt_timetable option \<Rightarrow> query \<Rightarrow> leg list \<Rightarrow> leg list" where
  "optimize_transfers tt rtt q legs =
     (let c = count_vias tt rtt q legs in fold (optimize_transfer tt rtt q c) [0..<length legs - 2] legs)"

definition optimize_footpaths :: "timetable \<Rightarrow> rt_timetable option \<Rightarrow> query \<Rightarrow> leg list \<Rightarrow> leg list option" where
  "optimize_footpaths tt rtt q legs =
     map_option (optimize_transfers tt rtt q)
       (fold (\<lambda>pass acc. case acc of None \<Rightarrow> None | Some legs \<Rightarrow> pass tt rtt q legs)
         [optimize_initial_departure, optimize_initial_start_footpath, optimize_last_arrival, optimize_final_egress_footpath]
         (Some legs))"

section \<open>Time-dependent offsets\<close>

definition specify_first_offset :: "query \<Rightarrow> leg \<Rightarrow> leg" where
  "specify_first_offset q leg =
     (case leg_uses leg of
        UsesOffset o' \<Rightarrow>
          (case map_of (q_td_start q) (off_target o') of
             None \<Rightarrow> leg
           | Some td \<Rightarrow>
               (case get_td_duration Forward td (leg_dep_time leg) of
                  None \<Rightarrow> leg
                | Some (d, td_fp) \<Rightarrow>
                    leg\<lparr>leg_arr_time := leg_dep_time leg + td_duration td_fp,
                        leg_uses := UsesOffset (o'\<lparr>off_duration := td_duration td_fp\<rparr>)\<rparr>))
      | _ \<Rightarrow> leg)"

definition specify_last_offset :: "query \<Rightarrow> leg \<Rightarrow> leg" where
  "specify_last_offset q leg =
     (case leg_uses leg of
        UsesOffset o' \<Rightarrow>
          (case map_of (q_td_dest q) (off_target o') of
             None \<Rightarrow> leg
           | Some td \<Rightarrow>
               (case get_td_duration Backward td (leg_arr_time leg) of
                  None \<Rightarrow> leg
                | Some (d, td_fp) \<Rightarrow>
                    leg\<lparr>leg_dep_time := leg_arr_time leg - td_duration td_fp,
                        leg_uses := UsesOffset (o'\<lparr>off_duration := td_duration td_fp\<rparr>)\<rparr>))
      | _ \<Rightarrow> leg)"

definition specify_td_offsets :: "query \<Rightarrow> leg list \<Rightarrow> leg list" where
  "specify_td_offsets q legs =
     (let legs = (if legs = [] then legs else legs[0 := specify_first_offset q (hd legs)])
      in if 1 < length legs then legs[length legs - 1 := specify_last_offset q (last legs)] else legs)"

section \<open>The whole reconstruction\<close>

definition reconstruct_journey :: "recon \<Rightarrow> journey \<Rightarrow> bool \<times> leg list" where
  "reconstruct_journey rc j =
     (case raw_legs rc j of
        (True, legs) \<Rightarrow> (True, legs)
      | (False, legs) \<Rightarrow>
          let journey_q = (if rc_fwd rc then rc_q rc else flip_dir (rc_q rc));
              travelled = (if rc_fwd rc then Some (rev legs) else move_walks (rc_tt rc) (rc_rtt rc) journey_q legs)
          in case (case travelled of None \<Rightarrow> None | Some ls \<Rightarrow> optimize_footpaths (rc_tt rc) (rc_rtt rc) journey_q ls) of
               None \<Rightarrow> (True, legs)
             | Some ls \<Rightarrow> (False, specify_td_offsets journey_q ls))"

end
