(* ===== verification/Reconstruct_Correct.thy ===== *)
theory Reconstruct_Correct
  imports Optimize
begin

text \<open>
  What a reconstructed journey is: rides that run and may be used, joined by walks in place and time,
  from a start of the query to the label of the destination. Both directions are treated at once: a leg
  has an end towards the start and one towards the destination of the search, and \<open>is_better_or_eq\<close> orders times.
\<close>

section \<open>Ends of a leg\<close>

definition start_end :: "direction \<Rightarrow> leg \<Rightarrow> nat" where
  "start_end d leg = (if d = Forward then leg_from leg else leg_to leg)"

definition dest_end :: "direction \<Rightarrow> leg \<Rightarrow> nat" where
  "dest_end d leg = (if d = Forward then leg_to leg else leg_from leg)"

definition time_at_start :: "direction \<Rightarrow> leg \<Rightarrow> int" where
  "time_at_start d leg = (if d = Forward then leg_dep_time leg else leg_arr_time leg)"

definition time_at_end :: "direction \<Rightarrow> leg \<Rightarrow> int" where
  "time_at_end d leg = (if d = Forward then leg_arr_time leg else leg_dep_time leg)"

lemma mk_leg_ends [simp]:
  "start_end d (mk_leg d a b s t u) = a" "dest_end d (mk_leg d a b s t u) = b"
  "time_at_start d (mk_leg d a b s t u) = s" "time_at_end d (mk_leg d a b s t u) = t"
  "leg_uses (mk_leg d a b s t u) = u"
  by (simp_all add: start_end_def dest_end_def time_at_start_def time_at_end_def mk_leg_def)

lemma ends_uses [simp]:
  "start_end d (leg\<lparr>leg_uses := u\<rparr>) = start_end d leg" "dest_end d (leg\<lparr>leg_uses := u\<rparr>) = dest_end d leg"
  "time_at_start d (leg\<lparr>leg_uses := u\<rparr>) = time_at_start d leg" "time_at_end d (leg\<lparr>leg_uses := u\<rparr>) = time_at_end d leg"
  by (simp_all add: start_end_def dest_end_def time_at_start_def time_at_end_def)

text \<open>\<open>y\<close> is the leg before \<open>x\<close>, seen from the destination.\<close>

definition meets :: "direction \<Rightarrow> leg \<Rightarrow> leg \<Rightarrow> bool" where
  "meets d x y \<longleftrightarrow> dest_end d y = start_end d x \<and> is_better_or_eq d (time_at_end d y) (time_at_start d x)"

lemma better_or_eq_simps [simp]:
  "is_better_or_eq d (x :: int) x"
  "is_better_or_eq d (dir d a + x) (dir d b + x) \<longleftrightarrow> a \<le> b"
  by (cases d; simp add: is_better_or_eq_def dir_def)+

lemma better_or_eq_trans: "is_better_or_eq d a b \<Longrightarrow> is_better_or_eq d b c \<Longrightarrow> is_better_or_eq d a c"
  by (cases d) (simp_all add: is_better_or_eq_def)

lemma better_or_eq_sub: "0 \<le> a \<Longrightarrow> is_better_or_eq d (x - dir d a) x"
  by (cases d) (simp_all add: is_better_or_eq_def dir_def)

lemma better_or_eq_add: "0 \<le> a \<Longrightarrow> is_better_or_eq d x (x + dir d a)"
  by (cases d) (simp_all add: is_better_or_eq_def dir_def)

lemma rc_unix_mono: "is_better_or_eq d (rc_unix rc a) (rc_unix rc b) = is_better_or_eq d a b"
  by (cases d) (simp_all add: is_better_or_eq_def rc_unix_def delta_to_unix_def)

lemma rc_unix_add: "rc_unix rc (a + b) = rc_unix rc a + b" "rc_unix rc (a - b) = rc_unix rc a - b"
  by (simp_all add: rc_unix_def delta_to_unix_def)

lemma first_some_SomeD: "first_some f xs = Some y \<Longrightarrow> \<exists>x \<in> set xs. f x = Some y"
  by (induction xs) (auto split: option.splits)

section \<open>Rides\<close>

text \<open>A leg is at an event when it has its time, or the time as 16 bit minutes can hold it.\<close>

definition at_event :: "recon \<Rightarrow> int \<Rightarrow> int \<Rightarrow> bool" where
  "at_event rc t x \<longleftrightarrow> x = t \<or> x = rc_unix rc (rc_delta rc t)"

lemma at_event_exact:
  assumes "at_event rc t x" "rc_base rc * 1440 - 32768 \<le> t" "t \<le> rc_base rc * 1440 + 32767"
  shows "x = t"
  using assms clamp_id [of "t - rc_base rc * 1440"]
  by (auto simp: at_event_def rc_unix_def rc_delta_def unix_to_delta_def delta_to_unix_def)

text \<open>A static run that is active (with real-time data: not replaced), or a real-time run.\<close>

definition run_usable :: "recon \<Rightarrow> run \<Rightarrow> bool" where
  "run_usable rc r \<longleftrightarrow>
     (case run_rt r of
        Some rt_t \<Rightarrow> (\<exists>rtt. rc_rtt rc = Some rtt \<and> r = from_rt rtt rt_t \<and>
          is_allowed (q_allowed_claszes (rc_q rc)) (rt_section_clasz rtt ! rt_t ! 0))
      | None \<Rightarrow> (\<exists>tr. run_t r = Some tr \<and> rc_transport_active rc (t_idx tr) (t_day tr) \<and>
          is_allowed (q_allowed_claszes (rc_q rc)) (route_clasz (rc_tt rc) ! (transport_route (rc_tt rc) ! t_idx tr))))"

definition ride_ok :: "recon \<Rightarrow> run \<Rightarrow> nat \<Rightarrow> nat \<Rightarrow> leg \<Rightarrow> bool" where
  "ride_ok rc r a b leg \<longleftrightarrow>
     (let tt = rc_tt rc; rtt = rc_rtt rc; fr = frun rtt r; w = rc_wheelchair rc
      in leg_uses leg = UsesRun \<lparr>ree_run = r, ree_stop_range = mk_iv a (b + 1)\<rparr> \<and> run_usable rc r \<and>
         a < b \<and> b < fr_size tt rtt fr \<and>
         leg_from leg = get_location_idx tt rtt fr a \<and> leg_to leg = get_location_idx tt rtt fr b \<and>
         fr_in_allowed tt rtt fr a w \<and> fr_out_allowed tt rtt fr b w \<and>
         at_event rc (fr_time tt rtt fr a Dep) (leg_dep_time leg) \<and>
         at_event rc (fr_time tt rtt fr b Arr) (leg_arr_time leg) \<and>
         (\<forall>f \<in> set (rc_required_flags rc). \<forall>s \<in> {a..<b}. fr_is_flag_set tt rtt fr f s Dep))"

section \<open>Finding the entry\<close>

text \<open>\<open>stop_back\<close>: \<open>i\<close> stops before the finish stop, in the direction of the search.\<close>

definition stop_back :: "recon \<Rightarrow> nat \<Rightarrow> nat \<Rightarrow> nat" where
  "stop_back rc finish i = (if rc_fwd rc then finish - i else finish + i)"

lemma stop_back_u16:
  assumes "if rc_fwd rc then i \<le> finish \<and> finish < 65536 else finish + i < 65536"
  shows "nat (u16 (if rc_fwd rc then int finish - int i else int finish + int i)) = stop_back rc finish i"
  using assms by (auto simp: stop_back_def wrap_u_def nat_diff_distrib of_nat_diff)

lemma scan_entries_SomeD:
  assumes "scan_entries rc k r fr finish flags v fs is = Some (w, leg)"
  shows "\<exists>ps i qs. is = ps @ i # qs \<and>
    (let at = (\<lambda>i. nat (u16 (if rc_fwd rc then int finish - int i else int finish + int i))); s = fr_at fr (at i);
         t = rc_delta rc (fr_time (rc_tt rc) (rc_rtt rc) fr s (rc_dep rc))
     in (\<forall>j \<in> set (ps @ [i]). \<not> violates_flags rc fr (fr_at fr (at j)) flags) \<and> entry_allowed rc fr s \<and>
        w < rc_n_vias rc + 1 \<and> entry_fits rc k (get_location_idx (rc_tt rc) (rc_rtt rc) fr s) t w \<and>
        leg = ride_leg rc r fr (at i) finish t)"
  using assms
proof (induction "is" arbitrary: fs)
  case (Cons j js)
  let ?at = "\<lambda>i. nat (u16 (if rc_fwd rc then int finish - int i else int finish + int i))"
  let ?s = "fr_at fr (?at j)"
  let ?l = "get_location_idx (rc_tt rc) (rc_rtt rc) fr ?s"
  let ?t = "rc_delta rc (fr_time (rc_tt rc) (rc_rtt rc) fr ?s (rc_dep rc))"
  from Cons.prems have nv: "\<not> violates_flags rc fr ?s flags" by (auto simp: Let_def split: if_splits)
  let ?find = "List.find (\<lambda>w. fs ! w = v \<and> entry_fits rc k ?l ?t w) [0..<rc_n_vias rc + 1]"
  consider (here) x where "entry_allowed rc fr ?s" "?find = Some x"
    | (later) "scan_entries rc k r fr finish flags v (ride_through rc ?l fs) js = Some (w, leg)"
  proof (cases "entry_allowed rc fr ?s \<and> ?find \<noteq> None")
    case True
    then show ?thesis using here by blast
  next
    case False
    with Cons.prems nv later show ?thesis by (auto simp: Let_def split: if_splits)
  qed
  then show ?case
  proof cases
    case here
    with Cons.prems nv have "w = x" "leg = ride_leg rc r fr (?at j) finish ?t" by (auto simp: Let_def)
    moreover have "x < rc_n_vias rc + 1" "entry_fits rc k ?l ?t x"
      using here(2) by (auto simp: find_Some_iff nth_append)
    ultimately show ?thesis using here(1) nv
      by (intro exI [of _ "[]"] exI [of _ j] exI [of _ js]) (simp add: Let_def)
  next
    case later
    from Cons.IH [OF this] obtain ps i qs where "js = ps @ i # qs" and
      *: "let at = ?at; s = fr_at fr (at i); t = rc_delta rc (fr_time (rc_tt rc) (rc_rtt rc) fr s (rc_dep rc))
        in (\<forall>j \<in> set (ps @ [i]). \<not> violates_flags rc fr (fr_at fr (at j)) flags) \<and> entry_allowed rc fr s \<and>
        w < rc_n_vias rc + 1 \<and> entry_fits rc k (get_location_idx (rc_tt rc) (rc_rtt rc) fr s) t w \<and>
        leg = ride_leg rc r fr (at i) finish t" by blast
    then show ?thesis using nv
      by (intro exI [of _ "j # ps"] exI [of _ i] exI [of _ qs]) (auto simp: Let_def)
  qed
qed simp

lemma frun_stop_range [simp]: "run_stop_range (frun rtt r) = run_stop_range r"
  by (cases rtt) (simp_all add: frun_def Let_def)

lemma fr_at_zero: "ifrom (run_stop_range fr) = 0 \<Longrightarrow> i < 65536 \<Longrightarrow> fr_at fr i = i"
  by (simp add: fr_at_def)

lemma fr_size_less: "fr_size tt rtt fr < 65536"
  by (simp add: fr_size_def)

lemma upt_split:
  assumes "[1..<n] = ps @ i # qs"
  shows "ps = [1..<i] \<and> 1 \<le> i \<and> i < n"
proof -
  have "length [1..<n] = length ps + Suc (length qs)" unfolding assms by simp
  then have len: "length ps < n - 1" by simp
  have "i = [1..<n] ! length ps" unfolding assms by simp
  with len have i: "i = 1 + length ps" by simp
  have "ps = take (length ps) [1..<n]" unfolding assms by simp
  also have "\<dots> = [1..<i]" using len by (simp add: i take_upt)
  finally show ?thesis using i len by simp
qed

text \<open>The stops between the entry and the finish stop at which the sections of the ride are read.\<close>

definition ride_stops :: "recon \<Rightarrow> nat \<Rightarrow> nat \<Rightarrow> nat set" where
  "ride_stops rc s finish = (if rc_fwd rc then {s..<finish} else {finish<..s})"

lemma ride_stops_back:
  assumes "j \<in> ride_stops rc (stop_back rc finish i) finish" "if rc_fwd rc then i \<le> finish else True"
  shows "\<exists>m \<in> {1..i}. j = stop_back rc finish m"
proof (cases "rc_fwd rc")
  case True
  with assms show ?thesis by (intro bexI [of _ "finish - j"]) (auto simp: ride_stops_def stop_back_def)
next
  case False
  with assms show ?thesis by (intro bexI [of _ "j - finish"]) (auto simp: ride_stops_def stop_back_def)
qed

definition entered :: "recon \<Rightarrow> nat \<Rightarrow> run \<Rightarrow> nat \<Rightarrow> bool list \<Rightarrow> nat \<Rightarrow> leg \<Rightarrow> nat \<Rightarrow> bool" where
  "entered rc k r finish flags w leg s \<longleftrightarrow>
     (let fr = frun (rc_rtt rc) r; t = rc_delta rc (fr_time (rc_tt rc) (rc_rtt rc) fr s (rc_dep rc))
      in (if rc_fwd rc then s < finish else finish < s) \<and> s < fr_size (rc_tt rc) (rc_rtt rc) fr \<and>
         entry_allowed rc fr s \<and> (\<forall>j \<in> ride_stops rc s finish. \<not> violates_flags rc fr j flags) \<and> w \<le> rc_n_vias rc \<and>
         entry_fits rc k (get_location_idx (rc_tt rc) (rc_rtt rc) fr s) t w \<and> leg = ride_leg rc r fr s finish t)"

lemma find_start_entered:
  assumes "find_start_in_prev_round rc k r finish flags v = Some (w, leg)"
    and zero: "ifrom (run_stop_range r) = 0" and fin: "finish < fr_size (rc_tt rc) (rc_rtt rc) (frun (rc_rtt rc) r)"
  shows "\<exists>s. entered rc k r finish flags w leg s"
proof -
  let ?fr = "frun (rc_rtt rc) r"
  let ?size = "fr_size (rc_tt rc) (rc_rtt rc) ?fr"
  let ?n = "if rc_fwd rc then finish + 1 else ?size - finish"
  let ?at = "\<lambda>i. nat (u16 (if rc_fwd rc then int finish - int i else int finish + int i))"
  have size: "?size < 65536" by (rule fr_size_less)
  from assms(1) obtain fs where "scan_entries rc k r ?fr finish flags v fs [1..<?n] = Some (w, leg)"
    unfolding find_start_in_prev_round_def Let_def by (auto split: option.splits if_splits)
  from scan_entries_SomeD [OF this] obtain ps i qs where split: "[1..<?n] = ps @ i # qs" and
    *: "\<forall>j \<in> set (ps @ [i]). \<not> violates_flags rc ?fr (fr_at ?fr (?at j)) flags" "entry_allowed rc ?fr (fr_at ?fr (?at i))"
      "w < rc_n_vias rc + 1"
      "entry_fits rc k (get_location_idx (rc_tt rc) (rc_rtt rc) ?fr (fr_at ?fr (?at i)))
        (rc_delta rc (fr_time (rc_tt rc) (rc_rtt rc) ?fr (fr_at ?fr (?at i)) (rc_dep rc))) w"
      "leg = ride_leg rc r ?fr (?at i) finish (rc_delta rc (fr_time (rc_tt rc) (rc_rtt rc) ?fr (fr_at ?fr (?at i)) (rc_dep rc)))"
    unfolding Let_def by blast
  from upt_split [OF split] have ps: "ps = [1..<i]" and i: "1 \<le> i" "i < ?n" by blast+
  have pos: "?at m = stop_back rc finish m \<and> fr_at ?fr (?at m) = stop_back rc finish m" if "1 \<le> m" "m \<le> i" for m
  proof -
    have less: "if rc_fwd rc then m \<le> finish \<and> finish < 65536 else finish + m < 65536"
      using that i(2) fin size by (auto split: if_splits)
    then have at: "?at m = stop_back rc finish m" by (rule stop_back_u16)
    moreover have "stop_back rc finish m < 65536" using less by (auto simp: stop_back_def split: if_splits)
    ultimately show ?thesis using fr_at_zero [of ?fr] zero by simp
  qed
  let ?s = "stop_back rc finish i"
  have "(if rc_fwd rc then ?s < finish else finish < ?s) \<and> ?s < ?size"
    using i fin by (auto simp: stop_back_def split: if_splits)
  moreover have "\<not> violates_flags rc ?fr j flags" if "j \<in> ride_stops rc ?s finish" for j
  proof -
    have "if rc_fwd rc then i \<le> finish else True" using i(2) by (auto split: if_splits)
    from ride_stops_back [OF that this] obtain m where "1 \<le> m" "m \<le> i" "j = stop_back rc finish m" by auto
    moreover from this(1,2) have "m \<in> set (ps @ [i])" by (auto simp: ps)
    ultimately show ?thesis using *(1) pos [of m] by metis
  qed
  ultimately show ?thesis
    unfolding entered_def Let_def using *(2-5) pos [OF i(1) order_refl] by (intro exI [of _ ?s]) auto
qed

section \<open>What the tables hold\<close>

text \<open>Transports know their route; arrivals and departures are not negative; sequences are shorter than
  the 16 bits of a stop index; a transport that has a real-time version is not active on that day
  (\<open>add_rt_transport_switches_off\<close>).\<close>

abbreviation n_places :: "recon \<Rightarrow> nat" where "n_places rc \<equiv> length (location_routes (rc_tt rc))"

definition runs_ok :: "recon \<Rightarrow> bool" where
  "runs_ok rc \<longleftrightarrow>
     rc_base rc = ifrom (internal_interval_days (rc_tt rc)) + int (rc_base_day_idx rc) \<and> rc_base_day_idx rc < 65000 \<and>
     (\<forall>rs \<in> set (location_routes (rc_tt rc)). \<forall>r \<in> set rs.
        length (route_location_seq (rc_tt rc) ! r) < 65536 \<and>
        (\<forall>x \<in> set (route_location_seq (rc_tt rc) ! r). stop_loc (stop_of_value x) < n_places rc) \<and>
        (\<forall>t \<in> set (iv_list (route_transport_ranges (rc_tt rc) ! r)).
           transport_route (rc_tt rc) ! t = r \<and>
           (\<forall>s < length (route_location_seq (rc_tt rc) ! r). exit_at rc (stop_loc (stop_of_value (route_location_seq (rc_tt rc) ! r ! s)))
               (route_location_seq (rc_tt rc) ! r) s \<longrightarrow> 0 \<le> delta_count (event_mam (rc_tt rc) t s (rc_arr rc))))) \<and>
     (\<forall>rtt. rc_rtt rc = Some rtt \<longrightarrow>
        length (location_rt_transports rtt) = length (location_routes (rc_tt rc)) \<and>
        (\<forall>tr. rtt_is_transport_active (rc_tt rc) rtt (t_idx tr) (t_day tr) \<longrightarrow> static_trip_lookup rtt tr = None) \<and>
        (\<forall>ts \<in> set (location_rt_transports rtt). \<forall>rt_t \<in> set ts. length (rt_location_seq rtt ! rt_t) < 65536 \<and>
           (\<forall>x \<in> set (rt_location_seq rtt ! rt_t). stop_loc (stop_of_value x) < n_places rc)))"

lemma cmod_cdiv_day: "a * 1440 + x = (a + cdiv x 1440) * 1440 + cmod x 1440"
  using cdiv_cmod [of 1440 x] by (simp add: algebra_simps)

lemma u16_negative: "- 65536 \<le> x \<Longrightarrow> x < 0 \<Longrightarrow> u16 x = 65536 + x"
  using mod_pos_pos_trivial [of "x + 65536" 65536] by (simp add: wrap_u_def)

text \<open>A run found for a time has its event at exactly that time.\<close>

lemma candidate_exact:
  assumes "route_candidate rc x i False t = Some (tr, ev)"
    and base: "rc_base rc = ifrom (internal_interval_days (rc_tt rc)) + int (rc_base_day_idx rc)" "rc_base_day_idx rc < 65000"
    and count: "0 \<le> delta_count (event_mam (rc_tt rc) t i (rc_arr rc))"
    and x: "- 32768 \<le> x" "x \<le> 32767"
    and active: "\<And>t d. rc_transport_active rc t d \<Longrightarrow> d < 512"
  shows "event_time (rc_tt rc) tr i (rc_arr rc) = rc_unix rc x"
proof -
  define c where "c = delta_count (event_mam (rc_tt rc) t i (rc_arr rc))"
  define minutes where "minutes = int (rc_base_day_idx rc) * 1440 + x"
  define d where "d = u16 (cdiv minutes 1440)"
  have d: "0 \<le> d" "d < 65536" using wrap_u_bound [of 16] by (simp_all add: d_def)
  have split: "split_day_mam (rc_base_day_idx rc) x = (nat d, i16 (cmod minutes 1440))"
    by (simp add: split_day_mam_def Let_def minutes_def d_def)
  from assms(1) have tr: "tr = \<lparr>t_idx = t, t_day = nat (u16 (d - cdiv c 1440))\<rparr>"
    and m: "cmod c 1440 = i16 (cmod minutes 1440)" and act: "rc_transport_active rc t (nat (u16 (d - cdiv c 1440)))"
    unfolding route_candidate_def split using d(1) by (auto simp: Let_def c_def [symmetric] split: if_splits)
  have c: "0 \<le> c" "c \<le> 32767"
    using count wrap_s16_bounds [of "u32 (days e * 1440 + mam e)" for e] by (simp_all add: c_def delta_count_def)
  then have cd: "0 \<le> cdiv c 1440" "cdiv c 1440 \<le> 22" by (simp_all add: pos_imp_zdiv_nonneg_iff)
  have md: "minutes < 65535 * 1440" "- 32768 \<le> minutes" using base(2) x by (simp_all add: minutes_def)
  have "cmod minutes 1440 = i16 (cmod minutes 1440)"
  proof (cases "0 \<le> minutes")
    case True
    then show ?thesis by (subst wrap_s16_id) (simp_all add: order.trans [of _ 0] less_trans [of _ 1440])
  next
    case False
    then have "cmod minutes 1440 = - ((- minutes) mod 1440)" by (simp add: cmod_neg)
    moreover have "(- minutes) mod 1440 < 1440" "0 \<le> (- minutes) mod 1440" by simp_all
    ultimately show ?thesis by (subst wrap_s16_id) simp_all
  qed
  with m have m: "cmod c 1440 = cmod minutes 1440" by (rule trans [OF _ sym])
  have less: "u16 (d - cdiv c 1440) < 512" using active [OF act] by (simp add: nat_less_iff)
  have pos: "0 \<le> minutes"
  proof (rule ccontr)
    assume neg: "\<not> 0 \<le> minutes"
    then have q: "cdiv minutes 1440 = - ((- minutes) div 1440)" by (simp add: cdiv_neg)
    have b: "0 \<le> (- minutes) div 1440" "(- minutes) div 1440 \<le> 22" using neg md(2) by (simp_all add: pos_imp_zdiv_nonneg_iff)
    have z: "(- minutes) div 1440 = 0"
    proof (rule ccontr)
      assume "(- minutes) div 1440 \<noteq> 0"
      with b have one: "1 \<le> (- minutes) div 1440" by simp
      with b have "d = 65536 - (- minutes) div 1440" unfolding d_def q by (simp add: wrap_u_def zmod_zminus1_eq_if)
      then have "0 \<le> d - cdiv c 1440" "d - cdiv c 1440 < 65536" "512 \<le> d - cdiv c 1440" using cd b one by linarith+
      moreover from this(1,2) have "u16 (d - cdiv c 1440) = d - cdiv c 1440" by simp
      ultimately have "u16 (d - cdiv c 1440) = d - cdiv c 1440" "512 \<le> d - cdiv c 1440" by blast+
      with less show False by simp
    qed
    have "cmod minutes 1440 = minutes" using z q by (simp add: cmod_def)
    moreover have "0 \<le> cmod c 1440" using c by simp
    ultimately show False unfolding m using neg by linarith
  qed
  then have "0 \<le> cdiv minutes 1440" "cdiv minutes 1440 < 65536" using md by (simp_all add: pos_imp_zdiv_nonneg_iff)
  then have dm: "d = cdiv minutes 1440" by (simp add: d_def)
  have "0 \<le> d - cdiv c 1440"
  proof (rule ccontr)
    assume "\<not> 0 \<le> d - cdiv c 1440"
    then have "u16 (d - cdiv c 1440) = 65536 + (d - cdiv c 1440)" using d cd by (intro u16_negative) simp_all
    with less d cd show False by simp
  qed
  then have "int (t_day tr) = d - cdiv c 1440" using d cd by (simp add: tr)
  moreover have "d * 1440 + cmod minutes 1440 = minutes" using cdiv_cmod [of 1440 minutes] by (simp add: dm)
  moreover have "cdiv c 1440 * 1440 + cmod c 1440 = c" using cdiv_cmod [of 1440 c] by simp
  moreover have "as_duration (event_mam (rc_tt rc) (t_idx tr) i (rc_arr rc)) = c" by (simp add: tr as_duration_count c_def)
  ultimately have "int (t_day tr) * 1440 + as_duration (event_mam (rc_tt rc) (t_idx tr) i (rc_arr rc)) = minutes"
    unfolding m by linarith
  then show ?thesis using base(1)
    by (simp add: event_time_def rc_unix_def delta_to_unix_def minutes_def algebra_simps)
qed

section \<open>From the entry to the ride\<close>

lemma rc_active_512: "rc_transport_active rc t d \<Longrightarrow> d < 512"
  by (cases "rc_rtt rc")
     (auto simp: rc_transport_active_def is_transport_active_def rtt_is_transport_active_def dest!: bit_imp_le_length)

lemma section_flag_arr:
  assumes "0 < s" "s < 65536"
  shows "fr_is_flag_set tt rtt fr f s Arr = fr_is_flag_set tt rtt fr f (s - 1) Dep"
proof -
  have "section_idx s Arr = section_idx (s - 1) Dep" using assms by (simp add: section_idx_def nat_diff_distrib of_nat_diff)
  then show ?thesis by (simp add: fr_is_flag_set_def section_flag_def of_section_def split: option.split)
qed

text \<open>What a ride found for a stop, a time and a round satisfies: \<open>w\<close> is the number of vias left.\<close>

definition ridden :: "recon \<Rightarrow> nat \<Rightarrow> nat \<Rightarrow> nat \<Rightarrow> leg \<Rightarrow> bool" where
  "ridden rc k l w leg \<longleftrightarrow> (\<exists>r a b. ride_ok rc r a b leg) \<and> dest_end (rc_dir rc) leg = l \<and> w \<le> rc_n_vias rc \<and>
     start_end (rc_dir rc) leg < n_places rc \<and>
     (\<exists>t. time_at_start (rc_dir rc) leg = rc_unix rc t \<and> entry_fits rc k (start_end (rc_dir rc) leg) t w)"

lemma entered_ride_ok:
  assumes e: "entered rc k r finish flags w leg s" and zero: "ifrom (run_stop_range r) = 0"
    and fin: "finish < fr_size (rc_tt rc) (rc_rtt rc) (frun (rc_rtt rc) r)" and usable: "run_usable rc r"
    and exit: "if rc_fwd rc then fr_out_allowed (rc_tt rc) (rc_rtt rc) (frun (rc_rtt rc) r) finish (rc_wheelchair rc)
      else fr_in_allowed (rc_tt rc) (rc_rtt rc) (frun (rc_rtt rc) r) finish (rc_wheelchair rc)"
    and flags: "\<And>f x. f \<in> set (rc_required_flags rc) \<Longrightarrow>
      flags ! route_flag_idx f \<or> fr_is_flag_set (rc_tt rc) (rc_rtt rc) (frun (rc_rtt rc) r) f x Dep"
    and place: "\<And>j. j < fr_size (rc_tt rc) (rc_rtt rc) (frun (rc_rtt rc) r) \<Longrightarrow>
      get_location_idx (rc_tt rc) (rc_rtt rc) (frun (rc_rtt rc) r) j < n_places rc"
  shows "ridden rc k (get_location_idx (rc_tt rc) (rc_rtt rc) (frun (rc_rtt rc) r) finish) w leg"
    and "time_at_end (rc_dir rc) leg = fr_time (rc_tt rc) (rc_rtt rc) (frun (rc_rtt rc) r) finish (rc_arr rc)"
proof -
  let ?fr = "frun (rc_rtt rc) r"
  let ?size = "fr_size (rc_tt rc) (rc_rtt rc) ?fr"
  let ?t = "rc_delta rc (fr_time (rc_tt rc) (rc_rtt rc) ?fr s (rc_dep rc))"
  note e = e [unfolded entered_def Let_def]
  have size: "?size < 65536" by (rule fr_size_less)
  from e fin size have less: "s < 65536" "finish < 65536" by auto
  then have at: "fr_at ?fr s = s" "fr_at ?fr finish = finish" using fr_at_zero [of ?fr] zero by simp_all
  from e have leg: "leg = ride_leg rc r ?fr s finish ?t" by blast
  then have ends: "dest_end (rc_dir rc) leg = get_location_idx (rc_tt rc) (rc_rtt rc) ?fr finish"
    "start_end (rc_dir rc) leg = get_location_idx (rc_tt rc) (rc_rtt rc) ?fr s"
    "time_at_start (rc_dir rc) leg = rc_unix rc ?t"
    "time_at_end (rc_dir rc) leg = fr_time (rc_tt rc) (rc_rtt rc) ?fr finish (rc_arr rc)"
    by (simp_all add: ride_leg_def at)
  from ends(4) show "time_at_end (rc_dir rc) leg = fr_time (rc_tt rc) (rc_rtt rc) ?fr finish (rc_arr rc)" .
  have flag: "fr_is_flag_set (rc_tt rc) (rc_rtt rc) ?fr f j (rc_dep rc)"
    if "f \<in> set (rc_required_flags rc)" "j \<in> ride_stops rc s finish" for f j
  proof -
    from e that(2) have nv: "\<not> violates_flags rc ?fr j flags" by blast
    show ?thesis
    proof (cases "flags ! route_flag_idx f")
      case True
      with nv show ?thesis by (cases f) (auto simp: violates_flags_def all_route_flags_def)
    next
      case False
      with flags [OF that(1)] have *: "\<And>x. fr_is_flag_set (rc_tt rc) (rc_rtt rc) ?fr f x Dep" by blast
      show ?thesis
      proof (cases "rc_fwd rc")
        case True
        then show ?thesis using * by (simp add: rc_dep_def)
      next
        case False
        with that(2) e size have "0 < j" "j < 65536" by (auto simp: ride_stops_def)
        with False * show ?thesis by (simp add: rc_dep_def section_flag_arr)
      qed
    qed
  qed
  let ?a = "if rc_fwd rc then s else finish" and ?b = "if rc_fwd rc then finish else s"
  have sections: "fr_is_flag_set (rc_tt rc) (rc_rtt rc) ?fr f x Dep" if "f \<in> set (rc_required_flags rc)" "x \<in> {?a..<?b}" for f x
  proof (cases "rc_fwd rc")
    case True
    with that flag [of f x] show ?thesis by (simp add: ride_stops_def rc_dep_def)
  next
    case False
    with that less have "x + 1 \<in> ride_stops rc s finish" "0 < x + 1" "x + 1 < 65536" by (auto simp: ride_stops_def)
    with that(1) False flag [of f "x + 1"] section_flag_arr [of "x + 1"] show ?thesis by (simp add: rc_dep_def)
  qed
  have ab: "?a < ?b" "?b < ?size" using e fin by (auto split: if_splits)
  then have "(?b + 1) mod 2 ^ 16 = ?b + 1" using size by simp
  then have uses: "leg_uses leg = UsesRun \<lparr>ree_run = r, ree_stop_range = mk_iv ?a (?b + 1)\<rparr>"
    using ab(1) by (auto simp: leg ride_leg_def mk_run_enter_exit_def max_def min_def)
  have "ride_ok rc r ?a ?b leg"
    unfolding ride_ok_def Let_def
    using uses usable ab sections ends exit e
    by (cases "rc_fwd rc")
       (auto simp: start_end_def dest_end_def time_at_start_def time_at_end_def at_event_def rc_arr_def rc_dep_def entry_allowed_def)
  then show "ridden rc k (get_location_idx (rc_tt rc) (rc_rtt rc) ?fr finish) w leg"
    unfolding ridden_def using ends e place by auto
qed

lemma flag_sections_keeps:
  "flag_sections flags r fs sf = Some sf' \<Longrightarrow> length sf' = length sf \<and> (\<forall>i < length sf. sf ! i \<longrightarrow> sf' ! i)"
proof (induction fs arbitrary: sf)
  case (Cons f fs)
  have one: "sf[n := True] ! i" if "sf ! i" "i < length sf" for i n using that by (cases "i = n") simp_all
  from Cons.prems consider "flag_sections flags r fs sf = Some sf'" | "flag_sections flags r fs (sf[route_flag_idx f := True]) = Some sf'"
    by (auto split: if_splits)
  then show ?case
  proof cases
    case 2
    from Cons.IH [OF this] one show ?thesis by simp
  qed (rule Cons.IH)
qed simp

lemma flag_sections_cover:
  "flag_sections flags r fs sf = Some sf' \<Longrightarrow> length sf = 4 \<Longrightarrow> f \<in> set fs \<Longrightarrow>
    sf' ! route_flag_idx f \<or> flags ! route_flag_idx f ! (r * 2)"
proof (induction fs arbitrary: sf)
  case (Cons g fs)
  show ?case
  proof (cases "f = g \<and> \<not> flags ! route_flag_idx f ! (r * 2)")
    case True
    with Cons.prems have "flag_sections flags r fs (sf[route_flag_idx f := True]) = Some sf'" by (auto split: if_splits)
    from flag_sections_keeps [OF this] Cons.prems(2) have "sf' ! route_flag_idx f"
      using route_flag_idx_less [of f] by simp
    then show ?thesis ..
  next
    case False
    with Cons show ?thesis by (auto split: if_splits)
  qed
qed simp

section \<open>Static and real-time rides\<close>

lemma frun_active:
  assumes "runs_ok rc" "rc_transport_active rc (t_idx tr) (t_day tr)" "run_t r = Some tr" "run_rt r = None"
  shows "frun (rc_rtt rc) r = r"
proof (cases "rc_rtt rc")
  case (Some rtt)
  with assms(1,2) have "static_trip_lookup rtt tr = None" by (auto simp: runs_ok_def rc_transport_active_def)
  with Some assms(3,4) show ?thesis
    by (cases r) (simp add: frun_def Let_def run_is_rt_def run_is_scheduled_def resolve_rt_def)
qed (simp add: frun_def)

lemma candidate_time:
  assumes ok: "runs_ok rc" and r: "r \<in> set rs" "rs \<in> set (location_routes (rc_tt rc))"
    and t: "t \<in> set (iv_list (route_transport_ranges (rc_tt rc) ! r))"
    and i: "i < length (route_location_seq (rc_tt rc) ! r)" "exit_at rc l (route_location_seq (rc_tt rc) ! r) i"
    and c: "route_candidate rc x i td t = Some (tr, ev)" and x: "- 32768 \<le> x" "x \<le> 32767"
  shows "t_idx tr = t \<and> rc_transport_active rc t (t_day tr) \<and>
    is_better_or_eq (rc_dir rc) (event_time (rc_tt rc) tr i (rc_arr rc)) (rc_unix rc x)"
proof (cases td)
  case True
  with c show ?thesis
    by (auto simp: route_candidate_def Let_def find_Some_iff split: prod.splits)
next
  case False
  have l: "stop_loc (stop_of_value (route_location_seq (rc_tt rc) ! r ! i)) = l" using i(2) by (simp add: exit_at_def Let_def)
  from ok r t i have count: "0 \<le> delta_count (event_mam (rc_tt rc) t i (rc_arr rc))" unfolding runs_ok_def using l by blast
  have "event_time (rc_tt rc) tr i (rc_arr rc) = rc_unix rc x"
    using c ok False by (intro candidate_exact [OF _ _ _ count x rc_active_512]) (auto simp: runs_ok_def)
  moreover have "t_idx tr = t \<and> rc_transport_active rc t (t_day tr)"
    using c False by (auto simp: route_candidate_def Let_def split: prod.splits if_splits)
  ultimately show ?thesis by simp
qed

lemma get_route_transport_ridden:
  assumes ok: "runs_ok rc" and r: "r \<in> set rs" "rs \<in> set (location_routes (rc_tt rc))"
    and i: "i < length (route_location_seq (rc_tt rc) ! r)" "exit_at rc l (route_location_seq (rc_tt rc) ! r) i"
    and allowed: "is_allowed (q_allowed_claszes (rc_q rc)) (route_clasz (rc_tt rc) ! r)"
    and flags: "flag_sections (route_flags (rc_tt rc)) r (rc_required_flags rc) (replicate 4 False) = Some flags"
    and x: "- 32768 \<le> x" "x \<le> 32767" and g: "get_route_transport rc k x r i flags td v = Some (w, leg)"
  shows "ridden rc k l w leg \<and> is_better_or_eq (rc_dir rc) (time_at_end (rc_dir rc) leg) (rc_unix rc x)"
proof -
  let ?tt = "rc_tt rc" and ?rtt = "rc_rtt rc"
  let ?seq = "route_location_seq ?tt ! r"
  from ok r have len: "length ?seq < 65536" unfolding runs_ok_def by blast
  from first_some_SomeD [OF g [unfolded get_route_transport_def]]
  obtain t tr ev where t: "t \<in> set (iv_list (route_transport_ranges ?tt ! r))" and c: "route_candidate rc x i td t = Some (tr, ev)"
    and found: "find_start_in_prev_round rc k \<lparr>run_t = Some tr, run_stop_range = mk_iv 0 (length ?seq mod 2 ^ 16), run_rt = None\<rparr> i flags v = Some (w, leg)"
    by (auto split: option.splits prod.splits)
  define R where "R = \<lparr>run_t = Some tr, run_stop_range = mk_iv 0 (length ?seq mod 2 ^ 16), run_rt = None\<rparr>"
  have f: "find_start_in_prev_round rc k R i flags v = Some (w, leg)" using found by (simp add: R_def)
  have R: "run_t R = Some tr" "run_rt R = None" "ifrom (run_stop_range R) = 0" by (simp_all add: R_def)
  from candidate_time [OF ok r t i c x] have tr: "t_idx tr = t" "rc_transport_active rc (t_idx tr) (t_day tr)"
    and time: "is_better_or_eq (rc_dir rc) (event_time ?tt tr i (rc_arr rc)) (rc_unix rc x)" by auto
  have fr: "frun ?rtt R = R" by (rule frun_active [OF ok tr(2) R(1,2)])
  from ok r t have route: "transport_route ?tt ! t = r" unfolding runs_ok_def by blast
  have none: "fr_rt ?rtt R = None" by (simp add: fr_rt_def R split: option.split)
  have seq: "fr_location_seq ?tt ?rtt R = ?seq" by (simp add: fr_location_seq_def none fr_route_def R tr(1) route)
  have stop: "get_stop ?tt ?rtt R j = stop_of_value (?seq ! j)" for j by (simp add: get_stop_def seq)
  have at_l: "get_location_idx ?tt ?rtt R i = l" using i(2) by (simp add: get_location_idx_def stop exit_at_def Let_def)
  have fin: "i < fr_size ?tt ?rtt (frun ?rtt R)" unfolding fr
    using i(1) len by (simp add: fr_size_def none run_is_scheduled_def seq R)
  obtain s where s: "entered rc k R i flags w leg s" using find_start_entered [OF f R(3) fin] by blast
  have usable: "run_usable rc R" using tr allowed by (simp add: run_usable_def route R)
  have exit: "if rc_fwd rc then fr_out_allowed ?tt ?rtt (frun ?rtt R) i (rc_wheelchair rc)
      else fr_in_allowed ?tt ?rtt (frun ?rtt R) i (rc_wheelchair rc)"
    unfolding fr using i(2) by (auto simp: fr_in_allowed_def fr_out_allowed_def stop exit_at_def Let_def split: if_splits)
  have flag: "flags ! route_flag_idx f \<or> fr_is_flag_set ?tt ?rtt (frun ?rtt R) f j Dep"
    if "f \<in> set (rc_required_flags rc)" for f j
    using flag_sections_cover [OF flags _ that]
    by (auto simp: fr fr_is_flag_set_def none section_flag_def fr_route_def R tr(1) route)
  from ok r have "\<And>x. x \<in> set ?seq \<Longrightarrow> stop_loc (stop_of_value x) < n_places rc" unfolding runs_ok_def by blast
  then have place: "get_location_idx ?tt ?rtt (frun ?rtt R) j < n_places rc" if "j < fr_size ?tt ?rtt (frun ?rtt R)" for j
    using that len by (simp add: fr get_location_idx_def stop fr_size_def none run_is_scheduled_def seq R)
  note ridden = entered_ride_ok [OF s R(3) fin usable exit flag place]
  from ridden(2) have "time_at_end (rc_dir rc) leg = event_time ?tt tr i (rc_arr rc)" by (simp add: fr fr_time_def none R)
  with ridden(1) time show ?thesis by (simp add: fr at_l)
qed

lemma get_static_transport_ridden:
  assumes ok: "runs_ok rc" and r: "r \<in> set rs" "rs \<in> set (location_routes (rc_tt rc))" and x: "- 32768 \<le> x" "x \<le> 32767"
    and g: "get_static_transport rc k l x td v r = Some (w, leg)"
  shows "ridden rc k l w leg \<and> is_better_or_eq (rc_dir rc) (time_at_end (rc_dir rc) leg) (rc_unix rc x)"
proof -
  let ?seq = "route_location_seq (rc_tt rc) ! r"
  from ok r have len: "length ?seq < 65536" unfolding runs_ok_def by blast
  from g obtain flags where allowed: "is_allowed (q_allowed_claszes (rc_q rc)) (route_clasz (rc_tt rc) ! r)"
    and flags: "flag_sections (route_flags (rc_tt rc)) r (rc_required_flags rc) (replicate 4 False) = Some flags"
    and some: "first_some (\<lambda>i. if \<not> exit_at rc l ?seq i then None
        else get_route_transport rc k x r (i mod 2 ^ 16) flags td v) [0..<length ?seq] = Some (w, leg)"
    unfolding get_static_transport_def by (auto simp: Let_def split: if_splits option.splits)
  from first_some_SomeD [OF some] obtain i where i: "i < length ?seq" "exit_at rc l ?seq i"
    and g: "get_route_transport rc k x r (i mod 2 ^ 16) flags td v = Some (w, leg)" by (auto split: if_splits)
  have "i mod 2 ^ 16 = i" using i(1) len by simp
  with g have "get_route_transport rc k x r i flags td v = Some (w, leg)" by simp
  from get_route_transport_ridden [OF ok r i allowed flags x this] show ?thesis .
qed

lemma frun_from_rt: "run_rt (from_rt rtt rt_t) = Some rt_t" "frun (Some rtt) (from_rt rtt rt_t) = from_rt rtt rt_t"
  "ifrom (run_stop_range (from_rt rtt rt_t)) = 0"
  by (simp_all add: from_rt_def frun_def run_is_rt_def run_is_scheduled_def Let_def)

lemma get_rt_transport_ridden:
  assumes ok: "runs_ok rc" and rtt: "rc_rtt rc = Some rtt" and t: "rt_t \<in> set ts" "ts \<in> set (location_rt_transports rtt)"
    and g: "get_rt_transport rc rtt k l x v rt_t = Some (w, leg)"
  shows "ridden rc k l w leg \<and> is_better_or_eq (rc_dir rc) (time_at_end (rc_dir rc) leg) (rc_unix rc x)"
proof -
  let ?tt = "rc_tt rc" and ?rtt = "rc_rtt rc" and ?seq = "rt_location_seq rtt ! rt_t" and ?r = "from_rt rtt rt_t"
  from ok rtt t have len: "length ?seq < 65536" unfolding runs_ok_def by blast
  from g obtain flags where allowed: "is_allowed (q_allowed_claszes (rc_q rc)) (rt_section_clasz rtt ! rt_t ! 0)"
    and flags: "flag_sections (rt_transport_flags rtt) rt_t (rc_required_flags rc) (replicate 4 False) = Some flags"
    and some: "first_some (\<lambda>i. if \<not> exit_at rc l ?seq i \<or>
          \<not> is_better_or_eq (rc_dir rc) (fr_time ?tt ?rtt ?r (fr_at ?r (i mod 2 ^ 16)) (rc_arr rc)) (rc_unix rc x)
        then None else find_start_in_prev_round rc k ?r (i mod 2 ^ 16) flags v) [0..<length ?seq] = Some (w, leg)"
    unfolding get_rt_transport_def by (auto simp: Let_def split: if_splits option.splits)
  from first_some_SomeD [OF some] obtain i where i: "i < length ?seq" "exit_at rc l ?seq i"
    and time: "is_better_or_eq (rc_dir rc) (fr_time ?tt ?rtt ?r (fr_at ?r (i mod 2 ^ 16)) (rc_arr rc)) (rc_unix rc x)"
    and f: "find_start_in_prev_round rc k ?r (i mod 2 ^ 16) flags v = Some (w, leg)" by (auto split: if_splits)
  have im: "i mod 2 ^ 16 = i" "i < 65536" using i(1) len by simp_all
  note f = f [unfolded im(1)] and time = time [unfolded im(1) fr_at_zero [OF frun_from_rt(3) im(2)]]
  have fr: "frun ?rtt ?r = ?r" unfolding rtt by (rule frun_from_rt)
  have here: "fr_rt ?rtt ?r = Some (rtt, rt_t)" by (simp add: fr_rt_def rtt frun_from_rt)
  have seq: "fr_location_seq ?tt ?rtt ?r = ?seq" by (simp add: fr_location_seq_def here)
  have stop: "get_stop ?tt ?rtt ?r j = stop_of_value (?seq ! j)" for j by (simp add: get_stop_def seq)
  have at_l: "get_location_idx ?tt ?rtt ?r i = l" using i(2) by (simp add: get_location_idx_def stop exit_at_def Let_def)
  have fin: "i < fr_size ?tt ?rtt (frun ?rtt ?r)" unfolding fr using i(1) len by (simp add: fr_size_def here seq)
  obtain s where s: "entered rc k ?r i flags w leg s" using find_start_entered [OF f frun_from_rt(3) fin] by blast
  have usable: "run_usable rc ?r" using allowed rtt by (simp add: run_usable_def frun_from_rt)
  have exit: "if rc_fwd rc then fr_out_allowed ?tt ?rtt (frun ?rtt ?r) i (rc_wheelchair rc)
      else fr_in_allowed ?tt ?rtt (frun ?rtt ?r) i (rc_wheelchair rc)"
    unfolding fr using i(2) by (auto simp: fr_in_allowed_def fr_out_allowed_def stop exit_at_def Let_def split: if_splits)
  have flag: "flags ! route_flag_idx f \<or> fr_is_flag_set ?tt ?rtt (frun ?rtt ?r) f j Dep"
    if "f \<in> set (rc_required_flags rc)" for f j
    using flag_sections_cover [OF flags _ that] by (auto simp: fr fr_is_flag_set_def here section_flag_def)
  from ok rtt t have "\<And>x. x \<in> set ?seq \<Longrightarrow> stop_loc (stop_of_value x) < n_places rc" unfolding runs_ok_def by blast
  then have place: "get_location_idx ?tt ?rtt (frun ?rtt ?r) j < n_places rc" if "j < fr_size ?tt ?rtt (frun ?rtt ?r)" for j
    using that len by (simp add: fr get_location_idx_def stop fr_size_def here seq)
  note R = entered_ride_ok [OF s frun_from_rt(3) fin usable exit flag place]
  from R(1,2) time show ?thesis by (simp add: fr at_l)
qed

lemma get_transport_ridden:
  assumes ok: "runs_ok rc" and l: "l < length (location_routes (rc_tt rc))" and x: "- 32768 \<le> x" "x \<le> 32767"
    and g: "get_transport rc k l x td v = Some (w, leg)"
  shows "ridden rc k l w leg \<and> is_better_or_eq (rc_dir rc) (time_at_end (rc_dir rc) leg) (rc_unix rc x)"
proof -
  from g consider rtt where "rc_rtt rc = Some rtt"
      "first_some (get_rt_transport rc rtt k l x v) (location_rt_transports rtt ! l) = Some (w, leg)"
    | "first_some (get_static_transport rc k l x td v) (location_routes (rc_tt rc) ! l) = Some (w, leg)"
    by (auto simp: get_transport_def split: option.splits)
  then show ?thesis
  proof cases
    case (1 rtt)
    from first_some_SomeD [OF 1(2)] obtain t where "t \<in> set (location_rt_transports rtt ! l)"
      "get_rt_transport rc rtt k l x v t = Some (w, leg)" by blast
    moreover have "length (location_rt_transports rtt) = length (location_routes (rc_tt rc))"
      using ok 1(1) by (simp add: runs_ok_def)
    then have "location_rt_transports rtt ! l \<in> set (location_rt_transports rtt)" using l by simp
    ultimately show ?thesis using get_rt_transport_ridden [OF ok 1(1)] by blast
  next
    case 2
    from first_some_SomeD [OF 2] obtain r where "r \<in> set (location_routes (rc_tt rc) ! l)"
      "get_static_transport rc k l x td v r = Some (w, leg)" by blast
    then show ?thesis using get_static_transport_ridden [OF ok _ nth_mem [OF l] x] by blast
  qed
qed

section \<open>Walks\<close>

abbreviation rc_prf :: "recon \<Rightarrow> nat" where "rc_prf rc \<equiv> q_prf_idx (rc_q rc)"

definition walk_table :: "recon \<Rightarrow> footpath list list" where
  "walk_table rc = (if rc_fwd rc then footpaths_in (rc_tt rc) else footpaths_out (rc_tt rc)) ! rc_prf rc"

definition td_walk_table :: "recon \<Rightarrow> rt_timetable \<Rightarrow> td_footpath list list" where
  "td_walk_table rc rtt = (if rc_fwd rc then td_footpaths_in rtt else td_footpaths_out rtt) ! rc_prf rc"

text \<open>A walk of \<open>m\<close> minutes that ends at the stop \<open>l\<close> at the time \<open>e\<close>, from the stop \<open>t\<close> nearer to the
  start: a change at the stop itself with its transfer time, a footpath of the table, or a time-dependent
  one that is offered for an arrival not before \<open>e\<close>.\<close>

definition stop_change :: "recon \<Rightarrow> nat \<Rightarrow> int" where
  "stop_change rc l = min 511 (adjusted_transfer_time u8 (q_transfer_time_settings (rc_q rc)) (transfer_time (rc_tt rc) ! l))"

definition known_walk :: "recon \<Rightarrow> nat \<Rightarrow> nat \<Rightarrow> int \<Rightarrow> int \<Rightarrow> bool" where
  "known_walk rc l t e m \<longleftrightarrow> l = t \<and> stop_change rc l \<le> m \<or>
     (\<exists>fp \<in> set (walk_table rc ! l). fp_target fp = t \<and>
        adjusted_transfer_time i16 (q_transfer_time_settings (rc_q rc)) (fp_duration fp) \<le> m) \<or>
     (\<exists>rtt T d w. rc_rtt rc = Some rtt \<and> rc_has_td rc (\<not> rc_fwd rc) l \<and>
        (t, d, w) \<in> set (for_each_footpath (flip (rc_dir rc)) (td_walk_table rc rtt ! l) T) \<and>
        is_better_or_eq (rc_dir rc) e T \<and> d \<le> m)"

text \<open>The legs that are no rides.\<close>

definition walk_ok :: "recon \<Rightarrow> leg \<Rightarrow> bool" where
  "walk_ok rc leg =
     (case leg_uses leg of
        UsesFootpath fp \<Rightarrow>
          known_walk rc (dest_end (rc_dir rc) leg) (start_end (rc_dir rc) leg) (time_at_end (rc_dir rc) leg)
            (leg_arr_time leg - leg_dep_time leg) \<and>
          leg_dep_time leg + min (fp_duration fp) (adjusted_transfer_time i16 (q_transfer_time_settings (rc_q rc)) (fp_duration fp))
            \<le> leg_arr_time leg
      | UsesOffset o' \<Rightarrow> 0 \<le> off_duration o' \<longrightarrow> leg_dep_time leg + off_duration o' = leg_arr_time leg
      | UsesRun r \<Rightarrow> False)"

definition uses_offset :: "leg \<Rightarrow> bool" where
  "uses_offset leg = (case leg_uses leg of UsesOffset o' \<Rightarrow> True | _ \<Rightarrow> False)"

text \<open>Where an offset may end a journey: it is one of the destination of the query, for a stop that stands
  for its target.\<close>

definition dest_offset :: "recon \<Rightarrow> leg \<Rightarrow> offset \<Rightarrow> bool" where
  "dest_offset rc leg o' \<longleftrightarrow> q_dest_match_mode (rc_q rc) = kIntermodal \<and> off_target o' = start_end (rc_dir rc) leg \<and>
     (\<exists>place. off_target o' \<in> set (for_each_meta (rc_tt rc) kIntermodal place) \<and>
        (o'\<lparr>off_target := place\<rparr> \<in> set (q_destination (rc_q rc)) \<or>
         (\<exists>td fp T. (place, td) \<in> set (q_td_dest (rc_q rc)) \<and>
            get_td_duration (flip (rc_dir rc)) td T = Some (off_duration o', fp) \<and>
            is_better_or_eq (rc_dir rc) (time_at_end (rc_dir rc) leg) T)))"

definition ends_ok :: "recon \<Rightarrow> leg \<Rightarrow> bool" where
  "ends_ok rc leg = (case leg_uses leg of UsesOffset o' \<Rightarrow> dest_offset rc leg o' | _ \<Rightarrow> True)"

lemma no_offset_ends: "\<not> uses_offset leg \<Longrightarrow> ends_ok rc leg"
  by (simp add: uses_offset_def ends_ok_def split: leg_uses.splits)

definition leg_ok :: "recon \<Rightarrow> leg \<Rightarrow> bool" where
  "leg_ok rc leg \<longleftrightarrow> walk_ok rc leg \<or> (\<exists>r a b. ride_ok rc r a b leg)"

lemma ride_no_offset: "ride_ok rc r a b leg \<Longrightarrow> \<not> uses_offset leg"
  by (simp add: ride_ok_def Let_def uses_offset_def)

text \<open>Walks lead to stops of the timetable.\<close>

definition places_ok :: "recon \<Rightarrow> bool" where
  "places_ok rc \<longleftrightarrow>
     (\<forall>l < n_places rc. \<forall>fp \<in> set (walk_table rc ! l). fp_target fp < n_places rc) \<and>
     (\<forall>rtt. rc_rtt rc = Some rtt \<longrightarrow> (\<forall>l < n_places rc. \<forall>fp \<in> set (td_walk_table rc rtt ! l). td_target fp < n_places rc)) \<and>
     (\<forall>t \<in> off_target ` set (q_destination (rc_q rc)) \<union> fst ` set (q_td_dest (rc_q rc)).
        \<forall>e \<in> set (for_each_meta (rc_tt rc) kIntermodal t). e < n_places rc)"

text \<open>Stays and walks are short enough, and the labels far enough from the limits, for 16 bits.\<close>

definition short_walks :: "recon \<Rightarrow> bool" where
  "short_walks rc \<longleftrightarrow> (\<forall>s < rc_n_vias rc. 0 \<le> via_stay (q_via_stops (rc_q rc) ! s) \<and> via_stay (q_via_stops (rc_q rc) ! s) \<le> 2880) \<and>
     (\<forall>x. 0 \<le> x \<and> x \<le> 511 \<longrightarrow>
        0 \<le> adjusted_transfer_time i16 (q_transfer_time_settings (rc_q rc)) x \<and>
        adjusted_transfer_time i16 (q_transfer_time_settings (rc_q rc)) x \<le> 4000) \<and>
     (\<forall>l < n_places rc. \<forall>fp \<in> set (walk_table rc ! l). 0 \<le> fp_duration fp \<and> fp_duration fp \<le> 511)"

definition calm :: "recon \<Rightarrow> int \<Rightarrow> bool" where
  "calm rc x \<longleftrightarrow> - 20000 \<le> dir (rc_dir rc) x \<and> - 32768 \<le> x \<and> x \<le> 32767"

definition labels_calm :: "recon \<Rightarrow> nat \<Rightarrow> bool" where
  "labels_calm rc n \<longleftrightarrow> (\<forall>k \<le> n. \<forall>l < n_places rc. \<forall>v \<le> rc_n_vias rc. calm rc (at3 (rc_times rc) k l v))"

lemma calm_sub:
  assumes "calm rc x" "0 \<le> a" "a \<le> 9760"
  shows "i16 (x - dir (rc_dir rc) a) = x - dir (rc_dir rc) a"
    "- 32768 \<le> x - dir (rc_dir rc) a" "x - dir (rc_dir rc) a \<le> 32767"
proof -
  show "- 32768 \<le> x - dir (rc_dir rc) a" "x - dir (rc_dir rc) a \<le> 32767"
    using assms by (cases "rc_dir rc"; simp add: calm_def dir_def)+
  then show "i16 (x - dir (rc_dir rc) a) = x - dir (rc_dir rc) a" by (intro wrap_s16_id) simp_all
qed

lemma count_fp_vias_bounds:
  assumes "count_fp_vias rc l t v = Some (w, a, b)" "v \<le> rc_n_vias rc" "short_walks rc"
  shows "w \<le> v \<and> 0 \<le> a \<and> a \<le> 2880 \<and> 0 \<le> b \<and> b \<le> 2880"
proof -
  have stay: "0 \<le> via_stay (q_via_stops (rc_q rc) ! s)" "via_stay (q_via_stops (rc_q rc) ! s) \<le> 2880" if "s < v" for s
    using assms(2,3) that by (simp_all add: short_walks_def)
  have "0 < v \<Longrightarrow> v - 1 < v" "1 < v \<Longrightarrow> v - 1 - 1 < v" by simp_all
  note S = stay [OF this(1)] stay [OF this(2)]
  show ?thesis using assms(1) S by (auto simp: count_fp_vias_def Let_def split: if_splits)
qed

text \<open>What \<open>check_fp\<close> finds: a walk that reaches the label at \<open>l\<close> and the ride before it.\<close>

definition linked :: "recon \<Rightarrow> nat \<Rightarrow> nat \<Rightarrow> int \<Rightarrow> nat \<Rightarrow> leg \<Rightarrow> leg \<Rightarrow> bool" where
  "linked rc k l x w wl rl \<longleftrightarrow> ridden rc k (start_end (rc_dir rc) wl) w rl \<and> meets (rc_dir rc) wl rl \<and>
     dest_end (rc_dir rc) wl = l \<and> is_better_or_eq (rc_dir rc) (time_at_end (rc_dir rc) wl) (rc_unix rc x) \<and> walk_ok rc wl"

lemma fp_attempt_linked:
  assumes ok: "runs_ok rc" "fp_target fp < n_places rc" "calm rc x"
    and d: "0 \<le> dur" "dur \<le> 4000" "0 \<le> a" "a \<le> 2880" "0 \<le> b" "b \<le> 2880"
    and g: "fp_attempt rc k l x fp dur td (w, a, b) = Some (w', wl, rl)"
  shows "ridden rc k (start_end (rc_dir rc) wl) w' rl \<and> meets (rc_dir rc) wl rl \<and> dest_end (rc_dir rc) wl = l \<and>
    is_better_or_eq (rc_dir rc) (time_at_end (rc_dir rc) wl) (rc_unix rc x) \<and> leg_uses wl = UsesFootpath fp \<and>
    start_end (rc_dir rc) wl = fp_target fp \<and> leg_dep_time wl + dur = leg_arr_time wl"
proof -
  let ?d = "dir (rc_dir rc)"
  have sum: "0 \<le> dur + a" "dur + a \<le> 9760" "0 \<le> dur + a + b" "dur + a + b \<le> 9760" using d by simp_all
  note A = calm_sub [OF ok(3) sum(1,2)] and B = calm_sub [OF ok(3) sum(3,4)]
  have "0 \<le> a" "a \<le> 9760" using d by simp_all
  note C = calm_sub [OF ok(3) this]
  have add: "x - ?d (dur + a) + ?d dur = x - ?d a" by (cases "rc_dir rc") (simp_all add: dir_def)
  from g obtain t: "get_transport rc k (fp_target fp) (x - ?d (dur + a + b)) td w = Some (w', rl)"
    and wl: "wl = mk_leg (rc_dir rc) (fp_target fp) l (rc_unix rc (x - ?d (dur + a))) (rc_unix rc (x - ?d a)) (UsesFootpath fp)"
    by (auto simp: fp_attempt_def Let_def A(1) B(1) C(1) add split: option.splits)
  from get_transport_ridden [OF ok(1,2) B(2,3) t]
  have R: "ridden rc k (fp_target fp) w' rl" "is_better_or_eq (rc_dir rc) (time_at_end (rc_dir rc) rl) (rc_unix rc (x - ?d (dur + a + b)))"
    by simp_all
  have "is_better_or_eq (rc_dir rc) (rc_unix rc (x - ?d (dur + a + b))) (rc_unix rc (x - ?d (dur + a)))"
    using d by (cases "rc_dir rc") (simp_all add: rc_unix_def delta_to_unix_def is_better_or_eq_def dir_def)
  from better_or_eq_trans [OF R(2) this] R(1) have "meets (rc_dir rc) wl rl"
    by (simp add: meets_def wl ridden_def)
  moreover have "is_better_or_eq (rc_dir rc) (rc_unix rc (x - ?d a)) (rc_unix rc x)"
    unfolding rc_unix_mono using d(3) by (rule better_or_eq_sub)
  moreover have "leg_dep_time wl + dur = leg_arr_time wl"
    by (cases "rc_dir rc") (simp_all add: wl mk_leg_def rc_unix_def delta_to_unix_def dir_def)
  ultimately show ?thesis using R(1) by (simp add: wl)
qed

lemma check_fp_linked:
  assumes ok: "runs_ok rc" "short_walks rc" "fp_target fp < n_places rc" "calm rc x" "v \<le> rc_n_vias rc"
    and d: "0 \<le> fp_duration fp" "fp_duration fp \<le> 511"
    and g: "check_fp rc k l x fp adj td v = Some (w, wl, rl)"
  shows "ridden rc k (start_end (rc_dir rc) wl) w rl \<and> meets (rc_dir rc) wl rl \<and> dest_end (rc_dir rc) wl = l \<and>
    is_better_or_eq (rc_dir rc) (time_at_end (rc_dir rc) wl) (rc_unix rc x) \<and> leg_uses wl = UsesFootpath fp \<and>
    start_end (rc_dir rc) wl = fp_target fp \<and>
    leg_dep_time wl + (if adj then adjusted_transfer_time i16 (q_transfer_time_settings (rc_q rc)) (fp_duration fp)
      else fp_duration fp) = leg_arr_time wl"
proof -
  let ?adjusted = "adjusted_transfer_time i16 (q_transfer_time_settings (rc_q rc)) (fp_duration fp)"
  define dur where "dur = (if adj then ?adjusted else fp_duration fp)"
  have "0 \<le> ?adjusted" "?adjusted \<le> 4000" using ok(2) d by (simp_all add: short_walks_def)
  then have dur: "0 \<le> dur" "dur \<le> 4000" using d by (simp_all add: dur_def)
  from g consider c where "count_fp_vias rc l (fp_target fp) v = Some c" "fp_attempt rc k l x fp dur td c = Some (w, wl, rl)"
    | "fp_attempt rc k l x fp dur td (v, 0, 0) = Some (w, wl, rl)"
    by (auto simp: check_fp_def Let_def dur_def [symmetric] split: option.splits)
  then have "ridden rc k (start_end (rc_dir rc) wl) w rl \<and> meets (rc_dir rc) wl rl \<and> dest_end (rc_dir rc) wl = l \<and>
    is_better_or_eq (rc_dir rc) (time_at_end (rc_dir rc) wl) (rc_unix rc x) \<and> leg_uses wl = UsesFootpath fp \<and>
    start_end (rc_dir rc) wl = fp_target fp \<and> leg_dep_time wl + dur = leg_arr_time wl"
  proof cases
    case (1 c)
    obtain u a b where c: "c = (u, a, b)" by (cases c)
    from count_fp_vias_bounds [OF 1(1) [unfolded c] ok(5,2)] have "0 \<le> a" "a \<le> 2880" "0 \<le> b" "b \<le> 2880" by simp_all
    from fp_attempt_linked [OF ok(1,3,4) dur this 1(2) [unfolded c]] show ?thesis .
  next
    case 2
    show ?thesis by (rule fp_attempt_linked [OF ok(1,3,4) dur _ _ _ _ 2]) simp_all
  qed
  then show ?thesis unfolding dur_def .
qed

lemma mk_footpath_range:
  assumes "mk_footpath t x = Some fp"
  shows "fp_target fp = t \<and> 0 \<le> fp_duration fp \<and> fp_duration fp \<le> 511 \<and> (0 \<le> x \<longrightarrow> fp_duration fp = min x 511)"
proof -
  from assms have t: "t < 8388607" and fp: "fp = \<lparr>fp_target = t mod 8388608, fp_duration = (if 511 < x then 511 else x) mod 512\<rparr>"
    by (auto simp: mk_footpath_def split: if_splits)
  have "(if 511 < x then 511 else x) mod 512 < 512" "0 \<le> (if 511 < x then 511 else x) mod 512" by simp_all
  then show ?thesis using t by (auto simp: fp min_def)
qed

text \<open>A found walk of the tables is a link.\<close>

lemma check_fp_known:
  assumes ok: "runs_ok rc" "short_walks rc" "fp_target fp < n_places rc" "calm rc x" "v \<le> rc_n_vias rc"
    and d: "0 \<le> fp_duration fp" "fp_duration fp \<le> 511"
    and known: "\<And>e. is_better_or_eq (rc_dir rc) e (rc_unix rc x) \<Longrightarrow> known_walk rc l (fp_target fp) e
      (if adj then adjusted_transfer_time i16 (q_transfer_time_settings (rc_q rc)) (fp_duration fp) else fp_duration fp)"
    and g: "check_fp rc k l x fp adj td v = Some (w, wl, rl)"
  shows "linked rc k l x w wl rl \<and> \<not> uses_offset wl"
proof -
  let ?adjusted = "adjusted_transfer_time i16 (q_transfer_time_settings (rc_q rc)) (fp_duration fp)"
  let ?m = "if adj then ?adjusted else fp_duration fp"
  note C = check_fp_linked [OF ok d g]
  then have "is_better_or_eq (rc_dir rc) (time_at_end (rc_dir rc) wl) (rc_unix rc x)" by blast
  note K = known [OF this]
  from C have m: "leg_arr_time wl - leg_dep_time wl = ?m" by linarith
  moreover have "min (fp_duration fp) ?adjusted \<le> ?m" by simp
  ultimately have "leg_dep_time wl + min (fp_duration fp) ?adjusted \<le> leg_arr_time wl" by linarith
  moreover have "known_walk rc (dest_end (rc_dir rc) wl) (start_end (rc_dir rc) wl) (time_at_end (rc_dir rc) wl)
      (leg_arr_time wl - leg_dep_time wl)"
    unfolding m using C K by (simp only:)
  ultimately have "walk_ok rc wl" using C by (simp add: walk_ok_def)
  with C show ?thesis by (auto simp: linked_def uses_offset_def)
qed

text \<open>The conditions under which the searches of one round are called.\<close>

definition round_ok :: "recon \<Rightarrow> nat \<Rightarrow> nat \<Rightarrow> nat \<Rightarrow> bool" where
  "round_ok rc k l v \<longleftrightarrow> runs_ok rc \<and> places_ok rc \<and> short_walks rc \<and> l < n_places rc \<and> v \<le> rc_n_vias rc \<and>
     calm rc (at3 (rc_times rc) k l v)"

text \<open>Loops that end at, or go on after, a match.\<close>

lemma try_all_same:
  assumes "try_all f xs v = Some (w, ret)"
    and "\<And>x w ret. x \<in> set xs \<Longrightarrow> f x v = Some (w, ret) \<Longrightarrow> (ret = None \<longrightarrow> w = v) \<and> w \<le> n \<and> (\<forall>y. ret = Some y \<longrightarrow> P v w y)"
  shows "(ret = None \<longrightarrow> w = v) \<and> (\<forall>y. ret = Some y \<longrightarrow> P v w y)"
  using assms
proof (induction xs)
  case (Cons x xs)
  from Cons.prems(1) obtain u r where f: "f x v = Some (u, r)" by (auto split: option.splits)
  from Cons.prems(2) [OF _ f] have u: "r = None \<longrightarrow> u = v" "\<forall>y. r = Some y \<longrightarrow> P v u y" by simp_all
  show ?case
  proof (cases r)
    case None
    with u f Cons.prems(1) have "try_all f xs v = Some (w, ret)" by simp
    then show ?thesis by (rule Cons.IH) (use Cons.prems(2) in auto)
  next
    case (Some y)
    with f Cons.prems(1) have "w = u" "ret = Some y" by simp_all
    with u Some show ?thesis by simp
  qed
qed simp

text \<open>A link that is an offset: the given one, for a stop that stands for its target.\<close>

definition offset_linked :: "recon \<Rightarrow> nat \<Rightarrow> nat \<Rightarrow> int \<Rightarrow> offset \<Rightarrow> nat \<Rightarrow> leg \<Rightarrow> leg \<Rightarrow> bool" where
  "offset_linked rc k l x o' w wl rl \<longleftrightarrow> linked rc k l x w wl rl \<and>
     (\<exists>eq \<in> set (for_each_meta (rc_tt rc) kIntermodal (off_target o')).
        leg_uses wl = UsesOffset (o'\<lparr>off_target := eq\<rparr>) \<and> start_end (rc_dir rc) wl = eq)"

lemma offset_linked_ends:
  assumes "offset_linked rc k l x o' w wl rl" "q_dest_match_mode (rc_q rc) = kIntermodal"
    and "o' \<in> set (q_destination (rc_q rc)) \<or>
      (\<exists>td fp. (off_target o', td) \<in> set (q_td_dest (rc_q rc)) \<and> get_td_duration (flip (rc_dir rc)) td (rc_unix rc x) = Some (off_duration o', fp))"
  shows "linked rc k l x w wl rl \<and> ends_ok rc wl"
proof -
  from assms(1) obtain eq where L: "linked rc k l x w wl rl" and eq: "eq \<in> set (for_each_meta (rc_tt rc) kIntermodal (off_target o'))"
    "leg_uses wl = UsesOffset (o'\<lparr>off_target := eq\<rparr>)" "start_end (rc_dir rc) wl = eq" by (auto simp: offset_linked_def)
  have same: "o'\<lparr>off_target := eq, off_target := off_target o'\<rparr> = o'" by (cases o') simp
  have T: "is_better_or_eq (rc_dir rc) (time_at_end (rc_dir rc) wl) (rc_unix rc x)" using L by (simp add: linked_def)
  have "dest_offset rc wl (o'\<lparr>off_target := eq\<rparr>)"
    unfolding dest_offset_def
  proof (intro conjI exI [of _ "off_target o'"])
    from assms(3) T same show "o'\<lparr>off_target := eq, off_target := off_target o'\<rparr> \<in> set (q_destination (rc_q rc)) \<or>
        (\<exists>td fp T. (off_target o', td) \<in> set (q_td_dest (rc_q rc)) \<and>
           get_td_duration (flip (rc_dir rc)) td T = Some (off_duration (o'\<lparr>off_target := eq\<rparr>), fp) \<and>
           is_better_or_eq (rc_dir rc) (time_at_end (rc_dir rc) wl) T)" by auto
  qed (use assms(2) eq in simp_all)
  with L eq(2) show ?thesis by (simp add: ends_ok_def)
qed

lemma find_dest_leg_linked:
  assumes ok: "round_ok rc k l v" and places: "\<And>e. e \<in> set (for_each_meta (rc_tt rc) kIntermodal (off_target o')) \<Longrightarrow> e < n_places rc"
    and g: "find_dest_leg rc k l o' td v = Some (w, ret)"
  shows "(ret = None \<longrightarrow> w = v) \<and> w \<le> rc_n_vias rc \<and>
    (\<forall>wl rl. ret = Some (wl, rl) \<longrightarrow> offset_linked rc k l (at3 (rc_times rc) k l v) o' w wl rl)"
proof (cases "kMaxDuration \<le> off_duration o'")
  case True
  with g ok show ?thesis by (simp add: find_dest_leg_def round_ok_def)
next
  case False
  let ?x = "at3 (rc_times rc) k l v"
  let ?P = "\<lambda>acc. \<forall>w ret. acc = Some (w, ret) \<longrightarrow> (ret = None \<longrightarrow> w = v) \<and> w \<le> rc_n_vias rc \<and>
    (\<forall>wl rl. ret = Some (wl, rl) \<longrightarrow> offset_linked rc k l ?x o' w wl rl)"
  let ?f = "\<lambda>eq acc. case acc of None \<Rightarrow> None
     | Some (v, ret) \<Rightarrow>
         (case mk_footpath eq (off_duration o') of None \<Rightarrow> None
          | Some fp \<Rightarrow>
              (case check_fp rc k l ?x fp False td v of
                 None \<Rightarrow> Some (v, ret)
               | Some (v', fp_leg, transport_leg) \<Rightarrow>
                   Some (v', Some (fp_leg\<lparr>leg_uses := UsesOffset (o'\<lparr>off_target := eq\<rparr>)\<rparr>, transport_leg))))"
  let ?eqs = "for_each_meta (rc_tt rc) kIntermodal (off_target o')"
  have "?P (fold ?f ?eqs (Some (v, None)))"
  proof (rule fold_invariant [where P = ?P])
    show "?P (Some (v, None))" using ok by (simp add: round_ok_def)
  next
    fix eq acc assume eq: "eq \<in> set ?eqs" and acc: "?P acc"
    show "?P (?f eq acc)"
    proof (intro allI impI)
      fix w ret assume step: "?f eq acc = Some (w, ret)"
      then obtain u r fp where a: "acc = Some (u, r)" and fp: "mk_footpath eq (off_duration o') = Some fp"
        by (auto split: option.splits prod.splits)
      from acc a have u: "(r = None \<longrightarrow> u = v) \<and> u \<le> rc_n_vias rc \<and> (\<forall>wl rl. r = Some (wl, rl) \<longrightarrow> offset_linked rc k l ?x o' u wl rl)" by blast
      show "(ret = None \<longrightarrow> w = v) \<and> w \<le> rc_n_vias rc \<and> (\<forall>wl rl. ret = Some (wl, rl) \<longrightarrow> offset_linked rc k l ?x o' w wl rl)"
      proof (cases "check_fp rc k l ?x fp False td u")
        case None
        with step a fp have "w = u" "ret = r" by simp_all
        with u show ?thesis by simp
      next
        case (Some y)
        obtain u' wl rl where y: "y = (u', wl, rl)" by (cases y)
        note F = mk_footpath_range [OF fp]
        have target: "fp_target fp < n_places rc" using F places [OF eq] by simp
        from ok have ok': "runs_ok rc" "short_walks rc" "calm rc ?x" by (simp_all add: round_ok_def)
        from u F have u: "u \<le> rc_n_vias rc" and fpd: "0 \<le> fp_duration fp" "fp_duration fp \<le> 511" by simp_all
        note C = check_fp_linked [OF ok'(1,2) target ok'(3) u fpd Some [unfolded y]]
        from False F have "0 \<le> off_duration o' \<longrightarrow> fp_duration fp = off_duration o'" by simp
        moreover from C have "leg_dep_time wl + fp_duration fp = leg_arr_time wl" by simp
        ultimately have "walk_ok rc (wl\<lparr>leg_uses := UsesOffset (o'\<lparr>off_target := eq\<rparr>)\<rparr>)"
          by (cases "0 \<le> off_duration o'") (simp_all add: walk_ok_def)
        moreover from C have "ridden rc k (start_end (rc_dir rc) wl) u' rl" "meets (rc_dir rc) wl rl" "dest_end (rc_dir rc) wl = l"
          "is_better_or_eq (rc_dir rc) (time_at_end (rc_dir rc) wl) (rc_unix rc ?x)" by auto
        ultimately have "linked rc k l ?x u' (wl\<lparr>leg_uses := UsesOffset (o'\<lparr>off_target := eq\<rparr>)\<rparr>) rl"
          unfolding linked_def meets_def by simp
        moreover from C F have "start_end (rc_dir rc) wl = eq" by simp
        ultimately have "offset_linked rc k l ?x o' u' (wl\<lparr>leg_uses := UsesOffset (o'\<lparr>off_target := eq\<rparr>)\<rparr>) rl"
          using eq by (simp add: offset_linked_def)
        moreover have "u' \<le> rc_n_vias rc" using C by (simp add: ridden_def)
        ultimately show ?thesis using step a fp Some y by auto
      qed
    qed
  qed
  with g False show ?thesis by (simp add: find_dest_leg_def Let_def)
qed

lemma round_ok_cong: "round_ok rc k l v \<Longrightarrow> labels_calm rc n \<Longrightarrow> k \<le> n \<Longrightarrow> w \<le> rc_n_vias rc \<Longrightarrow> round_ok rc k l w"
  by (simp add: round_ok_def labels_calm_def)

lemma intermodal_dest_legs_linked:
  assumes ok: "round_ok rc k l v" and mode: "q_dest_match_mode (rc_q rc) = kIntermodal" and g: "intermodal_dest_legs rc k l v = Some (w, wl, rl)"
  shows "linked rc k l (at3 (rc_times rc) k l v) w wl rl \<and> ends_ok rc wl"
proof -
  let ?n = "rc_n_vias rc"
  let ?P = "\<lambda>v w (wl, rl). linked rc k l (at3 (rc_times rc) k l v) w wl rl \<and> ends_ok rc wl"
  have v: "v \<le> ?n" using ok by (simp add: round_ok_def)
  have places: "e < n_places rc" if "e \<in> set (for_each_meta (rc_tt rc) kIntermodal t)"
    "t \<in> off_target ` set (q_destination (rc_q rc)) \<union> fst ` set (q_td_dest (rc_q rc))" for e t
    using ok that unfolding round_ok_def places_ok_def by blast
  let ?f = "\<lambda>o' u. find_dest_leg rc k l o' False u"
  let ?g = "\<lambda>(place, td) u. case get_td_duration (flip (rc_dir rc)) td (rc_unix rc (at3 (rc_times rc) k l v)) of
              None \<Rightarrow> Some (u, None)
            | Some (d, td_fp) \<Rightarrow>
                find_dest_leg rc k l \<lparr>off_target = place, off_duration = d, off_mode = transport_mode td_fp,
                  off_payload = transport_mode_payload td_fp\<rparr> True u"
  have f: "(ret = None \<longrightarrow> w = v) \<and> w \<le> ?n \<and> (\<forall>y. ret = Some y \<longrightarrow> ?P v w y)"
    if "o' \<in> set (q_destination (rc_q rc))" "?f o' v = Some (w, ret)" for o' w ret
    using find_dest_leg_linked [OF ok _ that(2)] places [of _ "off_target o'"] offset_linked_ends [OF _ mode] that(1) by auto
  have gg: "(ret = None \<longrightarrow> w = v) \<and> w \<le> ?n \<and> (\<forall>y. ret = Some y \<longrightarrow> ?P v w y)"
    if "p \<in> set (q_td_dest (rc_q rc))" "?g p v = Some (w, ret)" for p w ret
  proof -
    obtain place td where p: "p = (place, td)" by (cases p)
    show ?thesis
    proof (cases "get_td_duration (flip (rc_dir rc)) td (rc_unix rc (at3 (rc_times rc) k l v))")
      case None
      with that(2) v p show ?thesis by simp
    next
      case (Some y)
      obtain d td_fp where y: "y = (d, td_fp)" by (cases y)
      let ?o = "\<lparr>off_target = place, off_duration = d, off_mode = transport_mode td_fp, off_payload = transport_mode_payload td_fp\<rparr>"
      from that(2) Some p y have "find_dest_leg rc k l ?o True v = Some (w, ret)" by simp
      from find_dest_leg_linked [OF ok _ this] places [of _ place] that(1) p
      have D: "(ret = None \<longrightarrow> w = v) \<and> w \<le> ?n \<and> (\<forall>wl rl. ret = Some (wl, rl) \<longrightarrow> offset_linked rc k l (at3 (rc_times rc) k l v) ?o w wl rl)"
        by force
      have "(off_target ?o, td) \<in> set (q_td_dest (rc_q rc))"
        "get_td_duration (flip (rc_dir rc)) td (rc_unix rc (at3 (rc_times rc) k l v)) = Some (off_duration ?o, td_fp)"
        using that(1) p Some y by simp_all
      with D offset_linked_ends [OF _ mode, of k l _ ?o] show ?thesis by blast
    qed
  qed
  have F: "(ret = None \<longrightarrow> w = v) \<and> (\<forall>y. ret = Some y \<longrightarrow> ?P v w y)"
    if "try_all ?f (q_destination (rc_q rc)) v = Some (w, ret)" for w ret
    using that f by (rule try_all_same)
  have G: "(ret = None \<longrightarrow> w = v) \<and> (\<forall>y. ret = Some y \<longrightarrow> ?P v w y)"
    if "try_all ?g (q_td_dest (rc_q rc)) v = Some (w, ret)" for w ret
    using that gg by (rule try_all_same)
  from g obtain u r where first: "try_all ?f (q_destination (rc_q rc)) v = Some (u, r)"
    by (auto simp: intermodal_dest_legs_def Let_def split: option.splits)
  show ?thesis
  proof (cases r)
    case (Some y)
    with g first have "u = w" "y = (wl, rl)" by (auto simp: intermodal_dest_legs_def Let_def)
    with F [OF first] Some show ?thesis by simp
  next
    case None
    with F [OF first] have "u = v" by simp
    with g first None have "try_all ?g (q_td_dest (rc_q rc)) v = Some (w, Some (wl, rl))"
      by (auto simp: intermodal_dest_legs_def Let_def split: option.splits)
    from G [OF this] show ?thesis by simp
  qed
qed

lemma equal_ranges_nonempty: "r \<in> set (equal_ranges key xs) \<Longrightarrow> r \<noteq> []"
  by (induction key xs rule: equal_ranges.induct) auto

lemma for_each_footpath_target:
  assumes "(target, duration, walk_time) \<in> set (for_each_footpath d c t)"
  shows "target \<in> td_target ` set c"
proof -
  from assms obtain r where r: "r \<in> set (equal_ranges td_target c)" "target = td_target (hd r)"
    by (auto simp: for_each_footpath_def split: option.splits)
  then have "hd r \<in> set (concat (equal_ranges td_target c))" using equal_ranges_nonempty [OF r(1)] hd_in_set by fastforce
  then show ?thesis using r(2) by (simp add: equal_ranges_concat)
qed

lemma static_fp_legs_linked:
  assumes ok: "round_ok rc k l v" and g: "static_fp_legs rc k l (at3 (rc_times rc) k l v) v = Some (w, wl, rl)"
  shows "linked rc k l (at3 (rc_times rc) k l v) w wl rl \<and> \<not> uses_offset wl"
proof -
  let ?x = "at3 (rc_times rc) k l v"
  from g have "first_some (\<lambda>fp. if rc_fwd rc \<and> rc_has_td rc True (fp_target fp) then None else check_fp rc k l ?x fp True False v)
      (walk_table rc ! l) = Some (w, wl, rl)"
    by (simp add: static_fp_legs_def walk_table_def split: if_splits)
  from first_some_SomeD [OF this] obtain fp where fp: "fp \<in> set (walk_table rc ! l)" "check_fp rc k l ?x fp True False v = Some (w, wl, rl)"
    by (auto split: if_splits)
  from ok fp(1) have F: "fp_target fp < n_places rc" "0 \<le> fp_duration fp" "fp_duration fp \<le> 511"
    by (auto simp: round_ok_def places_ok_def short_walks_def)
  have known: "known_walk rc l (fp_target fp) e
      (if True then adjusted_transfer_time i16 (q_transfer_time_settings (rc_q rc)) (fp_duration fp) else fp_duration fp)" for e
    using fp(1) by (auto simp: known_walk_def)
  from ok have ok': "runs_ok rc" "short_walks rc" "calm rc ?x" "v \<le> rc_n_vias rc" by (simp_all add: round_ok_def)
  show ?thesis by (rule check_fp_known [OF ok'(1,2) F(1) ok'(3,4) F(2,3) known fp(2)])
qed

lemma td_fp_legs_linked:
  assumes ok: "round_ok rc k l v" and g: "td_fp_legs rc k l (at3 (rc_times rc) k l v) v = Some (w, Some (wl, rl))"
  shows "linked rc k l (at3 (rc_times rc) k l v) w wl rl \<and> \<not> uses_offset wl"
proof -
  let ?x = "at3 (rc_times rc) k l v"
  from g obtain rtt where rtt: "rc_rtt rc = Some rtt" by (auto simp: td_fp_legs_def split: option.splits)
  have td: "rc_has_td rc (\<not> rc_fwd rc) l" using g rtt by (auto simp: td_fp_legs_def split: if_splits)
  let ?f = "\<lambda>(target, duration, walk_time) acc. case acc of None \<Rightarrow> None
     | Some (v, legs) \<Rightarrow>
         if kMaxDuration \<le> duration then Some (v, legs)
         else (case mk_footpath target duration of None \<Rightarrow> None
           | Some fp \<Rightarrow>
               (case check_fp rc k l ?x fp False True v of
                  None \<Rightarrow> Some (v, legs)
                | Some (v', found) \<Rightarrow> Some (v', Some found)))"
  let ?fps = "for_each_footpath (flip (rc_dir rc)) (td_walk_table rc rtt ! l) (rc_unix rc ?x)"
  let ?P = "\<lambda>acc. \<forall>w ret. acc = Some (w, ret) \<longrightarrow> w \<le> rc_n_vias rc \<and> (\<forall>wl rl. ret = Some (wl, rl) \<longrightarrow> linked rc k l ?x w wl rl \<and> \<not> uses_offset wl)"
  have v: "v \<le> rc_n_vias rc" using ok by (simp add: round_ok_def)
  have "?P (fold ?f ?fps (Some (v, None)))"
  proof (rule fold_invariant [where P = ?P])
    show "?P (Some (v, None))" using v by simp
  next
    fix p acc assume p: "p \<in> set ?fps" and acc: "?P acc"
    obtain target duration walk_time where pe: "p = (target, duration, walk_time)" by (cases p)
    show "?P (?f p acc)"
    proof (intro allI impI)
      fix w ret assume step: "?f p acc = Some (w, ret)"
      then obtain u r where a: "acc = Some (u, r)" unfolding pe by (auto split: option.splits)
      with acc have u: "u \<le> rc_n_vias rc \<and> (\<forall>wl rl. r = Some (wl, rl) \<longrightarrow> linked rc k l ?x u wl rl \<and> \<not> uses_offset wl)" by blast
      show "w \<le> rc_n_vias rc \<and> (\<forall>wl rl. ret = Some (wl, rl) \<longrightarrow> linked rc k l ?x w wl rl \<and> \<not> uses_offset wl)"
      proof (cases "kMaxDuration \<le> duration")
        case True
        with step a u show ?thesis unfolding pe by simp
      next
        case False
        with step a obtain fp where fp: "mk_footpath target duration = Some fp" unfolding pe by (auto split: option.splits)
        note F = mk_footpath_range [OF fp]
        from for_each_footpath_target [OF p [unfolded pe]] have t: "target \<in> td_target ` set (td_walk_table rc rtt ! l)" .
        from ok have ok': "runs_ok rc" "short_walks rc" "calm rc ?x" "l < n_places rc" "places_ok rc" by (simp_all add: round_ok_def)
        from t ok'(4,5) rtt F have place: "fp_target fp < n_places rc" by (auto simp: places_ok_def)
        have "duration \<le> fp_duration fp" using F False by (cases "0 \<le> duration") simp_all
        then have known: "known_walk rc l (fp_target fp) e
            (if False then adjusted_transfer_time i16 (q_transfer_time_settings (rc_q rc)) (fp_duration fp) else fp_duration fp)"
          if "is_better_or_eq (rc_dir rc) e (rc_unix rc ?x)" for e
          using p [unfolded pe] rtt td F that unfolding known_walk_def by (simp only: if_False) blast
        show ?thesis
        proof (cases "check_fp rc k l ?x fp False True u")
          case None
          with step a fp False u show ?thesis unfolding pe by simp
        next
          case (Some y)
          obtain u' wl rl where y: "y = (u', wl, rl)" by (cases y)
          have "linked rc k l ?x u' wl rl \<and> \<not> uses_offset wl"
            by (rule check_fp_known [OF ok'(1,2) place ok'(3) _ _ _ known Some [unfolded y]]) (use u F in simp_all)
          moreover from this have "u' \<le> rc_n_vias rc" by (simp add: linked_def ridden_def)
          ultimately show ?thesis using step a fp False Some y unfolding pe by auto
        qed
      qed
    qed
  qed
  moreover have "fold ?f ?fps (Some (v, None)) = Some (w, Some (wl, rl))"
    using g rtt by (simp add: td_fp_legs_def td_walk_table_def del: kMax_code split: if_splits)
  ultimately show ?thesis by blast
qed

text \<open>A walk of no time at one stop may come before the last round's ride, and is not kept.\<close>

lemma get_legs_linked:
  assumes ok: "round_ok rc k l v" and g: "get_legs rc n k l v = Some (w, wl, rl)"
  shows "ridden rc k (start_end (rc_dir rc) wl) w rl \<and> meets (rc_dir rc) wl rl \<and> dest_end (rc_dir rc) wl = l \<and>
    is_better_or_eq (rc_dir rc) (time_at_end (rc_dir rc) wl) (rc_unix rc (at3 (rc_times rc) k l v)) \<and>
    (walk_ok rc wl \<or> k = n \<and> leg_from wl = leg_to wl \<and> leg_dep_time wl = leg_arr_time wl) \<and>
    ends_ok rc wl \<and> (uses_offset wl \<longrightarrow> k = n)"
proof -
  let ?x = "at3 (rc_times rc) k l v"
  let ?change = "adjusted_transfer_time u8 (q_transfer_time_settings (rc_q rc)) (transfer_time (rc_tt rc) ! l)"
  from g consider "intermodal_dest_legs rc k l v = Some (w, wl, rl)" "q_dest_match_mode (rc_q rc) = kIntermodal" "k = n"
    | fp where "mk_footpath l (if k = n then 0 else ?change) = Some fp" "check_fp rc k l ?x fp False False v = Some (w, wl, rl)"
    | "static_fp_legs rc k l ?x v = Some (w, wl, rl)"
    | "td_fp_legs rc k l ?x v = Some (w, Some (wl, rl))"
    unfolding get_legs_def Let_def by (auto split: if_splits option.splits)
  then show ?thesis
  proof cases
    case 1
    with intermodal_dest_legs_linked [OF ok 1(2,1)] show ?thesis by (simp add: linked_def)
  next
    case (2 fp)
    note F = mk_footpath_range [OF 2(1)]
    from ok have ok': "runs_ok rc" "short_walks rc" "fp_target fp < n_places rc" "calm rc ?x" "v \<le> rc_n_vias rc"
      using F by (simp_all add: round_ok_def)
    from F have d: "0 \<le> fp_duration fp" "fp_duration fp \<le> 511" by simp_all
    show ?thesis
    proof (cases "k = n")
      case True
      note C = check_fp_linked [OF ok' d 2(2)]
      from F True have "fp_duration fp = 0" "fp_target fp = l" by simp_all
      with C have "start_end (rc_dir rc) wl = dest_end (rc_dir rc) wl" "leg_dep_time wl = leg_arr_time wl" by simp_all
      moreover from this have "leg_from wl = leg_to wl" by (simp add: start_end_def dest_end_def split: if_splits)
      moreover have "\<not> uses_offset wl" using C by (simp add: uses_offset_def)
      ultimately show ?thesis using C True no_offset_ends by auto
    next
      case False
      have "stop_change rc l \<le> fp_duration fp" using F False by (cases "0 \<le> ?change") (simp_all add: stop_change_def)
      then have "known_walk rc l (fp_target fp) e
          (if False then adjusted_transfer_time i16 (q_transfer_time_settings (rc_q rc)) (fp_duration fp) else fp_duration fp)" for e
        using F by (simp add: known_walk_def)
      from check_fp_known [OF ok' d this 2(2)] show ?thesis by (simp add: linked_def no_offset_ends)
    qed
  next
    case 3
    with static_fp_legs_linked [OF ok 3] show ?thesis by (simp add: linked_def no_offset_ends)
  next
    case 4
    with td_fp_legs_linked [OF ok 4] show ?thesis by (simp add: linked_def no_offset_ends)
  qed
qed

section \<open>All rounds\<close>

definition chain :: "recon \<Rightarrow> nat \<Rightarrow> nat \<Rightarrow> nat \<Rightarrow> nat \<Rightarrow> nat \<Rightarrow> leg list \<Rightarrow> bool" where
  "chain rc n dest m l v legs \<longleftrightarrow> l < n_places rc \<and> v \<le> rc_n_vias rc \<and> m \<le> n \<and>
     (legs = [] \<longrightarrow> m = n \<and> l = dest \<and> v = rc_n_vias rc) \<and>
     (legs \<noteq> [] \<longrightarrow> m < n \<and> (\<forall>leg \<in> set legs. leg_ok rc leg) \<and> successively (meets (rc_dir rc)) legs \<and>
        start_end (rc_dir rc) (last legs) = l \<and> (\<exists>r a b. ride_ok rc r a b (last legs)) \<and>
        (\<exists>t. time_at_start (rc_dir rc) (last legs) = rc_unix rc t \<and> entry_fits rc (m + 1) l t v) \<and>
        dest_end (rc_dir rc) (hd legs) = dest \<and> ends_ok rc (hd legs) \<and> (\<forall>leg \<in> set (tl legs). \<not> uses_offset leg) \<and>
        is_better_or_eq (rc_dir rc) (time_at_end (rc_dir rc) (hd legs)) (rc_unix rc (at3 (rc_times rc) n dest (rc_n_vias rc))))"

lemma entry_fits_later: "entry_fits rc (k + 1) l t v \<Longrightarrow> 0 < k \<Longrightarrow> is_better_or_eq (rc_dir rc) (at3 (rc_times rc) k l v) t"
  by (simp add: entry_fits_def Let_def)

lemma chain_step:
  assumes c: "chain rc n dest (Suc m) l v legs" and g: "get_legs rc n (Suc m) l v = Some (w, wl, rl)"
    and ok: "runs_ok rc" "places_ok rc" "short_walks rc" "labels_calm rc n"
    and legs': "legs' = legs @ (if Suc m \<noteq> n \<or> leg_from wl \<noteq> leg_to wl \<or> leg_dep_time wl \<noteq> leg_arr_time wl then [wl] else []) @ [rl]"
  shows "chain rc n dest m (start_end (rc_dir rc) rl) w legs'"
proof -
  let ?d = "rc_dir rc"
  let ?x = "at3 (rc_times rc) (Suc m) l v"
  have "round_ok rc (Suc m) l v" using c ok by (simp add: round_ok_def chain_def labels_calm_def)
  from get_legs_linked [OF this g] have link: "ridden rc (Suc m) (start_end ?d wl) w rl" "meets ?d wl rl" "dest_end ?d wl = l"
    "is_better_or_eq ?d (time_at_end ?d wl) (rc_unix rc ?x)"
    "walk_ok rc wl \<or> Suc m = n \<and> leg_from wl = leg_to wl \<and> leg_dep_time wl = leg_arr_time wl"
    "ends_ok rc wl" "uses_offset wl \<longrightarrow> Suc m = n" by blast+
  from link(1) obtain r a b t where ride: "ride_ok rc r a b rl" and w: "w \<le> rc_n_vias rc" "start_end ?d rl < n_places rc"
    and entry: "time_at_start ?d rl = rc_unix rc t" "entry_fits rc (Suc m) (start_end ?d rl) t w"
    unfolding ridden_def by blast
  have good: "leg_ok rc rl" "\<not> uses_offset rl" "ends_ok rc rl"
    using ride ride_no_offset [OF ride] no_offset_ends by (auto simp: leg_ok_def)
  have last: "last legs' = rl" by (simp add: legs')
  show ?thesis
  proof (cases "legs = []")
    case True
    with c have start: "Suc m = n" "l = dest" "v = rc_n_vias rc" by (simp_all add: chain_def)
    show ?thesis
    proof (cases "leg_from wl \<noteq> leg_to wl \<or> leg_dep_time wl \<noteq> leg_arr_time wl")
      case walk: True
      then have "legs' = [wl, rl]" using True by (simp add: legs')
      moreover have "leg_ok rc wl" using link(5) walk by (auto simp: leg_ok_def)
      ultimately show ?thesis using start w good link ride entry by (auto simp: chain_def)
    next
      case False
      then have l': "legs' = [rl]" using True start by (simp add: legs')
      from False have same: "start_end ?d wl = dest_end ?d wl" "time_at_start ?d wl = time_at_end ?d wl"
        by (simp_all add: start_end_def dest_end_def time_at_start_def time_at_end_def)
      from link(2) same link(3) start have "dest_end ?d rl = dest" by (simp add: meets_def)
      moreover from link(2,4) same start have "is_better_or_eq ?d (time_at_end ?d rl) (rc_unix rc (at3 (rc_times rc) n dest (rc_n_vias rc)))"
        by (auto simp: meets_def intro: better_or_eq_trans)
      ultimately show ?thesis using start w good ride entry l' by (auto simp: chain_def)
    qed
  next
    case False
    with c obtain t' where old: "Suc m < n" "\<forall>leg \<in> set legs. leg_ok rc leg" "successively (meets ?d) legs"
      "start_end ?d (last legs) = l" "time_at_start ?d (last legs) = rc_unix rc t'" "entry_fits rc (Suc m + 1) l t' v"
      "dest_end ?d (hd legs) = dest" "ends_ok rc (hd legs)" "\<forall>leg \<in> set (tl legs). \<not> uses_offset leg"
      "is_better_or_eq ?d (time_at_end ?d (hd legs)) (rc_unix rc (at3 (rc_times rc) n dest (rc_n_vias rc)))"
      unfolding chain_def by blast
    from old(1) have l': "legs' = legs @ [wl, rl]" by (simp add: legs')
    have "is_better_or_eq ?d ?x t'" using entry_fits_later [OF old(6)] by simp
    then have "is_better_or_eq ?d (rc_unix rc ?x) (rc_unix rc t')" by (simp only: rc_unix_mono)
    from better_or_eq_trans [OF link(4) this] old(4,5) link(3) have "meets ?d (last legs) wl" by (simp add: meets_def)
    with old(3) link(2) have "successively (meets ?d) legs'" by (simp add: l' successively_append_iff)
    moreover have "hd legs' = hd legs" using False by (simp add: l')
    moreover have "leg_ok rc wl" "\<not> uses_offset wl" using link(5,7) old(1) by (auto simp: leg_ok_def)
    moreover have "tl legs' = tl legs @ [wl, rl]" using False by (simp add: l')
    ultimately show ?thesis using old(1,2,7-10) w good ride entry last by (auto simp: chain_def l')
  qed
qed

lemma rc_rounds_chain:
  assumes "rc_rounds rc n (rev [1..<Suc m]) l v legs = (False, w, legs')" "chain rc n dest m l v legs"
    and ok: "runs_ok rc" "places_ok rc" "short_walks rc" "labels_calm rc n"
  shows "\<exists>l'. chain rc n dest 0 l' w legs'"
  using assms(1,2)
proof (induction m arbitrary: l v legs)
  case 0
  then show ?case by auto
next
  case (Suc m)
  have ks: "rev [1..<Suc (Suc m)] = Suc m # rev [1..<Suc m]" by simp
  from Suc.prems(1) obtain u wl rl where g: "get_legs rc n (Suc m) l v = Some (u, wl, rl)"
    unfolding ks by (auto split: option.splits)
  define legs2 where "legs2 = legs @ (if Suc m \<noteq> n \<or> leg_from wl \<noteq> leg_to wl \<or> leg_dep_time wl \<noteq> leg_arr_time wl then [wl] else []) @ [rl]"
  from chain_step [OF Suc.prems(2) g ok legs2_def] have "chain rc n dest m (start_end (rc_dir rc) rl) u legs2" .
  moreover from Suc.prems(1) g have "rc_rounds rc n (rev [1..<Suc m]) (start_end (rc_dir rc) rl) u legs2 = (False, w, legs')"
    unfolding ks by (simp add: legs2_def start_end_def)
  ultimately show ?case by (rule Suc.IH [rotated])
qed

section \<open>The start\<close>

lemma find_SomeD: "List.find P xs = Some x \<Longrightarrow> x \<in> set xs \<and> P x"
  by (auto simp: find_Some_iff)

lemma first_stay:
  assumes "short_walks rc" "v \<le> rc_n_vias rc"
  shows "v \<noteq> 0 \<Longrightarrow> 0 \<le> via_stay (q_via_stops (rc_q rc) ! 0)" "v \<noteq> 0 \<Longrightarrow> via_stay (q_via_stops (rc_q rc) ! 0) \<le> 2880"
proof -
  have "v \<noteq> 0 \<Longrightarrow> 0 < rc_n_vias rc" using assms(2) by linarith
  with assms(1) show "v \<noteq> 0 \<Longrightarrow> 0 \<le> via_stay (q_via_stops (rc_q rc) ! 0)" "v \<noteq> 0 \<Longrightarrow> via_stay (q_via_stops (rc_q rc) ! 0) \<le> 2880"
    unfolding short_walks_def by blast+
qed

lemma start_matches_better: "start_matches rc a b \<Longrightarrow> is_better_or_eq (rc_dir rc) a b"
  by (auto simp: start_matches_def split: start_time.splits)

text \<open>Where a journey may begin: at a start of the query, or with an offset of the query.\<close>

definition begins_ok :: "recon \<Rightarrow> leg \<Rightarrow> bool" where
  "begins_ok rc leg =
     (case leg_uses leg of
        UsesOffset o' \<Rightarrow> start_end (rc_dir rc) leg = kStartStation \<and>
          (o' \<in> set (q_start (rc_q rc)) \<and> matches (rc_tt rc) (q_start_match_mode (rc_q rc)) (off_target o') (dest_end (rc_dir rc) leg) \<or>
           off_target o' = dest_end (rc_dir rc) leg \<and>
             (\<exists>td fp. map_of (q_td_start (rc_q rc)) (off_target o') = Some td \<and>
                get_td_duration (flip (rc_dir rc)) td (time_at_end (rc_dir rc) leg) = Some (off_duration o', fp)))
      | _ \<Rightarrow> is_journey_start (rc_tt rc) (rc_q rc) (start_end (rc_dir rc) leg) \<and> start_end (rc_dir rc) leg < n_places rc)"

definition near_base :: "recon \<Rightarrow> int \<Rightarrow> bool" where
  "near_base rc t \<longleftrightarrow> rc_base rc * 1440 - 20000 \<le> t \<and> t \<le> rc_base rc * 1440 + 20000"

lemma start_offset_leg_ok:
  assumes "start_offset_leg rc j_start l t = Some leg"
  shows "dest_end (rc_dir rc) leg = l \<and> time_at_end (rc_dir rc) leg = t \<and> walk_ok rc leg \<and> begins_ok rc leg \<and>
    is_better_or_eq (rc_dir rc) j_start (time_at_start (rc_dir rc) leg)"
proof -
  let ?q = "rc_q rc" and ?d = "rc_dir rc"
  have arr: "leg_dep_time (mk_leg ?d a b (t - dir ?d x) t u) + x = leg_arr_time (mk_leg ?d a b (t - dir ?d x) t u)" for a b x u
    by (cases ?d) (simp_all add: mk_leg_def dir_def)
  have "\<exists>o'. leg = mk_leg ?d kStartStation l (t - dir ?d (off_duration o')) t (UsesOffset o') \<and>
    (o' \<in> set (q_start ?q) \<and> matches (rc_tt rc) (q_start_match_mode ?q) (off_target o') l \<or>
      off_target o' = l \<and> (\<exists>td fp. map_of (q_td_start ?q) l = Some td \<and> get_td_duration (flip ?d) td t = Some (off_duration o', fp))) \<and>
    is_better_or_eq ?d j_start (t - dir ?d (off_duration o'))"
  proof (cases "List.find (\<lambda>o'. matches (rc_tt rc) (q_start_match_mode ?q) (off_target o') l \<and>
      is_better_or_eq ?d j_start (t - dir ?d (off_duration o'))) (q_start ?q)")
    case (Some o')
    with assms have "leg = mk_leg ?d kStartStation l (t - dir ?d (off_duration o')) t (UsesOffset o')"
      by (simp add: start_offset_leg_def Let_def)
    with find_SomeD [OF Some] show ?thesis by blast
  next
    case None
    note S = assms [unfolded start_offset_leg_def Let_def None option.case]
    from S obtain td where td: "map_of (q_td_start ?q) l = Some td" by (cases "map_of (q_td_start ?q) l") simp_all
    note S = S [unfolded td option.case]
    from S obtain x fp where get: "get_td_duration (flip ?d) td t = Some (x, fp)" by (cases "get_td_duration (flip ?d) td t") auto
    with S have leg: "leg = mk_leg ?d kStartStation l (t - dir ?d x) t (UsesOffset \<lparr>off_target = l, off_duration = x,
        off_mode = transport_mode fp, off_payload = transport_mode_payload fp\<rparr>)" "is_better_or_eq ?d j_start (t - dir ?d x)"
      by (simp_all split: if_splits)
    let ?o = "\<lparr>off_target = l, off_duration = x, off_mode = transport_mode fp, off_payload = transport_mode_payload fp\<rparr>"
    from td get leg show ?thesis by (intro exI [of _ ?o]) auto
  qed
  then obtain o' where leg: "leg = mk_leg ?d kStartStation l (t - dir ?d (off_duration o')) t (UsesOffset o')"
    and o': "o' \<in> set (q_start ?q) \<and> matches (rc_tt rc) (q_start_match_mode ?q) (off_target o') l \<or>
      off_target o' = l \<and> (\<exists>td fp. map_of (q_td_start ?q) l = Some td \<and> get_td_duration (flip ?d) td t = Some (off_duration o', fp))"
    "is_better_or_eq ?d j_start (t - dir ?d (off_duration o'))" by blast
  from o'(1) have "begins_ok rc leg" unfolding begins_ok_def leg mk_leg_ends leg_uses.case by auto
  moreover have "walk_ok rc leg" using arr by (simp add: walk_ok_def leg)
  ultimately show ?thesis using o'(2) by (simp add: leg)
qed

lemma start_footpath_leg_ok:
  assumes ok: "short_walks rc" "l < n_places rc" "v \<le> rc_n_vias rc" "places_ok rc" and near: "near_base rc j_start"
    and calm: "calm rc (at3 (rc_times rc) 0 l v)" and s: "0 \<le> s" "s \<le> 2880"
    and g: "start_footpath_leg rc j_start l v via s = Some leg"
  shows "dest_end (rc_dir rc) leg = l \<and> time_at_end (rc_dir rc) leg = rc_unix rc (at3 (rc_times rc) 0 l v - dir (rc_dir rc) s) \<and>
    walk_ok rc leg \<and> begins_ok rc leg \<and> is_better_or_eq (rc_dir rc) j_start (time_at_start (rc_dir rc) leg)"
proof -
  let ?q = "rc_q rc" and ?d = "rc_dir rc"
  let ?T = "at3 (rc_times rc) 0 l v"
  let ?adj = "adjusted_transfer_time i16 (q_transfer_time_settings ?q)"
  let ?stay = "\<lambda>fp. if v \<noteq> 0 \<and> \<not> via \<and> is_via_at (rc_tt rc) ?q 0 (fp_target fp) then via_stay (q_via_stops ?q ! 0) else 0"
  have "0 \<le> s" "s \<le> 9760" using s by simp_all
  note A = calm_sub [OF calm this]
  define jd where "jd = j_start - rc_base rc * 1440"
  have jd: "rc_delta rc j_start = jd" "- 20000 \<le> jd" "jd \<le> 20000" "rc_unix rc jd = j_start"
    using near clamp_id [of jd] by (simp_all add: near_base_def jd_def rc_delta_def unix_to_delta_def rc_unix_def delta_to_unix_def)
  from g obtain fp fp' where fp: "fp \<in> set (walk_table rc ! l)" "is_journey_start (rc_tt rc) ?q (fp_target fp)"
    and match: "start_matches rc (i16 (jd + dir ?d (?stay fp + ?adj (fp_duration fp)))) (?T - dir ?d s)"
    and fp': "mk_footpath (fp_target fp) (?adj (fp_duration fp)) = Some fp'"
    and leg: "leg = mk_leg ?d (fp_target fp) l (j_start + dir ?d (?stay fp)) (rc_unix rc (?T - dir ?d s)) (UsesFootpath fp')"
    unfolding start_footpath_leg_def Let_def A(1) jd(1)
    by (auto simp: walk_table_def [symmetric] split: option.splits dest!: find_SomeD)
  have dur: "0 \<le> fp_duration fp" "fp_duration fp \<le> 511" using ok(1,2) fp(1) by (simp_all add: short_walks_def)
  then have adj: "0 \<le> ?adj (fp_duration fp)" "?adj (fp_duration fp) \<le> 4000" using ok(1) by (simp_all add: short_walks_def)
  have stay: "0 \<le> ?stay fp" "?stay fp \<le> 2880" using first_stay [OF ok(1,3)] by simp_all
  have "i16 (jd + dir ?d (?stay fp + ?adj (fp_duration fp))) = jd + dir ?d (?stay fp + ?adj (fp_duration fp))"
    using jd(2,3) adj stay by (intro wrap_s16_id) (cases ?d; simp add: dir_def)+
  with start_matches_better [OF match]
  have "is_better_or_eq ?d (jd + dir ?d (?stay fp + ?adj (fp_duration fp))) (?T - dir ?d s)" by simp
  then have "is_better_or_eq ?d (rc_unix rc (jd + dir ?d (?stay fp + ?adj (fp_duration fp)))) (rc_unix rc (?T - dir ?d s))"
    by (simp only: rc_unix_mono)
  then have time: "is_better_or_eq ?d (j_start + dir ?d (?stay fp + ?adj (fp_duration fp))) (rc_unix rc (?T - dir ?d s))"
    by (simp add: rc_unix_add jd(4))
  note F = mk_footpath_range [OF fp']
  then have "fp_duration fp' \<le> ?adj (fp_duration fp)" using adj by simp
  moreover from time have "leg_dep_time leg + ?adj (fp_duration fp) \<le> leg_arr_time leg"
    by (cases ?d) (simp_all add: leg mk_leg_def dir_def is_better_or_eq_def)
  ultimately have "leg_dep_time leg + min (fp_duration fp') (?adj (fp_duration fp')) \<le> leg_arr_time leg" by linarith
  moreover have "known_walk rc l (fp_target fp) e (leg_arr_time leg - leg_dep_time leg)" for e
    using fp(1) \<open>leg_dep_time leg + ?adj (fp_duration fp) \<le> leg_arr_time leg\<close> unfolding known_walk_def by fastforce
  ultimately have "walk_ok rc leg" by (simp add: walk_ok_def leg)
  moreover have "is_better_or_eq ?d j_start (j_start + dir ?d (?stay fp))" using stay(1) by (rule better_or_eq_add)
  moreover have "fp_target fp < n_places rc" using ok(2,4) fp(1) by (simp add: places_ok_def)
  ultimately show ?thesis using fp(2) by (simp add: begins_ok_def leg)
qed

lemma find_start_footpath_ok:
  assumes ok: "short_walks rc" "l < n_places rc" "v \<le> rc_n_vias rc" "places_ok rc" and near: "near_base rc j_start"
    and calm: "calm rc (at3 (rc_times rc) 0 l v)"
    and ride: "start_end (rc_dir rc) leg = l" "time_at_start (rc_dir rc) leg = rc_unix rc t" "entry_fits rc 1 l t v"
    and g: "find_start_footpath rc j_start leg v = Some ret"
  shows "case ret of
      None \<Rightarrow> is_journey_start (rc_tt rc) (rc_q rc) l \<and> is_better_or_eq (rc_dir rc) j_start (time_at_start (rc_dir rc) leg)
    | Some wl \<Rightarrow> meets (rc_dir rc) leg wl \<and> walk_ok rc wl \<and> begins_ok rc wl \<and>
        is_better_or_eq (rc_dir rc) j_start (time_at_start (rc_dir rc) wl)"
proof -
  let ?d = "rc_dir rc" and ?q = "rc_q rc"
  define via where "via \<longleftrightarrow> v \<noteq> 0 \<and> is_via_at (rc_tt rc) ?q 0 l"
  define s where "s = (if via then via_stay (q_via_stops ?q ! 0) else 0)"
  have s: "0 \<le> s" "s \<le> 2880" using first_stay [OF ok(1,3)] by (simp_all add: s_def via_def)
  have l: "(if rc_fwd rc then leg_from leg else leg_to leg) = l" using ride(1) by (simp add: start_end_def)
  have lt: "(if rc_fwd rc then leg_dep_time leg else leg_arr_time leg) = time_at_start ?d leg" by (simp add: time_at_start_def)
  have before: "is_better_or_eq ?d (time_at_start ?d leg - dir ?d s) (time_at_start ?d leg)" using s(1) by (rule better_or_eq_sub)
  from g consider "ret = None" "is_journey_start (rc_tt rc) ?q l" "is_better_or_eq ?d j_start (time_at_start ?d leg - dir ?d s)"
    | wl where "ret = Some wl" "start_offset_leg rc j_start l (time_at_start ?d leg - dir ?d s) = Some wl"
    | wl where "ret = Some wl" "start_footpath_leg rc j_start l v via s = Some wl"
    unfolding find_start_footpath_def Let_def l lt via_def [symmetric] s_def [symmetric] by (auto split: if_splits)
  then show ?thesis
  proof cases
    case 1
    with better_or_eq_trans [OF 1(3) before] show ?thesis by simp
  next
    case (2 wl)
    with start_offset_leg_ok [OF 2(2)] before ride(1) show ?thesis by (simp add: meets_def)
  next
    case (3 wl)
    note W = start_footpath_leg_ok [OF ok near calm s 3(2)]
    from ride(3) have "is_better_or_eq ?d (at3 (rc_times rc) 0 l v) t"
      using start_matches_better [of rc "at3 (rc_times rc) 0 l v" t] by (auto simp: entry_fits_def Let_def)
    then have "is_better_or_eq ?d (rc_unix rc (at3 (rc_times rc) 0 l v - dir ?d s)) (rc_unix rc t)"
      unfolding rc_unix_mono using better_or_eq_trans [OF better_or_eq_sub [OF s(1)]] by blast
    with W ride(1,2) 3(1) show ?thesis by (simp add: meets_def)
  qed
qed

section \<open>The legs of a journey\<close>

text \<open>The legs in the order in which they are found, from the destination to the start.\<close>

definition legs_travel :: "recon \<Rightarrow> journey \<Rightarrow> leg list \<Rightarrow> bool" where
  "legs_travel rc j legs \<longleftrightarrow> legs \<noteq> [] \<and> (\<forall>leg \<in> set legs. leg_ok rc leg) \<and> successively (meets (rc_dir rc)) legs \<and>
     dest_end (rc_dir rc) (hd legs) = j_dest j \<and> ends_ok rc (hd legs) \<and>
     (\<forall>leg \<in> set (butlast (tl legs)). \<not> uses_offset leg) \<and>
     is_better_or_eq (rc_dir rc) (time_at_end (rc_dir rc) (hd legs))
       (rc_unix rc (at3 (rc_times rc) (j_transfers j + 1) (j_dest j) (rc_n_vias rc))) \<and>
     begins_ok rc (last legs) \<and> is_better_or_eq (rc_dir rc) (j_start_time j) (time_at_start (rc_dir rc) (last legs))"

definition recon_ok :: "recon \<Rightarrow> journey \<Rightarrow> bool" where
  "recon_ok rc j \<longleftrightarrow> runs_ok rc \<and> places_ok rc \<and> short_walks rc \<and> labels_calm rc (j_transfers j + 1) \<and>
     j_dest j < n_places rc \<and> near_base rc (j_start_time j) \<and> j_legs j = []"

lemma raw_legs_travel:
  assumes ok: "recon_ok rc j" and g: "raw_legs rc j = (False, legs)"
  shows "legs_travel rc j legs"
proof -
  let ?n = "j_transfers j + 1" and ?d = "rc_dir rc"
  from ok have ok': "runs_ok rc" "places_ok rc" "short_walks rc" "labels_calm rc ?n" by (simp_all add: recon_ok_def)
  obtain threw w ls where r: "rc_rounds rc ?n (rev [1..<Suc ?n]) (j_dest j) (rc_n_vias rc) [] = (threw, w, ls)"
    by (rule prod_cases3)
  have empty: "j_legs j = []" "Suc ?n = ?n + 1" using ok by (simp_all add: recon_ok_def)
  note G = g [unfolded raw_legs_def Let_def empty(1) empty(2) [symmetric] r prod.case]
  from G have threw: "\<not> threw" by (cases threw) simp_all
  with r have rounds: "rc_rounds rc ?n (rev [1..<Suc ?n]) (j_dest j) (rc_n_vias rc) [] = (False, w, ls)" by simp
  from G threw obtain ret where start: "find_start_footpath rc (j_start_time j) (last ls) w = Some ret"
    by (cases "find_start_footpath rc (j_start_time j) (last ls) w") simp_all
  from G threw start have legs: "legs = ls @ (case ret of None \<Rightarrow> [] | Some leg \<Rightarrow> [leg])"
    by (cases ret) simp_all
  have "chain rc ?n (j_dest j) ?n (j_dest j) (rc_n_vias rc) []" using ok by (simp add: chain_def recon_ok_def)
  from rc_rounds_chain [OF rounds this ok'] obtain l where c: "chain rc ?n (j_dest j) 0 l w ls" by blast
  then have "ls \<noteq> []" by (auto simp: chain_def)
  with c obtain t where C: "l < n_places rc" "w \<le> rc_n_vias rc" "\<forall>leg \<in> set ls. leg_ok rc leg" "successively (meets ?d) ls"
    "start_end ?d (last ls) = l" "\<exists>r a b. ride_ok rc r a b (last ls)" "time_at_start ?d (last ls) = rc_unix rc t"
    "entry_fits rc 1 l t w" "dest_end ?d (hd ls) = j_dest j" "ends_ok rc (hd ls)" "\<forall>leg \<in> set (tl ls). \<not> uses_offset leg"
    "is_better_or_eq ?d (time_at_end ?d (hd ls)) (rc_unix rc (at3 (rc_times rc) ?n (j_dest j) (rc_n_vias rc)))"
    unfolding chain_def by auto
  have "calm rc (at3 (rc_times rc) 0 l w)" "near_base rc (j_start_time j)"
    using ok C(1,2) by (simp_all add: recon_ok_def labels_calm_def)
  note S = find_start_footpath_ok [OF ok'(3) C(1,2) ok'(2) this(2,1) C(5,7,8) start]
  show ?thesis
  proof (cases ret)
    case None
    have "begins_ok rc (last ls)"
      using S None C(1,5,6) by (auto simp: begins_ok_def ride_ok_def Let_def)
    then show ?thesis using None S C \<open>ls \<noteq> []\<close> by (auto simp: legs_travel_def legs dest: in_set_butlastD)
  next
    case (Some wl)
    with S have W: "meets ?d (last ls) wl" "walk_ok rc wl" "begins_ok rc wl" "is_better_or_eq ?d (j_start_time j) (time_at_start ?d wl)"
      by simp_all
    have "successively (meets ?d) legs" using C(4) W(1) Some by (simp add: legs successively_append_iff)
    moreover have "hd legs = hd ls" "last legs = wl" "butlast (tl legs) = tl ls"
      using \<open>ls \<noteq> []\<close> Some by (simp_all add: legs butlast_append)
    ultimately show ?thesis using W C(3,9-12) Some by (auto simp: legs_travel_def legs leg_ok_def)
  qed
qed

end
