(* ===== verification/Start_Times.thy ===== *)
theory Start_Times
  imports Query Locations Rt_Timetable
begin

text \<open>
  \<open>src/routing/start_times.cc\<close>: the start labels of a query, one per departure (arrival, when
  searching backward) near the origin, and the destination and via bit sets. Times are unix
  minutes. A missing real-time timetable (\<open>rtt == nullptr\<close>) is \<^const>\<open>None\<close>.
\<close>

section \<open>Offsets to the stops\<close>

record start =
  time_at_start :: int
  time_at_stop :: int
  start_stop :: nat
  start_v :: nat

datatype location_offset = OffDuration int | OffTd "td_offset list"

definition get_duration :: "direction \<Rightarrow> int \<Rightarrow> location_offset \<Rightarrow> bool \<Rightarrow> int" where
  "get_duration search_dir t off invert =
     (case off of
        OffDuration x \<Rightarrow> x
      | OffTd td \<Rightarrow>
          (case get_td_duration (if invert then flip search_dir else search_dir) td t of
             Some (dur, _) \<Rightarrow> dur
           | None \<Rightarrow> kMaxDuration))"

definition start_is_better_or_eq :: "direction \<Rightarrow> int \<Rightarrow> int \<Rightarrow> bool" where
  "start_is_better_or_eq search_dir a b = (if search_dir = Forward then a \<le> b else b \<le> a)"

text \<open>The time at the start for an event at the stop.\<close>

definition back_by :: "direction \<Rightarrow> int \<Rightarrow> int \<Rightarrow> int" where
  "back_by search_dir t d = (if search_dir = Forward then t - d else t + d)"

definition start_event :: "direction \<Rightarrow> event_type" where
  "start_event search_dir = (if search_dir = Forward then Dep else Arr)"

section \<open>Departures of a route at a stop\<close>

text \<open>The body of the loop over the days for an active transport with an event at \<open>ev_time\<close>.\<close>

definition add_event ::
    "direction \<Rightarrow> nat \<Rightarrow> int interval \<Rightarrow> location_offset \<Rightarrow> nat \<Rightarrow> int \<Rightarrow> start list \<Rightarrow> start list" where
  "add_event search_dir location_idx iv_at_start off v ev_time starts =
     (let d = get_duration search_dir ev_time off True in
      if d = kMaxDuration then starts
      else
        let tas = back_by search_dir ev_time d in
        if \<not> iv_contains iv_at_start tas then starts
        else if starts \<noteq> [] \<and> time_at_start (last starts) = tas \<and> start_v (last starts) = v \<and>
                start_is_better_or_eq search_dir (time_at_stop (last starts)) ev_time
        then starts
        else starts @ [\<lparr>time_at_start = tas, time_at_stop = ev_time, start_stop = location_idx, start_v = v\<rparr>])"

definition start_traffic :: "timetable \<Rightarrow> rt_timetable option \<Rightarrow> nat \<Rightarrow> bitfield" where
  "start_traffic tt rtt t =
     (case rtt of None \<Rightarrow> bitfields tt ! (transport_traffic_days tt ! t)
                | Some rtt \<Rightarrow> traffic_days tt rtt (rtt_traffic_days rtt ! t))"

text \<open>Whether transport \<open>t\<close>, at the stop on day \<open>day\<close>, runs and is in the interval at the stop.\<close>

definition event_on :: "timetable \<Rightarrow> rt_timetable option \<Rightarrow> nat \<Rightarrow> int interval \<Rightarrow> int \<Rightarrow> nat \<Rightarrow> bool" where
  "event_on tt rtt t iv_at_stop stop_time day \<longleftrightarrow>
     bit (start_traffic tt rtt t) (nat (u16 (int day - u16 (cdiv stop_time 1440)))) \<and>
     iv_contains iv_at_stop (to_unixtime tt day (i16 (cmod stop_time 1440)))"

definition add_start_times_at_stop ::
    "direction \<Rightarrow> timetable \<Rightarrow> rt_timetable option \<Rightarrow> nat \<Rightarrow> nat \<Rightarrow> nat \<Rightarrow> int interval \<Rightarrow> int interval
     \<Rightarrow> location_offset \<Rightarrow> nat \<Rightarrow> start list \<Rightarrow> start list" where
  "add_start_times_at_stop search_dir tt rtt route_idx stop_idx location_idx iv_at_start iv_at_stop off v starts =
     (let first_day_idx = fst (day_idx_mam tt (ifrom iv_at_stop));
          last_day_idx = fst (day_idx_mam tt (ito iv_at_stop))
      in fold (\<lambda>t starts.
           let stop_time = delta_count (event_mam tt t stop_idx (start_event search_dir))
           in fold (\<lambda>day starts.
                if event_on tt rtt t iv_at_stop stop_time day
                then add_event search_dir location_idx iv_at_start off v
                       (to_unixtime tt day (i16 (cmod stop_time 1440))) starts
                else starts) [first_day_idx..<Suc last_day_idx] starts)
         (iv_list (route_transport_ranges tt ! route_idx)) starts)"

section \<open>All starts at a stop\<close>

definition skips_stop :: "direction \<Rightarrow> nat \<Rightarrow> nat \<Rightarrow> nat \<Rightarrow> stop \<Rightarrow> bool" where
  "skips_stop search_dir p n_stops i stp \<longleftrightarrow>
     (search_dir = Backward \<and> (i = 0 \<or> \<not> out_allowed_prf stp p)) \<or>
     (search_dir = Forward \<and> (i = n_stops - 1 \<or> \<not> in_allowed_prf stp p))"

definition iv_at_stop_of :: "direction \<Rightarrow> int interval \<Rightarrow> int \<Rightarrow> int interval" where
  "iv_at_stop_of search_dir iv max_start_offset =
     (if search_dir = Forward then mk_iv (ifrom iv) (ito iv + max_start_offset)
      else mk_iv (ifrom iv - max_start_offset) (ito iv))"

definition add_route_starts ::
    "direction \<Rightarrow> timetable \<Rightarrow> rt_timetable option \<Rightarrow> int interval \<Rightarrow> nat \<Rightarrow> location_offset \<Rightarrow> nat \<Rightarrow> int
     \<Rightarrow> nat \<Rightarrow> start list \<Rightarrow> start list" where
  "add_route_starts search_dir tt rtt iv l off v max_start_offset p starts =
     fold (\<lambda>r starts.
         let seq = route_location_seq tt ! r
         in fold (\<lambda>i starts.
              let stp = stop_of_value (seq ! i)
              in if stop_loc stp \<noteq> l \<or> skips_stop search_dir p (length seq) i stp then starts
                 else add_start_times_at_stop search_dir tt rtt r i (stop_loc stp) iv
                        (iv_at_stop_of search_dir iv max_start_offset) off v starts)
            [0..<length seq] starts)
       (location_routes tt ! l) starts"

definition add_rt_start ::
    "direction \<Rightarrow> rt_timetable \<Rightarrow> int interval \<Rightarrow> nat \<Rightarrow> location_offset \<Rightarrow> nat \<Rightarrow> nat \<Rightarrow> nat \<Rightarrow> start list \<Rightarrow> start list" where
  "add_rt_start search_dir rtt iv l off v rt_t i starts =
     (let ev_time = unix_event_time rtt rt_t i (start_event search_dir);
          d = get_duration search_dir ev_time off True;
          tas = back_by search_dir ev_time d
      in if d = kMaxDuration \<or> \<not> iv_contains iv tas then starts
         else starts @ [\<lparr>time_at_start = tas, time_at_stop = ev_time, start_stop = l, start_v = v\<rparr>])"

definition add_rt_starts ::
    "direction \<Rightarrow> rt_timetable \<Rightarrow> int interval \<Rightarrow> nat \<Rightarrow> location_offset \<Rightarrow> nat \<Rightarrow> nat \<Rightarrow> start list \<Rightarrow> start list" where
  "add_rt_starts search_dir rtt iv l off v p starts =
     fold (\<lambda>rt_t starts.
         let seq = rt_location_seq rtt ! rt_t
         in fold (\<lambda>i starts.
              let stp = stop_of_value (seq ! i)
              in if stop_loc stp \<noteq> l \<or> skips_stop search_dir p (length seq) i stp then starts
                 else add_rt_start search_dir rtt iv l off v rt_t i starts)
            [0..<length seq] starts)
       (location_rt_transports rtt ! l) starts"

text \<open>The start at the end of the interval.\<close>

definition ontrip_start :: "direction \<Rightarrow> int interval \<Rightarrow> nat \<Rightarrow> location_offset \<Rightarrow> nat \<Rightarrow> start list" where
  "ontrip_start search_dir iv l off v =
     (let tas = (if search_dir = Forward then ito iv else ifrom iv - 1);
          d = get_duration search_dir tas off False
      in if d = kMaxDuration then []
         else [\<lparr>time_at_start = tas, time_at_stop = (if search_dir = Forward then ito iv + d else ifrom iv - 1 - d),
                start_stop = l, start_v = v\<rparr>])"

definition add_starts_in_interval ::
    "direction \<Rightarrow> timetable \<Rightarrow> rt_timetable option \<Rightarrow> int interval \<Rightarrow> nat \<Rightarrow> location_offset \<Rightarrow> nat \<Rightarrow> int
     \<Rightarrow> nat \<Rightarrow> bool \<Rightarrow> start list \<Rightarrow> start list" where
  "add_starts_in_interval search_dir tt rtt iv l off v max_start_offset p add_ontrip starts =
     (let starts = add_route_starts search_dir tt rtt iv l off v max_start_offset p starts;
          starts = (case rtt of None \<Rightarrow> starts | Some rtt \<Rightarrow> add_rt_starts search_dir rtt iv l off v p starts)
      in if add_ontrip then starts @ ontrip_start search_dir iv l off v else starts)"

section \<open>The starts of a query\<close>

text \<open>\<open>shortest_start\<close>: for both via slots the stops reached and the shortest way to each, in the
  order of their first insertion.\<close>

type_synonym shortest = "(nat \<times> int) list"

fun insert_min :: "nat \<Rightarrow> int \<Rightarrow> shortest \<Rightarrow> shortest" where
  "insert_min l d [] = [(l, d)]"
| "insert_min l d ((k, x) # m) = (if k = l then (k, min x d) # m else (k, x) # insert_min l d m)"

definition update_min :: "nat \<Rightarrow> nat \<Rightarrow> int \<Rightarrow> shortest \<times> shortest \<Rightarrow> shortest \<times> shortest" where
  "update_min v l d ss = (if v = 0 then (insert_min l d (fst ss), snd ss) else (fst ss, insert_min l d (snd ss)))"

definition start_vias :: "timetable \<Rightarrow> via_stop list \<Rightarrow> nat list" where
  "start_vias tt via_stops =
     (if via_stops = [] then [] else for_each_meta tt kEquivalent (via_location (hd via_stops)))"

definition update_start :: "nat list \<Rightarrow> via_stop list \<Rightarrow> nat \<Rightarrow> int \<Rightarrow> bool \<Rightarrow> shortest \<times> shortest \<Rightarrow> shortest \<times> shortest" where
  "update_start start_via via_stops l dur is_walked_from_via ss =
     (if \<not> is_walked_from_via \<and> l \<notin> set start_via then update_min 0 l dur ss
      else
        let stay = via_stay (hd via_stops); ss = update_min 1 l (i16 (dur + stay)) ss
        in if stay \<noteq> 0 then update_min 0 l dur ss else ss)"

definition start_footpaths :: "direction \<Rightarrow> timetable \<Rightarrow> nat \<Rightarrow> nat \<Rightarrow> footpath list" where
  "start_footpaths search_dir tt prf l =
     (if search_dir = Forward then footpaths_out tt ! prf ! l else footpaths_in tt ! prf ! l)"

definition shortest_starts ::
    "direction \<Rightarrow> timetable \<Rightarrow> offset list \<Rightarrow> via_stop list \<Rightarrow> location_match_mode \<Rightarrow> bool \<Rightarrow> nat
     \<Rightarrow> transfer_time_settings \<Rightarrow> shortest \<times> shortest" where
  "shortest_starts search_dir tt start_offsets via_stops mode use_start_footpaths prf settings =
     (let start_via = start_vias tt via_stops
      in fold (\<lambda>o'. fold (\<lambda>l ss.
             let ss = update_start start_via via_stops l (off_duration o') False ss
             in if use_start_footpaths
                then fold (\<lambda>fp. update_start start_via via_stops (fp_target fp)
                        (i16 (off_duration o' + adjusted_transfer_time i16 settings (fp_duration fp)))
                        (l \<in> set start_via)) (start_footpaths search_dir tt prf l) ss
                else ss)
           (for_each_meta tt mode (off_target o'))) start_offsets ([], []))"

text \<open>\<open>visit\<close> is the order in which a hash map is iterated, which the library leaves open.\<close>

definition add_offset_starts ::
    "direction \<Rightarrow> timetable \<Rightarrow> rt_timetable option \<Rightarrow> start_time \<Rightarrow> int \<Rightarrow> nat \<Rightarrow> bool \<Rightarrow> (shortest \<Rightarrow> shortest)
     \<Rightarrow> nat \<Rightarrow> shortest \<Rightarrow> start list \<Rightarrow> start list" where
  "add_offset_starts search_dir tt rtt st max_start_offset prf add_ontrip visit v ss starts =
     fold (\<lambda>(l, dur) starts.
         case st of
           InInterval iv \<Rightarrow> add_starts_in_interval search_dir tt rtt iv l (OffDuration dur) v max_start_offset prf add_ontrip starts
         | AtTime t \<Rightarrow> starts @ [\<lparr>time_at_start = t, time_at_stop = (if search_dir = Forward then t + dur else t - dur),
                                  start_stop = l, start_v = v\<rparr>])
       (visit ss) starts"

definition add_td_starts ::
    "direction \<Rightarrow> timetable \<Rightarrow> rt_timetable option \<Rightarrow> start_time \<Rightarrow> int \<Rightarrow> nat \<Rightarrow> bool \<Rightarrow> nat list
     \<Rightarrow> (nat \<times> td_offset list) list \<Rightarrow> start list \<Rightarrow> start list" where
  "add_td_starts search_dir tt rtt st max_start_offset prf add_ontrip start_via tds starts =
     fold (\<lambda>(stp, offsets) starts.
         let v = (if stp \<in> set start_via then 1 else 0)
         in case st of
              InInterval iv \<Rightarrow> add_starts_in_interval search_dir tt rtt iv stp (OffTd offsets) v max_start_offset prf add_ontrip starts
            | AtTime t \<Rightarrow>
                let d = get_duration search_dir t (OffTd offsets) False
                in if d = kMaxDuration then starts
                   else starts @ [\<lparr>time_at_start = t, time_at_stop = (if search_dir = Forward then t + d else t - d),
                                   start_stop = stp, start_v = v\<rparr>])
       tds starts"

definition get_starts ::
    "direction \<Rightarrow> timetable \<Rightarrow> rt_timetable option \<Rightarrow> start_time \<Rightarrow> query \<Rightarrow> bool \<Rightarrow> (shortest \<Rightarrow> shortest)
     \<Rightarrow> start list \<Rightarrow> start list" where
  "get_starts search_dir tt rtt st q add_ontrip visit starts =
     (let prf = q_prf_idx q; off = q_max_start_offset q;
          ss = shortest_starts search_dir tt (q_start q) (q_via_stops q) (q_start_match_mode q)
                 (q_use_start_footpaths q) prf (q_transfer_time_settings q);
          starts = add_offset_starts search_dir tt rtt st off prf add_ontrip visit 0 (fst ss) starts;
          starts = add_offset_starts search_dir tt rtt st off prf add_ontrip visit 1 (snd ss) starts
      in add_td_starts search_dir tt rtt st off prf add_ontrip (start_vias tt (q_via_stops q)) (q_td_start q) starts)"

section \<open>Destinations\<close>

definition set_bit :: "nat \<Rightarrow> bool list \<Rightarrow> bool list" where
  "set_bit i bs = bs[i := True]"

definition collect_destinations :: "timetable \<Rightarrow> offset list \<Rightarrow> location_match_mode \<Rightarrow> bool list \<times> nat list" where
  "collect_destinations tt destinations mode =
     (let n = n_locations tt;
          is_dest = replicate n False;
          init = (if mode = kIntermodal then (is_dest[1 := True], replicate n 65535) else (is_dest, []))
      in fold (\<lambda>o'. fold (\<lambda>l (is_dest, dist).
             if mode = kIntermodal
             then (is_dest, dist[l := min (dist ! l) (nat (u16 (off_duration o')))])
             else (set_bit l is_dest, dist))
           (for_each_meta tt mode (off_target o'))) destinations init)"

definition collect_via_destinations :: "timetable \<Rightarrow> nat \<Rightarrow> bool list" where
  "collect_via_destinations tt via =
     fold set_bit (for_each_meta tt kEquivalent via) (replicate (n_locations tt) False)"

section \<open>Departures found\<close>

text \<open>The departures that make a start: a transport that runs, at the stop in the interval, reached by
  a feasible way from a start in the interval.\<close>

definition feasible_event ::
    "direction \<Rightarrow> timetable \<Rightarrow> rt_timetable option \<Rightarrow> nat \<Rightarrow> nat \<Rightarrow> int interval \<Rightarrow> int interval \<Rightarrow> location_offset
     \<Rightarrow> nat \<Rightarrow> nat \<Rightarrow> bool" where
  "feasible_event search_dir tt rtt route_idx stop_idx iv_at_start iv_at_stop off t day \<longleftrightarrow>
     (let stop_time = delta_count (event_mam tt t stop_idx (start_event search_dir));
          ev = to_unixtime tt day (i16 (cmod stop_time 1440))
      in t \<in> set (iv_list (route_transport_ranges tt ! route_idx)) \<and>
         fst (day_idx_mam tt (ifrom iv_at_stop)) \<le> day \<and> day \<le> fst (day_idx_mam tt (ito iv_at_stop)) \<and>
         event_on tt rtt t iv_at_stop stop_time day \<and> get_duration search_dir ev off True \<noteq> kMaxDuration \<and>
         iv_contains iv_at_start (back_by search_dir ev (get_duration search_dir ev off True)))"

definition departure :: "direction \<Rightarrow> timetable \<Rightarrow> nat \<Rightarrow> nat \<Rightarrow> nat \<Rightarrow> int" where
  "departure search_dir tt stop_idx t day =
     to_unixtime tt day (i16 (cmod (delta_count (event_mam tt t stop_idx (start_event search_dir))) 1440))"

text \<open>A start at the same stop and time of departure from the origin, and no later at the stop.\<close>

definition start_covers :: "direction \<Rightarrow> nat \<Rightarrow> nat \<Rightarrow> location_offset \<Rightarrow> int \<Rightarrow> start list \<Rightarrow> bool" where
  "start_covers search_dir l v off ev starts \<longleftrightarrow>
     (\<exists>s \<in> set starts. start_stop s = l \<and> start_v s = v \<and>
        time_at_start s = back_by search_dir ev (get_duration search_dir ev off True) \<and>
        start_is_better_or_eq search_dir (time_at_stop s) ev)"

definition at_stop :: "nat \<Rightarrow> start list \<Rightarrow> bool" where
  "at_stop l starts \<longleftrightarrow> starts = [] \<or> start_stop (last starts) = l"

lemma add_event_grows: "set starts \<subseteq> set (add_event search_dir l iv off v ev starts)"
  by (auto simp: add_event_def Let_def)

lemma add_event_new:
  "s \<in> set (add_event search_dir l iv off v ev starts) \<Longrightarrow> s \<in> set starts \<or>
    (start_stop s = l \<and> start_v s = v \<and> time_at_stop s = ev \<and> get_duration search_dir ev off True \<noteq> kMaxDuration \<and>
     time_at_start s = back_by search_dir ev (get_duration search_dir ev off True) \<and>
     iv_contains iv (back_by search_dir ev (get_duration search_dir ev off True)))"
  by (auto simp: add_event_def Let_def split: if_splits)

lemma add_event_at_stop: "at_stop l starts \<Longrightarrow> at_stop l (add_event search_dir l iv off v ev starts)"
  by (auto simp: add_event_def at_stop_def Let_def)

lemma add_event_covers:
  assumes "at_stop l starts" "get_duration search_dir ev off True \<noteq> kMaxDuration"
    and "iv_contains iv (back_by search_dir ev (get_duration search_dir ev off True))"
  shows "start_covers search_dir l v off ev (add_event search_dir l iv off v ev starts)"
proof -
  let ?tas = "back_by search_dir ev (get_duration search_dir ev off True)"
  show ?thesis
  proof (cases "starts \<noteq> [] \<and> time_at_start (last starts) = ?tas \<and> start_v (last starts) = v \<and>
      start_is_better_or_eq search_dir (time_at_stop (last starts)) ev")
    case True
    with assms have "add_event search_dir l iv off v ev starts = starts" by (simp add: add_event_def Let_def)
    moreover have "last starts \<in> set starts" using True by simp
    ultimately show ?thesis using True assms(1) by (auto simp: start_covers_def at_stop_def intro!: bexI [of _ "last starts"])
  next
    case False
    with assms have "add_event search_dir l iv off v ev starts =
        starts @ [\<lparr>time_at_start = ?tas, time_at_stop = ev, start_stop = l, start_v = v\<rparr>]"
      unfolding add_event_def Let_def by (simp only: if_False simp_thms)
    then show ?thesis by (auto simp: start_covers_def start_is_better_or_eq_def)
  qed
qed

lemma covers_grows: "start_covers search_dir l v off ev a \<Longrightarrow> set a \<subseteq> set b \<Longrightarrow> start_covers search_dir l v off ev b"
  by (auto simp: start_covers_def)

text \<open>Loops whose bodies only add elements keep what an iteration has established.\<close>

lemma fold_grows: "(\<And>x s. x \<in> set xs \<Longrightarrow> set s \<subseteq> set (f x s)) \<Longrightarrow> set s \<subseteq> set (fold f xs s)"
  by (rule fold_relation [where R = "\<lambda>a b. set a \<subseteq> set b"]) auto

lemma fold_reaches:
  assumes "x \<in> set xs" and "Inv s" and "\<And>x s. x \<in> set xs \<Longrightarrow> Inv s \<Longrightarrow> Inv (f x s)"
    and "\<And>s. Inv s \<Longrightarrow> P (f x s)" and "\<And>y s. y \<in> set xs \<Longrightarrow> P s \<Longrightarrow> P (f y s)"
  shows "P (fold f xs s)"
proof -
  obtain as bs where xs: "xs = as @ x # bs" using split_list [OF assms(1)] by blast
  have "Inv (fold f as s)"
    by (rule fold_invariant [where P = Inv, OF assms(2)]) (use assms(3) xs in auto)
  then have "P (f x (fold f as s))" by (rule assms(4))
  then have "P (fold f bs (f x (fold f as s)))"
    by (rule fold_invariant [where P = P]) (use assms(5) xs in auto)
  then show ?thesis by (simp add: xs)
qed

lemma start_times_new:
  assumes "s \<in> set (add_start_times_at_stop search_dir tt rtt r stop_idx l iv iv_at_stop off v starts)"
  shows "s \<in> set starts \<or> (start_stop s = l \<and> start_v s = v \<and>
    (\<exists>t day. feasible_event search_dir tt rtt r stop_idx iv iv_at_stop off t day \<and>
       time_at_stop s = departure search_dir tt stop_idx t day \<and>
       time_at_start s = back_by search_dir (time_at_stop s) (get_duration search_dir (time_at_stop s) off True)))"
proof -
  let ?P = "\<lambda>xs. \<forall>s \<in> set xs. s \<in> set starts \<or> (start_stop s = l \<and> start_v s = v \<and>
    (\<exists>t day. feasible_event search_dir tt rtt r stop_idx iv iv_at_stop off t day \<and>
       time_at_stop s = departure search_dir tt stop_idx t day \<and>
       time_at_start s = back_by search_dir (time_at_stop s) (get_duration search_dir (time_at_stop s) off True)))"
  have "?P (add_start_times_at_stop search_dir tt rtt r stop_idx l iv iv_at_stop off v starts)"
    unfolding add_start_times_at_stop_def Let_def
  proof (rule fold_invariant [where P = ?P], blast, rule fold_invariant [where P = ?P], assumption, intro ballI)
    fix t day xs s
    let ?st = "delta_count (event_mam tt t stop_idx (start_event search_dir))"
    assume t: "t \<in> set (iv_list (route_transport_ranges tt ! r))"
      and day: "day \<in> set [fst (day_idx_mam tt (ifrom iv_at_stop))..<Suc (fst (day_idx_mam tt (ito iv_at_stop)))]"
      and xs: "?P xs"
      and s: "s \<in> set (if event_on tt rtt t iv_at_stop ?st day
        then add_event search_dir l iv off v (to_unixtime tt day (i16 (cmod ?st 1440))) xs else xs)"
    show "s \<in> set starts \<or> (start_stop s = l \<and> start_v s = v \<and>
      (\<exists>t day. feasible_event search_dir tt rtt r stop_idx iv iv_at_stop off t day \<and>
       time_at_stop s = departure search_dir tt stop_idx t day \<and>
       time_at_start s = back_by search_dir (time_at_stop s) (get_duration search_dir (time_at_stop s) off True)))"
    proof (cases "s \<in> set xs")
      case False
      with s have on: "event_on tt rtt t iv_at_stop ?st day"
        "s \<in> set (add_event search_dir l iv off v (departure search_dir tt stop_idx t day) xs)"
        by (auto simp: departure_def split: if_splits)
      from add_event_new [OF on(2)] False have new: "start_stop s = l" "start_v s = v"
        "time_at_stop s = departure search_dir tt stop_idx t day"
        "get_duration search_dir (time_at_stop s) off True \<noteq> kMaxDuration"
        "time_at_start s = back_by search_dir (time_at_stop s) (get_duration search_dir (time_at_stop s) off True)"
        "iv_contains iv (back_by search_dir (time_at_stop s) (get_duration search_dir (time_at_stop s) off True))"
        by auto
      have "feasible_event search_dir tt rtt r stop_idx iv iv_at_stop off t day"
        unfolding feasible_event_def Let_def departure_def [symmetric] new(3) [symmetric]
        using t day on(1) new(4,6) by auto
      with new show ?thesis by blast
    qed (use xs in blast)
  qed
  with assms show ?thesis by blast
qed

lemma start_times_complete:
  assumes "feasible_event search_dir tt rtt r stop_idx iv iv_at_stop off t day" "at_stop l starts"
  shows "start_covers search_dir l v off (departure search_dir tt stop_idx t day)
    (add_start_times_at_stop search_dir tt rtt r stop_idx l iv iv_at_stop off v starts)"
proof -
  let ?days = "[fst (day_idx_mam tt (ifrom iv_at_stop))..<Suc (fst (day_idx_mam tt (ito iv_at_stop)))]"
  define body where "body t day xs =
      (if event_on tt rtt t iv_at_stop (delta_count (event_mam tt t stop_idx (start_event search_dir))) day
       then add_event search_dir l iv off v (departure search_dir tt stop_idx t day) xs else xs)" for t day xs
  have eq: "add_start_times_at_stop search_dir tt rtt r stop_idx l iv iv_at_stop off v starts =
      fold (\<lambda>t. fold (body t) ?days) (iv_list (route_transport_ranges tt ! r)) starts"
    unfolding add_start_times_at_stop_def Let_def body_def departure_def ..
  note f = assms(1) [unfolded feasible_event_def Let_def departure_def [symmetric]]
  have at: "at_stop l (body t' d xs)" if "at_stop l xs" for t' d xs
    using that by (simp add: body_def add_event_at_stop)
  have grow: "set xs \<subseteq> set (body t' d xs)" for t' d xs
    using add_event_grows by (simp add: body_def)
  have keep: "start_covers search_dir l v off (departure search_dir tt stop_idx t day) xs \<Longrightarrow>
      start_covers search_dir l v off (departure search_dir tt stop_idx t day) (body t' d xs)" for t' d xs
    using covers_grows grow by blast
  show ?thesis
    unfolding eq
  proof (rule fold_reaches [where Inv = "at_stop l" and x = t])
    show "start_covers search_dir l v off (departure search_dir tt stop_idx t day) (fold (body t) ?days xs)"
      if "at_stop l xs" for xs
    proof (rule fold_reaches [where Inv = "at_stop l" and x = day])
      show "start_covers search_dir l v off (departure search_dir tt stop_idx t day) (body t day ys)"
        if "at_stop l ys" for ys
        using add_event_covers [OF that, of search_dir "departure search_dir tt stop_idx t day" off iv v] f
        by (simp add: body_def)
    qed (use f that in \<open>auto intro: at keep\<close>)
    show "at_stop l (fold (body t') ?days xs)" if "at_stop l xs" for t' xs
      by (rule fold_invariant [where P = "at_stop l", OF that]) (rule at)
    show "start_covers search_dir l v off (departure search_dir tt stop_idx t day) (fold (body t') ?days xs)"
      if "start_covers search_dir l v off (departure search_dir tt stop_idx t day) xs" for t' xs
      by (rule fold_invariant [where P = "start_covers search_dir l v off (departure search_dir tt stop_idx t day)", OF that])
         (rule keep)
  qed (use f assms(2) in simp_all)
qed

text \<open>Property C34. The starts \<open>add_start_times_at_stop\<close> adds are departures in the interval of running
  transports of the route, each left from the origin in time and within the queried interval; and
  when the last start before was at the same stop, every such departure is there or one at the
  same stop with the same time at the origin that is no later. So skipping a start never loses a
  departure from that stop.\<close>

theorem start_times_exact:
  shows "(\<forall>s \<in> set (add_start_times_at_stop search_dir tt rtt r stop_idx l iv iv_at_stop off v starts) - set starts.
      start_stop s = l \<and> start_v s = v \<and>
      (\<exists>t day. feasible_event search_dir tt rtt r stop_idx iv iv_at_stop off t day \<and>
        time_at_stop s = departure search_dir tt stop_idx t day \<and>
        time_at_start s = back_by search_dir (time_at_stop s) (get_duration search_dir (time_at_stop s) off True))) \<and>
    (at_stop l starts \<longrightarrow> (\<forall>t day. feasible_event search_dir tt rtt r stop_idx iv iv_at_stop off t day \<longrightarrow>
      start_covers search_dir l v off (departure search_dir tt stop_idx t day)
        (add_start_times_at_stop search_dir tt rtt r stop_idx l iv iv_at_stop off v starts)))"
  using start_times_new [of _ search_dir tt rtt r stop_idx l iv iv_at_stop off v starts]
    start_times_complete [of search_dir tt rtt r stop_idx iv iv_at_stop off _ _ l starts v]
  by blast

text \<open>In the example timetable the bus leaves location 0 at 10:00 and 11:00 on days 5 and 6.\<close>

lemma example_departure:
  "delta_count (event_mam example_timetable 0 0 Dep) = 600" "day_idx_mam example_timetable 590 = (5, 590)"
  "day_idx_mam example_timetable 640 = (5, 640)" "to_unixtime example_timetable 5 600 = 600"
  "start_traffic example_timetable None 0 = 96" "route_transport_ranges example_timetable = [mk_iv 0 2]"
  by (simp_all add: event_mam_def event_mam_r_def example_timetable_def empty_timetable_def day_idx_mam_def
      to_unixtime_def start_traffic_def internal_interval_def internal_interval_days_def mk_iv_def kTimetableOffset_def
      delta_count_def delta_plus_def delta_of_minutes_def wrap_s16_id Let_def)

theorem start_times_exact_witness:
  "start_covers Forward 0 0 (OffDuration 7) (departure Forward example_timetable 0 0 5)
     (add_start_times_at_stop Forward example_timetable None 0 0 0 (mk_iv 590 610) (mk_iv 590 640) (OffDuration 7) 0 [])"
proof -
  have "feasible_event Forward example_timetable None 0 0 (mk_iv 590 610) (mk_iv 590 640) (OffDuration 7) 0 5"
    unfolding feasible_event_def Let_def event_on_def
    by (simp add: example_departure start_event_def mk_iv_def iv_contains_def iv_list_def get_duration_def back_by_def
        kMaxDuration_def wrap_s16_id bit_numeral_rec)
  then show ?thesis
    using start_times_exact [of Forward example_timetable None 0 0 0 "mk_iv 590 610" "mk_iv 590 640" "OffDuration 7" 0 "[]"]
    by (simp add: at_stop_def)
qed

section \<open>The shortest way to a stop\<close>

text \<open>The ways the query offers: stop, duration, and whether it starts with a walk from the first via;
  and the slots each of them counts for.\<close>

definition start_ways ::
    "direction \<Rightarrow> timetable \<Rightarrow> offset list \<Rightarrow> via_stop list \<Rightarrow> location_match_mode \<Rightarrow> bool \<Rightarrow> nat
     \<Rightarrow> transfer_time_settings \<Rightarrow> (nat \<times> int \<times> bool) list" where
  "start_ways search_dir tt start_offsets via_stops mode use_start_footpaths prf settings =
     concat (map (\<lambda>o'. concat (map (\<lambda>l. (l, off_duration o', False) #
         (if use_start_footpaths
          then map (\<lambda>fp. (fp_target fp, i16 (off_duration o' + adjusted_transfer_time i16 settings (fp_duration fp)),
                 l \<in> set (start_vias tt via_stops))) (start_footpaths search_dir tt prf l)
          else [])) (for_each_meta tt mode (off_target o')))) start_offsets)"

definition way_slots :: "nat list \<Rightarrow> via_stop list \<Rightarrow> nat \<times> int \<times> bool \<Rightarrow> (nat \<times> nat \<times> int) list" where
  "way_slots start_via via_stops w =
     (case w of (l, d, walked) \<Rightarrow>
        if \<not> walked \<and> l \<notin> set start_via then [(0, l, d)]
        else (1, l, i16 (d + via_stay (hd via_stops))) # (if via_stay (hd via_stops) \<noteq> 0 then [(0, l, d)] else []))"

definition start_way_set ::
    "direction \<Rightarrow> timetable \<Rightarrow> offset list \<Rightarrow> via_stop list \<Rightarrow> location_match_mode \<Rightarrow> bool \<Rightarrow> nat
     \<Rightarrow> transfer_time_settings \<Rightarrow> (nat \<times> nat \<times> int) set" where
  "start_way_set search_dir tt offs vs mode use_fps prf settings =
     set (concat (map (way_slots (start_vias tt vs) vs) (start_ways search_dir tt offs vs mode use_fps prf settings)))"

definition insert_slot :: "nat \<times> nat \<times> int \<Rightarrow> shortest \<times> shortest \<Rightarrow> shortest \<times> shortest" where
  "insert_slot = (\<lambda>(v, l, d). update_min v l d)"

lemma update_start_slots:
  "update_start start_via via_stops l d walked ss = fold insert_slot (way_slots start_via via_stops (l, d, walked)) ss"
  by (simp add: update_start_def way_slots_def insert_slot_def Let_def)

lemma fold_concat_map: "fold f (concat (map g xs)) s = fold (\<lambda>x. fold f (g x)) xs s"
  by (induction xs arbitrary: s) simp_all

lemma shortest_starts_ways:
  "shortest_starts search_dir tt offs vs mode use_fps prf settings =
   fold insert_slot (concat (map (way_slots (start_vias tt vs) vs) (start_ways search_dir tt offs vs mode use_fps prf settings))) ([], [])"
  unfolding shortest_starts_def start_ways_def Let_def fold_concat_map update_start_slots
  by (rule arg_cong2 [where f = "\<lambda>f s. fold f offs s", OF ext refl], rule arg_cong2 [where f = "\<lambda>f s. fold f s", OF ext refl])
     (simp add: fun_eq_iff fold_map comp_def)

lemma map_of_insert_min:
  "map_of (insert_min l d m) k = (if k = l then Some (case map_of m l of None \<Rightarrow> d | Some x \<Rightarrow> min x d) else map_of m k)"
  by (induction l d m rule: insert_min.induct) auto

definition least_way :: "(nat \<times> nat \<times> int) set \<Rightarrow> nat \<Rightarrow> nat \<Rightarrow> int \<Rightarrow> bool" where
  "least_way W v l m \<longleftrightarrow> (v, l, m) \<in> W \<and> (\<forall>d. (v, l, d) \<in> W \<longrightarrow> m \<le> d)"

lemma least_way_insert:
  assumes "\<And>m. x = Some m \<longleftrightarrow> least_way W v l m" "x = None \<longleftrightarrow> (\<forall>d. (v, l, d) \<notin> W)"
  shows "Some (case x of None \<Rightarrow> d | Some y \<Rightarrow> min y d) = Some m \<longleftrightarrow> least_way (insert (v, l, d) W) v l m"
proof (cases x)
  case None
  with assms(2) show ?thesis by (auto simp: least_way_def)
next
  case (Some y)
  with assms(1) [of y] have y: "(v, l, y) \<in> W" "\<And>e. (v, l, e) \<in> W \<Longrightarrow> y \<le> e" by (auto simp: least_way_def)
  have "least_way (insert (v, l, d) W) v l (min y d)"
    using y by (auto simp: least_way_def min_def dest: y(2))
  moreover have "a = b" if "least_way X v l a" "least_way X v l b" for X a b
    using that by (auto simp: least_way_def intro: order_antisym)
  ultimately show ?thesis using Some by auto
qed

lemma insert_slots_least:
  assumes "\<forall>(v, l, d) \<in> set ws. v < 2"
  shows "(map_of (fst (fold insert_slot ws ([], []))) l = Some m \<longleftrightarrow> least_way (set ws) 0 l m) \<and>
    (map_of (snd (fold insert_slot ws ([], []))) l = Some m \<longleftrightarrow> least_way (set ws) 1 l m)"
  using assms
proof (induction ws arbitrary: l m rule: rev_induct)
  case Nil
  then show ?case by (simp add: least_way_def)
next
  case (snoc w ws)
  obtain v k d where w: "w = (v, k, d)" by (metis prod_cases3)
  define ss where "ss = fold insert_slot ws ([], [])"
  have IH: "map_of (fst ss) l = Some m \<longleftrightarrow> least_way (set ws) 0 l m"
    "map_of (snd ss) l = Some m \<longleftrightarrow> least_way (set ws) 1 l m" for l m
    using snoc.IH [of l m] snoc.prems by (auto simp: ss_def)
  have none: "x = None \<longleftrightarrow> (\<forall>d. (u, l, d) \<notin> set ws)" if eq: "\<And>m. x = Some m \<longleftrightarrow> least_way (set ws) u l m" for x u l
  proof (cases x)
    case None
    have "(u, l, d) \<notin> set ws" for d
    proof
      assume "(u, l, d) \<in> set ws"
      then have "finite {e. (u, l, e) \<in> set ws}" "{e. (u, l, e) \<in> set ws} \<noteq> {}"
        by (auto intro!: finite_subset [of "{e. (u, l, e) \<in> set ws}" "(\<lambda>(_, _, e). e) ` set ws"] bexI [of _ "(u, l, _)"]
            simp: image_iff)
      then have "least_way (set ws) u l (Min {e. (u, l, e) \<in> set ws})"
        using Min_in Min_le by (fastforce simp: least_way_def)
      with eq None show False by simp
    qed
    with None show ?thesis by simp
  next
    case (Some y)
    with eq show ?thesis by (auto simp: least_way_def)
  qed
  have set: "set (ws @ [w]) = insert (v, k, d) (set ws)" by (simp add: w)
  have step: "fold insert_slot (ws @ [w]) ([], []) = update_min v k d ss"
    by (simp add: w ss_def insert_slot_def)
  have "v = 0 \<or> v = 1" using snoc.prems by (auto simp: w)
  then show ?case
  proof
    assume v: "v = 0"
    have "Some (case map_of (fst ss) k of None \<Rightarrow> d | Some y \<Rightarrow> min y d) = Some m \<longleftrightarrow>
        least_way (insert (0, k, d) (set ws)) 0 k m"
      by (rule least_way_insert [OF IH(1) none [OF IH(1)]])
    then show ?thesis
      unfolding step set using IH by (auto simp: update_min_def v map_of_insert_min least_way_def)
  next
    assume v: "v = 1"
    have "Some (case map_of (snd ss) k of None \<Rightarrow> d | Some y \<Rightarrow> min y d) = Some m \<longleftrightarrow>
        least_way (insert (1, k, d) (set ws)) 1 k m"
      by (rule least_way_insert [OF IH(2) none [OF IH(2)]])
    then show ?thesis
      unfolding step set using IH by (auto simp: update_min_def v map_of_insert_min least_way_def)
  qed
qed

text \<open>Property C35. \<open>shortest_start\<close> holds for each via slot and stop the least duration among all ways the
  query offers: the offsets to all stops matching the queried ones and, if asked for, on along
  their footpaths, with the stay added where the way counts as having visited the first via.\<close>

theorem shortest_starts_least:
  "(map_of (fst (shortest_starts search_dir tt offs vs mode use_fps prf settings)) l = Some m \<longleftrightarrow>
      least_way (start_way_set search_dir tt offs vs mode use_fps prf settings) 0 l m) \<and>
   (map_of (snd (shortest_starts search_dir tt offs vs mode use_fps prf settings)) l = Some m \<longleftrightarrow>
      least_way (start_way_set search_dir tt offs vs mode use_fps prf settings) 1 l m)"
  unfolding start_way_set_def shortest_starts_ways
  by (rule insert_slots_least) (auto simp: way_slots_def split: if_splits)

section \<open>Destinations found\<close>

lemma fold_set_bit: "length (fold set_bit ls bs) = length bs \<and>
  (\<forall>i < length bs. fold set_bit ls bs ! i \<longleftrightarrow> i \<in> set ls \<or> bs ! i)"
proof (induction ls arbitrary: bs)
  case (Cons l ls)
  from Cons.IH [of "set_bit l bs"] show ?case by (cases "l < length bs") (auto simp: set_bit_def nth_list_update split: if_splits)
qed simp

lemma fold_min_dist:
  fixes f :: "'a \<Rightarrow> nat"
  shows "length (fold (\<lambda>o' dist. fold (\<lambda>l dist. dist[l := min (dist ! l) (f o')]) (g o') dist) os ds) = length ds \<and>
    (\<forall>i < length ds. fold (\<lambda>o' dist. fold (\<lambda>l dist. dist[l := min (dist ! l) (f o')]) (g o') dist) os ds ! i =
       Min (insert (ds ! i) (f ` {o' \<in> set os. i \<in> set (g o')})))"
proof (induction os arbitrary: ds)
  case (Cons o' os)
  have inner: "length (fold (\<lambda>l dist. dist[l := min (dist ! l) x]) ls ds) = length ds \<and>
    (\<forall>i < length ds. fold (\<lambda>l dist. dist[l := min (dist ! l) x]) ls ds ! i =
       (if i \<in> set ls then min (ds ! i) x else ds ! i))" for x :: nat and ls ds
  proof (induction ls arbitrary: ds)
    case (Cons l ls)
    from Cons.IH [of "ds[l := min (ds ! l) x]"] show ?case
      by (cases "l < length ds") (auto simp: nth_list_update list_update_beyond not_less)
  qed simp
  let ?ds = "fold (\<lambda>l dist. dist[l := min (dist ! l) (f o')]) (g o') ds"
  have len: "length ?ds = length ds" using inner by blast
  show ?case
  proof (intro conjI allI impI)
    fix i assume i: "i < length ds"
    define F where "F = f ` {o' \<in> set os. i \<in> set (g o')}"
    have "finite F" by (simp add: F_def)
    have "{p \<in> set (o' # os). i \<in> set (g p)} = (if i \<in> set (g o') then insert o' {p \<in> set os. i \<in> set (g p)}
        else {p \<in> set os. i \<in> set (g p)})" by auto
    moreover have "Min (insert (min (ds ! i) (f o')) F) = Min (insert (ds ! i) (insert (f o') F))"
      by (cases "F = {}") (simp_all add: \<open>finite F\<close> min.assoc)
    ultimately show "fold (\<lambda>o' dist. fold (\<lambda>l dist. dist[l := min (dist ! l) (f o')]) (g o') dist) (o' # os) ds ! i =
       Min (insert (ds ! i) (f ` {p \<in> set (o' # os). i \<in> set (g p)}))"
      using Cons.IH [of ?ds] len i inner by (simp add: F_def)
  qed (use Cons.IH [of ?ds] len in simp)
qed simp

lemma fold_pair_fst: "(\<And>x a b. f x (a, b) = (g x a, b)) \<Longrightarrow> fold f xs (a, b) = (fold g xs a, b)"
  by (induction xs arbitrary: a) simp_all

lemma fold_pair_snd: "(\<And>x a b. f x (a, b) = (a, g x b)) \<Longrightarrow> fold f xs (a, b) = (a, fold g xs b)"
  by (induction xs arbitrary: b) simp_all

text \<open>\<open>collect_destinations\<close> marks exactly the stops that match a destination under the match
  mode; for an intermodal destination it marks only the special end station and gives every
  location the least duration of the destinations it matches, or the value for unreachable if
  there is none.\<close>

theorem collect_destinations_exact:
  "(mode \<noteq> kIntermodal \<longrightarrow> (\<exists>is_dest. collect_destinations tt ds mode = (is_dest, []) \<and>
      length is_dest = n_locations tt \<and>
      (\<forall>l < n_locations tt. is_dest ! l \<longleftrightarrow> (\<exists>d \<in> set ds. l \<in> set (for_each_meta tt mode (off_target d)))))) \<and>
   (\<exists>dist. collect_destinations tt ds kIntermodal = ((replicate (n_locations tt) False)[1 := True], dist) \<and>
      length dist = n_locations tt \<and>
      (\<forall>l < n_locations tt. dist ! l = Min (insert 65535 ((\<lambda>d. nat (u16 (off_duration d))) `
         {d \<in> set ds. l \<in> set (for_each_meta tt kIntermodal (off_target d))}))))"
proof (intro conjI impI)
  assume m: "mode \<noteq> kIntermodal"
  have "collect_destinations tt ds mode =
      (fold set_bit (concat (map (\<lambda>d. for_each_meta tt mode (off_target d)) ds)) (replicate (n_locations tt) False), [])"
    unfolding collect_destinations_def Let_def fold_concat_map
    using m by (simp add: fold_pair_fst [where g = "\<lambda>d. fold set_bit (for_each_meta tt mode (off_target d))"]
        fold_pair_fst [where g = set_bit])
  then show "\<exists>is_dest. collect_destinations tt ds mode = (is_dest, []) \<and> length is_dest = n_locations tt \<and>
      (\<forall>l < n_locations tt. is_dest ! l \<longleftrightarrow> (\<exists>d \<in> set ds. l \<in> set (for_each_meta tt mode (off_target d))))"
    using fold_set_bit [of "concat (map (\<lambda>d. for_each_meta tt mode (off_target d)) ds)" "replicate (n_locations tt) False"]
    by auto
next
  let ?f = "\<lambda>d. nat (u16 (off_duration d))" and ?g = "\<lambda>d. for_each_meta tt kIntermodal (off_target d)"
  have "collect_destinations tt ds kIntermodal = ((replicate (n_locations tt) False)[1 := True],
      fold (\<lambda>d dist. fold (\<lambda>l dist. dist[l := min (dist ! l) (?f d)]) (?g d) dist) ds (replicate (n_locations tt) 65535))"
    unfolding collect_destinations_def Let_def
    by (simp add: fold_pair_snd [where g = "\<lambda>d dist. fold (\<lambda>l dist. dist[l := min (dist ! l) (?f d)]) (?g d) dist"]
        fold_pair_snd [where g = "\<lambda>l dist. dist[l := min (dist ! l) (?f d)]" for d])
  then show "\<exists>dist. collect_destinations tt ds kIntermodal = ((replicate (n_locations tt) False)[1 := True], dist) \<and>
      length dist = n_locations tt \<and>
      (\<forall>l < n_locations tt. dist ! l = Min (insert 65535 (?f ` {d \<in> set ds. l \<in> set (?g d)})))"
    using fold_min_dist [of ?f ?g ds "replicate (n_locations tt) 65535"] by auto
qed

theorem collect_destinations_exact_witness:
  "\<exists>is_dest. collect_destinations example_timetable
     [\<lparr>off_target = 2, off_duration = 0, off_mode = 0, off_payload = 0\<rparr>] kExact = (is_dest, []) \<and> is_dest ! 2 \<and> \<not> is_dest ! 0"
proof -
  have n: "n_locations example_timetable = 3" by (simp add: n_locations_def example_timetable_def)
  show ?thesis
    using collect_destinations_exact [of kExact example_timetable
        "[\<lparr>off_target = 2, off_duration = 0, off_mode = 0, off_payload = 0\<rparr>]", THEN conjunct1]
    by (auto simp: n for_each_meta_def)
qed

section \<open>The times at the origin\<close>

text \<open>In an interval query every start leaves the origin within the interval, but for the one start per
  stop at its end.\<close>

definition start_in :: "direction \<Rightarrow> int interval \<Rightarrow> bool \<Rightarrow> start \<Rightarrow> bool" where
  "start_in d iv add_ontrip st \<longleftrightarrow> iv_contains iv (time_at_start st) \<or>
     (add_ontrip \<and> time_at_start st = (if d = Forward then ito iv else ifrom iv - 1))"

definition adds :: "(start \<Rightarrow> bool) \<Rightarrow> start list \<Rightarrow> start list \<Rightarrow> bool" where
  "adds P xs ys \<longleftrightarrow> (\<forall>st \<in> set ys. st \<in> set xs \<or> P st)"

lemma adds_refl: "adds P xs xs"
  by (simp add: adds_def)

lemma adds_trans: "adds P a b \<Longrightarrow> adds P b c \<Longrightarrow> adds P a c"
  by (auto simp: adds_def)

lemma adds_fold: "(\<And>x s. x \<in> set xs \<Longrightarrow> adds P s (f x s)) \<Longrightarrow> adds P s (fold f xs s)"
  by (rule fold_relation [where R = "adds P"]) (auto intro: adds_refl adds_trans)

lemma adds_append: "(\<And>st. st \<in> set ys \<Longrightarrow> P st) \<Longrightarrow> adds P xs (xs @ ys)"
  by (auto simp: adds_def)

lemma adds_at_stop:
  "adds (start_in d iv b) starts (add_start_times_at_stop d tt rtt r i l iv iv' off v starts)"
  unfolding adds_def start_in_def
  using start_times_new [of _ d tt rtt r i l iv iv' off v starts]
  by (fastforce simp: feasible_event_def Let_def departure_def)

lemma adds_route_starts: "adds (start_in d iv b) starts (add_route_starts d tt rtt iv l off v mso p starts)"
  unfolding add_route_starts_def Let_def
  by (intro adds_fold) (simp add: adds_refl adds_at_stop)

lemma adds_rt_starts: "adds (start_in d iv b) starts (add_rt_starts d rtt iv l off v p starts)"
  unfolding add_rt_starts_def Let_def
  by (intro adds_fold) (auto simp: adds_refl add_rt_start_def Let_def start_in_def intro!: adds_append)

lemma adds_starts_in_interval:
  "adds (start_in d iv add_ontrip) starts (add_starts_in_interval d tt rtt iv l off v mso p add_ontrip starts)"
proof -
  define s1 where "s1 = add_route_starts d tt rtt iv l off v mso p starts"
  define s2 where "s2 = (case rtt of None \<Rightarrow> s1 | Some rtt \<Rightarrow> add_rt_starts d rtt iv l off v p s1)"
  have "adds (start_in d iv add_ontrip) starts s1" unfolding s1_def by (rule adds_route_starts)
  moreover have "adds (start_in d iv add_ontrip) s1 s2" unfolding s2_def by (cases rtt) (simp_all add: adds_refl adds_rt_starts)
  moreover have "adds (start_in d iv add_ontrip) s2 (if add_ontrip then s2 @ ontrip_start d iv l off v else s2)"
    by (auto simp: adds_refl ontrip_start_def Let_def start_in_def intro!: adds_append)
  ultimately show ?thesis
    unfolding add_starts_in_interval_def Let_def s1_def [symmetric] s2_def [symmetric]
    using adds_trans by blast
qed

lemma adds_offset_starts:
  "adds (start_in d iv add_ontrip) xs (add_offset_starts d tt rtt (InInterval iv) mso prf add_ontrip visit v ss xs)"
  unfolding add_offset_starts_def by (rule adds_fold) (simp add: adds_starts_in_interval split: prod.split)

lemma adds_td_starts:
  "adds (start_in d iv add_ontrip) xs (add_td_starts d tt rtt (InInterval iv) mso prf add_ontrip vs tds xs)"
  unfolding add_td_starts_def by (rule adds_fold) (simp add: adds_starts_in_interval Let_def split: prod.split)

lemma get_starts_in:
  "adds (start_in d iv add_ontrip) starts (get_starts d tt rtt (InInterval iv) q add_ontrip visit starts)"
  unfolding get_starts_def Let_def
  by (rule adds_trans [OF adds_offset_starts adds_trans [OF adds_offset_starts adds_td_starts]])

end
