(* ===== verification/Raptor_Rounds.thy ===== *)
theory Raptor_Rounds
  imports Raptor Journey
begin

text \<open>
  The rounds of \<open>include/nigiri/routing/raptor/raptor.h\<close>: scanning the marked routes and real-time
  transports, then transfers, footpaths, time-dependent footpaths and the last leg to an
  intermodal destination, and the main loop \<open>execute\<close> around them.
\<close>

section \<open>Relaxing one target\<close>

text \<open>The body the three footpath loops share: prune against the best label, the time at the
  destination, the lower bound and the bounds of the other direction, then write the label.\<close>

definition relax :: "raptor \<Rightarrow> nat \<Rightarrow> nat \<Rightarrow> nat \<Rightarrow> int \<Rightarrow> bool \<Rightarrow> raptor_state \<Rightarrow> raptor_state" where
  "relax c k target target_v t reached_dest s =
     (let d = search_dir c;
          s = (if bounds_last_k s = 0 \<and> is_better d t (at2 (best s) target target_v)
               then upd_round k target target_v (get_best d t (at3 (round_times s) k target target_v)) s
               else s)
      in if is_better d t (at2 (best s) target target_v) \<and> is_better_or_eq d t (time_at_dest s ! k) then
           if \<not> lb_reachable c target \<or>
              \<not> is_better_or_eq d (t + dir d (get_lb c target)) (time_at_dest s ! k)
           then s\<lparr>stats := (stats s)\<lparr>n_prevented_by_lower_bound := n_prevented_by_lower_bound (stats s) + 1\<rparr>\<rparr>
           else if \<not> within_bounds c k target t target_v s then s
           else
             let s = s\<lparr>stats := (stats s)\<lparr>n_updated_by_footpath := n_updated_by_footpath (stats s) + 1\<rparr>\<rparr>;
                 s = upd_round k target target_v t s;
                 s = upd_best target target_v t s;
                 s = mark_station target s
             in if reached_dest then update_time_at_dest c k t s else s
         else s)"

section \<open>Transfers and footpaths\<close>

definition transfer_to :: "raptor \<Rightarrow> nat \<Rightarrow> nat \<Rightarrow> nat \<Rightarrow> int \<Rightarrow> nat \<Rightarrow> raptor_state \<Rightarrow> raptor_state" where
  "transfer_to c k i v tmp_time target_v s =
     (let d = search_dir c; stay = via_stay_time c v target_v;
          at_dest = (target_v = vias c \<and> is_dest c ! i);
          transfer = (if \<not> is_intermodal_dest c \<and> at_dest then 0
                      else dir d (adjusted_transfer_time u8 (tts c) (transfer_time (r_tt c) ! i)));
          fp_target_time = clamp (tmp_time + transfer + dir d stay)
      in relax c k i target_v fp_target_time at_dest s)"

definition update_transfers :: "raptor \<Rightarrow> nat \<Rightarrow> raptor_state \<Rightarrow> raptor_state" where
  "update_transfers c k s =
     fold (\<lambda>i. fold (\<lambda>v s.
         let tmp_time = at2 (tmp s) i v
         in if tmp_time = kInvalid c then s
            else fold (transfer_to c k i v tmp_time) (via_states c i v) s) [0..<vias c + 1])
       (set_bits (prev_station_mark s)) s"

definition has_td_fps :: "raptor \<Rightarrow> nat \<Rightarrow> bool \<Rightarrow> bool" where
  "has_td_fps c x out \<longleftrightarrow> with_rt c \<and> has_profile_td_footpaths (prf_idx c) \<and>
     (if out then has_td_footpaths_out (r_rtt c) else has_td_footpaths_in (r_rtt c)) ! prf_idx c ! x"

text \<open>The loops over the via states at the start and at the target of a footpath; \<open>dur\<close> is the duration
  without stays.\<close>

definition footpath_to :: "raptor \<Rightarrow> nat \<Rightarrow> nat \<Rightarrow> int \<Rightarrow> nat \<Rightarrow> int \<Rightarrow> nat \<Rightarrow> nat \<Rightarrow> bool \<Rightarrow> raptor_state \<Rightarrow> raptor_state" where
  "footpath_to c k target dur v tmp_time start_v target_v all_slots s =
     (let d = search_dir c;
          stay = i16 (via_stay_time c v start_v + via_stay_time c start_v target_v);
          fp_target_time = clamp (tmp_time + dir d (dur + stay))
      in relax c k target target_v fp_target_time ((all_slots \<or> target_v = vias c) \<and> is_dest c ! target) s)"

definition walk :: "raptor \<Rightarrow> nat \<Rightarrow> nat \<Rightarrow> nat \<Rightarrow> int \<Rightarrow> nat \<Rightarrow> int \<Rightarrow> bool \<Rightarrow> raptor_state \<Rightarrow> raptor_state" where
  "walk c k i target dur v tmp_time all_slots s =
     fold (\<lambda>start_v. fold (\<lambda>target_v. footpath_to c k target dur v tmp_time start_v target_v all_slots)
         (via_states c target start_v))
       (via_states c i v) s"

definition footpaths_of :: "raptor \<Rightarrow> nat \<Rightarrow> footpath list" where
  "footpaths_of c i =
     (if search_dir c = Forward then footpaths_out (r_tt c) else footpaths_in (r_tt c)) ! prf_idx c ! i"

definition update_footpaths_from :: "raptor \<Rightarrow> nat \<Rightarrow> nat \<Rightarrow> raptor_state \<Rightarrow> raptor_state" where
  "update_footpaths_from c k i s =
     (let use_td_fps = has_td_fps c i (search_dir c = Forward)
      in if search_dir c = Forward \<and> use_td_fps then s
         else fold (\<lambda>fp s.
             if search_dir c \<noteq> Forward \<and> use_td_fps \<and> has_td_fps c (fp_target fp) True then s
             else
               let s = s\<lparr>stats := (stats s)\<lparr>n_footpaths_visited := n_footpaths_visited (stats s) + 1\<rparr>\<rparr>
               in fold (\<lambda>v s.
                   let tmp_time = at2 (tmp s) i v
                   in if tmp_time = kInvalid c then s
                      else walk c k i (fp_target fp) (adjusted_transfer_time i16 (tts c) (fp_duration fp))
                             v tmp_time False s) [0..<vias c + 1] s)
           (footpaths_of c i) s)"

definition update_footpaths :: "raptor \<Rightarrow> nat \<Rightarrow> raptor_state \<Rightarrow> raptor_state" where
  "update_footpaths c k s = fold (update_footpaths_from c k) (set_bits (prev_station_mark s)) s"

definition td_footpaths_of :: "raptor \<Rightarrow> nat \<Rightarrow> td_footpath list" where
  "td_footpaths_of c i =
     (if search_dir c = Forward then td_footpaths_out (r_rtt c) else td_footpaths_in (r_rtt c)) ! prf_idx c ! i"

definition update_td_offsets :: "raptor \<Rightarrow> nat \<Rightarrow> raptor_state \<Rightarrow> raptor_state" where
  "update_td_offsets c k s =
     (if \<not> with_rt c \<or> \<not> has_profile_td_footpaths (prf_idx c) then s
      else fold (\<lambda>i s.
          if \<not> has_td_fps c i (search_dir c = Forward) then s
          else fold (\<lambda>v s.
              let tmp_time = at2 (tmp s) i v
              in if tmp_time = kInvalid c then s
                 else fold (\<lambda>(target, dur, walking) s.
                     let s = s\<lparr>stats := (stats s)\<lparr>n_footpaths_visited := n_footpaths_visited (stats s) + 1\<rparr>\<rparr>
                     in walk c k i target dur v tmp_time True s)
                   (for_each_footpath (search_dir c) (td_footpaths_of c i) (to_unix c tmp_time)) s)
            [0..<vias c + 1] s)
        (set_bits (prev_station_mark s)) s)"

section \<open>The last leg to an intermodal destination\<close>

definition reach_end :: "raptor \<Rightarrow> nat \<Rightarrow> int \<Rightarrow> raptor_state \<Rightarrow> raptor_state" where
  "reach_end c k end_time s =
     (let s = upd_round k kIntermodalTarget (vias c) end_time s;
          s = upd_best kIntermodalTarget (vias c) end_time s
      in update_time_at_dest c k end_time s)"

definition reach_end_loose :: "raptor \<Rightarrow> nat \<Rightarrow> int \<Rightarrow> raptor_state \<Rightarrow> raptor_state" where
  "reach_end_loose c k end_time s =
     (if is_better_or_eq (search_dir c) end_time (time_at_dest s ! k) then reach_end c k end_time s else s)"

definition td_end :: "raptor \<Rightarrow> nat \<Rightarrow> nat \<Rightarrow> raptor_state \<Rightarrow> raptor_state" where
  "td_end c k i s =
     (case td_dist_to_end c i of
        None \<Rightarrow> s
      | Some offs \<Rightarrow>
          let d = search_dir c; fp_start_time = at2 (tmp s) i (vias c)
          in if fp_start_time = kInvalid c then s
             else case get_td_duration d offs (to_unix c fp_start_time) of
                    None \<Rightarrow> s
                  | Some (dur, _) \<Rightarrow>
                      let end_time = clamp (fp_start_time + dir d dur)
                      in if is_better_or_eq d end_time (time_at_dest s ! k) \<and>
                            is_better d end_time (at2 (best s) kIntermodalTarget (vias c))
                         then reach_end c k end_time s else s)"

definition intermodal_from :: "raptor \<Rightarrow> nat \<Rightarrow> nat \<Rightarrow> raptor_state \<Rightarrow> raptor_state" where
  "intermodal_from c k i s =
     (if \<not> end_reachable c i then s
      else if dist_to_end c ! i = kUnreachable then td_end c k i s
      else
        let d = search_dir c; dist = int (dist_to_end c ! i);
            s = (if vias c \<noteq> 0 \<and> at2 (tmp s) i (vias c - 1) \<noteq> kInvalid c \<and> is_via c ! (vias c - 1) ! i
                 then reach_end_loose c k (clamp (at2 (tmp s) i (vias c - 1)
                        + dir d (via_stay (via_stops c ! (vias c - 1))) + dir d dist)) s
                 else s);
            tmp_time = at2 (tmp s) i (vias c)
        in if tmp_time = kInvalid c then s
           else td_end c k i (reach_end_loose c k (clamp (tmp_time + dir d dist)) s))"

definition update_intermodal_footpaths :: "raptor \<Rightarrow> nat \<Rightarrow> raptor_state \<Rightarrow> raptor_state" where
  "update_intermodal_footpaths c k s =
     (if dist_to_end c = [] then s else fold (intermodal_from c k) (set_bits (prev_station_mark s)) s)"

section \<open>Flags of routes and sections\<close>

text \<open>\<open>apply_filter\<close> of the route loops: \<open>None\<close> rejects the route, \<open>Some True\<close> asks for the check of
  every section.\<close>

definition flag_filter :: "bool list \<Rightarrow> nat \<Rightarrow> bool option" where
  "flag_filter flags r =
     (if \<not> flags ! (r * 2) then (if \<not> flags ! (r * 2 + 1) then None else Some True) else Some False)"

definition required_flags :: "raptor \<Rightarrow> route_flag list" where
  "required_flags c =
     (if require_bike c then [kBikesAllowed] else []) @ (if require_car c then [kCarsAllowed] else []) @
     (if is_wheelchair c then [kWheelchairAccessible] else []) @
     (if no_compulsory_reservation c then [kReservationNotRequired] else [])"

text \<open>The four filters in order: the flags to check per section, or \<open>None\<close> if one rejects the route.\<close>

fun section_filters :: "bool list list \<Rightarrow> nat \<Rightarrow> route_flag list \<Rightarrow> route_flag list option" where
  "section_filters flags r [] = Some []"
| "section_filters flags r (f # fs) =
     (case flag_filter (flags ! route_flag_idx f) r of
        None \<Rightarrow> None
      | Some check \<Rightarrow> map_option (\<lambda>rest. if check then f # rest else rest) (section_filters flags r fs))"

text \<open>The section before position \<open>i\<close> of the scan.\<close>

definition sections_pass :: "raptor \<Rightarrow> bool list list list \<Rightarrow> nat \<Rightarrow> route_flag list \<Rightarrow> nat \<Rightarrow> bool" where
  "sections_pass c per_section r fs stop_idx \<longleftrightarrow>
     list_all (\<lambda>f. per_section ! route_flag_idx f ! r !
       (if search_dir c = Forward then stop_idx - 1 else stop_idx)) fs"

definition stop_idx_at :: "raptor \<Rightarrow> nat \<Rightarrow> nat \<Rightarrow> nat" where
  "stop_idx_at c n_stops i = (if search_dir c = Forward then i else n_stops - i - 1)"

section \<open>Scanning a real-time transport\<close>

text \<open>\<open>et ! v\<close>: the transport can be entered before this stop with \<open>v\<close> vias visited. The local
  \<open>current_best\<close> of this function is only traced and left out.\<close>

definition rt_cross_one :: "raptor \<Rightarrow> nat \<Rightarrow> nat \<Rightarrow> bool list \<Rightarrow> bool list" where
  "rt_cross_one c l v et =
     (if et ! (v - 1) \<and> is_via c ! (v - 1) ! l \<and> via_stay (via_stops c ! (v - 1)) = 0
      then et[v := True, v - 1 := False] else et)"

definition rt_cross :: "raptor \<Rightarrow> nat \<Rightarrow> bool list \<Rightarrow> bool list" where
  "rt_cross c l et = fold (rt_cross_one c l) (rev [1..<Suc (vias c)]) et"

text \<open>Writing an arrival into \<open>tmp\<close> when nothing prunes it, shared by both scans.\<close>

definition arrive :: "raptor \<Rightarrow> nat \<Rightarrow> nat \<Rightarrow> nat \<Rightarrow> int \<Rightarrow> bool \<times> raptor_state \<Rightarrow> bool \<times> raptor_state" where
  "arrive c k l v by_transport st =
     (case st of (any_marked, s) \<Rightarrow>
        let d = search_dir c
        in if is_better_or_eq d by_transport (time_at_dest s ! k) \<and> lb_reachable c l \<and>
              is_better_or_eq d (by_transport + dir d (get_lb c l)) (time_at_dest s ! k) \<and>
              within_bounds c k l by_transport v s
           then (True, mark_station l (upd_tmp l v (get_best d by_transport (at2 (tmp s) l v))
                  (s\<lparr>stats := (stats s)\<lparr>n_updated_by_route := n_updated_by_route (stats s) + 1\<rparr>\<rparr>)))
           else (any_marked, s))"

definition rt_alight :: "raptor \<Rightarrow> nat \<Rightarrow> nat \<Rightarrow> stop \<Rightarrow> int \<Rightarrow> bool list \<Rightarrow> bool \<times> raptor_state \<Rightarrow> bool \<times> raptor_state" where
  "rt_alight c k l stp by_transport et st =
     fold (\<lambda>j st. let v = vias c - j
             in if et ! v \<and> can_finish (search_dir c) stp (is_wheelchair c)
                then arrive c k l v by_transport st else st)
       [0..<vias c + 1] st"

definition rt_board :: "raptor \<Rightarrow> nat \<Rightarrow> nat \<Rightarrow> int \<Rightarrow> raptor_state \<Rightarrow> bool list \<Rightarrow> bool list" where
  "rt_board c k l by_transport s et =
     fold (\<lambda>v et. if is_better_or_eq (search_dir c) (at3 (round_times s) (k - 1) l v) by_transport
                   then et[v := True] else et) [0..<vias c + 1] et"

text \<open>One stop of the scan: filters and crossings, then alighting, then boarding. The stops are
  visited until the lower bound says that the destination is out of reach.\<close>

definition rt_pass_stop :: "raptor \<Rightarrow> nat \<Rightarrow> route_flag list \<Rightarrow> nat \<Rightarrow> nat \<Rightarrow> nat \<Rightarrow> nat \<Rightarrow> bool list \<Rightarrow> bool list" where
  "rt_pass_stop c rt_t fs n_stops i stop_idx l et =
     (let et = (if i \<noteq> 0 \<and> \<not> sections_pass c (rt_flags_per_section (r_rtt c)) rt_t fs stop_idx
                then map (\<lambda>_. False) et else et)
      in if (search_dir c = Forward \<and> stop_idx \<noteq> 0) \<or> (search_dir c \<noteq> Forward \<and> stop_idx \<noteq> n_stops - 1)
         then rt_cross c l et else et)"

definition rt_leave :: "raptor \<Rightarrow> nat \<Rightarrow> nat \<Rightarrow> nat \<Rightarrow> nat \<Rightarrow> stop \<Rightarrow> nat \<Rightarrow> bool list \<Rightarrow> bool \<times> raptor_state
    \<Rightarrow> bool \<times> raptor_state" where
  "rt_leave c k rt_t n_stops stop_idx stp l et st =
     (if (search_dir c = Forward \<and> stop_idx \<noteq> 0) \<or> (search_dir c \<noteq> Forward \<and> stop_idx \<noteq> n_stops - 1)
      then rt_alight c k l stp (rt_time_at_stop c rt_t stop_idx (arr_event c)) et st else st)"

definition rt_stop :: "raptor \<Rightarrow> nat \<Rightarrow> nat \<Rightarrow> route_flag list \<Rightarrow> nat \<Rightarrow> bool list \<times> bool \<times> raptor_state
    \<Rightarrow> bool \<times> bool list \<times> bool \<times> raptor_state" where
  "rt_stop c k rt_t fs i est =
     (let seq = rt_location_seq (r_rtt c) ! rt_t; n_stops = length seq;
          stop_idx = stop_idx_at c n_stops i; stp = stop_of_value (seq ! stop_idx); l = stop_loc stp;
          et = rt_pass_stop c rt_t fs n_stops i stop_idx l (fst est);
          st = rt_leave c k rt_t n_stops stop_idx stp l et (snd est)
      in if \<not> lb_reachable c l then (False, et, st)
         else if i = n_stops - 1 \<or> \<not> can_start (search_dir c) stp (is_wheelchair c) \<or>
                 \<not> prev_station_mark (snd st) ! l
         then (True, et, st)
         else (True, rt_board c k l (rt_time_at_stop c rt_t stop_idx (dep_event c)) (snd st) et, st))"

definition update_rt_transport :: "raptor \<Rightarrow> nat \<Rightarrow> nat \<Rightarrow> route_flag list \<Rightarrow> raptor_state \<Rightarrow> bool \<times> raptor_state" where
  "update_rt_transport c k rt_t fs s =
     snd (for_break (rt_stop c k rt_t fs) [0..<length (rt_location_seq (r_rtt c) ! rt_t)]
       (replicate (vias c + 1) False, False, s))"

section \<open>Scanning a route\<close>

text \<open>\<open>fst rs ! e ! o\<close> is the ride entered with \<open>e\<close> vias visited that has passed \<open>o\<close> more since,
  \<open>snd rs ! e ! o\<close> its cached times.\<close>

type_synonym rides = "transport option list list \<times> transport_times list list"

definition no_rides :: "raptor \<Rightarrow> transport option list list" where
  "no_rides c = replicate (vias c + 1) (replicate (vias c + 1) None)"

definition no_times :: "raptor \<Rightarrow> transport_times list list" where
  "no_times c = replicate (vias c + 1) (replicate (vias c + 1) \<lparr>tim_first_dep = 0, tim_offsets = 0\<rparr>)"

definition set_ride :: "nat \<Rightarrow> nat \<Rightarrow> transport option \<Rightarrow> rides \<Rightarrow> rides" where
  "set_ride e p t rs = ((fst rs)[e := (fst rs ! e)[p := t]], snd rs)"

definition set_times :: "nat \<Rightarrow> nat \<Rightarrow> transport_times \<Rightarrow> rides \<Rightarrow> rides" where
  "set_times e p t rs = (fst rs, (snd rs)[e := (snd rs ! e)[p := t]])"

definition cross_one :: "raptor \<Rightarrow> nat \<Rightarrow> nat \<Rightarrow> nat \<Rightarrow> nat \<Rightarrow> nat \<Rightarrow> rides \<Rightarrow> rides" where
  "cross_one c r stop_idx l e p rs =
     (let ride = fst rs ! e ! (p - 1); cs = e + p - 1
      in if ride \<noteq> None \<and> is_via c ! cs ! l \<and> via_stay (via_stops c ! cs) = 0 then
           set_ride e (p - 1) None
             (if fst rs ! e ! p = None \<or>
                 is_better (search_dir c) (get_time c r (snd rs ! e ! (p - 1)) stop_idx (arr_event c))
                   (get_time c r (snd rs ! e ! p) stop_idx (arr_event c))
              then set_times e p (snd rs ! e ! (p - 1)) (set_ride e p ride rs)
              else rs)
         else rs)"

definition cross :: "raptor \<Rightarrow> nat \<Rightarrow> nat \<Rightarrow> nat \<Rightarrow> rides \<Rightarrow> rides" where
  "cross c r stop_idx l rs =
     fold (\<lambda>e. fold (\<lambda>p. cross_one c r stop_idx l e p) (rev [1..<Suc (vias c - e)])) [0..<vias c] rs"

definition alight_one :: "raptor \<Rightarrow> nat \<Rightarrow> nat \<Rightarrow> nat \<Rightarrow> nat \<Rightarrow> stop \<Rightarrow> rides \<Rightarrow> nat \<Rightarrow> nat
    \<Rightarrow> int list \<times> bool \<times> raptor_state \<Rightarrow> int list \<times> bool \<times> raptor_state" where
  "alight_one c k r stop_idx l stp rs cs e st =
     (if fst rs ! e ! (cs - e) = None \<or> \<not> can_finish (search_dir c) stp (is_wheelchair c) then st
      else case st of (current_best, any_marked, s) \<Rightarrow>
        let d = search_dir c;
            by_transport = get_time c r (snd rs ! e ! (cs - e)) stop_idx (arr_event c);
            current_best = (if current_best ! cs = kInvalid c
              then current_best[cs := get_best3 d (at3 (round_times s) (k - 1) l cs) (at2 (tmp s) l cs) (at2 (best s) l cs)]
              else current_best);
            updated = (is_better_or_eq d by_transport (time_at_dest s ! k) \<and> lb_reachable c l \<and>
              is_better_or_eq d (by_transport + dir d (get_lb c l)) (time_at_dest s ! k) \<and>
              within_bounds c k l by_transport cs s);
            current_best = (if updated \<and> is_better d by_transport (current_best ! cs)
              then current_best[cs := by_transport] else current_best)
        in (current_best, arrive c k l cs by_transport (any_marked, s)))"

definition alight_all :: "raptor \<Rightarrow> nat \<Rightarrow> nat \<Rightarrow> nat \<Rightarrow> nat \<Rightarrow> stop \<Rightarrow> rides
    \<Rightarrow> int list \<times> bool \<times> raptor_state \<Rightarrow> int list \<times> bool \<times> raptor_state" where
  "alight_all c k r stop_idx l stp rs st =
     fold (\<lambda>j. let cs = vias c - j in fold (alight_one c k r stop_idx l stp rs cs) [0..<cs + 1])
       [0..<vias c + 1] st"

definition board_one :: "raptor \<Rightarrow> nat \<Rightarrow> nat \<Rightarrow> nat \<Rightarrow> nat \<Rightarrow> nat
    \<Rightarrow> rides \<times> int list \<times> raptor_state \<Rightarrow> rides \<times> int list \<times> raptor_state" where
  "board_one c k r stop_idx l v st =
     (case st of (rs, current_best, s) \<Rightarrow>
        let d = search_dir c;
            et_time_at_stop = (if fst rs ! v ! 0 \<noteq> None
              then get_time c r (snd rs ! v ! 0) stop_idx (dep_event c) else kInvalid c);
            prev_round_time = at3 (round_times s) (k - 1) l v
        in if prev_round_time \<noteq> kInvalid c \<and> is_better_or_eq d prev_round_time et_time_at_stop then
             let (dy, m) = split c prev_round_time;
                 new_et = get_earliest_transport c k r stop_idx dy m l s;
                 s = s\<lparr>stats := (stats s)\<lparr>n_earliest_trip_calls := n_earliest_trip_calls (stats s) + 1\<rparr>\<rparr>;
                 current_best = current_best[v :=
                   get_best3 d (current_best ! v) (at2 (best s) l v) (at2 (tmp s) l v)]
             in case new_et of
                  None \<Rightarrow> (rs, current_best, s)
                | Some t \<Rightarrow>
                    let new_times = get_transport_times c r t
                    in if current_best ! v = kInvalid c \<or>
                          is_better_or_eq d (get_time c r new_times stop_idx (dep_event c)) et_time_at_stop
                       then (set_times v 0 new_times (set_ride v 0 (Some t) rs), current_best, s)
                       else (rs, current_best, s)
           else (rs, current_best, s))"

definition board_all :: "raptor \<Rightarrow> nat \<Rightarrow> nat \<Rightarrow> nat \<Rightarrow> nat
    \<Rightarrow> rides \<times> int list \<times> raptor_state \<Rightarrow> rides \<times> int list \<times> raptor_state" where
  "board_all c k r stop_idx l st = fold (board_one c k r stop_idx l) [0..<vias c + 1] st"

text \<open>One stop of the scan: filters and crossings, then alighting.\<close>

definition pass_stop :: "raptor \<Rightarrow> nat \<Rightarrow> route_flag list \<Rightarrow> nat \<Rightarrow> nat \<Rightarrow> nat \<Rightarrow> rides \<Rightarrow> rides" where
  "pass_stop c r fs i stop_idx l rs =
     (let rs = (if i \<noteq> 0 \<and> \<not> sections_pass c (route_flags_per_section (r_tt c)) r fs stop_idx
                then (no_rides c, snd rs) else rs)
      in if vias c \<noteq> 0 then cross c r stop_idx l rs else rs)"

definition route_stop :: "raptor \<Rightarrow> nat \<Rightarrow> nat \<Rightarrow> route_flag list \<Rightarrow> nat \<Rightarrow> rides \<times> bool \<times> raptor_state
    \<Rightarrow> bool \<times> rides \<times> bool \<times> raptor_state" where
  "route_stop c k r fs i rst =
     (let seq = route_location_seq (r_tt c) ! r; n_stops = length seq;
          stop_idx = stop_idx_at c n_stops i; stp = stop_of_value (seq ! stop_idx); l = stop_loc stp;
          rs = pass_stop c r fs i stop_idx l (fst rst);
          al = alight_all c k r stop_idx l stp rs (kInvalidArray c, snd rst)
      in if i = n_stops - 1 \<or> \<not> can_start (search_dir c) stp (is_wheelchair c) \<or>
            \<not> prev_station_mark (snd (snd al)) ! l
         then (True, rs, snd al)
         else if \<not> lb_reachable c l then (False, rs, snd al)
         else let b = board_all c k r stop_idx l (rs, fst al, snd (snd al))
              in (True, fst b, fst (snd al), snd (snd b)))"

definition update_route :: "raptor \<Rightarrow> nat \<Rightarrow> nat \<Rightarrow> route_flag list \<Rightarrow> raptor_state \<Rightarrow> bool \<times> raptor_state" where
  "update_route c k r fs s =
     snd (for_break (route_stop c k r fs) [0..<length (route_location_seq (r_tt c) ! r)]
       ((no_rides c, no_times c), False, s))"

section \<open>The loops over marked routes\<close>

definition visit_route :: "raptor_state \<Rightarrow> raptor_state" where
  "visit_route s = s\<lparr>stats := (stats s)\<lparr>n_routes_visited := n_routes_visited (stats s) + 1\<rparr>\<rparr>"

definition loop_routes :: "raptor \<Rightarrow> nat \<Rightarrow> raptor_state \<Rightarrow> bool \<times> raptor_state" where
  "loop_routes c k s =
     fold (\<lambda>r (any_marked, s).
         if allowed_claszes c \<noteq> all_clasz_allowed \<and> \<not> is_allowed (allowed_claszes c) (route_clasz (r_tt c) ! r)
         then (any_marked, s)
         else case section_filters (route_flags (r_tt c)) r (required_flags c) of
                None \<Rightarrow> (any_marked, s)
              | Some fs \<Rightarrow> (case update_route c k r fs (visit_route s) of (m, s) \<Rightarrow> (any_marked \<or> m, s)))
       (set_bits (route_mark s)) (False, s)"

definition loop_rt_routes :: "raptor \<Rightarrow> nat \<Rightarrow> raptor_state \<Rightarrow> bool \<times> raptor_state" where
  "loop_rt_routes c k s =
     fold (\<lambda>rt_t (any_marked, s).
         if allowed_claszes c \<noteq> all_clasz_allowed \<and> \<not> is_allowed (allowed_claszes c) (rt_section_clasz (r_rtt c) ! rt_t ! 0)
         then (any_marked, s)
         else case section_filters (rt_transport_flags (r_rtt c)) rt_t (required_flags c) of
                None \<Rightarrow> (any_marked, s)
              | Some fs \<Rightarrow> (case update_rt_transport c k rt_t fs (visit_route s) of (m, s) \<Rightarrow> (any_marked \<or> m, s)))
       (set_bits (rt_transport_mark s)) (False, s)"

section \<open>One round, and all rounds\<close>

definition sync_best :: "raptor \<Rightarrow> nat \<Rightarrow> raptor_state \<Rightarrow> raptor_state" where
  "sync_best c k s =
     fold (\<lambda>i. fold (\<lambda>v s. upd_best i v (get_best (search_dir c) (at3 (round_times s) k i v) (at2 (best s) i v)) s)
         [0..<vias c + 1]) [0..<n_locations (r_tt c)] s"

definition dest_bounds :: "raptor \<Rightarrow> nat \<Rightarrow> raptor_state \<Rightarrow> raptor_state" where
  "dest_bounds c k s = fold (\<lambda>i s. update_time_at_dest c k (at2 (best s) i (vias c)) s) (set_bits (is_dest c)) s"

definition mark_routes_at :: "raptor \<Rightarrow> nat \<Rightarrow> bool \<times> raptor_state \<Rightarrow> bool \<times> raptor_state" where
  "mark_routes_at c i st =
     (let st = fold (\<lambda>r (_, s). (True, s\<lparr>route_mark := (route_mark s)[r := True]\<rparr>)) (location_routes (r_tt c) ! i) st
      in if with_rt c
         then fold (\<lambda>t (_, s). (True, s\<lparr>rt_transport_mark := (rt_transport_mark s)[t := True]\<rparr>))
                (location_rt_transports (r_rtt c) ! i) st
         else st)"

definition mark_routes :: "raptor \<Rightarrow> raptor_state \<Rightarrow> bool \<times> raptor_state" where
  "mark_routes c s = fold (mark_routes_at c) (set_bits (station_mark s)) (False, s)"

definition swap_marks :: "raptor_state \<Rightarrow> raptor_state" where
  "swap_marks s = s\<lparr>prev_station_mark := station_mark s, station_mark := map (\<lambda>_. False) (prev_station_mark s)\<rparr>"

text \<open>The round's result: whether the loop goes on.\<close>

definition round_of :: "raptor \<Rightarrow> nat \<Rightarrow> raptor_state \<Rightarrow> bool \<times> raptor_state" where
  "round_of c k s =
     (let s = dest_bounds c k (sync_best c k s);
          (any_marked, s) = mark_routes c s
      in if \<not> any_marked then (False, s)
         else
           let (m, s) = loop_routes c k (swap_marks s);
               any_marked = (any_marked \<or> m);
               (any_marked, s) = (if with_rt c then (case loop_rt_routes c k s of (m, s) \<Rightarrow> (any_marked \<or> m, s))
                                  else (any_marked, s))
           in if \<not> any_marked then (False, s)
              else
                let s = s\<lparr>route_mark := map (\<lambda>_. False) (route_mark s),
                          rt_transport_mark := map (\<lambda>_. False) (rt_transport_mark s)\<rparr>;
                    s = update_transfers c k (swap_marks s);
                    s = update_intermodal_footpaths c k s;
                    s = update_footpaths c k s
                in (True, update_td_offsets c k s))"

definition rounds :: "raptor \<Rightarrow> nat list \<Rightarrow> raptor_state \<Rightarrow> raptor_state" where
  "rounds c ks s = for_break (round_of c) ks s"

definition end_round :: "nat \<Rightarrow> nat" where
  "end_round max_transfers = min max_transfers kMaxTransfers + 2"

definition limit_dest :: "raptor \<Rightarrow> int \<Rightarrow> raptor_state \<Rightarrow> raptor_state" where
  "limit_dest c worst_time_at_dest s =
     s\<lparr>time_at_dest := map (get_best (search_dir c) (r_unix_to_delta c worst_time_at_dest)) (time_at_dest s)\<rparr>"

definition mk_journey :: "raptor \<Rightarrow> int \<Rightarrow> nat \<Rightarrow> nat \<Rightarrow> int \<Rightarrow> journey" where
  "mk_journey c start_time i k dest_time =
     \<lparr>j_legs = [], j_start_time = start_time, j_dest_time = delta_to_unix (base_days c) dest_time, j_dest = i,
      j_transfers = (k - 1) mod 2 ^ 8, j_error = False, j_is_reconstructed = False\<rparr>"

definition add_results :: "raptor \<Rightarrow> int \<Rightarrow> nat \<Rightarrow> raptor_state \<Rightarrow> journey list \<Rightarrow> journey list" where
  "add_results c start_time end_k s results =
     fold (\<lambda>i. fold (\<lambda>k results.
         let dest_time = at3 (round_times s) k i (vias c)
         in if dest_time \<noteq> kInvalid c
            then fst (pareto_add j_dominates results (mk_journey c start_time i k dest_time))
            else results) [1..<end_k])
       (set_bits (is_dest c)) results"

definition execute :: "raptor \<Rightarrow> int \<Rightarrow> nat \<Rightarrow> int \<Rightarrow> raptor_state \<times> journey list \<Rightarrow> raptor_state \<times> journey list" where
  "execute c start_time max_transfers worst_time_at_dest st =
     (case st of (s, results) \<Rightarrow>
        let end_k = end_round max_transfers;
            s = rounds c [1..<end_k] (limit_dest c worst_time_at_dest s)
        in if one_to_all c then (s, results) else (s, add_results c start_time end_k s results))"

end
