(* ===== verification/Raptor_Spec.thy ===== *)
theory Raptor_Spec
  imports Raptor_Rounds
begin

text \<open>
  What a label of the search means, independently of how it is computed: the rules by which a
  journey with at most \<open>k\<close> rides reaches a stop at some time with some number of vias visited.
  No pruning, marking, caching or search for the earliest transport occurs here. All notions are
  read in search direction, so for a backward search a "later" stop is an earlier one of the trip.
\<close>

section \<open>Routes and stops as the rules see them\<close>

definition route_stops :: "raptor \<Rightarrow> nat \<Rightarrow> nat" where
  "route_stops c r = length (route_location_seq (r_tt c) ! r)"

definition stop_at :: "raptor \<Rightarrow> nat \<Rightarrow> nat \<Rightarrow> stop" where
  "stop_at c r i = stop_of_value (route_location_seq (r_tt c) ! r ! stop_idx_at c (route_stops c r) i)"

definition rt_stops :: "raptor \<Rightarrow> nat \<Rightarrow> nat" where
  "rt_stops c t = length (rt_location_seq (r_rtt c) ! t)"

definition rt_stop_at :: "raptor \<Rightarrow> nat \<Rightarrow> nat \<Rightarrow> stop" where
  "rt_stop_at c t i = stop_of_value (rt_location_seq (r_rtt c) ! t ! stop_idx_at c (rt_stops c t) i)"

text \<open>A required property holds for a section if it holds for the whole route or is stored for the
  section.\<close>

definition flag_on :: "bool list list \<Rightarrow> bool list list list \<Rightarrow> nat \<Rightarrow> nat \<Rightarrow> route_flag \<Rightarrow> bool" where
  "flag_on flags per_section r sec f \<longleftrightarrow>
     flags ! route_flag_idx f ! (r * 2) \<or>
     flags ! route_flag_idx f ! (r * 2 + 1) \<and> per_section ! route_flag_idx f ! r ! sec"

definition section_before :: "raptor \<Rightarrow> nat \<Rightarrow> nat \<Rightarrow> nat" where
  "section_before c n i = (if search_dir c = Forward then stop_idx_at c n i - 1 else stop_idx_at c n i)"

definition section_ok :: "raptor \<Rightarrow> nat \<Rightarrow> nat \<Rightarrow> bool" where
  "section_ok c r i \<longleftrightarrow> (\<forall>f \<in> set (required_flags c).
     flag_on (route_flags (r_tt c)) (route_flags_per_section (r_tt c)) r (section_before c (route_stops c r) i) f)"

definition rt_section_ok :: "raptor \<Rightarrow> nat \<Rightarrow> nat \<Rightarrow> bool" where
  "rt_section_ok c t i \<longleftrightarrow> (\<forall>f \<in> set (required_flags c).
     flag_on (rt_transport_flags (r_rtt c)) (rt_flags_per_section (r_rtt c)) t (section_before c (rt_stops c t) i) f)"

definition clasz_ok :: "raptor \<Rightarrow> clasz \<Rightarrow> bool" where
  "clasz_ok c cl \<longleftrightarrow> allowed_claszes c = all_clasz_allowed \<or> is_allowed (allowed_claszes c) cl"

text \<open>The exact time of an event of a transport, in minutes from the base day.\<close>

definition event_minutes :: "raptor \<Rightarrow> nat \<Rightarrow> transport \<Rightarrow> nat \<Rightarrow> event_type \<Rightarrow> int" where
  "event_minutes c r t stop_idx ev =
     (int (t_day t) - int (base c)) * 1440 + delta_minutes (event_mam_r (r_tt c) r (t_idx t) stop_idx ev)"

definition serves :: "raptor \<Rightarrow> nat \<Rightarrow> transport \<Rightarrow> bool" where
  "serves c r t \<longleftrightarrow> t_idx t \<in> set (iv_list (rt_transports (tt_route_times (r_tt c) ! r))) \<and>
     r_is_transport_active c (t_idx t) (t_day t)"

definition free_via :: "raptor \<Rightarrow> nat \<Rightarrow> nat \<Rightarrow> bool" where
  "free_via c v l \<longleftrightarrow> v < vias c \<and> is_via c ! v ! l \<and> via_stay (via_stops c ! v) = 0"

definition transfer_minutes :: "raptor \<Rightarrow> nat \<Rightarrow> nat \<Rightarrow> int" where
  "transfer_minutes c l v =
     (if \<not> is_intermodal_dest c \<and> v = vias c \<and> is_dest c ! l then 0
      else dir (search_dir c) (adjusted_transfer_time u8 (tts c) (transfer_time (r_tt c) ! l)))"

definition walk_minutes :: "raptor \<Rightarrow> int \<Rightarrow> nat \<Rightarrow> nat \<Rightarrow> nat \<Rightarrow> int" where
  "walk_minutes c dur v start_v target_v =
     dir (search_dir c) (dur + i16 (via_stay_time c v start_v + via_stay_time c start_v target_v))"

text \<open>Static footpaths are replaced where time-dependent ones are known.\<close>

definition static_walk_ok :: "raptor \<Rightarrow> nat \<Rightarrow> nat \<Rightarrow> bool" where
  "static_walk_ok c l target \<longleftrightarrow>
     (if search_dir c = Forward then \<not> has_td_fps c l True
      else \<not> (has_td_fps c l False \<and> has_td_fps c target True))"

section \<open>The rules\<close>

text \<open>\<open>reached c S k l v t\<close>: a journey from the starts \<open>S\<close> is ready to leave stop \<open>l\<close> at \<open>t\<close> after at
  most \<open>k\<close> rides and \<open>v\<close> vias. \<open>riding c S k r t i v\<close>: transport \<open>t\<close> of route \<open>r\<close> is the \<open>k\<close>-th ride
  and arrives at the \<open>i\<close>-th stop. \<open>arrived c S k l v t\<close>: a ride ended at \<open>l\<close> at \<open>t\<close>.\<close>

inductive
  reached :: "raptor \<Rightarrow> (nat \<times> nat \<times> int) set \<Rightarrow> nat \<Rightarrow> nat \<Rightarrow> nat \<Rightarrow> int \<Rightarrow> bool" and
  riding :: "raptor \<Rightarrow> (nat \<times> nat \<times> int) set \<Rightarrow> nat \<Rightarrow> nat \<Rightarrow> transport \<Rightarrow> nat \<Rightarrow> nat \<Rightarrow> bool" and
  rt_riding :: "raptor \<Rightarrow> (nat \<times> nat \<times> int) set \<Rightarrow> nat \<Rightarrow> nat \<Rightarrow> nat \<Rightarrow> nat \<Rightarrow> bool" and
  arrived :: "raptor \<Rightarrow> (nat \<times> nat \<times> int) set \<Rightarrow> nat \<Rightarrow> nat \<Rightarrow> nat \<Rightarrow> int \<Rightarrow> bool"
  for c :: raptor and S :: "(nat \<times> nat \<times> int) set" where
  start: "(l, v, t) \<in> S \<Longrightarrow> reached c S 0 l v t"
| reached_more: "reached c S k l v t \<Longrightarrow> reached c S (Suc k) l v t"
| arrived_more: "arrived c S k l v t \<Longrightarrow> arrived c S (Suc k) l v t"
| board: "reached c S k (stop_loc (stop_at c r i)) v x \<Longrightarrow> x \<noteq> kInvalid c \<Longrightarrow>
    clasz_ok c (route_clasz (r_tt c) ! r) \<Longrightarrow> Suc i < route_stops c r \<Longrightarrow>
    can_start (search_dir c) (stop_at c r i) (is_wheelchair c) \<Longrightarrow> serves c r t \<Longrightarrow>
    is_better_or_eq (search_dir c) x (event_minutes c r t (stop_idx_at c (route_stops c r) i) (dep_event c)) \<Longrightarrow>
    section_ok c r (Suc i) \<Longrightarrow> riding c S (Suc k) r t (Suc i) v"
| move: "riding c S k r t i v \<Longrightarrow> Suc i < route_stops c r \<Longrightarrow> section_ok c r (Suc i) \<Longrightarrow>
    riding c S k r t (Suc i) v"
| cross: "riding c S k r t i v \<Longrightarrow> free_via c v (stop_loc (stop_at c r i)) \<Longrightarrow> riding c S k r t i (Suc v)"
| alight: "riding c S k r t i v \<Longrightarrow> can_finish (search_dir c) (stop_at c r i) (is_wheelchair c) \<Longrightarrow>
    arrived c S k (stop_loc (stop_at c r i)) v
      (get_time c r (get_transport_times c r t) (stop_idx_at c (route_stops c r) i) (arr_event c))"
| rt_board: "reached c S k (stop_loc (rt_stop_at c t i)) v x \<Longrightarrow> x \<noteq> kInvalid c \<Longrightarrow> with_rt c \<Longrightarrow>
    clasz_ok c (rt_section_clasz (r_rtt c) ! t ! 0) \<Longrightarrow> Suc i < rt_stops c t \<Longrightarrow>
    can_start (search_dir c) (rt_stop_at c t i) (is_wheelchair c) \<Longrightarrow>
    is_better_or_eq (search_dir c) x (rt_time_at_stop c t (stop_idx_at c (rt_stops c t) i) (dep_event c)) \<Longrightarrow>
    rt_section_ok c t (Suc i) \<Longrightarrow> rt_riding c S (Suc k) t (Suc i) v"
| rt_move: "rt_riding c S k t i v \<Longrightarrow> Suc i < rt_stops c t \<Longrightarrow> rt_section_ok c t (Suc i) \<Longrightarrow>
    rt_riding c S k t (Suc i) v"
| rt_cross: "rt_riding c S k t i v \<Longrightarrow> free_via c v (stop_loc (rt_stop_at c t i)) \<Longrightarrow> rt_riding c S k t i (Suc v)"
| rt_alight: "rt_riding c S k t i v \<Longrightarrow> can_finish (search_dir c) (rt_stop_at c t i) (is_wheelchair c) \<Longrightarrow>
    arrived c S k (stop_loc (rt_stop_at c t i)) v
      (rt_time_at_stop c t (stop_idx_at c (rt_stops c t) i) (arr_event c))"
| transfer: "arrived c S k l v x \<Longrightarrow> x \<noteq> kInvalid c \<Longrightarrow> v' \<in> set (via_states c l v) \<Longrightarrow>
    reached c S k l v' (clamp (x + transfer_minutes c l v' + dir (search_dir c) (via_stay_time c v v')))"
| walk: "arrived c S k l v x \<Longrightarrow> x \<noteq> kInvalid c \<Longrightarrow> fp \<in> set (footpaths_of c l) \<Longrightarrow>
    static_walk_ok c l (fp_target fp) \<Longrightarrow>
    start_v \<in> set (via_states c l v) \<Longrightarrow> target_v \<in> set (via_states c (fp_target fp) start_v) \<Longrightarrow>
    reached c S k (fp_target fp) target_v
      (clamp (x + walk_minutes c (adjusted_transfer_time i16 (tts c) (fp_duration fp)) v start_v target_v))"
| td_walk: "arrived c S k l v x \<Longrightarrow> x \<noteq> kInvalid c \<Longrightarrow> has_td_fps c l (search_dir c = Forward) \<Longrightarrow>
    (target, dur, walking) \<in> set (for_each_footpath (search_dir c) (td_footpaths_of c l) (to_unix c x)) \<Longrightarrow>
    start_v \<in> set (via_states c l v) \<Longrightarrow> target_v \<in> set (via_states c target start_v) \<Longrightarrow>
    reached c S k target target_v (clamp (x + walk_minutes c dur v start_v target_v))"
| to_end: "arrived c S k l (vias c) x \<Longrightarrow> x \<noteq> kInvalid c \<Longrightarrow> end_reachable c l \<Longrightarrow>
    dist_to_end c ! l \<noteq> kUnreachable \<Longrightarrow>
    reached c S k kIntermodalTarget (vias c) (clamp (x + dir (search_dir c) (int (dist_to_end c ! l))))"
| to_end_via: "arrived c S k l (vias c - 1) x \<Longrightarrow> x \<noteq> kInvalid c \<Longrightarrow> end_reachable c l \<Longrightarrow>
    dist_to_end c ! l \<noteq> kUnreachable \<Longrightarrow> vias c \<noteq> 0 \<Longrightarrow> is_via c ! (vias c - 1) ! l \<Longrightarrow>
    reached c S k kIntermodalTarget (vias c) (clamp (x + dir (search_dir c) (via_stay (via_stops c ! (vias c - 1)))
      + dir (search_dir c) (int (dist_to_end c ! l))))"
| to_end_td: "arrived c S k l (vias c) x \<Longrightarrow> x \<noteq> kInvalid c \<Longrightarrow> td_dist_to_end c l = Some offs \<Longrightarrow>
    get_td_duration (search_dir c) offs (to_unix c x) = Some (dur, off) \<Longrightarrow>
    reached c S k kIntermodalTarget (vias c) (clamp (x + dir (search_dir c) dur))"

lemma reached_add: "reached c S k l v t \<Longrightarrow> reached c S (k + n) l v t"
  by (induction n) (auto intro: reached_more)

lemma reached_le: "reached c S j l v t \<Longrightarrow> j \<le> k \<Longrightarrow> reached c S k l v t"
  using reached_add [of c S j l v t "k - j"] by simp

lemma arrived_le: "arrived c S j l v t \<Longrightarrow> j \<le> k \<Longrightarrow> arrived c S k l v t"
proof -
  assume a: "arrived c S j l v t" "j \<le> k"
  have "arrived c S (j + n) l v t" for n by (induction n) (auto intro: arrived_more a(1))
  from this [of "k - j"] a(2) show ?thesis by simp
qed

text \<open>More starts, more journeys.\<close>

lemma journeys_mono:
  assumes "S \<subseteq> S'"
  shows "reached c S k l v t \<Longrightarrow> reached c S' k l v t"
    and "riding c S k r tr i v \<Longrightarrow> riding c S' k r tr i v"
    and "rt_riding c S k rt i v \<Longrightarrow> rt_riding c S' k rt i v"
    and "arrived c S k l v t \<Longrightarrow> arrived c S' k l v t"
proof (induction rule: reached_riding_rt_riding_arrived.inducts)
  case (start l v t)
  then show ?case using assms by (intro reached_riding_rt_riding_arrived.start) blast
qed (blast intro: reached_riding_rt_riding_arrived.intros)+

text \<open>All labels are 16 bit times if the starts are.\<close>

lemma get_time_range: "delta_min \<le> get_time c r ts s ev" "get_time c r ts s ev \<le> delta_max"
  by (simp_all add: get_time_def clamp_range)

lemma rt_time_range: "delta_min \<le> rt_time_at_stop c t s ev" "rt_time_at_stop c t s ev \<le> delta_max"
  by (simp_all add: rt_time_at_stop_def to_delta_def clamp_range)

definition starts_ok :: "(nat \<times> nat \<times> int) set \<Rightarrow> bool" where
  "starts_ok S \<longleftrightarrow> (\<forall>(l, v, t) \<in> S. delta_min \<le> t \<and> t \<le> delta_max)"

lemma reached_range:
  assumes "starts_ok S"
  shows "reached c S k l v t \<Longrightarrow> delta_min \<le> t \<and> t \<le> delta_max"
    and "riding c S k r tr i v \<Longrightarrow> True"
    and "rt_riding c S k rt i v \<Longrightarrow> True"
    and "arrived c S k l v t \<Longrightarrow> True"
proof (induction rule: reached_riding_rt_riding_arrived.inducts)
  case (start l v t)
  then show ?case using assms by (auto simp: starts_ok_def)
qed (simp_all add: clamp_range)

end
