(* ===== verification/Raptor_Sound.thy ===== *)
theory Raptor_Sound
  imports Raptor_Spec
begin

text \<open>
  The search is sound: whatever it prunes, marks, caches or looks up by binary search, every label
  it writes is one the rules of \<open>Raptor_Spec\<close> derive. The invariant of the search state is carried
  through every operation of the rounds.
\<close>

section \<open>Shapes\<close>

text \<open>The row lengths of the matrices, which no operation changes.\<close>

lemma update_beyond: "\<not> i < length xs \<Longrightarrow> xs[i := x] = xs"
  by (simp add: not_less list_update_beyond)

lemma map_update_same: "(map f xs)[i := f (xs ! i)] = map f xs"
  by (metis list_update_id map_update)

lemma set2_shape [simp]: "map length (set2 i v x m) = map length m"
  by (simp add: set2_def map_update map_update_same)

lemma length_set2 [simp]: "length (set2 i v x m) = length m"
  by (simp add: set2_def)

lemma set3_shape [simp]: "map (map length) (set3 k i v x m) = map (map length) m"
  by (simp add: set3_def map_update map_update_same)

lemma row_length: "map length m = replicate n w \<Longrightarrow> i < n \<Longrightarrow> length (m ! i) = w"
  by (metis length_map length_replicate nth_map nth_replicate)

lemma rows_length: "map length m = replicate n w \<Longrightarrow> length m = n"
  by (metis length_map length_replicate)

lemma at2_set2:
  assumes "map length m = replicate n w" "i < n" "v < w"
  shows "at2 (set2 i v x m) j u = (if j = i \<and> u = v then x else at2 m j u)"
  using row_length [OF assms(1,2)] rows_length [OF assms(1)] assms(2,3)
  by (simp add: at2_def set2_def nth_list_update)

lemma at2_set2_cases: "at2 (set2 i v x m) j u = at2 m j u \<or> (at2 (set2 i v x m) j u = x \<and> j = i \<and> u = v)"
  by (cases "i < length m"; cases "j = i"; cases "v < length (m ! i)"; cases "u = v")
     (auto simp: at2_def set2_def update_beyond)

lemma at3_set3_cases:
  "at3 (set3 k i v x m) k' j u = at3 m k' j u \<or> (at3 (set3 k i v x m) k' j u = x \<and> k' = k \<and> j = i \<and> u = v)"
proof (cases "k < length m \<and> k' = k")
  case True
  with at2_set2_cases [of i v x "m ! k" j u] show ?thesis by (simp add: at3_def set3_def at2_def)
next
  case False
  then show ?thesis by (cases "k < length m") (auto simp: at3_def set3_def update_beyond)
qed

section \<open>The invariant\<close>

text \<open>What the tables have to be like: stops are locations, the event times are where the route says, and
  times of day are times of day.\<close>

definition tables_ok :: "raptor \<Rightarrow> bool" where
  "tables_ok c \<longleftrightarrow> base c \<le> 60000 \<and>
     (\<forall>r < n_routes (r_tt c). route_times_ok (r_tt c) r \<and>
        (\<forall>x \<in> set (route_location_seq (r_tt c) ! r). stop_loc (stop_of_value x) < n_locations (r_tt c)) \<and>
        (\<forall>t \<in> set (iv_list (rt_transports (tt_route_times (r_tt c) ! r))). \<forall>s ev.
           event_idx s ev < 2 * route_stops c r - 2 \<longrightarrow> delta_norm (event_mam_r (r_tt c) r t s ev))) \<and>
     (\<forall>t < n_rt_transports c.
        (\<forall>x \<in> set (rt_location_seq (r_rtt c) ! t). stop_loc (stop_of_value x) < n_locations (r_tt c)) \<and>
        (\<forall>s. rt_time_at_stop c t s (dep_event c) \<noteq> kInvalid c))"

definition shape_ok :: "raptor \<Rightarrow> raptor_state \<Rightarrow> bool" where
  "shape_ok c s \<longleftrightarrow>
     map length (tmp s) = replicate (n_locations (r_tt c)) (vias c + 1) \<and>
     map length (best s) = replicate (n_locations (r_tt c)) (vias c + 1) \<and>
     map (map length) (round_times s) = replicate (kMaxTransfers + 2) (replicate (n_locations (r_tt c)) (vias c + 1)) \<and>
     length (station_mark s) = n_locations (r_tt c) \<and> length (prev_station_mark s) = n_locations (r_tt c) \<and>
     length (route_mark s) = n_routes (r_tt c) \<and> length (rt_transport_mark s) = n_rt_transports c"

text \<open>Labels in \<open>tmp\<close> are arrivals after at most \<open>k\<close> rides, labels of round \<open>j\<close> are journeys with at most
  \<open>j\<close> rides.\<close>

definition tmp_sound :: "raptor \<Rightarrow> (nat \<times> nat \<times> int) set \<Rightarrow> nat \<Rightarrow> int list list \<Rightarrow> bool" where
  "tmp_sound c S k m \<longleftrightarrow> (\<forall>l < n_locations (r_tt c). \<forall>v \<le> vias c.
     at2 m l v \<noteq> kInvalid c \<longrightarrow> arrived c S k l v (at2 m l v))"

definition rounds_sound :: "raptor \<Rightarrow> (nat \<times> nat \<times> int) set \<Rightarrow> int list list list \<Rightarrow> bool" where
  "rounds_sound c S m \<longleftrightarrow> (\<forall>j < kMaxTransfers + 2. \<forall>l < n_locations (r_tt c). \<forall>v \<le> vias c.
     at3 m j l v \<noteq> kInvalid c \<longrightarrow> reached c S j l v (at3 m j l v))"

definition sound :: "raptor \<Rightarrow> (nat \<times> nat \<times> int) set \<Rightarrow> nat \<Rightarrow> raptor_state \<Rightarrow> bool" where
  "sound c S k s \<longleftrightarrow> shape_ok c s \<and> tmp_sound c S k (tmp s) \<and> rounds_sound c S (round_times s)"

lemma shape_nth: "map (map length) m = replicate n (replicate w u) \<Longrightarrow> k < n \<Longrightarrow> map length (m ! k) = replicate w u"
  by (metis length_map length_replicate nth_map nth_replicate)

lemma tmp_sound_set:
  assumes "tmp_sound c S k m" "x \<noteq> kInvalid c \<Longrightarrow> arrived c S k l v x"
  shows "tmp_sound c S k (set2 l v x m)"
  unfolding tmp_sound_def
proof (intro allI impI)
  fix j u assume "j < n_locations (r_tt c)" "u \<le> vias c" "at2 (set2 l v x m) j u \<noteq> kInvalid c"
  then show "arrived c S k j u (at2 (set2 l v x m) j u)"
    using assms at2_set2_cases [of l v x m j u] unfolding tmp_sound_def by fastforce
qed

lemma rounds_sound_set:
  assumes "rounds_sound c S m" "x \<noteq> kInvalid c \<Longrightarrow> reached c S k l v x"
  shows "rounds_sound c S (set3 k l v x m)"
  unfolding rounds_sound_def
proof (intro allI impI)
  fix j i u assume "j < kMaxTransfers + 2" "i < n_locations (r_tt c)" "u \<le> vias c"
    "at3 (set3 k l v x m) j i u \<noteq> kInvalid c"
  then show "reached c S j i u (at3 (set3 k l v x m) j i u)"
    using assms at3_set3_cases [of k l v x m j i u] unfolding rounds_sound_def by fastforce
qed

text \<open>Fields outside the invariant may change freely.\<close>

lemma sound_frame:
  assumes "sound c S k s" "tmp s' = tmp s" "round_times s' = round_times s"
    and "map length (best s') = map length (best s)"
    and "length (station_mark s') = length (station_mark s)" "length (prev_station_mark s') = length (prev_station_mark s)"
    and "length (route_mark s') = length (route_mark s)" "length (rt_transport_mark s') = length (rt_transport_mark s)"
  shows "sound c S k s'"
  using assms by (simp add: sound_def shape_ok_def)

lemma update_time_at_dest_frame [simp]:
  "tmp (update_time_at_dest c k t s) = tmp s" "best (update_time_at_dest c k t s) = best s"
  "round_times (update_time_at_dest c k t s) = round_times s"
  "station_mark (update_time_at_dest c k t s) = station_mark s"
  "prev_station_mark (update_time_at_dest c k t s) = prev_station_mark s"
  "route_mark (update_time_at_dest c k t s) = route_mark s"
  "rt_transport_mark (update_time_at_dest c k t s) = rt_transport_mark s"
  "bounds (update_time_at_dest c k t s) = bounds s" "bounds_last_k (update_time_at_dest c k t s) = bounds_last_k s"
  by (simp_all add: update_time_at_dest_def)

lemma sound_update_time_at_dest: "sound c S k s \<Longrightarrow> sound c S k (update_time_at_dest c j t s)"
  by (erule sound_frame) simp_all

lemma sound_stats: "sound c S k s \<Longrightarrow> sound c S k (s\<lparr>stats := x\<rparr>)"
  by (erule sound_frame) simp_all

lemma sound_upd_best: "sound c S k s \<Longrightarrow> sound c S k (upd_best i v x s)"
  by (erule sound_frame) simp_all

lemma sound_mark: "sound c S k s \<Longrightarrow> sound c S k (mark_station i s)"
  by (erule sound_frame) simp_all

lemma sound_upd_round:
  assumes "sound c S k s" "x \<noteq> kInvalid c \<Longrightarrow> reached c S j l v x"
  shows "sound c S k (upd_round j l v x s)"
  using assms rounds_sound_set [of c S "round_times s" x j l v] by (simp add: sound_def shape_ok_def)

lemma sound_upd_tmp:
  assumes "sound c S k s" "x \<noteq> kInvalid c \<Longrightarrow> arrived c S k l v x"
  shows "sound c S k (upd_tmp l v x s)"
  using assms tmp_sound_set [of c S k "tmp s" x l v] by (simp add: sound_def shape_ok_def)

lemmas sound_intros = sound_update_time_at_dest sound_stats sound_upd_best sound_mark sound_upd_round

lemma get_best_cases: "get_best d a b = a \<or> get_best d a b = b"
  by (simp add: get_best_def)

section \<open>Relaxing keeps the invariant\<close>

text \<open>A label at round \<open>k\<close>, \<open>l\<close>, \<open>v\<close> in range.\<close>

lemma sound_label:
  "sound c S k s \<Longrightarrow> j < kMaxTransfers + 2 \<Longrightarrow> l < n_locations (r_tt c) \<Longrightarrow> v \<le> vias c \<Longrightarrow>
   at3 (round_times s) j l v \<noteq> kInvalid c \<Longrightarrow> reached c S j l v (at3 (round_times s) j l v)"
  by (simp add: sound_def rounds_sound_def)

lemma sound_tmp:
  "sound c S k s \<Longrightarrow> l < n_locations (r_tt c) \<Longrightarrow> v \<le> vias c \<Longrightarrow> at2 (tmp s) l v \<noteq> kInvalid c \<Longrightarrow>
   arrived c S k l v (at2 (tmp s) l v)"
  by (simp add: sound_def tmp_sound_def)

lemma upd_round_best_sound:
  assumes "sound c S k s" "reached c S j l v x"
  shows "sound c S k (upd_round j l v (get_best d x (at3 (round_times s) j l v)) s)"
proof (cases "get_best d x (at3 (round_times s) j l v) = x")
  case True
  with assms show ?thesis by (simp add: sound_upd_round)
next
  case False
  then have old: "get_best d x (at3 (round_times s) j l v) = at3 (round_times s) j l v"
    using get_best_cases by blast
  have "set3 j l v (at3 m j l v) m = m" for m
  proof (cases "j < length m \<and> l < length (m ! j)")
    case True
    then show ?thesis by (simp add: set3_def set2_def at3_def)
  next
    case False
    then show ?thesis by (cases "j < length m") (simp_all add: set3_def set2_def update_beyond)
  qed
  with old assms(1) show ?thesis by simp
qed

lemma relax_sound:
  assumes "sound c S k s" "reached c S j target tv t"
  shows "sound c S k (relax c j target tv t dest s)"
proof -
  define s1 where "s1 = (if bounds_last_k s = 0 \<and> is_better (search_dir c) t (at2 (best s) target tv)
     then upd_round j target tv (get_best (search_dir c) t (at3 (round_times s) j target tv)) s else s)"
  have s1: "sound c S k s1"
    unfolding s1_def using assms by (simp add: upd_round_best_sound)
  let ?s2 = "s1\<lparr>stats := (stats s1)\<lparr>n_updated_by_footpath := n_updated_by_footpath (stats s1) + 1\<rparr>\<rparr>"
  have s2: "sound c S k ?s2" using s1 by (rule sound_stats)
  have s3: "sound c S k (mark_station target (upd_best target tv t (upd_round j target tv t ?s2)))"
    by (intro sound_mark sound_upd_best sound_upd_round s2 assms(2))
  show ?thesis
    unfolding relax_def Let_def s1_def [symmetric]
    using s1 s3 by (simp add: sound_stats sound_update_time_at_dest)
qed

text \<open>Relaxing and what it is used in does not touch \<open>tmp\<close> and the marks of the last round.\<close>

lemma relax_frame [simp]:
  "tmp (relax c k target tv t dest s) = tmp s"
  "prev_station_mark (relax c k target tv t dest s) = prev_station_mark s"
  by (simp_all add: relax_def Let_def)

text \<open>\<open>sound\<close> with the arrivals of the round as they were.\<close>

definition steady :: "raptor \<Rightarrow> (nat \<times> nat \<times> int) set \<Rightarrow> nat \<Rightarrow> int list list \<Rightarrow> raptor_state \<Rightarrow> bool" where
  "steady c S k m s \<longleftrightarrow> sound c S k s \<and> tmp s = m"

lemma steady_fold:
  "steady c S k m s \<Longrightarrow> (\<And>x s. x \<in> set xs \<Longrightarrow> steady c S k m s \<Longrightarrow> steady c S k m (f x s)) \<Longrightarrow>
   steady c S k m (fold f xs s)"
  by (rule fold_invariant [where P = "steady c S k m"])

lemma steady_relax: "steady c S k m s \<Longrightarrow> reached c S k l v t \<Longrightarrow> steady c S k m (relax c k l v t dest s)"
  by (simp add: steady_def relax_sound)

lemma steady_stats: "steady c S k m s \<Longrightarrow> steady c S k m (s\<lparr>stats := x\<rparr>)"
  by (simp add: steady_def sound_stats)

lemma steady_tmp:
  "steady c S k m s \<Longrightarrow> l < n_locations (r_tt c) \<Longrightarrow> v \<le> vias c \<Longrightarrow> at2 m l v \<noteq> kInvalid c \<Longrightarrow>
   arrived c S k l v (at2 m l v)"
  using sound_tmp [of c S k s l v] by (simp add: steady_def)

lemma steady_reads: "steady c S k m s \<Longrightarrow> tmp s = m"
  by (simp add: steady_def)

section \<open>Transfers and footpaths\<close>

lemma transfer_to_eq:
  "transfer_to c k i v x tv s = relax c k i tv
     (clamp (x + transfer_minutes c i tv + dir (search_dir c) (via_stay_time c v tv))) (tv = vias c \<and> is_dest c ! i) s"
  by (simp add: transfer_to_def transfer_minutes_def Let_def)

lemma footpath_to_eq:
  "footpath_to c k target dur v x sv tv b s = relax c k target tv
     (clamp (x + walk_minutes c dur v sv tv)) ((b \<or> tv = vias c) \<and> is_dest c ! target) s"
  by (simp add: footpath_to_def walk_minutes_def Let_def)

lemma set_bits_less: "shape_ok c s \<Longrightarrow> i \<in> set (set_bits (prev_station_mark s)) \<Longrightarrow> i < n_locations (r_tt c)"
  by (simp add: shape_ok_def)

lemma sound_set_bits: "sound c S k s \<Longrightarrow> i \<in> set (set_bits (prev_station_mark s)) \<Longrightarrow> i < n_locations (r_tt c)"
  by (simp add: sound_def shape_ok_def)

lemma slot_le: "v \<in> set [0..<vias c + 1] \<Longrightarrow> v \<le> vias c"
  by auto

text \<open>The loop over the via slots that have an arrival.\<close>

lemma steady_slots:
  assumes "steady c S k m s" "i < n_locations (r_tt c)"
    and "\<And>v s. v \<le> vias c \<Longrightarrow> at2 m i v \<noteq> kInvalid c \<Longrightarrow> arrived c S k i v (at2 m i v) \<Longrightarrow>
      steady c S k m s \<Longrightarrow> steady c S k m (f v (at2 m i v) s)"
  shows "steady c S k m (fold (\<lambda>v s. let x = at2 (tmp s) i v in if x = kInvalid c then s else f v x s)
    [0..<vias c + 1] s)"
proof (rule steady_fold [OF assms(1)])
  fix v s assume v: "v \<in> set [0..<vias c + 1]" and s: "steady c S k m s"
  show "steady c S k m (let x = at2 (tmp s) i v in if x = kInvalid c then s else f v x s)"
  proof (cases "at2 m i v = kInvalid c")
    case True
    with s show ?thesis by (simp add: steady_reads [OF s] Let_def)
  next
    case False
    with assms(3) [OF slot_le [OF v] False steady_tmp [OF s assms(2) slot_le [OF v] False] s] show ?thesis
      by (simp add: steady_reads [OF s] Let_def)
  qed
qed

lemma steady_transfers:
  assumes "steady c S k m s"
  shows "steady c S k m (update_transfers c k s)"
  unfolding update_transfers_def
proof (rule steady_fold [OF assms], rule steady_slots)
  fix i v s1 x assume i: "i \<in> set (set_bits (prev_station_mark s))" and s1: "steady c S k m s1"
    and x: "x \<noteq> kInvalid c" "arrived c S k i v x"
  show "steady c S k m (fold (transfer_to c k i v x) (via_states c i v) s1)"
    by (rule steady_fold [OF s1]) (auto simp: transfer_to_eq intro!: steady_relax transfer x)
qed (use assms in \<open>auto intro: sound_set_bits simp: steady_def\<close>)

lemma steady_walk:
  assumes "steady c S k m s"
    and "\<And>sv tv. sv \<in> set (via_states c i v) \<Longrightarrow> tv \<in> set (via_states c target sv) \<Longrightarrow>
      reached c S k target tv (clamp (x + walk_minutes c dur v sv tv))"
  shows "steady c S k m (walk c k i target dur v x b s)"
  unfolding walk_def
  by (rule steady_fold [OF assms(1)], rule steady_fold) (auto simp: footpath_to_eq intro!: steady_relax assms(2))

lemma steady_footpaths_from:
  assumes "steady c S k m s" "i < n_locations (r_tt c)"
  shows "steady c S k m (update_footpaths_from c k i s)"
proof (cases "search_dir c = Forward \<and> has_td_fps c i True")
  case True
  with assms show ?thesis by (simp add: update_footpaths_from_def)
next
  case False
  show ?thesis
    unfolding update_footpaths_from_def Let_def
  proof (rule if_split [THEN iffD2], intro conjI impI assms(1), rule steady_fold [OF assms(1)])
    fix fp s1 assume fp: "fp \<in> set (footpaths_of c i)" and s1: "steady c S k m s1"
    let ?s2 = "s1\<lparr>stats := (stats s1)\<lparr>n_footpaths_visited := n_footpaths_visited (stats s1) + 1\<rparr>\<rparr>"
    have "steady c S k m (fold (\<lambda>v s. let x = at2 (tmp s) i v in if x = kInvalid c then s
        else walk c k i (fp_target fp) (adjusted_transfer_time i16 (tts c) (fp_duration fp)) v x False s)
        [0..<vias c + 1] ?s2)" if ok: "static_walk_ok c i (fp_target fp)"
    proof (rule steady_slots [OF steady_stats [OF s1] assms(2)])
      fix v s3 assume v: "at2 m i v \<noteq> kInvalid c" "arrived c S k i v (at2 m i v)" and s3: "steady c S k m s3"
      show "steady c S k m (walk c k i (fp_target fp) (adjusted_transfer_time i16 (tts c) (fp_duration fp)) v
          (at2 m i v) False s3)"
        by (rule steady_walk [OF s3]) (rule walk [OF v(2,1) fp ok])
    qed
    with s1 False show "steady c S k m (if search_dir c \<noteq> Forward \<and> has_td_fps c i (search_dir c = Forward) \<and>
          has_td_fps c (fp_target fp) True then s1
        else fold (\<lambda>v s. if at2 (tmp s) i v = kInvalid c then s
          else walk c k i (fp_target fp) (adjusted_transfer_time i16 (tts c) (fp_duration fp)) v (at2 (tmp s) i v) False s)
          [0..<vias c + 1] ?s2)"
      by (cases "search_dir c") (simp_all add: static_walk_ok_def Let_def)
  qed
qed

lemma steady_footpaths:
  assumes "steady c S k m s"
  shows "steady c S k m (update_footpaths c k s)"
  unfolding update_footpaths_def
  by (rule steady_fold [OF assms], rule steady_footpaths_from)
     (use assms in \<open>auto intro: sound_set_bits simp: steady_def\<close>)

lemma steady_td_offsets:
  assumes "steady c S k m s"
  shows "steady c S k m (update_td_offsets c k s)"
proof (cases "\<not> with_rt c \<or> \<not> has_profile_td_footpaths (prf_idx c)")
  case True
  with assms show ?thesis by (simp add: update_td_offsets_def)
next
  case False
  have "steady c S k m (fold (\<lambda>i s. if \<not> has_td_fps c i (search_dir c = Forward) then s
      else fold (\<lambda>v s. let x = at2 (tmp s) i v in if x = kInvalid c then s
          else fold (\<lambda>(target, dur, walking) s.
             let s = s\<lparr>stats := (stats s)\<lparr>n_footpaths_visited := n_footpaths_visited (stats s) + 1\<rparr>\<rparr>
             in walk c k i target dur v x True s)
           (for_each_footpath (search_dir c) (td_footpaths_of c i) (to_unix c x)) s) [0..<vias c + 1] s)
    (set_bits (prev_station_mark s)) s)"
  proof (rule steady_fold [OF assms])
    fix i s1 assume i: "i \<in> set (set_bits (prev_station_mark s))" and s1: "steady c S k m s1"
    have il: "i < n_locations (r_tt c)" using assms i by (auto intro: sound_set_bits simp: steady_def)
    have "steady c S k m (fold (\<lambda>v s. let x = at2 (tmp s) i v in if x = kInvalid c then s
          else fold (\<lambda>(target, dur, walking) s.
             let s = s\<lparr>stats := (stats s)\<lparr>n_footpaths_visited := n_footpaths_visited (stats s) + 1\<rparr>\<rparr>
             in walk c k i target dur v x True s)
           (for_each_footpath (search_dir c) (td_footpaths_of c i) (to_unix c x)) s) [0..<vias c + 1] s1)"
      if td: "has_td_fps c i (search_dir c = Forward)"
    proof (rule steady_slots [OF s1 il])
      fix v s2 assume v: "at2 m i v \<noteq> kInvalid c" "arrived c S k i v (at2 m i v)" and s2: "steady c S k m s2"
      let ?x = "at2 m i v"
      show "steady c S k m (fold (\<lambda>(target, dur, walking) s.
             let s = s\<lparr>stats := (stats s)\<lparr>n_footpaths_visited := n_footpaths_visited (stats s) + 1\<rparr>\<rparr>
             in walk c k i target dur v ?x True s)
           (for_each_footpath (search_dir c) (td_footpaths_of c i) (to_unix c ?x)) s2)"
      proof (rule steady_fold [OF s2])
        fix y s3 assume y: "y \<in> set (for_each_footpath (search_dir c) (td_footpaths_of c i) (to_unix c ?x))"
          and s3: "steady c S k m s3"
        obtain target dur walking where y': "y = (target, dur, walking)" by (metis prod_cases3)
        have "steady c S k m (walk c k i target dur v ?x True
            (s3\<lparr>stats := (stats s3)\<lparr>n_footpaths_visited := n_footpaths_visited (stats s3) + 1\<rparr>\<rparr>))"
          by (rule steady_walk [OF steady_stats [OF s3]]) (rule td_walk [OF v(2,1) td y [unfolded y']])
        then show "steady c S k m ((case y of (target, dur, walking) \<Rightarrow> \<lambda>s.
             let s = s\<lparr>stats := (stats s)\<lparr>n_footpaths_visited := n_footpaths_visited (stats s) + 1\<rparr>\<rparr>
             in walk c k i target dur v ?x True s) s3)"
          by (simp add: y' Let_def)
      qed
    qed
    with s1 show "steady c S k m (if \<not> has_td_fps c i (search_dir c = Forward) then s1
      else fold (\<lambda>v s. let x = at2 (tmp s) i v in if x = kInvalid c then s
          else fold (\<lambda>(target, dur, walking) s.
             let s = s\<lparr>stats := (stats s)\<lparr>n_footpaths_visited := n_footpaths_visited (stats s) + 1\<rparr>\<rparr>
             in walk c k i target dur v x True s)
           (for_each_footpath (search_dir c) (td_footpaths_of c i) (to_unix c x)) s) [0..<vias c + 1] s1)"
      by simp
  qed
  with False show ?thesis by (simp add: update_td_offsets_def Let_def)
qed

section \<open>The last leg\<close>

lemma steady_reach_end:
  "steady c S k m s \<Longrightarrow> reached c S k kIntermodalTarget (vias c) t \<Longrightarrow> steady c S k m (reach_end c k t s)"
  unfolding steady_def reach_end_def Let_def
  by (intro conjI sound_update_time_at_dest sound_upd_best sound_upd_round) simp_all

lemma steady_reach_end_loose:
  "steady c S k m s \<Longrightarrow> reached c S k kIntermodalTarget (vias c) t \<Longrightarrow> steady c S k m (reach_end_loose c k t s)"
  by (simp add: reach_end_loose_def steady_reach_end)

lemma steady_td_end:
  assumes "steady c S k m s" "i < n_locations (r_tt c)"
  shows "steady c S k m (td_end c k i s)"
proof (cases "td_dist_to_end c i")
  case (Some offs)
  show ?thesis
  proof (cases "at2 m i (vias c) = kInvalid c")
    case False
    note arr = steady_tmp [OF assms(1,2) order_refl False]
    show ?thesis
      using assms(1) to_end_td [OF arr False Some]
      by (auto simp: td_end_def Some steady_reads [OF assms(1)] Let_def False split: option.split
          intro!: steady_reach_end)
  qed (simp add: td_end_def Some steady_reads [OF assms(1)] Let_def assms(1))
qed (simp add: td_end_def assms(1))

lemma steady_intermodal_from:
  assumes "steady c S k m s" "i < n_locations (r_tt c)"
  shows "steady c S k m (intermodal_from c k i s)"
proof (cases "end_reachable c i")
  case er: True
  show ?thesis
  proof (cases "dist_to_end c ! i = kUnreachable")
    case True
    with er assms show ?thesis by (simp add: intermodal_from_def steady_td_end)
  next
    case False
    let ?d = "search_dir c"
    define s1 where "s1 = (if vias c \<noteq> 0 \<and> at2 m i (vias c - 1) \<noteq> kInvalid c \<and> is_via c ! (vias c - 1) ! i
      then reach_end_loose c k (clamp (at2 m i (vias c - 1) + dir ?d (via_stay (via_stops c ! (vias c - 1)))
        + dir ?d (int (dist_to_end c ! i)))) s else s)"
    have s1: "steady c S k m s1"
      unfolding s1_def
      using assms(1) steady_tmp [OF assms, of "vias c - 1"] to_end_via [of c S k i, OF _ _ er False]
      by (auto intro!: steady_reach_end_loose)
    have eq: "intermodal_from c k i s = (if at2 m i (vias c) = kInvalid c then s1
        else td_end c k i (reach_end_loose c k (clamp (at2 m i (vias c) + dir ?d (int (dist_to_end c ! i)))) s1))"
      by (simp only: intermodal_from_def Let_def er False not_True_eq_False if_False
          steady_reads [OF assms(1)] s1_def [symmetric] steady_reads [OF s1])
    show ?thesis
      unfolding eq
      using s1 steady_tmp [OF assms order_refl] to_end [of c S k i, OF _ _ er False]
      by (auto intro!: steady_td_end steady_reach_end_loose assms(2))
  qed
qed (simp add: intermodal_from_def assms(1))

lemma steady_intermodal:
  assumes "steady c S k m s"
  shows "steady c S k m (update_intermodal_footpaths c k s)"
proof -
  have "steady c S k m (fold (intermodal_from c k) (set_bits (prev_station_mark s)) s)"
    by (rule steady_fold [OF assms], rule steady_intermodal_from)
       (use assms in \<open>auto intro: sound_set_bits simp: steady_def\<close>)
  with assms show ?thesis by (simp add: update_intermodal_footpaths_def)
qed

end
