(* ===== verification/Raptor_Scan.thy ===== *)
theory Raptor_Scan
  imports Raptor_Sound
begin

text \<open>
  The scans of routes and real-time transports keep the invariant: the binary search for the first
  departure, the search for the earliest transport with its day arithmetic, the rides carried
  along a route with their cached times, and the rounds built from them.
\<close>

section \<open>The binary search\<close>

lemma seek_loop_bounds:
  "lo \<le> hi \<Longrightarrow> lo \<le> seek_loop earlier lo hi \<and> seek_loop earlier lo hi \<le> hi"
proof (induction earlier lo hi rule: seek_loop.induct)
  case (1 earlier lo hi)
  let ?mid = "lo + (hi - lo) div 2"
  show ?case
  proof (cases "lo < hi")
    case False
    with 1(3) show ?thesis by (subst (1 2) seek_loop.simps) simp
  next
    case True
    then have mid: "lo \<le> ?mid" "?mid < hi" by auto
    show ?thesis
    proof (cases "earlier ?mid")
      case e: True
      then have "seek_loop earlier lo hi = seek_loop earlier (?mid + 1) hi"
        using True by (subst seek_loop.simps) (simp add: Let_def)
      with 1(1) [OF True refl e] mid show ?thesis by simp
    next
      case e: False
      then have "seek_loop earlier lo hi = seek_loop earlier lo ?mid"
        using True by (subst seek_loop.simps) (simp add: Let_def)
      with 1(2) [OF True refl e] mid show ?thesis by simp
    qed
  qed
qed

lemma seek_loop_first:
  assumes "\<And>i j. i \<le> j \<Longrightarrow> j < n \<Longrightarrow> earlier j \<Longrightarrow> earlier i" "lo \<le> hi" "hi \<le> n"
    and "\<forall>i < lo. earlier i" "\<forall>i. hi \<le> i \<and> i < n \<longrightarrow> \<not> earlier i"
  shows "(\<forall>i < seek_loop earlier lo hi. earlier i) \<and>
    (\<forall>i. seek_loop earlier lo hi \<le> i \<and> i < n \<longrightarrow> \<not> earlier i)"
  using assms
proof (induction earlier lo hi rule: seek_loop.induct)
  case (1 earlier lo hi)
  let ?mid = "lo + (hi - lo) div 2"
  show ?case
  proof (cases "lo < hi")
    case False
    with 1(4,6,7) have "seek_loop earlier lo hi = lo" "lo = hi" by (subst seek_loop.simps, simp_all)
    with 1(6,7) show ?thesis by simp
  next
    case True
    then have mid: "lo \<le> ?mid" "?mid < hi" "?mid < n" using 1(5) by auto
    show ?thesis
    proof (cases "earlier ?mid")
      case e: True
      then have eq: "seek_loop earlier lo hi = seek_loop earlier (?mid + 1) hi"
        using True by (subst seek_loop.simps) (simp add: Let_def)
      have "\<forall>i < ?mid + 1. earlier i" using 1(3) [of _ ?mid] e mid by auto
      with 1(1) [OF True refl e 1(3) _ 1(5) _ 1(7)] mid show ?thesis unfolding eq by simp
    next
      case e: False
      then have eq: "seek_loop earlier lo hi = seek_loop earlier lo ?mid"
        using True by (subst seek_loop.simps) (simp add: Let_def)
      have "\<forall>i. ?mid \<le> i \<and> i < n \<longrightarrow> \<not> earlier i" using 1(3) [of ?mid] e by blast
      with 1(2) [OF True refl e 1(3) _ _ 1(6)] mid show ?thesis unfolding eq by simp
    qed
  qed
qed

section \<open>Day arithmetic\<close>

text \<open>The day and time of day of a label, and the days the search tries after it: whatever wraps around
  16 bits is beyond the last day of a bit field.\<close>

lemma split_day_mam_cases:
  assumes "split_day_mam b x = (dy, m)" "delta_min \<le> x" "x \<le> delta_max" "b \<le> 60000"
  obtains D where "int dy = D mod 65536" "D * 1440 + m = int b * 1440 + x" "- 23 \<le> D" "D \<le> 60023"
    "0 \<le> D \<longrightarrow> - 1440 < m \<and> m < 1440" "0 < D \<longrightarrow> 0 \<le> m" "D < 0 \<longrightarrow> m \<le> 0 \<and> - 1440 < m"
proof -
  define M where "M = int b * 1440 + x"
  have M: "- 32768 \<le> M" "M \<le> 86432767" using assms(2-4) by (simp_all add: M_def)
  have dm: "int dy = cdiv M 1440 mod 65536" "m = i16 (cmod M 1440)"
    using assms(1) by (auto simp: split_day_mam_def Let_def M_def wrap_u_def)
  show ?thesis
  proof (cases "0 \<le> M")
    case True
    then have q: "cdiv M 1440 = M div 1440" "cmod M 1440 = M mod 1440" by simp_all
    have r: "0 \<le> M mod 1440" "M mod 1440 < 1440" by simp_all
    then have m: "m = M mod 1440" using dm(2) q(2) by (simp add: wrap_s16_id)
    show ?thesis
      by (rule that [of "M div 1440"]) (use dm(1) q r m M True in \<open>auto simp: M_def [symmetric] pos_imp_zdiv_nonneg_iff\<close>)
  next
    case False
    define Q R where "Q = (- M) div 1440" and "R = (- M) mod 1440"
    have q: "cdiv M 1440 = - Q" "cmod M 1440 = - R"
      using False by (simp_all add: cdiv_neg cmod_neg Q_def R_def)
    have r: "0 \<le> R" "R < 1440" by (simp_all add: R_def)
    then have m: "m = - R" using dm(2) q(2) by (simp add: wrap_s16_id)
    have M': "M = - Q * 1440 + - R"
      using div_mult_mod_eq [of "- M" 1440] unfolding Q_def R_def by linarith
    have "0 \<le> Q" "Q \<le> 22" using M False by (auto simp: Q_def pos_imp_zdiv_nonneg_iff)
    then show ?thesis
      by (intro that [of "- Q"]) (use dm(1) q(1) r m M' in \<open>simp_all add: M_def [symmetric]\<close>)
  qed
qed

lemma wrap_day:
  assumes "int dy = D mod 65536" "- 23 \<le> D" "D \<le> 60023" "d = nat (u16 (int dy + i))" "d < 512" "- 5 \<le> i" "i \<le> 5"
  shows "int d = D + i"
proof -
  have "u16 (int dy + i) = (D + i) mod 65536"
    using assms(1) by (simp add: wrap_u_def mod_add_left_eq)
  then have d: "int d = (D + i) mod 65536" using assms(4) by simp
  show ?thesis
  proof (cases "0 \<le> D + i")
    case True
    with d assms(3,7) show ?thesis by simp
  next
    case False
    have "(D + i) mod 65536 = (D + i + 65536) mod 65536" by simp
    also have "\<dots> = D + i + 65536" by (rule mod_pos_pos_trivial) (use False assms(2,6) in simp_all)
    finally show ?thesis using d assms(2,5,6) by simp
  qed
qed

text \<open>A departure found on a later day, or on the same day at a later time of day, is after the label.\<close>

lemma label_before_event:
  assumes "split_day_mam b x = (dy, m)" "delta_min \<le> x" "x \<le> delta_max" "b \<le> 60000"
    and "d = nat (u16 (if dr = Forward then int dy + int i else int dy - int i))" "d < 512" "i \<le> 5"
    and "0 \<le> em" "em < 1440" "i = 0 \<Longrightarrow> is_better_or_eq dr m em"
  shows "is_better_or_eq dr x ((int d - int b) * 1440 + em)"
proof -
  obtain D where D: "int dy = D mod 65536" "D * 1440 + m = int b * 1440 + x" "- 23 \<le> D" "D \<le> 60023"
    "0 \<le> D \<longrightarrow> - 1440 < m \<and> m < 1440" "0 < D \<longrightarrow> 0 \<le> m" "D < 0 \<longrightarrow> m \<le> 0 \<and> - 1440 < m"
    using split_day_mam_cases [OF assms(1-4)] by metis
  show ?thesis
  proof (cases dr)
    case Forward
    have d: "int d = D + int i"
      by (rule wrap_day [OF D(1,3,4) _ assms(6)]) (use assms(5,7) Forward in simp_all)
    show ?thesis
    proof (cases "i = 0")
      case True
      with assms(10) Forward d D(2) show ?thesis by (simp add: is_better_or_eq_def algebra_simps)
    next
      case False
      then have "1440 \<le> int i * 1440" by simp
      moreover have "m < 1440" using D(5,7) by (cases "0 \<le> D") auto
      ultimately show ?thesis using Forward d D(2) assms(8) by (simp add: is_better_or_eq_def algebra_simps)
    qed
  next
    case Backward
    have d: "int d = D + - int i"
      by (rule wrap_day [OF D(1,3,4) _ assms(6)]) (use assms(5,7) Backward in simp_all)
    show ?thesis
    proof (cases "i = 0")
      case True
      with assms(10) Backward d D(2) show ?thesis by (simp add: is_better_or_eq_def algebra_simps)
    next
      case False
      then have "1440 \<le> int i * 1440" by simp
      moreover have "0 \<le> m" using D(6) d False by simp
      ultimately show ?thesis using Backward d D(2) assms(9) by (simp add: is_better_or_eq_def algebra_simps)
    qed
  qed
qed

section \<open>The earliest transport\<close>

lemma scan_day_found:
  assumes "scan_day c l ev i d m n dest ps = Some (Some t)"
  shows "\<exists>pos \<in> set ps. t = \<lparr>t_idx = et_transport ev (t_offset_at c n pos),
        t_day = nat (u16 (int d - days (et_nth ev (t_offset_at c n pos))))\<rparr> \<and>
      r_is_transport_active c (t_idx t) (t_day t) \<and>
      (i = 0 \<longrightarrow> is_better_or_eq (search_dir c) m (mam (et_nth ev (t_offset_at c n pos))))"
  using assms
proof (induction ps)
  case (Cons pos ps)
  then show ?case by (auto simp: Let_def split: if_splits)
qed simp

lemma scan_days_found:
  assumes "scan_days c r l ev dy m dest is = Some t"
  shows "\<exists>i \<in> set is. \<exists>d pos. d = nat (u16 (if search_dir c = Forward then int dy + int i else int dy - int i)) \<and>
      is_route_active (r_tt c) r d \<and> pos < et_n_transports ev \<and>
      t = \<lparr>t_idx = et_transport ev (t_offset_at c (et_n_transports ev) pos),
        t_day = nat (u16 (int d - days (et_nth ev (t_offset_at c (et_n_transports ev) pos))))\<rparr> \<and>
      r_is_transport_active c (t_idx t) (t_day t) \<and>
      (i = 0 \<longrightarrow> is_better_or_eq (search_dir c) m (mam (et_nth ev (t_offset_at c (et_n_transports ev) pos))))"
  using assms
proof (induction "is")
  case (Cons i "is")
  define d where "d = nat (u16 (if search_dir c = Forward then int dy + int i else int dy - int i))"
  define ps where "ps = [if i = 0 then seek_first_day c ev m else 0..<et_n_transports ev]"
  show ?case
  proof (cases "is_route_active (r_tt c) r d \<and> scan_day c l ev i d m (et_n_transports ev) dest ps = Some (Some t)")
    case True
    then obtain pos where "pos \<in> set ps"
      "t = \<lparr>t_idx = et_transport ev (t_offset_at c (et_n_transports ev) pos),
        t_day = nat (u16 (int d - days (et_nth ev (t_offset_at c (et_n_transports ev) pos))))\<rparr>"
      "r_is_transport_active c (t_idx t) (t_day t)"
      "i = 0 \<longrightarrow> is_better_or_eq (search_dir c) m (mam (et_nth ev (t_offset_at c (et_n_transports ev) pos)))"
      using scan_day_found [of c l ev i d m "et_n_transports ev" dest ps t] by blast
    moreover from this(1) have "pos < et_n_transports ev" by (simp add: ps_def)
    ultimately show ?thesis using True d_def by (intro bexI [of _ i]) auto
  next
    case False
    with Cons.prems have "scan_days c r l ev dy m dest is = Some t"
      by (auto simp: Let_def d_def ps_def split: if_splits option.splits)
    with Cons.IH show ?thesis by auto
  qed
qed simp

lemma active_day: "r_is_transport_active c t d \<Longrightarrow> d < 512"
  by (auto simp: r_is_transport_active_def rtt_is_transport_active_def is_transport_active_def
      dest: bit_imp_le_length split: if_splits)

lemma route_active_day: "is_route_active tt r d \<Longrightarrow> d < 512"
  by (auto simp: is_route_active_def dest: bit_imp_le_length)

text \<open>The boarding event of position \<open>i\<close>, when there is a next stop.\<close>

lemma board_event_idx:
  "Suc i < n \<Longrightarrow> event_idx (stop_idx_at c n i) (dep_event c) < 2 * n - 2"
  by (auto simp: stop_idx_at_def dep_event_def)

lemma get_earliest_transport_sound:
  assumes ok: "tables_ok c" "r < n_routes (r_tt c)" and i: "Suc i < route_stops c r"
    and x: "delta_min \<le> x" "x \<le> delta_max" "split c x = (dy, m)"
    and t: "get_earliest_transport c k r (stop_idx_at c (route_stops c r) i) dy m l s = Some t"
  shows "serves c r t \<and>
    is_better_or_eq (search_dir c) x (event_minutes c r t (stop_idx_at c (route_stops c r) i) (dep_event c))"
proof -
  let ?s = "stop_idx_at c (route_stops c r) i"
  define ev where "ev = event_times_at_stop (r_tt c) r ?s (dep_event c)"
  define n where "n = et_n_transports ev"
  from scan_days_found [OF t [unfolded get_earliest_transport_def, folded ev_def]]
  obtain j d pos where j: "j \<in> set [0..<n_days_to_iterate]"
    and d: "d = nat (u16 (if search_dir c = Forward then int dy + int j else int dy - int j))"
    and act: "is_route_active (r_tt c) r d" and pos: "pos < n"
    and teq: "t = \<lparr>t_idx = et_transport ev (t_offset_at c n pos),
        t_day = nat (u16 (int d - days (et_nth ev (t_offset_at c n pos))))\<rparr>"
    and ract: "r_is_transport_active c (t_idx t) (t_day t)"
    and first: "j = 0 \<longrightarrow> is_better_or_eq (search_dir c) m (mam (et_nth ev (t_offset_at c n pos)))"
    unfolding n_def by blast
  let ?rt = "rt_transports (tt_route_times (r_tt c) ! r)"
  have off: "t_offset_at c n pos < n" using pos by (auto simp: t_offset_at_def)
  have rto: "route_times_ok (r_tt c) r" and base: "base c \<le> 60000"
    and norm: "\<And>t s e. t \<in> set (iv_list ?rt) \<Longrightarrow> event_idx s e < 2 * route_stops c r - 2 \<Longrightarrow>
      delta_norm (event_mam_r (r_tt c) r t s e)"
    using ok by (auto simp: tables_ok_def)
  note ei = board_event_idx [OF i, of c]
  have nth: "et_nth ev (t_offset_at c n pos) = event_mam_r (r_tt c) r (t_idx t) ?s (dep_event c)"
    unfolding ev_def teq using et_nth_event_mam [OF rto ei [unfolded route_stops_def]]
    by (simp add: route_stops_def ev_def)
  have "t_idx t = ifrom ?rt + t_offset_at c n pos" "n = ito ?rt - ifrom ?rt"
    by (simp_all add: teq et_transport_def ev_def event_times_at_stop_def Let_def n_def iv_size_def)
  then have mem: "t_idx t \<in> set (iv_list ?rt)" using off by (simp add: iv_list_def)
  define e where "e = event_mam_r (r_tt c) r (t_idx t) ?s (dep_event c)"
  have e: "0 \<le> days e" "days e < 32" "0 \<le> mam e" "mam e < 1440"
    using norm [OF mem ei] by (simp_all add: e_def delta_norm_def)
  have d512: "d < 512" using act by (rule route_active_day)
  have day: "t_day t = nat (u16 (int d - days e))" by (simp add: teq nth [unfolded teq, simplified] e_def)
  have t512: "t_day t < 512" using ract by (rule active_day)
  have day_eq: "int (t_day t) = int d - days e"
  proof (cases "days e \<le> int d")
    case True
    then show ?thesis using day d512 e(1) by simp
  next
    case False
    have "u16 (int d - days e) = (int d - days e + 65536) mod 65536" by (simp add: wrap_u_def)
    also have "\<dots> = int d - days e + 65536" by (rule mod_pos_pos_trivial) (use False e(2) in simp_all)
    finally show ?thesis using day t512 e(2) by simp
  qed
  have "is_better_or_eq (search_dir c) x ((int d - int (base c)) * 1440 + mam e)"
  proof (rule label_before_event [OF x(3) [unfolded split_def] x(1,2) base d d512 _ e(3,4)])
    show "j \<le> 5" using j by (simp add: n_days_to_iterate_def kMaxTravelTime_def)
    show "j = 0 \<Longrightarrow> is_better_or_eq (search_dir c) m (mam e)" using first nth by (simp add: e_def)
  qed
  moreover have "event_minutes c r t ?s (dep_event c) = (int d - int (base c)) * 1440 + mam e"
    by (simp add: event_minutes_def day_eq delta_minutes_def e_def [symmetric] algebra_simps)
  ultimately show ?thesis using mem ract by (simp add: serves_def)
qed

end
