(* ===== verification/Raptor_Rides.thy ===== *)
theory Raptor_Rides
  imports Raptor_Scan
begin

text \<open>
  The rides carried along a route or a real-time transport, and the two scans.
\<close>

section \<open>Sections\<close>

lemma section_filters_some:
  assumes "section_filters flags r req = Some fs" "\<forall>f \<in> set fs. per ! route_flag_idx f ! r ! sec"
  shows "\<forall>f \<in> set req. flag_on flags per r sec f"
  using assms
proof (induction req arbitrary: fs)
  case (Cons f req)
  from Cons.prems(1) obtain check rest where fc: "flag_filter (flags ! route_flag_idx f) r = Some check"
    "section_filters flags r req = Some rest" "fs = (if check then f # rest else rest)"
    by (auto split: option.splits)
  with Cons.prems(2) have "\<forall>g \<in> set rest. per ! route_flag_idx g ! r ! sec" by (simp split: if_splits)
  from Cons.IH [OF fc(2) this] fc(1,3) Cons.prems(2) show ?case
    by (auto simp: flag_on_def flag_filter_def split: if_splits)
qed simp

lemma sections_pass_ok:
  assumes "section_filters (route_flags (r_tt c)) r (required_flags c) = Some fs"
    and "sections_pass c (route_flags_per_section (r_tt c)) r fs (stop_idx_at c (route_stops c r) i)"
  shows "section_ok c r i"
  unfolding section_ok_def
  by (rule section_filters_some [OF assms(1)])
     (use assms(2) in \<open>simp add: sections_pass_def section_before_def list_all_iff\<close>)

lemma rt_sections_pass_ok:
  assumes "section_filters (rt_transport_flags (r_rtt c)) t (required_flags c) = Some fs"
    and "sections_pass c (rt_flags_per_section (r_rtt c)) t fs (stop_idx_at c (rt_stops c t) i)"
  shows "rt_section_ok c t i"
  unfolding rt_section_ok_def
  by (rule section_filters_some [OF assms(1)])
     (use assms(2) in \<open>simp add: sections_pass_def section_before_def list_all_iff\<close>)

section \<open>Arriving\<close>

lemma arrive_sound:
  assumes "sound c S k (snd st)" "arrived c S k l v x"
  shows "sound c S k (snd (arrive c k l v x st))"
proof -
  obtain a s where st: "st = (a, s)" by (cases st)
  let ?s1 = "s\<lparr>stats := (stats s)\<lparr>n_updated_by_route := n_updated_by_route (stats s) + 1\<rparr>\<rparr>"
  have s: "sound c S k s" using assms(1) st by simp
  have s1: "sound c S k ?s1" using s by (rule sound_stats)
  have "sound c S k (mark_station l (upd_tmp l v (get_best (search_dir c) x (at2 (tmp s) l v)) ?s1))"
  proof (cases "get_best (search_dir c) x (at2 (tmp s) l v) = x")
    case True
    with assms(2) show ?thesis by (intro sound_mark sound_upd_tmp [OF s1]) simp
  next
    case False
    then have old: "get_best (search_dir c) x (at2 (tmp s) l v) = at2 (tmp s) l v"
      using get_best_cases by blast
    have "set2 l v (at2 (tmp s) l v) (tmp s) = tmp s"
      by (cases "l < length (tmp s)") (simp_all add: set2_def at2_def update_beyond)
    with old have "upd_tmp l v (get_best (search_dir c) x (at2 (tmp s) l v)) ?s1 = ?s1" by simp
    with s1 show ?thesis by (simp only: sound_mark)
  qed
  with s show ?thesis by (simp add: arrive_def st Let_def)
qed

lemma arrive_frame [simp]:
  "round_times (snd (arrive c k l v x st)) = round_times (snd st)"
  "prev_station_mark (snd (arrive c k l v x st)) = prev_station_mark (snd st)"
  "route_mark (snd (arrive c k l v x st)) = route_mark (snd st)"
  by (cases st; simp add: arrive_def Let_def)+

section \<open>The matrix of rides\<close>

definition rides_shape :: "raptor \<Rightarrow> rides \<Rightarrow> bool" where
  "rides_shape c rs \<longleftrightarrow> map length (fst rs) = replicate (vias c + 1) (vias c + 1) \<and>
     map length (snd rs) = replicate (vias c + 1) (vias c + 1)"

definition rides_ok :: "raptor \<Rightarrow> nat \<Rightarrow> (transport \<Rightarrow> nat \<Rightarrow> bool) \<Rightarrow> rides \<Rightarrow> bool" where
  "rides_ok c r Q rs \<longleftrightarrow> rides_shape c rs \<and>
     (\<forall>e p t. e + p \<le> vias c \<longrightarrow> fst rs ! e ! p = Some t \<longrightarrow>
        Q t (e + p) \<and> snd rs ! e ! p = get_transport_times c r t)"

lemma mat_shape: "map length (m[i := (m ! i)[v := x]]) = map length m"
  by (simp add: map_update map_update_same)

lemma mat_nth:
  assumes "map length m = replicate n w" "i < n" "v < w"
  shows "m[i := (m ! i)[v := x]] ! j ! u = (if j = i \<and> u = v then x else m ! j ! u)"
  using row_length [OF assms(1,2)] rows_length [OF assms(1)] assms(2,3) by (simp add: nth_list_update)

lemma rides_shape_set [simp]:
  "rides_shape c (set_ride e p t rs) = rides_shape c rs"
  "rides_shape c (set_times e p ts rs) = rides_shape c rs"
  by (simp_all add: rides_shape_def set_ride_def set_times_def mat_shape)

lemma rides_nth:
  assumes "rides_shape c rs" "e \<le> vias c" "p \<le> vias c"
  shows "fst (set_ride e p t rs) ! e' ! p' = (if e' = e \<and> p' = p then t else fst rs ! e' ! p')"
    "snd (set_times e p ts rs) ! e' ! p' = (if e' = e \<and> p' = p then ts else snd rs ! e' ! p')"
  using assms mat_nth [of "fst rs" "vias c + 1" "vias c + 1" e p t e' p']
    mat_nth [of "snd rs" "vias c + 1" "vias c + 1" e p ts e' p']
  by (simp_all add: rides_shape_def set_ride_def set_times_def)

lemma rides_frame [simp]:
  "snd (set_ride e p t rs) = snd rs" "fst (set_times e p ts rs) = fst rs"
  by (simp_all add: set_ride_def set_times_def)

lemma rides_ok_set:
  assumes "rides_ok c r Q rs" "e + p \<le> vias c" "Q t (e + p)"
  shows "rides_ok c r Q (set_times e p (get_transport_times c r t) (set_ride e p (Some t) rs))"
proof -
  have sh: "rides_shape c rs" "e \<le> vias c" "p \<le> vias c" using assms(1,2) by (auto simp: rides_ok_def)
  have sh': "rides_shape c (set_ride e p (Some t) rs)" using sh(1) by simp
  show ?thesis
    using assms by (simp add: rides_ok_def rides_nth [OF sh] rides_nth [OF sh' sh(2,3)])
qed

lemma rides_ok_clear:
  assumes "rides_ok c r Q rs" "e \<le> vias c" "p \<le> vias c"
  shows "rides_ok c r Q (set_ride e p None rs)"
proof -
  have sh: "rides_shape c rs" using assms(1) by (simp add: rides_ok_def)
  show ?thesis using assms by (simp add: rides_ok_def rides_nth [OF sh assms(2,3)])
qed

lemma rides_ok_mono:
  "rides_ok c r Q rs \<Longrightarrow> (\<And>t v. v \<le> vias c \<Longrightarrow> Q t v \<Longrightarrow> Q' t v) \<Longrightarrow> rides_ok c r Q' rs"
  by (simp add: rides_ok_def)

lemma no_rides_ok: "rides_shape c rs \<Longrightarrow> rides_ok c r Q (no_rides c, snd rs)"
proof -
  assume "rides_shape c rs"
  then have "rides_shape c (no_rides c, snd rs)" by (simp add: rides_shape_def no_rides_def)
  moreover have "e + p \<le> vias c \<Longrightarrow> no_rides c ! e ! p = None" for e p
    using nth_replicate [of e "vias c + 1" "replicate (vias c + 1) None"]
      nth_replicate [of p "vias c + 1" None] by (simp add: no_rides_def del: replicate_Suc)
  ultimately show ?thesis by (simp add: rides_ok_def)
qed

lemma initial_rides_ok: "rides_ok c r Q (no_rides c, no_times c)"
  using no_rides_ok [of c "(no_rides c, no_times c)" r Q]
  by (simp add: rides_shape_def no_rides_def no_times_def)

section \<open>Crossings\<close>

lemma cross_one_ok:
  assumes "rides_ok c r (\<lambda>t v. riding c S k r t i v) rs" "e < vias c" "0 < p" "p \<le> vias c - e"
    and "l = stop_loc (stop_at c r i)"
  shows "rides_ok c r (\<lambda>t v. riding c S k r t i v) (cross_one c r stop_idx l e p rs)"
proof -
  let ?Q = "\<lambda>t v. riding c S k r t i v"
  have ep: "e + p \<le> vias c" "e + (p - 1) \<le> vias c" "e + (p - 1) = e + p - 1" "e + p - 1 < vias c"
    using assms(2-4) by auto
  show ?thesis
  proof (cases "fst rs ! e ! (p - 1)")
    case None
    with assms(1) show ?thesis by (simp add: cross_one_def Let_def)
  next
    case (Some t)
    with assms(1) ep have t: "?Q t (e + p - 1)" "snd rs ! e ! (p - 1) = get_transport_times c r t"
      unfolding rides_ok_def by metis+
    show ?thesis
    proof (cases "is_via c ! (e + p - 1) ! l \<and> via_stay (via_stops c ! (e + p - 1)) = 0")
      case True
      then have "free_via c (e + p - 1) (stop_loc (stop_at c r i))" using ep assms(5) by (simp add: free_via_def)
      from reached_riding_rt_riding_arrived.cross [OF t(1) this] have "?Q t (e + p)" using assms(3) by simp
      then have moved: "rides_ok c r ?Q (set_times e p (snd rs ! e ! (p - 1)) (set_ride e p (fst rs ! e ! (p - 1)) rs))"
        unfolding t(2) Some by (rule rides_ok_set [OF assms(1) ep(1)])
      have le: "e \<le> vias c" "p - 1 \<le> vias c" using ep by auto
      show ?thesis
        unfolding cross_one_def Let_def
        using True Some rides_ok_clear [OF moved le] rides_ok_clear [OF assms(1) le] by simp
    next
      case False
      then have "cross_one c r stop_idx l e p rs = rs" unfolding cross_one_def Let_def by (auto split: if_split)
      with assms(1) show ?thesis by simp
    qed
  qed
qed

lemma cross_ok:
  assumes "rides_ok c r (\<lambda>t v. riding c S k r t i v) rs" "l = stop_loc (stop_at c r i)"
  shows "rides_ok c r (\<lambda>t v. riding c S k r t i v) (Raptor_Rounds.cross c r stop_idx l rs)"
  unfolding Raptor_Rounds.cross_def
  by (rule fold_invariant [where P = "rides_ok c r (\<lambda>t v. riding c S k r t i v)"], rule assms(1),
      rule fold_invariant [where P = "rides_ok c r (\<lambda>t v. riding c S k r t i v)"], assumption,
      rule cross_one_ok) (auto simp: assms(2))

text \<open>On board before stop \<open>i\<close> is looked at: the ride goes on if the section before \<open>i\<close> is allowed.\<close>

definition aboard :: "raptor \<Rightarrow> (nat \<times> nat \<times> int) set \<Rightarrow> nat \<Rightarrow> nat \<Rightarrow> nat \<Rightarrow> transport \<Rightarrow> nat \<Rightarrow> bool" where
  "aboard c S k r i t v \<longleftrightarrow> i \<noteq> 0 \<and> (section_ok c r i \<longrightarrow> riding c S k r t i v)"

lemma pass_stop_ok:
  assumes "rides_ok c r (aboard c S k r i) rs"
    and "section_filters (route_flags (r_tt c)) r (required_flags c) = Some fs"
    and "l = stop_loc (stop_at c r i)"
  shows "rides_ok c r (\<lambda>t v. riding c S k r t i v)
    (pass_stop c r fs i (stop_idx_at c (route_stops c r) i) l rs)"
proof -
  let ?pass = "sections_pass c (route_flags_per_section (r_tt c)) r fs (stop_idx_at c (route_stops c r) i)"
  define rs1 where "rs1 = (if i \<noteq> 0 \<and> \<not> ?pass then (no_rides c, snd rs) else rs)"
  have "rides_ok c r (\<lambda>t v. riding c S k r t i v) rs1"
  proof (cases "i \<noteq> 0 \<and> \<not> ?pass")
    case True
    have "rides_shape c rs" using assms(1) by (simp add: rides_ok_def)
    with True show ?thesis unfolding rs1_def by (simp only: if_True simp_thms no_rides_ok)
  next
    case False
    then have "rs1 = rs" unfolding rs1_def by (rule if_not_P)
    moreover have "rides_ok c r (\<lambda>t v. riding c S k r t i v) rs"
    proof (rule rides_ok_mono [OF assms(1)])
      fix t v assume a: "aboard c S k r i t v"
      then have "?pass" using False by (simp add: aboard_def)
      from sections_pass_ok [OF assms(2) this] a show "riding c S k r t i v" by (simp add: aboard_def)
    qed
    ultimately show ?thesis by (simp only:)
  qed
  from cross_ok [OF this assms(3)] this show ?thesis
    unfolding pass_stop_def Let_def rs1_def [symmetric] by (cases "vias c = 0") simp_all
qed

section \<open>Alighting and boarding\<close>

lemma alight_one_ok:
  assumes "sound c S k (snd (snd st))" "rides_ok c r (\<lambda>t v. riding c S k r t i v) rs"
    and "e \<le> cs" "cs \<le> vias c" "stp = stop_at c r i" "l = stop_loc stp"
  shows "sound c S k (snd (snd (alight_one c k r (stop_idx_at c (route_stops c r) i) l stp rs cs e st)))"
proof (cases "fst rs ! e ! (cs - e) = None \<or> \<not> can_finish (search_dir c) stp (is_wheelchair c)")
  case True
  with assms(1) show ?thesis by (auto simp: alight_one_def)
next
  case False
  then obtain t where t: "fst rs ! e ! (cs - e) = Some t" by auto
  have eq: "e + (cs - e) = cs" using assms(3) by simp
  from assms(2) t assms(4) have ride: "riding c S k r t i cs" "snd rs ! e ! (cs - e) = get_transport_times c r t"
    unfolding rides_ok_def by (metis eq)+
  have "arrived c S k l cs (get_time c r (snd rs ! e ! (cs - e)) (stop_idx_at c (route_stops c r) i) (arr_event c))"
    unfolding ride(2) assms(6) assms(5)
    by (rule reached_riding_rt_riding_arrived.alight [OF ride(1)]) (use False assms(5) in simp)
  with False assms(1) show ?thesis
    by (cases st) (simp add: alight_one_def Let_def arrive_sound)
qed

lemma alight_all_ok:
  assumes "sound c S k (snd (snd st))" "rides_ok c r (\<lambda>t v. riding c S k r t i v) rs"
    and "stp = stop_at c r i" "l = stop_loc stp"
  shows "sound c S k (snd (snd (alight_all c k r (stop_idx_at c (route_stops c r) i) l stp rs st)))"
  unfolding alight_all_def Let_def
  by (rule fold_invariant [where P = "\<lambda>st. sound c S k (snd (snd st))", OF assms(1)],
      rule fold_invariant [where P = "\<lambda>st. sound c S k (snd (snd st))"], assumption,
      rule alight_one_ok [OF _ assms(2)]) (auto simp: assms(3,4))

lemma board_one_ok:
  assumes "sound c S (Suc k) (snd (snd st))" "rides_ok c r (aboard c S (Suc k) r (Suc i)) (fst st)"
    and ok: "tables_ok c" "starts_ok S" "r < n_routes (r_tt c)" and i: "Suc i < route_stops c r" and v: "v \<le> vias c"
    and k: "k < kMaxTransfers + 2" and stp: "stp = stop_at c r i" "l = stop_loc stp" "l < n_locations (r_tt c)"
    and can: "can_start (search_dir c) stp (is_wheelchair c)" and cl: "clasz_ok c (route_clasz (r_tt c) ! r)"
  shows "sound c S (Suc k) (snd (snd (board_one c (Suc k) r (stop_idx_at c (route_stops c r) i) l v st))) \<and>
    rides_ok c r (aboard c S (Suc k) r (Suc i)) (fst (board_one c (Suc k) r (stop_idx_at c (route_stops c r) i) l v st))"
proof -
  let ?si = "stop_idx_at c (route_stops c r) i"
  obtain rs cb s where st: "st = (rs, cb, s)" by (cases st)
  have s: "sound c S (Suc k) s" and rs: "rides_ok c r (aboard c S (Suc k) r (Suc i)) rs"
    using assms(1,2) st by simp_all
  define x where "x = at3 (round_times s) k l v"
  obtain dy m where dm: "split c x = (dy, m)" by (cases "split c x")
  let ?et = "get_earliest_transport c (Suc k) r ?si dy m l s"
  let ?s1 = "s\<lparr>stats := (stats s)\<lparr>n_earliest_trip_calls := n_earliest_trip_calls (stats s) + 1\<rparr>\<rparr>"
  have s1: "sound c S (Suc k) ?s1" using s by (rule sound_stats)
  show ?thesis
  proof (cases "x = kInvalid c")
    case True
    then show ?thesis using s rs by (simp add: st board_one_def x_def [symmetric] Let_def)
  next
    case False
    note lab = sound_label [OF s k stp(3) v, folded x_def, OF False]
    note range = reached_range(1) [OF ok(2) lab]
    have new: "rides_ok c r (aboard c S (Suc k) r (Suc i))
        (set_times v 0 (get_transport_times c r t) (set_ride v 0 (Some t) rs))" if t: "?et = Some t" for t
    proof (rule rides_ok_set [OF rs])
      have b: "serves c r t \<and> is_better_or_eq (search_dir c) x (event_minutes c r t ?si (dep_event c))"
        by (rule get_earliest_transport_sound [OF ok(1,3) i _ _ dm t]) (use range in simp_all)
      have "section_ok c r (Suc i) \<Longrightarrow> riding c S (Suc k) r t (Suc i) v"
        by (rule board [of c S k r i v x t])
          (use lab [unfolded stp(2) stp(1)] False cl i can [unfolded stp(1)] b in simp_all)
      then show "aboard c S (Suc k) r (Suc i) t (v + 0)" by (simp add: aboard_def)
    qed (use v in simp)
    show ?thesis
      using s s1 rs new
      by (cases "?et") (simp_all add: st board_one_def Let_def x_def [symmetric] dm False)
  qed
qed

lemma board_all_ok:
  assumes "sound c S (Suc k) (snd (snd st))" "rides_ok c r (aboard c S (Suc k) r (Suc i)) (fst st)"
    and ok: "tables_ok c" "starts_ok S" "r < n_routes (r_tt c)" and i: "Suc i < route_stops c r"
    and k: "k < kMaxTransfers + 2" and stp: "stp = stop_at c r i" "l = stop_loc stp" "l < n_locations (r_tt c)"
    and can: "can_start (search_dir c) stp (is_wheelchair c)" and cl: "clasz_ok c (route_clasz (r_tt c) ! r)"
  shows "sound c S (Suc k) (snd (snd (board_all c (Suc k) r (stop_idx_at c (route_stops c r) i) l st))) \<and>
    rides_ok c r (aboard c S (Suc k) r (Suc i)) (fst (board_all c (Suc k) r (stop_idx_at c (route_stops c r) i) l st))"
  unfolding board_all_def
  by (rule fold_invariant [where P = "\<lambda>st. sound c S (Suc k) (snd (snd st)) \<and>
        rides_ok c r (aboard c S (Suc k) r (Suc i)) (fst st)"])
     (use assms(1,2) board_one_ok [OF _ _ ok i _ k stp can cl] slot_le in blast)+

section \<open>Scanning a route\<close>

lemma alight_all_frame [simp]:
  "prev_station_mark (snd (snd (alight_all c k r si l stp rs st))) = prev_station_mark (snd (snd st))"
proof -
  have one: "prev_station_mark (snd (snd (alight_one c k r si l stp rs cs e st))) = prev_station_mark (snd (snd st))"
    for cs e st by (cases st) (simp add: alight_one_def Let_def)
  show ?thesis
    unfolding alight_all_def Let_def
    by (rule fold_keeps [where g = "\<lambda>st. prev_station_mark (snd (snd st))"],
        rule fold_keeps [where g = "\<lambda>st. prev_station_mark (snd (snd st))"], rule one)
qed

lemma stop_at_location:
  assumes "tables_ok c" "r < n_routes (r_tt c)" "i < route_stops c r"
  shows "stop_loc (stop_at c r i) < n_locations (r_tt c)"
proof -
  have "stop_idx_at c (route_stops c r) i < length (route_location_seq (r_tt c) ! r)"
    using assms(3) by (auto simp: stop_idx_at_def route_stops_def)
  with assms(1,2) show ?thesis unfolding stop_at_def tables_ok_def by (meson nth_mem)
qed

definition scan_ok :: "raptor \<Rightarrow> (nat \<times> nat \<times> int) set \<Rightarrow> nat \<Rightarrow> nat \<Rightarrow> nat \<Rightarrow> rides \<times> bool \<times> raptor_state \<Rightarrow> bool" where
  "scan_ok c S k r i st \<longleftrightarrow> sound c S k (snd (snd st)) \<and> rides_ok c r (aboard c S k r i) (fst st)"

lemma route_stop_ok:
  assumes st: "scan_ok c S (Suc k) r i st"
    and ok: "tables_ok c" "starts_ok S" "r < n_routes (r_tt c)" and i: "i < route_stops c r"
    and k: "k < kMaxTransfers + 2" and cl: "clasz_ok c (route_clasz (r_tt c) ! r)"
    and fs: "section_filters (route_flags (r_tt c)) r (required_flags c) = Some fs"
    and step: "route_stop c (Suc k) r fs i st = (go, st')"
  shows "sound c S (Suc k) (snd (snd st')) \<and> (Suc i < route_stops c r \<longrightarrow> go \<longrightarrow> scan_ok c S (Suc k) r (Suc i) st')"
proof -
  let ?n = "route_stops c r" and ?stp = "stop_at c r i"
  let ?l = "stop_loc ?stp" and ?si = "stop_idx_at c ?n i"
  define rs where "rs = pass_stop c r fs i ?si ?l (fst st)"
  define al where "al = alight_all c (Suc k) r ?si ?l ?stp rs (kInvalidArray c, snd st)"
  have s0: "sound c S (Suc k) (snd (snd st))" and r0: "rides_ok c r (aboard c S (Suc k) r i) (fst st)"
    using st by (simp_all add: scan_ok_def)
  have rs: "rides_ok c r (\<lambda>t v. riding c S (Suc k) r t i v) rs"
    unfolding rs_def by (rule pass_stop_ok [OF r0 fs refl])
  have al: "sound c S (Suc k) (snd (snd al))"
    unfolding al_def by (rule alight_all_ok [OF _ rs refl refl]) (simp add: s0)
  have carry: "rides_ok c r (aboard c S (Suc k) r (Suc i)) rs" if "Suc i < ?n"
    by (rule rides_ok_mono [OF rs]) (use that move in \<open>auto simp: aboard_def\<close>)
  have step_eq: "route_stop c (Suc k) r fs i st =
     (if i = ?n - 1 \<or> \<not> can_start (search_dir c) ?stp (is_wheelchair c) \<or> \<not> prev_station_mark (snd (snd al)) ! ?l
      then (True, rs, snd al)
      else if \<not> lb_reachable c ?l then (False, rs, snd al)
      else let b = board_all c (Suc k) r ?si ?l (rs, fst al, snd (snd al)) in (True, fst b, fst (snd al), snd (snd b)))"
    unfolding route_stop_def Let_def stop_at_def [symmetric] route_stops_def [symmetric] rs_def [symmetric] al_def [symmetric]
    by (rule refl)
  show ?thesis
  proof (cases "i = ?n - 1 \<or> \<not> can_start (search_dir c) ?stp (is_wheelchair c) \<or> \<not> prev_station_mark (snd (snd al)) ! ?l")
    case True
    then have "st' = (rs, snd al)" using step unfolding step_eq by (simp split: if_splits)
    with al carry show ?thesis by (simp add: scan_ok_def)
  next
    case nb: False
    then have i1: "Suc i < ?n" using i by auto
    show ?thesis
    proof (cases "lb_reachable c ?l")
      case False
      with nb have "go = False \<and> st' = (rs, snd al)" using step unfolding step_eq by simp
      with al show ?thesis by simp
    next
      case True
      let ?b = "board_all c (Suc k) r ?si ?l (rs, fst al, snd (snd al))"
      have "st' = (fst ?b, fst (snd al), snd (snd ?b))" using step nb True unfolding step_eq by (simp add: Let_def)
      moreover have "sound c S (Suc k) (snd (snd ?b)) \<and> rides_ok c r (aboard c S (Suc k) r (Suc i)) (fst ?b)"
        by (rule board_all_ok [OF _ _ ok i1 k refl refl stop_at_location [OF ok(1,3) i] _ cl])
           (use al carry [OF i1] nb in simp_all)
      ultimately show ?thesis by (simp add: scan_ok_def)
    qed
  qed
qed

lemma for_break_scan:
  assumes "P 0 s" and "\<And>i s go s'. i < n \<Longrightarrow> P i s \<Longrightarrow> f i s = (go, s') \<Longrightarrow> Q s' \<and> (Suc i < n \<longrightarrow> go \<longrightarrow> P (Suc i) s')"
    and "Q s"
  shows "Q (for_break f [0..<n] s)"
proof -
  have "Q (for_break f [i..<n] s)" if "i < n \<longrightarrow> P i s" "Q s" "i \<le> n" for i s
    using that
  proof (induction "n - i" arbitrary: i s)
    case (Suc m)
    then have i: "[i..<n] = i # [Suc i..<n]" "i < n" by (simp_all add: upt_conv_Cons)
    obtain go s' where f: "f i s = (go, s')" by (cases "f i s")
    from assms(2) [OF i(2) _ f] Suc.prems i(2) have "Q s'" "Suc i < n \<longrightarrow> go \<longrightarrow> P (Suc i) s'" by auto
    with Suc(1) [of "Suc i" s'] Suc(2) i f show ?case by simp
  qed simp
  with assms(1,3) show ?thesis by simp
qed

lemma update_route_sound:
  assumes "sound c S (Suc k) s" and ok: "tables_ok c" "starts_ok S" "r < n_routes (r_tt c)"
    and k: "k < kMaxTransfers + 2" and cl: "clasz_ok c (route_clasz (r_tt c) ! r)"
    and fs: "section_filters (route_flags (r_tt c)) r (required_flags c) = Some fs"
  shows "sound c S (Suc k) (snd (update_route c (Suc k) r fs s))"
  unfolding update_route_def route_stops_def [symmetric]
proof (rule for_break_scan [where P = "scan_ok c S (Suc k) r" and Q = "\<lambda>st. sound c S (Suc k) (snd (snd st))"])
  show "scan_ok c S (Suc k) r 0 ((no_rides c, no_times c), False, s)"
    using assms(1) by (simp add: scan_ok_def initial_rides_ok)
qed (use route_stop_ok [OF _ ok _ k cl fs] assms(1) in auto)

section \<open>Scanning a real-time transport\<close>

definition rt_aboard :: "raptor \<Rightarrow> (nat \<times> nat \<times> int) set \<Rightarrow> nat \<Rightarrow> nat \<Rightarrow> nat \<Rightarrow> nat \<Rightarrow> bool" where
  "rt_aboard c S k t i v \<longleftrightarrow> i \<noteq> 0 \<and> (rt_section_ok c t i \<longrightarrow> rt_riding c S k t i v)"

definition slots_ok :: "raptor \<Rightarrow> (nat \<Rightarrow> bool) \<Rightarrow> bool list \<Rightarrow> bool" where
  "slots_ok c Q et \<longleftrightarrow> length et = vias c + 1 \<and> (\<forall>v \<le> vias c. et ! v \<longrightarrow> Q v)"

lemma slots_ok_set: "slots_ok c Q et \<Longrightarrow> (b \<Longrightarrow> Q v) \<Longrightarrow> slots_ok c Q (et[v := b])"
  by (cases "v < length et") (auto simp: slots_ok_def nth_list_update update_beyond split: if_splits)

lemma rt_cross_ok:
  assumes "slots_ok c (rt_riding c S k t i) et" "l = stop_loc (rt_stop_at c t i)"
  shows "slots_ok c (rt_riding c S k t i) (rt_cross c l et)"
  unfolding rt_cross_def
proof (rule fold_invariant [where P = "slots_ok c (rt_riding c S k t i)", OF assms(1)])
  fix v et1 assume v: "v \<in> set (rev [1..<Suc (vias c)])" and et1: "slots_ok c (rt_riding c S k t i) et1"
  show "slots_ok c (rt_riding c S k t i) (rt_cross_one c l v et1)"
  proof (cases "et1 ! (v - 1) \<and> is_via c ! (v - 1) ! l \<and> via_stay (via_stops c ! (v - 1)) = 0")
    case True
    have v1: "Suc (v - 1) = v" "v \<le> vias c" using v by auto
    have "rt_riding c S k t i (v - 1)" "free_via c (v - 1) l" using True et1 v1 by (auto simp: slots_ok_def free_via_def)
    then have "rt_riding c S k t i (Suc (v - 1))" unfolding assms(2)
      by (rule reached_riding_rt_riding_arrived.rt_cross)
    then have "rt_riding c S k t i v" by (simp only: v1)
    then show ?thesis unfolding rt_cross_one_def using et1 True by (auto intro!: slots_ok_set)
  qed (use et1 in \<open>auto simp: rt_cross_one_def\<close>)
qed

lemma rt_moved: "i < n \<Longrightarrow>
  ((search_dir c = Forward \<and> stop_idx_at c n i \<noteq> 0) \<or> (search_dir c \<noteq> Forward \<and> stop_idx_at c n i \<noteq> n - 1)) \<longleftrightarrow> i \<noteq> 0"
  by (auto simp: stop_idx_at_def)

lemma rt_pass_stop_ok:
  assumes "slots_ok c (rt_aboard c S k t i) et" "i < rt_stops c t"
    and "section_filters (rt_transport_flags (r_rtt c)) t (required_flags c) = Some fs"
    and "l = stop_loc (rt_stop_at c t i)"
  shows "slots_ok c (rt_riding c S k t i) (rt_pass_stop c t fs (rt_stops c t) i (stop_idx_at c (rt_stops c t) i) l et)"
proof -
  let ?pass = "sections_pass c (rt_flags_per_section (r_rtt c)) t fs (stop_idx_at c (rt_stops c t) i)"
  define et1 where "et1 = (if i \<noteq> 0 \<and> \<not> ?pass then map (\<lambda>_. False) et else et)"
  have "slots_ok c (rt_riding c S k t i) et1"
  proof (cases "i \<noteq> 0 \<and> \<not> ?pass")
    case True
    then have "et1 = map (\<lambda>_. False) et" unfolding et1_def by (rule if_P)
    with assms(1) show ?thesis by (simp add: slots_ok_def)
  next
    case False
    then have "et1 = et" unfolding et1_def by (rule if_not_P)
    with False assms(1) rt_sections_pass_ok [OF assms(3)] show ?thesis
      by (auto simp: slots_ok_def rt_aboard_def)
  qed
  then show ?thesis
    unfolding rt_pass_stop_def Let_def et1_def [symmetric] using rt_cross_ok [OF _ assms(4)] by simp
qed

lemma rt_leave_ok:
  assumes "sound c S k (snd st)" "slots_ok c (rt_riding c S k t i) et" "stp = rt_stop_at c t i" "l = stop_loc stp"
  shows "sound c S k (snd (rt_leave c k t (rt_stops c t) (stop_idx_at c (rt_stops c t) i) stp l et st))"
proof -
  let ?si = "stop_idx_at c (rt_stops c t) i"
  have "sound c S k (snd (rt_alight c k l stp (rt_time_at_stop c t ?si (arr_event c)) et st))"
    unfolding rt_alight_def Let_def
  proof (rule fold_invariant [where P = "\<lambda>st. sound c S k (snd st)", OF assms(1)])
    fix j and st :: "bool \<times> raptor_state" assume st: "sound c S k (snd st)"
    have "arrived c S k l (vias c - j) (rt_time_at_stop c t ?si (arr_event c))"
      if "et ! (vias c - j)" "can_finish (search_dir c) stp (is_wheelchair c)"
      unfolding assms(4,3) by (rule rt_alight) (use that assms(2,3) in \<open>auto simp: slots_ok_def\<close>)
    then show "sound c S k (snd (if et ! (vias c - j) \<and> can_finish (search_dir c) stp (is_wheelchair c)
        then arrive c k l (vias c - j) (rt_time_at_stop c t ?si (arr_event c)) st else st))"
      using st by (simp add: arrive_sound)
  qed
  with assms(1) show ?thesis by (simp add: rt_leave_def)
qed

lemma rt_alight_frame: "prev_station_mark (snd (rt_alight c k l stp x et st)) = prev_station_mark (snd st)"
  unfolding rt_alight_def Let_def by (rule fold_keeps [where g = "\<lambda>st. prev_station_mark (snd st)"]) simp

definition rt_scan_ok :: "raptor \<Rightarrow> (nat \<times> nat \<times> int) set \<Rightarrow> nat \<Rightarrow> nat \<Rightarrow> nat \<Rightarrow> bool list \<times> bool \<times> raptor_state \<Rightarrow> bool" where
  "rt_scan_ok c S k t i st \<longleftrightarrow> sound c S k (snd (snd st)) \<and> slots_ok c (rt_aboard c S k t i) (fst st)"

lemma rt_location:
  assumes "tables_ok c" "t < n_rt_transports c" "i < rt_stops c t"
  shows "stop_loc (rt_stop_at c t i) < n_locations (r_tt c)"
proof -
  have "stop_idx_at c (rt_stops c t) i < length (rt_location_seq (r_rtt c) ! t)"
    using assms(3) by (auto simp: stop_idx_at_def rt_stops_def)
  with assms(1,2) show ?thesis unfolding rt_stop_at_def tables_ok_def by (meson nth_mem)
qed

lemma rt_board_ok:
  assumes s: "sound c S (Suc k) s" and et: "slots_ok c (rt_aboard c S (Suc k) t (Suc i)) et"
    and ok: "tables_ok c" "t < n_rt_transports c" "with_rt c" and i: "Suc i < rt_stops c t"
    and k: "k < kMaxTransfers + 2" and l: "l = stop_loc (rt_stop_at c t i)"
    and can: "can_start (search_dir c) (rt_stop_at c t i) (is_wheelchair c)"
    and cl: "clasz_ok c (rt_section_clasz (r_rtt c) ! t ! 0)"
  shows "slots_ok c (rt_aboard c S (Suc k) t (Suc i))
    (rt_board c (Suc k) l (rt_time_at_stop c t (stop_idx_at c (rt_stops c t) i) (dep_event c)) s et)"
  unfolding rt_board_def
proof (rule fold_invariant [where P = "slots_ok c (rt_aboard c S (Suc k) t (Suc i))", OF et])
  let ?by = "rt_time_at_stop c t (stop_idx_at c (rt_stops c t) i) (dep_event c)"
  fix v et1 assume v: "v \<in> set [0..<vias c + 1]" and et1: "slots_ok c (rt_aboard c S (Suc k) t (Suc i)) et1"
  define x where "x = at3 (round_times s) k l v"
  have ll: "l < n_locations (r_tt c)" unfolding l by (rule rt_location [OF ok(1,2)]) (use i in simp)
  have ride: "rt_riding c S (Suc k) t (Suc i) v" if b: "is_better_or_eq (search_dir c) x ?by" and sec: "rt_section_ok c t (Suc i)"
  proof -
    have "?by \<noteq> kInvalid c" using ok(1,2) by (simp add: tables_ok_def)
    with b have x: "x \<noteq> kInvalid c"
      using rt_time_range [of c t "stop_idx_at c (rt_stops c t) i" "dep_event c"]
      by (cases "search_dir c") (auto simp: is_better_or_eq_def kInvalidDelta_def)
    from sound_label [OF s k ll slot_le [OF v], folded x_def, OF x]
    have "reached c S k (stop_loc (rt_stop_at c t i)) v x" by (simp add: l)
    from rt_board [OF this x ok(3) cl i can b sec] show ?thesis .
  qed
  show "slots_ok c (rt_aboard c S (Suc k) t (Suc i))
      (if is_better_or_eq (search_dir c) (at3 (round_times s) (Suc k - 1) l v) ?by then et1[v := True] else et1)"
    using et1 ride by (auto simp: x_def rt_aboard_def intro!: slots_ok_set)
qed

lemma rt_stop_ok:
  assumes st: "rt_scan_ok c S (Suc k) t i st"
    and ok: "tables_ok c" "t < n_rt_transports c" "with_rt c" and i: "i < rt_stops c t"
    and k: "k < kMaxTransfers + 2" and cl: "clasz_ok c (rt_section_clasz (r_rtt c) ! t ! 0)"
    and fs: "section_filters (rt_transport_flags (r_rtt c)) t (required_flags c) = Some fs"
    and step: "Raptor_Rounds.rt_stop c (Suc k) t fs i st = (go, st')"
  shows "sound c S (Suc k) (snd (snd st')) \<and> (Suc i < rt_stops c t \<longrightarrow> go \<longrightarrow> rt_scan_ok c S (Suc k) t (Suc i) st')"
proof -
  let ?n = "rt_stops c t" and ?stp = "rt_stop_at c t i"
  let ?l = "stop_loc ?stp" and ?si = "stop_idx_at c ?n i"
  define et where "et = rt_pass_stop c t fs ?n i ?si ?l (fst st)"
  define al where "al = rt_leave c (Suc k) t ?n ?si ?stp ?l et (snd st)"
  have s0: "sound c S (Suc k) (snd (snd st))" and e0: "slots_ok c (rt_aboard c S (Suc k) t i) (fst st)"
    using st by (simp_all add: rt_scan_ok_def)
  have et: "slots_ok c (rt_riding c S (Suc k) t i) et"
    unfolding et_def by (rule rt_pass_stop_ok [OF e0 i fs refl])
  have al: "sound c S (Suc k) (snd al)"
    unfolding al_def by (rule rt_leave_ok [OF s0 et refl refl])
  have carry: "slots_ok c (rt_aboard c S (Suc k) t (Suc i)) et" if "Suc i < ?n"
    using et that rt_move by (auto simp: slots_ok_def rt_aboard_def)
  define by' where "by' = rt_time_at_stop c t ?si (dep_event c)"
  have step_eq: "Raptor_Rounds.rt_stop c (Suc k) t fs i st =
     (if \<not> lb_reachable c ?l then (False, et, al)
      else if i = ?n - 1 \<or> \<not> can_start (search_dir c) ?stp (is_wheelchair c) \<or> \<not> prev_station_mark (snd al) ! ?l
      then (True, et, al)
      else (True, rt_board c (Suc k) ?l by' (snd al) et, al))"
    unfolding Raptor_Rounds.rt_stop_def Let_def rt_stop_at_def [symmetric] rt_stops_def [symmetric]
      et_def [symmetric] al_def [symmetric] by'_def [symmetric]
    by (rule refl)
  show ?thesis
  proof (cases "\<not> lb_reachable c ?l \<or> i = ?n - 1 \<or> \<not> can_start (search_dir c) ?stp (is_wheelchair c) \<or>
      \<not> prev_station_mark (snd al) ! ?l")
    case True
    then have "st' = (et, al)" using step unfolding step_eq by (auto split: if_splits)
    with al carry show ?thesis by (simp add: rt_scan_ok_def)
  next
    case False
    then have i1: "Suc i < ?n" using i by auto
    have "st' = (rt_board c (Suc k) ?l by' (snd al) et, al)" using step False unfolding step_eq by simp
    moreover have "slots_ok c (rt_aboard c S (Suc k) t (Suc i)) (rt_board c (Suc k) ?l by' (snd al) et)"
      unfolding by'_def by (rule rt_board_ok [OF al carry [OF i1] ok i1 k refl _ cl]) (use False in simp)
    ultimately show ?thesis using al by (simp add: rt_scan_ok_def)
  qed
qed

lemma update_rt_transport_sound:
  assumes "sound c S (Suc k) s" and ok: "tables_ok c" "t < n_rt_transports c" "with_rt c"
    and k: "k < kMaxTransfers + 2" and cl: "clasz_ok c (rt_section_clasz (r_rtt c) ! t ! 0)"
    and fs: "section_filters (rt_transport_flags (r_rtt c)) t (required_flags c) = Some fs"
  shows "sound c S (Suc k) (snd (update_rt_transport c (Suc k) t fs s))"
  unfolding update_rt_transport_def rt_stops_def [symmetric]
proof (rule for_break_scan [where P = "rt_scan_ok c S (Suc k) t" and Q = "\<lambda>st. sound c S (Suc k) (snd (snd st))"])
  have "replicate (vias c + 1) False ! v = False" if "v \<le> vias c" for v
    using nth_replicate [of v "vias c + 1" False] that by simp
  then show "rt_scan_ok c S (Suc k) t 0 (replicate (vias c + 1) False, False, s)"
    using assms(1) by (simp add: rt_scan_ok_def slots_ok_def del: replicate_Suc)
qed (use rt_stop_ok [OF _ ok _ k cl fs] assms(1) in auto)

end
