(* ===== verification/Raptor_Correct.thy ===== *)
theory Raptor_Correct
  imports Raptor_Rides
begin

text \<open>
  Soundness of the rounds and of the whole search: the labels left in the state and every journey
  handed to the result set come from the rules of \<open>Raptor_Spec\<close>.
\<close>

section \<open>Between the rounds\<close>

lemma sound_le:
  assumes "sound c S j s" "j \<le> k"
  shows "sound c S k s"
  using assms arrived_le [OF _ assms(2)] by (auto simp: sound_def tmp_sound_def)

text \<open>What the bookkeeping between the scans leaves alone.\<close>

definition labels_kept :: "raptor_state \<Rightarrow> raptor_state \<Rightarrow> bool" where
  "labels_kept s s' \<longleftrightarrow> tmp s' = tmp s \<and> round_times s' = round_times s \<and>
     map length (best s') = map length (best s) \<and>
     length (station_mark s') = length (station_mark s) \<and> length (prev_station_mark s') = length (prev_station_mark s) \<and>
     length (route_mark s') = length (route_mark s) \<and> length (rt_transport_mark s') = length (rt_transport_mark s)"

lemma labels_kept_refl: "labels_kept s s"
  by (simp add: labels_kept_def)

lemma labels_kept_trans: "labels_kept a b \<Longrightarrow> labels_kept b d \<Longrightarrow> labels_kept a d"
  by (simp add: labels_kept_def)

lemma sound_kept: "sound c S k s \<Longrightarrow> labels_kept s s' \<Longrightarrow> sound c S k s'"
  by (rule sound_frame) (simp_all add: labels_kept_def)

lemma kept_fold: "(\<And>x s. x \<in> set xs \<Longrightarrow> labels_kept s (f x s)) \<Longrightarrow> labels_kept s (fold f xs s)"
  by (rule fold_relation [where R = labels_kept]) (auto intro: labels_kept_refl labels_kept_trans)

lemma kept_sync_best: "labels_kept s (sync_best c k s)"
  unfolding sync_best_def by (intro kept_fold) (simp add: labels_kept_def)

lemma kept_update_time_at_dest: "labels_kept s (update_time_at_dest c k t s)"
  by (simp add: labels_kept_def)

lemma kept_dest_bounds: "labels_kept s (dest_bounds c k s)"
  unfolding dest_bounds_def by (intro kept_fold kept_update_time_at_dest)

lemma kept_snd_fold:
  "(\<And>x st. x \<in> set xs \<Longrightarrow> labels_kept (snd st) (snd (f x st))) \<Longrightarrow> labels_kept (snd st) (snd (fold f xs st))"
  by (rule fold_relation [where R = "\<lambda>a b. labels_kept (snd a) (snd b)"])
     (auto intro: labels_kept_refl labels_kept_trans)

lemma kept_mark_routes_at: "labels_kept (snd st) (snd (mark_routes_at c i st))"
proof -
  have a: "labels_kept (snd st) (snd (fold (\<lambda>r (_, s). (True, s\<lparr>route_mark := (route_mark s)[r := True]\<rparr>)) rs st))"
    for rs and st :: "bool \<times> raptor_state"
    by (rule kept_snd_fold) (simp add: labels_kept_def split: prod.split)
  have b: "labels_kept (snd st) (snd (fold (\<lambda>t (_, s). (True, s\<lparr>rt_transport_mark := (rt_transport_mark s)[t := True]\<rparr>)) ts st))"
    for ts and st :: "bool \<times> raptor_state"
    by (rule kept_snd_fold) (simp add: labels_kept_def split: prod.split)
  show ?thesis
    unfolding mark_routes_at_def Let_def
    using labels_kept_trans [OF a b] a by (cases "with_rt c") (simp_all only: if_True if_False)
qed

lemma kept_mark_routes: "labels_kept s (snd (mark_routes c s))"
  unfolding mark_routes_def using kept_snd_fold [OF kept_mark_routes_at, where st = "(False, s)"] by simp

lemma sound_swap_marks: "sound c S k s \<Longrightarrow> sound c S k (swap_marks s)"
  by (simp add: sound_def shape_ok_def swap_marks_def)

section \<open>The loops over routes and real-time transports\<close>

lemma clasz_passes:
  "\<not> (allowed_claszes c \<noteq> all_clasz_allowed \<and> \<not> is_allowed (allowed_claszes c) cl) \<Longrightarrow> clasz_ok c cl"
  by (auto simp: clasz_ok_def)

lemma sound_visit_route: "sound c S k s \<Longrightarrow> sound c S k (visit_route s)"
  unfolding visit_route_def by (rule sound_stats)

lemma loop_routes_sound:
  assumes "sound c S (Suc k) s" and ok: "tables_ok c" "starts_ok S" and k: "k < kMaxTransfers + 2"
  shows "sound c S (Suc k) (snd (loop_routes c (Suc k) s))"
  unfolding loop_routes_def
proof (rule fold_invariant [where P = "\<lambda>st. sound c S (Suc k) (snd st)"])
  fix r and st :: "bool \<times> raptor_state"
  assume r: "r \<in> set (set_bits (route_mark s))" and st: "sound c S (Suc k) (snd st)"
  have rn: "r < n_routes (r_tt c)" using r assms(1) by (simp add: sound_def shape_ok_def)
  obtain a s1 where st1: "st = (a, s1)" by (cases st)
  with st have s1: "sound c S (Suc k) s1" by simp
  show "sound c S (Suc k) (snd ((case st of (any_marked, s) \<Rightarrow>
        if allowed_claszes c \<noteq> all_clasz_allowed \<and> \<not> is_allowed (allowed_claszes c) (route_clasz (r_tt c) ! r)
        then (any_marked, s)
        else case section_filters (route_flags (r_tt c)) r (required_flags c) of
               None \<Rightarrow> (any_marked, s)
             | Some fs \<Rightarrow> (case update_route c (Suc k) r fs (visit_route s) of (m, s) \<Rightarrow> (any_marked \<or> m, s)))))"
  proof (cases "allowed_claszes c \<noteq> all_clasz_allowed \<and> \<not> is_allowed (allowed_claszes c) (route_clasz (r_tt c) ! r)")
    case True
    with s1 show ?thesis unfolding st1 by simp
  next
    case False
    note cl = clasz_passes [OF False]
    show ?thesis
    proof (cases "section_filters (route_flags (r_tt c)) r (required_flags c)")
      case None
      with s1 False show ?thesis unfolding st1 by simp
    next
      case (Some fs)
      from update_route_sound [OF sound_visit_route [OF s1] ok rn k cl Some] s1 False Some
      show ?thesis unfolding st1 by (simp add: case_prod_unfold)
    qed
  qed
qed (use assms(1) in simp)

lemma loop_rt_routes_sound:
  assumes "sound c S (Suc k) s" and ok: "tables_ok c" "with_rt c" and k: "k < kMaxTransfers + 2"
  shows "sound c S (Suc k) (snd (loop_rt_routes c (Suc k) s))"
  unfolding loop_rt_routes_def
proof (rule fold_invariant [where P = "\<lambda>st. sound c S (Suc k) (snd st)"])
  fix t and st :: "bool \<times> raptor_state"
  assume t: "t \<in> set (set_bits (rt_transport_mark s))" and st: "sound c S (Suc k) (snd st)"
  have tn: "t < n_rt_transports c" using t assms(1) by (simp add: sound_def shape_ok_def)
  obtain a s1 where st1: "st = (a, s1)" by (cases st)
  with st have s1: "sound c S (Suc k) s1" by simp
  show "sound c S (Suc k) (snd ((case st of (any_marked, s) \<Rightarrow>
        if allowed_claszes c \<noteq> all_clasz_allowed \<and> \<not> is_allowed (allowed_claszes c) (rt_section_clasz (r_rtt c) ! t ! 0)
        then (any_marked, s)
        else case section_filters (rt_transport_flags (r_rtt c)) t (required_flags c) of
               None \<Rightarrow> (any_marked, s)
             | Some fs \<Rightarrow> (case update_rt_transport c (Suc k) t fs (visit_route s) of (m, s) \<Rightarrow> (any_marked \<or> m, s)))))"
  proof (cases "allowed_claszes c \<noteq> all_clasz_allowed \<and> \<not> is_allowed (allowed_claszes c) (rt_section_clasz (r_rtt c) ! t ! 0)")
    case True
    with s1 show ?thesis unfolding st1 by simp
  next
    case False
    note cl = clasz_passes [OF False]
    show ?thesis
    proof (cases "section_filters (rt_transport_flags (r_rtt c)) t (required_flags c)")
      case None
      with s1 False show ?thesis unfolding st1 by simp
    next
      case (Some fs)
      from update_rt_transport_sound [OF sound_visit_route [OF s1] ok(1) tn ok(2) k cl Some] s1 False Some
      show ?thesis unfolding st1 by (simp add: case_prod_unfold)
    qed
  qed
qed (use assms(1) in simp)

section \<open>Rounds\<close>

text \<open>The relaxing part of a round, after the scans.\<close>

definition relax_all :: "raptor \<Rightarrow> nat \<Rightarrow> raptor_state \<Rightarrow> raptor_state" where
  "relax_all c k s = update_td_offsets c k (update_footpaths c k (update_intermodal_footpaths c k (update_transfers c k s)))"

lemma relax_all_sound:
  assumes "sound c S k s"
  shows "sound c S k (relax_all c k s)"
proof -
  have "steady c S k (tmp s) s" using assms by (simp add: steady_def)
  then have "steady c S k (tmp s) (relax_all c k s)"
    unfolding relax_all_def
    by (intro steady_td_offsets steady_footpaths steady_intermodal steady_transfers)
  then show ?thesis by (simp add: steady_def)
qed

lemma round_of_sound:
  assumes s: "sound c S k s" and ok: "tables_ok c" "starts_ok S" and k: "k < kMaxTransfers + 2"
  shows "sound c S (Suc k) (snd (round_of c (Suc k) s))"
proof -
  let ?k = "Suc k"
  define s1 where "s1 = snd (mark_routes c (dest_bounds c ?k (sync_best c ?k s)))"
  define s2 where "s2 = snd (loop_routes c ?k (swap_marks s1))"
  define s3 where "s3 = (if with_rt c then snd (loop_rt_routes c ?k s2) else s2)"
  define s4 where "s4 = s3\<lparr>route_mark := map (\<lambda>_. False) (route_mark s3),
                          rt_transport_mark := map (\<lambda>_. False) (rt_transport_mark s3)\<rparr>"
  have s1: "sound c S ?k s1"
    unfolding s1_def
    using sound_kept [OF sound_kept [OF sound_kept [OF sound_le [OF s, of ?k] kept_sync_best] kept_dest_bounds] kept_mark_routes]
    by simp
  have s2: "sound c S ?k s2"
    unfolding s2_def by (rule loop_routes_sound [OF sound_swap_marks [OF s1] ok k])
  have s3: "sound c S ?k s3"
    unfolding s3_def using loop_rt_routes_sound [OF s2 ok(1) _ k] s2 by simp
  have s4: "sound c S ?k s4"
    unfolding s4_def using s3 by (rule sound_kept) (simp add: labels_kept_def)
  have s5: "sound c S ?k (relax_all c ?k (swap_marks s4))"
    by (rule relax_all_sound [OF sound_swap_marks [OF s4]])
  have "snd (round_of c ?k s) \<in> {s1, s3, relax_all c ?k (swap_marks s4)}"
    unfolding round_of_def s4_def s3_def s2_def s1_def relax_all_def Let_def
    by (simp add: case_prod_unfold)
  with s1 s3 s5 show ?thesis by (elim insertE) auto
qed

lemma rounds_sound:
  assumes "sound c S k s" and ok: "tables_ok c" "starts_ok S" and "Suc k \<le> n" and n: "n \<le> kMaxTransfers + 2"
  shows "sound c S (n - 1) (rounds c [Suc k..<n] s)"
  using assms(1,4)
proof (induction "n - Suc k" arbitrary: k s)
  case 0
  then show ?case by (simp add: rounds_def sound_le)
next
  case (Suc m)
  then have i: "[Suc k..<n] = Suc k # [Suc (Suc k)..<n]" "Suc k < n" by (simp_all add: upt_conv_Cons)
  have k: "k < kMaxTransfers + 2" using i(2) n by simp
  obtain go s' where f: "round_of c (Suc k) s = (go, s')" by (cases "round_of c (Suc k) s")
  with round_of_sound [OF Suc.prems(1) ok k] have s': "sound c S (Suc k) s'" by simp
  have "sound c S (n - 1) (rounds c [Suc (Suc k)..<n] s')"
    by (rule Suc(1) [OF _ s']) (use Suc(2) i(2) in auto)
  moreover have "sound c S (n - 1) s'" using s' by (rule sound_le) (use i(2) in simp)
  ultimately show ?case unfolding rounds_def i(1) by (simp add: f)
qed

section \<open>The whole search\<close>

text \<open>A journey of the result set stands for a label: some destination reached with the number of rides
  it claims, at the time it claims.\<close>

definition journey_ok :: "raptor \<Rightarrow> (nat \<times> nat \<times> int) set \<Rightarrow> int \<Rightarrow> journey \<Rightarrow> bool" where
  "journey_ok c S start_time j \<longleftrightarrow>
     j_start_time j = start_time \<and> j_dest j < length (is_dest c) \<and> is_dest c ! j_dest j \<and>
     j_transfers j \<le> kMaxTransfers \<and>
     (\<exists>t. t \<noteq> kInvalid c \<and> j_dest_time j = to_unix c t \<and> reached c S (j_transfers j + 1) (j_dest j) (vias c) t)"

lemma mk_journey_ok:
  assumes "sound c S n s" "i < length (is_dest c)" "is_dest c ! i" "i < n_locations (r_tt c)"
    and k: "1 \<le> k" "k < kMaxTransfers + 2" and t: "at3 (round_times s) k i (vias c) \<noteq> kInvalid c"
  shows "journey_ok c S st (mk_journey c st i k (at3 (round_times s) k i (vias c)))"
proof -
  from sound_label [OF assms(1) k(2) assms(4) order_refl t]
  have r: "reached c S k i (vias c) (at3 (round_times s) k i (vias c))" .
  have tr: "(k - Suc 0) mod 256 = k - Suc 0" using k by (simp add: kMaxTransfers_def)
  from r t k assms(2,3) show ?thesis
    unfolding journey_ok_def mk_journey_def
    by (auto simp: tr to_unix_def kMaxTransfers_def intro!: exI [of _ "at3 (round_times s) k i (vias c)"])
qed

lemma add_results_ok:
  assumes "sound c S n s" "length (is_dest c) \<le> n_locations (r_tt c)" "end_k \<le> kMaxTransfers + 2"
    and "j \<in> set (add_results c st end_k s js)"
  shows "j \<in> set js \<or> journey_ok c S st j"
proof -
  let ?P = "\<lambda>rs. \<forall>j \<in> set rs. j \<in> set js \<or> journey_ok c S st j"
  have "?P (add_results c st end_k s js)"
    unfolding add_results_def
  proof (rule fold_invariant [where P = ?P], simp, rule fold_invariant [where P = ?P], assumption)
    fix i k rs assume i: "i \<in> set (set_bits (is_dest c))" and k: "k \<in> set [1..<end_k]" and rs: "?P rs"
    show "?P (let dest_time = at3 (round_times s) k i (vias c)
        in if dest_time \<noteq> kInvalid c then fst (pareto_add j_dominates rs (mk_journey c st i k dest_time)) else rs)"
    proof (cases "at3 (round_times s) k i (vias c) = kInvalid c")
      case False
      have "journey_ok c S st (mk_journey c st i k (at3 (round_times s) k i (vias c)))"
        by (rule mk_journey_ok [OF assms(1)]) (use i k assms(2,3) False in auto)
      with rs pareto_add_set [of j_dominates rs] False show ?thesis by (simp add: Let_def) blast
    qed (use rs in simp)
  qed
  with assms(4) show ?thesis by blast
qed

lemma end_round_bounds: "1 \<le> end_round m" "end_round m \<le> kMaxTransfers + 2"
  by (simp_all add: end_round_def)

lemma sound_limit_dest: "sound c S k s \<Longrightarrow> sound c S k (limit_dest c w s)"
  by (erule sound_kept) (simp add: labels_kept_def limit_dest_def)

lemma execute_sound:
  assumes "sound c S 0 s" "tables_ok c" "starts_ok S" "length (is_dest c) \<le> n_locations (r_tt c)"
    and ex: "execute c start_time max_transfers worst (s, js) = (s', js')"
  shows "sound c S (end_round max_transfers - 1) s' \<and> (\<forall>j \<in> set js'. j \<in> set js \<or> journey_ok c S start_time j)"
proof -
  let ?e = "end_round max_transfers"
  define s1 where "s1 = rounds c [1..<?e] (limit_dest c worst s)"
  have s1: "sound c S (?e - 1) s1"
    unfolding s1_def
    using rounds_sound [OF sound_limit_dest [OF assms(1)] assms(2,3), of ?e] end_round_bounds [of max_transfers] by simp
  have "s' = s1 \<and> (js' = js \<or> js' = add_results c start_time ?e s1 js)"
    using ex unfolding execute_def by (auto simp: Let_def s1_def split: if_splits)
  with s1 add_results_ok [OF s1 assms(4) end_round_bounds(2)] show ?thesis by blast
qed

section \<open>Starting a search\<close>

text \<open>Starts are given in unix minutes; the labels hold them relative to the base day.\<close>

definition start_label :: "raptor \<Rightarrow> nat \<times> int \<times> nat \<Rightarrow> nat \<times> nat \<times> int" where
  "start_label c st = (case st of (l, t, v) \<Rightarrow> (l, v, r_unix_to_delta c t))"

lemma start_labels_ok: "starts_ok (start_label c ` S)"
  by (auto simp: starts_ok_def start_label_def r_unix_to_delta_def unix_to_delta_def clamp_range)

lemma sound_more: "sound c S k s \<Longrightarrow> S \<subseteq> S' \<Longrightarrow> sound c S' k s"
  using journeys_mono [of S S' c] by (auto simp: sound_def tmp_sound_def rounds_sound_def)

lemma at2_invalid:
  assumes "i < length m" "v \<le> vias c"
  shows "at2 (map (\<lambda>_. replicate (Suc (vias c)) (kInvalid c)) m) i v = kInvalid c"
proof -
  have "replicate (Suc (vias c)) (kInvalid c) ! v = kInvalid c" using assms(2) by (intro nth_replicate) simp
  with assms(1) show ?thesis by (simp add: at2_def del: replicate_Suc)
qed

lemma next_start_fields:
  "tmp (next_start_time c s) = replicate (length (tmp s)) (kInvalidArray c)"
  "best (next_start_time c s) = replicate (length (best s)) (kInvalidArray c)"
  "round_times (next_start_time c s) = round_times s"
  "length (station_mark (next_start_time c s)) = length (station_mark s)"
  "length (prev_station_mark (next_start_time c s)) = length (prev_station_mark s)"
  "length (route_mark (next_start_time c s)) = length (route_mark s)"
  "length (rt_transport_mark (next_start_time c s)) = length (rt_transport_mark s)"
  by (simp_all add: next_start_time_def Let_def map_replicate_const del: replicate_Suc)

text \<open>Resetting makes the rows of the arrays as wide as the search needs them.\<close>

definition sized :: "raptor \<Rightarrow> raptor_state \<Rightarrow> bool" where
  "sized c s \<longleftrightarrow> shape_ok c (next_start_time c s)"

lemmas sized_simps = sized_def shape_ok_def next_start_fields

lemma shape_sized: "shape_ok c s \<Longrightarrow> sized c s"
  using rows_length [of "tmp s"] rows_length [of "best s"] by (auto simp: sized_simps)

lemma sized_reset: "sized c s \<Longrightarrow> sized c (reset_arrivals c s)"
  by (simp add: sized_simps reset_arrivals_def)

lemma sized_fresh: "sized c (reset_arrivals c (raptor_resize c s))"
  by (simp add: sized_simps reset_arrivals_def raptor_resize_def Let_def)

lemma next_start_time_sound:
  assumes "sized c s" "rounds_sound c S (round_times s)"
  shows "sound c S 0 (next_start_time c s)"
proof -
  have n: "length (tmp s) = n_locations (r_tt c)"
    using assms(1) by (auto simp: sized_simps dest: rows_length)
  have "tmp_sound c S 0 (tmp (next_start_time c s))"
    unfolding tmp_sound_def by (simp add: next_start_time_def Let_def at2_invalid n del: replicate_Suc)
  with assms show ?thesis by (simp add: sound_def sized_def next_start_fields)
qed

lemma reset_arrivals_rounds: "rounds_sound c S (round_times (reset_arrivals c s))"
proof -
  have "at3 (replicate (kMaxTransfers + 2) (replicate (n_locations (r_tt c)) (kInvalidArray c))) j l v = kInvalid c"
    if "j < kMaxTransfers + 2" "l < n_locations (r_tt c)" "v \<le> vias c" for j l v
  proof -
    have "replicate (vias c + 1) (kInvalid c) ! v = kInvalid c" using that(3) by (intro nth_replicate) simp
    with that(1,2) show ?thesis by (simp add: at3_def del: replicate_Suc)
  qed
  then show ?thesis by (auto simp: rounds_sound_def reset_arrivals_def)
qed

text \<open>The constructor: whatever the state held before, a search starts without labels.\<close>

lemma fresh_sound: "sound c {} 0 (next_start_time c (reset_arrivals c (raptor_resize c s)))"
  using sized_fresh reset_arrivals_rounds by (rule next_start_time_sound)

lemma add_start_sound:
  assumes "sound c (start_label c ` S) 0 s"
  shows "sound c (start_label c ` insert (l, t, v) S) 0 (add_start c l t v s)"
proof -
  let ?S = "start_label c ` insert (l, t, v) S" and ?x = "r_unix_to_delta c t"
  have s: "sound c ?S 0 s" using assms by (rule sound_more) auto
  have "(l, v, ?x) \<in> ?S" by (simp add: start_label_def)
  then have r: "reached c ?S 0 l v ?x" by (rule reached_riding_rt_riding_arrived.start)
  have s1: "sound c ?S 0 (upd_best l v (get_best (search_dir c) ?x (at2 (best s) l v)) s)" (is "sound _ _ _ ?s1")
    using s by (rule sound_upd_best)
  have "sound c ?S 0 (mark_station l (upd_round 0 l v (get_best (search_dir c) ?x (at3 (round_times ?s1) 0 l v)) ?s1))"
    by (rule sound_mark, rule upd_round_best_sound [OF s1 r])
  then show ?thesis by (simp add: add_start_def Let_def)
qed

section \<open>A small search\<close>

definition example_start :: raptor_state where
  "example_start = add_start example_raptor 0 600 0
     (next_start_time example_raptor (reset_arrivals example_raptor (raptor_resize example_raptor empty_state)))"


lemma example_tables: "tables_ok example_raptor"
proof -
  have "delta_norm (event_mam_r example_timetable 0 t s ev)" if "t < 2" "event_idx s ev < 4" for t s ev
  proof -
    have "\<forall>i < 4. delta_norm (pattern_offsets example_timetable ! i) \<and> delta_minutes (pattern_offsets example_timetable ! i) \<le> 25"
      by (simp add: example_timetable_def less_Suc_eq numeral_eq_Suc delta_norm_def delta_of_minutes_def mk_delta_def delta_minutes_def)
    moreover have "delta_norm (transport_first_dep example_timetable ! t) \<and> delta_minutes (transport_first_dep example_timetable ! t) \<le> 660"
      using that(1) by (auto simp: example_timetable_def less_Suc_eq numeral_eq_Suc delta_norm_def delta_minutes_def)
    moreover have "event_mam_r example_timetable 0 t s ev =
        delta_plus (transport_first_dep example_timetable ! t) (pattern_offsets example_timetable ! event_idx s ev)"
      by (simp add: event_mam_r_def example_timetable_def Let_def)
    ultimately show ?thesis using that(2) by (fastforce intro: delta_plus_norm(1))
  qed
  moreover have "r_tt example_raptor = example_timetable" "base example_raptor = 5" "n_rt_transports example_raptor = 0"
    by (simp_all add: example_raptor_def n_rt_transports_def)
  moreover have "n_routes example_timetable = 1" "route_stops example_raptor 0 = 3" "n_locations example_timetable = 3"
     "iv_list (rt_transports (tt_route_times example_timetable ! 0)) = [0, 1]"
    by (simp_all add: n_routes_def route_stops_def example_raptor_def example_timetable_def empty_timetable_def
      n_locations_def iv_list_def mk_iv_def upt_rec)
  moreover have "route_times_ok example_timetable 0"
    by (simp add: route_times_ok_def example_timetable_def Let_def mk_iv_def)
  moreover have "\<forall>x \<in> set (route_location_seq example_timetable ! 0). stop_loc (stop_of_value x) < 3"
    by (simp add: example_timetable_def) (simp add: mk_stop_def)
  ultimately show ?thesis unfolding tables_ok_def by simp
qed

section \<open>Properties\<close>

text \<open>Property C3. Soundness of the search. From a state whose labels are justified by the starts, the
  search ends in such a state, and every journey it adds to the result set is one that the rules
  derive: it starts at one of the starts, takes at most the rides it claims (their events in the
  right order, on running transports, boarding and alighting where the stop and the filters
  allow it, changing with the transfer time, footpaths and via stays in between) and reaches a
  destination with all vias visited at the time it claims. Pruning, marking, the cached times and
  the binary search for the earliest transport add no journey that does not exist.\<close>

theorem raptor_execute_sound:
  assumes "sound c (start_label c ` S) 0 s" "tables_ok c" "length (is_dest c) \<le> n_locations (r_tt c)"
  shows "sound c (start_label c ` S) (end_round max_transfers - 1) (fst (execute c start_time max_transfers worst (s, js))) \<and>
    (\<forall>j \<in> set (snd (execute c start_time max_transfers worst (s, js))).
       j \<in> set js \<or> journey_ok c (start_label c ` S) start_time j)"
  using execute_sound [OF assms(1,2) start_labels_ok assms(3)] prod.collapse by metis

theorem raptor_execute_sound_witness:
  "list_all (journey_ok example_raptor (start_label example_raptor ` {(0, 600, 0)}) 600)
     (snd (execute example_raptor 600 7 2000 (example_start, [])))"
proof -
  have "sound example_raptor (start_label example_raptor ` {(0, 600, 0)}) 0 example_start"
    unfolding example_start_def by (rule add_start_sound [where S = "{}"]) (simp add: fresh_sound)
  moreover have "length (is_dest example_raptor) \<le> n_locations (r_tt example_raptor)"
    by (simp add: example_raptor_def n_locations_def example_timetable_def)
  ultimately show ?thesis using raptor_execute_sound [OF _ example_tables, of "{(0, 600, 0)}" example_start 7 600 2000 "[]"]
    unfolding list.set(1) empty_iff simp_thms list_all_iff by blast
qed

text \<open>Whatever the reused arrays held before, a search constructed on them that resets the
  arrivals and adds its starts is in a state justified by exactly these starts.\<close>

theorem fresh_search_sound:
  "sound c (start_label c ` set starts) 0
     (fold (\<lambda>(l, t, v). add_start c l t v) starts (next_start_time c (reset_arrivals c (raptor_resize c s))))"
proof -
  have "sound c (start_label c ` (S \<union> set starts)) 0 (fold (\<lambda>(l, t, v). add_start c l t v) starts s1)"
    if "sound c (start_label c ` S) 0 s1" for S s1
    using that
  proof (induction starts arbitrary: S s1)
    case (Cons st starts)
    obtain l t v where st: "st = (l, t, v)" by (metis prod_cases3)
    from Cons.IH [OF add_start_sound [OF Cons.prems, of l t v]] show ?case by (simp add: st insert_commute)
  qed simp
  from this [of "{}"] fresh_sound show ?thesis by simp
qed

end
