(* ===== verification/Search.thy ===== *)
theory Search
  imports Start_Times Raptor_Correct "HOL-Library.Product_Lexorder"
begin

text \<open>
  \<open>include/nigiri/routing/search.h\<close>: the search over a departure interval, a class template over
  the algorithm. The template parameter \<open>Algo\<close> is the record \<open>algo\<close> of its operations; what the
  search needs from it is the locale \<open>search_algo\<close>, which the round-based search meets. Also
  \<open>enrich_with_slow_direct\<close> of \<open>src/routing/direct.cc\<close>. Logging, tracing spans and wall clock
  statistics are left out.
\<close>

section \<open>The algorithm and the state\<close>

text \<open>\<open>a_reconstruct\<close> returns whether it threw and the journey as it left it.\<close>

record 's algo =
  a_next_start_time :: "'s \<Rightarrow> 's"
  a_add_start :: "nat \<Rightarrow> int \<Rightarrow> nat \<Rightarrow> 's \<Rightarrow> 's"
  a_execute :: "int \<Rightarrow> nat \<Rightarrow> int \<Rightarrow> 's \<times> journey list \<Rightarrow> 's \<times> journey list"
  a_reconstruct :: "'s \<Rightarrow> query \<Rightarrow> journey \<Rightarrow> bool \<times> journey"
  a_reset_arrivals :: "'s \<Rightarrow> 's"

text \<open>What a search is given: \<open>sx_visit\<close> is the iteration order of the hash map of start offsets,
  \<open>sx_timeout i\<close> whether the time is up when the \<open>i\<close>-th interval has been searched, \<open>sx_direct t\<close>
  the legs the generator \<open>get_direct_journeys\<close> yields from time \<open>t\<close> (not modelled),
  \<open>sx_unique\<close> what \<open>utl::erase_duplicates\<close> makes of a vector.\<close>

record search =
  sx_dir :: direction
  sx_tt :: timetable
  sx_rtt :: "rt_timetable option"
  sx_q :: query
  sx_fastest_direct :: int
  sx_visit :: "shortest \<Rightarrow> shortest"
  sx_timeout :: "nat \<Rightarrow> bool"
  sx_direct :: "int \<Rightarrow> leg list list"
  sx_unique :: "journey list \<Rightarrow> journey list"

record 's search_state =
  ss_interval :: "int interval"
  ss_starts :: "start list"
  ss_results :: "journey list"
  ss_algo :: 's
  ss_extensions :: nat
  ss_skipped :: nat
  ss_reduction :: int
  ss_execute_fwd :: nat
  ss_execute_bwd :: nat

text \<open>Starts are compared field by field.\<close>

definition start_key :: "'a start_scheme \<Rightarrow> int \<times> int \<times> nat \<times> nat \<times> 'a" where
  "start_key s = (time_at_start s, time_at_stop s, start_stop s, start_v s, start.more s)"

instantiation start_ext :: (linorder) linorder
begin

definition less_eq_start_ext :: "'a start_scheme \<Rightarrow> 'a start_scheme \<Rightarrow> bool" where
  "less_eq_start_ext a b \<longleftrightarrow> start_key a \<le> start_key b"

definition less_start_ext :: "'a start_scheme \<Rightarrow> 'a start_scheme \<Rightarrow> bool" where
  "less_start_ext a b \<longleftrightarrow> start_key a < start_key b"

instance
proof
  fix a b :: "'a start_scheme"
  assume "a \<le> b" "b \<le> a"
  then have "start_key a = start_key b" by (simp add: less_eq_start_ext_def)
  then show "a = b" by (cases a; cases b) (simp add: start_key_def)
qed (auto simp: less_eq_start_ext_def less_start_ext_def)

end

section \<open>Helpers\<close>

definition is_ontrip :: "query \<Rightarrow> bool" where
  "is_ontrip q \<longleftrightarrow> (case q_start_time q of AtTime _ \<Rightarrow> True | InInterval _ \<Rightarrow> False)"

definition overlaps_start :: "timetable \<Rightarrow> query \<Rightarrow> nat \<Rightarrow> bool" where
  "overlaps_start tt q x = list_ex (\<lambda>o'. fold (\<lambda>eq overlaps. overlaps \<or> eq = x)
     (for_each_meta tt (q_start_match_mode q) (off_target o')) False) (q_start q)"

definition start_dest_overlap :: "timetable \<Rightarrow> query \<Rightarrow> bool" where
  "start_dest_overlap tt q =
     (if q_start_match_mode q = kIntermodal \<or> q_dest_match_mode q = kIntermodal then False
      else list_ex (\<lambda>o'. fold (\<lambda>eq overlaps. overlaps \<or> overlaps_start tt q eq)
             (for_each_meta tt (q_dest_match_mode q) (off_target o')) False) (q_destination q))"

definition n_results_in_interval :: "search \<Rightarrow> 's search_state \<Rightarrow> nat" where
  "n_results_in_interval x s =
     (if is_ontrip (sx_q x) then length (ss_results s)
      else length (filter (\<lambda>j. iv_contains (ss_interval s) (j_start_time j)) (ss_results s)))"

definition sort_starts :: "direction \<Rightarrow> start list \<Rightarrow> start list" where
  "sort_starts d starts = (if d = Forward then rev (sort starts) else sort starts)"

definition add_start_labels :: "search \<Rightarrow> start_time \<Rightarrow> bool \<Rightarrow> 's search_state \<Rightarrow> 's search_state" where
  "add_start_labels x st add_ontrip s =
     s\<lparr>ss_starts := sort_starts (sx_dir x)
         (get_starts (sx_dir x) (sx_tt x) (sx_rtt x) st (sx_q x) add_ontrip (sx_visit x) (ss_starts s))\<rparr>"

definition remove_ontrip_results :: "'s search_state \<Rightarrow> 's search_state" where
  "remove_ontrip_results s =
     s\<lparr>ss_results := filter (\<lambda>j. iv_contains (ss_interval s) (j_start_time j)) (ss_results s)\<rparr>"

section \<open>Searching one interval\<close>

definition worst_time_at_dest :: "search \<Rightarrow> int \<Rightarrow> int" where
  "worst_time_at_dest x start_time =
     start_time + (if sx_dir x = Forward then 1 else - 1) * i16 (min (sx_fastest_direct x) (q_max_travel_time (sx_q x)) + 1)"

definition reconstruct_one :: "search \<Rightarrow> 's algo \<Rightarrow> 's \<Rightarrow> int interval \<Rightarrow> journey \<Rightarrow> journey" where
  "reconstruct_one x a s itv j =
     (if \<not> j_is_reconstructed j \<and> \<not> j_error j \<and> (is_ontrip (sx_q x) \<or> iv_contains itv (j_start_time j)) \<and>
         travel_time j < sx_fastest_direct x
      then (case a_reconstruct a s (sx_q x) j of (threw, j') \<Rightarrow> if threw then j'\<lparr>j_error := True\<rparr> else j')
      else j)"

definition can_stop_early :: "search \<Rightarrow> bool" where
  "can_stop_early x \<longleftrightarrow>
     (sx_dir x = Forward \<and> q_extend_interval_earlier (sx_q x) \<and> \<not> q_extend_interval_later (sx_q x)) \<or>
     (sx_dir x = Backward \<and> \<not> q_extend_interval_earlier (sx_q x) \<and> q_extend_interval_later (sx_q x))"

text \<open>The callback for the starts with one time at the origin: run the algorithm, reconstruct.\<close>

definition run_starts :: "search \<Rightarrow> 's algo \<Rightarrow> start list \<Rightarrow> 's search_state \<Rightarrow> 's search_state" where
  "run_starts x a ss s =
     (let start_time = time_at_start (hd ss);
          al = fold (\<lambda>st. a_add_start a (start_stop st) (time_at_stop st) (start_v st)) ss
                 (a_next_start_time a (ss_algo s));
          (al, results) = a_execute a start_time (q_max_transfers (sx_q x)) (worst_time_at_dest x start_time)
                 (al, ss_results s)
      in s\<lparr>ss_algo := al, ss_results := map (reconstruct_one x a al (ss_interval s)) results,
           ss_execute_fwd := ss_execute_fwd s + (if sx_dir x = Forward then 1 else 0),
           ss_execute_bwd := ss_execute_bwd s + (if sx_dir x = Forward then 0 else 1)\<rparr>)"

definition stop_early :: "search \<Rightarrow> int \<Rightarrow> 's search_state \<Rightarrow> bool \<times> 's search_state" where
  "stop_early x start_time s =
     (if 0 < q_min_connection_count (sx_q x) \<and> q_min_connection_count (sx_q x) \<le> n_results_in_interval x s \<and>
         can_stop_early x
      then
        let itv = (if sx_dir x = Forward then mk_iv start_time (ito (ss_interval s))
                   else mk_iv (ifrom (ss_interval s)) (start_time + 1))
        in (True, s\<lparr>ss_interval := itv, ss_reduction := \<bar>iv_size (ss_interval s) - iv_size itv\<bar>\<rparr>)
      else (False, s))"

definition search_range :: "search \<Rightarrow> 's algo \<Rightarrow> start list \<Rightarrow> bool \<times> 's search_state \<Rightarrow> bool \<times> 's search_state" where
  "search_range x a ss st =
     (case st of (early_termination, s) \<Rightarrow>
        if early_termination then (True, s\<lparr>ss_skipped := ss_skipped s + length ss\<rparr>)
        else stop_early x (time_at_start (hd ss)) (run_starts x a ss s))"

definition search_interval :: "search \<Rightarrow> 's algo \<Rightarrow> 's search_state \<Rightarrow> 's search_state" where
  "search_interval x a s =
     snd (fold (search_range x a) (equal_ranges time_at_start (ss_starts s)) (False, s))"

section \<open>The search\<close>

definition search_done :: "search \<Rightarrow> nat \<Rightarrow> 's search_state \<Rightarrow> bool" where
  "search_done x i s \<longleftrightarrow> ss_results s = [] \<or> is_ontrip (sx_q x) \<or>
     q_min_connection_count (sx_q x) \<le> n_results_in_interval x s \<or> sx_timeout x i"

definition next_interval :: "search \<Rightarrow> 's search_state \<Rightarrow> int interval" where
  "next_interval x s = est_extension (external_interval (sx_tt x)) (sx_q x) (ss_interval s)
     (q_min_connection_count (sx_q x) - n_results_in_interval x s)"

definition reset_search :: "'s algo \<Rightarrow> 's search_state \<Rightarrow> 's search_state" where
  "reset_search a s = remove_ontrip_results (s\<lparr>ss_algo := a_reset_arrivals a (ss_algo s)\<rparr>)"

definition extend_interval :: "search \<Rightarrow> 's algo \<Rightarrow> int interval \<Rightarrow> 's search_state \<Rightarrow> 's search_state" where
  "extend_interval x a new s =
     (let old = ss_interval s;
          s = (if ifrom new \<noteq> ifrom old
               then let s = add_start_labels x (InInterval (mk_iv (ifrom new) (ifrom old))) (sx_dir x \<noteq> Forward) s
                    in if sx_dir x \<noteq> Forward then reset_search a s else s
               else s);
          s = (if ito new \<noteq> ito old
               then let s = add_start_labels x (InInterval (mk_iv (ito old) (ito new))) (sx_dir x = Forward) s
                    in if sx_dir x = Forward then reset_search a s else s
               else s)
      in s\<lparr>ss_interval := new, ss_extensions := ss_extensions s + 1\<rparr>)"

text \<open>The loop of \<open>execute\<close>; \<open>None\<close> is out of fuel.\<close>

fun search_loop :: "nat \<Rightarrow> nat \<Rightarrow> search \<Rightarrow> 's algo \<Rightarrow> 's search_state \<Rightarrow> 's search_state option" where
  "search_loop 0 i x a s = None"
| "search_loop (Suc fuel) i x a s =
     (let s = search_interval x a s
      in if search_done x i s then Some s
         else
           let new = next_interval x s; s = s\<lparr>ss_starts := []\<rparr>
           in if new = ss_interval s then Some s
              else search_loop fuel (Suc i) x a (extend_interval x a new s))"

definition keep_journey :: "search \<Rightarrow> int interval \<Rightarrow> journey \<Rightarrow> bool" where
  "keep_journey x itv j \<longleftrightarrow> \<not> (\<not> iv_contains itv (j_start_time j) \<or> sx_fastest_direct x \<le> travel_time j \<or>
     q_max_travel_time (sx_q x) < travel_time j)"

text \<open>\<open>enrich_with_slow_direct\<close>: journeys made of the legs of direct connections that start in the
  interval, up to a factor longer than the shortest of them.\<close>

definition direct_journey :: "direction \<Rightarrow> leg list \<Rightarrow> journey" where
  "direct_journey d legs =
     \<lparr>j_legs = legs,
      j_start_time = (if d = Forward then leg_dep_time (hd legs) else leg_arr_time (last legs)),
      j_dest_time = (if d = Forward then leg_arr_time (last legs) else leg_dep_time (hd legs)),
      j_dest = leg_to (last legs), j_transfers = 0, j_error = False, j_is_reconstructed = False\<rparr>"

fun collect_direct :: "direction \<Rightarrow> int interval \<Rightarrow> leg list list \<Rightarrow> int \<times> journey list \<Rightarrow> int \<times> journey list" where
  "collect_direct d itv [] acc = acc"
| "collect_direct d itv (legs # gen) acc =
     (let t_check = (if d = Forward then leg_dep_time (hd legs) else leg_arr_time (last legs));
          j = direct_journey d legs
      in if \<not> iv_contains itv t_check
         then (if (if d = Forward then ito itv \<le> t_check else t_check < ifrom itv) then acc
               else collect_direct d itv gen acc)
         else collect_direct d itv gen
           (if travel_time j < fst acc then travel_time j else fst acc, snd acc @ [j]))"

definition enrich_with_slow_direct :: "search \<Rightarrow> int interval \<Rightarrow> journey list \<Rightarrow> journey list" where
  "enrich_with_slow_direct x itv results =
     (if \<not> q_slow_direct (sx_q x) then results
      else
        let (shortest, direct) = collect_direct (sx_dir x) itv
              (sx_direct x (if sx_dir x = Forward then ifrom itv else ito itv)) (32767, []);
            factor = q_fastest_slow_direct_factor (sx_q x);
            direct = (if \<not> fp_less_int factor 1
              then filter (\<lambda>j. \<not> fp_less_int (f64_mul \<lparr>mant = shortest, expo = 0\<rparr> factor) (travel_time j)) direct
              else direct)
        in sx_unique x (results @ direct))"

definition pretrip_results :: "search \<Rightarrow> int interval \<Rightarrow> journey list \<Rightarrow> journey list" where
  "pretrip_results x itv js =
     (let js = enrich_with_slow_direct x itv (filter (keep_journey x itv) js)
      in sort_key (\<lambda>j. (j_start_time j, j_transfers j)) js)"

definition finish :: "search \<Rightarrow> 's search_state \<Rightarrow> 's search_state" where
  "finish x s =
     (let js = (if is_ontrip (sx_q x) then ss_results s else pretrip_results x (ss_interval s) (ss_results s))
      in s\<lparr>ss_results := filter j_is_reconstructed js\<rparr>)"

definition start_search :: "search \<Rightarrow> 's search_state \<Rightarrow> 's search_state" where
  "start_search x s =
     (let q = sx_q x;
          s = (if \<not> is_ontrip q
               then s\<lparr>ss_interval := est_initial (sx_dir x) (external_interval (sx_tt x)) q (ss_interval s)\<rparr> else s);
          s = s\<lparr>ss_starts := []\<rparr>
      in if iv_size (ss_interval s) \<noteq> 0 then add_start_labels x (InInterval (ss_interval s)) True s
         else add_start_labels x (q_start_time q) True s)"

definition search_execute :: "nat \<Rightarrow> search \<Rightarrow> 's algo \<Rightarrow> 's search_state \<Rightarrow> 's search_state option" where
  "search_execute fuel x a s =
     (let s = s\<lparr>ss_results := []\<rparr>
      in if start_dest_overlap (sx_tt x) (sx_q x) then Some s
         else map_option (finish x) (search_loop fuel 0 x a (start_search x s)))"

text \<open>The constructor: the interval searched first.\<close>

definition init_interval :: "query \<Rightarrow> int interval" where
  "init_interval q = (case q_start_time q of InInterval i \<Rightarrow> i | AtTime t \<Rightarrow> mk_iv t t)"

end
