(* ===== verification/Search_Correct.thy ===== *)
theory Search_Correct
  imports Search
begin

text \<open>
  What the search over an interval returns, when it ends, and that its journeys exist whenever the
  algorithm only reports journeys that do (the locale \<open>search_algo\<close>, interpreted on the
  round-based search).
\<close>

section \<open>The results\<close>

lemma collect_direct_raw:
  "\<forall>j \<in> set (snd acc). \<not> j_is_reconstructed j \<Longrightarrow> \<forall>j \<in> set (snd (collect_direct d itv gen acc)). \<not> j_is_reconstructed j"
  by (induction d itv gen acc rule: collect_direct.induct) (auto simp: Let_def direct_journey_def)

lemma enrich_raw:
  assumes "\<And>js. set (sx_unique x js) = set js"
  shows "{j \<in> set (enrich_with_slow_direct x itv js). j_is_reconstructed j} = {j \<in> set js. j_is_reconstructed j}"
proof -
  obtain sh ds where c: "collect_direct (sx_dir x) itv
      (sx_direct x (if sx_dir x = Forward then ifrom itv else ito itv)) (32767, []) = (sh, ds)" by fastforce
  have "\<forall>j \<in> set ds. \<not> j_is_reconstructed j"
    using collect_direct_raw [of "(32767, [])" "sx_dir x" itv] c by (metis empty_iff list.set(1) snd_conv)
  then show ?thesis
    unfolding enrich_with_slow_direct_def Let_def c by (auto simp: assms)
qed

lemma finish_set:
  assumes "\<And>js. set (sx_unique x js) = set js"
  shows "set (ss_results (finish x s)) = {j \<in> set (ss_results s). j_is_reconstructed j \<and>
    (is_ontrip (sx_q x) \<or> keep_journey x (ss_interval s) j)}"
  using enrich_raw [OF assms, where js = "filter (keep_journey x (ss_interval s)) (ss_results s)" and itv = "ss_interval s"]
  by (auto simp: finish_def pretrip_results_def Let_def)

text \<open>Property C29. What a search returns are the reconstructed journeys of the result set; for an interval
  query only those that start in the interval searched, are faster than the fastest direct
  connection and no longer than the maximal travel time, ordered by start time and then by
  transfers.\<close>

theorem search_results_exact:
  assumes "\<And>js. set (sx_unique x js) = set js"
  shows "set (ss_results (finish x s)) = {j \<in> set (ss_results s). j_is_reconstructed j \<and>
      (is_ontrip (sx_q x) \<or> iv_contains (ss_interval s) (j_start_time j) \<and> travel_time j < sx_fastest_direct x \<and>
        travel_time j \<le> q_max_travel_time (sx_q x))} \<and>
    (is_ontrip (sx_q x) \<or> sorted (map (\<lambda>j. (j_start_time j, j_transfers j)) (ss_results (finish x s))))"
proof -
  have "sorted (map (\<lambda>j. (j_start_time j, j_transfers j)) (ss_results (finish x s)))" if "\<not> is_ontrip (sx_q x)"
    using that by (simp add: finish_def pretrip_results_def Let_def sorted_filter)
  then show ?thesis using finish_set [OF assms] by (auto simp: keep_journey_def)
qed

definition example_journey :: journey where
  "example_journey = \<lparr>j_legs = [], j_start_time = 28810, j_dest_time = 28850, j_dest = 21, j_transfers = 1,
     j_error = False, j_is_reconstructed = True\<rparr>"

definition example_search :: search where
  "example_search = \<lparr>sx_dir = Forward, sx_tt = example_timetable, sx_rtt = None, sx_q = example_query,
     sx_fastest_direct = 32767, sx_visit = (\<lambda>m. m), sx_timeout = (\<lambda>_. False),
     sx_direct = (\<lambda>_. []), sx_unique = (\<lambda>js. js)\<rparr>"

definition example_state :: "'s \<Rightarrow> 's search_state" where
  "example_state a = \<lparr>ss_interval = mk_iv 28800 28860, ss_starts = [], ss_results = [example_journey], ss_algo = a,
     ss_extensions = 0, ss_skipped = 0, ss_reduction = 0, ss_execute_fwd = 0, ss_execute_bwd = 0\<rparr>"

theorem search_results_exact_witness: "set (ss_results (finish example_search (example_state ()))) = {example_journey}"
proof -
  have "\<not> is_ontrip (sx_q example_search)" by (simp add: is_ontrip_def example_query_def example_search_def)
  moreover have "iv_contains (ss_interval (example_state ())) (j_start_time example_journey)"
    by (simp add: example_state_def example_journey_def iv_contains_def mk_iv_def)
  moreover have "travel_time example_journey = 40" by (simp add: travel_time_def example_journey_def wrap_s16_id)
  moreover have "q_max_travel_time (sx_q example_search) = 7200" "sx_fastest_direct example_search = 32767"
    by (simp_all add: example_search_def example_query_def)
  moreover have "ss_results (example_state ()) = [example_journey]" "j_is_reconstructed example_journey"
    by (simp_all add: example_state_def example_journey_def)
  moreover have u: "set (sx_unique example_search js) = set js" for js by (simp add: example_search_def)
  ultimately show ?thesis unfolding search_results_exact [OF u, THEN conjunct1] by auto
qed

text \<open>Property C32. The slow direct connections a query can ask for never reach the caller of the interval
  search: they enter the result set as journeys that are not reconstructed, and the last step of
  the search erases exactly these. The result is the same as without asking.\<close>

theorem slow_direct_lost:
  assumes "\<And>js. set (sx_unique x js) = set js"
  shows "set (ss_results (finish x s)) =
    set (ss_results (finish (x\<lparr>sx_q := (sx_q x)\<lparr>q_slow_direct := False\<rparr>\<rparr>) s))"
proof -
  have u: "set (sx_unique (x\<lparr>sx_q := (sx_q x)\<lparr>q_slow_direct := False\<rparr>\<rparr>) js) = set js" for js
    using assms by simp
  show ?thesis unfolding finish_set [OF assms] finish_set [OF u] by (auto simp: keep_journey_def is_ontrip_def)
qed

definition direct_leg :: leg where
  "direct_leg = \<lparr>leg_from = 20, leg_to = 21, leg_dep_time = 28820, leg_arr_time = 28830,
     leg_uses = UsesFootpath \<lparr>fp_target = 21, fp_duration = 10\<rparr>\<rparr>"

theorem slow_direct_lost_witness:
  "let x = example_search\<lparr>sx_direct := \<lambda>_. [[direct_leg]], sx_q := example_query\<lparr>q_slow_direct := True\<rparr>\<rparr>
   in direct_journey Forward [direct_leg] \<in> set (enrich_with_slow_direct x (mk_iv 28800 28860) []) \<and>
      direct_journey Forward [direct_leg] \<notin> set (ss_results (finish x (example_state ())))"
proof -
  let ?x = "example_search\<lparr>sx_direct := \<lambda>_. [[direct_leg]], sx_q := example_query\<lparr>q_slow_direct := True\<rparr>\<rparr>"
  have u: "set (sx_unique ?x js) = set js" for js by (simp add: example_search_def)
  have "direct_journey Forward [direct_leg] \<in> set (enrich_with_slow_direct ?x (mk_iv 28800 28860) [])"
    by (simp add: enrich_with_slow_direct_def example_search_def example_query_def direct_journey_def direct_leg_def
        mk_iv_def iv_contains_def travel_time_def wrap_s16_id fp_less_int_def f64_mul_def fp_round_def bit_width.simps)
  moreover have "direct_journey Forward [direct_leg] \<notin> set (ss_results (finish ?x (example_state ())))"
    unfolding slow_direct_lost [OF u, of "example_state ()"]
    by (simp add: finish_def direct_journey_def)
  ultimately show ?thesis by simp
qed

section \<open>The contract of an algorithm\<close>

text \<open>\<open>leaves_from d t st\<close>: the start leaves the origin no earlier than \<open>t\<close> (no later, searching backward).\<close>

definition leaves_from :: "direction \<Rightarrow> int \<Rightarrow> start \<Rightarrow> bool" where
  "leaves_from d t st \<longleftrightarrow> start_is_better_or_eq d t (time_at_start st)"

lemma leaves_from_trans:
  "leaves_from d (time_at_start u) st \<Longrightarrow> leaves_from d t u \<Longrightarrow> leaves_from d t st"
  by (auto simp: leaves_from_def start_is_better_or_eq_def split: if_splits)

lemma leaves_from_refl: "leaves_from d (time_at_start u) u"
  by (simp add: leaves_from_def start_is_better_or_eq_def)

text \<open>\<open>idle S s\<close> and \<open>ready S s\<close>: the state holds nothing but what follows from the starts \<open>S\<close>, between
  two runs and before a run. \<open>ok S t j\<close>: the journey exists for a start at \<open>t\<close>, given \<open>S\<close>.\<close>

locale search_algo =
  fixes a :: "'s algo"
    and idle ready :: "start set \<Rightarrow> 's \<Rightarrow> bool"
    and ok :: "start set \<Rightarrow> int \<Rightarrow> journey \<Rightarrow> bool"
  assumes next_ready: "idle S s \<Longrightarrow> ready S (a_next_start_time a s)"
    and add_ready: "ready S s \<Longrightarrow>
      ready (insert st S) (a_add_start a (start_stop st) (time_at_stop st) (start_v st) s)"
    and execute_idle: "ready S s \<Longrightarrow> a_execute a t m w (s, js) = (s', js') \<Longrightarrow>
      idle S s' \<and> (\<forall>j \<in> set js'. j \<in> set js \<or> ok S t j)"
    and reset_idle: "idle S s \<Longrightarrow> idle {} (a_reset_arrivals a s)"
    and ok_mono: "ok S t j \<Longrightarrow> S \<subseteq> S' \<Longrightarrow> ok S' t j"
    and ok_start_time: "ok S t j \<Longrightarrow> j_start_time j = t"
    and ok_reconstruct: "ok S t j \<Longrightarrow> ok S t (snd (a_reconstruct a s q j))"
    and ok_error: "ok S t j \<Longrightarrow> ok S t (j\<lparr>j_error := b\<rparr>)"
begin

text \<open>Every journey exists for its start time using only starts that leave no earlier.\<close>

definition justified :: "direction \<Rightarrow> start set \<Rightarrow> journey list \<Rightarrow> bool" where
  "justified d S js \<longleftrightarrow> (\<forall>j \<in> set js. ok {st \<in> S. leaves_from d (j_start_time j) st} (j_start_time j) j)"

lemma justified_mono: "justified d S js \<Longrightarrow> S \<subseteq> S' \<Longrightarrow> justified d S' js"
  unfolding justified_def by (intro ballI, rule ok_mono, erule (1) bspec, blast)

lemma justified_subset: "justified d S js \<Longrightarrow> set js' \<subseteq> set js \<Longrightarrow> justified d S js'"
  unfolding justified_def by blast

lemma justified_Nil: "justified d S []"
  by (simp add: justified_def)

lemma reconstruct_one_ok:
  assumes "ok S (j_start_time j) j"
  shows "ok S (j_start_time (reconstruct_one x a s itv j)) (reconstruct_one x a s itv j)"
proof -
  obtain b j' where r: "a_reconstruct a s (sx_q x) j = (b, j')" by fastforce
  have j': "ok S (j_start_time j) j'" using ok_reconstruct [OF assms, of s "sx_q x"] r by simp
  have t: "j_start_time j' = j_start_time j" using ok_start_time [OF j'] .
  show ?thesis
    unfolding reconstruct_one_def using assms j' ok_error [OF j', of True] r t by simp
qed

lemma reconstruct_one_time:
  assumes "ok S (j_start_time j) j"
  shows "j_start_time (reconstruct_one x a s itv j) = j_start_time j"
proof -
  obtain b j' where r: "a_reconstruct a s (sx_q x) j = (b, j')" by fastforce
  have "j_start_time j' = j_start_time j"
    using ok_start_time [OF ok_reconstruct [OF assms, of s "sx_q x"]] r by simp
  then show ?thesis unfolding reconstruct_one_def using r by simp
qed

lemma justified_reconstruct: "justified d S js \<Longrightarrow> justified d S (map (reconstruct_one x a s itv) js)"
  unfolding justified_def
proof
  fix j' assume js: "\<forall>j \<in> set js. ok {st \<in> S. leaves_from d (j_start_time j) st} (j_start_time j) j"
    and j': "j' \<in> set (map (reconstruct_one x a s itv) js)"
  then obtain j where j: "j' = reconstruct_one x a s itv j" "j \<in> set js" by auto
  from js j(2) have o: "ok {st \<in> S. leaves_from d (j_start_time j) st} (j_start_time j) j" by blast
  from reconstruct_one_ok [OF o, of x s itv] show "ok {st \<in> S. leaves_from d (j_start_time j') st} (j_start_time j') j'"
    unfolding j(1) reconstruct_one_time [OF o] .
qed

lemma ready_starts:
  "ready S s \<Longrightarrow> ready (S \<union> set ss)
     (fold (\<lambda>st. a_add_start a (start_stop st) (time_at_stop st) (start_v st)) ss s)"
proof (induction ss arbitrary: S s)
  case (Cons st ss)
  from Cons.IH [OF add_ready [OF Cons.prems, of st]] show ?case by (simp add: Un_insert_left)
qed simp

text \<open>One run.\<close>

lemma run_starts_ok:
  assumes "idle S (ss_algo s)" "justified d T (ss_results s)" "S \<union> set ss \<subseteq> T"
    and all: "\<forall>st \<in> S \<union> set ss. leaves_from d (time_at_start (hd ss)) st"
  shows "idle (S \<union> set ss) (ss_algo (run_starts x a ss s)) \<and> justified d T (ss_results (run_starts x a ss s))"
proof -
  define al where "al = fold (\<lambda>st. a_add_start a (start_stop st) (time_at_stop st) (start_v st)) ss
      (a_next_start_time a (ss_algo s))"
  obtain al' js where ex: "a_execute a (time_at_start (hd ss)) (q_max_transfers (sx_q x))
      (worst_time_at_dest x (time_at_start (hd ss))) (al, ss_results s) = (al', js)" by fastforce
  have "ready (S \<union> set ss) al" unfolding al_def by (rule ready_starts [OF next_ready [OF assms(1)]])
  from execute_idle [OF this ex] have al': "idle (S \<union> set ss) al'"
    and js: "\<And>j. j \<in> set js \<Longrightarrow> j \<in> set (ss_results s) \<or> ok (S \<union> set ss) (time_at_start (hd ss)) j" by blast+
  have "justified d T js"
    unfolding justified_def
  proof
    fix j assume j: "j \<in> set js"
    show "ok {st \<in> T. leaves_from d (j_start_time j) st} (j_start_time j) j"
    proof (cases "j \<in> set (ss_results s)")
      case True
      with assms(2) show ?thesis unfolding justified_def by blast
    next
      case False
      with js [OF j] have new: "ok (S \<union> set ss) (time_at_start (hd ss)) j" by blast
      note t = ok_start_time [OF new]
      have "S \<union> set ss \<subseteq> {st \<in> T. leaves_from d (j_start_time j) st}" unfolding t using all assms(3) by blast
      from ok_mono [OF new this] t show ?thesis by simp
    qed
  qed
  then have "justified d T (map (reconstruct_one x a al' (ss_interval s)) js)"
    by (rule justified_reconstruct)
  moreover have "ss_algo (run_starts x a ss s) = al'"
    "ss_results (run_starts x a ss s) = map (reconstruct_one x a al' (ss_interval s)) js"
    by (simp_all add: run_starts_def Let_def al_def [symmetric] ex)
  ultimately show ?thesis using al' by simp
qed

end

section \<open>The order of the starts\<close>

definition in_order :: "direction \<Rightarrow> start list \<Rightarrow> bool" where
  "in_order d starts \<longleftrightarrow> sorted_wrt (\<lambda>u v. leaves_from d (time_at_start v) u) starts"

lemma start_less_eq_time: "(u :: start) \<le> v \<Longrightarrow> time_at_start u \<le> time_at_start v"
  by (auto simp: less_eq_start_ext_def start_key_def less_eq_prod_def)

lemma sort_starts_in_order: "in_order d (sort_starts d starts)"
proof -
  have s: "sorted_wrt (\<le>) (sort starts)" by simp
  have "sorted_wrt (\<lambda>u v. time_at_start u \<le> time_at_start v) (sort starts)"
    by (rule sorted_wrt_mono_rel [OF _ s]) (rule start_less_eq_time)
  then show ?thesis
    by (cases d) (simp_all add: in_order_def sort_starts_def leaves_from_def start_is_better_or_eq_def sorted_wrt_rev)
qed

lemma sort_starts_set [simp]: "set (sort_starts d starts) = set starts"
  by (simp add: sort_starts_def)

text \<open>What the loop over the ranges needs.\<close>

fun ranges_ok :: "direction \<Rightarrow> start list list \<Rightarrow> bool" where
  "ranges_ok d [] = True"
| "ranges_ok d (r # rs) \<longleftrightarrow> (\<forall>u \<in> set r. leaves_from d (time_at_start (hd r)) u) \<and>
     (\<forall>r' \<in> set rs. \<forall>u \<in> set r. leaves_from d (time_at_start (hd r')) u) \<and> ranges_ok d rs"

lemma equal_ranges_hd: "r \<in> set (equal_ranges key xs) \<Longrightarrow> r \<noteq> [] \<and> hd r \<in> set xs"
proof (induction key xs rule: equal_ranges.induct)
  case (2 key x xs)
  then show ?case using set_dropWhileD by fastforce
qed simp

lemma equal_ranges_ok: "in_order d starts \<Longrightarrow> ranges_ok d (equal_ranges time_at_start starts)"
proof (induction "time_at_start :: start \<Rightarrow> int" starts rule: equal_ranges.induct)
  case (2 x xs)
  let ?r = "x # takeWhile (\<lambda>y. time_at_start y = time_at_start x) xs"
  let ?rest = "dropWhile (\<lambda>y. time_at_start y = time_at_start x) xs"
  have split: "?r @ ?rest = x # xs" by simp
  have s: "sorted_wrt (\<lambda>u v. leaves_from d (time_at_start v) u) (?r @ ?rest)"
    unfolding split using 2(2) by (simp only: in_order_def)
  have "in_order d ?rest" unfolding in_order_def using s unfolding sorted_wrt_append by blast
  from 2(1) [OF this] have "ranges_ok d (equal_ranges time_at_start ?rest)" .
  moreover have "leaves_from d (time_at_start (hd r')) u"
    if "r' \<in> set (equal_ranges time_at_start ?rest)" "u \<in> set ?r" for r' u
    using s equal_ranges_hd [OF that(1)] that(2) unfolding sorted_wrt_append by blast
  moreover have "leaves_from d (time_at_start (hd ?r)) u" if "u \<in> set ?r" for u
    using that set_takeWhileD by (fastforce simp: leaves_from_def start_is_better_or_eq_def)
  ultimately show ?case by simp
qed simp

section \<open>The interval and the starts\<close>

definition start_within :: "direction \<Rightarrow> int interval \<Rightarrow> start \<Rightarrow> bool" where
  "start_within d itv st \<longleftrightarrow>
     (if d = Forward then ifrom itv \<le> time_at_start st \<and> time_at_start st \<le> ito itv
      else ifrom itv - 1 \<le> time_at_start st \<and> time_at_start st < ito itv)"

definition query_start :: "search \<Rightarrow> start \<Rightarrow> bool" where
  "query_start x st \<longleftrightarrow> (\<exists>tm add_ontrip prev.
     st \<in> set (get_starts (sx_dir x) (sx_tt x) (sx_rtt x) tm (sx_q x) add_ontrip (sx_visit x) prev) - set prev)"

lemma start_in_within: "start_in d iv b st \<Longrightarrow> iv_valid iv \<Longrightarrow> start_within d iv st"
  by (cases d) (auto simp: start_in_def start_within_def iv_contains_def iv_valid_def)

lemma start_within_mono: "start_within d iv st \<Longrightarrow> iv_contains_iv e iv \<Longrightarrow> start_within d e st"
  by (auto simp: start_within_def iv_contains_iv_def split: if_splits)

lemma add_start_labels_starts:
  "u \<in> set (ss_starts (add_start_labels x (InInterval iv) b s)) \<Longrightarrow>
   u \<in> set (ss_starts s) \<or> (start_in (sx_dir x) iv b u \<and> query_start x u)"
  using get_starts_in [of "sx_dir x" iv b "ss_starts s" "sx_tt x" "sx_rtt x" "sx_q x" "sx_visit x"]
  unfolding query_start_def add_start_labels_def adds_def by (simp; metis DiffI)

lemma add_start_labels_query:
  "u \<in> set (ss_starts (add_start_labels x tm b s)) \<Longrightarrow> u \<in> set (ss_starts s) \<or> query_start x u"
  unfolding query_start_def add_start_labels_def by (simp; metis DiffI)

lemma add_start_labels_order: "in_order (sx_dir x) (ss_starts (add_start_labels x tm b s))"
  by (simp add: add_start_labels_def sort_starts_in_order)

lemma add_start_labels_frame [simp]:
  "ss_algo (add_start_labels x tm b s) = ss_algo s" "ss_results (add_start_labels x tm b s) = ss_results s"
  "ss_interval (add_start_labels x tm b s) = ss_interval s"
  by (simp_all add: add_start_labels_def)

lemma reset_search_frame [simp]:
  "ss_algo (reset_search a s) = a_reset_arrivals a (ss_algo s)" "ss_starts (reset_search a s) = ss_starts s"
  "ss_interval (reset_search a s) = ss_interval s"
  by (simp_all add: reset_search_def remove_ontrip_results_def)

lemma reset_search_results: "set (ss_results (reset_search a s)) \<subseteq> set (ss_results s)"
  by (auto simp: reset_search_def remove_ontrip_results_def)

lemma run_starts_interval [simp]: "ss_interval (run_starts x a ss s) = ss_interval s"
  by (simp add: run_starts_def Let_def case_prod_unfold)

lemma skip_ranges:
  "snd (fold (search_range x a) rs (True, s)) = s\<lparr>ss_skipped := ss_skipped s + sum_list (map length rs)\<rparr>"
  by (induction rs arbitrary: s) (simp_all add: search_range_def add.assoc)

text \<open>The part of the invariant that does not speak of the algorithm.\<close>

definition starts_ready :: "search \<Rightarrow> start set \<Rightarrow> 's search_state \<Rightarrow> bool" where
  "starts_ready x S s \<longleftrightarrow> in_order (sx_dir x) (ss_starts s) \<and> set (ss_starts s) \<subseteq> Collect (query_start x) \<and>
     (\<forall>st \<in> S. \<forall>u \<in> set (ss_starts s). leaves_from (sx_dir x) (time_at_start u) st) \<and>
     (is_ontrip (sx_q x) \<or> (\<forall>u \<in> set (ss_starts s). start_within (sx_dir x) (ss_interval s) u))"

definition limits_ok :: "search \<Rightarrow> int interval \<Rightarrow> bool" where
  "limits_ok x itv \<longleftrightarrow> is_ontrip (sx_q x) \<or>
     (within_limits (external_interval (sx_tt x)) (sx_q x) itv \<and> iv_valid itv)"

lemma limits_shrink:
  "limits_ok x itv \<Longrightarrow> ifrom itv \<le> f \<Longrightarrow> t \<le> ito itv \<Longrightarrow> f \<le> t \<Longrightarrow> limits_ok x (mk_iv f t)"
  by (cases "q_max_interval (sx_q x)") (auto simp: limits_ok_def within_limits_def iv_contains_iv_def iv_valid_def mk_iv_def)

lemma stop_early_cases:
  assumes "stop_early x t s = (e, s')" "limits_ok x (ss_interval s)"
    and "is_ontrip (sx_q x) \<or> start_within (sx_dir x) (ss_interval s) u" "time_at_start u = t"
  shows "(e = False \<and> s' = s) \<or>
    (e \<and> ss_algo s' = ss_algo s \<and> ss_results s' = ss_results s \<and> limits_ok x (ss_interval s') \<and>
      (\<forall>st. (is_ontrip (sx_q x) \<or> start_within (sx_dir x) (ss_interval s) st) \<longrightarrow> leaves_from (sx_dir x) t st \<longrightarrow>
        is_ontrip (sx_q x) \<or> start_within (sx_dir x) (ss_interval s') st))"
proof (cases e)
  case False
  with assms(1) show ?thesis by (simp add: stop_early_def Let_def split: if_splits)
next
  case True
  define itv where "itv = (if sx_dir x = Forward then mk_iv t (ito (ss_interval s))
      else mk_iv (ifrom (ss_interval s)) (t + 1))"
  from True assms(1) have s': "ss_algo s' = ss_algo s" "ss_results s' = ss_results s" "ss_interval s' = itv"
    by (auto simp: stop_early_def Let_def itv_def split: if_splits)
  have "limits_ok x itv"
  proof (cases "is_ontrip (sx_q x)")
    case False
    with assms(3,4) limits_shrink [OF assms(2)] show ?thesis
      by (auto simp: itv_def start_within_def split: if_splits)
  qed (simp add: limits_ok_def)
  moreover have "start_within (sx_dir x) itv st"
    if "start_within (sx_dir x) (ss_interval s) st" "leaves_from (sx_dir x) t st" for st
    using that by (auto simp: itv_def start_within_def leaves_from_def start_is_better_or_eq_def mk_iv_def)
  ultimately show ?thesis using True s' by auto
qed

lemma limits_grow:
  assumes "limits_ok x itv" "\<not> is_ontrip (sx_q x)" "grows_to (external_interval (sx_tt x)) (sx_q x) itv e"
  shows "iv_contains_iv e itv \<and> limits_ok x e"
proof -
  have "iv_contains_iv e itv \<and> within_limits (external_interval (sx_tt x)) (sx_q x) e"
    using assms by (intro grows_to_sound) (simp_all add: limits_ok_def)
  moreover from this assms(1,2) have "iv_valid e" by (auto simp: limits_ok_def iv_contains_iv_def iv_valid_def)
  ultimately show ?thesis by (simp add: limits_ok_def)
qed

text \<open>The starts of an extension lie in the parts that are new.\<close>

lemma extend_interval_starts:
  assumes "ss_starts s = []" "u \<in> set (ss_starts (extend_interval x a new s))"
  shows "query_start x u \<and>
    (start_in (sx_dir x) (mk_iv (ifrom new) (ifrom (ss_interval s))) (sx_dir x \<noteq> Forward) u \<and>
       ifrom new \<noteq> ifrom (ss_interval s) \<or>
     start_in (sx_dir x) (mk_iv (ito (ss_interval s)) (ito new)) (sx_dir x = Forward) u \<and>
       ito new \<noteq> ito (ss_interval s))"
  using assms
  by (auto simp: extend_interval_def Let_def split: if_splits dest!: add_start_labels_starts)

lemma est_clamp_fixed:
  assumes "within_limits external q itv" "iv_valid itv"
  shows "ito new = ito itv \<Longrightarrow> ito (est_clamp external q new) = ito itv"
    and "ifrom new = ifrom itv \<Longrightarrow> ifrom (est_clamp external q new) = ifrom itv"
  using assms
  by (cases "q_max_interval q";
      auto simp: within_limits_def est_clamp_def Let_def iv_clamp_def std_clamp_def iv_contains_iv_def iv_valid_def)+

text \<open>An end that must not be extended stays.\<close>

lemma next_interval_fixed:
  assumes "limits_ok x (ss_interval s)" "\<not> is_ontrip (sx_q x)"
  shows "\<not> q_extend_interval_later (sx_q x) \<Longrightarrow> ito (next_interval x s) = ito (ss_interval s)"
    and "\<not> q_extend_interval_earlier (sx_q x) \<Longrightarrow> ifrom (next_interval x s) = ifrom (ss_interval s)"
  using assms est_clamp_fixed [of "external_interval (sx_tt x)" "sx_q x" "ss_interval s"]
  by (auto simp: limits_ok_def next_interval_def est_extension_def Let_def can_extend_both_dir_def
      can_extend_earlier_def can_extend_later_def)

section \<open>Every journey exists\<close>

context search_algo
begin

text \<open>The invariant: the algorithm holds what follows from the starts \<open>S\<close>, which lie in the interval, and
  all journeys exist for starts of the query.\<close>

definition search_inv :: "search \<Rightarrow> start set \<Rightarrow> 's search_state \<Rightarrow> bool" where
  "search_inv x S s \<longleftrightarrow> idle S (ss_algo s) \<and> S \<subseteq> Collect (query_start x) \<and>
     justified (sx_dir x) (Collect (query_start x)) (ss_results s) \<and> limits_ok x (ss_interval s) \<and>
     (is_ontrip (sx_q x) \<or> (\<forall>st \<in> S. start_within (sx_dir x) (ss_interval s) st))"

definition range_ready :: "search \<Rightarrow> start set \<Rightarrow> int interval \<Rightarrow> start list \<Rightarrow> bool" where
  "range_ready x S itv r \<longleftrightarrow> r \<noteq> [] \<and> set r \<subseteq> Collect (query_start x) \<and>
     (\<forall>st \<in> S. leaves_from (sx_dir x) (time_at_start (hd r)) st) \<and>
     (\<forall>u \<in> set r. is_ontrip (sx_q x) \<or> start_within (sx_dir x) itv u)"

lemma run_starts_inv:
  assumes "search_inv x S s" "range_ready x S (ss_interval s) r"
    and "\<forall>u \<in> set r. leaves_from (sx_dir x) (time_at_start (hd r)) u"
  shows "search_inv x (S \<union> set r) (run_starts x a r s)"
proof -
  have "idle (S \<union> set r) (ss_algo (run_starts x a r s)) \<and>
      justified (sx_dir x) (Collect (query_start x)) (ss_results (run_starts x a r s))"
    by (rule run_starts_ok) (use assms in \<open>auto simp: search_inv_def range_ready_def\<close>)
  with assms(1,2) show ?thesis by (auto simp: search_inv_def range_ready_def)
qed

lemma search_ranges_inv:
  assumes "ranges_ok (sx_dir x) rs" "search_inv x S s" "\<forall>r \<in> set rs. range_ready x S (ss_interval s) r"
  shows "\<exists>S'. search_inv x S' (snd (fold (search_range x a) rs (False, s)))"
  using assms
proof (induction rs arbitrary: S s)
  case (Cons r rs)
  let ?t = "time_at_start (hd r)"
  have r: "range_ready x S (ss_interval s) r" using Cons.prems(3) by simp
  have own: "\<forall>u \<in> set r. leaves_from (sx_dir x) ?t u" using Cons.prems(1) by simp
  define s1 where "s1 = run_starts x a r s"
  have s1: "search_inv x (S \<union> set r) s1" unfolding s1_def using Cons.prems(2) r own by (rule run_starts_inv)
  have itv: "ss_interval s1 = ss_interval s" by (simp add: s1_def)
  obtain e s2 where s2: "stop_early x ?t s1 = (e, s2)" by fastforce
  have step: "fold (search_range x a) (r # rs) (False, s) = fold (search_range x a) rs (e, s2)"
    by (simp add: search_range_def s1_def [symmetric] s2)
  have "hd r \<in> set r" using r by (simp add: range_ready_def)
  then have "is_ontrip (sx_q x) \<or> start_within (sx_dir x) (ss_interval s1) (hd r)"
    using r unfolding itv range_ready_def by blast
  from stop_early_cases [OF s2 _ this refl] s1 consider
      "e = False" "s2 = s1"
    | "e" "ss_algo s2 = ss_algo s1" "ss_results s2 = ss_results s1" "limits_ok x (ss_interval s2)"
      "\<forall>st. (is_ontrip (sx_q x) \<or> start_within (sx_dir x) (ss_interval s1) st) \<longrightarrow> leaves_from (sx_dir x) ?t st \<longrightarrow>
        is_ontrip (sx_q x) \<or> start_within (sx_dir x) (ss_interval s2) st"
    unfolding search_inv_def by blast
  then show ?case
  proof cases
    case 1
    have "range_ready x (S \<union> set r) (ss_interval s1) r'" if "r' \<in> set rs" for r'
      using Cons.prems(1,3) that by (auto simp: range_ready_def itv)
    with Cons.IH [OF _ s1] Cons.prems(1) show ?thesis unfolding step 1 by simp
  next
    case 2
    have "\<forall>st \<in> S \<union> set r. leaves_from (sx_dir x) ?t st" using r own by (auto simp: range_ready_def)
    with 2 s1 have "search_inv x (S \<union> set r) s2" by (auto simp: search_inv_def)
    then have "search_inv x (S \<union> set r) (s2\<lparr>ss_skipped := n\<rparr>)" for n by (simp add: search_inv_def)
    then show ?thesis using 2(1) unfolding step by (auto simp: skip_ranges)
  qed
qed auto

lemma ranges_ready:
  assumes "starts_ready x S s"
  shows "\<forall>r \<in> set (equal_ranges time_at_start (ss_starts s)). range_ready x S (ss_interval s) r"
proof
  fix r assume r: "r \<in> set (equal_ranges time_at_start (ss_starts s))"
  have "set r \<subseteq> set (ss_starts s)"
    using r equal_ranges_concat [of time_at_start "ss_starts s"] by (metis UN_upper set_concat)
  with assms equal_ranges_hd [OF r] show "range_ready x S (ss_interval s) r"
    by (auto simp: range_ready_def starts_ready_def)
qed

lemma search_interval_inv:
  assumes "search_inv x S s" "starts_ready x S s"
  shows "\<exists>S'. search_inv x S' (search_interval x a s)"
  unfolding search_interval_def
  by (rule search_ranges_inv [OF equal_ranges_ok assms(1) ranges_ready [OF assms(2)]])
     (use assms(2) in \<open>simp add: starts_ready_def\<close>)

lemma next_interval_grows:
  assumes "limits_ok x (ss_interval s)" "\<not> is_ontrip (sx_q x)"
  shows "iv_contains_iv (next_interval x s) (ss_interval s) \<and> limits_ok x (next_interval x s)"
  unfolding next_interval_def by (rule limits_grow [OF assms est_extension_grows])

lemma reset_search_inv: "search_inv x S s \<Longrightarrow> search_inv x {} (reset_search a s)"
  using justified_subset [OF _ reset_search_results] reset_idle by (auto simp: search_inv_def)

text \<open>The starts in front of and behind the old interval. The starts the algorithm holds come before
  those in front of the interval when searching forward; else the algorithm is reset.\<close>

lemma starts_before:
  assumes "start_in Forward (mk_iv f t) False u" "start_within Forward itv st" "t = ifrom itv"
  shows "leaves_from Forward (time_at_start u) st"
  using assms by (simp add: start_in_def start_within_def leaves_from_def start_is_better_or_eq_def iv_contains_def)

lemma starts_behind:
  assumes "start_in Backward (mk_iv f t) False u" "start_within Backward itv st" "f = ito itv"
  shows "leaves_from Backward (time_at_start u) st"
  using assms by (simp add: start_in_def start_within_def leaves_from_def start_is_better_or_eq_def iv_contains_def)

lemma extend_interval_inv:
  assumes inv: "search_inv x S s" and pre: "\<not> is_ontrip (sx_q x)" "ss_starts s = []"
    and new: "iv_contains_iv new (ss_interval s)" "limits_ok x new"
  shows "\<exists>S'. search_inv x S' (extend_interval x a new s) \<and> starts_ready x S' (extend_interval x a new s)"
proof -
  let ?d = "sx_dir x" and ?old = "ss_interval s"
  have valid: "iv_valid ?old" using inv pre(1) by (simp add: search_inv_def limits_ok_def)
  have le: "ifrom new \<le> ifrom ?old" "ito ?old \<le> ito new" using new(1) by (simp_all add: iv_contains_iv_def)
  define lo hi where "lo = mk_iv (ifrom new) (ifrom ?old)" and "hi = mk_iv (ito ?old) (ito new)"
  have parts: "iv_valid lo" "iv_valid hi" "iv_contains_iv new lo" "iv_contains_iv new hi"
    using le valid by (simp_all add: lo_def hi_def iv_valid_def iv_contains_iv_def)
  define s1 where "s1 = (if ifrom new \<noteq> ifrom ?old
      then let s' = add_start_labels x (InInterval lo) (?d \<noteq> Forward) s in if ?d \<noteq> Forward then reset_search a s' else s'
      else s)"
  define s2 where "s2 = (if ito new \<noteq> ito ?old
      then let s' = add_start_labels x (InInterval hi) (?d = Forward) s1 in if ?d = Forward then reset_search a s' else s'
      else s1)"
  have ext: "extend_interval x a new s = s2\<lparr>ss_interval := new, ss_extensions := ss_extensions s2 + 1\<rparr>"
    by (simp add: extend_interval_def Let_def s1_def s2_def lo_def hi_def)
  have add: "search_inv x T (add_start_labels x tm b s')" if "search_inv x T s'" for T tm b s'
    using that by (simp add: search_inv_def)
  define S1 where "S1 = (if ifrom new \<noteq> ifrom ?old \<and> ?d \<noteq> Forward then {} else S)"
  define S2 where "S2 = (if ito new \<noteq> ito ?old \<and> ?d = Forward then {} else S1)"
  have inv1: "search_inv x S1 s1"
    unfolding s1_def S1_def Let_def using inv reset_search_inv [OF add [OF inv]] add [OF inv] by simp
  have inv2: "search_inv x S2 s2"
    unfolding s2_def S2_def Let_def using inv1 reset_search_inv [OF add [OF inv1]] add [OF inv1] by simp
  have old: "\<forall>st \<in> S2. start_within ?d ?old st"
    using inv pre(1) by (auto simp: S1_def S2_def search_inv_def)
  have part: "query_start x u \<and> (start_in ?d lo (?d \<noteq> Forward) u \<and> ifrom new \<noteq> ifrom ?old \<or>
      start_in ?d hi (?d = Forward) u \<and> ito new \<noteq> ito ?old)" if "u \<in> set (ss_starts s2)" for u
    using extend_interval_starts [OF pre(2), of u x a new] that by (simp add: ext lo_def hi_def)
  have order: "in_order ?d (ss_starts s2)"
  proof -
    have "in_order d (ss_starts (add_start_labels x tm b s'))" if "sx_dir x = d" for d tm b and s' :: "'s search_state"
      using that add_start_labels_order by blast
    then show ?thesis using pre(2) by (auto simp: s2_def s1_def Let_def in_order_def [of _ "[]"])
  qed
  have within: "start_within ?d new u" if "u \<in> set (ss_starts s2)" for u
    using part [OF that] start_within_mono [OF start_in_within] parts by blast
  have leave: "leaves_from ?d (time_at_start u) st" if "u \<in> set (ss_starts s2)" "st \<in> S2" for u st
  proof (cases ?d)
    case Forward
    with that(2) have "ito new = ito ?old" by (auto simp: S2_def split: if_splits)
    with part [OF that(1)] Forward starts_before [of _ _ u ?old st] old that(2) show ?thesis by (auto simp: lo_def)
  next
    case Backward
    with that(2) have "ifrom new = ifrom ?old" by (auto simp: S2_def S1_def split: if_splits)
    with part [OF that(1)] Backward starts_behind [of _ _ u ?old st] old that(2) show ?thesis by (auto simp: hi_def)
  qed
  have "search_inv x S2 (extend_interval x a new s)"
    using inv2 new old start_within_mono by (auto simp: ext search_inv_def)
  moreover have "starts_ready x S2 (extend_interval x a new s)"
    using order part within leave by (auto simp: ext starts_ready_def)
  ultimately show ?thesis by blast
qed

lemma search_loop_justified:
  assumes "search_inv x S s" "starts_ready x S s" "search_loop fuel i x a s = Some s'"
  shows "justified (sx_dir x) (Collect (query_start x)) (ss_results s')"
  using assms
proof (induction fuel arbitrary: i S s)
  case (Suc fuel)
  define s1 where "s1 = search_interval x a s"
  define s2 where "s2 = s1\<lparr>ss_starts := []\<rparr>"
  obtain S1 where s1: "search_inv x S1 s1" using search_interval_inv [OF Suc.prems(1,2)] by (auto simp: s1_def)
  have s2: "search_inv x S1 s2" using s1 by (simp add: s2_def search_inv_def)
  show ?case
  proof (cases "search_done x i s1 \<or> next_interval x s1 = ss_interval s1")
    case True
    then have "s' = s1 \<or> s' = s2" using Suc.prems(3)
      by (cases "search_done x i s1") (simp_all add: Let_def s1_def [symmetric] s2_def)
    with s1 s2 show ?thesis by (auto simp: search_inv_def)
  next
    case False
    then have ot: "\<not> is_ontrip (sx_q x)" by (simp add: search_done_def)
    have "next_interval x s1 = next_interval x s2"
      by (simp add: next_interval_def n_results_in_interval_def s2_def)
    moreover have "limits_ok x (ss_interval s2)" using s2 by (simp add: search_inv_def)
    ultimately have grow: "iv_contains_iv (next_interval x s1) (ss_interval s2)" "limits_ok x (next_interval x s1)"
      using next_interval_grows [OF _ ot, of s2] by simp_all
    have "ss_starts s2 = []" by (simp add: s2_def)
    from extend_interval_inv [OF s2 ot this grow] obtain S2 where "search_inv x S2 (extend_interval x a (next_interval x s1) s2)"
      "starts_ready x S2 (extend_interval x a (next_interval x s1) s2)" by blast
    moreover have "search_loop fuel (Suc i) x a (extend_interval x a (next_interval x s1) s2) = Some s'"
      using False Suc.prems(3) by (simp add: Let_def s1_def [symmetric] s2_def)
    ultimately show ?thesis by (rule Suc.IH)
  qed
qed simp

lemma start_search_inv:
  assumes "idle {} (ss_algo s)" "ss_results s = []" "ss_interval s = init_interval (sx_q x)" "limits_ok x (ss_interval s)"
  shows "search_inv x {} (start_search x s) \<and> starts_ready x {} (start_search x s)"
proof (cases "q_start_time (sx_q x)")
  case (AtTime t)
  then have "is_ontrip (sx_q x)" by (simp add: is_ontrip_def)
  with assms add_start_labels_query add_start_labels_order show ?thesis
    by (fastforce simp: start_search_def Let_def search_inv_def starts_ready_def justified_Nil limits_ok_def)
next
  case (InInterval i)
  then have ot: "\<not> is_ontrip (sx_q x)" and i: "ss_interval s = i" using assms(3) by (simp_all add: is_ontrip_def init_interval_def)
  define e where "e = est_initial (sx_dir x) (external_interval (sx_tt x)) (sx_q x) i"
  have e: "iv_contains_iv e i" "limits_ok x e"
    using limits_grow [OF assms(4) ot est_initial_grows] by (simp_all add: e_def i)
  have valid: "iv_valid i" "iv_valid e" using assms(4) e(2) ot by (simp_all add: limits_ok_def i)
  define tm where "tm = (if iv_size e \<noteq> 0 then e else i)"
  have tm: "iv_valid tm" "iv_contains_iv e tm" using valid e(1) by (simp_all add: tm_def iv_contains_iv_def)
  define s0 where "s0 = s\<lparr>ss_interval := e, ss_starts := []\<rparr>"
  have start: "start_search x s = add_start_labels x (InInterval tm) True s0"
    using ot InInterval by (simp add: start_search_def Let_def e_def i tm_def s0_def)
  have "query_start x u \<and> start_within (sx_dir x) e u" if "u \<in> set (ss_starts (start_search x s))" for u
    using that add_start_labels_starts [of u x tm True s0] start_within_mono [OF start_in_within tm(2)] tm(1)
    by (auto simp: start s0_def)
  then have "starts_ready x {} (start_search x s)"
    by (auto simp: starts_ready_def start add_start_labels_order s0_def)
  moreover have "search_inv x {} (start_search x s)"
    using assms e by (simp add: search_inv_def start s0_def justified_Nil)
  ultimately show ?thesis by blast
qed

text \<open>The whole search.\<close>

lemma search_justified:
  assumes "idle {} (ss_algo s)" "ss_interval s = init_interval (sx_q x)" "limits_ok x (ss_interval s)"
    and "\<And>js. set (sx_unique x js) = set js" and r: "search_execute fuel x a s = Some s'"
  shows "justified (sx_dir x) (Collect (query_start x)) (ss_results s')"
proof (cases "start_dest_overlap (sx_tt x) (sx_q x)")
  case True
  with r show ?thesis by (auto simp: search_execute_def Let_def justified_Nil)
next
  case False
  define s0 where "s0 = s\<lparr>ss_results := []\<rparr>"
  obtain s1 where s1: "search_loop fuel 0 x a (start_search x s0) = Some s1" "s' = finish x s1"
    using r False by (auto simp: search_execute_def Let_def s0_def)
  have "search_inv x {} (start_search x s0) \<and> starts_ready x {} (start_search x s0)"
    using assms(1-3) by (intro start_search_inv) (simp_all add: s0_def)
  with search_loop_justified s1(1) have "justified (sx_dir x) (Collect (query_start x)) (ss_results s1)" by blast
  then show ?thesis by (rule justified_subset) (use finish_set [OF assms(4)] s1(2) in auto)
qed

section \<open>The search ends\<close>

text \<open>\<open>not_before\<close>: the end of the interval from which no results can be missing any more.\<close>

definition not_before :: "direction \<Rightarrow> int interval \<Rightarrow> int \<Rightarrow> bool" where
  "not_before d itv t \<longleftrightarrow> (if d = Forward then ifrom itv \<le> t else t < ito itv)"

definition late_results :: "direction \<Rightarrow> int \<Rightarrow> journey list \<Rightarrow> bool" where
  "late_results d t js \<longleftrightarrow> (\<forall>j \<in> set js. start_is_better_or_eq d t (j_start_time j))"

definition results_inside :: "search \<Rightarrow> 's search_state \<Rightarrow> bool" where
  "results_inside x s \<longleftrightarrow> (\<forall>j \<in> set (ss_results s). not_before (sx_dir x) (ss_interval s) (j_start_time j))"

lemma not_before_within: "start_within d itv u \<Longrightarrow> not_before d itv (time_at_start u)"
  by (cases d) (simp_all add: not_before_def start_within_def)

lemma run_starts_times:
  assumes "search_inv x S s" "j \<in> set (ss_results (run_starts x a r s))"
  shows "j_start_time j = time_at_start (hd r) \<or> (\<exists>j0 \<in> set (ss_results s). j_start_time j = j_start_time j0)"
proof -
  let ?t = "time_at_start (hd r)"
  define al where "al = fold (\<lambda>st. a_add_start a (start_stop st) (time_at_stop st) (start_v st)) r
      (a_next_start_time a (ss_algo s))"
  obtain al' js where ex: "a_execute a ?t (q_max_transfers (sx_q x)) (worst_time_at_dest x ?t) (al, ss_results s) = (al', js)"
    by fastforce
  have "ready (S \<union> set r) al"
    unfolding al_def by (rule ready_starts [OF next_ready]) (use assms(1) in \<open>simp add: search_inv_def\<close>)
  from execute_idle [OF this ex]
  have js: "\<And>j. j \<in> set js \<Longrightarrow> j \<in> set (ss_results s) \<or> ok (S \<union> set r) ?t j" by blast
  obtain j1 where j1: "j1 \<in> set js" "j = reconstruct_one x a al' (ss_interval s) j1"
    using assms(2) by (auto simp: run_starts_def Let_def al_def [symmetric] ex)
  have "\<exists>T. ok T (j_start_time j1) j1"
    using js [OF j1(1)] assms(1) ok_start_time unfolding search_inv_def justified_def by metis
  then have "j_start_time j = j_start_time j1" using reconstruct_one_time j1(2) by blast
  with js [OF j1(1)] ok_start_time show ?thesis by metis
qed

lemma stop_early_count:
  assumes "stop_early x t s = (True, s')" "\<not> is_ontrip (sx_q x)" "late_results (sx_dir x) t (ss_results s)"
    and "start_within (sx_dir x) (ss_interval s) u" "time_at_start u = t"
  shows "q_min_connection_count (sx_q x) \<le> n_results_in_interval x s'"
proof -
  have s': "q_min_connection_count (sx_q x) \<le> n_results_in_interval x s" "ss_results s' = ss_results s"
    "ss_interval s' = (if sx_dir x = Forward then mk_iv t (ito (ss_interval s)) else mk_iv (ifrom (ss_interval s)) (t + 1))"
    using assms(1) by (auto simp: stop_early_def Let_def split: if_splits)
  have "iv_contains (ss_interval s') (j_start_time j) \<longleftrightarrow> iv_contains (ss_interval s) (j_start_time j)"
    if "j \<in> set (ss_results s)" for j
    using that assms(3,4) unfolding assms(5) [symmetric]
    by (auto simp: s'(3) assms(5) late_results_def start_is_better_or_eq_def start_within_def iv_contains_def)
  then have "filter (\<lambda>j. iv_contains (ss_interval s') (j_start_time j)) (ss_results s) =
      filter (\<lambda>j. iv_contains (ss_interval s) (j_start_time j)) (ss_results s)" by (rule filter_cong [OF refl])
  with s'(1,2) assms(2) show ?thesis by (simp add: n_results_in_interval_def)
qed

lemma search_ranges_stop:
  assumes "ranges_ok (sx_dir x) rs" "search_inv x S s" "\<forall>r \<in> set rs. range_ready x S (ss_interval s) r"
    and "\<not> is_ontrip (sx_q x)" "\<forall>r \<in> set rs. late_results (sx_dir x) (time_at_start (hd r)) (ss_results s)"
    and "results_inside x s"
  shows "(ss_interval (snd (fold (search_range x a) rs (False, s))) = ss_interval s \<and>
      results_inside x (snd (fold (search_range x a) rs (False, s)))) \<or>
    q_min_connection_count (sx_q x) \<le> n_results_in_interval x (snd (fold (search_range x a) rs (False, s)))"
  using assms
proof (induction rs arbitrary: S s)
  case (Cons r rs)
  let ?t = "time_at_start (hd r)"
  have r: "range_ready x S (ss_interval s) r" using Cons.prems(3) by simp
  then have hd: "hd r \<in> set r" by (simp add: range_ready_def)
  define s1 where "s1 = run_starts x a r s"
  have s1: "search_inv x (S \<union> set r) s1" unfolding s1_def
    using Cons.prems(1,2) r by (intro run_starts_inv) simp_all
  have itv: "ss_interval s1 = ss_interval s" by (simp add: s1_def)
  have within: "start_within (sx_dir x) (ss_interval s) (hd r)"
    using r hd Cons.prems(4) unfolding range_ready_def by blast
  have times: "j_start_time j = ?t \<or> (\<exists>j0 \<in> set (ss_results s). j_start_time j = j_start_time j0)"
    if "j \<in> set (ss_results s1)" for j
    using run_starts_times [OF Cons.prems(2)] that unfolding s1_def by blast
  have late: "late_results (sx_dir x) t (ss_results s1)"
    if "start_is_better_or_eq (sx_dir x) t ?t" "late_results (sx_dir x) t (ss_results s)" for t
    using that times unfolding late_results_def by metis
  have inside: "results_inside x s1"
    using times Cons.prems(6) within unfolding results_inside_def itv
    by (metis itv not_before_within)
  obtain e s2 where s2: "stop_early x ?t s1 = (e, s2)" by fastforce
  have step: "fold (search_range x a) (r # rs) (False, s) = fold (search_range x a) rs (e, s2)"
    by (simp add: search_range_def s1_def [symmetric] s2)
  show ?case
  proof (cases e)
    case False
    then have "s2 = s1" using s2 by (auto simp: stop_early_def Let_def split: if_splits)
    have ready: "\<forall>r' \<in> set rs. range_ready x (S \<union> set r) (ss_interval s1) r'"
      using Cons.prems(1,3) by (auto simp: range_ready_def itv)
    have "late_results (sx_dir x) (time_at_start (hd r')) (ss_results s1)" if "r' \<in> set rs" for r'
      using Cons.prems(1,5) that hd by (intro late) (auto simp: leaves_from_def)
    with Cons.IH [OF _ s1 ready Cons.prems(4) _ inside] Cons.prems(1) False show ?thesis
      unfolding step \<open>s2 = s1\<close> itv by simp
  next
    case True
    have "late_results (sx_dir x) ?t (ss_results s1)"
      using Cons.prems(5) by (intro late) (simp_all add: start_is_better_or_eq_def)
    then have "q_min_connection_count (sx_q x) \<le> n_results_in_interval x s2"
      using s2 True Cons.prems(4) within itv by (intro stop_early_count [of x ?t s1 s2 "hd r"]) simp_all
    then show ?thesis using True Cons.prems(4) unfolding step by (simp add: skip_ranges n_results_in_interval_def)
  qed
qed simp

lemma range_not_shrunk:
  assumes "\<not> can_stop_early x"
  shows "fst (search_range x a r (False, s)) = False \<and> ss_interval (snd (search_range x a r (False, s))) = ss_interval s"
  using assms by (simp add: search_range_def stop_early_def Let_def)

lemma search_interval_not_shrunk:
  assumes "\<not> can_stop_early x"
  shows "ss_interval (search_interval x a s) = ss_interval s"
proof -
  have "ss_interval (snd (fold (search_range x a) rs (False, s'))) = ss_interval s'" for rs s'
  proof (induction rs arbitrary: s')
    case (Cons r rs)
    obtain s1 where "search_range x a r (False, s') = (False, s1)" "ss_interval s1 = ss_interval s'"
      using range_not_shrunk [OF assms, of r s'] by (metis prod.collapse)
    then show ?case using Cons.IH [of s1] by simp
  qed simp
  then show ?thesis by (simp add: search_interval_def)
qed

text \<open>What holds at the head of the loop when the search may stop early.\<close>

definition stop_inv :: "search \<Rightarrow> 's search_state \<Rightarrow> bool" where
  "stop_inv x s \<longleftrightarrow> results_inside x s \<and>
     (\<forall>u \<in> set (ss_starts s). late_results (sx_dir x) (time_at_start u) (ss_results s))"

lemma search_interval_stop:
  assumes "search_inv x S s" "starts_ready x S s" "\<not> is_ontrip (sx_q x)" "can_stop_early x \<longrightarrow> stop_inv x s"
  shows "(ss_interval (search_interval x a s) = ss_interval s \<and>
      (can_stop_early x \<longrightarrow> results_inside x (search_interval x a s))) \<or>
    q_min_connection_count (sx_q x) \<le> n_results_in_interval x (search_interval x a s)"
proof (cases "can_stop_early x")
  case True
  let ?rs = "equal_ranges time_at_start (ss_starts s)"
  have sub: "hd r \<in> set (ss_starts s)" if "r \<in> set ?rs" for r using equal_ranges_hd [OF that] by blast
  show ?thesis
    unfolding search_interval_def
    using search_ranges_stop [OF _ assms(1) ranges_ready [OF assms(2)] assms(3)] assms(2,4) True sub
    by (auto simp: stop_inv_def starts_ready_def equal_ranges_ok)
qed (simp add: search_interval_not_shrunk)

lemma extend_interval_stop:
  assumes "can_stop_early x" "results_inside x s" "ss_starts s = []" "limits_ok x (ss_interval s)" "\<not> is_ontrip (sx_q x)"
    and new: "new = next_interval x s"
  shows "stop_inv x (extend_interval x a new s)"
proof -
  let ?e = "extend_interval x a new s"
  have le: "ifrom new \<le> ifrom (ss_interval s)" "ito (ss_interval s) \<le> ito new"
    using next_interval_grows [OF assms(4,5)] new by (simp_all add: iv_contains_iv_def)
  have fixed: "sx_dir x = Forward \<Longrightarrow> ito new = ito (ss_interval s)" "sx_dir x \<noteq> Forward \<Longrightarrow> ifrom new = ifrom (ss_interval s)"
    using next_interval_fixed [OF assms(4,5)] assms(1) new by (auto simp: can_stop_early_def)
  have e: "ss_results ?e = ss_results s" "ss_interval ?e = new"
    using fixed by (auto simp: extend_interval_def Let_def)
  have "results_inside x ?e"
    using assms(2) le by (auto simp: results_inside_def e not_before_def split: if_splits)
  moreover have "late_results (sx_dir x) (time_at_start u) (ss_results s)" if "u \<in> set (ss_starts ?e)" for u
    using extend_interval_starts [OF assms(3) that] fixed assms(2)
    by (cases "sx_dir x") (auto simp: results_inside_def late_results_def not_before_def start_in_def
      start_is_better_or_eq_def iv_contains_def)
  ultimately show ?thesis by (simp add: stop_inv_def e)
qed

lemma search_loop_ends:
  assumes "search_inv x S s" "starts_ready x S s" "can_stop_early x \<longrightarrow> stop_inv x s"
    and "nat (iv_size (external_interval (sx_tt x)) - iv_size (ss_interval s)) < fuel"
  shows "\<exists>s'. search_loop fuel i x a s = Some s'"
  using assms
proof (induction fuel arbitrary: i S s)
  case (Suc fuel)
  define s1 where "s1 = search_interval x a s"
  define s2 where "s2 = s1\<lparr>ss_starts := []\<rparr>"
  obtain S1 where s1: "search_inv x S1 s1" using search_interval_inv [OF Suc.prems(1,2)] by (auto simp: s1_def)
  have s2: "search_inv x S1 s2" "ss_starts s2 = []" "ss_interval s2 = ss_interval s1"
    "next_interval x s1 = next_interval x s2"
    using s1 by (simp_all add: s2_def search_inv_def next_interval_def n_results_in_interval_def)
  show ?case
  proof (cases "search_done x i s1 \<or> next_interval x s1 = ss_interval s1")
    case True
    then show ?thesis by (cases "search_done x i s1") (simp_all add: Let_def s1_def [symmetric])
  next
    case False
    then have ot: "\<not> is_ontrip (sx_q x)" by (simp add: search_done_def)
    have lim: "limits_ok x (ss_interval s2)" using s2(1) by (simp add: search_inv_def)
    note grow = next_interval_grows [OF lim ot, folded s2(4)]
    have same: "ss_interval s1 = ss_interval s" "can_stop_early x \<longrightarrow> results_inside x s2"
      using search_interval_stop [OF Suc.prems(1,2) ot Suc.prems(3)] False
      by (auto simp: s1_def [symmetric] search_done_def results_inside_def s2_def)
    define s3 where "s3 = extend_interval x a (next_interval x s1) s2"
    obtain S3 where s3: "search_inv x S3 s3" "starts_ready x S3 s3"
      using extend_interval_inv [OF s2(1) ot s2(2) conjunct1 [OF grow] conjunct2 [OF grow]] unfolding s3_def by blast
    have "can_stop_early x \<longrightarrow> stop_inv x s3"
      using extend_interval_stop [OF _ _ s2(2) lim ot s2(4)] same(2) unfolding s3_def by blast
    moreover have "iv_size (ss_interval s) < iv_size (next_interval x s1)"
      "iv_size (next_interval x s1) \<le> iv_size (external_interval (sx_tt x))" "ss_interval s3 = next_interval x s1"
      using grow False ot unfolding s2(3) same(1)
      by (auto simp: iv_contains_iv_def iv_size_def limits_ok_def within_limits_def s3_def extend_interval_def Let_def
          intro: interval.equality)
    ultimately obtain s' where "search_loop fuel (Suc i) x a s3 = Some s'"
      using Suc.IH [OF s3] Suc.prems(4) by fastforce
    then show ?thesis using False by (simp add: Let_def s1_def [symmetric] s2_def s3_def)
  qed
qed simp

lemma search_ends:
  assumes "idle {} (ss_algo s)" "ss_interval s = init_interval (sx_q x)" "limits_ok x (ss_interval s)"
    and "nat (iv_size (external_interval (sx_tt x))) < fuel"
  shows "\<exists>s'. search_execute fuel x a s = Some s'"
proof (cases "start_dest_overlap (sx_tt x) (sx_q x)")
  case False
  define s1 where "s1 = start_search x (s\<lparr>ss_results := []\<rparr>)"
  have s1: "search_inv x {} s1" "starts_ready x {} s1"
    using start_search_inv [of "s\<lparr>ss_results := []\<rparr>" x] assms(1-3) by (simp_all add: s1_def)
  have "stop_inv x s1"
    by (simp add: s1_def start_search_def Let_def stop_inv_def results_inside_def late_results_def)
  moreover have "nat (iv_size (external_interval (sx_tt x)) - iv_size (ss_interval s1)) < fuel" 
  proof -
    have "0 \<le> iv_size (ss_interval s1)"
    proof (cases "q_start_time (sx_q x)")
      case (AtTime t)
      then show ?thesis
        by (simp add: s1_def start_search_def Let_def is_ontrip_def assms(2) init_interval_def iv_size_def)
    next
      case (InInterval i)
      then show ?thesis using s1(1) by (simp add: search_inv_def limits_ok_def is_ontrip_def iv_valid_def iv_size_def)
    qed
    then show ?thesis using assms(4) by (simp add: nat_less_iff)
  qed
  ultimately obtain s' where "search_loop fuel 0 x a s1 = Some s'" using search_loop_ends [OF s1] by blast
  then show ?thesis using False by (simp add: search_execute_def Let_def s1_def)
qed (simp add: search_execute_def Let_def)

end

end
