(* ===== verification/Raptor_Search.thy ===== *)
theory Raptor_Search
  imports Search_Correct
begin

text \<open>
  The round-based search as the algorithm of the interval search: its operations behind the
  interface of \<open>include/nigiri/routing/search.h\<close>, the proof that it keeps the contract
  \<open>search_algo\<close>, and with it the correctness of the whole search for journeys over an interval.
\<close>

text \<open>\<open>legs_of\<close> stands for \<open>reconstruct_journey\<close>, which throws or adds legs to the journey; it changes
  nothing else of it, and marks it as reconstructed when it does not throw.\<close>

definition raptor_reconstruct ::
    "raptor \<Rightarrow> (raptor_state \<Rightarrow> query \<Rightarrow> journey \<Rightarrow> bool \<times> leg list) \<Rightarrow> raptor_state \<Rightarrow> query \<Rightarrow> journey \<Rightarrow> bool \<times> journey" where
  "raptor_reconstruct c legs_of s q j =
     (if one_to_all c then (False, j)
      else case legs_of s q j of (threw, legs) \<Rightarrow>
        (threw, if threw then j\<lparr>j_legs := legs\<rparr> else j\<lparr>j_legs := legs, j_is_reconstructed := True\<rparr>))"

definition raptor_algo :: "raptor \<Rightarrow> (raptor_state \<Rightarrow> query \<Rightarrow> journey \<Rightarrow> bool \<times> leg list) \<Rightarrow> raptor_state algo" where
  "raptor_algo c legs_of =
     \<lparr>a_next_start_time = next_start_time c, a_add_start = add_start c, a_execute = execute c,
      a_reconstruct = raptor_reconstruct c legs_of, a_reset_arrivals = reset_arrivals c\<rparr>"

section \<open>The contract\<close>

definition start_labels :: "raptor \<Rightarrow> start set \<Rightarrow> (nat \<times> nat \<times> int) set" where
  "start_labels c S = start_label c ` (\<lambda>st. (start_stop st, time_at_stop st, start_v st)) ` S"

definition search_tables_ok :: "raptor \<Rightarrow> bool" where
  "search_tables_ok c \<longleftrightarrow> tables_ok c \<and> length (is_dest c) \<le> n_locations (r_tt c)"

definition raptor_idle :: "raptor \<Rightarrow> start set \<Rightarrow> raptor_state \<Rightarrow> bool" where
  "raptor_idle c S s \<longleftrightarrow> search_tables_ok c \<and> sized c s \<and>
     rounds_sound c (start_labels c S) (round_times s)"

definition raptor_ready :: "raptor \<Rightarrow> start set \<Rightarrow> raptor_state \<Rightarrow> bool" where
  "raptor_ready c S s \<longleftrightarrow> search_tables_ok c \<and> sound c (start_labels c S) 0 s"

lemma start_labels_starts_ok: "starts_ok (start_labels c S)"
  unfolding start_labels_def by (rule start_labels_ok)

lemma journey_ok_mono: "journey_ok c S t j \<Longrightarrow> S \<subseteq> S' \<Longrightarrow> journey_ok c S' t j"
  unfolding journey_ok_def using journeys_mono(1) [of S S' c] by blast

lemma raptor_reconstruct_fields:
  "j_start_time (snd (raptor_reconstruct c legs_of s q j)) = j_start_time j"
  "j_dest_time (snd (raptor_reconstruct c legs_of s q j)) = j_dest_time j"
  "j_dest (snd (raptor_reconstruct c legs_of s q j)) = j_dest j"
  "j_transfers (snd (raptor_reconstruct c legs_of s q j)) = j_transfers j"
  by (simp_all add: raptor_reconstruct_def case_prod_unfold)

lemma raptor_execute_idle:
  assumes "raptor_ready c S s" "execute c t m w (s, js) = (s', js')"
  shows "raptor_idle c S s' \<and> (\<forall>j \<in> set js'. j \<in> set js \<or> journey_ok c (start_labels c S) t j)"
  using execute_sound [OF _ _ start_labels_starts_ok _ assms(2)] assms(1)
  by (auto simp: raptor_ready_def raptor_idle_def search_tables_ok_def sound_def shape_sized)

interpretation raptor_contract: search_algo "raptor_algo c legs_of" "raptor_idle c" "raptor_ready c"
  "\<lambda>S. journey_ok c (start_labels c S)"
proof
  fix S :: "start set" and s
  show "raptor_idle c S s \<Longrightarrow> raptor_ready c S (a_next_start_time (raptor_algo c legs_of) s)"
    by (simp add: raptor_algo_def raptor_idle_def raptor_ready_def next_start_time_sound)
next
  fix S :: "start set" and s st
  assume "raptor_ready c S s"
  then show "raptor_ready c (insert st S)
      (a_add_start (raptor_algo c legs_of) (start_stop st) (time_at_stop st) (start_v st) s)"
    using add_start_sound by (simp add: raptor_algo_def raptor_ready_def start_labels_def)
next
  fix S :: "start set" and s t m w js s' js'
  assume "raptor_ready c S s" "a_execute (raptor_algo c legs_of) t m w (s, js) = (s', js')"
  then show "raptor_idle c S s' \<and> (\<forall>j \<in> set js'. j \<in> set js \<or> journey_ok c (start_labels c S) t j)"
    using raptor_execute_idle by (simp add: raptor_algo_def)
next
  fix S :: "start set" and s
  assume "raptor_idle c S s"
  then show "raptor_idle c {} (a_reset_arrivals (raptor_algo c legs_of) s)"
    by (simp add: raptor_algo_def raptor_idle_def sized_reset reset_arrivals_rounds)
next
  fix S S' :: "start set" and t j
  assume "journey_ok c (start_labels c S) t j" "S \<subseteq> S'"
  then show "journey_ok c (start_labels c S') t j"
    by (elim journey_ok_mono) (auto simp: start_labels_def)
next
  fix S :: "start set" and t j s q
  assume "journey_ok c (start_labels c S) t j"
  then show "journey_ok c (start_labels c S) t (snd (a_reconstruct (raptor_algo c legs_of) s q j))"
    by (simp add: raptor_algo_def journey_ok_def raptor_reconstruct_fields)
qed (simp_all add: journey_ok_def)

section \<open>The search for journeys\<close>

text \<open>The state the constructor of the algorithm leaves behind.\<close>

definition construct :: "raptor \<Rightarrow> raptor_state \<Rightarrow> raptor_state" where
  "construct c s = reset_arrivals c (raptor_resize c s)"

lemma construct_idle: "search_tables_ok c \<Longrightarrow> raptor_idle c {} (construct c s)"
  using sized_fresh reset_arrivals_rounds by (simp add: raptor_idle_def construct_def)

text \<open>Property C1. Soundness of the search over an interval. Whatever interval the search ends with, how
  often it extends it, resets the labels or terminates early, and although later start times
  reuse the labels of earlier runs, each journey it returns exists: it starts at one of the departures from
  the origin that the query allows, leaving no earlier than the start time the journey claims
  (arriving no later, for a backward search), and the rules lead from there to the destination
  with the number of transfers, all vias visited, at the time it claims.\<close>

theorem raptor_search_sound:
  assumes "search_tables_ok c" "limits_ok x (init_interval (sx_q x))" "ss_interval s = init_interval (sx_q x)"
    and "ss_algo s = construct c r" and "\<And>js. set (sx_unique x js) = set js"
    and "search_execute fuel x (raptor_algo c legs_of) s = Some s'" and "j \<in> set (ss_results s')"
  shows "\<exists>starts. starts \<subseteq> {st. query_start x st \<and> leaves_from (sx_dir x) (j_start_time j) st} \<and>
    journey_ok c (start_labels c starts) (j_start_time j) j"
proof -
  have "raptor_idle c {} (ss_algo s)" unfolding assms(4) using assms(1) by (rule construct_idle)
  moreover have "limits_ok x (ss_interval s)" using assms(2,3) by simp
  ultimately have "raptor_contract.justified c (sx_dir x) (Collect (query_start x)) (ss_results s')"
    using raptor_contract.search_justified [OF _ assms(3) _ assms(5,6)] by blast
  from this assms(7) show ?thesis
    unfolding raptor_contract.justified_def by (intro exI [of _ "{st \<in> Collect (query_start x). leaves_from (sx_dir x) (j_start_time j) st}"]) auto
qed

text \<open>The example network: from stop 0 at minute 600 to stop 2.\<close>

definition example_trip_query :: query where
  "example_trip_query = example_query\<lparr>q_start_time := InInterval (mk_iv 590 610), q_via_stops := [],
     q_start := [\<lparr>off_target = 0, off_duration = 0, off_mode = 0, off_payload = 0\<rparr>],
     q_destination := [\<lparr>off_target = 2, off_duration = 0, off_mode = 0, off_payload = 0\<rparr>]\<rparr>"

definition example_trip :: search where
  "example_trip = example_search\<lparr>sx_q := example_trip_query\<rparr>"

definition example_trip_state :: "raptor_state search_state" where
  "example_trip_state = (example_state (construct example_raptor empty_state))\<lparr>ss_interval := mk_iv 590 610\<rparr>"

abbreviation example_algo :: "raptor_state algo" where
  "example_algo \<equiv> raptor_algo example_raptor (\<lambda>_ _ _. (False, []))"

lemma example_trip_ok:
  "search_tables_ok example_raptor" "limits_ok example_trip (init_interval (sx_q example_trip))"
  "ss_interval example_trip_state = init_interval (sx_q example_trip)"
  "ss_algo example_trip_state = construct example_raptor empty_state"
  "set (sx_unique example_trip js) = set js"
proof -
  show "search_tables_ok example_raptor"
    unfolding search_tables_ok_def using example_tables
    by (simp add: example_raptor_def n_locations_def example_timetable_def)
  have q: "sx_tt example_trip = example_timetable" "sx_q example_trip = example_trip_query"
    "external_interval example_timetable = mk_iv 0 43200" "init_interval example_trip_query = mk_iv 590 610"
    by (simp_all add: example_trip_def example_search_def example_trip_query_def init_interval_def external_interval_def
      example_timetable_def empty_timetable_def)
  have "within_limits (mk_iv 0 43200) example_trip_query (mk_iv 590 610)" by code_simp
  then show "limits_ok example_trip (init_interval (sx_q example_trip))"
    unfolding limits_ok_def q by (simp add: iv_valid_def)
qed (simp_all add: example_trip_state_def example_state_def example_trip_def example_trip_query_def example_search_def
    init_interval_def)

theorem raptor_search_sound_witness:
  "case search_execute 43201 example_trip example_algo example_trip_state of
     None \<Rightarrow> True
   | Some s' \<Rightarrow> list_all (\<lambda>j. \<exists>starts. starts \<subseteq> {st. query_start example_trip st \<and>
         leaves_from (sx_dir example_trip) (j_start_time j) st} \<and>
       journey_ok example_raptor (start_labels example_raptor starts) (j_start_time j) j) (ss_results s')"
  using raptor_search_sound [OF example_trip_ok(1-4) example_trip_ok(5)]
  by (auto simp: list_all_iff split: option.split)

text \<open>Property C2. The search always returns. The interval is extended only while it is strictly inside
  the timetable, and when early termination has shortened it the search is done; so the loop
  runs at most once for each minute of the timetable.\<close>

theorem raptor_search_ends:
  assumes "search_tables_ok c" "limits_ok x (init_interval (sx_q x))" "ss_interval s = init_interval (sx_q x)"
    and "ss_algo s = construct c r" and "nat (iv_size (external_interval (sx_tt x))) < fuel"
  shows "\<exists>s'. search_execute fuel x (raptor_algo c legs_of) s = Some s'"
proof -
  have "raptor_idle c {} (ss_algo s)" unfolding assms(4) using assms(1) by (rule construct_idle)
  moreover have "limits_ok x (ss_interval s)" using assms(2,3) by simp
  ultimately show ?thesis using raptor_contract.search_ends [OF _ assms(3) _ assms(5)] by blast
qed

theorem raptor_search_ends_witness:
  "\<exists>s'. search_execute 43201 example_trip example_algo example_trip_state = Some s'"
proof -
  have "nat (iv_size (external_interval (sx_tt example_trip))) < 43201"
    by (simp add: iv_size_def external_interval_def example_trip_def example_search_def example_timetable_def empty_timetable_def)
  with raptor_search_ends [OF example_trip_ok(1-4)] show ?thesis by blast
qed

end
