(* ===== verification/Reconstruct_Example.thy ===== *)
theory Reconstruct_Example
  imports Reconstruct_Correct Raptor_Search
begin

definition example_rc :: recon where
  "example_rc = \<lparr>rc_dir = Forward, rc_tt = example_timetable, rc_rtt = None, rc_q = example_trip_query,
     rc_times = [[[595], [32767], [32767]], [[32767], [610], [625]]], rc_base = 0, rc_base_day_idx = 5\<rparr>"

definition example_j :: journey where
  "example_j = \<lparr>j_legs = [], j_start_time = 595, j_dest_time = 625, j_dest = 2, j_transfers = 0, j_error = False, j_is_reconstructed = False\<rparr>"





lemma example_rc_simps:
  "rc_dir example_rc = Forward" "rc_tt example_rc = example_timetable" "rc_rtt example_rc = None"
  "rc_times example_rc = [[[595], [32767], [32767]], [[32767], [610], [625]]]" "rc_base example_rc = 0" "rc_base_day_idx example_rc = 5"
  "q_via_stops (rc_q example_rc) = []" "q_start_match_mode (rc_q example_rc) = kExact" "q_dest_match_mode (rc_q example_rc) = kExact"
  "q_prf_idx (rc_q example_rc) = 0" "q_require_bike_transport (rc_q example_rc) = False" "q_require_car_transport (rc_q example_rc) = False"
  "q_no_compulsory_reservation (rc_q example_rc) = False" "q_allowed_claszes (rc_q example_rc) = all_clasz_allowed"
  "q_start (rc_q example_rc) = [\<lparr>off_target = 0, off_duration = 0, off_mode = 0, off_payload = 0\<rparr>]"
  "tts_default (q_transfer_time_settings (rc_q example_rc))" "q_td_start (rc_q example_rc) = []" "q_td_dest (rc_q example_rc) = []"
  by (simp_all add: example_rc_def example_trip_query_def example_query_def)

lemma example_stop: "i < 3 \<Longrightarrow> stop_of_value (route_location_seq example_timetable ! 0 ! i) = mk_stop i True True True True"
  by (auto simp: example_timetable_def less_Suc_eq numeral_3_eq_3 numeral_2_eq_2)

lemma example_mams: "event_mam example_timetable 0 0 Dep = \<lparr>days = 0, mam = 600\<rparr>" "event_mam example_timetable 0 1 Dep = \<lparr>days = 0, mam = 612\<rparr>"
  "event_mam example_timetable 0 2 Arr = \<lparr>days = 0, mam = 625\<rparr>"
  by (simp_all add: event_mam_def event_mam_r_def Let_def example_timetable_def delta_plus_def delta_of_minutes_def)

abbreviation example_run :: run where
  "example_run \<equiv> \<lparr>run_t = Some \<lparr>t_idx = 0, t_day = 5\<rparr>, run_stop_range = mk_iv 0 3, run_rt = None\<rparr>"

lemma example_candidate: "route_candidate example_rc 625 2 False 0 = Some (\<lparr>t_idx = 0, t_day = 5\<rparr>, 625)"
proof -
  have "bit (96 :: bitfield) 5" by code_simp
  then show ?thesis
  by (simp add: route_candidate_def example_rc_simps split_day_mam_def Let_def rc_arr_def example_mams delta_count_def wrap_s16_id
      rc_transport_active_def is_transport_active_def event_time_def as_duration_count internal_interval_days_def mk_iv_def kTimetableOffset_def)
   (simp add: example_timetable_def empty_timetable_def)
qed

lemma example_fr: "i < 3 \<Longrightarrow> get_stop example_timetable None example_run i = mk_stop i True True True True"
  "fr_size example_timetable None example_run = 3"
  using example_stop by (simp_all add: get_stop_def fr_location_seq_def fr_rt_def fr_route_def fr_size_def run_is_scheduled_def)
   (simp_all add: example_timetable_def)

abbreviation example_leg :: leg where
  "example_leg \<equiv> \<lparr>leg_from = 0, leg_to = 2, leg_dep_time = 600, leg_arr_time = 625,
     leg_uses = UsesRun \<lparr>ree_run = example_run, ree_stop_range = mk_iv 0 3\<rparr>\<rparr>"

lemma example_locations: "i < 3 \<Longrightarrow> get_location_idx example_timetable None example_run i = i"
  "i < 3 \<Longrightarrow> fr_in_allowed example_timetable None example_run i w" "i < 3 \<Longrightarrow> fr_out_allowed example_timetable None example_run i w"
  by (simp_all add: get_location_idx_def fr_in_allowed_def fr_out_allowed_def example_fr mk_stop_def)

lemma example_fr_time: "fr_time example_timetable None example_run 0 Dep = 600" "fr_time example_timetable None example_run 1 Dep = 612"
  "fr_time example_timetable None example_run 2 Arr = 625"
  by (simp_all add: fr_time_def fr_rt_def event_time_def as_duration_count delta_count_def wrap_s16_id example_mams example_mams [simplified]
      internal_interval_days_def mk_iv_def kTimetableOffset_def)
   (simp_all add: example_timetable_def empty_timetable_def)

lemma example_found: "find_start_in_prev_round example_rc 1 example_run 2 [False, False, False, False] 0 = Some (0, example_leg)"
proof -
  have flags: "violates_flags example_rc example_run s [False, False, False, False] = False" for s
    by (simp add: violates_flags_def all_route_flags_def)
  have entry: "entry_allowed example_rc example_run s" if "s < 3" for s
    using that by (simp add: entry_allowed_def example_rc_simps example_locations)
  have at: "fr_at example_run i = i" if "i < 3" for i using that by (simp add: fr_at_def)
  have fits: "entry_fits example_rc 1 1 612 0 = False" "entry_fits example_rc 1 0 600 0 = True"
    by (simp_all add: entry_fits_def example_rc_simps at3_def is_better_or_eq_def)
  have delta: "rc_delta example_rc 612 = 612" "rc_delta example_rc 600 = 600" "rc_unix example_rc 600 = 600"
    by (simp_all add: rc_delta_def unix_to_delta_def rc_unix_def delta_to_unix_def example_rc_simps clamp_id)
  have "fold (\<lambda>s fs. fs) xs fs = fs" for xs :: "nat list" and fs :: "nat list" by (induction xs) simp_all
  then have thr: "ride_through example_rc l fs = fs" for l fs by (simp add: ride_through_def example_rc_simps)
  have leg: "ride_leg example_rc example_run example_run 0 2 600 = example_leg"
    by (simp add: ride_leg_def mk_leg_def example_rc_simps at example_locations example_fr_time delta rc_arr_def mk_run_enter_exit_def)
  have upt: "[0..<kMaxVias + 1] = [0, 1, 2]" "[1..<2 + 1] = [1, 2::nat]" "[0..<0 + 1] = [0::nat]"
    by (simp_all add: kMaxVias_def upt_rec)
  have backs: "nat (u16 (int 2 - int 1)) = 1" "nat (u16 (int 2 - int 2)) = 0" by simp_all
  have at_1: "fr_at example_run 1 = 1" "fr_at example_run 0 = 0" using at [of 1] at [of 0] by simp_all
  have some: "scan_entries example_rc 1 example_run example_run 2 [False, False, False, False] 0 [0, 1, 2] [1, 2] = Some (0, example_leg)"
    unfolding scan_entries.simps Let_def example_rc_simps if_True simp_thms backs at_1
    using fits leg
    by (simp add: flags entry example_locations rc_dep_def example_rc_simps example_fr_time example_fr_time(2) [simplified] delta thr)
  show ?thesis
    unfolding find_start_in_prev_round_def Let_def example_rc_simps frun_def option.case upt if_True simp_thms list.size by (simp only: some option.case)
qed

lemma example_legs: "raw_legs example_rc example_j = (False, [example_leg])"
proof -
  have one: "route_transport_ranges example_timetable ! 0 = mk_iv 0 2" "location_routes example_timetable ! 2 = [0]"
    "route_clasz example_timetable ! 0 = kBus" "route_location_seq example_timetable ! 0 = map (\<lambda>l. stop_value (mk_stop l True True True True)) [0, 1, 2]"
    by (simp_all add: example_timetable_def)
  have flags: "rc_required_flags example_rc = []" by (simp add: rc_required_flags_def rc_wheelchair_def example_rc_simps)
  have exits: "exit_at example_rc 2 (route_location_seq example_timetable ! 0) i \<longleftrightarrow> i = 2" if "i < 3" for i
    using that by (auto simp: exit_at_def Let_def example_rc_simps example_stop mk_stop_def rc_wheelchair_def)
  have route: "get_route_transport example_rc 1 625 0 2 [False, False, False, False] False 0 = Some (0, example_leg)"
  proof -
    have range: "iv_list (route_transport_ranges example_timetable ! 0) = [0, 1]" by (simp add: one iv_list_def mk_iv_def upt_rec)
    have size: "length (route_location_seq example_timetable ! 0) mod 2 ^ 16 = 3" by (simp add: one)
    show ?thesis
      unfolding get_route_transport_def example_rc_simps range size first_some.simps example_candidate option.case prod.case example_found ..
  qed
  have upt: "[0..<3] = [0, 1, 2::nat]" by (simp add: upt_rec)
  have static: "get_static_transport example_rc 1 2 625 False 0 0 = Some (0, example_leg)"
  proof -
    have size: "[0..<length (route_location_seq example_timetable ! 0)] = [0, 1, 2]" by (simp add: one upt_rec)
    have four: "replicate 4 False = [False, False, False, False]" by (simp add: numeral_eq_Suc)
    have all: "is_allowed all_clasz_allowed (route_clasz example_timetable ! 0) = True" by (simp add: is_allowed_all)
    have "exit_at example_rc 2 (route_location_seq example_timetable ! 0) 0 = False"
      "exit_at example_rc 2 (route_location_seq example_timetable ! 0) 1 = False"
      "exit_at example_rc 2 (route_location_seq example_timetable ! 0) 2 = True" "2 mod 2 ^ 16 = (2::nat)"
      using exits [of 0] exits [of 1] exits [of 2] by simp_all
    then show ?thesis using route
      unfolding get_static_transport_def example_rc_simps flags flag_sections.simps option.case Let_def size first_some.simps all four
      by (simp only: not_True_eq_False not_False_eq_True if_True if_False option.case)
  qed
  have transport: "get_transport example_rc 1 2 625 False 0 = Some (0, example_leg)"
    using static by (simp add: get_transport_def example_rc_simps one)
  have unix: "rc_unix example_rc t = t" for t by (simp add: rc_unix_def delta_to_unix_def example_rc_simps)
  have legs: "get_legs example_rc 1 1 2 0 = Some (0, mk_leg Forward 2 2 625 625 (UsesFootpath \<lparr>fp_target = 2, fp_duration = 0\<rparr>), example_leg)"
    using transport
    by (simp add: get_legs_def Let_def example_rc_simps mk_footpath_eq at3_def check_fp_def count_fp_vias_def fp_attempt_def dir_def wrap_s16_id unix)
  have start: "find_start_footpath example_rc 595 example_leg 0 = Some None"
    by (simp add: find_start_footpath_def Let_def example_rc_simps is_journey_start_def matches_def is_better_or_eq_def dir_def)
  show ?thesis
    using legs start
    by (simp add: raw_legs_def Let_def example_j_def example_rc_simps mk_leg_def)
qed

section \<open>The reconstruction is sound\<close>

lemma example_recon_ok: "recon_ok example_rc example_j"
proof -
  have n: "n_places example_rc = 3" by (simp add: example_rc_simps) (simp add: example_timetable_def)
  have runs: "runs_ok example_rc"
  proof -
    have seq: "stop_loc (stop_of_value x) < 3" if "x \<in> set (route_location_seq example_timetable ! 0)" for x
    proof -
      have "length (route_location_seq example_timetable ! 0) = 3" by (simp add: example_timetable_def)
      with that obtain i where "i < 3" "x = route_location_seq example_timetable ! 0 ! i" by (metis in_set_conv_nth)
      then show ?thesis by (simp only: example_stop) (simp add: mk_stop_def)
    qed
    have t: "0 \<le> delta_count (event_mam example_timetable t s Arr)" if "t \<in> {0, 1}" "s < 3" "s \<noteq> 0" for t s
    proof -
      from that(2,3) have "s = 1 \<or> s = 2" by auto
      moreover have "event_mam example_timetable 0 1 Arr = \<lparr>days = 0, mam = 610\<rparr>" "event_mam example_timetable 1 1 Arr = \<lparr>days = 0, mam = 670\<rparr>"
        "event_mam example_timetable 1 2 Arr = \<lparr>days = 0, mam = 685\<rparr>"
        by (simp_all add: event_mam_def event_mam_r_def Let_def example_timetable_def delta_plus_def delta_of_minutes_def)
      ultimately show ?thesis using that(1) example_mams(3) by (elim insertE disjE emptyE) (simp_all add: delta_count_def wrap_s16_id)
    qed
    have routes: "location_routes example_timetable = [[0], [0], [0]]" "transport_route example_timetable = [0, 0]"
      "length (route_location_seq example_timetable ! 0) = 3" "iv_list (route_transport_ranges example_timetable ! 0) = [0, 1]"
      by (simp_all add: example_timetable_def iv_list_def mk_iv_def upt_rec)
    have "ifrom (internal_interval_days example_timetable) = - 5"
      by (simp add: internal_interval_days_def mk_iv_def kTimetableOffset_def example_timetable_def empty_timetable_def)
    then show ?thesis
      using seq t unfolding runs_ok_def example_rc_simps routes rc_arr_def
      by (simp add: routes exit_at_def Let_def example_rc_simps numeral_3_eq_3)
  qed
  have table: "l < 3 \<Longrightarrow> walk_table example_rc ! l = []" for l
    by (auto simp: walk_table_def example_rc_simps less_Suc_eq numeral_3_eq_3) (simp_all add: example_timetable_def)
  have places: "places_ok example_rc"
    unfolding places_ok_def n
    by (auto simp: table example_rc_simps)
       (simp add: example_rc_def example_trip_query_def for_each_meta_def example_timetable_def)
  have short: "short_walks example_rc"
    unfolding short_walks_def n by (auto simp: table example_rc_simps adjusted_default)
  have labels: "labels_calm example_rc 1"
    unfolding labels_calm_def n
    by (auto simp: calm_def dir_def example_rc_simps at3_def less_Suc_eq numeral_3_eq_3 le_Suc_eq)
  show ?thesis using runs places short labels n
    by (simp add: recon_ok_def example_j_def near_base_def example_rc_simps)
qed



end
