(* ===== verification/Optimize_Correct.thy ===== *)
theory Optimize_Correct
  imports Reconstruct_Correct
begin

text \<open>
  The last passes keep a journey travellable: a pass moves where a ride is boarded or left and the walk
  with it, never starting earlier or arriving later. The passes look only at the ordinary permission to
  board, so this is shown for queries that require nothing of the sections they use.
\<close>

section \<open>Journeys in the order of travel\<close>

abbreviation rc_adjusted :: "recon \<Rightarrow> int \<Rightarrow> int" where
  "rc_adjusted rc \<equiv> adjusted_transfer_time i16 (q_transfer_time_settings (rc_q rc))"

text \<open>The query the passes read: the one of the traveller, whatever direction was searched in.\<close>

definition journey_query :: "recon \<Rightarrow> query" where
  "journey_query rc = (if rc_fwd rc then rc_q rc else flip_dir (rc_q rc))"

text \<open>A walk from stop to stop has its entry in the tables: a change at one stop takes at least the
  stop's transfer time, any other walk at least the adjusted duration of a footpath of the query's profile,
  or the duration a time-dependent footpath offers for an arrival not before that of the leg.\<close>

definition walked :: "recon \<Rightarrow> leg \<Rightarrow> bool" where
  "walked rc leg \<longleftrightarrow>
     (let a = leg_from leg; b = leg_to leg; m = leg_arr_time leg - leg_dep_time leg
      in a = b \<and> stop_change rc a \<le> m \<or>
         (\<exists>fp \<in> set (footpaths_out (rc_tt rc) ! rc_prf rc ! a). fp_target fp = b \<and> rc_adjusted rc (fp_duration fp) \<le> m) \<or>
         (\<exists>fp \<in> set (footpaths_in (rc_tt rc) ! rc_prf rc ! b). fp_target fp = a \<and> rc_adjusted rc (fp_duration fp) \<le> m) \<or>
         (\<exists>rtt T d w. rc_rtt rc = Some rtt \<and> rc_has_td rc False b \<and>
            (a, d, w) \<in> set (for_each_footpath Backward (td_footpaths_in rtt ! rc_prf rc ! b) T) \<and>
            leg_arr_time leg \<le> T \<and> d \<le> m))"

text \<open>An offset of the query with this duration that leads to or from a stop.\<close>

definition offset_of :: "timetable \<Rightarrow> location_match_mode \<Rightarrow> offset list \<Rightarrow> offset \<Rightarrow> nat \<Rightarrow> bool" where
  "offset_of tt mode os o' l \<longleftrightarrow> (\<exists>x \<in> set os. off_duration x = off_duration o' \<and> matches tt mode (off_target x) l)"

text \<open>A ride of a run, a walk of the tables, an offset of the start on the first leg or an offset of the
  destination on the final one.\<close>

definition good_leg :: "recon \<Rightarrow> bool \<Rightarrow> bool \<Rightarrow> leg \<Rightarrow> bool" where
  "good_leg rc first final leg =
     (let q = journey_query rc in
      case leg_uses leg of
        UsesRun ree \<Rightarrow> (\<exists>r a b. ride_ok rc r a b leg)
      | UsesFootpath fp \<Rightarrow> walked rc leg \<and>
          leg_dep_time leg + min (fp_duration fp) (rc_adjusted rc (fp_duration fp)) \<le> leg_arr_time leg
      | UsesOffset o' \<Rightarrow> (0 \<le> off_duration o' \<longrightarrow> leg_dep_time leg + off_duration o' = leg_arr_time leg) \<and>
          (first \<and> offset_of (rc_tt rc) (q_start_match_mode q) (q_start q) o' (leg_to leg) \<or>
           final \<and> offset_of (rc_tt rc) (q_dest_match_mode q) (q_destination q) o' (leg_from leg)))"

definition follows :: "leg \<Rightarrow> leg \<Rightarrow> bool" where
  "follows x y \<longleftrightarrow> leg_to x = leg_from y \<and> leg_arr_time x \<le> leg_dep_time y"

definition itinerary :: "recon \<Rightarrow> leg list \<Rightarrow> bool" where
  "itinerary rc legs \<longleftrightarrow> (\<forall>i < length legs. good_leg rc (i = 0) (Suc i = length legs) (legs ! i)) \<and> successively follows legs"

text \<open>As good a journey between the same places.\<close>

definition no_worse :: "leg list \<Rightarrow> leg list \<Rightarrow> bool" where
  "no_worse legs legs' \<longleftrightarrow> length legs' = length legs \<and>
     leg_from (hd legs') = leg_from (hd legs) \<and> leg_dep_time (hd legs) \<le> leg_dep_time (hd legs') \<and>
     leg_to (last legs') = leg_to (last legs) \<and> leg_arr_time (last legs') \<le> leg_arr_time (last legs)"

lemma no_worse_refl [simp]: "no_worse legs legs"
  by (simp add: no_worse_def)

lemma no_worse_trans: "no_worse a b \<Longrightarrow> no_worse b c \<Longrightarrow> no_worse a c"
  by (simp add: no_worse_def)

lemma ride_good: "ride_ok rc r a b leg \<Longrightarrow> good_leg rc first final leg"
  by (auto simp: good_leg_def ride_ok_def Let_def split: leg_uses.splits)

lemma good_update:
  assumes "\<forall>i < length legs. good_leg rc (i = 0) (Suc i = length legs) (legs ! i)" "good_leg rc (k = 0) (Suc k = length legs) x"
  shows "\<forall>i < length (legs[k := x]). good_leg rc (i = 0) (Suc i = length (legs[k := x])) (legs[k := x] ! i)"
proof (intro allI impI)
  fix i assume "i < length (legs[k := x])"
  with assms show "good_leg rc (i = 0) (Suc i = length (legs[k := x])) (legs[k := x] ! i)" by (cases "i = k") simp_all
qed

lemma itinerary_all: "itinerary rc legs \<Longrightarrow> \<forall>i < length legs. good_leg rc (i = 0) (Suc i = length legs) (legs ! i)"
  unfolding itinerary_def by (rule conjunct1)

lemma itinerary_nth: "itinerary rc legs \<Longrightarrow> i < length legs \<Longrightarrow> good_leg rc (i = 0) (Suc i = length legs) (legs ! i)"
  by (simp add: itinerary_def)

text \<open>Replacing the first two, the last two or three neighbouring legs.\<close>

lemma replace_front:
  assumes "itinerary rc (x # y # ls)" "good_leg rc True False x'" "\<And>b c. good_leg rc b c y'" "follows x' y'"
    and "leg_from x' = leg_from x" "leg_dep_time x \<le> leg_dep_time x'" "leg_to y' = leg_to y" "leg_arr_time y' = leg_arr_time y"
  shows "itinerary rc (x' # y' # ls) \<and> no_worse (x # y # ls) (x' # y' # ls)"
proof -
  let ?legs = "x # y # ls"
  from good_update [OF good_update [OF itinerary_all [OF assms(1)], of 0 x'], of 1 y'] assms(2,3)
  have "\<forall>i < length (x' # y' # ls). good_leg rc (i = 0) (Suc i = length (x' # y' # ls)) ((x' # y' # ls) ! i)" by simp
  moreover have "successively follows (x' # y' # ls) \<and> no_worse (x # y # ls) (x' # y' # ls)"
    using assms by (cases ls) (auto simp: itinerary_def no_worse_def follows_def successively_Cons)
  ultimately show ?thesis by (simp only: itinerary_def)
qed

lemma replace_back:
  assumes "itinerary rc (ls @ [y, x])" "good_leg rc False True x'" "\<And>b c. good_leg rc b c y'" "follows y' x'"
    and "leg_to x' = leg_to x" "leg_arr_time x' \<le> leg_arr_time x" "leg_from y' = leg_from y" "leg_dep_time y' = leg_dep_time y"
  shows "itinerary rc (ls @ [y', x']) \<and> no_worse (ls @ [y, x]) (ls @ [y', x'])"
proof -
  let ?legs = "ls @ [y, x]"
  have upd: "?legs[length ls := y', Suc (length ls) := x'] = ls @ [y', x']" by (simp add: list_update_append)
  from good_update [OF good_update [OF itinerary_all [OF assms(1)] assms(3), of "length ls"], of "Suc (length ls)" x', unfolded upd] assms(2)
  have "\<forall>i < length (ls @ [y', x']). good_leg rc (i = 0) (Suc i = length (ls @ [y', x'])) ((ls @ [y', x']) ! i)" by simp
  moreover have "successively follows (ls @ [y', x']) \<and> no_worse (ls @ [y, x]) (ls @ [y', x'])"
    using assms by (cases "ls = []") (auto simp: itinerary_def no_worse_def follows_def successively_append_iff)
  ultimately show ?thesis by (simp only: itinerary_def)
qed

lemma replace_three:
  assumes "itinerary rc legs" "i + 2 < length legs" "\<And>b c. good_leg rc b c x'" "good_leg rc False False y'" "\<And>b c. good_leg rc b c z'" "follows x' y'" "follows y' z'"
    and "leg_from x' = leg_from (legs ! i)" "leg_dep_time x' = leg_dep_time (legs ! i)"
    and "leg_to z' = leg_to (legs ! (i + 2))" "leg_arr_time z' = leg_arr_time (legs ! (i + 2))"
  shows "itinerary rc (legs[i := x', i + 1 := y', i + 2 := z']) \<and> no_worse legs (legs[i := x', i + 1 := y', i + 2 := z'])"
proof -
  define xs where "xs = take i legs"
  define zs where "zs = drop (i + 3) legs"
  have split: "legs = xs @ [legs ! i, legs ! (i + 1), legs ! (i + 2)] @ zs"
    using assms(2) by (simp add: xs_def zs_def Cons_nth_drop_Suc numeral_3_eq_3)
  have len: "length xs = i" using assms(2) by (simp add: xs_def)
  obtain x y z where xyz: "x = legs ! i" "y = legs ! (i + 1)" "z = legs ! (i + 2)" by blast
  note split = split [folded xyz]
  have upd: "legs[i := x', i + 1 := y', i + 2 := z'] = xs @ [x', y', z'] @ zs"
    unfolding split using len by (simp add: list_update_append)
  from good_update [OF good_update [OF good_update [OF itinerary_all [OF assms(1)] assms(3), of i], of "i + 1" y'] assms(5), of "i + 2"] assms(2,4)
  have "\<forall>k < length (legs[i := x', i + 1 := y', i + 2 := z']).
      good_leg rc (k = 0) (Suc k = length (legs[i := x', i + 1 := y', i + 2 := z'])) (legs[i := x', i + 1 := y', i + 2 := z'] ! k)" by simp
  moreover have "successively follows (legs[i := x', i + 1 := y', i + 2 := z']) \<and> no_worse legs (legs[i := x', i + 1 := y', i + 2 := z'])"
    unfolding upd using assms(1,6-) unfolding xyz [symmetric]
    by (subst (asm) (1) split, subst (1) split, cases xs; cases zs)
       (auto simp: itinerary_def no_worse_def follows_def successively_append_iff successively_Cons hd_append)
  ultimately show ?thesis by (simp only: itinerary_def)
qed

section \<open>Moving the ends of a ride\<close>

text \<open>A query that requires nothing of the sections.\<close>

definition ordinary :: "recon \<Rightarrow> bool" where
  "ordinary rc \<longleftrightarrow> rc_required_flags rc = []"

lemma ordinary_wheelchair: "ordinary rc \<Longrightarrow> \<not> rc_wheelchair rc"
  by (auto simp: ordinary_def rc_required_flags_def)

lemma ride_range:
  assumes "ride_ok rc r a b leg"
  shows "leg_uses leg = UsesRun \<lparr>ree_run = r, ree_stop_range = mk_iv a (b + 1)\<rparr>" "a < b"
    "b < fr_size (rc_tt rc) (rc_rtt rc) (frun (rc_rtt rc) r)" "b < 65535"
proof -
  show "leg_uses leg = UsesRun \<lparr>ree_run = r, ree_stop_range = mk_iv a (b + 1)\<rparr>" "a < b"
    and b: "b < fr_size (rc_tt rc) (rc_rtt rc) (frun (rc_rtt rc) r)"
    using assms by (simp_all add: ride_ok_def Let_def)
  from b fr_size_less [of "rc_tt rc" "rc_rtt rc" "frun (rc_rtt rc) r"] show "b < 65535" by linarith
qed

lemma board_at_ride:
  assumes ride: "ride_ok rc r a b leg" and s: "s < b" "fr_in_allowed (rc_tt rc) (rc_rtt rc) (frun (rc_rtt rc) r) s False"
    and ord: "ordinary rc"
  shows "ride_ok rc r s b (board_at (get_location_idx (rc_tt rc) (rc_rtt rc) (frun (rc_rtt rc) r) s)
      (fr_time (rc_tt rc) (rc_rtt rc) (frun (rc_rtt rc) r) s Dep) s leg)"
  using ride ride_range [OF ride] s ord ordinary_wheelchair [OF ord]
  by (simp add: ride_ok_def Let_def board_at_def ride_of_def mk_iv_def at_event_def ordinary_def)

lemma alight_at_ride:
  assumes ride: "ride_ok rc r a b leg" and s: "a < s" "s < fr_size (rc_tt rc) (rc_rtt rc) (frun (rc_rtt rc) r)"
      "fr_out_allowed (rc_tt rc) (rc_rtt rc) (frun (rc_rtt rc) r) s False"
    and ord: "ordinary rc"
  shows "ride_ok rc r a s (alight_at (get_location_idx (rc_tt rc) (rc_rtt rc) (frun (rc_rtt rc) r) s)
      (fr_time (rc_tt rc) (rc_rtt rc) (frun (rc_rtt rc) r) s Arr) s leg)"
proof -
  have "(s + 1) mod 2 ^ 16 = s + 1" using s(2) fr_size_less [of "rc_tt rc" "rc_rtt rc" "frun (rc_rtt rc) r"] by simp
  then show ?thesis using ride ride_range [OF ride] s ord ordinary_wheelchair [OF ord]
    by (simp add: ride_ok_def Let_def alight_at_def ride_of_def mk_iv_def at_event_def ordinary_def)
qed

lemma moved_ends [simp]:
  "leg_from (board_at l t s leg) = l" "leg_dep_time (board_at l t s leg) = t"
  "leg_to (board_at l t s leg) = leg_to leg" "leg_arr_time (board_at l t s leg) = leg_arr_time leg"
  "leg_to (alight_at l t s leg) = l" "leg_arr_time (alight_at l t s leg) = t"
  "leg_from (alight_at l t s leg) = leg_from leg" "leg_dep_time (alight_at l t s leg) = leg_dep_time leg"
  by (simp_all add: board_at_def alight_at_def Let_def)

lemma stops_before_exit_less:
  assumes "ride_ok rc r a b leg" "leg_uses leg = UsesRun ree" "s \<in> set (stops_before_exit tt rtt q ree)"
  shows "s < b"
proof -
  from ride_range [OF assms(1)] assms(2) have "ito (ree_stop_range ree) = b + 1" "b < 65535" by (simp_all add: mk_iv_def)
  then have "nat (u16 (int (ito (ree_stop_range ree)) - 1)) = b" by simp
  then show ?thesis using assms(3) set_takeWhileD [of s] by (fastforce simp: stops_before_exit_def Let_def)
qed

lemma stops_after_entry_less:
  assumes "ride_ok rc r a b leg" "leg_uses leg = UsesRun ree" "s \<in> set (stops_after_entry (rc_tt rc) (rc_rtt rc) q ree)"
  shows "a < s" "s < fr_size (rc_tt rc) (rc_rtt rc) (frun (rc_rtt rc) r)"
proof -
  from ride_range [OF assms(1)] assms(2) have ree: "ree_run ree = r" "ifrom (ree_stop_range ree) = a" "a + 1 < 65536"
    by (simp_all add: mk_iv_def)
  then have "(ifrom (ree_stop_range ree) + 1) mod 2 ^ 16 = a + 1" by simp
  with assms(3) ree(1) show "a < s" "s < fr_size (rc_tt rc) (rc_rtt rc) (frun (rc_rtt rc) r)"
    by (auto simp: stops_after_entry_def Let_def split: option.splits)
qed

section \<open>The passes at the two ends\<close>

lemma journey_query_walks [simp]:
  "q_transfer_time_settings (journey_query rc) = q_transfer_time_settings (rc_q rc)" "q_prf_idx (journey_query rc) = rc_prf rc"
  by (simp_all add: journey_query_def flip_dir_def)

lemma offset_of_exact: "x \<in> set os \<Longrightarrow> matches tt kExact (off_target x) l \<Longrightarrow> offset_of tt mode os x l"
  unfolding offset_of_def by (rule bexI [of _ x]) (cases mode; simp add: matches_def)+

definition front_state :: "recon \<Rightarrow> run \<Rightarrow> nat \<Rightarrow> leg \<Rightarrow> leg \<Rightarrow> leg \<times> leg \<times> int \<Rightarrow> bool" where
  "front_state rc r b wl0 rl0 = (\<lambda>(wl, rl, shortest). good_leg rc True False wl \<and> (\<exists>a. ride_ok rc r a b rl) \<and> follows wl rl \<and>
     leg_from wl = leg_from wl0 \<and> leg_dep_time wl0 \<le> leg_dep_time wl \<and> leg_to rl = leg_to rl0 \<and> leg_arr_time rl = leg_arr_time rl0)"

definition back_state :: "recon \<Rightarrow> run \<Rightarrow> nat \<Rightarrow> leg \<Rightarrow> leg \<Rightarrow> leg \<times> leg \<times> int \<Rightarrow> bool" where
  "back_state rc r a wl0 rl0 = (\<lambda>(wl, rl, shortest). good_leg rc False True wl \<and> (\<exists>b. ride_ok rc r a b rl) \<and> follows rl wl \<and>
     leg_to wl = leg_to wl0 \<and> leg_arr_time wl \<le> leg_arr_time wl0 \<and> leg_from rl = leg_from rl0 \<and> leg_dep_time rl = leg_dep_time rl0)"

lemma offset_before_state:
  assumes "front_state rc r b wl0 rl0 st" "s < b" "ordinary rc"
    and "fr_in_allowed (rc_tt rc) (rc_rtt rc) (frun (rc_rtt rc) r) s False" "x \<in> set (q_start (journey_query rc))"
  shows "front_state rc r b wl0 rl0 (offset_before (rc_tt rc) (rc_rtt rc) (frun (rc_rtt rc) r) s x st)"
proof -
  obtain wl rl n where st: "st = (wl, rl, n)" by (cases st)
  from assms(1) st obtain a where "ride_ok rc r a b rl" by (auto simp: front_state_def)
  from board_at_ride [OF this assms(2,4,3)] assms(1) offset_of_exact [OF assms(5)] show ?thesis
    by (auto simp: st front_state_def offset_before_def Let_def good_leg_def follows_def)
qed

lemma offset_after_state:
  assumes "back_state rc r a wl0 rl0 st" "a < s" "s < fr_size (rc_tt rc) (rc_rtt rc) (frun (rc_rtt rc) r)" "ordinary rc"
    and "fr_out_allowed (rc_tt rc) (rc_rtt rc) (frun (rc_rtt rc) r) s False" "x \<in> set (q_destination (journey_query rc))"
  shows "back_state rc r a wl0 rl0 (offset_after (rc_tt rc) (rc_rtt rc) (frun (rc_rtt rc) r) s x st)"
proof -
  obtain wl rl n where st: "st = (wl, rl, n)" by (cases st)
  from assms(1) st obtain b where "ride_ok rc r a b rl" by (auto simp: back_state_def)
  from alight_at_ride [OF this assms(2,3,5,4)] assms(1) offset_of_exact [OF assms(6)] show ?thesis
    by (auto simp: st back_state_def offset_after_def Let_def good_leg_def follows_def)
qed

text \<open>The durations of the tables.\<close>

definition table_durations :: "recon \<Rightarrow> bool" where
  "table_durations rc \<longleftrightarrow> (\<forall>l < n_places rc. \<forall>fp \<in> set (footpaths_out (rc_tt rc) ! rc_prf rc ! l) \<union> set (footpaths_in (rc_tt rc) ! rc_prf rc ! l).
     0 \<le> fp_duration fp \<and> fp_duration fp \<le> 511)"

lemma fold_stops_invariant:
  assumes "fold_stops f ss x = Some y" "P x" "\<And>s x y. s \<in> set ss \<Longrightarrow> P x \<Longrightarrow> f s x = Some y \<Longrightarrow> P y"
  shows "P y"
proof -
  let ?P = "\<lambda>acc. \<forall>y. acc = Some y \<longrightarrow> P y"
  have "?P (fold (\<lambda>s acc. case acc of None \<Rightarrow> None | Some y \<Rightarrow> f s y) ss (Some x))"
    by (rule fold_invariant [where P = ?P]) (use assms(2,3) in \<open>auto split: option.splits\<close>)
  then show ?thesis using assms(1) by (simp add: fold_stops_def)
qed

lemma adjusted_walk:
  assumes "short_walks rc" "0 \<le> x" "x \<le> 511" "mk_footpath t (rc_adjusted rc x) = Some fp"
  shows "min (fp_duration fp) (rc_adjusted rc (fp_duration fp)) \<le> rc_adjusted rc x"
proof -
  have "0 \<le> rc_adjusted rc x" using assms(1-3) by (simp add: short_walks_def)
  with mk_footpath_range [OF assms(4)] show ?thesis by linarith
qed

lemma footpath_before_state:
  assumes "front_state rc r b wl0 rl0 st" "s < b" "ordinary rc" "short_walks rc" "fps = footpaths_out (rc_tt rc) ! rc_prf rc ! leg_from wl0"
    and fps: "\<And>fp. fp \<in> set fps \<Longrightarrow> 0 \<le> fp_duration fp \<and> fp_duration fp \<le> 511"
    and step: "footpath_before (rc_tt rc) (rc_rtt rc) (journey_query rc) (frun (rc_rtt rc) r) fps s st = Some st'"
  shows "front_state rc r b wl0 rl0 st'"
proof -
  let ?fr = "frun (rc_rtt rc) r"
  let ?l = "get_location_idx (rc_tt rc) (rc_rtt rc) ?fr s"
  obtain wl rl n where st: "st = (wl, rl, n)" by (cases st)
  from assms(1) st obtain a where ride: "ride_ok rc r a b rl" by (auto simp: front_state_def)
  show ?thesis
  proof (cases "st' = st")
    case False
    then obtain fp fp' where fp: "List.find (\<lambda>fp. fp_target fp = ?l) fps = Some fp"
      and allowed: "fr_in_allowed (rc_tt rc) (rc_rtt rc) ?fr s False"
      and fp': "mk_footpath ?l (rc_adjusted rc (fp_duration fp)) = Some fp'"
      and late: "leg_dep_time wl \<le> fr_time (rc_tt rc) (rc_rtt rc) ?fr s Dep - rc_adjusted rc (fp_duration fp)"
      and st': "st' = (wl\<lparr>leg_to := ?l, leg_dep_time := fr_time (rc_tt rc) (rc_rtt rc) ?fr s Dep - rc_adjusted rc (fp_duration fp),
          leg_arr_time := fr_time (rc_tt rc) (rc_rtt rc) ?fr s Dep, leg_uses := UsesFootpath fp'\<rparr>,
        board_at ?l (fr_time (rc_tt rc) (rc_rtt rc) ?fr s Dep) s rl, rc_adjusted rc (fp_duration fp))"
      using step by (auto simp: st footpath_before_def Let_def split: if_splits option.splits)
    from find_SomeD [OF fp] fps have mem: "fp \<in> set fps" "fp_target fp = ?l" "0 \<le> fp_duration fp" "fp_duration fp \<le> 511" by blast+
    note A = adjusted_walk [OF assms(4) mem(3,4) fp']
    have "walked rc (fst st')"
      using mem(1,2) assms(1,5) unfolding walked_def Let_def by (auto simp: st st' front_state_def intro!: bexI [of _ fp])
    with A board_at_ride [OF ride assms(2) allowed assms(3)] assms(1) late show ?thesis
      by (auto simp: st st' front_state_def good_leg_def follows_def)
  qed (use assms(1) in simp)
qed

lemma footpath_after_state:
  assumes "back_state rc r a wl0 rl0 st" "a < s" "s < fr_size (rc_tt rc) (rc_rtt rc) (frun (rc_rtt rc) r)" "ordinary rc"
    and "short_walks rc" "fps = footpaths_in (rc_tt rc) ! rc_prf rc ! leg_to wl0"
    and fps: "\<And>fp. fp \<in> set fps \<Longrightarrow> 0 \<le> fp_duration fp \<and> fp_duration fp \<le> 511"
    and step: "footpath_after (rc_tt rc) (rc_rtt rc) (journey_query rc) (frun (rc_rtt rc) r) fps (leg_to wl0) s st = Some st'"
  shows "back_state rc r a wl0 rl0 st'"
proof -
  let ?fr = "frun (rc_rtt rc) r"
  let ?l = "get_location_idx (rc_tt rc) (rc_rtt rc) ?fr s"
  obtain wl rl n where st: "st = (wl, rl, n)" by (cases st)
  from assms(1) st obtain b where ride: "ride_ok rc r a b rl" by (auto simp: back_state_def)
  show ?thesis
  proof (cases "st' = st")
    case False
    then obtain fp fp' where fp: "List.find (\<lambda>fp. fp_target fp = ?l) fps = Some fp"
      and allowed: "fr_out_allowed (rc_tt rc) (rc_rtt rc) ?fr s False"
      and fp': "mk_footpath (leg_to wl0) (rc_adjusted rc (fp_duration fp)) = Some fp'"
      and early: "fr_time (rc_tt rc) (rc_rtt rc) ?fr s Arr + rc_adjusted rc (fp_duration fp) \<le> leg_arr_time wl"
      and st': "st' = (wl\<lparr>leg_from := ?l, leg_dep_time := fr_time (rc_tt rc) (rc_rtt rc) ?fr s Arr,
          leg_arr_time := fr_time (rc_tt rc) (rc_rtt rc) ?fr s Arr + rc_adjusted rc (fp_duration fp), leg_uses := UsesFootpath fp'\<rparr>,
        alight_at ?l (fr_time (rc_tt rc) (rc_rtt rc) ?fr s Arr) s rl, rc_adjusted rc (fp_duration fp))"
      using step by (auto simp: st footpath_after_def Let_def split: if_splits option.splits)
    from find_SomeD [OF fp] fps have mem: "fp \<in> set fps" "fp_target fp = ?l" "0 \<le> fp_duration fp" "fp_duration fp \<le> 511" by blast+
    note A = adjusted_walk [OF assms(5) mem(3,4) fp']
    have "walked rc (fst st')"
      using mem(1,2) assms(1,6) unfolding walked_def Let_def by (auto simp: st st' back_state_def intro!: bexI [of _ fp])
    with A alight_at_ride [OF ride assms(2,3) allowed assms(4)] assms(1) early show ?thesis
      by (auto simp: st st' back_state_def good_leg_def follows_def)
  qed (use assms(1) in simp)
qed

lemma front_result:
  assumes "itinerary rc (wl # rl # ls)" "front_state rc r b wl rl (wl', rl', n)"
  shows "itinerary rc (wl' # rl' # ls) \<and> no_worse (wl # rl # ls) (wl' # rl' # ls)"
  using assms ride_good by (intro replace_front) (auto simp: front_state_def)

lemma back_result:
  assumes "itinerary rc (rev ls @ [rl, wl])" "back_state rc r a wl rl (wl', rl', n)"
  shows "itinerary rc (rev ls @ [rl', wl']) \<and> no_worse (rev ls @ [rl, wl]) (rev ls @ [rl', wl'])"
  using assms ride_good by (intro replace_back) (auto simp: back_state_def)

lemma itinerary_ride:
  assumes "itinerary rc legs" "leg \<in> set legs" "leg_uses leg = UsesRun ree"
  obtains r a b where "ride_ok rc r a b leg" "ree_run ree = r"
proof -
  from assms(2) obtain i where "i < length legs" "legs ! i = leg" by (auto simp: in_set_conv_nth)
  with itinerary_nth [OF assms(1), of i] assms(3) obtain r a b where "ride_ok rc r a b leg" by (auto simp: good_leg_def)
  with that assms(3) ride_range(1) [OF this] show ?thesis by auto
qed

text \<open>What every pass keeps.\<close>

definition pass_ok :: "recon \<Rightarrow> query \<Rightarrow> bool" where
  "pass_ok rc q \<longleftrightarrow> ordinary rc \<and> short_walks rc \<and> q = journey_query rc \<and> table_durations rc"

definition walk_ends :: "recon \<Rightarrow> leg list \<Rightarrow> bool" where
  "walk_ends rc legs \<longleftrightarrow> leg_from (hd legs) < n_places rc \<and> leg_to (last legs) < n_places rc"

lemma optimize_initial_departure_keeps:
  assumes it: "itinerary rc legs" and ok: "pass_ok rc q" and g: "optimize_initial_departure (rc_tt rc) (rc_rtt rc) q legs = Some legs'"
  shows "itinerary rc legs' \<and> no_worse legs legs'"
proof (cases "legs' = legs")
  case False
  with g obtain wl rl ls o' ree where legs: "legs = wl # rl # ls" and uses: "leg_uses wl = UsesOffset o'" "leg_uses rl = UsesRun ree"
    by (auto simp: optimize_initial_departure_def split: list.splits leg_uses.splits)
  from itinerary_ride [OF it _ uses(2)] legs obtain r a b where ride: "ride_ok rc r a b rl" "ree_run ree = r" by auto
  let ?fr = "frun (rc_rtt rc) r"
  let ?f = "\<lambda>s st. if \<not> fr_in_allowed (rc_tt rc) (rc_rtt rc) ?fr s False then st
    else fold (offset_before (rc_tt rc) (rc_rtt rc) ?fr s) (q_start q) st"
  obtain wl' rl' n where fold: "fold ?f (stops_before_exit (rc_tt rc) (rc_rtt rc) q ree) (wl, rl, off_duration o') = (wl', rl', n)"
    by (rule prod_cases3)
  have "front_state rc r b wl rl (fold ?f (stops_before_exit (rc_tt rc) (rc_rtt rc) q ree) (wl, rl, off_duration o'))"
  proof (rule fold_invariant [where P = "front_state rc r b wl rl"])
    show "front_state rc r b wl rl (wl, rl, off_duration o')"
      using it itinerary_nth [OF it, of 0] ride(1) by (auto simp: front_state_def legs itinerary_def)
  next
    fix s st assume s: "s \<in> set (stops_before_exit (rc_tt rc) (rc_rtt rc) q ree)" and st: "front_state rc r b wl rl st"
    from stops_before_exit_less [OF ride(1) uses(2) s] have s: "s < b" .
    show "front_state rc r b wl rl (?f s st)"
    proof (cases "fr_in_allowed (rc_tt rc) (rc_rtt rc) ?fr s False")
      case True
      have "front_state rc r b wl rl (fold (offset_before (rc_tt rc) (rc_rtt rc) ?fr s) (q_start q) st)"
        by (rule fold_invariant [where P = "front_state rc r b wl rl"])
           (use st offset_before_state s ok True in \<open>auto simp: pass_ok_def\<close>)
      with True show ?thesis by simp
    qed (use st in simp)
  qed
  moreover have "legs' = wl' # rl' # ls" using g fold by (simp add: optimize_initial_departure_def legs uses ride(2))
  ultimately show ?thesis using front_result it by (simp add: fold legs)
qed (use it in simp)

lemma optimize_last_arrival_keeps:
  assumes it: "itinerary rc legs" and ok: "pass_ok rc q" and g: "optimize_last_arrival (rc_tt rc) (rc_rtt rc) q legs = Some legs'"
  shows "itinerary rc legs' \<and> no_worse legs legs'"
proof (cases "legs' = legs")
  case False
  with g obtain wl rl ls o' ree where rev: "rev legs = wl # rl # ls" and uses: "leg_uses wl = UsesOffset o'" "leg_uses rl = UsesRun ree"
    by (auto simp: optimize_last_arrival_def split: list.splits leg_uses.splits)
  then have legs: "legs = rev ls @ [rl, wl]" by (simp add: rev_swap)
  from itinerary_ride [OF it _ uses(2)] legs obtain r a b where ride: "ride_ok rc r a b rl" "ree_run ree = r" by auto
  let ?fr = "frun (rc_rtt rc) r"
  let ?f = "\<lambda>s st. if \<not> fr_out_allowed (rc_tt rc) (rc_rtt rc) ?fr s False then st
    else fold (offset_after (rc_tt rc) (rc_rtt rc) ?fr s) (q_destination q) st"
  obtain wl' rl' n where fold: "fold ?f (stops_after_entry (rc_tt rc) (rc_rtt rc) q ree) (wl, rl, off_duration o') = (wl', rl', n)"
    by (rule prod_cases3)
  have "back_state rc r a wl rl (fold ?f (stops_after_entry (rc_tt rc) (rc_rtt rc) q ree) (wl, rl, off_duration o'))"
  proof (rule fold_invariant [where P = "back_state rc r a wl rl"])
    show "back_state rc r a wl rl (wl, rl, off_duration o')"
      using it itinerary_nth [OF it, of "length legs - 1"] ride(1) by (auto simp: back_state_def legs itinerary_def successively_append_iff nth_append)
  next
    fix s st assume s: "s \<in> set (stops_after_entry (rc_tt rc) (rc_rtt rc) q ree)" and st: "back_state rc r a wl rl st"
    note s = stops_after_entry_less [OF ride(1) uses(2) s]
    show "back_state rc r a wl rl (?f s st)"
    proof (cases "fr_out_allowed (rc_tt rc) (rc_rtt rc) ?fr s False")
      case True
      have "back_state rc r a wl rl (fold (offset_after (rc_tt rc) (rc_rtt rc) ?fr s) (q_destination q) st)"
        by (rule fold_invariant [where P = "back_state rc r a wl rl"])
           (use st offset_after_state s ok True in \<open>auto simp: pass_ok_def\<close>)
      with True show ?thesis by simp
    qed (use st in simp)
  qed
  moreover have "legs' = rev ls @ [rl', wl']" using g fold by (simp add: optimize_last_arrival_def rev uses ride(2))
  ultimately show ?thesis using back_result it by (simp add: fold legs)
qed (use it in simp)

lemma optimize_initial_start_footpath_keeps:
  assumes it: "itinerary rc legs" and ok: "pass_ok rc q" and ends: "walk_ends rc legs"
    and g: "optimize_initial_start_footpath (rc_tt rc) (rc_rtt rc) q legs = Some legs'"
  shows "itinerary rc legs' \<and> no_worse legs legs'"
proof (cases "legs' = legs")
  case False
  with g obtain wl rl ls fp ree where legs: "legs = wl # rl # ls" and uses: "leg_uses wl = UsesFootpath fp" "leg_uses rl = UsesRun ree"
    and no_td: "\<not> opt_has_td (rc_rtt rc) q True (leg_from wl)"
    by (auto simp: optimize_initial_start_footpath_def split: list.splits leg_uses.splits if_splits)
  from itinerary_ride [OF it _ uses(2)] legs obtain r a b where ride: "ride_ok rc r a b rl" "ree_run ree = r" by auto
  let ?fps = "footpaths_out (rc_tt rc) ! rc_prf rc ! leg_from wl"
  have idx: "q_prf_idx q = rc_prf rc" and q: "q = journey_query rc" using ok by (simp_all add: pass_ok_def)
  have fps: "0 \<le> fp_duration fp \<and> fp_duration fp \<le> 511" if "fp \<in> set ?fps" for fp
    using ok ends that by (auto simp: pass_ok_def table_durations_def walk_ends_def legs uses)
  from g no_td obtain wl' rl' n where stops: "fold_stops (footpath_before (rc_tt rc) (rc_rtt rc) q (frun (rc_rtt rc) r) ?fps)
      (stops_before_exit (rc_tt rc) (rc_rtt rc) q ree) (wl, rl, adjusted_transfer_time i16 (q_transfer_time_settings q) (fp_duration fp)) = Some (wl', rl', n)"
    and legs': "legs' = wl' # rl' # ls"
    by (auto simp: optimize_initial_start_footpath_def legs uses ride(2) idx)
  have "front_state rc r b wl rl (wl', rl', n)"
  proof (rule fold_stops_invariant [OF stops, where P = "front_state rc r b wl rl"])
    show "front_state rc r b wl rl (wl, rl, adjusted_transfer_time i16 (q_transfer_time_settings q) (fp_duration fp))"
      using it itinerary_nth [OF it, of 0] ride(1) by (auto simp: front_state_def legs itinerary_def)
  next
    fix s st st' assume s: "s \<in> set (stops_before_exit (rc_tt rc) (rc_rtt rc) q ree)" and st: "front_state rc r b wl rl st"
      and step: "footpath_before (rc_tt rc) (rc_rtt rc) q (frun (rc_rtt rc) r) ?fps s st = Some st'"
    from ok have P: "ordinary rc" "short_walks rc" by (simp_all add: pass_ok_def)
    from footpath_before_state [OF st stops_before_exit_less [OF ride(1) uses(2) s] P refl fps step [unfolded q]]
    show "front_state rc r b wl rl st'" by simp
  qed
  from front_result [OF it [unfolded legs] this] show ?thesis by (simp add: legs legs')
qed (use it in simp)

lemma optimize_final_egress_footpath_keeps:
  assumes it: "itinerary rc legs" and ok: "pass_ok rc q" and ends: "walk_ends rc legs"
    and g: "optimize_final_egress_footpath (rc_tt rc) (rc_rtt rc) q legs = Some legs'"
  shows "itinerary rc legs' \<and> no_worse legs legs'"
proof (cases "legs' = legs")
  case False
  with g obtain wl rl ls fp ree where rev: "rev legs = wl # rl # ls" and uses: "leg_uses wl = UsesFootpath fp" "leg_uses rl = UsesRun ree"
    and no_td: "\<not> opt_has_td (rc_rtt rc) q False (leg_to wl)"
    by (auto simp: optimize_final_egress_footpath_def Let_def split: list.splits leg_uses.splits if_splits)
  then have legs: "legs = rev ls @ [rl, wl]" by (simp add: rev_swap)
  from itinerary_ride [OF it _ uses(2)] legs obtain r a b where ride: "ride_ok rc r a b rl" "ree_run ree = r" by auto
  let ?fps = "footpaths_in (rc_tt rc) ! rc_prf rc ! leg_to wl"
  have idx: "q_prf_idx q = rc_prf rc" and q: "q = journey_query rc" using ok by (simp_all add: pass_ok_def)
  have fps: "0 \<le> fp_duration fp \<and> fp_duration fp \<le> 511" if "fp \<in> set ?fps" for fp
    using ok ends that by (auto simp: pass_ok_def table_durations_def walk_ends_def legs uses)
  from g no_td obtain wl' rl' n where stops: "fold_stops (footpath_after (rc_tt rc) (rc_rtt rc) q (frun (rc_rtt rc) r) ?fps (leg_to wl))
      (stops_after_entry (rc_tt rc) (rc_rtt rc) q ree) (wl, rl, adjusted_transfer_time i16 (q_transfer_time_settings q) (fp_duration fp)) = Some (wl', rl', n)"
    and legs': "legs' = rev ls @ [rl', wl']"
    by (auto simp: optimize_final_egress_footpath_def rev uses ride(2) idx)
  have "back_state rc r a wl rl (wl', rl', n)"
  proof (rule fold_stops_invariant [OF stops, where P = "back_state rc r a wl rl"])
    show "back_state rc r a wl rl (wl, rl, adjusted_transfer_time i16 (q_transfer_time_settings q) (fp_duration fp))"
      using it itinerary_nth [OF it, of "length legs - 1"] ride(1) by (auto simp: back_state_def legs itinerary_def successively_append_iff nth_append)
  next
    fix s st st' assume s: "s \<in> set (stops_after_entry (rc_tt rc) (rc_rtt rc) q ree)" and st: "back_state rc r a wl rl st"
      and step: "footpath_after (rc_tt rc) (rc_rtt rc) q (frun (rc_rtt rc) r) ?fps (leg_to wl) s st = Some st'"
    from ok have P: "ordinary rc" "short_walks rc" by (simp_all add: pass_ok_def)
    from footpath_after_state [OF st stops_after_entry_less [OF ride(1) uses(2) s] P refl fps step [unfolded q]]
    show "back_state rc r a wl rl st'" by simp
  qed
  from back_result [OF it [unfolded legs] this] show ?thesis by (simp add: legs legs')
qed (use it in simp)

section \<open>Changes\<close>

definition change_state :: "recon \<Rightarrow> run \<Rightarrow> nat \<Rightarrow> run \<Rightarrow> nat \<Rightarrow> leg \<Rightarrow> leg \<Rightarrow> leg \<times> leg \<times> leg \<times> float64 option \<Rightarrow> bool" where
  "change_state rc r1 a r2 b x z = (\<lambda>(l1, wl, l2, lowest).
     (\<exists>b1. ride_ok rc r1 a b1 l1) \<and> (\<exists>a2. ride_ok rc r2 a2 b l2) \<and> good_leg rc False False wl \<and> follows l1 wl \<and> follows wl l2 \<and>
     leg_from l1 = leg_from x \<and> leg_dep_time l1 = leg_dep_time x \<and> leg_to l2 = leg_to z \<and> leg_arr_time l2 = leg_arr_time z)"

lemma change_at_state:
  assumes "change_state rc r1 a r2 b x z st" "a < s" "s < fr_size (rc_tt rc) (rc_rtt rc) (frun (rc_rtt rc) r1)" "u < b"
    and "fr_out_allowed (rc_tt rc) (rc_rtt rc) (frun (rc_rtt rc) r1) s False"
    and "fr_in_allowed (rc_tt rc) (rc_rtt rc) (frun (rc_rtt rc) r2) u False" and ok: "ordinary rc"
  shows "change_state rc r1 a r2 b x z (change_at (rc_tt rc) (rc_rtt rc) (journey_query rc) (frun (rc_rtt rc) r1) (frun (rc_rtt rc) r2) s u st)"
proof -
  obtain l1 wl l2 n where st: "st = (l1, wl, l2, n)" by (cases st)
  from assms(1) st obtain b1 a2 where rides: "ride_ok rc r1 a b1 l1" "ride_ok rc r2 a2 b l2" by (auto simp: change_state_def)
  note A = alight_at_ride [OF rides(1) assms(2,3,5) ok] and B = board_at_ride [OF rides(2) assms(4,6) ok]
  have walk: "walked rc (wl\<lparr>leg_from := a, leg_to := c, leg_dep_time := t, leg_arr_time := t + rc_adjusted rc (fp_duration fp), leg_uses := u\<rparr>)"
    if "List.find (\<lambda>fp. fp_target fp = c) (footpaths_out (rc_tt rc) ! rc_prf rc ! a) = Some fp" for a c t fp u
    using find_SomeD [OF that] unfolding walked_def Let_def by auto
  show ?thesis
    using assms(1) A B walk
    by (auto simp: st change_state_def change_at_def Let_def good_leg_def follows_def split: option.split)
qed

lemma limit_by_vias_max: "limit_by_vias tt rtt q fr max ss v lim = (w, lim', keep) \<Longrightarrow> lim \<le> lim'"
proof (induction ss arbitrary: v lim)
  case (Cons s ss)
  then show ?case by (auto split: if_splits) (meson max.bounded_iff)
qed simp

lemma limit_by_vias_min: "limit_by_vias tt rtt q fr (\<lambda>lim s. min lim (f s)) ss v lim = (w, lim', keep) \<Longrightarrow> lim' \<le> lim"
proof (induction ss arbitrary: v lim)
  case (Cons s ss)
  then show ?case by (auto split: if_splits) (meson min.bounded_iff)
qed simp

lemma optimize_transfer_keeps:
  assumes it: "itinerary rc legs" and ok: "pass_ok rc q" and i: "i + 2 < length legs"
  shows "itinerary rc (optimize_transfer (rc_tt rc) (rc_rtt rc) q c i legs) \<and> no_worse legs (optimize_transfer (rc_tt rc) (rc_rtt rc) q c i legs)"
proof (cases "optimize_transfer (rc_tt rc) (rc_rtt rc) q c i legs = legs")
  case False
  let ?tt = "rc_tt rc" and ?rtt = "rc_rtt rc"
  define l1 wl l2 where "l1 = legs ! i" and "wl = legs ! (i + 1)" and "l2 = legs ! (i + 2)"
  from False obtain t1 fp t2 where uses: "leg_uses l1 = UsesRun t1" "leg_uses wl = UsesFootpath fp" "leg_uses l2 = UsesRun t2"
    by (auto simp: optimize_transfer_def l1_def wl_def l2_def Let_def split: leg_uses.splits)
  have mem: "l1 \<in> set legs" "wl \<in> set legs" "l2 \<in> set legs" using i by (simp_all add: l1_def wl_def l2_def)
  from itinerary_ride [OF it mem(1) uses(1)] obtain r1 a b1 where ride1: "ride_ok rc r1 a b1 l1" "ree_run t1 = r1" .
  from itinerary_ride [OF it mem(3) uses(3)] obtain r2 a2 b where ride2: "ride_ok rc r2 a2 b l2" "ree_run t2 = r2" .
  from ride_range [OF ride1(1)] uses ride1(2) have t1: "ifrom (ree_stop_range t1) = a" "a + 1 < 65536" by (simp_all add: mk_iv_def)
  from ride_range [OF ride2(1)] uses ride2(2) have t2: "ito (ree_stop_range t2) = b + 1" "b < 65535" by (simp_all add: mk_iv_def)
  let ?fr1 = "frun ?rtt r1" and ?fr2 = "frun ?rtt r2"
  let ?n1 = "fr_size ?tt ?rtt ?fr1" and ?n2 = "fr_size ?tt ?rtt ?fr2"
  obtain v first keep1 where lim1: "limit_by_vias ?tt ?rtt q ?fr1 max [a..<?n1] (vc_before c ! i) (a + 1) = (v, first, keep1)"
    by (rule prod_cases3)
  obtain v' last keep2 where lim2: "limit_by_vias ?tt ?rtt q ?fr2 (\<lambda>lim s. min lim ((s + 1) mod 2 ^ 16))
      [ifrom (ree_stop_range t2)..<?n2] v b = (v', last, keep2)" by (rule prod_cases3)
  have bounds: "a < first" "last \<le> b" using limit_by_vias_max [OF lim1] limit_by_vias_min [OF lim2] by simp_all
  let ?low = "get_penalty ?tt (fp_duration fp) (i16 (leg_dep_time l2 - leg_arr_time wl)) (leg_from l1) (leg_to l2)"
  let ?g = "\<lambda>s1 s2 st. if \<not> fr_in_allowed ?tt ?rtt ?fr2 s2 False then st else change_at ?tt ?rtt q ?fr1 ?fr2 s1 s2 st"
  let ?f = "\<lambda>s1 st. if \<not> fr_out_allowed ?tt ?rtt ?fr1 s1 False then st else fold (?g s1) [0..<last] st"
  obtain l1' wl' l2' low where fold: "fold ?f [first..<?n1] (l1, wl, l2, ?low) = (l1', wl', l2', low)" by (rule prod_cases4)
  have wrap: "(a + 1) mod 2 ^ 16 = a + 1" "nat (u16 (int (b + 1) - 1)) = b" using t1(2) t2(2) by simp_all
  have result: "optimize_transfer ?tt ?rtt q c i legs =
      (if keep1 \<or> keep2 \<or> opt_has_td ?rtt q True (leg_from wl) then legs else legs[i := l1', i + 1 := wl', i + 2 := l2'])"
    unfolding optimize_transfer_def Let_def l1_def [symmetric] wl_def [symmetric] l2_def [symmetric] uses prod.case leg_uses.case
      ride1(2) ride2(2) t1(1) t2(1) wrap lim1 lim2 fold ..
  have "change_state rc r1 a r2 b l1 l2 (fold ?f [first..<?n1] (l1, wl, l2, ?low))"
  proof (rule fold_invariant [where P = "change_state rc r1 a r2 b l1 l2"])
    have "follows l1 wl" "follows wl l2"
      using it i unfolding itinerary_def successively_conv_nth l1_def wl_def l2_def by simp_all
    moreover have "good_leg rc False False wl" using itinerary_nth [OF it, of "i + 1"] i by (simp add: wl_def)
    ultimately show "change_state rc r1 a r2 b l1 l2 (l1, wl, l2, ?low)" using ride1(1) ride2(1) by (auto simp: change_state_def)
  next
    fix s1 st assume s1: "s1 \<in> set [first..<?n1]" and st: "change_state rc r1 a r2 b l1 l2 st"
    show "change_state rc r1 a r2 b l1 l2 (?f s1 st)"
    proof (cases "fr_out_allowed ?tt ?rtt ?fr1 s1 False")
      case True
      have "change_state rc r1 a r2 b l1 l2 (fold (?g s1) [0..<last] st)"
      proof (rule fold_invariant [where P = "change_state rc r1 a r2 b l1 l2"])
        fix s2 st assume s2: "s2 \<in> set [0..<last]" and st: "change_state rc r1 a r2 b l1 l2 st"
        show "change_state rc r1 a r2 b l1 l2 (?g s1 s2 st)"
        proof (cases "fr_in_allowed ?tt ?rtt ?fr2 s2 False")
          case allowed: True
          have "a < s1" "s1 < ?n1" "s2 < b" using s1 s2 bounds by simp_all
          from change_at_state [OF st this True allowed] ok allowed show ?thesis by (simp add: pass_ok_def)
        qed (use st in simp)
      qed (rule st)
      with True show ?thesis by simp
    qed (use st in simp)
  qed
  then have S: "(\<exists>b1. ride_ok rc r1 a b1 l1')" "(\<exists>a2. ride_ok rc r2 a2 b l2')" "good_leg rc False False wl'" "follows l1' wl'" "follows wl' l2'"
    "leg_from l1' = leg_from l1" "leg_dep_time l1' = leg_dep_time l1" "leg_to l2' = leg_to l2" "leg_arr_time l2' = leg_arr_time l2"
    unfolding fold by (simp_all add: change_state_def)
  from S(1,2) have good: "good_leg rc c1 c2 l1'" "good_leg rc c1 c2 l2'" for c1 c2 using ride_good by blast+
  show ?thesis
    unfolding result
    using it replace_three [OF it i good(1) S(3) good(2) S(4,5) S(6-9) [unfolded l1_def l2_def]] by simp
qed (use it in simp)

lemma optimize_transfers_keeps:
  assumes it: "itinerary rc legs" and ok: "pass_ok rc q"
  shows "itinerary rc (optimize_transfers (rc_tt rc) (rc_rtt rc) q legs) \<and> no_worse legs (optimize_transfers (rc_tt rc) (rc_rtt rc) q legs)"
proof -
  let ?P = "\<lambda>ls. itinerary rc ls \<and> no_worse legs ls"
  have "?P (fold (optimize_transfer (rc_tt rc) (rc_rtt rc) q (count_vias (rc_tt rc) (rc_rtt rc) q legs)) [0..<length legs - 2] legs)"
  proof (rule fold_invariant [where P = ?P])
    fix i ls assume i: "i \<in> set [0..<length legs - 2]" and P: "?P ls"
    then have "i + 2 < length ls" by (auto simp: no_worse_def)
    from optimize_transfer_keeps [OF _ ok this] P no_worse_trans
    show "?P (optimize_transfer (rc_tt rc) (rc_rtt rc) q (count_vias (rc_tt rc) (rc_rtt rc) q legs) i ls)" by blast
  qed (use it in simp)
  then show ?thesis by (simp add: optimize_transfers_def)
qed

lemma optimize_footpaths_keeps:
  assumes it: "itinerary rc legs" and ok: "pass_ok rc q" and ends: "walk_ends rc legs"
    and g: "optimize_footpaths (rc_tt rc) (rc_rtt rc) q legs = Some legs'"
  shows "itinerary rc legs' \<and> no_worse legs legs'"
proof -
  let ?tt = "rc_tt rc" and ?rtt = "rc_rtt rc"
  from g obtain a b c d where passes: "optimize_initial_departure ?tt ?rtt q legs = Some a" "optimize_initial_start_footpath ?tt ?rtt q a = Some b"
    "optimize_last_arrival ?tt ?rtt q b = Some c" "optimize_final_egress_footpath ?tt ?rtt q c = Some d"
    and legs': "legs' = optimize_transfers ?tt ?rtt q d"
    by (auto simp: optimize_footpaths_def split: option.splits)
  have keep: "walk_ends rc x \<Longrightarrow> no_worse x y \<Longrightarrow> walk_ends rc y" for x y by (simp add: walk_ends_def no_worse_def)
  from optimize_initial_departure_keeps [OF it ok passes(1)] have A: "itinerary rc a" "no_worse legs a" by blast+
  from optimize_initial_start_footpath_keeps [OF A(1) ok keep [OF ends A(2)] passes(2)] have B: "itinerary rc b" "no_worse legs b"
    using A(2) no_worse_trans by blast+
  from optimize_last_arrival_keeps [OF B(1) ok passes(3)] have C: "itinerary rc c" "no_worse legs c" using B(2) no_worse_trans by blast+
  from optimize_final_egress_footpath_keeps [OF C(1) ok keep [OF ends C(2)] passes(4)] have D: "itinerary rc d" "no_worse legs d"
    using C(2) no_worse_trans by blast+
  from optimize_transfers_keeps [OF D(1) ok] D(2) no_worse_trans show ?thesis unfolding legs' by blast
qed

section \<open>The whole reconstruction\<close>

text \<open>No time-dependent offsets; for a backward search no vias and no time-dependent footpaths.\<close>

definition plain_query :: "recon \<Rightarrow> bool" where
  "plain_query rc \<longleftrightarrow> ordinary rc \<and> q_td_start (rc_q rc) = [] \<and> q_td_dest (rc_q rc) = [] \<and>
     (rc_fwd rc \<or> q_via_stops (rc_q rc) = [] \<and> (rc_rtt rc = None \<or> \<not> has_profile_td_footpaths (rc_prf rc)))"

lemma walk_ok_walked:
  assumes "walk_ok rc leg" "leg_uses leg = UsesFootpath fp" "plain_query rc"
  shows "good_leg rc first final leg"
proof -
  have min: "leg_dep_time leg + min (fp_duration fp) (rc_adjusted rc (fp_duration fp)) \<le> leg_arr_time leg"
    using assms(1,2) by (simp add: walk_ok_def)
  from assms(1,2) have known: "known_walk rc (dest_end (rc_dir rc) leg) (start_end (rc_dir rc) leg) (time_at_end (rc_dir rc) leg)
      (leg_arr_time leg - leg_dep_time leg)" by (simp add: walk_ok_def)
  have "walked rc leg"
  proof (cases "rc_fwd rc")
    case True
    with known show ?thesis
      by (simp add: known_walk_def walked_def Let_def walk_table_def td_walk_table_def dest_end_def start_end_def time_at_end_def
          is_better_or_eq_def) (elim disjE, metis, blast+)
  next
    case False
    then have "\<not> rc_has_td rc True l" for l using assms(3) by (auto simp: plain_query_def rc_has_td_def split: option.split)
    with known False show ?thesis
      by (simp add: known_walk_def walked_def Let_def walk_table_def dest_end_def start_end_def) (elim disjE, metis, blast+)
  qed
  with min assms(2) show ?thesis by (simp add: good_leg_def)
qed

lemma meta_matches: "e \<in> set (for_each_meta tt kIntermodal a) \<Longrightarrow> matches tt kIntermodal a e"
  by (simp add: matches_def fold_or)

lemma inner_good:
  assumes "leg_ok rc leg" "\<not> uses_offset leg" "plain_query rc"
  shows "good_leg rc first final leg"
proof (cases "leg_uses leg")
  case (UsesRun ree)
  with assms(1) show ?thesis by (auto simp: leg_ok_def walk_ok_def dest: ride_good)
next
  case (UsesFootpath fp)
  with assms(1,3) show ?thesis by (auto simp: leg_ok_def ride_ok_def Let_def dest: walk_ok_walked)
qed (use assms(2) in \<open>simp add: uses_offset_def\<close>)

text \<open>The first leg found, at the destination, and the last one, at the start.\<close>

lemma ends_good:
  assumes "leg_ok rc leg" "ends_ok rc leg" "plain_query rc"
  shows "good_leg rc (first \<or> \<not> rc_fwd rc) (final \<or> rc_fwd rc) leg"
proof (cases "leg_uses leg")
  case (UsesOffset o')
  from UsesOffset assms(1) have w: "0 \<le> off_duration o' \<longrightarrow> leg_dep_time leg + off_duration o' = leg_arr_time leg"
    by (auto simp: leg_ok_def walk_ok_def ride_ok_def Let_def)
  from UsesOffset assms(2,3) obtain place where p: "q_dest_match_mode (rc_q rc) = kIntermodal" "off_target o' = start_end (rc_dir rc) leg"
    "off_target o' \<in> set (for_each_meta (rc_tt rc) kIntermodal place)" "o'\<lparr>off_target := place\<rparr> \<in> set (q_destination (rc_q rc))"
    by (auto simp: ends_ok_def dest_offset_def plain_query_def)
  from meta_matches [OF p(3)] p(2) have "matches (rc_tt rc) kIntermodal (off_target (o'\<lparr>off_target := place\<rparr>)) (start_end (rc_dir rc) leg)"
    by simp
  with p(4) have "offset_of (rc_tt rc) kIntermodal (q_destination (rc_q rc)) o' (start_end (rc_dir rc) leg)"
    unfolding offset_of_def by (intro bexI [of _ "o'\<lparr>off_target := place\<rparr>"]) simp_all
  with w p(1) UsesOffset show ?thesis
    by (cases "rc_fwd rc") (simp_all add: good_leg_def journey_query_def flip_dir_def start_end_def)
qed (use inner_good [OF assms(1) _ assms(3)] in \<open>simp_all add: uses_offset_def\<close>)

lemma begins_good:
  assumes "leg_ok rc leg" "begins_ok rc leg" "plain_query rc"
  shows "good_leg rc (first \<or> rc_fwd rc) (final \<or> \<not> rc_fwd rc) leg"
proof (cases "leg_uses leg")
  case (UsesOffset o')
  from UsesOffset assms(1) have w: "0 \<le> off_duration o' \<longrightarrow> leg_dep_time leg + off_duration o' = leg_arr_time leg"
    by (auto simp: leg_ok_def walk_ok_def ride_ok_def Let_def)
  from UsesOffset assms(2,3) have "offset_of (rc_tt rc) (q_start_match_mode (rc_q rc)) (q_start (rc_q rc)) o' (dest_end (rc_dir rc) leg)"
    by (auto simp: begins_ok_def plain_query_def offset_of_def)
  with w UsesOffset show ?thesis
    by (cases "rc_fwd rc") (simp_all add: good_leg_def journey_query_def flip_dir_def dest_end_def)
qed (use inner_good [OF assms(1) _ assms(3)] in \<open>simp_all add: uses_offset_def\<close>)

lemma found_good:
  assumes "legs_travel rc j legs" "plain_query rc" "i < length legs"
  shows "good_leg rc (if rc_fwd rc then Suc i = length legs else i = 0) (if rc_fwd rc then i = 0 else Suc i = length legs) (legs ! i)"
proof -
  from assms(1,3) have ok: "leg_ok rc (legs ! i)" by (simp add: legs_travel_def)
  consider "i = 0" | "Suc i = length legs" | "0 < i" "Suc i < length legs" using assms(3) by linarith
  then show ?thesis
  proof cases
    case 1
    with assms(1) have "ends_ok rc (legs ! i)" by (cases legs) (simp_all add: legs_travel_def)
    from ends_good [OF ok this assms(2), of "Suc i = length legs" "Suc i = length legs"] 1 show ?thesis by (cases "rc_fwd rc") simp_all
  next
    case 2
    then have "last legs = legs ! i" by (cases "legs = []") (simp_all add: last_conv_nth flip: 2)
    with assms(1) have "begins_ok rc (legs ! i)" by (simp add: legs_travel_def)
    from begins_good [OF ok this assms(2), of "i = 0" "i = 0"] 2 show ?thesis by (cases "rc_fwd rc") simp_all
  next
    case 3
    then have "legs ! i = butlast (tl legs) ! (i - 1)" "i - 1 < length (butlast (tl legs))" by (simp_all add: nth_butlast nth_tl)
    then have "legs ! i \<in> set (butlast (tl legs))" by simp
    with assms(1) have "\<not> uses_offset (legs ! i)" by (simp add: legs_travel_def)
    from inner_good [OF ok this assms(2)] show ?thesis .
  qed
qed

lemma legs_travel_itinerary:
  assumes "legs_travel rc j legs" "plain_query rc"
  shows "itinerary rc (if rc_fwd rc then rev legs else legs)"
proof -
  from assms have legs: "successively (meets (rc_dir rc)) legs" by (simp add: legs_travel_def)
  note good = found_good [OF assms]
  show ?thesis
  proof (cases "rc_fwd rc")
    case True
    then have "meets (rc_dir rc) = (\<lambda>x y. follows y x)"
      by (intro ext) (auto simp: meets_def follows_def dest_end_def start_end_def time_at_end_def time_at_start_def is_better_or_eq_def)
    moreover have "good_leg rc (i = 0) (Suc i = length (rev legs)) (rev legs ! i)" if "i < length (rev legs)" for i
    proof -
      have "(length legs - Suc i = 0) = (Suc i = length legs)" "(Suc (length legs - Suc i) = length legs) = (i = 0)" using that by auto
      with good [of "length legs - Suc i"] True that show ?thesis by (simp add: rev_nth)
    qed
    ultimately show ?thesis using legs True by (simp add: itinerary_def successively_rev)
  next
    case False
    then have "meets (rc_dir rc) = follows"
      by (intro ext) (auto simp: meets_def follows_def dest_end_def start_end_def time_at_end_def time_at_start_def is_better_or_eq_def)
    with legs False good show ?thesis by (auto simp: itinerary_def)
  qed
qed

lemma replace_one:
  assumes it: "itinerary rc legs" and i: "0 < i" "i < length legs" and x: "good_leg rc False (Suc i = length legs) x"
    and ends: "leg_from x = leg_from (legs ! i)" "leg_to x = leg_to (legs ! i)" "leg_arr_time x \<le> leg_arr_time (legs ! i)"
      "leg_arr_time (legs ! (i - 1)) \<le> leg_dep_time x"
  shows "itinerary rc (legs[i := x]) \<and> no_worse legs (legs[i := x])"
proof -
  from it have suc: "\<And>k. Suc k < length legs \<Longrightarrow> follows (legs ! k) (legs ! Suc k)"
    by (simp add: itinerary_def successively_conv_nth)
  have "follows (legs[i := x] ! k) (legs[i := x] ! Suc k)" if "Suc k < length legs" for k
    using suc [OF that] that ends i by (cases "k = i"; cases "Suc k = i") (auto simp: follows_def)
  moreover have "\<forall>k < length (legs[i := x]). good_leg rc (k = 0) (Suc k = length (legs[i := x])) (legs[i := x] ! k)"
    by (rule good_update) (use it x i in \<open>simp_all add: itinerary_def\<close>)
  ultimately have "itinerary rc (legs[i := x])" by (simp add: itinerary_def successively_conv_nth)
  moreover have "hd (legs[i := x]) = hd legs" using i by (cases legs; cases i) simp_all
  moreover have "last (legs[i := x]) = (if i = length legs - 1 then x else last legs)"
    using i by (cases "legs = []") (simp_all add: last_list_update)
  moreover have "last legs = legs ! (length legs - 1)" using i by (cases "legs = []") (simp_all add: last_conv_nth)
  ultimately show ?thesis using ends by (auto simp: no_worse_def)
qed

lemma walked_earlier:
  assumes "walked rc leg" "0 \<le> d"
  shows "walked rc (leg\<lparr>leg_dep_time := leg_dep_time leg - d, leg_arr_time := leg_arr_time leg - d\<rparr>)" (is "walked rc ?x")
proof -
  have same: "leg_from ?x = leg_from leg" "leg_to ?x = leg_to leg"
    "leg_arr_time ?x - leg_dep_time ?x = leg_arr_time leg - leg_dep_time leg" by simp_all
  have "leg_arr_time leg \<le> T \<Longrightarrow> leg_arr_time ?x \<le> T" for T using assms(2) by simp
  with assms(1) show ?thesis unfolding walked_def Let_def same by (elim disjE) blast+
qed

lemma move_walk_keeps:
  assumes it: "itinerary rc legs" and i: "0 < i" "i < length legs" and stay: "vc_stay c ! i = 0"
    and no_td: "\<And>x. \<not> opt_has_td rtt q True x" and g: "move_walk rtt q c i legs = Some legs'"
  shows "itinerary rc legs' \<and> no_worse legs legs'"
proof (cases "leg_uses (legs ! i)")
  case (UsesFootpath fp)
  let ?leg = "legs ! i"
  let ?diff = "leg_dep_time ?leg - leg_arr_time (legs ! (i - 1))"
  let ?x = "?leg\<lparr>leg_dep_time := leg_dep_time ?leg - ?diff, leg_arr_time := leg_arr_time ?leg - ?diff\<rparr>"
  from g UsesFootpath no_td stay have legs': "legs' = legs[i := ?x]" by (simp add: move_walk_def Let_def)
  from it have "\<And>k. Suc k < length legs \<Longrightarrow> follows (legs ! k) (legs ! Suc k)" by (simp add: itinerary_def successively_conv_nth)
  from this [of "i - 1"] i have "follows (legs ! (i - 1)) ?leg" by simp
  then have "0 \<le> ?diff" by (simp add: follows_def)
  moreover have "good_leg rc False (Suc i = length legs) ?leg" using itinerary_nth [OF it i(2)] i(1) by simp
  then have W: "walked rc ?leg" "leg_dep_time ?leg + min (fp_duration fp) (rc_adjusted rc (fp_duration fp)) \<le> leg_arr_time ?leg"
    using UsesFootpath by (simp_all add: good_leg_def)
  have "walked rc ?x"
    using W(1) \<open>0 \<le> ?diff\<close> by (rule walked_earlier)
  with W(2) have "good_leg rc False (Suc i = length legs) ?x" using UsesFootpath by (simp add: good_leg_def)
  ultimately show ?thesis unfolding legs' using it i by (intro replace_one) simp_all
qed (use g it in \<open>simp_all add: move_walk_def Let_def\<close>)

lemma move_walks_keeps:
  assumes it: "itinerary rc legs" and vias: "q_via_stops q = []" and no_td: "\<And>x. \<not> opt_has_td rtt q True x"
    and g: "move_walks tt rtt q legs = Some legs'"
  shows "itinerary rc legs' \<and> no_worse legs legs'"
proof -
  let ?c = "count_vias tt rtt q legs"
  let ?P = "\<lambda>acc. \<forall>ls. acc = Some ls \<longrightarrow> itinerary rc ls \<and> no_worse legs ls"
  have "?P (fold (\<lambda>i acc. case acc of None \<Rightarrow> None | Some legs \<Rightarrow> move_walk rtt q ?c i legs) [1..<length legs] (Some legs))"
  proof (rule fold_invariant [where P = ?P])
    fix i acc assume i: "i \<in> set [1..<length legs]" and P: "?P acc"
    show "?P (case acc of None \<Rightarrow> None | Some legs \<Rightarrow> move_walk rtt q ?c i legs)"
    proof (cases acc)
      case (Some ls)
      with P have ls: "itinerary rc ls" "no_worse legs ls" by blast+
      have "vc_stay ?c ! i = 0" using i by (simp add: count_vias_def vias)
      moreover have "0 < i" "i < length ls" using i ls(2) by (auto simp: no_worse_def)
      ultimately have "itinerary rc ls' \<and> no_worse ls ls'" if "move_walk rtt q ?c i ls = Some ls'" for ls'
        using move_walk_keeps [OF ls(1) _ _ _ no_td that] by blast
      with Some ls(2) no_worse_trans show ?thesis by fastforce
    qed simp
  qed (use it in simp)
  then show ?thesis using g by (simp add: move_walks_def Let_def)
qed

lemma specify_nothing:
  assumes "q_td_start q = []" "q_td_dest q = []"
  shows "specify_td_offsets q legs = legs"
proof -
  have "specify_first_offset q leg = leg" "specify_last_offset q leg = leg" for leg
    using assms by (auto simp: specify_first_offset_def specify_last_offset_def split: leg_uses.split)
  then have "(if legs = [] then legs else legs[0 := specify_first_offset q (hd legs)]) = legs"
    "legs \<noteq> [] \<Longrightarrow> legs[length legs - 1 := specify_last_offset q (last legs)] = legs"
    by (simp_all add: hd_conv_nth last_conv_nth)
  then show ?thesis by (cases "legs = []") (simp_all add: specify_td_offsets_def Let_def)
qed

text \<open>A journey in the order of travel, from its start to its destination (the other way round for a
  backward search, whose journeys start at the destination of the search).\<close>

definition journey_travels :: "recon \<Rightarrow> journey \<Rightarrow> leg list \<Rightarrow> bool" where
  "journey_travels rc j legs \<longleftrightarrow> legs \<noteq> [] \<and> itinerary rc legs \<and>
     (let label = rc_unix rc (at3 (rc_times rc) (j_transfers j + 1) (j_dest j) (rc_n_vias rc));
          start_of = (\<lambda>l. l = kStartStation \<or> is_journey_start (rc_tt rc) (rc_q rc) l)
      in if rc_fwd rc
         then start_of (leg_from (hd legs)) \<and> j_start_time j \<le> leg_dep_time (hd legs) \<and>
              leg_to (last legs) = j_dest j \<and> leg_arr_time (last legs) \<le> label
         else leg_from (hd legs) = j_dest j \<and> label \<le> leg_dep_time (hd legs) \<and>
              start_of (leg_to (last legs)) \<and> leg_arr_time (last legs) \<le> j_start_time j)"

lemma begins_ok_place:
  assumes "begins_ok rc leg" "0 < n_places rc"
  shows "start_end (rc_dir rc) leg < n_places rc \<and>
    (start_end (rc_dir rc) leg = kStartStation \<or> is_journey_start (rc_tt rc) (rc_q rc) (start_end (rc_dir rc) leg))"
  using assms by (auto simp: begins_ok_def kStartStation_def split: leg_uses.splits)

lemma reconstruct_journey_travels:
  assumes ok: "recon_ok rc j" "plain_query rc" "table_durations rc" and g: "reconstruct_journey rc j = (False, legs)"
  shows "journey_travels rc j legs"
proof -
  let ?q = "if rc_fwd rc then rc_q rc else flip_dir (rc_q rc)"
  let ?label = "rc_unix rc (at3 (rc_times rc) (j_transfers j + 1) (j_dest j) (rc_n_vias rc))"
  let ?start = "\<lambda>l. l = kStartStation \<or> is_journey_start (rc_tt rc) (rc_q rc) l"
  from g obtain raw ls ls' where raw: "raw_legs rc j = (False, raw)"
    and ls: "(if rc_fwd rc then Some (rev raw) else move_walks (rc_tt rc) (rc_rtt rc) ?q raw) = Some ls"
    and ls': "optimize_footpaths (rc_tt rc) (rc_rtt rc) ?q ls = Some ls'" and legs: "legs = specify_td_offsets ?q ls'"
    unfolding reconstruct_journey_def Let_def by (auto split: prod.splits bool.splits option.splits)
  have travel: "legs_travel rc j raw" by (rule raw_legs_travel [OF ok(1) raw])
  note it = legs_travel_itinerary [OF travel ok(2)]
  from travel have T: "raw \<noteq> []" "dest_end (rc_dir rc) (hd raw) = j_dest j"
    "is_better_or_eq (rc_dir rc) (time_at_end (rc_dir rc) (hd raw)) ?label" "begins_ok rc (last raw)"
    "is_better_or_eq (rc_dir rc) (j_start_time j) (time_at_start (rc_dir rc) (last raw))" by (simp_all add: legs_travel_def)
  have dest: "j_dest j < n_places rc" using ok(1) by (simp add: recon_ok_def)
  then have "0 < n_places rc" by linarith
  from begins_ok_place [OF T(4) this] have B: "start_end (rc_dir rc) (last raw) < n_places rc" "?start (start_end (rc_dir rc) (last raw))" by blast+
  let ?travelled = "if rc_fwd rc then rev raw else raw"
  have L: "itinerary rc ls \<and> no_worse ?travelled ls"
  proof (cases "rc_fwd rc")
    case True
    with ls it show ?thesis by auto
  next
    case False
    with ok(2) have "q_via_stops ?q = []" "\<And>x. \<not> opt_has_td (rc_rtt rc) ?q True x"
      by (auto simp: plain_query_def flip_dir_def opt_has_td_def split: option.split)
    from move_walks_keeps [OF _ this, of rc raw "rc_tt rc" ls] False ls it show ?thesis by simp
  qed
  have ends: "walk_ends rc ?travelled"
    using T(1,2) B(1) dest by (auto simp: walk_ends_def start_end_def dest_end_def hd_rev last_rev)
  with L have "walk_ends rc ls" by (simp add: walk_ends_def no_worse_def)
  moreover have "pass_ok rc ?q"
    using ok by (simp add: pass_ok_def plain_query_def recon_ok_def journey_query_def)
  ultimately have O: "itinerary rc ls'" "no_worse ?travelled ls'"
    using optimize_footpaths_keeps [OF _ _ _ ls'] L no_worse_trans by blast+
  have "legs = ls'" unfolding legs using ok(2) by (intro specify_nothing) (auto simp: plain_query_def flip_dir_def)
  moreover have "ls' \<noteq> []" using O(2) T(1) by (auto simp: no_worse_def split: if_splits)
  ultimately show ?thesis
    using O T(2,3,5) B(2) T(1)
    by (cases "rc_fwd rc")
       (auto simp: journey_travels_def Let_def no_worse_def hd_rev last_rev start_end_def dest_end_def time_at_start_def time_at_end_def
         is_better_or_eq_def)
qed

end
