(* ===== verification/Raptor_Results.thy ===== *)
theory Raptor_Results
  imports Raptor_Rounds
begin

text \<open>
  The result set of the round-based search: the labels at the destinations, filtered by dominance.
\<close>

text \<open>The journeys \<open>execute\<close> offers to the result set, in its order.\<close>

definition offered :: "raptor \<Rightarrow> int \<Rightarrow> nat \<Rightarrow> raptor_state \<Rightarrow> journey list" where
  "offered c start_time end_k s =
     concat (map (\<lambda>i. map (\<lambda>k. mk_journey c start_time i k (at3 (round_times s) k i (vias c)))
         (filter (\<lambda>k. at3 (round_times s) k i (vias c) \<noteq> kInvalid c) [1..<end_k]))
       (set_bits (is_dest c)))"

lemma add_results_offered:
  "add_results c start_time end_k s js = pareto_adds j_dominates js (offered c start_time end_k s)"
proof -
  let ?add = "\<lambda>j js. fst (pareto_add j_dominates js j)"
  have inner: "fold (\<lambda>k results. let dest_time = at3 (round_times s) k i (vias c)
         in if dest_time \<noteq> kInvalid c
            then fst (pareto_add j_dominates results (mk_journey c start_time i k dest_time))
            else results) ks =
      fold ?add (map (\<lambda>k. mk_journey c start_time i k (at3 (round_times s) k i (vias c)))
         (filter (\<lambda>k. at3 (round_times s) k i (vias c) \<noteq> kInvalid c) ks))" for i ks
    by (induction ks) (simp_all add: Let_def fun_eq_iff)
  have "fold (\<lambda>i. fold ?add (f i)) is js = fold ?add (concat (map f is)) js" for f :: "nat \<Rightarrow> journey list" and "is" js
    by (induction "is" arbitrary: js) simp_all
  then show ?thesis by (simp add: add_results_def offered_def pareto_adds_def inner)
qed

text \<open>Property C7. The result set is the Pareto set of the labels. Starting from journeys none of
  which dominates another, after a search still none dominates another, nothing but journeys of
  labels at destinations was added, and every earlier journey and every label at a destination
  is dominated by, or equal to, a journey of the set.\<close>

theorem results_are_pareto_set:
  assumes "antichain j_dominates js" "\<forall>j \<in> set js. in_direction d j"
    and "\<forall>j \<in> set (offered c start_time end_k s). in_direction d j"
  shows "antichain j_dominates (add_results c start_time end_k s js) \<and>
    set (add_results c start_time end_k s js) \<subseteq> set js \<union> set (offered c start_time end_k s) \<and>
    (\<forall>j \<in> set js \<union> set (offered c start_time end_k s). covers j_dominates (add_results c start_time end_k s js) j)"
  unfolding add_results_offered using assms by (rule journeys.adds_invariant)

text \<open>Two labels at the only destination, the second with a ride more and no gain.\<close>

definition example_labels :: raptor_state where
  "example_labels = empty_state\<lparr>round_times := [[[0], [0], [32767]], [[0], [0], [625]], [[0], [0], [625]]]\<rparr>"

theorem results_are_pareto_set_witness:
  "covers j_dominates (add_results example_raptor 600 3 example_labels []) (mk_journey example_raptor 600 2 2 625)"
proof -
  have b: "base_days example_raptor = 0"
    by (simp add: base_days_def example_raptor_def example_timetable_def empty_timetable_def internal_interval_days_def
      kTimetableOffset_def mk_iv_def)
  have "offered example_raptor 600 3 example_labels = [mk_journey example_raptor 600 2 1 625, mk_journey example_raptor 600 2 2 625]"
    by (simp add: offered_def example_raptor_def example_labels_def set_bits_def at3_def upt_rec numeral_3_eq_3
       numeral_2_eq_2 kInvalidDelta_def)
  moreover have "in_direction Forward (mk_journey example_raptor 600 2 k 625)" for k
    by (simp add: in_direction_def mk_journey_def b delta_to_unix_def)
  ultimately show ?thesis
    using results_are_pareto_set [of "[]" Forward example_raptor 600 3 example_labels] by simp
qed

end
