(* ===== verification/Raptor_Journeys.thy ===== *)
theory Raptor_Journeys
  imports Reconstruct_Example Optimize_Correct Raptor_Results
begin

text \<open>
  The journeys of the round-based search with their legs: reconstruction applied to the labels of the
  search (\<open>raptor::reconstruct\<close> in \<open>raptor.h\<close>), what it guarantees about a journey of the result set,
  and two ways in which the last passes break that guarantee outside of its hypotheses.
\<close>

text \<open>The arguments \<open>raptor::reconstruct\<close> passes on: its own tables, the labels of its state and its day.\<close>

definition raptor_recon :: "raptor \<Rightarrow> raptor_state \<Rightarrow> query \<Rightarrow> recon" where
  "raptor_recon c s q =
     \<lparr>rc_dir = search_dir c, rc_tt = r_tt c, rc_rtt = (if has_rtt c then Some (r_rtt c) else None), rc_q = q,
      rc_times = round_times s, rc_base = base_days c, rc_base_day_idx = base c\<rparr>"

definition raptor_legs :: "raptor \<Rightarrow> raptor_state \<Rightarrow> query \<Rightarrow> journey \<Rightarrow> bool \<times> leg list" where
  "raptor_legs c s q j = reconstruct_journey (raptor_recon c s q) j"

text \<open>A journey with legs that carry it out: an \<^const>\<open>itinerary\<close> (rides of usable runs, walks that have
  their entry in the tables, offsets of the query at its two ends, joined in place and time) from a start of
  the query, not before the time of departure, to the destination, not after the time of arrival.\<close>

definition carried_out :: "recon \<Rightarrow> journey \<Rightarrow> bool" where
  "carried_out rc j \<longleftrightarrow> j_is_reconstructed j \<and> j_legs j \<noteq> [] \<and> itinerary rc (j_legs j) \<and>
     (let first = hd (j_legs j); final = last (j_legs j);
          start_of = (\<lambda>l. l = kStartStation \<or> is_journey_start (rc_tt rc) (rc_q rc) l)
      in if rc_fwd rc
         then start_of (leg_from first) \<and> j_start_time j \<le> leg_dep_time first \<and>
              leg_to final = j_dest j \<and> leg_arr_time final \<le> j_dest_time j
         else leg_from first = j_dest j \<and> j_dest_time j \<le> leg_dep_time first \<and>
              start_of (leg_to final) \<and> leg_arr_time final \<le> j_start_time j)"

lemma raptor_recon_simps [simp]:
  "rc_dir (raptor_recon c s q) = search_dir c" "rc_tt (raptor_recon c s q) = r_tt c" "rc_q (raptor_recon c s q) = q"
  "rc_times (raptor_recon c s q) = round_times s" "rc_base (raptor_recon c s q) = base_days c"
  by (simp_all add: raptor_recon_def)

lemma offered_label:
  assumes "j \<in> set (offered c t (end_round m) s)"
  shows "j_dest_time j = delta_to_unix (base_days c) (at3 (round_times s) (j_transfers j + 1) (j_dest j) (vias c))"
    "j_transfers j + 1 < end_round m" "j_start_time j = t" "j_legs j = []"
proof -
  have small: "end_round m \<le> 256" by (simp add: end_round_def kMaxTransfers_def)
  from assms obtain i k where j: "j = mk_journey c t i k (at3 (round_times s) k i (vias c))" "1 \<le> k" "k < end_round m"
    by (auto simp: offered_def)
  with small have "(k - 1) mod 2 ^ 8 + 1 = k" by simp
  with j show "j_dest_time j = delta_to_unix (base_days c) (at3 (round_times s) (j_transfers j + 1) (j_dest j) (vias c))"
    "j_transfers j + 1 < end_round m" "j_start_time j = t" "j_legs j = []"
    by (simp_all add: mk_journey_def)
qed

text \<open>Property C4. If the search offers a journey and its reconstruction from the labels returns, after all
  passes, its legs join in place and time, from a start of the query, not before the departure, to the
  destination, not after the arrival promised (backward: the other way round). A leg is a ride of an active
  or real-time run at its times, where the stops allow it; a walk of at least the stop's transfer time, the
  adjusted duration of a footpath of the tables between its two stops, or what a time-dependent footpath
  offers; or, as first or last leg, an offset of the query's start or destination for that stop, with its
  duration (if not negative). Hypotheses: no required bike, car or no-reservation flag, no wheelchair profile
  (see \<open>wheelchair_lost\<close>), no time-dependent offsets (see \<open>start_offset_overtaken\<close>); backward neither vias
  nor time-dependent footpaths; well-formed tables with durations of 0 to 511 minutes; stays, adjusted durations and labels away
  from the limits of 16 bits.\<close>

theorem search_journeys_carried_out:
  assumes "j \<in> set (offered c t (end_round m) s)" "raptor_reconstruct c (raptor_legs c) s q j = (False, j')"
    "\<not> one_to_all c" "length (q_via_stops q) = vias c"
    "recon_ok (raptor_recon c s q) j" "plain_query (raptor_recon c s q)" "table_durations (raptor_recon c s q)"
  shows "carried_out (raptor_recon c s q) j'"
proof -
  from assms(2,3) obtain legs where legs: "reconstruct_journey (raptor_recon c s q) j = (False, legs)"
    and j': "j' = j\<lparr>j_legs := legs, j_is_reconstructed := True\<rparr>"
    by (cases "raptor_legs c s q j") (auto simp: raptor_reconstruct_def raptor_legs_def)
  have "rc_unix (raptor_recon c s q) (at3 (round_times s) (j_transfers j + 1) (j_dest j) (vias c)) = j_dest_time j"
    using offered_label(1) [OF assms(1)] by (simp add: rc_unix_def)
  then show ?thesis using reconstruct_journey_travels [OF assms(5-7) legs] assms(4)
    by (simp add: journey_travels_def carried_out_def j' Let_def split: if_splits)
qed

text \<open>The labels of the reconstruction example as the state of the example search.\<close>

definition example_found :: raptor_state where
  "example_found = empty_state\<lparr>round_times := [[[595], [32767], [32767]], [[32767], [610], [625]]]\<rparr>"

lemma example_base: "base_days example_raptor = 0"
  by (simp add: base_days_def example_raptor_def example_timetable_def empty_timetable_def internal_interval_days_def
      kTimetableOffset_def mk_iv_def)

lemma example_raptor_recon: "raptor_recon example_raptor example_found example_trip_query = example_rc"
  using example_base by (simp add: raptor_recon_def example_rc_def example_found_def) (simp add: example_raptor_def)

lemma example_offered: "example_j \<in> set (offered example_raptor 595 (end_round 0) example_found)"
proof -
  have d: "set_bits [False, False, True] = [2]" by (simp add: set_bits_def upt_rec numeral_3_eq_3 numeral_2_eq_2)
  have e: "[1..<end_round 0] = [1]" by (simp add: end_round_def kMaxTransfers_def upt_rec numeral_2_eq_2)
  have "mk_journey example_raptor 595 2 1 625 = example_j"
    by (simp add: mk_journey_def example_j_def delta_to_unix_def example_base)
  moreover have "kInvalid example_raptor \<noteq> 625"
    by (simp add: example_raptor_def kInvalidDelta_def)
  moreover have "is_dest example_raptor = [False, False, True]" "vias example_raptor = 0" by (simp_all add: example_raptor_def)
  ultimately show ?thesis
    unfolding offered_def using d e by (simp add: example_found_def at3_def)
qed

lemma example_journey: "reconstruct_journey example_rc example_j = (False, [example_leg])"
proof -
  have "specify_td_offsets (rc_q example_rc) ls = ls" for ls
    by (rule specify_nothing) (simp_all add: example_rc_simps)
  then show ?thesis
    by (simp add: reconstruct_journey_def example_legs example_rc_simps Let_def optimize_footpaths_def optimize_initial_departure_def
        optimize_initial_start_footpath_def optimize_last_arrival_def optimize_final_egress_footpath_def optimize_transfers_def)
qed

lemma example_plain: "plain_query example_rc" "table_durations example_rc"
proof -
  show "plain_query example_rc"
    by (simp add: plain_query_def ordinary_def rc_required_flags_def rc_wheelchair_def example_rc_simps)
  have "l < 3 \<Longrightarrow> footpaths_out example_timetable ! 0 ! l = []" "l < 3 \<Longrightarrow> footpaths_in example_timetable ! 0 ! l = []" for l
    by (auto simp: less_Suc_eq numeral_3_eq_3) (simp_all add: example_timetable_def)
  moreover have "n_places example_rc = 3" by (simp add: example_rc_simps) (simp add: example_timetable_def)
  ultimately show "table_durations example_rc"
    unfolding table_durations_def by (simp add: example_rc_simps)
qed

theorem search_journeys_carried_out_witness:
  "carried_out (raptor_recon example_raptor example_found example_trip_query)
     (example_j\<lparr>j_legs := [example_leg], j_is_reconstructed := True\<rparr>)"
proof (rule search_journeys_carried_out [OF example_offered])
  show "raptor_reconstruct example_raptor (raptor_legs example_raptor) example_found example_trip_query example_j =
      (False, example_j\<lparr>j_legs := [example_leg], j_is_reconstructed := True\<rparr>)"
    by (simp add: raptor_reconstruct_def raptor_legs_def example_raptor_recon example_journey) (simp add: example_raptor_def)
qed (simp_all add: example_raptor_recon example_recon_ok example_plain,
     simp_all add: example_raptor_def example_trip_query_def)

section \<open>Where the last passes go wrong\<close>

text \<open>The example network with vehicles that take wheelchairs, but a second stop where they cannot board, and a
  search in the wheelchair profile from two offsets; the labels are those of a start at minute 595.\<close>

definition step_timetable :: timetable where
  "step_timetable = example_timetable\<lparr>route_location_seq :=
     [map stop_value [mk_stop 0 True True True True, mk_stop 1 True True False False, mk_stop 2 True True True True]],
     route_flags := replicate 4 [True, True], footpaths_out := replicate 5 [[], [], []], footpaths_in := replicate 5 [[], [], []]\<rparr>"

abbreviation way_to_stop :: "nat \<Rightarrow> int \<Rightarrow> offset" where
  "way_to_stop l d \<equiv> \<lparr>off_target = l, off_duration = d, off_mode = 0, off_payload = 0\<rparr>"

definition wheelchair_query :: query where
  "wheelchair_query = example_trip_query\<lparr>q_prf_idx := 2, q_start_match_mode := kIntermodal, q_start := [way_to_stop 0 5, way_to_stop 1 3]\<rparr>"

definition step_rc :: recon where
  "step_rc = example_rc\<lparr>rc_tt := step_timetable, rc_q := wheelchair_query,
     rc_times := [[[600], [32767], [32767]], [[32767], [32767], [625]]]\<rparr>"

abbreviation first_walk :: "nat \<Rightarrow> int \<Rightarrow> int \<Rightarrow> offset \<Rightarrow> leg" where
  "first_walk l a b x \<equiv> \<lparr>leg_from = kStartStation, leg_to = l, leg_dep_time = a, leg_arr_time = b, leg_uses = UsesOffset x\<rparr>"

abbreviation late_leg :: leg where
  "late_leg \<equiv> \<lparr>leg_from = 1, leg_to = 2, leg_dep_time = 612, leg_arr_time = 625,
     leg_uses = UsesRun \<lparr>ree_run = example_run, ree_stop_range = mk_iv 1 3\<rparr>\<rparr>"

lemma step_rc_simps:
  "rc_dir step_rc = Forward" "rc_tt step_rc = step_timetable" "rc_rtt step_rc = None" "rc_wheelchair step_rc"
  "rc_times step_rc = [[[600], [32767], [32767]], [[32767], [32767], [625]]]" "rc_base step_rc = 0" "rc_base_day_idx step_rc = 5"
  "rc_q step_rc = wheelchair_query"
  "q_via_stops wheelchair_query = []" "q_start_match_mode wheelchair_query = kIntermodal" "q_dest_match_mode wheelchair_query = kExact"
  "q_prf_idx wheelchair_query = 2" "q_require_bike_transport wheelchair_query = False" "q_require_car_transport wheelchair_query = False"
  "q_no_compulsory_reservation wheelchair_query = False" "q_allowed_claszes wheelchair_query = all_clasz_allowed"
  "q_start wheelchair_query = [way_to_stop 0 5, way_to_stop 1 3]"
  "tts_default (q_transfer_time_settings wheelchair_query)" "q_td_start wheelchair_query = []" "q_td_dest wheelchair_query = []"
  by (simp_all add: step_rc_def example_rc_def rc_wheelchair_def wheelchair_query_def example_trip_query_def example_query_def)

lemma step_stop: "i < 3 \<Longrightarrow> stop_of_value (route_location_seq step_timetable ! 0 ! i) = mk_stop i True True (i \<noteq> 1) (i \<noteq> 1)"
  by (auto simp: step_timetable_def less_Suc_eq numeral_3_eq_3 numeral_2_eq_2)

lemma step_tables:
  "location_routes step_timetable ! 2 = [0]" "route_transport_ranges step_timetable ! 0 = mk_iv 0 2" "route_clasz step_timetable ! 0 = kBus"
  "length (route_location_seq step_timetable ! 0) = 3" "route_flags step_timetable = replicate 4 [True, True]"
  "transport_route step_timetable ! 0 = 0" "transport_traffic_days step_timetable ! 0 = 0" "bitfields step_timetable = [96]"
  by (simp_all add: step_timetable_def example_timetable_def)

lemma step_fr: "i < 3 \<Longrightarrow> get_stop step_timetable None example_run i = mk_stop i True True (i \<noteq> 1) (i \<noteq> 1)"
  "fr_size step_timetable None example_run = 3"
  using step_stop
  by (simp_all add: get_stop_def fr_location_seq_def fr_rt_def fr_route_def fr_size_def run_is_scheduled_def step_tables)

lemma step_mam: "event_mam step_timetable t s e = event_mam example_timetable t s e"
  by (simp add: event_mam_def event_mam_r_def Let_def step_timetable_def)

lemma step_fr_time: "fr_time step_timetable None example_run s e = fr_time example_timetable None example_run s e"
  by (simp add: fr_time_def fr_rt_def event_time_def step_mam internal_interval_days_def) (simp add: step_timetable_def)

lemma step_locations: "i < 3 \<Longrightarrow> get_location_idx step_timetable None example_run i = i"
  "i < 3 \<Longrightarrow> fr_in_allowed step_timetable None example_run i False"
  "i < 3 \<Longrightarrow> fr_in_allowed step_timetable None example_run i True \<longleftrightarrow> i \<noteq> 1"
  by (simp_all add: get_location_idx_def fr_in_allowed_def step_fr mk_stop_def)

lemma step_candidate: "route_candidate step_rc 625 2 False 0 = Some (\<lparr>t_idx = 0, t_day = 5\<rparr>, 625)"
proof -
  have "bit (96 :: bitfield) 5" by code_simp
  then show ?thesis
  by (simp add: route_candidate_def step_rc_simps split_day_mam_def Let_def rc_arr_def step_mam example_mams delta_count_def wrap_s16_id
      rc_transport_active_def is_transport_active_def event_time_def as_duration_count internal_interval_days_def mk_iv_def kTimetableOffset_def step_tables)
   (simp add: step_timetable_def example_timetable_def empty_timetable_def)
qed

lemma step_found: "find_start_in_prev_round step_rc 1 example_run 2 [False, False, False, False] 0 = Some (0, example_leg)"
proof -
  have flags: "violates_flags step_rc example_run s [False, False, False, False] = False" for s
    by (simp add: violates_flags_def all_route_flags_def)
  have entry: "entry_allowed step_rc example_run 1 = False" "entry_allowed step_rc example_run 0 = True"
    using step_locations(3) [of 0] step_locations(3) [of 1] by (simp_all add: entry_allowed_def step_rc_simps)
  have at: "fr_at example_run i = i" if "i < 3" for i using that by (simp add: fr_at_def)
  have fits: "entry_fits step_rc 1 0 600 0 = True"
    by (simp add: entry_fits_def step_rc_simps at3_def is_better_or_eq_def)
  have delta: "rc_delta step_rc 600 = 600" "rc_unix step_rc 600 = 600"
    by (simp_all add: rc_delta_def unix_to_delta_def rc_unix_def delta_to_unix_def step_rc_simps clamp_id)
  have "fold (\<lambda>s fs. fs) xs fs = fs" for xs :: "nat list" and fs :: "nat list" by (induction xs) simp_all
  then have thr: "ride_through step_rc l fs = fs" for l fs by (simp add: ride_through_def step_rc_simps)
  have leg: "ride_leg step_rc example_run example_run 0 2 600 = example_leg"
    by (simp add: ride_leg_def mk_leg_def step_rc_simps at step_locations step_fr_time example_fr_time delta rc_arr_def mk_run_enter_exit_def)
  have upt: "[0..<kMaxVias + 1] = [0, 1, 2]" "[1..<2 + 1] = [1, 2::nat]" "[0..<0 + 1] = [0::nat]"
    by (simp_all add: kMaxVias_def upt_rec)
  have backs: "nat (u16 (int 2 - int 1)) = 1" "nat (u16 (int 2 - int 2)) = 0" by simp_all
  have at_1: "fr_at example_run 1 = 1" "fr_at example_run 0 = 0" using at [of 1] at [of 0] by simp_all
  have "scan_entries step_rc 1 example_run example_run 2 [False, False, False, False] 0 [0, 1, 2] [1, 2] = Some (0, example_leg)"
    unfolding scan_entries.simps Let_def step_rc_simps if_True simp_thms backs at_1 entry flags thr if_False
    using fits leg
    by (simp add: step_locations rc_dep_def step_rc_simps step_fr_time example_fr_time delta)
  then show ?thesis
    unfolding find_start_in_prev_round_def Let_def step_rc_simps frun_def option.case upt if_True simp_thms list.size by (simp only: option.case)
qed

text \<open>The raw legs respect the profile: they board at the first stop.\<close>

lemma step_legs: "raw_legs step_rc example_j = (False, [example_leg, first_walk 0 595 600 (way_to_stop 0 5)])"
proof -
  have flags: "rc_required_flags step_rc = [kWheelchairAccessible]" by (simp add: rc_required_flags_def step_rc_simps)
  have exits: "exit_at step_rc 2 (route_location_seq step_timetable ! 0) i \<longleftrightarrow> i = 2" if "i < 3" for i
    using that by (auto simp: exit_at_def Let_def step_rc_simps step_stop mk_stop_def)
  have route: "get_route_transport step_rc 1 625 0 2 [False, False, False, False] False 0 = Some (0, example_leg)"
  proof -
    have range: "iv_list (route_transport_ranges step_timetable ! 0) = [0, 1]" by (simp add: step_tables iv_list_def mk_iv_def upt_rec)
    have size: "length (route_location_seq step_timetable ! 0) mod 2 ^ 16 = 3" by (simp add: step_tables)
    show ?thesis
      unfolding get_route_transport_def step_rc_simps range size first_some.simps step_candidate option.case prod.case step_found ..
  qed
  have static: "get_static_transport step_rc 1 2 625 False 0 0 = Some (0, example_leg)"
  proof -
    have size: "[0..<length (route_location_seq step_timetable ! 0)] = [0, 1, 2]" by (simp add: step_tables upt_rec)
    have sections: "flag_sections (route_flags step_timetable) 0 [kWheelchairAccessible] (replicate 4 False) = Some [False, False, False, False]"
      by (simp add: step_tables numeral_eq_Suc route_flag_idx_def)
    have "exit_at step_rc 2 (route_location_seq step_timetable ! 0) 0 = False"
      "exit_at step_rc 2 (route_location_seq step_timetable ! 0) 1 = False"
      "exit_at step_rc 2 (route_location_seq step_timetable ! 0) 2 = True" "2 mod 2 ^ 16 = (2::nat)"
      "is_allowed all_clasz_allowed (route_clasz step_timetable ! 0) = True"
      using exits [of 0] exits [of 1] exits [of 2] by (simp_all add: is_allowed_all)
    then show ?thesis using route
      unfolding get_static_transport_def step_rc_simps flags sections option.case Let_def size first_some.simps
      by (simp only: not_True_eq_False not_False_eq_True if_True if_False option.case)
  qed
  have transport: "get_transport step_rc 1 2 625 False 0 = Some (0, example_leg)"
    using static by (simp add: get_transport_def step_rc_simps step_tables)
  have unix: "rc_unix step_rc t = t" for t by (simp add: rc_unix_def delta_to_unix_def step_rc_simps)
  have legs: "get_legs step_rc 1 1 2 0 = Some (0, mk_leg Forward 2 2 625 625 (UsesFootpath \<lparr>fp_target = 2, fp_duration = 0\<rparr>), example_leg)"
    using transport
    by (simp add: get_legs_def Let_def step_rc_simps mk_footpath_eq at3_def check_fp_def count_fp_vias_def fp_attempt_def dir_def wrap_s16_id unix)
  have start: "find_start_footpath step_rc 595 example_leg 0 = Some (Some (first_walk 0 595 600 (way_to_stop 0 5)))"
    by (simp add: find_start_footpath_def Let_def start_offset_leg_def step_rc_simps matches_def is_better_or_eq_def dir_def mk_leg_def)
  show ?thesis
    using legs start by (simp add: raw_legs_def Let_def example_j_def step_rc_simps mk_leg_def)
qed

lemma step_moved:
  "optimize_initial_departure step_timetable None wheelchair_query [first_walk 0 595 600 (way_to_stop 0 5), example_leg] =
     Some [first_walk 1 609 612 (way_to_stop 1 3), late_leg]"
proof -
  have "[0..<2] = [0, 1::nat]" by (simp add: upt_rec numeral_2_eq_2)
  then have stops: "stops_before_exit step_timetable None wheelchair_query \<lparr>ree_run = example_run, ree_stop_range = mk_iv 0 3\<rparr> = [0, 1]"
    by (simp add: stops_before_exit_def step_rc_simps Let_def mk_iv_def)
  have m: "matches step_timetable kExact a b \<longleftrightarrow> a = b" for a b by (simp add: matches_def)
  note l = step_locations(1,2)
  have departs: "fr_time step_timetable None example_run 0 Dep = 600" "fr_time step_timetable None example_run 1 Dep = 612"
    unfolding step_fr_time by (rule example_fr_time)+
  have walk: "fold (offset_before step_timetable None example_run 0) [way_to_stop 0 5, way_to_stop 1 3]
       (first_walk 0 595 600 (way_to_stop 0 5), example_leg, 5) = (first_walk 0 595 600 (way_to_stop 0 5), example_leg, 5)"
    "fold (offset_before step_timetable None example_run 1) [way_to_stop 0 5, way_to_stop 1 3]
       (first_walk 0 595 600 (way_to_stop 0 5), example_leg, 5) = (first_walk 1 609 612 (way_to_stop 1 3), late_leg, 3)"
    using l [of 0] l [of 1] departs
    by (simp_all add: offset_before_def m Let_def board_at_def ride_of_def mk_iv_def)
  show ?thesis
    unfolding optimize_initial_departure_def list.case leg.simps leg_uses.case prod.case run_enter_exit.simps stops frun_def option.case Let_def
    using l [of 0] l [of 1] walk by (simp add: step_rc_simps)
qed

text \<open>Property C30. Wheelchair access is lost after reconstruction. The labels of a search in the wheelchair profile are explained by
  legs that board where wheelchairs can, but the whole reconstruction returns a journey that boards at a
  later stop where they cannot: the pass over the first leg asks for boarding without the profile, and
  moves the departure to any stop of the ride that a shorter offset leads to.\<close>

theorem wheelchair_lost:
  "rc_wheelchair step_rc \<and>
   raw_legs step_rc example_j = (False, [example_leg, first_walk 0 595 600 (way_to_stop 0 5)]) \<and>
   fr_in_allowed step_timetable None example_run 0 True \<and>
   reconstruct_journey step_rc example_j = (False, [first_walk 1 609 612 (way_to_stop 1 3), late_leg]) \<and>
   \<not> fr_in_allowed step_timetable None example_run 1 True"
proof -
  have "optimize_initial_start_footpath tt rtt q [first_walk l a b x, late_leg] = Some [first_walk l a b x, late_leg]"
    "optimize_last_arrival tt rtt q [first_walk l a b x, late_leg] = Some [first_walk l a b x, late_leg]"
    "optimize_final_egress_footpath tt rtt q [first_walk l a b x, late_leg] = Some [first_walk l a b x, late_leg]"
    "optimize_transfers tt rtt q [first_walk l a b x, late_leg] = [first_walk l a b x, late_leg]" for tt rtt q l a b x
    by (simp_all add: optimize_initial_start_footpath_def optimize_last_arrival_def optimize_final_egress_footpath_def optimize_transfers_def)
  then have "optimize_footpaths step_timetable None wheelchair_query [first_walk 0 595 600 (way_to_stop 0 5), example_leg] =
      Some [first_walk 1 609 612 (way_to_stop 1 3), late_leg]"
    using step_moved by (simp add: optimize_footpaths_def)
  moreover have "specify_td_offsets wheelchair_query ls = ls" for ls
    by (rule specify_nothing) (simp_all add: step_rc_simps)
  ultimately have "reconstruct_journey step_rc example_j = (False, [first_walk 1 609 612 (way_to_stop 1 3), late_leg])"
    by (simp add: reconstruct_journey_def step_legs step_rc_simps)
  with step_legs step_locations(3) [of 0] step_locations(3) [of 1] show ?thesis by (simp add: step_rc_simps)
qed

text \<open>A query with a constant and a time-dependent offset to the same stop.\<close>

definition mixed_query :: query where
  "mixed_query = example_trip_query\<lparr>q_start_match_mode := kIntermodal, q_start := [way_to_stop 0 5],
     q_td_start := [(0, [\<lparr>valid_from = 0, td_duration = 30, transport_mode = 1, transport_mode_payload = 0\<rparr>])]\<rparr>"

text \<open>Property C31. A constant offset leads to the first ride in time, but the last pass gives the leg the time-dependent offset
  to the same stop, whatever its duration: the leg then arrives after the ride it leads to has left.\<close>

theorem start_offset_overtaken:
  "find_start_footpath (example_rc\<lparr>rc_q := mixed_query\<rparr>) 595 example_leg 0 = Some (Some (first_walk 0 595 600 (way_to_stop 0 5))) \<and>
   specify_td_offsets mixed_query [first_walk 0 595 600 (way_to_stop 0 5), example_leg] =
     [first_walk 0 595 625 (way_to_stop 0 30), example_leg] \<and> leg_dep_time example_leg < 625"
proof -
  have q: "q_start_match_mode mixed_query = kIntermodal" "q_start mixed_query = [way_to_stop 0 5]" "q_via_stops mixed_query = []"
    "q_td_dest mixed_query = []"
    "q_td_start mixed_query = [(0, [\<lparr>valid_from = 0, td_duration = 30, transport_mode = 1, transport_mode_payload = 0\<rparr>])]"
    by (simp_all add: mixed_query_def example_trip_query_def example_query_def)
  have "find_start_footpath (example_rc\<lparr>rc_q := mixed_query\<rparr>) 595 example_leg 0 = Some (Some (first_walk 0 595 600 (way_to_stop 0 5)))"
    by (simp add: find_start_footpath_def q Let_def start_offset_leg_def example_rc_simps matches_def is_better_or_eq_def dir_def mk_leg_def)
  moreover have "specify_td_offsets mixed_query [first_walk 0 595 600 (way_to_stop 0 5), example_leg] =
     [first_walk 0 595 625 (way_to_stop 0 30), example_leg]"
    by (simp add: specify_td_offsets_def specify_first_offset_def specify_last_offset_def q get_td_duration_def kMaxDuration_def kMaxTravelTime_def)
  ultimately show ?thesis by simp
qed

end
