(* ===== verification/Start_Examples.thy ===== *)
theory Start_Examples
  imports Start_Times "HOL-Library.Multiset"
begin

text \<open>
  The starts of queries evaluated on a network of two lines (\<open>get_starts\<close> of
  \<open>src/routing/start_times.cc\<close>): departures of one stop hide those of another.
\<close>

text \<open>Line 0 leads from stop 0 to stop 2, line 1 from stop 1 to stop 3; both leave at 10:00 on days 5 and 6.\<close>

definition two_lines :: timetable where
  "two_lines = empty_timetable\<lparr>loc_names := [0, 1, 2, 3], transfer_time := [2, 2, 2, 2],
     loc_types := replicate 4 kStation, parents := replicate 4 None,
     equivalences := [[0], [1], [2], [3]], children := replicate 4 [],
     footpaths_out := [replicate 4 []], footpaths_in := [replicate 4 []],
     location_routes := [[0], [1], [0], [1]], route_transport_ranges := [mk_iv 0 1, mk_iv 1 2],
     route_location_seq := map (map (\<lambda>l. stop_value (mk_stop l True True True True))) [[0, 2], [1, 3]],
     route_clasz := [kBus, kBus], route_section_clasz := [[kBus], [kBus]],
     route_flags := replicate 4 (replicate 4 False), route_flags_per_section := replicate 4 [[], []],
     transport_first_dep := [\<lparr>days = 0, mam = 600\<rparr>, \<lparr>days = 0, mam = 600\<rparr>], transport_pattern := [0, 0],
     tt_route_times := [\<lparr>rt_transports = mk_iv 0 1, rt_pattern_start = 0, rt_n_patterns = 1\<rparr>,
       \<lparr>rt_transports = mk_iv 1 2, rt_pattern_start = 0, rt_n_patterns = 1\<rparr>],
     pattern_offsets := map delta_of_minutes [0, 10],
     transport_traffic_days := [0, 0], route_traffic_days := [0, 0], bitfields := [96],
     transport_route := [0, 1], fwd_search_lb_graph := replicate 5 [], bwd_search_lb_graph := replicate 5 []\<rparr>"

text \<open>A query from a place five minutes from each of the stops given.\<close>

definition near_stops :: "nat list \<Rightarrow> query" where
  "near_stops ls = example_query\<lparr>q_start := map (\<lambda>l. \<lparr>off_target = l, off_duration = 5, off_mode = 0, off_payload = 0\<rparr>) ls,
     q_via_stops := [], q_max_start_offset := 30\<rparr>"

abbreviation start_at :: "nat \<Rightarrow> start" where
  "start_at l \<equiv> \<lparr>time_at_start = 595, time_at_stop = 600, start_stop = l, start_v = 0\<rparr>"

abbreviation morning :: "int interval" where "morning \<equiv> mk_iv 590 610"

lemma two_lines_departure:
  assumes "l < 2"
  shows "delta_count (event_mam two_lines l 0 Dep) = 600" "start_traffic two_lines None l = 96"
    "route_transport_ranges two_lines ! l = mk_iv l (l + 1)" "location_routes two_lines ! l = [l]"
    "route_location_seq two_lines ! l = [stop_value (mk_stop l True True True True), stop_value (mk_stop (l + 2) True True True True)]"
proof -
  have tables: "transport_route two_lines = [0, 1]" "transport_traffic_days two_lines = [0, 0]" "bitfields two_lines = [96]"
    "transport_first_dep two_lines = [\<lparr>days = 0, mam = 600\<rparr>, \<lparr>days = 0, mam = 600\<rparr>]"
    "pattern_offsets two_lines = map delta_of_minutes [0, 10]" "location_routes two_lines = [[0], [1], [0], [1]]"
    "route_transport_ranges two_lines = [mk_iv 0 1, mk_iv 1 2]"
    "route_location_seq two_lines = map (map (\<lambda>l. stop_value (mk_stop l True True True True))) [[0, 2], [1, 3]]"
    "map rt_pattern_start (tt_route_times two_lines) = [0, 0]" "map rt_n_patterns (tt_route_times two_lines) = [1, 1]"
    "length (tt_route_times two_lines) = 2"
    by (simp_all add: two_lines_def numeral_2_eq_2)
  have rt: "rt_pattern_start (tt_route_times two_lines ! l) = 0" "rt_n_patterns (tt_route_times two_lines ! l) = 1"
    using assms nth_map [of l "tt_route_times two_lines" rt_pattern_start] nth_map [of l "tt_route_times two_lines" rt_n_patterns]
      tables(9-11) by (auto simp: less_2_cases_iff)
  have at: "transport_route two_lines ! l = l" "transport_first_dep two_lines ! l = \<lparr>days = 0, mam = 600\<rparr>"
    "transport_traffic_days two_lines ! l = 0" "bitfields two_lines ! 0 = 96"
    using assms by (auto simp: tables less_2_cases_iff)
  have "event_idx 0 Dep = 0" by (simp add: event_idx_def)
  then show "delta_count (event_mam two_lines l 0 Dep) = 600"
    by (simp add: event_mam_def event_mam_r_def at rt tables(5) Let_def delta_count_def delta_plus_def delta_of_minutes_def wrap_s16_id)
  show "start_traffic two_lines None l = 96" by (simp add: start_traffic_def at)
  show "route_transport_ranges two_lines ! l = mk_iv l (l + 1)" "location_routes two_lines ! l = [l]"
    using assms by (auto simp: tables less_2_cases_iff)
  show "route_location_seq two_lines ! l = [stop_value (mk_stop l True True True True), stop_value (mk_stop (l + 2) True True True True)]"
    using less_2_cases [OF assms] by (elim disjE) (simp_all add: tables numeral_2_eq_2 numeral_3_eq_3)
qed

lemma two_lines_days:
  "day_idx_mam two_lines 590 = (5, 590)" "day_idx_mam two_lines 640 = (5, 640)" "to_unixtime two_lines 5 600 = 600"
  by (simp_all add: two_lines_def empty_timetable_def day_idx_mam_def to_unixtime_def internal_interval_def
      internal_interval_days_def mk_iv_def kTimetableOffset_def Let_def wrap_s16_id)

lemma stop_starts:
  assumes "l < 2"
  shows "add_starts_in_interval Forward two_lines None morning l (OffDuration 5) 0 30 0 False starts =
    add_event Forward l morning (OffDuration 5) 0 600 starts"
proof -
  have bit: "bit (96 :: bitfield) 5" by (simp add: bit_numeral_rec)
  have iv: "iv_at_stop_of Forward morning 30 = mk_iv 590 640" "ifrom (mk_iv 590 640) = (590::int)" "ito (mk_iv 590 640) = (640::int)"
    by (simp_all add: iv_at_stop_of_def mk_iv_def)
  have on: "event_on two_lines None l (mk_iv 590 640) 600 5"
    using two_lines_departure(2) [OF assms] bit two_lines_days(3)
    by (simp add: event_on_def wrap_s16_id mk_iv_def iv_contains_def)
  have "iv_list (mk_iv l (l + 1)) = [l]" by (simp add: iv_list_def mk_iv_def)
  then have at: "add_start_times_at_stop Forward two_lines None l 0 l morning (mk_iv 590 640) (OffDuration 5) 0 starts =
      add_event Forward l morning (OffDuration 5) 0 600 starts"
    using on two_lines_departure [OF assms] two_lines_days
    by (simp add: add_start_times_at_stop_def Let_def iv start_event_def wrap_s16_id)
  have "stop_loc (mk_stop l True True True True) = l" "stop_loc (mk_stop (l + 2) True True True True) = l + 2"
    "\<not> skips_stop Forward 0 (Suc (Suc 0)) 0 (mk_stop l True True True True)"
    using assms by (simp_all add: mk_stop_def skips_stop_def in_allowed_prf_def)
  then show ?thesis
    using at two_lines_departure(4,5) [OF assms]
    by (simp add: add_starts_in_interval_def add_route_starts_def Let_def upt_rec iv)
qed

lemma near_starts:
  assumes "set ls \<subseteq> {..<2}" "distinct ls" "\<forall>xs. mset (visit xs) = mset xs"
  shows "get_starts Forward two_lines None (InInterval morning) (near_stops ls) False visit [] =
    fold (\<lambda>(l, d). add_event Forward l morning (OffDuration 5) 0 600) (visit (map (\<lambda>l. (l, 5)) ls)) []"
proof -
  have q: "q_start (near_stops ls) = map (\<lambda>l. \<lparr>off_target = l, off_duration = 5, off_mode = 0, off_payload = 0\<rparr>) ls"
    "q_via_stops (near_stops ls) = []" "q_start_match_mode (near_stops ls) = kExact" "\<not> q_use_start_footpaths (near_stops ls)"
    "q_prf_idx (near_stops ls) = 0" "q_max_start_offset (near_stops ls) = 30" "q_td_start (near_stops ls) = []"
    by (simp_all add: near_stops_def example_query_def)
  have "mset (visit []) = mset []" by (rule assms(3) [rule_format])
  then have visit: "visit [] = []" "set (visit xs) = set xs" for xs
    using mset_eq_setD [OF assms(3) [rule_format, of xs]] by simp_all
  have new: "insert_min l 5 m = m @ [(l, 5)]" if "l \<notin> fst ` set m" for l m
    using that by (induction m) auto
  have "fold (\<lambda>l. update_min 0 l 5) ls (m, []) = (m @ map (\<lambda>l. (l, 5)) ls, [])"
    if "fst ` set m \<inter> set ls = {}" "distinct ls" for m ls
    using that by (induction ls arbitrary: m) (auto simp: update_min_def new)
  from this [of "[]" ls] assms(2)
  have short: "shortest_starts Forward two_lines (q_start (near_stops ls)) [] kExact False 0 tts = (map (\<lambda>l. (l, 5)) ls, [])" for tts
    by (simp add: shortest_starts_def start_vias_def update_start_def Let_def for_each_meta_def q fold_map comp_def)
  have "fold (\<lambda>(l, dur) starts. add_starts_in_interval Forward two_lines None morning l (OffDuration dur) 0 30 0 False starts) xs starts =
      fold (\<lambda>(l, d). add_event Forward l morning (OffDuration 5) 0 600) xs starts"
    if "set xs \<subseteq> {..<2} \<times> {5}" for xs starts
    using that by (induction xs arbitrary: starts) (auto simp: stop_starts)
  moreover have "set (visit (map (\<lambda>l. (l, 5::int)) ls)) \<subseteq> {..<2} \<times> {5}" using assms(1) by (auto simp: visit)
  ultimately show ?thesis
    using q(4) short by (simp add: get_starts_def q Let_def add_offset_starts_def add_td_starts_def visit)
qed

lemma mset_single: "mset xs = {#x#} \<Longrightarrow> xs = [x]"
  by (cases xs) (auto simp: add_mset_eq_single)

text \<open>Property C36. Departures at one stop hide those at another. The check for a dominated earlier start compares the time
  at the origin, the via slot and the time at the stop, but not the stop. From a place five minutes from
  two stops of different lines that leave at the same time, the query gets only one start, at the stop that the
  hash map happens to yield first, whatever its order is: the other line is not tried. From a place that only one of the
  stops is near to, its departure is found.\<close>

theorem start_of_other_stop_dropped:
  assumes "\<forall>xs. mset (visit xs) = mset xs"
  shows "get_starts Forward two_lines None (InInterval morning) (near_stops [0]) False visit [] = [start_at 0] \<and>
    get_starts Forward two_lines None (InInterval morning) (near_stops [1]) False visit [] = [start_at 1] \<and>
    (get_starts Forward two_lines None (InInterval morning) (near_stops [0, 1]) False visit [] = [start_at 0] \<or>
     get_starts Forward two_lines None (InInterval morning) (near_stops [0, 1]) False visit [] = [start_at 1])"
proof -
  have one: "add_event Forward l morning (OffDuration 5) 0 600 [] = [start_at l]" for l
    by (simp add: add_event_def Let_def get_duration_def kMaxDuration_def back_by_def iv_contains_def mk_iv_def)
  have two: "add_event Forward l morning (OffDuration 5) 0 600 [start_at k] = [start_at k]" for k l
    by (simp add: add_event_def Let_def get_duration_def back_by_def start_is_better_or_eq_def)
  have v: "visit [(l, 5)] = [(l, 5)]" for l :: nat
    using assms by (intro mset_single) simp
  have "mset (visit [(0, 5), (1, 5)]) = {#(0, 5), (1, 5)#}" using assms by simp
  then obtain x xs where x: "visit [(0, 5), (1, 5)] = x # xs" by (cases "visit [(0, 5), (1, 5)]") auto
  with assms have "add_mset x (mset xs) = {#(0, 5), (1, 5)#}" by (metis mset.simps)
  then have "x = (0, 5) \<and> mset xs = {#(1, 5)#} \<or> x = (1, 5) \<and> mset xs = {#(0, 5)#}"
    by (auto simp: add_mset_eq_single add_eq_conv_ex)
  then have "visit [(0, 5), (1, 5)] = [(0, 5), (1, 5)] \<or> visit [(0, 5), (1, 5)] = [(1, 5), (0, 5)]"
    using x mset_single by auto
  then show ?thesis
    using near_starts [of "[0]" visit] near_starts [of "[1]" visit] near_starts [of "[0, 1]" visit] assms
    by (auto simp: v v [of 1, simplified] one two)
qed

theorem start_of_other_stop_dropped_witness:
  "length (get_starts Forward two_lines None (InInterval morning) (near_stops [0, 1]) False (\<lambda>xs. xs) []) = 1"
proof -
  have "\<forall>xs. mset ((\<lambda>xs. xs) xs) = mset xs" by simp
  from start_of_other_stop_dropped [OF this, THEN conjunct2, THEN conjunct2] show ?thesis by (elim disjE) simp_all
qed

end
