(* ===== verification/Dial.thy ===== *)
theory Dial
  imports Prelude "HOL-Library.Multiset"
begin

text \<open>
  \<open>include/nigiri/common/dial.h\<close>: a priority queue for small integer keys, one bucket per key, with a
  cursor no larger than the smallest key present. Its contract is the locale \<open>priority_queue\<close>. A
  key outside the buckets is an out-of-bounds write in the code and does nothing in the model;
  the contract excludes it.
\<close>

section \<open>The operations\<close>

record 'a dial =
  current_bucket :: nat
  d_size :: nat
  buckets :: "'a list list"

definition mk_dial :: "nat \<Rightarrow> 'a dial" where
  "mk_dial max_bucket = \<lparr>current_bucket = 0, d_size = 0, buckets = replicate (max_bucket + 1) []\<rparr>"

definition dial_push :: "('a \<Rightarrow> nat) \<Rightarrow> 'a \<Rightarrow> 'a dial \<Rightarrow> 'a dial" where
  "dial_push get_bucket el q =
     q\<lparr>buckets := (buckets q)[get_bucket el := buckets q ! get_bucket el @ [el]],
       current_bucket := min (current_bucket q) (get_bucket el), d_size := d_size q + 1\<rparr>"

function get_next_bucket :: "'a list list \<Rightarrow> nat \<Rightarrow> nat" where
  "get_next_bucket bs bucket =
     (if bucket < length bs \<and> bs ! bucket = [] then get_next_bucket bs (bucket + 1) else bucket)"
  by pat_completeness auto
termination
  by (relation "measure (\<lambda>(bs, bucket). length bs - bucket)") auto

declare get_next_bucket.simps [simp del]

definition dial_top :: "'a dial \<Rightarrow> 'a \<times> 'a dial" where
  "dial_top q =
     (let q = q\<lparr>current_bucket := get_next_bucket (buckets q) (current_bucket q)\<rparr>
      in (last (buckets q ! current_bucket q), q))"

definition dial_pop :: "'a dial \<Rightarrow> 'a dial" where
  "dial_pop q =
     (let b = get_next_bucket (buckets q) (current_bucket q)
      in q\<lparr>current_bucket := b, buckets := (buckets q)[b := butlast (buckets q ! b)], d_size := d_size q - 1\<rparr>)"

definition dial_empty :: "'a dial \<Rightarrow> bool" where
  "dial_empty q \<longleftrightarrow> d_size q = 0"

definition dial_clear :: "'a dial \<Rightarrow> 'a dial" where
  "dial_clear q = q\<lparr>current_bucket := 0, d_size := 0, buckets := map (\<lambda>_. []) (buckets q)\<rparr>"

definition n_buckets :: "'a dial \<Rightarrow> nat" where
  "n_buckets q = length (buckets q)"

definition set_n_buckets :: "nat \<Rightarrow> 'a dial \<Rightarrow> 'a dial" where
  "set_n_buckets n q = q\<lparr>buckets := resize [] n (buckets q)\<rparr>"

section \<open>The contract of a priority queue\<close>

locale priority_queue =
  fixes key :: "'a \<Rightarrow> nat"
    and ok :: "'q \<Rightarrow> bool"
    and elems :: "'q \<Rightarrow> 'a multiset"
    and bound :: "'q \<Rightarrow> nat"
    and is_empty :: "'q \<Rightarrow> bool"
    and push :: "'a \<Rightarrow> 'q \<Rightarrow> 'q"
    and first :: "'q \<Rightarrow> 'a"
    and pop :: "'q \<Rightarrow> 'q"
  assumes empty_iff: "ok q \<Longrightarrow> is_empty q \<longleftrightarrow> elems q = {#}"
    and push: "ok q \<Longrightarrow> key x < bound q \<Longrightarrow> ok (push x q) \<and> elems (push x q) = add_mset x (elems q) \<and> bound (push x q) = bound q"
    and pop: "ok q \<Longrightarrow> \<not> is_empty q \<Longrightarrow> ok (pop q) \<and> elems q = add_mset (first q) (elems (pop q)) \<and> bound (pop q) = bound q"
    and first_least: "ok q \<Longrightarrow> \<not> is_empty q \<Longrightarrow> x \<in># elems q \<Longrightarrow> key (first q) \<le> key x"
begin

lemma push_all:
  assumes "ok q" "\<forall>x \<in> set xs. key x < bound q"
  shows "ok (fold push xs q) \<and> elems (fold push xs q) = mset xs + elems q \<and> bound (fold push xs q) = bound q"
  using assms
proof (induction xs arbitrary: q)
  case (Cons x xs)
  have p: "ok (push x q)" "elems (push x q) = add_mset x (elems q)" "bound (push x q) = bound q"
    using push [OF Cons.prems(1), of x] Cons.prems(2) by simp_all
  from Cons.IH [OF p(1)] Cons.prems(2) p show ?case by simp
qed simp

text \<open>Popping until the queue is empty.\<close>

fun drain :: "nat \<Rightarrow> 'q \<Rightarrow> 'a list" where
  "drain 0 q = []"
| "drain (Suc n) q = (if is_empty q then [] else first q # drain n (pop q))"

lemma drain_sorted:
  assumes "ok q" "size (elems q) \<le> n"
  shows "mset (drain n q) = elems q \<and> sorted (map key (drain n q))"
  using assms
proof (induction n arbitrary: q)
  case 0
  then show ?case by simp
next
  case (Suc n)
  show ?case
  proof (cases "is_empty q")
    case True
    with empty_iff [OF Suc.prems(1)] show ?thesis by simp
  next
    case False
    note p = pop [OF Suc.prems(1) False]
    have "size (elems (pop q)) \<le> n" using p Suc.prems(2) by simp
    with Suc.IH [of "pop q"] p have IH: "mset (drain n (pop q)) = elems (pop q)" "sorted (map key (drain n (pop q)))"
      by blast+
    have "key (first q) \<le> key y" if "y \<in> set (drain n (pop q))" for y
    proof -
      have "y \<in># mset (drain n (pop q))" using that by simp
      moreover have "elems q = add_mset (first q) (elems (pop q))" using p by blast
      ultimately have "y \<in># elems q" unfolding IH(1) by simp
      then show ?thesis by (rule first_least [OF Suc.prems(1) False])
    qed
    with IH p False show ?thesis by simp
  qed
qed

end

section \<open>The dial keeps it\<close>

definition cells_ok :: "('a \<Rightarrow> nat) \<Rightarrow> nat \<Rightarrow> 'a list list \<Rightarrow> bool" where
  "cells_ok get_bucket cur bs \<longleftrightarrow>
     (\<forall>b < length bs. (b < cur \<longrightarrow> bs ! b = []) \<and> (\<forall>x \<in> set (bs ! b). get_bucket x = b))"

definition dial_ok :: "('a \<Rightarrow> nat) \<Rightarrow> 'a dial \<Rightarrow> bool" where
  "dial_ok get_bucket q \<longleftrightarrow>
     d_size q = length (concat (buckets q)) \<and> cells_ok get_bucket (current_bucket q) (buckets q)"

lemma cells_okI:
  assumes "\<And>b. b < length bs \<Longrightarrow> (b < cur \<longrightarrow> bs ! b = []) \<and> (\<forall>x \<in> set (bs ! b). get_bucket x = b)"
  shows "cells_ok get_bucket cur bs"
  unfolding cells_ok_def using assms by blast

lemma cells_okD:
  assumes "cells_ok get_bucket cur bs" "b < length bs"
  shows "b < cur \<Longrightarrow> bs ! b = []" and "x \<in> set (bs ! b) \<Longrightarrow> get_bucket x = b"
  using assms unfolding cells_ok_def by blast+

definition dial_elems :: "'a dial \<Rightarrow> 'a multiset" where
  "dial_elems q = mset (concat (buckets q))"

lemma get_next_bucket_spec:
  assumes "i < length bs" "bs ! i \<noteq> []" "\<forall>b < cur. b < length bs \<longrightarrow> bs ! b = []"
  shows "get_next_bucket bs cur \<le> i \<and> bs ! get_next_bucket bs cur \<noteq> [] \<and> (\<forall>b < get_next_bucket bs cur. bs ! b = [])"
  using assms
proof (induction bs cur rule: get_next_bucket.induct)
  case (1 bs cur)
  have "cur \<le> i"
  proof (rule ccontr)
    assume "\<not> cur \<le> i"
    then have "bs ! i = []" using "1.prems"(1,3) by simp
    with "1.prems"(2) show False by simp
  qed
  show ?case
  proof (cases "bs ! cur = []")
    case True
    have len: "cur < length bs" using \<open>cur \<le> i\<close> "1.prems"(1) by simp
    have "\<forall>b < cur + 1. b < length bs \<longrightarrow> bs ! b = []" using True "1.prems"(3) by (auto simp: less_Suc_eq)
    from "1.IH" [OF conjI [OF len True] "1.prems"(1,2) this]
    show ?thesis using len True by (simp add: get_next_bucket.simps [of bs cur])
  next
    case False
    then have "get_next_bucket bs cur = cur" by (simp add: get_next_bucket.simps [of bs cur])
    moreover have "\<forall>b < cur. bs ! b = []" using \<open>cur \<le> i\<close> "1.prems"(1,3) by simp
    ultimately show ?thesis using False \<open>cur \<le> i\<close> by simp
  qed
qed

lemma mset_concat_update:
  "b < length bs \<Longrightarrow> mset (concat bs) = mset (concat (take b bs @ drop (Suc b) bs)) + mset (bs ! b)"
  by (subst id_take_nth_drop, assumption) (simp add: ac_simps)

lemma mset_concat_list_update:
  "b < length bs \<Longrightarrow> mset (concat (bs[b := ys])) = mset (concat (take b bs @ drop (Suc b) bs)) + mset ys"
  by (simp add: upd_conv_take_nth_drop ac_simps)

lemma dial_next:
  assumes "dial_ok get_bucket q" "\<not> dial_empty q"
  shows "get_next_bucket (buckets q) (current_bucket q) < length (buckets q) \<and>
    buckets q ! get_next_bucket (buckets q) (current_bucket q) \<noteq> [] \<and>
    (\<forall>b < get_next_bucket (buckets q) (current_bucket q). buckets q ! b = [])"
proof -
  have "concat (buckets q) \<noteq> []" using assms by (auto simp: dial_ok_def dial_empty_def)
  then obtain i where i: "i < length (buckets q)" "buckets q ! i \<noteq> []"
    by (metis concat_eq_Nil_conv in_set_conv_nth)
  have "\<forall>b < current_bucket q. b < length (buckets q) \<longrightarrow> buckets q ! b = []"
    using assms(1) cells_okD(1) unfolding dial_ok_def by blast
  from get_next_bucket_spec [OF i this] i(1) show ?thesis by auto
qed

lemma dial_push_law:
  assumes ok: "dial_ok get_bucket q" and k: "get_bucket x < n_buckets q"
  shows "dial_ok get_bucket (dial_push get_bucket x q) \<and>
    dial_elems (dial_push get_bucket x q) = add_mset x (dial_elems q) \<and> n_buckets (dial_push get_bucket x q) = n_buckets q"
proof -
  let ?bs = "(buckets q)[get_bucket x := buckets q ! get_bucket x @ [x]]"
  have m: "mset (concat ?bs) = add_mset x (mset (concat (buckets q)))"
    unfolding mset_concat_list_update [OF k [unfolded n_buckets_def]] mset_concat_update [OF k [unfolded n_buckets_def]] by simp
  have l: "length (concat ?bs) = Suc (length (concat (buckets q)))" using arg_cong [OF m, of size] by simp
  have "cells_ok get_bucket (min (current_bucket q) (get_bucket x)) ?bs"
  proof (rule cells_okI)
    fix b assume "b < length ?bs"
    then have b: "b < length (buckets q)" by simp
    note old = cells_okD [OF conjunct2 [OF ok [unfolded dial_ok_def]] b]
    show "(b < min (current_bucket q) (get_bucket x) \<longrightarrow> ?bs ! b = []) \<and> (\<forall>y \<in> set (?bs ! b). get_bucket y = b)"
    proof (cases "b = get_bucket x")
      case True
      then have "?bs ! b = buckets q ! b @ [x]" using b by simp
      then have "y \<in> set (buckets q ! b) \<or> y = x" if "y \<in> set (?bs ! b)" for y using that by auto
      then have "\<forall>y \<in> set (?bs ! b). get_bucket y = b" using old(2) True by blast
      then show ?thesis using True by linarith
    next
      case False
      then have "?bs ! b = buckets q ! b" by simp
      then show ?thesis using old by (metis min_less_iff_conj)
    qed
  qed
  then show ?thesis using ok m l
    by (simp add: dial_push_def dial_ok_def dial_elems_def n_buckets_def del: length_concat mset_concat)
qed

lemma dial_pop_law:
  assumes ok: "dial_ok get_bucket q" and ne: "\<not> dial_empty q"
  shows "dial_ok get_bucket (dial_pop q) \<and> dial_elems q = add_mset (fst (dial_top q)) (dial_elems (dial_pop q)) \<and>
    n_buckets (dial_pop q) = n_buckets q"
proof -
  define b where "b = get_next_bucket (buckets q) (current_bucket q)"
  have b: "b < length (buckets q)" "buckets q ! b \<noteq> []" "\<And>i. i < b \<Longrightarrow> buckets q ! i = []"
    using dial_next [OF ok ne] by (simp_all add: b_def)
  let ?bs = "(buckets q)[b := butlast (buckets q ! b)]"
  have "mset (buckets q ! b) = add_mset (last (buckets q ! b)) (mset (butlast (buckets q ! b)))"
    using arg_cong [OF append_butlast_last_id [OF b(2)], of mset] by simp
  then have m: "mset (concat (buckets q)) = add_mset (last (buckets q ! b)) (mset (concat ?bs))"
    unfolding mset_concat_list_update [OF b(1)] mset_concat_update [OF b(1)] by simp
  have l: "length (concat (buckets q)) = Suc (length (concat ?bs))" using arg_cong [OF m, of size] by simp
  have "cells_ok get_bucket b ?bs"
  proof (rule cells_okI)
    fix i assume "i < length ?bs"
    then have i: "i < length (buckets q)" by simp
    note old = cells_okD(2) [OF conjunct2 [OF ok [unfolded dial_ok_def]] i]
    have "set (?bs ! i) \<subseteq> set (buckets q ! i)"
      using i by (cases "i = b") (auto dest: in_set_butlastD)
    then have "\<forall>x \<in> set (?bs ! i). get_bucket x = i" using old by blast
    moreover have "i < b \<Longrightarrow> ?bs ! i = []" using b(3) by simp
    ultimately show "(i < b \<longrightarrow> ?bs ! i = []) \<and> (\<forall>x \<in> set (?bs ! i). get_bucket x = i)" by blast
  qed
  then show ?thesis using ok m l
    by (simp add: dial_pop_def dial_top_def Let_def b_def [symmetric] dial_ok_def dial_elems_def n_buckets_def
      del: length_concat mset_concat)
qed

lemma dial_top_least:
  assumes ok: "dial_ok get_bucket q" and ne: "\<not> dial_empty q" and x: "x \<in># dial_elems q"
  shows "get_bucket (fst (dial_top q)) \<le> get_bucket x"
proof -
  define b where "b = get_next_bucket (buckets q) (current_bucket q)"
  have b: "b < length (buckets q)" "buckets q ! b \<noteq> []" "\<forall>i < b. buckets q ! i = []"
    using dial_next [OF ok ne] by (simp_all add: b_def)
  have "x \<in> set (concat (buckets q))" using x by (simp add: dial_elems_def del: mset_concat)
  then obtain i where i: "i < length (buckets q)" "x \<in> set (buckets q ! i)" unfolding set_concat by (metis UN_iff in_set_conv_nth)
  then have "b \<le> i" using b(3) by (metis empty_iff list.set(1) not_le)
  moreover have "cells_ok get_bucket (current_bucket q) (buckets q)" using ok by (simp add: dial_ok_def)
  from cells_okD(2) [OF this] b i have "get_bucket (last (buckets q ! b)) = b" "get_bucket x = i" by simp_all
  ultimately show ?thesis by (simp add: dial_top_def Let_def b_def [symmetric])
qed

interpretation dial: priority_queue get_bucket "dial_ok get_bucket" dial_elems n_buckets dial_empty
  "dial_push get_bucket" "\<lambda>q. fst (dial_top q)" dial_pop
proof
  fix q :: "'a dial"
  show "dial_ok get_bucket q \<Longrightarrow> dial_empty q \<longleftrightarrow> dial_elems q = {#}"
    by (simp add: dial_ok_def dial_empty_def dial_elems_def del: length_concat mset_concat)
qed (fact dial_push_law dial_pop_law dial_top_least)+

lemma mk_dial_ok: "dial_ok get_bucket (mk_dial n)" "dial_elems (mk_dial n) = {#}" "n_buckets (mk_dial n) = n + 1"
  by (auto simp: dial_ok_def cells_ok_def mk_dial_def dial_elems_def n_buckets_def nth_Cons split: nat.split)

text \<open>Property C26. The bucket queue sorts: whatever is pushed into an empty queue, as long as the keys fit
  the buckets, popping until it is empty yields exactly these elements in order of their keys.\<close>

theorem dial_sorts:
  fixes get_bucket :: "'a \<Rightarrow> nat"
  assumes "\<forall>x \<in> set xs. get_bucket x \<le> n"
  shows "mset (dial.drain (length xs) (fold (dial_push get_bucket) xs (mk_dial n))) = mset xs \<and>
    sorted (map get_bucket (dial.drain (length xs) (fold (dial_push get_bucket) xs (mk_dial n))))"
proof -
  let ?q = "fold (dial_push get_bucket) xs (mk_dial n)"
  have "\<forall>x \<in> set xs. get_bucket x < n_buckets (mk_dial n :: 'a dial)" using assms by (auto simp: mk_dial_ok)
  from dial.push_all [OF mk_dial_ok(1) this]
  have "dial_ok get_bucket ?q \<and> dial_elems ?q = mset xs + dial_elems (mk_dial n) \<and> n_buckets ?q = n_buckets (mk_dial n :: 'a dial)" .
  then show ?thesis using dial.drain_sorted [of get_bucket ?q "length xs"] by (simp add: mk_dial_ok)
qed

theorem dial_sorts_witness: "sorted (dial.drain 3 (fold (dial_push (\<lambda>x. x)) [5, 2, 7] (mk_dial 9)))"
  using dial_sorts [of "[5, 2, 7]" "\<lambda>x. x" 9, THEN conjunct2] by (simp only: list.size list.set ball_simps) (simp add: numeral_3_eq_3)

end
