(* ===== verification/Dijkstra.thy ===== *)
theory Dijkstra
  imports Dial Stops
begin

text \<open>
  The shortest path search of \<open>include/nigiri/routing/dijkstra.h\<close>, with the bucket queue. Edges to a
  node outside the distance vector would be an out-of-bounds access in the code; the model skips
  them.
\<close>

section \<open>The search\<close>

record lb_label =
  l_loc :: nat
  l_dist :: nat

definition edges_at ::
    "footpath list list \<Rightarrow> bool list option \<Rightarrow> footpath list list \<Rightarrow> nat \<Rightarrow> footpath list" where
  "edges_at graph has_rt rt l =
     graph ! l @ (case has_rt of None \<Rightarrow> [] | Some b \<Rightarrow> if b ! l then rt ! l else [])"

abbreviation weight :: "footpath \<Rightarrow> nat" where
  "weight e \<equiv> nat (fp_duration e)"

definition expand ::
    "nat \<Rightarrow> lb_label \<Rightarrow> footpath \<Rightarrow> lb_label dial \<times> nat list \<Rightarrow> lb_label dial \<times> nat list" where
  "expand max_dist l e st =
     (case st of (pq, dists) \<Rightarrow>
        let edge_target = fp_target e; new_dist = l_dist l + weight e
        in if edge_target < length dists \<and> new_dist < dists ! edge_target \<and> new_dist < n_buckets pq \<and>
              new_dist < max_dist
           then (dial_push l_dist \<lparr>l_loc = edge_target, l_dist = new_dist\<rparr> pq, dists[edge_target := new_dist])
           else st)"

lemma expand_cases:
  "expand mx l e st = st \<or> sum_list (snd (expand mx l e st)) < sum_list (snd st)"
proof (cases st)
  case (Pair pq dists)
  let ?t = "fp_target e" and ?new = "l_dist l + weight e"
  show ?thesis
  proof (cases "?t < length dists \<and> ?new < dists ! ?t")
    case True
    then have "sum_list (dists[?t := ?new]) < sum_list dists"
      using elem_le_sum_list [of ?t dists] by (simp add: sum_list_update) arith
    then show ?thesis by (simp add: expand_def Pair Let_def)
  qed (auto simp: expand_def Pair Let_def)
qed

lemma fold_expand_cases:
  "fold (expand mx l) es st = st \<or> sum_list (snd (fold (expand mx l) es st)) < sum_list (snd st)"
proof (induction es arbitrary: st)
  case (Cons e es)
  show ?case using Cons.IH [of "expand mx l e st"] expand_cases [of mx l e st] by auto
qed simp

lemma dial_pop_size: "d_size (dial_pop q) = d_size q - 1"
  by (simp add: dial_pop_def Let_def)

function dijkstra :: "(nat \<Rightarrow> footpath list) \<Rightarrow> nat \<Rightarrow> lb_label dial \<Rightarrow> nat list \<Rightarrow> nat list" where
  "dijkstra edges max_dist pq dists =
     (if dial_empty pq then dists
      else
        let l = fst (dial_top pq); pq = dial_pop pq
        in if dists ! l_loc l < l_dist l then dijkstra edges max_dist pq dists
           else dijkstra edges max_dist (fst (fold (expand max_dist l) (edges (l_loc l)) (pq, dists)))
                  (snd (fold (expand max_dist l) (edges (l_loc l)) (pq, dists))))"
  by pat_completeness auto
termination
proof (relation "measures [\<lambda>(edges, mx, pq, dists). sum_list dists, \<lambda>(edges, mx, pq, dists). d_size pq]", goal_cases)
  case (3 edges mx pq dists l pq')
  then show ?case
    using fold_expand_cases [of mx l "edges (l_loc l)" "(pq', dists)"]
    by (auto simp: dial_empty_def dial_pop_size case_prod_unfold)
qed (auto simp: dial_empty_def dial_pop_size)

declare dijkstra.simps [simp del]

section \<open>Shortest paths\<close>

inductive walk :: "(nat \<Rightarrow> footpath list) \<Rightarrow> nat \<Rightarrow> nat \<Rightarrow> nat \<Rightarrow> bool" for edges where
  walk_refl: "walk edges s s 0"
| walk_step: "walk edges s u w \<Longrightarrow> e \<in> set (edges u) \<Longrightarrow> walk edges s (fp_target e) (w + weight e)"

inductive_cases walk_stepE: "walk edges s t w"

text \<open>An edge is settled when it offers nothing better below the bound.\<close>

definition settled :: "nat \<Rightarrow> nat list \<Rightarrow> nat \<Rightarrow> footpath \<Rightarrow> bool" where
  "settled B dists u e \<longleftrightarrow>
     (fp_target e < length dists \<longrightarrow> dists ! fp_target e \<le> dists ! u + weight e \<or> B \<le> dists ! u + weight e)"

definition queued :: "lb_label dial \<Rightarrow> nat list \<Rightarrow> nat \<Rightarrow> bool" where
  "queued pq dists u \<longleftrightarrow> \<lparr>l_loc = u, l_dist = dists ! u\<rparr> \<in># dial_elems pq"

definition labels_ok :: "lb_label dial \<Rightarrow> nat list \<Rightarrow> bool" where
  "labels_ok pq dists \<longleftrightarrow> (\<forall>x. x \<in># dial_elems pq \<longrightarrow> l_loc x < length dists \<and> dists ! l_loc x \<le> l_dist x)"

text \<open>Every node outside \<open>X\<close> is queued or all its edges are settled.\<close>

definition frontier :: "(nat \<Rightarrow> footpath list) \<Rightarrow> nat \<Rightarrow> nat set \<Rightarrow> lb_label dial \<Rightarrow> nat list \<Rightarrow> bool" where
  "frontier edges B X pq dists \<longleftrightarrow>
     (\<forall>u < length dists. u \<notin> X \<longrightarrow> queued pq dists u \<or> (\<forall>e \<in> set (edges u). settled B dists u e))"

text \<open>Distances come from the initial ones by walks, and only get smaller.\<close>

definition explained :: "(nat \<Rightarrow> footpath list) \<Rightarrow> nat list \<Rightarrow> nat list \<Rightarrow> bool" where
  "explained edges D dists \<longleftrightarrow> length dists = length D \<and>
     (\<forall>t < length D. dists ! t \<le> D ! t \<and> (\<exists>s < length D. \<exists>w. walk edges s t w \<and> dists ! t = D ! s + w))"

definition dijkstra_inv ::
    "(nat \<Rightarrow> footpath list) \<Rightarrow> nat \<Rightarrow> nat \<Rightarrow> nat list \<Rightarrow> nat set \<Rightarrow> lb_label dial \<Rightarrow> nat list \<Rightarrow> bool" where
  "dijkstra_inv edges N mx D X pq dists \<longleftrightarrow> dial_ok l_dist pq \<and> n_buckets pq = N \<and> labels_ok pq dists \<and>
     frontier edges (min N mx) X pq dists \<and> explained edges D dists"

lemma explained_walk:
  assumes "explained edges D dists" "u < length D" "e \<in> set (edges u)"
  shows "\<exists>s < length D. \<exists>w. walk edges s (fp_target e) w \<and> dists ! u + weight e = D ! s + w"
proof -
  from assms obtain s w where s: "s < length D" "walk edges s u w" "dists ! u = D ! s + w"
    unfolding explained_def by blast
  with walk_step [OF s(2) assms(3)] show ?thesis by (intro exI [of _ s] conjI exI [of _ "w + weight e"]) simp_all
qed

lemma expand_inv:
  assumes inv: "dijkstra_inv edges N mx D X pq dists" and u: "l_loc l = u" "u < length dists" "dists ! u = l_dist l"
    and e: "e \<in> set (edges u)" and r: "expand mx l e (pq, dists) = (pq', dists')"
  shows "dijkstra_inv edges N mx D X pq' dists' \<and> length dists' = length dists \<and> dists' ! u = dists ! u \<and>
    (\<forall>t < length dists. dists' ! t \<le> dists ! t) \<and> settled (min N mx) dists' u e"
proof -
  let ?t = "fp_target e" and ?new = "l_dist l + weight e"
  have N: "n_buckets pq = N" "dial_ok l_dist pq" using inv by (simp_all add: dijkstra_inv_def)
  show ?thesis
  proof (cases "?t < length dists \<and> ?new < dists ! ?t \<and> ?new < N \<and> ?new < mx")
    case False
    then have "pq' = pq" "dists' = dists" using r by (simp_all add: expand_def Let_def N split: if_splits)
    moreover have "settled (min N mx) dists u e" using False u by (auto simp: settled_def)
    ultimately show ?thesis using inv by simp
  next
    case True
    let ?l = "\<lparr>l_loc = ?t, l_dist = ?new\<rparr>"
    have r': "pq' = dial_push l_dist ?l pq" "dists' = dists[?t := ?new]"
      using True r by (simp_all add: expand_def Let_def N)
    have p: "dial_ok l_dist pq'" "dial_elems pq' = add_mset ?l (dial_elems pq)" "n_buckets pq' = N"
      using dial.push [OF N(2), of ?l] True unfolding r' N(1) by simp_all
    have le: "dists' ! v \<le> dists ! v" if "v < length dists" for v
      using True that by (cases "v = ?t") (simp_all add: r')
    have ne: "?t \<noteq> u" using True u by auto
    have lab: "labels_ok pq' dists'"
      unfolding labels_ok_def
    proof (intro allI impI)
      fix x assume "x \<in># dial_elems pq'"
      then consider "x = ?l" | "x \<in># dial_elems pq" unfolding p by auto
      then show "l_loc x < length dists' \<and> dists' ! l_loc x \<le> l_dist x"
      proof cases
        case 2
        then have "l_loc x < length dists" "dists ! l_loc x \<le> l_dist x"
          using inv unfolding dijkstra_inv_def labels_ok_def by blast+
        with le [of "l_loc x"] show ?thesis by (simp add: r')
      qed (use True in \<open>simp add: r'\<close>)
    qed
    have front: "frontier edges (min N mx) X pq' dists'"
      unfolding frontier_def
    proof (intro allI impI)
      fix v assume v: "v < length dists'" "v \<notin> X"
      show "queued pq' dists' v \<or> (\<forall>e \<in> set (edges v). settled (min N mx) dists' v e)"
      proof (cases "v = ?t")
        case True
        then show ?thesis using \<open>_ \<and> _ \<and> _ \<and> _\<close> unfolding queued_def p(2) by (simp add: r'(2))
      next
        case False
        then have same: "dists' ! v = dists ! v" by (simp add: r')
        from v have "queued pq dists v \<or> (\<forall>e \<in> set (edges v). settled (min N mx) dists v e)"
          using inv by (simp add: dijkstra_inv_def frontier_def r')
        moreover have "settled (min N mx) dists' v e'" if "settled (min N mx) dists v e'" for e'
          using that le unfolding settled_def same by (auto simp: r' intro: order_trans)
        ultimately show ?thesis by (auto simp: queued_def same p)
      qed
    qed
    have ex: "explained edges D dists"  using inv by (simp add: dijkstra_inv_def)
    have "explained edges D dists'"
      unfolding explained_def
    proof (intro conjI allI impI)
      show "length dists' = length D" using ex by (simp add: explained_def r')
      fix t assume t: "t < length D"
      have "dists ! t \<le> D ! t" "t < length dists" using ex t by (simp_all add: explained_def)
      with le show "dists' ! t \<le> D ! t" by (meson order_trans)
      show "\<exists>s < length D. \<exists>w. walk edges s t w \<and> dists' ! t = D ! s + w"
      proof (cases "t = ?t")
        case True
        have "dists' ! t = dists ! u + weight e" using True \<open>_ \<and> _ \<and> _ \<and> _\<close> u by (simp add: r')
        moreover have "u < length D" using u(2) ex by (simp add: explained_def)
        ultimately show ?thesis using explained_walk [OF ex _ e] True by simp
      next
        case False
        with ex t show ?thesis by (simp add: explained_def r')
      qed
    qed
    moreover have "settled (min N mx) dists' u e" using True u ne by (simp add: settled_def r')
    ultimately show ?thesis using p lab front le ne by (simp add: dijkstra_inv_def r')
  qed
qed

lemma settled_mono:
  assumes "settled B dists u e" "dists' ! u = dists ! u" "length dists' = length dists"
    and "\<forall>t < length dists. dists' ! t \<le> dists ! t"
  shows "settled B dists' u e"
  using assms unfolding settled_def by (metis le_trans)

lemma fold_expand_inv:
  assumes "dijkstra_inv edges N mx D X pq dists" "l_loc l = u" "u < length dists" "dists ! u = l_dist l"
    and "set es \<subseteq> set (edges u)" "fold (expand mx l) es (pq, dists) = (pq', dists')"
  shows "dijkstra_inv edges N mx D X pq' dists' \<and> length dists' = length dists \<and> dists' ! u = dists ! u \<and>
    (\<forall>t < length dists. dists' ! t \<le> dists ! t) \<and> (\<forall>e \<in> set es. settled (min N mx) dists' u e)"
  using assms
proof (induction es arbitrary: pq dists)
  case (Cons e es)
  obtain pq1 dists1 where s: "expand mx l e (pq, dists) = (pq1, dists1)" by fastforce
  note 1 = expand_inv [OF Cons.prems(1-4) _ s]
  have e: "e \<in> set (edges u)" using Cons.prems(5) by simp
  have "dijkstra_inv edges N mx D X pq' dists' \<and> length dists' = length dists1 \<and> dists' ! u = dists1 ! u \<and>
    (\<forall>t < length dists1. dists' ! t \<le> dists1 ! t) \<and> (\<forall>e \<in> set es. settled (min N mx) dists' u e)"
    using 1 [OF e] Cons.prems s by (intro Cons.IH [of pq1 dists1]) simp_all
  with 1 [OF e] settled_mono show ?case by (metis le_trans set_ConsD)
qed simp

lemma dijkstra_step_inv:
  assumes inv: "dijkstra_inv edges N mx D {} pq dists" and ne: "\<not> dial_empty pq"
    and l: "l = fst (dial_top pq)" and f: "fold (expand mx l) (edges (l_loc l)) (dial_pop pq, dists) = (pq', dists')"
  shows "(dists ! l_loc l < l_dist l \<longrightarrow> dijkstra_inv edges N mx D {} (dial_pop pq) dists) \<and>
    (\<not> dists ! l_loc l < l_dist l \<longrightarrow> dijkstra_inv edges N mx D {} pq' dists')"
proof -
  have ok: "dial_ok l_dist pq" using inv by (simp add: dijkstra_inv_def)
  have p: "dial_ok l_dist (dial_pop pq)" "dial_elems pq = add_mset l (dial_elems (dial_pop pq))"
    "n_buckets (dial_pop pq) = n_buckets pq"
    using dial.pop [OF ok ne] unfolding l by blast+
  have lab: "l_loc l < length dists" "dists ! l_loc l \<le> l_dist l" "labels_ok (dial_pop pq) dists"
    using inv unfolding dijkstra_inv_def labels_ok_def p(2) by auto
  have front: "frontier edges (min N mx) {} (dial_pop pq) dists" if "dists ! l_loc l < l_dist l"
    using inv that unfolding dijkstra_inv_def frontier_def queued_def p(2) by auto
  have "frontier edges (min N mx) {l_loc l} (dial_pop pq) dists"
    using inv unfolding dijkstra_inv_def frontier_def queued_def p(2) by auto
  then have inv1: "dijkstra_inv edges N mx D {l_loc l} (dial_pop pq) dists"
    using inv p lab by (simp add: dijkstra_inv_def)
  have "dijkstra_inv edges N mx D {} pq' dists'" if "\<not> dists ! l_loc l < l_dist l"
  proof -
    have "dists ! l_loc l = l_dist l" using that lab(2) by simp
    from fold_expand_inv [OF inv1 refl lab(1) this subset_refl f]
    show ?thesis by (auto simp: dijkstra_inv_def frontier_def)
  qed
  with front inv p lab(3) show ?thesis by (simp add: dijkstra_inv_def)
qed

lemma dijkstra_inv_end:
  assumes "dijkstra_inv edges N mx D {} pq dists"
  shows "explained edges D (dijkstra edges mx pq dists) \<and>
    (\<forall>u < length D. \<forall>e \<in> set (edges u). settled (min N mx) (dijkstra edges mx pq dists) u e)"
  using assms
proof (induction edges mx pq dists rule: dijkstra.induct)
  case (1 edges mx pq dists)
  show ?case
  proof (cases "dial_empty pq")
    case True
    then have "dial_elems pq = {#}" using "1.prems" dial.empty_iff unfolding dijkstra_inv_def by blast
    then have "\<not> queued pq dists u" for u by (simp add: queued_def)
    with True "1.prems" show ?thesis
      by (simp add: dijkstra.simps [of edges mx pq dists] dijkstra_inv_def frontier_def explained_def)
  next
    case False
    define l where "l = fst (dial_top pq)"
    define pq1 dists1 where "pq1 = fst (fold (expand mx l) (edges (l_loc l)) (dial_pop pq, dists))"
      and "dists1 = snd (fold (expand mx l) (edges (l_loc l)) (dial_pop pq, dists))"
    note step = dijkstra_step_inv [OF "1.prems" False l_def, of pq1 dists1]
    have unfold: "dijkstra edges mx pq dists =
        (if dists ! l_loc l < l_dist l then dijkstra edges mx (dial_pop pq) dists else dijkstra edges mx pq1 dists1)"
      using False by (simp add: dijkstra.simps [of edges mx pq dists] Let_def l_def pq1_def dists1_def)
    show ?thesis
    proof (cases "dists ! l_loc l < l_dist l")
      case True
      with step "1.IH"(1) [OF False l_def refl True] show ?thesis unfolding unfold by (simp add: pq1_def dists1_def)
    next
      case c: False
      with step "1.IH"(2) [OF False l_def refl c] show ?thesis unfolding unfold by (simp add: pq1_def dists1_def)
    qed
  qed
qed

lemma settled_optimal:
  assumes "walk edges s t w" "explained edges D dists" "\<forall>u < length D. \<forall>e \<in> set (edges u). settled B dists u e"
    and "\<forall>u < length D. \<forall>e \<in> set (edges u). fp_target e < length D" "s < length D" "D ! s + w < B"
  shows "t < length D \<and> dists ! t \<le> D ! s + w"
  using assms
proof (induction rule: walk.induct)
  case (walk_refl s)
  then show ?case by (simp add: explained_def)
next
  case (walk_step s u w e)
  then have IH: "u < length D" "dists ! u \<le> D ! s + w" by simp_all
  moreover have "fp_target e < length D" using walk_step.prems(3) IH(1) walk_step.hyps(2) by blast
  moreover have "settled B dists u e" using walk_step.prems(2) IH(1) walk_step.hyps(2) by blast
  moreover have "length dists = length D" using walk_step.prems(1) by (simp add: explained_def)
  ultimately show ?case using walk_step.prems(5) by (auto simp: settled_def)
qed

text \<open>Property C21. The search computes shortest distances. It always ends; started with a queue that holds a
  label for every node below the bound, each final distance is an initial distance plus the
  length of some walk, and no walk whose total stays below the bound is shorter.\<close>

theorem dijkstra_shortest:
  assumes "dial_ok l_dist pq" "labels_ok pq D"
    and "\<forall>u < length D. queued pq D u \<or> min (n_buckets pq) max_dist \<le> D ! u"
    and "\<forall>u < length D. \<forall>e \<in> set (edges u). fp_target e < length D" and "t < length D"
  shows "(\<exists>s < length D. \<exists>w. walk edges s t w \<and> dijkstra edges max_dist pq D ! t = D ! s + w) \<and>
    (\<forall>s w. s < length D \<and> walk edges s t w \<and> D ! s + w < min (n_buckets pq) max_dist \<longrightarrow>
       dijkstra edges max_dist pq D ! t \<le> D ! s + w)"
proof -
  have ex: "explained edges D D"
    unfolding explained_def using walk_refl by (metis add.right_neutral order_refl)
  have "dijkstra_inv edges (n_buckets pq) max_dist D {} pq D"
    unfolding dijkstra_inv_def frontier_def using assms(1-3) ex by (auto simp: settled_def)
  note fin = dijkstra_inv_end [OF this]
  with assms(5) have "\<exists>s < length D. \<exists>w. walk edges s t w \<and> dijkstra edges max_dist pq D ! t = D ! s + w"
    by (simp add: explained_def)
  moreover have "dijkstra edges max_dist pq D ! t \<le> D ! s + w"
    if "s < length D" "walk edges s t w" "D ! s + w < min (n_buckets pq) max_dist" for s w
    using settled_optimal [OF that(2) _ _ assms(4) that(1,3)] fin by blast
  ultimately show ?thesis by blast
qed

text \<open>Node 0 leads to 2 directly in 10 and by 1 in 5 + 3.\<close>

definition example_edges :: "nat \<Rightarrow> footpath list" where
  "example_edges u =
     (if u = 0 then [\<lparr>fp_target = 1, fp_duration = 5\<rparr>, \<lparr>fp_target = 2, fp_duration = 10\<rparr>]
      else if u = 1 then [\<lparr>fp_target = 2, fp_duration = 3\<rparr>] else [])"

theorem dijkstra_shortest_witness:
  "dijkstra example_edges 1000 (dial_push l_dist \<lparr>l_loc = 0, l_dist = 0\<rparr> (mk_dial 20)) [0, 100, 100] ! 2 \<le> 8"
proof -
  let ?l = "\<lparr>l_loc = 0, l_dist = 0\<rparr>" and ?D = "[0, 100, 100]"
  let ?pq = "dial_push l_dist ?l (mk_dial 20)"
  have p: "dial_ok l_dist ?pq" "dial_elems ?pq = {#?l#}" "n_buckets ?pq = 21"
    using dial.push [OF mk_dial_ok(1), of l_dist ?l 20] by (simp_all add: mk_dial_ok)
  have "labels_ok ?pq ?D" by (simp add: labels_ok_def p(2))
  moreover have "\<forall>u < length ?D. queued ?pq ?D u \<or> min (n_buckets ?pq) 1000 \<le> ?D ! u"
    by (auto simp: queued_def p(2,3) less_Suc_eq)
  moreover have "\<forall>u < length ?D. \<forall>e \<in> set (example_edges u). fp_target e < length ?D"
    by (auto simp: example_edges_def)
  moreover have "walk example_edges 0 2 8"
  proof -
    have "walk example_edges 0 1 5"
      using walk_step [OF walk_refl, of "\<lparr>fp_target = 1, fp_duration = 5\<rparr>" example_edges 0] by (simp add: example_edges_def)
    from walk_step [OF this, of "\<lparr>fp_target = 2, fp_duration = 3\<rparr>"] show ?thesis by (simp add: example_edges_def)
  qed
  ultimately show ?thesis
    using dijkstra_shortest [OF p(1), of ?D 1000 example_edges 2, THEN conjunct2, rule_format, of 0 8] by (simp add: p(3))
qed

end
