(* ===== verification/Lower_Bounds.thy ===== *)
theory Lower_Bounds
  imports Dijkstra Query Locations
begin

text \<open>
  Lower bounds on the remaining travel time: the graph of
  \<open>include/nigiri/loader/build_lb_graph.h\<close>, whose nodes are the roots of the location tree, and the
  search on it from the destinations of a query, \<open>src/routing/dijkstra.cc\<close>. A \<open>hash_map\<close> is an
  association list in the order of insertion; its iteration order is the argument \<open>visit\<close>.
\<close>

section \<open>The graph\<close>

definition kCarProfile :: nat where "kCarProfile = 3"
definition kBikeProfile :: nat where "kBikeProfile = 4"

text \<open>\<open>update_weight\<close>.\<close>

fun update_weight :: "nat \<Rightarrow> int \<Rightarrow> (nat \<times> int) list \<Rightarrow> (nat \<times> int) list" where
  "update_weight target d [] = [(target, d)]"
| "update_weight target d ((t, x) # ws) =
     (if t = target then (t, min x d) # ws else (t, x) # update_weight target d ws)"

text \<open>The least time a transport of route \<open>r\<close> takes from stop \<open>from\<close> to stop \<open>to\<close>.\<close>

definition hop_time :: "timetable \<Rightarrow> nat \<Rightarrow> nat \<Rightarrow> nat \<Rightarrow> int" where
  "hop_time tt t from_idx to_idx =
     as_duration (delta_minus (event_mam tt t to_idx Arr) (event_mam tt t from_idx Dep))"

definition min_hop_time :: "timetable \<Rightarrow> nat \<Rightarrow> nat \<Rightarrow> nat \<Rightarrow> int" where
  "min_hop_time tt r from_idx to_idx =
     fold (\<lambda>t m. min (hop_time tt t from_idx to_idx) m) (iv_list (route_transport_ranges tt ! r)) 32767"

text \<open>One pair of consecutive stops of a route of location \<open>l\<close>.\<close>

definition stop_at_idx :: "timetable \<Rightarrow> nat \<Rightarrow> nat \<Rightarrow> nat" where
  "stop_at_idx tt r i = stop_loc (stop_of_value (route_location_seq tt ! r ! i))"

definition hop_edge :: "direction \<Rightarrow> timetable \<Rightarrow> nat \<Rightarrow> nat \<Rightarrow> nat \<Rightarrow> (nat \<times> int) list \<Rightarrow> (nat \<times> int) list" where
  "hop_edge d tt l r from_idx ws =
     (let to_idx = from_idx + 1; from_l = stop_at_idx tt r from_idx; to_l = stop_at_idx tt r to_idx
      in if (if d = Forward then to_l else from_l) \<noteq> l then ws
         else
           let target = get_root_idx tt (if d = Forward then from_l else to_l)
           in if target = get_root_idx tt l then ws
              else update_weight target (min_hop_time tt r from_idx to_idx) ws)"

definition route_edges :: "direction \<Rightarrow> timetable \<Rightarrow> nat \<Rightarrow> nat \<Rightarrow> nat \<Rightarrow> (nat \<times> int) list \<Rightarrow> (nat \<times> int) list" where
  "route_edges d tt prf l r ws =
     (if (prf = kCarProfile \<and> \<not> is_flag_set tt kCarsAllowed r) \<or>
         (prf = kBikeProfile \<and> \<not> is_flag_set tt kBikesAllowed r) then ws
      else fold (hop_edge d tt l r) [0..<length (route_location_seq tt ! r) - 1] ws)"

definition add_edges :: "direction \<Rightarrow> timetable \<Rightarrow> nat \<Rightarrow> nat \<Rightarrow> (nat \<times> int) list \<Rightarrow> (nat \<times> int) list" where
  "add_edges d tt prf l ws =
     (let parent_l = get_root_idx tt l;
          fps = (if d = Forward then footpaths_in tt else footpaths_out tt) ! prf ! l;
          ws = fold (\<lambda>fp ws. let target = get_root_idx tt (fp_target fp)
                 in if target \<noteq> parent_l then update_weight target (fp_duration fp) ws else ws) fps ws
      in fold (route_edges d tt prf l) (location_routes tt ! l) ws)"

text \<open>The descendants in the order \<open>add_descendants\<close> visits them; the depth of the recursion is bounded
  by the number of locations unless the tree has a cycle, where the code does not return.\<close>

fun descendants :: "nat \<Rightarrow> timetable \<Rightarrow> nat \<Rightarrow> nat list" where
  "descendants 0 tt l = []"
| "descendants (Suc fuel) tt l = concat (map (\<lambda>c. c # descendants fuel tt c) (children tt ! l))"

definition lb_weights :: "direction \<Rightarrow> timetable \<Rightarrow> nat \<Rightarrow> nat \<Rightarrow> (nat \<times> int) list" where
  "lb_weights d tt prf i = fold (add_edges d tt prf) (descendants (n_locations tt) tt i @ [i]) []"

text \<open>\<open>None\<close>: the constructor of \<open>footpath\<close> throws since the target does not fit its bits.\<close>

definition lb_node ::
    "((nat \<times> int) list \<Rightarrow> (nat \<times> int) list) \<Rightarrow> direction \<Rightarrow> timetable \<Rightarrow> nat \<Rightarrow> nat \<Rightarrow> footpath list option" where
  "lb_node visit d tt prf i =
     (if parents tt ! i \<noteq> None then Some []
      else those (map (\<lambda>(target, duration). mk_footpath target duration) (visit (lb_weights d tt prf i))))"

definition build_lb_graph ::
    "((nat \<times> int) list \<Rightarrow> (nat \<times> int) list) \<Rightarrow> direction \<Rightarrow> nat \<Rightarrow> timetable \<Rightarrow> timetable option" where
  "build_lb_graph visit d prf tt =
     (case those (map (lb_node visit d tt prf) [0..<n_locations tt]) of
        None \<Rightarrow> None
      | Some g \<Rightarrow> Some (if d = Forward
          then tt\<lparr>fwd_search_lb_graph := (fwd_search_lb_graph tt)[prf := fwd_search_lb_graph tt ! prf @ g]\<rparr>
          else tt\<lparr>bwd_search_lb_graph := (bwd_search_lb_graph tt)[prf := bwd_search_lb_graph tt ! prf @ g]\<rparr>))"

section \<open>Edges bound every hop\<close>

text \<open>\<open>bounded ws target d\<close>: there is a weight for \<open>target\<close> and it is at most \<open>d\<close>.\<close>

definition bounded :: "(nat \<times> int) list \<Rightarrow> nat \<Rightarrow> int \<Rightarrow> bool" where
  "bounded ws target d \<longleftrightarrow> (\<exists>x. (target, x) \<in> set ws \<and> x \<le> d)"

lemma update_weight_bounded: "bounded (update_weight target d ws) target d"
proof (induction ws)
  case (Cons w ws)
  then show ?case by (cases w) (auto simp: bounded_def)
qed (simp add: bounded_def)

lemma update_weight_keeps: "bounded ws t x \<Longrightarrow> bounded (update_weight target d ws) t x"
proof (induction ws)
  case (Cons w ws)
  obtain u y where w: "w = (u, y)" by fastforce
  show ?case
  proof (cases "bounded ws t x")
    case True
    with Cons.IH show ?thesis using True by (auto simp: bounded_def w)
  next
    case False
    with Cons.prems have "u = t" "y \<le> x" by (auto simp: bounded_def w)
    then show ?thesis by (auto simp: bounded_def w min_def)
  qed
qed (simp add: bounded_def)

lemma hop_edge_keeps: "bounded ws t x \<Longrightarrow> bounded (hop_edge d tt l r i ws) t x"
  by (simp add: hop_edge_def Let_def update_weight_keeps)

lemma fold_keeps_bounded:
  assumes "\<And>a ws. bounded ws t x \<Longrightarrow> bounded (f a ws) t x" "bounded ws t x"
  shows "bounded (fold f as ws) t x"
  by (rule fold_invariant [where P = "\<lambda>ws. bounded ws t x", OF assms(2)]) (rule assms(1))

lemma fold_reaches_bounded:
  assumes "\<And>a ws. bounded ws t x \<Longrightarrow> bounded (f a ws) t x" "a \<in> set as" "\<And>ws. bounded (f a ws) t x"
  shows "bounded (fold f as ws) t x"
proof -
  obtain xs ys where "as = xs @ a # ys" using split_list [OF assms(2)] by blast
  then show ?thesis using fold_keeps_bounded [where f = f, OF assms(1) assms(3)] by simp
qed

lemma route_edges_keeps: "bounded ws t x \<Longrightarrow> bounded (route_edges d tt prf l r ws) t x"
  unfolding route_edges_def using fold_keeps_bounded [of t x "hop_edge d tt l r"] hop_edge_keeps by simp

lemma add_edges_keeps:
  assumes "bounded ws t x"
  shows "bounded (add_edges d tt prf l ws) t x"
  unfolding add_edges_def Let_def
  by (rule fold_keeps_bounded [OF route_edges_keeps], assumption, rule fold_keeps_bounded [OF _ assms])
     (simp add: update_weight_keeps)

lemma min_hop_time_le:
  assumes "t \<in> set (iv_list (route_transport_ranges tt ! r))"
  shows "min_hop_time tt r from_idx to_idx \<le> hop_time tt t from_idx to_idx"
proof -
  have le: "fold (\<lambda>t m. min (f t) m) ts m \<le> m \<and> (\<forall>t \<in> set ts. fold (\<lambda>t m. min (f t) m) ts m \<le> f t)"
    for f :: "nat \<Rightarrow> int" and ts m
  proof (induction ts arbitrary: m)
    case (Cons u ts)
    from Cons.IH [of "min (f u) m"] show ?case by auto
  qed simp
  show ?thesis
    unfolding min_hop_time_def by (rule bspec [OF conjunct2 [OF le [of "\<lambda>t. hop_time tt t from_idx to_idx"]] assms])
qed

definition route_allowed :: "timetable \<Rightarrow> nat \<Rightarrow> nat \<Rightarrow> bool" where
  "route_allowed tt prf r \<longleftrightarrow>
     \<not> (prf = kCarProfile \<and> \<not> is_flag_set tt kCarsAllowed r) \<and> \<not> (prf = kBikeProfile \<and> \<not> is_flag_set tt kBikesAllowed r)"

lemma add_edges_bounds_hop:
  assumes r: "r \<in> set (location_routes tt ! l)" "route_allowed tt prf r" and i: "i + 1 < length (route_location_seq tt ! r)"
    and l: "(if d = Forward then stop_at_idx tt r (i + 1) else stop_at_idx tt r i) = l"
    and target: "target = get_root_idx tt (if d = Forward then stop_at_idx tt r i else stop_at_idx tt r (i + 1))"
      "target \<noteq> get_root_idx tt l"
  shows "bounded (add_edges d tt prf l ws) target (min_hop_time tt r i (i + 1))"
proof -
  let ?m = "min_hop_time tt r i (i + 1)"
  have hop: "bounded (hop_edge d tt l r i ws) target ?m" for ws
    using l target update_weight_bounded [of target ?m ws] by (cases "d = Forward") (simp_all add: hop_edge_def Let_def)
  have "bounded (fold (hop_edge d tt l r) [0..<length (route_location_seq tt ! r) - 1] ws) target ?m" for ws
    by (rule fold_reaches_bounded [where f = "hop_edge d tt l r" and a = i, OF hop_edge_keeps _ hop]) (use i in auto)
  then have route: "bounded (route_edges d tt prf l r ws) target ?m" for ws
    using r(2) by (auto simp: route_edges_def route_allowed_def)
  show ?thesis
    unfolding add_edges_def Let_def by (rule fold_reaches_bounded [where f = "route_edges d tt prf l" and a = r, OF route_edges_keeps r(1) route])
qed

lemma lb_weights_bounds:
  assumes "l \<in> set (descendants (n_locations tt) tt p @ [p])" "\<And>ws. bounded (add_edges d tt prf l ws) target x"
  shows "bounded (lb_weights d tt prf p) target x"
  unfolding lb_weights_def by (rule fold_reaches_bounded [where f = "add_edges d tt prf" and a = l, OF add_edges_keeps assms])

text \<open>The stops of the group of a root are those whose weights the root collects.\<close>

lemma descendants_group:
  assumes "tree_ok tt" "l < n_locations tt"
  shows "l \<in> set (descendants (n_locations tt) tt (get_root_idx tt l) @ [get_root_idx tt l])"
proof -
  let ?n = "n_locations tt" and ?p = "get_root_idx tt l"
  note root = tree_root [OF assms]
  have ch: "c < ?n" "parents tt ! c = Some x" if "c \<in> set (children tt ! x)" "x < ?n" for c x
    using assms(1) that unfolding tree_ok_def by blast+
  from same_root_tree [OF assms(1,2,2)]
  consider "l = ?p" | "l \<in> set (children tt ! ?p)" | c where "c \<in> set (children tt ! ?p)" "l \<in> set (children tt ! c)"
    by (auto simp: with_children_def)
  then show ?thesis
  proof cases
    case 2
    obtain k where "?n = Suc k" using assms(2) by (cases ?n) auto
    with 2 show ?thesis by auto
  next
    case 3
    have "c \<noteq> ?p" using ch(2) [OF 3(1)] root by auto
    then have "\<not> ?n \<le> 1" using ch(1) [OF 3(1)] root by linarith
    then obtain k where "?n = Suc (Suc k)" by (metis One_nat_def le0 not_less_eq_eq old.nat.exhaust)
    with 3 show ?thesis by auto
  qed simp
qed

lemma descendants_less:
  assumes "tree_ok tt" "x < n_locations tt" "l \<in> set (descendants k tt x)"
  shows "l < n_locations tt"
  using assms(2,3)
proof (induction k arbitrary: x)
  case (Suc k)
  then obtain c where c: "c \<in> set (children tt ! x)" "l = c \<or> l \<in> set (descendants k tt c)" by auto
  from c(1) Suc.prems(1) assms(1) have "c < n_locations tt" unfolding tree_ok_def by blast
  with c(2) Suc.IH show ?case by blast
qed simp

text \<open>Nothing in the tables arrives before it departs.\<close>

definition lb_footpaths :: "direction \<Rightarrow> timetable \<Rightarrow> nat \<Rightarrow> nat \<Rightarrow> footpath list" where
  "lb_footpaths d tt prf l = (if d = Forward then footpaths_in tt else footpaths_out tt) ! prf ! l"

definition times_forward :: "direction \<Rightarrow> timetable \<Rightarrow> nat \<Rightarrow> bool" where
  "times_forward d tt prf \<longleftrightarrow>
     (\<forall>l < n_locations tt. (\<forall>fp \<in> set (lb_footpaths d tt prf l). 0 \<le> fp_duration fp) \<and>
       (\<forall>r \<in> set (location_routes tt ! l). \<forall>i. i + 1 < length (route_location_seq tt ! r) \<longrightarrow>
         (\<forall>t \<in> set (iv_list (route_transport_ranges tt ! r)). 0 \<le> hop_time tt t i (i + 1))))"

definition weights_nonneg :: "(nat \<times> int) list \<Rightarrow> bool" where
  "weights_nonneg ws \<longleftrightarrow> (\<forall>w \<in> set ws. 0 \<le> snd w)"

lemma update_weight_nonneg: "weights_nonneg ws \<Longrightarrow> 0 \<le> x \<Longrightarrow> weights_nonneg (update_weight t x ws)"
proof (induction ws)
  case (Cons w ws)
  then show ?case by (cases w) (auto simp: weights_nonneg_def)
qed (simp add: weights_nonneg_def)

lemma min_hop_time_nonneg:
  assumes "\<forall>t \<in> set (iv_list (route_transport_ranges tt ! r)). 0 \<le> hop_time tt t i j"
  shows "0 \<le> min_hop_time tt r i j"
  unfolding min_hop_time_def using assms by (intro fold_invariant [where P = "\<lambda>m. 0 \<le> m"]) auto

lemma add_edges_nonneg:
  assumes "times_forward d tt prf" "l < n_locations tt" "weights_nonneg ws"
  shows "weights_nonneg (add_edges d tt prf l ws)"
proof -
  have fps: "0 \<le> fp_duration fp" if "fp \<in> set ((if d = Forward then footpaths_in tt else footpaths_out tt) ! prf ! l)" for fp
    using assms(1,2) that by (auto simp: times_forward_def lb_footpaths_def)
  have hop: "weights_nonneg (hop_edge d tt l r i ws)"
    if "r \<in> set (location_routes tt ! l)" "i \<in> set [0..<length (route_location_seq tt ! r) - 1]" "weights_nonneg ws" for r i ws
  proof -
    have "i + 1 < length (route_location_seq tt ! r)" using that(2) by auto
    with assms(1,2) that(1) have "0 \<le> min_hop_time tt r i (i + 1)"
      by (intro min_hop_time_nonneg) (auto simp: times_forward_def)
    with that(3) show ?thesis by (simp add: hop_edge_def Let_def update_weight_nonneg)
  qed
  have route: "weights_nonneg (route_edges d tt prf l r ws)" if "r \<in> set (location_routes tt ! l)" "weights_nonneg ws" for r ws
    unfolding route_edges_def using that(2) hop [OF that(1)]
    by (auto intro!: fold_invariant [where P = weights_nonneg] simp del: set_upt)
  show ?thesis
    unfolding add_edges_def Let_def
    by (rule fold_invariant [where P = weights_nonneg], rule fold_invariant [where P = weights_nonneg, OF assms(3)])
       (use fps route in \<open>simp_all add: update_weight_nonneg\<close>)
qed

lemma lb_weights_nonneg:
  assumes "times_forward d tt prf" "tree_ok tt" "p < n_locations tt"
  shows "weights_nonneg (lb_weights d tt prf p)"
  unfolding lb_weights_def
proof (rule fold_invariant [where P = weights_nonneg])
  fix l ws assume "l \<in> set (descendants (n_locations tt) tt p @ [p])" "weights_nonneg ws"
  then show "weights_nonneg (add_edges d tt prf l ws)"
    using add_edges_nonneg [OF assms(1)] descendants_less [OF assms(2,3)] assms(3) by auto
qed (simp add: weights_nonneg_def)

lemma add_edges_bounds_footpath:
  assumes "fp \<in> set (lb_footpaths d tt prf l)" "get_root_idx tt (fp_target fp) \<noteq> get_root_idx tt l"
  shows "bounded (add_edges d tt prf l ws) (get_root_idx tt (fp_target fp)) (fp_duration fp)"
proof -
  let ?t = "get_root_idx tt (fp_target fp)"
  let ?f = "\<lambda>fp ws. let target = get_root_idx tt (fp_target fp)
                 in if target \<noteq> get_root_idx tt l then update_weight target (fp_duration fp) ws else ws"
  have "bounded (fold ?f (lb_footpaths d tt prf l) ws) ?t (fp_duration fp)"
    by (rule fold_reaches_bounded [where f = ?f and a = fp, OF _ assms(1)])
       (use assms(2) in \<open>auto simp: Let_def update_weight_keeps update_weight_bounded\<close>)
  then show ?thesis
    unfolding add_edges_def Let_def lb_footpaths_def [symmetric]
    by (intro fold_keeps_bounded [where f = "route_edges d tt prf l", OF route_edges_keeps]) (simp_all add: Let_def)
qed

text \<open>The graph of a direction, and an edge in it.\<close>

definition lb_graph :: "direction \<Rightarrow> timetable \<Rightarrow> nat \<Rightarrow> footpath list list" where
  "lb_graph d tt prf = (if d = Forward then fwd_search_lb_graph tt else bwd_search_lb_graph tt) ! prf"

definition edge_within :: "footpath list list \<Rightarrow> nat \<Rightarrow> nat \<Rightarrow> int \<Rightarrow> bool" where
  "edge_within g a b x \<longleftrightarrow> (\<exists>e \<in> set (g ! a). fp_target e = b \<and> fp_duration e \<le> x)"

lemma build_lb_graph_edge:
  assumes build: "lb_graph d tt prf = []" "prf < length (if d = Forward then fwd_search_lb_graph tt else bwd_search_lb_graph tt)"
      "build_lb_graph visit d prf tt = Some tt'"
    and visit: "\<And>ws. set (visit ws) = set ws" and ok: "tree_ok tt" "times_forward d tt prf" "l < n_locations tt"
    and b: "\<And>ws. bounded (add_edges d tt prf l ws) target x"
  shows "edge_within (lb_graph d tt' prf) (get_root_idx tt l) target x"
proof -
  let ?p = "get_root_idx tt l"
  have root: "?p < n_locations tt" "parents tt ! ?p = None" using tree_root [OF ok(1,3)] by simp_all
  from lb_weights_bounds [OF descendants_group [OF ok(1,3)] b]
  obtain y where y: "(target, y) \<in> set (lb_weights d tt prf ?p)" "y \<le> x" by (auto simp: bounded_def)
  have y0: "0 \<le> y" using lb_weights_nonneg [OF ok(2,1) root(1)] y(1) by (force simp: weights_nonneg_def)
  obtain g where g: "those (map (lb_node visit d tt prf) [0..<n_locations tt]) = Some g" "lb_graph d tt' prf = g"
    using build by (auto simp: build_lb_graph_def lb_graph_def split: option.splits if_splits)
  have "lb_node visit d tt prf ?p = Some (g ! ?p)" using those_nth [OF g(1)] root(1) by simp
  then have es: "those (map (\<lambda>(target, duration). mk_footpath target duration) (visit (lb_weights d tt prf ?p))) = Some (g ! ?p)"
    using root(2) by (simp add: lb_node_def)
  have "mk_footpath target y \<in> set (map (\<lambda>(target, duration). mk_footpath target duration) (visit (lb_weights d tt prf ?p)))"
    using y(1) visit by force
  moreover from this es have "mk_footpath target y \<noteq> None" by (metis in_set_conv_nth option.distinct(1) those_nth)
  ultimately obtain e where e: "mk_footpath target y = Some e" "e \<in> set (g ! ?p)" using those_set [OF es] by fastforce
  then have "fp_target e = target \<and> fp_duration e \<le> y" using y0 by (auto simp: mk_footpath_def split: if_splits)
  with e(2) y(2) show ?thesis unfolding edge_within_def g(2) by (intro bexI [of _ e]) auto
qed

text \<open>Property C9. The lower bound graph of a direction and a profile bounds every ride and every
  walk it stands for. In a consistent station tree whose tables never arrive before they depart, take a route that
  the profile may use (for cars and bikes, one with the flag set) and two consecutive stops of it in different
  groups: the graph has an edge between the roots of the groups that costs no more than any transport of the
  route takes for the hop. For a footpath of the profile between different groups it has an edge that costs no
  more than the footpath. Edges lead against the direction of the search: for a forward search from the later
  stop to the earlier one, for a backward search the other way round.\<close>

theorem lb_graph_admissible:
  assumes "lb_graph d tt prf = []" "prf < length (if d = Forward then fwd_search_lb_graph tt else bwd_search_lb_graph tt)"
      "build_lb_graph visit d prf tt = Some tt'" "\<And>ws. set (visit ws) = set ws"
    and "tree_ok tt" "times_forward d tt prf"
  shows "(\<forall>r i t a b. i + 1 < length (route_location_seq tt ! r) \<and> t \<in> set (iv_list (route_transport_ranges tt ! r)) \<and>
      (a, b) = (if d = Forward then (stop_at_idx tt r (i + 1), stop_at_idx tt r i) else (stop_at_idx tt r i, stop_at_idx tt r (i + 1))) \<and>
      a < n_locations tt \<and> r \<in> set (location_routes tt ! a) \<and> route_allowed tt prf r \<and> get_root_idx tt b \<noteq> get_root_idx tt a \<longrightarrow>
      edge_within (lb_graph d tt' prf) (get_root_idx tt a) (get_root_idx tt b) (hop_time tt t i (i + 1))) \<and>
    (\<forall>a < n_locations tt. \<forall>fp \<in> set (lb_footpaths d tt prf a). get_root_idx tt (fp_target fp) \<noteq> get_root_idx tt a \<longrightarrow>
      edge_within (lb_graph d tt' prf) (get_root_idx tt a) (get_root_idx tt (fp_target fp)) (fp_duration fp))"
proof (intro conjI allI impI ballI)
  note edge = build_lb_graph_edge [OF assms]
  fix r i t a b
  assume h: "i + 1 < length (route_location_seq tt ! r) \<and> t \<in> set (iv_list (route_transport_ranges tt ! r)) \<and>
      (a, b) = (if d = Forward then (stop_at_idx tt r (i + 1), stop_at_idx tt r i) else (stop_at_idx tt r i, stop_at_idx tt r (i + 1))) \<and>
      a < n_locations tt \<and> r \<in> set (location_routes tt ! a) \<and> route_allowed tt prf r \<and> get_root_idx tt b \<noteq> get_root_idx tt a"
  then have "edge_within (lb_graph d tt' prf) (get_root_idx tt a) (get_root_idx tt b) (min_hop_time tt r i (i + 1))"
    by (intro edge add_edges_bounds_hop [where r = r]) (auto split: if_splits)
  with min_hop_time_le [of t tt r i "i + 1"] h
  show "edge_within (lb_graph d tt' prf) (get_root_idx tt a) (get_root_idx tt b) (hop_time tt t i (i + 1))"
    by (auto simp: edge_within_def intro: order_trans)
next
  fix a fp assume "a < n_locations tt" "fp \<in> set (lb_footpaths d tt prf a)" "get_root_idx tt (fp_target fp) \<noteq> get_root_idx tt a"
  then show "edge_within (lb_graph d tt' prf) (get_root_idx tt a) (get_root_idx tt (fp_target fp)) (fp_duration fp)"
    by (intro build_lb_graph_edge [OF assms] add_edges_bounds_footpath)
qed

section \<open>Bounds for a query\<close>

text \<open>\<open>min\<close>, a map ordered by location.\<close>

fun ordered_min :: "nat \<Rightarrow> nat \<Rightarrow> (nat \<times> nat) list \<Rightarrow> (nat \<times> nat) list" where
  "ordered_min k d [] = [(k, d)]"
| "ordered_min k d ((k', d') # m) =
     (if k = k' then (k, min d d') # m
      else if k < k' then (k, d) # (k', d') # m else (k', d') # ordered_min k d m)"

definition lb_update_min :: "timetable \<Rightarrow> nat \<Rightarrow> int \<Rightarrow> (nat \<times> nat) list \<Rightarrow> (nat \<times> nat) list" where
  "lb_update_min tt x d m = ordered_min (get_root_idx tt x) (nat (u16 d)) m"

definition lb_starts :: "timetable \<Rightarrow> query \<Rightarrow> (nat \<times> nat) list" where
  "lb_starts tt q =
     fold (\<lambda>(from_l, td). fold (\<lambda>fp m.
           if td_duration fp \<noteq> kMaxDuration \<and> td_duration fp < q_max_travel_time q
           then lb_update_min tt from_l (td_duration fp) m else m) td) (q_td_dest q)
       (fold (\<lambda>start. fold (\<lambda>x. lb_update_min tt x (off_duration start))
             (for_each_meta tt (q_dest_match_mode q) (off_target start))) (q_destination q) [])"

definition lb_push :: "nat \<Rightarrow> nat \<Rightarrow> lb_label dial \<times> nat list \<Rightarrow> lb_label dial \<times> nat list" where
  "lb_push d meta st =
     (case st of (pq, dists) \<Rightarrow>
        (dial_push l_dist \<lparr>l_loc = meta, l_dist = d\<rparr> pq, dists[meta := min d (dists ! meta)]))"

definition lb_init :: "timetable \<Rightarrow> query \<Rightarrow> lb_label dial \<times> nat list" where
  "lb_init tt q =
     fold (\<lambda>(l, d). fold (lb_push d) (for_each_meta tt (q_dest_match_mode q) l)) (lb_starts tt q)
       (mk_dial (nat kMaxTravelTime), replicate (n_locations tt) 65535)"

definition lb_children :: "timetable \<Rightarrow> nat list \<Rightarrow> nat list" where
  "lb_children tt dists =
     fold (\<lambda>i dists. let lb = dists ! i in fold (\<lambda>c dists. dists[c := min lb (dists ! c)]) (children tt ! i) dists)
       [0..<n_locations tt] dists"

definition lower_bounds ::
    "timetable \<Rightarrow> query \<Rightarrow> footpath list list \<Rightarrow> bool list option \<Rightarrow> footpath list list \<Rightarrow> nat list" where
  "lower_bounds tt q graph has_rt rt =
     (case lb_init tt q of (pq, dists) \<Rightarrow> lb_children tt (dijkstra (edges_at graph has_rt rt) 65535 pq dists))"

lemma ordered_min_le: "\<exists>d' \<le> d. (k, d') \<in> set (ordered_min k d m)"
proof (induction m)
  case (Cons x m)
  obtain k' d1 where "x = (k', d1)" by fastforce
  then show ?case using Cons.IH min.cobounded1 [of d d1] by (auto intro: exI [of _ "min d d1"])
qed simp

lemma ordered_min_keeps: "(k', x) \<in> set m \<Longrightarrow> \<exists>x' \<le> x. (k', x') \<in> set (ordered_min k d m)"
proof (induction m)
  case (Cons y m)
  obtain k1 d1 where y: "y = (k1, d1)" by fastforce
  show ?case
  proof (cases "(k', x) \<in> set m")
    case True
    with Cons.IH show ?thesis by (auto simp: y)
  next
    case False
    with Cons.prems have "k' = k1" "x = d1" by (auto simp: y)
    then show ?thesis using min.cobounded2 [of d d1] by (auto simp: y intro: exI [of _ "min d d1"])
  qed
qed simp

definition has_start :: "nat \<Rightarrow> nat \<Rightarrow> (nat \<times> nat) list \<Rightarrow> bool" where
  "has_start k d m \<longleftrightarrow> (\<exists>d' \<le> d. (k, d') \<in> set m)"

lemma has_start_update: "has_start k d m \<Longrightarrow> has_start k d (lb_update_min tt x e m)"
  unfolding has_start_def lb_update_min_def using ordered_min_keeps order_trans by blast

lemma has_start_new: "has_start (get_root_idx tt x) (nat (u16 d)) (lb_update_min tt x d m)"
  unfolding has_start_def lb_update_min_def using ordered_min_le by blast

lemma lb_starts_destination:
  assumes "start \<in> set (q_destination q)" "x \<in> set (for_each_meta tt (q_dest_match_mode q) (off_target start))"
  shows "has_start (get_root_idx tt x) (nat (u16 (off_duration start))) (lb_starts tt q)"
proof -
  let ?P = "has_start (get_root_idx tt x) (nat (u16 (off_duration start)))"
  let ?inner = "\<lambda>start. fold (\<lambda>x. lb_update_min tt x (off_duration start)) (for_each_meta tt (q_dest_match_mode q) (off_target start))"
  have step: "?P m \<Longrightarrow> ?P (?inner s m)" for s m
    by (rule fold_invariant [where P = ?P], assumption) (rule has_start_update)
  have "?P (?inner start m)" for m
  proof -
    obtain ys zs where "for_each_meta tt (q_dest_match_mode q) (off_target start) = ys @ x # zs"
      using split_list [OF assms(2)] by blast
    then show ?thesis
      by simp (rule fold_invariant [where P = ?P, OF has_start_new], rule has_start_update)
  qed
  moreover obtain us vs where "q_destination q = us @ start # vs" using split_list [OF assms(1)] by blast
  ultimately have "?P (fold ?inner (q_destination q) [])"
    by simp (rule fold_invariant [where P = ?P], assumption, rule step)
  then show ?thesis
    unfolding lb_starts_def
  proof (rule fold_invariant [where P = ?P])
    fix td m assume "?P m"
    then show "?P ((case td of (from_l, td) \<Rightarrow> fold (\<lambda>fp m. if td_duration fp \<noteq> kMaxDuration \<and> td_duration fp < q_max_travel_time q
           then lb_update_min tt from_l (td_duration fp) m else m) td) m)"
      unfolding case_prod_unfold
      by (rule fold_invariant [where P = ?P]) (simp add: has_start_update)
  qed
qed

text \<open>The queue the search starts with.\<close>

definition start_queue_ok :: "nat \<Rightarrow> lb_label dial \<times> nat list \<Rightarrow> bool" where
  "start_queue_ok n st \<longleftrightarrow> dial_ok l_dist (fst st) \<and> n_buckets (fst st) = 7201 \<and> length (snd st) = n \<and>
     labels_ok (fst st) (snd st) \<and> (\<forall>u < n. queued (fst st) (snd st) u \<or> snd st ! u = 65535)"

lemma lb_push_ok:
  assumes "start_queue_ok n st" "d \<le> 7200" "meta < n"
  shows "start_queue_ok n (lb_push d meta st) \<and> snd (lb_push d meta st) ! meta \<le> d \<and>
    (\<forall>u < n. snd (lb_push d meta st) ! u \<le> snd st ! u)"
proof -
  obtain pq dists where st: "st = (pq, dists)" by fastforce
  let ?l = "\<lparr>l_loc = meta, l_dist = d\<rparr>" and ?dists = "dists[meta := min d (dists ! meta)]"
  have a: "dial_ok l_dist pq" "n_buckets pq = 7201" "length dists = n" "labels_ok pq dists"
    "\<And>u. u < n \<Longrightarrow> queued pq dists u \<or> dists ! u = 65535"
    using assms(1) unfolding start_queue_ok_def st by simp_all
  have p: "dial_ok l_dist (dial_push l_dist ?l pq)" "dial_elems (dial_push l_dist ?l pq) = add_mset ?l (dial_elems pq)"
    "n_buckets (dial_push l_dist ?l pq) = 7201"
    using dial.push [OF a(1), of ?l] assms(2) a(2) by simp_all
  have le: "?dists ! u \<le> dists ! u" if "u < n" for u using that a(3) by (cases "u = meta") simp_all
  have "labels_ok (dial_push l_dist ?l pq) ?dists"
    unfolding labels_ok_def p(2)
  proof (intro allI impI)
    fix x assume "x \<in># add_mset ?l (dial_elems pq)"
    then consider "x = ?l" | "x \<in># dial_elems pq" by auto
    then show "l_loc x < length ?dists \<and> ?dists ! l_loc x \<le> l_dist x"
    proof cases
      case 2
      then have "l_loc x < n" "dists ! l_loc x \<le> l_dist x" using a(3,4) unfolding labels_ok_def by blast+
      with le a(3) show ?thesis by (metis length_list_update order_trans)
    qed (use assms(3) a(3) in simp)
  qed
  moreover have "queued (dial_push l_dist ?l pq) ?dists u \<or> ?dists ! u = 65535" if "u < n" for u
    using a(5) [OF that] assms(2) a(3) that unfolding queued_def p(2)
    by (cases "u = meta"; cases "d < dists ! meta") (auto simp: min_def)
  ultimately have "start_queue_ok n (lb_push d meta st)"
    using p(1,3) a(3) by (simp add: start_queue_ok_def lb_push_def st)
  then show ?thesis using le a(3) assms(3) by (simp add: lb_push_def st)
qed

lemma lb_push_all_ok:
  assumes "start_queue_ok n st" "d \<le> 7200" "\<forall>m \<in> set ms. m < n"
  shows "start_queue_ok n (fold (lb_push d) ms st) \<and> (\<forall>m \<in> set ms. snd (fold (lb_push d) ms st) ! m \<le> d) \<and>
    (\<forall>u < n. snd (fold (lb_push d) ms st) ! u \<le> snd st ! u)"
  using assms
proof (induction ms arbitrary: st)
  case (Cons m ms)
  have m: "m < n" "\<forall>m \<in> set ms. m < n" using Cons.prems(3) by simp_all
  note 1 = lb_push_ok [OF Cons.prems(1,2) m(1)]
  note 2 = Cons.IH [OF conjunct1 [OF 1] Cons.prems(2) m(2)]
  show ?case using 1 2 m by (auto intro: order_trans)
qed simp

definition lb_starts_ok :: "timetable \<Rightarrow> query \<Rightarrow> (nat \<times> nat) list \<Rightarrow> bool" where
  "lb_starts_ok tt q m \<longleftrightarrow>
     (\<forall>(l, d) \<in> set m. d \<le> 7200 \<and> (\<forall>x \<in> set (for_each_meta tt (q_dest_match_mode q) l). x < n_locations tt))"

lemma lb_init_ok:
  assumes "lb_starts_ok tt q (lb_starts tt q)"
  shows "start_queue_ok (n_locations tt) (lb_init tt q) \<and>
    (\<forall>(l, d) \<in> set (lb_starts tt q). \<forall>x \<in> set (for_each_meta tt (q_dest_match_mode q) l). snd (lb_init tt q) ! x \<le> d)"
proof -
  let ?n = "n_locations tt" and ?mode = "q_dest_match_mode q"
  let ?f = "\<lambda>(l, d). fold (lb_push d) (for_each_meta tt ?mode l)"
  have "start_queue_ok ?n (fold ?f m st) \<and>
      (\<forall>(l, d) \<in> set m. \<forall>x \<in> set (for_each_meta tt ?mode l). snd (fold ?f m st) ! x \<le> d) \<and>
      (\<forall>u < ?n. snd (fold ?f m st) ! u \<le> snd st ! u)"
    if "lb_starts_ok tt q m" "start_queue_ok ?n st" for m st
    using that
  proof (induction m arbitrary: st)
    case (Cons ld m)
    obtain l d where ld: "ld = (l, d)" by fastforce
    have 0: "d \<le> 7200" "\<forall>x \<in> set (for_each_meta tt ?mode l). x < ?n" "lb_starts_ok tt q m"
      using Cons.prems(1) by (auto simp: lb_starts_ok_def ld)
    note 1 = lb_push_all_ok [OF Cons.prems(2) 0(1,2)]
    note 2 = Cons.IH [OF 0(3) conjunct1 [OF 1]]
    have "snd (fold ?f (ld # m) st) ! x \<le> d" if "x \<in> set (for_each_meta tt ?mode l)" for x
    proof -
      have "snd (fold ?f (ld # m) st) ! x \<le> snd (fold (lb_push d) (for_each_meta tt ?mode l) st) ! x"
        using 2 that 0(2) by (simp add: ld)
      also have "\<dots> \<le> d" using 1 that by blast
      finally show ?thesis .
    qed
    with 1 2 show ?case by (auto simp: ld intro: order_trans)
  qed simp
  moreover have "start_queue_ok ?n (mk_dial (nat kMaxTravelTime), replicate ?n 65535)"
    by (simp add: mk_dial_ok start_queue_ok_def labels_ok_def kMaxTravelTime_def)
  ultimately show ?thesis using assms unfolding lb_init_def by blast
qed

lemma lb_children_le:
  "length (lb_children tt dists) = length dists \<and> lb_children tt dists ! t \<le> dists ! t"
proof -
  let ?P = "\<lambda>xs. length xs = length dists \<and> xs ! t \<le> dists ! t"
  show ?thesis
    unfolding lb_children_def Let_def
  proof (rule fold_invariant [where P = ?P])
    fix i xs assume xs: "?P xs"
    show "?P (fold (\<lambda>c dists. dists[c := min (xs ! i) (dists ! c)]) (children tt ! i) xs)"
    proof (rule fold_invariant [where P = ?P, OF xs])
      fix c ys assume "?P ys"
      then show "?P (ys[c := min (xs ! i) (ys ! c)])" by (cases "c < length ys") (auto simp: nth_list_update list_update_beyond)
    qed
  qed simp
qed

text \<open>Property C8. The lower bounds are lower bounds. For each destination offset of a query, whatever way
  through the graph and the real-time edges leads from a location of that destination to a
  location, its bound is at most the offset plus the length of the way (up to the longest
  travel time the search considers).\<close>

theorem lower_bounds_below:
  assumes "lb_starts_ok tt q (lb_starts tt q)"
    and "\<forall>u < n_locations tt. \<forall>e \<in> set (edges_at graph has_rt rt u). fp_target e < n_locations tt"
    and dest: "start \<in> set (q_destination q)" "x \<in> set (for_each_meta tt (q_dest_match_mode q) (off_target start))"
      "m \<in> set (for_each_meta tt (q_dest_match_mode q) (get_root_idx tt x))"
    and way: "walk (edges_at graph has_rt rt) m t w" "nat (u16 (off_duration start)) + w \<le> nat kMaxTravelTime"
  shows "lower_bounds tt q graph has_rt rt ! t \<le> nat (u16 (off_duration start)) + w"
proof -
  let ?d = "nat (u16 (off_duration start))"
  obtain pq dists where i: "lb_init tt q = (pq, dists)" by fastforce
  have q: "dial_ok l_dist pq" "n_buckets pq = 7201" "length dists = n_locations tt" "labels_ok pq dists"
    "\<forall>u < n_locations tt. queued pq dists u \<or> dists ! u = 65535"
    using lb_init_ok [OF assms(1)] by (simp_all add: i start_queue_ok_def)
  obtain d where d: "d \<le> ?d" "(get_root_idx tt x, d) \<in> set (lb_starts tt q)"
    using lb_starts_destination [OF dest(1,2)] by (auto simp: has_start_def)
  then have m: "dists ! m \<le> d" "m < n_locations tt"
    using lb_init_ok [OF assms(1)] assms(1) dest(3) by (auto simp: i lb_starts_ok_def)
  have ex: "explained (edges_at graph has_rt rt) dists dists"
    unfolding explained_def using walk_refl by (metis add.right_neutral order_refl)
  have "dijkstra_inv (edges_at graph has_rt rt) 7201 65535 dists {} pq dists"
    unfolding dijkstra_inv_def frontier_def using q ex by (auto simp: settled_def)
  note fin = dijkstra_inv_end [OF this]
  have "dists ! m + w < min 7201 65535" using m(1) d(1) way(2) by (simp add: kMaxTravelTime_def)
  with settled_optimal [OF way(1) conjunct1 [OF fin] conjunct2 [OF fin]] assms(2) q(3) m(2)
  have "dijkstra (edges_at graph has_rt rt) 65535 pq dists ! t \<le> dists ! m + w" by simp
  then have "dijkstra (edges_at graph has_rt rt) 65535 pq dists ! t \<le> ?d + w" using m(1) d(1) by simp
  with lb_children_le [of tt "dijkstra (edges_at graph has_rt rt) 65535 pq dists" t] show ?thesis
    by (simp add: lower_bounds_def i)
qed

section \<open>The example network\<close>

lemma example_roots: "l < 3 \<Longrightarrow> get_root_idx example_timetable l = l"
  by (auto simp: get_root_idx_def root_loop.simps [of _ _ l] example_timetable_def less_Suc_eq numeral_3_eq_3)

lemma example_stops: "i < 3 \<Longrightarrow> stop_at_idx example_timetable 0 i = i"
  unfolding stop_at_idx_def by (auto simp: example_timetable_def less_Suc_eq numeral_3_eq_3) (simp_all add: mk_stop_def)

lemma example_hops:
  "hop_time example_timetable 0 0 (Suc 0) = 10" "hop_time example_timetable (Suc 0) 0 (Suc 0) = 10"
  "hop_time example_timetable 0 (Suc 0) 2 = 13" "hop_time example_timetable (Suc 0) (Suc 0) 2 = 13"
  by (simp_all add: hop_time_def event_mam_def event_mam_r_def example_timetable_def as_duration_def delta_minus_def
      delta_plus_def delta_of_minutes_def mk_delta_def wrap_u_def wrap_s_def)

theorem lb_graph_admissible_witness:
  "\<exists>tt'. build_lb_graph (\<lambda>ws. ws) Forward 0 example_timetable = Some tt' \<and>
     edge_within (lb_graph Forward tt' 0) 1 0 10"
proof -
  let ?tt = "example_timetable"
  have n: "n_locations ?tt = 3" "parents ?tt ! 0 = None" "parents ?tt ! Suc 0 = None" "parents ?tt ! 2 = None"
    "location_routes ?tt ! 0 = [0]" "location_routes ?tt ! Suc 0 = [0]" "location_routes ?tt ! 2 = [0]"
    "length (route_location_seq ?tt ! 0) = 3" "children ?tt ! 0 = []" "children ?tt ! Suc 0 = []" "children ?tt ! 2 = []"
    "footpaths_in ?tt ! 0 ! 0 = []" "footpaths_in ?tt ! 0 ! Suc 0 = []" "footpaths_in ?tt ! 0 ! 2 = []"
    "route_transport_ranges ?tt ! 0 = mk_iv 0 2"
    by (simp_all add: n_locations_def example_timetable_def)
  have d: "descendants 3 ?tt l = []" if "l < 3" for l
    using that n by (auto simp: numeral_3_eq_3 less_Suc_eq numeral_2_eq_2)
  have m: "min_hop_time ?tt 0 0 (Suc 0) = 10" "min_hop_time ?tt 0 (Suc 0) 2 = 13"
    unfolding min_hop_time_def n by (simp_all add: iv_list_def mk_iv_def upt_rec) (simp_all add: example_hops)
  have w: "lb_weights Forward ?tt 0 0 = []" "lb_weights Forward ?tt 0 (Suc 0) = [(0, 10)]"
    "lb_weights Forward ?tt 0 2 = [(Suc 0, 13)]"
    unfolding lb_weights_def n(1)
    by (simp_all add: m m(2) [unfolded numeral_2_eq_2] d add_edges_def n route_edges_def kCarProfile_def kBikeProfile_def upt_rec hop_edge_def Let_def
        example_stops example_roots)
  have "those (map (lb_node (\<lambda>ws. ws) Forward ?tt 0) [0..<n_locations ?tt]) =
      Some [[], [\<lparr>fp_target = 0, fp_duration = 10\<rparr>], [\<lparr>fp_target = 1, fp_duration = 13\<rparr>]]"
    by (simp add: n(1) upt_rec lb_node_def n n [unfolded numeral_2_eq_2] w w [unfolded numeral_2_eq_2] mk_footpath_def)
  then obtain tt' where tt': "build_lb_graph (\<lambda>ws. ws) Forward 0 ?tt = Some tt'"
    by (simp add: build_lb_graph_def)
  have "route_allowed ?tt 0 r" for r by (simp add: route_allowed_def kCarProfile_def kBikeProfile_def)
  moreover have "tree_ok ?tt"
  proof -
    have p: "parents ?tt ! l = None" "children ?tt ! l = []" if "l < 3" for l
      using that n by (auto simp: less_Suc_eq numeral_3_eq_3 numeral_2_eq_2)
    then have "\<exists>n \<le> 2. \<exists>r. ancestor ?tt n l = Some r \<and> parents ?tt ! r = None" if "l < 3" for l
      using that by (intro exI [of _ 0] conjI exI [of _ l]) simp_all
    with p show ?thesis by (simp add: tree_ok_def n) (simp add: example_timetable_def)
  qed
  moreover have "times_forward Forward ?tt 0"
  proof -
    have l: "lb_footpaths Forward ?tt 0 l = []" "location_routes ?tt ! l = [0]" if "l < 3" for l
      using that n by (auto simp: lb_footpaths_def less_Suc_eq numeral_3_eq_3 numeral_2_eq_2)
    have ts: "iv_list (mk_iv 0 2) = [0, 1]" by (simp add: iv_list_def mk_iv_def upt_rec)
    have "0 \<le> hop_time ?tt t i (Suc i)" if "t = 0 \<or> t = 1" "Suc i < 3" for t i
    proof -
      have "i = 0 \<or> i = 1" using that(2) by auto
      with that(1) show ?thesis by (elim disjE) (simp_all add: example_hops numeral_2_eq_2 [symmetric])
    qed
    then show ?thesis unfolding times_forward_def by (auto simp: l n ts)
  qed
  moreover have "lb_graph Forward ?tt 0 = []" "0 < length (fwd_search_lb_graph ?tt)" by (simp_all add: lb_graph_def example_timetable_def)
  ultimately have "edge_within (lb_graph Forward tt' 0) (get_root_idx ?tt 1) (get_root_idx ?tt 0) (hop_time ?tt 0 0 1)"
    using lb_graph_admissible [of Forward ?tt 0 "\<lambda>ws. ws" tt', THEN conjunct1, rule_format, of 0 0 0 1 0] tt'
    by (simp add: n example_stops iv_list_def mk_iv_def upt_rec example_roots)
  then show ?thesis using tt' by (simp add: example_roots example_hops)
qed

theorem lower_bounds_below_witness:
  "lower_bounds example_timetable
     (example_query\<lparr>q_destination := [\<lparr>off_target = 2, off_duration = 3, off_mode = 0, off_payload = 0\<rparr>]\<rparr>)
     [[], [\<lparr>fp_target = 0, fp_duration = 10\<rparr>], [\<lparr>fp_target = 1, fp_duration = 12\<rparr>]] None [] ! 1 \<le> 15"
proof -
  let ?o = "\<lparr>off_target = 2, off_duration = 3, off_mode = 0, off_payload = 0\<rparr>"
  let ?q = "example_query\<lparr>q_destination := [?o]\<rparr>"
  let ?g = "[[], [\<lparr>fp_target = 0, fp_duration = 10\<rparr>], [\<lparr>fp_target = 1, fp_duration = 12\<rparr>]]"
  have n: "n_locations example_timetable = 3" by (simp add: n_locations_def example_timetable_def)
  have meta: "for_each_meta example_timetable (q_dest_match_mode ?q) l = [l]" for l
    by (simp add: for_each_meta_def example_query_def)
  have s: "lb_starts example_timetable ?q = [(2, 3)]"
    unfolding lb_starts_def by (simp add: meta lb_update_min_def example_roots example_query_def for_each_meta_def)
  have "walk (edges_at ?g None []) 2 1 12"
    using walk_step [OF walk_refl, of "\<lparr>fp_target = 1, fp_duration = 12\<rparr>" "edges_at ?g None []" 2] by (simp add: edges_at_def)
  moreover have "\<forall>u < 3. \<forall>e \<in> set (edges_at ?g None [] u). fp_target e < 3"
    by (auto simp: edges_at_def less_Suc_eq numeral_3_eq_3)
  moreover have "lb_starts_ok example_timetable ?q (lb_starts example_timetable ?q)"
    unfolding lb_starts_ok_def s n meta by simp
  ultimately show ?thesis
    using lower_bounds_below [of example_timetable ?q ?g None "[]" ?o 2 2 1 12] meta
    by (simp add: n example_roots kMaxTravelTime_def)
qed

end
