(* ===== verification/Rt_Lower_Bounds.thy ===== *)
theory Rt_Lower_Bounds
  imports Lower_Bounds Rt_Timetable
begin

text \<open>
  A fresh real-time timetable, \<open>src/rt/create_rt_timetable.cc\<close>, and the lower bound edges for the
  transports it holds, \<open>add_lb_edge\<close> and \<open>update_lbs\<close> of \<open>src/rt/rt_timetable.cc\<close>. A \<open>hash_map\<close>
  of lists is an association list. \<open>None\<close> is an exception of \<open>utl::verify\<close> or of the constructor of
  \<open>footpath\<close>.
\<close>

section \<open>Creating\<close>

definition create_rt_timetable :: "timetable \<Rightarrow> int \<Rightarrow> rt_timetable option" where
  "create_rt_timetable tt day =
     (if \<not> length (bitfields tt) < kRtBitfieldFlag then None
      else
        let n = n_locations tt; base = max day (ifrom (internal_interval_days tt));
            sized = (\<lambda>x. map (\<lambda>i. if footpaths_out tt ! i \<noteq> [] then replicate n x else []) [0..<5])
        in Some \<lparr>has_td_footpaths_out = map (\<lambda>i. if footpaths_out tt ! i \<noteq> [] then replicate n False else []) [0..<5],
             has_td_footpaths_in = map (\<lambda>i. if footpaths_out tt ! i \<noteq> [] then replicate n False else []) [0..<5],
             td_footpaths_out = sized [], td_footpaths_in = sized [],
             rtt_traffic_days = transport_traffic_days tt, rtt_bitfields = [],
             location_rt_transports = replicate n [], base_day = base, base_day_idx = day_idx tt base,
             static_trip_lookup = Map.empty, rt_static_transport = [], rt_stop_times = [], rt_location_seq = [],
             rt_data_states = [], rt_section_clasz = [], rt_is_cancelled = [],
             rt_transport_flags = replicate 4 [], rt_flags_per_section = replicate 4 [], coverage = mk_iv 0 0,
             fwd_lb_has_edges = replicate n False, bwd_lb_has_edges = replicate n False,
             fwd_rt_lb_graph = [], bwd_rt_lb_graph = []\<rparr>)"

section \<open>Adding an edge\<close>

type_synonym edge_map = "(nat \<times> footpath list) list"

fun edges_of :: "nat \<Rightarrow> edge_map \<Rightarrow> footpath list" where
  "edges_of k [] = []"
| "edges_of k ((l, fps) # m) = (if l = k then fps else edges_of k m)"

fun set_edges :: "nat \<Rightarrow> footpath list \<Rightarrow> edge_map \<Rightarrow> edge_map" where
  "set_edges k fps [] = [(k, fps)]"
| "set_edges k fps ((l, x) # m) = (if l = k then (k, fps) # m else (l, x) # set_edges k fps m)"

definition is_fastest :: "footpath list \<Rightarrow> footpath \<Rightarrow> bool" where
  "is_fastest existing fp =
     (case find (\<lambda>x. fp_target x = fp_target fp) existing of
        None \<Rightarrow> True | Some x \<Rightarrow> fp_duration fp < fp_duration x)"

fun set_first_duration :: "nat \<Rightarrow> int \<Rightarrow> footpath list \<Rightarrow> footpath list" where
  "set_first_duration target d [] = []"
| "set_first_duration target d (x # xs) =
     (if fp_target x = target then x\<lparr>fp_duration := d\<rparr> # xs else x # set_first_duration target d xs)"

definition lb_update :: "footpath list list \<Rightarrow> nat \<Rightarrow> footpath \<Rightarrow> int \<Rightarrow> bool list \<times> edge_map \<Rightarrow> bool list \<times> edge_map" where
  "lb_update tt_lbs src new_fp travel_time st =
     (case st of (has_lbs, rtt_lbs) \<Rightarrow>
        if \<not> is_fastest (tt_lbs ! src) new_fp then st
        else if \<not> has_lbs ! src
        then (has_lbs[src := True], set_edges src (edges_of src rtt_lbs @ [new_fp]) rtt_lbs)
        else
          let lbs = edges_of src rtt_lbs
          in if \<not> is_fastest lbs new_fp then (has_lbs, set_edges src lbs rtt_lbs)
             else (has_lbs, set_edges src
               (set_first_duration (fp_target new_fp) (min kMaxDuration travel_time) lbs @ [new_fp]) rtt_lbs))"

record lb_maps =
  lm_fwd :: "bool list \<times> edge_map"
  lm_bwd :: "bool list \<times> edge_map"

definition add_lb_edge :: "timetable \<Rightarrow> nat \<Rightarrow> nat \<Rightarrow> int \<Rightarrow> lb_maps \<Rightarrow> lb_maps option" where
  "add_lb_edge tt from_l to_l travel_time m =
     (if from_l = to_l then Some m
      else case (mk_footpath from_l travel_time, mk_footpath to_l travel_time) of
        (Some fwd_fp, Some bwd_fp) \<Rightarrow>
          Some (m\<lparr>lm_fwd := lb_update (fwd_search_lb_graph tt ! 0) to_l fwd_fp travel_time (lm_fwd m),
                  lm_bwd := lb_update (bwd_search_lb_graph tt ! 0) from_l bwd_fp travel_time (lm_bwd m)\<rparr>)
      | _ \<Rightarrow> None)"

section \<open>All real-time transports\<close>

text \<open>The hops of the real-time transports: travel time and locations, and those that are not slower
  than on the static route of the transport.\<close>

definition rt_hop_time :: "rt_timetable \<Rightarrow> nat \<Rightarrow> nat \<Rightarrow> int" where
  "rt_hop_time rtt rt_t i = i16 (rt_event_time rtt rt_t (i + 1) Arr - rt_event_time rtt rt_t i Dep)"

definition rt_stop_loc :: "rt_timetable \<Rightarrow> nat \<Rightarrow> nat \<Rightarrow> nat" where
  "rt_stop_loc rtt rt_t i = stop_loc (stop_of_value (rt_location_seq rtt ! rt_t ! i))"

definition same_static_hop :: "timetable \<Rightarrow> rt_timetable \<Rightarrow> nat \<Rightarrow> nat \<Rightarrow> bool" where
  "same_static_hop tt rtt rt_t i =
     (let loc_seq = rt_location_seq rtt ! rt_t
      in case rt_static_transport rtt ! rt_t of
           None \<Rightarrow> False
         | Some t \<Rightarrow>
             let static_seq = route_location_seq tt ! (transport_route tt ! t_idx t)
             in length static_seq = length loc_seq \<and>
                stop_loc (stop_of_value (static_seq ! i)) = rt_stop_loc rtt rt_t i \<and>
                stop_loc (stop_of_value (static_seq ! (i + 1))) = rt_stop_loc rtt rt_t (i + 1) \<and>
                hop_time tt (t_idx t) i (i + 1) \<le> rt_hop_time rtt rt_t i)"

definition lb_hop :: "timetable \<Rightarrow> rt_timetable \<Rightarrow> nat \<Rightarrow> nat \<Rightarrow> lb_maps option \<Rightarrow> lb_maps option" where
  "lb_hop tt rtt rt_t i st =
     (if rt_hop_time rtt rt_t i < 0 \<or> same_static_hop tt rtt rt_t i then st
      else Option.bind st (add_lb_edge tt (get_root_idx tt (rt_stop_loc rtt rt_t i))
             (get_root_idx tt (rt_stop_loc rtt rt_t (i + 1))) (rt_hop_time rtt rt_t i)))"

definition rt_hops :: "rt_timetable \<Rightarrow> (nat \<times> nat) list" where
  "rt_hops rtt = concat (map (\<lambda>rt_t. map (Pair rt_t) [0..<length (rt_stop_times rtt ! rt_t) div 2])
     [0..<length (rt_static_transport rtt)])"

definition copy_edges :: "timetable \<Rightarrow> edge_map \<Rightarrow> footpath list list" where
  "copy_edges tt m =
     resize [] (n_locations tt) (fold (\<lambda>(l, fps) to. resize [] l to @ [fps]) (sort_key fst m) [])"

definition update_lbs :: "timetable \<Rightarrow> rt_timetable \<Rightarrow> rt_timetable option" where
  "update_lbs tt rtt =
     (case fold (\<lambda>(rt_t, i). lb_hop tt rtt rt_t i) (rt_hops rtt)
             (Some \<lparr>lm_fwd = (fwd_lb_has_edges rtt, []), lm_bwd = (bwd_lb_has_edges rtt, [])\<rparr>) of
        None \<Rightarrow> None
      | Some m \<Rightarrow> Some (rtt\<lparr>fwd_lb_has_edges := fst (lm_fwd m), bwd_lb_has_edges := fst (lm_bwd m),
          fwd_rt_lb_graph := copy_edges tt (snd (lm_fwd m)), bwd_rt_lb_graph := copy_edges tt (snd (lm_bwd m))\<rparr>))"

section \<open>Every hop has an edge\<close>

lemma edges_of_map_of: "edges_of k m = (case map_of m k of None \<Rightarrow> [] | Some x \<Rightarrow> x)"
  by (induction m) auto

lemma edges_of_set_edges [simp]: "edges_of k (set_edges l fps m) = (if k = l then fps else edges_of k m)"
  by (induction m) auto

lemma keys_set_edges: "set (map fst (set_edges l fps m)) = insert l (set (map fst m))"
proof (induction m)
  case (Cons a m)
  then show ?case by (cases a) auto
qed simp

lemma distinct_set_edges: "distinct (map fst m) \<Longrightarrow> distinct (map fst (set_edges l fps m))"
proof (induction m)
  case (Cons a m)
  with keys_set_edges [of l fps m] show ?case by (cases a) (auto simp del: set_map simp: set_map [symmetric])
qed simp

text \<open>\<open>covered es target d\<close>: an edge to \<open>target\<close> that takes at most \<open>d\<close>.\<close>

definition covered :: "footpath list \<Rightarrow> nat \<Rightarrow> int \<Rightarrow> bool" where
  "covered es target d \<longleftrightarrow> (\<exists>e \<in> set es. fp_target e = target \<and> fp_duration e \<le> d)"

definition lbs_ok :: "nat \<Rightarrow> bool list \<times> edge_map \<Rightarrow> bool" where
  "lbs_ok n st \<longleftrightarrow> length (fst st) = n \<and> distinct (map fst (snd st)) \<and> set (map fst (snd st)) \<subseteq> {..<n} \<and>
     (\<forall>k < n. edges_of k (snd st) \<noteq> [] \<longrightarrow> fst st ! k)"

definition lbs_cover :: "footpath list list \<Rightarrow> bool list \<times> edge_map \<Rightarrow> nat \<Rightarrow> nat \<Rightarrow> int \<Rightarrow> bool" where
  "lbs_cover tt_lbs st src target d \<longleftrightarrow> covered (tt_lbs ! src @ edges_of src (snd st)) target d"

lemma is_fastest_covered: "\<not> is_fastest es fp \<Longrightarrow> covered es (fp_target fp) (fp_duration fp)"
  by (auto simp: is_fastest_def covered_def find_Some_iff not_less split: option.splits)

lemma covered_append: "covered (xs @ ys) t d \<longleftrightarrow> covered xs t d \<or> covered ys t d"
  by (auto simp: covered_def)

text \<open>An update adds an edge that covers the new one and leaves every earlier bound.\<close>

lemma lb_update_ok: "lbs_ok n st \<Longrightarrow> src < n \<Longrightarrow> lbs_ok n (lb_update tt_lbs src fp travel st)"
  unfolding lbs_ok_def lb_update_def
  by (auto split: prod.splits simp del: set_map simp: Let_def nth_list_update keys_set_edges distinct_set_edges)

lemma lb_update_covers:
  "fp_duration fp \<le> d \<Longrightarrow> lbs_cover tt_lbs (lb_update tt_lbs src fp travel st) src (fp_target fp) d"
  using is_fastest_covered [of "tt_lbs ! src" fp] is_fastest_covered [of "edges_of src (snd st)" fp]
  by (auto simp: lbs_cover_def lb_update_def Let_def covered_append split: prod.splits)
     (force simp: covered_def)+

lemma set_first_keeps:
  "covered es t d \<Longrightarrow> is_fastest es fp \<Longrightarrow> covered (set_first_duration (fp_target fp) x es @ [fp]) t d"
proof (induction es)
  case (Cons e es)
  show ?case
  proof (cases "fp_target e = fp_target fp")
    case True
    with Cons.prems show ?thesis by (force simp: covered_def is_fastest_def)
  next
    case False
    then have "is_fastest es fp" using Cons.prems by (simp add: is_fastest_def)
    with Cons.IH Cons.prems(1) False show ?thesis by (auto simp: covered_def)
  qed
qed (simp add: covered_def)

lemma lb_update_keeps:
  "lbs_cover tt_lbs st k t d \<Longrightarrow> lbs_cover tt_lbs (lb_update tt_lbs src fp travel st) k t d"
  using set_first_keeps [of "edges_of src (snd st)" t d fp "min kMaxDuration travel"]
  by (auto simp: lbs_cover_def lb_update_def Let_def covered_append split: prod.splits)

definition maps_ok :: "nat \<Rightarrow> lb_maps \<Rightarrow> bool" where
  "maps_ok n m \<longleftrightarrow> lbs_ok n (lm_fwd m) \<and> lbs_ok n (lm_bwd m)"

definition maps_cover :: "timetable \<Rightarrow> lb_maps \<Rightarrow> nat \<Rightarrow> nat \<Rightarrow> int \<Rightarrow> bool" where
  "maps_cover tt m from_l to_l d \<longleftrightarrow>
     lbs_cover (fwd_search_lb_graph tt ! 0) (lm_fwd m) to_l from_l d \<and>
     lbs_cover (bwd_search_lb_graph tt ! 0) (lm_bwd m) from_l to_l d"

lemma mk_footpath_fields:
  "mk_footpath l d = Some fp \<Longrightarrow> 0 \<le> d \<Longrightarrow> fp_target fp = l \<and> fp_duration fp \<le> d"
  by (auto simp: mk_footpath_def split: if_splits)

lemma add_lb_edge_facts:
  assumes "add_lb_edge tt a b d m = Some m'"
  shows "a < n \<Longrightarrow> b < n \<Longrightarrow> maps_ok n m \<Longrightarrow> maps_ok n m'"
    and "maps_cover tt m x y t \<Longrightarrow> maps_cover tt m' x y t"
    and "a \<noteq> b \<Longrightarrow> 0 \<le> d \<Longrightarrow> maps_cover tt m' a b d"
proof -
  show "a < n \<Longrightarrow> b < n \<Longrightarrow> maps_ok n m \<Longrightarrow> maps_ok n m'"
    "maps_cover tt m x y t \<Longrightarrow> maps_cover tt m' x y t"
    using assms by (auto simp: add_lb_edge_def maps_ok_def maps_cover_def lb_update_ok lb_update_keeps
        split: if_splits option.splits)
  assume ne: "a \<noteq> b" and d: "0 \<le> d"
  with assms obtain f g where fg: "mk_footpath a d = Some f" "mk_footpath b d = Some g"
    "m' = m\<lparr>lm_fwd := lb_update (fwd_search_lb_graph tt ! 0) b f d (lm_fwd m),
            lm_bwd := lb_update (bwd_search_lb_graph tt ! 0) a g d (lm_bwd m)\<rparr>"
    by (auto simp: add_lb_edge_def split: option.splits)
  show "maps_cover tt m' a b d"
    using mk_footpath_fields [OF fg(1) d] mk_footpath_fields [OF fg(2) d]
      lb_update_covers [of f d "fwd_search_lb_graph tt ! 0" b d "lm_fwd m"]
      lb_update_covers [of g d "bwd_search_lb_graph tt ! 0" a d "lm_bwd m"]
    by (simp add: maps_cover_def fg(3))
qed

text \<open>Over all hops.\<close>

definition rt_from :: "timetable \<Rightarrow> rt_timetable \<Rightarrow> nat \<times> nat \<Rightarrow> nat" where
  "rt_from tt rtt h = get_root_idx tt (rt_stop_loc rtt (fst h) (snd h))"

definition rt_to :: "timetable \<Rightarrow> rt_timetable \<Rightarrow> nat \<times> nat \<Rightarrow> nat" where
  "rt_to tt rtt h = get_root_idx tt (rt_stop_loc rtt (fst h) (snd h + 1))"

definition faster_hop :: "timetable \<Rightarrow> rt_timetable \<Rightarrow> nat \<times> nat \<Rightarrow> bool" where
  "faster_hop tt rtt h \<longleftrightarrow> 0 \<le> rt_hop_time rtt (fst h) (snd h) \<and> \<not> same_static_hop tt rtt (fst h) (snd h) \<and>
     rt_from tt rtt h \<noteq> rt_to tt rtt h"

lemma lb_hops_none: "fold (\<lambda>(rt_t, i). lb_hop tt rtt rt_t i) hs None = None"
  by (induction hs) (auto simp: lb_hop_def)

lemma lb_hops_facts:
  assumes "fold (\<lambda>(rt_t, i). lb_hop tt rtt rt_t i) hs (Some m) = Some m'"
  shows "maps_ok n m \<Longrightarrow> (\<forall>h \<in> set hs. rt_from tt rtt h < n \<and> rt_to tt rtt h < n) \<Longrightarrow> maps_ok n m'"
    and "maps_cover tt m x y t \<Longrightarrow> maps_cover tt m' x y t"
    and "h \<in> set hs \<Longrightarrow> faster_hop tt rtt h \<Longrightarrow>
      maps_cover tt m' (rt_from tt rtt h) (rt_to tt rtt h) (rt_hop_time rtt (fst h) (snd h))"
proof -
  have "(maps_ok n m \<longrightarrow> (\<forall>h \<in> set hs. rt_from tt rtt h < n \<and> rt_to tt rtt h < n) \<longrightarrow> maps_ok n m') \<and>
    (\<forall>x y t. maps_cover tt m x y t \<longrightarrow> maps_cover tt m' x y t) \<and>
    (\<forall>h \<in> set hs. faster_hop tt rtt h \<longrightarrow>
      maps_cover tt m' (rt_from tt rtt h) (rt_to tt rtt h) (rt_hop_time rtt (fst h) (snd h)))"
    using assms
  proof (induction hs arbitrary: m)
    case (Cons h hs)
    obtain u i where h: "h = (u, i)" by fastforce
    let ?a = "rt_from tt rtt h" and ?b = "rt_to tt rtt h" and ?d = "rt_hop_time rtt u i"
    show ?case
    proof (cases "?d < 0 \<or> same_static_hop tt rtt u i")
      case True
      then have "lb_hop tt rtt u i (Some m) = Some m" "\<not> faster_hop tt rtt h" by (auto simp: lb_hop_def faster_hop_def h)
      with Cons show ?thesis by (simp add: h)
    next
      case False
      then have step: "lb_hop tt rtt u i (Some m) = add_lb_edge tt ?a ?b ?d m" by (simp add: lb_hop_def h rt_from_def rt_to_def)
      then obtain m1 where m1: "add_lb_edge tt ?a ?b ?d m = Some m1"
        "fold (\<lambda>(rt_t, i). lb_hop tt rtt rt_t i) hs (Some m1) = Some m'"
        using Cons.prems lb_hops_none [of tt rtt hs] by (cases "add_lb_edge tt ?a ?b ?d m") (auto simp: h)
      note e = add_lb_edge_facts [OF m1(1)]
      from e(3) have "faster_hop tt rtt h \<longrightarrow> maps_cover tt m1 ?a ?b ?d" by (auto simp: faster_hop_def h)
      with Cons.IH [OF m1(2)] e(1) [of n] e(2) show ?thesis by (auto simp: h)
    qed
  qed simp
  then show "maps_ok n m \<Longrightarrow> (\<forall>h \<in> set hs. rt_from tt rtt h < n \<and> rt_to tt rtt h < n) \<Longrightarrow> maps_ok n m'"
    and "maps_cover tt m x y t \<Longrightarrow> maps_cover tt m' x y t"
    and "h \<in> set hs \<Longrightarrow> faster_hop tt rtt h \<Longrightarrow>
      maps_cover tt m' (rt_from tt rtt h) (rt_to tt rtt h) (rt_hop_time rtt (fst h) (snd h))"
    by blast+
qed

text \<open>The copy reads back what the map holds.\<close>

abbreviation copy_step :: "nat \<times> footpath list \<Rightarrow> footpath list list \<Rightarrow> footpath list list" where
  "copy_step \<equiv> \<lambda>(l, fps) to. resize [] l to @ [fps]"

lemma copy_fold:
  assumes "sorted_wrt (<) (map fst ps)" "\<forall>(l, fps) \<in> set ps. length to \<le> l \<and> l < n" "length to \<le> n"
  shows "length (fold copy_step ps to) \<le> n \<and>
    (\<forall>k. (if k < length (fold copy_step ps to) then fold copy_step ps to ! k else []) =
      (if k < length to then to ! k else edges_of k ps))"
  using assms
proof (induction ps arbitrary: to)
  case (Cons p ps)
  obtain l fps where p: "p = (l, fps)" by fastforce
  let ?to = "resize [] l to @ [fps]"
  have "length to \<le> l" "l < n" using Cons.prems p by auto
  then have to: "?to ! k = (if k < length to then to ! k else if k = l then fps else [])" if "k < length ?to" for k
    using that by (auto simp: resize_def nth_append)
  have rest: "edges_of k ps = []" if "k \<le> l" for k
    using Cons.prems(1) that by (force simp: p edges_of_map_of split: option.splits dest!: map_of_SomeD)
  have "length (fold copy_step ps ?to) \<le> n \<and>
    (\<forall>k. (if k < length (fold copy_step ps ?to) then fold copy_step ps ?to ! k else []) =
      (if k < length ?to then ?to ! k else edges_of k ps))"
    by (rule Cons.IH) (use Cons.prems p \<open>l < n\<close> in \<open>auto simp: Suc_le_eq\<close>)
  moreover have "(if k < length ?to then ?to ! k else edges_of k ps) =
      (if k < length to then to ! k else edges_of k (p # ps))" for k
    using to [of k] rest [of k] \<open>length to \<le> l\<close> by (auto simp: p)
  ultimately show ?case by (simp only: p fold_Cons o_apply prod.case) blast
qed simp

lemma copy_edges_nth:
  assumes "distinct (map fst m)" "set (map fst m) \<subseteq> {..<n_locations tt}" "k < n_locations tt"
  shows "copy_edges tt m ! k = edges_of k m"
proof -
  let ?ps = "sort_key fst m"
  have "distinct (map fst ?ps)" using assms(1) by (simp add: distinct_map)
  then have s: "sorted_wrt (<) (map fst ?ps)" by (simp add: strict_sorted_iff)
  have "edges_of k ?ps = edges_of k m"
    unfolding edges_of_map_of using map_of_inject_set [of ?ps m] assms(1) \<open>distinct (map fst ?ps)\<close> by simp
  moreover have keys: "\<forall>(l, fps) \<in> set m. l < n_locations tt" using assms(2) by force
  moreover obtain to where to: "fold copy_step ?ps [] = to" by blast
  have "length to \<le> n_locations tt \<and> (\<forall>k. (if k < length to then to ! k else []) = edges_of k ?ps)"
    using copy_fold [OF s, of "[]" "n_locations tt"] keys unfolding to by simp
  then have "edges_of k ?ps = (if k < length to then to ! k else [])" "length to \<le> n_locations tt" by simp_all
  ultimately show ?thesis
    using assms(3) unfolding copy_edges_def to by (auto simp: resize_longer nth_append split: if_splits)
qed

lemma copied_edge:
  assumes "lbs_ok (n_locations tt) st" "lbs_cover graph st src t d" "src < n_locations tt"
  shows "\<exists>e \<in> set (edges_at graph (Some (fst st)) (copy_edges tt (snd st)) src). fp_target e = t \<and> fp_duration e \<le> d"
proof -
  have "copy_edges tt (snd st) ! src = edges_of src (snd st)" using copy_edges_nth assms(1,3) by (simp add: lbs_ok_def)
  moreover have "edges_of src (snd st) \<noteq> [] \<Longrightarrow> fst st ! src" using assms(1,3) by (simp add: lbs_ok_def)
  ultimately have "set (graph ! src @ edges_of src (snd st)) \<subseteq>
      set (edges_at graph (Some (fst st)) (copy_edges tt (snd st)) src)"
    by (cases "edges_of src (snd st) = []") (auto simp: edges_at_def)
  with assms(2) show ?thesis unfolding lbs_cover_def covered_def by blast
qed

text \<open>A profile that is at least as fast as the default profile: wherever the lower bound graph of the
  default profile has an edge, the graph of the profile has one that is no longer.\<close>

definition as_fast_as_default :: "timetable \<Rightarrow> nat \<Rightarrow> bool" where
  "as_fast_as_default tt prf \<longleftrightarrow> (\<forall>d a b x. a < n_locations tt \<longrightarrow> edge_within (lb_graph d tt 0) a b x \<longrightarrow> edge_within (lb_graph d tt prf) a b x)"

lemma edges_at_profile:
  assumes "as_fast_as_default tt prf" "a < n_locations tt"
    and "\<exists>e \<in> set (edges_at (lb_graph d tt 0) has_rt rt a). fp_target e = b \<and> fp_duration e \<le> x"
  shows "\<exists>e \<in> set (edges_at (lb_graph d tt prf) has_rt rt a). fp_target e = b \<and> fp_duration e \<le> x"
  using assms unfolding as_fast_as_default_def edge_within_def edges_at_def by (fastforce simp: Un_iff)

text \<open>Property C10. After the lower bounds of a real-time timetable are updated, the edges that the
  search for lower bounds reads (those of the graph of the profile of the query, and those of the real-time timetable
  where the flag of the location is set) bound every hop of every real-time transport that is not the hop of its
  static transport at the same or a slower pace, for both directions of search. This holds for the default profile and
  for every profile that is at least as fast on its static graph. It does not hold for all profiles, since new
  edges are compared with the graph of the default profile only: \<open>rt_lbs_default_profile_only\<close> below. Hops with
  a negative travel time are skipped by the code.\<close>

theorem rt_lbs_admissible:
  assumes update: "update_lbs tt rtt = Some rtt'"
    and sizes: "length (fwd_lb_has_edges rtt) = n_locations tt" "length (bwd_lb_has_edges rtt) = n_locations tt"
    and roots: "\<forall>h \<in> set (rt_hops rtt). rt_from tt rtt h < n_locations tt \<and> rt_to tt rtt h < n_locations tt"
    and profile: "prf = 0 \<or> as_fast_as_default tt prf"
    and hop: "h \<in> set (rt_hops rtt)" "faster_hop tt rtt h"
  shows "(\<exists>e \<in> set (edges_at (lb_graph Forward tt prf) (Some (fwd_lb_has_edges rtt')) (fwd_rt_lb_graph rtt') (rt_to tt rtt h)).
      fp_target e = rt_from tt rtt h \<and> fp_duration e \<le> rt_hop_time rtt (fst h) (snd h)) \<and>
    (\<exists>e \<in> set (edges_at (lb_graph Backward tt prf) (Some (bwd_lb_has_edges rtt')) (bwd_rt_lb_graph rtt') (rt_from tt rtt h)).
      fp_target e = rt_to tt rtt h \<and> fp_duration e \<le> rt_hop_time rtt (fst h) (snd h))"
proof -
  let ?m = "\<lparr>lm_fwd = (fwd_lb_has_edges rtt, []), lm_bwd = (bwd_lb_has_edges rtt, [])\<rparr>"
  obtain m where m: "fold (\<lambda>(rt_t, i). lb_hop tt rtt rt_t i) (rt_hops rtt) (Some ?m) = Some m"
    "fwd_lb_has_edges rtt' = fst (lm_fwd m)" "bwd_lb_has_edges rtt' = fst (lm_bwd m)"
    "fwd_rt_lb_graph rtt' = copy_edges tt (snd (lm_fwd m))" "bwd_rt_lb_graph rtt' = copy_edges tt (snd (lm_bwd m))"
    using update by (auto simp: update_lbs_def split: option.splits)
  have "maps_ok (n_locations tt) ?m" using sizes by (simp add: maps_ok_def lbs_ok_def)
  from lb_hops_facts(1) [OF m(1) this roots]
  have "lbs_ok (n_locations tt) (lm_fwd m)" "lbs_ok (n_locations tt) (lm_bwd m)" by (simp_all add: maps_ok_def)
  moreover have g: "fwd_search_lb_graph tt ! 0 = lb_graph Forward tt 0" "bwd_search_lb_graph tt ! 0 = lb_graph Backward tt 0"
    by (simp_all add: lb_graph_def)
  ultimately have
    "\<exists>e \<in> set (edges_at (lb_graph Forward tt 0) (Some (fwd_lb_has_edges rtt')) (fwd_rt_lb_graph rtt') (rt_to tt rtt h)).
      fp_target e = rt_from tt rtt h \<and> fp_duration e \<le> rt_hop_time rtt (fst h) (snd h)"
    "\<exists>e \<in> set (edges_at (lb_graph Backward tt 0) (Some (bwd_lb_has_edges rtt')) (bwd_rt_lb_graph rtt') (rt_from tt rtt h)).
      fp_target e = rt_to tt rtt h \<and> fp_duration e \<le> rt_hop_time rtt (fst h) (snd h)"
    using lb_hops_facts(3) [OF m(1) hop] roots hop(1) unfolding m(2-5) maps_cover_def g by (blast intro: copied_edge)+
  with profile roots hop(1) show ?thesis by (auto intro: edges_at_profile)
qed

definition example_rt_hop :: rt_timetable where
  "example_rt_hop = example_rtt\<lparr>rt_static_transport := [None], rt_stop_times := [[600, 608]],
     rt_location_seq := [take 2 (route_location_seq example_timetable ! 0)]\<rparr>"

lemma example_rt_hop_facts:
  "rt_hops example_rt_hop = [(0, 0)]" "rt_hop_time example_rt_hop 0 0 = 8"
  "\<not> same_static_hop tt example_rt_hop 0 0"
  "rt_stop_loc example_rt_hop 0 0 = 0" "rt_stop_loc example_rt_hop 0 (Suc 0) = Suc 0"
  "fwd_lb_has_edges example_rt_hop = [False, False, False]" "bwd_lb_has_edges example_rt_hop = [False, False, False]"
  using example_stops [of 0] example_stops [of 1]
  by (simp_all add: rt_hops_def example_rt_hop_def rt_hop_time_def rt_event_time_def event_idx_def wrap_s_def
      same_static_hop_def rt_stop_loc_def stop_at_idx_def example_rtt_def)

lemma example_n_locations: "n_locations example_timetable = 3"
  by (simp add: n_locations_def example_timetable_def)

theorem rt_lbs_admissible_witness:
  "\<exists>rtt'. update_lbs example_timetable example_rt_hop = Some rtt' \<and>
     (\<exists>e \<in> set (edges_at (lb_graph Forward example_timetable 0) (Some (fwd_lb_has_edges rtt')) (fwd_rt_lb_graph rtt') 1).
        fp_target e = 0 \<and> fp_duration e \<le> 8)"
proof -
  let ?tt = "example_timetable" and ?rtt = example_rt_hop
  have ends: "rt_from ?tt ?rtt (0, 0) = 0" "rt_to ?tt ?rtt (0, 0) = Suc 0"
    by (simp_all add: rt_from_def rt_to_def example_rt_hop_facts example_roots)
  obtain rtt' where r: "update_lbs ?tt ?rtt = Some rtt'"
    unfolding update_lbs_def using ends
    by (simp add: example_rt_hop_facts lb_hop_def add_lb_edge_def mk_footpath_def rt_from_def rt_to_def)
  have "faster_hop ?tt ?rtt (0, 0)" using ends by (simp add: faster_hop_def example_rt_hop_facts)
  with rt_lbs_admissible [OF r, of 0 "(0, 0)"] r show ?thesis
    by (simp add: example_n_locations example_rt_hop_facts ends)
qed

text \<open>A way to the second stop that takes 5 minutes exists in the graph of the default profile
  only.\<close>

definition example_profiles :: timetable where
  "example_profiles = example_timetable\<lparr>
     fwd_search_lb_graph := (replicate 5 [[], [], []])[0 := [[], [\<lparr>fp_target = 0, fp_duration = 5\<rparr>], []]],
     bwd_search_lb_graph := replicate 5 [[], [], []]\<rparr>"

text \<open>New edges are compared with the graph of the default profile only, but the search of
  every profile reads them: for a profile whose own graph lacks the way that made an edge
  superfluous, a hop of a real-time transport ends up without any bounding edge.\<close>

theorem rt_lbs_default_profile_only:
  "\<exists>tt rtt rtt'. update_lbs tt rtt = Some rtt' \<and> (0, 0) \<in> set (rt_hops rtt) \<and> faster_hop tt rtt (0, 0) \<and>
     edges_at (lb_graph Forward tt 2) (Some (fwd_lb_has_edges rtt')) (fwd_rt_lb_graph rtt') (rt_to tt rtt (0, 0)) = []"
proof -
  let ?tt = "example_profiles" and ?rtt = example_rt_hop
  have roots: "get_root_idx ?tt l = l" if "l < 3" for l
    using that by (auto simp: get_root_idx_def root_loop.simps [of _ _ l] example_profiles_def example_timetable_def less_Suc_eq numeral_3_eq_3)
  have ends: "rt_from ?tt ?rtt (0, 0) = 0" "rt_to ?tt ?rtt (0, 0) = Suc 0"
    by (simp_all add: rt_from_def rt_to_def example_rt_hop_facts roots)
  have f: "faster_hop ?tt ?rtt (0, 0)" using ends by (simp add: faster_hop_def example_rt_hop_facts)
  obtain m where m: "fold (\<lambda>(rt_t, i). lb_hop ?tt ?rtt rt_t i) (rt_hops ?rtt)
      (Some \<lparr>lm_fwd = (fwd_lb_has_edges ?rtt, []), lm_bwd = (bwd_lb_has_edges ?rtt, [])\<rparr>) = Some m"
      "lm_fwd m = ([False, False, False], [])"
    using ends by (simp add: example_rt_hop_facts lb_hop_def add_lb_edge_def mk_footpath_def rt_from_def rt_to_def
        lb_update_def is_fastest_def example_profiles_def)
  then obtain rtt' where r: "update_lbs ?tt ?rtt = Some rtt'" "fwd_lb_has_edges rtt' = [False, False, False]"
    by (auto simp: update_lbs_def)
  then have "edges_at (lb_graph Forward ?tt 2) (Some (fwd_lb_has_edges rtt')) (fwd_rt_lb_graph rtt') (Suc 0) = []"
    by (simp add: edges_at_def lb_graph_def) (simp add: example_profiles_def)
  with r(1) f ends show ?thesis using example_rt_hop_facts(1) by fastforce
qed

end
