(* ===== verification/Footpaths.thy ===== *)
theory Footpaths
  imports Dijkstra Locations
begin

text \<open>
  The footpaths of a timetable, \<open>src/loader/build_footpaths.cc\<close>: what the loaders collected is
  closed under walking on within each connected component, sorted and written to the timetable.
  \<open>srt\<close> stands for \<open>std::sort\<close> with an order that does not decide between elements of equal key;
  it may leave those in any order. \<open>walk_minutes\<close> is the outcome of the floating-point part of
  \<open>adjust_to_walk_speed\<close>, which measures the distance of two coordinates with the geo library:
  \<^const>\<open>None\<close> when it is not walkable, otherwise the minutes it takes. \<^const>\<open>None\<close> as a result is an
  exception, of \<open>utl::verify\<close>, of the constructor of \<open>footpath\<close>, or a failed assertion.
\<close>

section \<open>The collected footpaths\<close>

record import_context =
  pre_out :: "footpath list list"
  pre_in :: "footpath list list"

type_synonym sorter = "(footpath \<Rightarrow> nat) \<Rightarrow> footpath list \<Rightarrow> footpath list"

definition sorts :: "sorter \<Rightarrow> bool" where
  "sorts srt \<longleftrightarrow> (\<forall>k xs. mset (srt k xs) = mset xs \<and> sorted (map k (srt k xs)))"

definition get_footpath_graph :: "sorter \<Rightarrow> timetable \<Rightarrow> import_context \<Rightarrow> footpath list list" where
  "get_footpath_graph srt tt ctx =
     map (\<lambda>i. uniq_by fp_target (srt fp_target (filter (\<lambda>fp. fp_target fp \<noteq> i) (pre_out ctx ! i))))
       [0..<n_locations tt]"

section \<open>Components\<close>

definition kInvalidComponent :: nat where "kInvalidComponent = 4294967295"

definition count_other :: "nat \<Rightarrow> nat list \<Rightarrow> nat" where
  "count_other i comps = length (filter (\<lambda>c. c \<noteq> i) comps)"

lemma count_other_less: "j < length comps \<Longrightarrow> comps ! j \<noteq> i \<Longrightarrow> count_other i (comps[j := i]) < count_other i comps"
proof (induction comps arbitrary: j)
  case (Cons c comps)
  then show ?case by (cases j) (auto simp: count_other_def)
qed simp

text \<open>The loop of the stack for the node \<open>i\<close>; the top of the stack is the head of the list.\<close>

function component_loop :: "footpath list list \<Rightarrow> nat \<Rightarrow> nat list \<Rightarrow> nat list \<Rightarrow> nat list" where
  "component_loop g i [] comps = comps"
| "component_loop g i (j # stack) comps =
     (if j < length comps \<and> comps ! j \<noteq> i
      then let comps = comps[j := i]
           in component_loop g i
                (fold (\<lambda>f stack. if comps ! fp_target f \<noteq> i then fp_target f # stack else stack) (g ! j) stack) comps
      else component_loop g i stack comps)"
  by pat_completeness auto
termination
  by (relation "measures [\<lambda>(g, i, stack, comps). count_other i comps, \<lambda>(g, i, stack, comps). length stack]")
     (auto simp: count_other_less)

definition find_components :: "footpath list list \<Rightarrow> nat list" where
  "find_components g =
     fold (\<lambda>i comps. if comps ! i \<noteq> kInvalidComponent \<or> g ! i = [] then comps else component_loop g i [i] comps)
       [0..<length g] (replicate (length g) kInvalidComponent)"

text \<open>The assignments sorted by component and location, in runs of equal component.\<close>

definition component_list :: "nat list \<Rightarrow> nat list list" where
  "component_list comps =
     map (map snd) (filter (\<lambda>r. fst (hd r) \<noteq> kInvalidComponent)
       (equal_ranges fst (sort_key fst (zip comps [0..<length comps]))))"

section \<open>The graph of a component\<close>

definition link_time :: "timetable \<Rightarrow> nat \<Rightarrow> nat \<Rightarrow> int \<Rightarrow> int" where
  "link_time tt a b d = max (max (transfer_time tt ! a) (transfer_time tt ! b)) d"

text \<open>A multimap grows when it is indexed.\<close>

definition multimap_push :: "nat \<Rightarrow> 'a \<Rightarrow> 'a list list \<Rightarrow> 'a list list" where
  "multimap_push i x m = (let m = m @ replicate (i + 1 - length m) [] in m[i := m ! i @ [x]])"

definition add_component_edge ::
    "timetable \<Rightarrow> nat list \<Rightarrow> nat \<Rightarrow> footpath \<Rightarrow> nat \<times> footpath list list \<Rightarrow> (nat \<times> footpath list list) option" where
  "add_component_edge tt c i edge st =
     (case st of (it, g) \<Rightarrow>
        let j = it + length (takeWhile (\<lambda>l. fp_target edge \<noteq> l) (drop it c));
            d = link_time tt (c ! i) (fp_target edge) (u8 (fp_duration edge))
        in if j = length c then None
           else case (mk_footpath j d, mk_footpath i d) of
             (Some f, Some b) \<Rightarrow> Some (j, multimap_push j b (multimap_push i f g))
           | _ \<Rightarrow> None)"

definition sort_unique :: "footpath list \<Rightarrow> footpath list" where
  "sort_unique xs = uniq_by (\<lambda>x. x) (sort_key fp_target (sort_key (\<lambda>fp. nat (fp_duration fp)) xs))"

definition build_component_graph :: "timetable \<Rightarrow> footpath list list \<Rightarrow> nat list \<Rightarrow> footpath list list option" where
  "build_component_graph tt fgraph c =
     (if \<not> 2 < length c then None
      else case fold_opt (\<lambda>i g. map_option snd (fold_opt (add_component_edge tt c i) (fgraph ! (c ! i)) (0, g)))
                 [0..<length c] [] of
        None \<Rightarrow> None
      | Some g \<Rightarrow>
          let graph = map sort_unique g
          in if list_all (list_all (\<lambda>fp. fp_target fp < length graph)) graph then Some graph else None)"

section \<open>Connecting\<close>

definition adjust_to_walk_speed :: "(nat \<Rightarrow> nat \<Rightarrow> int option) \<Rightarrow> nat \<Rightarrow> nat \<Rightarrow> int \<Rightarrow> int option" where
  "adjust_to_walk_speed walk_minutes a b d = map_option (\<lambda>m. u8 (max d m)) (walk_minutes a b)"

definition write_footpath ::
    "(nat \<Rightarrow> nat \<Rightarrow> int option) option \<Rightarrow> nat \<times> nat \<times> int \<Rightarrow> import_context \<Rightarrow> import_context option" where
  "write_footpath adjust w ctx =
     (case w of (from_l, to_l, d) \<Rightarrow>
        (case (case adjust of None \<Rightarrow> Some d | Some walk_minutes \<Rightarrow> adjust_to_walk_speed walk_minutes from_l to_l d) of
           None \<Rightarrow> Some ctx
         | Some adjusted \<Rightarrow>
             (case (mk_footpath to_l adjusted, mk_footpath from_l adjusted) of
                (Some f, Some b) \<Rightarrow>
                  Some (ctx\<lparr>pre_out := (pre_out ctx)[from_l := pre_out ctx ! from_l @ [f]],
                            pre_in := (pre_in ctx)[to_l := pre_in ctx ! to_l @ [b]]\<rparr>)
              | _ \<Rightarrow> None)))"

definition two_node_writes :: "timetable \<Rightarrow> footpath list list \<Rightarrow> nat list \<Rightarrow> (nat \<times> nat \<times> int) list" where
  "two_node_writes tt fgraph c =
     (let a = c ! 0; b = c ! 1;
          write = (\<lambda>from_l to_l. case fgraph ! from_l of [] \<Rightarrow> []
            | e # _ \<Rightarrow> [(from_l, to_l, link_time tt a b (u8 (fp_duration e)))])
      in write a b @ write b a)"

text \<open>The search from one node of a component.\<close>

definition component_dists :: "nat \<Rightarrow> footpath list list \<Rightarrow> nat \<Rightarrow> nat \<Rightarrow> nat list" where
  "component_dists max_length graph n node_idx =
     dijkstra (edges_at graph None []) max_length
       (dial_push l_dist \<lparr>l_loc = node_idx, l_dist = 0\<rparr> (set_n_buckets max_length (dial_clear (mk_dial 0))))
       ((replicate n 65535)[node_idx := 0])"

definition task_results :: "nat \<Rightarrow> nat list \<Rightarrow> footpath list list \<Rightarrow> nat \<Rightarrow> footpath list option" where
  "task_results max_length c graph node_idx =
     (let dists = component_dists max_length graph (length c) node_idx
      in those (map (\<lambda>t. mk_footpath (c ! t) (i16 (int (dists ! t))))
           (filter (\<lambda>t. dists ! t \<noteq> 65535 \<and> t \<noteq> node_idx) [0..<length c])))"

definition task_writes :: "timetable \<Rightarrow> nat \<Rightarrow> footpath list \<Rightarrow> (nat \<times> nat \<times> int) list" where
  "task_writes tt from_l results =
     map (\<lambda>fp. (from_l, fp_target fp, link_time tt from_l (fp_target fp) (u8 (fp_duration fp)))) results"

definition component_writes ::
    "timetable \<Rightarrow> nat \<Rightarrow> footpath list list \<Rightarrow> nat list \<Rightarrow> (nat \<times> nat \<times> int) list option" where
  "component_writes tt max_length fgraph c =
     (if length c = 2 then Some (two_node_writes tt fgraph c)
      else case build_component_graph tt fgraph c of
        None \<Rightarrow> None
      | Some graph \<Rightarrow>
          map_option concat (those (map (\<lambda>i. map_option (task_writes tt (c ! i)) (task_results max_length c graph i))
            [0..<length c])))"

text \<open>The code writes the components of two nodes first; since each location is in one component,
  the buckets do not depend on that order.\<close>

definition connect_components ::
    "sorter \<Rightarrow> (nat \<Rightarrow> nat \<Rightarrow> int option) option \<Rightarrow> nat \<Rightarrow> timetable \<Rightarrow> import_context \<Rightarrow> import_context option" where
  "connect_components srt adjust max_length tt ctx =
     (let fgraph = get_footpath_graph srt tt ctx; n = n_locations tt;
          comps = component_list (find_components fgraph)
      in case those (map (component_writes tt max_length fgraph) comps) of
           None \<Rightarrow> None
         | Some ws \<Rightarrow> fold_opt (write_footpath adjust) (concat ws) \<lparr>pre_out = replicate n [], pre_in = replicate n []\<rparr>)"

section \<open>Children\<close>

definition generated_tracks :: "timetable \<Rightarrow> nat \<Rightarrow> nat list" where
  "generated_tracks tt l = filter (\<lambda>c. loc_types tt ! c = kGeneratedTrack) (children tt ! l)"

definition link_fp :: "nat \<times> nat \<times> int \<Rightarrow> import_context \<Rightarrow> import_context option" where
  "link_fp w ctx =
     (case w of (from_l, to_l, d) \<Rightarrow>
        map_option (\<lambda>f. ctx\<lparr>pre_out := (pre_out ctx)[from_l := pre_out ctx ! from_l @ [f]]\<rparr>) (mk_footpath to_l d))"

definition links_to_children :: "timetable \<Rightarrow> import_context \<Rightarrow> nat \<Rightarrow> (nat \<times> nat \<times> int) list" where
  "links_to_children tt ctx l =
     concat (map (\<lambda>fp.
       concat (map (\<lambda>neighbor_child.
         (if loc_types tt ! neighbor_child = kGeneratedTrack then [(l, neighbor_child, fp_duration fp)] else []) @
         map (\<lambda>child. (child, neighbor_child, fp_duration fp)) (generated_tracks tt l)) (children tt ! fp_target fp)) @
       map (\<lambda>child. (child, fp_target fp, fp_duration fp)) (generated_tracks tt l)) (pre_out ctx ! l))"

definition links_between_children :: "timetable \<Rightarrow> nat \<Rightarrow> (nat \<times> nat \<times> int) list" where
  "links_between_children tt parent =
     (let cs = children tt ! parent; t = transfer_time tt ! parent
      in concat (map (\<lambda>i.
           if loc_types tt ! (cs ! i) \<noteq> kGeneratedTrack then []
           else [(parent, cs ! i, t), (cs ! i, parent, t)] @
             map (\<lambda>j. (cs ! i, cs ! j, t)) (filter (\<lambda>j. i \<noteq> j) [0..<length cs])) [0..<length cs]))"

definition add_links_to_and_between_children :: "timetable \<Rightarrow> import_context \<Rightarrow> import_context option" where
  "add_links_to_and_between_children tt ctx =
     Option.bind (fold_opt link_fp (concat (map (links_to_children tt ctx) [0..<length (pre_out ctx)])) ctx)
       (fold_opt link_fp (concat (map (links_between_children tt) [0..<length (children tt)])))"

section \<open>Writing\<close>

abbreviation dur :: "footpath \<Rightarrow> nat" where "dur fp \<equiv> nat (fp_duration fp)"

definition sort_footpaths :: "sorter \<Rightarrow> import_context \<Rightarrow> import_context" where
  "sort_footpaths srt ctx = ctx\<lparr>pre_out := map (srt dur) (pre_out ctx), pre_in := map (srt dur) (pre_in ctx)\<rparr>"

definition by_duration :: "footpath list \<Rightarrow> footpath list" where
  "by_duration xs = sort_key dur (sort_key fp_target xs)"

definition shortest_per_target :: "footpath list \<Rightarrow> footpath list" where
  "shortest_per_target xs = uniq_by fp_target (sort_key fp_target (sort_key dur xs))"

definition outgoing :: "timetable \<Rightarrow> import_context \<Rightarrow> footpath list list" where
  "outgoing tt ctx = map (\<lambda>i. by_duration (shortest_per_target (pre_out ctx ! i))) [0..<n_locations tt]"

definition incoming :: "footpath list list \<Rightarrow> nat \<Rightarrow> footpath list option" where
  "incoming outs t =
     map_option by_duration (those (concat (map (\<lambda>i. map (\<lambda>fp. mk_footpath i (fp_duration fp))
       (filter (\<lambda>fp. fp_target fp = t) (outs ! i))) [0..<length outs])))"

definition write_footpaths :: "timetable \<Rightarrow> import_context \<Rightarrow> (timetable \<times> import_context) option" where
  "write_footpaths tt ctx =
     (let outs = outgoing tt ctx
      in map_option (\<lambda>ins. (tt\<lparr>footpaths_out := (footpaths_out tt)[0 := footpaths_out tt ! 0 @ outs],
              footpaths_in := (footpaths_in tt)[0 := footpaths_in tt ! 0 @ ins]\<rparr>, \<lparr>pre_out = [], pre_in = []\<rparr>))
           (those (map (incoming outs) [0..<n_locations tt])))"

end
