(* ===== verification/Footpaths_Correct.thy ===== *)
theory Footpaths_Correct
  imports Footpaths
begin

text \<open>
  What \<open>write_footpaths\<close> of \<open>src/loader/build_footpaths.cc\<close> leaves in the timetable: the shortest
  footpath per target, in order and mirrored.
\<close>

section \<open>Sorting by two keys\<close>

definition lex_le :: "('a \<Rightarrow> nat) \<Rightarrow> ('a \<Rightarrow> nat) \<Rightarrow> 'a \<Rightarrow> 'a \<Rightarrow> bool" where
  "lex_le k d a b \<longleftrightarrow> k a < k b \<or> k a = k b \<and> d a \<le> d b"

lemma sorted_lexI:
  assumes "sorted (map k xs)" "\<And>c. sorted (map d (filter (\<lambda>y. k y = c) xs))"
  shows "sorted_wrt (lex_le k d) xs"
  using assms
proof (induction xs)
  case (Cons x xs)
  have "sorted (map d (filter (\<lambda>y. k y = c) xs))" for c using Cons.prems(2) [of c] by (simp split: if_splits)
  with Cons have "sorted_wrt (lex_le k d) xs" by simp
  moreover have "lex_le k d x y" if "y \<in> set xs" for y
  proof (cases "k x = k y")
    case True
    then have "y \<in> set (filter (\<lambda>y. k y = k x) xs)" using that by simp
    with Cons.prems(2) [of "k x"] True show ?thesis by (simp add: lex_le_def)
  next
    case False
    with that Cons.prems(1) show ?thesis by (auto simp: lex_le_def order_le_less)
  qed
  ultimately show ?case by simp
qed simp

lemma sorted_lex: "sorted_wrt (lex_le k d) (sort_key k (sort_key d xs))"
  by (rule sorted_lexI) (simp_all add: sort_key_stable sorted_filter)

lemma uniq_by_first:
  assumes "sorted_wrt (lex_le k d) xs" "x \<in> set (uniq_by k xs)" "y \<in> set xs" "k y = k x"
  shows "d x \<le> d y"
  using assms
proof (induction k xs rule: uniq_by.induct)
  case (2 k z xs)
  let ?rest = "dropWhile (\<lambda>y. k y = k z) xs"
  have le: "lex_le k d z y" if "y \<in> set xs" for y using "2.prems"(1) that by simp
  show ?case
  proof (cases "x = z")
    case True
    with le [of y] "2.prems"(3,4) show ?thesis by (auto simp: lex_le_def)
  next
    case False
    then have x: "x \<in> set (uniq_by k ?rest)" using "2.prems"(2) by simp
    have s: "sorted_wrt (lex_le k d) ?rest" using "2.prems"(1) by (metis dropWhile_eq_drop sorted_wrt.simps(2) sorted_wrt_drop)
    have "sorted (map k (z # xs))"
      using "2.prems"(1) unfolding sorted_wrt_map by (rule sorted_wrt_mono_rel [rotated]) (auto simp: lex_le_def)
    then have "k z < k x" using dropWhile_sorted_gt set_uniq_by_subset x by (metis subsetD)
    then have "y \<in> set ?rest"
      using "2.prems"(3,4) by (metis Un_iff order_less_irrefl set_ConsD set_append set_takeWhileD takeWhile_dropWhile_id)
    from "2.IH" [OF s x this "2.prems"(4)] show ?thesis .
  qed
qed simp

section \<open>The written footpaths\<close>

lemma set_by_duration [simp]: "set (by_duration xs) = set xs"
  by (simp add: by_duration_def)

lemma shortest_per_target_set:
  "set (shortest_per_target xs) \<subseteq> set xs" "fp_target ` set (shortest_per_target xs) = fp_target ` set xs"
  "x \<in> set (shortest_per_target xs) \<Longrightarrow> y \<in> set xs \<Longrightarrow> fp_target y = fp_target x \<Longrightarrow> dur x \<le> dur y"
  "distinct (map fp_target (shortest_per_target xs))"
proof -
  show "set (shortest_per_target xs) \<subseteq> set xs" "fp_target ` set (shortest_per_target xs) = fp_target ` set xs"
    using set_uniq_by_subset [of fp_target "sort_key fp_target (sort_key dur xs)"]
    by (simp_all add: shortest_per_target_def keys_uniq_by)
  show "x \<in> set (shortest_per_target xs) \<Longrightarrow> y \<in> set xs \<Longrightarrow> fp_target y = fp_target x \<Longrightarrow> dur x \<le> dur y"
    using uniq_by_first [OF sorted_lex] by (simp add: shortest_per_target_def)
  have "sorted_wrt (<) (map fp_target (shortest_per_target xs))"
    unfolding shortest_per_target_def sorted_wrt_map by (rule uniq_by_sorted) simp
  then show "distinct (map fp_target (shortest_per_target xs))" by (simp add: strict_sorted_iff)
qed

definition shortest_of :: "footpath list \<Rightarrow> footpath set" where
  "shortest_of xs = {x \<in> set xs. \<forall>y \<in> set xs. fp_target y = fp_target x \<longrightarrow> fp_duration x \<le> fp_duration y}"

definition durations_ok :: "footpath list \<Rightarrow> bool" where
  "durations_ok xs \<longleftrightarrow> (\<forall>fp \<in> set xs. 0 \<le> fp_duration fp \<and> fp_duration fp < 512)"

lemma shortest_per_target_exact: "durations_ok xs \<Longrightarrow> set (shortest_per_target xs) = shortest_of xs"
proof (intro equalityI subsetI)
  fix x assume ok: "durations_ok xs" and x: "x \<in> set (shortest_per_target xs)"
  have "x \<in> set xs" using shortest_per_target_set(1) x by blast
  have "fp_duration x \<le> fp_duration y" if y: "y \<in> set xs" "fp_target y = fp_target x" for y
    using shortest_per_target_set(3) [OF x y] ok y(1) by (auto simp: durations_ok_def)
  with \<open>x \<in> set xs\<close> show "x \<in> shortest_of xs" by (simp add: shortest_of_def)
next
  fix x assume ok: "durations_ok xs" and x: "x \<in> shortest_of xs"
  then have "fp_target x \<in> fp_target ` set (shortest_per_target xs)"
    by (simp add: shortest_per_target_set(2) shortest_of_def)
  then obtain y where y: "y \<in> set (shortest_per_target xs)" "fp_target y = fp_target x" by auto
  have m: "y \<in> set xs" "x \<in> set xs" using shortest_per_target_set(1) y(1) x by (auto simp: shortest_of_def)
  have "fp_duration x \<le> fp_duration y" using x m(1) y(2) by (simp add: shortest_of_def)
  moreover have "dur y \<le> dur x" using shortest_per_target_set(3) [OF y(1) m(2)] y(2) by simp
  moreover have "0 \<le> fp_duration x" "0 \<le> fp_duration y" using ok m by (simp_all add: durations_ok_def)
  ultimately have "x = y" using y(2) by simp
  with y(1) show "x \<in> set (shortest_per_target xs)" by simp
qed

text \<open>Property C33. The footpaths written to the timetable: from each location there is one to each
  target that was collected, of the shortest collected duration, in the order of duration; and
  the footpaths into a location are exactly the mirrored ones.\<close>

theorem write_footpaths_exact:
  assumes w: "write_footpaths tt ctx = Some (tt', ctx')"
    and fresh: "footpaths_out tt ! 0 = []" "footpaths_in tt ! 0 = []" "footpaths_out tt \<noteq> []" "footpaths_in tt \<noteq> []"
    and ok: "\<forall>i < n_locations tt. durations_ok (pre_out ctx ! i)" and l: "l < n_locations tt"
  shows "set (footpaths_out tt' ! 0 ! l) = shortest_of (pre_out ctx ! l) \<and> distinct (map fp_target (footpaths_out tt' ! 0 ! l)) \<and>
    sorted_wrt (lex_le dur fp_target) (footpaths_out tt' ! 0 ! l) \<and> sorted_wrt (lex_le dur fp_target) (footpaths_in tt' ! 0 ! l) \<and>
    set (footpaths_in tt' ! 0 ! l) = {\<lparr>fp_target = i, fp_duration = fp_duration fp\<rparr> |i fp.
      i < n_locations tt \<and> fp \<in> set (footpaths_out tt' ! 0 ! i) \<and> fp_target fp = l}"
proof -
  let ?outs = "outgoing tt ctx"
  obtain ins where ins: "those (map (incoming ?outs) [0..<n_locations tt]) = Some ins"
    "footpaths_out tt' ! 0 = ?outs" "footpaths_in tt' ! 0 = ins"
    using w fresh by (auto simp: write_footpaths_def Let_def)
  have out: "?outs ! i = by_duration (shortest_per_target (pre_out ctx ! i))" if "i < n_locations tt" for i
    using that by (simp add: outgoing_def)
  have outs: "set (?outs ! i) = shortest_of (pre_out ctx ! i)" if "i < n_locations tt" for i
    using ok that by (simp add: out shortest_per_target_exact)
  have mk: "mk_footpath i (fp_duration fp) = (if i < 8388607 then Some \<lparr>fp_target = i, fp_duration = fp_duration fp\<rparr> else None)"
    if "i < n_locations tt" "fp \<in> set (?outs ! i)" for i fp
  proof -
    have "fp \<in> set (pre_out ctx ! i)" using outs that by (auto simp: shortest_of_def)
    then have "0 \<le> fp_duration fp" "fp_duration fp < 512" using ok that(1) by (auto simp: durations_ok_def)
    then show ?thesis by (simp add: mk_footpath_def)
  qed
  have "distinct (map fp_target (by_duration ys))" if "distinct (map fp_target ys)" for ys
    using that by (simp add: by_duration_def distinct_map)
  then have "distinct (map fp_target (?outs ! l))" using shortest_per_target_set(4) by (simp add: out l)
  moreover have "sorted_wrt (lex_le dur fp_target) (?outs ! l)" by (simp add: out l by_duration_def sorted_lex)
  moreover obtain ys where ys: "those (concat (map (\<lambda>i. map (\<lambda>fp. mk_footpath i (fp_duration fp))
       (filter (\<lambda>fp. fp_target fp = l) (?outs ! i))) [0..<length ?outs])) = Some ys" "ins ! l = by_duration ys"
    using those_nth [OF ins(1)] l by (auto simp: incoming_def)
  moreover have "set ys = {\<lparr>fp_target = i, fp_duration = fp_duration fp\<rparr> |i fp.
      i < n_locations tt \<and> fp \<in> set (?outs ! i) \<and> fp_target fp = l}" (is "_ = ?S")
  proof (intro equalityI subsetI)
    fix x
    assume "x \<in> set ys"
    then have "Some x \<in> set (concat (map (\<lambda>i. map (\<lambda>fp. mk_footpath i (fp_duration fp))
       (filter (\<lambda>fp. fp_target fp = l) (?outs ! i))) [0..<length ?outs]))" using those_set [OF ys(1)] by blast
    then obtain i fp where "i < n_locations tt" "fp \<in> set (?outs ! i)" "fp_target fp = l" "Some x = mk_footpath i (fp_duration fp)"
      by (auto simp: outgoing_def)
    then show "x \<in> ?S" using mk by (auto split: if_splits)
  next
    fix x assume "x \<in> ?S"
    then obtain i fp where i: "i < n_locations tt" "fp \<in> set (?outs ! i)" "fp_target fp = l"
      "x = \<lparr>fp_target = i, fp_duration = fp_duration fp\<rparr>" by blast
    have "mk_footpath i (fp_duration fp) \<in> set (concat (map (\<lambda>i. map (\<lambda>fp. mk_footpath i (fp_duration fp))
       (filter (\<lambda>fp. fp_target fp = l) (?outs ! i))) [0..<length ?outs]))" (is "_ \<in> set ?os")
      using i by (auto simp: outgoing_def)
    moreover from those_defined [OF ys(1) this] have "mk_footpath i (fp_duration fp) = Some x"
      using mk [OF i(1,2)] i(4) by (auto split: if_splits)
    ultimately have "Some x \<in> set ?os" by simp
    then show "x \<in> set ys" using those_set [OF ys(1)] by blast
  qed
  moreover have "sorted_wrt (lex_le dur fp_target) (by_duration ys)" by (simp add: by_duration_def sorted_lex)
  ultimately show ?thesis using outs [OF l] by (simp add: ins)
qed

end
