(* ===== verification/Connected_Footpaths.thy ===== *)
theory Connected_Footpaths
  imports Footpaths_Correct
begin

text \<open>
  What \<open>connect_components\<close> of \<open>src/loader/build_footpaths.cc\<close> computes. The components it finds are
  closed under the links, the graph of a component has the edges of the links between its
  locations, and the search from each node finds the shortest ways: within a component of more
  than two locations the footpaths are exactly the shortest ways on foot.
\<close>

section \<open>Components are closed\<close>

definition symmetric :: "footpath list list \<Rightarrow> bool" where
  "symmetric g \<longleftrightarrow> (\<forall>a < length g. \<forall>f \<in> set (g ! a). fp_target f < length g \<and> (\<exists>b \<in> set (g ! fp_target f). fp_target b = a))"

lemma symmetricD:
  assumes "symmetric g" "a < length g" "f \<in> set (g ! a)"
  shows "fp_target f < length g" "\<exists>b \<in> set (g ! fp_target f). fp_target b = a" "g ! fp_target f \<noteq> []"
  using assms unfolding symmetric_def by fastforce+

lemma set_push_targets:
  "set (fold (\<lambda>f stack. if P (fp_target f) then fp_target f # stack else stack) fs stack) =
     set stack \<union> {t \<in> fp_target ` set fs. P t}"
  by (induction fs arbitrary: stack) auto

text \<open>While the component of \<open>i\<close> grows: its nodes have only neighbours in it or on the stack.\<close>

definition grows :: "footpath list list \<Rightarrow> nat \<Rightarrow> nat list \<Rightarrow> nat list \<Rightarrow> nat list \<Rightarrow> bool" where
  "grows g i old stack comps \<longleftrightarrow> length comps = length g \<and>
     (\<forall>j < length g. comps ! j \<noteq> i \<longrightarrow> comps ! j = old ! j) \<and>
     (\<forall>j < length g. comps ! j = i \<longrightarrow> g ! j \<noteq> [] \<and> (\<forall>f \<in> set (g ! j). comps ! fp_target f = i \<or> fp_target f \<in> set stack)) \<and>
     (\<forall>j \<in> set stack. j < length g \<and> g ! j \<noteq> []) \<and> (i \<in> set stack \<or> comps ! i = i)"

lemma component_loop_grows:
  assumes "symmetric g" "i < length g" "grows g i old stack comps"
  shows "grows g i old [] (component_loop g i stack comps)"
  using assms
proof (induction g i stack comps rule: component_loop.induct)
  case (2 g i j stack comps)
  note sym = "2.prems"(1)
  have j: "j < length g" "g ! j \<noteq> []" and len: "length comps = length g" using "2.prems"(3) by (simp_all add: grows_def)
  show ?case
  proof (cases "comps ! j = i")
    case True
    have "grows g i old stack comps" using "2.prems"(3) True by (auto simp: grows_def)
    with "2.IH"(2) True "2.prems" show ?thesis by simp
  next
    case False
    let ?comps = "comps[j := i]"
    let ?stack = "fold (\<lambda>f stack. if ?comps ! fp_target f \<noteq> i then fp_target f # stack else stack) (g ! j) stack"
    have st: "set ?stack = set stack \<union> {t \<in> fp_target ` set (g ! j). ?comps ! t \<noteq> i}" by (rule set_push_targets)
    have "grows g i old ?stack ?comps"
      unfolding grows_def
    proof (intro conjI allI impI ballI)
      show "length ?comps = length g" by (simp add: len)
    next
      fix k assume k: "k < length g" "?comps ! k \<noteq> i"
      then show "?comps ! k = old ! k" using "2.prems"(3) by (cases "k = j") (auto simp: grows_def len)
    next
      fix k assume k: "k < length g" "?comps ! k = i"
      show "g ! k \<noteq> []" using "2.prems"(3) k j by (cases "k = j") (auto simp: grows_def len)
      fix f assume f: "f \<in> set (g ! k)"
      show "?comps ! fp_target f = i \<or> fp_target f \<in> set ?stack"
      proof (cases "k = j")
        case True
        then show ?thesis unfolding st using f by auto
      next
        case False
        then have "comps ! fp_target f = i \<or> fp_target f \<in> set (j # stack)" using k f "2.prems"(3) by (auto simp: grows_def)
        then show ?thesis unfolding st using j by (auto simp: len nth_list_update)
      qed
    next
      fix k assume "k \<in> set ?stack"
      then consider "k \<in> set stack" | f where "f \<in> set (g ! j)" "k = fp_target f" unfolding st by auto
      then have "k < length g \<and> g ! k \<noteq> []"
      proof cases
        case 1
        then show ?thesis using "2.prems"(3) by (simp add: grows_def)
      next
        case 2
        with symmetricD [OF sym j(1) 2(1)] show ?thesis by simp
      qed
      then show "k < length g" "g ! k \<noteq> []" by blast+
    next
      show "i \<in> set ?stack \<or> ?comps ! i = i"
        using "2.prems"(2,3) unfolding st by (cases "i = j") (auto simp: grows_def len)
    qed
    with "2.IH"(1) False j "2.prems"(1,2) show ?thesis by (simp add: len Let_def)
  qed
qed simp

definition comps_closed :: "footpath list list \<Rightarrow> nat \<Rightarrow> nat list \<Rightarrow> bool" where
  "comps_closed g m comps \<longleftrightarrow> length comps = length g \<and>
     (\<forall>j < length g. comps ! j = kInvalidComponent \<or> comps ! j < m) \<and>
     (\<forall>j < length g. comps ! j \<noteq> kInvalidComponent \<longrightarrow> g ! j \<noteq> [] \<and> (\<forall>f \<in> set (g ! j). comps ! fp_target f = comps ! j)) \<and>
     (\<forall>j < m. g ! j \<noteq> [] \<longrightarrow> comps ! j \<noteq> kInvalidComponent)"

lemma comps_closed_step:
  assumes sym: "symmetric g" "length g \<le> kInvalidComponent" and m: "m < length g" and c: "comps_closed g m comps"
  shows "comps_closed g (Suc m) (if comps ! m \<noteq> kInvalidComponent \<or> g ! m = [] then comps else component_loop g m [m] comps)"
proof (cases "comps ! m \<noteq> kInvalidComponent \<or> g ! m = []")
  case True
  then show ?thesis using c by (auto simp: comps_closed_def less_Suc_eq)
next
  case False
  let ?r = "component_loop g m [m] comps"
  have no: "comps ! j \<noteq> m" if "j < length g" for j
    using c that sym(2) m unfolding comps_closed_def by fastforce
  have "grows g m comps [m] comps" using c m no False by (auto simp: grows_def comps_closed_def)
  from component_loop_grows [OF sym(1) m this] have r: "length ?r = length g"
    "\<And>j. j < length g \<Longrightarrow> ?r ! j \<noteq> m \<Longrightarrow> ?r ! j = comps ! j"
    "\<And>j. j < length g \<Longrightarrow> ?r ! j = m \<Longrightarrow> g ! j \<noteq> [] \<and> (\<forall>f \<in> set (g ! j). ?r ! fp_target f = m)" "?r ! m = m"
    unfolding grows_def by auto
  have closed: "?r ! fp_target f = ?r ! j" if j: "j < length g" "?r ! j \<noteq> kInvalidComponent" "f \<in> set (g ! j)" for j f
  proof (cases "?r ! j = m")
    case True
    with r(3) j show ?thesis by simp
  next
    case ne: False
    then have o: "?r ! j = comps ! j" using r(2) j by simp
    then have t: "comps ! fp_target f = comps ! j" using c j by (simp add: comps_closed_def)
    have "?r ! fp_target f \<noteq> m"
    proof
      assume e: "?r ! fp_target f = m"
      obtain b where "b \<in> set (g ! fp_target f)" "fp_target b = j" using symmetricD(2) [OF sym(1) j(1,3)] by blast
      with r(3) [OF symmetricD(1) [OF sym(1) j(1,3)] e] ne show False by blast
    qed
    from r(2) [OF symmetricD(1) [OF sym(1) j(1,3)] this] show ?thesis unfolding o t .
  qed
  have "g ! j \<noteq> []" if "j < length g" "?r ! j \<noteq> kInvalidComponent" for j
    using that r(2,3) [of j] c by (cases "?r ! j = m") (auto simp: comps_closed_def)
  moreover have "?r ! j = kInvalidComponent \<or> ?r ! j < Suc m" if "j < length g" for j
    using r(2) [OF that] c that by (cases "?r ! j = m") (auto simp: comps_closed_def less_Suc_eq)
  moreover have "?r ! j \<noteq> kInvalidComponent" if "j < Suc m" "g ! j \<noteq> []" for j
  proof (cases "?r ! j = m")
    case True
    then show ?thesis using m sym(2) by simp
  next
    case ne: False
    then have "j < m" using that(1) r(4) by (cases "j = m") auto
    with r(2) [of j] ne m c that(2) show ?thesis by (simp add: comps_closed_def)
  qed
  ultimately show ?thesis using r(1) closed False by (simp add: comps_closed_def)
qed

lemma find_components_closed:
  assumes "symmetric g" "length g \<le> kInvalidComponent"
  shows "comps_closed g (length g) (find_components g)"
proof -
  let ?f = "\<lambda>i comps. if comps ! i \<noteq> kInvalidComponent \<or> g ! i = [] then comps else component_loop g i [i] comps"
  have "comps_closed g m (fold ?f [0..<m] (replicate (length g) kInvalidComponent))" if "m \<le> length g" for m
    using that
  proof (induction m)
    case 0
    then show ?case by (simp add: comps_closed_def)
  next
    case (Suc m)
    then show ?case using comps_closed_step [OF assms, of m] by simp
  qed
  from this [of "length g"] show ?thesis by (simp add: find_components_def)
qed

lemma equal_ranges_filter:
  fixes key :: "'a \<Rightarrow> nat"
  assumes "sorted (map key xs)" "r \<in> set (equal_ranges key xs)"
  shows "r \<noteq> [] \<and> r = filter (\<lambda>y. key y = key (hd r)) xs"
  using assms
proof (induction key xs rule: equal_ranges.induct)
  case (2 key x xs)
  let ?t = "takeWhile (\<lambda>y. key y = key x) xs" and ?d = "dropWhile (\<lambda>y. key y = key x) xs"
  have gt: "key x < key y" if "y \<in> set ?d" for y
    by (rule dropWhile_sorted_gt [OF "2.prems"(1) that])
  have xs: "filter P xs = filter P ?t @ filter P ?d" for P by (metis filter_append takeWhile_dropWhile_id)
  show ?case
  proof (cases "r = x # ?t")
    case True
    have "filter (\<lambda>y. key y = key x) ?d = []" using gt by (force simp: filter_empty_conv)
    moreover have "filter (\<lambda>y. key y = key x) ?t = ?t" by (auto simp: filter_id_conv dest: set_takeWhileD)
    ultimately show ?thesis using True xs [of "\<lambda>y. key y = key x"] by simp
  next
    case False
    then have r: "r \<in> set (equal_ranges key ?d)" using "2.prems"(2) by simp
    have "sorted (map key ?d)" using "2.prems"(1) by (simp add: sorted_map_dropWhile)
    from "2.IH" [OF this r] have h: "r \<noteq> []" "r = filter (\<lambda>y. key y = key (hd r)) ?d" by auto
    then have "hd r \<in> set ?d" by (metis filter_is_subset hd_in_set subsetD)
    with gt have "key x < key (hd r)" by blast
    then have "filter (\<lambda>y. key y = key (hd r)) ?t = []" by (auto simp: filter_empty_conv dest: set_takeWhileD)
    with h xs [of "\<lambda>y. key y = key (hd r)"] \<open>key x < key (hd r)\<close> show ?thesis by simp
  qed
qed simp

lemma filter_zip_upt: "map snd (filter (\<lambda>p. fst p = k) (zip xs [0..<length xs])) = filter (\<lambda>l. xs ! l = k) [0..<length xs]"
proof -
  have "zip xs [0..<length xs] = map (\<lambda>l. (xs ! l, l)) [0..<length xs]" by (rule nth_equalityI) simp_all
  then show ?thesis by (simp add: filter_map o_def)
qed

lemma component_list_class:
  assumes "c \<in> set (component_list comps)" "a \<in> set c"
  shows "comps ! a \<noteq> kInvalidComponent \<and> c = filter (\<lambda>l. comps ! l = comps ! a) [0..<length comps]"
proof -
  let ?xs = "sort_key fst (zip comps [0..<length comps])"
  obtain r where r: "r \<in> set (equal_ranges fst ?xs)" "fst (hd r) \<noteq> kInvalidComponent" "c = map snd r"
    using assms(1) by (auto simp: component_list_def)
  have "sorted (map fst ?xs)" by simp
  from equal_ranges_filter [OF this r(1)] have "r = filter (\<lambda>y. fst y = fst (hd r)) (zip comps [0..<length comps])"
    by (simp add: sort_key_stable)
  with r(3) have c: "c = filter (\<lambda>l. comps ! l = fst (hd r)) [0..<length comps]" by (metis filter_zip_upt)
  then have "comps ! a = fst (hd r)" using assms(2) by simp
  with c r(2) show ?thesis by simp
qed

lemma component_list_covers:
  assumes "a < length comps" "comps ! a \<noteq> kInvalidComponent"
  shows "\<exists>c \<in> set (component_list comps). a \<in> set c"
proof -
  let ?xs = "sort_key fst (zip comps [0..<length comps])"
  have "(comps ! a, a) \<in> set ?xs" using assms(1) by (force simp: set_zip)
  then have "(comps ! a, a) \<in> set (concat (equal_ranges fst ?xs))" by (simp only: equal_ranges_concat)
  then obtain r where r: "r \<in> set (equal_ranges fst ?xs)" "(comps ! a, a) \<in> set r" by auto
  have "sorted (map fst ?xs)" by simp
  from equal_ranges_filter [OF this r(1)] r(2) have "fst (hd r) = comps ! a" by (metis (mono_tags, lifting) fst_conv mem_Collect_eq set_filter)
  with r assms(2) show ?thesis by (force simp: component_list_def)
qed

section \<open>The graph of a component\<close>

definition bucket :: "'a list list \<Rightarrow> nat \<Rightarrow> 'a list" where
  "bucket g k = (if k < length g then g ! k else [])"

lemma multimap_push_bucket: "bucket (multimap_push i x g) k = bucket g k @ (if k = i then [x] else [])"
  by (auto simp: bucket_def multimap_push_def Let_def nth_append nth_list_update)

lemma multimap_push_length [simp]: "length (multimap_push i x g) = max (length g) (Suc i)"
  by (simp add: multimap_push_def Let_def max_def)

definition push_all :: "(nat \<times> 'a) list \<Rightarrow> 'a list list \<Rightarrow> 'a list list" where
  "push_all = fold (\<lambda>(i, x). multimap_push i x)"

lemma push_all_bucket: "set (bucket (push_all ps g) k) = set (bucket g k) \<union> {x. (k, x) \<in> set ps}"
  by (induction ps arbitrary: g) (auto simp: push_all_def multimap_push_bucket)

lemma push_all_length: "length (push_all ps g) = fold max (map (Suc \<circ> fst) ps) (length g)"
  by (induction ps arbitrary: g) (auto simp: push_all_def max.commute)

lemma push_all_append: "push_all (ps @ qs) g = push_all qs (push_all ps g)"
  by (simp add: push_all_def)

lemma push_all_length_eq:
  assumes "\<forall>(i, x) \<in> set ps. i < n" "\<forall>i < n. \<exists>x. (i, x) \<in> set ps"
  shows "length (push_all ps []) = n"
proof (cases n)
  case 0
  with assms(1) have "ps = []" by (cases ps) auto
  then show ?thesis using 0 by (simp add: push_all_def)
next
  case (Suc m)
  have "fold max xs a \<le> n \<and> (\<forall>x \<in> set xs. x \<le> fold max xs a)" if "\<forall>x \<in> set xs. x \<le> n" "a \<le> n" for xs and a :: nat
  proof -
    have "fold max xs a = Max (insert a (set xs))" by (simp add: Max.set_eq_fold [symmetric])
    with that show ?thesis by simp
  qed
  note fm = this [of "map (Suc \<circ> fst) ps" 0]
  have "\<forall>x \<in> set (map (Suc \<circ> fst) ps). x \<le> n" using assms(1) by force
  moreover obtain x where "(m, x) \<in> set ps" using assms(2) Suc by blast
  then have "n \<in> set (map (Suc \<circ> fst) ps)" using Suc by force
  ultimately have "fold max (map (Suc \<circ> fst) ps) 0 = n" using fm by (meson antisym le0)
  then show ?thesis by (simp add: push_all_length)
qed

text \<open>The edges between locations that make the graph.\<close>

definition foot_links :: "timetable \<Rightarrow> footpath list list \<Rightarrow> nat \<Rightarrow> footpath list" where
  "foot_links tt g a =
     map (\<lambda>e. \<lparr>fp_target = fp_target e, fp_duration = link_time tt a (fp_target e) (u8 (fp_duration e))\<rparr>) (g ! a) @
     concat (map (\<lambda>b. map (\<lambda>e. \<lparr>fp_target = b, fp_duration = link_time tt b a (u8 (fp_duration e))\<rparr>)
       (filter (\<lambda>e. fp_target e = a) (g ! b))) [0..<length g])"

definition position :: "nat list \<Rightarrow> nat \<Rightarrow> nat" where
  "position c l = length (takeWhile (\<lambda>x. l \<noteq> x) c)"

lemma position_nth: "l \<in> set c \<Longrightarrow> position c l < length c \<and> c ! position c l = l"
  unfolding position_def using nth_length_takeWhile [of "\<lambda>x. l \<noteq> x" c]
  by (metis (mono_tags, lifting) length_takeWhile_le nat_less_le takeWhile_eq_all_conv takeWhile_eq_take take_all)

lemma position_from:
  assumes "sorted_wrt (<) c" "l \<in> set c" "it \<le> position c l"
  shows "it + length (takeWhile (\<lambda>x. l \<noteq> x) (drop it c)) = position c l"
proof -
  have p: "position c l < length c" "c ! position c l = l" using position_nth assms(2) by auto
  have ne: "l \<noteq> c ! (it + i)" if "i < position c l - it" for i
  proof -
    have "it + i < position c l" using that by arith
    from sorted_wrt_nth_less [OF assms(1) this p(1)] p(2) show ?thesis by simp
  qed
  have "takeWhile (\<lambda>x. l \<noteq> x) (drop it c) = take (position c l - it) (drop it c)"
    by (rule takeWhile_eq_take_P_nth) (use p assms(3) ne in auto)
  with p assms(3) show ?thesis by simp
qed

definition edge_pushes :: "timetable \<Rightarrow> nat list \<Rightarrow> nat \<Rightarrow> footpath \<Rightarrow> (nat \<times> footpath) list" where
  "edge_pushes tt c i e =
     (let j = position c (fp_target e); d = link_time tt (c ! i) (fp_target e) (u8 (fp_duration e))
      in [(i, \<lparr>fp_target = j, fp_duration = d\<rparr>), (j, \<lparr>fp_target = i, fp_duration = d\<rparr>)])"

definition times_ok :: "timetable \<Rightarrow> bool" where
  "times_ok tt \<longleftrightarrow> (\<forall>l < n_locations tt. 0 \<le> transfer_time tt ! l \<and> transfer_time tt ! l < 256)"

lemma link_time_bounds:
  assumes "times_ok tt" "a < n_locations tt" "b < n_locations tt" "0 \<le> d" "d < 256"
  shows "0 \<le> link_time tt a b d" "link_time tt a b d < 256"
  using assms by (auto simp: link_time_def times_ok_def)

lemma mk_small: "l < 8388607 \<Longrightarrow> 0 \<le> d \<Longrightarrow> d < 256 \<Longrightarrow> mk_footpath l d = Some \<lparr>fp_target = l, fp_duration = d\<rparr>"
  by (simp add: mk_footpath_def)

lemma add_component_edges:
  assumes "sorted_wrt (<) c" "\<forall>e \<in> set es. fp_target e \<in> set c" "sorted (map fp_target es)"
    and "length c \<le> 8388607" "times_ok tt" "\<forall>l \<in> set c. l < n_locations tt" "i < length c"
    and "\<forall>e \<in> set es. it \<le> position c (fp_target e)"
  shows "map_option snd (fold_opt (add_component_edge tt c i) es (it, g)) = Some (push_all (concat (map (edge_pushes tt c i) es)) g)"
  using assms
proof (induction es arbitrary: it g)
  case (Cons e es)
  let ?j = "position c (fp_target e)" and ?d = "link_time tt (c ! i) (fp_target e) (u8 (fp_duration e))"
  have j: "it + length (takeWhile (\<lambda>l. fp_target e \<noteq> l) (drop it c)) = ?j" "?j < length c" "c ! ?j = fp_target e"
    using position_from [OF Cons.prems(1), of "fp_target e" it] position_nth [of "fp_target e" c] Cons.prems by auto
  have d: "0 \<le> ?d" "?d < 256" using Cons.prems wrap_u_bound [of 8] by (auto intro!: link_time_bounds)
  have step: "add_component_edge tt c i e (it, g) = Some (?j, push_all (edge_pushes tt c i e) g)"
    using j d Cons.prems(4,7) mk_small [of ?j ?d] mk_small [of i ?d]
    by (simp add: add_component_edge_def edge_pushes_def push_all_def Let_def)
  have mono: "?j \<le> position c (fp_target f)" if f: "f \<in> set es" for f
  proof (rule ccontr)
    have "position c (fp_target f) < length c" "c ! position c (fp_target f) = fp_target f"
      using position_nth [of "fp_target f" c] Cons.prems f by auto
    moreover assume "\<not> ?thesis"
    ultimately have "fp_target f < fp_target e"
      using sorted_wrt_nth_less [OF Cons.prems(1), of "position c (fp_target f)" ?j] j by simp
    moreover have "fp_target e \<le> fp_target f" using Cons.prems(3) f by simp
    ultimately show False by simp
  qed
  show ?case using Cons.prems mono by (simp add: step Cons.IH push_all_append)
qed (simp add: push_all_def)

lemma set_sort_unique [simp]: "set (sort_unique xs) = set xs"
  using keys_uniq_by [of "\<lambda>x. x" "sort_key fp_target (sort_key dur xs)"] by (simp add: sort_unique_def)

definition component_ok :: "timetable \<Rightarrow> footpath list list \<Rightarrow> nat list \<Rightarrow> bool" where
  "component_ok tt g c \<longleftrightarrow> sorted_wrt (<) c \<and> length c \<le> 8388607 \<and> (\<forall>l \<in> set c. l < n_locations tt) \<and>
     (\<forall>l \<in> set c. g ! l \<noteq> [] \<and> sorted (map fp_target (g ! l)) \<and> (\<forall>e \<in> set (g ! l). fp_target e \<in> set c))"

lemma build_component_graph_pushes:
  assumes c: "component_ok tt g c" "times_ok tt"
  defines "ps \<equiv> concat (map (\<lambda>i. concat (map (edge_pushes tt c i) (g ! (c ! i)))) [0..<length c])"
  shows "fold_opt (\<lambda>i g'. map_option snd (fold_opt (add_component_edge tt c i) (g ! (c ! i)) (0, g'))) [0..<length c] [] =
    Some (push_all ps [])"
proof -
  have "fold_opt (\<lambda>i g'. map_option snd (fold_opt (add_component_edge tt c i) (g ! (c ! i)) (0, g'))) is g0 =
      Some (push_all (concat (map (\<lambda>i. concat (map (edge_pushes tt c i) (g ! (c ! i)))) is)) g0)"
    if "\<forall>i \<in> set is. i < length c" for "is" and g0
    using that
  proof (induction "is" arbitrary: g0)
    case (Cons i "is")
    then have "c ! i \<in> set c" by simp
    then have "map_option snd (fold_opt (add_component_edge tt c i) (g ! (c ! i)) (0, g0)) =
        Some (push_all (concat (map (edge_pushes tt c i) (g ! (c ! i)))) g0)"
      using c Cons.prems by (intro add_component_edges) (auto simp: component_ok_def)
    then obtain it where "fold_opt (add_component_edge tt c i) (g ! (c ! i)) (0, g0) =
        Some (it, push_all (concat (map (edge_pushes tt c i) (g ! (c ! i)))) g0)" by auto
    with Cons show ?case by (simp add: push_all_append)
  qed (simp add: push_all_def)
  then show ?thesis by (simp add: ps_def)
qed

lemma foot_links_iff:
  "x \<in> set (foot_links tt g a) \<longleftrightarrow>
     (\<exists>e \<in> set (g ! a). x = \<lparr>fp_target = fp_target e, fp_duration = link_time tt a (fp_target e) (u8 (fp_duration e))\<rparr>) \<or>
     (\<exists>b < length g. \<exists>e \<in> set (g ! b). fp_target e = a \<and> x = \<lparr>fp_target = b, fp_duration = link_time tt b a (u8 (fp_duration e))\<rparr>)"
  by (auto simp: foot_links_def image_iff)

lemma build_component_graph_links:
  assumes c: "component_ok tt g c" "times_ok tt" "2 < length c" and sym: "symmetric g" "set c \<subseteq> {..<length g}"
  shows "\<exists>graph. build_component_graph tt g c = Some graph \<and> length graph = length c \<and>
    (\<forall>i < length c. \<forall>x. x \<in> set (graph ! i) \<longleftrightarrow>
       fp_target x < length c \<and> \<lparr>fp_target = c ! fp_target x, fp_duration = fp_duration x\<rparr> \<in> set (foot_links tt g (c ! i)))"
proof -
  define ps where "ps = concat (map (\<lambda>i. concat (map (edge_pushes tt c i) (g ! (c ! i)))) [0..<length c])"
  have dist: "distinct c" using c(1) by (simp add: component_ok_def strict_sorted_iff)
  have pos: "position c (fp_target e) < length c" "c ! position c (fp_target e) = fp_target e"
    if "i < length c" "e \<in> set (g ! (c ! i))" for i e
  proof -
    have "fp_target e \<in> set c" using c(1) nth_mem [OF that(1)] that(2) by (simp add: component_ok_def)
    from position_nth [OF this] show "position c (fp_target e) < length c" "c ! position c (fp_target e) = fp_target e" by auto
  qed
  have ps: "(k, x) \<in> set ps \<longleftrightarrow> (\<exists>i < length c. \<exists>e \<in> set (g ! (c ! i)).
      let j = position c (fp_target e); d = link_time tt (c ! i) (fp_target e) (u8 (fp_duration e))
      in (k = i \<and> x = \<lparr>fp_target = j, fp_duration = d\<rparr>) \<or> (k = j \<and> x = \<lparr>fp_target = i, fp_duration = d\<rparr>))" for k x
    by (auto simp: ps_def edge_pushes_def Let_def)
  have keys: "\<forall>(k, x) \<in> set ps. k < length c \<and> fp_target x < length c"
    using pos by (auto simp: ps Let_def)
  moreover have "\<forall>k < length c. \<exists>x. (k, x) \<in> set ps"
  proof (intro allI impI)
    fix k assume k: "k < length c"
    then have "g ! (c ! k) \<noteq> []" using c(1) nth_mem by (simp add: component_ok_def)
    then obtain e where "e \<in> set (g ! (c ! k))" using hd_in_set by blast
    with k show "\<exists>x. (k, x) \<in> set ps" unfolding ps Let_def by blast
  qed
  ultimately have len: "length (push_all ps []) = length c" by (intro push_all_length_eq) auto
  have edges: "set (push_all ps [] ! k) = {x. (k, x) \<in> set ps}" if "k < length c" for k
    using push_all_bucket [of ps "[]" k] that len by (simp add: bucket_def)
  let ?graph = "map sort_unique (push_all ps [])"
  have g: "set (?graph ! k) = {x. (k, x) \<in> set ps}" if "k < length c" for k
    using edges that len by simp
  have "list_all (list_all (\<lambda>fp. fp_target fp < length ?graph)) ?graph"
    using keys g by (fastforce simp: list_all_iff len in_set_conv_nth [of _ "push_all ps []"])
  then have b: "build_component_graph tt g c = Some ?graph"
    using build_component_graph_pushes [OF c(1,2)] c(3) unfolding ps_def [symmetric] build_component_graph_def Let_def
    by (simp add: case_prod_unfold)
  have "(k, x) \<in> set ps \<longleftrightarrow>
      fp_target x < length c \<and> \<lparr>fp_target = c ! fp_target x, fp_duration = fp_duration x\<rparr> \<in> set (foot_links tt g (c ! k))"
    if k: "k < length c" for k x
  proof
    assume p: "(k, x) \<in> set ps"
    then obtain i e where i: "i < length c" "e \<in> set (g ! (c ! i))"
      and x: "(k = i \<and> x = \<lparr>fp_target = position c (fp_target e), fp_duration = link_time tt (c ! i) (fp_target e) (u8 (fp_duration e))\<rparr>) \<or>
        (k = position c (fp_target e) \<and> x = \<lparr>fp_target = i, fp_duration = link_time tt (c ! i) (fp_target e) (u8 (fp_duration e))\<rparr>)"
      unfolding ps Let_def by blast
    have "fp_target x < length c" using keys p by auto
    moreover have "c ! i < length g" using sym(2) i(1) nth_mem by blast
    ultimately show "fp_target x < length c \<and> \<lparr>fp_target = c ! fp_target x, fp_duration = fp_duration x\<rparr> \<in> set (foot_links tt g (c ! k))"
      using x \<open>fp_target x < length c\<close>
    proof (elim disjE)
      assume "k = i \<and> x = \<lparr>fp_target = position c (fp_target e), fp_duration = link_time tt (c ! i) (fp_target e) (u8 (fp_duration e))\<rparr>"
      with i pos [OF i] show ?thesis by (auto simp: foot_links_iff)
    next
      assume h: "k = position c (fp_target e) \<and> x = \<lparr>fp_target = i, fp_duration = link_time tt (c ! i) (fp_target e) (u8 (fp_duration e))\<rparr>"
      then have "c ! k = fp_target e" "fp_target x = i" using pos [OF i] by simp_all
      with h i \<open>c ! i < length g\<close> show ?thesis unfolding foot_links_iff by auto
    qed
  next
    assume x: "fp_target x < length c \<and> \<lparr>fp_target = c ! fp_target x, fp_duration = fp_duration x\<rparr> \<in> set (foot_links tt g (c ! k))"
    then consider (a) e where "e \<in> set (g ! (c ! k))" "c ! fp_target x = fp_target e"
        "fp_duration x = link_time tt (c ! k) (fp_target e) (u8 (fp_duration e))"
      | (b) e where "c ! fp_target x < length g" "e \<in> set (g ! (c ! fp_target x))" "fp_target e = c ! k"
        "fp_duration x = link_time tt (c ! fp_target x) (c ! k) (u8 (fp_duration e))"
      unfolding foot_links_iff by auto
    then show "(k, x) \<in> set ps"
    proof cases
      case a
      then have "position c (fp_target e) = fp_target x" using pos [OF k a(1)] x dist by (metis nth_eq_iff_index_eq)
      with a k show ?thesis unfolding ps Let_def by (intro exI [of _ k] conjI bexI [of _ e]) (cases x, simp_all)
    next
      case b
      have t: "fp_target x < length c" using x by simp
      have "position c (fp_target e) = k" using pos [OF t b(2)] k dist b(3) by (metis nth_eq_iff_index_eq)
      with b t show ?thesis unfolding ps Let_def by (intro exI [of _ "fp_target x"] conjI bexI [of _ e]) (cases x, simp_all)
    qed
  qed
  with b g len show ?thesis by (intro exI [of _ ?graph]) simp
qed

text \<open>Walks in the graph of a component are walks along the links.\<close>

definition graph_links :: "(nat \<Rightarrow> footpath list) \<Rightarrow> nat list \<Rightarrow> footpath list list \<Rightarrow> bool" where
  "graph_links links c graph \<longleftrightarrow> (\<forall>i < length c. (\<forall>x. x \<in> set (graph ! i) \<longleftrightarrow>
     fp_target x < length c \<and> \<lparr>fp_target = c ! fp_target x, fp_duration = fp_duration x\<rparr> \<in> set (links (c ! i))) \<and>
     (\<forall>e \<in> set (links (c ! i)). fp_target e \<in> set c))"

lemma walk_lift:
  assumes "walk (edges_at graph None []) i t w" "graph_links links c graph" "i < length c"
  shows "t < length c \<and> walk links (c ! i) (c ! t) w"
  using assms
proof (induction rule: walk.induct)
  case (walk_refl s)
  then show ?case by (simp add: walk.walk_refl)
next
  case (walk_step s u w e)
  then have u: "u < length c" "walk links (c ! s) (c ! u) w" and e: "e \<in> set (graph ! u)" by (simp_all add: edges_at_def)
  with walk_step.prems(1) have "fp_target e < length c"
    "\<lparr>fp_target = c ! fp_target e, fp_duration = fp_duration e\<rparr> \<in> set (links (c ! u))" by (simp_all add: graph_links_def)
  with walk.walk_step [OF u(2) this(2)] show ?case by simp
qed

lemma walk_lower:
  assumes "walk links a b w" "graph_links links c graph" "a = c ! i" "i < length c"
  shows "\<exists>t < length c. b = c ! t \<and> walk (edges_at graph None []) i t w"
  using assms
proof (induction rule: walk.induct)
  case (walk_refl s)
  then show ?case using walk.walk_refl by blast
next
  case (walk_step s u w e)
  then obtain t where t: "t < length c" "u = c ! t" "walk (edges_at graph None []) i t w" by blast
  with walk_step.hyps(2) walk_step.prems(1) have "fp_target e \<in> set c" by (auto simp: graph_links_def)
  then obtain k where k: "k < length c" "c ! k = fp_target e" by (auto simp: in_set_conv_nth)
  let ?x = "\<lparr>fp_target = k, fp_duration = fp_duration e\<rparr>"
  have "\<lparr>fp_target = c ! fp_target ?x, fp_duration = fp_duration ?x\<rparr> = e" using k by simp
  then have "?x \<in> set (edges_at graph None [] t)"
    using walk_step.hyps(2) walk_step.prems(1) t(1,2) k(1) by (simp add: graph_links_def edges_at_def)
  from walk.walk_step [OF t(3) this] k show ?case by (intro exI [of _ k]) simp
qed

section \<open>The search from a node\<close>

lemma expand_small:
  assumes "\<forall>t < length dists. dists ! t = B \<or> dists ! t < mx" "expand mx l e (pq, dists) = (pq', dists')"
  shows "\<forall>t < length dists'. dists' ! t = B \<or> dists' ! t < mx"
  using assms by (auto simp: expand_def Let_def nth_list_update split: if_splits)

lemma fold_expand_small:
  assumes "\<forall>t < length (snd st). snd st ! t = B \<or> snd st ! t < mx"
  shows "\<forall>t < length (snd (fold (expand mx l) es st)). snd (fold (expand mx l) es st) ! t = B \<or> snd (fold (expand mx l) es st) ! t < mx"
  using assms
proof (induction es arbitrary: st)
  case (Cons e es)
  obtain pq dists pq' dists' where s: "st = (pq, dists)" "expand mx l e (pq, dists) = (pq', dists')" by fastforce
  from expand_small [OF _ s(2)] Cons.prems s(1) have "\<forall>t < length dists'. dists' ! t = B \<or> dists' ! t < mx" by simp
  with Cons.IH [of "(pq', dists')"] show ?case by (simp add: s)
qed simp

lemma dijkstra_small:
  assumes "\<forall>t < length dists. dists ! t = B \<or> dists ! t < mx"
  shows "\<forall>t < length (dijkstra edges mx pq dists). dijkstra edges mx pq dists ! t = B \<or> dijkstra edges mx pq dists ! t < mx"
  using assms
proof (induction edges mx pq dists rule: dijkstra.induct)
  case (1 edges mx pq dists)
  show ?case
  proof (cases "dial_empty pq")
    case True
    then show ?thesis using "1.prems" by (simp add: dijkstra.simps [of edges mx pq dists])
  next
    case False
    define l where "l = fst (dial_top pq)"
    have "\<forall>t < length (snd (fold (expand mx l) (edges (l_loc l)) (dial_pop pq, dists))).
        snd (fold (expand mx l) (edges (l_loc l)) (dial_pop pq, dists)) ! t = B \<or>
        snd (fold (expand mx l) (edges (l_loc l)) (dial_pop pq, dists)) ! t < mx"
      by (rule fold_expand_small) (use "1.prems" in simp)
    with "1.IH"(1) [OF False l_def refl] "1.IH"(2) [OF False l_def refl] "1.prems" False show ?thesis
      by (simp add: dijkstra.simps [of edges mx pq dists] Let_def l_def [symmetric])
  qed
qed

definition shortest_way :: "(nat \<Rightarrow> footpath list) \<Rightarrow> nat \<Rightarrow> nat \<Rightarrow> nat \<Rightarrow> bool" where
  "shortest_way links a b w \<longleftrightarrow> walk links a b w \<and> (\<forall>v. walk links a b v \<longrightarrow> w \<le> v)"

lemma component_dists_exact:
  assumes mx: "0 < mx" "mx \<le> 65535" and i: "i < n" and t: "t < n" "t \<noteq> i"
    and ins: "\<forall>u < n. \<forall>e \<in> set (graph ! u). fp_target e < n"
  shows "component_dists mx graph n i ! t \<noteq> 65535 \<and> component_dists mx graph n i ! t = w \<longleftrightarrow>
    w < mx \<and> shortest_way (edges_at graph None []) i t w"
proof -
  let ?edges = "edges_at graph None []" and ?l = "\<lparr>l_loc = i, l_dist = 0\<rparr>" and ?D = "(replicate n 65535)[i := 0] :: nat list"
  let ?q = "set_n_buckets mx (dial_clear (mk_dial 0)) :: lb_label dial" and ?d = "component_dists mx graph n i"
  have b: "buckets ?q = replicate mx []" "d_size ?q = 0" "current_bucket ?q = 0"
    using mx by (cases mx; simp add: set_n_buckets_def dial_clear_def mk_dial_def resize_def)+
  have q: "dial_ok l_dist ?q" "n_buckets ?q = mx" "dial_elems ?q = {#}"
    unfolding dial_ok_def cells_ok_def n_buckets_def dial_elems_def b by (auto simp: concat_replicate_trivial)
  let ?pq = "dial_push l_dist ?l ?q"
  have p: "dial_ok l_dist ?pq" "dial_elems ?pq = {#?l#}" "n_buckets ?pq = mx"
  proof -
    have "l_dist ?l < n_buckets ?q" using q(2) mx(1) by simp
    from dial.push [OF q(1) this] q show "dial_ok l_dist ?pq" "dial_elems ?pq = {#?l#}" "n_buckets ?pq = mx" by simp_all
  qed
  have ex: "explained ?edges ?D ?D"
    unfolding explained_def using walk_refl by (metis add.right_neutral order_refl)
  have "dijkstra_inv ?edges mx mx ?D {} ?pq ?D"
    unfolding dijkstra_inv_def frontier_def
    using p i ex mx ins by (auto simp: labels_ok_def queued_def settled_def nth_list_update edges_at_def)
  from dijkstra_inv_end [OF this] have fin: "explained ?edges ?D ?d"
    "\<forall>u < length ?D. \<forall>e \<in> set (?edges u). settled (min mx mx) ?d u e"
    by (simp_all add: component_dists_def)
  have small: "?d ! t = 65535 \<or> ?d ! t < mx"
    using dijkstra_small [of ?D 65535 mx ?edges ?pq] mx i t fin(1)
    by (auto simp: component_dists_def explained_def nth_list_update)
  have opt: "?d ! t \<le> v" if "walk ?edges i t v" "v < mx" for v
  proof -
    have "\<forall>u < length ?D. \<forall>e \<in> set (?edges u). fp_target e < length ?D" using ins by (simp add: edges_at_def)
    from settled_optimal [OF that(1) fin this] i that(2) show ?thesis by simp
  qed
  have way: "walk ?edges i t (?d ! t)" if "?d ! t < mx"
  proof -
    obtain s w where s: "s < n" "walk ?edges s t w" "?d ! t = ?D ! s + w" using fin(1) t by (auto simp: explained_def)
    then have "s = i" using that mx i by (cases "s = i") simp_all
    with s i show ?thesis by simp
  qed
  show ?thesis
  proof
    assume a: "?d ! t \<noteq> 65535 \<and> ?d ! t = w"
    then have "w < mx" using small by simp
    have "w \<le> v" if "walk ?edges i t v" for v
      using opt [OF that] a \<open>w < mx\<close> by (cases "v < mx") simp_all
    with way a \<open>w < mx\<close> show "w < mx \<and> shortest_way ?edges i t w" unfolding shortest_way_def by blast
  next
    assume a: "w < mx \<and> shortest_way ?edges i t w"
    then have "?d ! t \<le> w" using opt by (simp add: shortest_way_def)
    moreover from this have "w \<le> ?d ! t" using way a by (simp add: shortest_way_def)
    ultimately show "?d ! t \<noteq> 65535 \<and> ?d ! t = w" using a mx by simp
  qed
qed

section \<open>What is written\<close>

lemma those_map_Some: "\<forall>x \<in> set xs. f x = Some (h x) \<Longrightarrow> those (map f xs) = Some (map h xs)"
  by (induction xs) auto

definition write_ok :: "nat \<Rightarrow> nat \<times> nat \<times> int \<Rightarrow> bool" where
  "write_ok n w \<longleftrightarrow> fst w < n \<and> fst (snd w) < n \<and> 0 \<le> snd (snd w) \<and> snd (snd w) < 256"

text \<open>The duration that is written: adjusted to the distance where that is asked for; \<^const>\<open>None\<close> when the
  distance is not walkable.\<close>

definition written_time :: "(nat \<Rightarrow> nat \<Rightarrow> int option) option \<Rightarrow> nat \<Rightarrow> nat \<Rightarrow> int \<Rightarrow> int option" where
  "written_time adjust a b d =
     (case adjust of None \<Rightarrow> Some d | Some walk_minutes \<Rightarrow> map_option (\<lambda>m. u8 (max d m)) (walk_minutes a b))"

lemma written_time_bounds: "written_time adjust a b d = Some d' \<Longrightarrow> 0 \<le> d \<Longrightarrow> d < 256 \<Longrightarrow> 0 \<le> d' \<and> d' < 256"
  using wrap_u_bound [of 8] by (auto simp: written_time_def split: option.splits)

lemma write_footpath_written:
  "write_footpath adjust (a, b, d) ctx =
     (case written_time adjust a b d of
        None \<Rightarrow> Some ctx
      | Some d' \<Rightarrow>
          (case (mk_footpath b d', mk_footpath a d') of
             (Some f, Some r) \<Rightarrow>
               Some (ctx\<lparr>pre_out := (pre_out ctx)[a := pre_out ctx ! a @ [f]], pre_in := (pre_in ctx)[b := pre_in ctx ! b @ [r]]\<rparr>)
           | _ \<Rightarrow> None))"
proof -
  have "(case adjust of None \<Rightarrow> Some d | Some walk_minutes \<Rightarrow> adjust_to_walk_speed walk_minutes a b d) = written_time adjust a b d"
    by (simp add: written_time_def adjust_to_walk_speed_def split: option.split)
  then show ?thesis by (simp add: write_footpath_def)
qed

lemma write_all:
  assumes "n \<le> 8388607" "\<forall>w \<in> set ws. write_ok n w" "length (pre_out ctx) = n" "length (pre_in ctx) = n"
  shows "\<exists>ctx'. fold_opt (write_footpath adjust) ws ctx = Some ctx' \<and>
    (\<forall>a < n. set (pre_out ctx' ! a) = set (pre_out ctx ! a) \<union>
      {\<lparr>fp_target = b, fp_duration = d'\<rparr> |b d'. \<exists>d. (a, b, d) \<in> set ws \<and> written_time adjust a b d = Some d'})"
  using assms(2-4)
proof (induction ws arbitrary: ctx)
  case (Cons w ws)
  obtain f t d where w: "w = (f, t, d)" by (metis prod_cases3)
  have b: "f < n" "t < n" "0 \<le> d" "d < 256" using Cons.prems(1) by (simp_all add: w write_ok_def)
  show ?case
  proof (cases "written_time adjust f t d")
    case None
    then have step: "write_footpath adjust w ctx = Some ctx" by (simp add: write_footpath_written w)
    obtain ctx' where "fold_opt (write_footpath adjust) ws ctx = Some ctx'"
      "\<forall>a < n. set (pre_out ctx' ! a) = set (pre_out ctx ! a) \<union>
        {\<lparr>fp_target = b, fp_duration = d'\<rparr> |b d'. \<exists>d. (a, b, d) \<in> set ws \<and> written_time adjust a b d = Some d'}"
      using Cons.IH [of ctx] Cons.prems by auto
    with None show ?thesis unfolding fold_opt.simps step by (auto simp: w)
  next
    case (Some d')
    let ?ctx = "ctx\<lparr>pre_out := (pre_out ctx)[f := pre_out ctx ! f @ [\<lparr>fp_target = t, fp_duration = d'\<rparr>]],
      pre_in := (pre_in ctx)[t := pre_in ctx ! t @ [\<lparr>fp_target = f, fp_duration = d'\<rparr>]]\<rparr>"
    from written_time_bounds [OF Some b(3,4)] have d': "0 \<le> d'" "d' < 256" by simp_all
    with b assms(1) Some have step: "write_footpath adjust w ctx = Some ?ctx"
      using mk_small [of t d'] mk_small [of f d'] by (simp add: write_footpath_written w)
    obtain ctx' where "fold_opt (write_footpath adjust) ws ?ctx = Some ctx'"
      "\<forall>a < n. set (pre_out ctx' ! a) = set (pre_out ?ctx ! a) \<union>
        {\<lparr>fp_target = b, fp_duration = d'\<rparr> |b d'. \<exists>d. (a, b, d) \<in> set ws \<and> written_time adjust a b d = Some d'}"
      using Cons.IH [of ?ctx] Cons.prems by auto
    moreover have "set (pre_out ?ctx ! a) = set (pre_out ctx ! a) \<union> (if a = f then {\<lparr>fp_target = t, fp_duration = d'\<rparr>} else {})"
      if "a < n" for a using that Cons.prems(2) by (simp add: nth_list_update)
    ultimately show ?thesis unfolding fold_opt.simps step using Some by (auto simp: w)
  qed
qed simp

definition graph_ok :: "timetable \<Rightarrow> footpath list list \<Rightarrow> bool" where
  "graph_ok tt g \<longleftrightarrow> length g = n_locations tt \<and> n_locations tt \<le> 8388607 \<and> symmetric g \<and> times_ok tt \<and>
     (\<forall>a < length g. sorted (map fp_target (g ! a)) \<and> (\<forall>e \<in> set (g ! a). fp_target e \<noteq> a))"

lemma component_facts:
  assumes g: "graph_ok tt g" and c: "c \<in> set (component_list (find_components g))"
  shows "component_ok tt g c" "set c \<subseteq> {..<length g}" "distinct c" "2 \<le> length c"
    and "c' \<in> set (component_list (find_components g)) \<Longrightarrow> a \<in> set c \<Longrightarrow> a \<in> set c' \<Longrightarrow> c' = c"
proof -
  have len: "length g \<le> kInvalidComponent" using g by (simp add: graph_ok_def kInvalidComponent_def)
  have cl: "comps_closed g (length g) (find_components g)" using g len by (intro find_components_closed) (simp_all add: graph_ok_def)
  have ne: "c \<noteq> []"
  proof -
    obtain r where "r \<in> set (equal_ranges fst (sort_key fst (zip (find_components g) [0..<length (find_components g)])))" "c = map snd r"
      using c by (auto simp: component_list_def)
    with equal_ranges_filter [OF _ this(1)] show ?thesis by simp
  qed
  then obtain a where a: "a \<in> set c" using hd_in_set by blast
  note cls = component_list_class [OF c]
  have c_eq: "c = filter (\<lambda>l. find_components g ! l = find_components g ! a) [0..<length g]"
    using cls [OF a] cl by (simp add: comps_closed_def)
  show sub: "set c \<subseteq> {..<length g}" unfolding c_eq by auto
  show dist: "distinct c" unfolding c_eq by simp
  have "sorted_wrt (<) c" unfolding c_eq by (rule sorted_wrt_filter) simp
  moreover have "length c \<le> 8388607"
    using g c_eq length_filter_le [of "\<lambda>l. find_components g ! l = find_components g ! a" "[0..<length g]"] by (simp add: graph_ok_def)
  moreover have mem: "g ! l \<noteq> [] \<and> (\<forall>e \<in> set (g ! l). fp_target e \<in> set c)" if l: "l \<in> set c" for l
  proof -
    have v: "l < length g" "find_components g ! l \<noteq> kInvalidComponent" using sub l cls [OF l] by auto
    then have t: "g ! l \<noteq> []" "\<And>e. e \<in> set (g ! l) \<Longrightarrow> find_components g ! fp_target e = find_components g ! l"
      using cl by (simp_all add: comps_closed_def)
    have "fp_target e < length g" if "e \<in> set (g ! l)" for e
      using g symmetricD(1) [OF _ v(1) that] by (simp add: graph_ok_def)
    moreover have "find_components g ! l = find_components g ! a" using l unfolding c_eq by simp
    ultimately show ?thesis using t unfolding c_eq by simp
  qed
  ultimately show "component_ok tt g c" using g sub by (auto simp: component_ok_def graph_ok_def)
  obtain e where "e \<in> set (g ! a)" using mem [OF a] hd_in_set by blast
  moreover have "a < length g" using sub a by auto
  ultimately have "fp_target e \<in> set c" "fp_target e \<noteq> a" using mem [OF a] g by (auto simp: graph_ok_def)
  then have "{a, fp_target e} \<subseteq> set c" "card {a, fp_target e} = 2" using a by auto
  then show "2 \<le> length c" by (metis card_length card_mono le_trans List.finite_set)
  show "c' = c" if "c' \<in> set (component_list (find_components g))" "a' \<in> set c" "a' \<in> set c'" for a'
    using cls [OF that(2)] component_list_class [OF that(1,3)] by simp
qed

lemma shortest_way_between:
  assumes "graph_links links c graph" "distinct c" "i < length c" "t < length c"
  shows "shortest_way (edges_at graph None []) i t w \<longleftrightarrow> shortest_way links (c ! i) (c ! t) w"
proof -
  have "walk (edges_at graph None []) i t v \<longleftrightarrow> walk links (c ! i) (c ! t) v" for v
    using walk_lift [OF _ assms(1,3)] walk_lower [OF _ assms(1) refl assms(3)] assms(2,4) nth_eq_iff_index_eq by metis
  then show ?thesis by (simp add: shortest_way_def)
qed

text \<open>The time of a way as \<open>connect_components\<close> keeps it: a 16 bit number, a \<open>footpath\<close> and 8 bits.\<close>

definition kept_time :: "nat \<Rightarrow> int" where
  "kept_time w = u8 ((if kMaxDuration < i16 (int w) then kMaxDuration else i16 (int w)) mod 512)"

lemma kept_time_small [simp]: "w < 256 \<Longrightarrow> kept_time w = int w"
  by (simp add: kept_time_def wrap_s16_id kMaxDuration_def)

lemma kept_time_bounds: "0 \<le> kept_time w" "kept_time w < 256"
  using wrap_u_bound [of 8] by (auto simp: kept_time_def)

definition ways :: "timetable \<Rightarrow> nat \<Rightarrow> footpath list list \<Rightarrow> nat list \<Rightarrow> (nat \<times> nat \<times> int) set" where
  "ways tt mx g c = {(a, b, link_time tt a b (kept_time w)) |a b w. a \<in> set c \<and> b \<in> set c \<and> b \<noteq> a \<and> w < mx \<and> shortest_way (foot_links tt g) a b w}"

lemma links_stay:
  assumes g: "graph_ok tt g" and c: "c \<in> set (component_list (find_components g))" and a: "a \<in> set c"
    and e: "e \<in> set (foot_links tt g a)"
  shows "fp_target e \<in> set c"
proof -
  note f = component_facts [OF g c]
  have stay: "fp_target x \<in> set c" if "x \<in> set (g ! a)" for x using f(1) a that by (simp add: component_ok_def)
  show ?thesis
    using e unfolding foot_links_iff
  proof (elim disjE bexE exE conjE)
    fix x assume "x \<in> set (g ! a)" "e = \<lparr>fp_target = fp_target x, fp_duration = link_time tt a (fp_target x) (u8 (fp_duration x))\<rparr>"
    with stay show ?thesis by simp
  next
    fix b x assume b: "b < length g" "x \<in> set (g ! b)" "fp_target x = a" "e = \<lparr>fp_target = b, fp_duration = link_time tt b a (u8 (fp_duration x))\<rparr>"
    have "symmetric g" using g by (simp add: graph_ok_def)
    from symmetricD(2) [OF this b(1,2)] obtain y where "y \<in> set (g ! a)" "fp_target y = b" unfolding b(3) by blast
    with stay show ?thesis by (auto simp: b)
  qed
qed

lemma ways_stay:
  assumes g: "graph_ok tt g" and c: "c \<in> set (component_list (find_components g))" and a: "a \<in> set c"
    and w: "walk (foot_links tt g) a b w"
  shows "b \<in> set c"
  using w a by (induction rule: walk.induct) (auto intro: links_stay [OF g c])

lemma component_writes_ways:
  assumes g: "graph_ok tt g" and c: "c \<in> set (component_list (find_components g))" "2 < length c" and mx: "0 < mx" "mx \<le> 65535"
  shows "\<exists>ws. component_writes tt mx g c = Some ws \<and> set ws = ways tt mx g c"
proof -
  note f = component_facts [OF g c(1)]
  have sym: "symmetric g" "times_ok tt" "length g = n_locations tt" "n_locations tt \<le> 8388607" using g by (simp_all add: graph_ok_def)
  obtain graph where gr: "build_component_graph tt g c = Some graph" "length graph = length c"
    "\<forall>i < length c. \<forall>x. x \<in> set (graph ! i) \<longleftrightarrow>
       fp_target x < length c \<and> \<lparr>fp_target = c ! fp_target x, fp_duration = fp_duration x\<rparr> \<in> set (foot_links tt g (c ! i))"
    using build_component_graph_links [OF f(1) sym(2) c(2) sym(1) f(2)] by blast
  have ins: "\<forall>u < length c. \<forall>e \<in> set (graph ! u). fp_target e < length c" using gr(3) by blast
  have "\<forall>i < length c. \<forall>e \<in> set (foot_links tt g (c ! i)). fp_target e \<in> set c" using links_stay [OF g c(1)] nth_mem by blast
  with gr(3) have links: "graph_links (foot_links tt g) c graph" by (simp add: graph_links_def)
  have exact: "component_dists mx graph (length c) i ! t \<noteq> 65535 \<and> component_dists mx graph (length c) i ! t = w \<longleftrightarrow>
      w < mx \<and> shortest_way (foot_links tt g) (c ! i) (c ! t) w" if "i < length c" "t < length c" "t \<noteq> i" for i t w
    using component_dists_exact [OF mx(1) _ that ins] mx shortest_way_between [OF links f(3) that(1,2)] by simp
  let ?ts = "\<lambda>i. filter (\<lambda>t. component_dists mx graph (length c) i ! t \<noteq> 65535 \<and> t \<noteq> i) [0..<length c]"
  let ?fp = "\<lambda>i t. let d = i16 (int (component_dists mx graph (length c) i ! t))
    in \<lparr>fp_target = c ! t, fp_duration = (if kMaxDuration < d then kMaxDuration else d) mod 512\<rparr>"
  have res: "task_results mx c graph i = Some (map (?fp i) (?ts i))" if i: "i < length c" for i
    unfolding task_results_def Let_def
  proof (rule those_map_Some, intro ballI)
    fix t assume "t \<in> set (?ts i)"
    then have "c ! t < 8388607" using f(2) sym(3,4) nth_mem by fastforce
    then show "mk_footpath (c ! t) (i16 (int (component_dists mx graph (length c) i ! t))) =
        Some \<lparr>fp_target = c ! t, fp_duration = (if kMaxDuration < i16 (int (component_dists mx graph (length c) i ! t)) then kMaxDuration
          else i16 (int (component_dists mx graph (length c) i ! t))) mod 512\<rparr>"
      by (simp add: mk_footpath_def)
  qed
  let ?w = "\<lambda>i. map (\<lambda>t. (c ! i, c ! t, link_time tt (c ! i) (c ! t) (kept_time (component_dists mx graph (length c) i ! t)))) (?ts i)"
  have "map_option (task_writes tt (c ! i)) (task_results mx c graph i) = Some (?w i)" if i: "i < length c" for i
    by (simp add: res [OF i] task_writes_def kept_time_def Let_def)
  then have "those (map (\<lambda>i. map_option (task_writes tt (c ! i)) (task_results mx c graph i)) [0..<length c]) = Some (map ?w [0..<length c])"
    by (intro those_map_Some) simp
  then have cw: "component_writes tt mx g c = Some (concat (map ?w [0..<length c]))"
    using c(2) gr(1) by (simp add: component_writes_def)
  have "set (concat (map ?w [0..<length c])) = ways tt mx g c"
  proof (intro equalityI subsetI)
    fix x assume "x \<in> set (concat (map ?w [0..<length c]))"
    then obtain i t where i: "i < length c" "t \<in> set (?ts i)"
      "x = (c ! i, c ! t, link_time tt (c ! i) (c ! t) (kept_time (component_dists mx graph (length c) i ! t)))" by auto
    then have "c ! t \<noteq> c ! i" "component_dists mx graph (length c) i ! t < mx \<and>
        shortest_way (foot_links tt g) (c ! i) (c ! t) (component_dists mx graph (length c) i ! t)"
      using exact [OF i(1), of t] f(3) by (auto simp: nth_eq_iff_index_eq)
    with i show "x \<in> ways tt mx g c" unfolding ways_def by auto
  next
    fix x assume "x \<in> ways tt mx g c"
    then obtain a b w where x: "x = (a, b, link_time tt a b (kept_time w))" "a \<in> set c" "b \<in> set c" "b \<noteq> a" "w < mx"
      "shortest_way (foot_links tt g) a b w" unfolding ways_def by blast
    then obtain i t where i: "i < length c" "t < length c" "a = c ! i" "b = c ! t" by (auto simp: in_set_conv_nth)
    with x have "component_dists mx graph (length c) i ! t \<noteq> 65535 \<and> component_dists mx graph (length c) i ! t = w"
      using exact [OF i(1,2)] by blast
    with i x show "x \<in> set (concat (map ?w [0..<length c]))" by (auto intro!: bexI [of _ i])
  qed
  with cw show ?thesis by blast
qed

text \<open>The collected footpaths: in range, and there is a way back along each.\<close>

definition mirrored :: "timetable \<Rightarrow> import_context \<Rightarrow> bool" where
  "mirrored tt ctx \<longleftrightarrow> (\<forall>a < n_locations tt. \<forall>fp \<in> set (pre_out ctx ! a).
     fp_target fp < n_locations tt \<and> (\<exists>back \<in> set (pre_out ctx ! fp_target fp). fp_target back = a))"

lemma footpath_graph_targets:
  assumes "sorts srt" "a < n_locations tt"
  shows "fp_target ` set (get_footpath_graph srt tt ctx ! a) = fp_target ` set (pre_out ctx ! a) - {a}"
proof -
  have "set (srt k xs) = set xs" for k xs using assms(1) unfolding sorts_def by (metis mset_eq_setD)
  then show ?thesis using assms(2) by (auto simp: get_footpath_graph_def keys_uniq_by)
qed

lemma footpath_graph_ok:
  assumes "sorts srt" "mirrored tt ctx" "times_ok tt" "n_locations tt \<le> 8388607"
  shows "graph_ok tt (get_footpath_graph srt tt ctx)"
proof -
  let ?g = "get_footpath_graph srt tt ctx"
  have len: "length ?g = n_locations tt" by (simp add: get_footpath_graph_def)
  note t = footpath_graph_targets [OF assms(1)]
  have "symmetric ?g"
    unfolding symmetric_def len
  proof (intro allI impI ballI)
    fix a f assume a: "a < n_locations tt" "f \<in> set (?g ! a)"
    then have "fp_target f \<in> fp_target ` set (pre_out ctx ! a) - {a}" using t by blast
    then obtain fp where fp: "fp \<in> set (pre_out ctx ! a)" "fp_target fp = fp_target f" "fp_target f \<noteq> a" by force
    with assms(2) a(1) have lt: "fp_target f < n_locations tt" and "a \<in> fp_target ` set (pre_out ctx ! fp_target f)"
      by (force simp: mirrored_def)+
    then have "a \<in> fp_target ` set (?g ! fp_target f)" using t fp(3) by auto
    with lt show "fp_target f < n_locations tt \<and> (\<exists>b \<in> set (?g ! fp_target f). fp_target b = a)" by force
  qed
  moreover have "sorted (map fp_target (?g ! a)) \<and> (\<forall>e \<in> set (?g ! a). fp_target e \<noteq> a)" if a: "a < n_locations tt" for a
  proof -
    let ?xs = "srt fp_target (filter (\<lambda>fp. fp_target fp \<noteq> a) (pre_out ctx ! a))"
    have "sorted (map fp_target ?xs)" using assms(1) by (simp add: sorts_def)
    from uniq_by_sorted [OF this] have "sorted_wrt (<) (map fp_target (?g ! a))"
      by (simp add: get_footpath_graph_def a sorted_wrt_map)
    then have "sorted (map fp_target (?g ! a))" by (simp add: strict_sorted_iff)
    with t [OF a, of ctx] show ?thesis by auto
  qed
  ultimately show ?thesis using assms by (simp add: graph_ok_def len)
qed

lemma two_node_writes_ok:
  assumes g: "graph_ok tt g" and c: "c \<in> set (component_list (find_components g))" "length c = 2" and w: "w \<in> set (two_node_writes tt g c)"
  shows "write_ok (n_locations tt) w \<and> fst w \<in> set c"
proof -
  note f = component_facts [OF g c(1)]
  have m: "c ! 0 \<in> set c" "c ! 1 \<in> set c" using c(2) by (simp_all add: nth_mem)
  then have "c ! 0 < n_locations tt" "c ! 1 < n_locations tt" using f(2) g by (auto simp: graph_ok_def)
  moreover have "0 \<le> u8 d \<and> u8 d < 256" for d using wrap_u_bound [of 8 d] by simp
  ultimately show ?thesis
    using w m g link_time_bounds [of tt "c ! 0" "c ! 1"]
    by (auto simp: two_node_writes_def Let_def write_ok_def graph_ok_def split: list.splits)
qed

lemma ways_ok:
  assumes g: "graph_ok tt g" and c: "c \<in> set (component_list (find_components g))" and w: "w \<in> ways tt mx g c"
  shows "write_ok (n_locations tt) w \<and> fst w \<in> set c"
proof -
  note f = component_facts [OF g c]
  obtain a b d where w: "w = (a, b, link_time tt a b (kept_time d))" "a \<in> set c" "b \<in> set c" using w by (auto simp: ways_def)
  then have "a < n_locations tt" "b < n_locations tt" using f(2) g by (auto simp: graph_ok_def)
  with w g link_time_bounds [of tt a b "kept_time d"] kept_time_bounds [of d] show ?thesis by (simp add: write_ok_def graph_ok_def)
qed

text \<open>The writes of a component of two locations: each has one link, to the other.\<close>

lemma two_node_writes_links:
  assumes g: "graph_ok tt g" and c: "c \<in> set (component_list (find_components g))" "length c = 2" and a: "a \<in> set c"
  shows "(a, b, d) \<in> set (two_node_writes tt g c) \<longleftrightarrow>
    b = fp_target (hd (g ! a)) \<and> d = link_time tt a b (u8 (fp_duration (hd (g ! a))))"
proof -
  note f = component_facts [OF g c(1)]
  obtain x y where xy: "c = [x, y]" using c(2) by (auto simp: length_Suc_conv numeral_2_eq_2)
  have ne: "x \<noteq> y" using f(3) by (simp add: xy)
  have only: "g ! l \<noteq> []" "\<And>e. e \<in> set (g ! l) \<Longrightarrow> fp_target e \<in> {x, y} - {l}" if "l \<in> {x, y}" for l
    using f(1,2) that g by (auto simp: component_ok_def graph_ok_def xy)
  have link: "link_time tt p q t = link_time tt q p t" for p q t by (simp add: link_time_def max.commute)
  have t: "fp_target (hd (g ! x)) = y" "fp_target (hd (g ! y)) = x"
    using only(2) [of x "hd (g ! x)"] only(2) [of y "hd (g ! y)"] only(1) by auto
  obtain ex gx ey gy where h: "g ! x = ex # gx" "g ! y = ey # gy" using only(1) by (metis insertCI list.exhaust)
  have w: "two_node_writes tt g c =
      [(x, y, link_time tt x y (u8 (fp_duration (hd (g ! x))))), (y, x, link_time tt x y (u8 (fp_duration (hd (g ! y)))))]"
    unfolding two_node_writes_def Let_def xy using h by simp
  from a consider "a = x" | "a = y" by (auto simp: xy)
  then show ?thesis
  proof cases
    case 1
    then show ?thesis unfolding w using ne t(1) by auto
  next
    case 2
    then show ?thesis unfolding w using ne t(2) link [of x y] by auto
  qed
qed

text \<open>Property C25. The footpaths are closed under walking on. Let there be a way back along each collected
  footpath, and transfer times below 256 minutes. Then connecting the components never throws, for every maximum
  length and whether or not footpaths are adjusted to the distance of their ends. From each location
  of a component of more than two locations there are exactly the footpaths to the locations it can reach over the
  collected links in less than the maximum length, as long as the shortest such way and at least as long as the
  transfer times at the ends; ways of 256 minutes and more lose their upper bits. In a component of two locations each has the
  footpath of its own link to the other. With adjustment, footpaths whose distance is not walkable are left out and others take at
  least the time the distance takes. A location without collected footpaths has none afterwards.\<close>

theorem connected_footpaths_exact:
  assumes "sorts srt" "mirrored tt ctx" "times_ok tt" "n_locations tt \<le> 8388607" and mx: "0 < mx" "mx \<le> 65535"
  defines "g \<equiv> get_footpath_graph srt tt ctx"
  shows "\<exists>ctx'. connect_components srt adjust mx tt ctx = Some ctx' \<and>
    (\<forall>c \<in> set (component_list (find_components g)). \<forall>a \<in> set c.
      (2 < length c \<longrightarrow> set (pre_out ctx' ! a) = {\<lparr>fp_target = b, fp_duration = d\<rparr> |b d. \<exists>w. b \<noteq> a \<and> w < mx \<and>
         shortest_way (foot_links tt g) a b w \<and> written_time adjust a b (link_time tt a b (kept_time w)) = Some d}) \<and>
      (length c = 2 \<longrightarrow> set (pre_out ctx' ! a) = {\<lparr>fp_target = b, fp_duration = d\<rparr> |b d. b = fp_target (hd (g ! a)) \<and>
         written_time adjust a b (link_time tt a b (u8 (fp_duration (hd (g ! a))))) = Some d})) \<and>
    (\<forall>a < n_locations tt. g ! a = [] \<longrightarrow> pre_out ctx' ! a = [])"
proof -
  have g: "graph_ok tt g" unfolding g_def by (rule footpath_graph_ok [OF assms(1-4)])
  let ?comps = "component_list (find_components g)" and ?n = "n_locations tt"
  define h where "h c = the (component_writes tt mx g c)" for c
  have h: "component_writes tt mx g c = Some (h c)" "2 < length c \<Longrightarrow> set (h c) = ways tt mx g c"
    "length c = 2 \<Longrightarrow> h c = two_node_writes tt g c" "\<forall>w \<in> set (h c). write_ok ?n w \<and> fst w \<in> set c" if c: "c \<in> set ?comps" for c
  proof -
    have two: "component_writes tt mx g c = Some (two_node_writes tt g c)" if "length c = 2" using that by (simp add: component_writes_def)
    consider "length c = 2" | "2 < length c" using component_facts(4) [OF g c] by linarith
    then have "component_writes tt mx g c = Some (h c) \<and> (2 < length c \<longrightarrow> set (h c) = ways tt mx g c) \<and>
        (length c = 2 \<longrightarrow> h c = two_node_writes tt g c) \<and> (\<forall>w \<in> set (h c). write_ok ?n w \<and> fst w \<in> set c)"
    proof cases
      case 1
      then show ?thesis using two two_node_writes_ok [OF g c] by (simp add: h_def)
    next
      case 2
      with component_writes_ways [OF g c 2 mx] ways_ok [OF g c] show ?thesis by (auto simp: h_def)
    qed
    then show "component_writes tt mx g c = Some (h c)" "2 < length c \<Longrightarrow> set (h c) = ways tt mx g c"
      "length c = 2 \<Longrightarrow> h c = two_node_writes tt g c" "\<forall>w \<in> set (h c). write_ok ?n w \<and> fst w \<in> set c" by blast+
  qed
  let ?ws = "concat (map h ?comps)"
  have "those (map (component_writes tt mx g) ?comps) = Some (map h ?comps)" using h(1) by (intro those_map_Some) simp
  moreover have "\<forall>w \<in> set ?ws. write_ok ?n w" using h(4) by auto
  then obtain ctx' where ctx': "fold_opt (write_footpath adjust) ?ws \<lparr>pre_out = replicate ?n [], pre_in = replicate ?n []\<rparr> = Some ctx'"
    "\<forall>a < ?n. set (pre_out ctx' ! a) =
       {\<lparr>fp_target = b, fp_duration = d'\<rparr> |b d'. \<exists>d. (a, b, d) \<in> set ?ws \<and> written_time adjust a b d = Some d'}"
    using write_all [OF assms(4), where ws = ?ws and adjust = adjust and ctx = "\<lparr>pre_out = replicate ?n [], pre_in = replicate ?n []\<rparr>"] by auto
  ultimately have run: "connect_components srt adjust mx tt ctx = Some ctx'"
    by (simp add: connect_components_def Let_def g_def [symmetric])
  have own: "(a, b, d) \<in> set ?ws \<longleftrightarrow> (a, b, d) \<in> set (h c)" if c: "c \<in> set ?comps" "a \<in> set c" for c a b d
  proof
    assume "(a, b, d) \<in> set ?ws"
    then obtain c' where "c' \<in> set ?comps" "(a, b, d) \<in> set (h c')" by auto
    then show "(a, b, d) \<in> set (h c)" using h(4) component_facts(5) [OF g c(1), of c' a] c(2) by force
  qed (use c(1) in auto)
  have less: "a < ?n" if "c \<in> set ?comps" "a \<in> set c" for c a using component_facts(2) [OF g that(1)] that(2) g by (auto simp: graph_ok_def)
  have big: "set (pre_out ctx' ! a) = {\<lparr>fp_target = b, fp_duration = d\<rparr> |b d. \<exists>w. b \<noteq> a \<and> w < mx \<and>
         shortest_way (foot_links tt g) a b w \<and> written_time adjust a b (link_time tt a b (kept_time w)) = Some d}"
    if c: "c \<in> set ?comps" "2 < length c" "a \<in> set c" for c a
  proof -
    have "b \<in> set c" if "shortest_way (foot_links tt g) a b w" for b w
      using ways_stay [OF g c(1,3)] that unfolding shortest_way_def by blast
    then have m: "(a, b, d) \<in> set ?ws \<longleftrightarrow>
        (\<exists>w. b \<noteq> a \<and> w < mx \<and> shortest_way (foot_links tt g) a b w \<and> d = link_time tt a b (kept_time w))" for b d
      unfolding own [OF c(1,3)] h(2) [OF c(1,2)] ways_def using c(3) by auto
    have "(\<exists>e. (a, b, e) \<in> set ?ws \<and> written_time adjust a b e = Some d) \<longleftrightarrow>
        (\<exists>w. b \<noteq> a \<and> w < mx \<and> shortest_way (foot_links tt g) a b w \<and> written_time adjust a b (link_time tt a b (kept_time w)) = Some d)" for b d
      unfolding m by blast
    then show ?thesis unfolding ctx'(2) [rule_format, OF less [OF c(1,3)]] by simp
  qed
  have two: "set (pre_out ctx' ! a) = {\<lparr>fp_target = b, fp_duration = d\<rparr> |b d. b = fp_target (hd (g ! a)) \<and>
         written_time adjust a b (link_time tt a b (u8 (fp_duration (hd (g ! a))))) = Some d}"
    if c: "c \<in> set ?comps" "length c = 2" "a \<in> set c" for c a
  proof -
    have "(\<exists>e. (a, b, e) \<in> set ?ws \<and> written_time adjust a b e = Some d) \<longleftrightarrow>
        b = fp_target (hd (g ! a)) \<and> written_time adjust a b (link_time tt a b (u8 (fp_duration (hd (g ! a))))) = Some d" for b d
      unfolding own [OF c(1,3)] h(3) [OF c(1,2)] two_node_writes_links [OF g c] by (simp add: conj_assoc)
    then show ?thesis unfolding ctx'(2) [rule_format, OF less [OF c(1,3)]] by simp
  qed
  have none: "pre_out ctx' ! a = []" if "a < ?n" "g ! a = []" for a
  proof -
    have "a \<notin> set c" if "c \<in> set ?comps" for c
      using component_facts(1) [OF g that] \<open>g ! a = []\<close> by (auto simp: component_ok_def)
    then have "(a, b, d) \<notin> set ?ws" for b d using h(4) by fastforce
    then have "set (pre_out ctx' ! a) = {}" unfolding ctx'(2) [rule_format, OF that(1)] by simp
    then show ?thesis by simp
  qed
  show ?thesis
    by (intro exI [of _ ctx'] conjI ballI allI impI, rule run, rule big, assumption+, rule two, assumption+, rule none)
qed

section \<open>Examples\<close>

definition one_way :: import_context where
  "one_way = \<lparr>pre_out = [[\<lparr>fp_target = 1, fp_duration = 5\<rparr>], [], [\<lparr>fp_target = 1, fp_duration = 5\<rparr>]], pre_in = []\<rparr>"

definition there_and_back :: import_context where
  "there_and_back = \<lparr>pre_out = [[\<lparr>fp_target = 1, fp_duration = 5\<rparr>],
     [\<lparr>fp_target = 0, fp_duration = 5\<rparr>, \<lparr>fp_target = 2, fp_duration = 5\<rparr>], [\<lparr>fp_target = 1, fp_duration = 5\<rparr>]], pre_in = []\<rparr>"

lemma sorts_sort_key: "sorts sort_key"
  by (simp add: sorts_def)

lemma example_3: "n_locations example_timetable = 3"
  by (simp add: n_locations_def example_timetable_def)

text \<open>The search for components follows footpaths in their direction only: when two
  locations lead to a third one and there is no way back, the third one is moved to the second
  component, the first is left alone, and the check for components of one node throws.\<close>

theorem one_way_footpaths_throw:
  "connect_components sort_key adjust mx example_timetable one_way = None"
proof -
  have g: "get_footpath_graph sort_key example_timetable one_way = pre_out one_way"
    by (simp add: get_footpath_graph_def example_3 one_way_def upt_rec)
  have f: "find_components (pre_out one_way) = [0, 2, 2]"
    by (simp add: find_components_def one_way_def upt_rec kInvalidComponent_def)
  have c: "component_list [0, 2, 2] = [[0], [1, 2]]"
    by (simp add: component_list_def kInvalidComponent_def upt_rec)
  show ?thesis
    by (simp add: connect_components_def Let_def g f c component_writes_def build_component_graph_def)
qed

theorem write_footpaths_exact_witness:
  "\<exists>tt' ctx'. write_footpaths (example_timetable\<lparr>footpaths_out := [[]], footpaths_in := [[]]\<rparr>) there_and_back = Some (tt', ctx') \<and>
     distinct (map fp_target (footpaths_out tt' ! 0 ! 1))"
proof -
  let ?tt = "example_timetable\<lparr>footpaths_out := [[]], footpaths_in := [[]]\<rparr>"
  have n: "n_locations ?tt = 3" by (simp add: n_locations_def example_timetable_def)
  have "write_footpaths ?tt there_and_back \<noteq> None"
    by (simp add: write_footpaths_def n outgoing_def there_and_back_def upt_rec shortest_per_target_def by_duration_def
        incoming_def mk_footpath_def)
  then obtain tt' ctx' where w: "write_footpaths ?tt there_and_back = Some (tt', ctx')" by auto
  have "\<forall>i < 3. durations_ok (pre_out there_and_back ! i)"
    by (auto simp: durations_ok_def there_and_back_def less_Suc_eq numeral_3_eq_3)
  with write_footpaths_exact [OF w, of 1] w show ?thesis by (simp add: n)
qed

text \<open>With adjustment: the first and the last location are too far from each other to walk.\<close>

definition example_walks :: "nat \<Rightarrow> nat \<Rightarrow> int option" where
  "example_walks a b = (if a = b + 2 \<or> b = a + 2 then None else Some 7)"

theorem connected_footpaths_exact_witness:
  "\<exists>ctx'. connect_components sort_key (Some example_walks) 20 example_timetable there_and_back = Some ctx' \<and>
     set (pre_out ctx' ! 0) \<subseteq> {\<lparr>fp_target = b, fp_duration = d\<rparr> |b d. b \<noteq> 0 \<and> b \<noteq> 2 \<and> 7 \<le> d}"
proof -
  have g: "get_footpath_graph sort_key example_timetable there_and_back = pre_out there_and_back"
    by (simp add: get_footpath_graph_def example_3 there_and_back_def upt_rec)
  have f: "find_components (pre_out there_and_back) = [0, 0, 0]"
    by (simp add: find_components_def there_and_back_def upt_rec kInvalidComponent_def)
  have c: "component_list [0, 0, 0] = [[0, 1, 2]]"
    by (simp add: component_list_def kInvalidComponent_def upt_rec)
  have ok: "mirrored example_timetable there_and_back" "times_ok example_timetable"
    by (auto simp: mirrored_def example_3 there_and_back_def less_Suc_eq numeral_3_eq_3)
       (auto simp: times_ok_def example_3 less_Suc_eq numeral_3_eq_3, simp_all add: example_timetable_def)
  obtain ctx' where ctx': "connect_components sort_key (Some example_walks) 20 example_timetable there_and_back = Some ctx'"
    "set (pre_out ctx' ! 0) = {\<lparr>fp_target = b, fp_duration = d\<rparr> |b d. \<exists>w. b \<noteq> 0 \<and> w < 20 \<and>
       shortest_way (foot_links example_timetable (pre_out there_and_back)) 0 b w \<and>
       written_time (Some example_walks) 0 b (link_time example_timetable 0 b (kept_time w)) = Some d}"
  proof -
    have n: "n_locations example_timetable \<le> 8388607" "0 < (20::nat)" "20 \<le> (65535::nat)" by (simp_all add: example_3)
    have m: "[0, 1, 2] \<in> set (component_list (find_components (pre_out there_and_back)))" "0 \<in> set [0, 1, 2::nat]" "2 < length [0, 1, 2::nat]"
      by (simp_all add: f c)
    obtain ctx' where r: "connect_components sort_key (Some example_walks) 20 example_timetable there_and_back = Some ctx'"
      and all: "\<forall>c \<in> set (component_list (find_components (pre_out there_and_back))). \<forall>a \<in> set c.
        (2 < length c \<longrightarrow> set (pre_out ctx' ! a) = {\<lparr>fp_target = b, fp_duration = d\<rparr> |b d. \<exists>w. b \<noteq> a \<and> w < 20 \<and>
           shortest_way (foot_links example_timetable (pre_out there_and_back)) a b w \<and>
           written_time (Some example_walks) a b (link_time example_timetable a b (kept_time w)) = Some d}) \<and>
        (length c = 2 \<longrightarrow> set (pre_out ctx' ! a) = {\<lparr>fp_target = b, fp_duration = d\<rparr> |b d. b = fp_target (hd (pre_out there_and_back ! a)) \<and>
           written_time (Some example_walks) a b (link_time example_timetable a b (u8 (fp_duration (hd (pre_out there_and_back ! a))))) = Some d})"
      using connected_footpaths_exact [OF sorts_sort_key ok n, of "Some example_walks", unfolded g] by (elim exE conjE)
    show ?thesis by (rule that [OF r]) (rule conjunct1 [OF bspec [OF bspec [OF all m(1)] m(2)], THEN mp, OF m(3)])
  qed
  have t: "transfer_time example_timetable ! l = 2" if "l < 3" for l
    using that by (auto simp: less_Suc_eq numeral_3_eq_3) (simp_all add: example_timetable_def)
  have short: "b \<noteq> 2 \<and> 7 \<le> d" if w: "b \<noteq> 0" "w < 20" "written_time (Some example_walks) 0 b (link_time example_timetable 0 b (kept_time w)) = Some d"
    "b < 3" for b w d
  proof -
    have "link_time example_timetable 0 b (kept_time w) = max 2 (int w)" using t [of 0] t [OF w(4)] w(2) by (simp add: link_time_def)
    with w show ?thesis by (auto simp: written_time_def example_walks_def max_def split: if_splits)
  qed
  have "graph_ok example_timetable (pre_out there_and_back)"
    using footpath_graph_ok [OF sorts_sort_key ok] by (simp add: g example_3)
  from ways_stay [OF this, of "[0, 1, 2]" 0]
  have less: "b < 3" if "walk (foot_links example_timetable (pre_out there_and_back)) 0 b w" for b w
    using that by (fastforce simp: f c)
  then have "set (pre_out ctx' ! 0) \<subseteq> {\<lparr>fp_target = b, fp_duration = d\<rparr> |b d. b \<noteq> 0 \<and> b \<noteq> 2 \<and> 7 \<le> d}"
  proof (unfold ctx'(2), intro subsetI, elim CollectE exE conjE)
    fix x b d w
    assume x: "x = \<lparr>fp_target = b, fp_duration = d\<rparr>" "b \<noteq> 0" "w < 20"
      "shortest_way (foot_links example_timetable (pre_out there_and_back)) 0 b w"
      "written_time (Some example_walks) 0 b (link_time example_timetable 0 b (kept_time w)) = Some d"
    have "b < 3" by (rule less [OF conjunct1 [OF x(4) [unfolded shortest_way_def]]])
    from short [OF x(2,3,5) this] x(1,2) show "x \<in> {\<lparr>fp_target = b, fp_duration = d\<rparr> |b d. b \<noteq> 0 \<and> b \<noteq> 2 \<and> 7 \<le> d}" by simp
  qed
  with ctx'(1) show ?thesis by blast
qed

end
