(* ===== verification/Tb_Labels.thy ===== *)
theory Tb_Labels
  imports Nigiri_Types
begin

text \<open>
  The labels of the trip-based preprocessing, \<open>reached_line_based\<close> and \<open>reached_reduction\<close> of
  \<open>src/routing/tb/preprocess.cc\<close>: for each traffic day the best time at a stop, kept as entries of a
  time and the set of days it holds for. A set of days is a \<^typ>\<open>bitfield\<close>.
\<close>

unbundle bit_operations_syntax

section \<open>Earliest transport of a line\<close>

record rlb_entry =
  rlb_shift :: int
  rlb_start :: int
  rlb_bf :: bitfield

text \<open>\<open>reached_line_based::update\<close> on the entries of one stop; the days that remain are returned.\<close>

fun line_update :: "int \<Rightarrow> int \<Rightarrow> rlb_entry list \<Rightarrow> bitfield \<Rightarrow> rlb_entry list \<times> bitfield" where
  "line_update shift start [] bf = ([], bf)"
| "line_update shift start (e # es) bf =
     (if bf = 0 then (e # es, bf)
      else if rlb_bf e = 0 then apfst (Cons e) (line_update shift start es bf)
      else if shift < rlb_shift e \<or> shift = rlb_shift e \<and> start < rlb_start e
      then apfst (Cons (e\<lparr>rlb_bf := rlb_bf e AND NOT bf\<rparr>)) (line_update shift start es bf)
      else apfst (Cons e) (line_update shift start es (bf AND NOT (rlb_bf e))))"

definition line_reset :: "nat \<Rightarrow> rlb_entry list list" where
  "line_reset n = replicate n [\<lparr>rlb_shift = 127, rlb_start = 65535, rlb_bf = NOT 0\<rparr>]"

section \<open>Earliest time at a location\<close>

record rr_entry =
  rr_time :: int
  rr_bf :: bitfield

text \<open>The loop of \<open>reached_reduction::update\<close>: the entries, the days that remain, the position of an
  entry of equal time and of one without days. When no day remains the code returns at once, which
  leaves the entries that follow as they are; the positions are not used then.\<close>

fun rr_scan :: "int \<Rightarrow> nat \<Rightarrow> rr_entry list \<Rightarrow> bitfield \<Rightarrow> nat option \<Rightarrow> nat option \<Rightarrow>
    rr_entry list \<times> bitfield \<times> nat option \<times> nat option" where
  "rr_scan t i [] bf same over = ([], bf, same, over)"
| "rr_scan t i (e # es) bf same over =
     (if bf = 0 then (e # es, bf, same, over)
      else
        let e' = (if t < rr_time e then e\<lparr>rr_bf := rr_bf e AND NOT bf\<rparr> else e);
            bf' = (if t < rr_time e then bf else bf AND NOT (rr_bf e));
            same' = (if \<not> t < rr_time e \<and> t = rr_time e then Some i else same);
            over' = (if rr_bf e' = 0 then Some i else over)
        in apfst (Cons e') (rr_scan t (i + 1) es bf' same' over'))"

definition rr_update :: "int \<Rightarrow> bitfield \<Rightarrow> rr_entry list \<Rightarrow> rr_entry list \<times> bitfield" where
  "rr_update t bf es =
     (case rr_scan t 0 es bf None None of (es, bf, same, over) \<Rightarrow>
        (if bf = 0 then es
         else case same of Some i \<Rightarrow> es[i := (es ! i)\<lparr>rr_bf := rr_bf (es ! i) OR bf\<rparr>]
           | None \<Rightarrow> (case over of Some i \<Rightarrow> es[i := \<lparr>rr_time = t, rr_bf = bf\<rparr>]
             | None \<Rightarrow> es @ [\<lparr>rr_time = t, rr_bf = bf\<rparr>]), bf))"

lemma bit_and_not [simp]: "bit (a AND NOT b) d \<longleftrightarrow> bit a d \<and> \<not> bit (b :: bitfield) d"
  using bit_imp_le_length [of a d] by (auto simp: bit_and_iff bit_not_iff)

lemma line_update_subset: "line_update shift start es bf = (es', bf') \<Longrightarrow> bit bf' d \<Longrightarrow> bit bf d"
proof (induction shift start es bf arbitrary: es' bf' rule: line_update.induct)
  case (2 shift start e es bf)
  then show ?case by (cases "line_update shift start es bf"; cases "line_update shift start es (bf AND NOT (rlb_bf e))")
    (auto split: if_splits)
qed simp

lemma rr_scan_subset: "rr_scan t i es bf same over = (es', bf', same', over') \<Longrightarrow> bit bf' d \<Longrightarrow> bit bf d"
proof (induction es arbitrary: i bf same over es')
  case (Cons e es)
  show ?case
  proof (cases "bf = 0")
    case False
    let ?bf = "if t < rr_time e then bf else bf AND NOT (rr_bf e)"
    obtain es1 s v where "rr_scan t (i + 1) es ?bf s v = (es1, bf', same', over')"
      using Cons.prems(1) False by (auto simp: Let_def apfst_def map_prod_def split: prod.splits)
    from Cons.IH [OF this Cons.prems(2)] show ?thesis by (simp split: if_splits)
  qed (use Cons.prems in simp)
qed simp

lemma rr_update_subset: "rr_update t bf es = (es', impr) \<Longrightarrow> bit impr d \<Longrightarrow> bit bf d"
  using rr_scan_subset by (auto simp: rr_update_def split: prod.splits)

section \<open>What the labels mean\<close>

text \<open>The time that holds on day \<open>d\<close>; on each day at most one entry holds.\<close>

fun rr_earliest :: "rr_entry list \<Rightarrow> nat \<Rightarrow> int option" where
  "rr_earliest [] d = None"
| "rr_earliest (e # es) d = (if bit (rr_bf e) d then Some (rr_time e) else rr_earliest es d)"

fun rr_ok :: "rr_entry list \<Rightarrow> bool" where
  "rr_ok [] \<longleftrightarrow> True"
| "rr_ok (e # es) \<longleftrightarrow> (\<forall>d. bit (rr_bf e) d \<longrightarrow> rr_earliest es d = None) \<and> rr_ok es"

definition improves :: "int \<Rightarrow> int option \<Rightarrow> bool" where
  "improves t old \<longleftrightarrow> (case old of None \<Rightarrow> True | Some x \<Rightarrow> t < x)"

lemma bits_empty: "bf = 0 \<longleftrightarrow> (\<forall>d. \<not> bit (bf :: bitfield) d)"
  by (metis bit_0_eq bot_apply bot_bool_def bit_eqI)

lemma rr_earliest_None: "rr_earliest es d = None \<longleftrightarrow> (\<forall>e \<in> set es. \<not> bit (rr_bf e) d)"
  by (induction es) auto

text \<open>What the loop does to each day: days that keep an earlier or equal time are taken from the new
  set, the others lose their later time.\<close>

lemma rr_scan_days:
  assumes "rr_ok es" "rr_scan t i es bf same over = (es', bf', same', over')"
  shows "rr_ok es' \<and> (\<forall>d. (bit bf' d \<longleftrightarrow> bit bf d \<and> improves t (rr_earliest es d)) \<and>
    rr_earliest es' d = (if bit bf' d then None else rr_earliest es d))"
  using assms
proof (induction t i es bf same over arbitrary: es' bf' same' over' rule: rr_scan.induct)
  case (1 t i bf same over)
  then show ?case by (auto simp: improves_def)
next
  case (2 t i e es bf same over)
  show ?case
  proof (cases "bf = 0")
    case True
    then show ?thesis using "2.prems" by (auto simp: bits_empty)
  next
    case False
    let ?e = "if t < rr_time e then e\<lparr>rr_bf := rr_bf e AND NOT bf\<rparr> else e"
    let ?bf = "if t < rr_time e then bf else bf AND NOT (rr_bf e)"
    let ?same = "if \<not> t < rr_time e \<and> t = rr_time e then Some i else same"
    let ?over = "if rr_bf ?e = 0 then Some i else over"
    obtain es1 where es1: "rr_scan t (i + 1) es ?bf ?same ?over = (es1, bf', same', over')" "es' = ?e # es1"
      using "2.prems"(2) False by (auto simp: Let_def apfst_def map_prod_def split: prod.splits)
    have ok: "rr_ok es" "\<And>d. bit (rr_bf e) d \<Longrightarrow> rr_earliest es d = None" using "2.prems"(1) by auto
    from "2.IH" [OF False refl refl refl refl ok(1) es1(1)]
    have IH: "rr_ok es1" "\<And>d. bit bf' d \<longleftrightarrow> bit ?bf d \<and> improves t (rr_earliest es d)"
      "\<And>d. rr_earliest es1 d = (if bit bf' d then None else rr_earliest es d)" by blast+
    show ?thesis
    proof (cases "t < rr_time e")
      case True
      then show ?thesis using IH ok unfolding es1(2) by (auto simp: improves_def)
    next
      case False
      then show ?thesis using IH ok unfolding es1(2) by (auto simp: improves_def)
    qed
  qed
qed

lemma rr_scan_Cons:
  assumes "bf \<noteq> 0" "rr_scan t i (e # es) bf same over = (es', bf', same', over')"
  shows "\<exists>e' es1 bf1. es' = e' # es1 \<and> rr_time e' = rr_time e \<and>
    rr_scan t (i + 1) es bf1 (if rr_time e = t then Some i else same) (if rr_bf e' = 0 then Some i else over) = (es1, bf', same', over')"
proof -
  let ?e = "if t < rr_time e then e\<lparr>rr_bf := rr_bf e AND NOT bf\<rparr> else e"
  let ?bf = "if t < rr_time e then bf else bf AND NOT (rr_bf e)"
  let ?over = "if rr_bf ?e = 0 then Some i else over"
  obtain es1 b s v where r: "rr_scan t (i + 1) es ?bf (if rr_time e = t then Some i else same) ?over = (es1, b, s, v)"
    by (metis prod_cases4)
  have same: "(if \<not> t < rr_time e \<and> t = rr_time e then Some i else same) = (if rr_time e = t then Some i else same)" by auto
  have "es' = ?e # es1" "b = bf'" "s = same'" "v = over'"
    using assms r same by (simp_all add: Let_def)
  with r show ?thesis by (intro exI [of _ ?e] exI [of _ es1] exI [of _ ?bf]) simp
qed

definition positions_ok :: "int \<Rightarrow> nat \<Rightarrow> rr_entry list \<Rightarrow> nat option \<Rightarrow> nat option \<Rightarrow> nat option \<Rightarrow> nat option \<Rightarrow> bool" where
  "positions_ok t i es same over same' over' \<longleftrightarrow>
     (same' = same \<or> (\<exists>n < length es. same' = Some (i + n) \<and> rr_time (es ! n) = t)) \<and>
     (over' = over \<or> (\<exists>n < length es. over' = Some (i + n) \<and> rr_bf (es ! n) = 0))"

lemma rr_scan_positions:
  "rr_scan t i es bf same over = (es', bf', same', over') \<Longrightarrow> length es' = length es \<and> positions_ok t i es' same over same' over'"
proof (induction es arbitrary: i bf same over es')
  case (Cons e es)
  show ?case
  proof (cases "bf = 0")
    case True
    then show ?thesis using Cons.prems by (auto simp: positions_ok_def)
  next
    case False
    from rr_scan_Cons [OF False Cons.prems] obtain e' es1 bf1 where r: "es' = e' # es1" "rr_time e' = rr_time e"
      "rr_scan t (i + 1) es bf1 (if rr_time e = t then Some i else same) (if rr_bf e' = 0 then Some i else over) = (es1, bf', same', over')"
      by blast
    have suc: "(\<exists>n < length (e' # es1). P n) \<longleftrightarrow> P 0 \<or> (\<exists>n < length es1. P (Suc n))" for P
      by (simp add: Ex_less_Suc2)
    from Cons.IH [OF r(3)] show ?thesis
      unfolding positions_ok_def r(1) suc by (auto simp: r(2) split: if_splits)
  qed
qed (simp add: positions_ok_def)

lemma rr_put:
  assumes "rr_ok es" "n < length es" "\<forall>d. bit bf d \<longrightarrow> rr_earliest es d = None"
    and "\<And>d. bit (rr_bf e) d \<longleftrightarrow> bit (rr_bf (es ! n)) d \<or> bit bf d" "rr_time e = t"
    and "\<And>d. bit (rr_bf (es ! n)) d \<Longrightarrow> rr_time (es ! n) = t"
  shows "rr_ok (es[n := e]) \<and> (\<forall>d. rr_earliest (es[n := e]) d = (if bit bf d then Some t else rr_earliest es d))"
  using assms
proof (induction es arbitrary: n)
  case (Cons x es)
  show ?case
  proof (cases n)
    case 0
    then show ?thesis using Cons.prems by (auto split: if_splits)
  next
    case (Suc m)
    have free: "\<forall>d. bit bf d \<longrightarrow> rr_earliest es d = None" "\<And>d. bit bf d \<Longrightarrow> \<not> bit (rr_bf x) d"
      using Cons.prems(3) by (auto split: if_splits)
    have "rr_ok (es[m := e]) \<and> (\<forall>d. rr_earliest (es[m := e]) d = (if bit bf d then Some t else rr_earliest es d))"
      by (rule Cons.IH) (use Cons.prems Suc free(1) in auto)
    with Cons.prems(1) free Suc show ?thesis by auto
  qed
qed simp

lemma rr_append:
  assumes "rr_ok es" "\<forall>d. bit bf d \<longrightarrow> rr_earliest es d = None"
  shows "rr_ok (es @ [\<lparr>rr_time = t, rr_bf = bf\<rparr>]) \<and>
    (\<forall>d. rr_earliest (es @ [\<lparr>rr_time = t, rr_bf = bf\<rparr>]) d = (if bit bf d then Some t else rr_earliest es d))"
  using assms
proof (induction es)
  case (Cons x es)
  have "\<forall>d. bit bf d \<longrightarrow> rr_earliest es d = None" "\<And>d. bit bf d \<Longrightarrow> \<not> bit (rr_bf x) d"
    using Cons.prems(2) by (auto split: if_splits)
  with Cons show ?case by auto
qed simp

text \<open>Property C23. The labels of the transfer reduction refine a table of the earliest time per day: an
  update lowers exactly the days of the given set on which the new time is earlier, and reports
  exactly these days as improved.\<close>

theorem rr_update_refines:
  assumes "rr_ok es" "rr_update t bf es = (es', impr)"
  shows "rr_ok es' \<and> (\<forall>d. (bit impr d \<longleftrightarrow> bit bf d \<and> improves t (rr_earliest es d)) \<and>
    rr_earliest es' d = (if bit impr d then Some t else rr_earliest es d))"
proof -
  obtain es1 bf1 same over where s: "rr_scan t 0 es bf None None = (es1, bf1, same, over)" by (metis prod_cases4)
  note days = rr_scan_days [OF assms(1) s]
  note pos = conjunct2 [OF rr_scan_positions [OF s], unfolded positions_ok_def]
  have impr: "impr = bf1" using assms(2) s by (simp add: rr_update_def)
  show ?thesis
  proof (cases "bf1 = 0")
    case True
    then show ?thesis using assms(2) s days impr by (simp add: rr_update_def)
  next
    case False
    have free: "\<forall>d. bit bf1 d \<longrightarrow> rr_earliest es1 d = None" using days by simp
    have "\<exists>es2. es' = es2 \<and> rr_ok es2 \<and> (\<forall>d. rr_earliest es2 d = (if bit bf1 d then Some t else rr_earliest es1 d))"
    proof (cases same)
      case (Some n)
      then have n: "n < length es1" "rr_time (es1 ! n) = t" using pos by auto
      let ?e = "(es1 ! n)\<lparr>rr_bf := rr_bf (es1 ! n) OR bf1\<rparr>"
      have "es' = es1[n := ?e]" using assms(2) s Some False by (auto simp: rr_update_def)
      moreover have "rr_ok (es1[n := ?e]) \<and> (\<forall>d. rr_earliest (es1[n := ?e]) d = (if bit bf1 d then Some t else rr_earliest es1 d))"
        by (rule rr_put [OF _ n(1) free]) (use days n(2) in \<open>auto simp: bit_or_iff\<close>)
      ultimately show ?thesis by blast
    next
      case none: None
      show ?thesis
      proof (cases over)
        case (Some n)
        then have n: "n < length es1" "rr_bf (es1 ! n) = 0" using pos by auto
        let ?e = "\<lparr>rr_time = t, rr_bf = bf1\<rparr>"
        have "es' = es1[n := ?e]" using assms(2) s Some none False by (auto simp: rr_update_def)
        moreover have "rr_ok (es1[n := ?e]) \<and> (\<forall>d. rr_earliest (es1[n := ?e]) d = (if bit bf1 d then Some t else rr_earliest es1 d))"
          by (rule rr_put [OF _ n(1) free]) (use days n(2) in auto)
        ultimately show ?thesis by blast
      next
        case None
        have "es' = es1 @ [\<lparr>rr_time = t, rr_bf = bf1\<rparr>]" using assms(2) s None none False by (auto simp: rr_update_def)
        with rr_append [OF _ free] days show ?thesis by auto
      qed
    qed
    with days show ?thesis unfolding impr by auto
  qed
qed

definition example_labels :: "rr_entry list" where
  "example_labels = [\<lparr>rr_time = 600, rr_bf = 5\<rparr>, \<lparr>rr_time = 500, rr_bf = 2\<rparr>]"

theorem rr_update_refines_witness: "rr_ok (fst (rr_update 550 7 example_labels))"
proof -
  have ok: "rr_ok example_labels"
  proof -
    have "\<not> (bit (5 :: bitfield) d \<and> bit (2 :: bitfield) d)" for d
    proof -
      have "(5 :: bitfield) AND 2 = 0" by simp
      then have "bit ((5 :: bitfield) AND 2) d = False" by simp
      then show ?thesis by (simp only: bit_and_iff) blast
    qed
    then show ?thesis by (auto simp: example_labels_def)
  qed
  show ?thesis using rr_update_refines [OF ok, of 550 7] by (metis prod.collapse)
qed

end
