(* ===== verification/Tb_Preprocess.thy ===== *)
theory Tb_Preprocess
  imports Tb_Labels Timetable
begin

text \<open>
  The preprocessing of the trip-based search, \<open>src/routing/tb/preprocess.cc\<close>: for each segment of a
  transport (a ride from one stop to the next) the transfers to later transports, as the code finds
  them per line and reduces them afterwards, and \<open>tb_data.h\<close>, their representation. \<open>srt\<close> is
  \<open>std::sort\<close> on the neighborhood of a route, whose order does not decide between equal transfers of
  different length. Counters are left out. The code computes routes in parallel and collects them in
  order, as the model does.
\<close>

unbundle bit_operations_syntax

section \<open>Transfers between routes\<close>

record route_transfer =
  rtr_from :: nat
  rtr_route :: nat
  rtr_to :: nat
  rtr_length :: int

abbreviation seq_stop :: "timetable \<Rightarrow> nat \<Rightarrow> nat \<Rightarrow> stop" where
  "seq_stop tt r i \<equiv> stop_of_value (route_location_seq tt ! r ! i)"

abbreviation seq_length :: "timetable \<Rightarrow> nat \<Rightarrow> nat" where
  "seq_length tt r \<equiv> length (route_location_seq tt ! r)"

definition is_uturn :: "timetable \<Rightarrow> stop \<Rightarrow> footpath \<Rightarrow> nat \<Rightarrow> nat \<Rightarrow> bool" where
  "is_uturn tt prev fp r j =
     (let next_stop = seq_stop tt r (j + 1); terminates = (j + 1 = seq_length tt r - 1)
      in stop_loc prev = stop_loc next_stop \<and> stop_out prev \<and>
         (terminates \<or> stop_in next_stop \<and> transfer_time tt ! stop_loc prev \<le> fp_duration fp))"

definition add_non_uturn_transfers :: "timetable \<Rightarrow> nat \<Rightarrow> nat \<Rightarrow> footpath \<Rightarrow> route_transfer list" where
  "add_non_uturn_transfers tt route_from from_stop_idx fp =
     concat (map (\<lambda>route_to.
       map (\<lambda>j. \<lparr>rtr_from = from_stop_idx, rtr_route = route_to, rtr_to = j, rtr_length = fp_duration fp\<rparr>)
         (filter (\<lambda>j. stop_loc (seq_stop tt route_to j) = fp_target fp \<and> stop_in (seq_stop tt route_to j) \<and>
             \<not> is_uturn tt (seq_stop tt route_from (from_stop_idx - 1)) fp route_to j)
           [0..<seq_length tt route_to - 1])) (location_routes tt ! fp_target fp))"

definition get_route_neighborhood ::
    "(route_transfer list \<Rightarrow> route_transfer list) \<Rightarrow> timetable \<Rightarrow> nat \<Rightarrow> nat \<Rightarrow> route_transfer list" where
  "get_route_neighborhood srt tt route_from prf_idx =
     srt (concat (map (\<lambda>i.
       if \<not> stop_out (seq_stop tt route_from i) then []
       else
         let from_l = stop_loc (seq_stop tt route_from i)
         in add_non_uturn_transfers tt route_from i \<lparr>fp_target = from_l, fp_duration = transfer_time tt ! from_l\<rparr> @
            concat (map (add_non_uturn_transfers tt route_from i) (footpaths_out tt ! prf_idx ! from_l)))
       (rev [1..<seq_length tt route_from])))"

section \<open>Line-based pruning\<close>

record expanded_transfer =
  xt_bf :: bitfield
  xt_transport :: nat
  xt_stop :: nat
  xt_day_offset :: int

definition kMaxTransferTime :: int where "kMaxTransferTime = 1440"

definition shift_days :: "int \<Rightarrow> bitfield \<Rightarrow> bitfield" where
  "shift_days shift bf = (if shift < 0 then drop_bit (nat (- shift)) bf else push_bit (nat shift) bf)"

text \<open>The departures from the first candidate on: the rest of the day, then from the start of the next
  day. The break on the transfer time ends the loop on the second following day at the latest.\<close>

definition departures :: "int \<Rightarrow> nat \<Rightarrow> nat \<Rightarrow> (int \<times> nat) list" where
  "departures day k n = map (Pair day) [k..<n] @ map (Pair (day + 1)) [0..<n] @ map (Pair (day + 2)) [0..<n]"

type_synonym line_state = "bitfield \<times> rlb_entry list list \<times> expanded_transfer list list"

definition line_reach ::
    "nat \<Rightarrow> nat \<Rightarrow> int \<Rightarrow> int \<Rightarrow> bitfield \<Rightarrow> rlb_entry list list \<Rightarrow> rlb_entry list list" where
  "line_reach n to_idx shift start common reached =
     fold (\<lambda>j reached.
         case line_update shift start (reached ! j) common of (es, improvement) \<Rightarrow>
           reached[j := if improvement \<noteq> 0
             then es @ [\<lparr>rlb_shift = shift, rlb_start = start, rlb_bf = improvement\<rparr>] else es])
       [to_idx + 1..<n]
       (reached[to_idx := reached ! to_idx @ [\<lparr>rlb_shift = shift, rlb_start = start, rlb_bf = common\<rparr>]])"

definition line_step ::
    "timetable \<Rightarrow> delta \<Rightarrow> route_transfer \<Rightarrow> delta list \<Rightarrow> int \<times> nat \<Rightarrow> line_state \<Rightarrow> bool \<times> line_state" where
  "line_step tt arr nb evs p st =
     (case p of (day, k) \<Rightarrow> case st of (remaining, reached, segs) \<Rightarrow>
        let ev = evs ! k; dep = u16 (day * 1440 + mam ev)
        in if remaining = 0 \<or> dep - mam arr > kMaxTransferTime then (False, st)
           else
             let u = iv_nth (route_transport_ranges tt ! rtr_route nb) k;
                 u_days = bitfields tt ! (transport_traffic_days tt ! u);
                 common = remaining AND shift_days (i8 (days ev - days arr - day)) u_days
             in if common = 0 then (True, st)
                else
                  let remaining = remaining AND NOT common;
                      day_offset = i8 (days arr + day - days ev); start = mam (event_mam tt u 0 Dep);
                      (es, common) = line_update day_offset start (reached ! rtr_to nb) common;
                      reached = reached[rtr_to nb := es]
                  in (True, if common = 0 then (remaining, reached, segs)
                      else (remaining, line_reach (seq_length tt (rtr_route nb)) (rtr_to nb) day_offset start common reached,
                        segs[rtr_from nb - 1 := segs ! (rtr_from nb - 1) @
                          [\<lparr>xt_bf = common, xt_transport = u, xt_stop = rtr_to nb, xt_day_offset = day_offset\<rparr>]])))"

definition line_neighbor ::
    "timetable \<Rightarrow> nat \<Rightarrow> route_transfer \<Rightarrow> nat \<times> rlb_entry list list \<times> expanded_transfer list list \<Rightarrow>
      nat \<times> rlb_entry list list \<times> expanded_transfer list list" where
  "line_neighbor tt t nb st =
     (case st of (prev, reached, segs) \<Rightarrow>
        let reached = (if prev \<noteq> rtr_route nb then line_reset (seq_length tt (rtr_route nb)) else reached);
            arr = event_mam tt t (rtr_from nb) Arr; fp_arr = u16 (mam arr + rtr_length nb);
            evs = et_list (event_times_at_stop tt (rtr_route nb) (rtr_to nb) Dep);
            k = length (takeWhile (\<lambda>x. mam x < fp_arr mod 1440) evs); day = i8 (fp_arr div 1440);
            (day, k) = (if k = length evs then (i8 (day + 1), 0) else (day, k));
            (_, reached, segs) = for_break (line_step tt arr nb evs) (departures day k (length evs))
              (bitfields tt ! (transport_traffic_days tt ! t), reached, segs)
        in (rtr_route nb, reached, segs))"

section \<open>Transfer reduction\<close>

type_synonym rr_table = "nat \<Rightarrow> rr_entry list"

definition rr_visit ::
    "nat \<Rightarrow> int \<Rightarrow> int \<Rightarrow> bitfield \<Rightarrow> rr_table \<times> rr_table \<times> bitfield \<Rightarrow> rr_table \<times> rr_table \<times> bitfield" where
  "rr_visit l t_arr t_ch bf st =
     (case st of (arr, ch, improvement) \<Rightarrow>
        case rr_update (u16 t_arr) bf (arr l) of (es_arr, i) \<Rightarrow>
        case rr_update (u16 t_ch) bf (ch l) of (es_ch, j) \<Rightarrow>
          (arr(l := es_arr), ch(l := es_ch), improvement OR i OR j))"

definition visit_stop ::
    "timetable \<Rightarrow> nat \<Rightarrow> nat \<Rightarrow> int \<Rightarrow> bitfield \<Rightarrow> rr_table \<times> rr_table \<times> bitfield \<Rightarrow> rr_table \<times> rr_table \<times> bitfield" where
  "visit_stop tt prf l t bf st =
     fold (\<lambda>fp. rr_visit (fp_target fp) (t + fp_duration fp) (t + fp_duration fp) bf) (footpaths_out tt ! prf ! l)
       (rr_visit l t (t + transfer_time tt ! l) bf st)"

text \<open>After the transfer, every later stop of the transport; the code takes the footpaths of the
  default profile here.\<close>

definition transfer_improvement ::
    "timetable \<Rightarrow> expanded_transfer \<Rightarrow> rr_table \<times> rr_table \<Rightarrow> rr_table \<times> rr_table \<times> bitfield" where
  "transfer_improvement tt x st =
     (let u = xt_transport x; r = transport_route tt ! u
      in fold (\<lambda>i. visit_stop tt 0 (stop_loc (seq_stop tt r i))
             (u16 (xt_day_offset x * 1440 + delta_count (event_mam tt u i Arr))) (xt_bf x))
           [xt_stop x + 1..<seq_length tt r] (fst st, snd st, 0))"

definition reduce_transfer ::
    "timetable \<Rightarrow> expanded_transfer \<Rightarrow> rr_table \<times> rr_table \<times> expanded_transfer list \<Rightarrow>
      rr_table \<times> rr_table \<times> expanded_transfer list" where
  "reduce_transfer tt x st =
     (case st of (arr, ch, kept) \<Rightarrow>
        case transfer_improvement tt x (arr, ch) of (arr, ch, improvement) \<Rightarrow>
          (arr, ch, if improvement = 0 then kept else kept @ [x\<lparr>xt_bf := improvement\<rparr>]))"

definition reduce_stop ::
    "timetable \<Rightarrow> nat \<Rightarrow> nat \<Rightarrow> nat \<Rightarrow> rr_table \<times> rr_table \<times> expanded_transfer list list \<Rightarrow>
      rr_table \<times> rr_table \<times> expanded_transfer list list" where
  "reduce_stop tt prf_idx t i st =
     (case st of (arr, ch, segs) \<Rightarrow>
        let r = transport_route tt ! t
        in if \<not> stop_out (seq_stop tt r i) then st
           else
             case visit_stop tt prf_idx (stop_loc (seq_stop tt r i)) (u16 (delta_count (event_mam tt t i Arr)))
                 (bitfields tt ! (transport_traffic_days tt ! t)) (arr, ch, 0) of (arr, ch, _) \<Rightarrow>
             case fold (reduce_transfer tt) (segs ! (i - 1)) (arr, ch, []) of (arr, ch, kept) \<Rightarrow>
               (arr, ch, segs[i - 1 := kept]))"

definition preprocess_transport ::
    "timetable \<Rightarrow> nat \<Rightarrow> route_transfer list \<Rightarrow> nat \<Rightarrow> expanded_transfer list list \<Rightarrow> expanded_transfer list list" where
  "preprocess_transport tt prf_idx neighborhood t segs =
     (let r0 = rtr_route (hd neighborhood); n = seq_length tt (transport_route tt ! t);
          (_, _, segs) = fold (line_neighbor tt t) neighborhood (r0, line_reset (seq_length tt r0), segs);
          (_, _, segs) = fold (reduce_stop tt prf_idx t) (map (\<lambda>j. n - j - 1) [0..<n - 1]) (\<lambda>_. [], \<lambda>_. [], segs)
      in segs)"

definition preprocess_route ::
    "(route_transfer list \<Rightarrow> route_transfer list) \<Rightarrow> timetable \<Rightarrow> nat \<Rightarrow> nat \<Rightarrow> expanded_transfer list list list" where
  "preprocess_route srt tt prf_idx r =
     (let segs = replicate (seq_length tt r - 1) []; neighborhood = get_route_neighborhood srt tt r prf_idx
      in map (\<lambda>t. if neighborhood = [] then segs else preprocess_transport tt prf_idx neighborhood t segs)
           (iv_list (route_transport_ranges tt ! r)))"

section \<open>The result\<close>

record tb_transfer =
  to_segment :: nat
  tr_traffic_days :: nat
  tr_route :: nat
  transport_offset :: nat
  to_segment_offset :: nat
  day_offset_bits :: int

text \<open>\<open>None\<close>: the day offset does not fit its four bits.\<close>

definition set_day_offset :: "int \<Rightarrow> tb_transfer \<Rightarrow> tb_transfer option" where
  "set_day_offset o' x = (if - 8 \<le> o' \<and> o' < 8 then Some (x\<lparr>day_offset_bits := (o' + 8) mod 2 ^ 4\<rparr>) else None)"

definition get_day_offset :: "tb_transfer \<Rightarrow> int" where
  "get_day_offset x = i8 (day_offset_bits x) - 8"

record tb_data =
  tb_prf_idx :: nat
  transport_first_segment :: "nat list"
  segment_transfers :: "tb_transfer list list"
  segment_transports :: "nat list"
  tb_bitfields :: "bitfield list"

definition get_segment_range :: "tb_data \<Rightarrow> nat \<Rightarrow> nat interval" where
  "get_segment_range d t = mk_iv (transport_first_segment d ! t) (transport_first_segment d ! (t + 1))"

definition get_or_create_bf :: "bitfield \<Rightarrow> bitfield list \<Rightarrow> nat \<times> bitfield list" where
  "get_or_create_bf bf bfs =
     (let i = length (takeWhile (\<lambda>x. x \<noteq> bf) bfs) in (i, if i = length bfs then bfs @ [bf] else bfs))"

definition allocate_transport :: "nat \<Rightarrow> nat \<Rightarrow> nat \<times> nat list \<times> nat list \<Rightarrow> nat \<times> nat list \<times> nat list" where
  "allocate_transport n t st =
     (case st of (start, first, transports) \<Rightarrow> (start + (n - 1), first @ [start], transports @ replicate (n - 1) t))"

definition allocate :: "timetable \<Rightarrow> nat list \<times> nat list" where
  "allocate tt =
     (case fold (\<lambda>r. fold (allocate_transport (seq_length tt r)) (iv_list (route_transport_ranges tt ! r)))
          [0..<n_routes tt] (0, [], []) of (start, first, transports) \<Rightarrow> (first @ [start], transports))"

definition convert_transfer ::
    "timetable \<Rightarrow> nat list \<Rightarrow> expanded_transfer \<Rightarrow> bitfield list \<times> tb_transfer list \<Rightarrow> (bitfield list \<times> tb_transfer list) option" where
  "convert_transfer tt first x st =
     (case st of (bfs, dst) \<Rightarrow>
        case get_or_create_bf (xt_bf x) bfs of (i, bfs) \<Rightarrow>
          let r = transport_route tt ! xt_transport x
          in map_option (\<lambda>y. (bfs, dst @ [y])) (set_day_offset (xt_day_offset x)
               \<lparr>to_segment = first ! xt_transport x + xt_stop x, tr_traffic_days = i, tr_route = r,
                transport_offset = (xt_transport x - ifrom (route_transport_ranges tt ! r)) mod 2 ^ 16,
                to_segment_offset = xt_stop x mod 2 ^ 12, day_offset_bits = 0\<rparr>))"

definition convert_segment ::
    "timetable \<Rightarrow> nat list \<Rightarrow> expanded_transfer list \<Rightarrow> bitfield list \<times> tb_transfer list list \<Rightarrow>
      (bitfield list \<times> tb_transfer list list) option" where
  "convert_segment tt first src st =
     (case st of (bfs, segs) \<Rightarrow>
        map_option (\<lambda>(bfs, dst). (bfs, segs @ [dst])) (fold_opt (convert_transfer tt first) src (bfs, [])))"

definition preprocess ::
    "(route_transfer list \<Rightarrow> route_transfer list) \<Rightarrow> timetable \<Rightarrow> nat \<Rightarrow> tb_data option" where
  "preprocess srt tt prf_idx =
     (case allocate tt of (first, transports) \<Rightarrow>
        map_option (\<lambda>(bfs, segs). \<lparr>tb_prf_idx = prf_idx, transport_first_segment = first, segment_transfers = segs,
            segment_transports = transports, tb_bitfields = bfs\<rparr>)
          (fold_opt (convert_segment tt first) (concat (concat (map (preprocess_route srt tt prf_idx) [0..<n_routes tt]))) ([], [])))"

end
