(* ===== verification/Tb_Query.thy ===== *)
theory Tb_Query
  imports Tb_Preprocess Search
begin

text \<open>
  The trip-based search, \<open>src/routing/tb/query_engine.cc\<close> with \<open>reached.h\<close>, \<open>queue.h\<close>,
  \<open>query_engine.h\<close> and \<open>settings.h\<close> of \<open>include/nigiri/routing/tb/\<close>, and the departure it starts
  with, \<open>routing/get_earliest_transport.h\<close>. Statistics and debug output are left out.
\<close>

unbundle bit_operations_syntax

section \<open>The first transport after a time\<close>

text \<open>The template of \<open>get_earliest_transport.h\<close> on the timetable's traffic days; \<open>worse\<close> is
  \<open>worse_than_dest\<close>. The outer option of \<open>et_day\<close> tells whether the loop returned.\<close>

definition et_offset :: "direction \<Rightarrow> nat \<Rightarrow> nat \<Rightarrow> nat" where
  "et_offset sd n pos = (if sd = Forward then pos else n - 1 - pos)"

fun et_day :: "direction \<Rightarrow> timetable \<Rightarrow> nat \<Rightarrow> delta list \<Rightarrow> nat \<Rightarrow> nat \<Rightarrow> int \<Rightarrow> (nat \<Rightarrow> int \<Rightarrow> bool)
    \<Rightarrow> nat list \<Rightarrow> transport option option" where
  "et_day sd tt r evs i day mam_at_stop worse [] = None"
| "et_day sd tt r evs i day mam_at_stop worse (pos # ps) =
     (let t_offset = et_offset sd (length evs) pos; ev = evs ! t_offset;
          t = iv_nth (route_transport_ranges tt ! r) t_offset;
          start_day = nat (u16 (int day - days ev))
      in if worse day (mam ev) then Some None
         else if i = 0 \<and> \<not> is_better_or_eq sd mam_at_stop (mam ev)
           then et_day sd tt r evs i day mam_at_stop worse ps
         else if \<not> is_transport_active tt t start_day then et_day sd tt r evs i day mam_at_stop worse ps
         else Some (Some \<lparr>t_idx = t, t_day = start_day\<rparr>))"

fun et_days :: "direction \<Rightarrow> timetable \<Rightarrow> nat \<Rightarrow> delta list \<Rightarrow> nat \<Rightarrow> int \<Rightarrow> (nat \<Rightarrow> int \<Rightarrow> bool)
    \<Rightarrow> nat list \<Rightarrow> transport option" where
  "et_days sd tt r evs day_at_stop mam_at_stop worse [] = None"
| "et_days sd tt r evs day_at_stop mam_at_stop worse (i # is) =
     (let n = length evs;
          first = (if i = 0 then length (takeWhile (\<lambda>pos. is_better sd (mam (evs ! et_offset sd n pos)) mam_at_stop) [0..<n])
            else 0);
          day = nat (u16 (if sd = Forward then int day_at_stop + int i else int day_at_stop - int i))
      in case et_day sd tt r evs i day mam_at_stop worse [first..<n] of
           Some res \<Rightarrow> res
         | None \<Rightarrow> et_days sd tt r evs day_at_stop mam_at_stop worse is)"

definition tt_earliest_transport ::
    "direction \<Rightarrow> timetable \<Rightarrow> nat \<Rightarrow> nat \<Rightarrow> nat \<Rightarrow> int \<Rightarrow> (nat \<Rightarrow> int \<Rightarrow> bool) \<Rightarrow> transport option" where
  "tt_earliest_transport sd tt r stop_idx day_at_stop mam_at_stop worse =
     et_days sd tt r (et_list (event_times_at_stop tt r stop_idx (if sd = Forward then Dep else Arr)))
       day_at_stop mam_at_stop worse [0..<2]"

section \<open>Reached segments\<close>

record reached_entry =
  re_transport :: int
  re_segment_offset :: nat
  re_k :: nat

definition to_transport :: "nat \<Rightarrow> int \<Rightarrow> int" where
  "to_transport t_offset query_day_offset =
     or (u16 (push_bit 12 query_day_offset)) (int t_offset)"

definition re_dominates :: "reached_entry \<Rightarrow> reached_entry \<Rightarrow> bool" where
  "re_dominates e o' \<longleftrightarrow> re_k e \<le> re_k o' \<and> re_transport e \<le> re_transport o' \<and> re_segment_offset e \<le> re_segment_offset o'"

definition reached_update ::
    "nat \<Rightarrow> nat \<Rightarrow> nat \<Rightarrow> int \<Rightarrow> nat \<Rightarrow> reached_entry list list \<Rightarrow> reached_entry list list" where
  "reached_update r t_offset segment_offset query_day_offset k d =
     d[r := fst (pareto_add re_dominates (d ! r)
       \<lparr>re_transport = to_transport t_offset query_day_offset,
        re_segment_offset = segment_offset mod 2 ^ 12, re_k = k mod 2 ^ 4\<rparr>)]"

definition reached_query ::
    "timetable \<Rightarrow> nat \<Rightarrow> nat \<Rightarrow> int \<Rightarrow> nat \<Rightarrow> reached_entry list list \<Rightarrow> nat" where
  "reached_query tt r t_offset query_day_offset k d =
     fold (\<lambda>re min_segment. if re_k re \<le> k \<and> re_transport re \<le> to_transport t_offset query_day_offset \<and>
         re_segment_offset re < min_segment then re_segment_offset re else min_segment)
       (d ! r) (nat (u16 (int (seq_length tt r) - 1)))"

section \<open>The queue\<close>

definition kNoParent :: nat where "kNoParent = 134217727"

definition kTBMaxDayOffset :: int where "kTBMaxDayOffset = 5 + 3"

record queue_entry =
  qe_segments :: "nat interval"
  qe_parent :: nat
  qe_day_offset :: nat

definition mk_entry :: "nat interval \<Rightarrow> nat \<Rightarrow> int \<Rightarrow> queue_entry" where
  "mk_entry segments p day_offset =
     \<lparr>qe_segments = segments, qe_parent = p mod 2 ^ 27, qe_day_offset = nat (day_offset mod 2 ^ 5)\<rparr>"

type_synonym tb_queue = "reached_entry list list \<times> queue_entry list"

definition enqueue :: "timetable \<Rightarrow> tb_transfer \<Rightarrow> nat \<Rightarrow> nat \<Rightarrow> tb_queue \<Rightarrow> tb_queue" where
  "enqueue tt x p k st =
     (case st of (r, q) \<Rightarrow>
        let day_offset = int (qe_day_offset (q ! p)) + get_day_offset x
        in if day_offset \<le> 0 \<or> day_offset \<ge> kTBMaxDayOffset then st
           else
             let min_segment_offset = reached_query tt (tr_route x) (transport_offset x) day_offset k r
             in if to_segment_offset x \<ge> min_segment_offset then st
                else (reached_update (tr_route x) (transport_offset x) (to_segment_offset x) day_offset k r,
                  q @ [mk_entry (mk_iv (to_segment x) (to_segment x - to_segment_offset x + min_segment_offset)) p day_offset]))"

definition initial_enqueue ::
    "timetable \<Rightarrow> nat \<Rightarrow> nat \<Rightarrow> nat \<Rightarrow> nat \<Rightarrow> int \<Rightarrow> tb_queue \<Rightarrow> tb_queue" where
  "initial_enqueue tt first_segment segment r t query_day_offset st =
     (case st of (rs, q) \<Rightarrow>
        let t_offset = (t - ifrom (route_transport_ranges tt ! r)) mod 2 ^ 16;
            min_segment_offset = reached_query tt r t_offset query_day_offset 0 rs;
            segment_offset = (segment - first_segment) mod 2 ^ 16
        in if segment_offset \<ge> min_segment_offset then st
           else (reached_update r t_offset segment_offset query_day_offset 0 rs,
             q @ [mk_entry (mk_iv segment (first_segment + min_segment_offset)) kNoParent query_day_offset]))"

section \<open>The engine\<close>

text \<open>What the engine is constructed with; \<open>te_base\<close> is the member, already shifted.\<close>

record tb_engine =
  te_tt :: timetable
  te_data :: tb_data
  te_use_lb :: bool
  te_is_dest :: "bool list"
  te_dist_to_dest :: "nat list"
  te_lb :: "nat list"
  te_base :: nat

record tb_state =
  tq_reached :: "reached_entry list list"
  tq_queue :: "queue_entry list"
  t_min :: "int list"
  tq_parent :: "nat list"
  tq_end_reachable :: "bool list"
  tq_dist :: "nat \<Rightarrow> int option"

definition kUnixtimeMax :: int where "kUnixtimeMax = 2147483647"

definition query_day_shift :: "nat \<Rightarrow> nat" where
  "query_day_shift b = nat (u16 (int b - 5))"

definition entry_day :: "tb_engine \<Rightarrow> queue_entry \<Rightarrow> nat" where
  "entry_day c e = nat (u16 (int (te_base c) + int (qe_day_offset e)))"

text \<open>\<open>query_state\<close> and its \<open>reset\<close>, which keeps the distances and the arrival times.\<close>

definition mk_query_state :: "timetable \<Rightarrow> tb_data \<Rightarrow> tb_state" where
  "mk_query_state tt d =
     \<lparr>tq_reached = replicate (n_routes tt) [], tq_queue = [], t_min = replicate (kMaxTransfers + 1) kUnixtimeMax,
      tq_parent = replicate (kMaxTransfers + 1) 0, tq_end_reachable = replicate (length (segment_transfers d)) False,
      tq_dist = (\<lambda>_. None)\<rparr>"

definition query_state_reset :: "timetable \<Rightarrow> tb_state \<Rightarrow> tb_state" where
  "query_state_reset tt s =
     s\<lparr>tq_parent := replicate (kMaxTransfers + 1) kNoParent,
       tq_reached := map (\<lambda>_. []) (tq_reached s), tq_queue := [],
       tq_end_reachable := map (\<lambda>_. False) (tq_end_reachable s)\<rparr>"

definition mark_segment :: "tb_data \<Rightarrow> nat \<Rightarrow> int \<Rightarrow> nat \<Rightarrow> tb_state \<Rightarrow> tb_state" where
  "mark_segment d i w t s =
     (let segment = transport_first_segment d ! t + i - 1
      in s\<lparr>tq_end_reachable := (tq_end_reachable s)[segment := True],
           tq_dist := (tq_dist s)(segment \<mapsto> (case tq_dist s segment of None \<Rightarrow> w | Some w' \<Rightarrow> min w' w))\<rparr>)"

definition mark_dest_segments :: "timetable \<Rightarrow> tb_data \<Rightarrow> nat \<Rightarrow> int \<Rightarrow> tb_state \<Rightarrow> tb_state" where
  "mark_dest_segments tt d l w =
     fold (\<lambda>r. fold (\<lambda>i s.
         if stop_loc (seq_stop tt r i) \<noteq> l \<or> \<not> stop_out (seq_stop tt r i) then s
         else fold (mark_segment d i w) (iv_list (route_transport_ranges tt ! r)) s)
       [1..<seq_length tt r]) (location_routes tt ! l)"

definition tb_construct :: "tb_engine \<Rightarrow> tb_state \<Rightarrow> tb_state" where
  "tb_construct c s =
     (let tt = te_tt c; d = te_data c; s = query_state_reset tt s
      in if te_dist_to_dest c = []
         then fold (\<lambda>l s. fold (\<lambda>fp. mark_dest_segments tt d (fp_target fp) (fp_duration fp))
                (footpaths_in tt ! tb_prf_idx d ! l) (mark_dest_segments tt d l 0 s))
              (filter (\<lambda>l. te_is_dest c ! l) [0..<length (te_is_dest c)]) s
         else fold (\<lambda>(l, dist) s. if dist \<noteq> kUnreachable then mark_dest_segments tt d l (i16 (int dist)) s else s)
              (List.enumerate 0 (te_dist_to_dest c)) s)"

definition tb_reset_arrivals :: "tb_engine \<Rightarrow> tb_state \<Rightarrow> tb_state" where
  "tb_reset_arrivals c s =
     s\<lparr>tq_reached := map (\<lambda>_. []) (tq_reached s),
       t_min := replicate (kMaxTransfers + 1) kUnixtimeMax,
       tq_parent := replicate (kMaxTransfers + 1) kNoParent\<rparr>"

definition tb_next_start_time :: "tb_state \<Rightarrow> tb_state" where
  "tb_next_start_time s = s\<lparr>tq_queue := []\<rparr>"

definition with_queue :: "(tb_queue \<Rightarrow> tb_queue) \<Rightarrow> tb_state \<Rightarrow> tb_state" where
  "with_queue f s = (case f (tq_reached s, tq_queue s) of (r, q) \<Rightarrow> s\<lparr>tq_reached := r, tq_queue := q\<rparr>)"

text \<open>One stop of a route at which the start location is served.\<close>

definition start_at_stop :: "tb_engine \<Rightarrow> nat \<Rightarrow> nat \<Rightarrow> int \<Rightarrow> nat \<Rightarrow> nat \<Rightarrow> tb_state \<Rightarrow> tb_state" where
  "start_at_stop c l day m r i s =
     (let tt = te_tt c
      in if \<not> stop_in (seq_stop tt r i) \<or> stop_loc (seq_stop tt r i) \<noteq> l then s
         else case tt_earliest_transport Forward tt r i day m (\<lambda>_ _. False) of
                None \<Rightarrow> s
              | Some et \<Rightarrow>
                  let query_day_offset = int (t_day et) - int (te_base c);
                      first = transport_first_segment (te_data c) ! t_idx et
                  in if query_day_offset < 0 \<or> query_day_offset \<ge> kTBMaxDayOffset then s
                     else with_queue (initial_enqueue tt first (first + i) r (t_idx et) query_day_offset) s)"

definition tb_add_start :: "tb_engine \<Rightarrow> nat \<Rightarrow> int \<Rightarrow> nat \<Rightarrow> tb_state \<Rightarrow> tb_state" where
  "tb_add_start c l t v =
     (case day_idx_mam (te_tt c) t of (day, m) \<Rightarrow>
        fold (\<lambda>r. fold (start_at_stop c l day m r) [0..<seq_length (te_tt c) r - 1]) (location_routes (te_tt c) ! l))"

section \<open>A round\<close>

text \<open>The transport of a segment and the stop the segment ends at.\<close>

definition segment_transport :: "tb_engine \<Rightarrow> nat \<Rightarrow> nat" where
  "segment_transport c segment = segment_transports (te_data c) ! segment"

definition segment_stop :: "tb_engine \<Rightarrow> nat \<Rightarrow> nat" where
  "segment_stop c segment = (segment - transport_first_segment (te_data c) ! segment_transport c segment + 1) mod 2 ^ 16"

definition segment_arrival :: "tb_engine \<Rightarrow> nat \<Rightarrow> queue_entry \<Rightarrow> int" where
  "segment_arrival c segment e =
     event_time (te_tt c) \<lparr>t_idx = segment_transport c segment, t_day = entry_day c e\<rparr> (segment_stop c segment) Arr"

definition improve_t_min :: "nat \<Rightarrow> nat \<Rightarrow> int \<Rightarrow> nat \<Rightarrow> tb_state \<Rightarrow> tb_state" where
  "improve_t_min k q arr j s =
     (if t_min s ! j > arr
      then (let s = s\<lparr>t_min := (t_min s)[j := arr]\<rparr> in if j = k then s\<lparr>tq_parent := (tq_parent s)[j := q]\<rparr> else s)
      else s)"

definition seg_dest :: "tb_engine \<Rightarrow> nat \<Rightarrow> nat \<Rightarrow> tb_state \<Rightarrow> tb_state" where
  "seg_dest c k q s =
     (let e = tq_queue s ! q
      in fold (\<lambda>segment s.
           if \<not> tq_end_reachable s ! segment then s
           else fold (improve_t_min k q (segment_arrival c segment e + the (tq_dist s segment))) [k..<length (t_min s)] s)
         (iv_list (qe_segments e)) s)"

definition seg_prune :: "tb_engine \<Rightarrow> nat \<Rightarrow> nat \<Rightarrow> tb_state \<Rightarrow> tb_state" where
  "seg_prune c k q s =
     (let tt = te_tt c; e = tq_queue s ! q; segment = ifrom (qe_segments e);
          l = stop_loc (seq_stop tt (transport_route tt ! segment_transport c segment) (segment_stop c segment));
          arr_time = segment_arrival c segment e + (if te_use_lb c then i16 (int (te_lb c ! l)) else 0)
      in if arr_time > t_min s ! (k + 1)
         then s\<lparr>tq_queue := (tq_queue s)[q := e\<lparr>qe_segments := mk_iv segment segment\<rparr>]\<rparr> else s)"

definition seg_transfers :: "tb_engine \<Rightarrow> nat \<Rightarrow> nat \<Rightarrow> tb_state \<Rightarrow> tb_state" where
  "seg_transfers c k q s =
     (let d = te_data c; e = tq_queue s ! q
      in fold (\<lambda>x s. if bit (tb_bitfields d ! tr_traffic_days x) (entry_day c e)
             then with_queue (enqueue (te_tt c) x q (k + 1)) s else s)
           (concat (map ((!) (segment_transfers d)) (iv_list (qe_segments e)))) s)"

definition tb_round :: "tb_engine \<Rightarrow> nat \<Rightarrow> nat list \<Rightarrow> tb_state \<Rightarrow> tb_state" where
  "tb_round c k round s = fold (seg_transfers c k) round (fold (seg_prune c k) round (fold (seg_dest c k) round s))"

function tb_rounds :: "tb_engine \<Rightarrow> nat \<Rightarrow> nat interval \<Rightarrow> tb_state \<Rightarrow> tb_state" where
  "tb_rounds c k round s =
     (if k < kMaxTransfers \<and> iv_list round \<noteq> []
      then (let s = tb_round c k (iv_list round) s
            in tb_rounds c (k + 1) (mk_iv (ito round) (length (tq_queue s))) s)
      else s)"
  by pat_completeness auto
termination
  by (relation "measure (\<lambda>(c, k, round, s). kMaxTransfers - k)") auto

declare tb_rounds.simps [simp del]

definition tb_cut_off :: "int \<Rightarrow> nat \<Rightarrow> tb_state \<Rightarrow> tb_state" where
  "tb_cut_off worst k s =
     (if t_min s ! k \<ge> worst then s\<lparr>t_min := (t_min s)[k := worst], tq_parent := (tq_parent s)[k := kNoParent]\<rparr> else s)"

definition tb_add_result :: "int \<Rightarrow> tb_state \<Rightarrow> nat \<Rightarrow> journey list \<Rightarrow> journey list" where
  "tb_add_result start_time s n results =
     (if tq_parent s ! n \<noteq> kNoParent
      then fst (pareto_add j_dominates results
        \<lparr>j_legs = [], j_start_time = start_time, j_dest_time = t_min s ! n, j_dest = 4294967295,
         j_transfers = n, j_error = False, j_is_reconstructed = False\<rparr>)
      else results)"

definition tb_execute ::
    "tb_engine \<Rightarrow> int \<Rightarrow> nat \<Rightarrow> int \<Rightarrow> tb_state \<times> journey list \<Rightarrow> tb_state \<times> journey list" where
  "tb_execute c start_time max_transfers worst st =
     (case st of (s, results) \<Rightarrow>
        let s = fold (tb_cut_off worst) [0..<kMaxTransfers] s;
            s = tb_rounds c 0 (mk_iv 0 (length (tq_queue s))) s
        in (s, fold (tb_add_result start_time s) [0..<kMaxTransfers] results))"

end
