(* ===== verification/Tb_Preprocess_Correct.thy ===== *)
theory Tb_Preprocess_Correct
  imports Tb_Preprocess
begin

text \<open>
  The transfers of \<open>Tb_Preprocess\<close> are feasible: passengers may leave and board, the transfer is
  walked within the time between arrival and departure, and both transports run. This needs the
  departures of a route at a stop to be in the order of the time of day, which the code takes for
  granted; a route that runs past midnight breaks it.
\<close>

unbundle bit_operations_syntax

section \<open>Feasible transfers\<close>

definition runs :: "timetable \<Rightarrow> nat \<Rightarrow> int \<Rightarrow> bool" where
  "runs tt t d \<longleftrightarrow> 0 \<le> d \<and> is_transport_active tt t (nat d)"

text \<open>Transport \<open>t\<close> is one of route \<open>r\<close>.\<close>

definition rides :: "timetable \<Rightarrow> nat \<Rightarrow> nat \<Rightarrow> bool" where
  "rides tt t r \<longleftrightarrow> r < n_routes tt \<and> t \<in> set (iv_list (route_transport_ranges tt ! r))"

definition event_minutes :: "timetable \<Rightarrow> nat \<Rightarrow> nat \<Rightarrow> event_type \<Rightarrow> int" where
  "event_minutes tt t i ev = delta_minutes (event_mam tt t i ev)"

text \<open>From stop \<open>i\<close> of \<open>t\<close> to stop \<open>j\<close> of \<open>u\<close>, whose traffic day is \<open>off\<close> days later.\<close>

definition feasible :: "timetable \<Rightarrow> nat \<Rightarrow> nat \<Rightarrow> nat \<Rightarrow> nat \<Rightarrow> nat \<Rightarrow> int \<Rightarrow> bool" where
  "feasible tt prf t i u j off \<longleftrightarrow>
     (let s = seq_stop tt (transport_route tt ! t) i; s' = seq_stop tt (transport_route tt ! u) j
      in stop_out s \<and> stop_in s' \<and> 0 < i \<and> j + 1 < seq_length tt (transport_route tt ! u) \<and>
         (\<exists>fp \<in> set (\<lparr>fp_target = stop_loc s, fp_duration = transfer_time tt ! stop_loc s\<rparr> # footpaths_out tt ! prf ! stop_loc s).
            fp_target fp = stop_loc s' \<and>
            event_minutes tt t i Arr + fp_duration fp \<le> off * 1440 + event_minutes tt u j Dep))"

definition transfer_ok :: "timetable \<Rightarrow> nat \<Rightarrow> nat \<Rightarrow> nat \<Rightarrow> expanded_transfer \<Rightarrow> bool" where
  "transfer_ok tt prf t i x \<longleftrightarrow> rides tt (xt_transport x) (transport_route tt ! xt_transport x) \<and>
     feasible tt prf t i (xt_transport x) (xt_stop x) (xt_day_offset x) \<and>
     (\<forall>d. bit (xt_bf x) d \<longrightarrow> runs tt t (int d) \<and> runs tt (xt_transport x) (int d + xt_day_offset x))"

text \<open>The parts of the timetable fit together; departures are in the order of the time of day.\<close>

definition route_ok :: "timetable \<Rightarrow> nat \<Rightarrow> bool" where
  "route_ok tt r \<longleftrightarrow> route_times_ok tt r \<and> rt_transports (tt_route_times tt ! r) = route_transport_ranges tt ! r \<and>
     ifrom (route_transport_ranges tt ! r) < ito (route_transport_ranges tt ! r) \<and>
     (\<forall>i < seq_length tt r. stop_loc (seq_stop tt r i) < n_locations tt) \<and>
     (\<forall>t \<in> set (iv_list (route_transport_ranges tt ! r)). transport_route tt ! t = r \<and>
        (\<forall>i ev. event_idx i ev < 2 * seq_length tt r - 2 \<longrightarrow> delta_norm (event_mam_r tt r t i ev)))"

definition by_time_of_day :: "timetable \<Rightarrow> nat \<Rightarrow> bool" where
  "by_time_of_day tt r \<longleftrightarrow>
     (\<forall>j. j + 1 < seq_length tt r \<longrightarrow> sorted (map mam (et_list (event_times_at_stop tt r j Dep))))"

definition tb_timetable :: "timetable \<Rightarrow> nat \<Rightarrow> bool" where
  "tb_timetable tt prf \<longleftrightarrow> (\<forall>r < n_routes tt. route_ok tt r) \<and>
     (\<forall>l < n_locations tt. (\<forall>r \<in> set (location_routes tt ! l). r < n_routes tt) \<and>
        0 \<le> transfer_time tt ! l \<and> transfer_time tt ! l < 512 \<and>
        (\<forall>fp \<in> set (footpaths_out tt ! prf ! l). fp_target fp < n_locations tt \<and> 0 \<le> fp_duration fp \<and> fp_duration fp < 512))"

lemma tb_timetableD:
  assumes "tb_timetable tt prf"
  shows "r < n_routes tt \<Longrightarrow> route_ok tt r"
    "l < n_locations tt \<Longrightarrow> r \<in> set (location_routes tt ! l) \<Longrightarrow> r < n_routes tt"
    "l < n_locations tt \<Longrightarrow> 0 \<le> transfer_time tt ! l \<and> transfer_time tt ! l < 512"
    "l < n_locations tt \<Longrightarrow> fp \<in> set (footpaths_out tt ! prf ! l) \<Longrightarrow>
      fp_target fp < n_locations tt \<and> 0 \<le> fp_duration fp \<and> fp_duration fp < 512"
  using assms unfolding tb_timetable_def by blast+

lemma rides_route: "tb_timetable tt prf \<Longrightarrow> rides tt t r \<Longrightarrow> transport_route tt ! t = r"
  using tb_timetableD(1) by (auto simp: rides_def route_ok_def)

lemma event_norm:
  assumes "tb_timetable tt prf" "rides tt t r" "event_idx i ev < 2 * seq_length tt r - 2"
  shows "delta_norm (event_mam tt t i ev)"
  using tb_timetableD(1) [OF assms(1)] rides_route [OF assms(1,2)] assms(2,3)
  by (auto simp: event_mam_def rides_def route_ok_def)

lemma route_events:
  assumes tt: "tb_timetable tt prf" "r < n_routes tt" and p: "j + 1 < seq_length tt r" "k < length (et_list (event_times_at_stop tt r j Dep))"
  defines "u \<equiv> iv_nth (route_transport_ranges tt ! r) k"
  shows "et_list (event_times_at_stop tt r j Dep) ! k = event_mam tt u j Dep" "rides tt u r" "delta_norm (event_mam tt u j Dep)"
proof -
  let ?rg = "route_transport_ranges tt ! r" and ?e = "event_times_at_stop tt r j Dep"
  have ok: "route_ok tt r" by (rule tb_timetableD(1) [OF tt])
  then have e: "rt_transports (tt_route_times tt ! r) = ?rg" "ifrom ?rg < ito ?rg" by (simp_all add: route_ok_def)
  have "et_n_transports ?e = ito ?rg - ifrom ?rg" "et_first_transport ?e = ifrom ?rg"
    using e by (simp_all add: event_times_at_stop_def Let_def iv_size_def)
  then have k: "k < ito ?rg - ifrom ?rg" "et_transport ?e k = u"
    using p(2) by (simp_all add: et_list_def et_transport_def u_def iv_nth_def)
  then show u: "rides tt u r" using tt(2) by (auto simp: u_def iv_nth_def iv_list_def rides_def)
  have i: "event_idx j Dep < 2 * seq_length tt r - 2" using p(1) by (simp add: event_idx_def)
  from et_nth_event_mam [OF _ this, of k] ok have "et_nth ?e k = event_mam_r tt r u j Dep"
    by (simp add: route_ok_def k)
  then show "et_list ?e ! k = event_mam tt u j Dep"
    using p(2) rides_route [OF tt(1) u] by (simp add: et_list_def event_mam_def)
  show "delta_norm (event_mam tt u j Dep)" by (rule event_norm [OF tt(1) u i])
qed

section \<open>The neighborhood of a route\<close>

definition neighbor_ok :: "timetable \<Rightarrow> nat \<Rightarrow> nat \<Rightarrow> route_transfer \<Rightarrow> bool" where
  "neighbor_ok tt prf r nb \<longleftrightarrow> 0 < rtr_from nb \<and> rtr_from nb < seq_length tt r \<and> stop_out (seq_stop tt r (rtr_from nb)) \<and>
     rtr_route nb < n_routes tt \<and> rtr_to nb + 1 < seq_length tt (rtr_route nb) \<and>
     stop_in (seq_stop tt (rtr_route nb) (rtr_to nb)) \<and> 0 \<le> rtr_length nb \<and> rtr_length nb < 512 \<and>
     (let l = stop_loc (seq_stop tt r (rtr_from nb))
      in \<lparr>fp_target = stop_loc (seq_stop tt (rtr_route nb) (rtr_to nb)), fp_duration = rtr_length nb\<rparr>
           \<in> set (\<lparr>fp_target = l, fp_duration = transfer_time tt ! l\<rparr> # footpaths_out tt ! prf ! l))"

lemma neighborhood_ok:
  assumes tt: "tb_timetable tt prf" "r < n_routes tt" and srt: "\<And>xs. set (srt xs) = set xs" and nb: "nb \<in> set (get_route_neighborhood srt tt r prf)"
  shows "neighbor_ok tt prf r nb"
proof -
  note D = tb_timetableD [OF tt(1)]
  obtain i fp where i: "0 < i" "i < seq_length tt r" "stop_out (seq_stop tt r i)"
    and fp: "fp \<in> set (\<lparr>fp_target = stop_loc (seq_stop tt r i), fp_duration = transfer_time tt ! stop_loc (seq_stop tt r i)\<rparr>
        # footpaths_out tt ! prf ! stop_loc (seq_stop tt r i))"
    and nb: "nb \<in> set (add_non_uturn_transfers tt r i fp)"
    using nb unfolding get_route_neighborhood_def srt by (auto simp: Let_def Suc_le_eq split: if_splits) blast+
  from nb obtain r' j where "r' \<in> set (location_routes tt ! fp_target fp)" "j + 1 < seq_length tt r'"
    "stop_loc (seq_stop tt r' j) = fp_target fp" "stop_in (seq_stop tt r' j)"
    "nb = \<lparr>rtr_from = i, rtr_route = r', rtr_to = j, rtr_length = fp_duration fp\<rparr>"
    by (auto simp: add_non_uturn_transfers_def)
  moreover have "stop_loc (seq_stop tt r i) < n_locations tt" using D(1) [OF tt(2)] i(2) by (simp add: route_ok_def)
  then have "fp_target fp < n_locations tt \<and> 0 \<le> fp_duration fp \<and> fp_duration fp < 512" using fp D(3,4) by auto
  ultimately show ?thesis using i fp D(2) by (cases fp) (auto simp: neighbor_ok_def Let_def)
qed

lemma neighbor_arr: "neighbor_ok tt prf r nb \<Longrightarrow> event_idx (rtr_from nb) Arr < 2 * seq_length tt r - 2"
  by (auto simp: neighbor_ok_def event_idx_def)

section \<open>Line-based transfers\<close>

lemma shift_days_bit:
  assumes "bit (shift_days (- off) bf) d"
  shows "0 \<le> int d + off \<and> bit bf (nat (int d + off))"
proof (cases "0 < off")
  case True
  then have "bit bf (nat off + d)" using assms by (simp add: shift_days_def bit_drop_bit_eq)
  moreover have "nat (int d + off) = nat off + d" using True by (simp add: nat_add_distrib)
  ultimately show ?thesis using True by simp
next
  case False
  then have "bit (push_bit (nat (- off)) bf) d" using assms by (simp add: shift_days_def)
  then have "nat (- off) \<le> d" "bit bf (d - nat (- off))" by (auto simp: bit_push_bit_iff)
  moreover have "nat (int d + off) = d - nat (- off)" using False by (simp add: nat_diff_distrib' minus_diff_commute)
  ultimately show ?thesis using False by auto
qed

definition segs_ok :: "timetable \<Rightarrow> nat \<Rightarrow> nat \<Rightarrow> expanded_transfer list list \<Rightarrow> bool" where
  "segs_ok tt prf t segs \<longleftrightarrow> (\<forall>s < length segs. \<forall>x \<in> set (segs ! s). transfer_ok tt prf t (s + 1) x)"

definition line_inv :: "timetable \<Rightarrow> nat \<Rightarrow> nat \<Rightarrow> nat \<Rightarrow> line_state \<Rightarrow> bool" where
  "line_inv tt prf t n st \<longleftrightarrow> (case st of (remaining, reached, segs) \<Rightarrow>
     (\<forall>d. bit remaining d \<longrightarrow> is_transport_active tt t d) \<and> length segs = n \<and> segs_ok tt prf t segs)"

lemma segs_ok_push:
  assumes "segs_ok tt prf t segs" "0 < i" "transfer_ok tt prf t i x"
  shows "segs_ok tt prf t (segs[i - 1 := segs ! (i - 1) @ [x]])"
proof (cases "i - 1 < length segs")
  case True
  then show ?thesis using assms by (auto simp: segs_ok_def nth_list_update)
qed (use assms in \<open>simp add: list_update_beyond\<close>)

lemma line_step_inv:
  assumes tt: "tb_timetable tt prf" and t: "rides tt t (transport_route tt ! t)" and nb: "neighbor_ok tt prf (transport_route tt ! t) nb"
    and arr: "arr = event_mam tt t (rtr_from nb) Arr"
    and evs: "evs = et_list (event_times_at_stop tt (rtr_route nb) (rtr_to nb) Dep)"
    and p: "k < length evs" "0 \<le> day" "day \<le> 4" "mam arr + rtr_length nb \<le> day * 1440 + mam (evs ! k)"
    and st: "line_inv tt prf t n st"
  shows "line_inv tt prf t n (snd (line_step tt arr nb evs (day, k) st))"
proof -
  note D = tb_timetableD [OF tt]
  obtain remaining reached segs where st': "st = (remaining, reached, segs)" by (metis prod_cases3)
  let ?r = "rtr_route nb" and ?j = "rtr_to nb" and ?i = "rtr_from nb"
  define u where "u = iv_nth (route_transport_ranges tt ! ?r) k"
  define off where "off = days arr + day - days (evs ! k)"
  define common where "common = remaining AND shift_days (- off) (bitfields tt ! (transport_traffic_days tt ! u))"
  have nb': "?r < n_routes tt" "?j + 1 < seq_length tt ?r" "0 < ?i" using nb by (simp_all add: neighbor_ok_def)
  have u: "evs ! k = event_mam tt u ?j Dep" "rides tt u ?r" "delta_norm (event_mam tt u ?j Dep)"
    using route_events [OF tt nb'(1,2), of k] p(1) unfolding evs u_def by blast+
  have "delta_norm (event_mam tt t ?i Arr)"
    by (rule event_norm [OF tt t neighbor_arr [OF nb]])
  with u have norm: "0 \<le> days arr" "days arr < 32" "0 \<le> days (evs ! k)" "days (evs ! k) < 32"
    by (simp_all add: arr delta_norm_def)
  have i8: "i8 (days (evs ! k) - days arr - day) = - off" "i8 (days arr + day - days (evs ! k)) = off"
    using norm p(2,3) by (simp_all add: wrap_s8_id off_def)
  have ok: "transfer_ok tt prf t ?i \<lparr>xt_bf = bf, xt_transport = u, xt_stop = ?j, xt_day_offset = off\<rparr>"
    if sub: "\<And>d. bit bf d \<Longrightarrow> bit common d" for bf
  proof -
    have "event_minutes tt t ?i Arr + rtr_length nb \<le> off * 1440 + event_minutes tt u ?j Dep"
      using p(4) by (simp add: event_minutes_def delta_minutes_def arr [symmetric] u(1) [symmetric] off_def algebra_simps)
    then have "feasible tt prf t ?i u ?j off"
      using nb rides_route [OF tt u(2)] unfolding feasible_def neighbor_ok_def Let_def by force
    moreover have "runs tt t (int d) \<and> runs tt u (int d + off)" if "bit bf d" for d
    proof -
      have "bit remaining d" "bit (shift_days (- off) (bitfields tt ! (transport_traffic_days tt ! u))) d"
        using sub [OF that] by (simp_all add: common_def bit_and_iff)
      with shift_days_bit [OF this(2)] st show ?thesis
        by (simp add: runs_def is_transport_active_def line_inv_def st')
    qed
    ultimately show ?thesis using u(2) rides_route [OF tt u(2)] by (simp add: transfer_ok_def)
  qed
  show ?thesis
  proof (cases "remaining = 0 \<or> u16 (day * 1440 + mam (evs ! k)) - mam arr > kMaxTransferTime \<or> common = 0")
    case True
    then have "snd (line_step tt arr nb evs (day, k) st) = st"
      by (auto simp: line_step_def st' Let_def i8 u_def [symmetric] common_def [symmetric])
    with st show ?thesis by simp
  next
    case False
    obtain es common' where l: "line_update off (mam (event_mam tt u 0 Dep)) (reached ! ?j) common = (es, common')" by fastforce
    have sub: "bit common d" if "bit common' d" for d using line_update_subset [OF l that] .
    have rem: "is_transport_active tt t d" if "bit (remaining AND NOT common) d" for d
      using st that by (simp add: line_inv_def st')
    have "\<exists>reached'. snd (line_step tt arr nb evs (day, k) st) = (remaining AND NOT common, reached',
        if common' = 0 then segs else segs[?i - 1 := segs ! (?i - 1) @
          [\<lparr>xt_bf = common', xt_transport = u, xt_stop = ?j, xt_day_offset = off\<rparr>]])"
      using False by (auto simp: line_step_def st' Let_def i8 u_def [symmetric] common_def [symmetric] l)
    then obtain reached' where "snd (line_step tt arr nb evs (day, k) st) = (remaining AND NOT common, reached',
        if common' = 0 then segs else segs[?i - 1 := segs ! (?i - 1) @
          [\<lparr>xt_bf = common', xt_transport = u, xt_stop = ?j, xt_day_offset = off\<rparr>]])" by blast
    moreover have "segs_ok tt prf t segs" "length segs = n" using st by (simp_all add: line_inv_def st')
    ultimately show ?thesis using rem segs_ok_push [OF _ nb'(3) ok [OF sub]] unfolding line_inv_def by auto
  qed
qed

lemma departures_ok:
  assumes s: "sorted (map mam evs)" "\<forall>e \<in> set evs. 0 \<le> mam e" and f: "0 \<le> f" "f < 2048" and n: "evs \<noteq> []"
    and k: "k = length (takeWhile (\<lambda>x. mam x < f mod 1440) evs)"
    and dk: "(day, k') = (if k = length evs then (i8 (i8 (f div 1440) + 1), 0) else (i8 (f div 1440), k))"
    and p: "(d, m) \<in> set (departures day k' (length evs))"
  shows "m < length evs \<and> 0 \<le> d \<and> d \<le> 4 \<and> f \<le> d * 1440 + mam (evs ! m)"
proof -
  have i8: "i8 (f div 1440) = f div 1440" "i8 (f div 1440 + 1) = f div 1440 + 1" using f by (simp_all add: wrap_s8_id)
  have q: "f div 1440 \<le> 1" "0 \<le> f div 1440" using f by auto
  have m: "m < length evs" using p dk k length_takeWhile_le [of "\<lambda>x. mam x < f mod 1440" evs]
    by (auto simp: departures_def split: if_splits)
  have nn: "0 \<le> mam (evs ! m)" using s(2) m by simp
  have fe: "f = (f div 1440) * 1440 + f mod 1440" by simp
  consider (today) "d = f div 1440" "k \<le> m" "k < length evs" | (later) "f div 1440 < d" "d \<le> 4"
    using p dk q by (auto simp: departures_def i8 split: if_splits)
  then show ?thesis
  proof cases
    case today
    have "\<not> mam (evs ! k) < f mod 1440" using nth_length_takeWhile [of "\<lambda>x. mam x < f mod 1440" evs] today(3) k by simp
    moreover have "mam (evs ! k) \<le> mam (evs ! m)" using sorted_nth_mono [OF s(1), of k m] today m by simp
    ultimately have "f \<le> d * 1440 + mam (evs ! m)" unfolding today(1) using fe by linarith
    with m q today(1) show ?thesis by simp
  next
    case later
    have "q' * 1440 + z \<le> d * 1440 + mam (evs ! m)" if "q' < d" "z < 1440" for q' z
      using that nn by linarith
    from this [OF later(1), of "f mod 1440"] have "f \<le> d * 1440 + mam (evs ! m)" by simp
    with later q m show ?thesis by simp
  qed
qed

lemma line_neighbor_inv:
  assumes tt: "tb_timetable tt prf" and t: "rides tt t (transport_route tt ! t)" and nb: "neighbor_ok tt prf (transport_route tt ! t) nb" and o: "by_time_of_day tt (rtr_route nb)"
    and st: "length (snd (snd st)) = n" "segs_ok tt prf t (snd (snd st))"
  shows "length (snd (snd (line_neighbor tt t nb st))) = n \<and> segs_ok tt prf t (snd (snd (line_neighbor tt t nb st)))"
proof -
  note D = tb_timetableD [OF tt]
  obtain prev reached segs where st': "st = (prev, reached, segs)" by (metis prod_cases3)
  let ?r = "rtr_route nb" and ?j = "rtr_to nb"
  have nb': "?r < n_routes tt" "?j + 1 < seq_length tt ?r" "0 \<le> rtr_length nb" "rtr_length nb < 512"
    using nb by (simp_all add: neighbor_ok_def)
  define arr where "arr = event_mam tt t (rtr_from nb) Arr"
  define evs where "evs = et_list (event_times_at_stop tt ?r ?j Dep)"
  define f where "f = mam arr + rtr_length nb"
  define k where "k = length (takeWhile (\<lambda>x. mam x < f mod 1440) evs)"
  obtain day k' where dk: "(day, k') = (if k = length evs then (i8 (i8 (f div 1440) + 1), 0) else (i8 (f div 1440), k))"
    by (metis surj_pair)
  define reached' where "reached' = (if prev \<noteq> ?r then line_reset (seq_length tt ?r) else reached)"
  have "delta_norm arr" unfolding arr_def
    by (rule event_norm [OF tt t neighbor_arr [OF nb]])
  then have "0 \<le> mam arr" "mam arr < 1440" by (simp_all add: delta_norm_def)
  then have f: "0 \<le> f" "f < 2048" "u16 f = f" using nb'(3,4) by (simp_all add: f_def)
  have "delta_norm (evs ! m)" if "m < length evs" for m
    using route_events(1,3) [OF tt nb'(1,2), of m] that by (simp add: evs_def)
  then have mams: "\<forall>e \<in> set evs. 0 \<le> mam e" by (auto simp: in_set_conv_nth delta_norm_def)
  have "route_ok tt ?r" by (rule D(1) [OF nb'(1)])
  then have ne: "evs \<noteq> []" by (auto simp: evs_def et_list_def event_times_at_stop_def Let_def iv_size_def route_ok_def)
  have srt: "sorted (map mam evs)" using o nb'(2) by (simp add: by_time_of_day_def evs_def)
  let ?st0 = "(bitfields tt ! (transport_traffic_days tt ! t), reached', segs)"
  have "line_inv tt prf t n (for_break (line_step tt arr nb evs) (departures day k' (length evs)) ?st0)"
  proof (rule for_break_invariant)
    show "line_inv tt prf t n ?st0" using st by (simp add: line_inv_def st' is_transport_active_def)
    fix p s assume p: "p \<in> set (departures day k' (length evs))" and s: "line_inv tt prf t n s"
    obtain d m where dm: "p = (d, m)" by fastforce
    from departures_ok [OF srt mams f(1,2) ne k_def dk] p dm
    have pos: "m < length evs" "0 \<le> d" "d \<le> 4" "mam arr + rtr_length nb \<le> d * 1440 + mam (evs ! m)" by (auto simp: f_def)
    show "line_inv tt prf t n (snd (line_step tt arr nb evs p s))"
      unfolding dm by (rule line_step_inv [OF tt t nb arr_def evs_def pos s])
  qed
  moreover have "snd (snd (line_neighbor tt t nb st)) = snd (snd (for_break (line_step tt arr nb evs) (departures day k' (length evs)) ?st0))"
    using dk by (simp add: line_neighbor_def st' Let_def arr_def [symmetric] evs_def [symmetric] f_def [symmetric] f(3) k_def [symmetric]
        reached'_def case_prod_unfold split: if_splits)
  ultimately show ?thesis by (auto simp: line_inv_def split: prod.splits)
qed

section \<open>Transfer reduction\<close>

lemma for_set_fold_invariant:
  assumes "P s" "\<And>x s. x \<in> set xs \<Longrightarrow> P s \<Longrightarrow> P (f x s)"
  shows "P (fold f xs s)"
  using assms by (induction xs arbitrary: s) auto

definition covered :: "bitfield \<Rightarrow> bitfield \<Rightarrow> bool" where
  "covered a b \<longleftrightarrow> (\<forall>d. bit a d \<longrightarrow> bit b d)"

lemma rr_visit_covered: "covered (snd (snd st)) bf \<Longrightarrow> covered (snd (snd (rr_visit l t t' bf st))) bf"
  using rr_update_subset by (auto simp: rr_visit_def covered_def bit_or_iff split: prod.splits)

lemma visit_stop_covered: "covered (snd (snd st)) bf \<Longrightarrow> covered (snd (snd (visit_stop tt prf l t bf st))) bf"
  unfolding visit_stop_def by (rule for_set_fold_invariant) (auto intro: rr_visit_covered)

lemma transfer_improvement_covered: "covered (snd (snd (transfer_improvement tt x st))) (xt_bf x)"
  unfolding transfer_improvement_def Let_def
proof (rule for_set_fold_invariant)
  show "covered (snd (snd (fst st, snd st, 0))) (xt_bf x)" by (simp add: covered_def)
qed (rule visit_stop_covered)

lemma transfer_ok_covered: "transfer_ok tt prf t i x \<Longrightarrow> covered bf (xt_bf x) \<Longrightarrow> transfer_ok tt prf t i (x\<lparr>xt_bf := bf\<rparr>)"
  by (simp add: transfer_ok_def covered_def)

lemma reduce_transfers_ok:
  assumes "\<forall>x \<in> set xs. transfer_ok tt prf t i x"
  shows "\<forall>x \<in> set (snd (snd (fold (reduce_transfer tt) xs (arr, ch, [])))). transfer_ok tt prf t i x"
proof -
  have step: "\<forall>y \<in> set (snd (snd (reduce_transfer tt x st))). transfer_ok tt prf t i y"
    if x: "transfer_ok tt prf t i x" and st: "\<forall>y \<in> set (snd (snd st)). transfer_ok tt prf t i y" for x st
  proof -
    obtain arr ch kept where st': "st = (arr, ch, kept)" by (metis prod_cases3)
    obtain arr' ch' bf where i: "transfer_improvement tt x (arr, ch) = (arr', ch', bf)" by (metis prod_cases3)
    have "transfer_ok tt prf t i (x\<lparr>xt_bf := bf\<rparr>)"
      using transfer_ok_covered [OF x transfer_improvement_covered [of tt x "(arr, ch)"]] by (simp add: i)
    then show ?thesis using st by (simp add: reduce_transfer_def st' i)
  qed
  show ?thesis
  proof (rule for_set_fold_invariant [where P = "\<lambda>st. \<forall>y \<in> set (snd (snd st)). transfer_ok tt prf t i y"])
    show "\<forall>y \<in> set (snd (snd (arr, ch, []))). transfer_ok tt prf t i y" by simp
    fix x and s :: "rr_table \<times> rr_table \<times> expanded_transfer list" assume x: "x \<in> set xs" and s: "\<forall>y \<in> set (snd (snd s)). transfer_ok tt prf t i y"
    from assms x have "transfer_ok tt prf t i x" by blast
    from this s show "\<forall>y \<in> set (snd (snd (reduce_transfer tt x s))). transfer_ok tt prf t i y" by (rule step)
  qed
qed

lemma reduce_stop_ok:
  assumes "0 < i" "length (snd (snd st)) = n \<and> segs_ok tt prf t (snd (snd st))"
  shows "length (snd (snd (reduce_stop tt prf t i st))) = n \<and> segs_ok tt prf t (snd (snd (reduce_stop tt prf t i st)))"
proof -
  obtain arr ch segs where st: "st = (arr, ch, segs)" by (metis prod_cases3)
  let ?r = "transport_route tt ! t"
  obtain arr1 ch1 u where v: "visit_stop tt prf (stop_loc (seq_stop tt ?r i)) (u16 (delta_count (event_mam tt t i Arr)))
      (bitfields tt ! (transport_traffic_days tt ! t)) (arr, ch, 0) = (arr1, ch1, u)" by (metis prod_cases3)
  obtain arr2 ch2 kept where f: "fold (reduce_transfer tt) (segs ! (i - 1)) (arr1, ch1, []) = (arr2, ch2, kept)"
    by (metis prod_cases3)
  have ok: "segs_ok tt prf t segs" "length segs = n" using assms(2) by (simp_all add: st)
  have "snd (snd (reduce_stop tt prf t i st)) = (if stop_out (seq_stop tt ?r i) then segs[i - 1 := kept] else segs)"
    by (simp add: reduce_stop_def st Let_def v f [unfolded One_nat_def])
  moreover have "segs_ok tt prf t (segs[i - 1 := kept])"
  proof (cases "i - 1 < length segs")
    case True
    then have "\<forall>x \<in> set (segs ! (i - 1)). transfer_ok tt prf t i x" using ok(1) assms(1) unfolding segs_ok_def by fastforce
    from reduce_transfers_ok [OF this, of arr1 ch1] have "\<forall>x \<in> set kept. transfer_ok tt prf t i x" by (simp add: f [unfolded One_nat_def])
    then show ?thesis using ok(1) assms(1) unfolding segs_ok_def
      by (metis One_nat_def Suc_pred' add.commute length_list_update nth_list_update plus_1_eq_Suc True)
  qed (use ok in \<open>simp add: list_update_beyond\<close>)
  ultimately show ?thesis using ok by simp
qed

lemma preprocess_transport_ok:
  assumes tt: "tb_timetable tt prf" and t: "rides tt t (transport_route tt ! t)" and nbs: "\<forall>nb \<in> set nbs. neighbor_ok tt prf (transport_route tt ! t) nb \<and> by_time_of_day tt (rtr_route nb)"
    and segs: "length segs = n" "segs_ok tt prf t segs"
  shows "length (preprocess_transport tt prf nbs t segs) = n \<and> segs_ok tt prf t (preprocess_transport tt prf nbs t segs)"
proof -
  let ?r0 = "rtr_route (hd nbs)"
  let ?ok = "\<lambda>segs. length segs = n \<and> segs_ok tt prf t segs"
  obtain a b segs1 where l: "fold (line_neighbor tt t) nbs (?r0, line_reset (seq_length tt ?r0), segs) = (a, b, segs1)"
    by (metis prod_cases3)
  have "?ok (snd (snd (fold (line_neighbor tt t) nbs (?r0, line_reset (seq_length tt ?r0), segs))))"
    by (rule for_set_fold_invariant [where P = "\<lambda>st. ?ok (snd (snd st))"]) (use segs nbs line_neighbor_inv [OF tt t] in auto)
  then have "?ok segs1" by (simp add: l)
  then have "?ok (snd (snd (fold (reduce_stop tt prf t) (map (\<lambda>j. m - j - 1) [0..<m - 1]) (\<lambda>_. [], \<lambda>_. [], segs1))))" for m
    by (intro for_set_fold_invariant [where P = "\<lambda>st. ?ok (snd (snd st))"] reduce_stop_ok) auto
  then show ?thesis unfolding preprocess_transport_def Let_def by (simp add: l case_prod_unfold)
qed

lemma preprocess_route_ok:
  assumes tt: "tb_timetable tt prf" and o: "\<forall>r < n_routes tt. by_time_of_day tt r" and srt: "\<And>xs. set (srt xs) = set xs"
    and r: "r < n_routes tt" and k: "k < length (iv_list (route_transport_ranges tt ! r))"
  shows "length (preprocess_route srt tt prf r ! k) = seq_length tt r - 1 \<and>
    segs_ok tt prf (iv_list (route_transport_ranges tt ! r) ! k) (preprocess_route srt tt prf r ! k)"
proof -
  let ?t = "iv_list (route_transport_ranges tt ! r) ! k" and ?nbs = "get_route_neighborhood srt tt r prf"
  let ?segs = "replicate (seq_length tt r - 1) [] :: expanded_transfer list list"
  have rides: "rides tt ?t r" using nth_mem [OF k] r by (simp add: rides_def)
  note t = rides_route [OF tt rides]
  have "\<forall>nb \<in> set ?nbs. neighbor_ok tt prf r nb \<and> by_time_of_day tt (rtr_route nb)"
    using neighborhood_ok [OF tt r srt] o by (auto simp: neighbor_ok_def)
  moreover have empty: "length ?segs = seq_length tt r - 1" "segs_ok tt prf ?t ?segs" by (auto simp: segs_ok_def)
  ultimately have "length (preprocess_transport tt prf ?nbs ?t ?segs) = seq_length tt r - 1 \<and>
      segs_ok tt prf ?t (preprocess_transport tt prf ?nbs ?t ?segs)"
    using preprocess_transport_ok [OF tt, of ?t ?nbs ?segs] rides by (simp add: t)
  then show ?thesis using k empty by (simp add: preprocess_route_def Let_def)
qed

end
