(* ===== verification/Tb_Transfers.thy ===== *)
theory Tb_Transfers
  imports Tb_Preprocess_Correct
begin

text \<open>
  The transfers the trip-based search reads from \<open>tb_data\<close>: segments are numbered transport by
  transport, bitfields are shared, and each transfer is the feasible one that the preprocessing
  found.
\<close>

section \<open>Encoding\<close>

lemma set_day_offset_get:
  assumes "set_day_offset o' x = Some y"
  shows "y = x\<lparr>day_offset_bits := o' + 8\<rparr> \<and> get_day_offset y = o'"
  using assms by (auto simp: set_day_offset_def get_day_offset_def wrap_s8_id split: if_splits)

definition encodes :: "timetable \<Rightarrow> nat list \<Rightarrow> bitfield list \<Rightarrow> expanded_transfer \<Rightarrow> tb_transfer \<Rightarrow> bool" where
  "encodes tt first bfs x y \<longleftrightarrow> tr_traffic_days y < length bfs \<and> bfs ! tr_traffic_days y = xt_bf x \<and>
     to_segment y = first ! xt_transport x + xt_stop x \<and> to_segment_offset y = xt_stop x mod 2 ^ 12 \<and>
     tr_route y = transport_route tt ! xt_transport x \<and>
     transport_offset y = (xt_transport x - ifrom (route_transport_ranges tt ! tr_route y)) mod 2 ^ 16 \<and>
     get_day_offset y = xt_day_offset x"

lemma encodes_mono: "encodes tt first bfs x y \<Longrightarrow> encodes tt first (bfs @ cs) x y"
  by (auto simp: encodes_def nth_append)

lemma get_or_create_bf_ok:
  assumes "get_or_create_bf bf bfs = (i, bfs')"
  shows "(\<exists>cs. bfs' = bfs @ cs) \<and> i < length bfs' \<and> bfs' ! i = bf"
proof -
  let ?i = "length (takeWhile (\<lambda>x. x \<noteq> bf) bfs)"
  have "i = ?i" "bfs' = (if ?i = length bfs then bfs @ [bf] else bfs)"
    using assms unfolding get_or_create_bf_def Let_def by blast+
  moreover have "bfs ! ?i = bf" if "?i < length bfs" using nth_length_takeWhile [OF that] by simp
  moreover have "?i \<le> length bfs" by (rule length_takeWhile_le)
  ultimately show ?thesis by (auto simp: nth_append)
qed

lemma convert_transfer_ok:
  assumes "convert_transfer tt first x (bfs, dst) = Some (bfs', dst')"
  shows "\<exists>cs y. bfs' = bfs @ cs \<and> dst' = dst @ [y] \<and> encodes tt first bfs' x y"
proof -
  obtain i bfs1 where g: "get_or_create_bf (xt_bf x) bfs = (i, bfs1)" by fastforce
  from get_or_create_bf_ok [OF g] assms show ?thesis
    by (auto simp: convert_transfer_def g Let_def encodes_def dest!: set_day_offset_get)
qed

lemma convert_transfers_ok:
  assumes "fold_opt (convert_transfer tt first) xs (bfs, dst) = Some (bfs', dst')"
  shows "\<exists>cs ys. bfs' = bfs @ cs \<and> dst' = dst @ ys \<and> list_all2 (encodes tt first bfs') xs ys"
  using assms
proof (induction xs arbitrary: bfs dst)
  case (Cons x xs)
  then obtain bfs1 dst1 where c: "convert_transfer tt first x (bfs, dst) = Some (bfs1, dst1)"
    "fold_opt (convert_transfer tt first) xs (bfs1, dst1) = Some (bfs', dst')"
    by (auto split: option.splits)
  from convert_transfer_ok [OF c(1)] obtain cs y where y: "bfs1 = bfs @ cs" "dst1 = dst @ [y]" "encodes tt first bfs1 x y" by blast
  from Cons.IH [OF c(2)] obtain cs' ys where ys: "bfs' = bfs1 @ cs'" "dst' = dst1 @ ys" "list_all2 (encodes tt first bfs') xs ys" by blast
  have "encodes tt first bfs' x y" unfolding ys(1) by (rule encodes_mono [OF y(3)])
  with y ys show ?case by auto
qed simp

lemma convert_segments_ok:
  assumes "fold_opt (convert_segment tt first) xss (bfs, segs) = Some (bfs', segs')"
  shows "\<exists>cs yss. bfs' = bfs @ cs \<and> segs' = segs @ yss \<and> list_all2 (list_all2 (encodes tt first bfs')) xss yss"
  using assms
proof (induction xss arbitrary: bfs segs)
  case (Cons xs xss)
  then obtain bfs1 ys where c: "fold_opt (convert_transfer tt first) xs (bfs, []) = Some (bfs1, ys)"
    "fold_opt (convert_segment tt first) xss (bfs1, segs @ [ys]) = Some (bfs', segs')"
    by (auto simp: convert_segment_def [of tt first xs] split: option.splits)
  from convert_transfers_ok [OF c(1)] obtain cs where y: "bfs1 = bfs @ cs" "list_all2 (encodes tt first bfs1) xs ys" by auto
  from Cons.IH [OF c(2)] obtain cs' yss where ys: "bfs' = bfs1 @ cs'" "segs' = (segs @ [ys]) @ yss"
    "list_all2 (list_all2 (encodes tt first bfs')) xss yss" by blast
  have "list_all2 (encodes tt first bfs') xs ys"
    unfolding ys(1) by (rule list_all2_mono [OF y(2)]) (rule encodes_mono)
  with y ys show ?case by auto
qed simp

section \<open>Numbering of the segments\<close>

definition segments_before :: "(nat \<Rightarrow> nat) \<Rightarrow> nat \<Rightarrow> nat" where
  "segments_before n t = sum_list (map n [0..<t])"

lemma segments_before_Suc [simp]: "segments_before n (Suc t) = segments_before n t + n t"
  by (simp add: segments_before_def)

lemma segments_before_mono: "t \<le> u \<Longrightarrow> segments_before n t \<le> segments_before n u"
  by (induction rule: dec_induct) simp_all

lemma length_concat_segments:
  "(\<And>u. u < m \<Longrightarrow> length (f u) = n u) \<Longrightarrow> length (concat (map f [0..<m])) = segments_before n m"
  by (induction m) (simp_all add: segments_before_def)

lemma nth_concat_segments:
  assumes "\<And>u. u < m \<Longrightarrow> length (f u) = n u" "t < m" "s < n t"
  shows "concat (map f [0..<m]) ! (segments_before n t + s) = f t ! s"
proof -
  have len: "length (concat (map f [0..<t])) = segments_before n t" using assms by (intro length_concat_segments) simp
  have "[0..<m] = [0..<t] @ [t..<m]" using upt_add_eq_append [of 0 t "m - t"] assms(2) by simp
  then have "[0..<m] = [0..<t] @ t # [Suc t..<m]" using assms(2) by (simp add: upt_conv_Cons)
  then show ?thesis using len assms by (simp add: nth_append)
qed

text \<open>The transports, numbered route by route.\<close>

definition transports_in_order :: "timetable \<Rightarrow> nat \<Rightarrow> bool" where
  "transports_in_order tt m \<longleftrightarrow> concat (map (\<lambda>r. iv_list (route_transport_ranges tt ! r)) [0..<n_routes tt]) = [0..<m]"

abbreviation n_segments :: "timetable \<Rightarrow> nat \<Rightarrow> nat" where
  "n_segments tt t \<equiv> seq_length tt (transport_route tt ! t) - 1"

lemma fold_fold_concat: "fold (\<lambda>r. fold f (g r)) rs s = fold f (concat (map g rs)) s"
  by (induction rs arbitrary: s) simp_all

lemma allocate_fold:
  "fold (\<lambda>t. allocate_transport (l t) t) [0..<m] (0, [], []) = (let n = \<lambda>t. l t - 1 in
     (segments_before n m, map (segments_before n) [0..<m], concat (map (\<lambda>t. replicate (n t) t) [0..<m])))"
  by (induction m) (simp_all add: Let_def allocate_transport_def segments_before_def)

lemma allocate_segments:
  assumes tt: "tb_timetable tt prf" and m: "transports_in_order tt m"
  shows "allocate tt = (map (segments_before (n_segments tt)) [0..<m] @ [segments_before (n_segments tt) m],
    concat (map (\<lambda>t. replicate (n_segments tt t) t) [0..<m]))"
proof -
  let ?rg = "\<lambda>r. iv_list (route_transport_ranges tt ! r)" and ?rs = "[0..<n_routes tt]"
  let ?f = "\<lambda>r. allocate_transport (seq_length tt r)"
  have "fold (\<lambda>r. fold (?f r) (?rg r)) ?rs s = fold (\<lambda>r. fold (\<lambda>t. ?f (transport_route tt ! t) t) (?rg r)) ?rs s" for s
    using rides_route [OF tt] by (intro fold_cong refl) (auto simp: rides_def intro!: fold_cong)
  also have "\<dots> s = fold (\<lambda>t. ?f (transport_route tt ! t) t) (concat (map ?rg ?rs)) s" for s
    by (rule fold_fold_concat)
  finally show ?thesis
    using m by (simp add: allocate_def transports_in_order_def allocate_fold Let_def)
qed

text \<open>The segments of transport \<open>t\<close> before the encoding.\<close>

definition transport_segments ::
    "(route_transfer list \<Rightarrow> route_transfer list) \<Rightarrow> timetable \<Rightarrow> nat \<Rightarrow> nat \<Rightarrow> expanded_transfer list list" where
  "transport_segments srt tt prf t =
     (let r = transport_route tt ! t; segs = replicate (seq_length tt r - 1) []; nbs = get_route_neighborhood srt tt r prf
      in if nbs = [] then segs else preprocess_transport tt prf nbs t segs)"

lemma preprocess_route_segments:
  assumes "tb_timetable tt prf" "r < n_routes tt"
  shows "preprocess_route srt tt prf r = map (transport_segments srt tt prf) (iv_list (route_transport_ranges tt ! r))"
  unfolding preprocess_route_def Let_def using rides_route [OF assms(1)] assms(2)
  by (intro map_cong refl) (simp add: transport_segments_def Let_def rides_def)

lemma preprocess_segments:
  assumes "tb_timetable tt prf" "transports_in_order tt m"
  shows "concat (map (preprocess_route srt tt prf) [0..<n_routes tt]) = map (transport_segments srt tt prf) [0..<m]"
proof -
  have "map (preprocess_route srt tt prf) [0..<n_routes tt] =
      map (map (transport_segments srt tt prf)) (map (\<lambda>r. iv_list (route_transport_ranges tt ! r)) [0..<n_routes tt])"
    using preprocess_route_segments [OF assms(1)] by simp
  then have "concat (map (preprocess_route srt tt prf) [0..<n_routes tt]) =
      map (transport_segments srt tt prf) (concat (map (\<lambda>r. iv_list (route_transport_ranges tt ! r)) [0..<n_routes tt]))"
    by (simp only: map_concat)
  then show ?thesis using assms(2) by (simp add: transports_in_order_def)
qed

lemma transport_segments_ok:
  assumes tt: "tb_timetable tt prf" and o: "\<forall>r < n_routes tt. by_time_of_day tt r" and srt: "\<And>xs. set (srt xs) = set xs"
    and t: "rides tt t r"
  shows "length (transport_segments srt tt prf t) = n_segments tt t \<and> segs_ok tt prf t (transport_segments srt tt prf t)"
proof -
  have r: "r < n_routes tt" "t \<in> set (iv_list (route_transport_ranges tt ! r))" using t by (simp_all add: rides_def)
  then obtain k where k: "k < length (iv_list (route_transport_ranges tt ! r))" "iv_list (route_transport_ranges tt ! r) ! k = t"
    by (auto simp: in_set_conv_nth)
  have "preprocess_route srt tt prf r ! k = transport_segments srt tt prf t"
    using k by (simp add: preprocess_route_segments [OF tt r(1)])
  then show ?thesis using preprocess_route_ok [OF tt o srt r(1) k(1)] rides_route [OF tt t] k(2) by simp
qed

section \<open>The data the search reads\<close>

text \<open>Every transfer of segment \<open>s\<close> of a transport leads to a segment whose transport, stop and day
  offset make it feasible, on days on which both transports run.\<close>

definition sound_transfer :: "timetable \<Rightarrow> nat \<Rightarrow> tb_data \<Rightarrow> nat \<Rightarrow> nat \<Rightarrow> tb_transfer \<Rightarrow> bool" where
  "sound_transfer tt prf d t i y \<longleftrightarrow>
     (\<exists>u j. rides tt u (tr_route y) \<and> j + 1 < seq_length tt (tr_route y) \<and> to_segment y = transport_first_segment d ! u + j \<and>
        to_segment_offset y = j mod 2 ^ 12 \<and> feasible tt prf t i u j (get_day_offset y) \<and>
        (\<forall>k. bit (tb_bitfields d ! tr_traffic_days y) k \<longrightarrow> runs tt t (int k) \<and> runs tt u (int k + get_day_offset y)))"

lemma list_all2_in_set: "list_all2 P xs ys \<Longrightarrow> y \<in> set ys \<Longrightarrow> \<exists>x \<in> set xs. P x y"
  by (induction rule: list_all2_induct) auto

lemma preprocess_data:
  assumes tt: "tb_timetable tt prf" and o: "\<forall>r < n_routes tt. by_time_of_day tt r" and srt: "\<And>xs. set (srt xs) = set xs"
    and m: "transports_in_order tt m" and d: "preprocess srt tt prf = Some d"
  defines "before \<equiv> segments_before (n_segments tt)"
  shows "\<And>t. t < m \<Longrightarrow> transport_first_segment d ! t = before t"
    and "transport_first_segment d = map before [0..<m] @ [before m]"
    and "segment_transports d = concat (map (\<lambda>t. replicate (n_segments tt t) t) [0..<m])"
    and "list_all2 (list_all2 (encodes tt (transport_first_segment d) (tb_bitfields d)))
      (concat (map (transport_segments srt tt prf) [0..<m])) (segment_transfers d)"
proof -
  let ?src = "concat (map (transport_segments srt tt prf) [0..<m])"
  let ?first = "map before [0..<m] @ [before m]"
  have "concat (concat (map (preprocess_route srt tt prf) [0..<n_routes tt])) = ?src"
    by (simp only: preprocess_segments [OF tt m])
  then obtain bfs segs where f: "fold_opt (convert_segment tt ?first) ?src ([], []) = Some (bfs, segs)"
    and d': "transport_first_segment d = ?first" "segment_transfers d = segs" "tb_bitfields d = bfs"
      "segment_transports d = concat (map (\<lambda>t. replicate (n_segments tt t) t) [0..<m])"
    using d by (auto simp: preprocess_def allocate_segments [OF tt m] before_def)
  show "transport_first_segment d = ?first" "segment_transports d = concat (map (\<lambda>t. replicate (n_segments tt t) t) [0..<m])"
    by (rule d')+
  show "transport_first_segment d ! t = before t" if "t < m" for t using that by (simp add: d' nth_append)
  show "list_all2 (list_all2 (encodes tt (transport_first_segment d) (tb_bitfields d))) ?src (segment_transfers d)"
    using convert_segments_ok [OF f] by (simp add: d')
qed

lemma rides_in_order:
  assumes "transports_in_order tt m" "tb_timetable tt prf"
  shows "t < m \<longleftrightarrow> rides tt t (transport_route tt ! t)"
proof -
  have "t \<in> set (concat (map (\<lambda>r. iv_list (route_transport_ranges tt ! r)) [0..<n_routes tt])) \<longleftrightarrow> (\<exists>r. rides tt t r)"
    by (auto simp: rides_def)
  then have "t < m \<longleftrightarrow> (\<exists>r. rides tt t r)" using assms(1) unfolding transports_in_order_def by simp
  then show ?thesis using rides_route [OF assms(2)] by metis
qed

lemma preprocess_sound:
  assumes tt: "tb_timetable tt prf" and o: "\<forall>r < n_routes tt. by_time_of_day tt r" and srt: "\<And>xs. set (srt xs) = set xs"
    and m: "transports_in_order tt m" and d: "preprocess srt tt prf = Some d" and t: "rides tt t r" "s + 1 < seq_length tt r"
  shows "segment_transports d ! (transport_first_segment d ! t + s) = t" (is ?A)
    and "transport_first_segment d ! t + s < length (segment_transfers d)" (is ?B)
    and "x \<in> set (segment_transfers d ! (transport_first_segment d ! t + s)) \<Longrightarrow> sound_transfer tt prf d t (s + 1) x"
proof -
  let ?n = "n_segments tt" and ?segs = "transport_segments srt tt prf"
  let ?before = "segments_before ?n"
  note D = preprocess_data [OF tt o srt m d]
  note ord = rides_in_order [OF m tt]
  have r: "transport_route tt ! t = r" by (rule rides_route [OF tt t(1)])
  have s: "t < m" "s < ?n t" using ord t r by auto
  have "replicate (?n t) t ! s = t" using s by simp
  then show ?A using nth_concat_segments [of m "\<lambda>t. replicate (?n t) t" ?n t s] s D(3) D(1) [OF s(1)] by simp
  have len: "length (?segs u) = ?n u" if "u < m" for u
    using transport_segments_ok [OF tt o srt] that ord by blast
  have src: "concat (map ?segs [0..<m]) ! (?before t + s) = ?segs t ! s" by (rule nth_concat_segments) (use len s in auto)
  have lt: "?before t + s < length (concat (map ?segs [0..<m]))"
  proof -
    have "length (concat (map ?segs [0..<m])) = ?before m" by (rule length_concat_segments) (use len in simp)
    moreover have "?before (Suc t) \<le> ?before m" by (rule segments_before_mono) (use s in simp)
    ultimately show ?thesis using s by simp
  qed
  then show ?B using list_all2_lengthD [OF D(4)] D(1) [OF s(1)] by simp
  assume x: "x \<in> set (segment_transfers d ! (transport_first_segment d ! t + s))"
  from lt have "list_all2 (encodes tt (transport_first_segment d) (tb_bitfields d)) (?segs t ! s) (segment_transfers d ! (?before t + s))"
    using list_all2_nthD [OF D(4)] by (metis src)
  then obtain y where y: "y \<in> set (?segs t ! s)" "encodes tt (transport_first_segment d) (tb_bitfields d) y x"
    using list_all2_in_set [OF _ x] D(1) [OF s(1)] by auto
  have "transfer_ok tt prf t (s + 1) y"
    using transport_segments_ok [OF tt o srt t(1)] y(1) s(2) r by (auto simp: segs_ok_def)
  then show "sound_transfer tt prf d t (s + 1) x"
    using y(2) unfolding sound_transfer_def transfer_ok_def encodes_def feasible_def Let_def
    by (intro exI [of _ "xt_transport y"] exI [of _ "xt_stop y"]) simp
qed

end
