(* ===== verification/Tb_Sound.thy ===== *)
theory Tb_Sound
  imports Tb_Query Tb_Transfers Raptor_Search
begin

text \<open>
  What the journeys of the trip-based search mean, and that the engine keeps to it: the rules of
  travelling with scheduled transports (\<open>tb_boarded\<close>, \<open>tb_arrives\<close>), the invariants of the queue and
  of the arrival times, and the contract of the interval search.
\<close>

unbundle bit_operations_syntax

section \<open>Travelling\<close>

text \<open>Walking from \<open>l\<close> to the destination takes \<open>w\<close> minutes.\<close>

definition walk_to_dest :: "tb_engine \<Rightarrow> nat \<Rightarrow> int \<Rightarrow> bool" where
  "walk_to_dest c l w \<longleftrightarrow>
     (if te_dist_to_dest c = []
      then \<exists>dest < length (te_is_dest c). te_is_dest c ! dest \<and>
        (l = dest \<and> w = 0 \<or> (\<exists>fp \<in> set (footpaths_in (te_tt c) ! tb_prf_idx (te_data c) ! dest). fp_target fp = l \<and> fp_duration fp = w))
      else l < length (te_dist_to_dest c) \<and> te_dist_to_dest c ! l \<noteq> kUnreachable \<and> w = i16 (int (te_dist_to_dest c ! l)))"

definition start_in_range :: "timetable \<Rightarrow> start \<Rightarrow> bool" where
  "start_in_range tt st \<longleftrightarrow> 0 \<le> time_at_stop st - ifrom (internal_interval tt) \<and>
     time_at_stop st - ifrom (internal_interval tt) < 65535 * 1440"

text \<open>Transport \<open>t\<close> of day \<open>d\<close> is boarded at its stop \<open>i\<close>, after \<open>k\<close> transfers.\<close>

inductive tb_boarded :: "tb_engine \<Rightarrow> start set \<Rightarrow> nat \<Rightarrow> nat \<Rightarrow> nat \<Rightarrow> nat \<Rightarrow> bool" for c S where
  board: "st \<in> S \<Longrightarrow> rides (te_tt c) t r \<Longrightarrow> i + 1 < seq_length (te_tt c) r \<Longrightarrow> stop_in (seq_stop (te_tt c) r i) \<Longrightarrow>
    stop_loc (seq_stop (te_tt c) r i) = start_stop st \<Longrightarrow> is_transport_active (te_tt c) t d \<Longrightarrow>
    (start_in_range (te_tt c) st \<Longrightarrow> time_at_stop st \<le> event_time (te_tt c) \<lparr>t_idx = t, t_day = d\<rparr> i Dep) \<Longrightarrow>
    tb_boarded c S 0 t i d"
| change: "tb_boarded c S k t j d \<Longrightarrow> rides (te_tt c) t r \<Longrightarrow> j < i \<Longrightarrow> i < seq_length (te_tt c) r \<Longrightarrow>
    stop_out (seq_stop (te_tt c) r i) \<Longrightarrow>
    rides (te_tt c) u r' \<Longrightarrow> j' + 1 < seq_length (te_tt c) r' \<Longrightarrow> stop_in (seq_stop (te_tt c) r' j') \<Longrightarrow>
    is_transport_active (te_tt c) u d' \<Longrightarrow>
    l = stop_loc (seq_stop (te_tt c) r i) \<Longrightarrow>
    fp \<in> set (\<lparr>fp_target = l, fp_duration = transfer_time (te_tt c) ! l\<rparr> # footpaths_out (te_tt c) ! tb_prf_idx (te_data c) ! l) \<Longrightarrow>
    fp_target fp = stop_loc (seq_stop (te_tt c) r' j') \<Longrightarrow>
    event_time (te_tt c) \<lparr>t_idx = t, t_day = d\<rparr> i Arr + fp_duration fp \<le> event_time (te_tt c) \<lparr>t_idx = u, t_day = d'\<rparr> j' Dep \<Longrightarrow>
    tb_boarded c S (Suc k) u j' d'"

definition tb_arrives :: "tb_engine \<Rightarrow> start set \<Rightarrow> nat \<Rightarrow> int \<Rightarrow> bool" where
  "tb_arrives c S k time \<longleftrightarrow>
     (\<exists>t j d r i w. tb_boarded c S k t j d \<and> rides (te_tt c) t r \<and> j < i \<and> i < seq_length (te_tt c) r \<and>
        stop_out (seq_stop (te_tt c) r i) \<and> walk_to_dest c (stop_loc (seq_stop (te_tt c) r i)) w \<and>
        time = event_time (te_tt c) \<lparr>t_idx = t, t_day = d\<rparr> i Arr + w)"

definition tb_journey_ok :: "tb_engine \<Rightarrow> start set \<Rightarrow> int \<Rightarrow> journey \<Rightarrow> bool" where
  "tb_journey_ok c S t j \<longleftrightarrow> j_start_time j = t \<and> j_transfers j < kMaxTransfers \<and>
     (\<exists>k \<le> j_transfers j. tb_arrives c S k (j_dest_time j))"

lemma tb_boarded_mono: "tb_boarded c S k t i d \<Longrightarrow> S \<subseteq> S' \<Longrightarrow> tb_boarded c S' k t i d"
  by (induction rule: tb_boarded.induct) (auto intro: tb_boarded.intros)

lemma tb_arrives_mono: "tb_arrives c S k time \<Longrightarrow> S \<subseteq> S' \<Longrightarrow> tb_arrives c S' k time"
  unfolding tb_arrives_def using tb_boarded_mono by blast

lemma tb_journey_ok_mono: "tb_journey_ok c S t j \<Longrightarrow> S \<subseteq> S' \<Longrightarrow> tb_journey_ok c S' t j"
  unfolding tb_journey_ok_def using tb_arrives_mono by blast

section \<open>What the engine needs\<close>

definition tb_sound :: "timetable \<Rightarrow> nat \<Rightarrow> tb_data \<Rightarrow> bool" where
  "tb_sound tt prf d \<longleftrightarrow> (\<forall>t r s. rides tt t r \<longrightarrow> s + 1 < seq_length tt r \<longrightarrow>
     (let segment = transport_first_segment d ! t + s
      in segment_transports d ! segment = t \<and> segment < length (segment_transfers d) \<and> (\<forall>x \<in> set (segment_transfers d ! segment). sound_transfer tt prf d t (s + 1) x)))"

definition engine_ok :: "tb_engine \<Rightarrow> bool" where
  "engine_ok c \<longleftrightarrow> tb_timetable (te_tt c) (tb_prf_idx (te_data c)) \<and>
     tb_sound (te_tt c) (tb_prf_idx (te_data c)) (te_data c) \<and> te_base c + 32 < 65536 \<and>
     (\<forall>r < n_routes (te_tt c). seq_length (te_tt c) r \<le> 4096) \<and>
     (\<forall>t r i ev. rides (te_tt c) t r \<longrightarrow> event_idx i ev < 2 * seq_length (te_tt c) r - 2 \<longrightarrow>
        event_minutes (te_tt c) t i ev < 32768)"

lemma engine_event_time:
  assumes "engine_ok c" "rides (te_tt c) t r" "event_idx i ev < 2 * seq_length (te_tt c) r - 2"
  shows "event_time (te_tt c) \<lparr>t_idx = t, t_day = d\<rparr> i ev =
    (ifrom (internal_interval_days (te_tt c)) + int d) * 1440 + event_minutes (te_tt c) t i ev"
proof -
  have "delta_norm (event_mam (te_tt c) t i ev)" "event_minutes (te_tt c) t i ev < 32768"
    using assms event_norm [OF _ assms(2,3)] unfolding engine_ok_def by blast+
  then show ?thesis by (simp add: event_time_def event_minutes_def as_duration_minutes)
qed

lemma wf_segment:
  assumes "engine_ok c" "rides (te_tt c) t r" "s + 1 < seq_length (te_tt c) r"
  defines "segment \<equiv> transport_first_segment (te_data c) ! t + s"
  shows "segment_transport c segment = t" "segment_stop c segment = s + 1" "segment < length (segment_transfers (te_data c))"
    "x \<in> set (segment_transfers (te_data c) ! segment) \<Longrightarrow> sound_transfer (te_tt c) (tb_prf_idx (te_data c)) (te_data c) t (s + 1) x"
proof -
  have s: "tb_sound (te_tt c) (tb_prf_idx (te_data c)) (te_data c)" "seq_length (te_tt c) r \<le> 4096"
    using assms(1,2) by (auto simp: engine_ok_def rides_def)
  from s(1) assms(2,3) have *: "segment_transports (te_data c) ! segment = t" "segment < length (segment_transfers (te_data c))"
    "\<forall>x \<in> set (segment_transfers (te_data c) ! segment). sound_transfer (te_tt c) (tb_prf_idx (te_data c)) (te_data c) t (s + 1) x"
    unfolding tb_sound_def segment_def Let_def by blast+
  then show "segment_transport c segment = t" "segment < length (segment_transfers (te_data c))" by (simp_all add: segment_transport_def)
  with s(2) assms(3) show "segment_stop c segment = s + 1" by (simp add: segment_stop_def segment_def)
  show "x \<in> set (segment_transfers (te_data c) ! segment) \<Longrightarrow> sound_transfer (te_tt c) (tb_prf_idx (te_data c)) (te_data c) t (s + 1) x"
    using * by blast
qed

section \<open>The queue\<close>

definition entry_ok :: "tb_engine \<Rightarrow> start set \<Rightarrow> nat \<Rightarrow> queue_entry \<Rightarrow> bool" where
  "entry_ok c S k e \<longleftrightarrow>
     (\<exists>u r j n. rides (te_tt c) u r \<and> j + 1 < seq_length (te_tt c) r \<and> n < seq_length (te_tt c) r \<and> j \<le> n \<and>
        qe_segments e = mk_iv (transport_first_segment (te_data c) ! u + j) (transport_first_segment (te_data c) ! u + n) \<and>
        qe_day_offset e < 32 \<and> tb_boarded c S k u j (entry_day c e))"

lemma entry_okI:
  assumes "rides (te_tt c) u r" "j + 1 < seq_length (te_tt c) r" "n < seq_length (te_tt c) r" "j \<le> n"
    "qe_segments e = mk_iv (transport_first_segment (te_data c) ! u + j) (transport_first_segment (te_data c) ! u + n)"
    "qe_day_offset e < 32" "tb_boarded c S k u j (entry_day c e)"
  shows "entry_ok c S k e"
  using assms unfolding entry_ok_def by blast

lemma mk_entry_fields [simp]: "qe_segments (mk_entry iv p off) = iv" "qe_day_offset (mk_entry iv p off) < 32"
  by (simp_all add: mk_entry_def nat_less_iff)

lemma fold_le: "(\<And>e m. f e m \<le> m) \<Longrightarrow> fold f es m \<le> (m :: nat)"
  by (induction es arbitrary: m) (auto intro: le_trans)

lemma reached_query_le: "reached_query tt r t_offset off k d \<le> nat (u16 (int (seq_length tt r) - 1))"
  unfolding reached_query_def by (rule fold_le) simp

lemma reached_query_less: "0 < seq_length tt r \<Longrightarrow> seq_length tt r \<le> 4096 \<Longrightarrow> reached_query tt r t_offset off k d < seq_length tt r"
  using reached_query_le [of tt r t_offset off k d] by (cases "seq_length tt r") simp_all

lemma u16_small:
  assumes "nat (u16 x) < 512" "- 32 < x" "x < 65536"
  shows "0 \<le> x" "u16 x = x"
proof -
  show "0 \<le> x"
  proof (rule ccontr)
    assume "\<not> 0 \<le> x"
    then have "u16 (x + 2 ^ 16) = x + 2 ^ 16" using assms(2) by (intro wrap_u_id) auto
    then have "u16 x = x + 2 ^ 16" by (simp add: wrap_u_def)
    with assms(1,2) show False by simp
  qed
  then show "u16 x = x" using assms(3) by simp
qed

lemma entry_day_mk:
  assumes "0 \<le> off" "off < 8" "te_base c + 32 < 65536"
  shows "entry_day c (mk_entry iv p off) = te_base c + nat off"
  using assms by (simp add: entry_day_def mk_entry_def nat_add_distrib)

lemma earliest_transport_ok:
  assumes tt: "tb_timetable tt prf" "r < n_routes tt" and i: "i + 1 < seq_length tt r"
    and et: "tt_earliest_transport Forward tt r i dy m (\<lambda>_ _. False) = Some e"
  shows "rides tt (t_idx e) r \<and> is_transport_active tt (t_idx e) (t_day e) \<and>
    (0 \<le> m \<and> m < 1440 \<and> dy < 65535 \<longrightarrow> int dy * 1440 + m \<le> int (t_day e) * 1440 + event_minutes tt (t_idx e) i Dep)"
proof -
  let ?evs = "et_list (event_times_at_stop tt r i Dep)"
  have day: "rides tt (t_idx e) r \<and> is_transport_active tt (t_idx e) (t_day e) \<and>
      int d * 1440 + (if n = 0 then m else 0) \<le> int (t_day e) * 1440 + event_minutes tt (t_idx e) i Dep"
    if "et_day Forward tt r ?evs n d m (\<lambda>_ _. False) ps = Some (Some e)" "\<forall>p \<in> set ps. p < length ?evs" "d < 65536" for n d ps
    using that
  proof (induction ps)
    case (Cons p ps)
    let ?u = "iv_nth (route_transport_ranges tt ! r) p"
    have p: "p < length ?evs" using Cons.prems(2) by simp
    note ev = route_events [OF tt i p]
    show ?case
    proof (cases "(n = 0 \<and> \<not> m \<le> mam (?evs ! p)) \<or> \<not> is_transport_active tt ?u (nat (u16 (int d - days (?evs ! p))))")
      case True
      then have "et_day Forward tt r ?evs n d m (\<lambda>_ _. False) ps = Some (Some e)"
        using Cons.prems(1) by (auto simp: Let_def et_offset_def is_better_or_eq_def split: if_splits)
      from Cons.IH [OF this] Cons.prems show ?thesis by simp
    next
      case False
      then have e: "e = \<lparr>t_idx = ?u, t_day = nat (u16 (int d - days (?evs ! p)))\<rparr>"
        using Cons.prems(1) by (auto simp: Let_def et_offset_def is_better_or_eq_def split: if_splits)
      have "nat (u16 (int d - days (?evs ! p))) < 512"
        using False bit_imp_le_length unfolding is_transport_active_def by fastforce
      moreover have "0 \<le> days (?evs ! p)" "days (?evs ! p) < 32" "0 \<le> mam (?evs ! p)"
        using ev by (simp_all add: delta_norm_def)
      ultimately have "0 \<le> int d - days (?evs ! p)" "u16 (int d - days (?evs ! p)) = int d - days (?evs ! p)"
        using u16_small [of "int d - days (?evs ! p)"] Cons.prems(3) by linarith+
      then show ?thesis using e False ev \<open>0 \<le> mam (?evs ! p)\<close>
        by (auto simp: event_minutes_def delta_minutes_def algebra_simps)
    qed
  qed simp
  let ?day = "\<lambda>n. nat (u16 (int dy + int n))"
  have rng: "\<forall>p \<in> set [f..<length ?evs]. p < length ?evs" for f by simp
  have d: "?day 0 = dy" "?day (Suc 0) = dy + 1" if "dy < 65535" using that by (simp_all add: nat_add_distrib)
  have lt: "?day n < 65536" for n using wrap_u_bound [of 16 "int dy + int n"] by (simp add: nat_less_iff)
  from et consider f where "et_day Forward tt r ?evs 0 (?day 0) m (\<lambda>_ _. False) [f..<length ?evs] = Some (Some e)"
    | "et_day Forward tt r ?evs (Suc 0) (?day (Suc 0)) m (\<lambda>_ _. False) [0..<length ?evs] = Some (Some e)"
    by (auto simp: tt_earliest_transport_def numeral_2_eq_2 Let_def split: option.splits)
  then show ?thesis
  proof cases
    case 1
    from day [OF this rng lt] show ?thesis using d by auto
  next
    case 2
    from day [OF this rng lt] show ?thesis using d by auto
  qed
qed

text \<open>What the engine keeps while a search runs: marked segments end at stops from which the
  destination can be walked to in the time noted.\<close>

definition dest_marked :: "tb_engine \<Rightarrow> (nat \<Rightarrow> int option) \<Rightarrow> nat \<Rightarrow> bool" where
  "dest_marked c dist segment \<longleftrightarrow> (\<exists>w. dist segment = Some w \<and>
     (\<forall>t r s. rides (te_tt c) t r \<longrightarrow> s + 1 < seq_length (te_tt c) r \<longrightarrow> segment = transport_first_segment (te_data c) ! t + s \<longrightarrow>
        stop_out (seq_stop (te_tt c) r (s + 1)) \<and> walk_to_dest c (stop_loc (seq_stop (te_tt c) r (s + 1))) w))"

definition marks_ok :: "tb_engine \<Rightarrow> tb_state \<Rightarrow> bool" where
  "marks_ok c s \<longleftrightarrow> (\<forall>segment < length (tq_end_reachable s). tq_end_reachable s ! segment \<longrightarrow> dest_marked c (tq_dist s) segment)"

definition arrivals_ok :: "tb_engine \<Rightarrow> start set \<Rightarrow> tb_state \<Rightarrow> bool" where
  "arrivals_ok c S s \<longleftrightarrow> length (t_min s) = kMaxTransfers + 1 \<and> length (tq_parent s) = kMaxTransfers + 1 \<and>
     (\<forall>n < kMaxTransfers. tq_parent s ! n \<noteq> kNoParent \<longrightarrow> (\<exists>k \<le> n. tb_arrives c S k (t_min s ! n)))"

definition tb_idle :: "tb_engine \<Rightarrow> start set \<Rightarrow> tb_state \<Rightarrow> bool" where
  "tb_idle c S s \<longleftrightarrow> engine_ok c \<and> marks_ok c s \<and> length (tq_end_reachable s) = length (segment_transfers (te_data c)) \<and> arrivals_ok c S s"

definition tb_ready :: "tb_engine \<Rightarrow> start set \<Rightarrow> tb_state \<Rightarrow> bool" where
  "tb_ready c S s \<longleftrightarrow> tb_idle c S s \<and> (\<forall>e \<in> set (tq_queue s). entry_ok c S 0 e)"

lemma entry_ok_mono: "entry_ok c S k e \<Longrightarrow> S \<subseteq> S' \<Longrightarrow> entry_ok c S' k e"
  unfolding entry_ok_def using tb_boarded_mono by blast

lemma tb_idle_mono: "tb_idle c S s \<Longrightarrow> S \<subseteq> S' \<Longrightarrow> tb_idle c S' s"
  unfolding tb_idle_def arrivals_ok_def using tb_arrives_mono by blast

lemma tb_ready_mono: "tb_ready c S s \<Longrightarrow> S \<subseteq> S' \<Longrightarrow> tb_ready c S' s"
  by (simp add: tb_ready_def tb_idle_mono [of c S] entry_ok_mono [of c S])

section \<open>Starting\<close>

lemma with_queue_idle: "tb_idle c S (with_queue f s) \<longleftrightarrow> tb_idle c S s"
  by (simp add: with_queue_def tb_idle_def marks_ok_def arrivals_ok_def split: prod.split)

lemma with_queue_entries: "tq_queue (with_queue f s) = snd (f (tq_reached s, tq_queue s))"
  by (simp add: with_queue_def split: prod.split)

lemma initial_enqueue_ok:
  assumes c: "engine_ok c" and t: "rides (te_tt c) t r" "i + 1 < seq_length (te_tt c) r"
    and off: "0 \<le> off" "off < kTBMaxDayOffset" and b: "tb_boarded c S 0 t i (te_base c + nat off)"
    and q: "\<forall>e \<in> set q. entry_ok c S 0 e"
  defines "first \<equiv> transport_first_segment (te_data c) ! t"
  shows "\<forall>e \<in> set (snd (initial_enqueue (te_tt c) first (first + i) r t off (rs, q))). entry_ok c S 0 e"
proof -
  let ?q = "reached_query (te_tt c) r ((t - ifrom (route_transport_ranges (te_tt c) ! r)) mod 2 ^ 16) off 0 rs"
  let ?e = "mk_entry (mk_iv (first + i) (first + ?q)) kNoParent off"
  have len: "seq_length (te_tt c) r \<le> 4096" using c t(1) by (auto simp: engine_ok_def rides_def)
  then have i: "i mod 65536 = i" using t(2) by simp
  have "entry_ok c S 0 ?e" if "i < ?q"
  proof -
    have "?q < seq_length (te_tt c) r" by (rule reached_query_less) (use len t(2) in linarith)+
    moreover have "entry_day c ?e = te_base c + nat off"
      by (rule entry_day_mk) (use off c in \<open>simp_all add: kTBMaxDayOffset_def engine_ok_def\<close>)
    ultimately show ?thesis using b that by (intro entry_okI [OF t]) (simp_all add: first_def)
  qed
  then show ?thesis using q by (auto simp: initial_enqueue_def Let_def i simp del: One_nat_def split: if_splits)
qed

lemma day_bound: "x - a * 1440 < 65535 * 1440 \<Longrightarrow> (a + int d) * 1440 + m = x \<Longrightarrow> 0 \<le> m \<Longrightarrow> d < 65535"
  by (simp add: distrib_right)

lemma start_at_stop_ready:
  assumes c: "engine_ok c" and r: "r < n_routes (te_tt c)" and i: "i + 1 < seq_length (te_tt c) r"
    and s: "tb_ready c S s" and st: "st \<in> S" and dm: "day_idx_mam (te_tt c) (time_at_stop st) = (dy, m)"
  shows "tb_ready c S (start_at_stop c (start_stop st) dy m r i s)"
proof -
  let ?tt = "te_tt c"
  have tt: "tb_timetable ?tt (tb_prf_idx (te_data c))" using c by (simp add: engine_ok_def)
  show ?thesis
  proof (cases "stop_in (seq_stop ?tt r i) \<and> stop_loc (seq_stop ?tt r i) = start_stop st")
    case stp: True
    show ?thesis
    proof (cases "tt_earliest_transport Forward ?tt r i dy m (\<lambda>_ _. False)")
      case None
      with s show ?thesis by (simp add: start_at_stop_def Let_def)
    next
      case (Some et)
      let ?off = "int (t_day et) - int (te_base c)"
      from earliest_transport_ok [OF tt r i Some] have et: "rides ?tt (t_idx et) r" "is_transport_active ?tt (t_idx et) (t_day et)"
        "0 \<le> m \<and> m < 1440 \<and> dy < 65535 \<longrightarrow> int dy * 1440 + m \<le> int (t_day et) * 1440 + event_minutes ?tt (t_idx et) i Dep" by blast+
      have dep: "time_at_stop st \<le> event_time ?tt \<lparr>t_idx = t_idx et, t_day = t_day et\<rparr> i Dep" if "start_in_range ?tt st"
      proof -
        have t: "ifrom (internal_interval ?tt) \<le> time_at_stop st" "time_at_stop st < ifrom (internal_interval ?tt) + 65536 * 1440"
          using that by (simp_all add: start_in_range_def)
        from day_idx_mam_roundtrip [OF t, unfolded dm fst_conv snd_conv]
        have rt: "0 \<le> m" "m < 1440" "to_unixtime ?tt dy m = time_at_stop st" by blast+
        have eq: "(ifrom (internal_interval_days ?tt) + int dy) * 1440 + m = time_at_stop st"
          using rt(3) by (simp add: to_unixtime_def)
        have iv: "ifrom (internal_interval ?tt) = ifrom (internal_interval_days ?tt) * 1440"
          by (simp add: internal_interval_days_def internal_interval_def mk_iv_def)
        have "time_at_stop st - ifrom (internal_interval_days ?tt) * 1440 < 65535 * 1440"
          using that by (simp add: start_in_range_def iv)
        then have "dy < 65535" using eq rt(1) by (rule day_bound)
        with et(3) rt(1,2) have "int dy * 1440 + m \<le> int (t_day et) * 1440 + event_minutes ?tt (t_idx et) i Dep" by blast
        moreover have "event_idx i Dep < 2 * seq_length ?tt r - 2" using i by simp
        from engine_event_time [OF c et(1) this, of "t_day et"]
        have "event_time ?tt \<lparr>t_idx = t_idx et, t_day = t_day et\<rparr> i Dep =
          (ifrom (internal_interval_days ?tt) + int (t_day et)) * 1440 + event_minutes ?tt (t_idx et) i Dep" .
        ultimately show ?thesis using eq by (simp add: distrib_right)
      qed
      show ?thesis
      proof (cases "?off < 0 \<or> ?off \<ge> kTBMaxDayOffset")
        case True
        with s Some show ?thesis by (auto simp: start_at_stop_def Let_def)
      next
        case False
        have day: "te_base c + nat ?off = t_day et" using False by linarith
        have "tb_boarded c S 0 (t_idx et) i (te_base c + nat ?off)" unfolding day
          by (rule tb_boarded.board [OF st et(1) i _ _ et(2) dep]) (use stp in simp_all)
        from initial_enqueue_ok [OF c et(1) i _ _ this, of "tq_queue s" "tq_reached s"] False s
        show ?thesis using stp Some
          by (simp add: start_at_stop_def tb_ready_def with_queue_idle with_queue_entries Let_def)
      qed
    qed
  next
    case False
    with s show ?thesis by (auto simp: start_at_stop_def Let_def)
  qed
qed

lemma tb_add_start_ready:
  assumes s: "tb_ready c S s" and l: "start_stop st < n_locations (te_tt c)"
  shows "tb_ready c (insert st S) (tb_add_start c (start_stop st) (time_at_stop st) v s)"
proof -
  let ?S = "insert st S"
  obtain dy m where dm: "day_idx_mam (te_tt c) (time_at_stop st) = (dy, m)" by fastforce
  have c: "engine_ok c" "tb_timetable (te_tt c) (tb_prf_idx (te_data c))" using s by (simp_all add: tb_ready_def tb_idle_def engine_ok_def)
  have "tb_ready c ?S s" using s by (rule tb_ready_mono) (rule subset_insertI)
  then have "tb_ready c ?S (fold (\<lambda>r. fold (start_at_stop c (start_stop st) dy m r) [0..<seq_length (te_tt c) r - 1])
      (location_routes (te_tt c) ! start_stop st) s)"
  proof (rule for_set_fold_invariant [where P = "tb_ready c ?S"])
    fix r s assume r: "r \<in> set (location_routes (te_tt c) ! start_stop st)" and s: "tb_ready c ?S s"
    have "r < n_routes (te_tt c)" using tb_timetableD(2) [OF c(2) l r] .
    note step = start_at_stop_ready [OF c(1) this _ _ _ dm, where S = ?S]
    have "tb_ready c ?S (start_at_stop c (start_stop st) dy m r i s)"
      if "i \<in> set [0..<seq_length (te_tt c) r - 1]" "tb_ready c ?S s" for i s
    proof (rule step)
      show "i + 1 < seq_length (te_tt c) r" using that(1) by simp
    qed (use that(2) in simp_all)
    then show "tb_ready c ?S (fold (start_at_stop c (start_stop st) dy m r) [0..<seq_length (te_tt c) r - 1] s)"
      by (rule for_set_fold_invariant [where P = "tb_ready c ?S", OF s])
  qed
  then show ?thesis by (simp add: tb_add_start_def dm)
qed

section \<open>Enqueuing transfers\<close>

lemma enqueue_ok:
  assumes c: "engine_ok c" and u: "rides (te_tt c) u r" "j + 1 < seq_length (te_tt c) r" and b: "tb_boarded c S k u j (entry_day c (q ! p))"
    and e: "qe_day_offset (q ! p) < 32"
    and i: "j \<le> i" "i + 1 < seq_length (te_tt c) r" and x: "sound_transfer (te_tt c) (tb_prf_idx (te_data c)) (te_data c) u (i + 1) x"
    and act: "bit (tb_bitfields (te_data c) ! tr_traffic_days x) (entry_day c (q ! p))"
    and q: "snd (enqueue (te_tt c) x p k' (rs, q)) = q @ es" "e' \<in> set es"
  shows "entry_ok c S (Suc k) e'"
proof -
  let ?tt = "te_tt c" and ?d = "te_data c"
  let ?off = "int (qe_day_offset (q ! p)) + get_day_offset x"
  let ?q = "reached_query ?tt (tr_route x) (transport_offset x) ?off k' rs"
  let ?e = "mk_entry (mk_iv (to_segment x) (to_segment x - to_segment_offset x + ?q)) p ?off"
  note tt = c [unfolded engine_ok_def, THEN conjunct1]
  obtain v j' where v: "rides ?tt v (tr_route x)" "j' + 1 < seq_length ?tt (tr_route x)"
    "to_segment x = transport_first_segment ?d ! v + j'" "to_segment_offset x = j' mod 2 ^ 12"
    "feasible ?tt (tb_prf_idx ?d) u (i + 1) v j' (get_day_offset x)"
    "runs ?tt v (int (entry_day c (q ! p)) + get_day_offset x)"
    using x act unfolding sound_transfer_def by blast
  have len: "seq_length ?tt (tr_route x) \<le> 4096" using c v(1) by (auto simp: engine_ok_def rides_def)
  then have off: "to_segment_offset x = j'" using v(2,4) by simp
  have "e' = ?e \<and> j' < ?q \<and> 0 < ?off \<and> ?off < kTBMaxDayOffset"
    using q by (auto simp: enqueue_def Let_def off split: if_splits)
  moreover have "entry_ok c S (Suc k) ?e" if p: "j' < ?q" "0 < ?off" "?off < kTBMaxDayOffset"
  proof -
    have base: "te_base c + 32 < 65536" using c by (simp add: engine_ok_def)
    then have old: "entry_day c (q ! p) = te_base c + qe_day_offset (q ! p)" using e by (simp add: entry_day_def)
    have new: "entry_day c ?e = te_base c + nat ?off"
      by (rule entry_day_mk) (use p base in \<open>simp_all add: kTBMaxDayOffset_def\<close>)
    have day: "int (entry_day c ?e) = int (entry_day c (q ! p)) + get_day_offset x" using p(2) unfolding old new by simp
    have routes: "transport_route ?tt ! u = r" "transport_route ?tt ! v = tr_route x"
      using rides_route [OF tt u(1)] rides_route [OF tt v(1)] by blast+
    from v(5) obtain fp where fp: "stop_out (seq_stop ?tt r (i + 1))" "stop_in (seq_stop ?tt (tr_route x) j')"
      "fp \<in> set (\<lparr>fp_target = stop_loc (seq_stop ?tt r (i + 1)), fp_duration = transfer_time ?tt ! stop_loc (seq_stop ?tt r (i + 1))\<rparr>
         # footpaths_out ?tt ! tb_prf_idx ?d ! stop_loc (seq_stop ?tt r (i + 1)))"
      "fp_target fp = stop_loc (seq_stop ?tt (tr_route x) j')"
      "event_minutes ?tt u (i + 1) Arr + fp_duration fp \<le> get_day_offset x * 1440 + event_minutes ?tt v j' Dep"
      unfolding feasible_def routes Let_def by blast
    have arr: "event_time ?tt \<lparr>t_idx = u, t_day = entry_day c (q ! p)\<rparr> (i + 1) Arr =
        (ifrom (internal_interval_days ?tt) + int (entry_day c (q ! p))) * 1440 + event_minutes ?tt u (i + 1) Arr"
      by (rule engine_event_time [OF c u(1)]) (use i(2) in \<open>simp add: event_idx_def\<close>)
    have dep: "event_time ?tt \<lparr>t_idx = v, t_day = entry_day c ?e\<rparr> j' Dep =
        (ifrom (internal_interval_days ?tt) + int (entry_day c ?e)) * 1440 + event_minutes ?tt v j' Dep"
      by (rule engine_event_time [OF c v(1)]) (use v(2) in \<open>simp add: event_idx_def\<close>)
    have act: "is_transport_active ?tt v (entry_day c ?e)" using v(6) unfolding runs_def day [symmetric] by simp
    have time: "event_time ?tt \<lparr>t_idx = u, t_day = entry_day c (q ! p)\<rparr> (i + 1) Arr + fp_duration fp \<le>
        event_time ?tt \<lparr>t_idx = v, t_day = entry_day c ?e\<rparr> j' Dep"
      using fp(5) unfolding arr dep day by (simp add: distrib_right)
    have "tb_boarded c S (Suc k) v j' (entry_day c ?e)"
      by (rule tb_boarded.change [OF b u(1) _ i(2) fp(1) v(1,2) fp(2) act refl fp(3,4) time]) (use i(1) in simp)
    moreover have "?q < seq_length ?tt (tr_route x)" by (rule reached_query_less) (use len v(2) in linarith)+
    ultimately show ?thesis using p(1) v(3) off by (intro entry_okI [OF v(1,2)]) simp_all
  qed
  ultimately show ?thesis by blast
qed

section \<open>Rounds\<close>

text \<open>Entries from \<open>lo\<close> to \<open>hi\<close> belong to round \<open>k\<close>, those after \<open>hi\<close> to the next.\<close>

definition round_inv :: "tb_engine \<Rightarrow> start set \<Rightarrow> nat \<Rightarrow> nat \<Rightarrow> nat \<Rightarrow> tb_state \<Rightarrow> bool" where
  "round_inv c S k lo hi s \<longleftrightarrow> tb_idle c S s \<and> hi \<le> length (tq_queue s) \<and>
     (\<forall>i. lo \<le> i \<longrightarrow> i < hi \<longrightarrow> entry_ok c S k (tq_queue s ! i)) \<and>
     (\<forall>i. hi \<le> i \<longrightarrow> i < length (tq_queue s) \<longrightarrow> entry_ok c S (Suc k) (tq_queue s ! i))"

lemma entry_okE:
  assumes "entry_ok c S k e"
  obtains u r j n where "rides (te_tt c) u r" "j + 1 < seq_length (te_tt c) r" "n < seq_length (te_tt c) r" "j \<le> n"
    "qe_segments e = mk_iv (transport_first_segment (te_data c) ! u + j) (transport_first_segment (te_data c) ! u + n)"
    "qe_day_offset e < 32" "tb_boarded c S k u j (entry_day c e)"
  using assms unfolding entry_ok_def by blast

lemma entry_segment:
  assumes "segment \<in> set (iv_list (mk_iv (x + j) (x + n)))"
  obtains i where "segment = x + i" "j \<le> i" "i < n"
proof -
  have "x + j \<le> segment" "segment < x + n" using assms by (simp_all add: iv_list_def mk_iv_def)
  then have "segment = x + (segment - x)" "j \<le> segment - x" "segment - x < n" by linarith+
  then show thesis by (rule that)
qed

lemma improve_t_min_idle:
  assumes "tb_idle c S s" "tb_arrives c S k time" "k \<le> j"
  shows "tb_idle c S (improve_t_min k q time j s)"
proof (cases "t_min s ! j > time")
  case True
  have "length (t_min s) = kMaxTransfers + 1" "length (tq_parent s) = kMaxTransfers + 1"
    "\<forall>n < kMaxTransfers. tq_parent s ! n \<noteq> kNoParent \<longrightarrow> (\<exists>k \<le> n. tb_arrives c S k (t_min s ! n))"
    using assms(1) by (simp_all add: tb_idle_def arrivals_ok_def)
  moreover have "improve_t_min k q time j s =
      s\<lparr>t_min := (t_min s)[j := time], tq_parent := if j = k then (tq_parent s)[j := q] else tq_parent s\<rparr>"
    using True by (simp add: improve_t_min_def Let_def)
  moreover have "\<exists>k' \<le> n. tb_arrives c S k' ((t_min s)[j := time] ! n)"
    if "(if j = k then (tq_parent s)[j := q] else tq_parent s) ! n \<noteq> kNoParent" "n < kMaxTransfers" for n
  proof (cases "n = j")
    case True
    then have "(t_min s)[j := time] ! n = time" using calculation(1) that(2) by simp
    then show ?thesis using assms(2,3) True by auto
  next
    case False
    then have "tq_parent s ! n \<noteq> kNoParent" using that(1) by (simp split: if_splits)
    then show ?thesis using False calculation(3) that(2) by simp
  qed
  ultimately have "arrivals_ok c S (improve_t_min k q time j s)" unfolding arrivals_ok_def by simp
  then show ?thesis using assms(1) by (auto simp: tb_idle_def marks_ok_def improve_t_min_def Let_def)
next
  case False
  with assms(1) show ?thesis by (simp add: improve_t_min_def)
qed

lemma improve_t_min_frame [simp]:
  "tq_queue (improve_t_min k q time j s) = tq_queue s" "tq_dist (improve_t_min k q time j s) = tq_dist s"
  "tq_end_reachable (improve_t_min k q time j s) = tq_end_reachable s" "length (t_min (improve_t_min k q time j s)) = length (t_min s)"
  by (simp_all add: improve_t_min_def Let_def)

lemma fold_improve_frame [simp]:
  "tq_queue (fold (improve_t_min k q time) js s) = tq_queue s" "tq_dist (fold (improve_t_min k q time) js s) = tq_dist s"
  "tq_end_reachable (fold (improve_t_min k q time) js s) = tq_end_reachable s"
  by (induction js arbitrary: s) simp_all

lemma segment_arrives:
  assumes "tb_idle c S s" "entry_ok c S k e" "segment \<in> set (iv_list (qe_segments e))" "tq_end_reachable s ! segment"
  shows "tb_arrives c S k (segment_arrival c segment e + the (tq_dist s segment))"
  using assms(2)
proof (rule entry_okE)
  fix u r j n assume u: "rides (te_tt c) u r" "n < seq_length (te_tt c) r" "tb_boarded c S k u j (entry_day c e)"
    and e: "qe_segments e = mk_iv (transport_first_segment (te_data c) ! u + j) (transport_first_segment (te_data c) ! u + n)"
  obtain i where i: "segment = transport_first_segment (te_data c) ! u + i" "j \<le> i" "i < n"
    using assms(3) unfolding e by (rule entry_segment)
  have i': "i + 1 < seq_length (te_tt c) r" using i(3) u(2) by simp
  have c: "engine_ok c" "marks_ok c s" "length (tq_end_reachable s) = length (segment_transfers (te_data c))"
    using assms(1) by (simp_all add: tb_idle_def)
  note seg = wf_segment [OF c(1) u(1) i', folded i(1)]
  have "dest_marked c (tq_dist s) segment" using c(2,3) seg(3) assms(4) by (simp add: marks_ok_def)
  then obtain w where w: "tq_dist s segment = Some w" "stop_out (seq_stop (te_tt c) r (i + 1))"
    "walk_to_dest c (stop_loc (seq_stop (te_tt c) r (i + 1))) w"
    unfolding dest_marked_def using u(1) i' i(1) by blast
  have time: "segment_arrival c segment e + the (tq_dist s segment) = event_time (te_tt c) \<lparr>t_idx = u, t_day = entry_day c e\<rparr> (i + 1) Arr + w"
    by (simp only: segment_arrival_def seg(1,2) w(1) option.sel)
  have "j < i + 1" using i(2) by simp
  with time u(1,3) i' w(2,3) show ?thesis unfolding tb_arrives_def by blast
qed

lemma seg_dest_frame [simp]: "tq_queue (seg_dest c k q s) = tq_queue s"
proof -
  have "tq_queue (fold (\<lambda>segment s. if \<not> tq_end_reachable s ! segment then s
      else fold (improve_t_min k q (segment_arrival c segment e + the (tq_dist s segment))) [k..<length (t_min s)] s) segs s) = tq_queue s" for e segs s
    by (induction segs arbitrary: s) simp_all
  then show ?thesis unfolding seg_dest_def Let_def .
qed

lemma seg_dest_inv:
  assumes "round_inv c S k lo hi s" "lo \<le> q" "q < hi"
  shows "round_inv c S k lo hi (seg_dest c k q s)"
proof -
  let ?e = "tq_queue s ! q"
  have e: "tb_idle c S s" "entry_ok c S k ?e" using assms unfolding round_inv_def by blast+
  have "tb_idle c S (seg_dest c k q s)"
    unfolding seg_dest_def Let_def
  proof (rule for_set_fold_invariant [where P = "tb_idle c S", OF e(1)])
    fix segment s assume s: "segment \<in> set (iv_list (qe_segments ?e))" "tb_idle c S s"
    show "tb_idle c S (if \<not> tq_end_reachable s ! segment then s
        else fold (improve_t_min k q (segment_arrival c segment ?e + the (tq_dist s segment))) [k..<length (t_min s)] s)"
    proof (cases "tq_end_reachable s ! segment")
      case True
      have "tb_idle c S (fold (improve_t_min k q (segment_arrival c segment ?e + the (tq_dist s segment))) [k..<length (t_min s)] s)"
        by (rule for_set_fold_invariant [where P = "tb_idle c S", OF s(2)])
          (use improve_t_min_idle [OF _ segment_arrives [OF s(2) e(2) s(1) True]] in auto)
      with True show ?thesis by simp
    qed (use s(2) in simp)
  qed
  then show ?thesis using assms(1) by (simp add: round_inv_def)
qed

lemma seg_prune_inv:
  assumes "round_inv c S k lo hi s" "lo \<le> q" "q < hi"
  shows "round_inv c S k lo hi (seg_prune c k q s)"
proof -
  let ?e = "tq_queue s ! q"
  have "entry_ok c S k ?e" using assms by (simp add: round_inv_def)
  then have e: "entry_ok c S k (?e\<lparr>qe_segments := mk_iv (ifrom (qe_segments ?e)) (ifrom (qe_segments ?e))\<rparr>)"
  proof (rule entry_okE)
    fix u r j n assume u: "rides (te_tt c) u r" "j + 1 < seq_length (te_tt c) r" "tb_boarded c S k u j (entry_day c ?e)" "qe_day_offset ?e < 32"
      and e: "qe_segments ?e = mk_iv (transport_first_segment (te_data c) ! u + j) (transport_first_segment (te_data c) ! u + n)"
    have j: "j < seq_length (te_tt c) r" using u(2) by simp
    from u(3,4) show ?thesis by (intro entry_okI [OF u(1,2) j]) (simp_all add: e mk_iv_def entry_day_def)
  qed
  have "tb_idle c S (s\<lparr>tq_queue := q'\<rparr>)" for q' using assms(1) by (simp add: round_inv_def tb_idle_def marks_ok_def arrivals_ok_def)
  then show ?thesis using assms e unfolding seg_prune_def Let_def round_inv_def by (auto simp: nth_list_update)
qed

lemma enqueue_keeps: "\<exists>es. snd (enqueue tt x p k (rs, q)) = q @ es"
  by (simp add: enqueue_def Let_def)

lemma seg_transfers_inv:
  assumes "round_inv c S k lo hi s" "lo \<le> p" "p < hi"
  shows "round_inv c S k lo hi (seg_transfers c k p s)"
proof -
  let ?e = "tq_queue s ! p"
  have c: "engine_ok c" "entry_ok c S k ?e" using assms by (simp_all add: round_inv_def tb_idle_def)
  from c(2) obtain u r j n where u: "rides (te_tt c) u r" "j + 1 < seq_length (te_tt c) r" "n < seq_length (te_tt c) r"
    and e: "qe_segments ?e = mk_iv (transport_first_segment (te_data c) ! u + j) (transport_first_segment (te_data c) ! u + n)"
      "qe_day_offset ?e < 32" "tb_boarded c S k u j (entry_day c ?e)" by (rule entry_okE)
  define P where "P s' \<longleftrightarrow> round_inv c S k lo hi s' \<and> tq_queue s' ! p = ?e" for s'
  have "P (fold (\<lambda>x s. if bit (tb_bitfields (te_data c) ! tr_traffic_days x) (entry_day c ?e)
             then with_queue (enqueue (te_tt c) x p (k + 1)) s else s)
           (concat (map ((!) (segment_transfers (te_data c))) (iv_list (qe_segments ?e)))) s)"
  proof (rule for_set_fold_invariant)
    show "P s" using assms(1) by (simp add: P_def)
    fix x s' assume x: "x \<in> set (concat (map ((!) (segment_transfers (te_data c))) (iv_list (qe_segments ?e))))" and s': "P s'"
    let ?s = "with_queue (enqueue (te_tt c) x p (k + 1)) s'"
    have p: "tq_queue s' ! p = ?e" "round_inv c S k lo hi s'" using s' by (simp_all add: P_def)
    obtain es where es: "tq_queue ?s = tq_queue s' @ es"
      using enqueue_keeps [of "te_tt c" x p "k + 1" "tq_reached s'" "tq_queue s'"] by (auto simp: with_queue_entries)
    have "P ?s" if act: "bit (tb_bitfields (te_data c) ! tr_traffic_days x) (entry_day c ?e)"
    proof -
      obtain segment where "segment \<in> set (iv_list (qe_segments ?e))" "x \<in> set (segment_transfers (te_data c) ! segment)" using x by auto
      from this(1) [unfolded e(1)] obtain i where i: "segment = transport_first_segment (te_data c) ! u + i" "j \<le> i" "i < n"
        by (rule entry_segment)
      have i': "i + 1 < seq_length (te_tt c) r" using i(3) u(3) by simp
      have snd: "sound_transfer (te_tt c) (tb_prf_idx (te_data c)) (te_data c) u (i + 1) x"
        using wf_segment(4) [OF c(1) u(1) i'] \<open>x \<in> set (segment_transfers (te_data c) ! segment)\<close> i(1) by blast
      have new: "entry_ok c S (Suc k) e'" if "e' \<in> set es" for e'
        by (rule enqueue_ok [OF c(1) u(1,2) _ _ i(2) i' snd _ es [unfolded with_queue_entries] that]) (use e(2,3) act p(1) in simp_all)
      have nth: "tq_queue ?s ! i = (if i < length (tq_queue s') then tq_queue s' ! i else es ! (i - length (tq_queue s')))" for i
        unfolding es nth_append by (rule refl)
      have "entry_ok c S (Suc k) (es ! (i - length (tq_queue s')))" if "\<not> i < length (tq_queue s')" "i < length (tq_queue ?s)" for i
        by (rule new, rule nth_mem) (use that in \<open>unfold es, simp\<close>)
      moreover have "length (tq_queue ?s) = length (tq_queue s') + length es" unfolding es by simp
      moreover have "hi \<le> length (tq_queue s')" "tb_idle c S ?s"
        "\<And>i. lo \<le> i \<Longrightarrow> i < hi \<Longrightarrow> entry_ok c S k (tq_queue s' ! i)"
        "\<And>i. hi \<le> i \<Longrightarrow> i < length (tq_queue s') \<Longrightarrow> entry_ok c S (Suc k) (tq_queue s' ! i)"
        using p(2) by (simp_all add: round_inv_def with_queue_idle)
      ultimately show ?thesis using p(1) assms(3) nth unfolding P_def round_inv_def
        by (intro conjI allI impI, simp_all only: if_True order_less_le_trans trans_le_add1 if_split) metis
    qed
    then show "P (if bit (tb_bitfields (te_data c) ! tr_traffic_days x) (entry_day c ?e)
             then with_queue (enqueue (te_tt c) x p (k + 1)) s' else s')" using s' by simp
  qed
  then show ?thesis unfolding P_def seg_transfers_def Let_def by blast
qed

lemma tb_round_inv:
  assumes "round_inv c S k lo hi s"
  shows "round_inv c S k lo hi (tb_round c k [lo..<hi] s)"
proof -
  have step: "round_inv c S k lo hi (fold f [lo..<hi] s)"
    if "\<And>i s. lo \<le> i \<Longrightarrow> i < hi \<Longrightarrow> round_inv c S k lo hi s \<Longrightarrow> round_inv c S k lo hi (f i s)" "round_inv c S k lo hi s" for f s
    by (rule for_set_fold_invariant [where P = "round_inv c S k lo hi", OF that(2)]) (use that(1) in auto)
  show ?thesis unfolding tb_round_def
    by (intro step seg_transfers_inv seg_prune_inv seg_dest_inv assms)
qed

lemma tb_rounds_idle: "round_inv c S k (ifrom round) (ito round) s \<Longrightarrow> ito round = length (tq_queue s) \<Longrightarrow> tb_idle c S (tb_rounds c k round s)"
proof (induction c k round s rule: tb_rounds.induct)
  case (1 c k round s)
  let ?s = "tb_round c k (iv_list round) s"
  show ?case
  proof (cases "k < kMaxTransfers \<and> iv_list round \<noteq> []")
    case True
    have "round_inv c S k (ifrom round) (ito round) ?s" unfolding iv_list_def by (rule tb_round_inv [OF "1.prems"(1)])
    then have "round_inv c S (Suc k) (ito round) (length (tq_queue ?s)) ?s" by (simp add: round_inv_def)
    then have "tb_idle c S (tb_rounds c (k + 1) (mk_iv (ito round) (length (tq_queue ?s))) ?s)"
      by (intro "1.IH" [OF True refl]) (simp_all add: mk_iv_def)
    with True show ?thesis by (subst tb_rounds.simps) (simp add: Let_def)
  next
    case False
    with "1.prems"(1) show ?thesis by (subst tb_rounds.simps) (auto simp: round_inv_def)
  qed
qed

section \<open>Running\<close>

lemma tb_execute_idle:
  assumes ready: "tb_ready c S s" and run: "tb_execute c t m w (s, js) = (s', js')"
  shows "tb_idle c S s' \<and> (\<forall>j \<in> set js'. j \<in> set js \<or> tb_journey_ok c S t j)"
proof -
  define s1 where "s1 = fold (tb_cut_off w) [0..<kMaxTransfers] s"
  have s': "s' = tb_rounds c 0 (mk_iv 0 (length (tq_queue s1))) s1"
    and js': "js' = fold (tb_add_result t s') [0..<kMaxTransfers] js"
    using run by (auto simp: tb_execute_def s1_def Let_def)
  have s1: "tb_ready c S s1" unfolding s1_def
  proof (rule for_set_fold_invariant [where P = "tb_ready c S", OF ready])
    fix k s assume k: "k \<in> set [0..<kMaxTransfers]" and s: "tb_ready c S s"
    have "arrivals_ok c S (tb_cut_off w k s)"
      using s k by (auto simp: tb_cut_off_def tb_ready_def tb_idle_def arrivals_ok_def nth_list_update)
    then show "tb_ready c S (tb_cut_off w k s)" using s by (auto simp: tb_cut_off_def tb_ready_def tb_idle_def marks_ok_def)
  qed
  have "round_inv c S 0 0 (length (tq_queue s1)) s1" using s1 by (simp add: round_inv_def tb_ready_def)
  then have idle: "tb_idle c S s'" unfolding s' by (intro tb_rounds_idle) (simp_all add: mk_iv_def)
  have "\<forall>j \<in> set (fold (tb_add_result t s') [0..<kMaxTransfers] js). j \<in> set js \<or> tb_journey_ok c S t j"
  proof (rule for_set_fold_invariant)
    fix n results assume n: "n \<in> set [0..<kMaxTransfers]" and r: "\<forall>j \<in> set results. j \<in> set js \<or> tb_journey_ok c S t j"
    let ?j = "\<lparr>j_legs = [], j_start_time = t, j_dest_time = t_min s' ! n, j_dest = 4294967295,
         j_transfers = n, j_error = False, j_is_reconstructed = False\<rparr>"
    show "\<forall>j \<in> set (tb_add_result t s' n results). j \<in> set js \<or> tb_journey_ok c S t j"
    proof (cases "tq_parent s' ! n \<noteq> kNoParent")
      case True
      then have "tb_journey_ok c S t ?j" using idle n by (simp add: tb_idle_def arrivals_ok_def tb_journey_ok_def)
      then show ?thesis using True r pareto_add_set [of j_dominates results ?j] by (auto simp: tb_add_result_def)
    qed (use r in \<open>simp add: tb_add_result_def\<close>)
  qed simp
  with idle js' show ?thesis by simp
qed

lemma tb_next_start_time_ready: "tb_idle c S s \<Longrightarrow> tb_ready c S (tb_next_start_time s)"
  by (simp add: tb_ready_def tb_next_start_time_def tb_idle_def marks_ok_def arrivals_ok_def)

lemma tb_reset_arrivals_idle: "tb_idle c S s \<Longrightarrow> tb_idle c S' (tb_reset_arrivals c s)"
  by (simp add: tb_reset_arrivals_def tb_idle_def marks_ok_def arrivals_ok_def del: replicate_Suc)

end
