(* ===== verification/Tb_Reconstruct.thy ===== *)
theory Tb_Reconstruct
  imports Tb_Query
begin

text \<open>
  \<open>query_engine::reconstruct\<close> of \<open>src/routing/tb/query_engine.cc\<close>: the legs of a journey from the
  entries of the queue, last leg first. Legs are collected in this order and reversed at the end,
  also when the function throws (\<open>True\<close> in the result). The loop over the parents is bounded by the
  length of the queue: an entry is enqueued after its parent.
\<close>

section \<open>Segments\<close>

definition has_offset :: "timetable \<Rightarrow> offset list \<Rightarrow> location_match_mode \<Rightarrow> nat \<Rightarrow> bool" where
  "has_offset tt offsets mode l = list_ex (\<lambda>o'. matches tt mode (off_target o') l) offsets"

definition full_segment_range :: "tb_engine \<Rightarrow> queue_entry \<Rightarrow> nat interval" where
  "full_segment_range c e =
     mk_iv (ifrom (qe_segments e)) (ito (get_segment_range (te_data c) (segment_transport c (ifrom (qe_segments e)))))"

definition get_arrival_segment :: "tb_engine \<Rightarrow> tb_state \<Rightarrow> nat \<Rightarrow> nat \<Rightarrow> nat option" where
  "get_arrival_segment c s p dest =
     List.find (\<lambda>segment. list_ex (\<lambda>x. to_segment x = dest) (segment_transfers (te_data c) ! segment))
       (iv_list (full_segment_range c (tq_queue s ! p)))"

definition tb_get_fp :: "tb_engine \<Rightarrow> nat \<Rightarrow> nat \<Rightarrow> footpath option" where
  "tb_get_fp c a b =
     (if a = b then Some \<lparr>fp_target = b, fp_duration = transfer_time (te_tt c) ! a\<rparr>
      else List.find (\<lambda>fp. fp_target fp = b) (footpaths_out (te_tt c) ! tb_prf_idx (te_data c) ! a))"

text \<open>\<open>get_transport_info\<close> of the segment on the day of entry \<open>p\<close>: the run, the stop, its location
  and the time.\<close>

definition transport_info :: "tb_engine \<Rightarrow> tb_state \<Rightarrow> nat \<Rightarrow> nat \<Rightarrow> event_type \<Rightarrow> transport \<times> nat \<times> nat \<times> int" where
  "transport_info c s p segment ev =
     (let t = segment_transport c segment; run = \<lparr>t_idx = t, t_day = entry_day c (tq_queue s ! p)\<rparr>;
          i = (segment - transport_first_segment (te_data c) ! t + (if ev = Arr then 1 else 0)) mod 2 ^ 16
      in (run, i, stop_loc (seq_stop (te_tt c) (transport_route (te_tt c) ! t) i), event_time (te_tt c) run i ev))"

definition run_leg :: "tb_engine \<Rightarrow> tb_state \<Rightarrow> nat \<Rightarrow> nat \<Rightarrow> nat \<Rightarrow> leg" where
  "run_leg c s p departure_segment arrival_segment =
     (case transport_info c s p arrival_segment Arr of (run, arr_stop, arr_l, arr_time) \<Rightarrow>
      case transport_info c s p departure_segment Dep of (_, dep_stop, dep_l, dep_time) \<Rightarrow>
        mk_leg Forward dep_l arr_l dep_time arr_time
          (UsesRun (mk_run_enter_exit
            \<lparr>run_t = Some run, run_stop_range = mk_iv 0 (seq_length (te_tt c) (transport_route (te_tt c) ! t_idx run) mod 2 ^ 16),
             run_rt = None\<rparr> dep_stop arr_stop)))"

section \<open>The last leg\<close>

text \<open>\<open>None\<close>: no last leg found, or no offset for it; the code throws in both cases.\<close>

definition last_leg_offset :: "tb_engine \<Rightarrow> tb_state \<Rightarrow> query \<Rightarrow> journey \<Rightarrow> nat \<Rightarrow> leg list option" where
  "last_leg_offset c s q j p =
     (let dep = ifrom (qe_segments (tq_queue s ! p));
          arrival = (\<lambda>segment. snd (snd (snd (transport_info c s p segment Arr))))
      in case List.find (\<lambda>segment. tq_end_reachable s ! segment \<and> arrival segment + the (tq_dist s segment) = arrival_time j)
                (iv_list (full_segment_range c (tq_queue s ! p))) of
           None \<Rightarrow> None
         | Some segment \<Rightarrow>
             let arr_l = fst (snd (snd (transport_info c s p segment Arr)))
             in map_option (\<lambda>o'. [mk_leg Forward arr_l 1 (arrival segment) (arrival_time j) (UsesOffset o'), run_leg c s p dep segment])
                  (List.find (\<lambda>o'. off_target o' = arr_l \<and> off_duration o' = the (tq_dist s segment)) (q_destination q)))"

definition last_leg_footpath :: "tb_engine \<Rightarrow> tb_state \<Rightarrow> query \<Rightarrow> journey \<Rightarrow> nat \<Rightarrow> leg list option" where
  "last_leg_footpath c s q j p =
     (let tt = te_tt c; dep = ifrom (qe_segments (tq_queue s ! p));
          candidates = concat (map (\<lambda>segment.
            if \<not> tq_end_reachable s ! segment then []
            else case transport_info c s p segment Arr of (_, _, arr_l, arr_time) \<Rightarrow>
              map (\<lambda>fp. (segment, arr_l, arr_time, fp))
                (filter (\<lambda>fp. arr_time + fp_duration fp = arrival_time j \<and> has_offset tt (q_destination q) (q_dest_match_mode q) (fp_target fp))
                  (\<lparr>fp_target = arr_l, fp_duration = 0\<rparr> # footpaths_out tt ! tb_prf_idx (te_data c) ! arr_l)))
            (iv_list (full_segment_range c (tq_queue s ! p))))
      in case candidates of
           [] \<Rightarrow> None
         | (segment, arr_l, arr_time, fp) # _ \<Rightarrow>
             Some [mk_leg Forward arr_l (fp_target fp) arr_time (arrival_time j) (UsesFootpath fp), run_leg c s p dep segment])"

definition last_legs :: "tb_engine \<Rightarrow> tb_state \<Rightarrow> query \<Rightarrow> journey \<Rightarrow> nat \<Rightarrow> leg list option" where
  "last_legs c s q j p =
     (if q_dest_match_mode q = kIntermodal then last_leg_offset c s q j p else last_leg_footpath c s q j p)"

section \<open>The legs before\<close>

text \<open>From the entry \<open>p\<close> back to the first; \<open>dep\<close> is the departure segment of the entry that was
  handled before. The flag tells that the function threw.\<close>

primrec transport_legs :: "nat \<Rightarrow> tb_engine \<Rightarrow> tb_state \<Rightarrow> nat \<Rightarrow> nat \<Rightarrow> leg list \<Rightarrow> bool \<times> leg list" where
  "transport_legs 0 c s p dep legs = (False, legs)"
| "transport_legs (Suc fuel) c s p dep legs =
     (if p = kNoParent then (False, legs)
      else case get_arrival_segment c s p dep of
             None \<Rightarrow> (True, legs)
           | Some segment \<Rightarrow>
               (case transport_info c s p segment Arr of (_, _, arr_l, arr_time) \<Rightarrow>
                case tb_get_fp c arr_l (leg_from (last legs)) of
                  None \<Rightarrow> (True, legs)
                | Some fp \<Rightarrow>
                    let e = tq_queue s ! p; dep = ifrom (qe_segments e);
                        legs = legs @ [mk_leg Forward arr_l (leg_from (last legs)) arr_time (arr_time + fp_duration fp) (UsesFootpath fp),
                          run_leg c s p dep segment]
                    in transport_legs fuel c s (qe_parent e) dep legs))"

definition first_leg :: "tb_engine \<Rightarrow> query \<Rightarrow> journey \<Rightarrow> leg list \<Rightarrow> bool \<times> leg list" where
  "first_leg c q j legs =
     (let l = leg_from (last legs); dep_time = leg_dep_time (last legs)
      in if q_start_match_mode q = kIntermodal
         then case List.find (\<lambda>o'. off_target o' = l \<and> j_start_time j + off_duration o' \<le> dep_time) (q_start q) of
                None \<Rightarrow> (True, legs)
              | Some o' \<Rightarrow> (False, legs @ [mk_leg Forward 0 l (dep_time - off_duration o') dep_time (UsesOffset o')])
         else case List.find (\<lambda>fp. j_start_time j + fp_duration fp \<le> dep_time \<and>
                  has_offset (te_tt c) (q_start q) (q_start_match_mode q) (fp_target fp))
                (footpaths_in (te_tt c) ! tb_prf_idx (te_data c) ! l) of
                None \<Rightarrow> (False, legs)
              | Some fp \<Rightarrow> (False, legs @ [mk_leg Forward (fp_target fp) l (dep_time - fp_duration fp) dep_time (UsesFootpath fp)]))"

definition tb_reconstruct :: "tb_engine \<Rightarrow> tb_state \<Rightarrow> query \<Rightarrow> journey \<Rightarrow> bool \<times> journey" where
  "tb_reconstruct c s q j =
     (let p = tq_parent s ! j_transfers j
      in case last_legs c s q j p of
           None \<Rightarrow> (True, j\<lparr>j_legs := rev (j_legs j)\<rparr>)
         | Some legs \<Rightarrow>
             let legs = j_legs j @ legs; j = j\<lparr>j_dest := leg_to (last legs)\<rparr>
             in case transport_legs (length (tq_queue s)) c s (qe_parent (tq_queue s ! p)) (ifrom (qe_segments (tq_queue s ! p))) legs of
                  (True, legs) \<Rightarrow> (True, j\<lparr>j_legs := rev legs\<rparr>)
                | (False, legs) \<Rightarrow>
                    (case first_leg c q j legs of
                       (True, legs) \<Rightarrow> (True, j\<lparr>j_legs := rev legs\<rparr>)
                     | (False, legs) \<Rightarrow> (False, j\<lparr>j_legs := rev legs, j_is_reconstructed := True\<rparr>)))"

definition tb_algo :: "tb_engine \<Rightarrow> tb_state algo" where
  "tb_algo c =
     \<lparr>a_next_start_time = tb_next_start_time, a_add_start = tb_add_start c, a_execute = tb_execute c,
      a_reconstruct = tb_reconstruct c, a_reset_arrivals = tb_reset_arrivals c\<rparr>"

end
