(* ===== verification/Tb_Example.thy ===== *)
theory Tb_Example
  imports Tb_Transfers
begin

text \<open>
  A timetable of two lines that meet at stop 1: one transport of the first line, which ends there,
  and two of the second. Started at the times \<open>a\<close>, \<open>b\<close> and \<open>c\<close> of the day, they show what the
  preprocessing computes when the departures at a stop are in the order of the time of day, and what
  it computes when a transport reaches the stop after midnight.
\<close>

unbundle bit_operations_syntax

section \<open>The timetable\<close>

definition all_stop :: "nat \<Rightarrow> nat" where
  "all_stop l = stop_value (mk_stop l True True True True)"

definition example_lines :: "int \<Rightarrow> int \<Rightarrow> int \<Rightarrow> timetable" where
  "example_lines a b c = empty_timetable\<lparr>loc_names := [0, 1, 2, 3], transfer_time := [2, 2, 2, 2],
     equivalences := [[0], [1], [2], [3]],
     footpaths_out := [[[], [], [], []]], footpaths_in := [[[], [], [], []]],
     location_routes := [[0], [0, 1], [1], [1]], route_transport_ranges := [mk_iv 0 1, mk_iv 1 3],
     route_location_seq := [[all_stop 0, all_stop 1], [all_stop 3, all_stop 1, all_stop 2]],
     transport_first_dep := [delta_of_minutes a, delta_of_minutes b, delta_of_minutes c],
     transport_pattern := [0, 0, 0],
     tt_route_times := [\<lparr>rt_transports = mk_iv 0 1, rt_pattern_start = 0, rt_n_patterns = 1\<rparr>,
        \<lparr>rt_transports = mk_iv 1 3, rt_pattern_start = 2, rt_n_patterns = 1\<rparr>],
     pattern_offsets := map delta_of_minutes [0, 30, 0, 30, 30, 40],
     transport_traffic_days := [0, 1, 2], bitfields := [64, 128, 96],
     transport_route := [0, 1, 1]\<rparr>"

lemma all_stop [simp]:
  "stop_loc (stop_of_value (all_stop l)) = l mod 268435456" "stop_in (stop_of_value (all_stop l))" "stop_out (stop_of_value (all_stop l))"
  unfolding all_stop_def stop_of_stop_value_mk by (simp_all add: mk_stop_def)

lemma example_lines [simp]:
  "date_range (example_lines a b c) = mk_iv 0 30"
  "transfer_time (example_lines a b c) = [2, 2, 2, 2]"
  "footpaths_out (example_lines a b c) = [[[], [], [], []]]" "footpaths_in (example_lines a b c) = [[[], [], [], []]]"
  "location_routes (example_lines a b c) = [[0], [0, 1], [1], [1]]"
  "route_transport_ranges (example_lines a b c) = [mk_iv 0 1, mk_iv 1 3]"
  "route_location_seq (example_lines a b c) = [[all_stop 0, all_stop 1], [all_stop 3, all_stop 1, all_stop 2]]"
  "transport_first_dep (example_lines a b c) = [delta_of_minutes a, delta_of_minutes b, delta_of_minutes c]"
  "transport_pattern (example_lines a b c) = [0, 0, 0]"
  "tt_route_times (example_lines a b c) = [\<lparr>rt_transports = mk_iv 0 1, rt_pattern_start = 0, rt_n_patterns = 1\<rparr>,
        \<lparr>rt_transports = mk_iv 1 3, rt_pattern_start = 2, rt_n_patterns = 1\<rparr>]"
  "pattern_offsets (example_lines a b c) = map delta_of_minutes [0, 30, 0, 30, 30, 40]"
  "transport_traffic_days (example_lines a b c) = [0, 1, 2]" "bitfields (example_lines a b c) = [64, 128, 96]"
  "transport_route (example_lines a b c) = [0, 1, 1]" "n_locations (example_lines a b c) = 4" "n_routes (example_lines a b c) = 2"
  by (simp_all add: example_lines_def empty_timetable_def n_locations_def n_routes_def)

lemma example_neighborhood:
  "get_route_neighborhood (\<lambda>x. x) (example_lines a b c) 0 0 = [\<lparr>rtr_from = 1, rtr_route = 1, rtr_to = 1, rtr_length = 2\<rparr>]"
  "get_route_neighborhood (\<lambda>x. x) (example_lines a b c) 1 0 = [\<lparr>rtr_from = 1, rtr_route = 1, rtr_to = 1, rtr_length = 2\<rparr>]"
  by (simp_all add: get_route_neighborhood_def Let_def add_non_uturn_transfers_def is_uturn_def)

lemma short_lists: "[0..<2] = [0, Suc 0]" "[Suc 0..<2] = [Suc 0]" "[2..<3] = [2]" "[Suc 0..<3] = [Suc 0, 2]" "replicate 3 x = [x, x, x]"
  by (simp_all add: numeral_2_eq_2 numeral_3_eq_3)

lemma example_events:
  "event_mam (example_lines a b c) 0 (Suc 0) Arr = delta_plus (delta_of_minutes a) (delta_of_minutes 30)"
  "event_mam (example_lines a b c) (Suc 0) (Suc 0) Arr = delta_plus (delta_of_minutes b) (delta_of_minutes 30)"
  "event_mam (example_lines a b c) 2 (Suc 0) Arr = delta_plus (delta_of_minutes c) (delta_of_minutes 30)"
  "event_mam (example_lines a b c) (Suc 0) 0 Dep = delta_plus (delta_of_minutes b) (delta_of_minutes 0)"
  "event_mam (example_lines a b c) 2 0 Dep = delta_plus (delta_of_minutes c) (delta_of_minutes 0)"
  "event_mam (example_lines a b c) (Suc 0) 2 Arr = delta_plus (delta_of_minutes b) (delta_of_minutes 40)"
  "event_mam (example_lines a b c) 2 2 Arr = delta_plus (delta_of_minutes c) (delta_of_minutes 40)"
  "et_list (event_times_at_stop (example_lines a b c) (Suc 0) (Suc 0) Dep) =
     [delta_plus (delta_of_minutes b) (delta_of_minutes 30), delta_plus (delta_of_minutes c) (delta_of_minutes 30)]"
  by (simp_all add: event_mam_def event_mam_r_def et_list_def event_times_at_stop_def Let_def et_nth_def iv_size_def mk_iv_def short_lists)

section \<open>What the preprocessing computes\<close>

lemmas preprocess_simps = preprocess_transport_def line_neighbor_def line_reset_def departures_def line_step_def kMaxTransferTime_def
  shift_days_def line_reach_def reduce_stop_def visit_stop_def rr_visit_def rr_update_def reduce_transfer_def
  transfer_improvement_def iv_nth_def mk_iv_def example_events delta_plus_def delta_of_minutes_def mk_delta_def delta_count_def
  wrap_s8_id wrap_s16_id numeral_2_eq_2 [symmetric] short_lists

abbreviation day_lines :: timetable where "day_lines \<equiv> example_lines 600 640 700"
abbreviation night_lines :: timetable where "night_lines \<equiv> example_lines 1320 1350 1420"

lemmas preprocess_route_simps = preprocess_route_def example_neighborhood [unfolded One_nat_def] iv_list_def

lemma day_segments:
  "preprocess_route (\<lambda>x. x) day_lines 0 0 = [[[\<lparr>xt_bf = 64, xt_transport = 2, xt_stop = 1, xt_day_offset = 0\<rparr>]]]"
  "preprocess_route (\<lambda>x. x) day_lines 0 (Suc 0) = [[[], []], [[], []]]"
  by (simp_all add: preprocess_route_simps Let_def) (simp_all add: preprocess_simps Let_def)

lemma night_segments:
  "preprocess_route (\<lambda>x. x) night_lines 0 0 = [[[\<lparr>xt_bf = 64, xt_transport = 2, xt_stop = 1, xt_day_offset = -1\<rparr>]]]"
  by (simp add: preprocess_route_simps Let_def) (simp add: preprocess_simps Let_def)

text \<open>Transfers back in time. The earliest connecting transport is searched for among
  the departures of a line at a stop as if they were in the order of the time of day. When the line's
  second transport passes the stop after midnight, the transfer found departs on the day before: the
  passenger arrives at minute 1350, needs two minutes, and is sent to a departure at minute 10 of the
  same day. The loaders put such a transport into a route of its own (\<open>get_index\<close>).\<close>

theorem transfer_back_in_time:
  "preprocess_route (\<lambda>x. x) night_lines 0 0 = [[[\<lparr>xt_bf = 64, xt_transport = 2, xt_stop = 1, xt_day_offset = -1\<rparr>]]] \<and>
   event_minutes night_lines 0 1 Arr + transfer_time night_lines ! 1 = 1352 \<and>
   (-1) * 1440 + event_minutes night_lines 2 1 Dep = 10"
  by (simp add: night_segments)
    (simp add: event_minutes_def example_events event_mam_def event_mam_r_def delta_minutes_def delta_plus_def
      delta_of_minutes_def mk_delta_def Let_def mk_iv_def)

section \<open>The transfers of the search\<close>

text \<open>Property C22. The transfers the search reads from the result of the preprocessing are feasible:
  a transfer of the segment that ends at stop \<open>s + 1\<close> of transport \<open>t\<close> leads to a segment of a transport
  \<open>u\<close> that can be boarded at stop \<open>j\<close>, reached on foot (or at the same stop) in the time between, and
  on every day noted both transports run, \<open>u\<close> on the day the day offset says. The condition is that
  departures at a stop are in the order of the time of day.\<close>

theorem preprocess_transfers_feasible:
  assumes "tb_timetable tt prf" "\<forall>r < n_routes tt. by_time_of_day tt r" "\<And>xs. set (srt xs) = set xs"
    and "transports_in_order tt m" "preprocess srt tt prf = Some d" "rides tt t r" "s + 1 < seq_length tt r"
    and "x \<in> set (segment_transfers d ! (transport_first_segment d ! t + s))"
  shows "\<exists>u j. rides tt u (tr_route x) \<and> to_segment x = transport_first_segment d ! u + j \<and>
    segment_transports d ! to_segment x = u \<and> feasible tt prf t (s + 1) u j (get_day_offset x) \<and>
    (\<forall>k. bit (tb_bitfields d ! tr_traffic_days x) k \<longrightarrow> runs tt t (int k) \<and> runs tt u (int k + get_day_offset x))"
proof -
  have "sound_transfer tt prf d t (s + 1) x" by (rule preprocess_sound(3) [OF assms])
  then obtain u j where u: "rides tt u (tr_route x)" "j + 1 < seq_length tt (tr_route x)" "to_segment x = transport_first_segment d ! u + j"
    "feasible tt prf t (s + 1) u j (get_day_offset x)"
    "\<forall>k. bit (tb_bitfields d ! tr_traffic_days x) k \<longrightarrow> runs tt t (int k) \<and> runs tt u (int k + get_day_offset x)"
    unfolding sound_transfer_def by blast
  moreover have "segment_transports d ! to_segment x = u"
    unfolding u(3) by (rule preprocess_sound(1) [OF assms(1-5) u(1,2)])
  ultimately show ?thesis by blast
qed

text \<open>Property C24. The result of the preprocessing is well formed: one entry per transport and a closing
  one in the sorted table of first segments, transfers and the transport for each segment, and every
  transfer refers to a segment and a bitfield that exist.\<close>

theorem preprocess_well_formed:
  assumes "tb_timetable tt prf" "\<forall>r < n_routes tt. by_time_of_day tt r" "\<And>xs. set (srt xs) = set xs"
    and "transports_in_order tt m" "preprocess srt tt prf = Some d"
  shows "length (transport_first_segment d) = m + 1 \<and> sorted (transport_first_segment d) \<and>
    length (segment_transfers d) = last (transport_first_segment d) \<and>
    length (segment_transports d) = length (segment_transfers d) \<and>
    (\<forall>x \<in> set (concat (segment_transfers d)). to_segment x < length (segment_transfers d) \<and> tr_traffic_days x < length (tb_bitfields d))"
proof -
  let ?n = "n_segments tt"
  note D = preprocess_data [OF assms(1-5)] and ord = rides_in_order [OF assms(4,1)]
  have len: "length (transport_segments srt tt prf u) = ?n u \<and> segs_ok tt prf u (transport_segments srt tt prf u)" if "u < m" for u
    using transport_segments_ok [OF assms(1-3)] that ord by blast
  have first: "transport_first_segment d = map (segments_before ?n) [0..<m + 1]" using D(2) by simp
  have l: "length (segment_transfers d) = segments_before ?n m"
    using list_all2_lengthD [OF D(4)] length_concat_segments [of m "transport_segments srt tt prf" ?n] len by simp
  have "length (segment_transports d) = segments_before ?n m" unfolding D(3) by (rule length_concat_segments) simp
  moreover have "sorted (transport_first_segment d)"
    unfolding first by (simp add: sorted_iff_nth_mono segments_before_mono del: upt_Suc)
  moreover have "to_segment x < length (segment_transfers d) \<and> tr_traffic_days x < length (tb_bitfields d)"
    if x: "x \<in> set (concat (segment_transfers d))" for x
  proof -
    obtain xs where xs: "xs \<in> set (segment_transfers d)" "x \<in> set xs" using x by auto
    from list_all2_in_set [OF D(4) xs(1)] obtain ys where ys: "ys \<in> set (concat (map (transport_segments srt tt prf) [0..<m]))"
      "list_all2 (encodes tt (transport_first_segment d) (tb_bitfields d)) ys xs" by blast
    from list_all2_in_set [OF ys(2) xs(2)] obtain y where y: "y \<in> set ys"
      "encodes tt (transport_first_segment d) (tb_bitfields d) y x" by blast
    from ys(1) obtain t where t: "t < m" "ys \<in> set (transport_segments srt tt prf t)" by auto
    then obtain s where "s < length (transport_segments srt tt prf t)" "ys = transport_segments srt tt prf t ! s"
      by (auto simp: in_set_conv_nth)
    then have ok: "transfer_ok tt prf t (s + 1) y" using len [OF t(1)] y(1) by (simp add: segs_ok_def)
    let ?u = "xt_transport y"
    have u: "?u < m" "xt_stop y < ?n ?u"
      using ok ord by (auto simp: transfer_ok_def feasible_def Let_def)
    have "to_segment x < segments_before ?n (Suc ?u)" using y(2) u D(1) [OF u(1)] by (simp add: encodes_def)
    also have "\<dots> \<le> segments_before ?n m" by (rule segments_before_mono) (use u in simp)
    finally show ?thesis using y(2) l by (simp add: encodes_def)
  qed
  ultimately show ?thesis using l by (simp add: first)
qed

lemma example_norm:
  assumes "r < 2" "t \<in> set (iv_list ([mk_iv 0 1, mk_iv 1 3] ! r))" "event_idx i ev < 2 * seq_length day_lines r - 2"
  shows "delta_norm (event_mam_r day_lines r t i ev)" "delta_minutes (event_mam_r day_lines r t i ev) < 800"
proof -
  have t: "transport_first_dep day_lines ! t \<in> {delta_of_minutes 600, delta_of_minutes 640, delta_of_minutes 700}"
    using assms(1,2) by (auto simp: less_2_cases_iff iv_list_def mk_iv_def less_Suc_eq nth_Cons' numeral_3_eq_3)
  have o: "pattern_offsets day_lines ! (rt_pattern_start (tt_route_times day_lines ! r) + event_idx i ev) \<in>
      {delta_of_minutes 0, delta_of_minutes 30, delta_of_minutes 40}"
    using assms(1,3) by (auto simp: less_2_cases_iff less_Suc_eq numeral_eq_Suc)
  have "rt_n_patterns (tt_route_times day_lines ! r) = 1" using assms(1) by (auto simp: less_2_cases_iff)
  then have e: "event_mam_r day_lines r t i ev = delta_plus (transport_first_dep day_lines ! t)
      (pattern_offsets day_lines ! (rt_pattern_start (tt_route_times day_lines ! r) + event_idx i ev))"
    by (simp add: event_mam_r_def Let_def)
  show "delta_norm (event_mam_r day_lines r t i ev)" "delta_minutes (event_mam_r day_lines r t i ev) < 800"
    unfolding e using t o
    by (auto simp: delta_plus_def delta_of_minutes_def mk_delta_def delta_norm_def delta_minutes_def Let_def)
qed

lemma example_first:
  "et_list (event_times_at_stop (example_lines a b c) 0 0 Dep) = [delta_plus (delta_of_minutes a) (delta_of_minutes 0)]"
  "et_list (event_times_at_stop (example_lines a b c) (Suc 0) 0 Dep) =
     [delta_plus (delta_of_minutes b) (delta_of_minutes 0), delta_plus (delta_of_minutes c) (delta_of_minutes 0)]"
  by (simp_all add: et_list_def event_times_at_stop_def Let_def et_nth_def iv_size_def mk_iv_def short_lists)

lemma day_lines_ok: "tb_timetable day_lines 0" "\<forall>r < n_routes day_lines. by_time_of_day day_lines r" "transports_in_order day_lines 3"
proof -
  have r: "route_ok day_lines r" if "r < 2" for r
    unfolding route_ok_def
  proof (intro conjI ballI allI impI)
    fix t i ev assume t: "t \<in> set (iv_list (route_transport_ranges day_lines ! r))"
    show "transport_route day_lines ! t = r"
      using that t by (auto simp: less_2_cases_iff iv_list_def mk_iv_def less_Suc_eq nth_Cons' numeral_3_eq_3)
    assume "event_idx i ev < 2 * seq_length day_lines r - 2"
    with that t show "delta_norm (event_mam_r day_lines r t i ev)" by (intro example_norm) simp_all
  qed (use that in \<open>auto simp: less_2_cases_iff route_times_ok_def mk_iv_def less_Suc_eq\<close>)
  have loc: "l = 0 \<or> l = 1 \<or> l = 2 \<or> l = 3" if "l < 4" for l :: nat using that by auto
  show "tb_timetable day_lines 0"
    unfolding tb_timetable_def using r by (auto dest!: loc)
  show "\<forall>r < n_routes day_lines. by_time_of_day day_lines r"
    by (auto simp: less_2_cases_iff by_time_of_day_def less_Suc_eq example_events example_first)
      (simp_all add: delta_plus_def delta_of_minutes_def mk_delta_def Let_def)
  show "transports_in_order day_lines 3"
    by (simp add: transports_in_order_def iv_list_def mk_iv_def short_lists numeral_2_eq_2 numeral_3_eq_3)
qed

definition day_data :: tb_data where
  "day_data = \<lparr>tb_prf_idx = 0, transport_first_segment = [0, 1, 3, 5],
     segment_transfers = [[\<lparr>to_segment = 4, tr_traffic_days = 0, tr_route = 1, transport_offset = 1, to_segment_offset = 1,
       day_offset_bits = 8\<rparr>], [], [], [], []],
     segment_transports = [0, 1, 1, 2, 2], tb_bitfields = [64]\<rparr>"

lemma day_preprocess: "preprocess (\<lambda>x. x) day_lines 0 = Some day_data"
proof -
  have "allocate day_lines = ([0, 1, 3, 5], [0, 1, 1, 2, 2])"
    by (simp add: allocate_def allocate_transport_def iv_list_def mk_iv_def short_lists numeral_2_eq_2 numeral_3_eq_3)
  moreover have "concat (concat (map (preprocess_route (\<lambda>x. x) day_lines 0) [0..<n_routes day_lines])) =
      [[\<lparr>xt_bf = 64, xt_transport = 2, xt_stop = 1, xt_day_offset = 0\<rparr>], [], [], [], []]"
    by (simp add: day_segments short_lists)
  ultimately show ?thesis
    by (simp add: preprocess_def convert_segment_def convert_transfer_def get_or_create_bf_def set_day_offset_def day_data_def
        Let_def mk_iv_def)
qed

theorem preprocess_transfers_feasible_witness:
  "\<exists>u j. rides day_lines u 1 \<and> 4 = transport_first_segment day_data ! u + j \<and>
    segment_transports day_data ! 4 = u \<and> feasible day_lines 0 0 (0 + 1) u j 0"
proof -
  let ?x = "\<lparr>to_segment = 4, tr_traffic_days = 0, tr_route = 1, transport_offset = 1, to_segment_offset = 1, day_offset_bits = 8\<rparr>"
  have t: "rides day_lines 0 0" "0 + 1 < seq_length day_lines 0" by (simp_all add: rides_def iv_list_def mk_iv_def)
  have x: "?x \<in> set (segment_transfers day_data ! (transport_first_segment day_data ! 0 + 0))" by (simp add: day_data_def)
  have "\<exists>u j. rides day_lines u (tr_route ?x) \<and> to_segment ?x = transport_first_segment day_data ! u + j \<and>
    segment_transports day_data ! to_segment ?x = u \<and> feasible day_lines 0 0 (0 + 1) u j (get_day_offset ?x) \<and>
    (\<forall>k. bit (tb_bitfields day_data ! tr_traffic_days ?x) k \<longrightarrow> runs day_lines 0 (int k) \<and> runs day_lines u (int k + get_day_offset ?x))"
    by (rule preprocess_transfers_feasible [OF day_lines_ok(1,2) refl day_lines_ok(3) day_preprocess t x])
  moreover have "get_day_offset ?x = 0" by (simp add: get_day_offset_def wrap_s8_id)
  ultimately show ?thesis by auto
qed

theorem preprocess_well_formed_witness:
  "length (transport_first_segment day_data) = 3 + 1 \<and> length (segment_transfers day_data) = last (transport_first_segment day_data)"
  using preprocess_well_formed [OF day_lines_ok(1,2) refl day_lines_ok(3) day_preprocess] by blast

end
