(* ===== verification/Tb_Search.thy ===== *)
theory Tb_Search
  imports Tb_Sound Tb_Reconstruct Tb_Example
begin

text \<open>
  The trip-based search as the algorithm of the interval search (\<open>src/routing/tb/tb_search.cc\<close>): the
  engine its constructor leaves behind, the proof that it keeps the contract \<open>search_algo\<close>, and with
  it the soundness of the whole search.
\<close>

unbundle bit_operations_syntax

section \<open>Construction\<close>

text \<open>Distances are only noted for segments from whose end the destination can be walked to.\<close>

definition dist_ok :: "tb_engine \<Rightarrow> tb_state \<Rightarrow> bool" where
  "dist_ok c s \<longleftrightarrow> length (tq_end_reachable s) = length (segment_transfers (te_data c)) \<and>
     length (t_min s) = kMaxTransfers + 1 \<and> tq_parent s = replicate (kMaxTransfers + 1) kNoParent \<and>
     (\<forall>segment. (segment < length (tq_end_reachable s) \<and> tq_end_reachable s ! segment \<longrightarrow> tq_dist s segment \<noteq> None) \<and>
        (tq_dist s segment \<noteq> None \<longrightarrow> dest_marked c (tq_dist s) segment))"

lemma mark_segment_ok:
  assumes c: "engine_ok c" and s: "dist_ok c s" and t: "rides (te_tt c) t r" "i + 1 < seq_length (te_tt c) r"
    and stp: "stop_out (seq_stop (te_tt c) r (i + 1))" "walk_to_dest c (stop_loc (seq_stop (te_tt c) r (i + 1))) w"
  shows "dist_ok c (mark_segment (te_data c) (i + 1) w t s)"
proof -
  define segment where "segment = transport_first_segment (te_data c) ! t + i"
  define w' where "w' = (case tq_dist s segment of None \<Rightarrow> w | Some w' \<Rightarrow> min w' w)"
  note seg = wf_segment [OF c t, folded segment_def]
  have eq: "mark_segment (te_data c) (i + 1) w t s = s\<lparr>tq_end_reachable := (tq_end_reachable s)[segment := True], tq_dist := (tq_dist s)(segment \<mapsto> w')\<rparr>"
    by (simp add: mark_segment_def segment_def w'_def Let_def)
  have same: "t' = t \<and> r' = r \<and> i' = i"
    if "rides (te_tt c) t' r'" "i' + 1 < seq_length (te_tt c) r'" "segment = transport_first_segment (te_data c) ! t' + i'" for t' r' i'
  proof -
    have "t' = t" using wf_segment(1) [OF c that(1,2)] seg(1) that(3) by simp
    moreover have tt: "tb_timetable (te_tt c) (tb_prf_idx (te_data c))" using c by (simp add: engine_ok_def)
    ultimately have "r' = r" using rides_route [OF tt that(1)] rides_route [OF tt t(1)] by simp
    with \<open>t' = t\<close> show ?thesis using that(3) by (simp add: segment_def)
  qed
  have "w' = w \<or> tq_dist s segment = Some w'" by (auto simp: w'_def min_def split: option.splits)
  then have walk: "walk_to_dest c (stop_loc (seq_stop (te_tt c) r (i + 1))) w'"
  proof
    assume "tq_dist s segment = Some w'"
    then have "dest_marked c (tq_dist s) segment" using s unfolding dist_ok_def by blast
    with \<open>tq_dist s segment = Some w'\<close> show ?thesis using t segment_def unfolding dest_marked_def by auto
  qed (use stp in simp)
  have new: "dest_marked c ((tq_dist s)(segment \<mapsto> w')) segment"
    unfolding dest_marked_def using walk stp(1) same by (intro exI [of _ w']) (metis fun_upd_same)
  have "dest_marked c ((tq_dist s)(segment \<mapsto> w')) x" if "((tq_dist s)(segment \<mapsto> w')) x \<noteq> None" for x
  proof (cases "x = segment")
    case False
    then have "dest_marked c (tq_dist s) x" using s that by (simp add: dist_ok_def)
    with False show ?thesis by (simp add: dest_marked_def)
  qed (use new in simp)
  then show ?thesis using s unfolding dist_ok_def eq by (auto simp: nth_list_update)
qed

lemma mark_dest_segments_ok:
  assumes c: "engine_ok c" and l: "l < n_locations (te_tt c)" and w: "walk_to_dest c l w" and s: "dist_ok c s"
  shows "dist_ok c (mark_dest_segments (te_tt c) (te_data c) l w s)"
  unfolding mark_dest_segments_def
proof (intro for_set_fold_invariant [where P = "dist_ok c"] s)
  fix r i s assume r: "r \<in> set (location_routes (te_tt c) ! l)" and i: "i \<in> set [1..<seq_length (te_tt c) r]" and s: "dist_ok c s"
  have r': "r < n_routes (te_tt c)" using c l r tb_timetableD(2) by (auto simp: engine_ok_def)
  have "1 \<le> i \<and> i < seq_length (te_tt c) r" using i by simp
  then obtain j where j: "i = j + 1" "j + 1 < seq_length (te_tt c) r" by (metis le_add_diff_inverse2)
  show "dist_ok c (if stop_loc (seq_stop (te_tt c) r i) \<noteq> l \<or> \<not> stop_out (seq_stop (te_tt c) r i) then s
      else fold (mark_segment (te_data c) i w) (iv_list (route_transport_ranges (te_tt c) ! r)) s)"
  proof (cases "stop_loc (seq_stop (te_tt c) r i) = l \<and> stop_out (seq_stop (te_tt c) r i)")
    case True
    have "dist_ok c (fold (mark_segment (te_data c) i w) (iv_list (route_transport_ranges (te_tt c) ! r)) s)"
      unfolding j(1)
      by (rule for_set_fold_invariant [where P = "dist_ok c", OF s], rule mark_segment_ok [OF c _ _ j(2)])
        (use True w r' j(1) in \<open>simp_all add: rides_def\<close>)
    with True show ?thesis by simp
  qed (use s in auto)
qed

text \<open>The engine's parameters refer to locations of the timetable.\<close>

definition dest_ok :: "tb_engine \<Rightarrow> bool" where
  "dest_ok c \<longleftrightarrow> length (te_is_dest c) \<le> n_locations (te_tt c) \<and> length (te_dist_to_dest c) \<le> n_locations (te_tt c) \<and>
     (\<forall>l < n_locations (te_tt c). \<forall>fp \<in> set (footpaths_in (te_tt c) ! tb_prf_idx (te_data c) ! l). fp_target fp < n_locations (te_tt c))"

lemma tb_construct_idle:
  assumes c: "engine_ok c" "dest_ok c" and s: "tq_dist s = (\<lambda>_. None)" "length (tq_end_reachable s) = length (segment_transfers (te_data c))"
    and t: "length (t_min s) = kMaxTransfers + 1"
  shows "tb_idle c {} (tb_construct c s)"
proof -
  let ?s = "query_state_reset (te_tt c) s"
  have s0: "dist_ok c ?s" using s t by (simp add: dist_ok_def query_state_reset_def)
  have "dist_ok c (tb_construct c s)"
  proof (cases "te_dist_to_dest c = []")
    case True
    have "dist_ok c (fold (\<lambda>l s. fold (\<lambda>fp. mark_dest_segments (te_tt c) (te_data c) (fp_target fp) (fp_duration fp))
                (footpaths_in (te_tt c) ! tb_prf_idx (te_data c) ! l) (mark_dest_segments (te_tt c) (te_data c) l 0 s))
              (filter (\<lambda>l. te_is_dest c ! l) [0..<length (te_is_dest c)]) ?s)"
    proof (rule for_set_fold_invariant [where P = "dist_ok c", OF s0])
      fix l s assume l: "l \<in> set (filter (\<lambda>l. te_is_dest c ! l) [0..<length (te_is_dest c)])" and s: "dist_ok c s"
      have l': "l < n_locations (te_tt c)" using l c(2) by (auto simp: dest_ok_def)
      have "walk_to_dest c l 0" using True l by (auto simp: walk_to_dest_def)
      note s1 = mark_dest_segments_ok [OF c(1) l' this s]
      show "dist_ok c (fold (\<lambda>fp. mark_dest_segments (te_tt c) (te_data c) (fp_target fp) (fp_duration fp))
                (footpaths_in (te_tt c) ! tb_prf_idx (te_data c) ! l) (mark_dest_segments (te_tt c) (te_data c) l 0 s))"
      proof (rule for_set_fold_invariant [where P = "dist_ok c", OF s1])
        fix fp s assume fp: "fp \<in> set (footpaths_in (te_tt c) ! tb_prf_idx (te_data c) ! l)" and s: "dist_ok c s"
        have "walk_to_dest c (fp_target fp) (fp_duration fp)" using True l fp by (auto simp: walk_to_dest_def)
        moreover have "fp_target fp < n_locations (te_tt c)" using c(2) fp l' by (auto simp: dest_ok_def)
        ultimately show "dist_ok c (mark_dest_segments (te_tt c) (te_data c) (fp_target fp) (fp_duration fp) s)"
          using mark_dest_segments_ok [OF c(1) _ _ s] by blast
      qed
    qed
    with True show ?thesis by (simp add: tb_construct_def Let_def)
  next
    case False
    have "dist_ok c (fold (\<lambda>(l, dist) s. if dist \<noteq> kUnreachable then mark_dest_segments (te_tt c) (te_data c) l (i16 (int dist)) s else s)
              (List.enumerate 0 (te_dist_to_dest c)) ?s)"
    proof (rule for_set_fold_invariant [where P = "dist_ok c", OF s0])
      fix p s assume p: "p \<in> set (List.enumerate 0 (te_dist_to_dest c))" and s: "dist_ok c s"
      have "fst p < length (te_dist_to_dest c) \<and> te_dist_to_dest c ! fst p = snd p" using p by (simp add: in_set_enumerate_eq)
      then obtain l w where lw: "p = (l, w)" "l < length (te_dist_to_dest c)" "te_dist_to_dest c ! l = w"
        by (metis prod.collapse)
      have "l < n_locations (te_tt c)" using lw(2) c(2) by (simp add: dest_ok_def)
      moreover have "walk_to_dest c l (i16 (int w))" if "w \<noteq> kUnreachable" using that lw False by (simp add: walk_to_dest_def)
      ultimately show "dist_ok c ((case p of (l, dist) \<Rightarrow> \<lambda>s. if dist \<noteq> kUnreachable then mark_dest_segments (te_tt c) (te_data c) l (i16 (int dist)) s else s) s)"
        using s mark_dest_segments_ok [OF c(1) _ _ s] by (simp add: lw(1))
    qed
    with False show ?thesis by (simp add: tb_construct_def Let_def)
  qed
  then show ?thesis using c(1)
    by (auto simp: tb_idle_def marks_ok_def dist_ok_def arrivals_ok_def simp del: replicate_Suc)
qed

section \<open>The contract\<close>

lemma tb_reconstruct_fields:
  "j_start_time (snd (tb_reconstruct c s q j)) = j_start_time j"
  "j_dest_time (snd (tb_reconstruct c s q j)) = j_dest_time j"
  "j_transfers (snd (tb_reconstruct c s q j)) = j_transfers j"
  by (auto simp: tb_reconstruct_def Let_def split: option.split prod.split bool.split)

text \<open>The marks are made by the constructor only.\<close>

definition same_marks :: "tb_state \<Rightarrow> tb_state \<Rightarrow> bool" where
  "same_marks s s' \<longleftrightarrow> tq_end_reachable s' = tq_end_reachable s \<and> tq_dist s' = tq_dist s"

lemma same_marks_fold: "(\<And>x s. same_marks s (f x s)) \<Longrightarrow> same_marks s (fold f xs s)"
  by (rule for_set_fold_invariant) (auto simp: same_marks_def)

lemma same_marks_trans: "same_marks a b \<Longrightarrow> same_marks b d \<Longrightarrow> same_marks a d"
  by (simp add: same_marks_def)

lemma same_marks_with_queue: "same_marks s (with_queue f s)"
  by (simp add: same_marks_def with_queue_def split: prod.split)

lemma same_marks_add_start: "same_marks s (tb_add_start c l t v s)"
  unfolding tb_add_start_def
  by (auto split: prod.split intro!: same_marks_fold)
    (auto simp: start_at_stop_def Let_def same_marks_with_queue same_marks_def [of s s for s] split: option.split)

lemma same_marks_rounds: "same_marks s (tb_rounds c k round s)"
proof (induction c k round s rule: tb_rounds.induct)
  case (1 c k round s)
  have "same_marks s (tb_round c k ps s)" for ps s
  proof -
    have "same_marks s (seg_dest c k q s)" for q s
      unfolding seg_dest_def Let_def by (intro same_marks_fold) (simp add: same_marks_def)
    moreover have "same_marks s (seg_prune c k q s)" for q s by (simp add: seg_prune_def Let_def same_marks_def)
    moreover have "same_marks s (seg_transfers c k q s)" for q s
      unfolding seg_transfers_def Let_def by (intro same_marks_fold) (simp add: same_marks_with_queue, simp add: same_marks_def)
    ultimately have f: "same_marks s (fold (seg_dest c k) ps s)" "same_marks s (fold (seg_prune c k) ps s)"
      "same_marks s (fold (seg_transfers c k) ps s)" for s by (auto intro: same_marks_fold)
    show ?thesis unfolding tb_round_def by (rule same_marks_trans [OF same_marks_trans [OF f(1) f(2)] f(3)])
  qed
  with 1 show ?case by (subst tb_rounds.simps) (auto simp: Let_def same_marks_def)
qed

lemma same_marks_execute: "tb_execute c t m w (s, js) = (s', js') \<Longrightarrow> same_marks s s'"
proof -
  assume "tb_execute c t m w (s, js) = (s', js')"
  then have s': "s' = tb_rounds c 0 (mk_iv 0 (length (tq_queue (fold (tb_cut_off w) [0..<kMaxTransfers] s)))) (fold (tb_cut_off w) [0..<kMaxTransfers] s)"
    by (simp add: tb_execute_def Let_def)
  have "same_marks s (fold (tb_cut_off w) [0..<kMaxTransfers] s)"
    by (rule same_marks_fold) (simp add: same_marks_def tb_cut_off_def)
  then show ?thesis unfolding s' using same_marks_rounds same_marks_trans by blast
qed

definition marked :: "tb_engine \<Rightarrow> tb_state \<Rightarrow> bool" where
  "marked c s \<longleftrightarrow> engine_ok c \<and> marks_ok c s \<and> length (tq_end_reachable s) = length (segment_transfers (te_data c))"

lemma marked_same: "marked c s \<Longrightarrow> same_marks s s' \<Longrightarrow> marked c s'"
  by (simp add: marked_def marks_ok_def same_marks_def)

text \<open>The contract holds for starts at locations of the timetable.\<close>

definition known_starts :: "tb_engine \<Rightarrow> start set \<Rightarrow> bool" where
  "known_starts c S \<longleftrightarrow> (\<forall>st \<in> S. start_stop st < n_locations (te_tt c))"

definition tb_report_ok :: "tb_engine \<Rightarrow> start set \<Rightarrow> int \<Rightarrow> journey \<Rightarrow> bool" where
  "tb_report_ok c S t j \<longleftrightarrow> j_start_time j = t \<and> (known_starts c S \<longrightarrow> tb_journey_ok c S t j)"

lemma tb_add_result_time:
  "j \<in> set (fold (tb_add_result t s) ns js) \<Longrightarrow> j \<in> set js \<or> j_start_time j = t"
proof (induction ns arbitrary: js)
  case (Cons n ns)
  have "set (tb_add_result t s n js) \<subseteq> insert \<lparr>j_legs = [], j_start_time = t, j_dest_time = t_min s ! n, j_dest = 4294967295,
         j_transfers = n, j_error = False, j_is_reconstructed = False\<rparr> (set js)"
    using pareto_add_set [of j_dominates js] by (simp add: tb_add_result_def subset_insertI)
  with Cons.IH [of "tb_add_result t s n js"] Cons.prems show ?case by auto
qed simp

definition tb_idle_known :: "tb_engine \<Rightarrow> start set \<Rightarrow> tb_state \<Rightarrow> bool" where
  "tb_idle_known c S s \<longleftrightarrow> marked c s \<and> (known_starts c S \<longrightarrow> tb_idle c S s)"

definition tb_ready_known :: "tb_engine \<Rightarrow> start set \<Rightarrow> tb_state \<Rightarrow> bool" where
  "tb_ready_known c S s \<longleftrightarrow> marked c s \<and> (known_starts c S \<longrightarrow> tb_ready c S s)"

interpretation tb_contract: search_algo "tb_algo c" "tb_idle_known c" "tb_ready_known c" "tb_report_ok c"
proof
  fix S :: "start set" and s
  assume "tb_idle_known c S s"
  then show "tb_ready_known c S (a_next_start_time (tb_algo c) s)"
    by (simp add: tb_algo_def tb_idle_known_def tb_ready_known_def tb_next_start_time_ready [unfolded tb_next_start_time_def] marked_def marks_ok_def tb_next_start_time_def)
next
  fix S :: "start set" and s st
  assume "tb_ready_known c S s"
  then show "tb_ready_known c (insert st S) (a_add_start (tb_algo c) (start_stop st) (time_at_stop st) (start_v st) s)"
    using tb_add_start_ready marked_same [OF _ same_marks_add_start]
    by (auto simp: tb_algo_def known_starts_def tb_ready_known_def)
next
  fix S :: "start set" and s t m w js s' js'
  assume r: "tb_ready_known c S s" and "a_execute (tb_algo c) t m w (s, js) = (s', js')"
  then have e: "tb_execute c t m w (s, js) = (s', js')" by (simp add: tb_algo_def)
  then have "js' = fold (tb_add_result t s') [0..<kMaxTransfers] js" by (auto simp: tb_execute_def Let_def)
  then have "\<forall>j \<in> set js'. j \<in> set js \<or> j_start_time j = t" using tb_add_result_time by blast
  moreover have "marked c s'" using r marked_same [OF _ same_marks_execute [OF e]] by (simp add: tb_ready_known_def)
  ultimately show "tb_idle_known c S s' \<and> (\<forall>j \<in> set js'. j \<in> set js \<or> tb_report_ok c S t j)"
    using r tb_execute_idle [OF _ e, of S] by (auto simp: tb_report_ok_def tb_ready_known_def tb_idle_known_def)
next
  fix S :: "start set" and s
  assume "tb_idle_known c S s"
  then have "marked c s" by (simp add: tb_idle_known_def)
  then show "tb_idle_known c {} (a_reset_arrivals (tb_algo c) s)"
    by (simp add: tb_algo_def tb_idle_known_def marked_def tb_idle_def tb_reset_arrivals_def marks_ok_def arrivals_ok_def del: replicate_Suc)
next
  fix S S' :: "start set" and t j
  assume "tb_report_ok c S t j" "S \<subseteq> S'"
  then show "tb_report_ok c S' t j" using tb_journey_ok_mono [of c S t j S'] by (auto simp: tb_report_ok_def known_starts_def)
next
  fix S :: "start set" and t j s q
  assume "tb_report_ok c S t j"
  then show "tb_report_ok c S t (snd (a_reconstruct (tb_algo c) s q j))"
    by (simp add: tb_algo_def tb_report_ok_def tb_journey_ok_def tb_reconstruct_fields)
qed (auto simp: tb_report_ok_def tb_journey_ok_def)

section \<open>The stops of the starts\<close>

lemma adds_at_stop_stop: "adds (\<lambda>st. start_stop st = l) starts (add_start_times_at_stop d tt rtt r i l iv iv' off v starts)"
  unfolding add_start_times_at_stop_def Let_def
  by (intro adds_fold) (auto simp: adds_def dest: add_event_new)

lemma adds_interval_stop:
  "adds (\<lambda>st. start_stop st = l) starts (add_starts_in_interval d tt rtt iv l off v mso p add_ontrip starts)"
proof -
  define s1 where "s1 = add_route_starts d tt rtt iv l off v mso p starts"
  define s2 where "s2 = (case rtt of None \<Rightarrow> s1 | Some rtt \<Rightarrow> add_rt_starts d rtt iv l off v p s1)"
  let ?P = "\<lambda>st. start_stop st = l"
  have "adds ?P starts s1" unfolding s1_def add_route_starts_def Let_def
    by (intro adds_fold) (auto simp: adds_refl adds_at_stop_stop)
  moreover have "adds ?P s1 s2" unfolding s2_def
    by (cases rtt) (auto simp: adds_refl add_rt_starts_def add_rt_start_def Let_def intro!: adds_fold adds_append)
  moreover have "adds ?P s2 (if add_ontrip then s2 @ ontrip_start d iv l off v else s2)"
    by (auto simp: adds_refl ontrip_start_def Let_def intro!: adds_append)
  ultimately show ?thesis
    unfolding add_starts_in_interval_def Let_def s1_def [symmetric] s2_def [symmetric] using adds_trans by blast
qed

lemma adds_weaken: "adds P xs ys \<Longrightarrow> (\<And>st. P st \<Longrightarrow> Q st) \<Longrightarrow> adds Q xs ys"
  by (auto simp: adds_def)

lemma adds_offset_stops:
  assumes "fst ` set (visit ss) \<subseteq> L"
  shows "adds (\<lambda>st. start_stop st \<in> L) xs (add_offset_starts d tt rtt tm mso prf add_ontrip visit v ss xs)"
  unfolding add_offset_starts_def
proof (rule adds_fold)
  fix p s assume "p \<in> set (visit ss)"
  then have "fst p \<in> L" using assms by auto
  then show "adds (\<lambda>st. start_stop st \<in> L) s ((case p of (l, dur) \<Rightarrow> \<lambda>starts.
      case tm of InInterval iv \<Rightarrow> add_starts_in_interval d tt rtt iv l (OffDuration dur) v mso prf add_ontrip starts
      | AtTime t \<Rightarrow> starts @ [\<lparr>time_at_start = t, time_at_stop = (if d = Forward then t + dur else t - dur), start_stop = l, start_v = v\<rparr>]) s)"
    by (cases p; cases tm) (auto intro: adds_append adds_weaken [OF adds_interval_stop])
qed

lemma get_starts_stops:
  assumes ss: "ss = shortest_starts d tt (q_start q) (q_via_stops q) (q_start_match_mode q) (q_use_start_footpaths q) (q_prf_idx q) (q_transfer_time_settings q)"
    and "fst ` set (visit (fst ss)) \<subseteq> L" "fst ` set (visit (snd ss)) \<subseteq> L" "q_td_start q = []"
  shows "adds (\<lambda>st. start_stop st \<in> L) xs (get_starts d tt rtt tm q add_ontrip visit xs)"
  unfolding get_starts_def Let_def ss [symmetric] assms(4) add_td_starts_def
  using adds_trans [OF adds_offset_stops [where visit = visit and ss = "fst ss" and L = L, OF assms(2)]
    adds_offset_stops [where visit = visit and ss = "snd ss" and L = L, OF assms(3)]] by simp

section \<open>The search for journeys\<close>

text \<open>Property C6. Soundness of the trip-based search over an interval, on the data of a sound
  preprocessing. Each journey it returns can be travelled: from a departure at the origin that
  the query allows and that leaves no earlier than the journey claims, by transports that run on their
  day, each left at a stop from which the next can be reached on foot before it departs, to a stop from
  which the destination is reached at the time the journey claims, with no more transfers than it
  claims. Later start times reuse the arrival times and the reached segments of earlier runs.\<close>

theorem tb_search_sound:
  assumes "engine_ok c" "dest_ok c" "limits_ok x (init_interval (sx_q x))" "ss_interval s = init_interval (sx_q x)"
    and "ss_algo s = tb_construct c (mk_query_state (te_tt c) (te_data c))" "\<And>js. set (sx_unique x js) = set js"
    and "\<And>st. query_start x st \<Longrightarrow> start_stop st < n_locations (te_tt c)"
    and "search_execute fuel x (tb_algo c) s = Some s'" "j \<in> set (ss_results s')"
  shows "\<exists>starts. starts \<subseteq> {st. query_start x st \<and> leaves_from (sx_dir x) (j_start_time j) st} \<and>
    tb_journey_ok c starts (j_start_time j) j"
proof -
  have "tb_idle c {} (ss_algo s)" unfolding assms(5)
    by (rule tb_construct_idle) (simp_all add: assms(1,2) mk_query_state_def)
  then have idle: "tb_idle_known c {} (ss_algo s)" by (simp add: tb_idle_known_def marked_def tb_idle_def)
  have lim: "limits_ok x (ss_interval s)" using assms(3,4) by simp
  have "tb_contract.justified c (sx_dir x) (Collect (query_start x)) (ss_results s')"
    by (rule tb_contract.search_justified [OF idle assms(4) lim assms(6,8)])
  moreover define starts where "starts = {st \<in> Collect (query_start x). leaves_from (sx_dir x) (j_start_time j) st}"
  ultimately have "tb_report_ok c starts (j_start_time j) j"
    using assms(9) by (simp add: tb_contract.justified_def)
  moreover have "known_starts c starts" using assms(7) by (simp add: known_starts_def starts_def)
  ultimately have "tb_journey_ok c starts (j_start_time j) j" by (simp add: tb_report_ok_def)
  then show ?thesis by (intro exI [of _ starts]) (simp add: starts_def)
qed

text \<open>From stop 0 at minute 2040 to stop 2 of the example timetable, with the data of its
  preprocessing.\<close>

definition trip_engine :: "bool list \<Rightarrow> nat list \<Rightarrow> tb_engine" where
  "trip_engine dest_bits dist = \<lparr>te_tt = day_lines, te_data = day_data, te_use_lb = True, te_is_dest = dest_bits,
     te_dist_to_dest = dist, te_lb = [0, 0, 0, 0], te_base = query_day_shift 6\<rparr>"

abbreviation day_engine :: tb_engine where "day_engine \<equiv> trip_engine [False, False, True, False] []"

definition day_trip :: search where
  "day_trip = example_search\<lparr>sx_tt := day_lines, sx_q := example_trip_query\<lparr>q_start_time := InInterval (mk_iv 2030 2050)\<rparr>\<rparr>"

definition day_trip_state :: "tb_state search_state" where
  "day_trip_state = (example_state (tb_construct day_engine (mk_query_state day_lines day_data)))\<lparr>ss_interval := mk_iv 2030 2050\<rparr>"

lemma day_engine_ok: "engine_ok day_engine" "dest_ok day_engine"
proof -
  have "tb_sound day_lines 0 day_data"
    using preprocess_sound [OF day_lines_ok(1,2) refl day_lines_ok(3) day_preprocess] by (simp add: tb_sound_def Let_def)
  moreover have "event_minutes day_lines t i ev < 32768"
    if "rides day_lines t r" "event_idx i ev < 2 * seq_length day_lines r - 2" for t r i ev
    using example_norm(2) [of r t i ev] that rides_route [OF day_lines_ok(1) that(1)]
    by (simp add: event_minutes_def event_mam_def rides_def)
  ultimately show "engine_ok day_engine"
    unfolding engine_ok_def using day_lines_ok(1)
    by (auto simp: trip_engine_def day_data_def query_day_shift_def less_2_cases_iff)
  have "l = 0 \<or> l = 1 \<or> l = 2 \<or> l = 3" if "l < 4" for l :: nat using that by auto
  then show "dest_ok day_engine" by (fastforce simp: dest_ok_def trip_engine_def day_data_def)
qed

lemma day_trip_ok:
  "limits_ok day_trip (init_interval (sx_q day_trip))" "ss_interval day_trip_state = init_interval (sx_q day_trip)"
  "ss_algo day_trip_state = tb_construct day_engine (mk_query_state (te_tt day_engine) (te_data day_engine))"
  "set (sx_unique day_trip js) = set js" "query_start day_trip st \<Longrightarrow> start_stop st < n_locations (te_tt day_engine)"
proof -
  have q: "sx_tt day_trip = day_lines" "sx_q day_trip = example_trip_query\<lparr>q_start_time := InInterval (mk_iv 2030 2050)\<rparr>"
    "external_interval day_lines = mk_iv 0 43200" "init_interval (sx_q day_trip) = mk_iv 2030 2050"
    by (simp_all add: day_trip_def example_search_def example_trip_query_def init_interval_def external_interval_def
      example_lines_def empty_timetable_def mk_iv_def)
  have "within_limits (mk_iv 0 43200) (example_trip_query\<lparr>q_start_time := InInterval (mk_iv 2030 2050)\<rparr>) (mk_iv 2030 2050)" by code_simp
  then show "limits_ok day_trip (init_interval (sx_q day_trip))"
    using q(3,4) unfolding limits_ok_def q(1,4) by (simp add: q(2) iv_valid_def mk_iv_def)
  assume "query_start day_trip st"
  then obtain tm b prev where st: "st \<in> set (get_starts Forward day_lines None tm (sx_q day_trip) b (\<lambda>m. m) prev)" "st \<notin> set prev"
    by (auto simp: query_start_def day_trip_def example_search_def)
  have "adds (\<lambda>st. start_stop st \<in> {0}) prev (get_starts Forward day_lines None tm (sx_q day_trip) b (\<lambda>m. m) prev)"
    by (rule get_starts_stops [OF refl]) (simp_all add: q example_trip_query_def example_query_def shortest_starts_def
      for_each_meta_def update_start_def start_vias_def update_min_def)
  with st have "start_stop st = 0" by (auto simp: adds_def)
  then show "start_stop st < n_locations (te_tt day_engine)" by (simp add: trip_engine_def)
qed (simp_all add: day_trip_state_def example_state_def day_trip_def example_trip_query_def example_search_def
    init_interval_def trip_engine_def)

theorem tb_search_sound_witness:
  "case search_execute 43201 day_trip (tb_algo day_engine) day_trip_state of
     None \<Rightarrow> True
   | Some s' \<Rightarrow> list_all (\<lambda>j. \<exists>starts. starts \<subseteq> {st. query_start day_trip st \<and> leaves_from (sx_dir day_trip) (j_start_time j) st} \<and>
       tb_journey_ok day_engine starts (j_start_time j) j) (ss_results s')"
  using tb_search_sound [OF day_engine_ok day_trip_ok(1-3) day_trip_ok(4) day_trip_ok(5)]
  by (auto simp: list_all_iff split: option.split)

end
