(* ===== verification/Tb_Runs.thy ===== *)
theory Tb_Runs
  imports Tb_Search
begin

text \<open>
  Runs of the trip-based search on the example timetable, evaluated: the result for a query to a
  stop, and what two omissions of the code do to it.
\<close>

unbundle bit_operations_syntax

definition fresh_state :: tb_state where
  "fresh_state = mk_query_state day_lines day_data"

text \<open>What the interval search does for one start time: reset, start at stop 0 at minute 2040, execute.\<close>

definition run_from :: "tb_engine \<Rightarrow> nat \<Rightarrow> tb_state \<Rightarrow> tb_state \<times> journey list" where
  "run_from c max_transfers s =
     tb_execute c 2040 max_transfers 10000 (tb_add_start c 0 2040 0 (tb_next_start_time (tb_reset_arrivals c s)), [])"

lemma fifteen: "replicate 15 x = [x, x, x, x, x, x, x, x, x, x, x, x, x, x, x]"
  by (simp add: numeral_eq_Suc)

lemma rounds14: "[0..<14] = [0, 1, 2, 3, 4, 5, 6, 7, 8, 9, 10, 11, 12, 13]"
  by (simp add: upt_rec)

lemmas construct_simps = tb_construct_def trip_engine_def day_data_def mk_query_state_def query_state_reset_def Let_def
  mark_dest_segments_def mark_segment_def iv_list_def mk_iv_def short_lists kMaxTransfers_def fifteen

lemma day6: "day_idx_mam day_lines 2040 = (6, 600)"
  by (simp add: day_idx_mam_def example_lines_def empty_timetable_def internal_interval_def mk_iv_def kTimetableOffset_def Let_def wrap_s16_id)

lemma first_transport: "tt_earliest_transport Forward day_lines 0 0 6 600 (\<lambda>_ _. False) = Some \<lparr>t_idx = 0, t_day = 6\<rparr>"
  by (simp add: tt_earliest_transport_def example_first delta_plus_def delta_of_minutes_def mk_delta_def Let_def is_better_def
    is_better_or_eq_def et_offset_def iv_nth_def mk_iv_def is_transport_active_def numeral_2_eq_2)

text \<open>The states of the run of a query that starts at stop 0 at minute 2040, when the last segment is
  noted to end \<open>w\<close> minutes from the destination: after the start, with the worst time set, and after the
  first and the second round.\<close>

definition run_state :: "int \<Rightarrow> nat \<Rightarrow> tb_state" where
  "run_state w n = \<lparr>tq_reached = [[\<lparr>re_transport = 20480, re_segment_offset = 0, re_k = 0\<rparr>],
        (if n \<le> 1 then [] else [\<lparr>re_transport = 20481, re_segment_offset = 1, re_k = 1\<rparr>])],
      tq_queue = \<lparr>qe_segments = mk_iv 0 1, qe_parent = kNoParent, qe_day_offset = 5\<rparr> #
        (if n \<le> 1 then [] else [\<lparr>qe_segments = mk_iv 4 5, qe_parent = 0, qe_day_offset = 5\<rparr>]),
      t_min = (if n = 0 then replicate 15 kUnixtimeMax else if n < 3 then replicate 14 10000 @ [kUnixtimeMax]
        else 10000 # replicate 14 (2180 + w)),
      tq_parent = (if n < 3 then replicate 15 kNoParent else kNoParent # 1 # replicate 13 kNoParent),
      tq_end_reachable = [False, False, True, False, True], tq_dist = (\<lambda>_. None)(2 \<mapsto> w, 4 \<mapsto> w)\<rparr>"

definition constructed_state :: "int \<Rightarrow> tb_state" where
  "constructed_state w =
     \<lparr>tq_reached = [[], []], tq_queue = [], t_min = replicate 15 kUnixtimeMax, tq_parent = replicate 15 kNoParent,
      tq_end_reachable = [False, False, True, False, True], tq_dist = (\<lambda>_. None)(2 \<mapsto> w, 4 \<mapsto> w)\<rparr>"

lemma started: "tb_add_start (trip_engine b ds) 0 2040 0 (constructed_state w) = run_state w 0"
  by (simp add: constructed_state_def run_state_def tb_add_start_def trip_engine_def day6 first_transport start_at_stop_def Let_def
    query_day_shift_def kTBMaxDayOffset_def with_queue_def initial_enqueue_def mk_entry_def reached_query_def reached_update_def
    to_transport_def pareto_add_def add_loop.simps kNoParent_def day_data_def mk_iv_def)

lemma fourteen: "replicate 14 x = [x, x, x, x, x, x, x, x, x, x, x, x, x, x]" "replicate 13 x = [x, x, x, x, x, x, x, x, x, x, x, x, x]"
  by (simp_all add: numeral_eq_Suc)

lemma cut: "fold (tb_cut_off 10000) [0..<kMaxTransfers] (run_state w 0) = run_state w 1"
  by (simp add: run_state_def tb_cut_off_def kMaxTransfers_def rounds14 fifteen fourteen kUnixtimeMax_def)

lemma segment_arrivals:
  "segment_arrival (trip_engine b ds) 0 \<lparr>qe_segments = iv, qe_parent = p, qe_day_offset = 5\<rparr> = 2070"
  "segment_arrival (trip_engine b ds) 4 \<lparr>qe_segments = iv, qe_parent = p, qe_day_offset = 5\<rparr> = 2180"
  by (simp_all add: segment_arrival_def segment_transport_def segment_stop_def trip_engine_def day_data_def entry_day_def
      query_day_shift_def event_time_def example_events numeral_2_eq_2 [symmetric]
      internal_interval_days_def mk_iv_def kTimetableOffset_def as_duration_def)
    (simp_all add: delta_plus_def delta_of_minutes_def mk_delta_def Let_def wrap_s16_id)

lemma round0: "tb_round (trip_engine b ds) 0 [0] (run_state w 1) = run_state w 2"
  apply (simp add: tb_round_def seg_dest_def seg_prune_def Let_def run_state_def iv_list_def mk_iv_def segment_arrivals fourteen)
  apply (simp add: trip_engine_def day_data_def segment_transport_def segment_stop_def wrap_s16_id)
  apply (simp add: seg_transfers_def Let_def iv_list_def entry_day_def query_day_shift_def with_queue_def enqueue_def get_day_offset_def wrap_s8_id
   kTBMaxDayOffset_def reached_query_def reached_update_def to_transport_def pareto_add_def add_loop.simps mk_entry_def)
  done

lemma dest1: "w < 100 \<Longrightarrow> seg_dest (trip_engine b ds) 1 1 (run_state w 2) = run_state w 3"
  by (simp add: seg_dest_def Let_def run_state_def iv_list_def mk_iv_def segment_arrivals fourteen)
    (simp add: improve_t_min_def Let_def kUnixtimeMax_def fifteen)

lemma round1:
  assumes "0 \<le> w" "w < 100"
  shows "tb_round (trip_engine b ds) 1 [1] (run_state w 2) = run_state w 3"
proof -
  have "seg_prune (trip_engine b ds) 1 1 (run_state w 3) = run_state w 3"
    using assms by (simp add: seg_prune_def Let_def run_state_def mk_iv_def segment_arrivals fourteen)
      (simp add: trip_engine_def day_data_def segment_transport_def segment_stop_def wrap_s16_id)
  moreover have "seg_transfers (trip_engine b ds) 1 1 (run_state w 3) = run_state w 3"
    by (simp add: seg_transfers_def Let_def run_state_def mk_iv_def iv_list_def trip_engine_def day_data_def)
  ultimately show ?thesis using dest1 [OF assms(2)] by (simp add: tb_round_def)
qed

lemma run:
  assumes "tb_next_start_time (tb_reset_arrivals (trip_engine b ds) s) = constructed_state w" "0 \<le> w" "w < 100"
  shows "run_from (trip_engine b ds) max_transfers s = (run_state w 3,
    [\<lparr>j_legs = [], j_start_time = 2040, j_dest_time = 2180 + w, j_dest = 4294967295, j_transfers = 1, j_error = False,
      j_is_reconstructed = False\<rparr>])"
proof -
  let ?c = "trip_engine b ds"
  have iv: "iv_list (mk_iv 0 1) = [0]" "iv_list (mk_iv 1 2) = [1]" "iv_list (mk_iv 2 2) = []" "ito (mk_iv a e) = e" for a e :: nat
    by (simp_all add: iv_list_def mk_iv_def short_lists)
  have len: "length (tq_queue (run_state w 1)) = 1" "length (tq_queue (run_state w 2)) = 2" "length (tq_queue (run_state w 3)) = 2"
    by (simp_all add: run_state_def)
  have k: "(0 :: nat) < kMaxTransfers" "1 < kMaxTransfers" "0 + 1 = (1 :: nat)" by (simp_all add: kMaxTransfers_def)
  have "tb_rounds ?c 0 (mk_iv 0 1) (run_state w 1) = tb_rounds ?c 1 (mk_iv 1 2) (run_state w 2)"
    by (subst tb_rounds.simps) (simp only: iv k Let_def round0 len list.simps simp_thms if_True)
  also have "\<dots> = tb_rounds ?c (1 + 1) (mk_iv 2 2) (run_state w 3)"
    by (subst tb_rounds.simps) (simp only: iv k Let_def round1 [OF assms(2,3)] len list.simps simp_thms if_True)
  also have "\<dots> = run_state w 3"
    by (subst tb_rounds.simps) (simp only: iv simp_thms if_False)
  finally have rounds: "tb_rounds ?c 0 (mk_iv 0 (length (tq_queue (run_state w 1)))) (run_state w 1) = run_state w 3"
    by (simp only: len)
  have "fold (tb_add_result 2040 (run_state w 3)) [0..<kMaxTransfers] [] = [\<lparr>j_legs = [], j_start_time = 2040, j_dest_time = 2180 + w,
      j_dest = 4294967295, j_transfers = 1, j_error = False, j_is_reconstructed = False\<rparr>]"
    by (simp add: kMaxTransfers_def rounds14 tb_add_result_def run_state_def fourteen pareto_add_def add_loop.simps kNoParent_def)
  then show ?thesis by (simp add: run_from_def assms(1) tb_execute_def started cut rounds [unfolded One_nat_def] Let_def)
qed

abbreviation connection :: "int \<Rightarrow> journey" where
  "connection arr \<equiv> \<lparr>j_legs = [], j_start_time = 2040, j_dest_time = arr, j_dest = 4294967295, j_transfers = 1, j_error = False,
     j_is_reconstructed = False\<rparr>"

text \<open>A destination ten minutes from stop 2.\<close>

abbreviation coordinate_engine :: tb_engine where "coordinate_engine \<equiv> trip_engine [] [65535, 65535, 10, 65535]"

lemmas fresh_simps = constructed_state_def construct_simps tb_reset_arrivals_def tb_next_start_time_def

lemma constructed_day:
  "tb_next_start_time (tb_reset_arrivals day_engine (tb_construct day_engine (mk_query_state day_lines day_data))) = constructed_state 0"
  by (simp add: fresh_simps) (simp add: numeral_2_eq_2)

lemma constructed_coordinate:
  "tb_next_start_time (tb_reset_arrivals coordinate_engine (tb_construct coordinate_engine (mk_query_state day_lines day_data))) = constructed_state 10"
  "tb_next_start_time (tb_reset_arrivals coordinate_engine (tb_construct coordinate_engine (run_state 0 3))) = constructed_state 0"
   apply (simp_all add: fresh_simps kUnreachable_def wrap_s16_id run_state_def)
   apply (simp_all add: numeral_2_eq_2)
  done

text \<open>The journeys a run offers to its results.\<close>

definition tb_offer :: "int \<Rightarrow> tb_state \<Rightarrow> nat \<Rightarrow> journey" where
  "tb_offer t s n = \<lparr>j_legs = [], j_start_time = t, j_dest_time = t_min s ! n, j_dest = 4294967295, j_transfers = n,
     j_error = False, j_is_reconstructed = False\<rparr>"

lemma tb_results_offers:
  "fold (tb_add_result t s) ns js = pareto_adds j_dominates js (map (tb_offer t s) (filter (\<lambda>n. tq_parent s ! n \<noteq> kNoParent) ns))"
  by (induction ns arbitrary: js) (simp_all add: pareto_adds_def tb_add_result_def tb_offer_def)



text \<open>Property C27. Distances outlive their query. \<open>query_state::reset\<close> keeps the distances of the segments
  to the destination, and the constructor of the next engine only lowers them. A query to a coordinate
  ten minutes from stop 2, run on the state of a query to stop 2 itself, arrives at the time the
  transport does; on a fresh state it arrives ten minutes later.\<close>

theorem stale_distances:
  "snd (run_from coordinate_engine 7 (tb_construct coordinate_engine (mk_query_state day_lines day_data))) = [connection 2190] \<and>
   snd (run_from coordinate_engine 7 (tb_construct coordinate_engine
     (fst (run_from day_engine 7 (tb_construct day_engine (mk_query_state day_lines day_data)))))) = [connection 2180]"
proof -
  have "fst (run_from day_engine 7 (tb_construct day_engine (mk_query_state day_lines day_data))) = run_state 0 3"
    by (simp add: run [OF constructed_day])
  then show ?thesis by (simp add: run [OF constructed_coordinate(1)] run [OF constructed_coordinate(2)])
qed

end
