(* ===== verification/Gtfs_Sequence.thy ===== *)
theory Gtfs_Sequence
  imports Prelude
begin

text \<open>
  The stop sequence numbers of trips, stored compactly: \<open>encode_seq_numbers\<close>
  (\<open>src/loader/gtfs/stop_seq_number_encoding.cc\<close>) and the range that reads them back
  (\<open>include/nigiri/loader/gtfs/stop_seq_number_encoding.h\<close>). Sequences counted from 0, from 1 or in steps
  of ten take no or one number. A \<open>stop_idx_t\<close> is 16 bits wide. A thrown exception is \<^const>\<open>None\<close>.
\<close>

section \<open>Encoding\<close>

text \<open>The loop counts \<open>i\<close> and the expected number \<open>x\<close> in 16 bits.\<close>

fun is_based_loop :: "int list \<Rightarrow> int \<Rightarrow> int \<Rightarrow> bool" where
  "is_based_loop [] x inc = True"
| "is_based_loop (y # ys) x inc = (if y \<noteq> x then False else is_based_loop ys (u16 (x + inc)) inc)"

definition is_based :: "int list \<Rightarrow> int \<Rightarrow> int \<Rightarrow> bool" where
  "is_based xs start inc = is_based_loop xs start inc"

definition encode_seq_numbers :: "int list \<Rightarrow> int list" where
  "encode_seq_numbers xs =
     (if is_based xs 0 1 then []
      else if is_based xs 1 1 then [1]
      else if is_based xs 10 10 then [10]
      else xs)"

section \<open>Reading\<close>

datatype number_seq_type = kZeroBased | kOneBased | kTenBased | kFullySpecified | kInvalid

record seq_range =
  seq_numbers :: "int list"
  location_seq_size :: int

definition seq_type :: "seq_range \<Rightarrow> number_seq_type" where
  "seq_type r =
     (if seq_numbers r = [] then kZeroBased
      else if length (seq_numbers r) = 1
      then (if seq_numbers r ! 0 = 1 then kOneBased else if seq_numbers r ! 0 = 10 then kTenBased else kInvalid)
      else kFullySpecified)"

text \<open>The two kinds of iterators: current number, increment and number of stops left, or a position in the
  stored numbers.\<close>

datatype seq_iterator =
  Compact (curr: int) (inc: int) (num_stops: int)
| Fully_Specified (idx: int) (seq: "int list")

primrec seq_deref :: "seq_iterator \<Rightarrow> int" where
  "seq_deref (Compact c i n) = c"
| "seq_deref (Fully_Specified k xs) = xs ! nat k"

primrec seq_next :: "seq_iterator \<Rightarrow> seq_iterator option" where
  "seq_next (Compact c i n) = (if 1 \<le> n then Some (Compact (u16 (c + i)) i (u16 (n - 1))) else None)"
| "seq_next (Fully_Specified k xs) = (if k < int (length xs) then Some (Fully_Specified (u16 (k + 1)) xs) else None)"

primrec seq_advance :: "nat \<Rightarrow> seq_iterator \<Rightarrow> seq_iterator option" where
  "seq_advance m (Compact c i n) =
     (if int m \<le> n then Some (Compact (u16 (c + u32 (i * int m))) i (u16 (n - int m))) else None)"
| "seq_advance m (Fully_Specified k xs) =
     (if u32 (k + int m) < int (length xs) then Some (Fully_Specified (u16 (k + int m)) xs) else None)"

definition seq_begin :: "seq_range \<Rightarrow> seq_iterator option" where
  "seq_begin r =
     (case seq_type r of
        kZeroBased \<Rightarrow> Some (Compact 0 1 (location_seq_size r))
      | kOneBased \<Rightarrow> Some (Compact 1 1 (location_seq_size r))
      | kTenBased \<Rightarrow> Some (Compact 10 10 (location_seq_size r))
      | kFullySpecified \<Rightarrow> Some (Fully_Specified 0 (seq_numbers r))
      | kInvalid \<Rightarrow> None)"

definition seq_end :: "seq_range \<Rightarrow> seq_iterator option" where
  "seq_end r =
     (case seq_type r of
        kZeroBased \<Rightarrow> Some (Compact (location_seq_size r) 1 0)
      | kOneBased \<Rightarrow> Some (Compact (u16 (location_seq_size r + 1)) 1 0)
      | kTenBased \<Rightarrow> Some (Compact (u16 (10 + 10 * location_seq_size r)) 10 0)
      | kFullySpecified \<Rightarrow> Some (Fully_Specified (u16 (int (length (seq_numbers r)))) (seq_numbers r))
      | kInvalid \<Rightarrow> None)"

text \<open>A \<open>for\<close> loop over the range, of at most \<open>fuel\<close> steps; \<^const>\<open>None\<close> if the iterator throws or the end
  is not reached.\<close>

fun seq_collect :: "nat \<Rightarrow> seq_iterator \<Rightarrow> seq_iterator \<Rightarrow> int list option" where
  "seq_collect fuel it e =
     (if it = e then Some []
      else case fuel of
        0 \<Rightarrow> None
      | Suc fuel \<Rightarrow> (case seq_next it of
            None \<Rightarrow> None
          | Some it' \<Rightarrow> map_option (\<lambda>xs. seq_deref it # xs) (seq_collect fuel it' e)))"

declare seq_collect.simps [simp del]

definition decode_seq_numbers :: "int list \<Rightarrow> nat \<Rightarrow> int list option" where
  "decode_seq_numbers enc n =
     (let r = \<lparr>seq_numbers = enc, location_seq_size = int n\<rparr>
      in case (seq_begin r, seq_end r) of
           (Some b, Some e) \<Rightarrow> seq_collect n b e
         | _ \<Rightarrow> None)"

section \<open>Round trip\<close>

text \<open>The numbers a compact range counts.\<close>

fun counted :: "int \<Rightarrow> int \<Rightarrow> nat \<Rightarrow> int list" where
  "counted x i 0 = []"
| "counted x i (Suc n) = x # counted (u16 (x + i)) i n"

lemma is_based_counted: "is_based_loop xs x i \<longleftrightarrow> xs = counted x i (length xs)"
  by (induction xs x i rule: is_based_loop.induct) auto

lemma u16_add: "u16 (u16 a + b) = u16 (a + b)"
  by (simp add: wrap_u_def mod_simps)

lemma collect_compact:
  assumes "n < 65536" "u16 x = x"
  shows "seq_collect n (Compact x i (int n)) (Compact (u16 (x + i * int n)) i 0) = Some (counted x i n)"
  using assms
proof (induction n arbitrary: x)
  case 0
  then show ?case by (simp add: seq_collect.simps)
next
  case (Suc n)
  have n: "u16 (int (Suc n) - 1) = int n" using Suc.prems(1) by simp
  have e: "u16 (x + i * int (Suc n)) = u16 (u16 (x + i) + i * int n)"
    unfolding u16_add by (simp add: algebra_simps)
  have "seq_collect n (Compact (u16 (x + i)) i (int n)) (Compact (u16 (u16 (x + i) + i * int n)) i 0)
    = Some (counted (u16 (x + i)) i n)"
    by (rule Suc.IH) (use Suc.prems u16_add [of "x + i" 0] in auto)
  with n show ?case unfolding e
    by (subst seq_collect.simps) simp
qed

lemma collect_specified:
  assumes "length xs < 65536" "k \<le> length xs"
  shows "seq_collect (length xs - k) (Fully_Specified (int k) xs) (Fully_Specified (u16 (int (length xs))) xs)
    = Some (drop k xs)"
  using assms(2)
proof (induction "length xs - k" arbitrary: k)
  case 0
  then show ?case using assms(1) by (simp add: seq_collect.simps)
next
  case (Suc n)
  then have k: "k < length xs" "n = length xs - Suc k" by simp_all
  have "u16 (int k + 1) = int (Suc k)" using k assms(1) by simp
  moreover have "drop k xs = xs ! k # drop (Suc k) xs" using k by (simp add: Cons_nth_drop_Suc)
  moreover have "length xs - k = Suc (length xs - Suc k)" using k by simp
  moreover note Suc.hyps(1) [OF k(2)]
  ultimately show ?case using k assms(1) by (subst seq_collect.simps) (simp add: add.commute)
qed

text \<open>Property C37. Storing stop sequence numbers and reading them back gives the numbers again, for every trip of less than
  65536 stops, except that a single number other than 0, 1 and 10 cannot be read back: the range
  throws.\<close>

theorem seq_numbers_roundtrip:
  assumes "length xs < 65536"
  shows "decode_seq_numbers (encode_seq_numbers xs) (length xs) =
    (if length xs = 1 \<and> xs ! 0 \<notin> {0, 1, 10} then None else Some xs)"
proof -
  let ?r = "\<lambda>enc. \<lparr>seq_numbers = enc, location_seq_size = int (length xs)\<rparr>"
  have l: "u16 (int (length xs)) = int (length xs)" using assms by simp
  consider (zero) "is_based xs 0 1" | (one) "\<not> is_based xs 0 1" "is_based xs 1 1"
    | (ten) "\<not> is_based xs 0 1" "\<not> is_based xs 1 1" "is_based xs 10 10"
    | (other) "\<not> is_based xs 0 1" "\<not> is_based xs 1 1" "\<not> is_based xs 10 10" by blast
  then show ?thesis
  proof cases
    case zero
    then have "xs = counted 0 1 (length xs)" by (simp add: is_based_def is_based_counted)
    moreover have "length xs = 1 \<Longrightarrow> xs ! 0 = 0" using zero by (cases xs) (auto simp: is_based_def split: if_splits)
    ultimately show ?thesis using zero collect_compact [OF assms, of 0 1] l
      by (simp add: decode_seq_numbers_def encode_seq_numbers_def seq_begin_def seq_end_def seq_type_def)
  next
    case one
    then have "xs = counted 1 1 (length xs)" by (simp add: is_based_def is_based_counted)
    moreover have "length xs = 1 \<Longrightarrow> xs ! 0 = 1" using one by (cases xs) (auto simp: is_based_def split: if_splits)
    ultimately show ?thesis using one collect_compact [OF assms, of 1 1] l
      by (simp add: decode_seq_numbers_def encode_seq_numbers_def seq_begin_def seq_end_def seq_type_def add.commute)
  next
    case ten
    then have "xs = counted 10 10 (length xs)" by (simp add: is_based_def is_based_counted)
    moreover have "length xs = 1 \<Longrightarrow> xs ! 0 = 10" using ten by (cases xs) (auto simp: is_based_def split: if_splits)
    ultimately show ?thesis using ten collect_compact [OF assms, of 10 10] l
      by (simp add: decode_seq_numbers_def encode_seq_numbers_def seq_begin_def seq_end_def seq_type_def)
  next
    case other
    have ne: "xs \<noteq> []" using other by (auto simp: is_based_def)
    show ?thesis
    proof (cases "length xs = 1")
      case True
      then obtain x where "xs = [x]" by (cases xs) auto
      with other show ?thesis
        by (auto simp: is_based_def decode_seq_numbers_def encode_seq_numbers_def seq_begin_def seq_type_def)
    next
      case False
      with other ne collect_specified [OF assms, of 0] l show ?thesis
        by (simp add: decode_seq_numbers_def encode_seq_numbers_def seq_begin_def seq_end_def seq_type_def)
    qed
  qed
qed

theorem seq_numbers_roundtrip_witness:
  "decode_seq_numbers (encode_seq_numbers [10, 20, 30]) 3 = Some [10, 20, 30] \<and> encode_seq_numbers [10, 20, 30] = [10]"
  using seq_numbers_roundtrip [of "[10, 20, 30]"]
  by (simp add: encode_seq_numbers_def is_based_def wrap_u_def numeral_3_eq_3)

end
