(* ===== verification/Gtfs_Services.thy ===== *)
theory Gtfs_Services
  imports Intervals Nigiri_Types
begin

text \<open>
  GTFS services: the rows of \<open>calendar.txt\<close> and \<open>calendar_dates.txt\<close>
  (\<open>src/loader/gtfs/calendar.cc\<close>, \<open>calendar_date.cc\<close>, \<open>parse_date.h\<close>) and the traffic days computed
  from them (\<open>src/loader/gtfs/services.cc\<close>). Days are numbered from 1970-01-01. The conversion of a
  date to its number (\<open>civil\<close>) and the day of the week of a number (\<open>wd\<close>, Sunday is 0) belong to the date
  library and are parameters. A hash map that is iterated over is the list of its entries in the order of
  the iteration.
\<close>

section \<open>Rows\<close>

definition kMaxDays :: int where "kMaxDays = 512"

definition parse_date :: "(int \<Rightarrow> int \<Rightarrow> int \<Rightarrow> int) \<Rightarrow> int \<Rightarrow> int" where
  "parse_date civil yyyymmdd =
     civil (cdiv yyyymmdd 10000) (cmod yyyymmdd 10000 div 100) (cmod yyyymmdd 100)"

record calendar =
  week_days :: "bool list"
  cal_interval :: "int interval"

datatype exception_type = kAdd | kRemove

record calendar_date =
  cd_type :: exception_type
  cd_day :: int

record calendar_entry =
  ce_id :: string
  ce_monday :: nat
  ce_tuesday :: nat
  ce_wednesday :: nat
  ce_thursday :: nat
  ce_friday :: nat
  ce_saturday :: nat
  ce_sunday :: nat
  ce_start_date :: int
  ce_end_date :: int

definition calendar_of_entry :: "(int \<Rightarrow> int \<Rightarrow> int \<Rightarrow> int) \<Rightarrow> calendar_entry \<Rightarrow> string \<times> calendar" where
  "calendar_of_entry civil e =
     (ce_id e,
      \<lparr>week_days = [ce_sunday e = 1, ce_monday e = 1, ce_tuesday e = 1, ce_wednesday e = 1,
         ce_thursday e = 1, ce_friday e = 1, ce_saturday e = 1],
       cal_interval = mk_iv (parse_date civil (ce_start_date e)) (parse_date civil (ce_end_date e) + 1)\<rparr>)"

record date_entry =
  de_id :: string
  de_date :: int
  de_exception_type :: nat

text \<open>Rows of a service are appended to its list, in the order of the file.\<close>

definition add_calendar_date ::
    "(int \<Rightarrow> int \<Rightarrow> int \<Rightarrow> int) \<Rightarrow> date_entry \<Rightarrow> (string \<rightharpoonup> calendar_date list) \<Rightarrow> (string \<rightharpoonup> calendar_date list)" where
  "add_calendar_date civil e m =
     m(de_id e \<mapsto> (case m (de_id e) of Some ds \<Rightarrow> ds | None \<Rightarrow> []) @
        [\<lparr>cd_type = (if de_exception_type e = 1 then kAdd else kRemove), cd_day = parse_date civil (de_date e)\<rparr>])"

definition read_calendar_date ::
    "(int \<Rightarrow> int \<Rightarrow> int \<Rightarrow> int) \<Rightarrow> date_entry list \<Rightarrow> (string \<rightharpoonup> calendar_date list)" where
  "read_calendar_date civil rows = fold (add_calendar_date civil) rows Map.empty"

section \<open>Traffic days\<close>

text \<open>\<open>bitset::set(i, v)\<close>.\<close>

definition bf_set :: "nat \<Rightarrow> bool \<Rightarrow> bitfield \<Rightarrow> bitfield" where
  "bf_set i v b = (if v then Bit_Operations.set_bit i b else Bit_Operations.unset_bit i b)"

function calendar_loop ::
    "(int \<Rightarrow> nat) \<Rightarrow> bool list \<Rightarrow> int \<Rightarrow> int \<Rightarrow> int \<Rightarrow> bitfield \<Rightarrow> bitfield" where
  "calendar_loop wd week stop_day d i b =
     (if d < stop_day \<and> i < kMaxDays
      then calendar_loop wd week stop_day (d + 1) (i + 1) (bf_set (nat i) (week ! wd d) b) else b)"
  by pat_completeness auto

termination
  by (relation "measure (\<lambda>(_, _, stop_day, d, _, _). nat (stop_day - d))") auto

declare calendar_loop.simps [simp del]

definition is_extended :: "calendar \<Rightarrow> int option \<Rightarrow> bool" where
  "is_extended c feed_end_date =
     (case feed_end_date of Some e \<Rightarrow> e = ito (cal_interval c) - 1 | None \<Rightarrow> False)"

definition calendar_to_bitfield ::
    "(int \<Rightarrow> nat) \<Rightarrow> int interval \<Rightarrow> calendar \<Rightarrow> int option \<Rightarrow> bitfield" where
  "calendar_to_bitfield wd tt_interval c feed_end_date =
     (let extend = is_extended c feed_end_date
      in if \<not> iv_overlaps tt_interval (cal_interval c) \<and> \<not> extend then 0
         else let start_day = iv_clamp tt_interval (ifrom (cal_interval c));
                  stop_day = (if extend then ito tt_interval else iv_clamp tt_interval (ito (cal_interval c)))
              in calendar_loop wd (week_days c) stop_day start_day (start_day - ifrom tt_interval) 0)"

definition add_exception :: "int interval \<Rightarrow> calendar_date \<Rightarrow> bitfield \<Rightarrow> bitfield" where
  "add_exception tt_interval exc b =
     (let day_idx = cd_day exc - ifrom tt_interval
      in if day_idx < 0 \<or> kMaxDays \<le> day_idx then b else bf_set (nat day_idx) (cd_type exc = kAdd) b)"

type_synonym service_days = "string \<rightharpoonup> bitfield"

definition add_exceptions ::
    "int interval \<Rightarrow> string \<times> calendar_date list \<Rightarrow> service_days \<Rightarrow> service_days" where
  "add_exceptions tt_interval e s =
     fold (\<lambda>day s. s(fst e \<mapsto> add_exception tt_interval day (case s (fst e) of Some b \<Rightarrow> b | None \<Rightarrow> 0)))
       (snd e) s"

definition merge_traffic_days ::
    "(int \<Rightarrow> nat) \<Rightarrow> int interval \<Rightarrow> (string \<times> calendar) list \<Rightarrow> (string \<times> calendar_date list) list
     \<Rightarrow> int option \<Rightarrow> service_days" where
  "merge_traffic_days wd tt_interval base exceptions feed_end_date =
     (let s = fold (\<lambda>(service_name, c) s. s(service_name \<mapsto> calendar_to_bitfield wd tt_interval c feed_end_date))
                base Map.empty
      in fold (add_exceptions tt_interval) exceptions s)"

section \<open>What the traffic days mean\<close>

text \<open>The rule of \<open>calendar.txt\<close>: within the interval (without its end when it is extended) on the days of the
  week.\<close>

definition calendar_on :: "(int \<Rightarrow> nat) \<Rightarrow> calendar \<Rightarrow> int option \<Rightarrow> int \<Rightarrow> bool" where
  "calendar_on wd c feed_end_date d \<longleftrightarrow>
     ifrom (cal_interval c) \<le> d \<and> (d < ito (cal_interval c) \<or> is_extended c feed_end_date) \<and> week_days c ! wd d"

text \<open>The last exception of a day decides, if there is any.\<close>

definition exception_on :: "calendar_date list \<Rightarrow> int \<Rightarrow> bool option" where
  "exception_on ds d =
     (let es = filter (\<lambda>e. cd_day e = d) ds in if es = [] then None else Some (cd_type (last es) = kAdd))"

definition service_on ::
    "(int \<Rightarrow> nat) \<Rightarrow> int interval \<Rightarrow> calendar option \<Rightarrow> calendar_date list \<Rightarrow> int option \<Rightarrow> int \<Rightarrow> bool" where
  "service_on wd tt_interval c ds feed_end_date d =
     (case exception_on ds d of
        Some b \<Rightarrow> b
      | None \<Rightarrow> d < ito tt_interval \<and> (\<exists>c'. c = Some c' \<and> calendar_on wd c' feed_end_date d))"

text \<open>The exceptions of a service are its rows in the order of the file.\<close>

lemma read_calendar_date_rows:
  "(case read_calendar_date civil rows name of Some ds \<Rightarrow> ds | None \<Rightarrow> []) =
     map (\<lambda>e. \<lparr>cd_type = (if de_exception_type e = 1 then kAdd else kRemove), cd_day = parse_date civil (de_date e)\<rparr>)
       (filter (\<lambda>e. de_id e = name) rows)"
  by (induction rows rule: rev_induct) (auto simp: read_calendar_date_def add_calendar_date_def)

lemma bit_bf_set: "i < 512 \<Longrightarrow> bit (bf_set i v b) j \<longleftrightarrow> (if j = i then v else bit b j)"
  by (auto simp: bf_set_def bit_set_bit_iff bit_unset_bit_iff)

lemma calendar_loop_bits:
  assumes "0 \<le> i"
  shows "bit (calendar_loop wd week stop_day d i b) j \<longleftrightarrow>
    (if i \<le> int j \<and> int j < kMaxDays \<and> d + (int j - i) < stop_day then week ! wd (d + (int j - i)) else bit b j)"
  using assms
proof (induction wd week stop_day d i b rule: calendar_loop.induct)
  case (1 wd week stop_day d i b)
  show ?case
  proof (cases "d < stop_day \<and> i < kMaxDays")
    case True
    then have i: "nat i < 512" using "1.prems" by (simp add: kMaxDays_def nat_less_iff)
    have "bit (calendar_loop wd week stop_day d i b) j \<longleftrightarrow>
        bit (calendar_loop wd week stop_day (d + 1) (i + 1) (bf_set (nat i) (week ! wd d) b)) j"
      using True by (simp add: calendar_loop.simps [of wd week stop_day d])
    also have "\<dots> \<longleftrightarrow> (if i + 1 \<le> int j \<and> int j < kMaxDays \<and> d + 1 + (int j - (i + 1)) < stop_day
        then week ! wd (d + 1 + (int j - (i + 1))) else bit (bf_set (nat i) (week ! wd d) b) j)"
      using "1.IH" [OF True] "1.prems" by simp
    also have "\<dots> \<longleftrightarrow>
      (if i \<le> int j \<and> int j < kMaxDays \<and> d + (int j - i) < stop_day then week ! wd (d + (int j - i)) else bit b j)"
    proof (cases "int j = i")
      case t: True
      then have "j = nat i" by simp
      with t True show ?thesis by (simp add: bit_bf_set [OF i])
    next
      case False
      then have "j \<noteq> nat i" "i + 1 \<le> int j \<longleftrightarrow> i \<le> int j" using "1.prems" by auto
      then show ?thesis by (simp add: bit_bf_set [OF i] algebra_simps)
    qed
    finally show ?thesis .
  next
    case False
    have "\<not> (i \<le> int j \<and> int j < kMaxDays \<and> d + (int j - i) < stop_day)" using False by auto
    moreover have "calendar_loop wd week stop_day d i b = b"
      using False by (subst calendar_loop.simps) auto
    ultimately show ?thesis by auto
  qed
qed

lemma calendar_to_bitfield_bits:
  assumes "iv_valid tti"
  shows "bit (calendar_to_bitfield wd tti c fe) j \<longleftrightarrow>
    j < 512 \<and> ifrom tti + int j < ito tti \<and> calendar_on wd c fe (ifrom tti + int j)"
proof -
  let ?d = "ifrom tti + int j"
  have v: "ifrom tti \<le> ito tti" using assms by (simp add: iv_valid_def)
  show ?thesis
  proof (cases "\<not> iv_overlaps tti (cal_interval c) \<and> \<not> is_extended c fe")
    case True
    then have "\<not> (?d < ito tti \<and> calendar_on wd c fe ?d)" using v
      by (auto simp: iv_overlaps_def calendar_on_def)
    with True show ?thesis by (simp add: calendar_to_bitfield_def Let_def)
  next
    case False
    define f where "f = iv_clamp tti (ifrom (cal_interval c))"
    define t where "t = (if is_extended c fe then ito tti else iv_clamp tti (ito (cal_interval c)))"
    have f0: "0 \<le> f - ifrom tti" using v by (auto simp: f_def iv_clamp_def std_clamp_def)
    have "calendar_to_bitfield wd tti c fe = calendar_loop wd (week_days c) t f (f - ifrom tti) 0"
      using False by (auto simp: calendar_to_bitfield_def Let_def f_def t_def)
    moreover have fd: "f + (int j - (f - ifrom tti)) = ?d" by (simp only: algebra_simps)
    ultimately have "bit (calendar_to_bitfield wd tti c fe) j \<longleftrightarrow>
        f - ifrom tti \<le> int j \<and> int j < kMaxDays \<and> ?d < t \<and> week_days c ! wd ?d"
      using calendar_loop_bits [OF f0, of wd "week_days c" t f 0 j] unfolding fd by auto
    also have "\<dots> \<longleftrightarrow> j < 512 \<and> ?d < ito tti \<and> calendar_on wd c fe ?d"
      using v False
      by (auto simp: f_def t_def iv_clamp_def std_clamp_def calendar_on_def kMaxDays_def iv_overlaps_def split: if_splits)
    finally show ?thesis .
  qed
qed

lemma add_exception_bits:
  assumes "j < 512"
  shows "bit (add_exception tti e b) j \<longleftrightarrow>
    (if cd_day e = ifrom tti + int j then cd_type e = kAdd else bit b j)"
proof (cases "cd_day e - ifrom tti < 0 \<or> kMaxDays \<le> cd_day e - ifrom tti")
  case True
  with assms show ?thesis by (auto simp: add_exception_def Let_def kMaxDays_def)
next
  case False
  then have "nat (cd_day e - ifrom tti) < 512" by (simp add: kMaxDays_def nat_less_iff)
  moreover have "j = nat (cd_day e - ifrom tti) \<longleftrightarrow> cd_day e = ifrom tti + int j" using False by auto
  ultimately show ?thesis using False by (simp add: add_exception_def Let_def bit_bf_set)
qed

lemma exception_on_snoc:
  "exception_on (ds @ [e]) d = (if cd_day e = d then Some (cd_type e = kAdd) else exception_on ds d)"
  by (simp add: exception_on_def Let_def)

lemma exceptions_bits:
  assumes "j < 512"
  shows "bit (fold (add_exception tti) ds b) j \<longleftrightarrow>
    (case exception_on ds (ifrom tti + int j) of Some v \<Rightarrow> v | None \<Rightarrow> bit b j)"
proof (induction ds rule: rev_induct)
  case Nil
  then show ?case by (simp add: exception_on_def)
next
  case (snoc e ds)
  then show ?case by (simp add: add_exception_bits [OF assms] exception_on_snoc)
qed

lemma add_exceptions_eq:
  "add_exceptions tti (n, ds) s = (if ds = [] then s
     else s(n \<mapsto> fold (add_exception tti) ds (case s n of Some b \<Rightarrow> b | None \<Rightarrow> 0)))"
proof (induction ds rule: rev_induct)
  case (snoc e ds)
  then show ?case by (cases "ds = []") (simp_all add: add_exceptions_def fun_eq_iff)
qed (simp add: add_exceptions_def)

lemma fold_base:
  assumes "distinct (map fst base)"
  shows "fold (\<lambda>(n, c) s. s(n \<mapsto> f c)) base m name =
    (case map_of base name of Some c \<Rightarrow> Some (f c) | None \<Rightarrow> m name)"
  using assms
proof (induction base arbitrary: m)
  case (Cons x base)
  then have "map_of base (fst x) = None" by (simp add: map_of_eq_None_iff)
  with Cons show ?case by (cases x) (auto split: option.splits)
qed simp

lemma fold_exceptions:
  assumes "distinct (map fst exs)"
  shows "fold (add_exceptions tti) exs m name =
    (case map_of exs name of
       Some ds \<Rightarrow> if ds = [] then m name
         else Some (fold (add_exception tti) ds (case m name of Some b \<Rightarrow> b | None \<Rightarrow> 0))
     | None \<Rightarrow> m name)"
  using assms
proof (induction exs arbitrary: m)
  case (Cons x exs)
  obtain n ds where x: "x = (n, ds)" by (cases x)
  with Cons.prems have "map_of exs n = None" by (simp add: map_of_eq_None_iff)
  with Cons x show ?case by (cases "name = n") (auto simp: add_exceptions_eq split: option.splits)
qed simp

section \<open>Exactness\<close>

text \<open>Property C20. The traffic days of services. A service has traffic days exactly if it is named in
  \<open>calendar.txt\<close> or has an exception, and it runs on a day of the timetable exactly if the last
  exception of that day adds it or, without an exception, the day lies in the interval of its calendar
  entry (extended beyond the end of the feed if asked for) and on one of its days of the week. Days
  before the timetable and from day 512 on are dropped.\<close>

theorem merge_traffic_days_exact:
  assumes "iv_valid tti" "distinct (map fst base)" "distinct (map fst exs)"
    and "m = merge_traffic_days wd tti base exs fe" "i < 512"
    and "ds = (case map_of exs name of Some ds \<Rightarrow> ds | None \<Rightarrow> [])"
  shows "(m name = None \<longleftrightarrow> map_of base name = None \<and> ds = []) \<and>
    (m name = Some b \<longrightarrow> (bit b i \<longleftrightarrow> service_on wd tti (map_of base name) ds fe (ifrom tti + int i)))"
proof -
  let ?s = "fold (\<lambda>(n, c) s. s(n \<mapsto> calendar_to_bitfield wd tti c fe)) base Map.empty"
  have s: "?s name = map_option (\<lambda>c. calendar_to_bitfield wd tti c fe) (map_of base name)"
    using fold_base [OF assms(2), of _ Map.empty name] by (cases "map_of base name") simp_all
  have m: "m name = (if ds = [] then ?s name
      else Some (fold (add_exception tti) ds (case ?s name of Some b \<Rightarrow> b | None \<Rightarrow> 0)))"
    using fold_exceptions [OF assms(3), of tti ?s name] assms(4,6)
    by (auto simp: merge_traffic_days_def Let_def split: option.splits)
  have e: "exception_on [] d = None" for d by (simp add: exception_on_def)
  show ?thesis using assms(5) s
    by (cases "map_of base name"; cases "ds = []")
      (auto simp: m e exceptions_bits service_on_def calendar_to_bitfield_bits [OF assms(1)] split: option.splits)
qed

text \<open>A service on the days from Monday to Friday with one day taken out and one added, in a timetable of two
  weeks.\<close>

definition example_calendar :: "(string \<times> calendar) list" where
  "example_calendar = [(''wd'', \<lparr>week_days = [False, True, True, True, True, True, False], cal_interval = mk_iv 20000 20014\<rparr>)]"

definition example_dates :: "(string \<times> calendar_date list) list" where
  "example_dates = [(''wd'', [\<lparr>cd_type = kRemove, cd_day = 20001\<rparr>, \<lparr>cd_type = kAdd, cd_day = 20012\<rparr>])]"

definition example_weekday :: "int \<Rightarrow> nat" where
  "example_weekday d = nat ((d + 4) mod 7)"

theorem merge_traffic_days_exact_witness:
  "bit (the (merge_traffic_days example_weekday (mk_iv 20000 20014) example_calendar example_dates None ''wd'')) 12"
proof -
  let ?m = "merge_traffic_days example_weekday (mk_iv 20000 20014) example_calendar example_dates None"
  note t = merge_traffic_days_exact [of "mk_iv 20000 20014" example_calendar example_dates ?m example_weekday None 12
      "snd (hd example_dates)" "''wd''"]
  have v: "iv_valid (mk_iv 20000 20014 :: int interval)" "distinct (map fst example_calendar)" "distinct (map fst example_dates)"
    by (simp_all add: iv_valid_def example_calendar_def example_dates_def)
  have ds: "snd (hd example_dates) = (case map_of example_dates ''wd'' of Some ds \<Rightarrow> ds | None \<Rightarrow> [])"
    by (simp add: example_dates_def)
  have "service_on example_weekday (mk_iv 20000 20014) (map_of example_calendar ''wd'') (snd (hd example_dates)) None 20012"
    by (simp add: service_on_def exception_on_def example_dates_def Let_def)
  moreover have "map_of example_calendar ''wd'' \<noteq> None" by (simp add: example_calendar_def)
  ultimately show ?thesis using t [OF v refl _ ds] by auto
qed

end
