(* ===== verification/Gtfs_Trips.thy ===== *)
theory Gtfs_Trips
  imports Gtfs_Services Stops Delta_Time
begin

text \<open>
  The trips of a GTFS feed as the loader keeps them (\<open>include/nigiri/loader/gtfs/trip.h\<close>), and
  the interpolation of missing times (\<open>src/loader/gtfs/trip.cc\<close>). Times are minutes after midnight of the service day; the trips of
  \<open>trip_data\<close> are a list. The pointer to the traffic days of a trip is the bit field it points to.
\<close>

section \<open>Trips\<close>

definition kInterpolate :: int where "kInterpolate = - 32768"

record frequency =
  fr_start :: int
  fr_end :: int
  fr_headway :: int
  fr_scheduled :: bool

text \<open>Differences of 16 bit durations, divided as integers and converted to \<open>unsigned\<close>; the start of an
  iteration is computed as \<open>unsigned\<close> and stored in 16 bits.\<close>

definition number_of_iterations :: "frequency \<Rightarrow> nat" where
  "number_of_iterations f = nat (u32 (cdiv (i16 (fr_end f - fr_start f)) (fr_headway f)))"

definition get_iteration_start_time :: "frequency \<Rightarrow> nat \<Rightarrow> int" where
  "get_iteration_start_time f iteration = i16 (u32 (fr_start f + u32 (int iteration * fr_headway f)))"

record stop_events =
  ev_arr :: int
  ev_dep :: int

record gtfs_trip =
  gt_route :: nat
  gt_service :: bitfield
  gt_stop_seq :: "nat list"
  gt_event_times :: "stop_events list"
  gt_frequency :: "frequency list option"
  gt_requires_interpolation :: bool
  gt_flags :: "bool list"
  gt_clasz :: "clasz option"

type_synonym trip_data = "gtfs_trip list"

end
