(* ===== verification/Gtfs_Expand.thy ===== *)
theory Gtfs_Expand
  imports Gtfs_Trips
begin

text \<open>
  From GTFS trips in local time to transports in UTC: \<open>include/nigiri/loader/gtfs/local_to_utc.h\<close> with
  \<open>src/loader/gtfs/noon_offsets.cc\<close>. A trip is expanded into the iterations of its frequencies, and an
  iteration into one transport per offset from UTC on its days of service. Consumers are called in the
  order of the result lists. Proved: the absolute times of the transports are those of the trip on the
  days of its service.
\<close>

section \<open>Frequencies\<close>

record frequency_expanded_trip =
  fe_trips :: "nat list"
  fe_offsets :: "int list"
  fe_traffic_days :: bitfield

definition has_frequency :: "trip_data \<Rightarrow> nat \<Rightarrow> bool" where
  "has_frequency td i \<longleftrightarrow> gt_event_times (td ! i) \<noteq> [] \<and> gt_frequency (td ! i) \<noteq> None"

text \<open>The loop over the pairs of frequencies returns in its first iteration.\<close>

definition headways_match :: "trip_data \<Rightarrow> nat list \<Rightarrow> bool" where
  "headways_match td trips \<longleftrightarrow>
     (if length trips \<le> 1 then True
      else let first = the (gt_frequency (td ! hd trips))
           in list_all (\<lambda>i. case gt_frequency (td ! i) of
                None \<Rightarrow> False
              | Some fs \<Rightarrow> if length fs \<noteq> length first then False
                  else (case zip first fs of
                          (a, b) # _ \<Rightarrow> fr_headway a \<noteq> fr_headway b
                        | [] \<Rightarrow> True)) trips)"

definition stays_sorted :: "trip_data \<Rightarrow> nat list \<Rightarrow> bool" where
  "stays_sorted td trips \<longleftrightarrow>
     (if length trips \<le> 1 then True
      else list_all (\<lambda>i. sorted (map (\<lambda>t. fr_start (the (gt_frequency (td ! t)) ! i)) trips))
             [0..<length (the (gt_frequency (td ! hd trips)))])"

definition iteration_offset :: "trip_data \<Rightarrow> nat \<Rightarrow> nat \<Rightarrow> nat \<Rightarrow> int" where
  "iteration_offset td index it t =
     i16 (ev_dep (hd (gt_event_times (td ! t))) - get_iteration_start_time (the (gt_frequency (td ! t)) ! index) it)"

definition expand_together :: "trip_data \<Rightarrow> nat list \<Rightarrow> bitfield \<Rightarrow> frequency_expanded_trip list" where
  "expand_together td trips traffic_days =
     concat (map (\<lambda>(index, freq).
         map (\<lambda>it. \<lparr>fe_trips = trips, fe_offsets = map (iteration_offset td index it) trips,
                   fe_traffic_days = traffic_days\<rparr>)
           [0..<number_of_iterations freq])
       (enumerate 0 (the (gt_frequency (td ! hd trips)))))"

definition expand_once :: "nat list \<Rightarrow> bitfield \<Rightarrow> frequency_expanded_trip" where
  "expand_once trips traffic_days =
     \<lparr>fe_trips = trips, fe_offsets = replicate (length trips) 0, fe_traffic_days = traffic_days\<rparr>"

function expand_frequencies :: "trip_data \<Rightarrow> nat list \<Rightarrow> bitfield \<Rightarrow> frequency_expanded_trip list" where
  "expand_frequencies td trips traffic_days =
     (if list_ex (has_frequency td) trips
      then if length trips = 1 \<or>
              list_all (has_frequency td) trips \<and> headways_match td trips \<and> stays_sorted td trips
           then expand_together td trips traffic_days
           else concat (map (\<lambda>t. expand_frequencies td [t] traffic_days) trips)
      else [expand_once trips traffic_days])"
  by pat_completeness auto

termination
proof (relation "measure (\<lambda>(td, trips, _). length trips)", goal_cases)
  case (2 td trips traffic_days t)
  then have "length trips \<noteq> 0" "length trips \<noteq> 1" by auto
  then have "1 < length trips" by linarith
  then show ?case by simp
qed simp

declare expand_frequencies.simps [simp del]

section \<open>Offsets from UTC\<close>

text \<open>\<open>utc_offset\<close> gives the offset from UTC in seconds at noon of a local day, as the time zone data base knows
  it.\<close>

definition get_noon_offset :: "(int \<Rightarrow> int) \<Rightarrow> int \<Rightarrow> int" where
  "get_noon_offset utc_offset day = i16 (cdiv (utc_offset day) 60)"

definition precompute_noon_offsets :: "(int \<Rightarrow> int) \<Rightarrow> int interval \<Rightarrow> int list" where
  "precompute_noon_offsets utc_offset tt_interval =
     map (\<lambda>i. if ifrom tt_interval + int i < ito tt_interval
             then get_noon_offset utc_offset (ifrom tt_interval + int i) else 0) [0..<512]"

record utc_trip =
  ut_first_dep_offset :: int
  ut_tz_offset :: int
  ut_trips :: "nat list"
  utc_times :: "int list"
  utc_traffic_days :: bitfield
  ut_stop_seq :: "nat list"

text \<open>Trips without usable event times are dropped.\<close>

definition has_valid_times :: "trip_data \<Rightarrow> nat \<Rightarrow> bool" where
  "has_valid_times td t \<longleftrightarrow> 1 < length (gt_event_times (td ! t)) \<and> \<not> gt_requires_interpolation (td ! t)"

definition valid_trips :: "trip_data \<Rightarrow> frequency_expanded_trip \<Rightarrow> (nat \<times> int) list" where
  "valid_trips td fet = filter (\<lambda>(t, _). has_valid_times td t) (zip (fe_trips fet) (fe_offsets fet))"

fun trip_events :: "stop_events list \<Rightarrow> int list" where
  "trip_events (a # b # es) = ev_dep a # ev_arr b # trip_events (b # es)"
| "trip_events _ = []"

fun raise_times :: "int \<Rightarrow> int list \<Rightarrow> int list" where
  "raise_times pred [] = []"
| "raise_times pred (x # xs) = max pred x # raise_times (max pred x) xs"

type_synonym conversion_key = "int \<times> int"

definition build_time_string :: "trip_data \<Rightarrow> (nat \<times> int) list \<Rightarrow> conversion_key \<Rightarrow> int list" where
  "build_time_string td ts key =
     (case key of (first_dep_day_offset, tz_offset) \<Rightarrow>
        raise_times 0 (concat (map (\<lambda>(t, freq_offset).
          map (\<lambda>x. i16 (x - freq_offset - tz_offset - first_dep_day_offset * 1440))
            (trip_events (gt_event_times (td ! t)))) ts)))"

definition first_dep_time :: "trip_data \<Rightarrow> (nat \<times> int) list \<Rightarrow> int" where
  "first_dep_time td ts = i16 (ev_dep (hd (gt_event_times (td ! fst (hd ts)))) - snd (last ts))"

definition last_arr_time :: "trip_data \<Rightarrow> (nat \<times> int) list \<Rightarrow> int" where
  "last_arr_time td ts = i16 (ev_arr (last (gt_event_times (td ! fst (last ts)))) - snd (last ts))"

text \<open>The body of the loop over the days: the key and the UTC day of the first departure, if the service runs
  on the day and the day is to be loaded.\<close>

definition utc_day ::
    "int list \<Rightarrow> int interval \<Rightarrow> int interval \<Rightarrow> bitfield \<Rightarrow> int \<Rightarrow> int \<Rightarrow> int \<Rightarrow> (conversion_key \<times> nat) option" where
  "utc_day noon_offsets tt_interval selection traffic_days first_dep last_arr day =
     (let first_day_offset = cdiv first_dep 1440;
          last_day_offset = cdiv last_arr 1440;
          service_days = mk_iv (day + first_day_offset) (day + last_day_offset + 1);
          gtfs_local_day_idx = nat (day - ifrom tt_interval)
      in if \<not> iv_overlaps selection service_days \<or> \<not> bit traffic_days gtfs_local_day_idx then None
         else let tz_offset = noon_offsets ! gtfs_local_day_idx;
                  first_dep_day_offset = i16 (first_dep - tz_offset) div 1440;
                  utc_traffic_day = day - ifrom tt_interval + first_dep_day_offset
              in if utc_traffic_day < 0 \<or> kMaxDays \<le> utc_traffic_day then None
                 else Some ((first_dep_day_offset, tz_offset), nat utc_traffic_day))"

text \<open>The hash map of traffic days by key (also that of \<open>expand_assistance\<close>); \<open>prev_it\<close> only saves the look-up
  of a repeated key.\<close>

fun add_utc_day :: "'k \<Rightarrow> nat \<Rightarrow> ('k \<times> bitfield) list \<Rightarrow> ('k \<times> bitfield) list" where
  "add_utc_day key d [] = [(key, bf_set d True 0)]"
| "add_utc_day key d ((k, b) # m) = (if k = key then (k, bf_set d True b) # m else (k, b) # add_utc_day key d m)"

definition add_day ::
    "(int \<Rightarrow> ('k \<times> nat) option) \<Rightarrow> int \<Rightarrow> ('k \<times> bitfield) list \<Rightarrow> ('k \<times> bitfield) list" where
  "add_day f day m = (case f day of None \<Rightarrow> m | Some (key, d) \<Rightarrow> add_utc_day key d m)"

text \<open>\<open>ord\<close> is the order in which the hash map is iterated over.\<close>

definition expand_local_to_utc ::
    "((conversion_key \<times> bitfield) list \<Rightarrow> (conversion_key \<times> bitfield) list) \<Rightarrow> trip_data \<Rightarrow> int list
     \<Rightarrow> int interval \<Rightarrow> frequency_expanded_trip \<Rightarrow> int interval \<Rightarrow> utc_trip list" where
  "expand_local_to_utc ord td noon_offsets tt_interval fet selection =
     (let ts = valid_trips td fet
      in if ts = [] then []
         else let first_dep = first_dep_time td ts;
                  last_arr = last_arr_time td ts;
                  f = utc_day noon_offsets tt_interval selection (fe_traffic_days fet) first_dep last_arr;
                  utc_time_traffic_days = fold (add_day f) [ifrom tt_interval..ito tt_interval - 1] []
              in map (\<lambda>(key, traffic_days).
                   \<lparr>ut_first_dep_offset = fst key, ut_tz_offset = snd key, ut_trips = map fst ts,
                    utc_times = build_time_string td ts key, utc_traffic_days = traffic_days, ut_stop_seq = []\<rparr>)
                   (ord utc_time_traffic_days))"

section \<open>Stops and assistance\<close>

text \<open>The stop sequence of trips served one after the other: where two meet, the stop is left with the
  permissions of the first and boarded with those of the second.\<close>

definition join_stops :: "nat list \<Rightarrow> nat list \<Rightarrow> nat list" where
  "join_stops acc seq =
     (let prev_last = stop_of_value (last acc); curr_first = stop_of_value (hd seq)
      in butlast acc @ [stop_value (mk_stop (stop_loc prev_last) (stop_in curr_first) (stop_out prev_last)
           (stop_in_wheelchair curr_first) (stop_out_wheelchair prev_last))] @ tl seq)"

definition get_stop_seq :: "trip_data \<Rightarrow> utc_trip \<Rightarrow> nat list option" where
  "get_stop_seq td u =
     (if ut_stop_seq u \<noteq> [] then Some (ut_stop_seq u)
      else case ut_trips u of
        [] \<Rightarrow> Some []
      | [t] \<Rightarrow> if 1 < length (gt_stop_seq (td ! t)) then Some (gt_stop_seq (td ! t)) else None
      | t # ts \<Rightarrow> Some (fold (\<lambda>t acc. join_stops acc (gt_stop_seq (td ! t))) ts (gt_stop_seq (td ! t))))"

text \<open>\<open>available l m\<close>: assistance is available at location \<open>l\<close> at local minute \<open>m\<close>. The loop goes over
  pairs of neighbouring stops, the second of which it has adjusted before it is the first.\<close>

fun assist_stops :: "(nat \<Rightarrow> int \<Rightarrow> bool) \<Rightarrow> int \<Rightarrow> int \<Rightarrow> nat list \<Rightarrow> int list \<Rightarrow> nat list" where
  "assist_stops available day off (a # b # seq) (dep # arr # ts) =
     (let (dep_day_offset, dep) = split_time_mod (i16 (dep + off));
          (arr_day_offset, arr) = split_time_mod (i16 (arr + off));
          from_stop = stop_of_value a;
          to_stop = stop_of_value b;
          from_stop = from_stop\<lparr>stop_in_wheelchair := stop_in_wheelchair from_stop \<and>
            available (stop_loc from_stop) ((day + dep_day_offset) * 1440 + dep)\<rparr>;
          to_stop = to_stop\<lparr>stop_out_wheelchair := stop_out_wheelchair to_stop \<and>
            available (stop_loc to_stop) ((day + arr_day_offset) * 1440 + arr)\<rparr>
      in stop_value from_stop # assist_stops available day off (stop_value to_stop # seq) ts)"
| "assist_stops available day off seq ts = seq"

text \<open>The days are grouped by the stop sequence they result in; \<open>ord\<close> is again the order of a hash
  map. A trip of a single stop throws.\<close>

definition expand_assistance ::
    "((nat list \<times> bitfield) list \<Rightarrow> (nat list \<times> bitfield) list) \<Rightarrow> int interval \<Rightarrow> trip_data
     \<Rightarrow> (nat \<Rightarrow> int \<Rightarrow> bool) \<Rightarrow> utc_trip \<Rightarrow> utc_trip list option" where
  "expand_assistance ord tt_interval td available u =
     (case get_stop_seq td u of
        None \<Rightarrow> if utc_traffic_days u = 0 then Some [] else None
      | Some stop_seq \<Rightarrow>
          (let off = i16 (i16 (ut_first_dep_offset u * 1440) + ut_tz_offset u);
               seqs = fold (\<lambda>d m. add_utc_day
                   (assist_stops available (ifrom tt_interval + int d) off stop_seq (utc_times u)) d m)
                 (filter (bit (utc_traffic_days u)) [0..<512]) []
           in Some (map (\<lambda>(stop_seq, traffic_days). u\<lparr>utc_traffic_days := traffic_days, ut_stop_seq := stop_seq\<rparr>)
                (ord seqs))))"

text \<open>\<open>route_clasz\<close> is the class of a GTFS route; the assistance times are optional.\<close>

definition is_assisted :: "clasz \<Rightarrow> bool" where
  "is_assisted c \<longleftrightarrow> c = kHighSpeed \<or> c = kLongDistance \<or> c = kNight"

definition expand_trip ::
    "((conversion_key \<times> bitfield) list \<Rightarrow> (conversion_key \<times> bitfield) list)
     \<Rightarrow> ((nat list \<times> bitfield) list \<Rightarrow> (nat list \<times> bitfield) list) \<Rightarrow> (nat \<Rightarrow> clasz) \<Rightarrow> trip_data \<Rightarrow> int list
     \<Rightarrow> int interval \<Rightarrow> nat list \<Rightarrow> bitfield \<Rightarrow> int interval \<Rightarrow> (nat \<Rightarrow> int \<Rightarrow> bool) option \<Rightarrow> utc_trip list option" where
  "expand_trip ord sord route_clasz td noon_offsets tt_interval trips traffic_days selection assist =
     fold_opt (\<lambda>u us.
         case assist of
           Some available \<Rightarrow>
             (if is_assisted (route_clasz (gt_route (td ! hd (ut_trips u))))
              then map_option (\<lambda>vs. us @ vs) (expand_assistance sord tt_interval td available u)
              else Some (us @ [u]))
         | None \<Rightarrow> Some (us @ [u]))
       (concat (map (\<lambda>fet. expand_local_to_utc ord td noon_offsets tt_interval fet selection)
          (expand_frequencies td trips traffic_days))) []"

section \<open>Frequencies of several trips\<close>

text \<open>Property C39. Joint frequencies never match. The test for equal headways compares the first trip with itself as well
  and fails when the headways are equal, so it fails for any two or more trips with frequencies,
  and the trips of a block (one vehicle, passengers stay seated) are expanded one by one as if they were
  unrelated.\<close>

theorem headways_never_match:
  assumes "1 < length trips" "\<forall>t \<in> set trips. has_frequency td t \<and> gt_frequency (td ! t) \<noteq> Some []"
  shows "\<not> headways_match td trips \<and>
    expand_frequencies td trips b = concat (map (\<lambda>t. expand_together td [t] b) trips)"
proof -
  have h: "hd trips \<in> set trips" using assms(1) by (cases trips) auto
  obtain f fs where f: "gt_frequency (td ! hd trips) = Some (f # fs)"
    using bspec [OF assms(2) h] by (auto simp: has_frequency_def) (metis list.exhaust)
  have "\<not> headways_match td trips"
    using assms(1) h by (auto simp: headways_match_def Let_def f list_all_iff intro!: bexI [of _ "hd trips"])
  moreover have "expand_frequencies td [t] b = expand_together td [t] b" if "t \<in> set trips" for t
    using assms(2) that by (subst expand_frequencies.simps) simp
  moreover have "list_ex (has_frequency td) trips" using assms(2) h by (auto simp: list_ex_iff)
  ultimately show ?thesis using assms(1)
    by (subst expand_frequencies.simps) (auto cong: map_cong)
qed

section \<open>Days\<close>

lemma add_utc_day_keys: "fst ` set (add_utc_day key d m) = insert key (fst ` set m)"
proof (induction m)
  case (Cons x m)
  obtain k b where "x = (k, b)" by (cases x)
  with Cons show ?case by (cases "k = key") (simp_all add: insert_commute)
qed simp

lemma add_utc_day_distinct: "distinct (map fst m) \<Longrightarrow> distinct (map fst (add_utc_day key d m))"
proof (induction m)
  case (Cons x m)
  then show ?case using add_utc_day_keys [of key d m] by (cases x) auto
qed simp

lemma add_utc_day_map_of:
  "map_of (add_utc_day key d m) k =
     (if k = key then Some (bf_set d True (case map_of m key of Some b \<Rightarrow> b | None \<Rightarrow> 0)) else map_of m k)"
  by (induction m) auto

text \<open>After all days: a key has the bits of the days it was computed for.\<close>

lemma add_days:
  assumes "\<forall>day k d. f day = Some (k, d) \<longrightarrow> d < 512" "m = fold (add_day f) dys []"
  shows "distinct (map fst m)" "map_of m k = Some b \<Longrightarrow> bit b d \<longleftrightarrow> (\<exists>day \<in> set dys. f day = Some (k, d))"
    "map_of m k = None \<longleftrightarrow> (\<forall>day \<in> set dys. \<forall>d. f day \<noteq> Some (k, d))"
proof -
  have "distinct (map fst m) \<and>
    (\<forall>k. (\<forall>b d. map_of m k = Some b \<longrightarrow> (bit b d \<longleftrightarrow> (\<exists>day \<in> set dys. f day = Some (k, d)))) \<and>
      (map_of m k = None \<longleftrightarrow> (\<forall>day \<in> set dys. \<forall>d. f day \<noteq> Some (k, d))))"
    using assms(2)
  proof (induction dys arbitrary: m rule: rev_induct)
    case (snoc x dys)
    define m0 where "m0 = fold (add_day f) dys []"
    have m: "m = add_day f x m0" using snoc.prems by (simp add: m0_def)
    note ih = snoc.IH [OF m0_def]
    show ?case
    proof (cases "f x")
      case None
      then show ?thesis using ih by (simp add: m add_day_def)
    next
      case (Some y)
      obtain key d where y: "y = (key, d)" by (cases y)
      then have d: "d < 512" using assms(1) Some by blast
      have me: "m = add_utc_day key d m0" using Some y by (simp add: m add_day_def)
      have "distinct (map fst m)" unfolding me by (rule add_utc_day_distinct) (use ih in blast)
      moreover have "(\<forall>b e. map_of m k = Some b \<longrightarrow> (bit b e \<longleftrightarrow> (\<exists>day \<in> set (dys @ [x]). f day = Some (k, e)))) \<and>
          (map_of m k = None \<longleftrightarrow> (\<forall>day \<in> set (dys @ [x]). \<forall>e. f day \<noteq> Some (k, e)))" for k
      proof (cases "k = key")
        case True
        have z: "map_of m0 key = None \<Longrightarrow> \<forall>day \<in> set dys. \<forall>e. f day \<noteq> Some (key, e)" using ih by blast
        show ?thesis
        proof (cases "map_of m0 key")
          case None
          then show ?thesis using z Some y True d by (auto simp: me add_utc_day_map_of bit_bf_set)
        next
          case (Some b0)
          then have "bit b0 e \<longleftrightarrow> (\<exists>day \<in> set dys. f day = Some (key, e))" for e using ih by blast
          with Some \<open>f x = Some y\<close> y True d show ?thesis by (auto simp: me add_utc_day_map_of bit_bf_set)
        qed
      next
        case False
        then have "f x \<noteq> Some (k, e)" for e using Some y by simp
        then show ?thesis using ih False by (simp add: me add_utc_day_map_of)
      qed
      ultimately show ?thesis by blast
    qed
  qed simp
  then show "distinct (map fst m)" "map_of m k = Some b \<Longrightarrow> bit b d \<longleftrightarrow> (\<exists>day \<in> set dys. f day = Some (k, d))"
    "map_of m k = None \<longleftrightarrow> (\<forall>day \<in> set dys. \<forall>d. f day \<noteq> Some (k, d))" by blast+
qed

lemma utc_day_Some:
  "utc_day noon tti sel b first_dep last_arr day = Some (k, d) \<longleftrightarrow>
     iv_overlaps sel (mk_iv (day + cdiv first_dep 1440) (day + cdiv last_arr 1440 + 1)) \<and>
     bit b (nat (day - ifrom tti)) \<and>
     k = (i16 (first_dep - noon ! nat (day - ifrom tti)) div 1440, noon ! nat (day - ifrom tti)) \<and>
     0 \<le> day - ifrom tti + fst k \<and> day - ifrom tti + fst k < 512 \<and> d = nat (day - ifrom tti + fst k)"
  by (auto simp: utc_day_def Let_def kMaxDays_def)

section \<open>Times\<close>

lemma raise_times_sorted: "sorted (pred # xs) \<Longrightarrow> raise_times pred xs = xs"
  by (induction xs arbitrary: pred) (auto simp: max_def)

lemma raise_times_result: "sorted (pred # raise_times pred xs) \<and> length (raise_times pred xs) = length xs"
  by (induction xs arbitrary: pred) (auto simp: max_def order_trans)

text \<open>The local times of the trips of a transport, one after the other.\<close>

definition local_times :: "trip_data \<Rightarrow> (nat \<times> int) list \<Rightarrow> int list" where
  "local_times td ts = concat (map (\<lambda>(t, off). map (\<lambda>x. x - off) (trip_events (gt_event_times (td ! t)))) ts)"

lemma build_time_string_local:
  "build_time_string td ts (fdo, tz) = raise_times 0 (map (\<lambda>x. i16 (x - tz - fdo * 1440)) (local_times td ts))"
  by (simp add: build_time_string_def local_times_def map_concat case_prod_unfold comp_def)

text \<open>Times that do not decrease, none of them above 20 days, and offsets of at most 16 hours keep within 16
  bits.\<close>

definition times_in_range :: "int list \<Rightarrow> bool" where
  "times_in_range ts \<longleftrightarrow> ts \<noteq> [] \<and> sorted ts \<and> 0 \<le> hd ts \<and> last ts \<le> 20 * 1440"

lemma sorted_shift: "sorted xs \<Longrightarrow> sorted (map (\<lambda>x. x - a - (b :: int)) xs)"
  by (induction xs) auto

lemma utc_times_exact:
  assumes "times_in_range (local_times td ts)" "\<bar>tz\<bar> \<le> 960" "fdo = i16 (hd (local_times td ts) - tz) div 1440"
  shows "build_time_string td ts (fdo, tz) = map (\<lambda>x. x - tz - fdo * 1440) (local_times td ts)"
    "\<forall>x \<in> set (local_times td ts). 0 \<le> x - tz - fdo * 1440"
proof -
  let ?L = "local_times td ts"
  have L: "?L \<noteq> []" "sorted ?L" "0 \<le> hd ?L" "last ?L \<le> 28800" using assms(1) by (simp_all add: times_in_range_def)
  have b: "hd ?L \<le> x \<and> x \<le> last ?L" if "x \<in> set ?L" for x
  proof -
    obtain i where i: "i < length ?L" "x = ?L ! i" using \<open>x \<in> set ?L\<close> by (auto simp: in_set_conv_nth)
    have "?L ! 0 \<le> ?L ! i" by (rule sorted_nth_mono [OF L(2)]) (use i in auto)
    moreover have "?L ! i \<le> ?L ! (length ?L - 1)" by (rule sorted_nth_mono [OF L(2)]) (use i in auto)
    ultimately show ?thesis using L(1) i by (simp add: hd_conv_nth last_conv_nth)
  qed
  have hdL: "hd ?L \<le> 28800" using b [of "hd ?L"] L by auto
  have f: "fdo = (hd ?L - tz) div 1440" using assms(2,3) L(3) hdL by (simp add: wrap_s16_id)
  have f1: "fdo * 1440 \<le> hd ?L - tz" "hd ?L - tz < fdo * 1440 + 1440" 
    using div_mult_mod_eq [of "hd ?L - tz" 1440] pos_mod_sign [of 1440 "hd ?L - tz"]
      pos_mod_bound [of 1440 "hd ?L - tz"] unfolding f by linarith+
  have r: "0 \<le> x - tz - fdo * 1440 \<and> x - tz - fdo * 1440 < 32768" if "x \<in> set ?L" for x
    using b [OF that] f1 L(3,4) by linarith
  then show "\<forall>x \<in> set ?L. 0 \<le> x - tz - fdo * 1440" by blast
  have "map (\<lambda>x. i16 (x - tz - fdo * 1440)) ?L = map (\<lambda>x. x - tz - fdo * 1440) ?L"
  proof (intro map_cong refl)
    fix x assume "x \<in> set ?L"
    from r [OF this] show "i16 (x - tz - fdo * 1440) = x - tz - fdo * 1440" by (intro wrap_s16_id) linarith+
  qed
  moreover have "sorted (0 # map (\<lambda>x. x - tz - fdo * 1440) ?L)"
    using r sorted_shift [OF L(2), of tz "fdo * 1440"] by simp
  ultimately show "build_time_string td ts (fdo, tz) = map (\<lambda>x. x - tz - fdo * 1440) ?L"
    unfolding build_time_string_local by (simp only: raise_times_sorted)
qed

section \<open>Exactness\<close>

text \<open>The absolute times (minutes in UTC) of the runs of transports: one run per transport and traffic day.\<close>

definition runs_of :: "int interval \<Rightarrow> utc_trip list \<Rightarrow> int list set" where
  "runs_of tti us = {map (\<lambda>x. (ifrom tti + int d) * 1440 + x) (utc_times u) | u d. u \<in> set us \<and> bit (utc_traffic_days u) d}"

text \<open>The day is one of the timetable, the service runs on it, it touches the days to be loaded, and its first
  departure is on one of the 512 days in UTC.\<close>

definition loaded_on ::
    "trip_data \<Rightarrow> (nat \<times> int) list \<Rightarrow> int list \<Rightarrow> int interval \<Rightarrow> int interval \<Rightarrow> bitfield \<Rightarrow> int \<Rightarrow> bool" where
  "loaded_on td ts noon tti selection b day \<longleftrightarrow>
     ifrom tti \<le> day \<and> day < ito tti \<and> bit b (nat (day - ifrom tti)) \<and>
     iv_overlaps selection (mk_iv (day + first_dep_time td ts div 1440) (day + last_arr_time td ts div 1440 + 1)) \<and>
     (let d = day - ifrom tti + (first_dep_time td ts - noon ! nat (day - ifrom tti)) div 1440
      in 0 \<le> d \<and> d < 512)"

definition local_run :: "trip_data \<Rightarrow> (nat \<times> int) list \<Rightarrow> int list \<Rightarrow> int interval \<Rightarrow> int \<Rightarrow> int list" where
  "local_run td ts noon tti day = map (\<lambda>x. day * 1440 + x - noon ! nat (day - ifrom tti)) (local_times td ts)"

lemma sorted_last_ge: "sorted xs \<Longrightarrow> x \<in> set xs \<Longrightarrow> hd xs \<le> x \<and> x \<le> (last xs :: int)"
proof
  assume a: "sorted xs" "x \<in> set xs"
  then show "hd xs \<le> x" by (cases xs) auto
  from a obtain i where i: "i < length xs" "x = xs ! i" by (auto simp: in_set_conv_nth)
  then have "xs ! i \<le> xs ! (length xs - 1)" by (intro sorted_nth_mono [OF a(1)]) auto
  with i show "x \<le> last xs" by (cases "xs = []") (simp_all add: last_conv_nth)
qed

lemma trip_events_ends:
  assumes "1 < length es"
  shows "trip_events es \<noteq> []" "hd (trip_events es) = ev_dep (hd es)" "last (trip_events es) = ev_arr (last es)"
  using assms by (induction es rule: trip_events.induct) (auto split: if_splits simp: Suc_lessI)

lemma first_last_times:
  assumes "ts = valid_trips td fet" "ts \<noteq> []" "snd (hd ts) = snd (last ts)" "times_in_range (local_times td ts)"
  shows "first_dep_time td ts = hd (local_times td ts)" "last_arr_time td ts = last (local_times td ts)"
proof -
  let ?f = "\<lambda>(t, off). map (\<lambda>x. x - off) (trip_events (gt_event_times (td ! t)))"
  have v: "1 < length (gt_event_times (td ! fst x))" if "x \<in> set ts" for x
    using assms(1) that by (auto simp: valid_trips_def has_valid_times_def)
  have ne: "?f x \<noteq> []" if "x \<in> set ts" for x
    using trip_events_ends(1) [OF v [OF that]] by (cases x) simp
  obtain x xs where x: "ts = x # xs" using assms(2) by (cases ts) auto
  have "hd (local_times td ts) = hd (?f x)"
    using ne [of x] by (simp add: local_times_def x)
  then have h: "hd (local_times td ts) = ev_dep (hd (gt_event_times (td ! fst (hd ts)))) - snd (hd ts)"
    using trip_events_ends [OF v, of x] by (cases x) (simp add: x hd_map)
  obtain y ys where y: "ts = ys @ [y]" using assms(2) by (cases ts rule: rev_cases) auto
  have "last (local_times td ts) = last (?f y)"
    using ne [of y] by (simp add: local_times_def y)
  then have l: "last (local_times td ts) = ev_arr (last (gt_event_times (td ! fst (last ts)))) - snd (last ts)"
    using trip_events_ends [OF v, of y] by (cases y) (simp add: y last_map)
  have r: "0 \<le> hd (local_times td ts)" "hd (local_times td ts) \<le> last (local_times td ts)"
    "last (local_times td ts) \<le> 28800"
    using assms(4) sorted_last_ge [of "local_times td ts" "hd (local_times td ts)"]
    by (auto simp: times_in_range_def)
  show "first_dep_time td ts = hd (local_times td ts)" "last_arr_time td ts = last (local_times td ts)"
    using r h l assms(3) unfolding first_dep_time_def last_arr_time_def
    by (simp_all add: wrap_s16_id)
qed

lemma utc_day_loaded:
  assumes ts: "ts = valid_trips td fet" "ts \<noteq> []" "snd (hd ts) = snd (last ts)" "times_in_range (local_times td ts)"
    and noon: "\<forall>i < 512. \<bar>noon ! i\<bar> \<le> 960" and day: "ifrom tti \<le> day" "day < ito tti" "ito tti - ifrom tti \<le> 512"
    and f: "f = utc_day noon tti sel b (first_dep_time td ts) (last_arr_time td ts)"
  shows "loaded_on td ts noon tti sel b day \<longleftrightarrow> (\<exists>k d. f day = Some (k, d))"
    "f day = Some (k, d) \<Longrightarrow>
       map (\<lambda>x. (ifrom tti + int d) * 1440 + x) (build_time_string td ts k) = local_run td ts noon tti day"
proof -
  let ?L = "local_times td ts" and ?tz = "noon ! nat (day - ifrom tti)"
  note fl = first_last_times [OF ts]
  have L: "0 \<le> hd ?L" "hd ?L \<le> last ?L" "hd ?L \<le> 28800"
    using ts(4) sorted_last_ge [of ?L "hd ?L"] by (auto simp: times_in_range_def)
  have tz: "\<bar>?tz\<bar> \<le> 960" using noon day by (auto simp: nat_less_iff)
  have w: "i16 (hd ?L - ?tz) = hd ?L - ?tz" using L tz by (intro wrap_s16_id) linarith+
  have c: "cdiv (hd ?L) 1440 = hd ?L div 1440" "cdiv (last ?L) 1440 = last ?L div 1440" using L by simp_all
  note fS = utc_day_Some [of noon tti sel b "first_dep_time td ts" "last_arr_time td ts" day, folded f,
      unfolded fl w c]
  show "loaded_on td ts noon tti sel b day \<longleftrightarrow> (\<exists>k d. f day = Some (k, d))"
    using day by (auto simp: fS loaded_on_def Let_def fl)
  assume "f day = Some (k, d)"
  then have k: "k = ((hd ?L - ?tz) div 1440, ?tz)" and d: "int d = day - ifrom tti + (hd ?L - ?tz) div 1440"
    by (auto simp: fS)
  have "build_time_string td ts k = map (\<lambda>x. x - ?tz - (hd ?L - ?tz) div 1440 * 1440) ?L"
    unfolding k by (rule utc_times_exact(1) [OF ts(4) tz]) (simp add: w)
  then show "map (\<lambda>x. (ifrom tti + int d) * 1440 + x) (build_time_string td ts k) = local_run td ts noon tti day"
    unfolding local_run_def d by (simp add: distrib_right left_diff_distrib)
qed

lemma map_of_set: "distinct (map fst m) \<Longrightarrow> (k, b) \<in> set m \<longleftrightarrow> map_of m k = Some b"
  by auto

lemma runs_of_map:
  "runs_of tti (map g xs) =
     {map (\<lambda>x. (ifrom tti + int d) * 1440 + x) (utc_times (g x)) | x d. x \<in> set xs \<and> bit (utc_traffic_days (g x)) d}"
  by (auto simp: runs_of_def)

lemma local_to_utc_runs:
  assumes "ts = valid_trips td fet" "ts \<noteq> []" "snd (hd ts) = snd (last ts)" "times_in_range (local_times td ts)"
    and "\<forall>i < 512. \<bar>noon ! i\<bar> \<le> 960" "ito tti - ifrom tti \<le> 512" "\<And>m. set (ord m) = set m"
  shows "runs_of tti (expand_local_to_utc ord td noon tti fet sel) =
    {local_run td ts noon tti day | day. loaded_on td ts noon tti sel (fe_traffic_days fet) day}"
proof -
  define f where "f = utc_day noon tti sel (fe_traffic_days fet) (first_dep_time td ts) (last_arr_time td ts)"
  define m where "m = fold (add_day f) [ifrom tti..ito tti - 1] []"
  let ?mk = "\<lambda>(key, traffic_days).
    \<lparr>ut_first_dep_offset = fst key, ut_tz_offset = snd key, ut_trips = map fst ts,
     utc_times = build_time_string td ts key, utc_traffic_days = traffic_days, ut_stop_seq = []\<rparr>"
  have out: "expand_local_to_utc ord td noon tti fet sel = map ?mk (ord m)"
    using assms(2) by (simp add: expand_local_to_utc_def Let_def assms(1) [symmetric] f_def m_def)
  have "\<forall>day k d. f day = Some (k, d) \<longrightarrow> d < 512" by (auto simp: f_def utc_day_Some)
  note days = add_days [OF this m_def]
  have bits: "(\<exists>b. (k, b) \<in> set m \<and> bit b d) \<longleftrightarrow> (\<exists>day. ifrom tti \<le> day \<and> day < ito tti \<and> f day = Some (k, d))" for k d
  proof
    assume "\<exists>b. (k, b) \<in> set m \<and> bit b d"
    then obtain b where b: "map_of m k = Some b" "bit b d" using map_of_set [OF days(1)] by blast
    with days(2) [OF b(1)] show "\<exists>day. ifrom tti \<le> day \<and> day < ito tti \<and> f day = Some (k, d)"
      by (auto simp: set_upto)
  next
    assume "\<exists>day. ifrom tti \<le> day \<and> day < ito tti \<and> f day = Some (k, d)"
    then have ex: "\<exists>day \<in> set [ifrom tti..ito tti - 1]. f day = Some (k, d)" by auto
    then have "map_of m k \<noteq> None" using days(3) by blast
    then obtain b where "map_of m k = Some b" by blast
    with days(2) ex map_of_set [OF days(1)] show "\<exists>b. (k, b) \<in> set m \<and> bit b d" by blast
  qed
  have "runs_of tti (expand_local_to_utc ord td noon tti fet sel) =
      {map (\<lambda>x. (ifrom tti + int d) * 1440 + x) (build_time_string td ts k) | k d. \<exists>b. (k, b) \<in> set m \<and> bit b d}"
    
    unfolding out runs_of_map by (auto simp: assms(7) case_prod_unfold)
  also have "\<dots> = {map (\<lambda>x. (ifrom tti + int d) * 1440 + x) (build_time_string td ts k) | k d day.
      ifrom tti \<le> day \<and> day < ito tti \<and> f day = Some (k, d)}"
    unfolding bits by blast
  also have "\<dots> = {local_run td ts noon tti day | day. loaded_on td ts noon tti sel (fe_traffic_days fet) day}"
  proof -
    note l = utc_day_loaded [OF assms(1-5) _ _ assms(6) f_def]
    have ld: "loaded_on td ts noon tti sel (fe_traffic_days fet) day \<longleftrightarrow>
        ifrom tti \<le> day \<and> day < ito tti \<and> (\<exists>k d. f day = Some (k, d))" for day
      using l(1) [of day] by (auto simp: loaded_on_def)
    show ?thesis
    proof (intro set_eqI iffI)
      fix r assume "r \<in> {map (\<lambda>x. (ifrom tti + int d) * 1440 + x) (build_time_string td ts k) | k d day.
        ifrom tti \<le> day \<and> day < ito tti \<and> f day = Some (k, d)}"
      then obtain k d day where "r = map (\<lambda>x. (ifrom tti + int d) * 1440 + x) (build_time_string td ts k)"
        and day: "ifrom tti \<le> day" "day < ito tti" "f day = Some (k, d)" by blast
      then have "r = local_run td ts noon tti day" using l(2) by simp
      then show "r \<in> {local_run td ts noon tti day | day. loaded_on td ts noon tti sel (fe_traffic_days fet) day}"
        using ld day by blast
    next
      fix r assume "r \<in> {local_run td ts noon tti day | day. loaded_on td ts noon tti sel (fe_traffic_days fet) day}"
      then obtain k d day where "r = local_run td ts noon tti day"
        and day: "ifrom tti \<le> day" "day < ito tti" "f day = Some (k, d)" using ld by blast
      then have "r = map (\<lambda>x. (ifrom tti + int d) * 1440 + x) (build_time_string td ts k)" using l(2) by simp
      then show "r \<in> {map (\<lambda>x. (ifrom tti + int d) * 1440 + x) (build_time_string td ts k) | k d day.
          ifrom tti \<le> day \<and> day < ito tti \<and> f day = Some (k, d)}" using day by blast
    qed
  qed
  finally show ?thesis .
qed

text \<open>Property C16. From local time to UTC. Take trips with usable times that do not decrease from one to the next, all shifted by
  frequencies alike, and offsets from UTC of at most 16 hours. Then the runs of the transports produced, in
  absolute time, are exactly those of the trips: one on each day of service to be loaded, with every
  departure and arrival at its local time minus the offset from UTC of that day. No run is lost, none is
  added and no time is changed by the split of the days or the 16 bit arithmetic.\<close>

theorem local_to_utc_exact:
  assumes "ts = valid_trips td fet" "ts \<noteq> []" "snd (hd ts) = snd (last ts)" "times_in_range (local_times td ts)"
    and "\<forall>i < 512. \<bar>noon ! i\<bar> \<le> 960" "ito tti - ifrom tti \<le> 512" "\<And>m. set (ord m) = set m"
  shows "runs_of tti (expand_local_to_utc ord td noon tti fet sel) =
    {local_run td ts noon tti day | day. loaded_on td ts noon tti sel (fe_traffic_days fet) day}"
  using assms by (rule local_to_utc_runs)

section \<open>Examples\<close>

definition example_times_at :: "int \<Rightarrow> stop_events list" where
  "example_times_at t = [\<lparr>ev_arr = t, ev_dep = t\<rparr>, \<lparr>ev_arr = t + 10, ev_dep = t + 12\<rparr>, \<lparr>ev_arr = t + 30, ev_dep = t + 30\<rparr>]"

definition example_feed :: trip_data where
  "example_feed = map (\<lambda>fs. \<lparr>gt_route = 0, gt_service = 7, gt_stop_seq = [0, 1, 2], gt_event_times = example_times_at 30,
     gt_frequency = fs, gt_requires_interpolation = False, gt_flags = [], gt_clasz = None\<rparr>)
     [None, Some [\<lparr>fr_start = 60, fr_end = 120, fr_headway = 20, fr_scheduled = True\<rparr>],
      Some [\<lparr>fr_start = 90, fr_end = 150, fr_headway = 20, fr_scheduled = True\<rparr>]]"

lemma example_feed_nth:
  "example_feed ! 0 = \<lparr>gt_route = 0, gt_service = 7, gt_stop_seq = [0, 1, 2], gt_event_times = example_times_at 30,
     gt_frequency = None, gt_requires_interpolation = False, gt_flags = [], gt_clasz = None\<rparr>"
  "gt_frequency (example_feed ! Suc 0) = Some [\<lparr>fr_start = 60, fr_end = 120, fr_headway = 20, fr_scheduled = True\<rparr>]"
  "gt_frequency (example_feed ! 2) = Some [\<lparr>fr_start = 90, fr_end = 150, fr_headway = 20, fr_scheduled = True\<rparr>]"
  "gt_event_times (example_feed ! Suc 0) = example_times_at 30" "gt_event_times (example_feed ! 2) = example_times_at 30"
  by (simp_all add: example_feed_def)

theorem headways_never_match_witness:
  "\<not> headways_match example_feed [1, 2] \<and>
   expand_frequencies example_feed [1, 2] 7 = concat (map (\<lambda>t. expand_together example_feed [t] 7) [1, 2])"
  by (rule headways_never_match) (simp_all add: has_frequency_def example_feed_nth example_times_at_def)

text \<open>A departure at half past midnight, one hour ahead of UTC: the transport starts on the day before.\<close>

theorem local_to_utc_exact_witness:
  "map (\<lambda>x. 100 * 1440 + x) [-30, -20, -18, 0] \<in>
     runs_of (mk_iv 99 103) (expand_local_to_utc (\<lambda>m. m) example_feed (replicate 512 60) (mk_iv 99 103)
       (expand_once [0] 7) (mk_iv 99 103))"
proof -
  let ?ts = "valid_trips example_feed (expand_once [0] 7)" and ?noon = "replicate 512 60 :: int list"
  have ts: "?ts = [(0, 0)]"
    by (simp add: valid_trips_def expand_once_def has_valid_times_def example_feed_nth example_times_at_def)
  have L: "local_times example_feed ?ts = [30, 40, 42, 60]"
    by (simp add: ts local_times_def example_feed_nth example_times_at_def)
  have t: "first_dep_time example_feed ?ts = 30" "last_arr_time example_feed ?ts = 60"
    by (simp_all add: ts first_dep_time_def last_arr_time_def example_feed_nth example_times_at_def wrap_s16_id)
  have n: "\<forall>i < 512. \<bar>?noon ! i\<bar> \<le> 960" by simp
  have "bit (7 :: bitfield) 1" by (simp add: bit_iff_odd)
  then have ld: "loaded_on example_feed ?ts ?noon (mk_iv 99 103) (mk_iv 99 103) (fe_traffic_days (expand_once [0] 7)) 100"
    unfolding loaded_on_def t by (simp add: expand_once_def iv_overlaps_def mk_iv_def)
  have "local_run example_feed ?ts ?noon (mk_iv 99 103) 100 = map (\<lambda>x. 100 * 1440 + x) [-30, -20, -18, 0]"
    unfolding local_run_def L by (simp add: mk_iv_def)
  moreover have "runs_of (mk_iv 99 103) (expand_local_to_utc (\<lambda>m. m) example_feed ?noon (mk_iv 99 103)
       (expand_once [0] 7) (mk_iv 99 103)) =
    {local_run example_feed ?ts ?noon (mk_iv 99 103) day | day.
       loaded_on example_feed ?ts ?noon (mk_iv 99 103) (mk_iv 99 103) (fe_traffic_days (expand_once [0] 7)) day}"
    by (rule local_to_utc_exact [OF refl _ _ _ n])
      (simp_all add: L times_in_range_def mk_iv_def, simp_all add: ts)
  ultimately show ?thesis using ld by auto
qed

end
