(* ===== verification/Route_Order.thy ===== *)
theory Route_Order
  imports Prelude "HOL-Library.Multiset"
begin

text \<open>
  How the loaders group services into routes: \<open>include/nigiri/loader/get_index.h\<close>, used by
  \<open>add_expanded_trip\<close> (\<open>src/loader/gtfs/load_timetable.cc\<close>) and its counterparts for HRD and NeTEx.
  Services with the same stop sequence share a route only if none overtakes another. The service
  type of the template is a type variable with its event times \<open>tm\<close> as a parameter: departure 0,
  arrival 1, departure 1, ..., in minutes after the midnight of the traffic day.
\<close>

section \<open>Finding the place of a service\<close>

text \<open>\<open>std::lower_bound\<close>: halving of the range \<open>[first, first + len)\<close>.\<close>

function lower_bound_loop :: "('a \<Rightarrow> bool) \<Rightarrow> 'a list \<Rightarrow> nat \<Rightarrow> nat \<Rightarrow> nat" where
  "lower_bound_loop p xs first len =
     (if len = 0 then first
      else let half = len div 2
           in if p (xs ! (first + half)) then lower_bound_loop p xs (first + half + 1) (len - half - 1)
              else lower_bound_loop p xs first half)"
  by pat_completeness auto

termination
  by (relation "measure (\<lambda>(_, _, _, len). len)") auto

declare lower_bound_loop.simps [simp del]

definition lower_bound :: "('a \<Rightarrow> bool) \<Rightarrow> 'a list \<Rightarrow> nat" where
  "lower_bound p xs = lower_bound_loop p xs 0 (length xs)"

definition time_of_day :: "int \<Rightarrow> int" where
  "time_of_day t = cmod t 1440"

text \<open>The tests of the loop for event \<open>i\<close>, with \<open>index\<close> the position of the new service.\<close>

definition tod_conflict :: "('s \<Rightarrow> int list) \<Rightarrow> 's list \<Rightarrow> nat \<Rightarrow> 's \<Rightarrow> nat \<Rightarrow> bool" where
  "tod_conflict tm R index s i \<longleftrightarrow>
     0 < index \<and> time_of_day (tm s ! i) < time_of_day (tm (R ! (index - 1)) ! i) \<or>
     index < length R \<and> time_of_day (tm (R ! index) ! i) < time_of_day (tm s ! i)"

definition row_conflict :: "('s \<Rightarrow> int list) \<Rightarrow> 's list \<Rightarrow> nat \<Rightarrow> 's \<Rightarrow> nat \<Rightarrow> bool" where
  "row_conflict tm R index s i \<longleftrightarrow>
     R \<noteq> [] \<and>
     (let full_before_prev = 0 < index \<and> tm s ! i < tm (R ! (index - 1)) ! i;
          full_after_next = index < length R \<and> tm (R ! index) ! i < tm s ! i;
          lo = min (tm s ! i) (tm (hd R) ! i);
          hi = max (tm s ! i) (tm (last R) ! i)
      in full_before_prev \<or> full_after_next \<or> 1440 \<le> i16 (hi - lo))"

definition service_index :: "('s \<Rightarrow> int list) \<Rightarrow> 's list \<Rightarrow> 's \<Rightarrow> nat" where
  "service_index tm R s =
     lower_bound (\<lambda>a. time_of_day (hd (tm a)) < time_of_day (hd (tm s))) R"

definition get_index :: "('s \<Rightarrow> int list) \<Rightarrow> 's list \<Rightarrow> 's \<Rightarrow> nat option" where
  "get_index tm R s =
     (let index = service_index tm R s
      in if list_ex (\<lambda>i. tod_conflict tm R index s i \<or> row_conflict tm R index s i) [0..<length (tm s)]
         then None else Some index)"

section \<open>Routes of a stop sequence\<close>

definition insert_at :: "nat \<Rightarrow> 'a \<Rightarrow> 'a list \<Rightarrow> 'a list" where
  "insert_at i x xs = take i xs @ x # drop i xs"

fun add_to_routes :: "('s \<Rightarrow> int list) \<Rightarrow> 's \<Rightarrow> 's list list \<Rightarrow> 's list list" where
  "add_to_routes tm s [] = [[s]]"
| "add_to_routes tm s (R # Rs) =
     (case get_index tm R s of
        Some i \<Rightarrow> insert_at i s R # Rs
      | None \<Rightarrow> R # add_to_routes tm s Rs)"

text \<open>The hash map from route keys (class, stop sequence, flags) to routes; \<open>key\<close> computes the key
  of a service.\<close>

definition add_service :: "('s \<Rightarrow> 'k) \<Rightarrow> ('s \<Rightarrow> int list) \<Rightarrow> 's \<Rightarrow> ('k \<rightharpoonup> 's list list) \<Rightarrow> ('k \<rightharpoonup> 's list list)" where
  "add_service key tm s m =
     m(key s \<mapsto> (case m (key s) of Some Rs \<Rightarrow> add_to_routes tm s Rs | None \<Rightarrow> [[s]]))"

section \<open>The order within a route\<close>

text \<open>Row \<open>x\<close> stays before row \<open>y\<close>: at every event, in time of day as well as in time since the
  midnight of the traffic day, and by less than a day.\<close>

definition row_before :: "int list \<Rightarrow> int list \<Rightarrow> bool" where
  "row_before x y \<longleftrightarrow> length x = length y \<and>
     (\<forall>i < length x. x ! i \<le> y ! i \<and> time_of_day (x ! i) \<le> time_of_day (y ! i) \<and> y ! i - x ! i < 1440)"

definition in_order :: "('s \<Rightarrow> int list) \<Rightarrow> 's list \<Rightarrow> bool" where
  "in_order tm R \<longleftrightarrow> sorted_wrt (\<lambda>a b. row_before (tm a) (tm b)) R"

text \<open>The times the loaders produce: at least one event, minutes of a non-negative 16 bit value.\<close>

definition times_ok :: "nat \<Rightarrow> int list \<Rightarrow> bool" where
  "times_ok n ts \<longleftrightarrow> 0 < n \<and> length ts = n \<and> (\<forall>t \<in> set ts. 0 \<le> t \<and> t < 32768)"

lemma times_okD:
  assumes "times_ok n ts"
  shows "length ts = n" "ts \<noteq> []" "hd ts = ts ! 0" "i < n \<Longrightarrow> 0 \<le> ts ! i \<and> ts ! i < 32768"
  using assms by (auto simp: times_ok_def hd_conv_nth dest: nth_mem)

lemma times_16bit: "times_ok n x \<Longrightarrow> times_ok n y \<Longrightarrow> i < n \<Longrightarrow> i16 (x ! i - y ! i) = x ! i - y ! i"
  using times_okD(4) [of n x i] times_okD(4) [of n y i] by (intro wrap_s16_id) auto

lemma lower_bound_loop_le: "lower_bound_loop p xs first len \<le> first + len"
proof (induction p xs first len rule: lower_bound_loop.induct)
  case (1 p xs first len)
  show ?case
  proof (cases "len = 0")
    case False
    then have h: "len div 2 < len" by simp
    show ?thesis
    proof (cases "p (xs ! (first + len div 2))")
      case True
      with False h 1(1) [OF False refl True] show ?thesis
        by (simp add: lower_bound_loop.simps [of p xs first len] Let_def)
    next
      case f: False
      with False h 1(2) [OF False refl f] show ?thesis
        by (simp add: lower_bound_loop.simps [of p xs first len] Let_def)
    qed
  qed (simp add: lower_bound_loop.simps)
qed

text \<open>On a list where \<open>p\<close> holds of a prefix exactly, the search ends at the end of the prefix.\<close>

lemma lower_bound_loop_eq:
  assumes "first \<le> k" "k \<le> first + len" "\<And>i. i < first + len \<Longrightarrow> p (xs ! i) \<longleftrightarrow> i < k"
  shows "lower_bound_loop p xs first len = k"
  using assms
proof (induction p xs first len rule: lower_bound_loop.induct)
  case (1 p xs first len)
  show ?case
  proof (cases "len = 0")
    case False
    then have h: "first + len div 2 < first + len" by simp
    note simp = lower_bound_loop.simps [of p xs first len] Let_def
    show ?thesis
    proof (cases "first + len div 2 < k")
      case True
      then have t: "p (xs ! (first + len div 2))" using "1.prems"(3) [OF h] by simp
      show ?thesis using "1.IH"(1) [OF False refl t] True t h "1.prems" False by (simp add: simp)
    next
      case f: False
      then have t: "\<not> p (xs ! (first + len div 2))" using "1.prems"(3) [OF h] by simp
      show ?thesis using "1.IH"(2) [OF False refl t] f t h "1.prems" False by (simp add: simp)
    qed
  qed (use "1.prems" in \<open>simp add: lower_bound_loop.simps\<close>)
qed

lemma service_index_le: "service_index tm R s \<le> length R"
  using lower_bound_loop_le [of _ R 0 "length R"] by (simp add: service_index_def lower_bound_def)

lemma mset_insert_at: "i \<le> length xs \<Longrightarrow> set (insert_at i x xs) = insert x (set xs)"
  by (metis Un_insert_right append_take_drop_id insert_at_def list.simps(15) set_append)

lemma in_order_nth: "in_order tm R \<Longrightarrow> i < j \<Longrightarrow> j < length R \<Longrightarrow> row_before (tm (R ! i)) (tm (R ! j))"
  unfolding in_order_def by (rule sorted_wrt_nth_less)

lemma row_before_refl: "row_before x x"
  by (simp add: row_before_def)

lemma in_order_le: "in_order tm R \<Longrightarrow> i \<le> j \<Longrightarrow> j < length R \<Longrightarrow> row_before (tm (R ! i)) (tm (R ! j))"
  by (metis in_order_nth le_neq_implies_less row_before_refl)

section \<open>Inserting keeps the order\<close>

lemma insert_in_order:
  assumes "in_order tm R" "p \<le> length R"
  shows "in_order tm (insert_at p s R) \<longleftrightarrow>
    (\<forall>j < p. row_before (tm (R ! j)) (tm s)) \<and> (\<forall>j. p \<le> j \<and> j < length R \<longrightarrow> row_before (tm s) (tm (R ! j)))"
proof -
  have split: "sorted_wrt (\<lambda>a b. row_before (tm a) (tm b)) (take p R @ drop p R)"
    using assms(1) by (simp add: in_order_def)
  have t: "(\<forall>a \<in> set (take p R). P a) \<longleftrightarrow> (\<forall>j < p. P (R ! j))" for P
    using assms(2) by (force simp: set_conv_nth)
  have d: "(\<forall>a \<in> set (drop p R). P a) \<longleftrightarrow> (\<forall>j. p \<le> j \<and> j < length R \<longrightarrow> P (R ! j))" for P
  proof
    assume a: "\<forall>a \<in> set (drop p R). P a"
    show "\<forall>j. p \<le> j \<and> j < length R \<longrightarrow> P (R ! j)"
    proof (intro allI impI)
      fix j assume j: "p \<le> j \<and> j < length R"
      then have "R ! j = drop p R ! (j - p)" "j - p < length (drop p R)" by auto
      with a show "P (R ! j)" by (metis nth_mem)
    qed
  qed (auto simp: in_set_conv_nth)
  have "in_order tm (insert_at p s R) \<longleftrightarrow>
    (\<forall>a \<in> set (take p R). row_before (tm a) (tm s)) \<and> (\<forall>a \<in> set (drop p R). row_before (tm s) (tm a))"
    using split unfolding in_order_def insert_at_def sorted_wrt_append sorted_wrt.simps by auto
  then show ?thesis by (simp only: t d)
qed

lemma row_conflict_iff:
  assumes "\<forall>a \<in> insert s (set R). times_ok n (tm a)" "i < n"
  shows "row_conflict tm R p s i \<longleftrightarrow> R \<noteq> [] \<and>
    (0 < p \<and> tm s ! i < tm (R ! (p - 1)) ! i \<or> p < length R \<and> tm (R ! p) ! i < tm s ! i \<or>
     1440 \<le> max (tm s ! i) (tm (last R) ! i) - min (tm s ! i) (tm (hd R) ! i))"
proof (cases "R = []")
  case False
  then have m: "times_ok n (tm s)" "times_ok n (tm (hd R))" "times_ok n (tm (last R))"
    using assms(1) by auto
  have "i16 (max (tm s ! i) (tm (last R) ! i) - min (tm s ! i) (tm (hd R) ! i))
    = max (tm s ! i) (tm (last R) ! i) - min (tm s ! i) (tm (hd R) ! i)"
    using m [THEN times_okD(4), OF assms(2)] by (intro wrap_s16_id) (auto simp: max_def min_def)
  with False show ?thesis by (simp add: row_conflict_def)
qed (simp add: row_conflict_def)

definition fits_at :: "('s \<Rightarrow> int list) \<Rightarrow> 's list \<Rightarrow> 's \<Rightarrow> nat \<Rightarrow> bool" where
  "fits_at tm R s p \<longleftrightarrow>
     (\<forall>i < length (tm s). \<not> tod_conflict tm R p s i \<and> \<not> row_conflict tm R p s i)"

lemma get_index_Some: "get_index tm R s = Some p \<longleftrightarrow> p = service_index tm R s \<and> fits_at tm R s p"
  by (auto simp: get_index_def Let_def fits_at_def list_ex_iff)

lemma fits_atD:
  assumes R: "in_order tm R" and ok: "\<forall>a \<in> insert s (set R). times_ok n (tm a)"
    and p: "p \<le> length R" and f: "fits_at tm R s p"
  shows "j < p \<Longrightarrow> row_before (tm (R ! j)) (tm s)"
    "p \<le> j \<Longrightarrow> j < length R \<Longrightarrow> row_before (tm s) (tm (R ! j))"
proof -
  have len: "length (tm s) = n" and lenR: "k < length R \<Longrightarrow> length (tm (R ! k)) = n" for k
    using ok by (auto intro: times_okD(1))
  have c: "\<not> tod_conflict tm R p s i" "\<not> row_conflict tm R p s i" if "i < n" for i
    using f that len by (auto simp: fits_at_def)
  have bounds: "tm (hd R) ! i \<le> tm (R ! k) ! i" "tm (R ! k) ! i \<le> tm (last R) ! i"
    if "i < n" "k < length R" for i k
  proof -
    have "R \<noteq> []" using that by auto
    moreover have "row_before (tm (R ! 0)) (tm (R ! k))" "row_before (tm (R ! k)) (tm (R ! (length R - 1)))"
      using that by (auto intro!: in_order_le [OF R])
    ultimately show "tm (hd R) ! i \<le> tm (R ! k) ! i" "tm (R ! k) ! i \<le> tm (last R) ! i"
      using that lenR [of 0] lenR [of k] by (auto simp: row_before_def hd_conv_nth last_conv_nth)
  qed
  show "row_before (tm (R ! j)) (tm s)" if j: "j < p"
    unfolding row_before_def
  proof (intro conjI allI impI)
    show "length (tm (R ! j)) = length (tm s)" using j p len lenR by simp
    fix i assume "i < length (tm (R ! j))"
    then have i: "i < n" using j p lenR by simp
    have R0: "R \<noteq> []" using j p by auto
    have b: "row_before (tm (R ! j)) (tm (R ! (p - 1)))" by (rule in_order_le [OF R]) (use j p in auto)
    have le: "tm (R ! j) ! i \<le> tm (R ! (p - 1)) ! i"
      "time_of_day (tm (R ! j) ! i) \<le> time_of_day (tm (R ! (p - 1)) ! i)"
      using b i lenR j p by (auto simp: row_before_def)
    have "tm (R ! (p - 1)) ! i \<le> tm s ! i"
      "max (tm s ! i) (tm (last R) ! i) - min (tm s ! i) (tm (hd R) ! i) < 1440"
      using c(2) [OF i] j R0 unfolding row_conflict_iff [OF ok i] by auto
    moreover have "time_of_day (tm (R ! (p - 1)) ! i) \<le> time_of_day (tm s ! i)"
      using c(1) [OF i] j by (auto simp: tod_conflict_def)
    ultimately show "tm (R ! j) ! i \<le> tm s ! i" "time_of_day (tm (R ! j) ! i) \<le> time_of_day (tm s ! i)"
      "tm s ! i - tm (R ! j) ! i < 1440"
      using le bounds(1) [OF i, of j] j p by (auto simp: max_def min_def split: if_splits)
  qed
  show "row_before (tm s) (tm (R ! j))" if j: "p \<le> j" "j < length R"
    unfolding row_before_def
  proof (intro conjI allI impI)
    show "length (tm s) = length (tm (R ! j))" using j len lenR by simp
    fix i assume "i < length (tm s)"
    then have i: "i < n" using len by simp
    have R0: "R \<noteq> []" using j by auto
    have b: "row_before (tm (R ! p)) (tm (R ! j))" by (rule in_order_le [OF R]) (use j in auto)
    have le: "tm (R ! p) ! i \<le> tm (R ! j) ! i"
      "time_of_day (tm (R ! p) ! i) \<le> time_of_day (tm (R ! j) ! i)"
      using b i lenR j by (auto simp: row_before_def)
    have "tm s ! i \<le> tm (R ! p) ! i"
      "max (tm s ! i) (tm (last R) ! i) - min (tm s ! i) (tm (hd R) ! i) < 1440"
      using c(2) [OF i] j R0 unfolding row_conflict_iff [OF ok i] by auto
    moreover have "time_of_day (tm s ! i) \<le> time_of_day (tm (R ! p) ! i)"
      using c(1) [OF i] j by (auto simp: tod_conflict_def)
    ultimately show "tm s ! i \<le> tm (R ! j) ! i" "time_of_day (tm s ! i) \<le> time_of_day (tm (R ! j) ! i)"
      "tm (R ! j) ! i - tm s ! i < 1440"
      using le bounds(2) [OF i, of j] j by (auto simp: max_def min_def split: if_splits)
  qed
qed

lemma get_index_in_order:
  assumes "in_order tm R" "\<forall>a \<in> insert s (set R). times_ok n (tm a)" "get_index tm R s = Some p"
  shows "p \<le> length R \<and> in_order tm (insert_at p s R)"
proof -
  have p: "p \<le> length R" "fits_at tm R s p"
    using assms(3) service_index_le [of tm R s] by (auto simp: get_index_Some)
  with fits_atD [OF assms(1,2) p] show ?thesis by (simp add: insert_in_order [OF assms(1) p(1)])
qed

text \<open>The converse: a place that keeps the order passes the tests.\<close>

lemma fits_at_in_order:
  assumes R: "in_order tm R" and ok: "\<forall>a \<in> insert s (set R). times_ok n (tm a)" and p: "p \<le> length R"
    and ord: "in_order tm (insert_at p s R)"
  shows "fits_at tm R s p"
  unfolding fits_at_def
proof (intro allI impI)
  note o = iffD1 [OF insert_in_order [OF R p] ord]
  fix i assume i0: "i < length (tm s)"
  have i: "i < n" using ok i0 by (auto dest: times_okD(1))
  have pre: "row_before (tm (R ! j)) (tm s)" if "j < p" for j using o that by blast
  have post: "row_before (tm s) (tm (R ! j))" if "p \<le> j" "j < length R" for j using o that by blast
  have a: "tm (R ! j) ! i \<le> tm s ! i \<and> time_of_day (tm (R ! j) ! i) \<le> time_of_day (tm s ! i) \<and>
      tm s ! i - tm (R ! j) ! i < 1440" if "j < p" for j
    using pre [OF that] i0 by (simp add: row_before_def)
  have b: "tm s ! i \<le> tm (R ! j) ! i \<and> time_of_day (tm s ! i) \<le> time_of_day (tm (R ! j) ! i) \<and>
      tm (R ! j) ! i - tm s ! i < 1440" if "p \<le> j" "j < length R" for j
    using post [OF that] i0 by (simp add: row_before_def)
  have "\<not> tod_conflict tm R p s i"
    using a [of "p - 1"] b [of p] by (fastforce simp: tod_conflict_def)
  moreover have "\<not> row_conflict tm R p s i"
  proof (cases "R = []")
    case False
    have ends: "tm (last R) ! i - tm (hd R) ! i < 1440"
    proof -
      have "row_before (tm (hd R)) (tm (last R))"
        using in_order_le [OF R, of 0 "length R - 1"] False by (simp add: hd_conv_nth last_conv_nth)
      moreover have "length (tm (hd R)) = n" using ok False by (auto dest: times_okD(1))
      ultimately show ?thesis using i by (simp add: row_before_def)
    qed
    have "tm s ! i - tm (hd R) ! i < 1440"
      using a [of 0] b [of 0] False by (cases "0 < p") (auto simp: hd_conv_nth)
    moreover have "tm (last R) ! i - tm s ! i < 1440"
      using a [of "length R - 1"] b [of "length R - 1"] False
      by (cases "length R - 1 < p") (auto simp: last_conv_nth)
    moreover have "\<not> (0 < p \<and> tm s ! i < tm (R ! (p - 1)) ! i)" using a [of "p - 1"] by auto
    moreover have "\<not> (p < length R \<and> tm (R ! p) ! i < tm s ! i)" using b [of p] by auto
    ultimately show ?thesis using ends by (auto simp: row_conflict_iff [OF ok i] max_def min_def)
  qed (simp add: row_conflict_def)
  ultimately show "\<not> tod_conflict tm R p s i \<and> \<not> row_conflict tm R p s i" ..
qed

text \<open>The binary search finds the place of a service whose first departure differs from all others
  in time of day.\<close>

lemma service_index_eq:
  assumes R: "in_order tm R" and ok: "\<forall>a \<in> insert s (set R). times_ok n (tm a)" and p: "p \<le> length R"
    and ord: "in_order tm (insert_at p s R)"
    and new: "\<forall>a \<in> set R. time_of_day (hd (tm a)) \<noteq> time_of_day (hd (tm s))"
  shows "service_index tm R s = p"
  unfolding service_index_def lower_bound_def
proof (rule lower_bound_loop_eq)
  fix i assume "i < 0 + length R"
  then have i: "i < length R" by simp
  note o = iffD1 [OF insert_in_order [OF R p] ord]
  have hd: "hd (tm (R ! i)) = tm (R ! i) ! 0" "hd (tm s) = tm s ! 0" and n: "0 < length (tm s)" "0 < length (tm (R ! i))"
  proof -
    have "times_ok n (tm (R ! i))" "times_ok n (tm s)" using ok i by auto
    from this [THEN times_okD(3)] this [THEN times_okD(2)]
    show "hd (tm (R ! i)) = tm (R ! i) ! 0" "hd (tm s) = tm s ! 0" "0 < length (tm s)" "0 < length (tm (R ! i))"
      by simp_all
  qed
  have ne: "time_of_day (tm (R ! i) ! 0) \<noteq> time_of_day (tm s ! 0)"
    using new i hd by (metis nth_mem)
  show "time_of_day (hd (tm (R ! i))) < time_of_day (hd (tm s)) \<longleftrightarrow> i < p"
  proof (cases "i < p")
    case True
    then have "row_before (tm (R ! i)) (tm s)" using o by blast
    with n ne True show ?thesis by (auto simp: hd row_before_def less_le)
  next
    case False
    then have "row_before (tm s) (tm (R ! i))" using o i by auto
    with n ne False show ?thesis by (auto simp: hd row_before_def not_less)
  qed
qed (use p in auto)

text \<open>Property C19. The place for a service is found whenever there is one. In a route in order, for a service whose first
  departure differs from those of the route in time of day, \<open>get_index\<close> returns \<open>p\<close> exactly if inserting
  at \<open>p\<close> keeps the route in order: no service overtakes another at any event, neither in time of day nor
  in the time since the midnight of the traffic day, and all pass an event within one day.\<close>

theorem get_index_exact:
  assumes "in_order tm R" "\<forall>a \<in> insert s (set R). times_ok n (tm a)"
    and "\<forall>a \<in> set R. time_of_day (hd (tm a)) \<noteq> time_of_day (hd (tm s))"
  shows "get_index tm R s = Some p \<longleftrightarrow> p \<le> length R \<and> in_order tm (insert_at p s R)"
proof
  assume "get_index tm R s = Some p"
  then show "p \<le> length R \<and> in_order tm (insert_at p s R)" by (rule get_index_in_order [OF assms(1,2)])
next
  assume "p \<le> length R \<and> in_order tm (insert_at p s R)"
  then have p: "p \<le> length R" "in_order tm (insert_at p s R)" by simp_all
  then show "get_index tm R s = Some p"
    using service_index_eq [OF assms(1,2) p assms(3)] fits_at_in_order [OF assms(1,2) p]
    by (simp add: get_index_Some)
qed

section \<open>All routes of a timetable\<close>

text \<open>Every route holds services of one key and is in order.\<close>

definition routes_ok :: "('s \<Rightarrow> 'k) \<Rightarrow> ('s \<Rightarrow> int list) \<Rightarrow> ('k \<Rightarrow> nat) \<Rightarrow> ('k \<rightharpoonup> 's list list) \<Rightarrow> bool" where
  "routes_ok key tm n m \<longleftrightarrow>
     (\<forall>k Rs. m k = Some Rs \<longrightarrow> (\<forall>R \<in> set Rs. in_order tm R \<and> (\<forall>s \<in> set R. key s = k \<and> times_ok (n k) (tm s))))"

lemma mset_insert_at_mset: "mset (insert_at i x xs) = add_mset x (mset xs)"
  by (metis append_take_drop_id insert_at_def mset.simps(2) mset_append union_mset_add_mset_right)

lemma add_to_routes_ok:
  assumes "\<forall>R \<in> set Rs. in_order tm R \<and> (\<forall>a \<in> set R. key a = k \<and> times_ok n (tm a))"
    and "key s = k" "times_ok n (tm s)"
  shows "\<forall>R \<in> set (add_to_routes tm s Rs). in_order tm R \<and> (\<forall>a \<in> set R. key a = k \<and> times_ok n (tm a))"
  using assms(1)
proof (induction Rs)
  case Nil
  then show ?case using assms(2,3) by (simp add: in_order_def)
next
  case (Cons R Rs)
  show ?case
  proof (cases "get_index tm R s")
    case None
    then show ?thesis using Cons by simp
  next
    case (Some p)
    have "p \<le> length R \<and> in_order tm (insert_at p s R)"
      by (rule get_index_in_order [OF _ _ Some]) (use Cons.prems assms(3) in auto)
    with Some Cons.prems assms(2,3) show ?thesis by (auto simp: mset_insert_at)
  qed
qed

lemma mset_add_to_routes: "mset (concat (add_to_routes tm s Rs)) = add_mset s (mset (concat Rs))"
  by (induction Rs) (auto simp: mset_insert_at_mset split: option.splits)

lemma add_service_ok:
  assumes "routes_ok key tm n m" "times_ok (n (key s)) (tm s)"
  shows "routes_ok key tm n (add_service key tm s m)"
proof (cases "m (key s)")
  case None
  with assms show ?thesis by (auto simp: routes_ok_def add_service_def in_order_def)
next
  case (Some Rs)
  have "\<forall>R \<in> set (add_to_routes tm s Rs). in_order tm R \<and> (\<forall>a \<in> set R. key a = key s \<and> times_ok (n (key s)) (tm a))"
    by (rule add_to_routes_ok) (use assms Some in \<open>auto simp: routes_ok_def\<close>)
  with assms(1) Some show ?thesis by (auto simp: routes_ok_def add_service_def)
qed

definition services_of :: "('k \<rightharpoonup> 's list list) \<Rightarrow> 'k \<Rightarrow> 's list" where
  "services_of m k = (case m k of Some Rs \<Rightarrow> concat Rs | None \<Rightarrow> [])"

lemma services_of_add:
  "mset (services_of (add_service key tm s m) k) =
     (if k = key s then add_mset s (mset (services_of m k)) else mset (services_of m k))"
  by (auto simp: services_of_def add_service_def mset_add_to_routes split: option.splits)

lemma add_services_ok:
  assumes "routes_ok key tm n m" "\<forall>s \<in> set ss. times_ok (n (key s)) (tm s)"
  shows "routes_ok key tm n (fold (add_service key tm) ss m)"
  by (rule fold_invariant [of "routes_ok key tm n"]) (use assms in \<open>auto intro: add_service_ok\<close>)

lemma add_services_mset:
  "mset (services_of (fold (add_service key tm) ss m) k) =
     mset (filter (\<lambda>s. key s = k) ss) + mset (services_of m k)"
  by (induction ss arbitrary: m) (auto simp: services_of_add)

text \<open>Property C18. Grouping services into routes. After any number of services with times of the length their key
  determines, every route holds services of its key only, is in order at every event (in time of day, in
  time since midnight, within one day), and each service is in a route of its key as often as it was
  added.\<close>

theorem routes_in_order:
  assumes "\<forall>s \<in> set ss. times_ok (n (key s)) (tm s)" "m = fold (add_service key tm) ss Map.empty"
  shows "(\<forall>k Rs. m k = Some Rs \<longrightarrow> (\<forall>R \<in> set Rs. in_order tm R \<and> (\<forall>s \<in> set R. key s = k))) \<and>
    (\<forall>k. mset (services_of m k) = mset (filter (\<lambda>s. key s = k) ss))"
proof -
  have "routes_ok key tm n m" unfolding assms(2)
    by (rule add_services_ok) (use assms(1) in \<open>simp_all add: routes_ok_def\<close>)
  moreover have "mset (services_of m k) = mset (filter (\<lambda>s. key s = k) ss)" for k
    unfolding assms(2) add_services_mset by (simp add: services_of_def)
  ultimately show ?thesis by (auto simp: routes_ok_def)
qed

text \<open>What the searches rely on: the order of the pairs of traffic day and place in the route is the
  order of absolute times. If transport \<open>a\<close> on day \<open>d\<close> comes before transport \<open>b\<close> on day \<open>d'\<close> in the
  lexicographic order, it passes every event of the route no later, and strictly earlier when the days
  differ, also when times go beyond 24:00.\<close>

theorem absolute_event_order:
  assumes "\<forall>s \<in> set ss. times_ok (n (key s)) (tm s)"
    and "fold (add_service key tm) ss Map.empty k = Some Rs" "R \<in> set Rs"
    and "a < length R" "b < length R" "i < n k" "d < d' \<or> d = d' \<and> a \<le> b"
  shows "d * 1440 + tm (R ! a) ! i \<le> d' * 1440 + tm (R ! b) ! i \<and>
    (d < d' \<longrightarrow> d * 1440 + tm (R ! a) ! i < d' * 1440 + tm (R ! b) ! i)"
proof -
  have "routes_ok key tm n (fold (add_service key tm) ss Map.empty)"
    by (rule add_services_ok) (use assms(1) in \<open>simp_all add: routes_ok_def\<close>)
  with assms(2,3) have R: "in_order tm R" "\<forall>s \<in> set R. times_ok (n k) (tm s)"
    by (auto simp: routes_ok_def)
  have len: "length (tm (R ! j)) = n k" if "j < length R" for j
    using R(2) that by (auto dest: times_okD(1))
  have le: "tm (R ! x) ! i \<le> tm (R ! y) ! i \<and> tm (R ! y) ! i - tm (R ! x) ! i < 1440"
    if "x \<le> y" "y < length R" for x y
    using in_order_le [OF R(1) that] len [of x] that assms(6) by (simp add: row_before_def)
  show ?thesis
  proof (cases "d < d'")
    case True
    then have d: "d * 1440 + 1440 \<le> d' * 1440" by linarith
    have "tm (R ! a) ! i - tm (R ! b) ! i < 1440"
      using le [of a b] le [of b a] assms(4,5) by (cases "a \<le> b") auto
    with d show ?thesis by linarith
  next
    case False
    with assms(5,7) le [of a b] show ?thesis by auto
  qed
qed

section \<open>An example\<close>

text \<open>Trips over three stops. The second overtakes none of the others, the fourth overtakes the
  first, the fifth passes the last stop after midnight.\<close>

definition example_times :: "int list list" where
  "example_times = [[600, 630, 632, 660], [540, 570, 572, 600], [660, 690, 692, 720], [605, 620, 621, 640],
     [1410, 1435, 1437, 1450]]"

lemmas order_simps = get_index_def service_index_def lower_bound_def lower_bound_loop.simps time_of_day_def
  tod_conflict_def row_conflict_def insert_at_def wrap_s_def cmod_def cdiv_def

lemma example_get_index:
  "get_index id [[600, 630, 632, 660], [660, 690, 692, 720]] [605, 620, 621, 640] = None"
  "get_index id [[600, 630, 632, 660], [660, 690, 692, 720]] [540, 570, 572, 600] = Some 0"
  by (simp_all add: order_simps Let_def upt_rec)

lemma example_routes:
  "fold (add_service length id) example_times Map.empty 4 =
     Some [[[540, 570, 572, 600], [600, 630, 632, 660], [660, 690, 692, 720]],
           [[605, 620, 621, 640]], [[1410, 1435, 1437, 1450]]]"
  by (simp add: example_times_def add_service_def order_simps Let_def upt_rec)

lemma example_times_ok: "\<forall>s \<in> set example_times. times_ok (id (length s)) (id s)"
  by (simp add: example_times_def times_ok_def)

theorem get_index_exact_witness:
  "get_index id [[600, 630, 632, 660], [660, 690, 692, 720]] [540, 570, 572, 600 :: int] = Some 0 \<longleftrightarrow>
   0 \<le> (2 :: nat) \<and> in_order id (insert_at 0 [540, 570, 572, 600] [[600, 630, 632, 660], [660, 690, 692, 720]])"
  using get_index_exact [of id "[[600, 630, 632, 660], [660, 690, 692, 720]]" "[540, 570, 572, 600]" 4 0]
  by (simp add: in_order_def row_before_def times_ok_def time_of_day_def less_Suc_eq numeral_nat)

theorem routes_in_order_witness:
  "in_order id [[540, 570, 572, 600], [600, 630, 632, 660], [660, 690, 692, 720 :: int]] \<and>
   mset (services_of (fold (add_service length id) example_times Map.empty) 4) = mset example_times"
proof -
  let ?m = "fold (add_service length id) example_times Map.empty"
  note t = routes_in_order [of example_times id length id ?m, OF example_times_ok refl]
  have "in_order id [[540, 570, 572, 600], [600, 630, 632, 660], [660, 690, 692, 720 :: int]]"
    using t example_routes by (metis list.set_intros(1))
  moreover have "mset (services_of ?m 4) = mset (filter (\<lambda>s. length s = 4) example_times)"
    using t by blast
  ultimately show ?thesis by (simp add: example_times_def)
qed

theorem absolute_event_order_witness:
  "(0 :: int) * 1440 + 720 \<le> 1 * 1440 + 600 \<and> in_order id [[605, 620, 621, 640 :: int]]"
  using absolute_event_order [where ss = example_times and n = id and key = length and tm = id and k = 4
      and a = 2 and b = 0 and i = 3 and d = 0 and d' = 1, OF example_times_ok example_routes]
  by (simp add: in_order_def)

end
