(* ===== verification/Compress.thy ===== *)
theory Compress
  imports Timetable
begin

text \<open>
  Building the compressed stop times: \<open>src/loader/compress_stop_times.cc\<close>. The stop times of a
  route arrive event-major in \<open>import_context\<close>; the loop stores the first departure of each
  transport and the offsets of its events as a pattern shared by all transports of the route
  with the same offsets.
\<close>

section \<open>The loops\<close>

record import_context =
  route_stop_times :: "delta list"
  route_stop_time_ranges :: "nat interval list"

definition stop_time :: "import_context \<Rightarrow> timetable \<Rightarrow> nat \<Rightarrow> nat \<Rightarrow> nat \<Rightarrow> delta" where
  "stop_time ctx tt r e t =
     (let transports = route_transport_ranges tt ! r in
      route_stop_times ctx ! (ifrom (route_stop_time_ranges ctx ! r)
        + e * iv_size transports + (t - ifrom transports)))"

definition n_events :: "timetable \<Rightarrow> nat \<Rightarrow> nat" where
  "n_events tt r = length (route_location_seq tt ! r) * 2 - 2"

text \<open>\<open>utl::get_or_create\<close> on the hash map of patterns, with the list of patterns it extends.\<close>

definition get_or_create_pattern ::
    "delta list \<Rightarrow> (delta list \<rightharpoonup> nat) \<times> delta list list \<Rightarrow> nat \<times> ((delta list \<rightharpoonup> nat) \<times> delta list list)" where
  "get_or_create_pattern offs ps =
     (case fst ps offs of
        Some i \<Rightarrow> (i, ps)
      | None \<Rightarrow> let rp = snd ps @ [offs]; i = (length rp - 1) mod 2 ^ 16
                in (i, ((fst ps)(offs \<mapsto> i), rp)))"

definition event_offsets :: "import_context \<Rightarrow> timetable \<Rightarrow> nat \<Rightarrow> nat \<Rightarrow> delta list" where
  "event_offsets ctx tt r t =
     map (\<lambda>e. delta_minus (stop_time ctx tt r e t) (stop_time ctx tt r 0 t)) [0..<n_events tt r]"

definition compress_transport ::
    "import_context \<Rightarrow> nat \<Rightarrow> nat \<Rightarrow> timetable \<times> (delta list \<rightharpoonup> nat) \<times> delta list list
     \<Rightarrow> timetable \<times> (delta list \<rightharpoonup> nat) \<times> delta list list" where
  "compress_transport ctx r t s =
     (let (tt, ps) = s;
          (p, ps) = get_or_create_pattern (event_offsets ctx tt r t) ps
      in (tt\<lparr>transport_first_dep := (transport_first_dep tt)[t := stop_time ctx tt r 0 t],
             transport_pattern := (transport_pattern tt)[t := p]\<rparr>, ps))"

definition compress_route :: "import_context \<Rightarrow> nat \<Rightarrow> timetable \<Rightarrow> timetable" where
  "compress_route ctx r tt =
     (let transports = route_transport_ranges tt ! r;
          (tt, _, route_patterns) =
            fold (compress_transport ctx r) (iv_list transports) (tt, Map.empty, []);
          n_patterns = length route_patterns mod 2 ^ 16
      in tt\<lparr>tt_route_times := tt_route_times tt @
              [\<lparr>rt_transports = transports,
                rt_pattern_start = length (pattern_offsets tt) mod 2 ^ 32,
                rt_n_patterns = n_patterns\<rparr>],
            pattern_offsets := pattern_offsets tt @
              concat (map (\<lambda>e. map (\<lambda>p. route_patterns ! p ! e) [0..<n_patterns])
                [0..<n_events tt r])\<rparr>)"

definition compress_stop_times :: "import_context \<Rightarrow> timetable \<Rightarrow> timetable" where
  "compress_stop_times ctx tt =
     (let n = length (transport_route tt);
          tt = tt\<lparr>transport_first_dep := resize \<lparr>days = 0, mam = 0\<rparr> n (transport_first_dep tt),
                 transport_pattern := resize 0 n (transport_pattern tt)\<rparr>
      in fold (compress_route ctx) [0..<n_routes tt] tt)"

section \<open>What the loops leave alone\<close>

lemma fold_upt_invariant:
  assumes "P 0 s" and "\<And>i s. i < n \<Longrightarrow> P i s \<Longrightarrow> P (Suc i) (f i s)"
  shows "P n (fold f [0..<n] s)"
  using assms by (induction n) auto

text \<open>The tables the loops only read.\<close>

definition same_input :: "timetable \<Rightarrow> timetable \<Rightarrow> bool" where
  "same_input tt tt' \<longleftrightarrow> route_transport_ranges tt' = route_transport_ranges tt \<and>
     route_location_seq tt' = route_location_seq tt \<and> transport_route tt' = transport_route tt"

lemma same_input_reads:
  assumes "same_input tt tt'"
  shows "stop_time ctx tt' = stop_time ctx tt" "n_events tt' = n_events tt"
    "event_offsets ctx tt' = event_offsets ctx tt" "n_routes tt' = n_routes tt"
proof -
  show st: "stop_time ctx tt' = stop_time ctx tt" "n_events tt' = n_events tt"
    "n_routes tt' = n_routes tt"
    using assms by (simp_all add: fun_eq_iff same_input_def stop_time_def n_events_def n_routes_def Let_def)
  show "event_offsets ctx tt' = event_offsets ctx tt"
    by (intro ext) (simp add: event_offsets_def st)
qed

text \<open>The pattern table of a route in sync with the list: every key maps to the place of its
  offsets.\<close>

definition patterns_ok :: "(delta list \<rightharpoonup> nat) \<times> delta list list \<Rightarrow> bool" where
  "patterns_ok ps \<longleftrightarrow> (\<forall>k i. fst ps k = Some i \<longrightarrow> i < length (snd ps) \<and> snd ps ! i = k)"

lemma get_or_create_pattern_ok:
  assumes "patterns_ok ps" "length (snd ps) < 65536" "get_or_create_pattern offs ps = (i, ps')"
  shows "patterns_ok ps' \<and> i < length (snd ps') \<and> snd ps' ! i = offs \<and>
    (\<exists>more. snd ps' = snd ps @ more) \<and> length (snd ps') \<le> Suc (length (snd ps))"
proof (cases "fst ps offs")
  case (Some j)
  with assms show ?thesis by (simp add: get_or_create_pattern_def patterns_ok_def)
next
  case None
  then have i: "i = length (snd ps)" "ps' = ((fst ps)(offs \<mapsto> i), snd ps @ [offs])"
    using assms(2,3) by (auto simp: get_or_create_pattern_def Let_def)
  have "patterns_ok ps'"
    using assms(1) unfolding patterns_ok_def i(2) by (auto simp: i(1) nth_append less_Suc_eq)
  with i show ?thesis by simp
qed

section \<open>One route\<close>

text \<open>After the transports \<open>[a, b)\<close> of route \<open>r\<close>: their first departures and patterns are
  stored, the others are untouched.\<close>

definition transports_done ::
    "import_context \<Rightarrow> nat \<Rightarrow> nat \<Rightarrow> nat \<Rightarrow> timetable \<Rightarrow> timetable \<times> (delta list \<rightharpoonup> nat) \<times> delta list list \<Rightarrow> bool" where
  "transports_done ctx r a b tt0 s \<longleftrightarrow>
     (case s of (tt, ps) \<Rightarrow>
        same_input tt0 tt \<and> tt_route_times tt = tt_route_times tt0 \<and>
        pattern_offsets tt = pattern_offsets tt0 \<and>
        length (transport_first_dep tt) = length (transport_first_dep tt0) \<and>
        length (transport_pattern tt) = length (transport_pattern tt0) \<and>
        patterns_ok ps \<and> length (snd ps) \<le> b - a \<and>
        (\<forall>t. t < a \<or> b \<le> t \<longrightarrow> transport_first_dep tt ! t = transport_first_dep tt0 ! t \<and>
            transport_pattern tt ! t = transport_pattern tt0 ! t) \<and>
        (\<forall>t. a \<le> t \<and> t < b \<longrightarrow> transport_first_dep tt ! t = stop_time ctx tt0 r 0 t \<and>
            transport_pattern tt ! t < length (snd ps) \<and>
            snd ps ! (transport_pattern tt ! t) = event_offsets ctx tt0 r t))"

lemma compress_transport_done:
  assumes "transports_done ctx r a b tt0 (tt, ps)" "a \<le> b" "b - a < 65536"
    and "b < length (transport_first_dep tt0)" "b < length (transport_pattern tt0)"
  shows "transports_done ctx r a (Suc b) tt0 (compress_transport ctx r b (tt, ps))"
proof -
  obtain i ps' where i: "get_or_create_pattern (event_offsets ctx tt0 r b) ps = (i, ps')"
    by (cases "get_or_create_pattern (event_offsets ctx tt0 r b) ps")
  have d: "same_input tt0 tt" "patterns_ok ps" "length (snd ps) \<le> b - a"
    using assms(1) by (simp_all add: transports_done_def)
  with assms(3) have "length (snd ps) < 65536" by simp
  from get_or_create_pattern_ok [OF d(2) this i]
  obtain more where g: "patterns_ok ps'" "i < length (snd ps')" "snd ps' ! i = event_offsets ctx tt0 r b"
    "snd ps' = snd ps @ more" "length (snd ps') \<le> Suc (length (snd ps))" by blast
  define tt' where "tt' = tt\<lparr>transport_first_dep := (transport_first_dep tt)[b := stop_time ctx tt0 r 0 b],
             transport_pattern := (transport_pattern tt)[b := i]\<rparr>"
  have step: "compress_transport ctx r b (tt, ps) = (tt', ps')"
    by (simp add: compress_transport_def same_input_reads [OF d(1)] i tt'_def)
  have len: "b < length (transport_first_dep tt)" "b < length (transport_pattern tt)"
    using assms(1,4,5) by (simp_all add: transports_done_def)
  have old: "transport_first_dep tt ! t = stop_time ctx tt0 r 0 t \<and>
      transport_pattern tt ! t < length (snd ps) \<and>
      snd ps ! (transport_pattern tt ! t) = event_offsets ctx tt0 r t" if "a \<le> t" "t < b" for t
    using assms(1) that by (simp add: transports_done_def)
  have "transport_first_dep tt' ! t = stop_time ctx tt0 r 0 t \<and>
      transport_pattern tt' ! t < length (snd ps') \<and>
      snd ps' ! (transport_pattern tt' ! t) = event_offsets ctx tt0 r t" if "a \<le> t" "t < Suc b" for t
  proof (cases "t = b")
    case True
    with len g(2,3) show ?thesis by (simp add: tt'_def)
  next
    case False
    with old [OF that(1)] that(2) g(4) show ?thesis by (simp add: tt'_def nth_append)
  qed
  moreover have "transport_first_dep tt' ! t = transport_first_dep tt0 ! t \<and>
      transport_pattern tt' ! t = transport_pattern tt0 ! t" if "t < a \<or> Suc b \<le> t" for t
  proof -
    have "t \<noteq> b" "t < a \<or> b \<le> t" using that assms(2) by auto
    with assms(1) show ?thesis unfolding transports_done_def tt'_def by auto
  qed
  moreover have "same_input tt0 tt'" using d(1) by (simp add: same_input_def tt'_def)
  moreover have "length (snd ps') \<le> Suc b - a" using g(5) d(3) assms(2) by simp
  ultimately show ?thesis
    unfolding step transports_done_def using assms(1) g(1)
    by (simp add: transports_done_def tt'_def del: One_nat_def)
qed

lemma compress_transports_done:
  assumes "a \<le> b" "b - a < 65536" "b \<le> length (transport_first_dep tt0)" "b \<le> length (transport_pattern tt0)"
  shows "transports_done ctx r a b tt0 (fold (compress_transport ctx r) [a..<b] (tt0, Map.empty, []))"
  using assms
proof (induction b rule: dec_induct)
  case base
  show ?case by (auto simp: transports_done_def same_input_def patterns_ok_def)
next
  case (step n)
  then have "transports_done ctx r a n tt0 (fold (compress_transport ctx r) [a..<n] (tt0, Map.empty, []))"
    by simp
  with step show ?case
    using compress_transport_done [of ctx r a n tt0]
    by (simp add: upt_Suc_append prod_cases) (metis prod.collapse Suc_le_lessD Suc_diff_le Suc_leD less_Suc_eq_le not_less)
qed

text \<open>Reading the event-major table: cell \<open>e * n + p\<close> is the offset of event \<open>e\<close> in pattern \<open>p\<close>.\<close>

lemma nth_concat_rows:
  assumes "e < m" "p < n"
  shows "concat (map (\<lambda>e. map (f e) [0..<n]) [0..<m]) ! (e * n + p) = f e p"
  using assms
proof (induction m)
  case (Suc m)
  have len: "length (concat (map (\<lambda>e. map (f e) [0..<n]) [0..<m])) = m * n" for m
    by (induction m) simp_all
  show ?case
  proof (cases "e < m")
    case True
    then have "(e + 1) * n \<le> m * n" by (intro mult_le_mono1) simp
    with Suc True have "e * n + p < m * n" by simp
    with True Suc show ?thesis by (simp add: nth_append len)
  next
    case False
    with Suc.prems have "e = m" by simp
    with Suc.prems show ?thesis by (simp add: nth_append len)
  qed
qed simp

lemma length_concat_rows:
  "length (concat (map (\<lambda>e. map (f e) [0..<n]) [0..<m])) = m * n"
  by (induction m) simp_all


section \<open>All routes\<close>

text \<open>The event \<open>e\<close> of a transport as the compressed tables give it.\<close>

definition cell :: "timetable \<Rightarrow> nat \<Rightarrow> nat \<Rightarrow> nat \<Rightarrow> delta" where
  "cell tt r t e =
     (let rt = tt_route_times tt ! r in
      delta_plus (transport_first_dep tt ! t)
        (pattern_offsets tt ! (rt_pattern_start rt + e * rt_n_patterns rt
           + (if rt_n_patterns rt = 1 then 0 else transport_pattern tt ! t))))"

lemma event_mam_r_cell: "event_mam_r tt r t s ev = cell tt r t (event_idx s ev)"
  by (simp add: event_mam_r_def cell_def)

text \<open>What the loaders hand over: disjoint transport ranges below \<open>2 ^ 16\<close> transports per route,
  normalised stop times no earlier than the first departure, and tables that fit their index
  types.\<close>

definition n_route_transports :: "timetable \<Rightarrow> nat \<Rightarrow> nat" where
  "n_route_transports tt r = iv_size (route_transport_ranges tt ! r)"

definition input_ok :: "import_context \<Rightarrow> timetable \<Rightarrow> bool" where
  "input_ok ctx tt \<longleftrightarrow> tt_route_times tt = [] \<and> pattern_offsets tt = [] \<and>
     (\<forall>r < n_routes tt. ifrom (route_transport_ranges tt ! r) \<le> ito (route_transport_ranges tt ! r) \<and>
        ito (route_transport_ranges tt ! r) \<le> length (transport_route tt) \<and>
        n_route_transports tt r < 65536 \<and> 0 < n_events tt r) \<and>
     (\<forall>r < n_routes tt. \<forall>q < r. ito (route_transport_ranges tt ! q) \<le> ifrom (route_transport_ranges tt ! r)) \<and>
     (\<forall>r < n_routes tt. \<forall>t \<in> set (iv_list (route_transport_ranges tt ! r)). \<forall>e < n_events tt r.
        delta_norm (stop_time ctx tt r e t) \<and>
        delta_minutes (stop_time ctx tt r 0 t) \<le> delta_minutes (stop_time ctx tt r e t)) \<and>
     (\<Sum>r < n_routes tt. n_events tt r * n_route_transports tt r) < 2 ^ 32"

text \<open>After \<open>k\<close> routes.\<close>

definition routes_done :: "import_context \<Rightarrow> timetable \<Rightarrow> nat \<Rightarrow> timetable \<Rightarrow> bool" where
  "routes_done ctx tt0 k tt \<longleftrightarrow> same_input tt0 tt \<and> length (tt_route_times tt) = k \<and>
     length (transport_first_dep tt) = length (transport_route tt0) \<and>
     length (transport_pattern tt) = length (transport_route tt0) \<and>
     length (pattern_offsets tt) \<le> (\<Sum>r < k. n_events tt0 r * n_route_transports tt0 r) \<and>
     (\<forall>r < k. rt_pattern_start (tt_route_times tt ! r) +
          n_events tt0 r * rt_n_patterns (tt_route_times tt ! r) \<le> length (pattern_offsets tt)) \<and>
     (\<forall>r < k. \<forall>t \<in> set (iv_list (route_transport_ranges tt0 ! r)).
          rt_n_patterns (tt_route_times tt ! r) \<noteq> 1 \<longrightarrow>
          transport_pattern tt ! t < rt_n_patterns (tt_route_times tt ! r)) \<and>
     (\<forall>r < k. \<forall>t \<in> set (iv_list (route_transport_ranges tt0 ! r)). \<forall>e < n_events tt0 r.
          cell tt r t e = stop_time ctx tt0 r e t)"

lemma row_index: "e < m \<Longrightarrow> p < n \<Longrightarrow> e * n + p < m * (n :: nat)"
proof -
  assume a: "e < m" "p < n"
  then have "(e + 1) * n \<le> m * n" by (intro mult_le_mono1) simp
  with a show ?thesis by simp
qed

lemma compress_route_done:
  assumes ok: "input_ok ctx tt0" and prev: "routes_done ctx tt0 k tt" and k: "k < n_routes tt0"
  shows "routes_done ctx tt0 (Suc k) (compress_route ctx k tt)"
proof -
  let ?iv = "route_transport_ranges tt0 ! k"
  have in0: "same_input tt0 tt" using prev by (simp add: routes_done_def)
  note reads = same_input_reads [OF in0]
  have ranges: "route_transport_ranges tt = route_transport_ranges tt0"
    using in0 by (simp add: same_input_def)
  have iv: "ifrom ?iv \<le> ito ?iv" "ito ?iv \<le> length (transport_route tt0)" "ito ?iv - ifrom ?iv < 65536"
    "0 < n_events tt0 k"
    using ok k by (simp_all add: input_ok_def n_route_transports_def iv_size_def)
  have len: "length (transport_first_dep tt) = length (transport_route tt0)"
    "length (transport_pattern tt) = length (transport_route tt0)"
    using prev by (simp_all add: routes_done_def)
  obtain tt1 m rps where f: "fold (compress_transport ctx k) [ifrom ?iv..<ito ?iv] (tt, Map.empty, []) = (tt1, m, rps)"
    by (metis prod.exhaust)
  have td: "transports_done ctx k (ifrom ?iv) (ito ?iv) tt (tt1, m, rps)"
    unfolding f [symmetric] using iv len by (intro compress_transports_done) simp_all
  have rps: "length rps \<le> ito ?iv - ifrom ?iv" using td by (simp add: transports_done_def)
  define P where "P = length (pattern_offsets tt)"
  have sum: "(\<Sum>r < Suc k. n_events tt0 r * n_route_transports tt0 r)
      \<le> (\<Sum>r < n_routes tt0. n_events tt0 r * n_route_transports tt0 r)"
    using k by (intro sum_mono2) auto
  have P: "P \<le> (\<Sum>r < k. n_events tt0 r * n_route_transports tt0 r)" "P < 2 ^ 32"
    using prev ok sum by (simp_all add: routes_done_def input_ok_def P_def)
  define rows where "rows = concat (map (\<lambda>e. map (\<lambda>p. rps ! p ! e) [0..<length rps]) [0..<n_events tt0 k])"
  define tt' where "tt' = tt1\<lparr>tt_route_times := tt_route_times tt @
              [\<lparr>rt_transports = ?iv, rt_pattern_start = P, rt_n_patterns = length rps\<rparr>],
            pattern_offsets := pattern_offsets tt @ rows\<rparr>"
  have td1: "same_input tt tt1" "tt_route_times tt1 = tt_route_times tt" "pattern_offsets tt1 = pattern_offsets tt"
    "length (transport_first_dep tt1) = length (transport_first_dep tt)"
    "length (transport_pattern tt1) = length (transport_pattern tt)"
    using td by (simp_all add: transports_done_def)
  have step: "compress_route ctx k tt = tt'"
    using P(2) rps iv(3) td1
    by (simp add: compress_route_def iv_list_def ranges f Let_def tt'_def rows_def P_def
        same_input_reads(2) [OF td1(1)] reads(2))
  have len_rows: "length rows = n_events tt0 k * length rps"
    by (simp add: rows_def length_concat_rows)
  have unchanged: "transport_first_dep tt' ! t = transport_first_dep tt ! t \<and>
      transport_pattern tt' ! t = transport_pattern tt ! t" if "t < ifrom ?iv" for t
    using td that by (simp add: transports_done_def tt'_def)
  have new: "transport_first_dep tt' ! t = stop_time ctx tt0 k 0 t \<and> transport_pattern tt' ! t < length rps \<and>
      rps ! (transport_pattern tt' ! t) = event_offsets ctx tt0 k t" if "t \<in> set (iv_list ?iv)" for t
    using td that by (simp add: transports_done_def tt'_def reads iv_list_def)
  have before: "t < ifrom ?iv" if "r < k" "t \<in> set (iv_list (route_transport_ranges tt0 ! r))" for r t
    using ok that k by (auto simp: input_ok_def iv_list_def intro: less_le_trans)
  have cell_old: "cell tt' r t e = stop_time ctx tt0 r e t"
    if "r < k" "t \<in> set (iv_list (route_transport_ranges tt0 ! r))" "e < n_events tt0 r" for r t e
  proof -
    let ?rt = "tt_route_times tt ! r"
    let ?p = "if rt_n_patterns ?rt = 1 then 0 else transport_pattern tt ! t"
    have rt: "tt_route_times tt' ! r = ?rt" using prev that(1) by (simp add: routes_done_def tt'_def nth_append)
    have cell: "cell tt r t e = stop_time ctx tt0 r e t" using prev that by (simp add: routes_done_def)
    have bound: "rt_pattern_start ?rt + n_events tt0 r * rt_n_patterns ?rt \<le> length (pattern_offsets tt)"
      using prev that(1) by (simp add: routes_done_def)
    have "?p < rt_n_patterns ?rt"
      using prev that(1,2) by (cases "rt_n_patterns ?rt = 1") (simp_all add: routes_done_def)
    from row_index [OF that(3) this] bound
    have i: "rt_pattern_start ?rt + e * rt_n_patterns ?rt + ?p < length (pattern_offsets tt)" by linarith
    have "pattern_offsets tt' ! (rt_pattern_start ?rt + e * rt_n_patterns ?rt + ?p)
        = pattern_offsets tt ! (rt_pattern_start ?rt + e * rt_n_patterns ?rt + ?p)"
      using i by (simp add: tt'_def nth_append)
    with unchanged [OF before [OF that(1,2)]] rt cell show ?thesis
      unfolding cell_def Let_def by (cases "rt_n_patterns ?rt = 1") simp_all
  qed
  have cell_new: "cell tt' k t e = stop_time ctx tt0 k e t"
    if t: "t \<in> set (iv_list ?iv)" and e: "e < n_events tt0 k" for t e
  proof -
    let ?p = "transport_pattern tt' ! t"
    have rt: "tt_route_times tt' ! k = \<lparr>rt_transports = ?iv, rt_pattern_start = P, rt_n_patterns = length rps\<rparr>"
      using prev by (simp add: routes_done_def tt'_def nth_append)
    have p: "(if length rps = 1 then 0 else ?p) = ?p" using new [OF t] by auto
    have "pattern_offsets tt' ! (P + e * length rps + ?p) = rows ! (e * length rps + ?p)"
      by (simp add: tt'_def nth_append P_def)
    also have "\<dots> = rps ! ?p ! e"
      unfolding rows_def using e new [OF t] by (simp add: nth_concat_rows)
    also have "\<dots> = delta_minus (stop_time ctx tt0 k e t) (stop_time ctx tt0 k 0 t)"
      using new [OF t] e by (simp add: event_offsets_def)
    finally have "cell tt' k t e = delta_plus (stop_time ctx tt0 k 0 t)
        (delta_minus (stop_time ctx tt0 k e t) (stop_time ctx tt0 k 0 t))"
      using new [OF t] p by (simp add: cell_def rt)
    also have "\<dots> = stop_time ctx tt0 k e t"
      by (rule delta_minus_inverse) (use ok k t e iv(4) in \<open>simp_all add: input_ok_def\<close>)
    finally show ?thesis .
  qed
  have rt_old: "tt_route_times tt' ! r = tt_route_times tt ! r" if "r < k" for r
    using prev that by (simp add: routes_done_def tt'_def nth_append)
  have rt_new: "tt_route_times tt' ! k = \<lparr>rt_transports = ?iv, rt_pattern_start = P, rt_n_patterns = length rps\<rparr>"
    using prev by (simp add: routes_done_def tt'_def nth_append)
  have lens: "length (pattern_offsets tt') = P + n_events tt0 k * length rps"
    by (simp add: tt'_def P_def len_rows)
  have "n_events tt0 k * length rps \<le> n_events tt0 k * n_route_transports tt0 k"
    using rps by (intro mult_le_mono2) (simp add: n_route_transports_def iv_size_def)
  with P(1) have size: "length (pattern_offsets tt') \<le> (\<Sum>r < Suc k. n_events tt0 r * n_route_transports tt0 r)"
    unfolding lens sum.lessThan_Suc by (rule add_mono)
  show ?thesis
    unfolding step routes_done_def
  proof (intro conjI allI impI ballI)
    show "same_input tt0 tt'" using in0 td1(1) by (simp add: same_input_def tt'_def)
    show "length (tt_route_times tt') = Suc k" using prev by (simp add: routes_done_def tt'_def)
    show "length (transport_first_dep tt') = length (transport_route tt0)"
      "length (transport_pattern tt') = length (transport_route tt0)"
      using td1 len by (simp_all add: tt'_def)
    show "length (pattern_offsets tt') \<le> (\<Sum>r < Suc k. n_events tt0 r * n_route_transports tt0 r)" by (rule size)
  next
    fix r assume "r < Suc k"
    then show "rt_pattern_start (tt_route_times tt' ! r) +
          n_events tt0 r * rt_n_patterns (tt_route_times tt' ! r) \<le> length (pattern_offsets tt')"
      using prev by (cases "r = k") (simp_all add: rt_old rt_new lens routes_done_def P_def less_Suc_eq trans_le_add1)
  next
    fix r t assume r: "r < Suc k" "t \<in> set (iv_list (route_transport_ranges tt0 ! r))"
      "rt_n_patterns (tt_route_times tt' ! r) \<noteq> 1"
    then show "transport_pattern tt' ! t < rt_n_patterns (tt_route_times tt' ! r)"
      using prev new unchanged [OF before]
      by (cases "r = k") (simp_all add: rt_old rt_new routes_done_def less_Suc_eq)
  next
    fix r t e assume "r < Suc k" "t \<in> set (iv_list (route_transport_ranges tt0 ! r))" "e < n_events tt0 r"
    then show "cell tt' r t e = stop_time ctx tt0 r e t"
      using cell_old cell_new by (cases "r = k") (simp_all add: less_Suc_eq)
  qed
qed


lemma compress_all_done:
  assumes "input_ok ctx tt" "length (transport_first_dep tt) \<le> length (transport_route tt)"
    "length (transport_pattern tt) \<le> length (transport_route tt)"
  shows "routes_done ctx (tt\<lparr>transport_first_dep := resize \<lparr>days = 0, mam = 0\<rparr> (length (transport_route tt)) (transport_first_dep tt),
                 transport_pattern := resize 0 (length (transport_route tt)) (transport_pattern tt)\<rparr>)
       (n_routes tt) (compress_stop_times ctx tt)"
proof -
  let ?tt0 = "tt\<lparr>transport_first_dep := resize \<lparr>days = 0, mam = 0\<rparr> (length (transport_route tt)) (transport_first_dep tt),
                 transport_pattern := resize 0 (length (transport_route tt)) (transport_pattern tt)\<rparr>"
  have in0: "same_input tt ?tt0" by (simp add: same_input_def)
  note reads = same_input_reads [OF in0]
  have nrt: "n_route_transports ?tt0 = n_route_transports tt" by (simp add: n_route_transports_def fun_eq_iff)
  have ok: "input_ok ctx ?tt0"
    using assms(1) unfolding input_ok_def reads nrt by simp
  have "routes_done ctx ?tt0 0 ?tt0"
    using ok by (simp add: routes_done_def same_input_def input_ok_def)
  then have "routes_done ctx ?tt0 (n_routes tt) (fold (compress_route ctx) [0..<n_routes tt] ?tt0)"
  proof (rule fold_upt_invariant)
    fix i s assume "i < n_routes tt" "routes_done ctx ?tt0 i s"
    then show "routes_done ctx ?tt0 (Suc i) (compress_route ctx i s)"
      using compress_route_done [OF ok] reads(4) by simp
  qed
  then show ?thesis by (simp add: compress_stop_times_def Let_def n_routes_def)
qed

lemma compress_event:
  assumes "input_ok ctx tt" "length (transport_first_dep tt) \<le> length (transport_route tt)"
    "length (transport_pattern tt) \<le> length (transport_route tt)"
    and "r < n_routes tt" "t \<in> set (iv_list (route_transport_ranges tt ! r))"
    and "event_idx stop_idx ev_type < n_events tt r" "transport_route tt ! t = r"
  shows "event_mam (compress_stop_times ctx tt) t stop_idx ev_type
    = stop_time ctx tt r (event_idx stop_idx ev_type) t"
proof -
  note d = compress_all_done [OF assms(1-3)]
  from d have "transport_route (compress_stop_times ctx tt) ! t = r"
    using assms(7) by (simp add: routes_done_def same_input_def)
  with d show ?thesis
    using assms(4-6) unfolding event_mam_def event_mam_r_cell
    by (simp add: routes_done_def n_events_def stop_time_def Let_def)
qed

text \<open>Compressing loses no stop time: for every route, every transport of the route
  and every event, \<open>event_mam\<close> on the compressed tables returns the time the loader put into the
  import context, for any number of shared patterns up to the 16 bit limit.\<close>

theorem compress_stop_times_lossless:
  assumes "input_ok ctx tt" "length (transport_first_dep tt) \<le> length (transport_route tt)"
    "length (transport_pattern tt) \<le> length (transport_route tt)"
    and "r < n_routes tt" "t \<in> set (iv_list (route_transport_ranges tt ! r))"
    and "event_idx stop_idx ev_type < n_events tt r" "transport_route tt ! t = r"
  shows "event_mam (compress_stop_times ctx tt) t stop_idx ev_type
    = stop_time ctx tt r (event_idx stop_idx ev_type) t"
  using assms by (rule compress_event)

text \<open>Two transports with different travel times on one route of two stops.\<close>

definition example_import :: import_context where
  "example_import = \<lparr>route_stop_times = map delta_of_minutes [600, 660, 610, 675],
     route_stop_time_ranges = [mk_iv 0 4]\<rparr>"

definition example_routes :: timetable where
  "example_routes = empty_timetable\<lparr>route_transport_ranges := [mk_iv 0 2],
     route_location_seq := [[0, 1]], transport_route := [0, 0]\<rparr>"

lemma example_input_ok: "input_ok example_import example_routes"
proof -
  have two: "set (iv_list \<lparr>ifrom = 0, ito = 2\<rparr>) = {0, 1}" by (auto simp: iv_list_def)
  have less2: "(\<forall>e < 2. P e) \<longleftrightarrow> P 0 \<and> P (Suc 0)" for P by (auto simp: numeral_2_eq_2 less_Suc_eq)
  show ?thesis
    by (simp add: input_ok_def example_import_def example_routes_def empty_timetable_def n_routes_def two
        n_route_transports_def iv_size_def mk_iv_def n_events_def stop_time_def delta_of_minutes_def
        delta_norm_def delta_minutes_def less2)
qed

theorem compress_stop_times_lossless_witness:
  "event_mam (compress_stop_times example_import example_routes) 1 1 Arr = delta_of_minutes 675"
proof -
  have "1 \<in> set (iv_list (route_transport_ranges example_routes ! 0))"
    by (simp add: example_routes_def iv_list_def mk_iv_def)
  from compress_stop_times_lossless [OF example_input_ok _ _ _ this, of 1 Arr] show ?thesis
    by (simp add: example_routes_def empty_timetable_def n_routes_def n_events_def stop_time_def
        example_import_def mk_iv_def iv_size_def numeral_3_eq_3)
qed

end


