(* ===== verification/Gtfs_Routes.thy ===== *)
theory Gtfs_Routes
  imports Gtfs_Expand Route_Order Compress
begin

text \<open>
  The end of \<open>load_timetable\<close> (\<open>src/loader/gtfs/load_timetable.cc\<close>): the key by which transports are grouped into
  routes, and writing the routes, their transports and stop times into the timetable and the import context
  (with \<open>src/loader/import_context.cc\<close>). The classes of GTFS route types are those of
  \<open>src/loader/gtfs/route.cc\<close>. Proved in \<open>Gtfs_Build\<close>: the timetable that results after compression has
  the times and traffic days of the transports, and its routes are in order.
\<close>

section \<open>Route types\<close>

text \<open>First and last type of a range with the class.\<close>

definition route_types :: "(nat \<times> nat \<times> clasz) list" where
  "route_types = [
    (0, 0, kTram), (1, 1, kSubway), (2, 2, kRegional), (3, 3, kBus), (4, 4, kShip),
    (5, 5, kFunicular), (6, 6, kAerialLift), (7, 7, kFunicular), (11, 11, kBus),
    (12, 12, kOther), (100, 100, kRegional), (101, 101, kHighSpeed), (102, 102, kLongDistance),
    (103, 103, kRegional), (104, 104, kLongDistance), (105, 105, kNight), (106, 108, kRegional),
    (109, 109, kSuburban), (110, 113, kRegional), (114, 114, kLongDistance),
    (115, 115, kRegional), (116, 116, kFunicular), (117, 117, kRegional), (200, 202, kCoach),
    (203, 204, kBus), (205, 207, kCoach), (208, 208, kBus), (209, 209, kCoach),
    (400, 402, kSubway), (403, 404, kSuburban), (405, 405, kOther), (700, 714, kBus),
    (715, 715, kODM), (716, 716, kBus), (800, 800, kBus), (900, 906, kTram), (1000, 1000, kShip),
    (1100, 1100, kAir), (1200, 1200, kShip), (1300, 1302, kAerialLift), (1303, 1303, kOther),
    (1304, 1304, kAerialLift), (1305, 1305, kOther), (1306, 1307, kAerialLift),
    (1400, 1400, kFunicular), (1500, 1507, kODM), (1551, 1551, kRideSharing),
    (1700, 1700, kOther), (1702, 1702, kOther)]"

definition to_clasz :: "nat \<Rightarrow> clasz" where
  "to_clasz route_type =
     (case find (\<lambda>(a, b, c). a \<le> route_type \<and> route_type \<le> b) route_types of
        Some (_, _, c) \<Rightarrow> c
      | None \<Rightarrow> if 1000 \<le> route_type \<and> route_type < 1100 then kShip
                else if 1100 \<le> route_type \<and> route_type < 1200 then kAir
                else if 1200 \<le> route_type \<and> route_type < 1300 then kShip
                else kOther)"

section \<open>The key of a route\<close>

text \<open>A single trip has one value per flag; several have one per section.\<close>

definition apply_flag_seq :: "trip_data \<Rightarrow> nat list \<Rightarrow> route_flag \<Rightarrow> bool list" where
  "apply_flag_seq td trips f =
     (if length trips = 1 then [gt_flags (td ! hd trips) ! route_flag_idx f]
      else concat (map (\<lambda>t. replicate (length (gt_stop_seq (td ! t)) - 1) (gt_flags (td ! t) ! route_flag_idx f)) trips))"

type_synonym route_key = "clasz \<times> nat list \<times> bool list list"

definition route_key :: "(nat \<Rightarrow> nat) \<Rightarrow> trip_data \<Rightarrow> utc_trip \<Rightarrow> route_key option" where
  "route_key route_id_type td s =
     (case get_stop_seq td s of
        None \<Rightarrow> None
      | Some stop_seq \<Rightarrow>
          (let front_trip = td ! hd (ut_trips s);
               c = (case gt_clasz front_trip of Some c \<Rightarrow> c | None \<Rightarrow> to_clasz (route_id_type (gt_route front_trip)))
           in Some (c, stop_seq, map (apply_flag_seq td (ut_trips s)) all_route_flags)))"

definition add_expanded_trip ::
    "(nat \<Rightarrow> nat) \<Rightarrow> trip_data \<Rightarrow> utc_trip \<Rightarrow> (route_key \<rightharpoonup> utc_trip list list) \<Rightarrow> (route_key \<rightharpoonup> utc_trip list list) option" where
  "add_expanded_trip route_id_type td s m =
     (case route_key route_id_type td s of
        None \<Rightarrow> None
      | Some key \<Rightarrow>
          (case m key of
             Some Rs \<Rightarrow> Some (m(key \<mapsto> add_to_routes utc_times s Rs))
           | None \<Rightarrow> Some (m(key \<mapsto> [[s]]))))"

section \<open>Writing routes\<close>

record build_state =
  bs_tt :: timetable
  bs_ctx :: import_context
  bs_bitfields :: "bitfield \<rightharpoonup> nat"
  bs_location_routes :: "nat \<Rightarrow> nat list"

definition ctx_register_bitfield :: "bitfield \<Rightarrow> build_state \<Rightarrow> nat \<times> build_state" where
  "ctx_register_bitfield b st =
     (case bs_bitfields st b of
        Some i \<Rightarrow> (i, st)
      | None \<Rightarrow> let (i, tt) = register_bitfield b (bs_tt st)
                in (i, st\<lparr>bs_tt := tt, bs_bitfields := (bs_bitfields st)(b \<mapsto> i)\<rparr>))"

definition add_transport :: "nat \<Rightarrow> nat \<Rightarrow> timetable \<Rightarrow> timetable" where
  "add_transport b r tt =
     tt\<lparr>transport_traffic_days := transport_traffic_days tt @ [b], transport_route := transport_route tt @ [r]\<rparr>"

definition write_service :: "nat \<Rightarrow> utc_trip \<Rightarrow> build_state \<Rightarrow> build_state" where
  "write_service r s st =
     (let (b, st) = ctx_register_bitfield (utc_traffic_days s) st
      in st\<lparr>bs_tt := add_transport b r (bs_tt st)\<rparr>)"

definition add_location_route :: "nat \<Rightarrow> nat \<Rightarrow> (nat \<Rightarrow> nat list) \<Rightarrow> (nat \<Rightarrow> nat list)" where
  "add_location_route r s lr =
     (let l = stop_loc (stop_of_value s)
      in if lr l = [] \<or> last (lr l) \<noteq> r then lr(l := lr l @ [r]) else lr)"

definition write_stop_times :: "nat \<Rightarrow> utc_trip list \<Rightarrow> import_context \<Rightarrow> import_context" where
  "write_stop_times n_stops services ctx =
     (let stop_times_begin = length (route_stop_times ctx);
          times = route_stop_times ctx @ concat (map (\<lambda>i.
            map (\<lambda>s. delta_of_duration (utc_times s ! (i * 2))) services @
            map (\<lambda>s. delta_of_duration (utc_times s ! ((i + 1) * 2 - 1))) services) [0..<n_stops - 1])
      in ctx\<lparr>route_stop_times := times,
             route_stop_time_ranges := route_stop_time_ranges ctx @ [mk_iv stop_times_begin (length times)]\<rparr>)"

definition write_route :: "route_key \<Rightarrow> utc_trip list \<Rightarrow> build_state \<Rightarrow> build_state" where
  "write_route key services st =
     (let (clasz, stop_seq, flags) = key;
          (r, tt) = register_route stop_seq [clasz] flags (bs_tt st);
          st = st\<lparr>bs_tt := tt, bs_location_routes := fold (add_location_route r) stop_seq (bs_location_routes st)\<rparr>;
          st = fold (write_service r) services st
      in st\<lparr>bs_tt := finish_route (bs_tt st),
            bs_ctx := write_stop_times (length stop_seq) services (bs_ctx st)\<rparr>)"

definition write_routes :: "(route_key \<times> utc_trip list list) list \<Rightarrow> build_state \<Rightarrow> build_state" where
  "write_routes routes st =
     fold (\<lambda>(key, sub_routes). fold (write_route key) sub_routes) routes st"

definition write_location_routes :: "build_state \<Rightarrow> timetable" where
  "write_location_routes st =
     (let tt = bs_tt st
      in tt\<lparr>location_routes := location_routes tt @
           map (bs_location_routes st) [length (location_routes tt)..<n_locations tt]\<rparr>)"

end
