(* ===== verification/Gtfs_Build.thy ===== *)
theory Gtfs_Build
  imports Gtfs_Routes Tb_Preprocess_Correct
begin

text \<open>
  From transports in UTC to the timetable: grouping (\<open>Route_Order\<close>), writing (\<open>Gtfs_Routes\<close>) and compression
  (\<open>Compress\<close>) composed. Proved: the event times and traffic days that the searches read are those of the transports,
  the departures of a route at a stop are in the order of the time of day (which the trip-based
  preprocessing needs), and the routes of a location are those that stop there.
\<close>

section \<open>What a part of the state keeps\<close>

definition bitfields_ok :: "build_state \<Rightarrow> bool" where
  "bitfields_ok st \<longleftrightarrow>
     (\<forall>b i. bs_bitfields st b = Some i \<longrightarrow> i < length (bitfields (bs_tt st)) \<and> bitfields (bs_tt st) ! i = b)"

text \<open>Everything but transports and bit fields.\<close>

definition same_tables :: "timetable \<Rightarrow> timetable \<Rightarrow> bool" where
  "same_tables tt tt' \<longleftrightarrow> route_location_seq tt' = route_location_seq tt \<and>
     route_transport_ranges tt' = route_transport_ranges tt \<and> tt_route_times tt' = tt_route_times tt \<and>
     pattern_offsets tt' = pattern_offsets tt \<and> transport_first_dep tt' = transport_first_dep tt \<and>
     transport_pattern tt' = transport_pattern tt \<and> location_routes tt' = location_routes tt \<and>
     loc_names tt' = loc_names tt \<and> date_range tt' = date_range tt"

definition same_but_transports :: "build_state \<Rightarrow> build_state \<Rightarrow> bool" where
  "same_but_transports st st' \<longleftrightarrow> bs_ctx st' = bs_ctx st \<and> bs_location_routes st' = bs_location_routes st \<and>
     same_tables (bs_tt st) (bs_tt st')"

lemma ctx_register_bitfield_ok:
  assumes "bitfields_ok st" "ctx_register_bitfield b st = (i, st')"
  shows "bitfields_ok st'" "i < length (bitfields (bs_tt st'))" "bitfields (bs_tt st') ! i = b"
    "\<exists>x. bitfields (bs_tt st') = bitfields (bs_tt st) @ x"
    "transport_route (bs_tt st') = transport_route (bs_tt st)"
    "transport_traffic_days (bs_tt st') = transport_traffic_days (bs_tt st)" "same_but_transports st st'"
proof -
  have "bitfields_ok st' \<and> i < length (bitfields (bs_tt st')) \<and> bitfields (bs_tt st') ! i = b \<and>
    (\<exists>x. bitfields (bs_tt st') = bitfields (bs_tt st) @ x) \<and>
    transport_route (bs_tt st') = transport_route (bs_tt st) \<and>
    transport_traffic_days (bs_tt st') = transport_traffic_days (bs_tt st) \<and> same_but_transports st st'"
  proof (cases "bs_bitfields st b")
    case None
    then have "i = length (bitfields (bs_tt st))"
      "st' = st\<lparr>bs_tt := (bs_tt st)\<lparr>bitfields := bitfields (bs_tt st) @ [b]\<rparr>, bs_bitfields := (bs_bitfields st)(b \<mapsto> i)\<rparr>"
      using assms(2) by (auto simp: ctx_register_bitfield_def register_bitfield_def)
    moreover have "bitfields_ok st'" using assms(1) calculation
      by (auto simp: bitfields_ok_def nth_append less_Suc_eq)
    ultimately show ?thesis by (simp add: same_but_transports_def same_tables_def)
  next
    case (Some j)
    then have "i = j" "st' = st" using assms(2) by (simp_all add: ctx_register_bitfield_def)
    then show ?thesis using assms(1) Some by (auto simp: bitfields_ok_def same_but_transports_def same_tables_def)
  qed
  then show "bitfields_ok st'" "i < length (bitfields (bs_tt st'))" "bitfields (bs_tt st') ! i = b"
    "\<exists>x. bitfields (bs_tt st') = bitfields (bs_tt st) @ x"
    "transport_route (bs_tt st') = transport_route (bs_tt st)"
    "transport_traffic_days (bs_tt st') = transport_traffic_days (bs_tt st)" "same_but_transports st st'" by simp_all
qed

lemma write_service_ok:
  assumes "bitfields_ok st" "st' = write_service r s st"
  shows "bitfields_ok st' \<and> same_but_transports st st' \<and>
    transport_route (bs_tt st') = transport_route (bs_tt st) @ [r] \<and>
    (\<exists>x b. bitfields (bs_tt st') = bitfields (bs_tt st) @ x \<and>
      transport_traffic_days (bs_tt st') = transport_traffic_days (bs_tt st) @ [b] \<and>
      b < length (bitfields (bs_tt st')) \<and> bitfields (bs_tt st') ! b = utc_traffic_days s)"
proof -
  obtain b st1 where st1: "ctx_register_bitfield (utc_traffic_days s) st = (b, st1)" by (metis prod.exhaust)
  note ok = ctx_register_bitfield_ok [OF assms(1) st1]
  have st': "st' = st1\<lparr>bs_tt := add_transport b r (bs_tt st1)\<rparr>"
    using assms(2) st1 by (simp add: write_service_def)
  obtain x where x: "bitfields (bs_tt st1) = bitfields (bs_tt st) @ x" using ok(4) by blast
  have "bitfields_ok st'" using ok(1) by (simp add: st' bitfields_ok_def add_transport_def)
  moreover have "same_but_transports st st'"
    using ok(7) by (simp add: st' same_but_transports_def same_tables_def add_transport_def)
  ultimately show ?thesis using ok(2,3,5,6) x by (auto simp: st' add_transport_def)
qed

text \<open>All services of a route: their transports are appended, each with the days of its service.\<close>

lemma write_services_ok:
  assumes "bitfields_ok st" "st' = fold (write_service r) ss st"
  shows "bitfields_ok st' \<and> same_but_transports st st' \<and>
    transport_route (bs_tt st') = transport_route (bs_tt st) @ replicate (length ss) r \<and>
    (\<exists>x bs. bitfields (bs_tt st') = bitfields (bs_tt st) @ x \<and> length bs = length ss \<and>
      transport_traffic_days (bs_tt st') = transport_traffic_days (bs_tt st) @ bs \<and>
      (\<forall>i < length ss. bs ! i < length (bitfields (bs_tt st')) \<and>
         bitfields (bs_tt st') ! (bs ! i) = utc_traffic_days (ss ! i)))"
  using assms(2)
proof (induction ss arbitrary: st' rule: rev_induct)
  case Nil
  then show ?case using assms(1) by (simp add: same_but_transports_def same_tables_def)
next
  case (snoc s ss)
  define st1 where "st1 = fold (write_service r) ss st"
  note ih = snoc.IH [OF st1_def]
  then obtain x bs where x: "bitfields (bs_tt st1) = bitfields (bs_tt st) @ x" "length bs = length ss"
    "transport_traffic_days (bs_tt st1) = transport_traffic_days (bs_tt st) @ bs"
    "\<forall>i < length ss. bs ! i < length (bitfields (bs_tt st1)) \<and>
       bitfields (bs_tt st1) ! (bs ! i) = utc_traffic_days (ss ! i)" by blast
  have st': "st' = write_service r s st1" using snoc.prems by (simp add: st1_def)
  have "bitfields_ok st1" using ih by blast
  note w = write_service_ok [OF this st']
  then obtain y b where y: "bitfields (bs_tt st') = bitfields (bs_tt st1) @ y"
    "transport_traffic_days (bs_tt st') = transport_traffic_days (bs_tt st1) @ [b]"
    "b < length (bitfields (bs_tt st'))" "bitfields (bs_tt st') ! b = utc_traffic_days s" by blast
  have "\<forall>i < length (ss @ [s]). (bs @ [b]) ! i < length (bitfields (bs_tt st')) \<and>
       bitfields (bs_tt st') ! ((bs @ [b]) ! i) = utc_traffic_days ((ss @ [s]) ! i)"
    using x(2,4) y by (auto simp: nth_append less_Suc_eq)
  moreover have "same_but_transports st st'"
    using ih w by (simp add: same_but_transports_def same_tables_def)
  moreover have "transport_route (bs_tt st') = transport_route (bs_tt st) @ replicate (length (ss @ [s])) r"
    using ih w by (simp add: replicate_append_same [symmetric])
  ultimately show ?case using w x y
    by (intro conjI exI [of _ "x @ y"] exI [of _ "bs @ [b]"]) auto
qed

section \<open>Stop times\<close>

lemma stop_times_rows:
  "concat (map (\<lambda>i. map (\<lambda>s. f s (i * 2)) ss @ map (\<lambda>s. f s ((i + 1) * 2 - 1)) ss) [0..<n]) =
   concat (map (\<lambda>e. map (\<lambda>p. f (ss ! p) e) [0..<length ss]) [0..<2 * n])"
proof (induction n)
  case (Suc n)
  have m: "map (\<lambda>p. f (ss ! p) e) [0..<length ss] = map (\<lambda>s. f s e) ss" for e
    by (rule nth_equalityI) simp_all
  have "[0..<2 * Suc n] = [0..<2 * n] @ [2 * n, Suc (2 * n)]" by simp
  then show ?case using Suc.IH by (simp add: m mult.commute)
qed simp

lemma write_stop_times_ok:
  assumes "ctx' = write_stop_times n ss ctx" "m = length ss"
  shows "\<exists>x. route_stop_times ctx' = route_stop_times ctx @ x"
    "route_stop_time_ranges ctx' = route_stop_time_ranges ctx @ [mk_iv (length (route_stop_times ctx)) (length (route_stop_times ctx'))]"
    "e < 2 * n - 2 \<Longrightarrow> i < m \<Longrightarrow>
       route_stop_times ctx' ! (length (route_stop_times ctx) + e * m + i) = delta_of_duration (utc_times (ss ! i) ! e)"
    "e < 2 * n - 2 \<Longrightarrow> i < m \<Longrightarrow> length (route_stop_times ctx) + e * m + i < length (route_stop_times ctx')"
proof -
  let ?f = "\<lambda>s e. delta_of_duration (utc_times s ! e)"
  let ?x = "concat (map (\<lambda>e. map (\<lambda>p. ?f (ss ! p) e) [0..<length ss]) [0..<2 * (n - 1)])"
  have c: "route_stop_times ctx' = route_stop_times ctx @ ?x"
    unfolding assms(1) write_stop_times_def Let_def using stop_times_rows [of ?f ss "n - 1"] by simp
  then show "\<exists>x. route_stop_times ctx' = route_stop_times ctx @ x" by blast
  show "route_stop_time_ranges ctx' = route_stop_time_ranges ctx @ [mk_iv (length (route_stop_times ctx)) (length (route_stop_times ctx'))]"
    unfolding assms(1) write_stop_times_def Let_def by simp
  assume e: "e < 2 * n - 2" "i < m"
  then have "e < 2 * (n - 1)" "i < length ss" using assms(2) by auto
  then show "route_stop_times ctx' ! (length (route_stop_times ctx) + e * m + i) = ?f (ss ! i) e"
    "length (route_stop_times ctx) + e * m + i < length (route_stop_times ctx')"
    using nth_concat_rows [of e "2 * (n - 1)" i "length ss" "\<lambda>e p. ?f (ss ! p) e"]
      row_index [of e "2 * (n - 1)" i "length ss"]
    unfolding c assms(2) by (simp_all add: nth_append length_concat_rows add.assoc)
qed

section \<open>Routes of a location\<close>

definition stop_locs :: "nat list \<Rightarrow> nat set" where
  "stop_locs seq = (\<lambda>s. stop_loc (stop_of_value s)) ` set seq"

lemma add_location_routes:
  assumes "\<forall>l. r \<notin> set (lr l)"
  shows "fold (add_location_route r) seq lr l = (if l \<in> stop_locs seq then lr l @ [r] else lr l)"
proof (induction seq arbitrary: l rule: rev_induct)
  case (snoc s seq)
  let ?m = "stop_loc (stop_of_value s)"
  have "lr ?m = [] \<or> last (lr ?m) \<noteq> r" using assms by (metis last_in_set)
  then show ?case using snoc.IH [of ?m] snoc.IH [of l]
    by (auto simp: add_location_route_def Let_def stop_locs_def)
qed (simp add: stop_locs_def)

section \<open>One route\<close>

text \<open>Route \<open>r\<close> has stop sequence \<open>seq\<close> and the transports and stop times of the services \<open>ss\<close>.\<close>

definition transport_written :: "timetable \<Rightarrow> nat \<Rightarrow> nat \<Rightarrow> utc_trip \<Rightarrow> bool" where
  "transport_written tt r t s \<longleftrightarrow> t < length (transport_route tt) \<and> transport_route tt ! t = r \<and>
     transport_traffic_days tt ! t < length (bitfields tt) \<and>
     bitfields tt ! (transport_traffic_days tt ! t) = utc_traffic_days s"

definition route_written :: "build_state \<Rightarrow> nat \<Rightarrow> nat list \<Rightarrow> utc_trip list \<Rightarrow> bool" where
  "route_written st r seq ss \<longleftrightarrow>
     (let tt = bs_tt st; ctx = bs_ctx st; iv = route_transport_ranges tt ! r;
          p = ifrom (route_stop_time_ranges ctx ! r); n = length ss
      in route_location_seq tt ! r = seq \<and> ito iv = ifrom iv + n \<and> ito iv \<le> length (transport_route tt) \<and>
         (\<forall>i < n. transport_written tt r (ifrom iv + i) (ss ! i)) \<and>
         (\<forall>e < 2 * length seq - 2. \<forall>i < n. p + e * n + i < length (route_stop_times ctx) \<and>
            route_stop_times ctx ! (p + e * n + i) = delta_of_duration (utc_times (ss ! i) ! e)))"

text \<open>A later state that only appended.\<close>

definition appended :: "build_state \<Rightarrow> build_state \<Rightarrow> bool" where
  "appended st st' \<longleftrightarrow>
     (\<exists>x. route_location_seq (bs_tt st') = route_location_seq (bs_tt st) @ x) \<and>
     (\<exists>x. route_transport_ranges (bs_tt st') = route_transport_ranges (bs_tt st) @ x) \<and>
     (\<exists>x. transport_route (bs_tt st') = transport_route (bs_tt st) @ x) \<and>
     (\<exists>x. transport_traffic_days (bs_tt st') = transport_traffic_days (bs_tt st) @ x) \<and>
     (\<exists>x. bitfields (bs_tt st') = bitfields (bs_tt st) @ x) \<and>
     (\<exists>x. route_stop_times (bs_ctx st') = route_stop_times (bs_ctx st) @ x) \<and>
     (\<exists>x. route_stop_time_ranges (bs_ctx st') = route_stop_time_ranges (bs_ctx st) @ x)"

lemma route_written_appended:
  assumes "route_written st r seq ss" "appended st st'" "r < n_routes (bs_tt st)"
    and "length (route_transport_ranges (bs_tt st)) = n_routes (bs_tt st)"
    and "length (route_stop_time_ranges (bs_ctx st)) = n_routes (bs_tt st)"
    and "length (transport_traffic_days (bs_tt st)) = length (transport_route (bs_tt st))"
  shows "route_written st' r seq ss"
proof -
  have same: "route_location_seq (bs_tt st') ! r = route_location_seq (bs_tt st) ! r"
    "route_transport_ranges (bs_tt st') ! r = route_transport_ranges (bs_tt st) ! r"
    "route_stop_time_ranges (bs_ctx st') ! r = route_stop_time_ranges (bs_ctx st) ! r"
    "length (transport_route (bs_tt st)) \<le> length (transport_route (bs_tt st'))"
    using assms(2-5) by (auto simp: appended_def nth_append n_routes_def)
  have t: "transport_written (bs_tt st') r t s" if "transport_written (bs_tt st) r t s" for t s
    using that assms(2,6) by (auto simp: appended_def transport_written_def nth_append)
  obtain x where "route_stop_times (bs_ctx st') = route_stop_times (bs_ctx st) @ x"
    using assms(2) by (auto simp: appended_def)
  then have st: "i < length (route_stop_times (bs_ctx st)) \<Longrightarrow> i < length (route_stop_times (bs_ctx st')) \<and>
      route_stop_times (bs_ctx st') ! i = route_stop_times (bs_ctx st) ! i" for i
    by (simp add: nth_append)
  show ?thesis using assms(1) same(4) t st unfolding route_written_def Let_def same(1-3) by fastforce
qed

definition written :: "(nat list \<times> utc_trip list) list \<Rightarrow> build_state \<Rightarrow> bool" where
  "written rs st \<longleftrightarrow>
     (let tt = bs_tt st; ctx = bs_ctx st; n = length rs
      in n_routes tt = n \<and> length (route_transport_ranges tt) = n \<and> length (route_stop_time_ranges ctx) = n \<and>
         length (transport_traffic_days tt) = length (transport_route tt) \<and> bitfields_ok st \<and>
         (\<forall>r < n. route_written st r (fst (rs ! r)) (snd (rs ! r))) \<and>
         (\<forall>r < n. \<forall>q < r. ito (route_transport_ranges tt ! q) \<le> ifrom (route_transport_ranges tt ! r)) \<and>
         (\<forall>l r. r \<in> set (bs_location_routes st l) \<longleftrightarrow> r < n \<and> l \<in> stop_locs (fst (rs ! r))))"

text \<open>The tables that are filled later.\<close>

definition later_tables :: "timetable \<Rightarrow> timetable \<Rightarrow> bool" where
  "later_tables tt tt' \<longleftrightarrow> tt_route_times tt' = tt_route_times tt \<and> pattern_offsets tt' = pattern_offsets tt \<and>
     transport_first_dep tt' = transport_first_dep tt \<and> transport_pattern tt' = transport_pattern tt \<and>
     location_routes tt' = location_routes tt \<and> loc_names tt' = loc_names tt \<and> date_range tt' = date_range tt"

lemma apply_filters_tables:
  assumes "tt' = fold (apply_filter idx fps) fs tt"
  shows "same_tables tt tt' \<and> transport_traffic_days tt' = transport_traffic_days tt \<and>
    transport_route tt' = transport_route tt \<and> bitfields tt' = bitfields tt"
  unfolding assms
  by (rule fold_relation [where R = "\<lambda>tt tt'. same_tables tt tt' \<and>
      transport_traffic_days tt' = transport_traffic_days tt \<and>
      transport_route tt' = transport_route tt \<and> bitfields tt' = bitfields tt"])
    (simp_all add: same_tables_def apply_filter_def Let_def)

lemma register_route_tables:
  assumes "register_route seq cs fps tt = (r, tt')"
  shows "r = n_routes tt \<and> route_location_seq tt' = route_location_seq tt @ [seq] \<and>
    route_transport_ranges tt' = route_transport_ranges tt @ [mk_iv (length (transport_traffic_days tt)) kInvalidTransport] \<and>
    later_tables tt tt' \<and> transport_traffic_days tt' = transport_traffic_days tt \<and>
    transport_route tt' = transport_route tt \<and> bitfields tt' = bitfields tt"
proof -
  let ?t = "tt\<lparr>route_transport_ranges := route_transport_ranges tt @
                   [mk_iv (length (transport_traffic_days tt)) kInvalidTransport],
                 route_location_seq := route_location_seq tt @ [seq],
                 route_section_clasz := route_section_clasz tt @ [cs],
                 route_clasz := route_clasz tt @ [cs ! 0]\<rparr>"
  have r: "r = n_routes tt" and t: "tt' = fold (apply_filter (n_routes tt) fps) all_route_flags ?t"
    using assms by (auto simp: register_route_def Let_def n_routes_def)
  from apply_filters_tables [OF t] r show ?thesis by (simp add: same_tables_def later_tables_def)
qed

lemma write_route_ok:
  assumes W: "written rs st" and st': "st' = write_route (c, seq, flags) ss st"
  shows "written (rs @ [(seq, ss)]) st' \<and> later_tables (bs_tt st) (bs_tt st')"
proof -
  define M where "M = length (transport_route (bs_tt st))"
  let ?n = "length ss" and ?r = "length rs" and ?T = "length (route_stop_times (bs_ctx st))"
  have w: "n_routes (bs_tt st) = ?r" "length (route_transport_ranges (bs_tt st)) = ?r"
    "length (route_stop_time_ranges (bs_ctx st)) = ?r" "length (transport_traffic_days (bs_tt st)) = M"
    "bitfields_ok st" "\<forall>r < ?r. route_written st r (fst (rs ! r)) (snd (rs ! r))"
    "\<forall>r < ?r. \<forall>q < r. ito (route_transport_ranges (bs_tt st) ! q) \<le> ifrom (route_transport_ranges (bs_tt st) ! r)"
    "\<forall>l r. r \<in> set (bs_location_routes st l) \<longleftrightarrow> r < ?r \<and> l \<in> stop_locs (fst (rs ! r))"
    using W by (simp_all add: written_def Let_def M_def)
  obtain r tt1 where reg: "register_route seq [c] flags (bs_tt st) = (r, tt1)" by (metis prod.exhaust)
  note R = register_route_tables [OF reg]
  have r: "r = ?r" using R w(1) by simp
  define st1 where "st1 = st\<lparr>bs_tt := tt1, bs_location_routes := fold (add_location_route ?r) seq (bs_location_routes st)\<rparr>"
  define st2 where "st2 = fold (write_service ?r) ss st1"
  have e: "st' = st2\<lparr>bs_tt := finish_route (bs_tt st2), bs_ctx := write_stop_times (length seq) ss (bs_ctx st2)\<rparr>"
    using st' reg r by (simp add: write_route_def Let_def st1_def st2_def)
  have b1: "bitfields_ok st1" using w(5) R by (simp add: bitfields_ok_def st1_def)
  note S = write_services_ok [OF b1 st2_def]
  then obtain x bs where x: "bitfields (bs_tt st2) = bitfields (bs_tt st1) @ x" "length bs = ?n"
    "transport_traffic_days (bs_tt st2) = transport_traffic_days (bs_tt st1) @ bs"
    "\<forall>i < ?n. bs ! i < length (bitfields (bs_tt st2)) \<and> bitfields (bs_tt st2) ! (bs ! i) = utc_traffic_days (ss ! i)"
    by blast
  have tr: "transport_route (bs_tt st') = transport_route (bs_tt st) @ replicate ?n ?r"
    and td: "transport_traffic_days (bs_tt st') = transport_traffic_days (bs_tt st) @ bs"
    and bf: "bitfields (bs_tt st') = bitfields (bs_tt st) @ x"
    and rl: "route_location_seq (bs_tt st') = route_location_seq (bs_tt st) @ [seq]"
    and ctx: "bs_ctx st' = write_stop_times (length seq) ss (bs_ctx st)"
    and lt: "later_tables (bs_tt st) (bs_tt st')"
    using S x R by (auto simp: e finish_route_def st1_def same_but_transports_def same_tables_def later_tables_def)
  have rg: "route_transport_ranges (bs_tt st') = route_transport_ranges (bs_tt st) @ [mk_iv M (M + ?n)]"
    using S x R w(4) by (simp add: e finish_route_def st1_def same_but_transports_def same_tables_def mk_iv_def)
  have lr: "bs_location_routes st' l = (if l \<in> stop_locs seq then bs_location_routes st l @ [?r] else bs_location_routes st l)" for l
    using S add_location_routes [of ?r "bs_location_routes st" seq l] w(8)
    by (simp add: e st1_def same_but_transports_def)
  note T = write_stop_times_ok [OF ctx refl]
  have ap: "appended st st'"
    unfolding appended_def using tr td bf rl rg T(1,2) by auto
  have new: "route_written st' ?r seq ss"
    unfolding route_written_def Let_def
  proof (intro conjI allI impI)
    show "route_location_seq (bs_tt st') ! ?r = seq" using rl w(1) by (simp add: n_routes_def nth_append)
    have iv: "route_transport_ranges (bs_tt st') ! ?r = mk_iv M (M + ?n)" using rg w(2) by (simp add: nth_append)
    then show "ito (route_transport_ranges (bs_tt st') ! ?r) = ifrom (route_transport_ranges (bs_tt st') ! ?r) + ?n" by simp
    show "ito (route_transport_ranges (bs_tt st') ! ?r) \<le> length (transport_route (bs_tt st'))" using iv tr by (simp add: M_def)
    have p: "ifrom (route_stop_time_ranges (bs_ctx st') ! ?r) = ?T" using T(2) w(3) by (simp add: nth_append)
    fix i assume i: "i < ?n"
    have "bitfields (bs_tt st') = bitfields (bs_tt st2)" by (simp add: e finish_route_def)
    then show "transport_written (bs_tt st') ?r (ifrom (route_transport_ranges (bs_tt st') ! ?r) + i) (ss ! i)"
      using i tr td x(2,4) w(4) unfolding transport_written_def iv by (simp add: nth_append M_def)
    fix e assume "e < 2 * length seq - 2"
    then show "ifrom (route_stop_time_ranges (bs_ctx st') ! ?r) + e * ?n + i < length (route_stop_times (bs_ctx st'))"
      "route_stop_times (bs_ctx st') ! (ifrom (route_stop_time_ranges (bs_ctx st') ! ?r) + e * ?n + i) =
        delta_of_duration (utc_times (ss ! i) ! e)"
      using T(3,4) i p by auto
  qed
  have old: "route_written st' q (fst (rs ! q)) (snd (rs ! q))" if "q < ?r" for q
    by (rule route_written_appended [OF _ ap]) (use w that in \<open>simp_all add: M_def\<close>)
  have le: "ito (route_transport_ranges (bs_tt st) ! q) \<le> M" if "q < ?r" for q
    using w(6) that unfolding route_written_def Let_def M_def by blast
  have "written (rs @ [(seq, ss)]) st'"
    unfolding written_def Let_def
  proof (intro conjI)
    show "n_routes (bs_tt st') = length (rs @ [(seq, ss)])" using rl w(1) by (simp add: n_routes_def)
    show "length (route_transport_ranges (bs_tt st')) = length (rs @ [(seq, ss)])" using rg w(2) by simp
    show "length (route_stop_time_ranges (bs_ctx st')) = length (rs @ [(seq, ss)])" using T(2) w(3) by simp
    show "length (transport_traffic_days (bs_tt st')) = length (transport_route (bs_tt st'))"
      using tr td x(2) w(4) by (simp add: M_def)
    show "bitfields_ok st'" using S by (simp add: e bitfields_ok_def finish_route_def)
    show "\<forall>r < length (rs @ [(seq, ss)]). route_written st' r (fst ((rs @ [(seq, ss)]) ! r)) (snd ((rs @ [(seq, ss)]) ! r))"
      using new old by (auto simp: nth_append less_Suc_eq)
    show "\<forall>r < length (rs @ [(seq, ss)]). \<forall>q < r.
        ito (route_transport_ranges (bs_tt st') ! q) \<le> ifrom (route_transport_ranges (bs_tt st') ! r)"
      using rg w(2,7) le by (auto simp: nth_append less_Suc_eq)
    show "\<forall>l r. r \<in> set (bs_location_routes st' l) \<longleftrightarrow>
        r < length (rs @ [(seq, ss)]) \<and> l \<in> stop_locs (fst ((rs @ [(seq, ss)]) ! r))"
      using lr w(8) by (auto simp: nth_append less_Suc_eq)
  qed
  with lt show ?thesis by simp
qed

section \<open>All routes\<close>

definition route_list :: "(route_key \<times> utc_trip list list) list \<Rightarrow> (nat list \<times> utc_trip list) list" where
  "route_list routes = concat (map (\<lambda>(key, Rs). map (\<lambda>R. (fst (snd key), R)) Rs) routes)"

lemma later_tables_trans: "later_tables a b \<Longrightarrow> later_tables b c \<Longrightarrow> later_tables a c"
  by (simp add: later_tables_def)

lemma write_sub_routes_ok:
  assumes "written rs st" "st' = fold (write_route key) Rs st"
  shows "written (rs @ map (\<lambda>R. (fst (snd key), R)) Rs) st' \<and> later_tables (bs_tt st) (bs_tt st')"
  using assms
proof (induction Rs arbitrary: rs st)
  case (Cons R Rs)
  obtain c seq flags where k: "key = (c, seq, flags)" by (cases key)
  have s: "written (rs @ [(seq, R)]) (write_route key R st)" "later_tables (bs_tt st) (bs_tt (write_route key R st))"
    using write_route_ok [OF Cons.prems(1) refl, where c = c and seq = seq and flags = flags and ss = R] by (simp_all add: k)
  have "st' = fold (write_route key) Rs (write_route key R st)" using Cons.prems(2) by simp
  from Cons.IH [OF s(1) this] later_tables_trans [OF s(2)] show ?case by (simp add: k)
qed (simp add: later_tables_def)

lemma write_routes_ok:
  assumes "written rs st" "st' = write_routes routes st"
  shows "written (rs @ route_list routes) st' \<and> later_tables (bs_tt st) (bs_tt st')"
  using assms unfolding write_routes_def
proof (induction routes arbitrary: rs st)
  case (Cons x routes)
  obtain key Rs where x: "x = (key, Rs)" by (cases x)
  note s = write_sub_routes_ok [OF Cons.prems(1) refl, where key = key and Rs = Rs]
  have "st' = fold (\<lambda>(key, sub_routes). fold (write_route key) sub_routes) routes (fold (write_route key) Rs st)"
    using Cons.prems(2) x by simp
  from Cons.IH [OF conjunct1 [OF s] this] later_tables_trans [OF conjunct2 [OF s]] show ?case
    by (simp add: x route_list_def)
qed (simp add: route_list_def later_tables_def)

section \<open>Times of day\<close>

lemma delta_of_time:
  assumes "0 \<le> t" "t < 32768"
  shows "delta_norm (delta_of_duration t)" "delta_minutes (delta_of_duration t) = t"
    "mam (delta_of_duration t) = time_of_day t"
proof -
  have m: "0 \<le> t div 1440" "t div 1440 < 32" "0 \<le> t mod 1440" "t mod 1440 < 1440"
    using assms by (simp_all add: pos_imp_zdiv_nonneg_iff)
  have "delta_of_duration t = \<lparr>days = t div 1440, mam = t mod 1440\<rparr>"
    using assms m by (simp add: delta_of_duration_def)
  with m assms show "delta_norm (delta_of_duration t)" "delta_minutes (delta_of_duration t) = t"
    "mam (delta_of_duration t) = time_of_day t"
    by (simp_all add: delta_norm_def delta_minutes_def time_of_day_def)
qed

text \<open>The transports of the routes have as many times as the stop sequence has events, in order.\<close>

definition services_ok :: "(nat list \<times> utc_trip list) list \<Rightarrow> bool" where
  "services_ok rs \<longleftrightarrow>
     (\<forall>(seq, ss) \<in> set rs. length ss < 65536 \<and> 2 \<le> length seq \<and>
        (\<forall>s \<in> set ss. times_ok (2 * length seq - 2) (utc_times s) \<and> sorted (utc_times s))) \<and>
     (\<Sum>(seq, ss) \<leftarrow> rs. (2 * length seq - 2) * length ss) < 2 ^ 32"

text \<open>No route has been compressed yet.\<close>

definition nothing_compressed :: "timetable \<Rightarrow> bool" where
  "nothing_compressed tt \<longleftrightarrow> tt_route_times tt = [] \<and> pattern_offsets tt = [] \<and>
     transport_first_dep tt = [] \<and> transport_pattern tt = []"

lemma services_okD:
  assumes "services_ok rs" "r < length rs"
  shows "length (snd (rs ! r)) < 65536" "2 \<le> length (fst (rs ! r))"
    "i < length (snd (rs ! r)) \<Longrightarrow> times_ok (2 * length (fst (rs ! r)) - 2) (utc_times (snd (rs ! r) ! i))"
    "i < length (snd (rs ! r)) \<Longrightarrow> sorted (utc_times (snd (rs ! r) ! i))"
proof -
  have m: "rs ! r \<in> set rs" using assms(2) by simp
  have "length (snd (rs ! r)) < 65536 \<and> 2 \<le> length (fst (rs ! r)) \<and>
      (\<forall>s \<in> set (snd (rs ! r)). times_ok (2 * length (fst (rs ! r)) - 2) (utc_times s) \<and> sorted (utc_times s))"
    using assms(1) m unfolding services_ok_def by (auto simp: case_prod_unfold)
  then show "length (snd (rs ! r)) < 65536" "2 \<le> length (fst (rs ! r))"
    "i < length (snd (rs ! r)) \<Longrightarrow> times_ok (2 * length (fst (rs ! r)) - 2) (utc_times (snd (rs ! r) ! i))"
    "i < length (snd (rs ! r)) \<Longrightarrow> sorted (utc_times (snd (rs ! r) ! i))" by auto
qed

lemma write_location_routes_tables:
  "route_transport_ranges (write_location_routes st) = route_transport_ranges (bs_tt st)"
  "route_location_seq (write_location_routes st) = route_location_seq (bs_tt st)"
  "transport_route (write_location_routes st) = transport_route (bs_tt st)"
  "transport_traffic_days (write_location_routes st) = transport_traffic_days (bs_tt st)"
  "bitfields (write_location_routes st) = bitfields (bs_tt st)"
  "n_routes (write_location_routes st) = n_routes (bs_tt st)"
  by (simp_all add: write_location_routes_def Let_def n_routes_def)

lemma written_route:
  assumes "written rs st" "r < length rs"
  shows "route_location_seq (bs_tt st) ! r = fst (rs ! r)"
    "n_events (write_location_routes st) r = 2 * length (fst (rs ! r)) - 2"
    "iv_size (route_transport_ranges (bs_tt st) ! r) = length (snd (rs ! r))"
    "t \<in> set (iv_list (route_transport_ranges (bs_tt st) ! r)) \<Longrightarrow>
       \<exists>i < length (snd (rs ! r)). t = ifrom (route_transport_ranges (bs_tt st) ! r) + i"
    "i < length (snd (rs ! r)) \<Longrightarrow>
       transport_written (bs_tt st) r (ifrom (route_transport_ranges (bs_tt st) ! r) + i) (snd (rs ! r) ! i)"
    "i < length (snd (rs ! r)) \<Longrightarrow> e < 2 * length (fst (rs ! r)) - 2 \<Longrightarrow>
       stop_time (bs_ctx st) (write_location_routes st) r e (ifrom (route_transport_ranges (bs_tt st) ! r) + i) =
         delta_of_duration (utc_times (snd (rs ! r) ! i) ! e)"
proof -
  have w: "route_written st r (fst (rs ! r)) (snd (rs ! r))"
    using assms by (simp add: written_def Let_def)
  then have iv: "ito (route_transport_ranges (bs_tt st) ! r) =
      ifrom (route_transport_ranges (bs_tt st) ! r) + length (snd (rs ! r))"
    by (simp add: route_written_def Let_def)
  then show size: "iv_size (route_transport_ranges (bs_tt st) ! r) = length (snd (rs ! r))"
    by (simp add: iv_size_def)
  show "route_location_seq (bs_tt st) ! r = fst (rs ! r)" using w by (simp add: route_written_def Let_def)
  then show "n_events (write_location_routes st) r = 2 * length (fst (rs ! r)) - 2"
    by (simp add: n_events_def write_location_routes_tables mult.commute)
  show "i < length (snd (rs ! r)) \<Longrightarrow>
       transport_written (bs_tt st) r (ifrom (route_transport_ranges (bs_tt st) ! r) + i) (snd (rs ! r) ! i)"
    using w by (simp add: route_written_def Let_def)
  show "i < length (snd (rs ! r)) \<Longrightarrow> e < 2 * length (fst (rs ! r)) - 2 \<Longrightarrow>
       stop_time (bs_ctx st) (write_location_routes st) r e (ifrom (route_transport_ranges (bs_tt st) ! r) + i) =
         delta_of_duration (utc_times (snd (rs ! r) ! i) ! e)"
    using w by (simp add: route_written_def Let_def stop_time_def write_location_routes_tables size)
  assume "t \<in> set (iv_list (route_transport_ranges (bs_tt st) ! r))"
  then have "ifrom (route_transport_ranges (bs_tt st) ! r) \<le> t"
    "t - ifrom (route_transport_ranges (bs_tt st) ! r) < length (snd (rs ! r))"
    using iv by (auto simp: iv_list_def)
  then show "\<exists>i < length (snd (rs ! r)). t = ifrom (route_transport_ranges (bs_tt st) ! r) + i"
    by (intro exI [of _ "t - ifrom (route_transport_ranges (bs_tt st) ! r)"]) simp
qed

lemma sum_list_map_nth: "(\<Sum>r < length xs. f (xs ! r)) = sum_list (map f (xs :: 'a list)) " for f :: "'a \<Rightarrow> nat"
  by (simp add: sum_list_sum_nth atLeast0LessThan)

lemma written_input_ok:
  assumes W: "written rs st" and ok: "services_ok rs" and z: "nothing_compressed (bs_tt st)"
  shows "input_ok (bs_ctx st) (write_location_routes st)"
  unfolding input_ok_def
proof (intro conjI)
  let ?tt = "write_location_routes st"
  note tab = write_location_routes_tables [of st]
  have n: "n_routes ?tt = length rs" using W by (simp add: tab written_def Let_def)
  show "tt_route_times ?tt = []" "pattern_offsets ?tt = []"
    using z by (simp_all add: write_location_routes_def Let_def nothing_compressed_def)
  have size: "n_route_transports ?tt r = length (snd (rs ! r))" if "r < length rs" for r
    using written_route(3) [OF W that] by (simp add: n_route_transports_def tab)
  show "\<forall>r < n_routes ?tt. ifrom (route_transport_ranges ?tt ! r) \<le> ito (route_transport_ranges ?tt ! r) \<and>
      ito (route_transport_ranges ?tt ! r) \<le> length (transport_route ?tt) \<and>
      n_route_transports ?tt r < 65536 \<and> 0 < n_events ?tt r"
  proof (intro allI impI)
    fix r assume "r < n_routes ?tt"
    then have r: "r < length rs" using n by simp
    have "route_written st r (fst (rs ! r)) (snd (rs ! r))" using W r by (simp add: written_def Let_def)
    then show "ifrom (route_transport_ranges ?tt ! r) \<le> ito (route_transport_ranges ?tt ! r) \<and>
      ito (route_transport_ranges ?tt ! r) \<le> length (transport_route ?tt) \<and>
      n_route_transports ?tt r < 65536 \<and> 0 < n_events ?tt r"
      using size [OF r] services_okD(1,2) [OF ok r] written_route(2) [OF W r]
      unfolding route_written_def Let_def tab by auto
  qed
  show "\<forall>r < n_routes ?tt. \<forall>q < r. ito (route_transport_ranges ?tt ! q) \<le> ifrom (route_transport_ranges ?tt ! r)"
    using W by (simp add: tab written_def Let_def)
  show "\<forall>r < n_routes ?tt. \<forall>t \<in> set (iv_list (route_transport_ranges ?tt ! r)). \<forall>e < n_events ?tt r.
      delta_norm (stop_time (bs_ctx st) ?tt r e t) \<and>
      delta_minutes (stop_time (bs_ctx st) ?tt r 0 t) \<le> delta_minutes (stop_time (bs_ctx st) ?tt r e t)"
  proof (intro allI impI ballI)
    fix r t e assume "r < n_routes ?tt" and t: "t \<in> set (iv_list (route_transport_ranges ?tt ! r))" and e: "e < n_events ?tt r"
    then have r: "r < length rs" using n by simp
    have e': "e < 2 * length (fst (rs ! r)) - 2" "0 < 2 * length (fst (rs ! r)) - 2"
      using e written_route(2) [OF W r] by auto
    obtain i where i: "i < length (snd (rs ! r))" "t = ifrom (route_transport_ranges (bs_tt st) ! r) + i"
      using written_route(4) [OF W r] t by (auto simp: tab)
    let ?ts = "utc_times (snd (rs ! r) ! i)"
    have ts: "times_ok (2 * length (fst (rs ! r)) - 2) ?ts" "sorted ?ts" using services_okD(3,4) [OF ok r i(1)] by simp_all
    have "?ts ! 0 \<le> ?ts ! e" by (rule sorted_nth_mono [OF ts(2)]) (use e' times_okD(1) [OF ts(1)] in auto)
    then show "delta_norm (stop_time (bs_ctx st) ?tt r e t) \<and>
        delta_minutes (stop_time (bs_ctx st) ?tt r 0 t) \<le> delta_minutes (stop_time (bs_ctx st) ?tt r e t)"
      using written_route(6) [OF W r i(1)] e' times_okD(4) [OF ts(1)] unfolding i(2)
      by (simp add: delta_of_time)
  qed
  have "(\<Sum>r < n_routes ?tt. n_events ?tt r * n_route_transports ?tt r) =
      (\<Sum>r < length rs. (\<lambda>(seq, ss). (2 * length seq - 2) * length ss) (rs ! r))"
    unfolding n by (intro sum.cong) (simp_all add: size written_route(2) [OF W] case_prod_unfold)
  then show "(\<Sum>r < n_routes ?tt. n_events ?tt r * n_route_transports ?tt r) < 2 ^ 32"
    using ok unfolding sum_list_map_nth services_ok_def by simp
qed

text \<open>Compression leaves the transports and their days alone.\<close>

lemma compress_keeps:
  assumes "tt' = compress_stop_times ctx tt"
  shows "route_location_seq tt' = route_location_seq tt" "transport_traffic_days tt' = transport_traffic_days tt"
    "bitfields tt' = bitfields tt" "transport_route tt' = transport_route tt" "location_routes tt' = location_routes tt"
proof -
  define g where "g = (\<lambda>tt :: timetable. (route_location_seq tt, transport_traffic_days tt, bitfields tt, transport_route tt, location_routes tt))"
  have t: "g (fst (compress_transport ctx r t s)) = g (fst s)" for r t s
    by (cases s) (simp add: g_def compress_transport_def Let_def split: prod.splits)
  have "g (fst (fold (compress_transport ctx r) ts s)) = g (fst s)" for r ts s
    by (rule fold_keeps [where g = "\<lambda>s. g (fst s)"]) (rule t)
  then have r: "g (compress_route ctx r tt) = g tt" for r tt
    by (simp add: g_def compress_route_def Let_def case_prod_unfold)
  have "g tt' = g (tt\<lparr>transport_first_dep := resize \<lparr>days = 0, mam = 0\<rparr> (length (transport_route tt)) (transport_first_dep tt),
                 transport_pattern := resize 0 (length (transport_route tt)) (transport_pattern tt)\<rparr>)"
    unfolding assms compress_stop_times_def Let_def by (rule fold_keeps) (rule r)
  then show "route_location_seq tt' = route_location_seq tt" "transport_traffic_days tt' = transport_traffic_days tt"
    "bitfields tt' = bitfields tt" "transport_route tt' = transport_route tt" "location_routes tt' = location_routes tt"
    by (simp_all add: g_def)
qed

lemma written_times:
  assumes W: "written rs st" and ok: "services_ok rs" and z: "nothing_compressed (bs_tt st)"
    and tt: "tt = compress_stop_times (bs_ctx st) (write_location_routes st)"
    and r: "r < length rs" and i: "i < length (snd (rs ! r))" and t: "t = ifrom (route_transport_ranges (bs_tt st) ! r) + i"
  shows "event_idx j ev < 2 * length (fst (rs ! r)) - 2 \<Longrightarrow>
      event_mam tt t j ev = delta_of_duration (utc_times (snd (rs ! r) ! i) ! event_idx j ev)"
    "is_transport_active tt t d \<longleftrightarrow> bit (utc_traffic_days (snd (rs ! r) ! i)) d" "transport_route tt ! t = r"
proof -
  let ?tt = "write_location_routes st"
  note tab = write_location_routes_tables [of st]
  have n: "r < n_routes ?tt" using W r by (simp add: tab written_def Let_def)
  have tw: "transport_written (bs_tt st) r t (snd (rs ! r) ! i)" unfolding t by (rule written_route(5) [OF W r i])
  have mem: "t \<in> set (iv_list (route_transport_ranges ?tt ! r))"
    using written_route(3) [OF W r] i unfolding t by (auto simp: tab iv_list_def iv_size_def)
  have e: "length (transport_first_dep ?tt) \<le> length (transport_route ?tt)"
    "length (transport_pattern ?tt) \<le> length (transport_route ?tt)"
    using z by (simp_all add: write_location_routes_def Let_def nothing_compressed_def)
  have tr: "transport_route ?tt ! t = r" using tw by (simp add: tab transport_written_def)
  show "transport_route tt ! t = r" using tr compress_keeps(4) [OF tt] by simp
  show "is_transport_active tt t d \<longleftrightarrow> bit (utc_traffic_days (snd (rs ! r) ! i)) d"
    using tw compress_keeps(2,3) [OF tt] by (simp add: is_transport_active_def tab transport_written_def)
  assume ev: "event_idx j ev < 2 * length (fst (rs ! r)) - 2"
  have "event_mam tt t j ev = stop_time (bs_ctx st) ?tt r (event_idx j ev) t"
    unfolding tt
    by (rule compress_event [OF written_input_ok [OF W ok z] e n mem _ tr])
      (use ev written_route(2) [OF W r] in simp)
  then show "event_mam tt t j ev = delta_of_duration (utc_times (snd (rs ! r) ! i) ! event_idx j ev)"
    using written_route(6) [OF W r i ev] t by simp
qed

section \<open>The order of departures\<close>

lemma compress_transport_keeps:
  "tt_route_times (fst (compress_transport ctx r t s)) = tt_route_times (fst s)"
  "route_transport_ranges (fst (compress_transport ctx r t s)) = route_transport_ranges (fst s)"
  by (cases s; simp add: compress_transport_def Let_def split: prod.splits)+

lemma compress_route_transports:
  "tt_route_times (compress_route ctx r tt) ! length (tt_route_times tt) = x \<Longrightarrow>
     rt_transports x = route_transport_ranges tt ! r"
  "take (length (tt_route_times tt)) (tt_route_times (compress_route ctx r tt)) = tt_route_times tt"
  "length (tt_route_times (compress_route ctx r tt)) = Suc (length (tt_route_times tt))"
  "route_transport_ranges (compress_route ctx r tt) = route_transport_ranges tt"
proof -
  have "tt_route_times (fst (fold (compress_transport ctx r) ts s)) = tt_route_times (fst s)" for ts s
    by (rule fold_keeps [where g = "\<lambda>s. tt_route_times (fst s)"]) (rule compress_transport_keeps)
  moreover have "route_transport_ranges (fst (fold (compress_transport ctx r) ts s)) = route_transport_ranges (fst s)" for ts s
    by (rule fold_keeps [where g = "\<lambda>s. route_transport_ranges (fst s)"]) (rule compress_transport_keeps)
  ultimately show "tt_route_times (compress_route ctx r tt) ! length (tt_route_times tt) = x \<Longrightarrow>
     rt_transports x = route_transport_ranges tt ! r"
    "take (length (tt_route_times tt)) (tt_route_times (compress_route ctx r tt)) = tt_route_times tt"
    "length (tt_route_times (compress_route ctx r tt)) = Suc (length (tt_route_times tt))"
    "route_transport_ranges (compress_route ctx r tt) = route_transport_ranges tt"
    by (auto simp: compress_route_def Let_def case_prod_unfold)
qed

lemma compressed_transports:
  fixes tt0 tt :: timetable
  assumes "tt_route_times tt0 = []" "tt = fold (compress_route ctx) [0..<n] tt0"
  shows "length (tt_route_times tt) = n \<and> route_transport_ranges tt = route_transport_ranges tt0 \<and>
    (\<forall>r < n. rt_transports (tt_route_times tt ! r) = route_transport_ranges tt0 ! r)"
  unfolding assms(2)
proof (rule fold_upt_invariant)
  fix i and s :: timetable
  assume i: "i < n" and P: "length (tt_route_times s) = i \<and> route_transport_ranges s = route_transport_ranges tt0 \<and>
    (\<forall>r < i. rt_transports (tt_route_times s ! r) = route_transport_ranges tt0 ! r)"
  note C = compress_route_transports [where ctx = ctx and r = i and tt = s]
  have "tt_route_times (compress_route ctx i s) ! r = tt_route_times s ! r" if "r < i" for r
    using C(2) P that by (metis nth_take)
  with P C(1) [OF refl] C(3,4)
  show "length (tt_route_times (compress_route ctx i s)) = Suc i \<and>
    route_transport_ranges (compress_route ctx i s) = route_transport_ranges tt0 \<and>
    (\<forall>r < Suc i. rt_transports (tt_route_times (compress_route ctx i s) ! r) = route_transport_ranges tt0 ! r)"
    by (auto simp: less_Suc_eq)
qed (use assms(1) in simp)

lemma compressed_route_times:
  assumes W: "written rs st" and ok: "services_ok rs" and z: "nothing_compressed (bs_tt st)"
    and tt: "tt = compress_stop_times (bs_ctx st) (write_location_routes st)" and r: "r < length rs"
  shows "route_times_ok tt r" "rt_transports (tt_route_times tt ! r) = route_transport_ranges (bs_tt st) ! r"
    "route_transport_ranges tt = route_transport_ranges (bs_tt st)"
proof -
  let ?tt = "write_location_routes st"
  let ?start = "?tt\<lparr>transport_first_dep := resize \<lparr>days = 0, mam = 0\<rparr> (length (transport_route ?tt)) (transport_first_dep ?tt),
                 transport_pattern := resize 0 (length (transport_route ?tt)) (transport_pattern ?tt)\<rparr>"
  note tab = write_location_routes_tables [of st]
  have n: "n_routes ?tt = length rs" using W by (simp add: tab written_def Let_def)
  have e: "length (transport_first_dep ?tt) \<le> length (transport_route ?tt)"
    "length (transport_pattern ?tt) \<le> length (transport_route ?tt)" "tt_route_times ?tt = []"
    using z by (simp_all add: write_location_routes_def Let_def nothing_compressed_def)
  have "n_routes ?start = n_routes ?tt" by (simp add: n_routes_def)
  then have c: "tt = fold (compress_route (bs_ctx st)) [0..<n_routes ?tt] ?start"
    unfolding tt compress_stop_times_def Let_def by (simp only:)
  have T: "length (tt_route_times tt) = n_routes ?tt \<and> route_transport_ranges tt = route_transport_ranges ?start \<and>
    (\<forall>r < n_routes ?tt. rt_transports (tt_route_times tt ! r) = route_transport_ranges ?start ! r)"
    by (rule compressed_transports [OF _ c]) (use e(3) in simp)
  then show rt: "rt_transports (tt_route_times tt ! r) = route_transport_ranges (bs_tt st) ! r"
    "route_transport_ranges tt = route_transport_ranges (bs_tt st)" using r n by (simp_all add: tab)
  note d = compress_all_done [OF written_input_ok [OF W ok z] e(1,2), folded tt]
  have w: "route_written st r (fst (rs ! r)) (snd (rs ! r))" using W r by (simp add: written_def Let_def)
  have "rt_pattern_start (tt_route_times tt ! r) + n_events ?start r * rt_n_patterns (tt_route_times tt ! r) \<le> length (pattern_offsets tt)"
    "length (transport_first_dep tt) = length (transport_route ?tt)" "length (transport_pattern tt) = length (transport_route ?tt)"
    using d r n by (auto simp: routes_done_def)
  moreover have "n_events ?start r = 2 * length (route_location_seq tt ! r) - 2"
    using compress_keeps(1) [OF tt] by (simp add: n_events_def mult.commute)
  ultimately show "route_times_ok tt r"
    using w unfolding route_times_ok_def Let_def rt by (simp add: tab route_written_def Let_def)
qed

lemma et_list_written:
  assumes W: "written rs st" and ok: "services_ok rs" and z: "nothing_compressed (bs_tt st)"
    and tt: "tt = compress_stop_times (bs_ctx st) (write_location_routes st)" and r: "r < length rs"
    and j: "event_idx j ev < 2 * length (fst (rs ! r)) - 2"
  shows "et_list (event_times_at_stop tt r j ev) =
    map (\<lambda>s. delta_of_duration (utc_times s ! event_idx j ev)) (snd (rs ! r))"
proof (rule nth_equalityI)
  note C = compressed_route_times [OF W ok z tt r]
  let ?E = "event_times_at_stop tt r j ev"
  have n: "et_n_transports ?E = length (snd (rs ! r))"
    using C(2) written_route(3) [OF W r] by (simp add: event_times_at_stop_def Let_def)
  then show "length (et_list ?E) = length (map (\<lambda>s. delta_of_duration (utc_times s ! event_idx j ev)) (snd (rs ! r)))"
    by (simp add: et_list_def)
  fix i assume "i < length (et_list ?E)"
  then have i: "i < length (snd (rs ! r))" using n by (simp add: et_list_def)
  let ?t = "ifrom (route_transport_ranges (bs_tt st) ! r) + i"
  have seq: "route_location_seq tt ! r = fst (rs ! r)"
    using compress_keeps(1) [OF tt] written_route(1) [OF W r] by (simp add: write_location_routes_tables)
  note T = written_times [OF W ok z tt r i refl]
  have "et_nth ?E i = event_mam_r tt r (et_transport ?E i) j ev"
    by (rule et_nth_event_mam [OF C(1)]) (use j seq in simp)
  also have "et_transport ?E i = ?t" using C(2) by (simp add: et_transport_def event_times_at_stop_def Let_def)
  also have "event_mam_r tt r ?t j ev = event_mam tt ?t j ev" using T(3) by (simp add: event_mam_def)
  also have "\<dots> = delta_of_duration (utc_times (snd (rs ! r) ! i) ! event_idx j ev)" by (rule T(1) [OF j])
  finally show "et_list ?E ! i = map (\<lambda>s. delta_of_duration (utc_times s ! event_idx j ev)) (snd (rs ! r)) ! i"
    using i n by (simp add: et_list_def)
qed

lemma in_order_by_time_of_day:
  assumes W: "written rs st" and ok: "services_ok rs" and z: "nothing_compressed (bs_tt st)"
    and tt: "tt = compress_stop_times (bs_ctx st) (write_location_routes st)" and r: "r < length rs"
    and ord: "in_order utc_times (snd (rs ! r))"
  shows "by_time_of_day tt r"
  unfolding by_time_of_day_def
proof (intro allI impI)
  fix j assume "j + 1 < seq_length tt r"
  moreover have seq: "route_location_seq tt ! r = fst (rs ! r)"
    using compress_keeps(1) [OF tt] written_route(1) [OF W r] by (simp add: write_location_routes_tables)
  ultimately have j: "j * 2 < 2 * length (fst (rs ! r)) - 2" by simp
  let ?ss = "snd (rs ! r)"
  have ts: "times_ok (2 * length (fst (rs ! r)) - 2) (utc_times (?ss ! i))" if "i < length ?ss" for i
    by (rule services_okD(3) [OF ok r that])
  have "sorted (map (\<lambda>s. mam (delta_of_duration (utc_times s ! (j * 2)))) ?ss)"
  proof (rule sorted_iff_nth_mono_less [THEN iffD2], intro allI impI)
    fix a b assume ab: "a < b" "b < length (map (\<lambda>s. mam (delta_of_duration (utc_times s ! (j * 2)))) ?ss)"
    then have "row_before (utc_times (?ss ! a)) (utc_times (?ss ! b))" using in_order_nth [OF ord] by simp
    then have "time_of_day (utc_times (?ss ! a) ! (j * 2)) \<le> time_of_day (utc_times (?ss ! b) ! (j * 2))"
      using ts [of a] ab j times_okD(1) [OF ts] by (simp add: row_before_def)
    then show "map (\<lambda>s. mam (delta_of_duration (utc_times s ! (j * 2)))) ?ss ! a \<le>
        map (\<lambda>s. mam (delta_of_duration (utc_times s ! (j * 2)))) ?ss ! b"
      using ab times_okD(4) [OF ts [of a] j] times_okD(4) [OF ts [of b] j] by (simp add: delta_of_time)
  qed
  then show "sorted (map mam (et_list (event_times_at_stop tt r j Dep)))"
    using et_list_written [OF W ok z tt r, of j Dep] j by (simp add: comp_def)
qed

section \<open>From transports in UTC to the timetable\<close>

text \<open>The transports in the order in which they are expanded, grouped by class, stop sequence and flags.\<close>

definition group_trips :: "(nat \<Rightarrow> nat) \<Rightarrow> trip_data \<Rightarrow> utc_trip list \<Rightarrow> (route_key \<rightharpoonup> utc_trip list list) option" where
  "group_trips route_id_type td us = fold_opt (add_expanded_trip route_id_type td) us Map.empty"

text \<open>What the transports are assumed to be: times for the events of their stop sequence, in order.\<close>

definition transports_ok :: "trip_data \<Rightarrow> utc_trip list \<Rightarrow> bool" where
  "transports_ok td us \<longleftrightarrow>
     (\<forall>u \<in> set us. sorted (utc_times u) \<and>
        (case get_stop_seq td u of None \<Rightarrow> True | Some seq \<Rightarrow> times_ok (2 * length seq - 2) (utc_times u)))"

text \<open>What fits the 16 bit positions and 32 bit offsets of the compressed table.\<close>

definition routes_fit :: "(route_key \<times> utc_trip list list) list \<Rightarrow> bool" where
  "routes_fit routes \<longleftrightarrow> (\<forall>(seq, ss) \<in> set (route_list routes). length ss < 65536) \<and>
     (\<Sum>(seq, ss) \<leftarrow> route_list routes. (2 * length seq - 2) * length ss) < 2 ^ 32"

lemma group_trips_fold:
  assumes "fold_opt (add_expanded_trip rt td) us m = Some m'"
  shows "m' = fold (add_service (\<lambda>u. the (route_key rt td u)) utc_times) us m \<and> (\<forall>u \<in> set us. route_key rt td u \<noteq> None)"
  using assms
proof (induction us arbitrary: m)
  case (Cons u us)
  from Cons.prems obtain m1 where m1: "add_expanded_trip rt td u m = Some m1" "fold_opt (add_expanded_trip rt td) us m1 = Some m'"
    by (auto split: option.splits)
  then have "route_key rt td u \<noteq> None" "m1 = add_service (\<lambda>u. the (route_key rt td u)) utc_times u m"
    by (auto simp: add_expanded_trip_def add_service_def split: option.splits)
  with Cons.IH [OF m1(2)] show ?case by simp
qed simp

lemma route_key_seq: "route_key rt td u = Some k \<Longrightarrow> get_stop_seq td u = Some (fst (snd k))"
  by (auto simp: route_key_def Let_def split: option.splits)

lemma grouped:
  assumes g: "group_trips rt td us = Some m" and ok: "transports_ok td us" and k: "m k = Some Rs" and R: "R \<in> set Rs"
  shows "in_order utc_times R" "u \<in> set R \<Longrightarrow> u \<in> set us \<and> get_stop_seq td u = Some (fst (snd k)) \<and>
    times_ok (2 * length (fst (snd k)) - 2) (utc_times u) \<and> sorted (utc_times u)"
proof -
  let ?key = "\<lambda>u. the (route_key rt td u)"
  let ?n = "\<lambda>k :: route_key. 2 * length (fst (snd k)) - 2"
  have m: "m = fold (add_service ?key utc_times) us Map.empty" and some: "\<forall>u \<in> set us. route_key rt td u \<noteq> None"
    using group_trips_fold [OF g [unfolded group_trips_def]] by simp_all
  have key: "get_stop_seq td u = Some (fst (snd (?key u)))" if "u \<in> set us" for u
    using that some route_key_seq by fastforce
  have "\<forall>u \<in> set us. times_ok (?n (?key u)) (utc_times u)"
    using ok key unfolding transports_ok_def by fastforce
  then have r: "routes_ok ?key utc_times ?n m" unfolding m by (intro add_services_ok) (simp_all add: routes_ok_def)
  then show "in_order utc_times R" using k R unfolding routes_ok_def by blast
  assume u: "u \<in> set R"
  have "mset (services_of m k) = mset (filter (\<lambda>s. ?key s = k) us)"
    unfolding m add_services_mset by (simp add: services_of_def)
  moreover have "u \<in># mset (services_of m k)" using k R u by (auto simp: services_of_def)
  ultimately have "u \<in> set us" by simp
  with r k R u key ok show "u \<in> set us \<and> get_stop_seq td u = Some (fst (snd k)) \<and>
      times_ok (2 * length (fst (snd k)) - 2) (utc_times u) \<and> sorted (utc_times u)"
    unfolding routes_ok_def transports_ok_def by fastforce
qed

lemma add_to_routes_nonempty: "[] \<notin> set Rs \<Longrightarrow> [] \<notin> set (add_to_routes tm s Rs)"
  by (induction Rs) (auto simp: insert_at_def split: option.splits)

lemma add_services_nonempty:
  assumes "fold (add_service key tm) us Map.empty = m" "m k = Some Rs"
  shows "[] \<notin> set Rs"
proof -
  have "\<forall>k Rs. fold (add_service key tm) us Map.empty k = Some Rs \<longrightarrow> [] \<notin> set Rs"
    by (rule fold_invariant [where P = "\<lambda>m. \<forall>k Rs. m k = Some Rs \<longrightarrow> [] \<notin> set Rs"])
      (auto simp: add_service_def dest: add_to_routes_nonempty split: option.splits if_splits)
  then show ?thesis using assms by blast
qed

lemma group_trips_nonempty:
  assumes "group_trips rt td us = Some m" "m k = Some Rs"
  shows "[] \<notin> set Rs"
  using add_services_nonempty [OF sym [OF conjunct1 [OF group_trips_fold [OF assms(1) [unfolded group_trips_def]]]] assms(2)] .

lemma route_list_nth:
  assumes "x \<in> set (route_list routes)" "m = map_of routes" "distinct (map fst routes)"
  shows "\<exists>k Rs. m k = Some Rs \<and> snd x \<in> set Rs \<and> fst x = fst (snd k)"
proof -
  obtain k Rs where "(k, Rs) \<in> set routes" "snd x \<in> set Rs" "fst x = fst (snd k)"
    using assms(1) by (auto simp: route_list_def)
  with assms(2,3) show ?thesis by (intro exI [of _ k] exI [of _ Rs]) simp
qed

lemma grouped_route:
  assumes "group_trips rt td us = Some m" "transports_ok td us" "m = map_of routes" "distinct (map fst routes)"
    and "x \<in> set (route_list routes)"
  shows "in_order utc_times (snd x)" "2 \<le> length (fst x)"
    "u \<in> set (snd x) \<Longrightarrow> u \<in> set us \<and> get_stop_seq td u = Some (fst x) \<and>
      times_ok (2 * length (fst x) - 2) (utc_times u) \<and> sorted (utc_times u)"
proof -
  obtain k Rs where k: "m k = Some Rs" "snd x \<in> set Rs" "fst x = fst (snd k)"
    using route_list_nth [OF assms(5,3,4)] by blast
  note G = grouped [OF assms(1,2) k(1,2)]
  show "in_order utc_times (snd x)" by (rule G(1))
  show u: "u \<in> set us \<and> get_stop_seq td u = Some (fst x) \<and>
      times_ok (2 * length (fst x) - 2) (utc_times u) \<and> sorted (utc_times u)" if "u \<in> set (snd x)" for u
    using G(2) [OF that] k(3) by simp
  have "snd x \<noteq> []" using group_trips_nonempty [OF assms(1) k(1)] k(2) by metis
  with u [of "hd (snd x)"] show "2 \<le> length (fst x)" by (simp add: times_ok_def)
qed

lemma grouped_services_ok:
  assumes "group_trips rt td us = Some m" "transports_ok td us" "m = map_of routes" "distinct (map fst routes)" "routes_fit routes"
  shows "services_ok (route_list routes)"
  using assms(5) grouped_route [OF assms(1-4)] unfolding services_ok_def routes_fit_def by fastforce

text \<open>Every transport is in exactly one route.\<close>

lemma grouped_all:
  assumes g: "group_trips rt td us = Some m" and m: "m = map_of routes" and d: "distinct (map fst routes)"
  shows "mset (concat (map snd (route_list routes))) = mset us"
proof -
  let ?key = "\<lambda>u. the (route_key rt td u)"
  have f: "m = fold (add_service ?key utc_times) us Map.empty"
    using group_trips_fold [OF g [unfolded group_trips_def]] by simp
  have s: "mset (services_of m k) = mset (filter (\<lambda>u. ?key u = k) us)" for k
    unfolding f add_services_mset by (simp add: services_of_def)
  have r: "mset (concat Rs) = mset (filter (\<lambda>u. ?key u = k) us)" if "(k, Rs) \<in> set routes" for k Rs
    using s [of k] that d by (simp add: services_of_def m)
  have all: "?key ` set us \<subseteq> set (map fst routes)"
  proof
    fix k assume "k \<in> ?key ` set us"
    then have "filter (\<lambda>u. ?key u = k) us \<noteq> []" by (auto simp: filter_empty_conv)
    then have "services_of m k \<noteq> []" using s [of k] by auto
    then have "k \<in> dom m" by (auto simp: services_of_def split: option.splits)
    then show "k \<in> set (map fst routes)" by (simp add: m dom_map_of_conv_image_fst)
  qed
  have "mset (concat (map snd (route_list xs))) = mset (filter (\<lambda>u. ?key u \<in> set (map fst xs)) us)"
    if "set xs \<subseteq> set routes" "distinct (map fst xs)" for xs
    using that
  proof (induction xs)
    case (Cons x xs)
    obtain k Rs where x: "x = (k, Rs)" by (cases x)
    have "mset (concat (map snd (route_list (x # xs)))) = mset (concat Rs) + mset (concat (map snd (route_list xs)))"
      by (simp add: route_list_def x comp_def)
    also have "\<dots> = mset (filter (\<lambda>u. ?key u = k) us) + mset (filter (\<lambda>u. ?key u \<in> set (map fst xs)) us)"
      using Cons r [of k Rs] by (simp add: x)
    also have "\<dots> = mset (filter (\<lambda>u. ?key u \<in> set (map fst (x # xs))) us)"
      using Cons.prems(2) unfolding x by (induction us) auto
    finally show ?case .
  qed (simp add: route_list_def)
  from this [OF order_refl d] have "mset (concat (map snd (route_list routes))) =
      mset (filter (\<lambda>u. ?key u \<in> set (map fst routes)) us)" .
  moreover have "filter (\<lambda>u. ?key u \<in> set (map fst routes)) us = us" using all by (auto simp: filter_id_conv)
  ultimately show ?thesis by metis
qed

lemma loaded_times:
  assumes "group_trips route_id_type td us = Some m" "transports_ok td us"
    and "m = map_of routes" "distinct (map fst routes)" "routes_fit routes"
    and "written [] st0" "nothing_compressed (bs_tt st0)"
    and "st = write_routes routes st0" "tt = compress_stop_times (bs_ctx st) (write_location_routes st)"
  shows "n_routes tt = length (route_list routes) \<and> mset (concat (map snd (route_list routes))) = mset us \<and>
    (\<forall>r < n_routes tt. \<forall>i < length (snd (route_list routes ! r)).
       let u = snd (route_list routes ! r) ! i; t = ifrom (route_transport_ranges tt ! r) + i
       in get_stop_seq td u = Some (route_location_seq tt ! r) \<and> transport_route tt ! t = r \<and>
          (\<forall>d. is_transport_active tt t d \<longleftrightarrow> bit (utc_traffic_days u) d) \<and>
          (\<forall>j ev. event_idx j ev < 2 * seq_length tt r - 2 \<longrightarrow>
             event_mam tt t j ev = delta_of_duration (utc_times u ! event_idx j ev)))"
proof -
  let ?rs = "route_list routes"
  have W: "written ?rs st" and z: "nothing_compressed (bs_tt st)"
    using write_routes_ok [OF assms(6,8)] assms(7) by (simp_all add: later_tables_def nothing_compressed_def)
  note ok = grouped_services_ok [OF assms(1-5)]
  have seq: "route_location_seq tt = route_location_seq (bs_tt st)"
    using compress_keeps(1) [OF assms(9)] by (simp add: write_location_routes_tables)
  have n: "n_routes tt = length ?rs" using W by (simp add: n_routes_def seq written_def Let_def)
  show ?thesis unfolding n Let_def
  proof (intro conjI allI impI)
    show "mset (concat (map snd ?rs)) = mset us" by (rule grouped_all [OF assms(1,3,4)])
    fix r i assume r: "r < length ?rs" and i: "i < length (snd (?rs ! r))"
    have s: "route_location_seq tt ! r = fst (?rs ! r)" using written_route(1) [OF W r] seq by simp
    have u: "snd (?rs ! r) ! i \<in> set (snd (?rs ! r))" using i by simp
    have rg: "route_transport_ranges tt = route_transport_ranges (bs_tt st)" by (rule compressed_route_times(3) [OF W ok z assms(9) r])
    note T = written_times [OF W ok z assms(9) r i refl, folded rg]
    show "get_stop_seq td (snd (?rs ! r) ! i) = Some (route_location_seq tt ! r)"
      using grouped_route(3) [OF assms(1-4) _ u] r s by simp
    show "transport_route tt ! (ifrom (route_transport_ranges tt ! r) + i) = r" by (rule T(3))
    show "is_transport_active tt (ifrom (route_transport_ranges tt ! r) + i) d \<longleftrightarrow> bit (utc_traffic_days (snd (?rs ! r) ! i)) d" for d
      by (rule T(2))
    show "event_mam tt (ifrom (route_transport_ranges tt ! r) + i) j ev = delta_of_duration (utc_times (snd (?rs ! r) ! i) ! event_idx j ev)"
      if "event_idx j ev < 2 * seq_length tt r - 2" for j ev using T(1) that s by simp
  qed simp
qed

text \<open>Property C12. From the transports in UTC to the timetable the searches read. Grouping, writing and
  compressing the transports of an import into an empty timetable gives one transport of the timetable for
  every transport in UTC; the transport has the stop sequence of its route, runs on the traffic days of the
  transport in UTC, and the time that the searches read for a departure or arrival is the time in UTC.\<close>

theorem loaded_times_exact:
  assumes "group_trips route_id_type td us = Some m" "transports_ok td us"
    and "m = map_of routes" "distinct (map fst routes)" "routes_fit routes"
    and "written [] st0" "nothing_compressed (bs_tt st0)"
    and "st = write_routes routes st0" "tt = compress_stop_times (bs_ctx st) (write_location_routes st)"
  shows "n_routes tt = length (route_list routes) \<and> mset (concat (map snd (route_list routes))) = mset us \<and>
    (\<forall>r < n_routes tt. \<forall>i < length (snd (route_list routes ! r)).
       let u = snd (route_list routes ! r) ! i; t = ifrom (route_transport_ranges tt ! r) + i
       in get_stop_seq td u = Some (route_location_seq tt ! r) \<and> transport_route tt ! t = r \<and>
          (\<forall>d. is_transport_active tt t d \<longleftrightarrow> bit (utc_traffic_days u) d) \<and>
          (\<forall>j ev. event_idx j ev < 2 * seq_length tt r - 2 \<longrightarrow>
             event_mam tt t j ev = delta_of_duration (utc_times u ! event_idx j ev)))"
  using assms by (rule loaded_times)

text \<open>Property C13. In a loaded timetable the departures of a route from a stop are in the order of the time of
  day, whatever day offset they have. (The search of the trip-based preprocessing for the first
  connection relies on it.)\<close>

theorem loaded_routes_by_time_of_day:
  assumes "group_trips route_id_type td us = Some m" "transports_ok td us"
    and "m = map_of routes" "distinct (map fst routes)" "routes_fit routes"
    and "written [] st0" "nothing_compressed (bs_tt st0)"
    and "st = write_routes routes st0" "tt = compress_stop_times (bs_ctx st) (write_location_routes st)"
  shows "\<forall>r < n_routes tt. by_time_of_day tt r"
proof (intro allI impI)
  let ?rs = "route_list routes"
  have W: "written ?rs st" and z: "nothing_compressed (bs_tt st)"
    using write_routes_ok [OF assms(6,8)] assms(7) by (simp_all add: later_tables_def nothing_compressed_def)
  note ok = grouped_services_ok [OF assms(1-5)]
  fix r assume "r < n_routes tt"
  then have r: "r < length ?rs"
    using W compress_keeps(1) [OF assms(9)] by (simp add: n_routes_def write_location_routes_tables written_def Let_def)
  show "by_time_of_day tt r"
    by (rule in_order_by_time_of_day [OF W ok z assms(9) r]) (rule grouped_route(1) [OF assms(1-4) nth_mem [OF r]])
qed

section \<open>Witnesses\<close>

definition example_stops :: trip_data where
  "example_stops = [\<lparr>gt_route = 0, gt_service = 7, gt_stop_seq = [0, 1], gt_event_times = [], gt_frequency = None,
     gt_requires_interpolation = False, gt_flags = [False, True, False, False], gt_clasz = Some kBus\<rparr>]"

definition example_utc :: "int \<Rightarrow> bitfield \<Rightarrow> utc_trip" where
  "example_utc t b = \<lparr>ut_first_dep_offset = 0, ut_tz_offset = 0, ut_trips = [0], utc_times = [t, t + 30],
     utc_traffic_days = b, ut_stop_seq = []\<rparr>"

definition example_key :: route_key where
  "example_key = (kBus, [0, 1], [[False], [True], [False], [False]])"

definition example_start :: build_state where
  "example_start = \<lparr>bs_tt = empty_timetable, bs_ctx = \<lparr>route_stop_times = [], route_stop_time_ranges = []\<rparr>,
     bs_bitfields = Map.empty, bs_location_routes = (\<lambda>_. [])\<rparr>"

abbreviation example_us :: "utc_trip list" where
  "example_us \<equiv> [example_utc 600 7, example_utc 540 3]"

abbreviation example_grouped :: "(route_key \<times> utc_trip list list) list" where
  "example_grouped \<equiv> [(example_key, [[example_utc 540 3, example_utc 600 7]])]"

lemma example_group: "group_trips (\<lambda>_. 3) example_stops example_us = Some (map_of example_grouped)"
proof -
  have k: "route_key (\<lambda>_. 3) example_stops (example_utc t b) = Some example_key" for t b
    by (simp add: route_key_def get_stop_seq_def example_utc_def example_stops_def example_key_def apply_flag_seq_def all_route_flags_def)
  have g: "get_index utc_times [example_utc 600 7] (example_utc 540 3) = Some 0"
    by (simp add: order_simps example_utc_def)
  show ?thesis by (simp add: group_trips_def add_expanded_trip_def k g insert_at_def)
qed

lemma example_start_ok:
  "transports_ok example_stops example_us" "routes_fit example_grouped" "distinct (map fst example_grouped)"
  "written [] example_start" "nothing_compressed (bs_tt example_start)"
  by (simp_all add: transports_ok_def routes_fit_def route_list_def example_key_def example_start_def written_def
      nothing_compressed_def empty_timetable_def n_routes_def bitfields_ok_def example_utc_def get_stop_seq_def
      example_stops_def times_ok_def)

theorem loaded_times_exact_witness:
  "let st = write_routes example_grouped example_start;
       tt = compress_stop_times (bs_ctx st) (write_location_routes st);
       t = ifrom (route_transport_ranges tt ! 0) + 1
   in n_routes tt = 1 \<and> transport_route tt ! t = 0 \<and> is_transport_active tt t 2 \<and>
      event_mam tt t 0 Dep = delta_of_duration 600"
proof -
  define st where "st = write_routes example_grouped example_start"
  define tt where "tt = compress_stop_times (bs_ctx st) (write_location_routes st)"
  note T = loaded_times_exact [OF example_group example_start_ok(1) refl example_start_ok(3,2,4,5) st_def tt_def, unfolded Let_def]
  have n: "n_routes tt = 1" using T by (simp add: route_list_def)
  have u: "snd (route_list example_grouped ! 0) ! 1 = example_utc 600 7" "length (snd (route_list example_grouped ! 0)) = 2"
    by (simp_all add: route_list_def)
  from T n u have A: "get_stop_seq example_stops (example_utc 600 7) = Some (route_location_seq tt ! 0)"
    "transport_route tt ! (ifrom (route_transport_ranges tt ! 0) + 1) = 0"
    "is_transport_active tt (ifrom (route_transport_ranges tt ! 0) + 1) 2 \<longleftrightarrow> bit (utc_traffic_days (example_utc 600 7)) 2"
    "event_idx 0 Dep < 2 * seq_length tt 0 - 2 \<Longrightarrow> event_mam tt (ifrom (route_transport_ranges tt ! 0) + 1) 0 Dep =
       delta_of_duration (utc_times (example_utc 600 7) ! event_idx 0 Dep)"
    by (metis one_less_numeral_iff semiring_norm(76) zero_less_one)+
  have "get_stop_seq example_stops (example_utc 600 7) = Some [0, 1]"
    by (simp add: get_stop_seq_def example_utc_def example_stops_def)
  then have "route_location_seq tt ! 0 = [0, 1]" using A(1) by (metis option.inject)
  then have "seq_length tt 0 = 2" by simp
  moreover have "bit (7 :: bitfield) 2" by (simp add: bit_numeral_rec)
  ultimately show ?thesis unfolding st_def [symmetric] tt_def [symmetric] Let_def
    using n A(2-4) by (simp add: example_utc_def tt_def [symmetric])
qed

theorem loaded_routes_by_time_of_day_witness:
  "let st = write_routes example_grouped example_start
   in by_time_of_day (compress_stop_times (bs_ctx st) (write_location_routes st)) 0"
proof -
  define st where "st = write_routes example_grouped example_start"
  define tt where "tt = compress_stop_times (bs_ctx st) (write_location_routes st)"
  have "n_routes (bs_tt st) = 1"
    using write_routes_ok [OF example_start_ok(4) st_def] by (simp add: written_def Let_def route_list_def)
  then have "n_routes tt = 1" using compress_keeps(1) [OF tt_def] by (simp add: n_routes_def write_location_routes_tables)
  with loaded_routes_by_time_of_day [OF example_group example_start_ok(1) refl example_start_ok(3,2,4,5) st_def tt_def]
  show ?thesis unfolding st_def [symmetric] tt_def Let_def by simp
qed

end
