(* ===== verification/Gtfs_Blocks.thy ===== *)
theory Gtfs_Blocks
  imports Gtfs_Trips "HOL-Library.Multiset"
begin

text \<open>
  Trips that share a block (\<open>block::rule_services\<close> in \<open>src/loader/gtfs/trip.cc\<close>): one vehicle serves
  them one after the other, where the next trip starts at the last stop of the one before. A depth-first search
  over the trips in the order of their departures splits the traffic days among such chains. Proved: every day
  of every trip is in exactly one chain.
\<close>

section \<open>Blocks\<close>

text \<open>Trips of one block are served by one vehicle. The stack of the depth-first search holds the current trip,
  the trips collected before it and the traffic days left; \<open>ds\<close> are the days of the trips not yet
  used up.\<close>

record block_entry =
  qe_current :: nat
  qe_collected :: "nat list"
  qe_days :: bitfield

definition connects :: "trip_data \<Rightarrow> nat \<Rightarrow> nat \<Rightarrow> bool" where
  "connects td a b \<longleftrightarrow>
     stop_loc (stop_of_value (last (gt_stop_seq (td ! a)))) = stop_loc (stop_of_value (hd (gt_stop_seq (td ! b))))"

definition block_succ ::
    "trip_data \<Rightarrow> nat list \<Rightarrow> bitfield list \<Rightarrow> nat \<Rightarrow> nat list \<Rightarrow> nat \<Rightarrow> bitfield \<times> block_entry list
     \<Rightarrow> bitfield \<times> block_entry list" where
  "block_succ td ts ds cur coll succ s =
     (case s of (avail, q) \<Rightarrow>
        if \<not> connects td (ts ! cur) (ts ! succ) then (avail, q)
        else let new_intersection = avail AND ds ! succ;
                 avail = avail AND NOT (ds ! succ)
             in (avail, if new_intersection \<noteq> 0
                       then \<lparr>qe_current = succ, qe_collected = coll, qe_days = new_intersection\<rparr> # q else q))"

definition remove_days :: "bitfield \<Rightarrow> nat list \<Rightarrow> bitfield list \<Rightarrow> bitfield list" where
  "remove_days avail coll ds = fold (\<lambda>i ds. ds[i := ds ! i AND NOT avail]) coll ds"

type_synonym combination = "nat list \<times> bitfield"

text \<open>One iteration of the \<open>while\<close> loop: the top entry, the rest of the stack.\<close>

definition block_step ::
    "trip_data \<Rightarrow> nat list \<Rightarrow> block_entry \<Rightarrow> block_entry list \<times> bitfield list \<times> combination list
     \<Rightarrow> block_entry list \<times> bitfield list \<times> combination list" where
  "block_step td ts e s =
     (case s of (q, ds, combos) \<Rightarrow>
        let coll = qe_collected e @ [qe_current e];
            (avail, q) = fold (block_succ td ts ds (qe_current e) coll) [qe_current e + 1..<length ds] (qe_days e, q)
        in if avail \<noteq> 0
           then (q, remove_days avail coll ds, combos @ [(map (\<lambda>i. ts ! i) coll, avail)])
           else (q, ds, combos))"

lemma length_remove_days [simp]: "length (remove_days avail coll ds) = length ds"
  by (induction coll arbitrary: ds) (simp_all add: remove_days_def)

text \<open>The weight of the stack goes down: what an entry pushes lies behind it.\<close>

definition stack_weight :: "nat \<Rightarrow> block_entry list \<Rightarrow> nat" where
  "stack_weight n q = sum_list (map (\<lambda>e. 2 ^ (n - qe_current e)) q)"

lemma block_succ_weight:
  "stack_weight n (snd (block_succ td ts ds cur coll k s)) \<le> stack_weight n (snd s) + 2 ^ (n - k)"
  by (cases s) (simp add: block_succ_def stack_weight_def Let_def)

lemma block_succs_weight:
  assumes "Suc cur \<le> k" "k \<le> n"
  shows "stack_weight n (snd (fold (block_succ td ts ds cur coll) [Suc cur..<k] (avail, q))) + 2 ^ (n - k + 1)
    \<le> stack_weight n q + 2 ^ (n - cur)"
  using assms
proof (induction k rule: dec_induct)
  case base
  then have "n - Suc cur + 1 = n - cur" by simp
  then show ?case by simp
next
  case (step k)
  let ?s = "fold (block_succ td ts ds cur coll) [Suc cur..<k] (avail, q)"
  have "stack_weight n (snd (block_succ td ts ds cur coll k ?s)) \<le> stack_weight n (snd ?s) + 2 ^ (n - k)"
    by (rule block_succ_weight)
  moreover have "(2 :: nat) ^ (n - k + 1) = 2 ^ (n - k) + 2 ^ (n - Suc k + 1)"
    using step.prems by (simp add: Suc_diff_Suc)
  ultimately show ?case using step.IH step.prems step.hyps by simp
qed

lemma block_step_weight:
  "stack_weight (length ds) (fst (block_step td ts e (q, ds, combos))) < stack_weight (length ds) (e # q)"
proof -
  let ?c = "qe_current e" and ?n = "length ds"
  let ?f = "fold (block_succ td ts ds ?c (qe_collected e @ [?c])) [Suc ?c..<?n] (qe_days e, q)"
  have "stack_weight ?n (snd ?f) < stack_weight ?n q + 2 ^ (?n - ?c)"
  proof (cases "Suc ?c \<le> ?n")
    case True
    have "0 < (2 :: nat) ^ (?n - ?n + 1)" by simp
    with block_succs_weight [OF True order_refl, of td ts ds "qe_collected e @ [?c]" "qe_days e" q]
    show ?thesis by linarith
  qed simp
  then show ?thesis by (cases ?f) (simp add: block_step_def Let_def stack_weight_def add.commute)
qed

lemma block_step_length: "length (fst (snd (block_step td ts e (q, ds, combos)))) = length ds"
  by (simp add: block_step_def Let_def split: prod.splits)

function block_loop ::
    "trip_data \<Rightarrow> nat list \<Rightarrow> block_entry list \<Rightarrow> bitfield list \<times> combination list \<Rightarrow> bitfield list \<times> combination list" where
  "block_loop td ts [] s = s"
| "block_loop td ts (e # q) s =
     (case block_step td ts e (q, s) of (q', s') \<Rightarrow> block_loop td ts q' s')"
  by pat_completeness auto

termination
proof (relation "measure (\<lambda>(td, ts, q, ds, combos). stack_weight (length ds) q)", goal_cases)
  case (2 td ts e q s q' s')
  then show ?case
    using block_step_weight [of "fst s" td ts e q "snd s"] block_step_length [of td ts e q "fst s" "snd s"]
    by (cases s; cases s') (auto split: prod.splits)
qed simp

definition block_starts ::
    "trip_data \<Rightarrow> nat list \<Rightarrow> bitfield list \<times> combination list \<Rightarrow> bitfield list \<times> combination list" where
  "block_starts td ts s =
     fold (\<lambda>start s. block_loop td ts
         [\<lparr>qe_current = start, qe_collected = [], qe_days = fst s ! start\<rparr>] s)
       [0..<length ts] s"

text \<open>\<open>srt\<close> is \<open>std::sort\<close> by the first departure; which order it leaves among equal departures is
  unspecified. An empty block throws.\<close>

definition rule_services ::
    "((nat \<Rightarrow> int) \<Rightarrow> nat list \<Rightarrow> nat list) \<Rightarrow> trip_data \<Rightarrow> nat list \<Rightarrow> combination list option" where
  "rule_services srt td trips =
     (if trips = [] then None
      else let trips = filter (\<lambda>t. gt_stop_seq (td ! t) \<noteq> []) trips
           in if length trips = 1 then Some [([hd trips], gt_service (td ! hd trips))]
              else let ts = srt (\<lambda>t. ev_dep (hd (gt_event_times (td ! t)))) trips
                   in Some (snd (block_starts td ts (map (\<lambda>t. gt_service (td ! t)) ts, []))))"

section \<open>Every day of every trip is in one combination\<close>

definition disjoint_days :: "bitfield \<Rightarrow> bitfield \<Rightarrow> bool" where
  "disjoint_days a b \<longleftrightarrow> (\<forall>d. \<not> (bit a d \<and> bit b d))"

text \<open>Splitting the days \<open>b\<close> of an entry: \<open>av\<close> is left, the entries \<open>new\<close> take the rest.\<close>

definition split_ok ::
    "trip_data \<Rightarrow> nat list \<Rightarrow> bitfield list \<Rightarrow> nat \<Rightarrow> nat list \<Rightarrow> bitfield \<Rightarrow> bitfield \<times> block_entry list \<Rightarrow> bool" where
  "split_ok td ts ds cur coll b s \<longleftrightarrow>
     (case s of (av, new) \<Rightarrow>
        (\<forall>d. bit b d \<longleftrightarrow> bit av d \<or> (\<exists>e \<in> set new. bit (qe_days e) d)) \<and>
        (\<forall>e \<in> set new. disjoint_days av (qe_days e)) \<and>
        sorted_wrt disjoint_days (map qe_days new) \<and>
        (\<forall>e \<in> set new. qe_collected e = coll \<and> cur < qe_current e \<and> qe_current e < length ds \<and>
           connects td (ts ! cur) (ts ! qe_current e) \<and>
           (\<forall>d. bit (qe_days e) d \<longrightarrow> bit (ds ! qe_current e) d)))"

lemma block_succ_ok:
  assumes "split_ok td ts ds cur coll b (av, new)" "cur < k" "k < length ds"
  shows "\<exists>av' new'. block_succ td ts ds cur coll k (av, new @ q) = (av', new' @ q) \<and> split_ok td ts ds cur coll b (av', new')"
proof (cases "connects td (ts ! cur) (ts ! k)")
  case True
  let ?i = "av AND ds ! k" and ?a = "av AND NOT (ds ! k)"
  let ?e = "\<lparr>qe_current = k, qe_collected = coll, qe_days = ?i\<rparr>"
  show ?thesis
  proof (cases "?i = 0")
    case t: True
    then have "\<not> (bit av d \<and> bit (ds ! k) d)" for d by (metis bit_and_iff bit_0_eq bot_apply bot_bool_def)
    then have "?a = av" by (intro bit_eqI) (auto simp: bit_and_iff bit_not_iff dest: bit_imp_le_length)
    with t True assms(1) show ?thesis by (simp add: block_succ_def)
  next
    case False
    have "split_ok td ts ds cur coll b (?a, ?e # new)"
      using assms True unfolding split_ok_def disjoint_days_def
      by (auto simp: bit_and_iff bit_not_iff dest: bit_imp_le_length)
    with False True show ?thesis by (auto simp: block_succ_def Let_def)
  qed
next
  case False
  with assms(1) show ?thesis by (auto simp: block_succ_def)
qed

lemma block_succs_ok:
  assumes "split_ok td ts ds cur coll b (av, new)" "\<forall>k \<in> set ks. cur < k \<and> k < length ds"
  shows "\<exists>av' new'. fold (block_succ td ts ds cur coll) ks (av, new @ q) = (av', new' @ q) \<and>
    split_ok td ts ds cur coll b (av', new')"
  using assms
proof (induction ks arbitrary: av new)
  case (Cons k ks)
  then obtain av' new' where "block_succ td ts ds cur coll k (av, new @ q) = (av', new' @ q)"
    "split_ok td ts ds cur coll b (av', new')" using block_succ_ok [OF Cons.prems(1), of k q] by auto
  with Cons.IH [OF this(2)] Cons.prems(2) show ?case by auto
qed auto

text \<open>How often trip \<open>t\<close> on day \<open>d\<close> is in a combination.\<close>

definition covered :: "combination list \<Rightarrow> nat \<Rightarrow> nat \<Rightarrow> nat" where
  "covered combos t d = length (filter (\<lambda>(c, b). t \<in> set c \<and> bit b d) combos)"

text \<open>The days of a trip are used up by the combinations so far: each is either left or in exactly
  one.\<close>

definition accounted :: "nat list \<Rightarrow> bitfield list \<Rightarrow> bitfield list \<times> combination list \<Rightarrow> bool" where
  "accounted ts ds0 s \<longleftrightarrow> length (fst s) = length ds0 \<and>
     (\<forall>i < length ds0. \<forall>d. covered (snd s) (ts ! i) d + of_bool (bit (fst s ! i) d) = of_bool (bit (ds0 ! i) d))"

definition entry_ok :: "trip_data \<Rightarrow> nat list \<Rightarrow> nat \<Rightarrow> bitfield list \<Rightarrow> block_entry \<Rightarrow> bool" where
  "entry_ok td ts start ds e \<longleftrightarrow>
     (let c = qe_collected e @ [qe_current e]
      in sorted_wrt (<) c \<and> qe_current e < length ds \<and> hd c = start \<and>
         successively (\<lambda>a b. connects td (ts ! a) (ts ! b)) c \<and>
         (\<forall>i \<in> set c. \<forall>d. bit (qe_days e) d \<longrightarrow> bit (ds ! i) d))"

definition stack_ok :: "trip_data \<Rightarrow> nat list \<Rightarrow> nat \<Rightarrow> bitfield list \<Rightarrow> block_entry list \<Rightarrow> bool" where
  "stack_ok td ts start ds q \<longleftrightarrow> (\<forall>e \<in> set q. entry_ok td ts start ds e) \<and>
     sorted_wrt disjoint_days (map qe_days q) \<and>
     (\<forall>d. bit (ds ! start) d \<longrightarrow> (\<exists>e \<in> set q. bit (qe_days e) d))"

lemma remove_days_nth:
  "i < length ds \<Longrightarrow> bit (remove_days b coll ds ! i) d \<longleftrightarrow> bit (ds ! i) d \<and> \<not> (i \<in> set coll \<and> bit b d)"
proof (induction coll arbitrary: ds)
  case (Cons c coll)
  then show ?case
    by (cases "i = c") (auto simp: remove_days_def nth_list_update bit_and_iff bit_not_iff dest: bit_imp_le_length)
qed (simp add: remove_days_def)

lemma covered_snoc: "covered (combos @ [(c, b)]) t d = covered combos t d + of_bool (t \<in> set c \<and> bit b d)"
  by (simp add: covered_def)

lemma entry_ok_push:
  assumes "entry_ok td ts start ds e" "qe_collected e' = qe_collected e @ [qe_current e]"
    and "qe_current e < qe_current e'" "qe_current e' < length ds"
    and "connects td (ts ! qe_current e) (ts ! qe_current e')"
    and "\<forall>d. bit (qe_days e') d \<longrightarrow> bit (qe_days e) d \<and> bit (ds ! qe_current e') d"
  shows "entry_ok td ts start ds e'"
proof -
  let ?c = "qe_collected e @ [qe_current e]"
  have c: "sorted_wrt (<) ?c" "hd ?c = start" "successively (\<lambda>a b. connects td (ts ! a) (ts ! b)) ?c"
    "\<forall>i \<in> set ?c. \<forall>d. bit (qe_days e) d \<longrightarrow> bit (ds ! i) d"
    using assms(1) by (simp_all add: entry_ok_def Let_def)
  have "sorted_wrt (<) (?c @ [qe_current e'])"
    using c(1) assms(3) by (auto simp: sorted_wrt_append)
  moreover have "hd (?c @ [qe_current e']) = start" using c(2) by (metis hd_append2 snoc_eq_iff_butlast)
  moreover have "successively (\<lambda>a b. connects td (ts ! a) (ts ! b)) (?c @ [qe_current e'])"
    using c(3) assms(5) by (subst successively_append_iff) simp
  ultimately show ?thesis using c(4) assms(2,4,6) unfolding entry_ok_def Let_def by auto
qed

lemma entry_ok_remove:
  assumes "entry_ok td ts start ds e" "disjoint_days av (qe_days e)"
  shows "entry_ok td ts start (remove_days av coll ds) e"
proof -
  let ?c = "qe_collected e @ [qe_current e]"
  have c: "sorted_wrt (<) ?c" "qe_current e < length ds"
    using assms(1) by (simp_all add: entry_ok_def Let_def)
  then have "i < length ds" if "i \<in> set ?c" for i
    using that by (auto simp: sorted_wrt_append)
  then show ?thesis using assms
    by (simp add: entry_ok_def Let_def remove_days_nth disjoint_days_def) blast
qed

lemma block_step_ok:
  assumes acc: "accounted ts ds0 (ds, combos)" and ts: "distinct ts" "length ts = length ds0"
    and st: "stack_ok td ts start ds (e # q)"
    and step: "block_step td ts e (q, ds, combos) = (q', ds', combos')"
  shows "accounted ts ds0 (ds', combos') \<and> stack_ok td ts start ds' q'"
proof -
  let ?c = "qe_collected e @ [qe_current e]"
  have len: "length ds = length ds0" using acc by (simp add: accounted_def)
  have e: "entry_ok td ts start ds e" and q: "\<forall>x \<in> set q. entry_ok td ts start ds x"
    and dj: "\<forall>x \<in> set q. disjoint_days (qe_days e) (qe_days x)" "sorted_wrt disjoint_days (map qe_days q)"
    and cov: "\<forall>d. bit (ds ! start) d \<longrightarrow> bit (qe_days e) d \<or> (\<exists>x \<in> set q. bit (qe_days x) d)"
    using st by (auto simp: stack_ok_def)
  have c: "sorted_wrt (<) ?c" "qe_current e < length ds" "hd ?c = start"
    "\<forall>i \<in> set ?c. \<forall>d. bit (qe_days e) d \<longrightarrow> bit (ds ! i) d"
    using e by (simp_all add: entry_ok_def Let_def)
  have cl: "\<forall>i \<in> set ?c. i < length ds" using c(1,2) by (auto simp: sorted_wrt_append)
  have start: "start \<in> set ?c" using c(3) by (metis hd_in_set snoc_eq_iff_butlast)
  have "split_ok td ts ds (qe_current e) ?c (qe_days e) (qe_days e, [])" by (simp add: split_ok_def)
  from block_succs_ok [OF this, of "[qe_current e + 1..<length ds]" q]
  obtain av new where f: "fold (block_succ td ts ds (qe_current e) ?c) [qe_current e + 1..<length ds] (qe_days e, q) = (av, new @ q)"
    and sp: "split_ok td ts ds (qe_current e) ?c (qe_days e) (av, new)" by auto
  have av: "bit (qe_days e) d \<longleftrightarrow> bit av d \<or> (\<exists>x \<in> set new. bit (qe_days x) d)" for d
    using sp by (simp add: split_ok_def)
  have new: "entry_ok td ts start ds x" if "x \<in> set new" for x
    by (rule entry_ok_push [OF e]) (use sp that av in \<open>auto simp: split_ok_def\<close>)
  have sub: "disjoint_days av (qe_days x)" if "x \<in> set (new @ q)" for x
    using sp dj(1) that av by (auto simp: split_ok_def disjoint_days_def)
  have sorted: "sorted_wrt disjoint_days (map qe_days (new @ q))"
    using sp dj av unfolding map_append sorted_wrt_append by (auto simp: split_ok_def disjoint_days_def)
  have cov': "bit av d \<or> (\<exists>x \<in> set (new @ q). bit (qe_days x) d)" if "bit (ds ! start) d" for d
    using cov that av by fastforce
  show ?thesis
  proof (cases "av = 0")
    case True
    then have "q' = new @ q" "ds' = ds" "combos' = combos"
      using step f by (simp_all add: block_step_def Let_def)
    moreover have "stack_ok td ts start ds (new @ q)"
      unfolding stack_ok_def using new q sorted cov' True by auto
    ultimately show ?thesis using acc by simp
  next
    case False
    then have r: "q' = new @ q" "ds' = remove_days av ?c ds" "combos' = combos @ [(map (\<lambda>i. ts ! i) ?c, av)]"
      using step f by (simp_all add: block_step_def Let_def)
    have "stack_ok td ts start ds' (new @ q)"
      unfolding stack_ok_def r(2)
    proof (intro conjI ballI allI impI)
      fix x assume "x \<in> set (new @ q)"
      then show "entry_ok td ts start (remove_days av ?c ds) x"
        using new q sub by (intro entry_ok_remove) auto
    next
      show "sorted_wrt disjoint_days (map qe_days (new @ q))" by (rule sorted)
    next
      fix d assume "bit (remove_days av ?c ds ! start) d"
      then have "bit (ds ! start) d" "\<not> bit av d"
        using start remove_days_nth [of start ds av ?c d] cl by blast+
      then show "\<exists>x \<in> set (new @ q). bit (qe_days x) d" using cov' by blast
    qed
    moreover have "accounted ts ds0 (ds', combos')"
      unfolding accounted_def
    proof (intro conjI allI impI)
      show "length (fst (ds', combos')) = length ds0" using len r(2) by simp
      fix i d assume i: "i < length ds0"
      have mem: "ts ! i \<in> set (map (\<lambda>i. ts ! i) ?c) \<longleftrightarrow> i \<in> set ?c"
        using i cl ts len by (auto simp: nth_eq_iff_index_eq)
      have "covered combos (ts ! i) d + of_bool (bit (ds ! i) d) = of_bool (bit (ds0 ! i) d)"
        using acc i by (simp add: accounted_def)
      moreover have "i \<in> set ?c \<Longrightarrow> bit av d \<Longrightarrow> bit (ds ! i) d" using c(4) av by blast
      moreover have "bit (ds' ! i) d \<longleftrightarrow> bit (ds ! i) d \<and> \<not> (i \<in> set ?c \<and> bit av d)"
        unfolding r(2) by (rule remove_days_nth) (use i len in simp)
      ultimately show "covered (snd (ds', combos')) (ts ! i) d + of_bool (bit (fst (ds', combos') ! i) d) = of_bool (bit (ds0 ! i) d)"
        unfolding r(3) snd_conv fst_conv covered_snoc mem by (cases "i \<in> set ?c"; cases "bit av d") auto
    qed
    ultimately show ?thesis using r(1) by simp
  qed
qed

text \<open>Combinations are chains of trips, each starting where the one before ends.\<close>

definition chains :: "trip_data \<Rightarrow> nat list \<Rightarrow> combination list \<Rightarrow> bool" where
  "chains td ts combos \<longleftrightarrow>
     (\<forall>x \<in> set combos. fst x \<noteq> [] \<and> snd x \<noteq> 0 \<and> successively (connects td) (fst x) \<and> set (fst x) \<subseteq> set ts)"

lemma block_step_chains:
  assumes "chains td ts combos" "entry_ok td ts start ds e" "block_step td ts e (q, ds, combos) = (q', ds', combos')"
    and "length ts = length ds"
  shows "chains td ts combos'"
proof -
  have "successively (connects td) (map (\<lambda>i. ts ! i) (qe_collected e @ [qe_current e]))"
    using assms(2) unfolding entry_ok_def Let_def successively_map by blast
  moreover have "\<forall>i \<in> set (qe_collected e @ [qe_current e]). i < length ts"
    using assms(2,4) by (auto simp: entry_ok_def Let_def sorted_wrt_append)
  ultimately show ?thesis using assms(1,3)
    by (fastforce simp: block_step_def chains_def Let_def split: prod.splits if_splits)
qed

definition days_removed :: "bitfield list \<Rightarrow> bitfield list \<Rightarrow> bool" where
  "days_removed ds ds' \<longleftrightarrow> length ds' = length ds \<and> (\<forall>i < length ds. \<forall>d. bit (ds' ! i) d \<longrightarrow> bit (ds ! i) d)"

lemma block_step_removes:
  assumes "block_step td ts e (q, ds, combos) = (q', ds', combos')"
  shows "days_removed ds ds'"
  using assms by (auto simp: block_step_def days_removed_def Let_def remove_days_nth split: prod.splits if_splits)

lemma days_removed_trans: "days_removed a b \<Longrightarrow> days_removed b c \<Longrightarrow> days_removed a c"
  by (simp add: days_removed_def)

lemma block_loop_ok:
  assumes "accounted ts ds0 s" "chains td ts (snd s)" "stack_ok td ts start (fst s) q"
    and "distinct ts" "length ts = length ds0"
  shows "accounted ts ds0 (block_loop td ts q s) \<and> chains td ts (snd (block_loop td ts q s)) \<and>
    days_removed (fst s) (fst (block_loop td ts q s)) \<and> \<not> bit (fst (block_loop td ts q s) ! start) d"
  using assms
proof (induction td ts q s rule: block_loop.induct)
  case (1 td ts s)
  then show ?case by (simp add: stack_ok_def days_removed_def block_loop.simps)
next
  case (2 td ts e q s)
  obtain ds combos where s: "s = (ds, combos)" by (cases s)
  obtain q' ds' combos' where step: "block_step td ts e (q, ds, combos) = (q', ds', combos')"
    by (metis prod.exhaust)
  have prev: "accounted ts ds0 (ds, combos)" "chains td ts combos" "stack_ok td ts start ds (e # q)"
    using "2.prems" by (simp_all add: s)
  then have e: "entry_ok td ts start ds e" by (simp add: stack_ok_def)
  have ok: "accounted ts ds0 (ds', combos')" "stack_ok td ts start ds' q'"
    using block_step_ok [OF prev(1) "2.prems"(4,5) prev(3) step] by simp_all
  have "length ts = length ds" using "2.prems"(5) prev(1) by (simp add: accounted_def)
  note ch = block_step_chains [OF prev(2) e step this] and rm = block_step_removes [OF step]
  have eq: "block_loop td ts (e # q) s = block_loop td ts q' (ds', combos')"
    by (simp add: s step block_loop.simps)
  from "2.IH" [of q' "(ds', combos')"] ok ch step "2.prems"(4,5) show ?case
    unfolding eq using days_removed_trans [OF rm] by (simp add: s)
qed

declare block_loop.simps [simp del]

lemma block_starts_ok:
  assumes "distinct ts" "length ts = length ds0" "s = (ds0, [])" "k \<le> length ts"
    and "s' = fold (\<lambda>start s. block_loop td ts
         [\<lparr>qe_current = start, qe_collected = [], qe_days = fst s ! start\<rparr>] s) [0..<k] s"
  shows "accounted ts ds0 s' \<and> chains td ts (snd s') \<and> (\<forall>i < k. \<forall>d. \<not> bit (fst s' ! i) d)"
  using assms(4,5)
proof (induction k arbitrary: s')
  case 0
  then show ?case using assms(3) by (simp add: accounted_def chains_def covered_def)
next
  case (Suc k)
  let ?s = "fold (\<lambda>start s. block_loop td ts
         [\<lparr>qe_current = start, qe_collected = [], qe_days = fst s ! start\<rparr>] s) [0..<k] s"
  let ?q = "[\<lparr>qe_current = k, qe_collected = [], qe_days = fst ?s ! k\<rparr>]"
  have ih: "accounted ts ds0 ?s" "chains td ts (snd ?s)" "\<forall>i < k. \<forall>d. \<not> bit (fst ?s ! i) d"
    using Suc.IH [OF _ refl] Suc.prems(1) by simp_all
  have len: "length (fst ?s) = length ds0" using ih(1) by (simp add: accounted_def)
  have st: "stack_ok td ts k (fst ?s) ?q"
    using Suc.prems(1) len assms(2) by (simp add: stack_ok_def entry_ok_def)
  have s': "s' = block_loop td ts ?q ?s" using Suc.prems(2) by simp
  note l = block_loop_ok [OF ih(1,2) st assms(1,2)]
  have "\<not> bit (fst s' ! i) d" if "i < Suc k" for i d
  proof (cases "i = k")
    case True
    then show ?thesis using l s' by simp
  next
    case False
    then have "i < k" "i < length (fst ?s)" using that Suc.prems(1) len assms(2) by simp_all
    moreover have "days_removed (fst ?s) (fst s')" using l unfolding s' by blast
    ultimately show ?thesis using ih(3) unfolding days_removed_def by blast
  qed
  then show ?case using l s' by simp
qed

lemma block_combinations:
  assumes "distinct ts" "length ts = length ds0"
  shows "i < length ts \<Longrightarrow> covered (snd (block_starts td ts (ds0, []))) (ts ! i) d = of_bool (bit (ds0 ! i) d)"
    "chains td ts (snd (block_starts td ts (ds0, [])))"
proof -
  have ok: "accounted ts ds0 (block_starts td ts (ds0, [])) \<and> chains td ts (snd (block_starts td ts (ds0, []))) \<and>
    (\<forall>i < length ts. \<forall>d. \<not> bit (fst (block_starts td ts (ds0, [])) ! i) d)"
    by (rule block_starts_ok [OF assms refl order_refl]) (simp add: block_starts_def)
  then show "i < length ts \<Longrightarrow> covered (snd (block_starts td ts (ds0, []))) (ts ! i) d = of_bool (bit (ds0 ! i) d)"
    "chains td ts (snd (block_starts td ts (ds0, [])))"
    using assms(2) by (auto simp: accounted_def)
qed

text \<open>Property C17. Combining the trips of a block. For a non-empty block of distinct trips the traffic days are
  split exactly: a trip with stops is, on each day of its service, in exactly one combination, and on other
  days in none; trips without stops are in none. Every combination runs on some day, and each of its trips starts at
  the stop where the one before ends.\<close>

theorem rule_services_partition:
  assumes "trips \<noteq> []" "distinct trips" "\<And>key xs. mset (srt key xs) = mset xs"
    and "\<forall>t \<in> set trips. gt_service (td ! t) \<noteq> 0"
  shows "\<exists>combos. rule_services srt td trips = Some combos \<and>
    (\<forall>t d. covered combos t d =
       (if t \<in> set trips \<and> gt_stop_seq (td ! t) \<noteq> [] \<and> bit (gt_service (td ! t)) d then 1 else 0)) \<and>
    (\<forall>(c, b) \<in> set combos. c \<noteq> [] \<and> b \<noteq> 0 \<and> successively (connects td) c)"
proof -
  let ?trips = "filter (\<lambda>t. gt_stop_seq (td ! t) \<noteq> []) trips"
  show ?thesis
  proof (cases "length ?trips = 1")
    case True
    then obtain t where t: "?trips = [t]" by (auto simp: length_Suc_conv)
    then have mem: "x \<in> set trips \<and> gt_stop_seq (td ! x) \<noteq> [] \<longleftrightarrow> x = t" for x
    proof -
      have "x \<in> set ?trips \<longleftrightarrow> x = t" unfolding t by simp
      then show ?thesis by simp
    qed
    have "rule_services srt td trips = Some [([t], gt_service (td ! t))]"
      using assms(1) t by (simp add: rule_services_def Let_def)
    moreover have "gt_service (td ! t) \<noteq> 0" using assms(4) mem by blast
    moreover have "covered [([t], gt_service (td ! t))] x d =
        (if x \<in> set trips \<and> gt_stop_seq (td ! x) \<noteq> [] \<and> bit (gt_service (td ! x)) d then 1 else 0)" for x d
      using mem [of x] by (cases "x = t") (auto simp: covered_def)
    ultimately show ?thesis by simp
  next
    case False
    let ?key = "\<lambda>t. ev_dep (hd (gt_event_times (td ! t)))"
    define ts where "ts = srt ?key ?trips"
    define combos where "combos = snd (block_starts td ts (map (\<lambda>t. gt_service (td ! t)) ts, []))"
    have m: "mset ts = mset ?trips" unfolding ts_def by (rule assms(3))
    then have ts: "distinct ts" "set ts = set ?trips"
      using assms(2) by (metis distinct_filter mset_eq_imp_distinct_iff, metis set_mset_mset)
    have "length ts = length (map (\<lambda>t. gt_service (td ! t)) ts)" by simp
    note c = block_combinations [OF ts(1) this, where td = td]
    have r: "rule_services srt td trips = Some combos"
      using assms(1) False by (simp add: rule_services_def Let_def combos_def ts_def)
    have ch: "chains td ts combos" unfolding combos_def by (rule c(2))
    have cov: "covered combos t d = (if t \<in> set ts \<and> bit (gt_service (td ! t)) d then 1 else 0)" for t d
    proof (cases "t \<in> set ts")
      case True
      then obtain i where i: "i < length ts" "t = ts ! i" by (auto simp: in_set_conv_nth)
      then show ?thesis using c(1) [of i d] by (simp add: combos_def)
    next
      case False
      then have "filter (\<lambda>(c, b). t \<in> set c \<and> bit b d) combos = []"
        using ch by (fastforce simp: chains_def filter_empty_conv)
      with False show ?thesis by (simp add: covered_def)
    qed
    have "\<forall>(c, b) \<in> set combos. c \<noteq> [] \<and> b \<noteq> 0 \<and> successively (connects td) c"
      using ch by (auto simp: chains_def)
    with r cov ts(2) show ?thesis by (intro exI [of _ combos]) auto
  qed
qed

text \<open>A trip to stop 1 on three days, from where the vehicle goes on to stop 2 on two of them and to stop 3
  on the third.\<close>

definition example_trip :: "nat list \<Rightarrow> int \<Rightarrow> bitfield \<Rightarrow> gtfs_trip" where
  "example_trip seq t b =
     \<lparr>gt_route = 0, gt_service = b, gt_stop_seq = seq,
      gt_event_times = [\<lparr>ev_arr = t, ev_dep = t\<rparr>, \<lparr>ev_arr = t + 10, ev_dep = t + 10\<rparr>], gt_frequency = None,
      gt_requires_interpolation = False, gt_flags = [], gt_clasz = None\<rparr>"

definition example_block :: trip_data where
  "example_block = [example_trip [0, 1] 600 7, example_trip [1, 2] 620 3, example_trip [1, 3] 620 4]"

theorem rule_services_partition_witness:
  "\<exists>combos. rule_services sort_key example_block [0, 1, 2] = Some combos \<and>
    covered combos 0 2 = 1 \<and> covered combos 1 2 = 0 \<and> covered combos 2 2 = 1"
proof -
  have b: "bit (7 :: bitfield) 2" "\<not> bit (3 :: bitfield) 2" "bit (4 :: bitfield) 2"
    by (simp_all add: bit_iff_odd)
  have "\<forall>t \<in> set [0, 1, 2]. gt_service (example_block ! t) \<noteq> 0"
    by (simp add: example_block_def example_trip_def)
  from rule_services_partition [OF _ _ _ this, of sort_key] obtain combos where
    "rule_services sort_key example_block [0, 1, 2] = Some combos"
    "\<And>t d. covered combos t d = (if t \<in> set [0, 1, 2] \<and> gt_stop_seq (example_block ! t) \<noteq> [] \<and>
       bit (gt_service (example_block ! t)) d then 1 else 0)" by auto
  with b show ?thesis by (intro exI [of _ combos]) (simp add: example_block_def example_trip_def)
qed

end
