(* ===== verification/Gtfs_Seated.thy ===== *)
theory Gtfs_Seated
  imports Gtfs_Expand
begin

text \<open>
  Stay-seated transfers between trips (\<open>src/loader/gtfs/seated.cc\<close>, \<open>include/nigiri/loader/gtfs/seated.h\<close>
  and the resolution of transfers in \<open>src/loader/gtfs/load_timetable.cc\<close>): trips of which a vehicle goes
  on as another trip are concatenated to one transport for the days on which all of a component run.
  Hash maps are association lists; \<open>pick\<close> is the element that \<open>begin\<close> of a map refers to and \<open>ord\<close> the
  order in which a map is iterated over. The correctness is in \<open>Gtfs_Seated_Correct\<close>.
\<close>

section \<open>Resolving the transfers\<close>

text \<open>What a trip has besides the fields of \<open>gtfs_trip\<close>.\<close>

record trip_links =
  tl_in_block :: bool
  tl_seated_in :: "nat list"
  tl_seated_out :: "nat list"
  tl_flex :: bool
  tl_trip_idx :: "nat option"

definition push_unique :: "'a \<Rightarrow> 'a list \<Rightarrow> 'a list" where
  "push_unique x xs = (if x \<in> set xs then xs else xs @ [x])"

definition add_seated :: "nat \<Rightarrow> nat \<Rightarrow> trip_links list \<Rightarrow> trip_links list" where
  "add_seated f t links =
     (let links = links[t := (links ! t)\<lparr>tl_seated_in := push_unique f (tl_seated_in (links ! t))\<rparr>]
      in links[f := (links ! f)\<lparr>tl_seated_out := push_unique t (tl_seated_out (links ! f))\<rparr>])"

text \<open>Transfers of unknown trips are skipped.\<close>

definition resolve_seated :: "(string \<rightharpoonup> nat) \<Rightarrow> (string \<times> string list) list \<Rightarrow> trip_links list \<Rightarrow> trip_links list" where
  "resolve_seated trips transfers links =
     fold (\<lambda>(from_id, to_ids) links.
         case trips from_id of
           None \<Rightarrow> links
         | Some f \<Rightarrow> fold (\<lambda>to_id links. case trips to_id of None \<Rightarrow> links | Some t \<Rightarrow> add_seated f t links) to_ids links)
       transfers links"

definition has_seated_transfers :: "trip_links \<Rightarrow> bool" where
  "has_seated_transfers l \<longleftrightarrow> tl_seated_in l \<noteq> [] \<or> tl_seated_out l \<noteq> []"

section \<open>Expanded trips\<close>

record seated_trips =
  se_in :: "nat list list"
  se_out :: "nat list list"
  se_expanded :: "utc_trip list list"

text \<open>The rule trip of an expanded trip, and the expanded trips of a rule trip.\<close>

definition se_rule_trip :: "seated_trips \<Rightarrow> nat list" where
  "se_rule_trip s = concat (map (\<lambda>(t, b). replicate (length b) t) (zip [0..<length (se_expanded s)] (se_expanded s)))"

definition get_remaining :: "seated_trips \<Rightarrow> nat \<Rightarrow> nat list" where
  "get_remaining s t = filter (\<lambda>i. se_rule_trip s ! i = t) [0..<length (se_rule_trip s)]"

definition rule_trips :: "trip_links list \<Rightarrow> nat list" where
  "rule_trips links = filter (\<lambda>i. has_seated_transfers (links ! i)) [0..<length links]"

definition to_rule_trip_idx :: "trip_links list \<Rightarrow> nat \<Rightarrow> nat" where
  "to_rule_trip_idx links x =
     (case map_of (zip (rule_trips links) [0..<length (rule_trips links)]) x of Some t \<Rightarrow> t | None \<Rightarrow> 2 ^ 32 - 1)"

definition expand_seated_trips ::
    "trip_data \<Rightarrow> trip_links list \<Rightarrow> (nat \<Rightarrow> utc_trip list option) \<Rightarrow> seated_trips option" where
  "expand_seated_trips td links expand =
     (case those (map expand (rule_trips links)) of
        None \<Rightarrow> None
      | Some us \<Rightarrow> Some \<lparr>
          se_in = map (\<lambda>i. map (to_rule_trip_idx links) (tl_seated_in (links ! i))) (rule_trips links),
          se_out = map (\<lambda>i. map (to_rule_trip_idx links) (tl_seated_out (links ! i))) (rule_trips links),
          se_expanded = map (map (\<lambda>u. u\<lparr>ut_stop_seq := gt_stop_seq (td ! hd (ut_trips u))\<rparr>)) us\<rparr>)"

section \<open>Components\<close>

definition seated_shift :: "bitfield \<Rightarrow> int \<Rightarrow> bitfield" where
  "seated_shift b offset = (if 0 < offset then push_bit (nat offset) b else drop_bit (nat (- offset)) b)"

definition get_day_change_offset :: "utc_trip list \<Rightarrow> nat \<Rightarrow> nat \<Rightarrow> int" where
  "get_day_change_offset rem a b =
     (let first_dep = \<lambda>x. hd (utc_times (rem ! x)); last_arr = \<lambda>x. last (utc_times (rem ! x));
          day_span = cdiv (last_arr a) 1440 - cdiv (first_dep a) 1440;
          day_change = (if first_dep b < cmod (last_arr a) 1440 then 1 else 0)
      in day_span + day_change)"

definition is_valid_dwell_time :: "utc_trip list \<Rightarrow> nat \<Rightarrow> nat \<Rightarrow> bool" where
  "is_valid_dwell_time rem a b =
     (let diff = hd (utc_times (rem ! b)) - cmod (last (utc_times (rem ! a))) 1440;
          dwell = (if diff < 0 then diff + 1440 else diff)
      in dwell < 120)"

definition map_emplace :: "'k \<Rightarrow> 'v \<Rightarrow> ('k \<times> 'v) list \<Rightarrow> ('k \<times> 'v) list" where
  "map_emplace k v m = (if k \<in> fst ` set m then m else m @ [(k, v)])"

type_synonym seated_queue = "(nat \<times> int) list"
type_synonym component_state = "seated_queue \<times> seated_queue \<times> bitfield"

definition expand_out ::
    "seated_trips \<Rightarrow> utc_trip list \<Rightarrow> seated_queue \<Rightarrow> nat \<Rightarrow> int \<Rightarrow> nat \<Rightarrow> seated_queue \<Rightarrow> seated_queue" where
  "expand_out s rem members cur offset out_trp q =
     fold (\<lambda>out q.
         if out \<in> fst ` set members \<or> \<not> is_valid_dwell_time rem cur out then q
         else map_emplace out (offset + get_day_change_offset rem cur out) q)
       (get_remaining s out_trp) q"

definition expand_in ::
    "seated_trips \<Rightarrow> utc_trip list \<Rightarrow> seated_queue \<Rightarrow> nat \<Rightarrow> int \<Rightarrow> nat \<Rightarrow> seated_queue \<Rightarrow> seated_queue" where
  "expand_in s rem members cur offset in_trp q =
     fold (\<lambda>i q.
         if i \<in> fst ` set members \<or> \<not> is_valid_dwell_time rem i cur then q
         else map_emplace i (offset - get_day_change_offset rem i cur) q)
       (get_remaining s in_trp) q"

definition outgoing_trips :: "seated_trips \<Rightarrow> nat \<Rightarrow> nat list" where
  "outgoing_trips s i = se_out s ! (se_rule_trip s ! i)"

definition incoming_trips :: "seated_trips \<Rightarrow> nat \<Rightarrow> nat list" where
  "incoming_trips s i = se_in s ! (se_rule_trip s ! i)"

definition seated_step ::
    "(seated_queue \<Rightarrow> nat \<times> int) \<Rightarrow> seated_trips \<Rightarrow> utc_trip list \<Rightarrow> component_state \<Rightarrow> component_state" where
  "seated_step pick s rem st =
     (let (q, members, component_traffic_days) = st;
          (cur, offset) = pick q;
          q = filter (\<lambda>x. fst x \<noteq> cur) q;
          next_traffic_days = seated_shift (utc_traffic_days (rem ! cur)) (- offset) AND component_traffic_days
      in if next_traffic_days = 0 then (q, members, component_traffic_days)
         else let members = map_emplace cur offset members;
                  q = fold (expand_out s rem members cur offset) (outgoing_trips s cur) q;
                  q = fold (expand_in s rem members cur offset) (incoming_trips s cur) q
              in (q, members, next_traffic_days))"

partial_function (option) seated_component ::
    "(seated_queue \<Rightarrow> nat \<times> int) \<Rightarrow> seated_trips \<Rightarrow> utc_trip list \<Rightarrow> component_state \<Rightarrow> (seated_queue \<times> bitfield) option" where
  "seated_component pick s rem st =
     (if fst st = [] then Some (snd st) else seated_component pick s rem (seated_step pick s rem st))"

section \<open>Transports of a component\<close>

definition get_representative :: "seated_trips \<Rightarrow> seated_queue \<Rightarrow> nat \<Rightarrow> (nat \<times> int) option" where
  "get_representative s members t = find (\<lambda>x. se_rule_trip s ! fst x = t) members"

text \<open>A chain that may be extended: the transport so far, the last rule trip, the offset of the transport.\<close>

type_synonym seated_chain = "utc_trip \<times> nat \<times> int"

definition seated_starts :: "seated_trips \<Rightarrow> utc_trip list \<Rightarrow> seated_queue \<Rightarrow> bitfield \<Rightarrow> seated_chain list" where
  "seated_starts s rem members component_traffic_days =
     map (\<lambda>(i, offset). ((rem ! i)\<lparr>utc_traffic_days := seated_shift component_traffic_days offset\<rparr>, se_rule_trip s ! i, - offset))
       (filter (\<lambda>(i, offset). \<forall>t \<in> set (incoming_trips s i). get_representative s members t = None) members)"

definition append_trip :: "utc_trip \<Rightarrow> int \<Rightarrow> utc_trip \<Rightarrow> utc_trip" where
  "append_trip x k cur =
     cur\<lparr>ut_trips := ut_trips cur @ [hd (ut_trips x)],
          utc_times := utc_times cur @ map (\<lambda>t. i16 (t + k * 1440)) (utc_times x),
          ut_stop_seq := ut_stop_seq cur @ tl (ut_stop_seq x)\<rparr>"

definition seated_next :: "seated_trips \<Rightarrow> utc_trip list \<Rightarrow> seated_queue \<Rightarrow> seated_chain \<Rightarrow> seated_chain list" where
  "seated_next s rem members x =
     (case x of (cur, prev_rule_trip, transport_offset) \<Rightarrow>
        List.map_filter (\<lambda>t. map_option (\<lambda>(i, offset).
            (append_trip (rem ! i) (transport_offset + offset) cur, se_rule_trip s ! i, transport_offset))
          (get_representative s members t)) (se_out s ! prev_rule_trip))"

definition kMaxSeatedCombinationSteps :: nat where
  "kMaxSeatedCombinationSteps = 10000"

text \<open>The back of the vector is the front of the list. After too many steps the trips stay separate.\<close>

function seated_dfs ::
    "seated_trips \<Rightarrow> utc_trip list \<Rightarrow> seated_queue \<Rightarrow> bitfield \<Rightarrow> nat \<Rightarrow> seated_chain list \<Rightarrow> utc_trip list \<Rightarrow> utc_trip list" where
  "seated_dfs s rem members b n q transports =
     (case q of
        [] \<Rightarrow> transports
      | x # q \<Rightarrow>
          if n = 0 then map (\<lambda>(i, offset). (rem ! i)\<lparr>utc_traffic_days := seated_shift b offset\<rparr>) members
          else if seated_next s rem members x = [] then seated_dfs s rem members b (n - 1) q (transports @ [fst x])
          else seated_dfs s rem members b (n - 1) (rev (seated_next s rem members x) @ q) transports)"
  by pat_completeness auto
termination by (relation "measure (\<lambda>(s, rem, members, b, n, q, transports). n)") auto

declare seated_dfs.simps [simp del]

section \<open>All components\<close>

definition update_remaining :: "bitfield \<Rightarrow> nat \<times> int \<Rightarrow> utc_trip list \<times> bool list \<Rightarrow> utc_trip list \<times> bool list" where
  "update_remaining b x st =
     (let (i, offset) = x; (rem, has_bits) = st;
          b' = utc_traffic_days (rem ! i) AND NOT (seated_shift b offset)
      in (rem[i := (rem ! i)\<lparr>utc_traffic_days := b'\<rparr>], if b' = 0 then has_bits[i := False] else has_bits))"

definition next_set_bit :: "bool list \<Rightarrow> nat \<Rightarrow> nat option" where
  "next_set_bit bs i = find (\<lambda>k. bs ! k) [i..<length bs]"

partial_function (option) seated_loop ::
    "(seated_queue \<Rightarrow> nat \<times> int) \<Rightarrow> (seated_queue \<Rightarrow> seated_queue) \<Rightarrow> seated_trips
     \<Rightarrow> utc_trip list \<times> bool list \<Rightarrow> nat \<Rightarrow> utc_trip list \<Rightarrow> utc_trip list option" where
  "seated_loop pick ord s st i out =
     (case next_set_bit (snd st) i of
        None \<Rightarrow> Some out
      | Some i \<Rightarrow>
          (case seated_component pick s (fst st) ([(i, 0)], [], utc_traffic_days (fst st ! i)) of
             None \<Rightarrow> None
           | Some (members, b) \<Rightarrow>
               seated_loop pick ord s (fold (update_remaining b) (ord members) st) i
                 (out @ seated_dfs s (fst st) (ord members) b kMaxSeatedCombinationSteps
                    (rev (seated_starts s (fst st) (ord members) b)) [])))"

definition build_seated_trips ::
    "(seated_queue \<Rightarrow> nat \<times> int) \<Rightarrow> (seated_queue \<Rightarrow> seated_queue) \<Rightarrow> seated_trips \<Rightarrow> utc_trip list option" where
  "build_seated_trips pick ord s =
     (let remaining = concat (se_expanded s)
      in seated_loop pick ord s (remaining, replicate (length remaining) True) 0 [])"

end
