(* ===== verification/Gtfs_Seated_Correct.thy ===== *)
theory Gtfs_Seated_Correct
  imports Gtfs_Seated "HOL-Library.Multiset"
begin

text \<open>
  The concatenation of stay-seated trips ends, and every transport is a chain of trips that run on the days
  of the transport, at their times. If no vehicle returns to a trip and every trip was expanded to one
  service, no run of a trip is lost; without either condition runs are lost.
\<close>

section \<open>Shifted days\<close>

lemma bit_seated_shift:
  "bit (seated_shift b off) d \<longleftrightarrow> d < 512 \<and> 0 \<le> int d - off \<and> bit b (nat (int d - off))"
proof (cases "0 < off")
  case True
  then obtain n where n: "off = int n" by (metis zero_less_imp_eq_int)
  have "nat (int d - int n) = d - n" by simp
  with True n show ?thesis by (auto simp: seated_shift_def bit_push_bit_iff)
next
  case False
  then obtain n where n: "off = - int n" by (metis le_minus_iff minus_equation_iff nat_0_le not_less neg_0_le_iff_le add.inverse_inverse)
  have e: "nat (int d + int n) = n + d" by simp
  have "bit b (n + d) \<Longrightarrow> n + d < 512" using bit_imp_le_length [of b "n + d"] by simp
  then show ?thesis unfolding n e by (auto simp: seated_shift_def bit_drop_bit_eq n e)
qed

lemma nonzero_bit: "(b :: bitfield) \<noteq> 0 \<longleftrightarrow> (\<exists>d. bit b d)"
  by (metis bit_eq_iff bit_0_eq bot_apply bot_bool_def)

section \<open>One component\<close>

definition same_trips :: "utc_trip list \<Rightarrow> utc_trip list \<Rightarrow> bool" where
  "same_trips rem0 rem \<longleftrightarrow> length rem = length rem0 \<and>
     (\<forall>i < length rem0. \<exists>b. rem ! i = (rem0 ! i)\<lparr>utc_traffic_days := b\<rparr> \<and>
        (\<forall>d. bit b d \<longrightarrow> bit (utc_traffic_days (rem0 ! i)) d))"

definition members_run :: "utc_trip list \<Rightarrow> seated_queue \<Rightarrow> bitfield \<Rightarrow> bool" where
  "members_run rem members b \<longleftrightarrow>
     (\<forall>(i, off) \<in> set members. i < length rem \<and>
        (\<forall>d. bit b d \<longrightarrow> 0 \<le> int d + off \<and> bit (utc_traffic_days (rem ! i)) (nat (int d + off))))"

definition component_ok :: "utc_trip list \<Rightarrow> nat \<Rightarrow> component_state \<Rightarrow> bool" where
  "component_ok rem root st =
     (case st of (q, members, b) \<Rightarrow>
        distinct (map fst members) \<and> distinct (map fst q) \<and> fst ` set q \<inter> fst ` set members = {} \<and>
        (\<forall>x \<in> set q. fst x < length rem) \<and> b \<noteq> 0 \<and> (\<forall>d. bit b d \<longrightarrow> bit (utc_traffic_days (rem ! root)) d) \<and>
        members_run rem members b \<and> ((root, 0) \<in> set members \<or> members = [] \<and> q = [(root, 0)]))"

definition queue_ok :: "nat \<Rightarrow> nat set \<Rightarrow> seated_queue \<Rightarrow> bool" where
  "queue_ok n S q \<longleftrightarrow> distinct (map fst q) \<and> fst ` set q \<inter> S = {} \<and> (\<forall>x \<in> set q. fst x < n)"

lemma map_emplace_ok: "queue_ok n S q \<Longrightarrow> k \<notin> S \<Longrightarrow> k < n \<Longrightarrow> queue_ok n S (map_emplace k v q)"
  by (auto simp: queue_ok_def map_emplace_def image_iff)

lemma expand_out_ok:
  assumes "queue_ok n (fst ` set members) q" "length (se_rule_trip s) = n"
  shows "queue_ok n (fst ` set members) (expand_out s rem members cur off t q)"
  unfolding expand_out_def
  by (rule fold_invariant [where P = "queue_ok n (fst ` set members)"])
    (use assms in \<open>auto simp: get_remaining_def intro!: map_emplace_ok\<close>)

lemma expand_in_ok:
  assumes "queue_ok n (fst ` set members) q" "length (se_rule_trip s) = n"
  shows "queue_ok n (fst ` set members) (expand_in s rem members cur off t q)"
  unfolding expand_in_def
  by (rule fold_invariant [where P = "queue_ok n (fst ` set members)"])
    (use assms in \<open>auto simp: get_remaining_def intro!: map_emplace_ok\<close>)

lemma fold_expand_ok:
  assumes "queue_ok n (fst ` set members) q" "length (se_rule_trip s) = n"
  shows "queue_ok n (fst ` set members)
    (fold (expand_in s rem members cur off) ins (fold (expand_out s rem members cur off) outs q))"
proof -
  have "queue_ok n (fst ` set members) (fold (expand_out s rem members cur off) outs q)"
    by (rule fold_invariant [where P = "queue_ok n (fst ` set members)"]) (use assms expand_out_ok in auto)
  then show ?thesis
    by (rule fold_invariant [where P = "queue_ok n (fst ` set members)"]) (use assms expand_in_ok in auto)
qed

definition component_left :: "nat \<Rightarrow> component_state \<Rightarrow> nat \<times> nat" where
  "component_left n st = (card ({..<n} - fst ` set (fst (snd st))), length (fst st))"

lemma seated_step_ok:
  assumes ok: "component_ok rem root st" and q: "fst st \<noteq> []" and p: "pick (fst st) \<in> set (fst st)"
    and n: "length (se_rule_trip s) = length rem" and st': "st' = seated_step pick s rem st"
  shows "component_ok rem root st' \<and>
    (component_left (length rem) st', component_left (length rem) st) \<in> less_than <*lex*> less_than"
proof -
  obtain qs members b where st: "st = (qs, members, b)" by (cases st)
  obtain cur off where c: "pick qs = (cur, off)" by (cases "pick qs")
  let ?q = "filter (\<lambda>x. fst x \<noteq> cur) qs"
  let ?b = "seated_shift (utc_traffic_days (rem ! cur)) (- off) AND b"
  have k: "distinct (map fst members)" "queue_ok (length rem) (fst ` set members) qs" "(cur, off) \<in> set qs"
    "members_run rem members b" "\<forall>d. bit b d \<longrightarrow> bit (utc_traffic_days (rem ! root)) d" "b \<noteq> 0"
    "(root, 0) \<in> set members \<or> members = [] \<and> qs = [(root, 0)]"
    using ok p unfolding st component_ok_def queue_ok_def by (auto simp: c)
  have q': "queue_ok (length rem) (insert cur (fst ` set members)) ?q"
    using k(2) by (auto simp: queue_ok_def distinct_map inj_on_def)
  have cur: "cur < length rem" "cur \<notin> fst ` set members" using k(2,3) imageI [OF k(3), of fst] by (auto simp: queue_ok_def)
  have len: "length ?q < length qs" by (rule length_filter_less [OF k(3)]) simp
  show ?thesis
  proof (cases "?b = 0")
    case True
    have s: "st' = (?q, members, b)" unfolding st' st seated_step_def Let_def by (simp add: c True)
    have "(root, 0) \<in> set members"
    proof (rule ccontr)
      assume "(root, 0) \<notin> set members"
      then have r: "cur = root" "off = 0" using k(3,7) by auto
      obtain d where "bit b d" using k(6) nonzero_bit by blast
      moreover have "d < 512" using bit_imp_le_length [OF calculation] by simp
      ultimately have "bit ?b d" using k(5) r by (simp add: bit_and_iff bit_seated_shift)
      then show False using True by simp
    qed
    then have "component_ok rem root st'" unfolding s component_ok_def
      using k q' by (auto simp: queue_ok_def)
    then show ?thesis using len by (simp add: s st component_left_def)
  next
    case False
    let ?m = "members @ [(cur, off)]"
    have m: "map_emplace cur off members = ?m" using cur(2) by (simp add: map_emplace_def)
    have Q: "queue_ok (length rem) (fst ` set ?m) ?q" using q' by simp
    obtain q2 where s: "st' = (q2, ?m, ?b)" and q2: "queue_ok (length rem) (fst ` set ?m) q2"
      using fold_expand_ok [OF Q n] False unfolding st' st seated_step_def Let_def by (simp add: c m)
    have "members_run rem ?m ?b"
      using k(4) cur(1) by (auto simp: members_run_def bit_and_iff bit_seated_shift)
    moreover have "(root, 0) \<in> set ?m" using k(3,7) by auto
    moreover have "\<forall>d. bit ?b d \<longrightarrow> bit (utc_traffic_days (rem ! root)) d" using k(5) by (simp add: bit_and_iff)
    ultimately have "component_ok rem root st'"
      unfolding s component_ok_def using k(1) cur(2) q2 False by (auto simp: queue_ok_def)
    moreover have "card ({..<length rem} - fst ` set ?m) < card ({..<length rem} - fst ` set members)"
      using cur by (intro psubset_card_mono) auto
    ultimately show ?thesis by (simp add: s st component_left_def)
  qed
qed

lemma seated_component_ok:
  assumes "component_ok rem root st" "length (se_rule_trip s) = length rem" "\<And>q. q \<noteq> [] \<Longrightarrow> pick q \<in> set q"
  shows "\<exists>members b. seated_component pick s rem st = Some (members, b) \<and> component_ok rem root ([], members, b)"
  using assms(1)
proof (induction "component_left (length rem) st" arbitrary: st rule: wf_induct_rule [OF wf_lex_prod [OF wf_less_than wf_less_than]])
  case (1 st)
  show ?case
  proof (cases "fst st = []")
    case True
    then show ?thesis using 1(2) by (cases st) (auto simp: seated_component.simps)
  next
    case False
    note S = seated_step_ok [where pick = pick, OF 1(2) False assms(3) [OF False] assms(2) refl]
    show ?thesis using 1(1) [OF conjunct2 [OF S] conjunct1 [OF S]] False
      by (simp add: seated_component.simps [of pick s rem st])
  qed
qed

section \<open>Chains of members\<close>

text \<open>The chains that the depth-first search visits, as lists of members with their offsets.\<close>

inductive_set seated_chains :: "seated_trips \<Rightarrow> seated_queue \<Rightarrow> (nat \<times> int) list set" for s members where
  chain_start: "(i, off) \<in> set members \<Longrightarrow> \<forall>t \<in> set (incoming_trips s i). get_representative s members t = None \<Longrightarrow>
     [(i, off)] \<in> seated_chains s members"
| chain_next: "ms \<in> seated_chains s members \<Longrightarrow> t \<in> set (outgoing_trips s (fst (last ms))) \<Longrightarrow>
     get_representative s members t = Some m \<Longrightarrow> ms @ [m] \<in> seated_chains s members"

definition chain_item :: "seated_trips \<Rightarrow> utc_trip list \<Rightarrow> bitfield \<Rightarrow> (nat \<times> int) list \<Rightarrow> seated_chain" where
  "chain_item s rem b ms =
     (foldl (\<lambda>u (i, off). append_trip (rem ! i) (off - snd (hd ms)) u)
        ((rem ! fst (hd ms))\<lparr>utc_traffic_days := seated_shift b (snd (hd ms))\<rparr>) (tl ms),
      se_rule_trip s ! fst (last ms), - snd (hd ms))"

definition chain_succs :: "seated_trips \<Rightarrow> seated_queue \<Rightarrow> (nat \<times> int) list \<Rightarrow> (nat \<times> int) list" where
  "chain_succs s members ms = List.map_filter (get_representative s members) (outgoing_trips s (fst (last ms)))"

definition complete_chains :: "seated_trips \<Rightarrow> seated_queue \<Rightarrow> (nat \<times> int) list set" where
  "complete_chains s members = {ms \<in> seated_chains s members. chain_succs s members ms = []}"

lemma chains_nonempty: "ms \<in> seated_chains s members \<Longrightarrow> ms \<noteq> []"
  by (erule seated_chains.cases) auto

lemma representative_member:
  assumes "get_representative s members t = Some m"
  shows "m \<in> set members" "se_rule_trip s ! fst m = t"
  using assms unfolding get_representative_def by (auto simp: find_Some_iff)

lemma chains_members: "ms \<in> seated_chains s members \<Longrightarrow> set ms \<subseteq> set members"
  by (induction rule: seated_chains.induct) (auto dest: representative_member)

lemma chain_item_snoc:
  assumes "ms \<noteq> []"
  shows "chain_item s rem b (ms @ [(i, off)]) =
    (append_trip (rem ! i) (- snd (hd ms) + off) (fst (chain_item s rem b ms)), se_rule_trip s ! i, - snd (hd ms))"
  using assms by (simp add: chain_item_def)

lemma seated_next_chain:
  assumes "ms \<noteq> []"
  shows "seated_next s rem members (chain_item s rem b ms) =
    map (\<lambda>m. chain_item s rem b (ms @ [m])) (chain_succs s members ms)"
proof -
  let ?f = "\<lambda>m. chain_item s rem b (ms @ [m])"
  obtain u where u: "chain_item s rem b ms = (u, se_rule_trip s ! fst (last ms), - snd (hd ms))"
    by (simp add: chain_item_def)
  have f: "?f = (\<lambda>(i, off). (append_trip (rem ! i) (- snd (hd ms) + off) u, se_rule_trip s ! i, - snd (hd ms)))"
  proof
    fix m show "?f m = (case m of (i, off) \<Rightarrow> (append_trip (rem ! i) (- snd (hd ms) + off) u, se_rule_trip s ! i, - snd (hd ms)))"
      by (cases m) (simp add: chain_item_snoc [OF assms] u)
  qed
  show ?thesis unfolding f u seated_next_def outgoing_trips_def chain_succs_def
    by (auto simp: List.map_filter_def comp_def)
qed

lemma seated_starts_chain:
  "seated_starts s rem members b = map (\<lambda>m. chain_item s rem b [m])
     (filter (\<lambda>(i, off). \<forall>t \<in> set (incoming_trips s i). get_representative s members t = None) members)"
  unfolding seated_starts_def by (rule map_cong [OF refl]) (auto simp: chain_item_def)

text \<open>The descendants of a chain.\<close>

lemma chain_succs_iff: "m \<in> set (chain_succs s members ms) \<longleftrightarrow>
    (\<exists>t \<in> set (outgoing_trips s (fst (last ms))). get_representative s members t = Some m)"
  by (auto simp: chain_succs_def List.map_filter_def) force+

definition separate :: "utc_trip list \<Rightarrow> seated_queue \<Rightarrow> bitfield \<Rightarrow> utc_trip list" where
  "separate rem members b = map (\<lambda>(i, off). (rem ! i)\<lparr>utc_traffic_days := seated_shift b off\<rparr>) members"

lemma seated_dfs_sound:
  assumes "\<forall>ms \<in> set mss. ms \<in> seated_chains s members"
    and "\<forall>u \<in> set ts. u \<in> fst ` chain_item s rem b ` complete_chains s members"
  shows "seated_dfs s rem members b n (map (chain_item s rem b) mss) ts = separate rem members b \<or>
    set (seated_dfs s rem members b n (map (chain_item s rem b) mss) ts) \<subseteq> fst ` chain_item s rem b ` complete_chains s members"
  using assms
proof (induction n arbitrary: mss ts)
  case 0
  then show ?case by (cases mss) (auto simp: seated_dfs.simps separate_def)
next
  case (Suc n)
  show ?case
  proof (cases mss)
    case Nil
    then show ?thesis using Suc.prems by (simp add: seated_dfs.simps subset_iff)
  next
    case (Cons ms mss')
    note next_ms = seated_next_chain [OF chains_nonempty, where s = s and members = members and rem = rem and b = b]
    have ms: "ms \<in> seated_chains s members" using Suc.prems(1) Cons by simp
    let ?D = "seated_dfs s rem members b (Suc n) (map (chain_item s rem b) mss) ts"
    show ?thesis
    proof (cases "chain_succs s members ms = []")
      case True
      then have "?D = seated_dfs s rem members b n (map (chain_item s rem b) mss') (ts @ [fst (chain_item s rem b ms)])"
        using next_ms [OF ms] Cons by (simp add: seated_dfs.simps [where n = "Suc n"])
      moreover have "ms \<in> complete_chains s members" using ms True by (simp add: complete_chains_def)
      ultimately show ?thesis using Suc.IH [of mss' "ts @ [fst (chain_item s rem b ms)]"] Suc.prems Cons by auto
    next
      case False
      let ?next = "map (\<lambda>m. ms @ [m]) (rev (chain_succs s members ms))"
      have D: "?D = seated_dfs s rem members b n (map (chain_item s rem b) (?next @ mss')) ts"
        using next_ms [OF ms] Cons False by (simp add: seated_dfs.simps [where n = "Suc n"] rev_map comp_def)
      have "\<forall>ms \<in> set (?next @ mss'). ms \<in> seated_chains s members"
        using chain_next [OF ms] Suc.prems(1) Cons by (auto simp: chain_succs_iff)
      then show ?thesis unfolding D by (rule Suc.IH [OF _ Suc.prems(2)])
    qed
  qed
qed

text \<open>Every chain on the stack is continued to a complete one.\<close>

lemma chains_last_step:
  assumes "ms @ [m] \<in> seated_chains s members" "ms \<noteq> []"
  shows "ms \<in> seated_chains s members \<and> m \<in> set (chain_succs s members ms)"
  using assms by (cases rule: seated_chains.cases) (auto simp: chain_succs_iff)

lemma chains_step:
  assumes "ms @ m # x \<in> seated_chains s members" "ms \<noteq> []"
  shows "ms \<in> seated_chains s members \<and> m \<in> set (chain_succs s members ms)"
  using assms(1)
proof (induction x rule: rev_induct)
  case Nil
  then show ?case using chains_last_step assms(2) by metis
next
  case (snoc y x)
  then show ?case using chains_last_step [of "ms @ m # x" y] by simp
qed

lemma seated_dfs_keeps:
  "seated_dfs s rem members b n q ts = separate rem members b \<or> set ts \<subseteq> set (seated_dfs s rem members b n q ts)"
proof (induction n arbitrary: q ts)
  case 0
  then show ?case by (cases q) (auto simp: seated_dfs.simps separate_def)
next
  case (Suc n)
  show ?case
  proof (cases q)
    case (Cons x q')
    show ?thesis using Suc.IH [of q' "ts @ [fst x]"] Suc.IH [of "rev (seated_next s rem members x) @ q'" ts]
      by (auto simp: Cons seated_dfs.simps [where n = "Suc n"])
  qed (simp add: seated_dfs.simps)
qed

lemma seated_dfs_complete:
  assumes "\<forall>ms \<in> set mss. ms \<in> seated_chains s members" "ms @ x \<in> seated_chains s members" "ms \<in> set mss"
  shows "seated_dfs s rem members b n (map (chain_item s rem b) mss) ts = separate rem members b \<or>
    (\<exists>y. ms @ x @ y \<in> complete_chains s members \<and>
      fst (chain_item s rem b (ms @ x @ y)) \<in> set (seated_dfs s rem members b n (map (chain_item s rem b) mss) ts))"
  using assms
proof (induction n arbitrary: mss ts ms x)
  case 0
  then show ?case by (cases mss) (auto simp: seated_dfs.simps separate_def)
next
  case (Suc n)
  obtain ms1 mss' where Cons: "mss = ms1 # mss'" using Suc.prems(3) by (cases mss) auto
  have ms1: "ms1 \<in> seated_chains s members" using Suc.prems(1) Cons by simp
  note next_ms = seated_next_chain [OF chains_nonempty [OF ms1], where s = s and members = members and rem = rem and b = b]
  let ?D = "\<lambda>n mss. seated_dfs s rem members b n (map (chain_item s rem b) mss)"
  show ?case
  proof (cases "chain_succs s members ms1 = []")
    case True
    then have D: "?D (Suc n) mss ts = ?D n mss' (ts @ [fst (chain_item s rem b ms1)])"
      using next_ms Cons by (simp add: seated_dfs.simps [where n = "Suc n"])
    have c: "ms1 \<in> complete_chains s members" using ms1 True by (simp add: complete_chains_def)
    show ?thesis
    proof (cases "ms \<in> set mss'")
      case True
      then show ?thesis using Suc.IH [of mss' ms x "ts @ [fst (chain_item s rem b ms1)]"] Suc.prems Cons D by auto
    next
      case False
      then have "ms = ms1" using Suc.prems(3) Cons by simp
      moreover have "x = []"
        using chains_step [OF _ chains_nonempty [OF ms1], of "hd x" "tl x" s members] Suc.prems(2) \<open>ms = ms1\<close> True by (cases x) auto
      ultimately show ?thesis
        using c D seated_dfs_keeps [of s rem members b n "map (chain_item s rem b) mss'" "ts @ [fst (chain_item s rem b ms1)]"]
        by (auto intro!: exI [of _ "[]"])
    qed
  next
    case False
    let ?next = "map (\<lambda>m. ms1 @ [m]) (rev (chain_succs s members ms1))"
    have D: "?D (Suc n) mss ts = ?D n (?next @ mss') ts"
      using next_ms Cons False by (simp add: seated_dfs.simps [where n = "Suc n"] rev_map comp_def)
    have ch: "\<forall>ms \<in> set (?next @ mss'). ms \<in> seated_chains s members"
      using chain_next [OF ms1] Suc.prems(1) Cons by (auto simp: chain_succs_iff)
    show ?thesis
    proof (cases "ms \<in> set mss'")
      case True
      then show ?thesis using Suc.IH [OF ch Suc.prems(2), of ts] unfolding D by simp
    next
      case neq: False
      then have ms: "ms = ms1" using Suc.prems(3) Cons by simp
      have "\<exists>m y. m \<in> set (chain_succs s members ms1) \<and> ms1 @ [m] @ y \<in> seated_chains s members \<and> (x = [] \<or> m # y = x)"
      proof (cases x)
        case Nil
        obtain m where "m \<in> set (chain_succs s members ms1)" using False by (cases "chain_succs s members ms1") auto
        moreover from this have "ms1 @ [m] \<in> seated_chains s members" using ch by auto
        ultimately show ?thesis using Nil by (intro exI [of _ m]) auto
      next
        case (Cons m y)
        then show ?thesis using chains_step [OF _ chains_nonempty [OF ms1], of m y s members] Suc.prems(2) ms by (intro exI [of _ m] exI [of _ y]) auto
      qed
      then obtain m y where m: "m \<in> set (chain_succs s members ms1)" "(ms1 @ [m]) @ y \<in> seated_chains s members" "x = [] \<or> m # y = x" by auto
      then have "ms1 @ [m] \<in> set (?next @ mss')" by auto
      from Suc.IH [OF ch m(2) this, of ts] consider "?D (Suc n) mss ts = separate rem members b"
        | z where "(ms1 @ [m]) @ y @ z \<in> complete_chains s members"
          "fst (chain_item s rem b ((ms1 @ [m]) @ y @ z)) \<in> set (?D (Suc n) mss ts)" unfolding D by blast
      then show ?thesis
      proof cases
        case 2
        show ?thesis
        proof (cases "x = []")
          case True
          then show ?thesis using 2 ms by (intro disjI2 exI [of _ "m # y @ z"]) simp
        next
          case False
          then have "x = m # y" using m(3) by simp
          then show ?thesis using 2 ms by (intro disjI2 exI [of _ z]) simp
        qed
      qed simp
    qed
  qed
qed

section \<open>What a transport consists of\<close>

text \<open>The trips of transport \<open>u\<close>, each with the day it is on, counted from the day of the transport. On every
  day of the transport each trip runs on its day.\<close>

definition seated_transport :: "seated_trips \<Rightarrow> utc_trip list \<Rightarrow> (nat \<times> int) list \<Rightarrow> utc_trip \<Rightarrow> bool" where
  "seated_transport s ts segs u \<longleftrightarrow> segs \<noteq> [] \<and> snd (hd segs) = 0 \<and> (\<forall>(i, k) \<in> set segs. i < length ts) \<and>
     successively (\<lambda>x y. se_rule_trip s ! fst y \<in> set (outgoing_trips s (fst x))) segs \<and>
     ut_trips u = ut_trips (ts ! fst (hd segs)) @ map (\<lambda>(i, k). hd (ut_trips (ts ! i))) (tl segs) \<and>
     utc_times u = utc_times (ts ! fst (hd segs)) @
       concat (map (\<lambda>(i, k). map (\<lambda>t. i16 (t + k * 1440)) (utc_times (ts ! i))) (tl segs)) \<and>
     ut_stop_seq u = ut_stop_seq (ts ! fst (hd segs)) @ concat (map (\<lambda>(i, k). tl (ut_stop_seq (ts ! i))) (tl segs)) \<and>
     (\<forall>d. bit (utc_traffic_days u) d \<longrightarrow>
        (\<forall>(i, k) \<in> set segs. 0 \<le> int d + k \<and> bit (utc_traffic_days (ts ! i)) (nat (int d + k))))"

definition chain_segs :: "(nat \<times> int) list \<Rightarrow> (nat \<times> int) list" where
  "chain_segs ms = map (\<lambda>(i, off). (i, off - snd (hd ms))) ms"

lemma chain_segs_snoc: "ms \<noteq> [] \<Longrightarrow> chain_segs (ms @ [(i, off)]) = chain_segs ms @ [(i, off - snd (hd ms))]"
  by (simp add: chain_segs_def)

lemma chain_segs_ends: "ms \<noteq> [] \<Longrightarrow> chain_segs ms \<noteq> [] \<and> hd (chain_segs ms) = (fst (hd ms), 0) \<and> fst (last (chain_segs ms)) = fst (last ms)"
  by (cases ms) (auto simp: chain_segs_def last_map split: prod.splits)

lemma same_trips_nth:
  assumes "same_trips ts rem" "i < length ts"
  shows "utc_times (rem ! i) = utc_times (ts ! i)" "ut_trips (rem ! i) = ut_trips (ts ! i)"
    "ut_stop_seq (rem ! i) = ut_stop_seq (ts ! i)"
    "bit (utc_traffic_days (rem ! i)) d \<Longrightarrow> bit (utc_traffic_days (ts ! i)) d"
proof -
  obtain b where "rem ! i = (ts ! i)\<lparr>utc_traffic_days := b\<rparr>" "\<forall>d. bit b d \<longrightarrow> bit (utc_traffic_days (ts ! i)) d"
    using assms by (auto simp: same_trips_def)
  then show "utc_times (rem ! i) = utc_times (ts ! i)" "ut_trips (rem ! i) = ut_trips (ts ! i)"
    "ut_stop_seq (rem ! i) = ut_stop_seq (ts ! i)"
    "bit (utc_traffic_days (rem ! i)) d \<Longrightarrow> bit (utc_traffic_days (ts ! i)) d" by simp_all
qed

lemma append_trip_fields:
  "ut_trips (append_trip x k u) = ut_trips u @ [hd (ut_trips x)]"
  "utc_times (append_trip x k u) = utc_times u @ map (\<lambda>t. i16 (t + k * 1440)) (utc_times x)"
  "ut_stop_seq (append_trip x k u) = ut_stop_seq u @ tl (ut_stop_seq x)"
  "utc_traffic_days (append_trip x k u) = utc_traffic_days u"
  by (simp_all add: append_trip_def)

lemma members_runD:
  assumes "members_run rem members b" "(i, off) \<in> set members"
  shows "i < length rem" "bit b d \<Longrightarrow> 0 \<le> int d + off \<and> bit (utc_traffic_days (rem ! i)) (nat (int d + off))"
  using assms by (auto simp: members_run_def)

lemma members_run_day:
  assumes "members_run rem members b" "same_trips ts rem" "(i, off) \<in> set members" "(j, o') \<in> set members"
    and "bit (seated_shift b o') d"
  shows "0 \<le> int d + (off - o') \<and> bit (utc_traffic_days (ts ! i)) (nat (int d + (off - o')))"
proof -
  let ?c = "nat (int d - o')"
  have c: "0 \<le> int d - o'" "bit b ?c" using assms(5) by (auto simp: bit_seated_shift)
  have i: "i < length rem" "0 \<le> int ?c + off" "bit (utc_traffic_days (rem ! i)) (nat (int ?c + off))"
    using members_runD [OF assms(1,3)] c(2) by blast+
  have e: "int ?c + off = int d + (off - o')" using c(1) by simp
  have "i < length ts" using i(1) assms(2) by (simp add: same_trips_def)
  from same_trips_nth(4) [OF assms(2) this i(3)] i(2) show ?thesis unfolding e by blast
qed

lemma chain_transport:
  assumes R: "members_run rem members b" and same: "same_trips ts rem" and ms: "ms \<in> seated_chains s members"
  shows "seated_transport s ts (chain_segs ms) (fst (chain_item s rem b ms))"
proof -
  have mem: "(i, off) \<in> set members \<Longrightarrow> i < length ts" for i off
    using R same by (auto simp: members_run_def same_trips_def)
  let ?u = "\<lambda>ms. fst (chain_item s rem b ms)"
  have "utc_traffic_days (?u ms) = seated_shift b (snd (hd ms)) \<and>
     successively (\<lambda>x y. se_rule_trip s ! fst y \<in> set (outgoing_trips s (fst x))) (chain_segs ms) \<and>
     ut_trips (?u ms) = ut_trips (ts ! fst (hd ms)) @ map (\<lambda>(i, k). hd (ut_trips (ts ! i))) (tl (chain_segs ms)) \<and>
     utc_times (?u ms) = utc_times (ts ! fst (hd ms)) @
       concat (map (\<lambda>(i, k). map (\<lambda>t. i16 (t + k * 1440)) (utc_times (ts ! i))) (tl (chain_segs ms))) \<and>
     ut_stop_seq (?u ms) = ut_stop_seq (ts ! fst (hd ms)) @ concat (map (\<lambda>(i, k). tl (ut_stop_seq (ts ! i))) (tl (chain_segs ms)))"
    using ms
  proof (induction rule: seated_chains.induct)
    case (chain_start i off)
    then show ?case using same_trips_nth(1-3) [OF same mem] by (simp add: chain_item_def chain_segs_def)
  next
    case (chain_next ms t m)
    obtain i off where m: "m = (i, off)" by (cases m)
    note ne = chains_nonempty [OF chain_next.hyps(1)]
    have i: "i < length ts" using representative_member(1) [OF chain_next.hyps(3)] mem m by blast
    have t: "se_rule_trip s ! i \<in> set (outgoing_trips s (fst (last ms)))"
      using representative_member(2) [OF chain_next.hyps(3)] chain_next.hyps(2) m by simp
    have tl: "tl (chain_segs (ms @ [m])) = tl (chain_segs ms) @ [(i, off - snd (hd ms))]" "hd (ms @ [m]) = hd ms"
      using ne chain_segs_ends [OF ne] by (simp_all add: m chain_segs_snoc)
    have u: "?u (ms @ [m]) = append_trip (rem ! i) (off - snd (hd ms)) (?u ms)"
      unfolding m by (simp add: chain_item_snoc [OF ne])
    show ?case unfolding u append_trip_fields tl
      using chain_next.IH t chain_segs_ends [OF ne]
      by (simp add: same_trips_nth(1-3) [OF same i] m chain_segs_snoc [OF ne] successively_append_iff)
  qed
  moreover note chain_segs_ends [OF chains_nonempty [OF ms]]
  moreover have "\<forall>(i, k) \<in> set (chain_segs ms). i < length ts \<and> (\<forall>d. bit (seated_shift b (snd (hd ms))) d \<longrightarrow>
      0 \<le> int d + k \<and> bit (utc_traffic_days (ts ! i)) (nat (int d + k)))"
  proof (intro ballI, clarify)
    fix i k assume "(i, k) \<in> set (chain_segs ms)"
    then obtain off where o: "(i, off) \<in> set ms" "k = off - snd (hd ms)" by (auto simp: chain_segs_def)
    have h: "(fst (hd ms), snd (hd ms)) \<in> set members" using chains_members [OF ms] chains_nonempty [OF ms] hd_in_set by fastforce
    have i: "(i, off) \<in> set members" using chains_members [OF ms] o(1) by blast
    show "i < length ts \<and> (\<forall>d. bit (seated_shift b (snd (hd ms))) d \<longrightarrow>
      0 \<le> int d + k \<and> bit (utc_traffic_days (ts ! i)) (nat (int d + k)))"
      using mem [OF i] members_run_day [OF R same i h] unfolding o(2) by blast
  qed
  ultimately show ?thesis unfolding seated_transport_def by (simp add: case_prod_unfold)
qed

lemma separate_transport:
  assumes "members_run rem members b" "same_trips ts rem" "u \<in> set (separate rem members b)"
  shows "\<exists>i off. (i, off) \<in> set members \<and> utc_traffic_days u = seated_shift b off \<and> seated_transport s ts [(i, 0)] u"
proof -
  obtain i off where u: "(i, off) \<in> set members" "u = (rem ! i)\<lparr>utc_traffic_days := seated_shift b off\<rparr>"
    using assms(3) by (auto simp: separate_def)
  have i: "i < length ts" using assms(1,2) u(1) by (auto simp: members_run_def same_trips_def)
  have "bit (seated_shift b off) d \<longrightarrow> bit (utc_traffic_days (ts ! i)) d" for d
    using members_run_day [OF assms(1,2) u(1) u(1), of d] by simp
  then have "seated_transport s ts [(i, 0)] u"
    unfolding seated_transport_def using i by (simp add: u(2) same_trips_nth [OF assms(2) i])
  then show ?thesis using u by auto
qed

section \<open>Removing the days of a component\<close>

lemma update_remaining_facts:
  assumes "distinct (map fst members)" "\<forall>x \<in> set members. fst x < length rem" "length has_bits = length rem"
    and "st = fold (update_remaining b) members (rem, has_bits)"
  shows "length (fst st) = length rem" "length (snd st) = length rem"
    "(i, off) \<in> set members \<Longrightarrow>
       fst st ! i = (rem ! i)\<lparr>utc_traffic_days := utc_traffic_days (rem ! i) AND NOT (seated_shift b off)\<rparr>"
    "i \<notin> fst ` set members \<Longrightarrow> fst st ! i = rem ! i \<and> snd st ! i = has_bits ! i"
    "(i, off) \<in> set members \<Longrightarrow> has_bits ! i = (utc_traffic_days (rem ! i) \<noteq> 0) \<Longrightarrow>
       snd st ! i = (utc_traffic_days (fst st ! i) \<noteq> 0)"
proof -
  have "length (fst st) = length rem \<and> length (snd st) = length rem \<and>
    (\<forall>i off. (i, off) \<in> set members \<longrightarrow>
       fst st ! i = (rem ! i)\<lparr>utc_traffic_days := utc_traffic_days (rem ! i) AND NOT (seated_shift b off)\<rparr>) \<and>
    (\<forall>i. i \<notin> fst ` set members \<longrightarrow> fst st ! i = rem ! i \<and> snd st ! i = has_bits ! i) \<and>
    (\<forall>i off. (i, off) \<in> set members \<longrightarrow> has_bits ! i = (utc_traffic_days (rem ! i) \<noteq> 0) \<longrightarrow>
       snd st ! i = (utc_traffic_days (fst st ! i) \<noteq> 0))"
    using assms
  proof (induction members arbitrary: st rule: rev_induct)
    case (snoc x members)
    obtain j off where x: "x = (j, off)" by (cases x)
    define st1 where "st1 = fold (update_remaining b) members (rem, has_bits)"
    obtain rem1 hb1 where st1: "st1 = (rem1, hb1)" by (cases st1)
    have j: "j \<notin> fst ` set members" "j < length rem" using snoc.prems x by auto
    have ih: "length rem1 = length rem" "length hb1 = length rem" "rem1 ! j = rem ! j" "hb1 ! j = has_bits ! j"
      "(i, o') \<in> set members \<Longrightarrow>
         rem1 ! i = (rem ! i)\<lparr>utc_traffic_days := utc_traffic_days (rem ! i) AND NOT (seated_shift b o')\<rparr>"
      "i \<notin> fst ` set members \<Longrightarrow> rem1 ! i = rem ! i \<and> hb1 ! i = has_bits ! i"
      "(i, o') \<in> set members \<Longrightarrow> has_bits ! i = (utc_traffic_days (rem ! i) \<noteq> 0) \<Longrightarrow>
         hb1 ! i = (utc_traffic_days (rem1 ! i) \<noteq> 0)" for i o'
      using snoc.IH [OF _ _ snoc.prems(3) st1_def] snoc.prems(1,2) j by (auto simp: st1)
    let ?b = "utc_traffic_days (rem ! j) AND NOT (seated_shift b off)"
    have st: "st = (rem1[j := (rem ! j)\<lparr>utc_traffic_days := ?b\<rparr>], if ?b = 0 then hb1[j := False] else hb1)"
    proof -
      have "st = update_remaining b (j, off) st1" using snoc.prems(4) by (simp add: x st1_def)
      then show ?thesis using ih(3) by (simp add: st1 update_remaining_def Let_def)
    qed
    have nj: "(i, o') \<in> set members \<Longrightarrow> i \<noteq> j" "(j, o') \<notin> set members" for i o' using j(1) by force+
    have "?b \<noteq> 0 \<Longrightarrow> utc_traffic_days (rem ! j) \<noteq> 0" by auto
    then show ?case using ih j nj by (auto simp: st x nth_list_update)
  qed auto
  then show "length (fst st) = length rem" "length (snd st) = length rem"
    "(i, off) \<in> set members \<Longrightarrow>
       fst st ! i = (rem ! i)\<lparr>utc_traffic_days := utc_traffic_days (rem ! i) AND NOT (seated_shift b off)\<rparr>"
    "i \<notin> fst ` set members \<Longrightarrow> fst st ! i = rem ! i \<and> snd st ! i = has_bits ! i"
    "(i, off) \<in> set members \<Longrightarrow> has_bits ! i = (utc_traffic_days (rem ! i) \<noteq> 0) \<Longrightarrow>
       snd st ! i = (utc_traffic_days (fst st ! i) \<noteq> 0)" by auto
qed

section \<open>Coverage\<close>

text \<open>Transport \<open>u\<close> serves trip \<open>i\<close> on day \<open>d\<close>.\<close>

definition serves :: "seated_trips \<Rightarrow> utc_trip list \<Rightarrow> utc_trip \<Rightarrow> nat \<Rightarrow> nat \<Rightarrow> bool" where
  "serves s ts u i d \<longleftrightarrow> (\<exists>segs k. seated_transport s ts segs u \<and> (i, k) \<in> set segs \<and>
     0 \<le> int d - k \<and> bit (utc_traffic_days u) (nat (int d - k)))"

text \<open>No vehicle returns to a trip, every trip was expanded to at most one service, and the transfers are known
  at both trips.\<close>

definition no_returns :: "seated_trips \<Rightarrow> bool" where
  "no_returns s \<longleftrightarrow> acyclic {(t, t'). t < length (se_out s) \<and> t' \<in> set (se_out s ! t)} \<and>
     (\<forall>b \<in> set (se_expanded s). length b \<le> 1) \<and>
     length (se_out s) = length (se_expanded s) \<and> length (se_in s) = length (se_expanded s) \<and>
     (\<forall>t < length (se_in s). \<forall>t' \<in> set (se_in s ! t). t' < length (se_out s) \<and> t \<in> set (se_out s ! t'))"

lemma rule_trip_less: "t \<in> set (se_rule_trip s) \<Longrightarrow> t < length (se_expanded s)"
  by (auto simp: se_rule_trip_def set_zip)

lemma length_rule_trip: "length (se_rule_trip s) = length (concat (se_expanded s))"
proof -
  have "map (\<lambda>(t, b). length b) (zip [0..<length bs] bs) = map length bs" for bs :: "utc_trip list list"
    by (rule nth_equalityI) simp_all
  then show ?thesis by (simp add: se_rule_trip_def length_concat comp_def case_prod_unfold)
qed

lemma distinct_rule_trip:
  assumes "\<forall>b \<in> set (se_expanded s). length b \<le> 1"
  shows "distinct (se_rule_trip s)"
proof -
  have "distinct (concat (map (\<lambda>(t, b). replicate (length b) t) (zip [a..<a + length bs] bs)))"
    if "\<forall>b \<in> set bs. length b \<le> 1" for a and bs :: "utc_trip list list"
    using that
  proof (induction bs arbitrary: a)
    case (Cons b bs)
    let ?X = "concat (map (\<lambda>(t, b). replicate (length b) t) (zip [Suc a..<Suc a + length bs] bs))"
    have "[a..<a + length (b # bs)] = a # [Suc a..<Suc a + length bs]" by (simp add: upt_conv_Cons del: upt_Suc)
    then have u: "concat (map (\<lambda>(t, b). replicate (length b) t) (zip [a..<a + length (b # bs)] (b # bs))) =
        replicate (length b) a @ ?X" by (simp del: upt_Suc)
    have "set ?X \<subseteq> {Suc a..}" by (auto dest!: set_zip_leftD simp del: upt_Suc)
    then have "a \<notin> set ?X" by (meson atLeast_iff not_less_eq_eq order_refl subsetD)
    moreover have "distinct ?X" using Cons.IH [of "Suc a"] Cons.prems by (simp del: upt_Suc)
    moreover have "b = [] \<or> length b = Suc 0" using Cons.prems by (cases b) auto
    ultimately show ?case unfolding u by (auto simp del: set_concat set_map set_zip)
  qed simp
  from this [OF assms, of 0] show ?thesis by (simp add: se_rule_trip_def)
qed

lemma rule_trip_bound: "i < length (se_rule_trip s) \<Longrightarrow> se_rule_trip s ! i < length (se_expanded s)"
  by (metis (no_types, lifting) nth_mem rule_trip_less)

lemma representative_unique:
  assumes d: "distinct (se_rule_trip s)" and m: "distinct (map fst members)" "(i, off) \<in> set members"
    and n: "\<forall>x \<in> set members. fst x < length (se_rule_trip s)"
  shows "get_representative s members (se_rule_trip s ! i) = Some (i, off)"
proof -
  obtain j o' where j: "get_representative s members (se_rule_trip s ! i) = Some (j, o')"
  proof (cases "get_representative s members (se_rule_trip s ! i)")
    case None
    then show ?thesis using m(2) by (auto simp: get_representative_def find_None_iff)
  qed auto
  note r = representative_member [OF j]
  have "j < length (se_rule_trip s)" "i < length (se_rule_trip s)" using n r(1) m(2) by auto
  then have "j = i" using r(2) d by (simp add: nth_eq_iff_index_eq)
  moreover have "o' = off" using m r(1) calculation by (metis (no_types, lifting) distinct_map fst_conv inj_on_contraD prod.inject)
  ultimately show ?thesis using j by simp
qed

lemma chain_to_member:
  assumes nr: "no_returns s" and m: "distinct (map fst members)"
    and n: "\<forall>x \<in> set members. fst x < length (se_rule_trip s)" and i: "(i, off) \<in> set members"
  shows "\<exists>ms \<in> seated_chains s members. last ms = (i, off)"
proof -
  let ?R = "{(t, t'). t < length (se_out s) \<and> t' \<in> set (se_out s ! t)}"
  have "?R = Sigma {..<length (se_out s)} (\<lambda>t. set (se_out s ! t))" by auto
  then have "finite ?R" by (metis (no_types, lifting) List.finite_set finite_SigmaI finite_lessThan)
  then have "wf ?R" by (rule finite_acyclic_wf) (use nr in \<open>unfold no_returns_def, blast\<close>)
  then show ?thesis using i
  proof (induction "se_rule_trip s ! i" arbitrary: i off rule: wf_induct_rule)
    case less
    let ?t = "se_rule_trip s ! i"
    have i: "i < length (se_rule_trip s)" using n less.prems by auto
    show ?case
    proof (cases "\<forall>t \<in> set (incoming_trips s i). get_representative s members t = None")
      case True
      have "[(i, off)] \<in> seated_chains s members" by (rule chain_start [OF less.prems True])
      then show ?thesis by (intro bexI [of _ "[(i, off)]"]) simp_all
    next
      case False
      then obtain t j o' where t: "t \<in> set (se_in s ! ?t)" "get_representative s members t = Some (j, o')"
        by (auto simp: incoming_trips_def)
      note r = representative_member [OF t(2)]
      have "?t < length (se_in s)" using rule_trip_bound [OF i] nr by (simp add: no_returns_def)
      then have e: "t < length (se_out s)" "?t \<in> set (se_out s ! t)" using t(1) nr unfolding no_returns_def by blast+
      then have "(se_rule_trip s ! j, ?t) \<in> ?R" using r(2) by simp
      from less.hyps [OF this] r(1) obtain ms where ms: "ms \<in> seated_chains s members" "last ms = (j, o')" by auto
      have "distinct (se_rule_trip s)" by (rule distinct_rule_trip) (use nr in \<open>simp add: no_returns_def\<close>)
      note rep = representative_unique [OF this m less.prems n]
      have "ms @ [(i, off)] \<in> seated_chains s members"
        by (rule chain_next [OF ms(1) _ rep]) (use e r(2) ms(2) in \<open>simp add: outgoing_trips_def\<close>)
      then show ?thesis by (intro bexI [of _ "ms @ [(i, off)]"]) simp_all
    qed
  qed
qed

lemma seated_chain_start:
  "ms \<in> seated_chains s members \<Longrightarrow> [hd ms] \<in> seated_chains s members \<and> hd ms \<in> set members \<and>
     (\<forall>t \<in> set (incoming_trips s (fst (hd ms))). get_representative s members t = None)"
proof (induction rule: seated_chains.induct)
  case (chain_start i off)
  then show ?case using seated_chains.chain_start by auto
next
  case (chain_next ms t m)
  then show ?case using chains_nonempty by simp
qed

lemma component_sound:
  assumes R: "members_run rem members b" and same: "same_trips ts rem"
    and u: "u \<in> set (seated_dfs s rem members b n (rev (seated_starts s rem members b)) [])"
  shows "\<exists>segs. seated_transport s ts segs u"
proof -
  let ?mss = "map (\<lambda>m. [m]) (rev (filter (\<lambda>(i, off). \<forall>t \<in> set (incoming_trips s i). get_representative s members t = None) members))"
  have e: "rev (seated_starts s rem members b) = map (chain_item s rem b) ?mss"
    by (simp add: seated_starts_chain rev_map comp_def)
  have c: "\<forall>ms \<in> set ?mss. ms \<in> seated_chains s members" by (auto intro: chain_start)
  consider "u \<in> set (separate rem members b)" | ms where "ms \<in> seated_chains s members" "u = fst (chain_item s rem b ms)"
    using u seated_dfs_sound [OF c, of "[]" rem b n] unfolding e complete_chains_def by fastforce
  then show ?thesis using separate_transport [OF R same] chain_transport [OF R same] by cases blast+
qed

lemma component_serves:
  assumes R: "members_run rem members b" and same: "same_trips ts rem" and nr: "no_returns s"
    and m: "distinct (map fst members)" and len: "length (se_rule_trip s) = length ts"
    and i: "(i, off) \<in> set members" and d: "bit (seated_shift b off) d"
  shows "\<exists>u \<in> set (seated_dfs s rem members b n (rev (seated_starts s rem members b)) []). serves s ts u i d"
proof -
  let ?mss = "map (\<lambda>m. [m]) (rev (filter (\<lambda>(i, off). \<forall>t \<in> set (incoming_trips s i). get_representative s members t = None) members))"
  let ?D = "seated_dfs s rem members b n (rev (seated_starts s rem members b)) []"
  have e: "rev (seated_starts s rem members b) = map (chain_item s rem b) ?mss"
    by (simp add: seated_starts_chain rev_map comp_def)
  have c: "\<forall>ms \<in> set ?mss. ms \<in> seated_chains s members" by (auto intro: chain_start)
  have n: "\<forall>x \<in> set members. fst x < length (se_rule_trip s)"
    using members_runD(1) [OF R] len same by (auto simp: same_trips_def)
  obtain ms where ms: "ms \<in> seated_chains s members" "last ms = (i, off)" using chain_to_member [OF nr m n i] by blast
  note st = seated_chain_start [OF ms(1)]
  have hd: "[hd ms] @ tl ms = ms" using chains_nonempty [OF ms(1)] by simp
  have "[hd ms] \<in> set ?mss" using st by (cases "hd ms") auto
  from seated_dfs_complete [OF c _ this, of "tl ms" rem b n "[]"] ms(1)
  consider "?D = separate rem members b"
    | y where "ms @ y \<in> seated_chains s members" "fst (chain_item s rem b (ms @ y)) \<in> set ?D"
    unfolding e hd complete_chains_def append_assoc [symmetric] by blast
  then show ?thesis
  proof cases
    case 1
    let ?u = "(rem ! i)\<lparr>utc_traffic_days := seated_shift b off\<rparr>"
    have "?u \<in> set (separate rem members b)" using i by (force simp: separate_def)
    moreover have "seated_transport s ts [(i, 0)] ?u"
    proof -
      have "i < length ts" using n i len by auto
      moreover have "bit (seated_shift b off) d \<longrightarrow> bit (utc_traffic_days (ts ! i)) d" for d
        using members_run_day [OF R same i i, of d] by simp
      ultimately show ?thesis unfolding seated_transport_def by (simp add: same_trips_nth [OF same])
    qed
    then have "serves s ts ?u i d" unfolding serves_def using d by (intro exI [of _ "[(i, 0)]"] exI [of _ 0]) simp
    ultimately show ?thesis using 1 by auto
  next
    case 2
    let ?z = "ms @ y" and ?o = "snd (hd ms)" and ?i = "fst (hd ms)"
    have h: "hd ?z = hd ms" using chains_nonempty [OF ms(1)] by simp
    have k: "(i, off - ?o) \<in> set (chain_segs ?z)"
      using chains_nonempty [OF ms(1)] ms(2) last_in_set [of ms] unfolding chain_segs_def h by force
    have c: "0 \<le> int d - off" "bit b (nat (int d - off))" using d by (simp_all add: bit_seated_shift)
    have "(?i, ?o) \<in> set members" using st by simp
    from members_runD(2) [OF R this c(2)] c(1)
    have o: "0 \<le> int d - off + ?o" "bit (utc_traffic_days (rem ! ?i)) (nat (int d - off + ?o))" by simp_all
    have l: "nat (int d - off + ?o) < 512" using bit_imp_le_length [OF o(2)] by simp
    have "utc_traffic_days (fst (chain_item s rem b ?z)) = seated_shift b ?o"
    proof -
      have "utc_traffic_days (foldl (\<lambda>u (i, off). append_trip (rem ! i) (off - o0) u) u xs) = utc_traffic_days u" for u o0 xs
        by (induction xs arbitrary: u) (auto simp: append_trip_fields)
      then show ?thesis by (simp add: chain_item_def h)
    qed
    moreover have "bit (seated_shift b ?o) (nat (int d - (off - ?o)))"
    proof -
      have "int d - (off - ?o) = int d - off + ?o" by simp
      then show ?thesis using l o(1) c by (simp add: bit_seated_shift)
    qed
    ultimately have "serves s ts (fst (chain_item s rem b ?z)) i d"
      unfolding serves_def using chain_transport [OF R same 2(1)] k o(1)
      by (intro exI [of _ "chain_segs ?z"] exI [of _ "off - ?o"]) simp
    then show ?thesis using 2(2) by blast
  qed
qed

section \<open>All components\<close>

definition seated_inv :: "seated_trips \<Rightarrow> utc_trip list \<Rightarrow> utc_trip list \<times> bool list \<Rightarrow> nat \<Rightarrow> utc_trip list \<Rightarrow> bool" where
  "seated_inv s ts st i out \<longleftrightarrow> same_trips ts (fst st) \<and> length (snd st) = length ts \<and>
     (\<forall>k < length ts. snd st ! k = (utc_traffic_days (fst st ! k) \<noteq> 0)) \<and>
     (\<forall>k < i. k < length ts \<longrightarrow> \<not> snd st ! k) \<and>
     (\<forall>u \<in> set out. \<exists>segs. seated_transport s ts segs u) \<and>
     (no_returns s \<longrightarrow> (\<forall>k < length ts. \<forall>d. bit (utc_traffic_days (ts ! k)) d \<longrightarrow>
        bit (utc_traffic_days (fst st ! k)) d \<or> (\<exists>u \<in> set out. serves s ts u k d)))"

definition days_left :: "utc_trip list \<Rightarrow> nat" where
  "days_left rem = (\<Sum>k < length rem. card {d. bit (utc_traffic_days (rem ! k)) d})"

lemma finite_bits: "finite {d. bit (b :: bitfield) d}"
  by (rule finite_subset [of _ "{..<512}"]) (auto dest: bit_imp_le_length)

lemma next_set_bit_Some:
  assumes "next_set_bit bs i = Some r"
  shows "i \<le> r" "r < length bs" "bs ! r" "\<forall>k < r. i \<le> k \<longrightarrow> \<not> bs ! k"
proof -
  obtain n where n: "n < length [i..<length bs]" "bs ! ([i..<length bs] ! n)" "r = [i..<length bs] ! n"
    "\<forall>j < n. \<not> bs ! ([i..<length bs] ! j)"
    using assms by (auto simp: next_set_bit_def find_Some_iff)
  then have r: "r = i + n" by simp
  then show "i \<le> r" "r < length bs" "bs ! r" using n by auto
  show "\<forall>k < r. i \<le> k \<longrightarrow> \<not> bs ! k"
  proof (intro allI impI)
    fix k assume "k < r" "i \<le> k"
    then have "k - i < n" "[i..<length bs] ! (k - i) = k" using r n(1) by auto
    then show "\<not> bs ! k" using n(4) by metis
  qed
qed

lemma next_set_bit_None: "next_set_bit bs i = None \<Longrightarrow> i \<le> k \<Longrightarrow> k < length bs \<Longrightarrow> \<not> bs ! k"
  by (auto simp: next_set_bit_def find_None_iff)

lemma seated_round:
  assumes inv: "seated_inv s ts st i out" and len: "length (se_rule_trip s) = length ts"
    and r: "next_set_bit (snd st) i = Some r"
    and comp: "component_ok (fst st) r ([], members0, b)" and m: "mset members = mset members0"
    and st': "st' = fold (update_remaining b) members st"
    and out': "out' = out @ seated_dfs s (fst st) members b n (rev (seated_starts s (fst st) members b)) []"
  shows "seated_inv s ts st' r out' \<and> days_left (fst st') < days_left (fst st)"
proof -
  obtain rem hb where st: "st = (rem, hb)" by (cases st)
  have I: "same_trips ts rem" "length hb = length ts" "\<forall>k < length ts. hb ! k = (utc_traffic_days (rem ! k) \<noteq> 0)"
    "\<forall>k < i. k < length ts \<longrightarrow> \<not> hb ! k" "\<forall>u \<in> set out. \<exists>segs. seated_transport s ts segs u"
    "no_returns s \<longrightarrow> (\<forall>k < length ts. \<forall>d. bit (utc_traffic_days (ts ! k)) d \<longrightarrow>
        bit (utc_traffic_days (rem ! k)) d \<or> (\<exists>u \<in> set out. serves s ts u k d))"
    using inv unfolding seated_inv_def st fst_conv snd_conv by blast+
  have lr: "length rem = length ts" using I(1) by (simp add: same_trips_def)
  have set: "set members = set members0" "distinct (map fst members)"
    using m comp mset_eq_setD [OF m] mset_eq_imp_distinct_iff [of "map fst members" "map fst members0"]
    by (simp_all add: component_ok_def)
  have C: "members_run rem members b" "(r, 0) \<in> set members" "b \<noteq> 0" "\<forall>d. bit b d \<longrightarrow> bit (utc_traffic_days (rem ! r)) d"
    using comp set(1) by (auto simp: component_ok_def members_run_def st)
  have idx: "\<forall>x \<in> set members. fst x < length rem" using members_runD(1) [OF C(1)] by auto
  note R = next_set_bit_Some [OF r, unfolded st, simplified]
  note U = update_remaining_facts [OF set(2) idx I(2) [folded lr] st' [unfolded st]]
  have day: "bit (utc_traffic_days (fst st' ! k)) d \<longleftrightarrow> bit (utc_traffic_days (rem ! k)) d \<and>
      \<not> (\<exists>off. (k, off) \<in> set members \<and> bit (seated_shift b off) d)" for k d
  proof (cases "k \<in> fst ` set members")
    case True
    then obtain off where off: "(k, off) \<in> set members" by auto
    then have "(k, o') \<in> set members \<Longrightarrow> o' = off" for o' using set(2) eq_key_imp_eq_value by metis
    then have ex: "(\<exists>o'. (k, o') \<in> set members \<and> bit (seated_shift b o') d) \<longleftrightarrow> bit (seated_shift b off) d"
      using off by blast
    have "bit (x AND NOT y) d \<longleftrightarrow> bit x d \<and> \<not> bit y d" for x y :: bitfield
      using bit_imp_le_length [of x d] by (auto simp: bit_and_iff bit_not_iff)
    with U(3) [OF off] show ?thesis unfolding ex by simp
  qed (use U(4) in force)
  have same: "same_trips ts (fst st')" unfolding same_trips_def
  proof (intro conjI allI impI)
    show "length (fst st') = length ts" using U(1) lr by simp
    fix k assume k: "k < length ts"
    obtain b0 where b0: "rem ! k = (ts ! k)\<lparr>utc_traffic_days := b0\<rparr>" "\<forall>d. bit b0 d \<longrightarrow> bit (utc_traffic_days (ts ! k)) d"
      using I(1) k by (auto simp: same_trips_def)
    have "\<exists>b1. fst st' ! k = (rem ! k)\<lparr>utc_traffic_days := b1\<rparr> \<and> (\<forall>d. bit b1 d \<longrightarrow> bit b0 d)"
    proof (cases "k \<in> fst ` set members")
      case True
      then obtain off where "(k, off) \<in> set members" by auto
      from U(3) [OF this] show ?thesis by (auto simp: b0(1) bit_and_iff)
    next
      case False
      then show ?thesis using U(4) b0 by (intro exI [of _ b0]) simp
    qed
    then show "\<exists>b. fst st' ! k = (ts ! k)\<lparr>utc_traffic_days := b\<rparr> \<and> (\<forall>d. bit b d \<longrightarrow> bit (utc_traffic_days (ts ! k)) d)"
      using b0 by auto
  qed
  have hb': "snd st' ! k = (utc_traffic_days (fst st' ! k) \<noteq> 0)" if "k < length ts" for k
  proof (cases "k \<in> fst ` set members")
    case True
    then obtain off where "(k, off) \<in> set members" by auto
    from U(5) [OF this] I(3) that show ?thesis by simp
  qed (use U(4) I(3) that in simp)
  have "seated_inv s ts st' r out'" unfolding seated_inv_def
  proof (intro conjI allI impI ballI)
    show "same_trips ts (fst st')" by (rule same)
    show "length (snd st') = length ts" using U(2) lr by simp
    show "snd st' ! k = (utc_traffic_days (fst st' ! k) \<noteq> 0)" if "k < length ts" for k by (rule hb' [OF that])
    show "\<not> snd st' ! k" if "k < r" "k < length ts" for k
    proof -
      have "\<not> hb ! k" using R(4) I(4) that by (cases "i \<le> k") auto
      then have z: "utc_traffic_days (rem ! k) = 0" using I(3) that by simp
      have "\<not> bit (utc_traffic_days (fst st' ! k)) d" for d using day [of k d] z by simp
      then have "utc_traffic_days (fst st' ! k) = 0" using nonzero_bit by blast
      then show ?thesis using hb' that by simp
    qed
    show "\<exists>segs. seated_transport s ts segs u" if "u \<in> set out'" for u
      using that I(5) component_sound [OF C(1) I(1)] unfolding out' st by auto
    fix k d assume nr: "no_returns s" and k: "k < length ts" "bit (utc_traffic_days (ts ! k)) d"
    show "bit (utc_traffic_days (fst st' ! k)) d \<or> (\<exists>u \<in> set out'. serves s ts u k d)"
    proof (cases "\<exists>off. (k, off) \<in> set members \<and> bit (seated_shift b off) d")
      case True
      then show ?thesis using component_serves [OF C(1) I(1) nr set(2) len] unfolding out' st by fastforce
    next
      case False
      then show ?thesis using I(6) nr k unfolding out' day by auto
    qed
  qed
  moreover have "days_left (fst st') < days_left rem"
    unfolding days_left_def U(1)
  proof (rule sum_strict_mono_ex1)
    show "\<forall>k \<in> {..<length rem}. card {d. bit (utc_traffic_days (fst st' ! k)) d} \<le> card {d. bit (utc_traffic_days (rem ! k)) d}"
      by (intro ballI card_mono finite_bits) (auto simp: day)
    obtain d where d: "bit b d" using C(3) nonzero_bit by blast
    moreover have "d < 512" using bit_imp_le_length [OF d] by simp
    ultimately have "\<not> bit (utc_traffic_days (fst st' ! r)) d" "bit (utc_traffic_days (rem ! r)) d"
      using C(2,4) by (auto simp: day bit_seated_shift intro!: exI [of _ 0])
    then have "card {d. bit (utc_traffic_days (fst st' ! r)) d} < card {d. bit (utc_traffic_days (rem ! r)) d}"
      by (intro psubset_card_mono finite_bits) (auto simp: day)
    then show "\<exists>k \<in> {..<length rem}. card {d. bit (utc_traffic_days (fst st' ! k)) d} < card {d. bit (utc_traffic_days (rem ! k)) d}"
      using R(2) I(2) lr by (intro bexI [of _ r]) auto
  qed simp
  ultimately show ?thesis by (simp add: st)
qed

lemma seated_loop_ok:
  assumes "seated_inv s ts st i out" "length (se_rule_trip s) = length ts"
    and pick: "\<And>q. q \<noteq> [] \<Longrightarrow> pick q \<in> set q" and ord: "\<And>xs. mset (ord xs) = mset xs"
  shows "\<exists>res. seated_loop pick ord s st i out = Some res \<and> (\<forall>u \<in> set res. \<exists>segs. seated_transport s ts segs u) \<and>
    (no_returns s \<longrightarrow> (\<forall>k < length ts. \<forall>d. bit (utc_traffic_days (ts ! k)) d \<longrightarrow> (\<exists>u \<in> set res. serves s ts u k d)))"
  using assms(1)
proof (induction "days_left (fst st)" arbitrary: st i out rule: less_induct)
  case less
  note len = assms(2)
  show ?case
  proof (cases "next_set_bit (snd st) i")
    case None
    have l: "length (snd st) = length ts" "\<forall>k < i. k < length ts \<longrightarrow> \<not> snd st ! k"
      "\<forall>k < length ts. snd st ! k = (utc_traffic_days (fst st ! k) \<noteq> 0)"
      using less.prems unfolding seated_inv_def by blast+
    have "utc_traffic_days (fst st ! k) = 0" if "k < length ts" for k
      using next_set_bit_None [OF None] l that by (cases "k < i") auto
    then show ?thesis using less.prems None by (auto simp: seated_loop.simps seated_inv_def)
  next
    case (Some r)
    note R = next_set_bit_Some [OF Some]
    have l: "length (snd st) = length ts" "length (fst st) = length ts"
      "\<forall>k < length ts. snd st ! k = (utc_traffic_days (fst st ! k) \<noteq> 0)"
      using less.prems by (simp_all add: seated_inv_def same_trips_def)
    have c: "component_ok (fst st) r ([(r, 0)], [], utc_traffic_days (fst st ! r))"
      using R l by (simp add: component_ok_def members_run_def)
    have "\<exists>members b. seated_component pick s (fst st) ([(r, 0)], [], utc_traffic_days (fst st ! r)) = Some (members, b) \<and>
        component_ok (fst st) r ([], members, b)"
      by (rule seated_component_ok [OF c]) (use len l pick in auto)
    then obtain members b where cl: "seated_component pick s (fst st) ([(r, 0)], [], utc_traffic_days (fst st ! r)) = Some (members, b)"
      "component_ok (fst st) r ([], members, b)" by blast
    note round = seated_round [OF less.prems len Some cl(2) ord refl refl]
    show ?thesis
      using less.hyps [OF conjunct2 [OF round] conjunct1 [OF round]]
      by (simp add: seated_loop.simps [of pick ord s st] Some cl(1))
  qed
qed

lemma same_trips_refl: "same_trips ts ts"
  unfolding same_trips_def
proof (intro conjI allI impI)
  fix i
  show "\<exists>b. ts ! i = (ts ! i)\<lparr>utc_traffic_days := b\<rparr> \<and> (\<forall>d. bit b d \<longrightarrow> bit (utc_traffic_days (ts ! i)) d)"
    by (intro exI [of _ "utc_traffic_days (ts ! i)"]) simp
qed simp

lemma build_seated_ok:
  assumes "\<forall>u \<in> set (concat (se_expanded s)). utc_traffic_days u \<noteq> 0"
    and pick: "\<And>q. q \<noteq> [] \<Longrightarrow> pick q \<in> set q" and ord: "\<And>xs. mset (ord xs) = mset xs"
  shows "\<exists>res. build_seated_trips pick ord s = Some res \<and>
    (\<forall>u \<in> set res. \<exists>segs. seated_transport s (concat (se_expanded s)) segs u) \<and>
    (no_returns s \<longrightarrow> (\<forall>k < length (concat (se_expanded s)). \<forall>d. bit (utc_traffic_days (concat (se_expanded s) ! k)) d \<longrightarrow>
       (\<exists>u \<in> set res. serves s (concat (se_expanded s)) u k d)))"
proof -
  define ts where "ts = concat (se_expanded s)"
  have "\<forall>k < length ts. utc_traffic_days (ts ! k) \<noteq> 0" using assms(1) nth_mem unfolding ts_def by blast
  then have "seated_inv s ts (ts, replicate (length ts) True) 0 []"
    by (simp add: seated_inv_def same_trips_refl)
  from seated_loop_ok [OF this length_rule_trip [of s, folded ts_def] pick ord] show ?thesis
    unfolding build_seated_trips_def Let_def ts_def .
qed

text \<open>Property C14. Concatenating trips with stay-seated transfers ends if every trip has a traffic day. Every transport
  is a chain of trips linked by the transfers; its times are those of the trips, and on every day on
  which it runs each of its trips runs, on the day that its times say.\<close>

theorem seated_transports_sound:
  assumes "\<forall>u \<in> set (concat (se_expanded s)). utc_traffic_days u \<noteq> 0"
    and "\<And>q. q \<noteq> [] \<Longrightarrow> pick q \<in> set q" "\<And>xs. mset (ord xs) = mset xs"
  shows "\<exists>res. build_seated_trips pick ord s = Some res \<and>
    (\<forall>u \<in> set res. \<exists>segs. seated_transport s (concat (se_expanded s)) segs u)"
  using build_seated_ok [OF assms] by blast

text \<open>Property C15. If no vehicle returns to a trip and every trip was expanded to one service at most, every run of
  every trip is part of a transport that runs on its day.\<close>

theorem seated_runs_kept:
  assumes "\<forall>u \<in> set (concat (se_expanded s)). utc_traffic_days u \<noteq> 0" "no_returns s"
    and "\<And>q. q \<noteq> [] \<Longrightarrow> pick q \<in> set q" "\<And>xs. mset (ord xs) = mset xs"
  shows "\<exists>res. build_seated_trips pick ord s = Some res \<and>
    (\<forall>k < length (concat (se_expanded s)). \<forall>d. bit (utc_traffic_days (concat (se_expanded s) ! k)) d \<longrightarrow>
       (\<exists>u \<in> set res. serves s (concat (se_expanded s)) u k d))"
  using build_seated_ok [OF assms(1,3,4)] assms(2) by blast

section \<open>Lost runs\<close>

definition seated_example :: "nat \<Rightarrow> int \<Rightarrow> int \<Rightarrow> utc_trip" where
  "seated_example t dep arr = \<lparr>ut_first_dep_offset = 0, ut_tz_offset = 0, ut_trips = [t], utc_times = [dep, arr],
     utc_traffic_days = 1, ut_stop_seq = [t, t + 1]\<rparr>"

text \<open>A vehicle that serves trip 0 from 0:00 to 10:00, trip 1 from 11:00 to 23:00 and trip 0 again the next day.\<close>

definition returning_trips :: seated_trips where
  "returning_trips = \<lparr>se_in = [[1], [0]], se_out = [[1], [0]],
     se_expanded = [[seated_example 0 0 600], [seated_example 1 660 1380]]\<rparr>"

text \<open>Two services of trip 1, as they result from a frequency.\<close>

definition frequent_trips :: seated_trips where
  "frequent_trips = \<lparr>se_in = [[], [0]], se_out = [[1], []],
     se_expanded = [[seated_example 0 600 660], [seated_example 1 670 700, seated_example 1 690 720]]\<rparr>"

lemmas component_eval = seated_step_def expand_out_def expand_in_def outgoing_trips_def incoming_trips_def
  is_valid_dwell_time_def get_day_change_offset_def map_emplace_def seated_example_def cdiv_def cmod_def

lemma seated_shift_0 [simp]: "seated_shift b 0 = b"
  by (simp add: seated_shift_def)

lemma seated_component_step: "fst st \<noteq> [] \<Longrightarrow> seated_step pick s rem st = st' \<Longrightarrow>
    seated_component pick s rem st' = r \<Longrightarrow> seated_component pick s rem st = r"
  by (simp add: seated_component.simps [of pick s rem st])

text \<open>Property C38. Trips that a vehicle serves in a circle are lost: no member of the component is without a
  predecessor, so no transport starts, and the days are removed from both trips.\<close>

theorem returning_trips_lost: "build_seated_trips hd id returning_trips = Some []"
proof -
  have u: "[0..<2] = [0, 1 :: nat]" by (simp add: upt_conv_Cons)
  have r: "se_rule_trip returning_trips = [0, 1]" by (simp add: se_rule_trip_def returning_trips_def u)
  have g: "get_remaining returning_trips 0 = [0]" "get_remaining returning_trips (Suc 0) = [Suc 0]"
    by (simp_all add: get_remaining_def r u)
  have se: "se_out returning_trips = [[1], [0]]" "se_in returning_trips = [[1], [0]]"
    "concat (se_expanded returning_trips) = [seated_example 0 0 600, seated_example 1 660 1380]"
    by (simp_all add: returning_trips_def)
  let ?ts = "[seated_example 0 0 600, seated_example 1 660 1380]"
  have "seated_component hd returning_trips ?ts ([(0, 0)], [], 1) = Some ([(0, 0), (Suc 0, 0)], 1)"
  proof (rule seated_component_step)
    show "seated_step hd returning_trips ?ts ([(0, 0)], [], 1) = ([(Suc 0, 0)], [(0, 0)], 1)"
      by (simp add: component_eval r g se)
    show "seated_component hd returning_trips ?ts ([(Suc 0, 0)], [(0, 0)], 1) = Some ([(0, 0), (Suc 0, 0)], 1)"
    proof (rule seated_component_step)
      show "seated_step hd returning_trips ?ts ([(Suc 0, 0)], [(0, 0)], 1) = ([], [(0, 0), (Suc 0, 0)], 1)"
        by (simp add: component_eval r g se)
    qed (simp_all add: seated_component.simps)
  qed simp
  moreover have "seated_starts returning_trips ?ts [(0, 0), (Suc 0, 0)] 1 = []"
    by (simp add: seated_starts_def incoming_trips_def r se get_representative_def)
  moreover have "next_set_bit [True, True] 0 = Some 0" "next_set_bit [False, False] 0 = None"
    by (simp_all add: next_set_bit_def u numeral_2_eq_2)
  ultimately show ?thesis unfolding build_seated_trips_def Let_def se
    by (simp add: seated_loop.simps seated_dfs.simps update_remaining_def seated_example_def)
qed

text \<open>Of two services of trip 1 that continue trip 0, only the first is in a transport; the other one's days are removed
  nevertheless.\<close>

theorem frequent_trips_lost:
  "build_seated_trips hd id frequent_trips = Some [(seated_example 0 600 660)\<lparr>ut_trips := [0, 1],
     utc_times := [600, 660, 670, 700], ut_stop_seq := [0, 1, 2]\<rparr>]"
proof -
  have u: "[0..<2] = [0, 1 :: nat]" "[0..<3] = [0, 1, 2 :: nat]" by (simp_all add: upt_conv_Cons)
  have r: "se_rule_trip frequent_trips = [0, 1, 1]" by (simp add: se_rule_trip_def frequent_trips_def u)
  have g: "get_remaining frequent_trips 0 = [0]" "get_remaining frequent_trips (Suc 0) = [1, 2]"
    by (simp_all add: get_remaining_def r u)
  have se: "se_out frequent_trips = [[1], []]" "se_in frequent_trips = [[], [0]]"
    "concat (se_expanded frequent_trips) = [seated_example 0 600 660, seated_example 1 670 700, seated_example 1 690 720]"
    by (simp_all add: frequent_trips_def)
  let ?ts = "[seated_example 0 600 660, seated_example 1 670 700, seated_example 1 690 720]"
  have "seated_component hd frequent_trips ?ts ([(0, 0)], [], 1) = Some ([(0, 0), (1, 0), (2, 0)], 1)"
  proof (rule seated_component_step)
    show "seated_step hd frequent_trips ?ts ([(0, 0)], [], 1) = ([(1, 0), (2, 0)], [(0, 0)], 1)"
      by (simp add: component_eval r g se)
    show "seated_component hd frequent_trips ?ts ([(1, 0), (2, 0)], [(0, 0)], 1) = Some ([(0, 0), (1, 0), (2, 0)], 1)"
    proof (rule seated_component_step)
      show "seated_step hd frequent_trips ?ts ([(1, 0), (2, 0)], [(0, 0)], 1) = ([(2, 0)], [(0, 0), (1, 0)], 1)"
        by (simp add: component_eval r g se)
      show "seated_component hd frequent_trips ?ts ([(2, 0)], [(0, 0), (1, 0)], 1) = Some ([(0, 0), (1, 0), (2, 0)], 1)"
      proof (rule seated_component_step)
        show "seated_step hd frequent_trips ?ts ([(2, 0)], [(0, 0), (1, 0)], 1) = ([], [(0, 0), (1, 0), (2, 0)], 1)"
          by (simp add: component_eval r g se)
      qed (simp_all add: seated_component.simps)
    qed simp
  qed simp
  moreover have "rev (seated_starts frequent_trips ?ts [(0, 0), (1, 0), (2, 0)] 1) = [(seated_example 0 600 660, 0, 0)]"
    by (simp add: seated_starts_def incoming_trips_def r se get_representative_def seated_example_def)
  moreover have "seated_next frequent_trips ?ts [(0, 0), (1, 0), (2, 0)] (seated_example 0 600 660, 0, 0) =
      [((seated_example 0 600 660)\<lparr>ut_trips := [0, 1], utc_times := [600, 660, 670, 700], ut_stop_seq := [0, 1, 2]\<rparr>, 1, 0)]"
    by (simp add: seated_next_def se r get_representative_def append_trip_def seated_example_def List.map_filter_def wrap_s16_id)
  moreover have "seated_next frequent_trips ?ts [(0, 0), (1, 0), (2, 0)] (x, 1, 0) = []" for x
    by (simp add: seated_next_def se List.map_filter_def)
  moreover have "next_set_bit [True, True, True] 0 = Some 0" "next_set_bit [False, False, False] 0 = None"
    by (simp_all add: next_set_bit_def u numeral_3_eq_3)
  ultimately show ?thesis unfolding build_seated_trips_def Let_def se
    by (simp add: seated_loop.simps seated_dfs.simps update_remaining_def seated_example_def kMaxSeatedCombinationSteps_def)
qed

section \<open>Witnesses\<close>

definition chained_trips :: seated_trips where
  "chained_trips = \<lparr>se_in = [[], [0]], se_out = [[1], []],
     se_expanded = [[seated_example 0 600 660], [seated_example 1 670 700]]\<rparr>"

lemma chained_trips_ok: "\<forall>u \<in> set (concat (se_expanded chained_trips)). utc_traffic_days u \<noteq> 0" "no_returns chained_trips"
proof -
  show "\<forall>u \<in> set (concat (se_expanded chained_trips)). utc_traffic_days u \<noteq> 0"
    by (simp add: chained_trips_def seated_example_def)
  have "{(t, t'). t < length (se_out chained_trips) \<and> t' \<in> set (se_out chained_trips ! t)} = {(0, 1)}"
    by (auto simp: chained_trips_def less_Suc_eq numeral_2_eq_2)
  moreover have "acyclic {(0, 1 :: nat)}" by (rule acyclic_subset [OF wf_acyclic [OF wf_less]]) auto
  ultimately show "no_returns chained_trips"
    unfolding no_returns_def by (auto simp: chained_trips_def less_Suc_eq numeral_2_eq_2)
qed

theorem seated_transports_sound_witness:
  "\<exists>res. build_seated_trips hd id chained_trips = Some res \<and>
    (\<forall>u \<in> set res. \<exists>segs. seated_transport chained_trips (concat (se_expanded chained_trips)) segs u)"
  by (rule seated_transports_sound [OF chained_trips_ok(1)]) simp_all

theorem seated_runs_kept_witness:
  "\<exists>res u. build_seated_trips hd id chained_trips = Some res \<and> u \<in> set res \<and>
    serves chained_trips (concat (se_expanded chained_trips)) u 1 0"
proof -
  have "\<exists>res. build_seated_trips hd id chained_trips = Some res \<and>
    (\<forall>k < length (concat (se_expanded chained_trips)). \<forall>d. bit (utc_traffic_days (concat (se_expanded chained_trips) ! k)) d \<longrightarrow>
       (\<exists>u \<in> set res. serves chained_trips (concat (se_expanded chained_trips)) u k d))"
    by (rule seated_runs_kept [OF chained_trips_ok]) simp_all
  moreover have "1 < length (concat (se_expanded chained_trips))"
    "bit (utc_traffic_days (concat (se_expanded chained_trips) ! 1)) 0"
    by (simp_all add: chained_trips_def seated_example_def)
  ultimately show ?thesis by blast
qed

end
