(* ===== verification/Gtfs_Load.thy ===== *)
theory Gtfs_Load
  imports Gtfs_Build Gtfs_Blocks Gtfs_Seated_Correct
begin

text \<open>
  The order of the passes of \<open>load_timetable\<close> (\<open>src/loader/gtfs/load_timetable.cc\<close>) after the files are read: single
  trips, blocks and stay-seated trips are expanded to transports in UTC, grouped to routes, written and
  compressed. Proved: every run of a single trip on a day of its service is a run of a transport of the
  timetable, with the same times, and so is every run of a stay-seated transport.
\<close>

section \<open>The passes\<close>

text \<open>Trips without block, stay-seated transfers and time windows of flexible services.\<close>

definition single_trips :: "trip_data \<Rightarrow> trip_links list \<Rightarrow> combination list" where
  "single_trips td links =
     map (\<lambda>i. ([i], gt_service (td ! i)))
       (filter (\<lambda>i. \<not> (tl_in_block (links ! i) \<or> has_seated_transfers (links ! i) \<or> tl_flex (links ! i)) \<and>
            tl_trip_idx (links ! i) \<noteq> None) [0..<length td])"

text \<open>Stay-seated transfers take precedence over a block: its other trips stay single.\<close>

definition block_combinations ::
    "((nat \<Rightarrow> int) \<Rightarrow> nat list \<Rightarrow> nat list) \<Rightarrow> trip_data \<Rightarrow> trip_links list \<Rightarrow> nat list \<Rightarrow> combination list option" where
  "block_combinations srt td links blk =
     (if \<exists>t \<in> set blk. has_seated_transfers (links ! t)
      then Some (map (\<lambda>t. ([t], gt_service (td ! t))) (filter (\<lambda>t. \<not> has_seated_transfers (links ! t)) blk))
      else rule_services srt td blk)"

text \<open>\<open>expand\<close> is \<open>expand_trip\<close> for the time zones, days and assistance of the import.\<close>

definition load_transports ::
    "(seated_queue \<Rightarrow> nat \<times> int) \<Rightarrow> (seated_queue \<Rightarrow> seated_queue) \<Rightarrow> ((nat \<Rightarrow> int) \<Rightarrow> nat list \<Rightarrow> nat list)
     \<Rightarrow> (nat list \<Rightarrow> bitfield \<Rightarrow> utc_trip list option) \<Rightarrow> trip_data \<Rightarrow> trip_links list \<Rightarrow> nat list list \<Rightarrow> utc_trip list option" where
  "load_transports pick ord srt expand td links blocks =
     (case those (map (block_combinations srt td links) blocks) of
        None \<Rightarrow> None
      | Some combos \<Rightarrow>
          (case those (map (\<lambda>(trips, days). expand trips days) (single_trips td links @ concat combos)) of
             None \<Rightarrow> None
           | Some us \<Rightarrow>
               (case expand_seated_trips td links (\<lambda>i. expand [i] (gt_service (td ! i))) of
                  None \<Rightarrow> None
                | Some s \<Rightarrow> map_option (\<lambda>vs. concat us @ vs) (build_seated_trips pick ord s))))"

section \<open>From the feed to the timetable\<close>

lemma expand_single_trip:
  assumes "gt_frequency (td ! i) = None"
  shows "expand_trip ord sord rc td noon tti [i] b sel None = Some (expand_local_to_utc ord td noon tti (expand_once [i] b) sel)"
proof -
  have "fold_opt (\<lambda>u us. Some (us @ [u])) xs ys = Some (ys @ xs)" for xs ys :: "utc_trip list"
    by (induction xs arbitrary: ys) simp_all
  then show ?thesis using assms by (simp add: expand_trip_def expand_frequencies.simps has_frequency_def)
qed

lemma those_mem: "those xs = Some ys \<Longrightarrow> Some y \<in> set xs \<Longrightarrow> y \<in> set ys"
  by (induction xs arbitrary: ys) (auto split: option.splits)

lemma load_single:
  assumes "load_transports pick ord srt expand td links blocks = Some us" "c \<in> set (single_trips td links)"
    and "expand (fst c) (snd c) = Some vs" "u \<in> set vs"
  shows "u \<in> set us"
proof -
  from assms(1) obtain combos xs where x: "those (map (\<lambda>(trips, days). expand trips days) (single_trips td links @ concat combos)) = Some xs"
    "set (concat xs) \<subseteq> set us"
    by (auto simp: load_transports_def split: option.splits)
  have "Some vs \<in> set (map (\<lambda>(trips, days). expand trips days) (single_trips td links @ concat combos))"
    using assms(2,3) by (force simp: case_prod_unfold)
  from those_mem [OF x(1) this] x(2) assms(4) show ?thesis by auto
qed

text \<open>The timetable that results from the transports.\<close>

definition built_timetable :: "build_state \<Rightarrow> (route_key \<times> utc_trip list list) list \<Rightarrow> timetable" where
  "built_timetable st0 routes =
     (let st = write_routes routes st0 in compress_stop_times (bs_ctx st) (write_location_routes st))"

text \<open>The run of a transport from event to event, in minutes since the epoch.\<close>

definition tt_run :: "int interval \<Rightarrow> timetable \<Rightarrow> nat \<Rightarrow> nat \<Rightarrow> int list" where
  "tt_run tti tt t d =
     map (\<lambda>e. (ifrom tti + int d) * 1440 + delta_minutes (event_mam tt t ((e + 1) div 2) (if even e then Dep else Arr)))
       [0..<2 * seq_length tt (transport_route tt ! t) - 2]"

definition tt_runs :: "int interval \<Rightarrow> timetable \<Rightarrow> int list set" where
  "tt_runs tti tt = {tt_run tti tt t d | r t d. r < n_routes tt \<and> t \<in> set (iv_list (route_transport_ranges tt ! r)) \<and>
     is_transport_active tt t d}"

lemma built_ranges:
  assumes "group_trips route_id_type td us = Some m" "transports_ok td us"
    and "m = map_of routes" "distinct (map fst routes)" "routes_fit routes"
    and "written [] st0" "nothing_compressed (bs_tt st0)" "tt = built_timetable st0 routes" "r < length (route_list routes)"
  shows "t \<in> set (iv_list (route_transport_ranges tt ! r)) \<longleftrightarrow>
    (\<exists>i < length (snd (route_list routes ! r)). t = ifrom (route_transport_ranges tt ! r) + i)"
proof -
  define st where "st = write_routes routes st0"
  have tt: "tt = compress_stop_times (bs_ctx st) (write_location_routes st)"
    by (simp add: assms(8) built_timetable_def st_def Let_def)
  have W: "written (route_list routes) st" and z: "nothing_compressed (bs_tt st)"
    using write_routes_ok [OF assms(6) st_def] assms(7) by (simp_all add: later_tables_def nothing_compressed_def)
  have rg: "route_transport_ranges tt = route_transport_ranges (bs_tt st)"
    by (rule compressed_route_times(3) [OF W grouped_services_ok [OF assms(1-5)] z tt assms(9)])
  have "ito (route_transport_ranges (bs_tt st) ! r) = ifrom (route_transport_ranges (bs_tt st) ! r) + length (snd (route_list routes ! r))"
    using W assms(9) by (simp add: written_def route_written_def Let_def)
  then show ?thesis unfolding rg
    by (auto simp: iv_list_def intro!: exI [of _ "t - ifrom (route_transport_ranges (bs_tt st) ! r)"])
qed

lemma built_run:
  assumes "group_trips route_id_type td us = Some m" "transports_ok td us"
    and "m = map_of routes" "distinct (map fst routes)" "routes_fit routes"
    and "written [] st0" "nothing_compressed (bs_tt st0)" "tt = built_timetable st0 routes" "r < length (route_list routes)"
    and i: "i < length (snd (route_list routes ! r))" and t: "t = ifrom (route_transport_ranges tt ! r) + i"
    and u: "u = snd (route_list routes ! r) ! i"
  shows "tt_run tti tt t d = map (\<lambda>x. (ifrom tti + int d) * 1440 + x) (utc_times u)"
    "is_transport_active tt t d \<longleftrightarrow> bit (utc_traffic_days u) d" "u \<in> set us"
proof -
  note T = loaded_times [OF assms(1-7) refl assms(8) [unfolded built_timetable_def Let_def], unfolded Let_def]
  have r: "r < n_routes tt" using T assms(9) by simp
  have L: "get_stop_seq td u = Some (route_location_seq tt ! r)" "transport_route tt ! t = r"
    "is_transport_active tt t d \<longleftrightarrow> bit (utc_traffic_days u) d"
    "event_idx j ev < 2 * seq_length tt r - 2 \<Longrightarrow> event_mam tt t j ev = delta_of_duration (utc_times u ! event_idx j ev)" for j ev
    using T r i unfolding t u by blast+
  have "u \<in> set (concat (map snd (route_list routes)))" using assms(9) i u by (auto intro!: bexI [of _ "route_list routes ! r"])
  then show us: "u \<in> set us" using T by (metis mset_eq_setD)
  then have ok: "times_ok (2 * seq_length tt r - 2) (utc_times u)"
    using assms(2) L(1) unfolding transports_ok_def by fastforce
  show "is_transport_active tt t d \<longleftrightarrow> bit (utc_traffic_days u) d" by (rule L(3))
  show "tt_run tti tt t d = map (\<lambda>x. (ifrom tti + int d) * 1440 + x) (utc_times u)"
  proof (rule nth_equalityI)
    show "length (tt_run tti tt t d) = length (map (\<lambda>x. (ifrom tti + int d) * 1440 + x) (utc_times u))"
      using times_okD(1) [OF ok] L(2) by (simp add: tt_run_def)
    fix e assume "e < length (tt_run tti tt t d)"
    then have e: "e < 2 * seq_length tt r - 2" using L(2) by (simp add: tt_run_def)
    let ?ev = "if even e then Dep else Arr"
    have idx: "event_idx ((e + 1) div 2) ?ev = e" by (auto elim!: evenE oddE)
    have x: "0 \<le> utc_times u ! e \<and> utc_times u ! e < 32768" by (rule times_okD(4) [OF ok e])
    have "event_mam tt t ((e + 1) div 2) ?ev = delta_of_duration (utc_times u ! e)"
      using L(4) [of "(e + 1) div 2" ?ev] e unfolding idx by simp
    then show "tt_run tti tt t d ! e = map (\<lambda>x. (ifrom tti + int d) * 1440 + x) (utc_times u) ! e"
      using e L(2) x times_okD(1) [OF ok] by (simp add: tt_run_def delta_of_time)
  qed
qed

text \<open>The runs of the timetable are those of the transports.\<close>

lemma built_runs:
  assumes "group_trips route_id_type td us = Some m" "transports_ok td us"
    and "m = map_of routes" "distinct (map fst routes)" "routes_fit routes"
    and "written [] st0" "nothing_compressed (bs_tt st0)" "tt = built_timetable st0 routes"
  shows "tt_runs tti tt = runs_of tti us"
proof -
  note T = loaded_times [OF assms(1-7) refl assms(8) [unfolded built_timetable_def Let_def], unfolded Let_def]
  have n: "n_routes tt = length (route_list routes)" using T by simp
  have us: "set us = set (concat (map snd (route_list routes)))" using T by (metis mset_eq_setD)
  show ?thesis
  proof (intro set_eqI iffI)
    fix x assume "x \<in> tt_runs tti tt"
    then obtain r t d where x: "x = tt_run tti tt t d" "r < length (route_list routes)"
      "t \<in> set (iv_list (route_transport_ranges tt ! r))" "is_transport_active tt t d"
      unfolding tt_runs_def n by blast
    then obtain i where i: "i < length (snd (route_list routes ! r))" "t = ifrom (route_transport_ranges tt ! r) + i"
      using built_ranges [OF assms x(2)] by blast
    from built_run [OF assms x(2) i refl] x(1,4) show "x \<in> runs_of tti us" unfolding runs_of_def by blast
  next
    fix x assume "x \<in> runs_of tti us"
    then obtain u d where u: "x = map (\<lambda>x. (ifrom tti + int d) * 1440 + x) (utc_times u)" "u \<in> set us" "bit (utc_traffic_days u) d"
      unfolding runs_of_def by blast
    then obtain p where "p \<in> set (route_list routes)" "u \<in> set (snd p)" unfolding us by auto
    then obtain r where r: "r < length (route_list routes)" "u \<in> set (snd (route_list routes ! r))"
      by (metis in_set_conv_nth)
    then obtain i where i: "i < length (snd (route_list routes ! r))" "u = snd (route_list routes ! r) ! i"
      by (auto simp: in_set_conv_nth)
    let ?t = "ifrom (route_transport_ranges tt ! r) + i"
    have "?t \<in> set (iv_list (route_transport_ranges tt ! r))" using built_ranges [OF assms r(1)] i(1) by blast
    moreover have "x = tt_run tti tt ?t d" "is_transport_active tt ?t d"
      using built_run(1,2) [OF assms r(1) i(1) refl i(2)] u by simp_all
    ultimately show "x \<in> tt_runs tti tt" unfolding tt_runs_def n using r(1) by blast
  qed
qed

text \<open>Property C11. From a trip of the feed to the timetable. A trip without block, transfers and frequency, with increasing
  times up to 20 days and a UTC offset of at most 16 hours: on every day of its service that is loaded the
  timetable has a transport that runs at the times of the trip, converted to UTC.\<close>

theorem feed_runs_loaded:
  assumes "load_transports pick ord srt (\<lambda>trips days. expand_trip cord sord rc td noon tti trips days sel None) td links blocks = Some us"
    and "([i], gt_service (td ! i)) \<in> set (single_trips td links)" "gt_frequency (td ! i) = None"
    and "has_valid_times td i" "times_in_range (local_times td [(i, 0)])"
    and "\<forall>k < 512. \<bar>noon ! k\<bar> \<le> 960" "ito tti - ifrom tti \<le> 512" "\<And>m. set (cord m) = set m"
    and "group_trips route_id_type td us = Some m" "transports_ok td us"
    and "m = map_of routes" "distinct (map fst routes)" "routes_fit routes"
    and "written [] st0" "nothing_compressed (bs_tt st0)" "tt = built_timetable st0 routes"
    and "loaded_on td [(i, 0)] noon tti sel (gt_service (td ! i)) day"
  shows "local_run td [(i, 0)] noon tti day \<in> tt_runs tti tt"
proof -
  let ?fet = "expand_once [i] (gt_service (td ! i))"
  let ?vs = "expand_local_to_utc cord td noon tti ?fet sel"
  have ts: "[(i, 0)] = valid_trips td ?fet" using assms(4) by (simp add: valid_trips_def expand_once_def)
  have "local_run td [(i, 0)] noon tti day \<in> runs_of tti ?vs"
    using assms(17) unfolding local_to_utc_runs [OF ts _ _ assms(5-8), simplified] by (auto simp: expand_once_def)
  moreover have "set ?vs \<subseteq> set us"
    using load_single [OF assms(1,2), of ?vs] expand_single_trip [OF assms(3)] by auto
  ultimately show ?thesis unfolding built_runs [OF assms(9-16)] by (auto simp: runs_of_def)
qed

section \<open>Witness\<close>

definition one_trip_feed :: trip_data where
  "one_trip_feed = [\<lparr>gt_route = 0, gt_service = 7, gt_stop_seq = [0, 1],
     gt_event_times = [\<lparr>ev_arr = 600, ev_dep = 600\<rparr>, \<lparr>ev_arr = 630, ev_dep = 630\<rparr>], gt_frequency = None,
     gt_requires_interpolation = False, gt_flags = [False, True, False, False], gt_clasz = Some kBus\<rparr>]"

definition one_trip_links :: "trip_links list" where
  "one_trip_links = [\<lparr>tl_in_block = False, tl_seated_in = [], tl_seated_out = [], tl_flex = False, tl_trip_idx = Some 0\<rparr>]"

abbreviation one_trip_expand :: "nat list \<Rightarrow> bitfield \<Rightarrow> utc_trip list option" where
  "one_trip_expand \<equiv> \<lambda>trips b. expand_trip (\<lambda>m. m) (\<lambda>m. m) (\<lambda>_. kBus) one_trip_feed (replicate 512 0) (mk_iv 99 103) trips b (mk_iv 99 103) None"

lemma one_trip_utc:
  "expand_local_to_utc (\<lambda>m. m) one_trip_feed (replicate 512 0) (mk_iv 99 103) (expand_once [0] 7) (mk_iv 99 103) = [example_utc 600 7]"
proof -
  have v: "valid_trips one_trip_feed (expand_once [0] 7) = [(0, 0)]"
    by (simp add: valid_trips_def expand_once_def has_valid_times_def one_trip_feed_def)
  have t: "first_dep_time one_trip_feed [(0, 0)] = 600" "last_arr_time one_trip_feed [(0, 0)] = 630"
    by (simp_all add: first_dep_time_def last_arr_time_def one_trip_feed_def wrap_s16_id)
  have d: "[99..102 :: int] = [99, 100, 101, 102]" by (simp add: upto.simps)
  have f: "utc_day (replicate 512 0) (mk_iv 99 103) (mk_iv 99 103) 7 600 630 (99 + int k) =
      (if bit (7 :: bitfield) k then Some ((0, 0), k) else None)" if "k < 4" for k
    using that by (auto simp: utc_day_def Let_def cdiv_def mk_iv_def iv_overlaps_def wrap_s16_id kMaxDays_def)
  have f': "utc_day (replicate 512 0) (mk_iv 99 103) (mk_iv 99 103) 7 600 630 99 = Some ((0, 0), 0)"
    "utc_day (replicate 512 0) (mk_iv 99 103) (mk_iv 99 103) 7 600 630 100 = Some ((0, 0), 1)"
    "utc_day (replicate 512 0) (mk_iv 99 103) (mk_iv 99 103) 7 600 630 101 = Some ((0, 0), 2)"
    "utc_day (replicate 512 0) (mk_iv 99 103) (mk_iv 99 103) 7 600 630 102 = None"
    using f [of 0] f [of 1] f [of 2] f [of 3] by (simp_all add: bit_numeral_rec)
  have "bf_set 2 True (bf_set (Suc 0) True (bf_set 0 True 0)) = 7"
    by (simp add: bf_set_def set_bit_eq_or)
  then have "fold (add_day (utc_day (replicate 512 0) (mk_iv 99 103) (mk_iv 99 103) 7 600 630)) [99, 100, 101, 102] [] = [((0, 0), 7)]"
    by (simp add: add_day_def f')
  moreover have "build_time_string one_trip_feed [(0, 0)] (0, 0) = [600, 630]"
    by (simp add: build_time_string_def one_trip_feed_def wrap_s16_id)
  moreover have "fe_traffic_days (expand_once [0] 7) = 7" "ifrom (mk_iv 99 (103 :: int)) = 99" "ito (mk_iv 99 (103 :: int)) - 1 = 102"
    by (simp_all add: expand_once_def mk_iv_def)
  ultimately show ?thesis
    unfolding expand_local_to_utc_def v Let_def t by (simp add: d example_utc_def del: fold_simps)
qed

lemma one_trip_transports:
  "load_transports hd (\<lambda>m. m) sort_key one_trip_expand one_trip_feed one_trip_links [] = Some [example_utc 600 7]"
proof -
  have f: "gt_frequency (one_trip_feed ! 0) = None" "gt_service (one_trip_feed ! 0) = 7" by (simp_all add: one_trip_feed_def)
  have s: "single_trips one_trip_feed one_trip_links = [([0], 7)]"
    by (simp add: single_trips_def one_trip_feed_def one_trip_links_def has_seated_transfers_def)
  have "rule_trips one_trip_links = []" by (simp add: rule_trips_def one_trip_links_def has_seated_transfers_def)
  then have "expand_seated_trips one_trip_feed one_trip_links e = Some \<lparr>se_in = [], se_out = [], se_expanded = []\<rparr>" for e
    by (simp add: expand_seated_trips_def)
  moreover have "build_seated_trips hd (\<lambda>m. m) \<lparr>se_in = [], se_out = [], se_expanded = []\<rparr> = Some []"
    by (simp add: build_seated_trips_def seated_loop.simps next_set_bit_def)
  ultimately show ?thesis
    using expand_single_trip [OF f(1), of "\<lambda>m. m" "\<lambda>m. m" "\<lambda>_. kBus" "replicate 512 0" "mk_iv 99 103" 7 "mk_iv 99 103"]
    by (simp add: load_transports_def s one_trip_utc)
qed

abbreviation one_trip_routes :: "(route_key \<times> utc_trip list list) list" where
  "one_trip_routes \<equiv> [(example_key, [[example_utc 600 7]])]"

lemma one_trip_group: "group_trips (\<lambda>_. 3) one_trip_feed [example_utc 600 7] = Some (map_of one_trip_routes)"
proof -
  have "route_key (\<lambda>_. 3) one_trip_feed (example_utc 600 7) = Some example_key"
    by (simp add: route_key_def get_stop_seq_def example_utc_def one_trip_feed_def example_key_def apply_flag_seq_def all_route_flags_def)
  then show ?thesis by (simp add: group_trips_def add_expanded_trip_def)
qed

theorem feed_runs_loaded_witness:
  "[100 * 1440 + 600, 100 * 1440 + 630] \<in> tt_runs (mk_iv 99 103) (built_timetable example_start one_trip_routes)"
proof -
  have c: "([0], gt_service (one_trip_feed ! 0)) \<in> set (single_trips one_trip_feed one_trip_links)"
    "gt_frequency (one_trip_feed ! 0) = None" "has_valid_times one_trip_feed 0"
    by (simp_all add: single_trips_def one_trip_feed_def one_trip_links_def has_seated_transfers_def has_valid_times_def)
  have L: "local_times one_trip_feed [(0, 0)] = [600, 630]" by (simp add: local_times_def one_trip_feed_def)
  then have r: "times_in_range (local_times one_trip_feed [(0, 0)])" by (simp add: times_in_range_def)
  have g: "transports_ok one_trip_feed [example_utc 600 7]" "routes_fit one_trip_routes" "distinct (map fst one_trip_routes)"
    by (simp_all add: transports_ok_def get_stop_seq_def example_utc_def one_trip_feed_def times_ok_def routes_fit_def
        route_list_def example_key_def)
  have t: "first_dep_time one_trip_feed [(0, 0)] = 600" "last_arr_time one_trip_feed [(0, 0)] = 630"
    by (simp_all add: first_dep_time_def last_arr_time_def one_trip_feed_def wrap_s16_id)
  have sv: "gt_service (one_trip_feed ! 0) = 7" by (simp add: one_trip_feed_def)
  have "bit (7 :: bitfield) 1" by (simp add: bit_numeral_rec)
  then have d: "loaded_on one_trip_feed [(0, 0)] (replicate 512 0) (mk_iv 99 103) (mk_iv 99 103) (gt_service (one_trip_feed ! 0)) 100"
    by (simp add: loaded_on_def t mk_iv_def iv_overlaps_def sv Let_def)
  have "local_run one_trip_feed [(0, 0)] (replicate 512 0) (mk_iv 99 103) 100 \<in>
      tt_runs (mk_iv 99 103) (built_timetable example_start one_trip_routes)"
    by (rule feed_runs_loaded [OF one_trip_transports c(1,2,3) r _ _ _ one_trip_group g(1) refl g(3,2)
          example_start_ok(4,5) refl d]) simp_all
  then show ?thesis by (simp add: local_run_def L mk_iv_def)
qed

end
