(* ===== verification/Spec2Isabelle.thy ===== *)
theory Spec2Isabelle
  imports Raptor_Journeys Start_Examples Rt_Lower_Bounds Connected_Footpaths Tb_Runs Gtfs_Sequence Gtfs_Load
begin

text \<open>
  A verification development for nigiri, a routing engine for public transport timetables.

  Parts of the program. The loaders turn timetable input into a \<open>timetable\<close>
  (\<open>include/nigiri/timetable.h\<close>): locations, routes (sequences of stops), transports (one vehicle
  serving a route) with traffic days and event times. A \<open>rt_timetable\<close> overlays it with the
  traffic days, transports and times of today. A query is answered by the interval search
  (\<open>include/nigiri/routing/search.h\<close>): it collects the departures from the origin in an interval
  (\<open>src/routing/start_times.cc\<close>), runs the round-based search
  (\<open>include/nigiri/routing/raptor/raptor.h\<close>) once for each start time, latest first, keeps the
  Pareto-optimal journeys and extends the interval until there are enough of them.

  Theories, in the order of the code they model:

  \<^item> \<open>Prelude\<close>: named collections and lemmas on folds, loops with break, wrap-around and
    resizable lists that all others share.
  \<^item> \<open>Nigiri_Types\<close> (\<open>types.h\<close>), \<open>Intervals\<close> (\<open>common/interval.h\<close>), \<open>Delta_Time\<close>
    (\<open>common/delta_t.h\<close>, \<open>split_duration.h\<close>, \<open>mam_dist.cc\<close>), \<open>Stops\<close> (\<open>stop.h\<close>, \<open>footpath.h\<close>,
    \<open>td_footpath.h\<close>): the values. Integers of fixed width are \<open>int\<close> with the wrap-around written out
    by \<open>i16\<close>, \<open>u16\<close>, \<open>i32\<close> and so on; saturating 16 bit times use \<open>clamp\<close>. The lemmas are round trips
    of every packed representation, bounds and the exact ranges in which arithmetic does not wrap.
  \<^item> \<open>Pareto\<close> (\<open>routing/pareto_set.h\<close>), \<open>Journey\<close> (\<open>routing/journey.h\<close>, \<open>rt/run.h\<close>), \<open>Query\<close>
    (\<open>routing/query.h\<close>, \<open>clasz_mask.h\<close>, \<open>transfer_time_settings.h\<close>, \<open>interval_estimate.h\<close>).
  \<^item> \<open>Timetable\<close>, \<open>Locations\<close>, \<open>Rt_Timetable\<close>: the tables the search reads, as far as it reads them,
    and the operations that write them. \<open>Compress\<close>: the loader pass that deduplicates stop times.
  \<^item> \<open>Start_Times\<close>: departures from the origin and destinations; which departures are found is
    stated exactly. \<open>Start_Examples\<close> evaluates the starts of a query near two lines.
  \<^item> \<open>Raptor\<close>, \<open>Raptor_Rounds\<close>: the round-based search, arrays as nested lists, one definition per
    loop of the code. \<open>Raptor_Spec\<close> states by rules which journeys exist; \<open>Raptor_Sound\<close>,
    \<open>Raptor_Scan\<close>, \<open>Raptor_Rides\<close> and \<open>Raptor_Correct\<close> prove the labels and results of the search
    to be derivable by them.
    \<open>Raptor_Results\<close>: the results are the Pareto set of what the rounds found.
  \<^item> \<open>Search\<close>, \<open>Search_Correct\<close>: the search over an interval for any algorithm that keeps the contract
    \<open>search_algo\<close>; \<open>Raptor_Search\<close> interprets it on the round-based search and \<open>Tb_Search\<close> on the
    trip-based one, so that soundness of the whole search holds for both.
  \<^item> \<open>Dial\<close> (\<open>common/dial.h\<close>), \<open>Dijkstra\<close> (\<open>routing/dijkstra.h\<close>), \<open>Lower_Bounds\<close>
    (\<open>loader/build_lb_graph.h\<close>), \<open>Rt_Lower_Bounds\<close> (\<open>rt_timetable.cc\<close>): the bucket queue with its contract
    \<open>priority_queue\<close>, the shortest path search over it, and the lower bounds the search prunes with. The
    graphs of both directions are proved to have an edge for every ride between two stations on a route the profile
    may use and for every footpath of it, at most as heavy; with real-time transports for the default profile, and
    for another one where its edges are no heavier than the default ones.
  \<^item> \<open>Footpaths\<close> (\<open>loader/build_footpaths.cc\<close>), \<open>Footpaths_Correct\<close>, \<open>Connected_Footpaths\<close>: the footpaths
    of a timetable are the shortest ways within the components of the links given, with the adjustment of
    durations by distance and the cut at the maximal length, as both options are set.
  \<^item> \<open>Tb_Labels\<close>, \<open>Tb_Preprocess\<close> (\<open>routing/tb/preprocess.cc\<close>, \<open>tb_data.h\<close>): the transfers between
    transports. \<open>Tb_Preprocess_Correct\<close> proves each to be feasible while they are computed,
    \<open>Tb_Transfers\<close> as the search reads them from the result, \<open>Tb_Example\<close> evaluates a small timetable.
    \<open>Tb_Query\<close>, \<open>Tb_Reconstruct\<close> (\<open>query_engine.cc\<close>, \<open>queue.h\<close>, \<open>reached.h\<close>): the search; \<open>Tb_Sound\<close> states
    by rules which rides exist and proves the queue to hold such rides only; \<open>Tb_Runs\<close> evaluates runs.
  \<^item> \<open>Gtfs_Services\<close> (\<open>loader/gtfs/services.cc\<close>, \<open>calendar.cc\<close>, \<open>calendar_date.cc\<close>), \<open>Gtfs_Sequence\<close>
    (\<open>stop_seq_number_encoding.h\<close>), \<open>Gtfs_Trips\<close> (\<open>trip.h\<close>), \<open>Gtfs_Blocks\<close> (\<open>trip.cc\<close>), \<open>Gtfs_Expand\<close>
    (\<open>local_to_utc.h\<close>, \<open>noon_offsets.cc\<close>): from the rows of a GTFS feed to transports in UTC. The traffic days, the
    chains of trips in a block and the absolute times of all runs are stated exactly. \<open>Route_Order\<close>
    (\<open>loader/get_index.h\<close>): services of one stop sequence are grouped into routes in which none overtakes
    another, which gives the order of departures the searches rely on. \<open>Gtfs_Routes\<close>
    (\<open>loader/gtfs/load_timetable.cc\<close>, \<open>route.cc\<close>, \<open>import_context.cc\<close>): the key of a route and the writing of
    routes into the timetable; \<open>Gtfs_Build\<close> composes grouping, writing and compression and proves the resulting
    timetable to have the times and traffic days of the transports, in order. \<open>Gtfs_Seated\<close>
    (\<open>loader/gtfs/seated.h\<close>, \<open>seated.cc\<close>), \<open>Gtfs_Seated_Correct\<close>: trips on which passengers stay in the vehicle
    are concatenated; the search for them ends, what it emits runs, and when no run is lost is stated.
    \<open>Gtfs_Load\<close> puts the passes in the order of \<open>load_timetable\<close> and proves that a run of a trip of the feed is a
    run of a transport of the timetable, at the same times.

  \<^item> \<open>Frun\<close> (\<open>rt/frun.cc\<close>): a run read from the static or the real-time timetable. \<open>Reconstruct\<close>
    (\<open>routing/raptor/reconstruct.cc\<close>), \<open>Optimize\<close> (\<open>optimize_footpaths.cc\<close>, \<open>specify_td_offsets.cc\<close>): the legs of a
    journey from the labels of the round-based search, and the passes over them. \<open>Reconstruct_Correct\<close> proves that
    legs are found only where a ride, a walk of the tables or an offset of the query exists, \<open>Optimize_Correct\<close> that the passes keep this and make no journey
    worse, \<open>Raptor_Journeys\<close> puts both behind \<open>raptor::reconstruct\<close> and shows where they fail outside of the
    hypotheses. The hypotheses: the tables are consistent, the labels the reconstruction reads are away from the ends of
    the 16 bit range (\<open>calm\<close>, \<open>near_base\<close>), walks are at most 511 minutes and adjusted ones do not wrap; for
    the passes, no flags or wheelchair required and no time-dependent offsets, and for a backward search neither
    vias nor time-dependent footpaths.

  Loops. Structural recursion and folds are used wherever the code iterates over a container.
  Loops with \<open>break\<close> are \<open>for_break\<close>. The binary search, the chain of parents, the shortest path
  search, the components and the rounds of the trip-based search have a measure. The two loops over stay-seated trips
  are partial functions that are proved to return. Fuel is used in three
  places: the loop of the interval search (the code bounds it by a time-out of the caller; one step per
  minute of the timetable is proved to be enough), the descendants of a location (as many steps as there are
  locations) and the parents of an entry of the trip-based queue (as many as there are entries).
  The loop over departures in the trip-based preprocessing runs over three days of departures; the
  code's limit of one day of waiting ends it before.

  Not modelled: the parsers of the loaders, the direct search, the GPU search, applying real-time messages,
  fares, shapes and the bindings. Of the timetable the strings, trips, areas and flexible
  transports are left out since the search does not compute with them. Logging, statistics of wall
  clock time and tracing are left out everywhere. Floating-point numbers are dyadic rationals
  rounded to the precision of their type; infinities and NaN do not occur in the modelled code.
\<close>

end
